(* ===== verification/Prelude.thy ===== *)
theory Prelude
  imports Main "HOL-Library.Word"
begin

text \<open>
  Shared material of the development.
  \<^item> Machine integers. A sequence number is a Rust \<open>i64\<close>; it is an \<open>int\<close> here, and every addition
    or subtraction of the source is \<open>add_i64\<close> / \<open>sub_i64\<close>, which wrap around as the release
    profile of the crate does. A \<open>usize\<close> is a \<open>nat\<close>; a \<open>u64\<close> bitmap word is a \<open>64 word\<close>.
  \<^item> The few standard-library operations the source calls (\<open>is_power_of_two\<close>, \<open>trailing_zeros\<close>,
    \<open>saturating_sub\<close>, \<open>try_from\<close>).
  \<^item> A polling loop with fuel, the shape of every spin loop of the crate, with the lemmas that say
    when it returns and what it returns.
  \<^item> The collections of simplification rules the components share.
\<close>

unbundle bit_operations_syntax

named_theorems i64_simps \<open>arithmetic of i64 values that stay in range\<close>
named_theorems ring_simps \<open>slot arithmetic of power-of-two rings\<close>

section \<open>Machine integers\<close>

type_synonym i64 = int
type_synonym usize = nat
type_synonym u64 = "64 word"

abbreviation i64_max :: i64 where "i64_max \<equiv> 9223372036854775807"
abbreviation i64_min :: i64 where "i64_min \<equiv> - 9223372036854775808"

definition in_i64 :: "int \<Rightarrow> bool" where
  "in_i64 x \<longleftrightarrow> i64_min \<le> x \<and> x \<le> i64_max"

definition wrap_i64 :: "int \<Rightarrow> i64" where
  "wrap_i64 x = (x + 9223372036854775808) mod 18446744073709551616 - 9223372036854775808"

definition add_i64 :: "i64 \<Rightarrow> i64 \<Rightarrow> i64" where
  "add_i64 a b = wrap_i64 (a + b)"

definition sub_i64 :: "i64 \<Rightarrow> i64 \<Rightarrow> i64" where
  "sub_i64 a b = wrap_i64 (a - b)"

definition saturating_add_i64 :: "i64 \<Rightarrow> i64 \<Rightarrow> i64" where
  "saturating_add_i64 a b = max i64_min (min i64_max (a + b))"

definition saturating_sub_i64 :: "i64 \<Rightarrow> i64 \<Rightarrow> i64" where
  "saturating_sub_i64 a b = max i64_min (min i64_max (a - b))"

text \<open>\<open>i64::try_from(n: usize)\<close> and \<open>usize::try_from(n: i64)\<close>.\<close>

definition i64_try_from :: "usize \<Rightarrow> i64 option" where
  "i64_try_from n = (if int n \<le> i64_max then Some (int n) else None)"

definition usize_try_from :: "i64 \<Rightarrow> usize option" where
  "usize_try_from x = (if 0 \<le> x then Some (nat x) else None)"

text \<open>The cast \<open>sequence as usize\<close> keeps the 64 bits of the two's complement representation.\<close>

definition i64_as_usize :: "i64 \<Rightarrow> usize" where
  "i64_as_usize x = nat (x mod 18446744073709551616)"

lemma wrap_i64_id [i64_simps]: "in_i64 x \<Longrightarrow> wrap_i64 x = x"
  by (simp add: wrap_i64_def in_i64_def)

lemma in_i64_wrap [simp]: "in_i64 (wrap_i64 x)"
  by (simp add: wrap_i64_def in_i64_def)

lemma add_i64_id [i64_simps]: "in_i64 (a + b) \<Longrightarrow> add_i64 a b = a + b"
  by (simp add: add_i64_def wrap_i64_id)

lemma sub_i64_id [i64_simps]: "in_i64 (a - b) \<Longrightarrow> sub_i64 a b = a - b"
  by (simp add: sub_i64_def wrap_i64_id)

lemma saturating_sub_i64_id [i64_simps]: "in_i64 (a - b) \<Longrightarrow> saturating_sub_i64 a b = a - b"
  by (simp add: saturating_sub_i64_def in_i64_def)

lemma saturating_add_i64_id [i64_simps]: "in_i64 (a + b) \<Longrightarrow> saturating_add_i64 a b = a + b"
  by (simp add: saturating_add_i64_def in_i64_def)

lemma add_i64_wraps: "add_i64 i64_max 1 = i64_min"
  by (simp add: add_i64_def wrap_i64_def)

section \<open>Power-of-two rings\<close>

text \<open>Rust's \<open>usize::is_power_of_two\<close> is \<open>count_ones() == 1\<close>.\<close>

fun count_ones :: "nat \<Rightarrow> nat" where
  "count_ones n = (if n = 0 then 0 else n mod 2 + count_ones (n div 2))"

declare count_ones.simps [simp del]

definition is_power_of_two :: "usize \<Rightarrow> bool" where
  "is_power_of_two n \<longleftrightarrow> count_ones n = 1"

text \<open>\<open>trailing_zeros\<close> of a 64-bit value; 64 for zero.\<close>

fun trailing_zeros :: "nat \<Rightarrow> nat" where
  "trailing_zeros n =
     (if n = 0 then 64 else if n mod 2 = 1 then 0 else Suc (trailing_zeros (n div 2)))"

declare trailing_zeros.simps [simp del]

lemma count_ones_0 [simp]: "count_ones 0 = 0"
  by (simp add: count_ones.simps)

lemma count_ones_eq_0 [simp]: "count_ones n = 0 \<longleftrightarrow> n = 0"
proof (induction n rule: count_ones.induct)
  case (1 n)
  then show ?case by (cases "n = 0") (auto simp: count_ones.simps [of n])
qed

lemma count_ones_pow2 [simp]: "count_ones (2 ^ k) = 1"
  by (induction k)
    (simp_all add: count_ones.simps [of "Suc 0"] count_ones.simps [of "2 * 2 ^ k" for k])

lemma count_ones_1D: "count_ones n = 1 \<Longrightarrow> \<exists>k. n = 2 ^ k"
proof (induction n rule: count_ones.induct)
  case (1 n)
  have n: "n \<noteq> 0" using "1.prems" by (cases "n = 0") simp_all
  show ?case
  proof (cases "n mod 2 = 1")
    case True
    with "1.prems" n have "n div 2 = 0" by (simp add: count_ones.simps [of n])
    with True n have "n = 2 ^ 0" by simp
    then show ?thesis ..
  next
    case False
    with "1.prems" n have "count_ones (n div 2) = 1" by (simp add: count_ones.simps [of n])
    with "1.IH" n obtain k where "n div 2 = 2 ^ k" by blast
    moreover from False have "n = 2 * (n div 2)" by presburger
    ultimately have "n = 2 ^ Suc k" by simp
    then show ?thesis ..
  qed
qed

lemma is_power_of_two_iff: "is_power_of_two n \<longleftrightarrow> (\<exists>k. n = 2 ^ k)"
  unfolding is_power_of_two_def using count_ones_1D by force

lemma trailing_zeros_pow2 [simp]: "trailing_zeros (2 ^ k) = k"
  by (induction k)
    (simp_all add: trailing_zeros.simps [of "Suc 0"] trailing_zeros.simps [of "2 * 2 ^ k" for k])

lemma trailing_zeros_bit: "n \<noteq> 0 \<Longrightarrow> bit n (trailing_zeros n)"
proof (induction n rule: trailing_zeros.induct)
  case (1 n)
  then show ?case
    by (cases "n mod 2 = 1")
      (auto simp: trailing_zeros.simps [of n] bit_0 bit_Suc odd_iff_mod_2_eq_one)
qed

lemma trailing_zeros_least: "n \<noteq> 0 \<Longrightarrow> i < trailing_zeros n \<Longrightarrow> \<not> bit n i"
proof (induction n arbitrary: i rule: trailing_zeros.induct)
  case (1 n)
  show ?case
  proof (cases "n mod 2 = 1")
    case True
    with "1.prems" show ?thesis by (simp add: trailing_zeros.simps [of n])
  next
    case False
    with "1.prems" "1.IH" show ?thesis
      by (cases i) (auto simp: trailing_zeros.simps [of n] bit_0 bit_Suc odd_iff_mod_2_eq_one)
  qed
qed

lemma and_mask_int [ring_simps]: "(s :: int) AND (2 ^ k - 1) = s mod 2 ^ k"
  by (simp add: take_bit_eq_mask [symmetric] mask_eq_exp_minus_1 [symmetric] take_bit_eq_mod)

lemma and_mask_nat [ring_simps]: "(s :: nat) AND (2 ^ k - Suc 0) = s mod 2 ^ k"
  using take_bit_eq_mask [of k s] by (simp add: mask_eq_exp_minus_1 take_bit_eq_mod)

text \<open>Two sequences less than a ring apart never share a slot.\<close>

lemma mod_window_inj:
  fixes a b m :: int
  assumes "a mod m = b mod m" and "\<bar>a - b\<bar> < m"
  shows "a = b"
proof -
  from assms(1) have "m dvd a - b" by (simp add: mod_eq_dvd_iff)
  with assms(2) show ?thesis by (metis dvd_imp_le_int eq_iff_diff_eq_0 not_less zero_less_abs_iff
        abs_of_nonneg le_less_trans less_le)
qed

section \<open>Polling loops\<close>

text \<open>
  A spin loop looks at shared memory that other threads change. The memory is a trajectory, a
  function from time to state; every atomic load of the loop reads it one tick later than the load
  before, and the loop state carries the time. The body decides (\<open>Inl\<close>) or asks to be run again from
  a later state (\<open>Inr\<close>); running out of fuel (\<open>None\<close>) is a loop that has not returned yet.
\<close>

fun poll :: "nat \<Rightarrow> ('s \<Rightarrow> 'r + 's) \<Rightarrow> 's \<Rightarrow> 'r option" where
  "poll 0 body s = None"
| "poll (Suc fuel) body s =
     (case body s of Inl r \<Rightarrow> Some r | Inr s' \<Rightarrow> poll fuel body s')"

lemma poll_mono: "poll f body s = Some r \<Longrightarrow> f \<le> f' \<Longrightarrow> poll f' body s = Some r"
proof (induction f arbitrary: s f')
  case 0
  then show ?case by simp
next
  case (Suc f)
  then obtain g where "f' = Suc g" and "f \<le> g" by (cases f') auto
  with Suc show ?case by (auto split: sum.splits)
qed

text \<open>What the loop returns was decided by the body in a state that satisfies the loop invariant.\<close>

lemma poll_inv:
  assumes "poll f body s = Some r" and "I s"
    and step: "\<And>s s'. I s \<Longrightarrow> body s = Inr s' \<Longrightarrow> I s'"
  obtains s' where "I s'" and "body s' = Inl r"
  using assms(1,2)
proof (induction f arbitrary: s thesis)
  case 0
  then show ?case by simp
next
  case (Suc f)
  show ?case
  proof (cases "body s")
    case (Inl x)
    with Suc.prems show ?thesis by auto
  next
    case (Inr s')
    with Suc.prems(2) have "poll f body s' = Some r" by simp
    then show ?thesis using Suc.IH Suc.prems(1) step [OF Suc.prems(3) Inr] by blast
  qed
qed

text \<open>
  If the body decides in every state whose time is at least \<open>T\<close> and time always advances, then the
  loop returns, with a fuel computed from \<open>T\<close>.
\<close>

lemma poll_returns:
  fixes time :: "'s \<Rightarrow> nat"
  assumes step: "\<And>s s'. I s \<Longrightarrow> body s = Inr s' \<Longrightarrow> I s' \<and> time s < time s'"
    and late: "\<And>s. I s \<Longrightarrow> T \<le> time s \<Longrightarrow> \<exists>r. body s = Inl r"
    and "I s"
  shows "\<exists>r. poll (Suc (T - time s)) body s = Some r"
  using \<open>I s\<close>
proof (induction "T - time s" arbitrary: s rule: less_induct)
  case less
  show ?case
  proof (cases "body s")
    case (Inl r)
    then show ?thesis by simp
  next
    case (Inr s')
    with late [OF less.prems] have "time s < T" by (metis not_le sum.distinct(1))
    moreover from step [OF less.prems Inr] have s': "I s'" "time s < time s'" by simp_all
    ultimately have lt: "T - time s' < T - time s" by simp
    with less s' obtain r where "poll (Suc (T - time s')) body s' = Some r" by blast
    then have "poll (T - time s) body s' = Some r" by (rule poll_mono) (use lt in simp)
    with Inr show ?thesis by simp
  qed
qed

end
