(* ===== verification/Disruptor_Types.thy ===== *)
theory Disruptor_Types
  imports Prelude
begin

text \<open>
  The data every component shares: the error type and result type of \<open>src/disruptor/mod.rs\<close>, the
  failure records of \<open>failure.rs\<close>, the decision an exception handler takes (\<open>exception_handler.rs\<close>)
  and the producer type with its textual form (\<open>producer_type.rs\<close>).
\<close>

section \<open>Errors and results\<close>

definition INITIAL_CURSOR_VALUE :: i64 where
  "INITIAL_CURSOR_VALUE = - 1"

datatype disruptor_error =
    BufferFull
  | InvalidSequence i64
  | InvalidBufferSize usize
  | Timeout
  | Shutdown
  | InsufficientCapacity
  | Alert
  | AlreadyRunning
  | ShutdownError string
  | Poisoned
  | ConcurrentClaimDriver
  | ReentrantPublish

type_synonym 'a result = "disruptor_error + 'a"

abbreviation Err :: "disruptor_error \<Rightarrow> 'a result" where "Err \<equiv> Inl"
abbreviation Ok :: "'a \<Rightarrow> 'a result" where "Ok \<equiv> Inr"

section \<open>Decimal output\<close>

definition digit :: "nat \<Rightarrow> char" where
  "digit d = char_of (48 + d)"

fun show_nat :: "nat \<Rightarrow> string" where
  "show_nat n = (if n < 10 then [digit n] else show_nat (n div 10) @ [digit (n mod 10)])"

declare show_nat.simps [simp del]

definition show_int :: "int \<Rightarrow> string" where
  "show_int x = (if x < 0 then ''-'' @ show_nat (nat (- x)) else show_nat (nat x))"

text \<open>The \<open>Display\<close> text that \<open>thiserror\<close> generates from the \<open>#[error(..)]\<close> attributes.\<close>

fun error_to_string :: "disruptor_error \<Rightarrow> string" where
  "error_to_string BufferFull = ''Ring buffer is full''"
| "error_to_string (InvalidSequence s) = ''Invalid sequence: '' @ show_int s"
| "error_to_string (InvalidBufferSize n) =
     ''Buffer size must be a power of 2, got: '' @ show_nat n"
| "error_to_string Timeout = ''Timeout waiting for sequence''"
| "error_to_string Shutdown = ''Disruptor has been shut down''"
| "error_to_string InsufficientCapacity = ''Insufficient capacity''"
| "error_to_string Alert = ''Alert exception''"
| "error_to_string AlreadyRunning = ''Already running''"
| "error_to_string (ShutdownError m) = ''Shutdown error: '' @ m"
| "error_to_string Poisoned = ''Pipeline poisoned by a fatal producer or consumer failure''"
| "error_to_string ConcurrentClaimDriver = ''Concurrent claim on a single-producer sequencer''"
| "error_to_string ReentrantPublish = ''Reentrant publish on a single-producer DSL disruptor''"

section \<open>Failure records\<close>

datatype failure_phase =
    ThreadAffinity
  | HandlerStart
  | BatchStart
  | EventProcessing
  | HandlerShutdown
  | ConsumerPanic
  | ProducerPanic
  | ProcessorThread

fun failure_phase_as_str :: "failure_phase \<Rightarrow> string" where
  "failure_phase_as_str ThreadAffinity = ''thread_affinity''"
| "failure_phase_as_str HandlerStart = ''handler_start''"
| "failure_phase_as_str BatchStart = ''batch_start''"
| "failure_phase_as_str EventProcessing = ''event_processing''"
| "failure_phase_as_str HandlerShutdown = ''handler_shutdown''"
| "failure_phase_as_str ConsumerPanic = ''consumer_panic''"
| "failure_phase_as_str ProducerPanic = ''producer_panic''"
| "failure_phase_as_str ProcessorThread = ''processor_thread''"

record failure_record =
  phase :: failure_phase
  message :: string
  thread_name :: "string option"
  stage_index :: "usize option"
  failure_sequence :: "i64 option"

definition failure_record_new :: "failure_phase \<Rightarrow> string \<Rightarrow> failure_record" where
  "failure_record_new p m =
     \<lparr>phase = p, message = m, thread_name = None, stage_index = None, failure_sequence = None\<rparr>"

definition with_thread_name :: "string \<Rightarrow> failure_record \<Rightarrow> failure_record" where
  "with_thread_name n r = r\<lparr>thread_name := Some n\<rparr>"

definition with_stage_index :: "usize \<Rightarrow> failure_record \<Rightarrow> failure_record" where
  "with_stage_index i r = r\<lparr>stage_index := Some i\<rparr>"

definition with_sequence :: "i64 \<Rightarrow> failure_record \<Rightarrow> failure_record" where
  "with_sequence s r = r\<lparr>failure_sequence := Some s\<rparr>"

lemmas failure_record_defs =
  failure_record_new_def with_thread_name_def with_stage_index_def with_sequence_def

text \<open>What the consumer loop does after a handler error.\<close>

datatype error_decision = Stop | Continue

section \<open>Producer type\<close>

datatype producer_type = Single | Multi

definition producer_type_default :: producer_type where
  "producer_type_default = Multi"

fun is_single :: "producer_type \<Rightarrow> bool" where
  "is_single Single = True"
| "is_single Multi = False"

fun is_multi :: "producer_type \<Rightarrow> bool" where
  "is_multi Single = False"
| "is_multi Multi = True"

fun producer_type_to_string :: "producer_type \<Rightarrow> string" where
  "producer_type_to_string Single = ''Single''"
| "producer_type_to_string Multi = ''Multi''"

text \<open>
  \<open>str::to_lowercase\<close> on ASCII. No character outside ASCII has a lower-case form made of letters of
  \<open>single\<close> or \<open>multi\<close>, so the accepted inputs are the same.
\<close>

definition to_lower :: "char \<Rightarrow> char" where
  "to_lower c = (let n = (of_char c :: nat) in if 65 \<le> n \<and> n \<le> 90 then char_of (n + 32) else c)"

definition producer_type_from_str :: "string \<Rightarrow> string + producer_type" where
  "producer_type_from_str s =
     (let l = map to_lower s in
      if l = ''single'' then Inr Single
      else if l = ''multi'' then Inr Multi
      else Inl (''Invalid producer type: '' @ [CHR 0x27] @ s @ [CHR 0x27] @ ''. Valid values are '' @
                [CHR 0x27] @ ''single'' @ [CHR 0x27] @ '' or '' @ [CHR 0x27] @ ''multi'' @ [CHR 0x27]))"

section \<open>Facts\<close>

lemma failure_phase_as_str_inj: "failure_phase_as_str p = failure_phase_as_str q \<Longrightarrow> p = q"
  by (cases p; cases q) simp_all

lemma producer_type_roundtrip: "producer_type_from_str (producer_type_to_string p) = Inr p"
  by (cases p) (simp_all add: producer_type_from_str_def to_lower_def char_of_def of_char_def
      Let_def bit_0)

end
