(* ===== verification/Sequences.thy ===== *)
theory Sequences
  imports Disruptor_Types
begin

text \<open>
  Sequence counters (\<open>src/disruptor/sequence.rs\<close>). A \<open>Sequence\<close> is shared by reference
  (\<open>Arc<Sequence>\<close>): the cursor of a sequencer is also the cursor of its barriers, a consumer's
  sequence is also a gating sequence of the producer. The store maps each reference to its value, so
  aliasing is visible. Atomic operations are single state changes of the store; the minimum over a
  slice of sequences is a loop of separate loads, so it reads a trajectory of stores.
\<close>

type_synonym seq_ref = nat
type_synonym store = "seq_ref \<Rightarrow> i64"
type_synonym 's traj = "nat \<Rightarrow> 's"

section \<open>Operations\<close>

definition seq_new :: "i64 \<Rightarrow> seq_ref \<Rightarrow> store \<Rightarrow> store" where
  "seq_new v r h = h(r := v)"

definition seq_new_with_initial_value :: "seq_ref \<Rightarrow> store \<Rightarrow> store" where
  "seq_new_with_initial_value r h = seq_new INITIAL_CURSOR_VALUE r h"

definition seq_get :: "store \<Rightarrow> seq_ref \<Rightarrow> i64" where
  "seq_get h r = h r"

definition seq_set :: "seq_ref \<Rightarrow> i64 \<Rightarrow> store \<Rightarrow> store" where
  "seq_set r v h = h(r := v)"

definition seq_set_volatile :: "seq_ref \<Rightarrow> i64 \<Rightarrow> store \<Rightarrow> store" where
  "seq_set_volatile r v h = h(r := v)"

definition compare_and_set :: "seq_ref \<Rightarrow> i64 \<Rightarrow> i64 \<Rightarrow> store \<Rightarrow> bool \<times> store" where
  "compare_and_set r expected new_value h =
     (if h r = expected then (True, h(r := new_value)) else (False, h))"

definition increment_and_get :: "seq_ref \<Rightarrow> store \<Rightarrow> i64 \<times> store" where
  "increment_and_get r h = (let v = add_i64 (h r) 1 in (v, h(r := v)))"

definition add_and_get :: "seq_ref \<Rightarrow> i64 \<Rightarrow> store \<Rightarrow> i64 \<times> store" where
  "add_and_get r d h = (let v = add_i64 (h r) d in (v, h(r := v)))"

definition get_and_add :: "seq_ref \<Rightarrow> i64 \<Rightarrow> store \<Rightarrow> i64 \<times> store" where
  "get_and_add r d h = (h r, h(r := add_i64 (h r) d))"

text \<open>\<open>Clone\<close> makes an independent counter with the current value.\<close>

definition seq_clone :: "seq_ref \<Rightarrow> seq_ref \<Rightarrow> store \<Rightarrow> store" where
  "seq_clone r r' h = seq_new (seq_get h r) r' h"

lemmas seq_defs =
  seq_new_def seq_new_with_initial_value_def seq_get_def seq_set_def seq_set_volatile_def
  seq_clone_def

text \<open>The loop body shared by both minimum functions: one load per sequence.\<close>

fun min_loop :: "store traj \<Rightarrow> nat \<Rightarrow> i64 \<Rightarrow> seq_ref list \<Rightarrow> i64" where
  "min_loop tr t minimum [] = minimum"
| "min_loop tr t minimum (r # rs) =
     (let v = seq_get (tr t) r
      in min_loop tr (Suc t) (if v < minimum then v else minimum) rs)"

definition get_minimum_sequence :: "store traj \<Rightarrow> nat \<Rightarrow> seq_ref list \<Rightarrow> i64" where
  "get_minimum_sequence tr t rs =
     (case rs of [] \<Rightarrow> i64_max | r # rs' \<Rightarrow> min_loop tr (Suc t) (seq_get (tr t) r) rs')"

definition get_minimum_sequence_with_default ::
    "store traj \<Rightarrow> nat \<Rightarrow> seq_ref list \<Rightarrow> i64 \<Rightarrow> i64" where
  "get_minimum_sequence_with_default tr t rs minimum = min_loop tr t minimum rs"

section \<open>Facts\<close>

text \<open>A trajectory in which the given sequences never move backwards.\<close>

definition mono_traj :: "store traj \<Rightarrow> seq_ref set \<Rightarrow> bool" where
  "mono_traj tr R \<longleftrightarrow> (\<forall>r t t'. r \<in> R \<longrightarrow> t \<le> t' \<longrightarrow> tr t r \<le> tr t' r)"

lemma mono_trajD: "mono_traj tr R \<Longrightarrow> r \<in> R \<Longrightarrow> t \<le> t' \<Longrightarrow> tr t r \<le> tr t' r"
  by (simp add: mono_traj_def)

lemma mono_traj_const [simp]: "mono_traj (\<lambda>_. h) R"
  by (simp add: mono_traj_def)

lemma min_loop_le_minimum: "min_loop tr t m rs \<le> m"
proof (induction rs arbitrary: t m)
  case Nil
  then show ?case by simp
next
  case (Cons r rs)
  show ?case using Cons.IH [of "Suc t" "if tr t r < m then tr t r else m"]
    by (auto simp: Let_def seq_get_def split: if_splits intro: order_trans)
qed

lemma min_loop_ge:
  "x \<le> m \<Longrightarrow> (\<And>r t'. r \<in> set rs \<Longrightarrow> t \<le> t' \<Longrightarrow> x \<le> tr t' r) \<Longrightarrow> x \<le> min_loop tr t m rs"
  by (induction rs arbitrary: t m) (simp_all add: Let_def seq_get_def)

text \<open>
  A stale minimum is a safe minimum: whatever the interleaving of the loads, the result is at most
  the value each sequence has once the loop is over.
\<close>

lemma min_loop_stale:
  assumes "mono_traj tr (set rs)" and "r \<in> set rs" and "t + length rs \<le> Suc t'"
  shows "min_loop tr t m rs \<le> tr t' r"
  using assms
proof (induction rs arbitrary: t m)
  case Nil
  then show ?case by simp
next
  case (Cons a rs)
  let ?m = "if tr t a < m then tr t a else m"
  have m: "mono_traj tr (set rs)" using Cons.prems(1) by (simp add: mono_traj_def)
  show ?case
  proof (cases "r = a")
    case True
    have "min_loop tr (Suc t) ?m rs \<le> tr t a"
      using min_loop_le_minimum [of tr "Suc t" ?m rs] by (auto split: if_splits)
    also have "\<dots> \<le> tr t' a"
      using Cons.prems by (auto intro: mono_trajD)
    finally show ?thesis using True by (simp add: Let_def seq_get_def)
  next
    case False
    with Cons.prems Cons.IH [OF m, of "Suc t" ?m] show ?thesis
      by (simp add: Let_def seq_get_def)
  qed
qed

lemma min_loop_const_le: "r \<in> set rs \<Longrightarrow> min_loop (\<lambda>_. h) t m rs \<le> h r"
  by (rule min_loop_stale [of "\<lambda>_. h" rs r t "t + length rs"]) simp_all

lemma min_loop_attained: "min_loop tr t m rs = m \<or> (\<exists>r\<in>set rs. \<exists>t'\<ge>t. min_loop tr t m rs = tr t' r)"
proof (induction rs arbitrary: t m)
  case Nil
  then show ?case by simp
next
  case (Cons a rs)
  show ?case using Cons.IH [of "Suc t" "if tr t a < m then tr t a else m"]
    by (auto simp: Let_def seq_get_def dest: Suc_leD split: if_splits)
qed

text \<open>On an unchanging store both functions are the mathematical minimum.\<close>

lemma min_loop_const: "min_loop (\<lambda>_. h) t m rs = Min (insert m (h ` set rs))"
proof (rule antisym)
  show "min_loop (\<lambda>_. h) t m rs \<le> Min (insert m (h ` set rs))"
    using min_loop_le_minimum min_loop_const_le by (auto simp: Min_ge_iff)
  show "Min (insert m (h ` set rs)) \<le> min_loop (\<lambda>_. h) t m rs"
    by (rule min_loop_ge) auto
qed

lemma get_minimum_sequence_const:
  "get_minimum_sequence (\<lambda>_. h) t rs = (if rs = [] then i64_max else Min (h ` set rs))"
  by (cases rs) (simp_all add: get_minimum_sequence_def min_loop_const seq_get_def)

lemma get_minimum_sequence_stale:
  assumes "mono_traj tr (set rs)" and "r \<in> set rs" and "t + length rs \<le> Suc t'"
  shows "get_minimum_sequence tr t rs \<le> tr t' r"
proof (cases rs)
  case Nil
  with assms show ?thesis by simp
next
  case (Cons a rs')
  have m: "mono_traj tr (set rs')" using assms(1) Cons by (simp add: mono_traj_def)
  show ?thesis
  proof (cases "r = a")
    case True
    have "min_loop tr (Suc t) (tr t a) rs' \<le> tr t a" by (rule min_loop_le_minimum)
    also have "\<dots> \<le> tr t' a" using assms Cons by (auto intro: mono_trajD)
    finally show ?thesis using True Cons by (simp add: get_minimum_sequence_def seq_get_def)
  next
    case False
    with assms Cons show ?thesis
      by (auto simp: get_minimum_sequence_def seq_get_def intro!: min_loop_stale [OF m])
  qed
qed

lemma get_minimum_sequence_ge:
  assumes "rs \<noteq> []" and "\<And>r t'. r \<in> set rs \<Longrightarrow> t \<le> t' \<Longrightarrow> x \<le> tr t' r"
  shows "x \<le> get_minimum_sequence tr t rs"
  using assms
  by (cases rs) (auto simp: get_minimum_sequence_def seq_get_def intro!: min_loop_ge dest: Suc_leD)

lemma compare_and_set_iff:
  "compare_and_set r e v h = (b, h') \<longleftrightarrow> b = (h r = e) \<and> h' = (if h r = e then h(r := v) else h)"
  by (auto simp: compare_and_set_def)

end
