(* ===== verification/Gating.thy ===== *)
theory Gating
  imports Sequences
begin

text \<open>
  The set of gating sequences of a sequencer (\<open>add_gating_sequences_rcu\<close> and
  \<open>remove_gating_sequence_cas\<close> of \<open>src/disruptor/sequencer.rs\<close>). It lives in an \<open>ArcSwap\<close> of the
  \<open>arc-swap\<close> crate, whose two update operations are parameters: \<open>rcu\<close>, which replaces the content by
  a function of it, and \<open>cas\<close>, which replaces it only if it is still the snapshot that was read.
  A snapshot is an \<open>Arc\<close>, so it has an identity besides its content.
\<close>

section \<open>Operations\<close>

text \<open>Both loops of the update closure push a sequence unless it is already there.\<close>

fun push_absent :: "seq_ref list \<Rightarrow> seq_ref list \<Rightarrow> seq_ref list" where
  "push_absent updated [] = updated"
| "push_absent updated (s # ss) =
     push_absent (if s \<in> set updated then updated else updated @ [s]) ss"

definition rcu_closure :: "seq_ref list \<Rightarrow> seq_ref list \<Rightarrow> seq_ref list" where
  "rcu_closure to_add current = push_absent (push_absent [] current) to_add"

definition add_gating_sequences_rcu ::
    "((seq_ref list \<Rightarrow> seq_ref list) \<Rightarrow> seq_ref list \<Rightarrow> seq_ref list) \<Rightarrow>
     seq_ref list \<Rightarrow> seq_ref list \<Rightarrow> seq_ref list" where
  "add_gating_sequences_rcu rcu gating to_add =
     (if to_add = [] then gating else rcu (rcu_closure to_add) gating)"

type_synonym snapshot = "nat \<times> seq_ref list"
type_synonym snapshot_cas = "snapshot \<Rightarrow> snapshot \<Rightarrow> seq_ref list \<Rightarrow> snapshot \<times> snapshot"

text \<open>
  The removal loop. \<open>cell\<close> is the shared content, \<open>cur\<close> the snapshot the loop holds; before each
  compare-and-swap the other threads act on the cell (one function of the list per attempt). The
  result is the return value and the content after it, \<open>None\<close> while attempts keep failing.
\<close>

fun remove_gating_sequence_cas ::
    "snapshot_cas \<Rightarrow> (snapshot \<Rightarrow> snapshot) list \<Rightarrow> seq_ref \<Rightarrow> snapshot \<Rightarrow> snapshot \<Rightarrow>
     (bool \<times> snapshot) option" where
  "remove_gating_sequence_cas cas [] sequence cell cur = None"
| "remove_gating_sequence_cas cas (env # envs) sequence cell cur =
     (if sequence \<notin> set (snd cur) then Some (False, env cell)
      else
        let updated = filter (\<lambda>s. s \<noteq> sequence) (snd cur);
            (prev, cell') = cas (env cell) cur updated
        in if fst prev = fst cur then Some (True, cell')
           else remove_gating_sequence_cas cas envs sequence cell' prev)"

section \<open>What is assumed of arc-swap\<close>

definition rcu_spec :: "((seq_ref list \<Rightarrow> seq_ref list) \<Rightarrow> seq_ref list \<Rightarrow> seq_ref list) \<Rightarrow> bool" where
  "rcu_spec rcu \<longleftrightarrow> (\<forall>f v. rcu f v = f v)"

definition cas_spec :: "snapshot_cas \<Rightarrow> bool" where
  "cas_spec cas \<longleftrightarrow> (\<forall>cell cur new.
     (if fst cell = fst cur then fst (cas cell cur new) = cell \<and> snd (snd (cas cell cur new)) = new
      else cas cell cur new = (cell, cell)))"

text \<open>Snapshots are immutable: the same identity means the same content.\<close>

definition immutable_env :: "(snapshot \<Rightarrow> snapshot) \<Rightarrow> bool" where
  "immutable_env env \<longleftrightarrow> (\<forall>c. fst (env c) = fst c \<longrightarrow> env c = c)"

section \<open>Facts\<close>

lemma push_absent_set [simp]: "set (push_absent xs ys) = set xs \<union> set ys"
  by (induction xs ys rule: push_absent.induct) auto

lemma push_absent_distinct [simp]: "distinct xs \<Longrightarrow> distinct (push_absent xs ys)"
  by (induction xs ys rule: push_absent.induct) auto

lemma push_absent_append:
  "distinct ys \<Longrightarrow> set xs \<inter> set ys = {} \<Longrightarrow> push_absent xs ys = xs @ ys"
  by (induction xs ys rule: push_absent.induct) auto

lemma add_gating_set:
  "rcu_spec rcu \<Longrightarrow> set (add_gating_sequences_rcu rcu g to_add) = set g \<union> set to_add"
  by (auto simp: add_gating_sequences_rcu_def rcu_spec_def rcu_closure_def)

lemma add_gating_distinct:
  "rcu_spec rcu \<Longrightarrow> distinct g \<Longrightarrow> distinct (add_gating_sequences_rcu rcu g to_add)"
  by (simp add: add_gating_sequences_rcu_def rcu_spec_def rcu_closure_def)

lemma cas_specD:
  "cas_spec cas \<Longrightarrow> fst cell = fst cur \<Longrightarrow> fst (cas cell cur new) = cell"
  "cas_spec cas \<Longrightarrow> fst cell = fst cur \<Longrightarrow> snd (snd (cas cell cur new)) = new"
  "cas_spec cas \<Longrightarrow> fst cell \<noteq> fst cur \<Longrightarrow> cas cell cur new = (cell, cell)"
  unfolding cas_spec_def by metis+

text \<open>
  No update of another thread is lost: the list after a successful removal is what the other threads
  had made of it by then, without the removed sequence.
\<close>

lemma remove_gating_interleaved:
  assumes "cas_spec cas" and "\<forall>env\<in>set envs. immutable_env env"
    and "remove_gating_sequence_cas cas envs sequence cell cell = Some (True, cell')"
  shows "\<exists>j \<le> length envs.
    snd cell' = filter (\<lambda>s. s \<noteq> sequence) (snd (fold (\<lambda>env c. env c) (take j envs) cell))"
  using assms
proof (induction envs arbitrary: cell)
  case Nil
  then show ?case by simp
next
  case (Cons env envs)
  let ?new = "filter (\<lambda>s. s \<noteq> sequence) (snd cell)"
  have present: "sequence \<in> set (snd cell)" using Cons.prems(3) by (simp split: if_splits)
  show ?case
  proof (cases "fst (env cell) = fst cell")
    case True
    with Cons.prems(2) have env: "env cell = cell" by (simp only: immutable_env_def list.set ball_simps)
    have "snd cell' = ?new"
      using Cons.prems(3) present cas_specD(1,2) [OF Cons.prems(1), of cell cell ?new]
      by (simp add: env case_prod_beta Let_def)
    with env show ?thesis by (intro exI [of _ 1]) simp
  next
    case False
    from Cons.prems(3) present False cas_specD(3) [OF Cons.prems(1) False, of ?new]
    have "remove_gating_sequence_cas cas envs sequence (env cell) (env cell) = Some (True, cell')"
      by simp
    with Cons.IH [of "env cell"] Cons.prems(1,2) obtain j where "j \<le> length envs"
      and "snd cell' = filter (\<lambda>s. s \<noteq> sequence) (snd (fold (\<lambda>env c. env c) (take j envs) (env cell)))"
      by auto
    then show ?thesis by (intro exI [of _ "Suc j"]) simp
  qed
qed

section \<open>Properties\<close>

lemma remove_gating_undisturbed:
  assumes "cas_spec cas"
  shows "\<exists>i. remove_gating_sequence_cas cas [\<lambda>c. c] sequence (k, g) (k, g) =
           Some (sequence \<in> set g, (i, filter (\<lambda>s. s \<noteq> sequence) g))"
proof (cases "sequence \<in> set g")
  case True
  let ?new = "filter (\<lambda>s. s \<noteq> sequence) g"
  obtain prev c2 where c: "cas (k, g) (k, g) ?new = (prev, c2)"
    by (cases "cas (k, g) (k, g) ?new") blast
  with assms have "prev = (k, g)" "snd c2 = ?new"
    unfolding cas_spec_def by (metis fst_conv snd_conv)+
  with c True show ?thesis by (cases c2) simp
next
  case False
  then have "filter (\<lambda>s. s \<noteq> sequence) g = g" by (simp add: filter_id_conv) metis
  with False show ?thesis by simp
qed

text \<open>
  Gating sequences behave as a set. Registering sequences adds exactly the new ones, once each
  and behind the old ones; a removal that is not disturbed takes one attempt, removes every
  occurrence of the given sequence and reports whether it was there; so registering a new consumer
  and removing it again restores the list.
\<close>

theorem gating_add_remove_roundtrip:
  assumes "rcu_spec rcu" and "cas_spec cas" and "distinct gating"
  shows "set (add_gating_sequences_rcu rcu gating to_add) = set gating \<union> set to_add \<and>
         distinct (add_gating_sequences_rcu rcu gating to_add) \<and>
         (\<exists>i. remove_gating_sequence_cas cas [\<lambda>c. c] sequence (k, gating) (k, gating) =
           Some (sequence \<in> set gating, (i, filter (\<lambda>s. s \<noteq> sequence) gating))) \<and>
         (sequence \<notin> set gating \<longrightarrow>
           (let g = add_gating_sequences_rcu rcu gating [sequence]
            in \<exists>i. remove_gating_sequence_cas cas [\<lambda>c. c] sequence (k, g) (k, g) =
                 Some (True, (i, gating))))"
proof (intro conjI impI)
  show "set (add_gating_sequences_rcu rcu gating to_add) = set gating \<union> set to_add"
    using assms(1) by (rule add_gating_set)
  show "distinct (add_gating_sequences_rcu rcu gating to_add)"
    using assms(1,3) by (rule add_gating_distinct)
  show "\<exists>i. remove_gating_sequence_cas cas [\<lambda>c. c] sequence (k, gating) (k, gating) =
          Some (sequence \<in> set gating, (i, filter (\<lambda>s. s \<noteq> sequence) gating))"
    using assms(2) by (rule remove_gating_undisturbed)
  assume new: "sequence \<notin> set gating"
  then have g: "add_gating_sequences_rcu rcu gating [sequence] = gating @ [sequence]"
    using assms by (simp add: add_gating_sequences_rcu_def rcu_spec_def rcu_closure_def push_absent_append)
  have "filter (\<lambda>s. s \<noteq> sequence) (gating @ [sequence]) = gating"
    using new by (simp add: filter_id_conv) metis
  with remove_gating_undisturbed [OF assms(2), of sequence k "gating @ [sequence]"]
  show "let g = add_gating_sequences_rcu rcu gating [sequence]
        in \<exists>i. remove_gating_sequence_cas cas [\<lambda>c. c] sequence (k, g) (k, g) = Some (True, (i, gating))"
    unfolding g Let_def by simp
qed

text \<open>A compare-and-swap that gives every new list a fresh identity.\<close>

definition fresh_cas :: snapshot_cas where
  "fresh_cas cell cur new =
     (if fst cell = fst cur then (cell, (Suc (fst cell), new)) else (cell, cell))"

theorem gating_add_remove_roundtrip_witness:
  "add_gating_sequences_rcu (\<lambda>f v. f v) [4, 2] [7, 2] = [4, 2, 7] \<and>
   (\<exists>i. remove_gating_sequence_cas fresh_cas [\<lambda>c. c] 7 (0, [4, 2, 7]) (0, [4, 2, 7]) =
          Some (True, (i, [4, 2])))"
proof -
  have "cas_spec fresh_cas" by (auto simp: cas_spec_def fresh_cas_def)
  moreover have "rcu_spec (\<lambda>f v. f v)" by (simp add: rcu_spec_def)
  ultimately show ?thesis
    using gating_add_remove_roundtrip
      [of "\<lambda>f v. f v" fresh_cas "[4, 2]" "[7]" 7 0]
    by (simp add: add_gating_sequences_rcu_def rcu_closure_def Let_def)
qed

end
