(* ===== verification/Wait_Strategy.thy ===== *)
theory Wait_Strategy
  imports Sequences
begin

text \<open>
  The wait strategies of \<open>src/disruptor/wait_strategy.rs\<close>. A waiting consumer only reads shared
  memory, so the memory is a trajectory: \<open>tr t\<close> is what the \<open>t\<close>-th load of the waiting thread sees.
  Every load of a loop happens at its own tick; an idle action (\<open>spin_loop\<close>, \<open>yield_now\<close>, \<open>sleep\<close>)
  takes one tick, during which the rest of the system may do anything, and is recorded in the result.
  A wait returns its result, the time at which it returned and the idle actions, or \<open>None\<close> when the
  fuel is used up and it is still waiting.

  \<open>BlockingWaitStrategy\<close> parks on a condition variable of the \<open>parking_lot\<close> crate, which is a
  parameter: \<open>cv_wait t\<close> is the number of ticks a waiter that went to sleep at \<open>t\<close> sleeps (\<open>None\<close>:
  it is never woken), \<open>cv_wait_for t d\<close> the ticks and the timed-out flag of a bounded wait.
\<close>

section \<open>What a waiting thread sees\<close>

record wait_env =
  we_store :: store
  we_alerted :: bool
  we_shutdown :: bool
  we_strategy_alerted :: bool
  we_clock :: nat

datatype idle_action = SpinHint | YieldNow | SleepFor nat

type_synonym wait_outcome = "i64 result \<times> nat \<times> idle_action list"

definition wait_available_sequence :: "wait_env traj \<Rightarrow> nat \<Rightarrow> seq_ref \<Rightarrow> seq_ref list \<Rightarrow> i64" where
  "wait_available_sequence tr t cursor deps =
     (if deps = [] then seq_get (we_store (tr t)) cursor
      else get_minimum_sequence (\<lambda>i. we_store (tr i)) t deps)"

text \<open>The number of loads it makes.\<close>

definition wait_loads :: "seq_ref list \<Rightarrow> nat" where
  "wait_loads deps = (if deps = [] then 1 else length deps)"

definition elapsed :: "wait_env traj \<Rightarrow> nat \<Rightarrow> nat \<Rightarrow> nat" where
  "elapsed tr start t = we_clock (tr t) - we_clock (tr start)"

section \<open>The polling loops\<close>

text \<open>
  The loops of the busy-spin, yielding and sleeping strategies and of the trait's default methods
  differ only in the idle action between two polls, \<open>idle\<close>, which may keep a counter. The state of a
  loop is the time, the counter and the idle actions so far.
\<close>

type_synonym wait_state = "nat \<times> int \<times> idle_action list"

definition alert_body ::
    "(int \<Rightarrow> idle_action \<times> int) \<Rightarrow> wait_env traj \<Rightarrow> i64 \<Rightarrow> seq_ref \<Rightarrow> seq_ref list \<Rightarrow>
     wait_state \<Rightarrow> wait_outcome + wait_state" where
  "alert_body idle tr sequence cursor deps = (\<lambda>(t, c, acts).
     if we_alerted (tr t) then Inl (Err Alert, t, acts)
     else
       let available = wait_available_sequence tr (Suc t) cursor deps;
           t1 = Suc t + wait_loads deps
       in if available \<ge> sequence then Inl (Ok available, t1, acts)
          else let (a, c') = idle c in Inr (Suc t1, c', acts @ [a]))"

definition timeout_body ::
    "(int \<Rightarrow> idle_action \<times> int) \<Rightarrow> wait_env traj \<Rightarrow> nat \<Rightarrow> nat \<Rightarrow> i64 \<Rightarrow> seq_ref \<Rightarrow> seq_ref list \<Rightarrow>
     wait_state \<Rightarrow> wait_outcome + wait_state" where
  "timeout_body idle tr start timeout sequence cursor deps = (\<lambda>(t, c, acts).
     if we_alerted (tr t) then Inl (Err Alert, t, acts)
     else
       let available = wait_available_sequence tr (Suc t) cursor deps;
           t1 = Suc t + wait_loads deps
       in if available \<ge> sequence then Inl (Ok available, t1, acts)
          else if we_alerted (tr t1) then Inl (Err Alert, t1, acts)
          else if elapsed tr start (Suc t1) \<ge> timeout then Inl (Err Timeout, Suc t1, acts)
          else let (a, c') = idle c in Inr (Suc (Suc t1), c', acts @ [a]))"

definition shutdown_body ::
    "(int \<Rightarrow> idle_action \<times> int) \<Rightarrow> wait_env traj \<Rightarrow> i64 \<Rightarrow> seq_ref \<Rightarrow> seq_ref list \<Rightarrow>
     wait_state \<Rightarrow> wait_outcome + wait_state" where
  "shutdown_body idle tr sequence cursor deps = (\<lambda>(t, c, acts).
     if we_shutdown (tr t) then Inl (Err Alert, t, acts)
     else if we_alerted (tr (Suc t)) then Inl (Err Alert, Suc t, acts)
     else
       let available = wait_available_sequence tr (Suc (Suc t)) cursor deps;
           t1 = Suc (Suc t) + wait_loads deps
       in if available \<ge> sequence then Inl (Ok available, t1, acts)
          else let (a, c') = idle c in Inr (Suc t1, c', acts @ [a]))"

text \<open>The methods without an alert flag pass one that is never set (\<open>NEVER_ALERTED\<close>).\<close>

definition never_alerted :: "wait_env traj \<Rightarrow> wait_env traj" where
  "never_alerted tr = (\<lambda>t. (tr t)\<lparr>we_alerted := False\<rparr>)"

definition default_wait_for ::
    "(nat \<Rightarrow> wait_env traj \<Rightarrow> nat \<Rightarrow> i64 \<Rightarrow> seq_ref \<Rightarrow> seq_ref list \<Rightarrow> wait_outcome option) \<Rightarrow>
     nat \<Rightarrow> wait_env traj \<Rightarrow> nat \<Rightarrow> i64 \<Rightarrow> seq_ref \<Rightarrow> seq_ref list \<Rightarrow> wait_outcome option" where
  "default_wait_for wait_with_alert fuel tr = wait_with_alert fuel (never_alerted tr)"

definition default_wait_for_with_timeout ::
    "(nat \<Rightarrow> nat \<Rightarrow> wait_env traj \<Rightarrow> nat \<Rightarrow> i64 \<Rightarrow> seq_ref \<Rightarrow> seq_ref list \<Rightarrow> wait_outcome option) \<Rightarrow>
     nat \<Rightarrow> nat \<Rightarrow> wait_env traj \<Rightarrow> nat \<Rightarrow> i64 \<Rightarrow> seq_ref \<Rightarrow> seq_ref list \<Rightarrow> wait_outcome option" where
  "default_wait_for_with_timeout wait_with_timeout_and_alert timeout fuel tr =
     wait_with_timeout_and_alert timeout fuel (never_alerted tr)"

definition default_wait_for_with_shutdown ::
    "(nat \<Rightarrow> wait_env traj \<Rightarrow> nat \<Rightarrow> i64 \<Rightarrow> seq_ref \<Rightarrow> seq_ref list \<Rightarrow> wait_outcome option) \<Rightarrow>
     nat \<Rightarrow> wait_env traj \<Rightarrow> nat \<Rightarrow> i64 \<Rightarrow> seq_ref \<Rightarrow> seq_ref list \<Rightarrow> wait_outcome option" where
  "default_wait_for_with_shutdown wait_with_shutdown_and_alert fuel tr =
     wait_with_shutdown_and_alert fuel (never_alerted tr)"

section \<open>Yielding\<close>

definition SPIN_TRIES :: int where
  "SPIN_TRIES = 100"

definition apply_wait_method :: "int \<Rightarrow> idle_action \<times> int" where
  "apply_wait_method counter = (if counter = 0 then (YieldNow, counter) else (SpinHint, counter - 1))"

definition yielding_wait_for_with_alert ::
    "nat \<Rightarrow> wait_env traj \<Rightarrow> nat \<Rightarrow> i64 \<Rightarrow> seq_ref \<Rightarrow> seq_ref list \<Rightarrow> wait_outcome option" where
  "yielding_wait_for_with_alert fuel tr t sequence cursor deps =
     poll fuel (alert_body apply_wait_method tr sequence cursor deps) (t, SPIN_TRIES, [])"

definition yielding_wait_for_with_timeout_and_alert ::
    "nat \<Rightarrow> nat \<Rightarrow> wait_env traj \<Rightarrow> nat \<Rightarrow> i64 \<Rightarrow> seq_ref \<Rightarrow> seq_ref list \<Rightarrow> wait_outcome option" where
  "yielding_wait_for_with_timeout_and_alert timeout fuel tr t sequence cursor deps =
     poll fuel (timeout_body apply_wait_method tr t timeout sequence cursor deps)
       (Suc t, SPIN_TRIES, [])"

definition yielding_wait_for_with_shutdown_and_alert ::
    "nat \<Rightarrow> wait_env traj \<Rightarrow> nat \<Rightarrow> i64 \<Rightarrow> seq_ref \<Rightarrow> seq_ref list \<Rightarrow> wait_outcome option" where
  "yielding_wait_for_with_shutdown_and_alert fuel tr t sequence cursor deps =
     poll fuel (shutdown_body apply_wait_method tr sequence cursor deps) (t, SPIN_TRIES, [])"

section \<open>Busy spin\<close>

definition spin_idle :: "int \<Rightarrow> idle_action \<times> int" where
  "spin_idle c = (SpinHint, c)"

definition busy_spin_wait_for_with_alert ::
    "nat \<Rightarrow> wait_env traj \<Rightarrow> nat \<Rightarrow> i64 \<Rightarrow> seq_ref \<Rightarrow> seq_ref list \<Rightarrow> wait_outcome option" where
  "busy_spin_wait_for_with_alert fuel tr t sequence cursor deps =
     poll fuel (alert_body spin_idle tr sequence cursor deps) (t, 0, [])"

definition busy_spin_wait_for_with_timeout_and_alert ::
    "nat \<Rightarrow> nat \<Rightarrow> wait_env traj \<Rightarrow> nat \<Rightarrow> i64 \<Rightarrow> seq_ref \<Rightarrow> seq_ref list \<Rightarrow> wait_outcome option" where
  "busy_spin_wait_for_with_timeout_and_alert timeout fuel tr t sequence cursor deps =
     poll fuel (timeout_body spin_idle tr t timeout sequence cursor deps) (Suc t, 0, [])"

definition busy_spin_wait_for_with_shutdown_and_alert ::
    "nat \<Rightarrow> wait_env traj \<Rightarrow> nat \<Rightarrow> i64 \<Rightarrow> seq_ref \<Rightarrow> seq_ref list \<Rightarrow> wait_outcome option" where
  "busy_spin_wait_for_with_shutdown_and_alert fuel tr t sequence cursor deps =
     poll fuel (shutdown_body spin_idle tr sequence cursor deps) (t, 0, [])"

section \<open>Sleeping\<close>

definition sleep_idle :: "nat \<Rightarrow> int \<Rightarrow> idle_action \<times> int" where
  "sleep_idle sleep_duration c = (SleepFor sleep_duration, c)"

definition sleeping_wait_for_with_alert ::
    "nat \<Rightarrow> nat \<Rightarrow> wait_env traj \<Rightarrow> nat \<Rightarrow> i64 \<Rightarrow> seq_ref \<Rightarrow> seq_ref list \<Rightarrow> wait_outcome option" where
  "sleeping_wait_for_with_alert d fuel tr t sequence cursor deps =
     poll fuel (alert_body (sleep_idle d) tr sequence cursor deps) (t, 0, [])"

definition sleeping_wait_for_with_shutdown_and_alert ::
    "nat \<Rightarrow> nat \<Rightarrow> wait_env traj \<Rightarrow> nat \<Rightarrow> i64 \<Rightarrow> seq_ref \<Rightarrow> seq_ref list \<Rightarrow> wait_outcome option" where
  "sleeping_wait_for_with_shutdown_and_alert d fuel tr t sequence cursor deps =
     poll fuel (shutdown_body (sleep_idle d) tr sequence cursor deps) (t, 0, [])"

definition sleeping_wait_for_with_timeout_and_alert ::
    "nat \<Rightarrow> nat \<Rightarrow> nat \<Rightarrow> wait_env traj \<Rightarrow> nat \<Rightarrow> i64 \<Rightarrow> seq_ref \<Rightarrow> seq_ref list \<Rightarrow> wait_outcome option" where
  "sleeping_wait_for_with_timeout_and_alert d timeout fuel tr t sequence cursor deps =
     poll fuel (timeout_body (sleep_idle d) tr t timeout sequence cursor deps) (Suc t, 0, [])"

section \<open>Default methods of the trait\<close>

definition yield_idle :: "int \<Rightarrow> idle_action \<times> int" where
  "yield_idle c = (YieldNow, c)"

definition default_wait_for_with_timeout_and_alert ::
    "nat \<Rightarrow> nat \<Rightarrow> wait_env traj \<Rightarrow> nat \<Rightarrow> i64 \<Rightarrow> seq_ref \<Rightarrow> seq_ref list \<Rightarrow> wait_outcome option" where
  "default_wait_for_with_timeout_and_alert timeout fuel tr t sequence cursor deps =
     poll fuel (timeout_body yield_idle tr t timeout sequence cursor deps) (Suc t, 0, [])"

text \<open>
  The default shutdown wait calls the strategy's bounded wait, one millisecond at a time; durations
  are in nanoseconds. The fuel of the inner wait is the same as that of the outer loop.
\<close>

definition default_shutdown_body ::
    "(nat \<Rightarrow> nat \<Rightarrow> wait_env traj \<Rightarrow> nat \<Rightarrow> i64 \<Rightarrow> seq_ref \<Rightarrow> seq_ref list \<Rightarrow> wait_outcome option) \<Rightarrow>
     nat \<Rightarrow> wait_env traj \<Rightarrow> i64 \<Rightarrow> seq_ref \<Rightarrow> seq_ref list \<Rightarrow>
     nat \<times> idle_action list \<Rightarrow> wait_outcome option + nat \<times> idle_action list" where
  "default_shutdown_body wait_timeout fuel tr sequence cursor deps = (\<lambda>(t, acts).
     if we_shutdown (tr t) then Inl (Some (Err Alert, t, acts))
     else if we_alerted (tr (Suc t)) then Inl (Some (Err Alert, Suc t, acts))
     else case wait_timeout 1000000 fuel tr (Suc (Suc t)) sequence cursor deps of
       None \<Rightarrow> Inl None
     | Some (Ok available, t1, a) \<Rightarrow> Inl (Some (Ok available, t1, acts @ a))
     | Some (Err e, t1, a) \<Rightarrow>
         if e = Timeout then Inr (Suc t1, acts @ a) else Inl (Some (Err e, t1, acts @ a)))"

definition default_wait_for_with_shutdown_and_alert ::
    "(nat \<Rightarrow> nat \<Rightarrow> wait_env traj \<Rightarrow> nat \<Rightarrow> i64 \<Rightarrow> seq_ref \<Rightarrow> seq_ref list \<Rightarrow> wait_outcome option) \<Rightarrow>
     nat \<Rightarrow> wait_env traj \<Rightarrow> nat \<Rightarrow> i64 \<Rightarrow> seq_ref \<Rightarrow> seq_ref list \<Rightarrow> wait_outcome option" where
  "default_wait_for_with_shutdown_and_alert wait_timeout fuel tr t sequence cursor deps =
     Option.bind (poll fuel (default_shutdown_body wait_timeout fuel tr sequence cursor deps) (t, []))
       (\<lambda>r. r)"

section \<open>Blocking\<close>

text \<open>
  The loop under the mutex. The strategy's mutex is held from the cursor check to the start of the
  condition-variable wait, and a signaller takes the same mutex, so no signal falls between the two:
  they share one tick.
\<close>

definition blocking_cursor_body ::
    "(nat \<Rightarrow> nat option) \<Rightarrow> wait_env traj \<Rightarrow> i64 \<Rightarrow> seq_ref \<Rightarrow> nat \<Rightarrow> (unit result \<times> nat) + nat" where
  "blocking_cursor_body cv_wait tr sequence cursor t =
     (if \<not> seq_get (we_store (tr t)) cursor < sequence then Inl (Ok (), t)
      else if we_strategy_alerted (tr t) \<or> we_alerted (tr t) then Inl (Err Alert, t)
      else case cv_wait t of None \<Rightarrow> Inr t | Some d \<Rightarrow> Inr (Suc (t + d)))"

definition blocking_spin_body ::
    "wait_env traj \<Rightarrow> i64 \<Rightarrow> seq_ref \<Rightarrow> seq_ref list \<Rightarrow> wait_state \<Rightarrow> wait_outcome + wait_state" where
  "blocking_spin_body tr sequence cursor deps = (\<lambda>(t, c, acts).
     let available = wait_available_sequence tr t cursor deps; t1 = t + wait_loads deps
     in if available \<ge> sequence then Inl (Ok available, t1, acts)
        else if we_strategy_alerted (tr t1) then Inl (Err Alert, t1, acts)
        else if we_alerted (tr (Suc t1)) then Inl (Err Alert, Suc t1, acts)
        else Inr (Suc (Suc t1), c, acts @ [SpinHint]))"

definition blocking_wait_for_with_alert ::
    "(nat \<Rightarrow> nat option) \<Rightarrow> nat \<Rightarrow> wait_env traj \<Rightarrow> nat \<Rightarrow> i64 \<Rightarrow> seq_ref \<Rightarrow> seq_ref list \<Rightarrow>
     wait_outcome option" where
  "blocking_wait_for_with_alert cv_wait fuel tr t sequence cursor deps =
     (if seq_get (we_store (tr t)) cursor < sequence then
        (case poll fuel (blocking_cursor_body cv_wait tr sequence cursor) (Suc t) of
           None \<Rightarrow> None
         | Some (Err e, t1) \<Rightarrow> Some (Err e, t1, [])
         | Some (Ok _, t1) \<Rightarrow> poll fuel (blocking_spin_body tr sequence cursor deps) (Suc t1, 0, []))
      else poll fuel (blocking_spin_body tr sequence cursor deps) (Suc t, 0, []))"

definition blocking_cursor_timeout_body ::
    "(nat \<Rightarrow> nat \<Rightarrow> nat \<times> bool) \<Rightarrow> wait_env traj \<Rightarrow> nat \<Rightarrow> nat \<Rightarrow> i64 \<Rightarrow> seq_ref \<Rightarrow>
     nat \<Rightarrow> (unit result \<times> nat) + nat" where
  "blocking_cursor_timeout_body cv_wait_for tr start timeout sequence cursor t =
     (if \<not> seq_get (we_store (tr t)) cursor < sequence then Inl (Ok (), t)
      else if we_strategy_alerted (tr t) \<or> we_alerted (tr t) then Inl (Err Alert, t)
      else if elapsed tr start (Suc t) \<ge> timeout then Inl (Err Timeout, Suc t)
      else let remaining = timeout - elapsed tr start (Suc (Suc t)) in
        if remaining = 0 then Inl (Err Timeout, Suc (Suc t))
        else let (d, timed_out) = cv_wait_for (Suc (Suc t)) remaining; t' = t + 3 + d in
          if timed_out then
            (if we_strategy_alerted (tr t') \<or> we_alerted (tr t') then Inl (Err Alert, t')
             else Inl (Err Timeout, t'))
          else Inr t')"

definition blocking_spin_timeout_body ::
    "wait_env traj \<Rightarrow> nat \<Rightarrow> nat \<Rightarrow> i64 \<Rightarrow> seq_ref \<Rightarrow> seq_ref list \<Rightarrow> wait_state \<Rightarrow>
     wait_outcome + wait_state" where
  "blocking_spin_timeout_body tr start timeout sequence cursor deps = (\<lambda>(t, c, acts).
     let available = wait_available_sequence tr t cursor deps; t1 = t + wait_loads deps
     in if available \<ge> sequence then Inl (Ok available, t1, acts)
        else if we_strategy_alerted (tr t1) then Inl (Err Alert, t1, acts)
        else if we_alerted (tr (Suc t1)) then Inl (Err Alert, Suc t1, acts)
        else if elapsed tr start (t1 + 2) \<ge> timeout then Inl (Err Timeout, t1 + 2, acts)
        else Inr (t1 + 3, c, acts @ [SpinHint]))"

definition blocking_wait_for_with_timeout_and_alert ::
    "(nat \<Rightarrow> nat \<Rightarrow> nat \<times> bool) \<Rightarrow> nat \<Rightarrow> nat \<Rightarrow> wait_env traj \<Rightarrow> nat \<Rightarrow> i64 \<Rightarrow> seq_ref \<Rightarrow>
     seq_ref list \<Rightarrow> wait_outcome option" where
  "blocking_wait_for_with_timeout_and_alert cv_wait_for timeout fuel tr t sequence cursor deps =
     (if seq_get (we_store (tr (Suc t))) cursor < sequence then
        (case poll fuel (blocking_cursor_timeout_body cv_wait_for tr t timeout sequence cursor)
                (Suc (Suc t)) of
           None \<Rightarrow> None
         | Some (Err e, t1) \<Rightarrow> Some (Err e, t1, [])
         | Some (Ok _, t1) \<Rightarrow>
             poll fuel (blocking_spin_timeout_body tr t timeout sequence cursor deps) (Suc t1, 0, []))
      else poll fuel (blocking_spin_timeout_body tr t timeout sequence cursor deps)
             (Suc (Suc t), 0, []))"

text \<open>\<open>BlockingWaitStrategy\<close> does not override the shutdown wait of the trait.\<close>

definition blocking_wait_for_with_shutdown_and_alert ::
    "(nat \<Rightarrow> nat \<Rightarrow> nat \<times> bool) \<Rightarrow> nat \<Rightarrow> wait_env traj \<Rightarrow> nat \<Rightarrow> i64 \<Rightarrow> seq_ref \<Rightarrow> seq_ref list \<Rightarrow>
     wait_outcome option" where
  "blocking_wait_for_with_shutdown_and_alert cv_wait_for =
     default_wait_for_with_shutdown_and_alert (blocking_wait_for_with_timeout_and_alert cv_wait_for)"

section \<open>Signalling\<close>

datatype wait_strategy = BlockingStrategy | YieldingStrategy | BusySpinStrategy | SleepingStrategy nat

fun needs_signal :: "wait_strategy \<Rightarrow> bool" where
  "needs_signal BlockingStrategy = True"
| "needs_signal YieldingStrategy = False"
| "needs_signal BusySpinStrategy = False"
| "needs_signal (SleepingStrategy _) = False"

text \<open>\<open>signal_all_when_blocking\<close>: the number of wake-ups sent so far.\<close>

fun signal_all_when_blocking :: "wait_strategy \<Rightarrow> nat \<Rightarrow> nat" where
  "signal_all_when_blocking BlockingStrategy n = Suc n"
| "signal_all_when_blocking YieldingStrategy n = n"
| "signal_all_when_blocking BusySpinStrategy n = n"
| "signal_all_when_blocking (SleepingStrategy _) n = n"

section \<open>The contract of a wait\<close>

text \<open>The sequences whose progress a wait observes.\<close>

definition tracked :: "seq_ref \<Rightarrow> seq_ref list \<Rightarrow> seq_ref set" where
  "tracked cursor deps = (if deps = [] then {cursor} else set deps)"

lemma wait_available_ge:
  assumes "\<And>r u. r \<in> tracked cursor deps \<Longrightarrow> t \<le> u \<Longrightarrow> x \<le> we_store (tr u) r"
  shows "x \<le> wait_available_sequence tr t cursor deps"
  using assms
  by (auto simp: wait_available_sequence_def tracked_def seq_get_def
      intro!: get_minimum_sequence_ge split: if_splits)

lemma wait_available_stale:
  assumes "mono_traj (\<lambda>i. we_store (tr i)) (tracked cursor deps)" and "r \<in> tracked cursor deps"
    and "t + wait_loads deps \<le> Suc t'"
  shows "wait_available_sequence tr t cursor deps \<le> we_store (tr t') r"
  using assms get_minimum_sequence_stale [of "\<lambda>i. we_store (tr i)" deps r t t']
  by (auto simp: wait_available_sequence_def tracked_def wait_loads_def seq_get_def
      intro: mono_trajD split: if_splits)

text \<open>
  Every wait promises: on success it returns at least the requested sequence, and what it returns is
  a minimum it loaded between the call and the return; on failure the error is justified by what it
  saw when it returned.
\<close>

locale wait_contract =
  fixes wait :: "nat \<Rightarrow> wait_env traj \<Rightarrow> nat \<Rightarrow> i64 \<Rightarrow> seq_ref \<Rightarrow> seq_ref list \<Rightarrow> wait_outcome option"
    and stops :: "wait_env traj \<Rightarrow> nat \<Rightarrow> disruptor_error \<Rightarrow> nat \<Rightarrow> bool"
  assumes ok_reached: "wait fuel tr t sequence cursor deps = Some (Inr a, t', acts) \<Longrightarrow>
      sequence \<le> a \<and> (\<exists>u. t \<le> u \<and> u + wait_loads deps \<le> t' \<and>
        a = wait_available_sequence tr u cursor deps)"
    and err_stops: "wait fuel tr t sequence cursor deps = Some (Inl e, t', acts) \<Longrightarrow>
      t \<le> t' \<and> stops tr t e t'"
begin

lemma time_advances: "wait fuel tr t sequence cursor deps = Some (r, t', acts) \<Longrightarrow> t \<le> t'"
  by (cases r) (auto dest: ok_reached err_stops)

text \<open>No consumer passes what it depends on.\<close>

lemma dependencies_reached:
  assumes "wait fuel tr t sequence cursor deps = Some (Inr a, t', acts)"
    and "mono_traj (\<lambda>i. we_store (tr i)) (tracked cursor deps)"
    and "r \<in> tracked cursor deps" and "t' \<le> u"
  shows "sequence \<le> a \<and> a \<le> we_store (tr u) r"
proof -
  from ok_reached [OF assms(1)] obtain v where "sequence \<le> a" and v: "v + wait_loads deps \<le> t'"
    and a: "a = wait_available_sequence tr v cursor deps" by blast
  with assms(2-4) show ?thesis by (auto intro!: wait_available_stale)
qed

end

text \<open>A wait that returns once its goal, or an alert, is there for good.\<close>

locale live_wait_contract = wait_contract +
  fixes interrupted :: "wait_env \<Rightarrow> bool"
  assumes returns: "(\<forall>u\<ge>T. interrupted (tr u)) \<or>
      (\<forall>u\<ge>T. \<forall>r\<in>tracked cursor deps. sequence \<le> we_store (tr u) r) \<Longrightarrow>
      \<exists>r. wait (Suc (T - t)) tr t sequence cursor deps = Some r"

definition stops_alert :: "wait_env traj \<Rightarrow> nat \<Rightarrow> disruptor_error \<Rightarrow> nat \<Rightarrow> bool" where
  "stops_alert tr t e t' \<longleftrightarrow> e = Alert \<and> (we_alerted (tr t') \<or> we_strategy_alerted (tr t'))"

definition stops_shutdown :: "wait_env traj \<Rightarrow> nat \<Rightarrow> disruptor_error \<Rightarrow> nat \<Rightarrow> bool" where
  "stops_shutdown tr t e t' \<longleftrightarrow> stops_alert tr t e t' \<or> e = Alert \<and> we_shutdown (tr t')"

definition stops_timeout :: "nat \<Rightarrow> wait_env traj \<Rightarrow> nat \<Rightarrow> disruptor_error \<Rightarrow> nat \<Rightarrow> bool" where
  "stops_timeout timeout tr t e t' \<longleftrightarrow>
     stops_alert tr t e t' \<or> e = Timeout \<and> timeout \<le> elapsed tr t t'"

definition stops_blocking_timeout :: "wait_env traj \<Rightarrow> nat \<Rightarrow> disruptor_error \<Rightarrow> nat \<Rightarrow> bool" where
  "stops_blocking_timeout tr t e t' \<longleftrightarrow> stops_alert tr t e t' \<or> e = Timeout"

lemmas stops_defs = stops_alert_def stops_shutdown_def stops_timeout_def stops_blocking_timeout_def

section \<open>The strategies keep the contract\<close>

definition outcome_ok ::
    "(wait_env traj \<Rightarrow> nat \<Rightarrow> disruptor_error \<Rightarrow> nat \<Rightarrow> bool) \<Rightarrow> wait_env traj \<Rightarrow> nat \<Rightarrow> i64 \<Rightarrow>
     seq_ref \<Rightarrow> seq_ref list \<Rightarrow> wait_outcome \<Rightarrow> bool" where
  "outcome_ok stops tr t sequence cursor deps = (\<lambda>(r, t', acts).
     case r of
       Inr a \<Rightarrow> sequence \<le> a \<and> (\<exists>u. t \<le> u \<and> u + wait_loads deps \<le> t' \<and>
         a = wait_available_sequence tr u cursor deps)
     | Inl e \<Rightarrow> t \<le> t' \<and> stops tr t e t')"

lemma wait_contractI:
  assumes "\<And>fuel tr t sequence cursor deps out.
    wait fuel tr t sequence cursor deps = Some out \<Longrightarrow> outcome_ok stops tr t sequence cursor deps out"
  shows "wait_contract wait stops"
  using assms by unfold_locales (force simp: outcome_ok_def)+

lemma outcome_ok_Ok:
  "sequence \<le> wait_available_sequence tr u cursor deps \<Longrightarrow> t \<le> u \<Longrightarrow> u + wait_loads deps \<le> t' \<Longrightarrow>
     outcome_ok stops tr t sequence cursor deps (Inr (wait_available_sequence tr u cursor deps), t', acts)"
  by (auto simp: outcome_ok_def)

lemma outcome_ok_Err:
  "t \<le> t' \<Longrightarrow> stops tr t e t' \<Longrightarrow> outcome_ok stops tr t sequence cursor deps (Inl e, t', acts)"
  by (auto simp: outcome_ok_def)

lemma poll_outcome:
  assumes "poll fuel body s = Some out" and "t \<le> fst s"
    and "\<And>s s'. t \<le> fst s \<Longrightarrow> body s = Inr s' \<Longrightarrow> t \<le> fst s'"
    and "\<And>s. t \<le> fst s \<Longrightarrow> body s = Inl out \<Longrightarrow> outcome_ok stops tr t sequence cursor deps out"
  shows "outcome_ok stops tr t sequence cursor deps out"
  using assms by (blast elim: poll_inv [where I = "\<lambda>s. t \<le> fst s"])

lemmas body_splits = if_splits prod.splits sum.splits option.splits

lemma alert_body_step: "alert_body idle tr sequence cursor deps s = Inr s' \<Longrightarrow> fst s < fst s'"
  by (auto simp: alert_body_def Let_def split: body_splits)

lemma timeout_body_step:
  "timeout_body idle tr start d sequence cursor deps s = Inr s' \<Longrightarrow> fst s < fst s'"
  by (auto simp: timeout_body_def Let_def split: body_splits)

lemma shutdown_body_step: "shutdown_body idle tr sequence cursor deps s = Inr s' \<Longrightarrow> fst s < fst s'"
  by (auto simp: shutdown_body_def Let_def split: body_splits)

lemma alert_body_ok:
  "t \<le> fst s \<Longrightarrow> alert_body idle tr sequence cursor deps s = Inl out \<Longrightarrow>
     outcome_ok stops_alert tr t sequence cursor deps out"
  by (auto simp: alert_body_def stops_defs Let_def intro!: outcome_ok_Ok outcome_ok_Err
      split: body_splits)

lemma timeout_body_ok:
  "t \<le> fst s \<Longrightarrow> timeout_body idle tr t d sequence cursor deps s = Inl out \<Longrightarrow>
     outcome_ok (stops_timeout d) tr t sequence cursor deps out"
  by (auto simp: timeout_body_def stops_defs Let_def intro!: outcome_ok_Ok outcome_ok_Err
      split: body_splits)

lemma shutdown_body_ok:
  "t \<le> fst s \<Longrightarrow> shutdown_body idle tr sequence cursor deps s = Inl out \<Longrightarrow>
     outcome_ok stops_shutdown tr t sequence cursor deps out"
  by (auto simp: shutdown_body_def stops_defs Let_def intro!: outcome_ok_Ok outcome_ok_Err
      split: body_splits)

lemma poll_alert_body:
  assumes "poll fuel (alert_body idle tr sequence cursor deps) (t, c, acts) = Some out"
  shows "outcome_ok stops_alert tr t sequence cursor deps out"
  using assms by (rule poll_outcome) (auto dest: alert_body_step intro: alert_body_ok)

lemma poll_timeout_body:
  assumes "poll fuel (timeout_body idle tr t d sequence cursor deps) (Suc t, c, acts) = Some out"
  shows "outcome_ok (stops_timeout d) tr t sequence cursor deps out"
  using assms by (rule poll_outcome) (auto dest: timeout_body_step intro: timeout_body_ok)

lemma poll_shutdown_body:
  assumes "poll fuel (shutdown_body idle tr sequence cursor deps) (t, c, acts) = Some out"
  shows "outcome_ok stops_shutdown tr t sequence cursor deps out"
  using assms by (rule poll_outcome) (auto dest: shutdown_body_step intro: shutdown_body_ok)

text \<open>Once the goal or the interrupt is there for good, the polling loops return.\<close>

lemma alert_body_late:
  assumes "(\<forall>u\<ge>T. we_alerted (tr u)) \<or>
      (\<forall>u\<ge>T. \<forall>r\<in>tracked cursor deps. sequence \<le> we_store (tr u) r)" and "T \<le> fst s"
  shows "\<exists>out. alert_body idle tr sequence cursor deps s = Inl out"
  using assms(1)
proof
  assume "\<forall>u\<ge>T. we_alerted (tr u)"
  with assms(2) show ?thesis by (cases s) (auto simp: alert_body_def)
next
  assume "\<forall>u\<ge>T. \<forall>r\<in>tracked cursor deps. sequence \<le> we_store (tr u) r"
  with assms(2) have "sequence \<le> wait_available_sequence tr (Suc (fst s)) cursor deps"
    by (intro wait_available_ge) simp
  then show ?thesis by (cases s) (auto simp: alert_body_def Let_def)
qed

lemma shutdown_body_late:
  assumes "(\<forall>u\<ge>T. we_alerted (tr u) \<or> we_shutdown (tr u)) \<or>
      (\<forall>u\<ge>T. \<forall>r\<in>tracked cursor deps. sequence \<le> we_store (tr u) r)" and "T \<le> fst s"
    and flags: "\<And>u. we_alerted (tr u) \<Longrightarrow> we_alerted (tr (Suc u))"
  shows "\<exists>out. shutdown_body idle tr sequence cursor deps s = Inl out"
  using assms(1)
proof
  assume "\<forall>u\<ge>T. we_alerted (tr u) \<or> we_shutdown (tr u)"
  with assms(2) have "we_alerted (tr (fst s)) \<or> we_shutdown (tr (fst s))" by simp
  then show ?thesis using flags by (cases s) (auto simp: shutdown_body_def)
next
  assume "\<forall>u\<ge>T. \<forall>r\<in>tracked cursor deps. sequence \<le> we_store (tr u) r"
  with assms(2) have "sequence \<le> wait_available_sequence tr (Suc (Suc (fst s))) cursor deps"
    by (intro wait_available_ge) simp
  then show ?thesis by (cases s) (auto simp: shutdown_body_def Let_def)
qed

lemma poll_alert_returns:
  assumes "(\<forall>u\<ge>T. we_alerted (tr u)) \<or>
      (\<forall>u\<ge>T. \<forall>r\<in>tracked cursor deps. sequence \<le> we_store (tr u) r)"
  shows "\<exists>out. poll (Suc (T - t)) (alert_body idle tr sequence cursor deps) (t, c, acts) = Some out"
  using poll_returns [where time = fst and I = "\<lambda>_. True" and s = "(t, c, acts)" and T = T
      and body = "alert_body idle tr sequence cursor deps"] alert_body_step alert_body_late [OF assms]
  by simp

text \<open>The bounded wait returns as soon as the clock has moved far enough.\<close>

lemma poll_timeout_returns:
  assumes "\<And>u. T \<le> u \<Longrightarrow> d \<le> elapsed tr start u"
  shows "\<exists>out. poll (Suc (T - t)) (timeout_body idle tr start d sequence cursor deps) (t, c, acts)
    = Some out"
proof -
  have late: "\<exists>out. timeout_body idle tr start d sequence cursor deps s = Inl out" if "T \<le> fst s" for s
    using that assms by (cases s) (auto simp: timeout_body_def Let_def)
  show ?thesis
    using poll_returns [where time = fst and I = "\<lambda>_. True" and s = "(t, c, acts)" and T = T
        and body = "timeout_body idle tr start d sequence cursor deps"] timeout_body_step late
    by simp
qed

subsection \<open>Interpretations\<close>

lemmas wait_defs =
  yielding_wait_for_with_alert_def yielding_wait_for_with_timeout_and_alert_def
  yielding_wait_for_with_shutdown_and_alert_def busy_spin_wait_for_with_alert_def
  busy_spin_wait_for_with_timeout_and_alert_def busy_spin_wait_for_with_shutdown_and_alert_def
  sleeping_wait_for_with_alert_def sleeping_wait_for_with_timeout_and_alert_def
  sleeping_wait_for_with_shutdown_and_alert_def default_wait_for_with_timeout_and_alert_def

lemmas poll_bodies = poll_alert_body poll_timeout_body poll_shutdown_body

lemma live_alertI:
  assumes "\<And>fuel tr t sequence cursor deps. wait fuel tr t sequence cursor deps =
    poll fuel (alert_body idle tr sequence cursor deps) (t, c, acts)"
  shows "live_wait_contract wait stops_alert we_alerted"
  using poll_alert_body poll_alert_returns
  by (intro live_wait_contract.intro live_wait_contract_axioms.intro wait_contractI) (simp_all only: assms)

interpretation yielding: live_wait_contract yielding_wait_for_with_alert stops_alert we_alerted
  by (rule live_alertI) (rule wait_defs)

interpretation busy_spin: live_wait_contract busy_spin_wait_for_with_alert stops_alert we_alerted
  by (rule live_alertI) (rule wait_defs)

interpretation sleeping: live_wait_contract "sleeping_wait_for_with_alert d" stops_alert we_alerted
  for d
  by (rule live_alertI) (rule wait_defs)

interpretation yielding_timeout:
  wait_contract "yielding_wait_for_with_timeout_and_alert d" "stops_timeout d" for d
  by (auto simp: wait_defs intro!: wait_contractI poll_bodies)

interpretation busy_spin_timeout:
  wait_contract "busy_spin_wait_for_with_timeout_and_alert d" "stops_timeout d" for d
  by (auto simp: wait_defs intro!: wait_contractI poll_bodies)

interpretation sleeping_timeout:
  wait_contract "sleeping_wait_for_with_timeout_and_alert sl d" "stops_timeout d" for sl d
  by (auto simp: wait_defs intro!: wait_contractI poll_bodies)

interpretation default_timeout:
  wait_contract "default_wait_for_with_timeout_and_alert d" "stops_timeout d" for d
  by (auto simp: wait_defs intro!: wait_contractI poll_bodies)

interpretation yielding_shutdown:
  wait_contract yielding_wait_for_with_shutdown_and_alert stops_shutdown
  by (auto simp: wait_defs intro!: wait_contractI poll_bodies)

interpretation busy_spin_shutdown:
  wait_contract busy_spin_wait_for_with_shutdown_and_alert stops_shutdown
  by (auto simp: wait_defs intro!: wait_contractI poll_bodies)

interpretation sleeping_shutdown:
  wait_contract "sleeping_wait_for_with_shutdown_and_alert d" stops_shutdown for d
  by (auto simp: wait_defs intro!: wait_contractI poll_bodies)

subsection \<open>Blocking\<close>

lemma poll_blocking_cursor:
  assumes "poll fuel (blocking_cursor_body cv_wait tr sequence cursor) t = Some (r, t1)"
  shows "t \<le> t1 \<and> (case r of Inl e \<Rightarrow> stops_alert tr t e t1 | Inr _ \<Rightarrow> sequence \<le> we_store (tr t1) cursor)"
proof (rule poll_inv [where I = "\<lambda>u. t \<le> u", OF assms])
  fix u assume "t \<le> u" "blocking_cursor_body cv_wait tr sequence cursor u = Inl (r, t1)"
  then show ?thesis
    by (auto simp: blocking_cursor_body_def stops_defs seq_get_def split: body_splits)
qed (auto simp: blocking_cursor_body_def split: body_splits)

lemma poll_blocking_cursor_timeout:
  assumes "poll fuel (blocking_cursor_timeout_body cv_wait_for tr start d sequence cursor) t = Some (r, t1)"
  shows "t \<le> t1 \<and>
    (case r of Inl e \<Rightarrow> stops_blocking_timeout tr t e t1 | Inr _ \<Rightarrow> sequence \<le> we_store (tr t1) cursor)"
proof (rule poll_inv [where I = "\<lambda>u. t \<le> u", OF assms])
  fix u assume "t \<le> u"
    "blocking_cursor_timeout_body cv_wait_for tr start d sequence cursor u = Inl (r, t1)"
  then show ?thesis
    by (auto simp: blocking_cursor_timeout_body_def stops_defs seq_get_def Let_def split: body_splits)
qed (auto simp: blocking_cursor_timeout_body_def Let_def split: body_splits)

lemma poll_blocking_spin:
  assumes "poll fuel (blocking_spin_body tr sequence cursor deps) (t0, c, acts) = Some out"
    and "t \<le> t0"
  shows "outcome_ok stops_alert tr t sequence cursor deps out"
  using assms(1)
  by (rule poll_outcome)
    (use assms(2) in \<open>auto simp: blocking_spin_body_def stops_defs Let_def
      intro!: outcome_ok_Ok outcome_ok_Err split: body_splits\<close>)

lemma poll_blocking_spin_timeout:
  assumes "poll fuel (blocking_spin_timeout_body tr start d sequence cursor deps) (t0, c, acts) = Some out"
    and "t \<le> t0"
  shows "outcome_ok stops_blocking_timeout tr t sequence cursor deps out"
  using assms(1)
  by (rule poll_outcome)
    (use assms(2) in \<open>auto simp: blocking_spin_timeout_body_def stops_defs Let_def
      intro!: outcome_ok_Ok outcome_ok_Err split: body_splits\<close>)

interpretation blocking: wait_contract "blocking_wait_for_with_alert cv_wait" stops_alert for cv_wait
proof (rule wait_contractI)
  fix fuel tr t sequence cursor deps out
  assume "blocking_wait_for_with_alert cv_wait fuel tr t sequence cursor deps = Some out"
  then show "outcome_ok stops_alert tr t sequence cursor deps out"
    by (auto simp: blocking_wait_for_with_alert_def stops_defs
        dest!: poll_blocking_cursor elim!: poll_blocking_spin intro!: outcome_ok_Err split: body_splits)
qed

interpretation blocking_timeout:
  wait_contract "blocking_wait_for_with_timeout_and_alert cv_wait_for d" stops_blocking_timeout
  for cv_wait_for d
proof (rule wait_contractI)
  fix fuel tr t sequence cursor deps out
  assume "blocking_wait_for_with_timeout_and_alert cv_wait_for d fuel tr t sequence cursor deps = Some out"
  then show "outcome_ok stops_blocking_timeout tr t sequence cursor deps out"
    by (auto simp: blocking_wait_for_with_timeout_and_alert_def stops_defs
        dest!: poll_blocking_cursor_timeout elim!: poll_blocking_spin_timeout intro!: outcome_ok_Err
        split: body_splits)
qed

text \<open>The trait's shutdown loop keeps the contract over any bounded wait that does.\<close>

lemma default_shutdown_contract:
  assumes "wait_contract (wt 1000000) st" and st: "\<And>tr t e t'. st tr t e t' \<Longrightarrow> e \<noteq> Timeout \<Longrightarrow> stops_alert tr t e t'"
  shows "wait_contract (default_wait_for_with_shutdown_and_alert wt) stops_shutdown"
proof (rule wait_contractI)
  fix fuel tr t sequence cursor deps out
  let ?body = "default_shutdown_body wt fuel tr sequence cursor deps"
  assume "default_wait_for_with_shutdown_and_alert wt fuel tr t sequence cursor deps = Some out"
  then have p: "poll fuel ?body (t, []) = Some (Some out)"
    by (auto simp: default_wait_for_with_shutdown_and_alert_def split: option.splits bind_splits)
  have inner: "outcome_ok stops_shutdown tr t sequence cursor deps (r, t1, acts @ a)"
    if "wt 1000000 fuel tr u sequence cursor deps = Some (r, t1, a)" "t \<le> u" "r \<noteq> Inl Timeout"
    for u r t1 a acts
  proof (cases r)
    case (Inl e)
    with that wait_contract.err_stops [OF assms(1)] st [of tr u e t1] show ?thesis
      by (fastforce simp: outcome_ok_def stops_shutdown_def stops_alert_def)
  next
    case (Inr x)
    with that wait_contract.ok_reached [OF assms(1), of fuel tr u sequence cursor deps x t1 a]
    show ?thesis using order_trans by (fastforce simp: outcome_ok_def)
  qed
  show "outcome_ok stops_shutdown tr t sequence cursor deps out"
  proof (rule poll_inv [where I = "\<lambda>s. t \<le> fst s", OF p])
    fix s assume s: "t \<le> fst s" "?body s = Inl (Some out)"
    then show ?thesis
      by (cases s) (auto simp: default_shutdown_body_def stops_defs
          intro!: inner intro: outcome_ok_Err split: body_splits)
  next
    fix s s' assume s: "t \<le> fst s" "?body s = Inr s'"
    then show "t \<le> fst s'"
      by (cases s) (auto simp: default_shutdown_body_def
          dest!: wait_contract.time_advances [OF assms(1)] split: body_splits)
  qed simp
qed

interpretation blocking_shutdown:
  wait_contract "blocking_wait_for_with_shutdown_and_alert cv_wait_for" stops_shutdown for cv_wait_for
  unfolding blocking_wait_for_with_shutdown_and_alert_def
  by (rule default_shutdown_contract [OF blocking_timeout.wait_contract_axioms])
    (simp add: stops_blocking_timeout_def)

text \<open>
  A wake-up sent at time \<open>n\<close> reaches every waiter that is asleep then (the documented behaviour of
  \<open>Condvar::notify_all\<close>; it may wake earlier for no reason).
\<close>

definition cv_wakes :: "(nat \<Rightarrow> nat option) \<Rightarrow> nat \<Rightarrow> bool" where
  "cv_wakes cv_wait n \<longleftrightarrow> (\<forall>t<n. \<exists>d. cv_wait t = Some d \<and> t + d \<le> n)"

lemma poll_blocking_cursor_returns:
  assumes "cv_wakes cv_wait n" and "\<And>u. n \<le> u \<Longrightarrow> sequence \<le> we_store (tr u) cursor"
  shows "\<exists>r. poll (Suc (n - t)) (blocking_cursor_body cv_wait tr sequence cursor) t = Some r"
proof (rule poll_returns [where time = "\<lambda>u. u" and I = "\<lambda>_. True"])
  fix u assume "n \<le> u"
  with assms(2) show "\<exists>r. blocking_cursor_body cv_wait tr sequence cursor u = Inl r"
    by (force simp: blocking_cursor_body_def seq_get_def)
next
  fix u u' assume b: "blocking_cursor_body cv_wait tr sequence cursor u = Inr u'"
  then have "\<not> sequence \<le> we_store (tr u) cursor"
    by (auto simp: blocking_cursor_body_def seq_get_def split: if_splits)
  with assms(2) [of u] have "u < n" by (meson not_le)
  with assms(1) obtain d where "cv_wait u = Some d" by (auto simp: cv_wakes_def)
  with b show "True \<and> u < u'" by (auto simp: blocking_cursor_body_def split: if_splits)
qed simp

lemma poll_blocking_spin_returns:
  assumes "\<And>u r. T \<le> u \<Longrightarrow> r \<in> tracked cursor deps \<Longrightarrow> sequence \<le> we_store (tr u) r"
  shows "\<exists>out. poll (Suc (T - t)) (blocking_spin_body tr sequence cursor deps) (t, c, acts) = Some out"
proof -
  have late: "\<exists>out. blocking_spin_body tr sequence cursor deps s = Inl out" if "T \<le> fst s" for s
    using that assms wait_available_ge [of cursor deps "fst s" sequence tr]
    by (cases s) (auto simp: blocking_spin_body_def Let_def)
  have step: "fst s < fst s'" if "blocking_spin_body tr sequence cursor deps s = Inr s'" for s s'
    using that by (auto simp: blocking_spin_body_def Let_def split: body_splits)
  show ?thesis
    using poll_returns [where time = fst and I = "\<lambda>_. True" and s = "(t, c, acts)" and T = T
        and body = "blocking_spin_body tr sequence cursor deps"] step late
    by simp
qed

subsection \<open>The idle action does not matter\<close>

definition answer :: "wait_outcome \<Rightarrow> i64 result \<times> nat" where
  "answer = (\<lambda>(r, t, acts). (r, t))"

lemma poll_alert_idle:
  "map_option answer (poll fuel (alert_body idle tr sequence cursor deps) (t, c, acts)) =
   map_option answer (poll fuel (alert_body idle' tr sequence cursor deps) (t, c', acts'))"
proof (induction fuel arbitrary: t c c' acts acts')
  case (Suc fuel)
  then show ?case by (auto simp: alert_body_def answer_def Let_def split: prod.splits)
qed simp

lemma poll_timeout_idle:
  "map_option answer (poll fuel (timeout_body idle tr start d sequence cursor deps) (t, c, acts)) =
   map_option answer (poll fuel (timeout_body idle' tr start d sequence cursor deps) (t, c', acts'))"
proof (induction fuel arbitrary: t c c' acts acts')
  case (Suc fuel)
  then show ?case by (auto simp: timeout_body_def answer_def Let_def split: prod.splits)
qed simp

lemma poll_shutdown_idle:
  "map_option answer (poll fuel (shutdown_body idle tr sequence cursor deps) (t, c, acts)) =
   map_option answer (poll fuel (shutdown_body idle' tr sequence cursor deps) (t, c', acts'))"
proof (induction fuel arbitrary: t c c' acts acts')
  case (Suc fuel)
  then show ?case by (auto simp: shutdown_body_def answer_def Let_def split: prod.splits)
qed simp

lemma yielding_step_inv:
  assumes "alert_body apply_wait_method tr sequence cursor deps (t, c, acts) = Inr (t', c', acts')"
    and "acts = map (\<lambda>i. if i < 100 then SpinHint else YieldNow) [0..<length acts]"
    and "c = int (100 - length acts)"
  shows "acts' = map (\<lambda>i. if i < 100 then SpinHint else YieldNow) [0..<length acts'] \<and>
    c' = int (100 - length acts')"
proof -
  from assms(1) obtain a where a: "apply_wait_method c = (a, c')" "acts' = acts @ [a]"
    by (auto simp: alert_body_def Let_def split: body_splits)
  with assms(3) have "a = (if length acts < 100 then SpinHint else YieldNow)"
    and "c' = int (100 - length acts')"
    by (auto simp: apply_wait_method_def split: if_splits)
  with a assms(2) show ?thesis by simp
qed

section \<open>Properties\<close>

text \<open>
  The busy-spin, yielding and sleeping strategies are interchangeable. On every trajectory of the
  shared memory each of their three waits gives the same answer at the same time as its counterpart;
  only the idle actions between two polls differ.
\<close>

theorem wait_strategies_equivalent:
  "map_option answer (yielding_wait_for_with_alert fuel tr t sequence cursor deps) =
     map_option answer (busy_spin_wait_for_with_alert fuel tr t sequence cursor deps) \<and>
   map_option answer (sleeping_wait_for_with_alert sl fuel tr t sequence cursor deps) =
     map_option answer (busy_spin_wait_for_with_alert fuel tr t sequence cursor deps) \<and>
   map_option answer (yielding_wait_for_with_timeout_and_alert d fuel tr t sequence cursor deps) =
     map_option answer (busy_spin_wait_for_with_timeout_and_alert d fuel tr t sequence cursor deps) \<and>
   map_option answer (sleeping_wait_for_with_timeout_and_alert sl d fuel tr t sequence cursor deps) =
     map_option answer (busy_spin_wait_for_with_timeout_and_alert d fuel tr t sequence cursor deps) \<and>
   map_option answer (yielding_wait_for_with_shutdown_and_alert fuel tr t sequence cursor deps) =
     map_option answer (busy_spin_wait_for_with_shutdown_and_alert fuel tr t sequence cursor deps) \<and>
   map_option answer (sleeping_wait_for_with_shutdown_and_alert sl fuel tr t sequence cursor deps) =
     map_option answer (busy_spin_wait_for_with_shutdown_and_alert fuel tr t sequence cursor deps)"
  unfolding wait_defs
  by (intro conjI poll_alert_idle poll_timeout_idle poll_shutdown_idle)

text \<open>
  The yielding strategy makes exactly \<open>SPIN_TRIES\<close> spin hints in a wait before the first
  \<open>yield_now\<close>, and only yields after that.
\<close>

theorem yielding_spins_then_yields:
  assumes "yielding_wait_for_with_alert fuel tr t sequence cursor deps = Some (r, t', acts)"
  shows "acts = map (\<lambda>i. if int i < SPIN_TRIES then SpinHint else YieldNow) [0..<length acts]"
proof -
  let ?I = "\<lambda>(t, c, acts). acts = map (\<lambda>i. if i < 100 then SpinHint else YieldNow) [0..<length acts] \<and>
    c = int (100 - length acts)"
  from assms have "poll fuel (alert_body apply_wait_method tr sequence cursor deps) (t, 100, [])
    = Some (r, t', acts)" by (simp add: wait_defs SPIN_TRIES_def)
  then obtain s where s: "?I s"
    and "alert_body apply_wait_method tr sequence cursor deps s = Inl (r, t', acts)"
  proof (rule poll_inv [where I = ?I])
    show "?I (t, 100, [])" by simp
  next
    fix s s' assume "?I s" "alert_body apply_wait_method tr sequence cursor deps s = Inr s'"
    then show "?I s'"
      using yielding_step_inv [of tr sequence cursor deps "fst s" "fst (snd s)" "snd (snd s)"
          "fst s'" "fst (snd s')" "snd (snd s')"] by (cases s, cases s') simp
  qed
  then have "acts = snd (snd s)" by (auto simp: alert_body_def Let_def split: body_splits)
  with s show ?thesis by (cases s) (simp add: SPIN_TRIES_def)
qed

theorem yielding_spins_then_yields_witness:
  "\<exists>r t' acts. yielding_wait_for_with_alert 103
     (\<lambda>u. \<lparr>we_store = (\<lambda>r. if u < 305 then - 1 else 0), we_alerted = False, we_shutdown = False,
        we_strategy_alerted = False, we_clock = u\<rparr>) 0 0 0 [] = Some (r, t', acts) \<and> length acts = 102 \<and>
     acts = map (\<lambda>i. if int i < SPIN_TRIES then SpinHint else YieldNow) [0..<length acts]"
proof -
  let ?w = "yielding_wait_for_with_alert 103
     (\<lambda>u. \<lparr>we_store = (\<lambda>r. if u < 305 then - 1 else 0), we_alerted = False, we_shutdown = False,
        we_strategy_alerted = False, we_clock = u\<rparr>) 0 0 0 []"
  have "case ?w of None \<Rightarrow> False | Some (r, t', acts) \<Rightarrow> length acts = 102" by code_simp
  then obtain r t' acts where w: "?w = Some (r, t', acts)" "length acts = 102"
    by (cases ?w) auto
  with yielding_spins_then_yields [OF w(1)] show ?thesis by blast
qed



end
