(* ===== verification/Single_Producer.thy ===== *)
theory Single_Producer
  imports Gating Wait_Strategy
begin

text \<open>
  \<open>SingleProducerSequencer\<close> and \<open>UniqueProducerCapability\<close> of \<open>src/disruptor/sequencer.rs\<close>. The
  record holds the fields of the struct; \<open>sp_mem\<close> is the memory the sequence references point to and
  \<open>sp_signals\<close> counts the wake-ups sent to blocked consumers (the diagnostics counters of the
  \<open>bench-round-diagnostics\<close> feature are left out).

  A claim runs while consumers move their sequences, and while other threads may close or poison the
  sequencer and change its gating list. So a claim reads a trajectory \<open>tr\<close>: \<open>tr t\<close> is the state of
  the sequencer as the other threads have made it at the \<open>t\<close>-th atomic access. \<open>next_value\<close> and
  \<open>cached_value\<close> belong to the claimant, and only the producer writes the cursor, so the result is
  the state of the others at the end with these three put in (\<open>rejoin\<close>). The sequential behaviour is
  the constant trajectory.
\<close>

section \<open>State\<close>

record sp_seq =
  sp_buffer_size :: usize
  sp_buffer_size_i64 :: i64
  sp_wait_strategy :: wait_strategy
  sp_needs_signal :: bool
  sp_cursor :: seq_ref
  sp_gating :: "seq_ref list"
  sp_next_value :: i64
  sp_cached_value :: i64
  sp_claim_lock :: bool
  sp_poisoned :: bool
  sp_closed :: bool
  sp_first_failure :: "failure_record option"
  sp_mem :: store
  sp_signals :: nat

text \<open>\<open>new\<close>; \<open>None\<close> is the panic of \<open>expect\<close>. The cursor is allocated at \<open>r\<close>.\<close>

definition sp_new :: "usize \<Rightarrow> wait_strategy \<Rightarrow> seq_ref \<Rightarrow> store \<Rightarrow> sp_seq option" where
  "sp_new buffer_size ws r h =
     (case i64_try_from buffer_size of
        None \<Rightarrow> None
      | Some n \<Rightarrow> Some
         \<lparr>sp_buffer_size = buffer_size, sp_buffer_size_i64 = n, sp_wait_strategy = ws,
          sp_needs_signal = needs_signal ws, sp_cursor = r, sp_gating = [],
          sp_next_value = - 1, sp_cached_value = - 1, sp_claim_lock = False, sp_poisoned = False,
          sp_closed = False, sp_first_failure = None,
          sp_mem = seq_new_with_initial_value r h, sp_signals = 0\<rparr>)"

definition sp_new_unique :: "usize \<Rightarrow> wait_strategy \<Rightarrow> seq_ref \<Rightarrow> store \<Rightarrow> sp_seq option" where
  "sp_new_unique buffer_size ws r h =
     map_option (sp_claim_lock_update (\<lambda>_. True)) (sp_new buffer_size ws r h)"

text \<open>Dropping the capability, and dropping a \<open>SingleClaimGuard\<close>.\<close>

definition release_claim :: "sp_seq \<Rightarrow> sp_seq" where
  "release_claim s = s\<lparr>sp_claim_lock := False\<rparr>"

section \<open>Claiming\<close>

text \<open>\<open>swap(true)\<close> on the claim lock, for \<open>acquire_claim\<close> and \<open>try_acquire_claim\<close>.\<close>

definition acquire_claim :: "sp_seq \<Rightarrow> sp_seq result" where
  "acquire_claim s =
     (if sp_claim_lock s then Err ConcurrentClaimDriver else Ok (s\<lparr>sp_claim_lock := True\<rparr>))"

definition try_acquire_claim :: "sp_seq \<Rightarrow> sp_seq option" where
  "try_acquire_claim s = (if sp_claim_lock s then None else Some (s\<lparr>sp_claim_lock := True\<rparr>))"

definition sp_claim_state_error :: "sp_seq traj \<Rightarrow> nat \<Rightarrow> disruptor_error option" where
  "sp_claim_state_error tr t =
     (if sp_closed (tr t) then Some Shutdown
      else if sp_poisoned (tr (Suc t)) then Some Poisoned else None)"

text \<open>The minimum and the time after its loads.\<close>

definition sp_gating_minimum :: "sp_seq traj \<Rightarrow> nat \<Rightarrow> i64 \<Rightarrow> i64 \<times> nat" where
  "sp_gating_minimum tr t minimum =
     (let guard = sp_gating (tr t)
      in (get_minimum_sequence_with_default (\<lambda>i. sp_mem (tr i)) (Suc t) guard minimum,
          Suc t + length guard))"

definition set_cursor :: "i64 \<Rightarrow> sp_seq \<Rightarrow> sp_seq" where
  "set_cursor v s = s\<lparr>sp_mem := seq_set_volatile (sp_cursor s) v (sp_mem s)\<rparr>"

definition sp_has_available_capacity_internal ::
    "sp_seq traj \<Rightarrow> nat \<Rightarrow> usize \<Rightarrow> bool \<Rightarrow> sp_seq \<Rightarrow> (bool \<times> nat \<times> sp_seq) option" where
  "sp_has_available_capacity_internal tr t required_capacity do_store s =
     (case i64_try_from required_capacity of
        None \<Rightarrow> None
      | Some required \<Rightarrow>
          let next_value = sp_next_value s;
              wrap_point = sub_i64 (add_i64 next_value required) (sp_buffer_size_i64 s);
              cached = sp_cached_value s
          in Some (
            if wrap_point > cached \<or> cached > next_value then
              let s1 = (if do_store then set_cursor next_value s else s);
                  (min_sequence, t') = sp_gating_minimum tr (if do_store then Suc t else t) next_value
              in (\<not> wrap_point > min_sequence, t', s1\<lparr>sp_cached_value := min_sequence\<rparr>)
            else (True, t, s)))"

definition sp_remaining_capacity_inner :: "sp_seq traj \<Rightarrow> nat \<Rightarrow> sp_seq \<Rightarrow> i64" where
  "sp_remaining_capacity_inner tr t s =
     (let next_value = sp_next_value s;
          consumed = fst (sp_gating_minimum tr t next_value);
          used_capacity = saturating_sub_i64 next_value consumed
      in saturating_sub_i64 (sp_buffer_size_i64 s) used_capacity)"

text \<open>One round of the backpressure loop of \<open>next_n_inner\<close>.\<close>

definition sp_spin_body ::
    "sp_seq traj \<Rightarrow> i64 \<Rightarrow> i64 \<Rightarrow> nat \<Rightarrow> (i64 result \<times> nat) + nat" where
  "sp_spin_body tr wrap_point next_value t =
     (let (min_sequence, t1) = sp_gating_minimum tr t next_value
      in if wrap_point > min_sequence then
           (case sp_claim_state_error tr t1 of
              Some e \<Rightarrow> Inl (Err e, t1)
            | None \<Rightarrow> Inr (Suc (Suc t1)))
         else Inl (Ok min_sequence, t1))"

definition sp_next_n_inner ::
    "nat \<Rightarrow> sp_seq traj \<Rightarrow> nat \<Rightarrow> i64 \<Rightarrow> sp_seq \<Rightarrow> (i64 result \<times> nat \<times> sp_seq) option" where
  "sp_next_n_inner fuel tr t n s =
     (let next_value = sp_next_value s;
          next_sequence = add_i64 next_value n;
          wrap_point = sub_i64 next_sequence (sp_buffer_size_i64 s);
          cached = sp_cached_value s
      in if wrap_point > cached \<or> cached > next_value then
           let s1 = set_cursor next_value s
           in (case poll fuel (sp_spin_body tr wrap_point next_value) (Suc t) of
                 None \<Rightarrow> None
               | Some (Inl e, t') \<Rightarrow> Some (Err e, t', s1)
               | Some (Inr min_sequence, t') \<Rightarrow>
                   Some (Ok next_sequence, t',
                     s1\<lparr>sp_cached_value := min_sequence, sp_next_value := next_sequence\<rparr>))
         else Some (Ok next_sequence, t, s\<lparr>sp_next_value := next_sequence\<rparr>))"

definition sp_try_next_n_inner ::
    "sp_seq traj \<Rightarrow> nat \<Rightarrow> i64 \<Rightarrow> sp_seq \<Rightarrow> (i64 option \<times> nat \<times> sp_seq) option" where
  "sp_try_next_n_inner tr t n s =
     (case usize_try_from n of
        None \<Rightarrow> Some (None, t, s)
      | Some required \<Rightarrow>
          (case sp_has_available_capacity_internal tr t required True s of
             None \<Rightarrow> None
           | Some (False, t', s') \<Rightarrow> Some (None, t', s')
           | Some (True, t', s') \<Rightarrow>
               let next_sequence = add_i64 (sp_next_value s') n
               in Some (Some next_sequence, t', s'\<lparr>sp_next_value := next_sequence\<rparr>)))"

text \<open>What the claimant owns, put into the state the others have left.\<close>

definition rejoin :: "sp_seq \<Rightarrow> sp_seq \<Rightarrow> sp_seq" where
  "rejoin others own = others
     \<lparr>sp_next_value := sp_next_value own, sp_cached_value := sp_cached_value own,
      sp_mem := (sp_mem others)(sp_cursor own := sp_mem own (sp_cursor own))\<rparr>"

section \<open>The checked claim methods\<close>

definition sp_next_n :: "nat \<Rightarrow> sp_seq traj \<Rightarrow> i64 \<Rightarrow> (i64 result \<times> sp_seq) option" where
  "sp_next_n fuel tr n =
     (if n < 1 \<or> n > sp_buffer_size_i64 (tr 0) then Some (Err (InvalidSequence n), tr 0)
      else case sp_claim_state_error tr 0 of
        Some e \<Rightarrow> Some (Err e, tr 1)
      | None \<Rightarrow>
          (case acquire_claim (tr 2) of
             Inl e \<Rightarrow> Some (Err e, tr 2)
           | Inr s \<Rightarrow>
               (case sp_next_n_inner fuel tr 3 n s of
                  None \<Rightarrow> None
                | Some (r, t, s') \<Rightarrow> Some (r, release_claim (rejoin (tr t) s')))))"

definition sp_next :: "nat \<Rightarrow> sp_seq traj \<Rightarrow> (i64 result \<times> sp_seq) option" where
  "sp_next fuel tr = sp_next_n fuel tr 1"

text \<open>\<open>None\<close> outside is a panic, \<open>None\<close> inside the code's \<open>None\<close>.\<close>

definition sp_try_next_n :: "sp_seq traj \<Rightarrow> i64 \<Rightarrow> (i64 option \<times> sp_seq) option" where
  "sp_try_next_n tr n =
     (if n < 1 \<or> n > sp_buffer_size_i64 (tr 0) then Some (None, tr 0)
      else case sp_claim_state_error tr 0 of
        Some e \<Rightarrow> Some (None, tr 1)
      | None \<Rightarrow>
          (case try_acquire_claim (tr 2) of
             None \<Rightarrow> Some (None, tr 2)
           | Some s \<Rightarrow>
               (case sp_try_next_n_inner tr 3 n s of
                  None \<Rightarrow> None
                | Some (r, t, s') \<Rightarrow> Some (r, release_claim (rejoin (tr t) s')))))"

definition sp_try_next :: "sp_seq traj \<Rightarrow> (i64 option \<times> sp_seq) option" where
  "sp_try_next tr = sp_try_next_n tr 1"

definition sp_remaining_capacity :: "sp_seq traj \<Rightarrow> i64" where
  "sp_remaining_capacity tr =
     (case try_acquire_claim (tr 0) of
        None \<Rightarrow> 0
      | Some s \<Rightarrow> sp_remaining_capacity_inner tr 1 s)"

definition sp_has_available_capacity :: "sp_seq traj \<Rightarrow> usize \<Rightarrow> (bool \<times> sp_seq) option" where
  "sp_has_available_capacity tr required =
     (case try_acquire_claim (tr 0) of
        None \<Rightarrow> Some (False, tr 0)
      | Some s \<Rightarrow>
          (case sp_has_available_capacity_internal tr 1 required False s of
             None \<Rightarrow> None
           | Some (b, t, s') \<Rightarrow> Some (b, release_claim (rejoin (tr t) s'))))"

section \<open>The capability's claim methods\<close>

definition cap_next_n :: "nat \<Rightarrow> sp_seq traj \<Rightarrow> i64 \<Rightarrow> (i64 result \<times> sp_seq) option" where
  "cap_next_n fuel tr n =
     (if n < 1 \<or> n > sp_buffer_size_i64 (tr 0) then Some (Err (InvalidSequence n), tr 0)
      else case sp_claim_state_error tr 0 of
        Some e \<Rightarrow> Some (Err e, tr 1)
      | None \<Rightarrow>
          (case sp_next_n_inner fuel tr 2 n (tr 2) of
             None \<Rightarrow> None
           | Some (r, t, s') \<Rightarrow> Some (r, rejoin (tr t) s')))"

definition cap_next :: "nat \<Rightarrow> sp_seq traj \<Rightarrow> (i64 result \<times> sp_seq) option" where
  "cap_next fuel tr = cap_next_n fuel tr 1"

definition cap_try_next_n :: "sp_seq traj \<Rightarrow> i64 \<Rightarrow> (i64 option \<times> sp_seq) option" where
  "cap_try_next_n tr n =
     (if n < 1 \<or> n > sp_buffer_size_i64 (tr 0) then Some (None, tr 0)
      else case sp_claim_state_error tr 0 of
        Some e \<Rightarrow> Some (None, tr 1)
      | None \<Rightarrow>
          (case sp_try_next_n_inner tr 2 n (tr 2) of
             None \<Rightarrow> None
           | Some (r, t, s') \<Rightarrow> Some (r, rejoin (tr t) s')))"

definition cap_try_next :: "sp_seq traj \<Rightarrow> (i64 option \<times> sp_seq) option" where
  "cap_try_next tr = cap_try_next_n tr 1"

definition cap_remaining_capacity :: "sp_seq traj \<Rightarrow> i64" where
  "cap_remaining_capacity tr = sp_remaining_capacity_inner tr 0 (tr 0)"

section \<open>Publication, gating and lifecycle\<close>

definition sp_publish :: "i64 \<Rightarrow> sp_seq \<Rightarrow> sp_seq" where
  "sp_publish sequence s =
     (let s' = s\<lparr>sp_mem := seq_set (sp_cursor s) sequence (sp_mem s)\<rparr>
      in if sp_needs_signal s
         then s'\<lparr>sp_signals := signal_all_when_blocking (sp_wait_strategy s) (sp_signals s)\<rparr>
         else s')"

definition sp_publish_range :: "i64 \<Rightarrow> i64 \<Rightarrow> sp_seq \<Rightarrow> sp_seq" where
  "sp_publish_range low high s = sp_publish high s"

definition sp_get_cursor :: "sp_seq \<Rightarrow> seq_ref" where
  "sp_get_cursor s = sp_cursor s"

definition sp_get_buffer_size :: "sp_seq \<Rightarrow> usize" where
  "sp_get_buffer_size s = sp_buffer_size s"

definition sp_is_available :: "i64 \<Rightarrow> sp_seq \<Rightarrow> bool" where
  "sp_is_available sequence s \<longleftrightarrow> sequence \<le> seq_get (sp_mem s) (sp_cursor s)"

definition sp_get_highest_published_sequence :: "i64 \<Rightarrow> i64 \<Rightarrow> i64" where
  "sp_get_highest_published_sequence next_sequence available_sequence = available_sequence"

definition sp_add_gating_sequences ::
    "((seq_ref list \<Rightarrow> seq_ref list) \<Rightarrow> seq_ref list \<Rightarrow> seq_ref list) \<Rightarrow> seq_ref list \<Rightarrow> sp_seq \<Rightarrow> sp_seq" where
  "sp_add_gating_sequences rcu rs s = s\<lparr>sp_gating := add_gating_sequences_rcu rcu (sp_gating s) rs\<rparr>"

text \<open>Removal without interference of other updates; \<open>k\<close> is the identity of the current snapshot.\<close>

definition sp_remove_gating_sequence ::
    "snapshot_cas \<Rightarrow> nat \<Rightarrow> seq_ref \<Rightarrow> sp_seq \<Rightarrow> (bool \<times> sp_seq) option" where
  "sp_remove_gating_sequence cas k r s =
     map_option (\<lambda>(b, c). (b, s\<lparr>sp_gating := snd c\<rparr>))
       (remove_gating_sequence_cas cas [\<lambda>c. c] r (k, sp_gating s) (k, sp_gating s))"

definition sp_get_minimum_sequence :: "sp_seq traj \<Rightarrow> nat \<Rightarrow> i64" where
  "sp_get_minimum_sequence tr t =
     get_minimum_sequence (\<lambda>i. sp_mem (tr i)) (Suc t) (sp_gating (tr t))"

definition sp_signal :: "sp_seq \<Rightarrow> sp_seq" where
  "sp_signal s = s\<lparr>sp_signals := signal_all_when_blocking (sp_wait_strategy s) (sp_signals s)\<rparr>"

definition sp_poison :: "sp_seq \<Rightarrow> sp_seq" where
  "sp_poison s = sp_signal (s\<lparr>sp_poisoned := True\<rparr>)"

definition sp_is_poisoned :: "sp_seq \<Rightarrow> bool" where
  "sp_is_poisoned s = sp_poisoned s"

definition sp_record_failure :: "failure_record \<Rightarrow> sp_seq \<Rightarrow> sp_seq" where
  "sp_record_failure f s =
     (if sp_first_failure s = None then s\<lparr>sp_first_failure := Some f\<rparr> else s)"

definition sp_close :: "sp_seq \<Rightarrow> sp_seq" where
  "sp_close s = sp_signal (s\<lparr>sp_closed := True\<rparr>)"

definition sp_is_closed :: "sp_seq \<Rightarrow> bool" where
  "sp_is_closed s = sp_closed s"

definition sp_reopen :: "sp_seq \<Rightarrow> sp_seq" where
  "sp_reopen s = s\<lparr>sp_closed := False\<rparr>"

section \<open>Invariant and environment\<close>

text \<open>
  The claimed position is at most one ring ahead of the cached minimum, and the cached minimum is
  behind every consumer.
\<close>

definition sp_inv :: "sp_seq \<Rightarrow> bool" where
  "sp_inv s \<longleftrightarrow>
     sp_buffer_size_i64 s = int (sp_buffer_size s) \<and> 0 < sp_buffer_size s \<and>
     int (sp_buffer_size s) \<le> i64_max \<and> - 1 \<le> sp_next_value s \<and> sp_cached_value s \<le> sp_next_value s \<and>
     sp_next_value s - int (sp_buffer_size s) \<le> sp_cached_value s \<and>
     (\<forall>g\<in>set (sp_gating s). sp_cached_value s \<le> sp_mem s g) \<and>
     sp_cursor s \<notin> set (sp_gating s)"

text \<open>Sequence numbers stay below the end of \<open>i64\<close>.\<close>

definition sp_room :: "sp_seq \<Rightarrow> bool" where
  "sp_room s \<longleftrightarrow> sp_next_value s + int (sp_buffer_size s) \<le> i64_max"

text \<open>
  What the other threads may do during a claim: move gating sequences forward, drop gating
  sequences, set the flags. They may not claim.
\<close>

definition sp_env :: "sp_seq traj \<Rightarrow> bool" where
  "sp_env tr \<longleftrightarrow>
     mono_traj (\<lambda>t. sp_mem (tr t)) (set (sp_gating (tr 0))) \<and>
     (\<forall>t t'. t \<le> t' \<longrightarrow> set (sp_gating (tr t')) \<subseteq> set (sp_gating (tr t))) \<and>
     (\<forall>t. sp_buffer_size (tr t) = sp_buffer_size (tr 0) \<and>
          sp_buffer_size_i64 (tr t) = sp_buffer_size_i64 (tr 0) \<and>
          sp_cursor (tr t) = sp_cursor (tr 0) \<and>
          sp_next_value (tr t) = sp_next_value (tr 0) \<and>
          sp_cached_value (tr t) = sp_cached_value (tr 0))"

lemma sp_env_const [simp]: "sp_env (\<lambda>_. s)"
  by (simp add: sp_env_def)

lemma sp_envD:
  assumes "sp_env tr"
  shows "sp_buffer_size (tr t) = sp_buffer_size (tr 0)"
    and "sp_buffer_size_i64 (tr t) = sp_buffer_size_i64 (tr 0)"
    and "sp_cursor (tr t) = sp_cursor (tr 0)"
    and "sp_next_value (tr t) = sp_next_value (tr 0)"
    and "sp_cached_value (tr t) = sp_cached_value (tr 0)"
  using assms unfolding sp_env_def by blast+

lemma sp_env_gating: "sp_env tr \<Longrightarrow> t \<le> t' \<Longrightarrow> g \<in> set (sp_gating (tr t')) \<Longrightarrow> g \<in> set (sp_gating (tr t))"
  unfolding sp_env_def by blast

lemma sp_env_mono:
  "sp_env tr \<Longrightarrow> g \<in> set (sp_gating (tr u)) \<Longrightarrow> t \<le> t' \<Longrightarrow> sp_mem (tr t) g \<le> sp_mem (tr t') g"
  by (metis sp_env_def mono_trajD sp_env_gating le0)

lemma sp_inv_env: "sp_env tr \<Longrightarrow> sp_inv (tr 0) \<Longrightarrow> sp_inv (tr t)"
  using sp_envD [of tr t] sp_env_gating [of tr 0 t] sp_env_mono [of tr _ 0 0 t]
  by (auto simp: sp_inv_def intro: order_trans)

lemma sp_room_env: "sp_env tr \<Longrightarrow> sp_room (tr 0) \<Longrightarrow> sp_room (tr t)"
  by (simp add: sp_room_def sp_envD [of tr t])

lemma sp_new_inv:
  "0 < n \<Longrightarrow> sp_new n ws r h = Some s \<Longrightarrow> sp_inv s"
  by (auto simp: sp_new_def i64_try_from_def sp_inv_def split: if_splits)

section \<open>The gating minimum\<close>

lemma sp_gating_minimum_le:
  assumes "sp_env tr" and "sp_gating_minimum tr t m = (v, t')"
  shows "v \<le> m" and "t < t'"
    and "g \<in> set (sp_gating (tr u)) \<Longrightarrow> t' \<le> u \<Longrightarrow> v \<le> sp_mem (tr u) g"
proof -
  from assms(2) have v: "v = min_loop (\<lambda>i. sp_mem (tr i)) (Suc t) m (sp_gating (tr t))"
    and t': "t' = Suc t + length (sp_gating (tr t))"
    by (auto simp: sp_gating_minimum_def get_minimum_sequence_with_default_def Let_def)
  show "v \<le> m" unfolding v by (rule min_loop_le_minimum)
  show "t < t'" unfolding t' by simp
  assume g: "g \<in> set (sp_gating (tr u))" and u: "t' \<le> u"
  from g u t' have g': "g \<in> set (sp_gating (tr t))"
    using sp_env_gating [OF assms(1), of t u g] by simp
  have mono: "mono_traj (\<lambda>i. sp_mem (tr i)) (set (sp_gating (tr t)))"
    using sp_env_mono [OF assms(1)] by (auto simp: mono_traj_def)
  show "v \<le> sp_mem (tr u) g"
    unfolding v by (rule min_loop_stale [OF mono g']) (use t' u in simp)
qed

lemma sp_gating_minimum_ge:
  assumes "sp_env tr" and "sp_gating_minimum tr t m = (v, t')" and "c \<le> m"
    and "\<And>g. g \<in> set (sp_gating (tr t)) \<Longrightarrow> c \<le> sp_mem (tr t) g"
  shows "c \<le> v"
proof -
  from assms(2) have v: "v = min_loop (\<lambda>i. sp_mem (tr i)) (Suc t) m (sp_gating (tr t))"
    by (auto simp: sp_gating_minimum_def get_minimum_sequence_with_default_def Let_def)
  show ?thesis unfolding v
  proof (rule min_loop_ge)
    fix g u
    assume "g \<in> set (sp_gating (tr t))" and "Suc t \<le> u"
    then show "c \<le> sp_mem (tr u) g"
      using assms(4) sp_env_mono [OF assms(1), of g t t u] by force
  qed (rule assms(3))
qed

lemma sp_gating_minimum_cached:
  assumes "sp_env tr" and "sp_inv (tr 0)"
    and "sp_gating_minimum tr t (sp_next_value (tr 0)) = (v, t')"
  shows "sp_cached_value (tr 0) \<le> v"
  using sp_inv_env [OF assms(1,2), of t] sp_envD [OF assms(1), of t]
  by (intro sp_gating_minimum_ge [OF assms(1,3)]) (auto simp: sp_inv_def)

text \<open>On a memory at rest the minimum is the mathematical one.\<close>

definition consumed :: "sp_seq \<Rightarrow> i64" where
  "consumed s = Min (insert (sp_next_value s) (sp_mem s ` set (sp_gating s)))"

lemma sp_gating_minimum_const:
  "fst (sp_gating_minimum (\<lambda>_. s) t (sp_next_value s)) = consumed s"
  by (simp add: sp_gating_minimum_def get_minimum_sequence_with_default_def Let_def min_loop_const
      consumed_def)

section \<open>The claim path\<close>

lemma sp_wrap_arith:
  assumes "sp_inv s" and "sp_room s" and "1 \<le> n" and "n \<le> int (sp_buffer_size s)"
  shows "add_i64 (sp_next_value s) n = sp_next_value s + n"
    and "sub_i64 (sp_next_value s + n) (sp_buffer_size_i64 s) =
         sp_next_value s + n - int (sp_buffer_size s)"
  using assms by (auto simp: sp_inv_def sp_room_def in_i64_def intro!: add_i64_id sub_i64_id)

lemma rejoin_inv:
  assumes "sp_env tr" and "sp_inv (tr 0)" and "sp_cursor s = sp_cursor (tr 0)"
    and "- 1 \<le> sp_next_value s" and "sp_cached_value s \<le> sp_next_value s"
    and "sp_next_value s - int (sp_buffer_size (tr 0)) \<le> sp_cached_value s"
    and "\<And>g. g \<in> set (sp_gating (tr t)) \<Longrightarrow> sp_cached_value s \<le> sp_mem (tr t) g"
  shows "sp_inv (rejoin (tr t) s)" and "sp_inv (release_claim (rejoin (tr t) s))"
  using assms sp_inv_env [OF assms(1,2), of t] sp_envD [OF assms(1), of t]
  by (auto simp: sp_inv_def rejoin_def release_claim_def)

lemma sp_spin_result:
  assumes "poll fuel (sp_spin_body tr w nv) t = Some (r, t')"
  shows "\<exists>t1 m. sp_gating_minimum tr t1 nv = (m, t') \<and>
     (case r of Inr m' \<Rightarrow> m' = m \<and> w \<le> m
      | Inl e \<Rightarrow> m < w \<and> sp_claim_state_error tr t' = Some e)"
proof -
  obtain t1 where "sp_spin_body tr w nv t1 = Inl (r, t')"
    by (rule poll_inv [OF assms, of "\<lambda>_. True"]) auto
  then show ?thesis
    by (intro exI [of _ t1])
      (auto simp: sp_spin_body_def split: prod.splits if_splits option.splits)
qed

text \<open>
  What the claimant owns after a claim that returned: on success the position has moved by \<open>n\<close> and
  the new cached minimum covers it, on an error nothing is claimed.
\<close>

definition own_post :: "sp_seq traj \<Rightarrow> nat \<Rightarrow> sp_seq \<Rightarrow> i64 \<Rightarrow> bool" where
  "own_post tr t s next \<longleftrightarrow>
     sp_cursor s = sp_cursor (tr 0) \<and> sp_next_value s = next \<and> sp_cached_value s \<le> next \<and>
     next - int (sp_buffer_size (tr 0)) \<le> sp_cached_value s \<and>
     (\<forall>g\<in>set (sp_gating (tr t)). sp_cached_value s \<le> sp_mem (tr t) g)"

lemma own_post_inv:
  assumes "sp_env tr" and "sp_inv (tr 0)" and "own_post tr t s next" and "- 1 \<le> next"
  shows "sp_inv (rejoin (tr t) s)" and "sp_inv (release_claim (rejoin (tr t) s))"
  using assms by (auto simp: own_post_def intro!: rejoin_inv)

lemma own_post_unchanged:
  assumes "sp_env tr" and "sp_inv (tr 0)"
    and "sp_cursor s = sp_cursor (tr 0)" and "sp_next_value s = sp_next_value (tr 0)"
    and "sp_cached_value s = sp_cached_value (tr 0)"
  shows "own_post tr t s (sp_next_value (tr 0))"
  using sp_inv_env [OF assms(1,2), of t] sp_envD [OF assms(1), of t] assms(3-5)
  by (auto simp: sp_inv_def own_post_def)

lemma own_post_fast:
  assumes "sp_env tr" and "sp_inv (tr 0)" and "1 \<le> n"
    and "sp_cursor s = sp_cursor (tr 0)" and "sp_next_value s = sp_next_value (tr 0)"
    and "sp_cached_value s = sp_cached_value (tr 0)"
    and "sp_next_value (tr 0) + n - int (sp_buffer_size (tr 0)) \<le> sp_cached_value (tr 0)"
  shows "own_post tr t (s\<lparr>sp_next_value := sp_next_value (tr 0) + n\<rparr>) (sp_next_value (tr 0) + n)"
  using sp_inv_env [OF assms(1,2), of t] sp_envD [OF assms(1), of t] assms(3-7)
  by (auto simp: sp_inv_def own_post_def)

lemma own_post_slow:
  assumes "sp_env tr" and "sp_cursor s = sp_cursor (tr 0)" and "0 \<le> n"
    and "sp_gating_minimum tr t1 (sp_next_value (tr 0)) = (m, t)"
    and "sp_next_value (tr 0) + n - int (sp_buffer_size (tr 0)) \<le> m"
  shows "own_post tr t (s\<lparr>sp_cached_value := m, sp_next_value := sp_next_value (tr 0) + n\<rparr>)
           (sp_next_value (tr 0) + n)"
  using assms(2,3,5) sp_gating_minimum_le [OF assms(1,4)]
  by (auto simp: own_post_def)

text \<open>The claimant's view when it starts: the fields it owns are those of the trajectory.\<close>

definition own_start :: "sp_seq traj \<Rightarrow> sp_seq \<Rightarrow> bool" where
  "own_start tr s \<longleftrightarrow> sp_cursor s = sp_cursor (tr 0) \<and> sp_next_value s = sp_next_value (tr 0) \<and>
     sp_cached_value s = sp_cached_value (tr 0) \<and> sp_buffer_size s = sp_buffer_size (tr 0) \<and>
     sp_buffer_size_i64 s = sp_buffer_size_i64 (tr 0)"

lemma own_start_env:
  "sp_env tr \<Longrightarrow> own_start tr (tr t)"
  "sp_env tr \<Longrightarrow> own_start tr ((tr t)\<lparr>sp_claim_lock := b\<rparr>)"
  using sp_envD [of tr t] by (simp_all add: own_start_def)

lemma sp_next_n_inner_spec:
  assumes "sp_env tr" and "sp_inv (tr 0)" and "sp_room (tr 0)" and "own_start tr s"
    and "1 \<le> n" and "n \<le> int (sp_buffer_size (tr 0))"
    and "sp_next_n_inner fuel tr t n s = Some (r, t', s')"
  shows "case r of
      Inr hi \<Rightarrow> hi = sp_next_value (tr 0) + n \<and> own_post tr t' s' hi
    | Inl e \<Rightarrow> own_post tr t' s' (sp_next_value (tr 0)) \<and> sp_claim_state_error tr t' = Some e"
proof -
  let ?nv = "sp_next_value (tr 0)"
  let ?w = "?nv + n - int (sp_buffer_size (tr 0))"
  note start = assms(4) [unfolded own_start_def]
  note arith = sp_wrap_arith [OF assms(2,3,5,6)]
  have cached: "sp_cached_value (tr 0) \<le> ?nv" using assms(2) by (simp add: sp_inv_def)
  show ?thesis
  proof (cases "?w \<le> sp_cached_value (tr 0)")
    case True
    with assms(7) start arith cached own_post_fast [OF assms(1,2,5) _ _ _ True, of s t'] show ?thesis
      by (auto simp: sp_next_n_inner_def Let_def)
  next
    case False
    then obtain q where q: "poll fuel (sp_spin_body tr ?w ?nv) (Suc t) = Some (q, t')"
      and res: "r = (case q of Inl e \<Rightarrow> Err e | Inr _ \<Rightarrow> Ok (?nv + n))"
        "s' = (case q of Inl e \<Rightarrow> set_cursor ?nv s
               | Inr m \<Rightarrow> (set_cursor ?nv s)\<lparr>sp_cached_value := m, sp_next_value := ?nv + n\<rparr>)"
      using assms(7) start arith
      by (auto simp: sp_next_n_inner_def Let_def split: option.splits sum.splits)
    from sp_spin_result [OF q] obtain t1 m where m: "sp_gating_minimum tr t1 ?nv = (m, t')"
      and q': "case q of Inr m' \<Rightarrow> m' = m \<and> ?w \<le> m
               | Inl e \<Rightarrow> m < ?w \<and> sp_claim_state_error tr t' = Some e" by blast
    have cur: "sp_cursor (set_cursor ?nv s) = sp_cursor (tr 0)"
      "sp_next_value (set_cursor ?nv s) = ?nv"
      "sp_cached_value (set_cursor ?nv s) = sp_cached_value (tr 0)"
      using start by (simp_all add: set_cursor_def)
    show ?thesis
      using res q' own_post_unchanged [OF assms(1,2) cur] own_post_slow [OF assms(1) cur(1) _ m] assms(5)
      by (cases q) simp_all
  qed
qed

lemma sp_gating_minimum_attained:
  assumes "sp_env tr" and "sp_gating_minimum tr t m = (v, t')" and "v < m"
  shows "\<exists>g u. g \<in> set (sp_gating (tr 0)) \<and> t \<le> u \<and> v = sp_mem (tr u) g"
  using assms(2,3) min_loop_attained [of "\<lambda>i. sp_mem (tr i)" "Suc t" m "sp_gating (tr t)"]
    sp_env_gating [OF assms(1) le0, of _ t]
  by (auto simp: sp_gating_minimum_def get_minimum_sequence_with_default_def Let_def dest: Suc_leD)

lemma sp_has_available_capacity_internal_spec:
  assumes "sp_env tr" and "sp_inv (tr 0)" and "sp_room (tr 0)" and "own_start tr s"
    and "1 \<le> n" and "n \<le> int (sp_buffer_size (tr 0))"
  defines "w \<equiv> sp_next_value (tr 0) + n - int (sp_buffer_size (tr 0))"
  shows "\<exists>b t' s'. sp_has_available_capacity_internal tr t (nat n) do_store s = Some (b, t', s') \<and>
     own_post tr t' s' (sp_next_value (tr 0)) \<and> (b \<longrightarrow> w \<le> sp_cached_value s') \<and>
     (\<not> b \<longrightarrow> (\<exists>g u. g \<in> set (sp_gating (tr 0)) \<and> t \<le> u \<and> sp_mem (tr u) g < w))"
proof -
  let ?nv = "sp_next_value (tr 0)"
  note start = assms(4) [unfolded own_start_def]
  note arith = sp_wrap_arith [OF assms(2,3,5,6), folded w_def]
  have cached: "sp_cached_value (tr 0) \<le> ?nv" using assms(2) by (simp add: sp_inv_def)
  have n: "i64_try_from (nat n) = Some n"
    using assms(2,3,5,6) by (simp add: i64_try_from_def sp_inv_def sp_room_def)
  show ?thesis
  proof (cases "w \<le> sp_cached_value (tr 0)")
    case True
    with start arith cached n own_post_unchanged [OF assms(1,2), of s t] show ?thesis
      by (auto simp: sp_has_available_capacity_internal_def Let_def)
  next
    case False
    let ?t = "if do_store then Suc t else t"
    let ?s = "if do_store then set_cursor ?nv s else s"
    obtain m t' where m: "sp_gating_minimum tr ?t ?nv = (m, t')" by fastforce
    have "sp_has_available_capacity_internal tr t (nat n) do_store s =
        Some (w \<le> m, t', ?s\<lparr>sp_cached_value := m\<rparr>)"
      using False start arith n m
      by (auto simp: sp_has_available_capacity_internal_def Let_def)
    moreover have "own_post tr t' (?s\<lparr>sp_cached_value := m\<rparr>) ?nv"
      using start sp_gating_minimum_le [OF assms(1) m] sp_gating_minimum_cached [OF assms(1,2) m] assms(2)
      by (auto simp: own_post_def set_cursor_def sp_inv_def)
    moreover have "\<exists>g u. g \<in> set (sp_gating (tr 0)) \<and> t \<le> u \<and> sp_mem (tr u) g < w" if "\<not> w \<le> m"
    proof -
      have "m < ?nv" using that assms(6) w_def by simp
      from sp_gating_minimum_attained [OF assms(1) m this] obtain g u
        where "g \<in> set (sp_gating (tr 0))" "?t \<le> u" "m = sp_mem (tr u) g" by blast
      with that show ?thesis by (intro exI [of _ g] exI [of _ u]) (auto split: if_splits)
    qed
    ultimately show ?thesis by auto
  qed
qed

lemma sp_try_next_n_inner_spec:
  assumes "sp_env tr" and "sp_inv (tr 0)" and "sp_room (tr 0)" and "own_start tr s"
    and "1 \<le> n" and "n \<le> int (sp_buffer_size (tr 0))"
  defines "w \<equiv> sp_next_value (tr 0) + n - int (sp_buffer_size (tr 0))"
  shows "\<exists>r t' s'. sp_try_next_n_inner tr t n s = Some (r, t', s') \<and>
    (case r of
       Some hi \<Rightarrow> hi = sp_next_value (tr 0) + n \<and> own_post tr t' s' hi
     | None \<Rightarrow> own_post tr t' s' (sp_next_value (tr 0)) \<and>
         (\<exists>g u. g \<in> set (sp_gating (tr 0)) \<and> t \<le> u \<and> sp_mem (tr u) g < w))"
proof -
  from sp_has_available_capacity_internal_spec [OF assms(1-6), of t True]
  obtain b t' s' where cap: "sp_has_available_capacity_internal tr t (nat n) True s = Some (b, t', s')"
    and post: "own_post tr t' s' (sp_next_value (tr 0))" and b: "b \<longrightarrow> w \<le> sp_cached_value s'"
    and nb: "\<not> b \<longrightarrow> (\<exists>g u. g \<in> set (sp_gating (tr 0)) \<and> t \<le> u \<and> sp_mem (tr u) g < w)"
    unfolding w_def by blast
  have n: "usize_try_from n = Some (nat n)" using assms(5) by (simp add: usize_try_from_def)
  show ?thesis
  proof (cases b)
    case True
    have nv: "sp_next_value s' = sp_next_value (tr 0)" using post by (simp add: own_post_def)
    have "own_post tr t' (s'\<lparr>sp_next_value := sp_next_value (tr 0) + n\<rparr>) (sp_next_value (tr 0) + n)"
      using post b True assms(5) by (auto simp: own_post_def w_def)
    with cap True n nv sp_wrap_arith(1) [OF assms(2,3,5,6)] show ?thesis
      by (simp add: sp_try_next_n_inner_def Let_def)
  next
    case False
    with cap n post nb show ?thesis by (simp add: sp_try_next_n_inner_def)
  qed
qed

lemma rejoin_sel [simp]:
  "sp_next_value (rejoin s1 s2) = sp_next_value s2"
  "sp_cached_value (rejoin s1 s2) = sp_cached_value s2"
  "sp_gating (rejoin s1 s2) = sp_gating s1"
  "sp_buffer_size (rejoin s1 s2) = sp_buffer_size s1"
  "sp_claim_lock (rejoin s1 s2) = sp_claim_lock s1"
  "sp_next_value (release_claim s1) = sp_next_value s1"
  "sp_gating (release_claim s1) = sp_gating s1"
  "sp_buffer_size (release_claim s1) = sp_buffer_size s1"
  "sp_mem (release_claim s1) = sp_mem s1"
  "sp_claim_lock (release_claim s1) = False"
  by (simp_all add: rejoin_def release_claim_def)

text \<open>The invariant bounds the claimed position by every consumer.\<close>

lemma sp_inv_no_overrun:
  "sp_inv s \<Longrightarrow> g \<in> set (sp_gating s) \<Longrightarrow> sp_next_value s - int (sp_buffer_size s) \<le> sp_mem s g"
  by (force simp: sp_inv_def)

lemma sp_next_n_spec:
  assumes "sp_env tr" and "sp_inv (tr 0)" and "sp_room (tr 0)"
    and "sp_next_n fuel tr n = Some (r, s')"
  shows "sp_inv s' \<and>
    (case r of
       Inr hi \<Rightarrow> 1 \<le> n \<and> n \<le> int (sp_buffer_size (tr 0)) \<and> hi = sp_next_value (tr 0) + n \<and>
         sp_next_value s' = hi \<and> \<not> sp_claim_lock s'
     | Inl e \<Rightarrow> sp_next_value s' = sp_next_value (tr 0))"
proof -
  have sz: "sp_buffer_size_i64 (tr 0) = int (sp_buffer_size (tr 0))" "- 1 \<le> sp_next_value (tr 0)"
    using assms(2) by (simp_all add: sp_inv_def)
  note base = sp_inv_env [OF assms(1,2)] sp_envD(4) [OF assms(1)]
  show ?thesis
  proof (cases "1 \<le> n \<and> n \<le> int (sp_buffer_size (tr 0)) \<and> sp_claim_state_error tr 0 = None \<and>
      \<not> sp_claim_lock (tr 2)")
    case False
    then show ?thesis using assms(4) base sz
      by (auto simp: sp_next_n_def acquire_claim_def split: if_splits option.splits sum.splits)
  next
    case True
    let ?s = "(tr 2)\<lparr>sp_claim_lock := True\<rparr>"
    from True assms(4) sz obtain t own where
      inner: "sp_next_n_inner fuel tr 3 n ?s = Some (r, t, own)"
      and s': "s' = release_claim (rejoin (tr t) own)"
      by (auto simp: sp_next_n_def acquire_claim_def split: option.splits)
    from True have n: "1 \<le> n" "n \<le> int (sp_buffer_size (tr 0))" by simp_all
    note spec = sp_next_n_inner_spec [OF assms(1-3) own_start_env(2) [OF assms(1)] n inner]
    show ?thesis
    proof (cases r)
      case (Inl e)
      with spec have "own_post tr t own (sp_next_value (tr 0))" by simp
      with own_post_inv(2) [OF assms(1,2) this sz(2)] s' Inl show ?thesis
        by (simp add: own_post_def)
    next
      case (Inr hi)
      with spec have "hi = sp_next_value (tr 0) + n" "own_post tr t own hi" by auto
      with own_post_inv(2) [OF assms(1,2) this(2)] s' Inr n sz show ?thesis
        by (simp add: own_post_def)
    qed
  qed
qed

lemma sp_try_next_n_spec:
  assumes "sp_env tr" and "sp_inv (tr 0)" and "sp_room (tr 0)"
  shows "\<exists>r s'. sp_try_next_n tr n = Some (r, s') \<and> sp_inv s' \<and>
    (case r of
       Some hi \<Rightarrow> 1 \<le> n \<and> n \<le> int (sp_buffer_size (tr 0)) \<and> hi = sp_next_value (tr 0) + n \<and>
         sp_next_value s' = hi \<and> \<not> sp_claim_lock s'
     | None \<Rightarrow> sp_next_value s' = sp_next_value (tr 0) \<and>
         (n < 1 \<or> n > int (sp_buffer_size (tr 0)) \<or> sp_claim_state_error tr 0 \<noteq> None \<or>
          sp_claim_lock (tr 2) \<or>
          (\<exists>g u. g \<in> set (sp_gating (tr 0)) \<and>
             sp_mem (tr u) g < sp_next_value (tr 0) + n - int (sp_buffer_size (tr 0)))))"
proof -
  have sz: "sp_buffer_size_i64 (tr 0) = int (sp_buffer_size (tr 0))" "- 1 \<le> sp_next_value (tr 0)"
    using assms(2) by (simp_all add: sp_inv_def)
  note base = sp_inv_env [OF assms(1,2)] sp_envD(4) [OF assms(1)]
  show ?thesis
  proof (cases "1 \<le> n \<and> n \<le> int (sp_buffer_size (tr 0)) \<and> sp_claim_state_error tr 0 = None \<and>
      \<not> sp_claim_lock (tr 2)")
    case False
    then show ?thesis using base sz
      by (auto simp: sp_try_next_n_def try_acquire_claim_def not_less split: option.split)
  next
    case True
    let ?s = "(tr 2)\<lparr>sp_claim_lock := True\<rparr>"
    from True have n: "1 \<le> n" "n \<le> int (sp_buffer_size (tr 0))" by simp_all
    from sp_try_next_n_inner_spec [OF assms own_start_env(2) [OF assms(1)] n]
    obtain r t own where inner: "sp_try_next_n_inner tr 3 n ?s = Some (r, t, own)"
      and spec: "case r of
         Some hi \<Rightarrow> hi = sp_next_value (tr 0) + n \<and> own_post tr t own hi
       | None \<Rightarrow> own_post tr t own (sp_next_value (tr 0)) \<and>
           (\<exists>g u. g \<in> set (sp_gating (tr 0)) \<and> 3 \<le> u \<and>
             sp_mem (tr u) g < sp_next_value (tr 0) + n - int (sp_buffer_size (tr 0)))"
      by blast
    have eq: "sp_try_next_n tr n = Some (r, release_claim (rejoin (tr t) own))"
      using True sz inner by (simp add: sp_try_next_n_def try_acquire_claim_def)
    show ?thesis
    proof (cases r)
      case None
      with spec own_post_inv(2) [OF assms(1,2) _ sz(2), of t own] eq show ?thesis
        by (auto simp: own_post_def)
    next
      case (Some hi)
      with spec own_post_inv(2) [OF assms(1,2), of t own hi] eq n sz show ?thesis
        by (auto simp: own_post_def)
    qed
  qed
qed

lemma sp_try_next_n_result:
  assumes "sp_env tr" and "sp_inv (tr 0)" and "sp_room (tr 0)" and "sp_try_next_n tr n = Some (r, s')"
  shows "sp_inv s'"
    and "r = Some hi \<Longrightarrow> 1 \<le> n \<and> hi = sp_next_value (tr 0) + n \<and> sp_next_value s' = hi"
    and "r = None \<Longrightarrow> sp_next_value s' = sp_next_value (tr 0)"
proof -
  from sp_try_next_n_spec [OF assms(1-3), of n] assms(4)
  have spec: "sp_inv s'"
    "case r of Some hi \<Rightarrow> 1 \<le> n \<and> n \<le> int (sp_buffer_size (tr 0)) \<and>
        hi = sp_next_value (tr 0) + n \<and> sp_next_value s' = hi \<and> \<not> sp_claim_lock s'
      | None \<Rightarrow> sp_next_value s' = sp_next_value (tr 0)"
    by (cases r; simp)+
  then show "sp_inv s'" by blast
  show "r = Some hi \<Longrightarrow> 1 \<le> n \<and> hi = sp_next_value (tr 0) + n \<and> sp_next_value s' = hi"
    and "r = None \<Longrightarrow> sp_next_value s' = sp_next_value (tr 0)"
    using spec(2) by (cases r; simp)+
qed

section \<open>Claims with the memory at rest\<close>

lemma consumed_bounds:
  assumes "sp_inv s"
  shows "sp_cached_value s \<le> consumed s" and "consumed s \<le> sp_next_value s"
    and "sp_next_value s - int (sp_buffer_size s) \<le> consumed s"
  using assms by (auto simp: consumed_def sp_inv_def Min_ge_iff intro: order_trans)

lemma sp_capacity_const:
  assumes "sp_inv s" and "sp_room s" and "1 \<le> n" and "n \<le> int (sp_buffer_size s)"
  shows "\<exists>s'. sp_has_available_capacity_internal (\<lambda>_. s) t (nat n) do_store
           (s\<lparr>sp_claim_lock := b\<rparr>) =
         Some (sp_next_value s + n - int (sp_buffer_size s) \<le> consumed s, s')"
proof -
  note arith = sp_wrap_arith [OF assms]
  have n: "i64_try_from (nat n) = Some n"
    using assms by (simp add: i64_try_from_def sp_inv_def)
  show ?thesis
  proof (cases "sp_next_value s + n - int (sp_buffer_size s) \<le> sp_cached_value s")
    case True
    with consumed_bounds [OF assms(1)] arith n show ?thesis
      by (auto simp: sp_has_available_capacity_internal_def Let_def)
  next
    case False
    let ?t = "if do_store then Suc t else t"
    obtain t' where "sp_gating_minimum (\<lambda>_. s) ?t (sp_next_value s) = (consumed s, t')"
      using sp_gating_minimum_const [of s ?t] by (cases "sp_gating_minimum (\<lambda>_. s) ?t (sp_next_value s)") simp
    with False arith n show ?thesis
      by (auto simp: sp_has_available_capacity_internal_def Let_def)
  qed
qed

lemma sp_remaining_const:
  assumes "sp_inv s"
  shows "sp_remaining_capacity_inner (\<lambda>_. s) t (s\<lparr>sp_claim_lock := b\<rparr>) =
    int (sp_buffer_size s) - (sp_next_value s - consumed s)"
proof -
  have "in_i64 (sp_next_value s - consumed s)"
    and "in_i64 (sp_buffer_size_i64 s - (sp_next_value s - consumed s))"
    using consumed_bounds [OF assms] assms by (auto simp: in_i64_def sp_inv_def)
  then show ?thesis
    using assms sp_gating_minimum_const [of s t]
    by (simp add: sp_remaining_capacity_inner_def Let_def saturating_sub_i64_id sp_inv_def)
qed

text \<open>With the memory at rest neither the time nor the lock matters to the claim path.\<close>

definition timeless :: "('r \<times> nat \<times> sp_seq) option \<Rightarrow> ('r \<times> sp_seq) option" where
  "timeless = map_option (\<lambda>(r, t, s). (r, s))"

lemma timeless_case:
  "(case x of None \<Rightarrow> None | Some (r, t, s') \<Rightarrow> Some (r, f s')) =
   map_option (\<lambda>(r, s'). (r, f s')) (timeless x)"
  by (auto simp: timeless_def split: option.split)

lemma rest_gating_minimum:
  "fst (sp_gating_minimum (\<lambda>_. release_claim s) t' m) = fst (sp_gating_minimum (\<lambda>_. s) t m)"
  by (simp add: sp_gating_minimum_def get_minimum_sequence_with_default_def Let_def min_loop_const)

lemma rest_claim_state_error:
  "sp_claim_state_error (\<lambda>_. release_claim s) t' = sp_claim_state_error (\<lambda>_. s) t"
  by (simp add: sp_claim_state_error_def release_claim_def)

lemma rest_spin:
  "map_option fst (poll f (sp_spin_body (\<lambda>_. release_claim s) w nv) t') =
   map_option fst (poll f (sp_spin_body (\<lambda>_. s) w nv) t)"
proof (induction f arbitrary: t t')
  case 0
  then show ?case by simp
next
  case (Suc f)
  obtain m u u' where "sp_gating_minimum (\<lambda>_. s) t nv = (m, u)"
    "sp_gating_minimum (\<lambda>_. release_claim s) t' nv = (m, u')"
    using rest_gating_minimum [of s t' nv t] by (metis prod.collapse)
  then show ?case
    using Suc.IH rest_claim_state_error [of s u' u]
    by (auto simp: sp_spin_body_def split: option.split)
qed

lemma rest_next_n_inner:
  "timeless (sp_next_n_inner fuel (\<lambda>_. release_claim s) t' n own) =
   timeless (sp_next_n_inner fuel (\<lambda>_. s) t n own)"
proof -
  let ?w = "sub_i64 (add_i64 (sp_next_value own) n) (sp_buffer_size_i64 own)"
  note rest_spin [of fuel s ?w "sp_next_value own" "Suc t'" "Suc t"]
  then show ?thesis
    by (auto simp: sp_next_n_inner_def Let_def timeless_def split: option.splits sum.splits)
qed

lemma rest_try_next_n_inner:
  "timeless (sp_try_next_n_inner (\<lambda>_. release_claim s) t' n own) =
   timeless (sp_try_next_n_inner (\<lambda>_. s) t n own)"
proof -
  obtain m u u' where "sp_gating_minimum (\<lambda>_. s) (Suc t) (sp_next_value own) = (m, u)"
    "sp_gating_minimum (\<lambda>_. release_claim s) (Suc t') (sp_next_value own) = (m, u')"
    using rest_gating_minimum [of s "Suc t'" "sp_next_value own" "Suc t"] by (metis prod.collapse)
  then show ?thesis
    by (auto simp: sp_try_next_n_inner_def sp_has_available_capacity_internal_def Let_def timeless_def
        split: option.splits bool.splits)
qed

lemma relock: "sp_claim_lock s \<Longrightarrow> (release_claim s)\<lparr>sp_claim_lock := True\<rparr> = s"
  "sp_claim_lock s \<Longrightarrow> (release_claim (rejoin (release_claim s) x))\<lparr>sp_claim_lock := True\<rparr> = rejoin s x"
  by (simp_all add: release_claim_def rejoin_def)

section \<open>Returning from the backpressure loop\<close>

lemma sp_spin_returns:
  assumes "sp_env tr"
    and "(\<forall>t\<ge>T. \<forall>g\<in>set (sp_gating (tr 0)). w \<le> sp_mem (tr t) g) \<or>
         (\<forall>t\<ge>T. sp_closed (tr t)) \<or> (\<forall>t\<ge>T. sp_poisoned (tr t))"
    and "w \<le> nv"
  shows "\<exists>r. poll (Suc T) (sp_spin_body tr w nv) t = Some r"
proof -
  have "\<exists>r. poll (Suc (T - t)) (sp_spin_body tr w nv) t = Some r"
  proof (rule poll_returns [where I = "\<lambda>_. True" and time = "\<lambda>t. t"])
    fix t t' assume step: "sp_spin_body tr w nv t = Inr t'"
    obtain m t1 where m: "sp_gating_minimum tr t nv = (m, t1)" by fastforce
    with step sp_gating_minimum_le(2) [OF assms(1) m] show "True \<and> t < t'"
      by (auto simp: sp_spin_body_def split: if_splits option.splits)
  next
    fix t assume late: "T \<le> t"
    obtain m t1 where m: "sp_gating_minimum tr t nv = (m, t1)" by fastforce
    have t1: "t < t1" using sp_gating_minimum_le(2) [OF assms(1) m] .
    consider (free) "w \<le> m" | (stop) "sp_claim_state_error tr t1 \<noteq> None"
    proof -
      have "w \<le> m" if "\<forall>t\<ge>T. \<forall>g\<in>set (sp_gating (tr 0)). w \<le> sp_mem (tr t) g"
        using that late sp_env_gating [OF assms(1) le0, of _ t] assms(3)
        by (intro sp_gating_minimum_ge [OF assms(1) m]) auto
      then show ?thesis using assms(2) late t1 that by (auto simp: sp_claim_state_error_def)
    qed
    then show "\<exists>r. sp_spin_body tr w nv t = Inl r"
      using m by cases (auto simp: sp_spin_body_def split: option.split)
  qed simp
  then show ?thesis by (meson poll_mono Suc_le_mono diff_le_self)
qed

section \<open>Reachable states\<close>

text \<open>
  The life of a sequencer as the steps of its producer and of everybody else, with the ranges handed
  out so far. A consumer may be registered when it starts behind the producer's cached position, as
  it does before the first claim or with its sequence set to the cursor.
\<close>

inductive sp_step :: "sp_seq \<times> (i64 \<times> i64) list \<Rightarrow> sp_seq \<times> (i64 \<times> i64) list \<Rightarrow> bool" where
  claim: "sp_env tr \<Longrightarrow> tr 0 = s \<Longrightarrow> sp_room s \<Longrightarrow> sp_next_n fuel tr n = Some (Ok hi, s') \<Longrightarrow>
    sp_step (s, log) (s', log @ [(hi - n + 1, hi)])"
| claim_error: "sp_env tr \<Longrightarrow> tr 0 = s \<Longrightarrow> sp_room s \<Longrightarrow> sp_next_n fuel tr n = Some (Err e, s') \<Longrightarrow>
    sp_step (s, log) (s', log)"
| try_claim: "sp_env tr \<Longrightarrow> tr 0 = s \<Longrightarrow> sp_room s \<Longrightarrow> sp_try_next_n tr n = Some (Some hi, s') \<Longrightarrow>
    sp_step (s, log) (s', log @ [(hi - n + 1, hi)])"
| try_claim_none: "sp_env tr \<Longrightarrow> tr 0 = s \<Longrightarrow> sp_room s \<Longrightarrow> sp_try_next_n tr n = Some (None, s') \<Longrightarrow>
    sp_step (s, log) (s', log)"
| publish: "sp_step (s, log) (sp_publish_range lo hi s, log)"
| consume: "g \<in> set (sp_gating s) \<Longrightarrow> sp_mem s g \<le> v \<Longrightarrow>
    sp_step (s, log) (s\<lparr>sp_mem := seq_set g v (sp_mem s)\<rparr>, log)"
| register: "rcu_spec rcu \<Longrightarrow> \<forall>g\<in>set rs. sp_cached_value s \<le> sp_mem s g \<and> g \<noteq> sp_cursor s \<Longrightarrow>
    sp_step (s, log) (sp_add_gating_sequences rcu rs s, log)"
| unregister: "cas_spec cas \<Longrightarrow> sp_remove_gating_sequence cas k g s = Some (b, s') \<Longrightarrow>
    sp_step (s, log) (s', log)"
| lifecycle: "f \<in> {sp_close, sp_reopen, sp_poison, sp_record_failure fr} \<Longrightarrow>
    sp_step (s, log) (f s, log)"

inductive_cases sp_stepE: "sp_step (s, log) c"

lemma sp_inv_frame:
  assumes "sp_inv s" and "sp_buffer_size s' = sp_buffer_size s"
    and "sp_buffer_size_i64 s' = sp_buffer_size_i64 s" and "sp_next_value s' = sp_next_value s"
    and "sp_cached_value s' = sp_cached_value s" and "sp_cursor s' = sp_cursor s"
    and "\<forall>g\<in>set (sp_gating s'). sp_cached_value s \<le> sp_mem s' g \<and> g \<noteq> sp_cursor s"
  shows "sp_inv s'"
  using assms by (auto simp: sp_inv_def)

lemmas sp_frame_defs = sp_publish_range_def sp_publish_def sp_add_gating_sequences_def
  sp_close_def sp_reopen_def sp_poison_def sp_record_failure_def sp_signal_def seq_defs Let_def

lemma sp_remove_gating_frame:
  assumes "cas_spec cas" and "sp_remove_gating_sequence cas k g s = Some (b, s')"
  shows "b = (g \<in> set (sp_gating s))"
    and "s' = s\<lparr>sp_gating := filter (\<lambda>x. x \<noteq> g) (sp_gating s)\<rparr>"
  using assms(2) remove_gating_undisturbed [OF assms(1), of g k "sp_gating s"]
  by (auto simp: sp_remove_gating_sequence_def)

definition claimed :: "(i64 \<times> i64) list \<Rightarrow> i64 list" where
  "claimed log = concat (map (\<lambda>(lo, hi). [lo..hi]) log)"

lemma claimed_snoc:
  assumes "claimed log = [0..m]" and "- 1 \<le> m" and "1 \<le> n"
  shows "claimed (log @ [(m + n - n + 1, m + n)]) = [0..m + n]"
proof -
  have "[0..m] @ [m + 1..m + n] = [0..m + n]"
    using assms(2,3) upto_split2 [of 0 m "m + n"] by (cases "m = - 1") simp_all
  with assms(1) show ?thesis by (simp add: claimed_def)
qed

definition sp_good :: "sp_seq \<times> (i64 \<times> i64) list \<Rightarrow> bool" where
  "sp_good c \<longleftrightarrow> sp_inv (fst c) \<and> claimed (snd c) = [0..sp_next_value (fst c)]"

lemma sp_good_claim:
  "sp_good (s, log) \<Longrightarrow> sp_inv s' \<Longrightarrow> 1 \<le> n \<Longrightarrow> hi = sp_next_value s + n \<Longrightarrow> sp_next_value s' = hi \<Longrightarrow>
   lo = hi - n + 1 \<Longrightarrow> sp_good (s', log @ [(lo, hi)])"
  using claimed_snoc [of log "sp_next_value s" n] by (simp add: sp_good_def sp_inv_def)

lemma sp_good_same:
  "sp_good (s, log) \<Longrightarrow> sp_inv s' \<Longrightarrow> sp_next_value s' = sp_next_value s \<Longrightarrow> sp_good (s', log)"
  by (simp add: sp_good_def)

lemma sp_good_frame:
  assumes "sp_good (s, log)" and "sp_buffer_size s' = sp_buffer_size s"
    and "sp_buffer_size_i64 s' = sp_buffer_size_i64 s" and "sp_next_value s' = sp_next_value s"
    and "sp_cached_value s' = sp_cached_value s" and "sp_cursor s' = sp_cursor s"
    and "\<forall>g\<in>set (sp_gating s'). sp_cached_value s \<le> sp_mem s' g \<and> g \<noteq> sp_cursor s"
  shows "sp_good (s', log)"
  using assms sp_inv_frame [OF _ assms(2-7)] by (auto simp: sp_good_def)

lemma sp_step_good:
  assumes "sp_step c c'" and "sp_good c"
  shows "sp_good c'"
  using assms
proof (cases rule: sp_step.cases)
  case (claim tr s fuel n hi s' log)
  with assms(2) have "sp_inv (tr 0)" by (simp add: sp_good_def)
  from sp_next_n_spec [of tr, OF _ this] claim assms(2) show ?thesis by (force intro: sp_good_claim)
next
  case (claim_error tr s fuel n e s' log)
  with assms(2) have "sp_inv (tr 0)" by (simp add: sp_good_def)
  from sp_next_n_spec [of tr, OF _ this] claim_error assms(2) show ?thesis by (force intro: sp_good_same)
next
  case (try_claim tr s n hi s' log)
  from assms(2) try_claim(1,4) have inv: "sp_inv (tr 0)" by (simp add: sp_good_def)
  from try_claim(4,5) have room: "sp_room (tr 0)" by simp
  note res = sp_try_next_n_result [OF try_claim(3) inv room try_claim(6)]
  from assms(2) try_claim(1) have "sp_good (s, log)" by simp
  then have "sp_good (s', log @ [(hi - n + 1, hi)])"
    by (rule sp_good_claim) (use res(1) res(2) [OF refl] try_claim(4) in simp_all)
  with try_claim(2) show ?thesis by simp
next
  case (try_claim_none tr s n s' log)
  from assms(2) try_claim_none(1,4) have inv: "sp_inv (tr 0)" by (simp add: sp_good_def)
  from try_claim_none(4,5) have room: "sp_room (tr 0)" by simp
  note res = sp_try_next_n_result [OF try_claim_none(3) inv room try_claim_none(6)]
  from assms(2) try_claim_none(1) have "sp_good (s, log)" by simp
  then have "sp_good (s', log)"
    by (rule sp_good_same) (use res(1) res(3) [OF refl] try_claim_none(4) in simp_all)
  with try_claim_none(2) show ?thesis by simp
next
  case (publish s log lo hi)
  show ?thesis
    using assms(2) unfolding publish
    by (rule sp_good_frame) (use assms(2) publish in \<open>auto simp: sp_frame_defs sp_good_def sp_inv_def\<close>)
next
  case (consume g s v log)
  show ?thesis
    using assms(2) unfolding consume
    by (rule sp_good_frame) (use assms(2) consume in \<open>auto simp: sp_frame_defs sp_good_def sp_inv_def\<close>)
next
  case (register rcu rs s log)
  show ?thesis
    using assms(2) unfolding register
    by (rule sp_good_frame)
      (use assms(2) register in \<open>auto simp: sp_frame_defs sp_good_def sp_inv_def add_gating_set\<close>)
next
  case (unregister cas k g s b s' log)
  from sp_remove_gating_frame [OF unregister(3,4)]
  have s': "s' = s\<lparr>sp_gating := filter (\<lambda>x. x \<noteq> g) (sp_gating s)\<rparr>" by simp
  show ?thesis
    using assms(2) unfolding unregister s'
    by (rule sp_good_frame) (use assms(2) unregister in \<open>auto simp: sp_good_def sp_inv_def\<close>)
next
  case (lifecycle f fr s log)
  show ?thesis
    using assms(2) unfolding lifecycle
    by (rule sp_good_frame)
      (use assms(2) lifecycle in \<open>auto simp: sp_frame_defs sp_good_def sp_inv_def split: if_splits\<close>)
qed

lemma sp_reachable_good: "sp_step\<^sup>*\<^sup>* c c' \<Longrightarrow> sp_good c \<Longrightarrow> sp_good c'"
  by (induction rule: rtranclp_induct) (auto intro: sp_step_good)

lemma sp_capacity_rest:
  assumes "sp_inv s" and "sp_room s" and "\<not> sp_claim_lock s" and "\<not> sp_closed s" and "\<not> sp_poisoned s"
    and "1 \<le> n" and "n \<le> int (sp_buffer_size s)"
  shows "map_option fst (sp_try_next_n (\<lambda>_. s) n) =
           Some (if n \<le> sp_remaining_capacity (\<lambda>_. s) then Some (sp_next_value s + n) else None) \<and>
         sp_remaining_capacity (\<lambda>_. s) = int (sp_buffer_size s) - (sp_next_value s - consumed s) \<and>
         map_option fst (sp_has_available_capacity (\<lambda>_. s) (nat n)) =
           Some (n \<le> sp_remaining_capacity (\<lambda>_. s))"
proof -
  have cap: "sp_remaining_capacity (\<lambda>_. s) = int (sp_buffer_size s) - (sp_next_value s - consumed s)"
    using assms(3) sp_remaining_const [OF assms(1), of 1 True]
    by (simp add: sp_remaining_capacity_def try_acquire_claim_def)
  have n: "usize_try_from n = Some (nat n)" using assms(6) by (simp add: usize_try_from_def)
  have sz: "sp_buffer_size_i64 s = int (sp_buffer_size s)" using assms(1) by (simp add: sp_inv_def)
  have free: "try_acquire_claim s = Some (s\<lparr>sp_claim_lock := True\<rparr>)"
    "sp_claim_state_error (\<lambda>_. s) 0 = None"
    using assms(3-5) by (simp_all add: try_acquire_claim_def sp_claim_state_error_def)
  from sp_try_next_n_spec [of "\<lambda>_. s" n, OF sp_env_const assms(1,2)] obtain r s'
    where eq: "sp_try_next_n (\<lambda>_. s) n = Some (r, s')" by blast
  have r: "r = None \<or> r = Some (sp_next_value s + n)"
    using sp_try_next_n_result(2) [OF sp_env_const assms(1,2) eq] by (cases r) auto
  have "r = None \<longleftrightarrow> \<not> sp_next_value s + n - int (sp_buffer_size s) \<le> consumed s"
    using eq free sz assms(6,7) n sp_capacity_const [OF assms(1,2,6,7), of 3 True True]
    by (auto simp: sp_try_next_n_def sp_try_next_n_inner_def Let_def split: if_splits)
  moreover have "map_option fst (sp_has_available_capacity (\<lambda>_. s) (nat n)) =
      Some (sp_next_value s + n - int (sp_buffer_size s) \<le> consumed s)"
    using free(1) sp_capacity_const [OF assms(1,2,6,7), of 1 False True]
    by (auto simp: sp_has_available_capacity_def)
  ultimately show ?thesis using eq r cap by (cases r) (simp_all add: algebra_simps)
qed

lemma cap_rest:
  assumes "sp_claim_lock s"
  shows "cap_next_n fuel (\<lambda>_. s) n =
      map_option (\<lambda>(r, s'). (r, s'\<lparr>sp_claim_lock := True\<rparr>)) (sp_next_n fuel (\<lambda>_. release_claim s) n)"
    and "cap_try_next_n (\<lambda>_. s) n =
      map_option (\<lambda>(r, s'). (r, s'\<lparr>sp_claim_lock := True\<rparr>)) (sp_try_next_n (\<lambda>_. release_claim s) n)"
    and "cap_remaining_capacity (\<lambda>_. s) = sp_remaining_capacity (\<lambda>_. release_claim s)"
proof -
  have free: "acquire_claim (release_claim s) = Ok s" "try_acquire_claim (release_claim s) = Some s"
    using relock(1) [OF assms] by (simp_all add: acquire_claim_def try_acquire_claim_def)
  have same: "sp_buffer_size_i64 (release_claim s) = sp_buffer_size_i64 s" by (simp add: release_claim_def)
  have id: "sp_claim_lock_update (\<lambda>_. True) s = s" "sp_claim_lock_update (\<lambda>_. True) (release_claim s) = s"
    using assms relock(1) by simp_all
  show "cap_next_n fuel (\<lambda>_. s) n =
      map_option (\<lambda>(r, s'). (r, s'\<lparr>sp_claim_lock := True\<rparr>)) (sp_next_n fuel (\<lambda>_. release_claim s) n)"
    unfolding cap_next_n_def sp_next_n_def timeless_case free sum.case same
      rest_next_n_inner [of fuel s 3 n s 2] rest_claim_state_error [of s 0 0]
    using relock(2) [OF assms]
    by (auto simp: option.map_comp comp_def case_prod_unfold id split: option.split)
  show "cap_try_next_n (\<lambda>_. s) n =
      map_option (\<lambda>(r, s'). (r, s'\<lparr>sp_claim_lock := True\<rparr>)) (sp_try_next_n (\<lambda>_. release_claim s) n)"
    unfolding cap_try_next_n_def sp_try_next_n_def timeless_case free option.case same
      rest_try_next_n_inner [of s 3 n s 2] rest_claim_state_error [of s 0 0]
    using relock(2) [OF assms]
    by (auto simp: option.map_comp comp_def case_prod_unfold id split: option.split)
  show "cap_remaining_capacity (\<lambda>_. s) = sp_remaining_capacity (\<lambda>_. release_claim s)"
    using free(2) rest_gating_minimum [of s 1 "sp_next_value s" 0]
    by (simp add: cap_remaining_capacity_def sp_remaining_capacity_def sp_remaining_capacity_inner_def Let_def)
qed

section \<open>Properties\<close>

text \<open>
  C5: a successful blocking claim, made while consumers advance and others may close, poison or
  remove consumers, returns the end of the next contiguous range of the requested length, and the
  claimed position is never more than one ring ahead of any registered consumer: no slot that is
  still to be read is handed out. Every return, errors included, keeps the invariant of the
  sequencer, and an error claims nothing.
\<close>

theorem sp_next_n_never_overruns:
  assumes "sp_env tr" and "sp_inv (tr 0)" and "sp_room (tr 0)"
    and "sp_next_n fuel tr n = Some (r, s')"
  shows "sp_inv s' \<and>
    (case r of
       Inr hi \<Rightarrow> 1 \<le> n \<and> n \<le> int (sp_buffer_size (tr 0)) \<and> hi = sp_next_value (tr 0) + n \<and>
         sp_next_value s' = hi \<and>
         (\<forall>g\<in>set (sp_gating s'). hi - int (sp_buffer_size s') \<le> sp_mem s' g)
     | Inl e \<Rightarrow> sp_next_value s' = sp_next_value (tr 0))"
  using sp_next_n_spec [OF assms] sp_inv_no_overrun [of s'] by (auto split: sum.splits)

text \<open>
  A ring of 4 whose producer has claimed up to 3, with one consumer (reference 7) that moves from
  -1 to 1 while the claim waits.
\<close>

definition sp_example :: "i64 \<Rightarrow> sp_seq" where
  "sp_example c =
     \<lparr>sp_buffer_size = 4, sp_buffer_size_i64 = 4, sp_wait_strategy = BusySpinStrategy,
      sp_needs_signal = False, sp_cursor = 0, sp_gating = [7], sp_next_value = 3,
      sp_cached_value = - 1, sp_claim_lock = False, sp_poisoned = False, sp_closed = False,
      sp_first_failure = None, sp_mem = (\<lambda>r. if r = 7 then c else 3), sp_signals = 0\<rparr>"

definition sp_example_traj :: "sp_seq traj" where
  "sp_example_traj t = sp_example (if t < 10 then - 1 else 1)"

lemma sp_example_ok:
  "sp_env sp_example_traj" "sp_inv (sp_example_traj 0)" "sp_room (sp_example_traj 0)"
  by (auto simp: sp_env_def sp_example_traj_def sp_example_def mono_traj_def sp_inv_def sp_room_def)

theorem sp_next_n_never_overruns_witness:
  "\<exists>s'. sp_next_n 9 sp_example_traj 2 = Some (Ok 5, s') \<and> sp_inv s' \<and> sp_next_value s' = 5"
proof -
  have "map_option fst (sp_next_n 9 sp_example_traj 2) = Some (Ok 5)" by code_simp
  then obtain s' where "sp_next_n 9 sp_example_traj 2 = Some (Ok 5, s')" by auto
  with sp_next_n_never_overruns [OF sp_example_ok this] show ?thesis by simp
qed

text \<open>
  C35: over the whole life of a single-producer sequencer, with claims, publications, consumers that
  advance, register and leave, and with close, reopen and poison in any order, the ranges handed out
  are consecutive and cover every sequence from 0 to the claimed position exactly once, and the
  claimed position never passes a consumer by more than the ring.
\<close>

theorem sp_claims_partition:
  assumes "0 < buffer_size" and "sp_new buffer_size ws r h = Some s" and "sp_step\<^sup>*\<^sup>* (s, []) (s', log)"
  shows "claimed log = [0..sp_next_value s'] \<and> sp_inv s' \<and>
         (\<forall>g\<in>set (sp_gating s'). sp_next_value s' - int (sp_buffer_size s') \<le> sp_mem s' g)"
proof -
  have "sp_good (s, [])"
    using sp_new_inv [OF assms(1,2)] assms(2)
    by (auto simp: sp_good_def claimed_def sp_new_def split: option.splits)
  from sp_reachable_good [OF assms(3) this] show ?thesis
    using sp_inv_no_overrun [of s'] by (auto simp: sp_good_def)
qed

definition sp_fresh :: sp_seq where
  "sp_fresh = the (sp_new 4 BlockingStrategy 0 (\<lambda>_. - 1))"

lemma sp_fresh_new: "sp_new 4 BlockingStrategy 0 (\<lambda>_. - 1) = Some sp_fresh"
  by (simp add: sp_fresh_def sp_new_def i64_try_from_def)

theorem sp_claims_partition_witness:
  "\<exists>s' log. sp_step\<^sup>*\<^sup>* (sp_fresh, []) (s', log) \<and> log = [(0, 2)] \<and> claimed log = [0..sp_next_value s']"
proof -
  have "map_option fst (sp_try_next_n (\<lambda>_. sp_fresh) 3) = Some (Some 2)" by code_simp
  then obtain s' where s': "sp_try_next_n (\<lambda>_. sp_fresh) 3 = Some (Some 2, s')" by auto
  have "sp_step (sp_fresh, []) (s', [] @ [(2 - 3 + 1, 2)])"
    by (rule sp_step.try_claim [OF _ _ _ s'])
      (simp_all add: sp_room_def sp_fresh_def sp_new_def i64_try_from_def)
  then have step: "sp_step\<^sup>*\<^sup>* (sp_fresh, []) (s', [(0, 2)])" by auto
  with sp_claims_partition [OF _ sp_fresh_new step] show ?thesis by auto
qed

text \<open>
  The cached gating value is only an optimisation. With the memory at rest a try-claim succeeds
  exactly when the request is within the remaining capacity, which is the ring size less the distance
  from the slowest consumer to the claimed position, and \<open>has_available_capacity\<close> gives the same
  answer.
\<close>

theorem sp_try_next_n_iff_capacity:
  assumes "sp_inv s" and "sp_room s" and "\<not> sp_claim_lock s" and "\<not> sp_closed s" and "\<not> sp_poisoned s"
    and "1 \<le> n" and "n \<le> int (sp_buffer_size s)"
  shows "map_option fst (sp_try_next_n (\<lambda>_. s) n) =
           Some (if n \<le> sp_remaining_capacity (\<lambda>_. s) then Some (sp_next_value s + n) else None) \<and>
         sp_remaining_capacity (\<lambda>_. s) = int (sp_buffer_size s) - (sp_next_value s - consumed s) \<and>
         map_option fst (sp_has_available_capacity (\<lambda>_. s) (nat n)) =
           Some (n \<le> sp_remaining_capacity (\<lambda>_. s))"
  using assms by (rule sp_capacity_rest)

theorem sp_try_next_n_iff_capacity_witness:
  "map_option fst (sp_try_next_n (\<lambda>_. sp_example 0) 1) = Some (Some 4) \<and>
   map_option fst (sp_try_next_n (\<lambda>_. sp_example 0) 2) = Some None"
proof -
  have s: "sp_inv (sp_example 0)" "sp_room (sp_example 0)" "\<not> sp_claim_lock (sp_example 0)"
    "\<not> sp_closed (sp_example 0)" "\<not> sp_poisoned (sp_example 0)"
    "int (sp_buffer_size (sp_example 0)) = 4" "sp_next_value (sp_example 0) = 3"
    by (simp_all add: sp_inv_def sp_room_def sp_example_def)
  have "sp_remaining_capacity (\<lambda>_. sp_example 0) = 1" by code_simp
  with sp_try_next_n_iff_capacity [OF s(1-5), of 1] sp_try_next_n_iff_capacity [OF s(1-5), of 2] s(6,7)
  show ?thesis by simp
qed

text \<open>
  A blocking claim returns. If the consumers eventually make room and stay there, or the
  sequencer is eventually closed or poisoned for good, then \<open>next_n\<close> comes back after at most as many
  rounds as it takes until then: no claim spins on a dead pipeline.
\<close>

theorem sp_next_n_returns:
  assumes "sp_env tr" and "sp_inv (tr 0)" and "sp_room (tr 0)"
    and "(\<forall>t\<ge>T. \<forall>g\<in>set (sp_gating (tr 0)).
            sp_next_value (tr 0) + n - int (sp_buffer_size (tr 0)) \<le> sp_mem (tr t) g) \<or>
         (\<forall>t\<ge>T. sp_closed (tr t)) \<or> (\<forall>t\<ge>T. sp_poisoned (tr t))"
  shows "\<exists>r s'. sp_next_n (Suc T) tr n = Some (r, s')"
proof (cases "1 \<le> n \<and> n \<le> int (sp_buffer_size (tr 0)) \<and> sp_claim_state_error tr 0 = None \<and>
      \<not> sp_claim_lock (tr 2)")
  case False
  moreover have "sp_buffer_size_i64 (tr 0) = int (sp_buffer_size (tr 0))"
    using assms(2) by (simp add: sp_inv_def)
  ultimately show ?thesis by (auto simp: sp_next_n_def acquire_claim_def split: option.split)
next
  case True
  then have n: "1 \<le> n" "n \<le> int (sp_buffer_size (tr 0))" by simp_all
  let ?s = "(tr 2)\<lparr>sp_claim_lock := True\<rparr>"
  let ?w = "sp_next_value (tr 0) + n - int (sp_buffer_size (tr 0))"
  have sz: "sp_buffer_size_i64 (tr 0) = int (sp_buffer_size (tr 0))"
    using assms(2) by (simp add: sp_inv_def)
  obtain q where "poll (Suc T) (sp_spin_body tr ?w (sp_next_value (tr 0))) 4 = Some q"
    using sp_spin_returns [OF assms(1,4), of "sp_next_value (tr 0)" 4] n(2) by auto
  then have "\<exists>r t s'. sp_next_n_inner (Suc T) tr 3 n ?s = Some (r, t, s')"
    using sp_wrap_arith [OF assms(2,3) n] sp_envD [OF assms(1), of 2]
    by (cases q; cases "fst q") (auto simp: sp_next_n_inner_def Let_def simp del: poll.simps)
  then show ?thesis using True sz
    by (auto simp: sp_next_n_def acquire_claim_def)
qed

theorem sp_next_n_returns_witness:
  "\<exists>r s'. sp_next_n 11 sp_example_traj 2 = Some (r, s')"
proof -
  have "\<forall>t\<ge>10. \<forall>g\<in>set (sp_gating (sp_example_traj 0)).
      sp_next_value (sp_example_traj 0) + 2 - int (sp_buffer_size (sp_example_traj 0))
      \<le> sp_mem (sp_example_traj t) g"
    by (simp add: sp_example_traj_def sp_example_def)
  then show ?thesis
    using sp_next_n_returns [OF sp_example_ok, of 10 2] by (simp del: poll.simps)
qed

text \<open>
  While the unique capability (or another claim) holds the claim lock, every checked claim method
  fails closed and changes nothing; and the lock-free path of the capability claims exactly what the
  checked path would claim if the lock were free.
\<close>

theorem capability_exclusive:
  assumes "sp_claim_lock s"
  shows "(\<exists>e. sp_next_n fuel (\<lambda>_. s) n = Some (Err e, s)) \<and>
    sp_try_next_n (\<lambda>_. s) n = Some (None, s) \<and> sp_remaining_capacity (\<lambda>_. s) = 0 \<and>
    sp_has_available_capacity (\<lambda>_. s) m = Some (False, s) \<and>
    cap_next_n fuel (\<lambda>_. s) n =
      map_option (\<lambda>(r, s'). (r, s'\<lparr>sp_claim_lock := True\<rparr>)) (sp_next_n fuel (\<lambda>_. release_claim s) n) \<and>
    cap_try_next_n (\<lambda>_. s) n =
      map_option (\<lambda>(r, s'). (r, s'\<lparr>sp_claim_lock := True\<rparr>)) (sp_try_next_n (\<lambda>_. release_claim s) n) \<and>
    cap_remaining_capacity (\<lambda>_. s) = sp_remaining_capacity (\<lambda>_. release_claim s)"
proof -
  have "\<exists>e. sp_next_n fuel (\<lambda>_. s) n = Some (Err e, s)"
    using assms by (auto simp: sp_next_n_def acquire_claim_def split: option.split)
  moreover have "sp_try_next_n (\<lambda>_. s) n = Some (None, s)" "sp_remaining_capacity (\<lambda>_. s) = 0"
    "sp_has_available_capacity (\<lambda>_. s) m = Some (False, s)"
    using assms by (auto simp: sp_try_next_n_def try_acquire_claim_def sp_remaining_capacity_def
        sp_has_available_capacity_def split: option.split)
  ultimately show ?thesis using cap_rest [OF assms] by blast
qed

definition sp_reserved :: sp_seq where
  "sp_reserved = the (sp_new_unique 4 YieldingStrategy 0 (\<lambda>_. - 1))"

theorem capability_exclusive_witness:
  "sp_claim_lock sp_reserved \<and> sp_try_next_n (\<lambda>_. sp_reserved) 2 = Some (None, sp_reserved) \<and>
   map_option fst (cap_try_next_n (\<lambda>_. sp_reserved) 2) = Some (Some 1) \<and>
   map_option fst (sp_try_next_n (\<lambda>_. release_claim sp_reserved) 2) = Some (Some 1)"
proof -
  have l: "sp_claim_lock sp_reserved"
    by (simp add: sp_reserved_def sp_new_unique_def sp_new_def i64_try_from_def)
  have c: "map_option fst (sp_try_next_n (\<lambda>_. release_claim sp_reserved) 2) = Some (Some 1)" by code_simp
  then have "map_option fst (cap_try_next_n (\<lambda>_. sp_reserved) 2) = Some (Some 1)"
    using capability_exclusive [OF l, where n = 2] by auto
  with l c capability_exclusive [OF l, where n = 2] show ?thesis by blast
qed

text \<open>
  C40: a try-claim that is refused for lack of capacity is not without effect. Its capacity check stores
  the claimed position into the cursor, so afterwards \<open>is_available\<close> holds for every claimed sequence,
  published or not; nothing else of the sequencer that consumers or producers read changes, apart from
  the cached gating value.
\<close>

theorem refused_claim_moves_cursor:
  assumes "sp_inv s" and "1 \<le> n" and "n \<le> int (sp_buffer_size s)"
    and "\<not> sp_claim_lock s" and "\<not> sp_closed s" and "\<not> sp_poisoned s"
    and "sp_try_next_n (\<lambda>_. s) n = Some (None, s')"
  shows "(sp_is_available i s' \<longleftrightarrow> i \<le> sp_next_value s) \<and> sp_next_value s' = sp_next_value s \<and>
    (\<forall>r. r \<noteq> sp_cursor s \<longrightarrow> sp_mem s' r = sp_mem s r) \<and> sp_gating s' = sp_gating s \<and>
    \<not> sp_claim_lock s'"
  using assms
  by (auto simp: sp_try_next_n_def sp_claim_state_error_def try_acquire_claim_def sp_try_next_n_inner_def
      sp_has_available_capacity_internal_def sp_gating_minimum_def release_claim_def rejoin_def
      set_cursor_def seq_set_volatile_def sp_is_available_def seq_get_def usize_try_from_def
      i64_try_from_def sp_inv_def Let_def split: if_splits option.splits bool.splits)

text \<open>A ring of 4 that is full of claims of which none is published; one more claim is tried.\<close>

definition sp_unpublished :: sp_seq where
  "sp_unpublished = snd (the (sp_try_next_n (\<lambda>_. sp_add_gating_sequences (\<lambda>f v. f v) [7] sp_fresh) 4))"

theorem refused_claim_moves_cursor_witness:
  "\<not> sp_is_available 3 sp_unpublished \<and>
   (\<exists>s'. sp_try_next_n (\<lambda>_. sp_unpublished) 1 = Some (None, s') \<and> sp_is_available 3 s')"
proof -
  let ?run = "sp_try_next_n (\<lambda>_. sp_unpublished) 1"
  have "map_option fst ?run = Some None" by code_simp
  then obtain s' where run: "?run = Some (None, s')" by auto
  have "sp_buffer_size sp_unpublished = 4" "\<not> sp_claim_lock sp_unpublished" "\<not> sp_closed sp_unpublished"
    "\<not> sp_poisoned sp_unpublished" "sp_next_value sp_unpublished = 3" "sp_gating sp_unpublished = [7]"
    "sp_cursor sp_unpublished = 0" "sp_mem sp_unpublished 0 = -1" "sp_mem sp_unpublished 7 = -1"
    "sp_cached_value sp_unpublished = -1" "sp_buffer_size_i64 sp_unpublished = 4"
    "\<not> sp_is_available 3 sp_unpublished"
    by code_simp+
  moreover from this have "sp_inv sp_unpublished" by (simp add: sp_inv_def)
  ultimately show ?thesis
    using refused_claim_moves_cursor [OF _ _ _ _ _ _ run, of 3] run by simp
qed

end
