(* ===== verification/Ring_Buffer.thy ===== *)
theory Ring_Buffer
  imports Sequences
begin

text \<open>
  The pre-allocated ring (\<open>src/disruptor/ring_buffer.rs\<close>): slot storage in its three layouts, the
  index computation with a bit mask, unchecked slot access and the batch iterator. The source reads
  and writes slots with \<open>get_unchecked\<close>; an index outside the storage is \<open>None\<close> here, and the
  theorems show that it never happens. The interface the other components rely on is the locale
  \<open>slot_ring\<close>, interpreted on these operations.
\<close>

section \<open>Slot storage\<close>

datatype slot_padding = NoPadding | PadCacheLine64 | PadCacheLine128

datatype 'e slot_storage = Inline "'e list" | CacheLine64 "'e list" | CacheLine128 "'e list"

fun storage_slots :: "'e slot_storage \<Rightarrow> 'e list" where
  "storage_slots (Inline slots) = slots"
| "storage_slots (CacheLine64 slots) = slots"
| "storage_slots (CacheLine128 slots) = slots"

fun storage_len :: "'e slot_storage \<Rightarrow> usize" where
  "storage_len (Inline slots) = length slots"
| "storage_len (CacheLine64 slots) = length slots"
| "storage_len (CacheLine128 slots) = length slots"

fun storage_padding :: "'e slot_storage \<Rightarrow> slot_padding" where
  "storage_padding (Inline _) = NoPadding"
| "storage_padding (CacheLine64 _) = PadCacheLine64"
| "storage_padding (CacheLine128 _) = PadCacheLine128"

text \<open>
  Size of a \<open>repr(C, align(a))\<close> struct around one value of the event type, which has size
  \<open>size_of\<close> and alignment \<open>align_of\<close>: rounded up to a multiple of the larger alignment.
\<close>

definition padded_size :: "nat \<Rightarrow> nat \<Rightarrow> nat \<Rightarrow> nat" where
  "padded_size a size_of align_of =
     (let al = max a align_of in (size_of + (al - 1)) div al * al)"

fun slot_stride_bytes :: "nat \<Rightarrow> nat \<Rightarrow> 'e slot_storage \<Rightarrow> nat" where
  "slot_stride_bytes size_of align_of (Inline _) = size_of"
| "slot_stride_bytes size_of align_of (CacheLine64 _) = padded_size 64 size_of align_of"
| "slot_stride_bytes size_of align_of (CacheLine128 _) = padded_size 128 size_of align_of"

definition nth_slot :: "'e list \<Rightarrow> usize \<Rightarrow> 'e option" where
  "nth_slot slots i = (if i < length slots then Some (slots ! i) else None)"

fun get_ref_unchecked :: "'e slot_storage \<Rightarrow> usize \<Rightarrow> 'e option" where
  "get_ref_unchecked (Inline slots) i = nth_slot slots i"
| "get_ref_unchecked (CacheLine64 slots) i = nth_slot slots i"
| "get_ref_unchecked (CacheLine128 slots) i = nth_slot slots i"

text \<open>A mutable slot pointer is used to apply an update to the event behind it.\<close>

definition update_slot :: "'e list \<Rightarrow> usize \<Rightarrow> ('e \<Rightarrow> 'e) \<Rightarrow> 'e list option" where
  "update_slot slots i f = (if i < length slots then Some (slots[i := f (slots ! i)]) else None)"

fun get_mut_ptr_unchecked :: "'e slot_storage \<Rightarrow> usize \<Rightarrow> ('e \<Rightarrow> 'e) \<Rightarrow> 'e slot_storage option" where
  "get_mut_ptr_unchecked (Inline slots) i f = map_option Inline (update_slot slots i f)"
| "get_mut_ptr_unchecked (CacheLine64 slots) i f = map_option CacheLine64 (update_slot slots i f)"
| "get_mut_ptr_unchecked (CacheLine128 slots) i f = map_option CacheLine128 (update_slot slots i f)"

section \<open>The ring buffer\<close>

record 'e ring_buffer =
  storage :: "'e slot_storage"
  index_mask :: i64

definition slot_index :: "'e ring_buffer \<Rightarrow> i64 \<Rightarrow> usize" where
  "slot_index rb sequence = nat (sequence AND index_mask rb)"

text \<open>The factory is called once per slot; its \<open>i\<close>-th result is \<open>factory i\<close>.\<close>

definition new_with_padding ::
    "usize \<Rightarrow> (nat \<Rightarrow> 'e) \<Rightarrow> slot_padding \<Rightarrow> 'e ring_buffer result" where
  "new_with_padding buffer_size factory padding =
     (if \<not> is_power_of_two buffer_size then Err (InvalidBufferSize buffer_size)
      else case i64_try_from buffer_size of
        None \<Rightarrow> Err (InvalidBufferSize buffer_size)
      | Some buffer_size_i64 \<Rightarrow>
          (let slots = map factory [0..<buffer_size] in
           Ok \<lparr>storage = (case padding of NoPadding \<Rightarrow> Inline slots
                          | PadCacheLine64 \<Rightarrow> CacheLine64 slots
                          | PadCacheLine128 \<Rightarrow> CacheLine128 slots),
               index_mask = sub_i64 buffer_size_i64 1\<rparr>))"

definition ring_new :: "usize \<Rightarrow> (nat \<Rightarrow> 'e) \<Rightarrow> 'e ring_buffer result" where
  "ring_new buffer_size factory = new_with_padding buffer_size factory NoPadding"

definition ring_get :: "'e ring_buffer \<Rightarrow> i64 \<Rightarrow> 'e option" where
  "ring_get rb sequence = get_ref_unchecked (storage rb) (slot_index rb sequence)"

definition ring_update :: "'e ring_buffer \<Rightarrow> i64 \<Rightarrow> ('e \<Rightarrow> 'e) \<Rightarrow> 'e ring_buffer option" where
  "ring_update rb sequence f =
     map_option (\<lambda>st. rb\<lparr>storage := st\<rparr>)
       (get_mut_ptr_unchecked (storage rb) (slot_index rb sequence) f)"

definition ring_buffer_size :: "'e ring_buffer \<Rightarrow> usize" where
  "ring_buffer_size rb = storage_len (storage rb)"

text \<open>\<open>size()\<close> panics when the length does not fit; a ring built by \<open>new\<close> always fits.\<close>

definition ring_size :: "'e ring_buffer \<Rightarrow> i64 option" where
  "ring_size rb = i64_try_from (storage_len (storage rb))"

definition ring_has_available_capacity :: "i64 \<Rightarrow> i64 \<Rightarrow> bool" where
  "ring_has_available_capacity required available \<longleftrightarrow> available \<ge> required"

definition ring_remaining_capacity :: "'e ring_buffer \<Rightarrow> i64 \<Rightarrow> i64 \<Rightarrow> i64 option" where
  "ring_remaining_capacity rb current_sequence next_sequence =
     map_option (\<lambda>n. sub_i64 n (sub_i64 next_sequence current_sequence)) (ring_size rb)"

definition ring_free_slots :: "'e ring_buffer \<Rightarrow> i64 \<Rightarrow> i64 \<Rightarrow> i64 option" where
  "ring_free_slots rb producer_sequence consumer_sequence =
     map_option (\<lambda>n. sub_i64 n (sub_i64 producer_sequence consumer_sequence)) (ring_size rb)"

section \<open>Batch iterator\<close>

record batch_iter =
  it_current :: i64
  it_last :: i64

definition batch_iter_mut :: "i64 \<Rightarrow> i64 \<Rightarrow> batch_iter" where
  "batch_iter_mut start end = \<lparr>it_current = start, it_last = end\<rparr>"

definition batch_remaining :: "batch_iter \<Rightarrow> usize" where
  "batch_remaining it =
     (if it_current it > it_last it then 0
      else nat (add_i64 (sub_i64 (it_last it) (it_current it)) 1))"

text \<open>\<open>next\<close> hands out the slot of the current sequence and steps forward.\<close>

definition batch_next :: "batch_iter \<Rightarrow> i64 option \<times> batch_iter" where
  "batch_next it =
     (if it_current it > it_last it then (None, it)
      else (Some (it_current it), it\<lparr>it_current := add_i64 (it_current it) 1\<rparr>))"

text \<open>
  An update closure that drains the iterator: the event of sequence \<open>s\<close> is replaced by \<open>f s\<close> of it.
  The fuel is the number of \<open>next\<close> calls; \<open>batch_remaining\<close> calls are enough.
\<close>

fun batch_drain ::
    "nat \<Rightarrow> (i64 \<Rightarrow> 'e \<Rightarrow> 'e) \<Rightarrow> batch_iter \<Rightarrow> 'e ring_buffer \<Rightarrow> 'e ring_buffer option" where
  "batch_drain 0 f it rb = Some rb"
| "batch_drain (Suc n) f it rb =
     (case batch_next it of
        (None, _) \<Rightarrow> Some rb
      | (Some s, it') \<Rightarrow> Option.bind (ring_update rb s (f s)) (batch_drain n f it'))"

text \<open>Writing a list of sequences one after the other, for any update operation.\<close>

fun write_seqs ::
    "('r \<Rightarrow> i64 \<Rightarrow> ('e \<Rightarrow> 'e) \<Rightarrow> 'r option) \<Rightarrow> (i64 \<Rightarrow> 'e \<Rightarrow> 'e) \<Rightarrow> i64 list \<Rightarrow> 'r \<Rightarrow> 'r option" where
  "write_seqs upd f [] rb = Some rb"
| "write_seqs upd f (s # ss) rb = Option.bind (upd rb s (f s)) (write_seqs upd f ss)"

section \<open>The interface of a ring\<close>

text \<open>
  What clients rely on: every access of a well-formed ring is inside the storage, an update changes
  exactly the slots congruent to its sequence, and the shape is kept.
\<close>

locale slot_ring =
  fixes size_of :: "'r \<Rightarrow> int"
    and get :: "'r \<Rightarrow> i64 \<Rightarrow> 'e option"
    and upd :: "'r \<Rightarrow> i64 \<Rightarrow> ('e \<Rightarrow> 'e) \<Rightarrow> 'r option"
    and invar :: "'r \<Rightarrow> bool"
  assumes size_pos: "invar r \<Longrightarrow> 0 < size_of r"
    and get_total: "invar r \<Longrightarrow> \<exists>e. get r s = Some e"
    and upd_total: "invar r \<Longrightarrow> \<exists>r'. upd r s f = Some r'"
    and upd_invar: "invar r \<Longrightarrow> upd r s f = Some r' \<Longrightarrow> invar r' \<and> size_of r' = size_of r"
    and get_upd: "invar r \<Longrightarrow> upd r s f = Some r' \<Longrightarrow>
      get r' s' = (if s mod size_of r = s' mod size_of r then map_option f (get r s') else get r s')"
begin

lemma write_total:
  "invar r \<Longrightarrow> \<exists>r'. write_seqs upd f ss r = Some r' \<and> invar r' \<and> size_of r' = size_of r"
proof (induction ss arbitrary: r)
  case Nil
  then show ?case by simp
next
  case (Cons s ss)
  from upd_total [OF Cons.prems] obtain r1 where r1: "upd r s (f s) = Some r1" by blast
  with Cons.prems have "invar r1 \<and> size_of r1 = size_of r" by (rule upd_invar)
  with Cons.IH r1 show ?case by (metis bind.bind_lunit write_seqs.simps(2))
qed

lemma write_frame:
  assumes "invar r" and "write_seqs upd f ss r = Some r'"
    and "\<And>s. s \<in> set ss \<Longrightarrow> s mod size_of r \<noteq> s' mod size_of r"
  shows "get r' s' = get r s'"
  using assms
proof (induction ss arbitrary: r)
  case Nil
  then show ?case by simp
next
  case (Cons s ss)
  from upd_total [OF Cons.prems(1)] obtain r1 where r1: "upd r s (f s) = Some r1" by blast
  with Cons.prems(1) have inv: "invar r1" "size_of r1 = size_of r" by (blast dest: upd_invar)+
  from Cons.prems(2) r1 have "write_seqs upd f ss r1 = Some r'" by simp
  with Cons.IH inv Cons.prems(3) have "get r' s' = get r1 s'" by simp
  also have "\<dots> = get r s'" using get_upd [OF Cons.prems(1) r1] Cons.prems(3) by simp
  finally show ?case .
qed

text \<open>Sequences that occupy different slots are each updated exactly once.\<close>

lemma write_get:
  assumes "invar r" and "write_seqs upd f ss r = Some r'" and "s \<in> set ss"
    and "distinct (map (\<lambda>s. s mod size_of r) ss)"
  shows "get r' s = map_option (f s) (get r s)"
  using assms
proof (induction ss arbitrary: r)
  case Nil
  then show ?case by simp
next
  case (Cons a ss)
  from upd_total [OF Cons.prems(1)] obtain r1 where r1: "upd r a (f a) = Some r1" by blast
  with Cons.prems(1) have inv: "invar r1" "size_of r1 = size_of r" by (blast dest: upd_invar)+
  from Cons.prems(2) r1 have w: "write_seqs upd f ss r1 = Some r'" by simp
  show ?case
  proof (cases "s = a")
    case True
    have "get r' s = get r1 s"
      by (rule write_frame [OF inv(1) w]) (use True inv(2) Cons.prems(4) in \<open>auto simp: image_iff\<close>)
    with True get_upd [OF Cons.prems(1) r1] show ?thesis by simp
  next
    case False
    with Cons.prems(3) have s: "s \<in> set ss" by simp
    with Cons.IH [OF inv(1) w] inv Cons.prems(4) have "get r' s = map_option (f s) (get r1 s)"
      by simp
    moreover from s Cons.prems(4) have "a mod size_of r \<noteq> s mod size_of r" by force
    ultimately show ?thesis using get_upd [OF Cons.prems(1) r1] by simp
  qed
qed

lemma window_distinct:
  assumes "0 < n" and "hi - lo < n"
  shows "distinct (map (\<lambda>s. s mod n) [lo..hi])"
  unfolding distinct_map
proof (intro conjI inj_onI)
  fix x y assume "x \<in> set [lo..hi]" "y \<in> set [lo..hi]" "x mod n = y mod n"
  moreover from this assms have "\<bar>x - y\<bar> < n" by auto
  ultimately show "x = y" by (blast intro: mod_window_inj)
qed simp

lemma write_window:
  assumes "invar r" and "hi - lo < size_of r" and "write_seqs upd f [lo..hi] r = Some r'"
    and "hi - size_of r < s" and "s < lo + size_of r"
  shows "get r' s = (if lo \<le> s \<and> s \<le> hi then map_option (f s) (get r s) else get r s)"
proof (cases "lo \<le> s \<and> s \<le> hi")
  case True
  with write_get [OF assms(1,3), of s] window_distinct [OF size_pos [OF assms(1)] assms(2)]
  show ?thesis by simp
next
  case False
  have "get r' s = get r s"
  proof (rule write_frame [OF assms(1,3)])
    fix x assume x: "x \<in> set [lo..hi]"
    show "x mod size_of r \<noteq> s mod size_of r"
    proof
      assume "x mod size_of r = s mod size_of r"
      moreover have "\<bar>x - s\<bar> < size_of r" using x assms(2,4,5) by auto
      ultimately have "x = s" by (rule mod_window_inj)
      with x False show False by simp
    qed
  qed
  with False show ?thesis by auto
qed

end

section \<open>Facts\<close>

text \<open>The well-formed rings: what the constructor builds and every update keeps.\<close>

definition ring_invar :: "'e ring_buffer \<Rightarrow> bool" where
  "ring_invar rb \<longleftrightarrow>
     is_power_of_two (ring_buffer_size rb) \<and> int (ring_buffer_size rb) \<le> i64_max \<and>
     index_mask rb = int (ring_buffer_size rb) - 1"

lemma storage_len_slots: "storage_len st = length (storage_slots st)"
  by (cases st) simp_all

lemma get_ref_unchecked_slots: "get_ref_unchecked st i = nth_slot (storage_slots st) i"
  by (cases st) simp_all

lemma get_mut_ptr_unchecked_slots:
  "get_mut_ptr_unchecked st i f = Some st' \<Longrightarrow>
     i < length (storage_slots st) \<and> storage_padding st' = storage_padding st \<and>
     storage_slots st' = (storage_slots st)[i := f (storage_slots st ! i)]"
  by (cases st) (auto simp: update_slot_def split: if_splits)

lemma get_mut_ptr_unchecked_total:
  "i < length (storage_slots st) \<Longrightarrow> \<exists>st'. get_mut_ptr_unchecked st i f = Some st'"
  by (cases st) (simp_all add: update_slot_def)

lemma ring_invarD:
  assumes "ring_invar rb"
  shows "0 < ring_buffer_size rb"
    and "slot_index rb s = nat (s mod int (ring_buffer_size rb))"
proof -
  from assms obtain k where k: "ring_buffer_size rb = 2 ^ k"
    by (auto simp: ring_invar_def is_power_of_two_iff)
  then show "0 < ring_buffer_size rb" by simp
  from assms k have "index_mask rb = 2 ^ k - 1" by (simp add: ring_invar_def)
  with k show "slot_index rb s = nat (s mod int (ring_buffer_size rb))"
    by (simp add: slot_index_def and_mask_int)
qed

lemma slot_index_less: "ring_invar rb \<Longrightarrow> slot_index rb s < length (storage_slots (storage rb))"
  using ring_invarD [of rb]
  by (simp add: ring_buffer_size_def storage_len_slots nat_less_iff)

lemma slot_index_eq_iff:
  "ring_invar rb \<Longrightarrow> slot_index rb s = slot_index rb s' \<longleftrightarrow>
     s mod int (ring_buffer_size rb) = s' mod int (ring_buffer_size rb)"
  using ring_invarD [of rb] by (simp add: eq_nat_nat_iff)

lemma ring_update_keeps:
  assumes "ring_invar rb" and "ring_update rb s f = Some rb'"
  shows "ring_invar rb' \<and> ring_buffer_size rb' = ring_buffer_size rb \<and> index_mask rb' = index_mask rb"
  using assms
  by (auto simp: ring_update_def ring_invar_def ring_buffer_size_def storage_len_slots
      dest!: get_mut_ptr_unchecked_slots)

interpretation rb: slot_ring "\<lambda>rb. int (ring_buffer_size rb)" ring_get ring_update ring_invar
proof (unfold_locales, goal_cases)
  case (1 r)
  then show ?case using ring_invarD(1) by fastforce
next
  case (2 r s)
  then show ?case
    using slot_index_less by (simp add: ring_get_def get_ref_unchecked_slots nth_slot_def)
next
  case (3 r s f)
  then show ?case
    using get_mut_ptr_unchecked_total [OF slot_index_less] by (fastforce simp: ring_update_def)
next
  case (4 r s f r')
  then show ?case using ring_update_keeps by fastforce
next
  case (5 r s f r' s')
  then have idx: "slot_index r' s' = slot_index r s'"
    using ring_update_keeps [of r s f r'] by (simp add: slot_index_def)
  from 5 obtain st where st: "get_mut_ptr_unchecked (storage r) (slot_index r s) f = Some st"
    and r': "r' = r\<lparr>storage := st\<rparr>" by (auto simp: ring_update_def)
  from get_mut_ptr_unchecked_slots [OF st] r' 5(1) idx slot_index_less [OF 5(1), of s']
  show ?case
    by (auto simp: ring_get_def get_ref_unchecked_slots nth_slot_def slot_index_eq_iff [symmetric]
        nth_list_update)
qed

text \<open>The batch iterator visits exactly the sequences of its range, in order.\<close>

lemma batch_drain_write_seqs:
  assumes "in_i64 (lo)" and "in_i64 (hi + 1)" and "n \<ge> nat (hi - lo + 1)"
  shows "batch_drain n f (batch_iter_mut lo hi) rb = write_seqs ring_update f [lo..hi] rb"
  using assms
proof (induction n arbitrary: lo rb)
  case 0
  then show ?case by simp
next
  case (Suc n)
  show ?case
  proof (cases "lo > hi")
    case True
    then show ?thesis by (simp add: batch_next_def batch_iter_mut_def)
  next
    case False
    with Suc.prems have lo1: "add_i64 lo 1 = lo + 1" "in_i64 (lo + 1)"
      by (simp_all add: add_i64_id in_i64_def)
    have ih: "batch_drain n f (batch_iter_mut (lo + 1) hi) rb' =
        write_seqs ring_update f [lo + 1..hi] rb'" for rb'
      by (rule Suc.IH) (use Suc.prems lo1 False in simp_all)
    with False lo1 show ?thesis
      by (simp add: batch_next_def batch_iter_mut_def upto_rec1 [of lo hi])
        (cases "ring_update rb lo (f lo)"; simp)
  qed
qed

lemma batch_remaining_eq:
  "in_i64 (hi - lo + 1) \<Longrightarrow> in_i64 (hi - lo) \<Longrightarrow>
     batch_remaining (batch_iter_mut lo hi) = nat (hi - lo + 1)"
  by (simp add: batch_remaining_def batch_iter_mut_def add_i64_id sub_i64_id)

lemma new_with_padding_invar:
  assumes "new_with_padding n factory p = Ok rb"
  shows "ring_invar rb \<and> ring_buffer_size rb = n \<and> storage_padding (storage rb) = p \<and>
    storage_slots (storage rb) = map factory [0..<n]"
proof -
  from assms have n: "is_power_of_two n" "int n \<le> i64_max"
    and rb: "storage_slots (storage rb) = map factory [0..<n]" "storage_padding (storage rb) = p"
      "index_mask rb = sub_i64 (int n) 1"
    by (auto simp: new_with_padding_def i64_try_from_def Let_def split: if_splits slot_padding.splits)
  from n(1) have "0 < n" by (auto simp: is_power_of_two_iff)
  with n rb show ?thesis
    by (simp add: ring_invar_def ring_buffer_size_def storage_len_slots sub_i64_id in_i64_def)
qed

lemma pow2_fits_i64: "(2 :: nat) ^ k \<le> 9223372036854775807 \<longleftrightarrow> k \<le> 62"
proof
  assume a: "(2 :: nat) ^ k \<le> 9223372036854775807"
  show "k \<le> 62"
  proof (rule ccontr)
    assume "\<not> k \<le> 62"
    then have "(2 :: nat) ^ 63 \<le> 2 ^ k" by (intro power_increasing) simp_all
    with a show False by simp
  qed
next
  assume "k \<le> 62"
  then have "(2 :: nat) ^ k \<le> 2 ^ 62" by (intro power_increasing) simp_all
  then show "(2 :: nat) ^ k \<le> 9223372036854775807" by simp
qed

section \<open>Properties\<close>

text \<open>
  The constructor succeeds exactly on the powers of two up to \<open>2^62\<close>, then has one factory-made
  event per slot in the requested layout; every other size, 0 included, is reported back in
  \<open>InvalidBufferSize\<close>.
\<close>

theorem ring_new_spec:
  "case new_with_padding n factory p of
     Inr rb \<Rightarrow> (\<exists>k\<le>62. n = 2 ^ k) \<and> ring_invar rb \<and> storage_padding (storage rb) = p \<and>
              storage_slots (storage rb) = map factory [0..<n]
   | Inl e \<Rightarrow> e = InvalidBufferSize n \<and> (\<nexists>k. k \<le> 62 \<and> n = 2 ^ k)"
proof (cases "\<exists>k\<le>62. n = 2 ^ k")
  case True
  then have "is_power_of_two n" "int n \<le> i64_max"
    by (auto simp: is_power_of_two_iff pow2_fits_i64)
  then obtain rb where "new_with_padding n factory p = Ok rb"
    by (auto simp: new_with_padding_def i64_try_from_def Let_def)
  with True new_with_padding_invar [OF this] show ?thesis by simp
next
  case False
  then have "\<not> (is_power_of_two n \<and> int n \<le> i64_max)"
    by (auto simp: is_power_of_two_iff pow2_fits_i64)
  with False show ?thesis
    by (auto simp: new_with_padding_def i64_try_from_def)
qed

text \<open>
  Every slot access of a constructed ring is inside the storage. Whatever sequences (negative ones
  and ones past any wrap-around included) are updated through unchecked pointers, each access
  succeeds, the ring keeps its size, and afterwards every sequence can be read.
\<close>

theorem ring_access_in_bounds:
  assumes "new_with_padding n factory p = Ok rb"
  shows "\<exists>rb'. write_seqs ring_update f ss rb = Some rb' \<and> ring_buffer_size rb' = n \<and>
    (\<forall>s. \<exists>e. ring_get rb' s = Some e)"
proof -
  from new_with_padding_invar [OF assms] have inv: "ring_invar rb" and n: "ring_buffer_size rb = n"
    by simp_all
  from rb.write_total [OF inv, of f ss] obtain rb' where
    "write_seqs ring_update f ss rb = Some rb'" "ring_invar rb'" "ring_buffer_size rb' = n"
    using n by auto
  with rb.get_total show ?thesis by blast
qed

theorem ring_access_in_bounds_witness:
  "\<exists>rb rb'. new_with_padding 4 (\<lambda>i. i) PadCacheLine64 = Ok rb \<and>
     write_seqs ring_update (\<lambda>s e. e + 10) [- 1, 3, i64_max] rb = Some rb' \<and> ring_buffer_size rb' = 4 \<and>
     (\<forall>s. \<exists>e. ring_get rb' s = Some e)"
proof -
  have "new_with_padding 4 (\<lambda>i. i) PadCacheLine64 =
    Ok \<lparr>storage = CacheLine64 [0, 1, 2, 3], index_mask = 3\<rparr>" by code_simp
  with ring_access_in_bounds [OF this, of "\<lambda>s e. e + 10" "[- 1, 3, i64_max]"] show ?thesis by blast
qed

text \<open>
  A batch update of at most a ring of consecutive sequences touches each of its slots exactly once
  and nothing else. Every sequence whose slot could be live at the same time (less than a ring below
  the last or above the first) reads the updated event inside the range and the old event outside.
\<close>

theorem batch_update_window:
  assumes "ring_invar rb" and "hi - lo < int (ring_buffer_size rb)"
    and "in_i64 lo" and "in_i64 (hi + 1)" and "n \<ge> nat (hi - lo + 1)"
  shows "\<exists>rb'. batch_drain n f (batch_iter_mut lo hi) rb = Some rb' \<and> ring_invar rb' \<and>
    (\<forall>s. hi - int (ring_buffer_size rb) < s \<and> s < lo + int (ring_buffer_size rb) \<longrightarrow>
       ring_get rb' s =
         (if lo \<le> s \<and> s \<le> hi then map_option (f s) (ring_get rb s) else ring_get rb s))"
proof -
  from rb.write_total [OF assms(1), of f "[lo..hi]"] obtain rb' where
    w: "write_seqs ring_update f [lo..hi] rb = Some rb'" and "ring_invar rb'" by auto
  with batch_drain_write_seqs [OF assms(3-5), of f rb] rb.write_window [OF assms(1,2) w]
  show ?thesis by auto
qed

theorem batch_update_window_witness:
  "\<exists>rb'. batch_drain 3 (\<lambda>s e. e + nat s) (batch_iter_mut 6 8)
       \<lparr>storage = Inline [0, 1, 2, 3 :: nat], index_mask = 3\<rparr> = Some rb' \<and> ring_invar rb' \<and>
     ring_get rb' 6 = Some 8 \<and> ring_get rb' 8 = Some 8 \<and> ring_get rb' 5 = Some 1"
proof -
  let ?rb = "\<lparr>storage = Inline [0, 1, 2, 3 :: nat], index_mask = 3\<rparr>"
  have inv: "ring_invar ?rb" by code_simp
  have sz: "ring_buffer_size ?rb = 4" by code_simp
  have old: "ring_get ?rb 6 = Some 2" "ring_get ?rb 8 = Some 0" "ring_get ?rb 5 = Some 1"
    by code_simp+
  have "\<exists>rb'. batch_drain 3 (\<lambda>s e. e + nat s) (batch_iter_mut 6 8) ?rb = Some rb' \<and> ring_invar rb' \<and>
    (\<forall>s. 8 - int (ring_buffer_size ?rb) < s \<and> s < 6 + int (ring_buffer_size ?rb) \<longrightarrow>
       ring_get rb' s =
         (if 6 \<le> s \<and> s \<le> 8 then map_option (\<lambda>e. e + nat s) (ring_get ?rb s) else ring_get ?rb s))"
    by (rule batch_update_window [OF inv]) (use sz in \<open>simp_all add: in_i64_def\<close>)
  then show ?thesis using old sz by auto
qed

end
