(* ===== verification/Availability.thy ===== *)
theory Availability
  imports Ring_Buffer
begin

text \<open>
  The availability record of the multi-producer sequencer (\<open>src/disruptor/sequencer.rs\<close>): which of
  the claimed sequences have been published. Rings of 64 slots and more keep one bit per slot in an
  array of 64-bit words and publish by flipping bits; smaller rings keep one \<open>i32\<close> per slot. In both
  a slot stores the parity of the round it was last published in. \<open>None\<close> is the panic of an index out
  of range.
\<close>

section \<open>State\<close>

record availability =
  available_bitmap :: "u64 list"
  available_buffer :: "int list"
  avail_mask :: usize
  avail_shift :: nat

text \<open>The part of \<open>MultiProducerSequencer::new\<close> that sets up these fields.\<close>

definition availability_new :: "usize \<Rightarrow> availability" where
  "availability_new buffer_size =
     \<lparr>available_bitmap = (if buffer_size \<ge> 64 then replicate (buffer_size div 64) (NOT 0) else []),
      available_buffer = (if buffer_size < 64 then replicate buffer_size (- 1) else []),
      avail_mask = buffer_size - 1,
      avail_shift = trailing_zeros buffer_size\<rparr>"

section \<open>Operations\<close>

definition calculate_index :: "availability \<Rightarrow> i64 \<Rightarrow> usize" where
  "calculate_index a sequence = i64_as_usize sequence AND avail_mask a"

definition calculate_availability_flag :: "availability \<Rightarrow> i64 \<Rightarrow> int" where
  "calculate_availability_flag a sequence = drop_bit (avail_shift a) sequence AND 1"

definition calculate_round_flag :: "availability \<Rightarrow> i64 \<Rightarrow> u64" where
  "calculate_round_flag a sequence = word_of_int (drop_bit (avail_shift a) sequence AND 1)"

definition calculate_availability_indices :: "availability \<Rightarrow> i64 \<Rightarrow> usize \<times> usize" where
  "calculate_availability_indices a sequence =
     (let slot_index = i64_as_usize sequence AND avail_mask a
      in (drop_bit 6 slot_index, slot_index AND 63))"

definition availability_at :: "availability \<Rightarrow> usize \<Rightarrow> u64" where
  "availability_at a i = available_bitmap a ! i"

definition fetch_xor :: "usize \<Rightarrow> u64 \<Rightarrow> availability \<Rightarrow> availability" where
  "fetch_xor i msk a = a\<lparr>available_bitmap := (available_bitmap a)[i := availability_at a i XOR msk]\<rparr>"

definition publish_bitmap :: "availability \<Rightarrow> i64 \<Rightarrow> availability" where
  "publish_bitmap a sequence =
     (let (i, bit_index) = calculate_availability_indices a sequence
      in if i < length (available_bitmap a) then fetch_xor i (push_bit bit_index 1) a else a)"

text \<open>The indexed store of the small rings.\<close>

definition store_flag :: "availability \<Rightarrow> i64 \<Rightarrow> availability option" where
  "store_flag a sequence =
     (let index = calculate_index a sequence;
          flag = calculate_availability_flag a sequence
      in if index < length (available_buffer a)
         then Some (a\<lparr>available_buffer := (available_buffer a)[index := flag]\<rparr>)
         else None)"

definition set_available :: "availability \<Rightarrow> i64 \<Rightarrow> availability option" where
  "set_available a sequence =
     (if available_bitmap a = [] then store_flag a sequence
      else Some (publish_bitmap a sequence))"

definition is_bitmap_available :: "availability \<Rightarrow> i64 \<Rightarrow> bool" where
  "is_bitmap_available a sequence =
     (let (i, bit_index) = calculate_availability_indices a sequence
      in if i < length (available_bitmap a) then
           let current_value = availability_at a i;
               expected_flag = calculate_round_flag a sequence;
               actual_flag = drop_bit bit_index current_value AND 1
           in actual_flag = expected_flag
         else False)"

definition is_available_internal :: "availability \<Rightarrow> i64 \<Rightarrow> bool option" where
  "is_available_internal a sequence =
     (if available_bitmap a = [] then
        let index = calculate_index a sequence;
            flag = calculate_availability_flag a sequence
        in if index < length (available_buffer a)
           then Some (available_buffer a ! index = flag) else None
      else Some (is_bitmap_available a sequence))"

text \<open>A run of \<open>bits\<close> ones from bit \<open>start\<close>, as the range operations build it.\<close>

definition range_mask :: "nat \<Rightarrow> nat \<Rightarrow> u64" where
  "range_mask start bits = (if bits \<ge> 64 then NOT 0 else push_bit start (push_bit bits 1 - 1))"

text \<open>\<open>(high - sequence + 1) as usize\<close>.\<close>

definition sequences_remaining :: "i64 \<Rightarrow> i64 \<Rightarrow> usize" where
  "sequences_remaining sequence high = i64_as_usize (add_i64 (sub_i64 high sequence) 1)"

text \<open>
  The scan for the highest contiguous published sequence. Producers publish while it runs, so it
  reads a trajectory, one load per round.
\<close>

definition scan_bitmap_body ::
    "availability traj \<Rightarrow> i64 \<Rightarrow> nat \<times> i64 \<Rightarrow> i64 option + nat \<times> i64" where
  "scan_bitmap_body tr available_sequence = (\<lambda>(t, sequence).
     if sequence \<le> available_sequence then
       let a = tr t;
           (word_index, start_bit) = calculate_availability_indices a sequence
       in if word_index \<ge> length (available_bitmap a) then Inl (Some (sub_i64 sequence 1))
          else
            let word = availability_at a word_index;
                bits_remaining_in_word = 64 - start_bit;
                bits_to_check =
                  min bits_remaining_in_word (sequences_remaining sequence available_sequence);
                expected_flag = calculate_round_flag a sequence;
                expected_word = (if expected_flag = 0 then 0 else NOT 0);
                mismatches = (word XOR expected_word) AND range_mask start_bit bits_to_check
            in if mismatches \<noteq> 0 then
                 let first_mismatch = trailing_zeros (unat mismatches);
                     offset = first_mismatch - start_bit
                 in Inl (Some (sub_i64 (add_i64 sequence (int offset)) 1))
               else Inr (Suc t, add_i64 sequence (int bits_to_check))
     else Inl (Some available_sequence))"

definition get_highest_published_sequence_bitmap ::
    "nat \<Rightarrow> availability traj \<Rightarrow> nat \<Rightarrow> i64 \<Rightarrow> i64 \<Rightarrow> i64 option option" where
  "get_highest_published_sequence_bitmap fuel tr t next_sequence available_sequence =
     (if next_sequence > available_sequence then Some (Some available_sequence)
      else poll fuel (scan_bitmap_body tr available_sequence) (t, next_sequence))"

definition scan_legacy_body ::
    "availability traj \<Rightarrow> i64 \<Rightarrow> nat \<times> i64 \<Rightarrow> i64 option + nat \<times> i64" where
  "scan_legacy_body tr available_sequence = (\<lambda>(t, sequence).
     if sequence \<le> available_sequence then
       (case is_available_internal (tr t) sequence of
          None \<Rightarrow> Inl None
        | Some b \<Rightarrow>
            if \<not> b then Inl (Some (sub_i64 sequence 1)) else Inr (Suc t, add_i64 sequence 1))
     else Inl (Some available_sequence))"

definition get_highest_published_sequence_legacy ::
    "nat \<Rightarrow> availability traj \<Rightarrow> nat \<Rightarrow> i64 \<Rightarrow> i64 \<Rightarrow> i64 option option" where
  "get_highest_published_sequence_legacy fuel tr t next_sequence available_sequence =
     poll fuel (scan_legacy_body tr available_sequence) (t, next_sequence)"

definition mp_get_highest_published_sequence ::
    "nat \<Rightarrow> availability traj \<Rightarrow> nat \<Rightarrow> i64 \<Rightarrow> i64 \<Rightarrow> i64 option option" where
  "mp_get_highest_published_sequence fuel tr t next_sequence available_sequence =
     (if available_bitmap (tr t) = []
      then get_highest_published_sequence_legacy fuel tr t next_sequence available_sequence
      else get_highest_published_sequence_bitmap fuel tr t next_sequence available_sequence)"

text \<open>Publication of a range: one store per slot, or one \<open>fetch_xor\<close> per word.\<close>

fun store_flags :: "availability \<Rightarrow> i64 list \<Rightarrow> availability option" where
  "store_flags a [] = Some a"
| "store_flags a (s # ss) = (case store_flag a s of None \<Rightarrow> None | Some a' \<Rightarrow> store_flags a' ss)"

definition publish_range_body ::
    "i64 \<Rightarrow> availability \<times> i64 \<Rightarrow> availability + availability \<times> i64" where
  "publish_range_body high = (\<lambda>(a, sequence).
     if sequence \<le> high then
       let (word_index, start_bit) = calculate_availability_indices a sequence;
           bits_remaining_in_word = 64 - start_bit;
           bits_to_set = min bits_remaining_in_word (sequences_remaining sequence high);
           msk = range_mask start_bit bits_to_set;
           a' = (if word_index < length (available_bitmap a) then fetch_xor word_index msk a else a)
       in Inr (a', add_i64 sequence (int bits_to_set))
     else Inl a)"

definition availability_publish_range ::
    "nat \<Rightarrow> availability \<Rightarrow> i64 \<Rightarrow> i64 \<Rightarrow> availability option option" where
  "availability_publish_range fuel a low high =
     (if low > high then Some (Some a)
      else if available_bitmap a = [] then Some (store_flags a [low..high])
      else map_option Some (poll fuel (publish_range_body high) (a, low)))"

section \<open>Slots and parities\<close>

text \<open>A well-formed record for a ring of \<open>2 ^ k\<close> slots.\<close>

definition avail_inv :: "nat \<Rightarrow> availability \<Rightarrow> bool" where
  "avail_inv k a \<longleftrightarrow>
     k \<le> 62 \<and> avail_mask a = 2 ^ k - Suc 0 \<and> avail_shift a = k \<and>
     (if 6 \<le> k then length (available_bitmap a) = 2 ^ (k - 6)
      else available_bitmap a = [] \<and> length (available_buffer a) = 2 ^ k)"

definition avail :: "availability \<Rightarrow> i64 \<Rightarrow> bool" where
  "avail a s \<longleftrightarrow> is_available_internal a s = Some True"

definition slot_bit :: "availability \<Rightarrow> nat \<Rightarrow> bool" where
  "slot_bit a i = bit (available_bitmap a ! (i div 64)) (i mod 64)"

text \<open>The slot of a sequence in a ring of \<open>2 ^ k\<close>.\<close>

definition slot_of :: "nat \<Rightarrow> i64 \<Rightarrow> nat" where
  "slot_of k s = nat (s mod 2 ^ k)"

lemma slot_of_less [simp]: "slot_of k s < 2 ^ k"
  by (simp add: slot_of_def nat_less_iff)

lemma slot_of_eq_iff: "slot_of k s = slot_of k s' \<longleftrightarrow> s mod 2 ^ k = s' mod 2 ^ k"
  by (simp add: slot_of_def nat_eq_iff)

lemma as_usize_mod: "k \<le> 62 \<Longrightarrow> i64_as_usize s mod 2 ^ k = slot_of k s"
proof -
  assume "k \<le> 62"
  then have "(2 :: int) ^ k dvd 2 ^ 64" by (intro le_imp_power_dvd) simp
  moreover have "(2 :: int) ^ 64 = 18446744073709551616" by simp
  ultimately have d: "(2 :: int) ^ k dvd 18446744073709551616" by simp
  have "int (i64_as_usize s mod 2 ^ k) = (s mod 18446744073709551616) mod 2 ^ k"
    by (simp add: i64_as_usize_def zmod_int)
  also have "\<dots> = s mod 2 ^ k" using d by (rule mod_mod_cancel)
  finally show ?thesis by (simp add: slot_of_def)
qed

lemma calculate_index_slot [ring_simps]: "avail_inv k a \<Longrightarrow> calculate_index a s = slot_of k s"
  by (simp add: calculate_index_def avail_inv_def and_mask_nat as_usize_mod)

lemma calculate_indices_slot [ring_simps]:
  "avail_inv k a \<Longrightarrow> calculate_availability_indices a s = (slot_of k s div 64, slot_of k s mod 64)"
  using and_mask_nat [of "slot_of k s" 6]
  by (simp add: calculate_availability_indices_def avail_inv_def and_mask_nat as_usize_mod drop_bit_eq_div Let_def)

lemma word_index_in_range:
  assumes "avail_inv k a" and "6 \<le> k"
  shows "slot_of k s div 64 < length (available_bitmap a)" and "available_bitmap a \<noteq> []"
proof -
  have "(2 :: nat) ^ k = 64 * 2 ^ (k - 6)"
    using assms(2) power_add [of "2 :: nat" 6 "k - 6"] by simp
  with slot_of_less [of k s] have "slot_of k s div 64 < 2 ^ (k - 6)"
    by (simp add: less_mult_imp_div_less mult.commute)
  with assms show "slot_of k s div 64 < length (available_bitmap a)"
    by (simp add: avail_inv_def)
  then show "available_bitmap a \<noteq> []" by auto
qed

lemma round_flag [ring_simps]:
  "avail_inv k a \<Longrightarrow> calculate_round_flag a s = of_bool (odd (s div 2 ^ k))"
  by (simp add: calculate_round_flag_def avail_inv_def drop_bit_eq_div and_one_eq mod2_eq_if)

lemma availability_flag [ring_simps]:
  "avail_inv k a \<Longrightarrow> calculate_availability_flag a s = of_bool (odd (s div 2 ^ k))"
  by (simp add: calculate_availability_flag_def avail_inv_def drop_bit_eq_div and_one_eq mod2_eq_if)

lemma bit_as_flag: "drop_bit n w AND 1 = of_bool (bit (w :: 'a :: len word) n)"
  by (simp add: and_one_eq bit_iff_odd_drop_bit mod2_eq_if)

lemma avail_bitmap:
  assumes "avail_inv k a" and "6 \<le> k"
  shows "avail a s \<longleftrightarrow> slot_bit a (slot_of k s) = odd (s div 2 ^ k)"
  using assms word_index_in_range [OF assms]
  by (simp add: avail_def is_available_internal_def is_bitmap_available_def calculate_indices_slot
      round_flag bit_as_flag availability_at_def slot_bit_def Let_def)

lemma legacy_inv:
  "avail_inv k a \<Longrightarrow> \<not> 6 \<le> k \<Longrightarrow> available_bitmap a = [] \<and> length (available_buffer a) = 2 ^ k"
  by (simp add: avail_inv_def)

lemma avail_legacy:
  assumes "avail_inv k a" and "\<not> 6 \<le> k"
  shows "avail a s \<longleftrightarrow> available_buffer a ! slot_of k s = of_bool (odd (s div 2 ^ k))"
  using assms slot_of_less [of k s] legacy_inv [OF assms]
  by (simp add: avail_def is_available_internal_def calculate_index_slot availability_flag Let_def)

lemma is_available_total: "avail_inv k a \<Longrightarrow> is_available_internal a s = Some (avail a s)"
  using slot_of_less [of k s] legacy_inv [of k a] word_index_in_range(2) [of k a]
  by (cases "6 \<le> k") (auto simp: avail_def is_available_internal_def calculate_index_slot Let_def)

lemma availability_new_inv: "k \<le> 62 \<Longrightarrow> avail_inv k (availability_new (2 ^ k))"
proof -
  assume k: "k \<le> 62"
  have "(64 :: nat) \<le> 2 ^ k \<longleftrightarrow> 6 \<le> k"
    using power_increasing_iff [of "2 :: nat" 6 k] by simp
  moreover have "(2 :: nat) ^ k div 64 = 2 ^ (k - 6)" if "6 \<le> k"
    using that power_diff [of "2 :: nat" 6 k] by simp
  ultimately show ?thesis using k
    by (auto simp: avail_inv_def availability_new_def not_le)
qed

text \<open>One round of the ring later the same slot answers the opposite.\<close>

lemma avail_flip:
  assumes "avail_inv k a" and "avail a s"
  shows "\<not> avail a (s + 2 ^ k)"
proof -
  have "slot_of k (s + 2 ^ k) = slot_of k s" by (simp add: slot_of_def)
  moreover have "odd ((s + 2 ^ k) div 2 ^ k) = even (s div 2 ^ k)"
    using div_add_self2 [of "2 ^ k" s] by simp
  ultimately show ?thesis
    using assms avail_bitmap [OF assms(1)] avail_legacy [OF assms(1)] by (cases "6 \<le> k") auto
qed

section \<open>Publishing a sequence\<close>

lemma fetch_xor_inv [simp]: "avail_inv k (fetch_xor i m a) = avail_inv k a"
  by (simp add: avail_inv_def fetch_xor_def)

lemma slot_bit_fetch_xor:
  assumes "j < length (available_bitmap a)"
  shows "slot_bit (fetch_xor j m a) i \<longleftrightarrow> slot_bit a i \<noteq> (i div 64 = j \<and> bit m (i mod 64))"
  using assms by (cases "i div 64 = j")
    (auto simp: slot_bit_def fetch_xor_def availability_at_def bit_xor_iff)

lemma publish_bitmap_inv [simp]: "avail_inv k (publish_bitmap a s) = avail_inv k a"
  by (simp add: publish_bitmap_def case_prod_beta Let_def)

lemma slot_bit_publish:
  assumes "avail_inv k a" and "6 \<le> k"
  shows "slot_bit (publish_bitmap a s) i \<longleftrightarrow> slot_bit a i \<noteq> (i = slot_of k s)"
proof -
  have "i = slot_of k s \<longleftrightarrow> i div 64 = slot_of k s div 64 \<and> i mod 64 = slot_of k s mod 64"
    by (metis div_mult_mod_eq)
  moreover have "i mod 64 < 64" by simp
  ultimately show ?thesis
    using word_index_in_range(1) [OF assms, of s]
    by (auto simp: publish_bitmap_def calculate_indices_slot [OF assms(1)] slot_bit_fetch_xor
        bit_push_bit_iff bit_1_iff bit_exp_iff)
qed

lemma set_available_bitmap:
  "avail_inv k a \<Longrightarrow> 6 \<le> k \<Longrightarrow> set_available a s = Some (publish_bitmap a s)"
  using word_index_in_range(2) by (auto simp: set_available_def)

lemma set_available_legacy:
  assumes "avail_inv k a" and "\<not> 6 \<le> k"
  shows "set_available a s =
    Some (a\<lparr>available_buffer := (available_buffer a)[slot_of k s := of_bool (odd (s div 2 ^ k))]\<rparr>)"
  using legacy_inv [OF assms] slot_of_less [of k s]
  by (simp add: set_available_def store_flag_def calculate_index_slot [OF assms(1)]
      availability_flag [OF assms(1)] Let_def)

lemma set_available_inv:
  assumes "avail_inv k a" and "set_available a s = Some a'"
  shows "avail_inv k a'"
proof (cases "6 \<le> k")
  case True
  with assms set_available_bitmap [OF assms(1) True] show ?thesis by auto
next
  case False
  with assms set_available_legacy [OF assms(1) False] show ?thesis by (auto simp: avail_inv_def)
qed

lemma set_available_total: "avail_inv k a \<Longrightarrow> \<exists>a'. set_available a s = Some a'"
  by (cases "6 \<le> k") (auto simp: set_available_bitmap set_available_legacy)

lemma set_available_self:
  assumes "avail_inv k a" and "set_available a s = Some a'" and "\<not> avail a s"
  shows "avail a' s"
proof (cases "6 \<le> k")
  case True
  with assms set_available_bitmap [OF assms(1) True]
  have "a' = publish_bitmap a s" by simp
  with assms(1,3) True show ?thesis
    using avail_bitmap [OF assms(1) True, of s] avail_bitmap [of k "publish_bitmap a s" s]
      slot_bit_publish [OF assms(1) True] by simp
next
  case False
  have l: "slot_of k s < length (available_buffer a)"
    using legacy_inv [OF assms(1) False] by simp
  show ?thesis
    using avail_legacy [OF set_available_inv [OF assms(1,2)] False, of s]
      assms(2) set_available_legacy [OF assms(1) False, of s] l by auto
qed

lemma set_available_other:
  assumes "avail_inv k a" and "set_available a s = Some a'" and "slot_of k s' \<noteq> slot_of k s"
  shows "avail a' s' = avail a s'"
proof (cases "6 \<le> k")
  case True
  with assms set_available_bitmap [OF assms(1) True]
  have "a' = publish_bitmap a s" by simp
  with assms(1,3) True show ?thesis
    using avail_bitmap [OF assms(1) True, of s'] avail_bitmap [of k "publish_bitmap a s" s']
      slot_bit_publish [OF assms(1) True] by simp
next
  case False
  then show ?thesis
    using avail_legacy [OF set_available_inv [OF assms(1,2)] False, of s'] assms(3)
      assms(2) set_available_legacy [OF assms(1) False, of s] avail_legacy [OF assms(1) False, of s']
    by auto
qed

section \<open>The published window\<close>

text \<open>
  The interface both representations provide. The state of a slot is told apart from its state a
  round later, so it identifies the published sequences of one ring-sized window. The window begins
  behind the last consumed sequence \<open>c\<close>.
\<close>

definition tracks :: "('a \<Rightarrow> i64 \<Rightarrow> bool) \<Rightarrow> int \<Rightarrow> 'a \<Rightarrow> i64 \<Rightarrow> i64 set \<Rightarrow> bool" where
  "tracks av n a c P \<longleftrightarrow> (\<forall>s. c < s \<and> s \<le> c + n \<longrightarrow> (av a s \<longleftrightarrow> s \<in> P)) \<and> (\<forall>s\<in>P. s \<le> c + n)"

locale availability_map =
  fixes n :: int and inv :: "'a \<Rightarrow> bool" and av :: "'a \<Rightarrow> i64 \<Rightarrow> bool" and pub :: "'a \<Rightarrow> i64 \<Rightarrow> 'a option"
  assumes pos: "0 < n"
    and total: "inv a \<Longrightarrow> \<exists>a'. pub a s = Some a'"
    and keeps: "inv a \<Longrightarrow> pub a s = Some a' \<Longrightarrow> inv a'"
    and self: "inv a \<Longrightarrow> pub a s = Some a' \<Longrightarrow> \<not> av a s \<Longrightarrow> av a' s"
    and other: "inv a \<Longrightarrow> pub a s = Some a' \<Longrightarrow> s' mod n \<noteq> s mod n \<Longrightarrow> av a' s' = av a s'"
    and flip: "inv a \<Longrightarrow> av a s \<Longrightarrow> \<not> av a (s + n)"
begin

text \<open>Publishing a claimed, unpublished sequence of the window adds exactly that sequence.\<close>

lemma tracks_publish:
  assumes "inv a" and "tracks av n a c P" and "pub a s = Some a'"
    and "c < s" and "s \<le> c + n" and "s \<notin> P"
  shows "tracks av n a' c (insert s P)"
proof -
  have new: "\<not> av a s" using assms by (simp add: tracks_def)
  have "av a' s' \<longleftrightarrow> s' \<in> insert s P" if s': "c < s'" "s' \<le> c + n" for s'
  proof (cases "s' = s")
    case True
    then show ?thesis using self [OF assms(1,3) new] by simp
  next
    case False
    have "\<bar>s' - s\<bar> < n" using s' assms(4,5) by linarith
    with False have "s' mod n \<noteq> s mod n" by (metis mod_window_inj)
    with assms(2) s' False other [OF assms(1,3)] show ?thesis by (simp add: tracks_def)
  qed
  with assms(2,5) show ?thesis by (simp add: tracks_def)
qed

text \<open>Consuming a published prefix moves the window, and the freed slots count as unpublished.\<close>

lemma tracks_advance:
  assumes "inv a" and "tracks av n a c P" and "c \<le> c'" and "c' \<le> c + n"
    and "\<And>s. c < s \<Longrightarrow> s \<le> c' \<Longrightarrow> s \<in> P"
  shows "tracks av n a c' P"
proof -
  have "av a s \<longleftrightarrow> s \<in> P" if s: "c' < s" "s \<le> c' + n" for s
  proof (cases "s \<le> c + n")
    case True
    with s assms(2,3) show ?thesis by (simp add: tracks_def)
  next
    case False
    with s assms(2-5) have "av a (s - n)" by (simp add: tracks_def)
    from flip [OF assms(1) this] have "\<not> av a s" by simp
    moreover have "s \<notin> P" using False assms(2) by (auto simp: tracks_def)
    ultimately show ?thesis by simp
  qed
  moreover have "\<forall>s\<in>P. s \<le> c' + n" using assms(2,3) by (auto simp: tracks_def)
  ultimately show ?thesis by (simp add: tracks_def)
qed

end

interpretation av: availability_map "2 ^ k" "avail_inv k" avail set_available for k
  by unfold_locales
    (auto intro: set_available_total set_available_inv set_available_self set_available_other
      simp: set_available_other slot_of_eq_iff dest: avail_flip)

lemma availability_new_unpublished:
  assumes "k \<le> 62" and "0 \<le> s" and "s < 2 ^ k"
  shows "\<not> avail (availability_new (2 ^ k)) s"
proof -
  note inv = availability_new_inv [OF assms(1)]
  have z: "s div 2 ^ k = 0" using assms(2,3) by simp
  have sl: "slot_of k s < 2 ^ k" by simp
  show ?thesis
  proof (cases "6 \<le> k")
    case True
    have "slot_bit (availability_new (2 ^ k)) (slot_of k s)"
      using word_index_in_range(1) [OF inv True, of s]
      by (auto simp: slot_bit_def availability_new_def split: if_splits)
    then show ?thesis using avail_bitmap [OF inv True, of s] z by simp
  next
    case False
    have "(2 :: nat) ^ k < 64" using False power_strict_increasing [of k 6 "2 :: nat"] by simp
    then have "available_buffer (availability_new (2 ^ k)) ! slot_of k s = - 1"
      using sl by (simp add: availability_new_def)
    then show ?thesis using avail_legacy [OF inv False, of s] z by simp
  qed
qed

lemma tracks_new: "k \<le> 62 \<Longrightarrow> tracks avail (2 ^ k) (availability_new (2 ^ k)) (- 1) {}"
  using availability_new_unpublished [of k] by (auto simp: tracks_def)

section \<open>Scanning for the highest contiguous sequence\<close>

text \<open>The reference: walk up one sequence at a time until the first gap.\<close>

fun contiguous_from :: "(i64 \<Rightarrow> bool) \<Rightarrow> i64 \<Rightarrow> nat \<Rightarrow> i64" where
  "contiguous_from p s 0 = s - 1"
| "contiguous_from p s (Suc m) = (if p s then contiguous_from p (s + 1) m else s - 1)"

definition highest_contiguous :: "(i64 \<Rightarrow> bool) \<Rightarrow> i64 \<Rightarrow> i64 \<Rightarrow> i64" where
  "highest_contiguous p next_sequence available_sequence =
     contiguous_from p next_sequence (nat (available_sequence - next_sequence + 1))"

definition is_highest :: "(i64 \<Rightarrow> bool) \<Rightarrow> i64 \<Rightarrow> i64 \<Rightarrow> i64 \<Rightarrow> bool" where
  "is_highest p lo hi m \<longleftrightarrow>
     lo - 1 \<le> m \<and> m \<le> hi \<and> (\<forall>s. lo \<le> s \<and> s \<le> m \<longrightarrow> p s) \<and> (m < hi \<longrightarrow> \<not> p (m + 1))"

lemma is_highest_extend:
  assumes "is_highest p x hi m" and "s \<le> x" and "\<And>i. s \<le> i \<Longrightarrow> i < x \<Longrightarrow> p i"
  shows "is_highest p s hi m"
  using assms unfolding is_highest_def by (meson diff_right_mono not_less order_trans)

lemma contiguous_from_highest: "is_highest p s (s - 1 + int n) (contiguous_from p s n)"
proof (induction n arbitrary: s)
  case 0
  then show ?case by (auto simp: is_highest_def)
next
  case (Suc n)
  show ?case
  proof (cases "p s")
    case True
    have "is_highest p s (s + int n) (contiguous_from p (s + 1) n)"
    proof (rule is_highest_extend)
      show "is_highest p (s + 1) (s + int n) (contiguous_from p (s + 1) n)"
        using Suc.IH [of "s + 1"] by simp
      show "p i" if "s \<le> i" "i < s + 1" for i
      proof -
        from that have "i = s" by simp
        with True show ?thesis by simp
      qed
    qed simp
    with True show ?thesis by simp
  next
    case False
    then show ?thesis by (auto simp: is_highest_def)
  qed
qed

lemma is_highest_unique: "is_highest p lo hi m \<Longrightarrow> is_highest p lo hi m' \<Longrightarrow> m = m'"
  unfolding is_highest_def by (metis add_le_cancel_right diff_add_cancel linorder_neqE_linordered_idom
      order_less_le_trans zless_imp_add1_zle)

lemma highest_contiguousI:
  assumes "is_highest p lo hi m" and "lo \<le> hi + 1"
  shows "m = highest_contiguous p lo hi"
proof -
  have "is_highest p lo hi (highest_contiguous p lo hi)"
    using contiguous_from_highest [of p lo "nat (hi - lo + 1)"] assms(2)
    by (simp add: highest_contiguous_def)
  with assms(1) show ?thesis by (rule is_highest_unique)
qed

text \<open>
  What a round of a scan does: it either decides, and then what it has seen from its start on is the
  highest contiguous sequence, or it moves on over published sequences.
\<close>

locale contiguity_scan =
  fixes ok :: "'a traj \<Rightarrow> i64 \<Rightarrow> bool" and av :: "'a \<Rightarrow> i64 \<Rightarrow> bool"
    and body :: "'a traj \<Rightarrow> i64 \<Rightarrow> nat \<times> i64 \<Rightarrow> i64 option + nat \<times> i64"
  assumes decide: "ok tr hi \<Longrightarrow> 0 \<le> s \<Longrightarrow> s \<le> hi + 1 \<Longrightarrow> body tr hi (t, s) = Inl r \<Longrightarrow>
      \<exists>m. r = Some m \<and> is_highest (av (tr t)) s hi m"
    and move: "ok tr hi \<Longrightarrow> 0 \<le> s \<Longrightarrow> s \<le> hi + 1 \<Longrightarrow> body tr hi (t, s) = Inr (t', s') \<Longrightarrow>
      t' = Suc t \<and> s < s' \<and> s' \<le> hi + 1 \<and> (\<forall>i. s \<le> i \<and> i < s' \<longrightarrow> av (tr t) i)"
begin

lemma returns:
  assumes "ok tr hi" and "0 \<le> s" and "s \<le> hi + 1"
  shows "\<exists>r. poll (Suc (nat (hi + 1 - s))) (body tr hi) (t, s) = Some r"
proof -
  let ?I = "\<lambda>(t :: nat, s). 0 \<le> s \<and> s \<le> hi + 1"
  have "\<exists>r. poll (Suc (nat (hi + 1) - nat (snd (t, s)))) (body tr hi) (t, s) = Some r"
  proof (rule poll_returns [where I = ?I and time = "\<lambda>c. nat (snd c)"])
    fix c c' assume "?I c" and "body tr hi c = Inr c'"
    then show "?I c' \<and> nat (snd c) < nat (snd c')"
      using move [OF assms(1)] by (cases c; cases c') fastforce
  next
    fix c assume c: "?I c" "nat (hi + 1) \<le> nat (snd c)"
    show "\<exists>r. body tr hi c = Inl r"
    proof (cases "body tr hi c")
      case (Inr c')
      with c move [OF assms(1)] show ?thesis by (cases c; cases c') fastforce
    qed auto
  qed (use assms in simp)
  then show ?thesis using assms(2,3) by (simp add: nat_diff_distrib)
qed

text \<open>
  Published sequences stay published while the scan runs; it makes at most one load per sequence.
\<close>

lemma result:
  assumes "ok tr hi" and "0 \<le> s" and "s \<le> hi + 1" and "poll fuel (body tr hi) (t, s) = Some r"
    and stable: "\<And>i u u'. s \<le> i \<Longrightarrow> i \<le> hi \<Longrightarrow> t \<le> u \<Longrightarrow> u \<le> u' \<Longrightarrow> u' \<le> t + nat (hi + 1 - s) \<Longrightarrow>
      av (tr u) i \<Longrightarrow> av (tr u') i"
  shows "\<exists>m u. r = Some m \<and> t \<le> u \<and> u \<le> t + nat (hi + 1 - s) \<and> is_highest (av (tr u)) s hi m"
proof -
  let ?I = "\<lambda>(u, x). t \<le> u \<and> int u - int t \<le> x - s \<and> x \<le> hi + 1 \<and> (\<forall>i. s \<le> i \<and> i < x \<longrightarrow> av (tr u) i)"
  have late: "u \<le> t + nat (hi + 1 - s)" if "?I (u, x)" for u x using that by auto
  obtain c where c: "?I c" "body tr hi c = Inl r"
  proof (rule poll_inv [OF assms(4), of ?I])
    show "?I (t, s)" using assms(3) by auto
    fix c c' assume I: "?I c" and step: "body tr hi c = Inr c'"
    obtain u x u' x' where cc: "c = (u, x)" "c' = (u', x')" by (cases c; cases c')
    from I cc have x: "0 \<le> x" "x \<le> hi + 1" using assms(2) by auto
    note mv = move [OF assms(1) x step [unfolded cc]]
    have "av (tr u') i" if "s \<le> i" "i < x'" for i
    proof -
      have "av (tr u) i" using that I cc mv by (cases "i < x") auto
      then show ?thesis using stable [of i u u'] that I cc mv by auto
    qed
    with I cc mv show "?I c'" by auto
  qed blast
  then obtain u x where cc: "c = (u, x)" by (cases c)
  from c(1) cc have x: "0 \<le> x" "x \<le> hi + 1" using assms(2) by auto
  from decide [OF assms(1) x c(2) [unfolded cc]] obtain m
    where m: "r = Some m" "is_highest (av (tr u)) x hi m" by blast
  have "is_highest (av (tr u)) s hi m"
    by (rule is_highest_extend [OF m(2)]) (use c(1) cc in auto)
  with m(1) c(1) cc late [of u x] show ?thesis by auto
qed

text \<open>With no publication in between, the scan is the reference walk.\<close>

lemma reference:
  assumes "ok (\<lambda>_. a) hi" and "0 \<le> s" and "s \<le> hi + 1"
  shows "poll (Suc (nat (hi + 1 - s))) (body (\<lambda>_. a) hi) (t, s) = Some (Some (highest_contiguous (av a) s hi))"
proof -
  from returns [OF assms, of t] obtain r
    where r: "poll (Suc (nat (hi + 1 - s))) (body (\<lambda>_. a) hi) (t, s) = Some r" ..
  from result [OF assms r] obtain m where "r = Some m" "is_highest (av a) s hi m" by auto
  with r highest_contiguousI [of "av a" s hi m] assms(3) show ?thesis by simp
qed

end

section \<open>Word-wise work\<close>

lemma range_mask_bit:
  assumes "start + bits \<le> 64" and "i < 64"
  shows "bit (range_mask start bits) i \<longleftrightarrow> start \<le> i \<and> i < start + bits"
proof (cases "64 \<le> bits")
  case True
  with assms show ?thesis by (auto simp: range_mask_def bit_not_iff)
next
  case False
  have "push_bit bits 1 - 1 = (mask bits :: u64)"
    by (simp add: mask_eq_exp_minus_1)
  with False assms show ?thesis
    by (auto simp: range_mask_def bit_push_bit_iff bit_mask_iff)
qed

text \<open>Within one word, consecutive sequences have consecutive bits and the same parity.\<close>

lemma same_word:
  assumes "6 \<le> k" and "slot_of k s mod 64 + j < 64"
  shows "slot_of k (s + int j) = slot_of k s + j"
    and "(s + int j) div 2 ^ k = s div 2 ^ k"
proof -
  let ?r = "s mod 2 ^ k"
  have two: "(2 :: nat) ^ k = 64 * 2 ^ (k - 6)"
    using assms(1) power_add [of "2 :: nat" 6 "k - 6"] by simp
  have q: "slot_of k s div 64 < 2 ^ (k - 6)"
    using slot_of_less [of k s] two by (simp add: less_mult_imp_div_less mult.commute)
  have "slot_of k s + j < 64 * (slot_of k s div 64) + 64"
    using assms(2) by (metis add.commute mult_div_mod_eq nat_add_left_cancel_less add.assoc)
  also have "\<dots> \<le> 2 ^ k" unfolding two using q by simp
  finally have "int (slot_of k s) + int j < 2 ^ k" by (metis of_nat_add of_nat_less_iff of_nat_numeral of_nat_power)
  then have lt: "?r + int j < 2 ^ k" and ge: "0 \<le> ?r + int j" by (simp_all add: slot_of_def)
  have s: "s + int j = ?r + int j + s div 2 ^ k * 2 ^ k"
    using mod_mult_div_eq [of s "2 ^ k"] by (simp add: mult.commute)
  show d: "(s + int j) div 2 ^ k = s div 2 ^ k"
    unfolding s using lt ge by (subst div_mult_self1) (simp_all add: div_pos_pos_trivial)
  have "(s + int j) mod 2 ^ k = ?r + int j"
    unfolding s using lt ge by (subst mod_mult_self1) (simp_all add: mod_pos_pos_trivial)
  then show "slot_of k (s + int j) = slot_of k s + j" by (simp add: slot_of_def nat_add_distrib)
qed

lemma word_offset:
  fixes x j :: nat
  assumes "x mod 64 + j < 64"
  shows "(x + j) div 64 = x div 64" and "(x + j) mod 64 = x mod 64 + j"
proof -
  obtain q m where x: "x = m + q * 64" and m: "m < 64"
    by (metis add.commute div_mult_mod_eq mod_less_divisor zero_less_numeral)
  with assms have lt: "m + j < 64" by simp
  have e: "x + j = (m + j) + q * 64" using x by simp
  show "(x + j) div 64 = x div 64" unfolding e unfolding x using lt m by simp
  show "(x + j) mod 64 = x mod 64 + j" unfolding e unfolding x using lt m by (simp only: mod_mult_self1 mod_less)
qed

lemma word_avail:
  assumes "avail_inv k a" and "6 \<le> k" and "slot_of k s mod 64 + j < 64"
  shows "avail a (s + int j) \<longleftrightarrow>
    bit (available_bitmap a ! (slot_of k s div 64)) (slot_of k s mod 64 + j) = odd (s div 2 ^ k)"
proof -
  note word_offset [OF assms(3)]
  then show ?thesis
    using avail_bitmap [OF assms(1,2)] same_word [OF assms(2,3)] by (simp add: slot_bit_def)
qed

lemma sequences_remaining_eq:
  "0 \<le> s \<Longrightarrow> s \<le> hi \<Longrightarrow> hi < i64_max \<Longrightarrow> sequences_remaining s hi = nat (hi - s + 1)"
  by (simp add: sequences_remaining_def i64_as_usize_def sub_i64_id add_i64_id in_i64_def)

text \<open>The mismatch word of a scan round has a one exactly at the unpublished sequences.\<close>

definition mismatch_word :: "nat \<Rightarrow> availability \<Rightarrow> i64 \<Rightarrow> nat \<Rightarrow> u64" where
  "mismatch_word k a s bits =
     (available_bitmap a ! (slot_of k s div 64) XOR (if even (s div 2 ^ k) then 0 else NOT 0))
     AND range_mask (slot_of k s mod 64) bits"

lemma mismatch_bit:
  assumes "avail_inv k a" and "6 \<le> k" and "slot_of k s mod 64 + bits \<le> 64" and "i < 64"
  shows "bit (mismatch_word k a s bits) i \<longleftrightarrow>
    (\<exists>j<bits. i = slot_of k s mod 64 + j \<and> \<not> avail a (s + int j))"
proof (cases "slot_of k s mod 64 \<le> i \<and> i < slot_of k s mod 64 + bits")
  case True
  then obtain j where j: "i = slot_of k s mod 64 + j" "j < bits"
    by (metis le_add_diff_inverse nat_add_left_cancel_less)
  with assms True word_avail [OF assms(1,2), of s j] show ?thesis
    by (auto simp: mismatch_word_def bit_and_iff bit_xor_iff bit_not_iff range_mask_bit)
next
  case False
  with assms show ?thesis
    by (auto simp: mismatch_word_def bit_and_iff range_mask_bit)
qed

lemma word_zero_iff: "(w :: u64) = 0 \<longleftrightarrow> (\<forall>i<64. \<not> bit w i)"
  by (auto simp: bit_eq_iff)

lemma first_mismatch:
  assumes "avail_inv k a" and "6 \<le> k" and "slot_of k s mod 64 + bits \<le> 64"
    and "mismatch_word k a s bits \<noteq> 0"
  defines "j \<equiv> trailing_zeros (unat (mismatch_word k a s bits)) - slot_of k s mod 64"
  shows "j < bits" and "\<not> avail a (s + int j)" and "\<And>i. i < j \<Longrightarrow> avail a (s + int i)"
proof -
  let ?m = "mismatch_word k a s bits" and ?z = "trailing_zeros (unat (mismatch_word k a s bits))"
  have nz: "unat ?m \<noteq> 0" using assms(4) by (simp add: unat_eq_0)
  have bit_unat: "bit (unat ?m) i \<longleftrightarrow> bit ?m i" for i by (auto simp: bit_unsigned_iff)
  have z: "bit ?m ?z" using trailing_zeros_bit [OF nz] bit_unat by blast
  then have "?z < 64" using bit_imp_le_length [OF z] by simp
  with z mismatch_bit [OF assms(1-3)] obtain i where i: "i < bits" "?z = slot_of k s mod 64 + i"
    "\<not> avail a (s + int i)" by blast
  then have ji: "j = i" by (simp add: j_def)
  show "j < bits" "\<not> avail a (s + int j)" using i ji by simp_all
  fix l assume "l < j"
  with i ji have "slot_of k s mod 64 + l < ?z" by simp
  from trailing_zeros_least [OF nz this] have "\<not> bit ?m (slot_of k s mod 64 + l)" by (simp add: bit_unat)
  moreover have "slot_of k s mod 64 + l < 64" using \<open>l < j\<close> i ji assms(3) by simp
  ultimately show "avail a (s + int l)"
    using mismatch_bit [OF assms(1-3)] \<open>l < j\<close> i ji by auto
qed

definition bits_from :: "nat \<Rightarrow> i64 \<Rightarrow> i64 \<Rightarrow> nat" where
  "bits_from k s hi = min (64 - slot_of k s mod 64) (nat (hi - s + 1))"

lemma bits_from_bounds:
  assumes "s \<le> hi"
  shows "0 < bits_from k s hi" and "slot_of k s mod 64 + bits_from k s hi \<le> 64"
    and "s + int (bits_from k s hi) \<le> hi + 1" and "bits_from k s hi \<le> 64"
  using assms mod_less_divisor [of 64 "slot_of k s"] by (auto simp: bits_from_def min_def)

lemma scan_bitmap_round:
  assumes "avail_inv k (tr t)" and "6 \<le> k" and "0 \<le> s" and "s \<le> hi" and "hi < i64_max"
  shows "scan_bitmap_body tr hi (t, s) =
    (let b = bits_from k s hi; m = mismatch_word k (tr t) s b in
     if m \<noteq> 0 then Inl (Some (s + int (trailing_zeros (unat m) - slot_of k s mod 64) - 1))
     else Inr (Suc t, s + int b))"
proof -
  let ?b = "bits_from k s hi"
  note b = bits_from_bounds [OF assms(4), of k]
  have b': "min (64 - slot_of k s mod 64) (sequences_remaining s hi) = ?b"
    using sequences_remaining_eq [OF assms(3-5)] by (simp add: bits_from_def)
  have fl: "(if calculate_round_flag (tr t) s = 0 then 0 else NOT 0) = (if even (s div 2 ^ k) then 0 else NOT (0 :: u64))"
    using round_flag [OF assms(1)] by simp
  let ?m = "mismatch_word k (tr t) s ?b" and ?j = "trailing_zeros (unat (mismatch_word k (tr t) s ?b)) - slot_of k s mod 64"
  have "sub_i64 (add_i64 s (int ?j)) 1 = s + int ?j - 1" if "?m \<noteq> 0"
    using first_mismatch(1) [OF assms(1,2) b(2) that] b assms(3-5)
    by (simp add: add_i64_id sub_i64_id in_i64_def)
  moreover have "add_i64 s (int ?b) = s + int ?b"
    using b assms(3-5) by (intro add_i64_id) (simp add: in_i64_def)
  ultimately show ?thesis
    using assms(4) word_index_in_range(1) [OF assms(1,2), of s]
    by (simp add: scan_bitmap_body_def calculate_indices_slot [OF assms(1)] b' fl availability_at_def
        mismatch_word_def [symmetric] Let_def not_le)
qed

lemma scan_legacy_round:
  assumes "avail_inv k (tr t)" and "0 \<le> s" and "s \<le> hi" and "hi < i64_max"
  shows "scan_legacy_body tr hi (t, s) =
    (if avail (tr t) s then Inr (Suc t, s + 1) else Inl (Some (s - 1)))"
proof -
  have "add_i64 s 1 = s + 1" "sub_i64 s 1 = s - 1"
    using assms by (auto simp: in_i64_def intro!: add_i64_id sub_i64_id)
  with assms(3) show ?thesis
    by (simp add: scan_legacy_body_def is_available_total [OF assms(1)])
qed

definition scan_ok :: "nat \<Rightarrow> availability traj \<Rightarrow> i64 \<Rightarrow> bool" where
  "scan_ok k tr hi \<longleftrightarrow> (\<forall>t. avail_inv k (tr t)) \<and> hi < i64_max"

interpretation legacy_scan: contiguity_scan "scan_ok k" avail scan_legacy_body for k
proof unfold_locales
  fix tr hi s t r
  assume ok: "scan_ok k tr hi" and s: "0 \<le> s" "s \<le> hi + 1"
    and r: "scan_legacy_body tr hi (t, s) = Inl r"
  show "\<exists>m. r = Some m \<and> is_highest (avail (tr t)) s hi m"
  proof (cases "s \<le> hi")
    case True
    with r scan_legacy_round [of k tr t s hi] ok s show ?thesis
      by (auto simp: scan_ok_def is_highest_def split: if_splits)
  next
    case False
    with r s show ?thesis by (auto simp: scan_legacy_body_def is_highest_def)
  qed
next
  fix tr hi s t t' s'
  assume ok: "scan_ok k tr hi" and s: "0 \<le> s" "s \<le> hi + 1"
    and r: "scan_legacy_body tr hi (t, s) = Inr (t', s')"
  then have "s \<le> hi" by (cases "s \<le> hi") (auto simp: scan_legacy_body_def)
  with r scan_legacy_round [of k tr t s hi] ok s
  show "t' = Suc t \<and> s < s' \<and> s' \<le> hi + 1 \<and> (\<forall>i. s \<le> i \<and> i < s' \<longrightarrow> avail (tr t) i)"
    by (auto simp: scan_ok_def split: if_splits)
qed

interpretation bitmap_scan: contiguity_scan "\<lambda>tr hi. 6 \<le> k \<and> scan_ok k tr hi" avail scan_bitmap_body for k
proof unfold_locales
  fix tr hi s t r
  assume ok: "6 \<le> k \<and> scan_ok k tr hi" and s: "0 \<le> s" "s \<le> hi + 1"
    and r: "scan_bitmap_body tr hi (t, s) = Inl r"
  show "\<exists>m. r = Some m \<and> is_highest (avail (tr t)) s hi m"
  proof (cases "s \<le> hi")
    case True
    let ?b = "bits_from k s hi"
    let ?j = "trailing_zeros (unat (mismatch_word k (tr t) s ?b)) - slot_of k s mod 64"
    from ok have inv: "avail_inv k (tr t)" and k: "6 \<le> k" and hi: "hi < i64_max"
      by (auto simp: scan_ok_def)
    note b = bits_from_bounds [OF True, of k]
    from r scan_bitmap_round [of k tr t s hi, OF inv k s(1) True hi] have nz: "mismatch_word k (tr t) s ?b \<noteq> 0"
      and r': "r = Some (s + int ?j - 1)" by (auto simp: Let_def split: if_splits)
    note fm = first_mismatch [OF inv k b(2) nz]
    have "avail (tr t) i" if "s \<le> i" "i \<le> s + int ?j - 1" for i
      using fm(3) [of "nat (i - s)"] that by simp
    with fm(1,2) b(3) r' show ?thesis by (auto simp: is_highest_def)
  next
    case False
    with r s show ?thesis by (auto simp: scan_bitmap_body_def is_highest_def)
  qed
next
  fix tr hi s t t' s'
  assume ok: "6 \<le> k \<and> scan_ok k tr hi" and s: "0 \<le> s" "s \<le> hi + 1"
    and r: "scan_bitmap_body tr hi (t, s) = Inr (t', s')"
  then have le: "s \<le> hi" by (cases "s \<le> hi") (auto simp: scan_bitmap_body_def)
  let ?b = "bits_from k s hi"
  from ok have inv: "avail_inv k (tr t)" and k: "6 \<le> k" and hi: "hi < i64_max"
    by (auto simp: scan_ok_def)
  note b = bits_from_bounds [OF le, of k]
  from r scan_bitmap_round [of k tr t s hi, OF inv k s(1) le hi] have z: "mismatch_word k (tr t) s ?b = 0"
    and r': "t' = Suc t" "s' = s + int ?b" by (auto simp: Let_def split: if_splits)
  have "avail (tr t) i" if "s \<le> i" "i < s + int ?b" for i
  proof -
    have "nat (i - s) < ?b" using that by simp
    moreover have "\<not> bit (mismatch_word k (tr t) s ?b) (slot_of k s mod 64 + nat (i - s))" using z by simp
    ultimately show ?thesis
      using mismatch_bit [OF inv k b(2), of "slot_of k s mod 64 + nat (i - s)"] b(2) that by auto
  qed
  with r' b show "t' = Suc t \<and> s < s' \<and> s' \<le> hi + 1 \<and> (\<forall>i. s \<le> i \<and> i < s' \<longrightarrow> avail (tr t) i)"
    by simp
qed

section \<open>Publishing a range\<close>

fun publish_all :: "availability \<Rightarrow> i64 list \<Rightarrow> availability option" where
  "publish_all a [] = Some a"
| "publish_all a (s # ss) = (case set_available a s of None \<Rightarrow> None | Some a' \<Rightarrow> publish_all a' ss)"

lemma publish_all_append:
  "publish_all a (xs @ ys) = (case publish_all a xs of None \<Rightarrow> None | Some a' \<Rightarrow> publish_all a' ys)"
  by (induction a xs rule: publish_all.induct) (auto split: option.splits)

lemma publish_all_legacy:
  assumes "avail_inv k a" and "\<not> 6 \<le> k"
  shows "store_flags a ss = publish_all a ss"
  using assms
proof (induction a ss rule: store_flags.induct)
  case (2 a s ss)
  have "set_available a s = store_flag a s"
    using legacy_inv [OF "2.prems"] by (simp add: set_available_def)
  moreover from this have "avail_inv k a'" if "store_flag a s = Some a'" for a'
    using set_available_inv [OF "2.prems"(1)] that by simp
  ultimately show ?case using "2.IH" "2.prems"(2) by (auto split: option.splits)
qed simp

lemma fetch_xor_0: "fetch_xor i 0 a = a"
  by (simp add: fetch_xor_def availability_at_def)

lemma fetch_xor_xor:
  "i < length (available_bitmap a) \<Longrightarrow> fetch_xor i m' (fetch_xor i m a) = fetch_xor i (m XOR m') a"
  by (simp add: fetch_xor_def availability_at_def xor.assoc)

lemma range_mask_0: "range_mask start 0 = 0"
  by (simp add: range_mask_def)

lemma range_mask_Suc:
  assumes "start + Suc bits \<le> 64"
  shows "range_mask start (Suc bits) = range_mask start bits XOR push_bit (start + bits) 1"
proof (rule bit_word_eqI)
  fix i assume i: "i < LENGTH(64)"
  have "bit (push_bit (start + bits) (1 :: u64)) i \<longleftrightarrow> i = start + bits"
    using i by (auto simp: bit_push_bit_iff bit_1_iff bit_exp_iff)
  with i assms show "bit (range_mask start (Suc bits)) i \<longleftrightarrow>
      bit (range_mask start bits XOR push_bit (start + bits) 1) i"
    by (auto simp: range_mask_bit bit_xor_iff)
qed

text \<open>One flip of a run of bits publishes the sequences of the run one by one.\<close>

lemma chunk_publish:
  assumes "avail_inv k a" and "6 \<le> k" and "slot_of k s mod 64 + b \<le> 64"
  shows "publish_all a (map (\<lambda>j. s + int j) [0..<b]) =
    Some (fetch_xor (slot_of k s div 64) (range_mask (slot_of k s mod 64) b) a)"
  using assms(3)
proof (induction b)
  case 0
  then show ?case by (simp add: range_mask_0 fetch_xor_0)
next
  case (Suc b)
  let ?i = "slot_of k s div 64" and ?a = "fetch_xor (slot_of k s div 64) (range_mask (slot_of k s mod 64) b) a"
  have inv: "avail_inv k ?a" using assms(1) by simp
  have sb: "slot_of k s mod 64 + b < 64" using Suc.prems by simp
  have idx: "calculate_availability_indices ?a (s + int b) = (?i, slot_of k s mod 64 + b)"
    using calculate_indices_slot [OF inv] same_word(1) [OF assms(2) sb] word_offset [OF sb] by simp
  have len: "?i < length (available_bitmap a)" "length (available_bitmap ?a) = length (available_bitmap a)"
    using word_index_in_range(1) [OF assms(1,2)] by (simp_all add: fetch_xor_def)
  have "set_available ?a (s + int b) = Some (publish_bitmap ?a (s + int b))"
    using set_available_bitmap [OF inv assms(2)] .
  also have "publish_bitmap ?a (s + int b) = fetch_xor ?i (range_mask (slot_of k s mod 64) (Suc b)) a"
    using idx len range_mask_Suc [OF Suc.prems] by (simp add: publish_bitmap_def fetch_xor_xor)
  finally show ?case using Suc by (simp add: publish_all_append)
qed

lemma upto_chunk:
  "b \<le> nat (hi - s + 1) \<Longrightarrow> [s..hi] = map (\<lambda>j. s + int j) [0..<b] @ [s + int b..hi]"
proof (induction b)
  case (Suc b)
  then have "s + int b \<le> hi" by simp
  then have "[s + int b..hi] = (s + int b) # [s + int (Suc b)..hi]"
    by (simp add: upto_rec1 add.commute add.left_commute)
  with Suc show ?case by simp
qed simp

lemma publish_range_loop:
  assumes "avail_inv k a" and "6 \<le> k" and "0 \<le> s" and "s \<le> hi + 1" and "hi < i64_max"
    and "nat (hi - s + 1) < fuel"
  shows "\<exists>a'. poll fuel (publish_range_body hi) (a, s) = Some a' \<and> publish_all a [s..hi] = Some a'"
  using assms
proof (induction fuel arbitrary: a s)
  case 0
  then show ?case by simp
next
  case (Suc fuel)
  show ?case
  proof (cases "s \<le> hi")
    case False
    then show ?thesis by (simp add: publish_range_body_def)
  next
    case True
    let ?b = "bits_from k s hi"
    let ?a = "fetch_xor (slot_of k s div 64) (range_mask (slot_of k s mod 64) ?b) a"
    note b = bits_from_bounds [OF True, of k]
    have "min (64 - slot_of k s mod 64) (sequences_remaining s hi) = ?b"
      using sequences_remaining_eq [OF Suc.prems(3) True Suc.prems(5)] by (simp add: bits_from_def)
    moreover have "add_i64 s (int ?b) = s + int ?b"
      using b True Suc.prems by (intro add_i64_id) (simp add: in_i64_def)
    ultimately have step: "publish_range_body hi (a, s) = Inr (?a, s + int ?b)"
      using True word_index_in_range(1) [OF Suc.prems(1,2)]
      by (simp add: publish_range_body_def calculate_indices_slot [OF Suc.prems(1)] Let_def)
    have inv: "avail_inv k ?a" using Suc.prems(1) by simp
    have f: "nat (hi - (s + int ?b) + 1) < fuel" using Suc.prems(6) True b(1) by linarith
    obtain a' where "poll fuel (publish_range_body hi) (?a, s + int ?b) = Some a'"
      and "publish_all ?a [s + int ?b..hi] = Some a'"
      using Suc.IH [OF inv Suc.prems(2) _ b(3) Suc.prems(5) f] Suc.prems(3) by auto
    moreover have "?b \<le> nat (hi - s + 1)" by (simp add: bits_from_def)
    ultimately show ?thesis
      using step chunk_publish [OF Suc.prems(1,2) b(2)] upto_chunk [of ?b hi s]
      by (simp add: publish_all_append)
  qed
qed

section \<open>Publishing and consuming\<close>

text \<open>
  The record over time: \<open>c\<close> is the highest sequence every consumer has finished, \<open>P\<close> the sequences
  published so far. A producer publishes a sequence of the window it has claimed, once; the consumers
  move past published sequences only.
\<close>

inductive avail_step ::
    "nat \<Rightarrow> availability \<times> i64 \<times> i64 set \<Rightarrow> availability \<times> i64 \<times> i64 set \<Rightarrow> bool" for k where
  publish: "c < s \<Longrightarrow> s \<le> c + 2 ^ k \<Longrightarrow> s \<notin> P \<Longrightarrow> set_available a s = Some a' \<Longrightarrow>
    avail_step k (a, c, P) (a', c, insert s P)"
| consume: "c \<le> c' \<Longrightarrow> c' \<le> c + 2 ^ k \<Longrightarrow> \<forall>s. c < s \<and> s \<le> c' \<longrightarrow> s \<in> P \<Longrightarrow>
    avail_step k (a, c, P) (a, c', P)"

lemma avail_step_tracks:
  assumes "avail_step k x y" and "avail_inv k (fst x)" and "case x of (a, c, P) \<Rightarrow> tracks avail (2 ^ k) a c P"
  shows "avail_inv k (fst y) \<and> (case y of (a, c, P) \<Rightarrow> tracks avail (2 ^ k) a c P)"
  using assms
  by (cases rule: avail_step.cases)
    (auto intro: av.tracks_publish av.tracks_advance set_available_inv)

lemma avail_reachable_tracks:
  assumes "(avail_step k)\<^sup>*\<^sup>* (availability_new (2 ^ k), - 1, {}) y" and "k \<le> 62"
  shows "avail_inv k (fst y) \<and> (case y of (a, c, P) \<Rightarrow> tracks avail (2 ^ k) a c P)"
  using assms(1)
proof (induction rule: rtranclp_induct)
  case base
  then show ?case using availability_new_inv [OF assms(2)] tracks_new [OF assms(2)] by simp
next
  case (step y z)
  then show ?case using avail_step_tracks by blast
qed

section \<open>The scan of the sequencer\<close>

lemma highest_published_result:
  assumes "\<And>u. avail_inv k (tr u)" and "0 \<le> lo" and "lo \<le> hi + 1" and "hi < i64_max"
    and "\<And>s u u'. lo \<le> s \<Longrightarrow> s \<le> hi \<Longrightarrow> t \<le> u \<Longrightarrow> u \<le> u' \<Longrightarrow> u' \<le> t + nat (hi + 1 - lo) \<Longrightarrow>
      avail (tr u) s \<Longrightarrow> avail (tr u') s"
    and "mp_get_highest_published_sequence fuel tr t lo hi = Some r"
  shows "\<exists>m u. r = Some m \<and> t \<le> u \<and> u \<le> t + nat (hi + 1 - lo) \<and> is_highest (avail (tr u)) lo hi m"
proof (cases "6 \<le> k")
  case True
  have ok: "6 \<le> k \<and> scan_ok k tr hi" using assms(1,4) True by (simp add: scan_ok_def)
  show ?thesis
  proof (cases "hi < lo")
    case False
    then have "poll fuel (scan_bitmap_body tr hi) (t, lo) = Some r"
      using assms(6) word_index_in_range(2) [OF assms(1) True]
      by (auto simp: mp_get_highest_published_sequence_def get_highest_published_sequence_bitmap_def)
    from bitmap_scan.result [OF ok assms(2,3) this assms(5)] show ?thesis .
  next
    case empty: True
    then have "r = Some hi" using assms(6) word_index_in_range(2) [OF assms(1) True]
      by (auto simp: mp_get_highest_published_sequence_def get_highest_published_sequence_bitmap_def)
    with empty assms(3) show ?thesis by (auto simp: is_highest_def intro!: exI [of _ t])
  qed
next
  case False
  have ok: "scan_ok k tr hi" using assms(1,4) by (simp add: scan_ok_def)
  have "poll fuel (scan_legacy_body tr hi) (t, lo) = Some r"
    using assms(6) legacy_inv [OF assms(1) False]
    by (auto simp: mp_get_highest_published_sequence_def get_highest_published_sequence_legacy_def)
  from legacy_scan.result [OF ok assms(2,3) this assms(5)] show ?thesis .
qed

lemma highest_published_returns:
  assumes "\<And>u. avail_inv k (tr u)" and "0 \<le> lo" and "lo \<le> hi + 1" and "hi < i64_max"
  shows "\<exists>r. mp_get_highest_published_sequence (Suc (nat (hi + 1 - lo))) tr t lo hi = Some r"
proof -
  have ok: "scan_ok k tr hi" using assms by (simp add: scan_ok_def)
  show ?thesis
    using bitmap_scan.returns [of k tr hi lo t] legacy_scan.returns [OF ok assms(2,3), of t] ok assms(2,3)
      word_index_in_range(2) [OF assms(1), of t] legacy_inv [OF assms(1), of t]
    by (cases "6 \<le> k")
      (auto simp: mp_get_highest_published_sequence_def get_highest_published_sequence_bitmap_def
        get_highest_published_sequence_legacy_def simp del: poll.simps)
qed

section \<open>Properties\<close>

text \<open>
  C34: the word-wise range publication is equivalent to publishing the sequences of the range one
  after the other, whatever the ring size and however the range crosses words and the end of the
  ring. It returns within one round per sequence.
\<close>

theorem publish_range_equivalent:
  assumes "avail_inv k a" and "0 \<le> low" and "high < i64_max"
  shows "\<exists>a'. availability_publish_range (Suc (nat (high - low + 1))) a low high = Some (Some a') \<and>
    publish_all a [low..high] = Some a' \<and> avail_inv k a'"
proof -
  have keep: "avail_inv k a \<Longrightarrow> \<exists>a'. publish_all a ss = Some a' \<and> avail_inv k a'" for a ss
  proof (induction ss arbitrary: a)
    case (Cons s ss)
    from set_available_total [OF Cons.prems, of s] obtain a1 where a1: "set_available a s = Some a1" ..
    with Cons.IH [OF set_available_inv [OF Cons.prems a1]] show ?case by simp
  qed simp
  from keep [OF assms(1), of "[low..high]"] obtain a' where a': "publish_all a [low..high] = Some a'" "avail_inv k a'"
    by blast
  show ?thesis
  proof (cases "6 \<le> k")
    case True
    have "available_bitmap a \<noteq> []" using word_index_in_range(2) [OF assms(1) True] .
    then show ?thesis
      using a' publish_range_loop [OF assms(1) True assms(2) _ assms(3), of "Suc (nat (high - low + 1))"]
      by (cases "low > high") (auto simp: availability_publish_range_def simp del: poll.simps)
  next
    case False
    with a' legacy_inv [OF assms(1) False] publish_all_legacy [OF assms(1) False] show ?thesis
      by (auto simp: availability_publish_range_def)
  qed
qed

definition example_avail :: availability where
  "example_avail = availability_new 128"

lemma example_avail_inv: "avail_inv 7 example_avail"
  using availability_new_inv [of 7] by (simp add: example_avail_def)

theorem publish_range_equivalent_witness:
  "\<exists>a'. availability_publish_range 31 example_avail 50 79 = Some (Some a') \<and>
     publish_all example_avail [50..79] = Some a' \<and> avail_inv 7 a'"
  using publish_range_equivalent [OF example_avail_inv, of 50 79] by (simp del: poll.simps)

text \<open>
  The scan that consumers rely on is correct in both representations. With the record at rest it
  returns exactly the highest sequence reachable from \<open>next_sequence\<close> over published ones, as the
  reference walk defines it; the bitmap version, which compares up to 64 slots at a time, is thereby
  equivalent to the slot-by-slot version.
\<close>

theorem highest_published_is_reference:
  assumes "avail_inv k a" and "0 \<le> next_sequence" and "next_sequence \<le> available_sequence + 1"
    and "available_sequence < i64_max"
  shows "mp_get_highest_published_sequence (Suc (nat (available_sequence + 1 - next_sequence)))
      (\<lambda>_. a) t next_sequence available_sequence =
    Some (Some (highest_contiguous (avail a) next_sequence available_sequence))"
proof -
  have ok: "scan_ok k (\<lambda>_. a) available_sequence" using assms by (simp add: scan_ok_def)
  show ?thesis
  proof (cases "6 \<le> k")
    case True
    have h: "highest_contiguous (avail a) next_sequence available_sequence = available_sequence"
      if "available_sequence < next_sequence"
      using that assms(3) by (simp add: highest_contiguous_def)
    from bitmap_scan.reference [of k a available_sequence next_sequence t] True ok assms h
    show ?thesis
      using word_index_in_range(2) [OF assms(1) True]
      by (auto simp: mp_get_highest_published_sequence_def get_highest_published_sequence_bitmap_def
          simp del: poll.simps)
  next
    case False
    from legacy_scan.reference [OF ok assms(2,3)] legacy_inv [OF assms(1) False] show ?thesis
      by (simp add: mp_get_highest_published_sequence_def get_highest_published_sequence_legacy_def
          del: poll.simps)
  qed
qed

definition example_published :: availability where
  "example_published =
     (case availability_publish_range 200 example_avail 0 69 of Some (Some a) \<Rightarrow> a | _ \<Rightarrow> example_avail)"

theorem highest_published_is_reference_witness:
  "mp_get_highest_published_sequence 101 (\<lambda>_. example_published) 0 0 99 = Some (Some 69)"
proof -
  have "avail_inv 7 example_published" by code_simp
  moreover have "highest_contiguous (avail example_published) 0 99 = 69" by code_simp
  ultimately show ?thesis
    using highest_published_is_reference [of 7 example_published 0 99 0] by (simp del: poll.simps)
qed

text \<open>
  C9: the scan stays correct while producers publish. Each of its loads may see a later state of the
  record; as long as no published sequence of the range is overwritten while it runs, it returns after
  at most one round per sequence, and what it returns is the highest contiguous published sequence of a
  state the record really had during the scan.
\<close>

theorem highest_published_concurrent:
  assumes "\<forall>u. avail_inv k (tr u)" and "0 \<le> next_sequence" and "next_sequence \<le> available_sequence + 1"
    and "available_sequence < i64_max"
    and "\<forall>s u u'. next_sequence \<le> s \<and> s \<le> available_sequence \<and> t \<le> u \<and> u \<le> u' \<and>
      u' \<le> t + nat (available_sequence + 1 - next_sequence) \<and> avail (tr u) s \<longrightarrow> avail (tr u') s"
  shows "\<exists>m u. mp_get_highest_published_sequence (Suc (nat (available_sequence + 1 - next_sequence)))
      tr t next_sequence available_sequence = Some (Some m) \<and>
    t \<le> u \<and> u \<le> t + nat (available_sequence + 1 - next_sequence) \<and>
    is_highest (avail (tr u)) next_sequence available_sequence m"
proof -
  have inv: "avail_inv k (tr u)" for u using assms(1) by blast
  from highest_published_returns [where tr = tr and t = t, OF inv assms(2-4)] obtain r where
    r: "mp_get_highest_published_sequence (Suc (nat (available_sequence + 1 - next_sequence)))
      tr t next_sequence available_sequence = Some r" by blast
  with highest_published_result [where tr = tr and t = t, OF inv assms(2-4) _ r] assms(5)
  show ?thesis by blast
qed

definition example_traj :: "availability traj" where
  "example_traj t = (if t = 0 then example_avail else example_published)"

theorem highest_published_concurrent_witness:
  "\<exists>m u. mp_get_highest_published_sequence 101 example_traj 0 0 99 = Some (Some m) \<and>
     0 \<le> u \<and> u \<le> 100 \<and> is_highest (avail (example_traj u)) 0 99 m"
proof -
  have "avail_inv 7 example_published" by code_simp
  then have "\<forall>t. avail_inv 7 (example_traj t)"
    using example_avail_inv by (simp add: example_traj_def)
  moreover have "\<not> avail example_avail s" if "0 \<le> s" "s \<le> 99" for s
    using availability_new_unpublished [of 7 s] that by (simp add: example_avail_def)
  then have "\<forall>s u u'. 0 \<le> s \<and> s \<le> 99 \<and> u \<le> u' \<and> u' \<le> 100 \<and> avail (example_traj u) s \<longrightarrow>
      avail (example_traj u') s"
    by (auto simp: example_traj_def)
  ultimately show ?thesis
    using highest_published_concurrent [of 7 example_traj 0 99 0] by (simp del: poll.simps)
qed

text \<open>
  C37: one parity bit per slot is enough. However publications and consumption interleave, a slot that
  is reused round after round is never mistaken for a published one: for every sequence of the current
  window, \<open>is_available\<close> answers, without panicking, exactly whether that sequence has been published.
\<close>

theorem availability_tracks_publication:
  assumes "k \<le> 62" and "(avail_step k)\<^sup>*\<^sup>* (availability_new (2 ^ k), - 1, {}) (a, c, P)"
    and "c < s" and "s \<le> c + 2 ^ k"
  shows "is_available_internal a s = Some (s \<in> P)"
  using avail_reachable_tracks [OF assms(2,1)] assms(3,4) is_available_total [of k a s]
  by (simp add: tracks_def)

theorem availability_tracks_publication_witness:
  "\<exists>a. (avail_step 2)\<^sup>*\<^sup>* (availability_new 4, - 1, {}) (a, 0, {4, 0}) \<and>
       is_available_internal a 4 = Some True \<and> is_available_internal a 1 = Some False"
proof -
  let ?a0 = "availability_new 4"
  let ?a1 = "the (set_available ?a0 0)" and ?a2 = "the (set_available (the (set_available ?a0 0)) 4)"
  have "set_available ?a0 0 \<noteq> None" "set_available ?a1 4 \<noteq> None" by code_simp+
  then have s: "set_available ?a0 0 = Some ?a1" "set_available ?a1 4 = Some ?a2" by auto
  have "avail_step 2 (?a0, - 1, {}) (?a1, - 1, {0})"
    using s(1) by (intro avail_step.publish) simp_all
  moreover have "avail_step 2 (?a1, - 1, {0}) (?a1, 0, {0})"
    by (intro avail_step.consume) auto
  moreover have "avail_step 2 (?a1, 0, {0}) (?a2, 0, {4, 0})"
    using s(2) by (intro avail_step.publish) simp_all
  ultimately have r: "(avail_step 2)\<^sup>*\<^sup>* (?a0, - 1, {}) (?a2, 0, {4, 0})"
    by (meson converse_rtranclp_into_rtranclp rtranclp.rtrancl_refl)
  then have r': "(avail_step 2)\<^sup>*\<^sup>* (availability_new (2 ^ 2), - 1, {}) (?a2, 0, {4, 0})" by simp
  show ?thesis
    using r availability_tracks_publication [OF _ r', of 4] availability_tracks_publication [OF _ r', of 1]
    by auto
qed

end
