(* ===== verification/Multi_Producer.thy ===== *)
theory Multi_Producer
  imports Availability Gating Wait_Strategy
begin

text \<open>
  \<open>MultiProducerSequencer\<close> of \<open>src/disruptor/sequencer.rs\<close>. Producers on several threads claim at the
  same time, so the claim methods are given as machines: the state of a thread inside a method is a
  program point with its local variables, and \<open>mp_step\<close> performs one atomic access (or one local
  decision) of the method. A method run by one thread is the iteration of \<open>mp_step\<close>, with the other
  threads acting in between; the whole system is an interleaving of the threads.
\<close>

section \<open>State\<close>

record mp_seq =
  mp_buffer_size :: usize
  mp_buffer_size_i64 :: i64
  mp_wait_strategy :: wait_strategy
  mp_needs_signal :: bool
  mp_cursor :: seq_ref
  mp_gating :: "seq_ref list"
  mp_avail :: availability
  mp_cached_gating_sequence :: i64
  mp_poisoned :: bool
  mp_closed :: bool
  mp_first_failure :: "failure_record option"
  mp_mem :: store
  mp_signals :: nat

text \<open>\<open>new\<close>; \<open>None\<close> is the panic of the assertion or of \<open>expect\<close>.\<close>

definition mp_new :: "usize \<Rightarrow> wait_strategy \<Rightarrow> seq_ref \<Rightarrow> store \<Rightarrow> mp_seq option" where
  "mp_new buffer_size ws r h =
     (if \<not> is_power_of_two buffer_size then None
      else case i64_try_from buffer_size of
        None \<Rightarrow> None
      | Some n \<Rightarrow> Some
         \<lparr>mp_buffer_size = buffer_size, mp_buffer_size_i64 = n, mp_wait_strategy = ws,
          mp_needs_signal = needs_signal ws, mp_cursor = r, mp_gating = [],
          mp_avail = availability_new buffer_size, mp_cached_gating_sequence = - 1,
          mp_poisoned = False, mp_closed = False, mp_first_failure = None,
          mp_mem = seq_new_with_initial_value r h, mp_signals = 0\<rparr>)"

section \<open>The claim methods as machines\<close>

text \<open>
  Program points. \<open>N\<close>: \<open>next_n\<close>, in the order of its loop; \<open>T\<close>: \<open>try_next_n\<close>; \<open>H\<close>:
  \<open>has_available_capacity\<close>; \<open>C\<close>: \<open>has_available_capacity_internal\<close>, shared by the latter two, with
  what to do afterwards as its mode.
\<close>

datatype cap_mode = ForClaim i64 | Query

datatype mp_pc =
    NClosed i64
  | NPoisoned i64
  | NCursor i64
  | NCached i64 i64
  | NGuard i64 i64
  | NScan i64 i64 "seq_ref list" i64
  | NStore i64 i64 i64
  | NCas i64 i64
  | NDone "i64 result"
  | TClosed i64
  | TPoisoned i64
  | TCursor i64
  | TGuard i64 i64
  | TCas i64 i64
  | TDone "i64 option"
  | HGuard usize
  | HCursor usize "seq_ref list"
  | HDone bool
  | CCached cap_mode usize i64 "seq_ref list"
  | CScan cap_mode i64 i64 "seq_ref list" i64
  | CStore cap_mode i64 i64 i64
  | Panicked

definition mp_next_n_start :: "mp_seq \<Rightarrow> i64 \<Rightarrow> mp_pc" where
  "mp_next_n_start s n =
     (if n < 1 \<or> n > mp_buffer_size_i64 s then NDone (Err (InvalidSequence n)) else NClosed n)"

definition mp_try_next_n_start :: "mp_seq \<Rightarrow> i64 \<Rightarrow> mp_pc" where
  "mp_try_next_n_start s n =
     (if n < 1 \<or> n > mp_buffer_size_i64 s then TDone None else TClosed n)"

definition wrap_point :: "mp_seq \<Rightarrow> i64 \<Rightarrow> i64 \<Rightarrow> i64" where
  "wrap_point s current n = sub_i64 (add_i64 current n) (mp_buffer_size_i64 s)"

text \<open>The capacity check has come to an answer.\<close>

definition cap_answer :: "cap_mode \<Rightarrow> i64 \<Rightarrow> bool \<Rightarrow> mp_pc" where
  "cap_answer mode current b =
     (case mode of
        Query \<Rightarrow> HDone b
      | ForClaim n \<Rightarrow> if b then TCas n current else TDone None)"

fun mp_step :: "mp_seq \<Rightarrow> mp_pc \<Rightarrow> mp_seq \<times> mp_pc" where
  "mp_step s (NClosed n) = (s, if mp_closed s then NDone (Err Shutdown) else NPoisoned n)"
| "mp_step s (NPoisoned n) = (s, if mp_poisoned s then NDone (Err Poisoned) else NCursor n)"
| "mp_step s (NCursor n) = (s, NCached n (seq_get (mp_mem s) (mp_cursor s)))"
| "mp_step s (NCached n current) =
     (let cached = mp_cached_gating_sequence s
      in (s, if wrap_point s current n > cached \<or> cached > current then NGuard n current
             else NCas n current))"
| "mp_step s (NGuard n current) = (s, NScan n current (mp_gating s) current)"
| "mp_step s (NScan n current (r # rs) m) =
     (let v = seq_get (mp_mem s) r in (s, NScan n current rs (if v < m then v else m)))"
| "mp_step s (NScan n current [] m) =
     (s, if wrap_point s current n > m then NClosed n else NStore n current m)"
| "mp_step s (NStore n current m) = (s\<lparr>mp_cached_gating_sequence := m\<rparr>, NCas n current)"
| "mp_step s (NCas n current) =
     (let (ok, h) = compare_and_set (mp_cursor s) current (add_i64 current n) (mp_mem s)
      in (s\<lparr>mp_mem := h\<rparr>, if ok then NDone (Ok (add_i64 current n)) else NClosed n))"
| "mp_step s (TClosed n) = (s, if mp_closed s then TDone None else TPoisoned n)"
| "mp_step s (TPoisoned n) = (s, if mp_poisoned s then TDone None else TCursor n)"
| "mp_step s (TCursor n) = (s, TGuard n (seq_get (mp_mem s) (mp_cursor s)))"
| "mp_step s (TGuard n current) =
     (s, case usize_try_from n of
           None \<Rightarrow> TDone None
         | Some required \<Rightarrow> CCached (ForClaim n) required current (mp_gating s))"
| "mp_step s (TCas n current) =
     (let (ok, h) = compare_and_set (mp_cursor s) current (add_i64 current n) (mp_mem s)
      in (s\<lparr>mp_mem := h\<rparr>, TDone (if ok then Some (add_i64 current n) else None)))"
| "mp_step s (HGuard required) = (s, HCursor required (mp_gating s))"
| "mp_step s (HCursor required guard) =
     (s, CCached Query required (seq_get (mp_mem s) (mp_cursor s)) guard)"
| "mp_step s (CCached mode required current guard) =
     (s, case i64_try_from required of
           None \<Rightarrow> Panicked
         | Some n \<Rightarrow>
             let cached = mp_cached_gating_sequence s
             in if wrap_point s current n > cached \<or> cached > current
                then CScan mode n current guard current
                else cap_answer mode current True)"
| "mp_step s (CScan mode n current (r # rs) m) =
     (let v = seq_get (mp_mem s) r in (s, CScan mode n current rs (if v < m then v else m)))"
| "mp_step s (CScan mode n current [] m) = (s, CStore mode n current m)"
| "mp_step s (CStore mode n current m) =
     (s\<lparr>mp_cached_gating_sequence := m\<rparr>, cap_answer mode current (\<not> wrap_point s current n > m))"
| "mp_step s (NDone r) = (s, NDone r)"
| "mp_step s (TDone r) = (s, TDone r)"
| "mp_step s (HDone r) = (s, HDone r)"
| "mp_step s Panicked = (s, Panicked)"

text \<open>
  A method run by one thread: \<open>others i\<close> is what the other threads do to the sequencer before the
  \<open>i\<close>-th step of this one. \<open>None\<close>: the method has not returned within the fuel.
\<close>

fun mp_run :: "nat \<Rightarrow> (nat \<Rightarrow> mp_seq \<Rightarrow> mp_seq) \<Rightarrow> nat \<Rightarrow> mp_seq \<Rightarrow> mp_pc \<Rightarrow> (mp_pc \<times> mp_seq) option" where
  "mp_run fuel others i s (NDone r) = Some (NDone r, s)"
| "mp_run fuel others i s (TDone r) = Some (TDone r, s)"
| "mp_run fuel others i s (HDone r) = Some (HDone r, s)"
| "mp_run fuel others i s Panicked = Some (Panicked, s)"
| "mp_run 0 others i s pc = None"
| "mp_run (Suc fuel) others i s pc =
     (let (s', pc') = mp_step (others i s) pc in mp_run fuel others (Suc i) s' pc')"

definition mp_next_n :: "nat \<Rightarrow> (nat \<Rightarrow> mp_seq \<Rightarrow> mp_seq) \<Rightarrow> mp_seq \<Rightarrow> i64 \<Rightarrow> (mp_pc \<times> mp_seq) option" where
  "mp_next_n fuel others s n = mp_run fuel others 0 s (mp_next_n_start s n)"

definition mp_try_next_n :: "nat \<Rightarrow> (nat \<Rightarrow> mp_seq \<Rightarrow> mp_seq) \<Rightarrow> mp_seq \<Rightarrow> i64 \<Rightarrow> (mp_pc \<times> mp_seq) option" where
  "mp_try_next_n fuel others s n = mp_run fuel others 0 s (mp_try_next_n_start s n)"

definition mp_next :: "nat \<Rightarrow> (nat \<Rightarrow> mp_seq \<Rightarrow> mp_seq) \<Rightarrow> mp_seq \<Rightarrow> (mp_pc \<times> mp_seq) option" where
  "mp_next fuel others s = mp_next_n fuel others s 1"

definition mp_try_next :: "nat \<Rightarrow> (nat \<Rightarrow> mp_seq \<Rightarrow> mp_seq) \<Rightarrow> mp_seq \<Rightarrow> (mp_pc \<times> mp_seq) option" where
  "mp_try_next fuel others s = mp_try_next_n fuel others s 1"

definition mp_has_available_capacity ::
    "nat \<Rightarrow> (nat \<Rightarrow> mp_seq \<Rightarrow> mp_seq) \<Rightarrow> mp_seq \<Rightarrow> usize \<Rightarrow> (mp_pc \<times> mp_seq) option" where
  "mp_has_available_capacity fuel others s required = mp_run fuel others 0 s (HGuard required)"

section \<open>Publication, capacity and lifecycle\<close>

definition mp_signal :: "mp_seq \<Rightarrow> mp_seq" where
  "mp_signal s = s\<lparr>mp_signals := signal_all_when_blocking (mp_wait_strategy s) (mp_signals s)\<rparr>"

definition mp_publish :: "i64 \<Rightarrow> mp_seq \<Rightarrow> mp_seq option" where
  "mp_publish sequence s =
     (case set_available (mp_avail s) sequence of
        None \<Rightarrow> None
      | Some a \<Rightarrow>
          let s' = s\<lparr>mp_avail := a\<rparr> in Some (if mp_needs_signal s then mp_signal s' else s'))"

definition mp_publish_range :: "nat \<Rightarrow> i64 \<Rightarrow> i64 \<Rightarrow> mp_seq \<Rightarrow> mp_seq option option" where
  "mp_publish_range fuel low high s =
     (if low > high then Some (Some s)
      else case availability_publish_range fuel (mp_avail s) low high of
        None \<Rightarrow> None
      | Some None \<Rightarrow> Some None
      | Some (Some a) \<Rightarrow>
          let s' = s\<lparr>mp_avail := a\<rparr> in Some (Some (if mp_needs_signal s then mp_signal s' else s')))"

definition mp_is_available :: "i64 \<Rightarrow> mp_seq \<Rightarrow> bool option" where
  "mp_is_available sequence s = is_available_internal (mp_avail s) sequence"

definition mp_get_cursor :: "mp_seq \<Rightarrow> seq_ref" where
  "mp_get_cursor s = mp_cursor s"

definition mp_get_buffer_size :: "mp_seq \<Rightarrow> usize" where
  "mp_get_buffer_size s = mp_buffer_size s"

definition mp_remaining_capacity :: "mp_seq traj \<Rightarrow> nat \<Rightarrow> i64" where
  "mp_remaining_capacity tr t =
     (let next_value = seq_get (mp_mem (tr t)) (mp_cursor (tr t));
          guard = mp_gating (tr (Suc t));
          consumed = get_minimum_sequence_with_default (\<lambda>i. mp_mem (tr i)) (Suc (Suc t)) guard next_value;
          used_capacity = saturating_sub_i64 next_value consumed
      in saturating_sub_i64 (mp_buffer_size_i64 (tr t)) used_capacity)"

definition mp_get_minimum_sequence :: "mp_seq traj \<Rightarrow> nat \<Rightarrow> i64" where
  "mp_get_minimum_sequence tr t =
     get_minimum_sequence (\<lambda>i. mp_mem (tr i)) (Suc t) (mp_gating (tr t))"

definition mp_add_gating_sequences ::
    "((seq_ref list \<Rightarrow> seq_ref list) \<Rightarrow> seq_ref list \<Rightarrow> seq_ref list) \<Rightarrow> seq_ref list \<Rightarrow> mp_seq \<Rightarrow> mp_seq" where
  "mp_add_gating_sequences rcu rs s = s\<lparr>mp_gating := add_gating_sequences_rcu rcu (mp_gating s) rs\<rparr>"

definition mp_remove_gating_sequence ::
    "snapshot_cas \<Rightarrow> nat \<Rightarrow> seq_ref \<Rightarrow> mp_seq \<Rightarrow> (bool \<times> mp_seq) option" where
  "mp_remove_gating_sequence cas k r s =
     map_option (\<lambda>(b, c). (b, s\<lparr>mp_gating := snd c\<rparr>))
       (remove_gating_sequence_cas cas [\<lambda>c. c] r (k, mp_gating s) (k, mp_gating s))"

definition mp_poison :: "mp_seq \<Rightarrow> mp_seq" where
  "mp_poison s = mp_signal (s\<lparr>mp_poisoned := True\<rparr>)"

definition mp_is_poisoned :: "mp_seq \<Rightarrow> bool" where
  "mp_is_poisoned s = mp_poisoned s"

definition mp_record_failure :: "failure_record \<Rightarrow> mp_seq \<Rightarrow> mp_seq" where
  "mp_record_failure f s =
     (if mp_first_failure s = None then s\<lparr>mp_first_failure := Some f\<rparr> else s)"

definition mp_close :: "mp_seq \<Rightarrow> mp_seq" where
  "mp_close s = mp_signal (s\<lparr>mp_closed := True\<rparr>)"

definition mp_is_closed :: "mp_seq \<Rightarrow> bool" where
  "mp_is_closed s = mp_closed s"

definition mp_reopen :: "mp_seq \<Rightarrow> mp_seq" where
  "mp_reopen s = s\<lparr>mp_closed := False\<rparr>"

section \<open>Invariants\<close>

abbreviation cursor_of :: "mp_seq \<Rightarrow> i64" where
  "cursor_of s \<equiv> mp_mem s (mp_cursor s)"

text \<open>\<open>m\<close> is behind every consumer.\<close>

definition below :: "mp_seq \<Rightarrow> i64 \<Rightarrow> bool" where
  "below s m \<longleftrightarrow> (\<forall>g\<in>set (mp_gating s). m \<le> mp_mem s g)"

definition mp_inv :: "nat \<Rightarrow> mp_seq \<Rightarrow> bool" where
  "mp_inv k s \<longleftrightarrow>
     k \<le> 62 \<and> mp_buffer_size s = 2 ^ k \<and> mp_buffer_size_i64 s = 2 ^ k \<and> avail_inv k (mp_avail s) \<and>
     - 1 \<le> cursor_of s \<and> mp_cursor s \<notin> set (mp_gating s) \<and>
     below s (mp_cached_gating_sequence s) \<and> below s (cursor_of s - 2 ^ k)"

definition mp_room :: "nat \<Rightarrow> mp_seq \<Rightarrow> bool" where
  "mp_room k s \<longleftrightarrow> cursor_of s + 2 ^ k \<le> i64_max"

text \<open>What a thread knows at each program point, and keeps knowing whatever the others do.\<close>

definition n_ok :: "nat \<Rightarrow> i64 \<Rightarrow> bool" where
  "n_ok k n \<longleftrightarrow> 1 \<le> n \<and> n \<le> 2 ^ k"

definition cur_ok :: "mp_seq \<Rightarrow> i64 \<Rightarrow> bool" where
  "cur_ok s c \<longleftrightarrow> - 1 \<le> c \<and> c \<le> cursor_of s"

definition scanned :: "mp_seq \<Rightarrow> seq_ref list \<Rightarrow> i64 \<Rightarrow> bool" where
  "scanned s rs m \<longleftrightarrow> (\<forall>g\<in>set (mp_gating s). g \<in> set rs \<or> m \<le> mp_mem s g)"

fun mode_ok :: "nat \<Rightarrow> cap_mode \<Rightarrow> i64 \<Rightarrow> bool" where
  "mode_ok k Query x = True"
| "mode_ok k (ForClaim n) x = (n_ok k n \<and> x = n)"

fun pc_ok :: "nat \<Rightarrow> mp_seq \<Rightarrow> mp_pc \<Rightarrow> bool" where
  "pc_ok k s (NClosed n) = n_ok k n"
| "pc_ok k s (NPoisoned n) = n_ok k n"
| "pc_ok k s (NCursor n) = n_ok k n"
| "pc_ok k s (NCached n c) = (n_ok k n \<and> cur_ok s c)"
| "pc_ok k s (NGuard n c) = (n_ok k n \<and> cur_ok s c)"
| "pc_ok k s (NScan n c rs m) = (n_ok k n \<and> cur_ok s c \<and> scanned s rs m)"
| "pc_ok k s (NStore n c m) = (n_ok k n \<and> cur_ok s c \<and> below s m \<and> c + n - 2 ^ k \<le> m)"
| "pc_ok k s (NCas n c) = (n_ok k n \<and> cur_ok s c \<and> below s (c + n - 2 ^ k))"
| "pc_ok k s (NDone r) = True"
| "pc_ok k s (TClosed n) = n_ok k n"
| "pc_ok k s (TPoisoned n) = n_ok k n"
| "pc_ok k s (TCursor n) = n_ok k n"
| "pc_ok k s (TGuard n c) = (n_ok k n \<and> cur_ok s c)"
| "pc_ok k s (TCas n c) = (n_ok k n \<and> cur_ok s c \<and> below s (c + n - 2 ^ k))"
| "pc_ok k s (TDone r) = True"
| "pc_ok k s (HGuard required) = True"
| "pc_ok k s (HCursor required guard) = (set (mp_gating s) \<subseteq> set guard)"
| "pc_ok k s (HDone b) = True"
| "pc_ok k s (CCached mode required c guard) =
     (mode_ok k mode (int required) \<and> cur_ok s c \<and> set (mp_gating s) \<subseteq> set guard)"
| "pc_ok k s (CScan mode n c rs m) = (mode_ok k mode n \<and> cur_ok s c \<and> scanned s rs m)"
| "pc_ok k s (CStore mode n c m) = (mode_ok k mode n \<and> cur_ok s c \<and> below s m)"
| "pc_ok k s Panicked = True"

text \<open>Progress of the shared state: no sequence moves back, no consumer is added.\<close>

definition mp_progress :: "mp_seq \<Rightarrow> mp_seq \<Rightarrow> bool" where
  "mp_progress s s' \<longleftrightarrow>
     set (mp_gating s') \<subseteq> set (mp_gating s) \<and> cursor_of s \<le> cursor_of s' \<and>
     (\<forall>g\<in>set (mp_gating s'). mp_mem s g \<le> mp_mem s' g)"

lemma below_progress: "mp_progress s s' \<Longrightarrow> below s m \<Longrightarrow> below s' m"
  by (force simp: mp_progress_def below_def)

lemma below_mono: "below s m \<Longrightarrow> m' \<le> m \<Longrightarrow> below s m'"
  by (force simp: below_def)

lemma cur_ok_progress: "mp_progress s s' \<Longrightarrow> cur_ok s c \<Longrightarrow> cur_ok s' c"
  by (auto simp: mp_progress_def cur_ok_def)

lemma scanned_progress: "mp_progress s s' \<Longrightarrow> scanned s rs m \<Longrightarrow> scanned s' rs m"
  by (force simp: mp_progress_def scanned_def)

lemma pc_ok_progress: "mp_progress s s' \<Longrightarrow> pc_ok k s pc \<Longrightarrow> pc_ok k s' pc"
  by (cases pc) (auto simp: below_progress cur_ok_progress scanned_progress, auto simp: mp_progress_def)

lemma mp_progress_refl [simp]: "mp_progress s s"
  by (simp add: mp_progress_def)

lemma scanned_Nil: "scanned s [] m = below s m"
  by (simp add: scanned_def below_def)

lemma scanned_gating: "set (mp_gating s) \<subseteq> set rs \<Longrightarrow> scanned s rs m"
  by (auto simp: scanned_def)

lemma scanned_step:
  "scanned s (r # rs) m \<Longrightarrow> scanned s rs (if mp_mem s r < m then mp_mem s r else m)"
  by (force simp: scanned_def)

lemma wrap_point_eq:
  assumes "mp_inv k s" and "mp_room k s" and "cur_ok s c" and "n_ok k n"
  shows "wrap_point s c n = c + n - 2 ^ k" and "add_i64 c n = c + n"
proof -
  have sz: "mp_buffer_size_i64 s = 2 ^ k" and k: "k \<le> 62" using assms(1) by (simp_all add: mp_inv_def)
  have le: "(2 :: int) ^ k \<le> 2 ^ 62" using k by (intro power_increasing) simp_all
  show a: "add_i64 c n = c + n"
    using assms(2-4) by (intro add_i64_id) (auto simp: in_i64_def mp_room_def cur_ok_def n_ok_def)
  have "in_i64 (c + n - 2 ^ k)"
    using assms(2-4) le by (auto simp: in_i64_def mp_room_def cur_ok_def n_ok_def)
  with a show "wrap_point s c n = c + n - 2 ^ k" by (simp add: wrap_point_def sz sub_i64_id)
qed

lemma mp_next_n_start_ok: "mp_inv k s \<Longrightarrow> pc_ok k s (mp_next_n_start s n)"
  "mp_inv k s \<Longrightarrow> pc_ok k s (mp_try_next_n_start s n)"
  by (auto simp: mp_next_n_start_def mp_try_next_n_start_def n_ok_def mp_inv_def)

text \<open>The sequences a step claims.\<close>

fun claimed_by :: "mp_pc \<Rightarrow> mp_pc \<Rightarrow> (i64 \<times> i64) list" where
  "claimed_by (NCas n c) (NDone (Inr hi)) = [(c + 1, hi)]"
| "claimed_by (TCas n c) (TDone (Some hi)) = [(c + 1, hi)]"
| "claimed_by _ _ = []"

lemma cas_step:
  assumes "mp_inv k s" and "mp_room k s" and "n_ok k n" and "cur_ok s c" and "below s (c + n - 2 ^ k)"
    and "compare_and_set (mp_cursor s) c (add_i64 c n) (mp_mem s) = (ok, h)"
  shows "mp_inv k (s\<lparr>mp_mem := h\<rparr>)" and "mp_progress s (s\<lparr>mp_mem := h\<rparr>)"
    and "ok = (c = cursor_of s)" and "h (mp_cursor s) = (if ok then c + n else cursor_of s)"
proof -
  have a: "add_i64 c n = c + n" using wrap_point_eq(2) [OF assms(1,2,4,3)] .
  from assms(6) have ok: "ok = (c = cursor_of s)" and h: "h = (if ok then (mp_mem s)(mp_cursor s := c + n) else mp_mem s)"
    by (auto simp: compare_and_set_def a split: if_splits)
  show "ok = (c = cursor_of s)" by (rule ok)
  show "h (mp_cursor s) = (if ok then c + n else cursor_of s)" by (simp add: h)
  have nc: "g \<in> set (mp_gating s) \<Longrightarrow> g \<noteq> mp_cursor s" for g using assms(1) by (auto simp: mp_inv_def)
  show "mp_progress s (s\<lparr>mp_mem := h\<rparr>)"
    using assms(3) ok nc by (auto simp: mp_progress_def h n_ok_def)
  show "mp_inv k (s\<lparr>mp_mem := h\<rparr>)"
    using assms(1,3,4,5) ok nc by (auto simp: mp_inv_def h below_def n_ok_def cur_ok_def)
qed

lemma store_cached:
  "mp_inv k s \<Longrightarrow> below s m \<Longrightarrow> mp_inv k (s\<lparr>mp_cached_gating_sequence := m\<rparr>)"
  "mp_progress s (s\<lparr>mp_cached_gating_sequence := m\<rparr>)"
  "pc_ok k (s\<lparr>mp_cached_gating_sequence := m\<rparr>) pc = pc_ok k s pc"
  by (simp_all add: mp_inv_def below_def mp_progress_def)
    (cases pc; simp add: below_def cur_ok_def scanned_def)

lemma cap_answer_ok:
  assumes "mode_ok k mode n" and "cur_ok s c" and "b \<Longrightarrow> n_ok k n \<Longrightarrow> below s (c + n - 2 ^ k)"
  shows "pc_ok k s (cap_answer mode c b)"
  using assms by (cases mode) (auto simp: cap_answer_def)

lemma claimed_by_Nil [simp]:
  "claimed_by pc (cap_answer mode c b) = []" if "\<forall>n c. pc \<noteq> TCas n c"
  using that by (cases pc; cases mode) (auto simp: cap_answer_def)

text \<open>What a step does to the cursor: nothing, or it claims the range right behind it.\<close>

definition claims_next :: "nat \<Rightarrow> mp_seq \<Rightarrow> mp_seq \<Rightarrow> (i64 \<times> i64) list \<Rightarrow> bool" where
  "claims_next k s s' ls \<longleftrightarrow>
     (ls = [] \<and> cursor_of s' = cursor_of s) \<or>
     (\<exists>hi. ls = [(cursor_of s + 1, hi)] \<and> cursor_of s < hi \<and> hi \<le> cursor_of s + 2 ^ k \<and> cursor_of s' = hi)"

lemma claims_nothing [simp]: "claims_next k s s []"
  "claims_next k s (s\<lparr>mp_cached_gating_sequence := m\<rparr>) []"
  by (simp_all add: claims_next_def)

definition step_ok :: "nat \<Rightarrow> mp_seq \<Rightarrow> mp_pc \<Rightarrow> mp_seq \<Rightarrow> mp_pc \<Rightarrow> bool" where
  "step_ok k s pc s' pc' \<longleftrightarrow>
     mp_inv k s' \<and> mp_progress s s' \<and> pc_ok k s' pc' \<and> claims_next k s s' (claimed_by pc pc')"

lemma step_ok_local:
  "mp_inv k s \<Longrightarrow> pc_ok k s pc' \<Longrightarrow> claimed_by pc pc' = [] \<Longrightarrow> step_ok k s pc s pc'"
  by (simp add: step_ok_def)

lemma mp_step_ok:
  assumes inv: "mp_inv k s" and room: "mp_room k s" and pc: "pc_ok k s pc"
    and step: "mp_step s pc = (s', pc')"
  shows "step_ok k s pc s' pc'"
proof -
  have cached: "below s (mp_cached_gating_sequence s)" using inv by (simp add: mp_inv_def)
  have cur: "cur_ok s (cursor_of s)" using inv by (simp add: cur_ok_def mp_inv_def)
  note arith = wrap_point_eq [OF inv room]
  show ?thesis
  proof (cases pc)
    case (NCached n c)
    with inv pc step arith(1) [of c n] cached show ?thesis
      by (auto simp: Let_def not_less intro!: step_ok_local split: if_splits elim: below_mono)
  next
    case (NGuard n c)
    with inv pc step show ?thesis by (auto intro!: step_ok_local scanned_gating)
  next
    case (NScan n c rs m)
    with inv pc step arith(1) [of c n] show ?thesis
      by (cases rs) (auto simp: Let_def seq_get_def scanned_Nil not_less intro!: step_ok_local
          dest: scanned_step split: if_splits)
  next
    case (NStore n c m)
    with inv pc step store_cached(1) [of k s m] store_cached(2) [of s m] store_cached(3) inv show ?thesis
      by (auto simp: step_ok_def store_cached(3) simp del: pc_ok.simps) (auto elim: below_mono)
  next
    case (NCas n c)
    obtain ok h where cas: "compare_and_set (mp_cursor s) c (add_i64 c n) (mp_mem s) = (ok, h)" by fastforce
    from NCas pc have n: "n_ok k n" and c: "cur_ok s c" and b: "below s (c + n - 2 ^ k)" by simp_all
    note cs = cas_step [OF inv room n c b cas]
    from NCas step cas arith(2) [OF c n] have "s' = s\<lparr>mp_mem := h\<rparr>"
      "pc' = (if ok then NDone (Ok (c + n)) else NClosed n)" by auto
    with NCas cs n show ?thesis by (auto simp: step_ok_def claims_next_def n_ok_def)
  next
    case (TCas n c)
    obtain ok h where cas: "compare_and_set (mp_cursor s) c (add_i64 c n) (mp_mem s) = (ok, h)" by fastforce
    from TCas pc have n: "n_ok k n" and c: "cur_ok s c" and b: "below s (c + n - 2 ^ k)" by simp_all
    note cs = cas_step [OF inv room n c b cas]
    from TCas step cas arith(2) [OF c n] have "s' = s\<lparr>mp_mem := h\<rparr>"
      "pc' = TDone (if ok then Some (c + n) else None)" by auto
    with TCas cs n show ?thesis by (auto simp: step_ok_def claims_next_def n_ok_def)
  next
    case (TGuard n c)
    with inv pc step show ?thesis
      by (auto simp: usize_try_from_def n_ok_def intro!: step_ok_local split: if_splits)
  next
    case (HCursor required guard)
    with inv pc step cur show ?thesis by (auto simp: seq_get_def intro!: step_ok_local)
  next
    case (CCached mode required c guard)
    have "pc_ok k s (cap_answer mode c True)" if "\<not> wrap_point s c (int required) > mp_cached_gating_sequence s"
      using that pc CCached arith(1) [of c "int required"] cached
      by (intro cap_answer_ok [of k mode "int required"]) (auto intro: below_mono)
    with inv CCached pc step show ?thesis
      by (auto simp: Let_def i64_try_from_def intro!: step_ok_local scanned_gating split: if_splits)
  next
    case (CScan mode n c rs m)
    with inv pc step show ?thesis
      by (cases rs) (auto simp: Let_def seq_get_def scanned_Nil intro!: step_ok_local dest: scanned_step)
  next
    case (CStore mode n c m)
    with pc have m: "below s m" and c: "cur_ok s c" and md: "mode_ok k mode n" by simp_all
    have "pc_ok k s (cap_answer mode c (\<not> wrap_point s c n > m))"
      using arith(1) [OF c] m by (intro cap_answer_ok [OF md c]) (auto intro: below_mono)
    with CStore step store_cached(1) [of k s m] store_cached(2) [of s m] store_cached(3) inv m show ?thesis
      by (auto simp: step_ok_def)
  qed (use inv pc step cur in \<open>auto simp: seq_get_def intro!: step_ok_local\<close>)
qed

section \<open>The whole system\<close>

text \<open>
  Any number of producer threads, the consumers and whoever closes or poisons the sequencer, one
  atomic step at a time. Besides the sequencer and the program points, the state has the ranges
  claimed so far and the sequences published so far. Consumers move over published sequences only
  (\<open>SequenceBarrier\<close>); the gating list is set up before the producers start.
\<close>

record mp_sys =
  ms_seq :: mp_seq
  ms_threads :: "nat \<Rightarrow> mp_pc"
  ms_log :: "(i64 \<times> i64) list"
  ms_published :: "i64 set"

fun finished :: "mp_pc \<Rightarrow> bool" where
  "finished (NDone _) = True"
| "finished (TDone _) = True"
| "finished (HDone _) = True"
| "finished _ = False"

inductive mp_sys_step :: "nat \<Rightarrow> mp_sys \<Rightarrow> mp_sys \<Rightarrow> bool" for k where
  start: "finished (ms_threads w i) \<Longrightarrow>
    pc \<in> {mp_next_n_start (ms_seq w) n, mp_try_next_n_start (ms_seq w) n, HGuard m} \<Longrightarrow>
    mp_sys_step k w (w\<lparr>ms_threads := (ms_threads w)(i := pc)\<rparr>)"
| run: "mp_room k (ms_seq w) \<Longrightarrow> mp_step (ms_seq w) (ms_threads w i) = (s', pc') \<Longrightarrow>
    mp_sys_step k w (w\<lparr>ms_seq := s', ms_threads := (ms_threads w)(i := pc'),
      ms_log := ms_log w @ claimed_by (ms_threads w i) pc'\<rparr>)"
| publish: "0 \<le> q \<Longrightarrow> q \<le> cursor_of (ms_seq w) \<Longrightarrow> q \<notin> ms_published w \<Longrightarrow> mp_publish q (ms_seq w) = Some s' \<Longrightarrow>
    mp_sys_step k w (w\<lparr>ms_seq := s', ms_published := insert q (ms_published w)\<rparr>)"
| consume: "g \<in> set (mp_gating (ms_seq w)) \<Longrightarrow> mp_mem (ms_seq w) g \<le> v \<Longrightarrow>
    \<forall>q. mp_mem (ms_seq w) g < q \<and> q \<le> v \<longrightarrow> q \<in> ms_published w \<Longrightarrow>
    mp_sys_step k w (w\<lparr>ms_seq := (ms_seq w)\<lparr>mp_mem := seq_set g v (mp_mem (ms_seq w))\<rparr>\<rparr>)"
| lifecycle: "f \<in> {mp_close, mp_reopen, mp_poison, mp_record_failure fr} \<Longrightarrow>
    mp_sys_step k w (w\<lparr>ms_seq := f (ms_seq w)\<rparr>)"

text \<open>The slowest consumer.\<close>

definition slowest :: "mp_seq \<Rightarrow> i64" where
  "slowest s = Min (mp_mem s ` set (mp_gating s))"

definition claimed_seqs :: "(i64 \<times> i64) list \<Rightarrow> i64 list" where
  "claimed_seqs log = concat (map (\<lambda>(lo, hi). [lo..hi]) log)"

definition mp_sys_inv :: "nat \<Rightarrow> mp_sys \<Rightarrow> bool" where
  "mp_sys_inv k w \<longleftrightarrow>
     mp_inv k (ms_seq w) \<and> (\<forall>i. pc_ok k (ms_seq w) (ms_threads w i)) \<and> mp_gating (ms_seq w) \<noteq> [] \<and>
     claimed_seqs (ms_log w) = [0..cursor_of (ms_seq w)] \<and>
     (\<forall>q\<in>ms_published w. 0 \<le> q \<and> q \<le> cursor_of (ms_seq w)) \<and>
     (\<forall>g\<in>set (mp_gating (ms_seq w)). \<forall>q. 0 \<le> q \<and> q \<le> mp_mem (ms_seq w) g \<longrightarrow> q \<in> ms_published w) \<and>
     - 1 \<le> slowest (ms_seq w) \<and>
     tracks avail (2 ^ k) (mp_avail (ms_seq w)) (slowest (ms_seq w)) (ms_published w)"

lemma slowest_le: "g \<in> set (mp_gating s) \<Longrightarrow> slowest s \<le> mp_mem s g"
  by (simp add: slowest_def)

lemma slowest_attained: "mp_gating s \<noteq> [] \<Longrightarrow> \<exists>g\<in>set (mp_gating s). slowest s = mp_mem s g"
  unfolding slowest_def by (metis (no_types, lifting) List.finite_set Min_in finite_imageI image_iff
      image_is_empty set_empty)

lemma slowest_ge: "mp_gating s \<noteq> [] \<Longrightarrow> below s m \<Longrightarrow> m \<le> slowest s"
  using slowest_attained [of s] by (auto simp: below_def)

lemma mp_frame_defs:
  "mp_mem (mp_signal s) = mp_mem s" "mp_gating (mp_signal s) = mp_gating s" "mp_cursor (mp_signal s) = mp_cursor s"
  "mp_avail (mp_signal s) = mp_avail s" "mp_buffer_size (mp_signal s) = mp_buffer_size s"
  "mp_buffer_size_i64 (mp_signal s) = mp_buffer_size_i64 s"
  "mp_cached_gating_sequence (mp_signal s) = mp_cached_gating_sequence s"
  by (simp_all add: mp_signal_def)

text \<open>Steps that leave the sequences and the claim state alone.\<close>

lemma same_view:
  assumes "mp_mem s' = mp_mem s" and "mp_gating s' = mp_gating s" and "mp_cursor s' = mp_cursor s"
  shows "mp_progress s s'" and "slowest s' = slowest s" and "below s' m = below s m"
  using assms by (simp_all add: mp_progress_def slowest_def below_def)

lemma mp_step_frame:
  assumes "mp_step s pc = (s', pc')"
  shows "mp_gating s' = mp_gating s" and "mp_cursor s' = mp_cursor s" and "mp_avail s' = mp_avail s"
    and "r \<noteq> mp_cursor s \<Longrightarrow> mp_mem s' r = mp_mem s r"
  using assms
  by (induction s pc rule: mp_step.induct)
    (auto simp: Let_def compare_and_set_def split: if_splits)

lemma claimed_seqs_snoc:
  assumes "claimed_seqs log = [0..c]" and "- 1 \<le> c" and "c < hi"
  shows "claimed_seqs (log @ [(c + 1, hi)]) = [0..hi]"
proof -
  have "[0..c] @ [c + 1..hi] = [0..hi]"
    using assms(2,3) upto_split2 [of 0 c hi] by (cases "c = - 1") simp_all
  with assms(1) show ?thesis by (simp add: claimed_seqs_def)
qed

lemma mp_sys_run_inv:
  assumes inv: "mp_sys_inv k w" and room: "mp_room k (ms_seq w)"
    and step: "mp_step (ms_seq w) (ms_threads w i) = (s', pc')"
  shows "mp_sys_inv k (w\<lparr>ms_seq := s', ms_threads := (ms_threads w)(i := pc'),
      ms_log := ms_log w @ claimed_by (ms_threads w i) pc'\<rparr>)"
proof -
  let ?s = "ms_seq w"
  from inv have i: "mp_inv k ?s" and pcs: "\<And>i. pc_ok k ?s (ms_threads w i)" and ne: "mp_gating ?s \<noteq> []"
    and log: "claimed_seqs (ms_log w) = [0..cursor_of ?s]" by (auto simp: mp_sys_inv_def)
  from mp_step_ok [OF i room pcs step]
  have s': "mp_inv k s'" "mp_progress ?s s'" "pc_ok k s' pc'"
    and cl: "claims_next k ?s s' (claimed_by (ms_threads w i) pc')"
    by (simp_all add: step_ok_def)
  note fr = mp_step_frame [OF step]
  have nc: "g \<in> set (mp_gating ?s) \<Longrightarrow> g \<noteq> mp_cursor ?s" for g using i by (auto simp: mp_inv_def)
  then have mem: "g \<in> set (mp_gating ?s) \<Longrightarrow> mp_mem s' g = mp_mem ?s g" for g using fr(4) by blast
  then have sl: "slowest s' = slowest ?s"
    unfolding slowest_def fr(1) by (metis (no_types, lifting) image_cong)
  have "- 1 \<le> cursor_of ?s" using i by (simp add: mp_inv_def)
  with cl log have "claimed_seqs (ms_log w @ claimed_by (ms_threads w i) pc') = [0..cursor_of s']"
    by (auto simp: claims_next_def claimed_seqs_snoc)
  moreover have "cursor_of ?s \<le> cursor_of s'" using s'(2) by (simp add: mp_progress_def)
  ultimately show ?thesis
    using inv s' pc_ok_progress [OF s'(2) pcs] mem sl fr(1,3)
    by (auto simp: mp_sys_inv_def intro: order_trans)
qed

lemma mp_publish_frame:
  assumes "mp_publish q s = Some s'"
  shows "mp_mem s' = mp_mem s" "mp_gating s' = mp_gating s" "mp_cursor s' = mp_cursor s"
    "mp_buffer_size s' = mp_buffer_size s" "mp_buffer_size_i64 s' = mp_buffer_size_i64 s"
    "mp_cached_gating_sequence s' = mp_cached_gating_sequence s"
    "set_available (mp_avail s) q = Some (mp_avail s')"
  using assms by (auto simp: mp_publish_def Let_def mp_frame_defs split: option.splits if_splits)

lemma sys_window:
  assumes "mp_sys_inv k w"
  shows "cursor_of (ms_seq w) \<le> slowest (ms_seq w) + 2 ^ k"
    and "\<And>g. g \<in> set (mp_gating (ms_seq w)) \<Longrightarrow> mp_mem (ms_seq w) g \<le> cursor_of (ms_seq w)"
    and "\<And>q. 0 \<le> q \<Longrightarrow> q \<notin> ms_published w \<Longrightarrow> slowest (ms_seq w) < q"
proof -
  let ?s = "ms_seq w"
  from assms have i: "mp_inv k ?s" and ne: "mp_gating ?s \<noteq> []"
    and P: "\<And>q. q \<in> ms_published w \<Longrightarrow> q \<le> cursor_of ?s"
    and G: "\<And>g q. g \<in> set (mp_gating ?s) \<Longrightarrow> 0 \<le> q \<Longrightarrow> q \<le> mp_mem ?s g \<Longrightarrow> q \<in> ms_published w"
    by (auto simp: mp_sys_inv_def)
  have "below ?s (cursor_of ?s - 2 ^ k)" using i by (simp add: mp_inv_def)
  from slowest_ge [OF ne this] show "cursor_of ?s \<le> slowest ?s + 2 ^ k" by simp
  show "mp_mem ?s g \<le> cursor_of ?s" if "g \<in> set (mp_gating ?s)" for g
  proof (cases "0 \<le> mp_mem ?s g")
    case True
    with that G P show ?thesis by blast
  next
    case False
    have "- 1 \<le> cursor_of ?s" using i by (simp add: mp_inv_def)
    with False show ?thesis by linarith
  qed
  show "slowest ?s < q" if "0 \<le> q" "q \<notin> ms_published w" for q
    using slowest_attained [OF ne] G that by force
qed

lemma mp_sys_publish_inv:
  assumes inv: "mp_sys_inv k w" and q: "0 \<le> q" "q \<le> cursor_of (ms_seq w)" "q \<notin> ms_published w"
    and pub: "mp_publish q (ms_seq w) = Some s'"
  shows "mp_sys_inv k (w\<lparr>ms_seq := s', ms_published := insert q (ms_published w)\<rparr>)"
proof -
  let ?s = "ms_seq w"
  note fr = mp_publish_frame [OF pub]
  note sv = same_view [OF fr(1-3)]
  have i: "mp_inv k ?s" and t: "tracks avail (2 ^ k) (mp_avail ?s) (slowest ?s) (ms_published w)"
    and pcs: "\<And>i. pc_ok k ?s (ms_threads w i)"
    using inv by (auto simp: mp_sys_inv_def)
  have ai: "avail_inv k (mp_avail ?s)" using i by (simp add: mp_inv_def)
  have win: "slowest ?s < q" "q \<le> slowest ?s + 2 ^ k"
    using sys_window [OF inv] q by auto
  have "tracks avail (2 ^ k) (mp_avail s') (slowest ?s) (insert q (ms_published w))"
    using av.tracks_publish [OF ai t fr(7) win q(3)] .
  moreover have "mp_inv k s'"
    using i set_available_inv [OF ai fr(7)] fr sv(3) by (simp add: mp_inv_def)
  ultimately show ?thesis
    using inv q fr sv pc_ok_progress [OF sv(1) pcs] by (auto simp: mp_sys_inv_def)
qed

lemma mp_sys_consume_inv:
  assumes inv: "mp_sys_inv k w" and g: "g \<in> set (mp_gating (ms_seq w))" and v: "mp_mem (ms_seq w) g \<le> v"
    and P: "\<forall>q. mp_mem (ms_seq w) g < q \<and> q \<le> v \<longrightarrow> q \<in> ms_published w"
  shows "mp_sys_inv k (w\<lparr>ms_seq := (ms_seq w)\<lparr>mp_mem := seq_set g v (mp_mem (ms_seq w))\<rparr>\<rparr>)"
proof -
  let ?s = "ms_seq w"
  define s' where "s' = ?s\<lparr>mp_mem := seq_set g v (mp_mem ?s)\<rparr>"
  have i: "mp_inv k ?s" and t: "tracks avail (2 ^ k) (mp_avail ?s) (slowest ?s) (ms_published w)"
    and pcs: "\<And>i. pc_ok k ?s (ms_threads w i)" and ne: "mp_gating ?s \<noteq> []"
    and G: "\<And>g q. g \<in> set (mp_gating ?s) \<Longrightarrow> 0 \<le> q \<Longrightarrow> q \<le> mp_mem ?s g \<Longrightarrow> q \<in> ms_published w"
    and lo: "- 1 \<le> slowest ?s" and Pc: "\<And>q. q \<in> ms_published w \<Longrightarrow> q \<le> cursor_of ?s"
    using inv by (auto simp: mp_sys_inv_def)
  have nc: "g \<noteq> mp_cursor ?s" using i g by (auto simp: mp_inv_def)
  have fr: "mp_cursor s' = mp_cursor ?s" "cursor_of s' = cursor_of ?s" "mp_gating s' = mp_gating ?s"
    "mp_avail s' = mp_avail ?s" "mp_mem s' = (mp_mem ?s)(g := v)"
    "mp_buffer_size s' = mp_buffer_size ?s" "mp_buffer_size_i64 s' = mp_buffer_size_i64 ?s"
    "mp_cached_gating_sequence s' = mp_cached_gating_sequence ?s"
    using nc by (simp_all add: seq_set_def s'_def)
  have pr: "mp_progress ?s s'" using v nc by (simp add: mp_progress_def fr)
  have inv': "mp_inv k s'"
    using i below_progress [OF pr] fr(1-4,6-8) by (simp add: mp_inv_def)
  have G': "q \<in> ms_published w" if "g' \<in> set (mp_gating ?s)" "0 \<le> q" "q \<le> mp_mem s' g'" for g' q
    using that G P by (cases "g' = g"; cases "q \<le> mp_mem ?s g") (auto simp: fr(5))
  have le: "slowest ?s \<le> slowest s'"
  proof -
    obtain g' where g': "g' \<in> set (mp_gating ?s)" "slowest s' = mp_mem s' g'"
      using slowest_attained [of s'] ne fr(3) by auto
    have "slowest ?s \<le> mp_mem ?s g'" using slowest_le g'(1) by blast
    also have "\<dots> \<le> mp_mem s' g'" using v by (simp add: fr(5))
    finally show ?thesis using g'(2) by simp
  qed
  have mid: "q \<in> ms_published w" if "slowest ?s < q" "q \<le> slowest s'" for q
  proof -
    have "q \<le> mp_mem s' g" using slowest_le [of g s'] g that(2) fr(3) by simp
    with that(1) lo show ?thesis using G' [OF g, of q] by simp
  qed
  have "slowest s' \<le> slowest ?s + 2 ^ k"
  proof (cases "slowest ?s < slowest s'")
    case True
    then have "slowest s' \<le> cursor_of ?s" using mid [of "slowest s'"] Pc by simp
    then show ?thesis using sys_window(1) [OF inv] by simp
  next
    case False
    moreover have "(0 :: int) \<le> 2 ^ k" by simp
    ultimately show ?thesis by linarith
  qed
  then have t': "tracks avail (2 ^ k) (mp_avail s') (slowest s') (ms_published w)"
    using av.tracks_advance [OF _ t le] i mid fr(4) by (simp add: mp_inv_def)
  have seq: "ms_seq (w\<lparr>ms_seq := s'\<rparr>) = s'" by simp
  have rest: "ms_threads (w\<lparr>ms_seq := s'\<rparr>) = ms_threads w" "ms_log (w\<lparr>ms_seq := s'\<rparr>) = ms_log w"
    "ms_published (w\<lparr>ms_seq := s'\<rparr>) = ms_published w" by simp_all
  show ?thesis
    unfolding s'_def [symmetric] mp_sys_inv_def seq rest
  proof (intro conjI)
    show "claimed_seqs (ms_log w) = [0..cursor_of s']" "mp_gating s' \<noteq> []"
      "\<forall>q\<in>ms_published w. 0 \<le> q \<and> q \<le> cursor_of s'"
      using inv unfolding mp_sys_inv_def fr(2,3) by blast+
    show "\<forall>g'\<in>set (mp_gating s'). \<forall>q. 0 \<le> q \<and> q \<le> mp_mem s' g' \<longrightarrow> q \<in> ms_published w"
      unfolding fr(3) using G' by blast
    show "\<forall>i. pc_ok k s' (ms_threads w i)" using pc_ok_progress [OF pr pcs] by blast
    show "- 1 \<le> slowest s'" using lo le by (rule order_trans)
  qed (rule inv' t')+
qed

lemma mp_lifecycle_frame:
  assumes "f \<in> {mp_close, mp_reopen, mp_poison, mp_record_failure fr}"
  shows "mp_mem (f s) = mp_mem s" "mp_gating (f s) = mp_gating s" "mp_cursor (f s) = mp_cursor s"
    "mp_avail (f s) = mp_avail s" "mp_buffer_size (f s) = mp_buffer_size s"
    "mp_buffer_size_i64 (f s) = mp_buffer_size_i64 s"
    "mp_cached_gating_sequence (f s) = mp_cached_gating_sequence s"
  using assms by (auto simp: mp_close_def mp_reopen_def mp_poison_def mp_record_failure_def mp_signal_def)

lemma mp_sys_lifecycle_inv:
  assumes inv: "mp_sys_inv k w" and f: "f \<in> {mp_close, mp_reopen, mp_poison, mp_record_failure fr}"
  shows "mp_sys_inv k (w\<lparr>ms_seq := f (ms_seq w)\<rparr>)"
proof -
  note fr = mp_lifecycle_frame [OF f, of "ms_seq w"]
  note sv = same_view [OF fr(1-3)]
  have "mp_inv k (f (ms_seq w))"
    using inv fr sv(3) by (simp add: mp_sys_inv_def mp_inv_def)
  then show ?thesis
    using inv fr sv(2) pc_ok_progress [OF sv(1)] by (simp add: mp_sys_inv_def)
qed

lemma mp_sys_step_inv: "mp_sys_step k w w' \<Longrightarrow> mp_sys_inv k w \<Longrightarrow> mp_sys_inv k w'"
proof (induction rule: mp_sys_step.induct)
  case (start w i pc n m)
  then have "pc_ok k (ms_seq w) pc"
    using mp_next_n_start_ok by (auto simp: mp_sys_inv_def)
  with start.prems show ?case by (auto simp: mp_sys_inv_def)
next
  case (run w i s' pc')
  then show ?case by (blast intro: mp_sys_run_inv)
next
  case (publish q w s')
  then show ?case by (blast intro: mp_sys_publish_inv)
next
  case (consume g w v)
  then show ?case by (blast intro: mp_sys_consume_inv)
next
  case (lifecycle f fr w)
  then show ?case by (blast intro: mp_sys_lifecycle_inv)
qed

text \<open>The start of the system: a new sequencer with its consumers registered at -1.\<close>

definition mp_sys_init :: "mp_seq \<Rightarrow> mp_sys" where
  "mp_sys_init s = \<lparr>ms_seq = s, ms_threads = (\<lambda>_. TDone None), ms_log = [], ms_published = {}\<rparr>"

definition mp_started :: "nat \<Rightarrow> mp_seq \<Rightarrow> bool" where
  "mp_started k s \<longleftrightarrow>
     (\<exists>ws r h rs rcu s0. rcu_spec rcu \<and> mp_new (2 ^ k) ws r h = Some s0 \<and> rs \<noteq> [] \<and> r \<notin> set rs \<and>
        (\<forall>g\<in>set rs. h g = - 1) \<and> s = mp_add_gating_sequences rcu rs s0)"

lemma mp_started_inv:
  assumes "mp_started k s"
  shows "mp_sys_inv k (mp_sys_init s)"
proof -
  from assms obtain ws r h rs rcu s0 where
    rcu: "rcu_spec rcu" and s0: "mp_new (2 ^ k) ws r h = Some s0" and rs: "rs \<noteq> []" "r \<notin> set rs"
    and h: "\<forall>g\<in>set rs. h g = - 1" and s: "s = mp_add_gating_sequences rcu rs s0"
    by (auto simp: mp_started_def)
  from s0 have "int (2 ^ k) \<le> int 9223372036854775807"
    by (auto simp: mp_new_def i64_try_from_def split: if_splits)
  then have k: "k \<le> 62" unfolding of_nat_le_iff pow2_fits_i64 .
  from s0 s rcu have f: "set (mp_gating s) = set rs" "mp_cursor s = r" "mp_avail s = availability_new (2 ^ k)"
    "mp_cached_gating_sequence s = - 1" "mp_mem s = h(r := - 1)" "mp_buffer_size s = 2 ^ k"
    "mp_buffer_size_i64 s = 2 ^ k"
    by (auto simp: mp_new_def mp_add_gating_sequences_def add_gating_set i64_try_from_def
        INITIAL_CURSOR_VALUE_def seq_defs split: if_splits)
  have ne: "mp_gating s \<noteq> []" using f(1) rs(1) by auto
  have vals: "\<forall>g\<in>set (mp_gating s). mp_mem s g = - 1" using f rs(2) h by auto
  have sl: "slowest s = - 1" using slowest_attained [OF ne] vals by auto
  have "mp_inv k s"
    using k f rs(2) vals availability_new_inv [OF k] by (simp add: mp_inv_def below_def)
  then show ?thesis
    using ne sl vals f tracks_new [OF k]
    by (auto simp: mp_sys_inv_def mp_sys_init_def claimed_seqs_def)
qed

lemma mp_reachable_inv:
  assumes "mp_started k s" and "(mp_sys_step k)\<^sup>*\<^sup>* (mp_sys_init s) w"
  shows "mp_sys_inv k w"
  using assms(2) by (induction rule: rtranclp_induct) (auto intro: mp_started_inv [OF assms(1)] mp_sys_step_inv)

section \<open>A producer on its own\<close>

abbreviation alone :: "nat \<Rightarrow> mp_seq \<Rightarrow> mp_seq" where
  "alone \<equiv> \<lambda>_ s. s"

lemma mp_run_step:
  assumes "\<not> finished pc" and "pc \<noteq> Panicked" and "mp_step s pc = (s', pc')"
  shows "mp_run (Suc f) alone i s pc = mp_run f alone (Suc i) s' pc'"
  using assms by (cases pc) auto

lemma run_scan_claim:
  "mp_run (Suc (length rs + f)) alone i s (CScan mode n c rs m) =
   mp_run f alone (Suc (i + length rs)) s (CStore mode n c (min_loop (\<lambda>_. mp_mem s) t m rs))"
proof (induction rs arbitrary: m i t)
  case (Cons r rs)
  show ?case
    using Cons.IH [of "Suc i" "if seq_get (mp_mem s) r < m then seq_get (mp_mem s) r else m" "Suc t"]
    by (simp add: Let_def)
qed simp

lemma run_scan_next:
  "mp_run (Suc (length rs + f)) alone i s (NScan n c rs m) =
   mp_run f alone (Suc (i + length rs)) s
     (if wrap_point s c n > min_loop (\<lambda>_. mp_mem s) t m rs then NClosed n
      else NStore n c (min_loop (\<lambda>_. mp_mem s) t m rs))"
proof (induction rs arbitrary: m i t)
  case (Cons r rs)
  show ?case
    using Cons.IH [of "Suc i" "if seq_get (mp_mem s) r < m then seq_get (mp_mem s) r else m" "Suc t"]
    by (simp add: Let_def)
qed simp

definition mp_consumed :: "mp_seq \<Rightarrow> i64" where
  "mp_consumed s = Min (insert (cursor_of s) (mp_mem s ` set (mp_gating s)))"

lemma mp_consumed_loop: "min_loop (\<lambda>_. mp_mem s) t (cursor_of s) (mp_gating s) = mp_consumed s"
  by (simp add: min_loop_const mp_consumed_def)

lemma mp_consumed_bounds:
  assumes "mp_inv k s"
  shows "mp_consumed s \<le> cursor_of s" and "cursor_of s - 2 ^ k \<le> mp_consumed s"
    and "mp_cached_gating_sequence s \<le> cursor_of s \<Longrightarrow> mp_cached_gating_sequence s \<le> mp_consumed s"
  using assms by (auto simp: mp_consumed_def mp_inv_def below_def Min_ge_iff)

lemma mp_remaining_const:
  assumes "mp_inv k s"
  shows "mp_remaining_capacity (\<lambda>_. s) t = 2 ^ k - (cursor_of s - mp_consumed s)"
proof -
  have k: "k \<le> 62" "mp_buffer_size_i64 s = 2 ^ k" using assms by (simp_all add: mp_inv_def)
  then have le: "(2 :: int) ^ k \<le> 2 ^ 62" by (intro power_increasing) simp_all
  then have "in_i64 (cursor_of s - mp_consumed s)" "in_i64 (2 ^ k - (cursor_of s - mp_consumed s))"
    using mp_consumed_bounds [OF assms] by (auto simp: in_i64_def)
  then show ?thesis
    by (simp add: mp_remaining_capacity_def get_minimum_sequence_with_default_def seq_get_def
        mp_consumed_loop k Let_def saturating_sub_i64_id)
qed

lemma mp_cas_alone:
  assumes "mp_inv k s" and "mp_room k s" and "n_ok k n"
  shows "mp_run (Suc f) alone i s (TCas n (cursor_of s)) =
           Some (TDone (Some (cursor_of s + n)), s\<lparr>mp_mem := (mp_mem s)(mp_cursor s := cursor_of s + n)\<rparr>)"
    and "mp_run (Suc f) alone i s (NCas n (cursor_of s)) =
           Some (NDone (Ok (cursor_of s + n)), s\<lparr>mp_mem := (mp_mem s)(mp_cursor s := cursor_of s + n)\<rparr>)"
proof -
  have "add_i64 (cursor_of s) n = cursor_of s + n"
    using wrap_point_eq(2) [OF assms(1,2) _ assms(3)] assms(1) by (simp add: cur_ok_def mp_inv_def)
  then show "mp_run (Suc f) alone i s (TCas n (cursor_of s)) =
           Some (TDone (Some (cursor_of s + n)), s\<lparr>mp_mem := (mp_mem s)(mp_cursor s := cursor_of s + n)\<rparr>)"
    and "mp_run (Suc f) alone i s (NCas n (cursor_of s)) =
           Some (NDone (Ok (cursor_of s + n)), s\<lparr>mp_mem := (mp_mem s)(mp_cursor s := cursor_of s + n)\<rparr>)"
    by (simp_all add: compare_and_set_def)
qed

lemma mp_try_alone:
  assumes inv: "mp_inv k s" and room: "mp_room k s" and "\<not> mp_closed s" and "\<not> mp_poisoned s" and n: "n_ok k n"
  shows "\<exists>s'. mp_try_next_n (length (mp_gating s) + 8) alone s n =
    Some (TDone (if cursor_of s + n - 2 ^ k \<le> mp_consumed s then Some (cursor_of s + n) else None), s')"
proof -
  let ?c = "cursor_of s"
  have cur: "cur_ok s ?c" using inv by (simp add: cur_ok_def mp_inv_def)
  note w = wrap_point_eq(1) [OF inv room cur n]
  have sz: "mp_buffer_size_i64 s = 2 ^ k" using inv by (simp add: mp_inv_def)
  have le: "(2 :: int) ^ k \<le> 2 ^ 62" using inv by (intro power_increasing) (simp_all add: mp_inv_def)
  have req: "usize_try_from n = Some (nat n)" "i64_try_from (nat n) = Some n"
    using n le by (auto simp: n_ok_def usize_try_from_def i64_try_from_def)
  have start: "mp_try_next_n_start s n = TClosed n"
    using n sz by (simp add: mp_try_next_n_start_def n_ok_def)
  have pre: "mp_run (Suc (Suc (Suc (Suc (Suc f))))) alone 0 s (TClosed n) =
      mp_run (Suc f) alone 4 s (CCached (ForClaim n) (nat n) ?c (mp_gating s))" for f
    using assms(3,4) req by (simp add: seq_get_def numeral_eq_Suc)
  show ?thesis
  proof (cases "wrap_point s ?c n > mp_cached_gating_sequence s \<or> mp_cached_gating_sequence s > ?c")
    case False
    then have "?c + n - 2 ^ k \<le> mp_consumed s"
      using w mp_consumed_bounds(3) [OF inv] by auto
    moreover have "mp_run (Suc (Suc f)) alone i s (CCached (ForClaim n) (nat n) ?c (mp_gating s)) =
        mp_run (Suc f) alone (Suc i) s (TCas n ?c)" for f i
      using False req by (auto simp: cap_answer_def)
    ultimately show ?thesis
      using pre [of "Suc (Suc (Suc (length (mp_gating s))))"] mp_cas_alone(1) [OF inv room n]
      by (simp add: mp_try_next_n_def start numeral_eq_Suc del: mp_run.simps mp_step.simps)
  next
    case True
    let ?s = "s\<lparr>mp_cached_gating_sequence := mp_consumed s\<rparr>"
    have b: "mp_inv k ?s" "mp_room k ?s"
      using inv room by (auto simp: mp_inv_def below_def mp_consumed_def mp_room_def)
    have scan: "mp_run (Suc (Suc (length (mp_gating s) + f))) alone i s (CCached (ForClaim n) (nat n) ?c (mp_gating s)) =
        mp_run f alone (Suc (Suc i + length (mp_gating s))) s (CStore (ForClaim n) n ?c (mp_consumed s))" for f i
      using True req run_scan_claim [of "mp_gating s" f "Suc i" s "ForClaim n" n ?c ?c 0]
      by (auto simp: mp_consumed_loop)
    have "mp_run (Suc (Suc 0)) alone i s (CStore (ForClaim n) n ?c (mp_consumed s)) =
        mp_run (Suc 0) alone (Suc i) ?s (if ?c + n - 2 ^ k \<le> mp_consumed s then TCas n ?c else TDone None)" for i
      using w by (auto simp: cap_answer_def)
    with scan [of "Suc (Suc 0)" 4] pre [of "Suc (length (mp_gating s) + Suc (Suc 0))"]
      mp_cas_alone(1) [OF b n, of 0]
    show ?thesis
      by (simp add: mp_try_next_n_def start numeral_eq_Suc del: mp_run.simps mp_step.simps) auto
  qed
qed

lemma mp_next_alone:
  assumes inv: "mp_inv k s" and room: "mp_room k s" and "\<not> mp_closed s" and "\<not> mp_poisoned s" and n: "n_ok k n"
    and cap: "cursor_of s + n - 2 ^ k \<le> mp_consumed s"
  shows "\<exists>s'. mp_next_n (length (mp_gating s) + 8) alone s n = Some (NDone (Ok (cursor_of s + n)), s')"
proof -
  let ?c = "cursor_of s"
  have cur: "cur_ok s ?c" using inv by (simp add: cur_ok_def mp_inv_def)
  note w = wrap_point_eq(1) [OF inv room cur n]
  have start: "mp_next_n_start s n = NClosed n"
    using n inv by (simp add: mp_next_n_start_def n_ok_def mp_inv_def)
  have pre: "mp_run (Suc (Suc (Suc f))) alone 0 s (NClosed n) = mp_run f alone 3 s (NCached n ?c)" for f
    using assms(3,4) by (simp add: seq_get_def numeral_eq_Suc)
  show ?thesis
  proof (cases "wrap_point s ?c n > mp_cached_gating_sequence s \<or> mp_cached_gating_sequence s > ?c")
    case False
    then have "mp_run (Suc f) alone i s (NCached n ?c) = mp_run f alone (Suc i) s (NCas n ?c)" for f i
      by (auto simp: Let_def)
    then show ?thesis
      using pre [of "length (mp_gating s) + 5"] mp_cas_alone(2) [OF inv room n]
      by (simp add: mp_next_n_def start numeral_eq_Suc del: mp_run.simps mp_step.simps)
  next
    case True
    let ?s = "s\<lparr>mp_cached_gating_sequence := mp_consumed s\<rparr>"
    have b: "mp_inv k ?s" "mp_room k ?s"
      using inv room by (auto simp: mp_inv_def below_def mp_consumed_def mp_room_def)
    have scan: "mp_run (Suc (Suc (Suc (length (mp_gating s) + Suc f)))) alone i s (NCached n ?c) =
        mp_run f alone (Suc (Suc (Suc (Suc i + length (mp_gating s))))) ?s (NCas n ?c)" for f i
      using True cap w run_scan_next [of "mp_gating s" "Suc f" "Suc (Suc i)" s n ?c ?c 0]
      by (auto simp: mp_consumed_loop Let_def)
    show ?thesis
      using scan [of "Suc 0" 3] pre [of "Suc (Suc (Suc (length (mp_gating s) + Suc (Suc 0))))"]
        mp_cas_alone(2) [OF b n, of 0]
      by (simp add: mp_next_n_def start numeral_eq_Suc del: mp_run.simps mp_step.simps)
  qed
qed

section \<open>A run of two producers\<close>

text \<open>
  A ring of 4 with one consumer (reference 7). Thread 0 claims two sequences with \<open>try_next_n\<close> while
  thread 1 claims one with \<open>next_n\<close>; thread 1 loses the race for the cursor and retries.
\<close>

definition mp_example :: mp_seq where
  "mp_example =
     mp_add_gating_sequences (\<lambda>f v. f v) [7] (the (mp_new 4 BusySpinStrategy 0 (\<lambda>_. - 1)))"

fun schedule :: "nat \<Rightarrow> mp_sys \<Rightarrow> nat list \<Rightarrow> mp_sys option" where
  "schedule k w [] = Some w"
| "schedule k w (i # js) =
     (if mp_room k (ms_seq w) then
        let (s', pc') = mp_step (ms_seq w) (ms_threads w i)
        in schedule k (w\<lparr>ms_seq := s', ms_threads := (ms_threads w)(i := pc'),
             ms_log := ms_log w @ claimed_by (ms_threads w i) pc'\<rparr>) js
      else None)"

lemma schedule_reachable: "schedule k w js = Some w' \<Longrightarrow> (mp_sys_step k)\<^sup>*\<^sup>* w w'"
proof (induction js arbitrary: w)
  case (Cons i js)
  obtain s' pc' where st: "mp_step (ms_seq w) (ms_threads w i) = (s', pc')" by fastforce
  with Cons.prems have room: "mp_room k (ms_seq w)" by (auto split: if_splits)
  from Cons.IH Cons.prems st room mp_sys_step.run [OF room st] show ?case
    by (auto intro: converse_rtranclp_into_rtranclp)
qed simp

definition example_start :: mp_sys where
  "example_start = (mp_sys_init mp_example)
     \<lparr>ms_threads := (\<lambda>_. TDone None)(0 := TClosed 2, 1 := NClosed 1)\<rparr>"

definition example_end :: mp_sys where
  "example_end = the (schedule 2 example_start
     [0, 0, 0, 1, 1, 1, 0, 0, 1, 0, 1, 1, 1, 1, 1, 1])"

lemma mp_example_started: "mp_started 2 mp_example"
proof -
  let ?s0 = "the (mp_new 4 BusySpinStrategy 0 (\<lambda>_. - 1))"
  have "is_power_of_two 4" using is_power_of_two_iff [of 4] by (auto intro: exI [of _ 2])
  then have "mp_new (2 ^ 2) BusySpinStrategy 0 (\<lambda>_. - 1) = Some ?s0"
    by (simp add: mp_new_def i64_try_from_def)
  moreover have "rcu_spec (\<lambda>f v. f v)" by (simp add: rcu_spec_def)
  ultimately show ?thesis
    unfolding mp_started_def mp_example_def
    by (intro exI [of _ BusySpinStrategy] exI [of _ 0] exI [of _ "\<lambda>_. - 1"] exI [of _ "[7]"]
        exI [of _ "\<lambda>f v. f v"] exI [of _ ?s0]) simp
qed

lemma example_reachable: "(mp_sys_step 2)\<^sup>*\<^sup>* (mp_sys_init mp_example) example_end"
proof -
  let ?w0 = "mp_sys_init mp_example"
  let ?w1 = "?w0\<lparr>ms_threads := (ms_threads ?w0)(0 := TClosed 2)\<rparr>"
  have sz: "mp_buffer_size_i64 (ms_seq ?w0) = 4" by code_simp
  have "mp_sys_step 2 ?w0 ?w1"
    using sz by (intro mp_sys_step.start [where n = 2]) (simp_all add: mp_sys_init_def mp_try_next_n_start_def)
  moreover have "mp_sys_step 2 ?w1 (?w1\<lparr>ms_threads := (ms_threads ?w1)(1 := NClosed 1)\<rparr>)"
    using sz by (intro mp_sys_step.start [where n = 1]) (simp_all add: mp_sys_init_def mp_next_n_start_def)
  moreover have "?w1\<lparr>ms_threads := (ms_threads ?w1)(1 := NClosed 1)\<rparr> = example_start"
    by (simp add: example_start_def mp_sys_init_def)
  moreover have "schedule 2 example_start [0, 0, 0, 1, 1, 1, 0, 0, 1, 0, 1, 1, 1, 1, 1, 1] \<noteq> None"
    by code_simp
  then have "(mp_sys_step 2)\<^sup>*\<^sup>* example_start example_end"
    by (intro schedule_reachable [where js = "[0, 0, 0, 1, 1, 1, 0, 0, 1, 0, 1, 1, 1, 1, 1, 1]"])
      (auto simp only: example_end_def option.sel)
  ultimately show ?thesis by (metis converse_rtranclp_into_rtranclp)
qed

section \<open>Properties\<close>

text \<open>
  C3: with any number of producers racing on the compare-and-swap loop of \<open>next_n\<close> and \<open>try_next_n\<close>,
  in every interleaving of their atomic steps with consumers and with close, reopen and poison, the
  claims handed out are disjoint, consecutive and cover exactly the sequences from 0 to the cursor, and
  the cursor never runs more than one ring ahead of any consumer.
\<close>

theorem mp_claims_partition:
  assumes "mp_started k s" and "(mp_sys_step k)\<^sup>*\<^sup>* (mp_sys_init s) w"
  shows "claimed_seqs (ms_log w) = [0..cursor_of (ms_seq w)] \<and>
    (\<forall>g\<in>set (mp_gating (ms_seq w)). cursor_of (ms_seq w) - 2 ^ k \<le> mp_mem (ms_seq w) g)"
  using mp_reachable_inv [OF assms] by (auto simp: mp_sys_inv_def mp_inv_def below_def)

theorem mp_claims_partition_witness:
  "ms_log example_end = [(0, 1), (2, 2)] \<and>
   claimed_seqs (ms_log example_end) = [0..cursor_of (ms_seq example_end)]"
proof -
  have "ms_log example_end = [(0, 1), (2, 2)]" by code_simp
  with mp_claims_partition [OF mp_example_started example_reachable] show ?thesis by simp
qed

text \<open>
  Consumers see exactly what was published and never share a slot with a writer. In every reachable
  state, for every sequence of the window behind the slowest consumer \<open>is_available\<close> tells whether it
  has been published; and a claimed sequence that is still being written and a different sequence that
  a consumer may still read never lie in the same slot of the ring.
\<close>

theorem mp_readers_and_writers_disjoint:
  assumes "mp_started k s" and "(mp_sys_step k)\<^sup>*\<^sup>* (mp_sys_init s) w"
    and "0 \<le> q" and "q \<le> cursor_of (ms_seq w)" and "q \<notin> ms_published w"
    and "slowest (ms_seq w) < p" and "p \<le> cursor_of (ms_seq w)"
  shows "mp_is_available q (ms_seq w) = Some False \<and>
    mp_is_available p (ms_seq w) = Some (p \<in> ms_published w) \<and>
    (p \<in> ms_published w \<longrightarrow> p mod 2 ^ k \<noteq> q mod 2 ^ k)"
proof -
  note inv = mp_reachable_inv [OF assms(1,2)]
  have ai: "avail_inv k (mp_avail (ms_seq w))"
    and t: "tracks avail (2 ^ k) (mp_avail (ms_seq w)) (slowest (ms_seq w)) (ms_published w)"
    using inv by (auto simp: mp_sys_inv_def mp_inv_def)
  note win = sys_window [OF inv]
  have q: "slowest (ms_seq w) < q" using win(3) assms(3,5) by blast
  have "\<bar>p - q\<bar> < 2 ^ k" using q assms(4,6,7) win(1) by linarith
  then have "p mod 2 ^ k = q mod 2 ^ k \<Longrightarrow> p = q" by (metis mod_window_inj)
  with t q assms(4-7) win(1) is_available_total [OF ai] show ?thesis
    by (auto simp: mp_is_available_def tracks_def)
qed

theorem mp_readers_and_writers_disjoint_witness:
  "\<exists>w. (mp_sys_step 2)\<^sup>*\<^sup>* (mp_sys_init mp_example) w \<and> mp_is_available 1 (ms_seq w) = Some False \<and>
       mp_is_available 0 (ms_seq w) = Some True \<and> (0 :: int) mod 2 ^ 2 \<noteq> 1 mod 2 ^ 2"
proof -
  let ?s = "ms_seq example_end"
  let ?w = "example_end\<lparr>ms_seq := the (mp_publish 0 ?s), ms_published := insert 0 (ms_published example_end)\<rparr>"
  have c: "cursor_of ?s = 2" "mp_publish 0 ?s \<noteq> None" by code_simp+
  have e: "ms_published example_end = {}" by code_simp
  have "mp_sys_step 2 example_end ?w"
    using c e by (intro mp_sys_step.publish) auto
  with example_reachable have r: "(mp_sys_step 2)\<^sup>*\<^sup>* (mp_sys_init mp_example) ?w" by simp
  have "cursor_of (ms_seq ?w) = 2" "slowest (ms_seq ?w) = - 1" by code_simp+
  with e mp_readers_and_writers_disjoint [OF mp_example_started r, of 1 0]
  have "mp_is_available 1 (ms_seq ?w) = Some False" "mp_is_available 0 (ms_seq ?w) = Some True" by auto
  with r show ?thesis by (intro exI [of _ ?w]) simp
qed

text \<open>
  For a producer that is not disturbed the cached gating value is only an optimisation.
  \<open>try_next_n\<close> succeeds exactly when the request is within \<open>remaining_capacity\<close>, whatever the cache
  holds, and then so does \<open>next_n\<close>, which does not spin; both return within a number of steps fixed by
  the number of consumers.
\<close>

theorem mp_claim_iff_capacity:
  assumes "mp_inv k s" and "mp_room k s" and "\<not> mp_closed s" and "\<not> mp_poisoned s"
    and "1 \<le> n" and "n \<le> 2 ^ k"
  shows "map_option fst (mp_try_next_n (length (mp_gating s) + 8) alone s n) =
           Some (TDone (if n \<le> mp_remaining_capacity (\<lambda>_. s) t then Some (cursor_of s + n) else None)) \<and>
         (n \<le> mp_remaining_capacity (\<lambda>_. s) t \<longrightarrow>
           map_option fst (mp_next_n (length (mp_gating s) + 8) alone s n) =
             Some (NDone (Ok (cursor_of s + n))))"
proof -
  have n: "n_ok k n" using assms(5,6) by (simp add: n_ok_def)
  have eq: "n \<le> mp_remaining_capacity (\<lambda>_. s) t \<longleftrightarrow> cursor_of s + n - 2 ^ k \<le> mp_consumed s"
    unfolding mp_remaining_const [OF assms(1)] by linarith
  from mp_try_alone [OF assms(1-4) n] mp_next_alone [OF assms(1-4) n] show ?thesis
    unfolding eq by auto
qed

theorem mp_claim_iff_capacity_witness:
  "map_option fst (mp_try_next_n 9 alone mp_example 4) = Some (TDone (Some 3)) \<and>
   map_option fst (mp_next_n 9 alone mp_example 4) = Some (NDone (Ok 3))"
proof -
  have inv: "mp_inv 2 mp_example"
    using mp_started_inv [OF mp_example_started] by (simp add: mp_sys_inv_def mp_sys_init_def)
  have s: "mp_room 2 mp_example" "\<not> mp_closed mp_example" "\<not> mp_poisoned mp_example"
    "length (mp_gating mp_example) = 1" "cursor_of mp_example = - 1"
    "mp_remaining_capacity (\<lambda>_. mp_example) 0 = 4" by code_simp+
  have "map_option fst (mp_try_next_n (length (mp_gating mp_example) + 8) alone mp_example 4) =
      Some (TDone (Some 3)) \<and>
    map_option fst (mp_next_n (length (mp_gating mp_example) + 8) alone mp_example 4) = Some (NDone (Ok 3))"
    using mp_claim_iff_capacity [OF inv s(1-3), of 4 0] s(5,6)
    by (simp del: mp_run.simps)
  then show ?thesis unfolding s(4) by (simp del: mp_run.simps)
qed

end
