(* ===== verification/Sequencer.thy ===== *)
theory Sequencer
  imports Single_Producer Multi_Producer
begin

text \<open>
  The \<open>Sequencer\<close> trait and its enum dispatch (\<open>SequencerEnum\<close> of \<open>src/disruptor/sequencer.rs\<close>), and
  the contract of claiming that both sequencers keep. The claims take what the other threads do
  meanwhile: for the single-producer sequencer a trajectory from the current state, for the
  multi-producer sequencer an action before each step.
\<close>

section \<open>Dispatch\<close>

datatype sequencer = SingleSeq sp_seq | MultiSeq mp_seq

type_synonym claim_env = "(sp_seq \<Rightarrow> sp_seq traj) \<times> (nat \<Rightarrow> mp_seq \<Rightarrow> mp_seq)"

text \<open>Nobody else acts.\<close>

definition quiet :: claim_env where
  "quiet = (\<lambda>s _. s, \<lambda>_ s. s)"

fun seq_get_cursor :: "sequencer \<Rightarrow> seq_ref" where
  "seq_get_cursor (SingleSeq s) = sp_get_cursor s"
| "seq_get_cursor (MultiSeq m) = mp_get_cursor m"

fun seq_get_buffer_size :: "sequencer \<Rightarrow> usize" where
  "seq_get_buffer_size (SingleSeq s) = sp_get_buffer_size s"
| "seq_get_buffer_size (MultiSeq m) = mp_get_buffer_size m"

fun seq_next_n :: "nat \<Rightarrow> claim_env \<Rightarrow> i64 \<Rightarrow> sequencer \<Rightarrow> (i64 result \<times> sequencer) option" where
  "seq_next_n fuel env n (SingleSeq s) =
     map_option (\<lambda>(r, s'). (r, SingleSeq s')) (sp_next_n fuel (fst env s) n)"
| "seq_next_n fuel env n (MultiSeq m) =
     (case mp_next_n fuel (snd env) m n of
        Some (NDone r, m') \<Rightarrow> Some (r, MultiSeq m')
      | _ \<Rightarrow> None)"

definition seq_next :: "nat \<Rightarrow> claim_env \<Rightarrow> sequencer \<Rightarrow> (i64 result \<times> sequencer) option" where
  "seq_next fuel env q = seq_next_n fuel env 1 q"

fun seq_try_next_n :: "nat \<Rightarrow> claim_env \<Rightarrow> i64 \<Rightarrow> sequencer \<Rightarrow> (i64 option \<times> sequencer) option" where
  "seq_try_next_n fuel env n (SingleSeq s) =
     map_option (\<lambda>(r, s'). (r, SingleSeq s')) (sp_try_next_n (fst env s) n)"
| "seq_try_next_n fuel env n (MultiSeq m) =
     (case mp_try_next_n fuel (snd env) m n of
        Some (TDone r, m') \<Rightarrow> Some (r, MultiSeq m')
      | _ \<Rightarrow> None)"

definition seq_try_next :: "nat \<Rightarrow> claim_env \<Rightarrow> sequencer \<Rightarrow> (i64 option \<times> sequencer) option" where
  "seq_try_next fuel env q = seq_try_next_n fuel env 1 q"

fun seq_publish :: "i64 \<Rightarrow> sequencer \<Rightarrow> sequencer option" where
  "seq_publish sequence (SingleSeq s) = Some (SingleSeq (sp_publish sequence s))"
| "seq_publish sequence (MultiSeq m) = map_option MultiSeq (mp_publish sequence m)"

fun seq_publish_range :: "nat \<Rightarrow> i64 \<Rightarrow> i64 \<Rightarrow> sequencer \<Rightarrow> sequencer option option" where
  "seq_publish_range fuel low high (SingleSeq s) = Some (Some (SingleSeq (sp_publish_range low high s)))"
| "seq_publish_range fuel low high (MultiSeq m) =
     map_option (map_option MultiSeq) (mp_publish_range fuel low high m)"

fun seq_is_available :: "i64 \<Rightarrow> sequencer \<Rightarrow> bool option" where
  "seq_is_available sequence (SingleSeq s) = Some (sp_is_available sequence s)"
| "seq_is_available sequence (MultiSeq m) = mp_is_available sequence m"

text \<open>The scan reads the availability arrays of the moment: \<open>tr\<close> is what its loads see.\<close>

fun seq_get_highest_published_sequence ::
    "nat \<Rightarrow> availability traj \<Rightarrow> nat \<Rightarrow> i64 \<Rightarrow> i64 \<Rightarrow> sequencer \<Rightarrow> i64 option option" where
  "seq_get_highest_published_sequence fuel tr t next_sequence available_sequence (SingleSeq s) =
     Some (Some (sp_get_highest_published_sequence next_sequence available_sequence))"
| "seq_get_highest_published_sequence fuel tr t next_sequence available_sequence (MultiSeq m) =
     mp_get_highest_published_sequence fuel tr t next_sequence available_sequence"

fun seq_has_available_capacity :: "nat \<Rightarrow> claim_env \<Rightarrow> usize \<Rightarrow> sequencer \<Rightarrow> (bool \<times> sequencer) option" where
  "seq_has_available_capacity fuel env required (SingleSeq s) =
     map_option (\<lambda>(b, s'). (b, SingleSeq s')) (sp_has_available_capacity (fst env s) required)"
| "seq_has_available_capacity fuel env required (MultiSeq m) =
     (case mp_has_available_capacity fuel (snd env) m required of
        Some (HDone b, m') \<Rightarrow> Some (b, MultiSeq m')
      | _ \<Rightarrow> None)"

fun seq_remaining_capacity :: "sequencer \<Rightarrow> i64" where
  "seq_remaining_capacity (SingleSeq s) = sp_remaining_capacity (\<lambda>_. s)"
| "seq_remaining_capacity (MultiSeq m) = mp_remaining_capacity (\<lambda>_. m) 0"

fun seq_add_gating_sequences ::
    "((seq_ref list \<Rightarrow> seq_ref list) \<Rightarrow> seq_ref list \<Rightarrow> seq_ref list) \<Rightarrow> seq_ref list \<Rightarrow> sequencer \<Rightarrow> sequencer" where
  "seq_add_gating_sequences rcu rs (SingleSeq s) = SingleSeq (sp_add_gating_sequences rcu rs s)"
| "seq_add_gating_sequences rcu rs (MultiSeq m) = MultiSeq (mp_add_gating_sequences rcu rs m)"

fun seq_remove_gating_sequence ::
    "snapshot_cas \<Rightarrow> nat \<Rightarrow> seq_ref \<Rightarrow> sequencer \<Rightarrow> (bool \<times> sequencer) option" where
  "seq_remove_gating_sequence cas k r (SingleSeq s) =
     map_option (\<lambda>(b, s'). (b, SingleSeq s')) (sp_remove_gating_sequence cas k r s)"
| "seq_remove_gating_sequence cas k r (MultiSeq m) =
     map_option (\<lambda>(b, m'). (b, MultiSeq m')) (mp_remove_gating_sequence cas k r m)"

fun seq_get_minimum_sequence :: "sequencer \<Rightarrow> i64" where
  "seq_get_minimum_sequence (SingleSeq s) = sp_get_minimum_sequence (\<lambda>_. s) 0"
| "seq_get_minimum_sequence (MultiSeq m) = mp_get_minimum_sequence (\<lambda>_. m) 0"

fun seq_poison :: "sequencer \<Rightarrow> sequencer" where
  "seq_poison (SingleSeq s) = SingleSeq (sp_poison s)"
| "seq_poison (MultiSeq m) = MultiSeq (mp_poison m)"

fun seq_is_poisoned :: "sequencer \<Rightarrow> bool" where
  "seq_is_poisoned (SingleSeq s) = sp_is_poisoned s"
| "seq_is_poisoned (MultiSeq m) = mp_is_poisoned m"

fun seq_record_failure :: "failure_record \<Rightarrow> sequencer \<Rightarrow> sequencer" where
  "seq_record_failure f (SingleSeq s) = SingleSeq (sp_record_failure f s)"
| "seq_record_failure f (MultiSeq m) = MultiSeq (mp_record_failure f m)"

fun seq_first_failure :: "sequencer \<Rightarrow> failure_record option" where
  "seq_first_failure (SingleSeq s) = sp_first_failure s"
| "seq_first_failure (MultiSeq m) = mp_first_failure m"

definition seq_poison_with_failure :: "failure_record \<Rightarrow> sequencer \<Rightarrow> sequencer" where
  "seq_poison_with_failure f q = seq_poison (seq_record_failure f q)"

fun seq_close :: "sequencer \<Rightarrow> sequencer" where
  "seq_close (SingleSeq s) = SingleSeq (sp_close s)"
| "seq_close (MultiSeq m) = MultiSeq (mp_close m)"

fun seq_is_closed :: "sequencer \<Rightarrow> bool" where
  "seq_is_closed (SingleSeq s) = sp_is_closed s"
| "seq_is_closed (MultiSeq m) = mp_is_closed m"

fun seq_reopen :: "sequencer \<Rightarrow> sequencer" where
  "seq_reopen (SingleSeq s) = SingleSeq (sp_reopen s)"
| "seq_reopen (MultiSeq m) = MultiSeq (mp_reopen m)"

fun seq_mem :: "sequencer \<Rightarrow> store" where
  "seq_mem (SingleSeq s) = sp_mem s"
| "seq_mem (MultiSeq m) = mp_mem m"

section \<open>The contract of claiming\<close>

text \<open>
  What a producer relies on: a claim that succeeds returns the end of a range of the requested length
  that nobody held before; the claimed position never moves back. A run of claims, as long as the
  sequence numbers stay in range:
\<close>

fun run_claims :: "('s \<Rightarrow> bool) \<Rightarrow> ('s \<Rightarrow> i64 \<Rightarrow> (i64 result \<times> 's) option) \<Rightarrow> 's \<Rightarrow> i64 list \<Rightarrow>
    (i64 \<times> i64) list" where
  "run_claims room claim s [] = []"
| "run_claims room claim s (n # ns) =
     (if \<not> room s then []
      else case claim s n of
        None \<Rightarrow> []
      | Some (Inl e, s') \<Rightarrow> run_claims room claim s' ns
      | Some (Inr hi, s') \<Rightarrow> (hi - n + 1, hi) # run_claims room claim s' ns)"

text \<open>Ranges in increasing order without overlap, all behind \<open>p\<close>.\<close>

fun ordered_after :: "i64 \<Rightarrow> (i64 \<times> i64) list \<Rightarrow> bool" where
  "ordered_after p [] = True"
| "ordered_after p ((lo, hi) # rs) = (p < lo \<and> lo \<le> hi \<and> ordered_after hi rs)"

lemma ordered_after_mono: "ordered_after p rs \<Longrightarrow> p' \<le> p \<Longrightarrow> ordered_after p' rs"
  by (cases rs) auto

locale claim_contract =
  fixes ok :: "'s \<Rightarrow> bool" and room :: "'s \<Rightarrow> bool" and pos :: "'s \<Rightarrow> i64" and limit :: int
    and claim :: "'s \<Rightarrow> i64 \<Rightarrow> (i64 result \<times> 's) option"
  assumes claim_keeps: "ok s \<Longrightarrow> room s \<Longrightarrow> claim s n = Some (r, s') \<Longrightarrow> ok s' \<and> pos s \<le> pos s'"
    and claim_range: "ok s \<Longrightarrow> room s \<Longrightarrow> claim s n = Some (Inr hi, s') \<Longrightarrow>
      1 \<le> n \<and> n \<le> limit \<and> pos s \<le> hi - n \<and> hi \<le> pos s'"
begin

text \<open>
  However many claims a producer makes, with others claiming in between, its ranges come in increasing
  order and never overlap.
\<close>

lemma claims_ordered:
  assumes "ok s"
  shows "ordered_after (pos s) (run_claims room claim s ns)"
  using assms
proof (induction ns arbitrary: s)
  case Nil
  then show ?case by simp
next
  case (Cons n ns)
  show ?case
  proof (cases "room s \<and> claim s n \<noteq> None")
    case False
    then show ?thesis by (auto split: option.split)
  next
    case True
    then obtain r s' where c: "room s" "claim s n = Some (r, s')" by auto
    note keep = claim_keeps [OF Cons.prems c]
    note IH = Cons.IH [of s']
    show ?thesis
    proof (cases r)
      case (Inl e)
      with c IH keep show ?thesis by (auto intro: ordered_after_mono)
    next
      case (Inr hi)
      note rg = claim_range [OF Cons.prems c(1) c(2) [unfolded Inr]]
      have "ordered_after hi (run_claims room claim s' ns)"
        using IH keep rg by (auto intro: ordered_after_mono)
      with c Inr rg show ?thesis by simp
    qed
  qed
qed

end

section \<open>Both sequencers keep it\<close>

fun seq_inv :: "nat \<Rightarrow> sequencer \<Rightarrow> bool" where
  "seq_inv k (SingleSeq s) = (sp_inv s \<and> sp_buffer_size s = 2 ^ k)"
| "seq_inv k (MultiSeq m) = mp_inv k m"

fun seq_pos :: "sequencer \<Rightarrow> i64" where
  "seq_pos (SingleSeq s) = sp_next_value s"
| "seq_pos (MultiSeq m) = cursor_of m"

fun seq_room :: "nat \<Rightarrow> sequencer \<Rightarrow> bool" where
  "seq_room k (SingleSeq s) = sp_room s"
| "seq_room k (MultiSeq m) = mp_room k m"

text \<open>The others keep to their part: consumers move forward, flags change, nobody breaks the invariant.\<close>

definition env_ok :: "nat \<Rightarrow> claim_env \<Rightarrow> bool" where
  "env_ok k env \<longleftrightarrow>
     (\<forall>s. sp_env (fst env s) \<and> fst env s 0 = s) \<and>
     (\<forall>i m. mp_inv k m \<longrightarrow> mp_inv k (snd env i m) \<and> mp_progress m (snd env i m) \<and>
        (mp_room k m \<longrightarrow> mp_room k (snd env i m)))"

lemma env_ok_quiet [simp]: "env_ok k quiet"
  by (simp add: env_ok_def quiet_def)

text \<open>The number of sequences a thread is claiming, and the result it has come to.\<close>

fun mode_n :: "cap_mode \<Rightarrow> i64 option" where
  "mode_n (ForClaim n) = Some n"
| "mode_n Query = None"

fun pc_n :: "mp_pc \<Rightarrow> i64 option" where
  "pc_n (NClosed n) = Some n"
| "pc_n (NPoisoned n) = Some n"
| "pc_n (NCursor n) = Some n"
| "pc_n (NCached n c) = Some n"
| "pc_n (NGuard n c) = Some n"
| "pc_n (NScan n c rs m) = Some n"
| "pc_n (NStore n c m) = Some n"
| "pc_n (NCas n c) = Some n"
| "pc_n (TClosed n) = Some n"
| "pc_n (TPoisoned n) = Some n"
| "pc_n (TCursor n) = Some n"
| "pc_n (TGuard n c) = Some n"
| "pc_n (TCas n c) = Some n"
| "pc_n (CCached mode r c g) = mode_n mode"
| "pc_n (CScan mode m c rs v) = mode_n mode"
| "pc_n (CStore mode m c v) = mode_n mode"
| "pc_n _ = None"

fun pc_result :: "mp_pc \<Rightarrow> i64 option" where
  "pc_result (NDone (Inr hi)) = Some hi"
| "pc_result (TDone (Some hi)) = Some hi"
| "pc_result _ = None"

lemma mp_step_n:
  assumes "mp_step s pc = (s', pc')" and "pc_n pc = Some n" and "mp_inv k s" and "mp_room k s" and "pc_ok k s pc"
  shows "(pc_n pc' = Some n \<and> pc_result pc' = None) \<or>
     ((finished pc' \<or> pc' = Panicked) \<and>
      (\<forall>hi. pc_result pc' = Some hi \<longrightarrow> n_ok k n \<and> hi = cursor_of s + n \<and> hi = cursor_of s'))"
  using assms
  by (induction s pc rule: mp_step.induct)
    (auto simp: Let_def compare_and_set_def cap_answer_def wrap_point_eq(2)
      split: if_splits option.splits cap_mode.splits)

lemma no_result_no_claim: "pc_result pc' = None \<Longrightarrow> claimed_by pc pc' = []"
  by (cases "(pc, pc')" rule: claimed_by.cases) auto

lemma mp_run_finished: "finished pc \<or> pc = Panicked \<Longrightarrow> mp_run fuel others i s pc = Some (pc, s)"
  by (cases pc) auto

lemma mp_run_Suc:
  "\<not> finished pc \<Longrightarrow> pc \<noteq> Panicked \<Longrightarrow>
   mp_run (Suc fuel) others i s pc = (let (s', pc') = mp_step (others i s) pc in mp_run fuel others (Suc i) s' pc')"
  "\<not> finished pc \<Longrightarrow> pc \<noteq> Panicked \<Longrightarrow> mp_run 0 others i s pc = None"
  by (cases pc; simp)+

lemma pc_n_running: "pc_n pc = Some n \<Longrightarrow> \<not> finished pc \<and> pc \<noteq> Panicked"
  by (cases pc) auto

lemma mp_run_contract:
  assumes env: "\<And>i m. mp_inv k m \<Longrightarrow> mp_inv k (others i m) \<and> mp_progress m (others i m) \<and>
      (mp_room k m \<longrightarrow> mp_room k (others i m))"
    and "mp_inv k s" and "mp_room k s" and "pc_ok k s pc" and "pc_n pc = Some n"
    and "mp_run fuel others i s pc = Some (pc', s')"
  shows "mp_inv k s' \<and> cursor_of s \<le> cursor_of s' \<and>
    (\<forall>hi. pc_result pc' = Some hi \<longrightarrow> n_ok k n \<and> cursor_of s \<le> hi - n \<and> hi \<le> cursor_of s')"
  using assms(2-6)
proof (induction fuel arbitrary: i s pc)
  case 0
  then show ?case using pc_n_running [OF "0.prems"(4)] mp_run_Suc(2) by simp
next
  case (Suc fuel)
  let ?s = "others i s"
  have inv: "mp_inv k ?s" and prog: "mp_progress s ?s" and room: "mp_room k ?s"
    using env Suc.prems(1,2) by auto
  have pc: "pc_ok k ?s pc" using pc_ok_progress [OF prog Suc.prems(3)] .
  obtain s1 pc1 where step: "mp_step ?s pc = (s1, pc1)" by fastforce
  have run: "mp_run fuel others (Suc i) s1 pc1 = Some (pc', s')"
    using Suc.prems(5) pc_n_running [OF Suc.prems(4)] mp_run_Suc(1) step by simp
  have ok: "mp_inv k s1" "mp_progress ?s s1" "pc_ok k s1 pc1" "claims_next k ?s s1 (claimed_by pc pc1)"
    using mp_step_ok [OF inv room pc step] by (simp_all add: step_ok_def)
  have le: "cursor_of s \<le> cursor_of ?s" "cursor_of ?s \<le> cursor_of s1"
    using prog ok(2) by (simp_all add: mp_progress_def)
  from mp_step_n [OF step Suc.prems(4) inv room pc] show ?case
  proof
    assume n: "pc_n pc1 = Some n \<and> pc_result pc1 = None"
    have "cursor_of s1 = cursor_of ?s"
      using ok(4) no_result_no_claim [of pc1 pc] n by (simp add: claims_next_def)
    then have "mp_room k s1" using room by (simp add: mp_room_def)
    from Suc.IH [OF ok(1) this ok(3) _ run] n le show ?thesis by force
  next
    assume f: "(finished pc1 \<or> pc1 = Panicked) \<and>
      (\<forall>hi. pc_result pc1 = Some hi \<longrightarrow> n_ok k n \<and> hi = cursor_of ?s + n \<and> hi = cursor_of s1)"
    with run mp_run_finished have "pc' = pc1" "s' = s1" by auto
    with f ok(1) le show ?thesis by auto
  qed
qed

lemma mp_start_n:
  "mp_next_n_start s n = NDone (Err (InvalidSequence n)) \<or> pc_n (mp_next_n_start s n) = Some n"
  "mp_try_next_n_start s n = TDone None \<or> pc_n (mp_try_next_n_start s n) = Some n"
  by (auto simp: mp_next_n_start_def mp_try_next_n_start_def)

lemma mp_claim_contract:
  assumes env: "\<And>i m. mp_inv k m \<Longrightarrow> mp_inv k (others i m) \<and> mp_progress m (others i m) \<and>
      (mp_room k m \<longrightarrow> mp_room k (others i m))"
    and inv: "mp_inv k s" and room: "mp_room k s"
    and run: "mp_next_n fuel others s n = Some (pc', s') \<or> mp_try_next_n fuel others s n = Some (pc', s')"
  shows "mp_inv k s' \<and> cursor_of s \<le> cursor_of s' \<and>
    (\<forall>hi. pc_result pc' = Some hi \<longrightarrow> n_ok k n \<and> cursor_of s \<le> hi - n \<and> hi \<le> cursor_of s')"
proof -
  from run obtain pc where pc: "pc \<in> {mp_next_n_start s n, mp_try_next_n_start s n}"
    and r: "mp_run fuel others 0 s pc = Some (pc', s')"
    by (auto simp: mp_next_n_def mp_try_next_n_def)
  show ?thesis
  proof (cases "pc_n pc = Some n")
    case True
    have "pc_ok k s pc" using pc mp_next_n_start_ok [OF inv] by auto
    from mp_run_contract [OF env inv room this True r] show ?thesis .
  next
    case False
    with pc mp_start_n [of s n] have "pc = NDone (Err (InvalidSequence n)) \<or> pc = TDone None" by auto
    with r inv show ?thesis by auto
  qed
qed

lemma sp_next_n_size:
  "sp_env tr \<Longrightarrow> sp_next_n fuel tr n = Some (r, s') \<Longrightarrow> sp_buffer_size s' = sp_buffer_size (tr 0)"
  "sp_env tr \<Longrightarrow> sp_try_next_n tr n = Some (ro, s') \<Longrightarrow> sp_buffer_size s' = sp_buffer_size (tr 0)"
  using sp_envD(1) [of tr]
  by (auto simp: sp_next_n_def sp_try_next_n_def acquire_claim_def try_acquire_claim_def
      split: if_splits option.splits)

lemma seq_next_n_contract:
  assumes "env_ok k env" and "seq_inv k q" and "seq_room k q" and "seq_next_n fuel env n q = Some (r, q')"
  shows "seq_inv k q' \<and> seq_pos q \<le> seq_pos q'"
    and "r = Inr hi \<Longrightarrow> 1 \<le> n \<and> n \<le> 2 ^ k \<and> seq_pos q \<le> hi - n \<and> hi \<le> seq_pos q'"
proof -
  have "seq_inv k q' \<and> seq_pos q \<le> seq_pos q' \<and>
    (\<forall>hi. r = Inr hi \<longrightarrow> 1 \<le> n \<and> n \<le> 2 ^ k \<and> seq_pos q \<le> hi - n \<and> hi \<le> seq_pos q')"
  proof (cases q)
    case (SingleSeq s)
    let ?tr = "fst env s"
    have tr: "sp_env ?tr" "?tr 0 = s" using assms(1) by (auto simp: env_ok_def)
    from assms(4) SingleSeq obtain s' where q': "q' = SingleSeq s'"
      and run: "sp_next_n fuel ?tr n = Some (r, s')" by auto
    have inv: "sp_inv (?tr 0)" "sp_room (?tr 0)" using assms(2,3) SingleSeq tr(2) by auto
    note spec = sp_next_n_spec [OF tr(1) inv run]
    have sz: "sp_buffer_size s' = sp_buffer_size s"
      using sp_next_n_size(1) [OF tr(1) run] tr(2) by simp
    show ?thesis
      using spec sz assms(2) SingleSeq q' tr(2) by (cases r) auto
  next
    case (MultiSeq m)
    from assms(4) MultiSeq obtain m' where q': "q' = MultiSeq m'"
      and run: "mp_next_n fuel (snd env) m n = Some (NDone r, m')"
      by (auto split: option.splits mp_pc.splits)
    have env: "\<And>i m. mp_inv k m \<Longrightarrow> mp_inv k (snd env i m) \<and> mp_progress m (snd env i m) \<and>
        (mp_room k m \<longrightarrow> mp_room k (snd env i m))"
      using assms(1) by (auto simp: env_ok_def)
    from mp_claim_contract [where others = "snd env" and pc' = "NDone r" and s = m and s' = m' and n = n and fuel = fuel and k = k, OF env] run assms(2,3) MultiSeq q'
    show ?thesis by (auto simp: n_ok_def)
  qed
  then show "seq_inv k q' \<and> seq_pos q \<le> seq_pos q'"
    and "r = Inr hi \<Longrightarrow> 1 \<le> n \<and> n \<le> 2 ^ k \<and> seq_pos q \<le> hi - n \<and> hi \<le> seq_pos q'" by auto
qed

lemma seq_try_next_n_contract:
  assumes "env_ok k env" and "seq_inv k q" and "seq_room k q" and "seq_try_next_n fuel env n q = Some (r, q')"
  shows "seq_inv k q' \<and> seq_pos q \<le> seq_pos q'"
    and "r = Some hi \<Longrightarrow> 1 \<le> n \<and> n \<le> 2 ^ k \<and> seq_pos q \<le> hi - n \<and> hi \<le> seq_pos q'"
proof -
  have "seq_inv k q' \<and> seq_pos q \<le> seq_pos q' \<and>
    (\<forall>hi. r = Some hi \<longrightarrow> 1 \<le> n \<and> n \<le> 2 ^ k \<and> seq_pos q \<le> hi - n \<and> hi \<le> seq_pos q')"
  proof (cases q)
    case (SingleSeq s)
    let ?tr = "fst env s"
    have tr: "sp_env ?tr" "?tr 0 = s" using assms(1) by (auto simp: env_ok_def)
    from assms(4) SingleSeq obtain s' where q': "q' = SingleSeq s'"
      and run: "sp_try_next_n ?tr n = Some (r, s')" by auto
    have inv: "sp_inv (?tr 0)" "sp_room (?tr 0)" using assms(2,3) SingleSeq tr(2) by auto
    have le: "n \<le> int (sp_buffer_size s)" if "r = Some hi" for hi
      using run that inv(1) tr(2) by (auto simp: sp_try_next_n_def sp_inv_def split: if_splits)
    note res = sp_try_next_n_result [OF tr(1) inv run]
    have sz: "sp_buffer_size s' = sp_buffer_size s"
      using sp_next_n_size(2) [OF tr(1) run] tr(2) by simp
    show ?thesis
      using res sz le assms(2) SingleSeq q' tr(2) by (cases r) auto
  next
    case (MultiSeq m)
    from assms(4) MultiSeq obtain m' where q': "q' = MultiSeq m'"
      and run: "mp_try_next_n fuel (snd env) m n = Some (TDone r, m')"
      by (auto split: option.splits mp_pc.splits)
    have env: "\<And>i m. mp_inv k m \<Longrightarrow> mp_inv k (snd env i m) \<and> mp_progress m (snd env i m) \<and>
        (mp_room k m \<longrightarrow> mp_room k (snd env i m))"
      using assms(1) by (auto simp: env_ok_def)
    from mp_claim_contract [where others = "snd env" and pc' = "TDone r" and s = m and s' = m' and n = n and fuel = fuel and k = k, OF env] run assms(2,3) MultiSeq q'
    show ?thesis by (auto simp: n_ok_def)
  qed
  then show "seq_inv k q' \<and> seq_pos q \<le> seq_pos q'"
    and "r = Some hi \<Longrightarrow> 1 \<le> n \<and> n \<le> 2 ^ k \<and> seq_pos q \<le> hi - n \<and> hi \<le> seq_pos q'" by auto
qed

interpretation blocking_claims:
  claim_contract "\<lambda>q. env_ok k env \<and> seq_inv k q" "seq_room k" seq_pos "2 ^ k"
    "\<lambda>q n. seq_next_n fuel env n q" for k env fuel
  using seq_next_n_contract by unfold_locales blast+

text \<open>A try-claim as a claim whose refusal is an error.\<close>

definition seq_try_claim :: "nat \<Rightarrow> claim_env \<Rightarrow> sequencer \<Rightarrow> i64 \<Rightarrow> (i64 result \<times> sequencer) option" where
  "seq_try_claim fuel env q n =
     map_option (\<lambda>(r, q'). (case r of Some hi \<Rightarrow> Ok hi | None \<Rightarrow> Err InsufficientCapacity, q'))
       (seq_try_next_n fuel env n q)"

interpretation try_claims:
  claim_contract "\<lambda>q. env_ok k env \<and> seq_inv k q" "seq_room k" seq_pos "2 ^ k"
    "seq_try_claim fuel env" for k env fuel
proof unfold_locales
  fix q n r q'
  assume "env_ok k env \<and> seq_inv k q" "seq_room k q" "seq_try_claim fuel env q n = Some (r, q')"
  then show "(env_ok k env \<and> seq_inv k q') \<and> seq_pos q \<le> seq_pos q'"
    using seq_try_next_n_contract(1) [of k env q fuel n] by (auto simp: seq_try_claim_def)
next
  fix q n hi q'
  assume "env_ok k env \<and> seq_inv k q" "seq_room k q" "seq_try_claim fuel env q n = Some (Inr hi, q')"
  then show "1 \<le> n \<and> n \<le> 2 ^ k \<and> seq_pos q \<le> hi - n \<and> hi \<le> seq_pos q'"
    using seq_try_next_n_contract(2) [of k env q fuel n "Some hi" q' hi]
    by (auto simp: seq_try_claim_def split: option.splits)
qed

section \<open>Recording a failure\<close>

lemma sp_record_sel:
  "sp_mem (sp_record_failure f s) = sp_mem s" "sp_gating (sp_record_failure f s) = sp_gating s"
  "sp_cursor (sp_record_failure f s) = sp_cursor s" "sp_buffer_size (sp_record_failure f s) = sp_buffer_size s"
  "sp_buffer_size_i64 (sp_record_failure f s) = sp_buffer_size_i64 s"
  "sp_next_value (sp_record_failure f s) = sp_next_value s"
  "sp_cached_value (sp_record_failure f s) = sp_cached_value s" "sp_closed (sp_record_failure f s) = sp_closed s"
  "sp_first_failure (sp_record_failure f s) = Some (case sp_first_failure s of Some g \<Rightarrow> g | None \<Rightarrow> f)"
  by (auto simp: sp_record_failure_def)

lemma mp_record_sel:
  "mp_closed (mp_record_failure f s) = mp_closed s"
  "mp_first_failure (mp_record_failure f s) = Some (case mp_first_failure s of Some g \<Rightarrow> g | None \<Rightarrow> f)"
  "mp_poisoned (mp_poison s) = True" "mp_closed (mp_poison s) = mp_closed s"
  "mp_first_failure (mp_poison s) = mp_first_failure s"
  by (auto simp: mp_record_failure_def mp_poison_def mp_signal_def)

lemma mp_poison_record_frame:
  "mp_mem (mp_poison (mp_record_failure f s)) = mp_mem s"
  "mp_gating (mp_poison (mp_record_failure f s)) = mp_gating s"
  "mp_cursor (mp_poison (mp_record_failure f s)) = mp_cursor s"
  "mp_avail (mp_poison (mp_record_failure f s)) = mp_avail s"
  "mp_buffer_size (mp_poison (mp_record_failure f s)) = mp_buffer_size s"
  "mp_buffer_size_i64 (mp_poison (mp_record_failure f s)) = mp_buffer_size_i64 s"
  "mp_cached_gating_sequence (mp_poison (mp_record_failure f s)) = mp_cached_gating_sequence s"
  using mp_lifecycle_frame [of mp_poison f "mp_record_failure f s"] mp_lifecycle_frame [of "mp_record_failure f" f s]
  by simp_all

lemma seq_poison_record:
  "seq_inv k q \<Longrightarrow> seq_inv k (seq_poison (seq_record_failure f q))"
  "seq_is_poisoned (seq_poison (seq_record_failure f q))"
  "seq_pos (seq_poison (seq_record_failure f q)) = seq_pos q"
  "seq_first_failure (seq_poison (seq_record_failure f q)) =
     Some (case seq_first_failure q of Some g \<Rightarrow> g | None \<Rightarrow> f)"
  "seq_is_closed (seq_poison (seq_record_failure f q)) = seq_is_closed q"
  "seq_is_available s (seq_poison (seq_record_failure f q)) = seq_is_available s q"
proof -
  show "seq_inv k q \<Longrightarrow> seq_inv k (seq_poison (seq_record_failure f q))"
  proof (cases q)
    case (SingleSeq s)
    assume "seq_inv k q"
    with SingleSeq have i: "sp_inv s" "sp_buffer_size s = 2 ^ k" by simp_all
    have "sp_inv (sp_poison (sp_record_failure f s))"
      by (rule sp_inv_frame [OF i(1)])
        (use i(1) in \<open>auto simp: sp_poison_def sp_signal_def sp_record_sel sp_inv_def\<close>)
    with SingleSeq i(2) show ?thesis by (simp add: sp_poison_def sp_signal_def sp_record_sel)
  qed (simp add: mp_inv_def mp_poison_record_frame below_def)
  show "seq_is_poisoned (seq_poison (seq_record_failure f q))"
    "seq_pos (seq_poison (seq_record_failure f q)) = seq_pos q"
    "seq_first_failure (seq_poison (seq_record_failure f q)) =
       Some (case seq_first_failure q of Some g \<Rightarrow> g | None \<Rightarrow> f)"
    "seq_is_closed (seq_poison (seq_record_failure f q)) = seq_is_closed q"
    "seq_is_available s (seq_poison (seq_record_failure f q)) = seq_is_available s q"
    by (cases q; simp add: sp_poison_def sp_signal_def sp_record_sel sp_is_poisoned_def sp_is_closed_def
        sp_is_available_def mp_poison_record_frame mp_is_available_def mp_is_poisoned_def mp_is_closed_def
        mp_record_sel)+
qed

section \<open>Properties\<close>

text \<open>
  Whichever sequencer is behind the dispatch, a producer that makes any series of blocking claims
  or try-claims, while consumers and other producers act in between, gets ranges in increasing order
  that never overlap each other or anything claimed before.
\<close>

theorem seq_claims_never_overlap:
  assumes "env_ok k env" and "seq_inv k q"
  shows "ordered_after (seq_pos q) (run_claims (seq_room k) (\<lambda>q n. seq_next_n fuel env n q) q ns) \<and>
    ordered_after (seq_pos q) (run_claims (seq_room k) (seq_try_claim fuel env) q ns)"
  using blocking_claims.claims_ordered [where env = env and k = k] try_claims.claims_ordered [where env = env and k = k] assms
  by blast

theorem seq_claims_never_overlap_witness:
  "run_claims (seq_room 2) (seq_try_claim 9 quiet) (MultiSeq mp_example) [1, 2, 5, 1] = [(0, 0), (1, 2), (3, 3)] \<and>
   ordered_after (- 1) [(0, 0), (1, 2), (3, 3)]"
proof -
  have "seq_inv 2 (MultiSeq mp_example)"
    using mp_started_inv [OF mp_example_started] by (simp add: mp_sys_inv_def mp_sys_init_def)
  moreover have r: "run_claims (seq_room 2) (seq_try_claim 9 quiet) (MultiSeq mp_example) [1, 2, 5, 1] =
      [(0, 0), (1, 2), (3, 3)]" by code_simp
  moreover have "seq_pos (MultiSeq mp_example) = - 1" by code_simp
  ultimately show ?thesis
    using seq_claims_never_overlap [of 2 quiet "MultiSeq mp_example" 9 "[1, 2, 5, 1]"] by simp
qed

text \<open>
  C39: failure handling of a sequencer. Poisoning with a failure leaves the pipeline poisoned and a
  causal record in place for whoever sees the flag; the first recorded failure wins over any later one;
  a closed sequencer refuses every claim with \<open>Shutdown\<close>, a poisoned one with \<open>Poisoned\<close>, without
  claiming anything, and reopening lifts the former but not the latter.
\<close>

theorem poison_and_close_are_terminal:
  assumes "seq_inv k q" and "1 \<le> n" and "n \<le> 2 ^ k"
  shows "seq_is_poisoned (seq_poison_with_failure f q) \<and>
    seq_first_failure (seq_poison_with_failure f q) =
      Some (case seq_first_failure q of Some g \<Rightarrow> g | None \<Rightarrow> f) \<and>
    seq_next_n (Suc (Suc fuel)) quiet n (seq_close q) = Some (Err Shutdown, seq_close q) \<and>
    seq_try_next_n (Suc (Suc fuel)) quiet n (seq_close q) = Some (None, seq_close q) \<and>
    (\<not> seq_is_closed q \<longrightarrow>
      seq_next_n (Suc (Suc fuel)) quiet n (seq_poison q) = Some (Err Poisoned, seq_poison q) \<and>
      seq_try_next_n (Suc (Suc fuel)) quiet n (seq_poison q) = Some (None, seq_poison q)) \<and>
    \<not> seq_is_closed (seq_reopen (seq_close q)) \<and>
    seq_is_poisoned (seq_reopen (seq_poison q))"
proof (cases q)
  case (SingleSeq s)
  with assms show ?thesis
    by (auto simp: seq_poison_with_failure_def sp_poison_def sp_is_poisoned_def sp_record_failure_def
        sp_signal_def sp_close_def sp_is_closed_def sp_reopen_def sp_next_n_def sp_try_next_n_def
        sp_claim_state_error_def quiet_def sp_inv_def)
next
  case (MultiSeq m)
  with assms show ?thesis
    by (auto simp: seq_poison_with_failure_def mp_poison_def mp_is_poisoned_def mp_record_failure_def
        mp_signal_def mp_close_def mp_is_closed_def mp_reopen_def mp_next_n_def mp_try_next_n_def
        mp_next_n_start_def mp_try_next_n_start_def quiet_def mp_inv_def)
qed

theorem poison_and_close_are_terminal_witness:
  "seq_next_n 3 quiet 2 (seq_close (MultiSeq mp_example)) = Some (Err Shutdown, seq_close (MultiSeq mp_example))"
proof -
  have "seq_inv 2 (MultiSeq mp_example)"
    using mp_started_inv [OF mp_example_started] by (simp add: mp_sys_inv_def mp_sys_init_def)
  from poison_and_close_are_terminal [OF this, of 2 "failure_record_new ConsumerPanic ''x''" 1]
  show ?thesis by (simp add: numeral_eq_Suc)
qed

end
