(* ===== verification/Barrier.thy ===== *)
theory Barrier
  imports Sequencer
begin

text \<open>
  The barrier consumers wait at: \<open>src/disruptor/sequence_barrier.rs\<close>. The barrier shares its sequencer,
  the tracked sequences and its alert flag with other threads, so a wait reads a trajectory of worlds:
  \<open>tr t\<close> is what the \<open>t\<close>-th load of the waiting thread sees. A wait returns its result and the time of
  its return; the outer \<open>None\<close> is a wait that still goes on, the inner one a panic. Log output is left out.
\<close>

section \<open>The barrier\<close>

record barrier =
  bar_cursor :: seq_ref
  bar_strategy :: wait_strategy
  bar_deps :: "seq_ref list"
  bar_alerted :: bool
  bar_seq :: sequencer
  needs_contiguity_check :: bool
  bar_signals :: nat

fun is_multi_seq :: "sequencer \<Rightarrow> bool" where
  "is_multi_seq (MultiSeq _) = True"
| "is_multi_seq (SingleSeq _) = False"

definition barrier_new :: "seq_ref \<Rightarrow> wait_strategy \<Rightarrow> seq_ref list \<Rightarrow> sequencer \<Rightarrow> barrier" where
  "barrier_new cursor strategy deps q =
     \<lparr>bar_cursor = cursor, bar_strategy = strategy, bar_deps = deps, bar_alerted = False, bar_seq = q,
      needs_contiguity_check = is_multi_seq q, bar_signals = 0\<rparr>"

text \<open>\<open>SequencerEnum::new_barrier\<close>, with the two \<open>new_barrier_typed\<close> it calls.\<close>

fun new_barrier :: "sequencer \<Rightarrow> seq_ref list \<Rightarrow> barrier" where
  "new_barrier (SingleSeq s) deps = barrier_new (sp_cursor s) (sp_wait_strategy s) deps (SingleSeq s)"
| "new_barrier (MultiSeq m) deps = barrier_new (mp_cursor m) (mp_wait_strategy m) deps (MultiSeq m)"

definition poison_producers :: "barrier \<Rightarrow> barrier" where
  "poison_producers b = b\<lparr>bar_seq := seq_poison (bar_seq b)\<rparr>"

definition bar_record_failure :: "failure_record \<Rightarrow> barrier \<Rightarrow> barrier" where
  "bar_record_failure f b = b\<lparr>bar_seq := seq_record_failure f (bar_seq b)\<rparr>"

definition bar_poison_with_failure :: "failure_record \<Rightarrow> barrier \<Rightarrow> barrier" where
  "bar_poison_with_failure f b = poison_producers (bar_record_failure f b)"

definition bar_first_failure :: "barrier \<Rightarrow> failure_record option" where
  "bar_first_failure b = seq_first_failure (bar_seq b)"

definition bar_get_cursor :: "barrier \<Rightarrow> seq_ref" where
  "bar_get_cursor b = bar_cursor b"

definition is_alerted :: "barrier \<Rightarrow> bool" where
  "is_alerted b = bar_alerted b"

definition alert :: "barrier \<Rightarrow> barrier" where
  "alert b = b\<lparr>bar_alerted := True,
     bar_signals := signal_all_when_blocking (bar_strategy b) (bar_signals b)\<rparr>"

definition clear_alert :: "barrier \<Rightarrow> barrier" where
  "clear_alert b = b\<lparr>bar_alerted := False\<rparr>"

definition check_alert :: "barrier \<Rightarrow> unit result" where
  "check_alert b = (if is_alerted b then Err Alert else Ok ())"

section \<open>What a waiting consumer sees\<close>

text \<open>\<open>bw_shutdown\<close> and \<open>bw_running\<close> are the flags a consumer loop is stopped with.\<close>

record bar_world =
  bw_bar :: barrier
  bw_shutdown :: bool
  bw_running :: bool
  bw_strategy_alerted :: bool
  bw_clock :: nat

definition bw_store :: "bar_world \<Rightarrow> store" where
  "bw_store w = seq_mem (bar_seq (bw_bar w))"

definition wait_view :: "bar_world traj \<Rightarrow> wait_env traj" where
  "wait_view tr = (\<lambda>t. \<lparr>we_store = bw_store (tr t), we_alerted = is_alerted (bw_bar (tr t)),
     we_shutdown = bw_shutdown (tr t), we_strategy_alerted = bw_strategy_alerted (tr t),
     we_clock = bw_clock (tr t)\<rparr>)"

text \<open>The availability arrays; only read when there are any.\<close>

fun seq_avail :: "sequencer \<Rightarrow> availability" where
  "seq_avail (MultiSeq m) = mp_avail m"

definition bw_avail :: "bar_world \<Rightarrow> availability" where
  "bw_avail w = seq_avail (bar_seq (bw_bar w))"

section \<open>The strategy behind the type parameter\<close>

text \<open>
  The barrier is generic in its wait strategy. The condition variable of the blocking strategy is a
  parameter: the unbounded and the bounded wait.
\<close>

type_synonym parking = "(nat \<Rightarrow> nat option) \<times> (nat \<Rightarrow> nat \<Rightarrow> nat \<times> bool)"

fun strategy_wait_for_with_alert ::
    "parking \<Rightarrow> wait_strategy \<Rightarrow> nat \<Rightarrow> wait_env traj \<Rightarrow> nat \<Rightarrow> i64 \<Rightarrow> seq_ref \<Rightarrow> seq_ref list \<Rightarrow>
     wait_outcome option" where
  "strategy_wait_for_with_alert pk BlockingStrategy = blocking_wait_for_with_alert (fst pk)"
| "strategy_wait_for_with_alert pk YieldingStrategy = yielding_wait_for_with_alert"
| "strategy_wait_for_with_alert pk BusySpinStrategy = busy_spin_wait_for_with_alert"
| "strategy_wait_for_with_alert pk (SleepingStrategy d) = sleeping_wait_for_with_alert d"

fun strategy_wait_for_with_timeout_and_alert ::
    "parking \<Rightarrow> wait_strategy \<Rightarrow> nat \<Rightarrow> nat \<Rightarrow> wait_env traj \<Rightarrow> nat \<Rightarrow> i64 \<Rightarrow> seq_ref \<Rightarrow> seq_ref list \<Rightarrow>
     wait_outcome option" where
  "strategy_wait_for_with_timeout_and_alert pk BlockingStrategy timeout =
     blocking_wait_for_with_timeout_and_alert (snd pk) timeout"
| "strategy_wait_for_with_timeout_and_alert pk YieldingStrategy timeout =
     yielding_wait_for_with_timeout_and_alert timeout"
| "strategy_wait_for_with_timeout_and_alert pk BusySpinStrategy timeout =
     busy_spin_wait_for_with_timeout_and_alert timeout"
| "strategy_wait_for_with_timeout_and_alert pk (SleepingStrategy d) timeout =
     sleeping_wait_for_with_timeout_and_alert d timeout"

fun strategy_wait_for_with_shutdown_and_alert ::
    "parking \<Rightarrow> wait_strategy \<Rightarrow> nat \<Rightarrow> wait_env traj \<Rightarrow> nat \<Rightarrow> i64 \<Rightarrow> seq_ref \<Rightarrow> seq_ref list \<Rightarrow>
     wait_outcome option" where
  "strategy_wait_for_with_shutdown_and_alert pk BlockingStrategy =
     blocking_wait_for_with_shutdown_and_alert (snd pk)"
| "strategy_wait_for_with_shutdown_and_alert pk YieldingStrategy = yielding_wait_for_with_shutdown_and_alert"
| "strategy_wait_for_with_shutdown_and_alert pk BusySpinStrategy = busy_spin_wait_for_with_shutdown_and_alert"
| "strategy_wait_for_with_shutdown_and_alert pk (SleepingStrategy d) =
     sleeping_wait_for_with_shutdown_and_alert d"

interpretation strategy: wait_contract "strategy_wait_for_with_alert pk ws" stops_alert for pk ws
  by (cases ws) (simp_all add: yielding.wait_contract_axioms busy_spin.wait_contract_axioms
      sleeping.wait_contract_axioms blocking.wait_contract_axioms)

lemma stops_timeout_weaken:
  "wait_contract w (stops_timeout d) \<Longrightarrow> wait_contract w stops_blocking_timeout"
  unfolding wait_contract_def stops_timeout_def stops_blocking_timeout_def by blast

interpretation strategy_timeout:
  wait_contract "strategy_wait_for_with_timeout_and_alert pk ws d" stops_blocking_timeout for pk ws d
  by (cases ws) (simp_all add: stops_timeout_weaken [OF yielding_timeout.wait_contract_axioms]
      stops_timeout_weaken [OF busy_spin_timeout.wait_contract_axioms]
      stops_timeout_weaken [OF sleeping_timeout.wait_contract_axioms] blocking_timeout.wait_contract_axioms)

interpretation strategy_shutdown:
  wait_contract "strategy_wait_for_with_shutdown_and_alert pk ws" stops_shutdown for pk ws
  by (cases ws) (simp_all add: yielding_shutdown.wait_contract_axioms
      busy_spin_shutdown.wait_contract_axioms sleeping_shutdown.wait_contract_axioms
      blocking_shutdown.wait_contract_axioms)

section \<open>Waiting at the barrier\<close>

definition resolve_highest_published ::
    "nat \<Rightarrow> bar_world traj \<Rightarrow> nat \<Rightarrow> i64 \<Rightarrow> i64 \<Rightarrow> i64 option option" where
  "resolve_highest_published fuel tr t sequence available_sequence =
     (if \<not> needs_contiguity_check (bw_bar (tr t)) \<or> available_sequence < sequence
      then Some (Some available_sequence)
      else seq_get_highest_published_sequence fuel (\<lambda>u. bw_avail (tr u)) t sequence available_sequence
             (bar_seq (bw_bar (tr t))))"

text \<open>The scan makes at most one load per sequence; the wait returns after that many.\<close>

definition scan_end :: "nat \<Rightarrow> i64 \<Rightarrow> i64 \<Rightarrow> nat" where
  "scan_end t sequence available_sequence = t + nat (available_sequence + 1 - sequence)"

type_synonym bar_outcome = "(i64 result option \<times> nat) option"

definition bar_resolve :: "nat \<Rightarrow> bar_world traj \<Rightarrow> nat \<Rightarrow> i64 \<Rightarrow> i64 \<Rightarrow> bar_outcome" where
  "bar_resolve fuel tr t sequence available_sequence =
     map_option (\<lambda>r. (map_option Ok r, scan_end t sequence available_sequence))
       (resolve_highest_published fuel tr t sequence available_sequence)"

definition bar_wait_for :: "parking \<Rightarrow> nat \<Rightarrow> bar_world traj \<Rightarrow> nat \<Rightarrow> i64 \<Rightarrow> bar_outcome" where
  "bar_wait_for pk fuel tr t sequence =
     (let b = bw_bar (tr t) in
      case check_alert b of
        Inl e \<Rightarrow> Some (Some (Err e), t)
      | Inr _ \<Rightarrow>
          (case strategy_wait_for_with_alert pk (bar_strategy b) fuel (wait_view tr) (Suc t) sequence
                  (bar_cursor b) (bar_deps b) of
             None \<Rightarrow> None
           | Some (Inl e, t1, _) \<Rightarrow> Some (Some (Err e), t1)
           | Some (Inr available_sequence, t1, _) \<Rightarrow>
               (case check_alert (bw_bar (tr t1)) of
                  Inl e \<Rightarrow> Some (Some (Err e), t1)
                | Inr _ \<Rightarrow> bar_resolve fuel tr (Suc t1) sequence available_sequence)))"

definition bar_wait_for_with_timeout ::
    "parking \<Rightarrow> nat \<Rightarrow> nat \<Rightarrow> bar_world traj \<Rightarrow> nat \<Rightarrow> i64 \<Rightarrow> bar_outcome" where
  "bar_wait_for_with_timeout pk timeout fuel tr t sequence =
     (let b = bw_bar (tr t) in
      case check_alert b of
        Inl e \<Rightarrow> Some (Some (Err e), t)
      | Inr _ \<Rightarrow>
          (case strategy_wait_for_with_timeout_and_alert pk (bar_strategy b) timeout fuel (wait_view tr)
                  (Suc t) sequence (bar_cursor b) (bar_deps b) of
             None \<Rightarrow> None
           | Some (Inl e, t1, _) \<Rightarrow>
               if e = Timeout then
                 (case check_alert (bw_bar (tr (Suc t1))) of
                    Inl e' \<Rightarrow> Some (Some (Err e'), Suc t1)
                  | Inr _ \<Rightarrow> Some (Some (Err Timeout), Suc t1))
               else Some (Some (Err e), t1)
           | Some (Inr available_sequence, t1, _) \<Rightarrow>
               (case check_alert (bw_bar (tr t1)) of
                  Inl e \<Rightarrow> Some (Some (Err e), t1)
                | Inr _ \<Rightarrow> bar_resolve fuel tr (Suc t1) sequence available_sequence)))"

definition bar_wait_for_with_shutdown ::
    "parking \<Rightarrow> nat \<Rightarrow> bar_world traj \<Rightarrow> nat \<Rightarrow> i64 \<Rightarrow> bar_outcome" where
  "bar_wait_for_with_shutdown pk fuel tr t sequence =
     (if bw_shutdown (tr t) then Some (Some (Err Alert), t)
      else let b = bw_bar (tr (Suc t)) in
        case check_alert b of
          Inl e \<Rightarrow> Some (Some (Err e), Suc t)
        | Inr _ \<Rightarrow>
            (case strategy_wait_for_with_shutdown_and_alert pk (bar_strategy b) fuel (wait_view tr)
                    (Suc (Suc t)) sequence (bar_cursor b) (bar_deps b) of
               None \<Rightarrow> None
             | Some (Inl e, t1, _) \<Rightarrow> Some (Some (Err e), t1)
             | Some (Inr available_sequence, t1, _) \<Rightarrow>
                 (case check_alert (bw_bar (tr t1)) of
                    Inl e \<Rightarrow> Some (Some (Err e), t1)
                  | Inr _ \<Rightarrow> bar_resolve fuel tr (Suc t1) sequence available_sequence)))"

text \<open>The default of the trait, which \<open>ProcessingSequenceBarrier\<close> overrides.\<close>

definition default_bar_wait_for_with_shutdown ::
    "(nat \<Rightarrow> bar_world traj \<Rightarrow> nat \<Rightarrow> i64 \<Rightarrow> bar_outcome) \<Rightarrow> nat \<Rightarrow> bar_world traj \<Rightarrow> nat \<Rightarrow> i64 \<Rightarrow> bar_outcome" where
  "default_bar_wait_for_with_shutdown wait_for fuel tr t sequence =
     (if bw_shutdown (tr t) then Some (Some (Err Alert), t)
      else case check_alert (bw_bar (tr (Suc t))) of
        Inl e \<Rightarrow> Some (Some (Err e), Suc t)
      | Inr _ \<Rightarrow> wait_for fuel tr (Suc (Suc t)) sequence)"

text \<open>The look without waiting; it checks the alert flag before and after.\<close>

definition try_get_available_sequence :: "nat \<Rightarrow> bar_world traj \<Rightarrow> nat \<Rightarrow> i64 \<Rightarrow> bar_outcome" where
  "try_get_available_sequence fuel tr t sequence =
     (let b = bw_bar (tr t) in
      case check_alert b of
        Inl e \<Rightarrow> Some (Some (Err e), t)
      | Inr _ \<Rightarrow>
          let available_sequence =
                (if bar_deps b = [] then seq_get (bw_store (tr (Suc t))) (bar_cursor b)
                 else get_minimum_sequence (\<lambda>u. bw_store (tr u)) (Suc t) (bar_deps b));
              t1 = Suc t + wait_loads (bar_deps b)
          in case resolve_highest_published fuel tr t1 sequence available_sequence of
               None \<Rightarrow> None
             | Some r \<Rightarrow>
                 let t2 = scan_end t1 sequence available_sequence
                 in case (r, check_alert (bw_bar (tr t2))) of
                      (None, _) \<Rightarrow> Some (None, t2)
                    | (Some _, Inl e) \<Rightarrow> Some (Some (Err e), t2)
                    | (Some highest_published, Inr _) \<Rightarrow> Some (Some (Ok highest_published), t2))"

section \<open>The contract of a barrier\<close>

text \<open>A sequence a consumer of the barrier may read.\<close>

definition bw_tracked :: "bar_world \<Rightarrow> seq_ref set" where
  "bw_tracked w = tracked (bar_cursor (bw_bar w)) (bar_deps (bw_bar w))"

definition readable :: "bar_world \<Rightarrow> i64 \<Rightarrow> bool" where
  "readable w s \<longleftrightarrow> (\<forall>r\<in>bw_tracked w. s \<le> bw_store w r) \<and>
     (is_multi_seq (bar_seq (bw_bar w)) \<longrightarrow> avail (bw_avail w) s)"

text \<open>
  What the other threads do during a wait for \<open>sequence\<close>: the tracked sequences only move forward, and a
  readable sequence that the waiting consumer has not passed is not overwritten (the consumer's own
  sequence gates the producers).
\<close>

definition bar_env :: "nat \<Rightarrow> i64 \<Rightarrow> bar_world traj \<Rightarrow> bool" where
  "bar_env k sequence tr \<longleftrightarrow>
     (\<forall>t. bar_cursor (bw_bar (tr t)) = bar_cursor (bw_bar (tr 0)) \<and>
          bar_strategy (bw_bar (tr t)) = bar_strategy (bw_bar (tr 0)) \<and>
          bar_deps (bw_bar (tr t)) = bar_deps (bw_bar (tr 0)) \<and>
          is_multi_seq (bar_seq (bw_bar (tr t))) = is_multi_seq (bar_seq (bw_bar (tr 0))) \<and>
          needs_contiguity_check (bw_bar (tr t)) = is_multi_seq (bar_seq (bw_bar (tr 0))) \<and>
          (\<forall>r\<in>bw_tracked (tr 0). bw_store (tr t) r < i64_max)) \<and>
     mono_traj (\<lambda>t. bw_store (tr t)) (bw_tracked (tr 0)) \<and>
     (is_multi_seq (bar_seq (bw_bar (tr 0))) \<longrightarrow>
       (\<forall>t. avail_inv k (bw_avail (tr t))) \<and>
       (\<forall>s u u'. sequence \<le> s \<and> u \<le> u' \<and> readable (tr u) s \<longrightarrow> avail (bw_avail (tr u')) s))"

lemma bar_envD:
  assumes "bar_env k sequence tr"
  shows "bar_cursor (bw_bar (tr t)) = bar_cursor (bw_bar (tr 0))"
    "bar_strategy (bw_bar (tr t)) = bar_strategy (bw_bar (tr 0))"
    "bar_deps (bw_bar (tr t)) = bar_deps (bw_bar (tr 0))"
    "is_multi_seq (bar_seq (bw_bar (tr t))) = is_multi_seq (bar_seq (bw_bar (tr 0)))"
    "needs_contiguity_check (bw_bar (tr t)) = is_multi_seq (bar_seq (bw_bar (tr 0)))"
    "bw_tracked (tr t) = bw_tracked (tr 0)"
    "r \<in> bw_tracked (tr 0) \<Longrightarrow> bw_store (tr t) r < i64_max"
    "mono_traj (\<lambda>t. bw_store (tr t)) (bw_tracked (tr 0))"
    "is_multi_seq (bar_seq (bw_bar (tr 0))) \<Longrightarrow> avail_inv k (bw_avail (tr t))"
    "is_multi_seq (bar_seq (bw_bar (tr 0))) \<Longrightarrow> sequence \<le> s \<Longrightarrow> u \<le> u' \<Longrightarrow>
       readable (tr u) s \<Longrightarrow> avail (bw_avail (tr u')) s"
proof -
  have A: "bar_cursor (bw_bar (tr t)) = bar_cursor (bw_bar (tr 0)) \<and>
      bar_strategy (bw_bar (tr t)) = bar_strategy (bw_bar (tr 0)) \<and>
      bar_deps (bw_bar (tr t)) = bar_deps (bw_bar (tr 0)) \<and>
      is_multi_seq (bar_seq (bw_bar (tr t))) = is_multi_seq (bar_seq (bw_bar (tr 0))) \<and>
      needs_contiguity_check (bw_bar (tr t)) = is_multi_seq (bar_seq (bw_bar (tr 0))) \<and>
      (\<forall>r\<in>bw_tracked (tr 0). bw_store (tr t) r < i64_max)"
    using assms unfolding bar_env_def by (elim conjE) (erule spec)
  then show "bar_cursor (bw_bar (tr t)) = bar_cursor (bw_bar (tr 0))"
    "bar_strategy (bw_bar (tr t)) = bar_strategy (bw_bar (tr 0))"
    "bar_deps (bw_bar (tr t)) = bar_deps (bw_bar (tr 0))"
    "is_multi_seq (bar_seq (bw_bar (tr t))) = is_multi_seq (bar_seq (bw_bar (tr 0)))"
    "needs_contiguity_check (bw_bar (tr t)) = is_multi_seq (bar_seq (bw_bar (tr 0)))"
    "r \<in> bw_tracked (tr 0) \<Longrightarrow> bw_store (tr t) r < i64_max"
    by blast+
  show "bw_tracked (tr t) = bw_tracked (tr 0)" using A by (simp add: bw_tracked_def)
  show "mono_traj (\<lambda>t. bw_store (tr t)) (bw_tracked (tr 0))"
    "is_multi_seq (bar_seq (bw_bar (tr 0))) \<Longrightarrow> avail_inv k (bw_avail (tr t))"
    "is_multi_seq (bar_seq (bw_bar (tr 0))) \<Longrightarrow> sequence \<le> s \<Longrightarrow> u \<le> u' \<Longrightarrow>
       readable (tr u) s \<Longrightarrow> avail (bw_avail (tr u')) s"
    using assms unfolding bar_env_def by blast+
qed

lemma wait_view_sel [simp]:
  "we_store (wait_view tr t) = bw_store (tr t)"
  "we_alerted (wait_view tr t) = is_alerted (bw_bar (tr t))"
  "we_shutdown (wait_view tr t) = bw_shutdown (tr t)"
  "we_strategy_alerted (wait_view tr t) = bw_strategy_alerted (tr t)"
  "we_clock (wait_view tr t) = bw_clock (tr t)"
  by (simp_all add: wait_view_def)

lemma tracked_nonempty: "tracked c ds \<noteq> {}"
  by (simp add: tracked_def)

text \<open>What a wait has loaded stays below the tracked sequences.\<close>

lemma bar_loaded_le:
  assumes "bar_env k sequence tr" and "r \<in> bw_tracked (tr 0)" and "u + wait_loads (bar_deps (bw_bar (tr 0))) \<le> Suc t'"
  shows "wait_available_sequence (wait_view tr) u (bar_cursor (bw_bar (tr 0))) (bar_deps (bw_bar (tr 0)))
    \<le> bw_store (tr t') r"
  using wait_available_stale [of "wait_view tr" "bar_cursor (bw_bar (tr 0))" "bar_deps (bw_bar (tr 0))" r u t']
    bar_envD(8) [OF assms(1)] assms(2,3)
  by (simp add: bw_tracked_def)

lemma bar_resolve_spec:
  fixes tr :: "bar_world traj"
  defines "b \<equiv> bw_bar (tr 0)"
  assumes env: "bar_env k sequence tr" and "0 \<le> sequence" and "u + wait_loads (bar_deps b) \<le> t"
    and a: "a = wait_available_sequence (wait_view tr) u (bar_cursor b) (bar_deps b)"
    and res: "resolve_highest_published fuel tr t sequence a = Some r"
  shows "\<exists>hi. r = Some hi \<and> hi \<le> a \<and>
    (\<forall>s v. sequence \<le> s \<and> s \<le> hi \<and> scan_end t sequence a \<le> v \<longrightarrow> readable (tr v) s) \<and>
    (sequence \<le> a \<longrightarrow> sequence - 1 \<le> hi)"
proof -
  have below: "s \<le> bw_store (tr v) x" if "s \<le> a" "t \<le> v" "x \<in> bw_tracked (tr 0)" for s v x
    using bar_loaded_le [OF env that(3), of u v] assms(4) that(1,2) a unfolding b_def by simp
  show ?thesis
  proof (cases "is_multi_seq (bar_seq b) \<and> sequence \<le> a")
    case False
    then have "r = Some a" using res bar_envD(5) [OF env] b_def
      by (auto simp: resolve_highest_published_def split: if_splits)
    moreover have "readable (tr v) s" if "sequence \<le> s" "s \<le> a" "scan_end t sequence a \<le> v" for s v
      using that False below [of s v] bar_envD(4,6) [OF env, of v] b_def
      by (auto simp: readable_def scan_end_def)
    ultimately show ?thesis by auto
  next
    case True
    then have multi: "is_multi_seq (bar_seq (bw_bar (tr 0)))" by (simp add: b_def)
    obtain x where x: "x \<in> bw_tracked (tr 0)" using tracked_nonempty by (auto simp: bw_tracked_def)
    have amax: "a < i64_max" using below [OF order_refl order_refl x] bar_envD(7) [OF env x, of t] by simp
    have scan: "mp_get_highest_published_sequence fuel (\<lambda>u. bw_avail (tr u)) t sequence a = Some r"
      using res True multi bar_envD(4,5) [OF env, of t]
      by (cases "bar_seq (bw_bar (tr t))") (auto simp: resolve_highest_published_def)
    have ready: "readable (tr v) s" if "s \<le> a" "t \<le> v" "avail (bw_avail (tr v)) s" for s v
      using that below [of s v] bar_envD(6) [OF env, of v] by (simp add: readable_def)
    have "\<exists>m v. r = Some m \<and> t \<le> v \<and> v \<le> t + nat (a + 1 - sequence) \<and>
        is_highest (avail (bw_avail (tr v))) sequence a m"
      by (rule highest_published_result [where tr = "\<lambda>u. bw_avail (tr u)", OF bar_envD(9) [OF env multi]
            assms(3) _ amax _ scan])
        (use True in simp, rule bar_envD(10) [OF env multi _ _ ready])
    then obtain m v where m: "r = Some m" "t \<le> v" "v \<le> scan_end t sequence a"
        "is_highest (avail (bw_avail (tr v))) sequence a m"
      by (auto simp: scan_end_def)
    have "readable (tr w) s" if "sequence \<le> s" "s \<le> m" "scan_end t sequence a \<le> w" for s w
    proof (rule ready)
      show "avail (bw_avail (tr w)) s"
        by (rule bar_envD(10) [OF env multi that(1) _ ready]) (use that m in \<open>auto simp: is_highest_def\<close>)
    qed (use that m in \<open>auto simp: is_highest_def\<close>)
    with m show ?thesis by (auto simp: is_highest_def)
  qed
qed

text \<open>What consumers rely on.\<close>

definition bar_outcome_ok ::
    "(bar_world traj \<Rightarrow> disruptor_error \<Rightarrow> nat \<Rightarrow> bool) \<Rightarrow> i64 \<Rightarrow> bar_world traj \<Rightarrow> nat \<Rightarrow>
     i64 result option \<Rightarrow> nat \<Rightarrow> bool" where
  "bar_outcome_ok st sequence tr t r t' \<longleftrightarrow> t \<le> t' \<and>
     (case r of
        None \<Rightarrow> False
      | Some (Inl e) \<Rightarrow> st tr e t'
      | Some (Inr hi) \<Rightarrow> \<forall>s v. sequence \<le> s \<and> s \<le> hi \<and> t' \<le> v \<longrightarrow> readable (tr v) s)"

lemma bar_outcome_Err: "t \<le> t' \<Longrightarrow> st tr e t' \<Longrightarrow> bar_outcome_ok st sequence tr t (Some (Inl e)) t'"
  by (simp add: bar_outcome_ok_def)

lemma bar_outcome_weaken:
  "bar_outcome_ok st sequence tr t r t' \<Longrightarrow> t0 \<le> t \<Longrightarrow> (\<And>e. st tr e t' \<Longrightarrow> st' tr e t') \<Longrightarrow>
     bar_outcome_ok st' sequence tr t0 r t'"
  by (auto simp: bar_outcome_ok_def split: option.splits sum.splits)

locale barrier_contract =
  fixes bwait :: "nat \<Rightarrow> bar_world traj \<Rightarrow> nat \<Rightarrow> i64 \<Rightarrow> bar_outcome"
    and bstops :: "bar_world traj \<Rightarrow> disruptor_error \<Rightarrow> nat \<Rightarrow> bool"
  assumes outcome: "bar_env k sequence tr \<Longrightarrow> 0 \<le> sequence \<Longrightarrow> bwait fuel tr t sequence = Some (r, t') \<Longrightarrow>
      bar_outcome_ok bstops sequence tr t r t'"
begin

lemma time_advances:
  "bar_env k sequence tr \<Longrightarrow> 0 \<le> sequence \<Longrightarrow> bwait fuel tr t sequence = Some (r, t') \<Longrightarrow> t \<le> t'"
  using outcome by (simp add: bar_outcome_ok_def)

lemma no_panic:
  "bar_env k sequence tr \<Longrightarrow> 0 \<le> sequence \<Longrightarrow> bwait fuel tr t sequence \<noteq> Some (None, t')"
  using outcome [of k sequence tr fuel t None t'] by (auto simp: bar_outcome_ok_def)

lemma batch_readable:
  "bar_env k sequence tr \<Longrightarrow> 0 \<le> sequence \<Longrightarrow> bwait fuel tr t sequence = Some (Some (Inr hi), t') \<Longrightarrow>
     sequence \<le> s \<Longrightarrow> s \<le> hi \<Longrightarrow> t' \<le> v \<Longrightarrow> readable (tr v) s"
  using outcome [of k sequence tr fuel t "Some (Inr hi)" t'] by (auto simp: bar_outcome_ok_def)

lemma error_stops:
  "bar_env k sequence tr \<Longrightarrow> 0 \<le> sequence \<Longrightarrow> bwait fuel tr t sequence = Some (Some (Inl e), t') \<Longrightarrow>
     bstops tr e t'"
  using outcome [of k sequence tr fuel t "Some (Inl e)" t'] by (auto simp: bar_outcome_ok_def)

end

definition alert_seen :: "bar_world traj \<Rightarrow> disruptor_error \<Rightarrow> nat \<Rightarrow> bool" where
  "alert_seen tr e t \<longleftrightarrow> e = Alert \<and> (is_alerted (bw_bar (tr t)) \<or> bw_strategy_alerted (tr t))"

definition stop_seen :: "bar_world traj \<Rightarrow> disruptor_error \<Rightarrow> nat \<Rightarrow> bool" where
  "stop_seen tr e t \<longleftrightarrow> alert_seen tr e t \<or> e = Alert \<and> bw_shutdown (tr t)"

definition timeout_seen :: "bar_world traj \<Rightarrow> disruptor_error \<Rightarrow> nat \<Rightarrow> bool" where
  "timeout_seen tr e t \<longleftrightarrow> alert_seen tr e t \<or> e = Timeout \<and> \<not> is_alerted (bw_bar (tr t))"

lemmas seen_defs = alert_seen_def stop_seen_def timeout_seen_def

lemma bar_resolve_outcome:
  fixes tr :: "bar_world traj"
  defines "b \<equiv> bw_bar (tr 0)"
  assumes env: "bar_env k sequence tr" "0 \<le> sequence"
    and "bar_resolve fuel tr (Suc t1) sequence (wait_available_sequence (wait_view tr) u (bar_cursor b) (bar_deps b))
      = Some (r, t')"
    and u: "t \<le> u" "u + wait_loads (bar_deps b) \<le> t1"
  shows "bar_outcome_ok st sequence tr t r t'"
proof -
  define a where "a = wait_available_sequence (wait_view tr) u (bar_cursor b) (bar_deps b)"
  from assms(4) obtain r0 where r0: "resolve_highest_published fuel tr (Suc t1) sequence a = Some r0"
    "r = map_option Ok r0" "t' = scan_end (Suc t1) sequence a"
    by (auto simp: bar_resolve_def a_def)
  have "u + wait_loads (bar_deps (bw_bar (tr 0))) \<le> Suc t1" using u b_def by simp
  from bar_resolve_spec [OF env this a_def [unfolded b_def] r0(1)] obtain hi where
    "r0 = Some hi" "\<And>s v. sequence \<le> s \<Longrightarrow> s \<le> hi \<Longrightarrow> t' \<le> v \<Longrightarrow> readable (tr v) s"
    using r0(3) by blast
  with r0 u show ?thesis by (simp add: scan_end_def bar_outcome_ok_def)
qed

lemma check_alert_cases: "check_alert b = Inl e \<longleftrightarrow> is_alerted b \<and> e = Alert"
  by (auto simp: check_alert_def)

interpretation bar_wait: barrier_contract "bar_wait_for pk" alert_seen for pk
proof
  fix k sequence tr fuel t r t'
  assume env: "bar_env k sequence tr" "0 \<le> sequence" and run: "bar_wait_for pk fuel tr t sequence = Some (r, t')"
  note run' = run [unfolded bar_wait_for_def Let_def bar_envD(1-3) [OF env(1), of t]]
  show "bar_outcome_ok alert_seen sequence tr t r t'"
    using run'
    by (auto simp: check_alert_cases seen_defs stops_alert_def split: sum.splits option.splits prod.splits
        dest!: strategy.ok_reached strategy.err_stops
        intro!: bar_outcome_Err intro: bar_resolve_outcome [OF env])
qed

interpretation bar_wait_timeout:
  barrier_contract "bar_wait_for_with_timeout pk timeout" timeout_seen for pk timeout
proof
  fix k sequence tr fuel t r t'
  assume env: "bar_env k sequence tr" "0 \<le> sequence"
    and run: "bar_wait_for_with_timeout pk timeout fuel tr t sequence = Some (r, t')"
  note run' = run [unfolded bar_wait_for_with_timeout_def Let_def bar_envD(1-3) [OF env(1), of t]]
  show "bar_outcome_ok timeout_seen sequence tr t r t'"
    using run'
    by (auto simp: check_alert_def seen_defs stops_blocking_timeout_def stops_alert_def
        split: sum.splits option.splits prod.splits if_splits
        dest!: strategy_timeout.ok_reached strategy_timeout.err_stops
        intro!: bar_outcome_Err intro: bar_resolve_outcome [OF env])
qed

interpretation bar_wait_shutdown: barrier_contract "bar_wait_for_with_shutdown pk" stop_seen for pk
proof
  fix k sequence tr fuel t r t'
  assume env: "bar_env k sequence tr" "0 \<le> sequence"
    and run: "bar_wait_for_with_shutdown pk fuel tr t sequence = Some (r, t')"
  note run' = run [unfolded bar_wait_for_with_shutdown_def Let_def bar_envD(1-3) [OF env(1), of "Suc t"]]
  show "bar_outcome_ok stop_seen sequence tr t r t'"
    using run'
    by (auto simp: check_alert_cases seen_defs stops_shutdown_def stops_alert_def
        split: sum.splits option.splits prod.splits if_splits
        dest!: strategy_shutdown.ok_reached strategy_shutdown.err_stops
        intro!: bar_outcome_Err intro: bar_resolve_outcome [OF env])
qed

interpretation bar_wait_default:
  barrier_contract "default_bar_wait_for_with_shutdown (bar_wait_for pk)" stop_seen for pk
proof
  fix k sequence tr fuel t r t'
  assume env: "bar_env k sequence tr" "0 \<le> sequence"
    and run: "default_bar_wait_for_with_shutdown (bar_wait_for pk) fuel tr t sequence = Some (r, t')"
  then consider "t \<le> t'" "r = Some (Err Alert)" "bw_shutdown (tr t') \<or> is_alerted (bw_bar (tr t'))"
    | "bar_wait_for pk fuel tr (Suc (Suc t)) sequence = Some (r, t')"
    by (auto simp: default_bar_wait_for_with_shutdown_def check_alert_cases split: if_splits sum.splits)
  then show "bar_outcome_ok stop_seen sequence tr t r t'"
  proof cases
    case 2
    from bar_wait.outcome [OF env this] show ?thesis
      by (rule bar_outcome_weaken) (simp_all add: stop_seen_def)
  qed (auto simp: seen_defs intro!: bar_outcome_Err)
qed

interpretation bar_try: barrier_contract try_get_available_sequence alert_seen
proof
  fix k sequence tr fuel t r t'
  assume env: "bar_env k sequence tr" "0 \<le> sequence"
    and run: "try_get_available_sequence fuel tr t sequence = Some (r, t')"
  let ?b = "bw_bar (tr 0)"
  define t1 where "t1 = Suc t + wait_loads (bar_deps ?b)"
  define a where "a = wait_available_sequence (wait_view tr) (Suc t) (bar_cursor ?b) (bar_deps ?b)"
  have a_eq: "a = (if bar_deps ?b = [] then seq_get (bw_store (tr (Suc t))) (bar_cursor ?b)
      else get_minimum_sequence (\<lambda>u. bw_store (tr u)) (Suc t) (bar_deps ?b))"
    by (simp add: a_def wait_available_sequence_def)
  note run' = run [unfolded try_get_available_sequence_def Let_def bar_envD(1-3) [OF env(1), of t],
      folded a_eq t1_def]
  show "bar_outcome_ok alert_seen sequence tr t r t'"
  proof (cases "check_alert (bw_bar (tr t))")
    case (Inl e)
    with run' show ?thesis by (auto simp: check_alert_cases seen_defs intro!: bar_outcome_Err)
  next
    case (Inr _)
    with run' obtain r0 where r0: "resolve_highest_published fuel tr t1 sequence a = Some r0"
      by (auto split: option.splits)
    have "Suc t + wait_loads (bar_deps ?b) \<le> t1" by (simp add: t1_def)
    from bar_resolve_spec [OF env this a_def r0] obtain hi where
      hi: "r0 = Some hi" "\<And>s v. sequence \<le> s \<Longrightarrow> s \<le> hi \<Longrightarrow> scan_end t1 sequence a \<le> v \<Longrightarrow> readable (tr v) s"
      by blast
    with run' Inr r0 show ?thesis
      by (auto simp: check_alert_cases seen_defs bar_outcome_ok_def scan_end_def t1_def split: sum.splits)
  qed
qed

section \<open>Waits return\<close>

text \<open>The polling strategies.\<close>

definition polls :: "wait_strategy \<Rightarrow> bool" where
  "polls ws \<longleftrightarrow> ws \<noteq> BlockingStrategy"

lemma strategy_mono:
  assumes "polls ws" and "strategy_wait_for_with_alert pk ws fuel tr t sequence cursor deps = Some r" and "fuel \<le> fuel'"
  shows "strategy_wait_for_with_alert pk ws fuel' tr t sequence cursor deps = Some r"
  using assms by (cases ws) (auto simp: polls_def wait_defs intro: poll_mono)

lemma strategy_returns:
  assumes "polls ws"
    and "(\<forall>u\<ge>T. we_alerted (tr u)) \<or> (\<forall>u\<ge>T. \<forall>r\<in>tracked cursor deps. sequence \<le> we_store (tr u) r)"
    and "T < fuel"
  shows "\<exists>r. strategy_wait_for_with_alert pk ws fuel tr t sequence cursor deps = Some r"
proof -
  have "\<exists>r. strategy_wait_for_with_alert pk ws (Suc (T - t)) tr t sequence cursor deps = Some r"
    using yielding.returns [OF assms(2)] busy_spin.returns [OF assms(2)] sleeping.returns [OF assms(2)] assms(1)
    by (cases ws) (auto simp: polls_def)
  with strategy_mono [OF assms(1), of pk "Suc (T - t)" tr t sequence cursor deps _ fuel] assms(3)
  show ?thesis by auto
qed

lemma highest_published_mono:
  assumes "mp_get_highest_published_sequence fuel tr t lo hi = Some r" and "fuel \<le> fuel'"
  shows "mp_get_highest_published_sequence fuel' tr t lo hi = Some r"
  using assms by (auto simp: mp_get_highest_published_sequence_def get_highest_published_sequence_bitmap_def
      get_highest_published_sequence_legacy_def intro: poll_mono split: if_splits)

lemma bar_resolve_returns:
  fixes tr :: "bar_world traj"
  assumes env: "bar_env k sequence tr" "0 \<le> sequence" and "sequence \<le> a" and "a < i64_max"
    and fuel: "nat (a + 1 - sequence) < fuel"
  shows "\<exists>r. bar_resolve fuel tr t sequence a = Some r"
proof (cases "is_multi_seq (bar_seq (bw_bar (tr t)))")
  case True
  then have multi: "is_multi_seq (bar_seq (bw_bar (tr 0)))" using bar_envD(4) [OF env(1), of t] by simp
  from highest_published_returns [where tr = "\<lambda>u. bw_avail (tr u)" and t = t, OF bar_envD(9) [OF env(1) multi]
      env(2) _ assms(4)] assms(3) obtain r where
    "mp_get_highest_published_sequence (Suc (nat (a + 1 - sequence))) (\<lambda>u. bw_avail (tr u)) t sequence a = Some r"
    by auto
  from highest_published_mono [OF this] fuel
  have "mp_get_highest_published_sequence fuel (\<lambda>u. bw_avail (tr u)) t sequence a = Some r" by simp
  with True show ?thesis
    by (cases "bar_seq (bw_bar (tr t))") (auto simp: bar_resolve_def resolve_highest_published_def)
next
  case False
  then show ?thesis
    by (cases "bar_seq (bw_bar (tr t))") (auto simp: bar_resolve_def resolve_highest_published_def)
qed

lemma bar_wait_returns:
  fixes tr :: "bar_world traj"
  assumes env: "bar_env k sequence tr" "0 \<le> sequence" and "polls (bar_strategy (bw_bar (tr 0)))"
    and goal: "(\<forall>u\<ge>T. is_alerted (bw_bar (tr u))) \<or>
      (\<forall>u\<ge>T. \<forall>r\<in>bw_tracked (tr 0). sequence \<le> bw_store (tr u) r)"
    and bound: "r0 \<in> bw_tracked (tr 0)" "\<And>u. bw_store (tr u) r0 \<le> B"
    and fuel: "T < fuel" "nat (B + 1 - sequence) < fuel"
  shows "\<exists>r t'. bar_wait_for pk fuel tr t sequence = Some (r, t')"
proof (cases "is_alerted (bw_bar (tr t))")
  case True
  then show ?thesis by (simp add: bar_wait_for_def check_alert_def)
next
  case False
  let ?b = "bw_bar (tr 0)"
  from goal have g: "(\<forall>u\<ge>T. we_alerted (wait_view tr u)) \<or>
      (\<forall>u\<ge>T. \<forall>r\<in>tracked (bar_cursor ?b) (bar_deps ?b). sequence \<le> we_store (wait_view tr u) r)"
    by (simp add: bw_tracked_def)
  from strategy_returns [OF assms(3) g fuel(1), of pk "Suc t"] obtain q t1 acts where
    w: "strategy_wait_for_with_alert pk (bar_strategy ?b) fuel (wait_view tr) (Suc t) sequence
      (bar_cursor ?b) (bar_deps ?b) = Some (q, t1, acts)"
    by (metis prod_cases3)
  have run: "bar_wait_for pk fuel tr t sequence =
      (case q of Inl e \<Rightarrow> Some (Some (Err e), t1)
       | Inr a \<Rightarrow> (case check_alert (bw_bar (tr t1)) of Inl e \<Rightarrow> Some (Some (Err e), t1)
                  | Inr _ \<Rightarrow> bar_resolve fuel tr (Suc t1) sequence a))"
    using False w bar_envD(1-3) [OF env(1), of t] by (simp add: bar_wait_for_def check_alert_def split: sum.split)
  show ?thesis
  proof (cases q)
    case (Inr a)
    with w have "sequence \<le> a" and "\<exists>u. u + wait_loads (bar_deps ?b) \<le> t1 \<and>
        a = wait_available_sequence (wait_view tr) u (bar_cursor ?b) (bar_deps ?b)"
      using strategy.ok_reached by blast+
    moreover from this(2) have "a \<le> bw_store (tr t1) r0"
      using bar_loaded_le [OF env(1) bound(1)] by auto
    ultimately have "\<exists>r. bar_resolve fuel tr (Suc t1) sequence a = Some r"
      using bar_resolve_returns [OF env] bar_envD(7) [OF env(1) bound(1), of t1] bound(2) [of t1] fuel(2) by simp
    with run Inr show ?thesis by (auto split: sum.split)
  qed (simp add: run)
qed

section \<open>Properties\<close>

text \<open>
  C6: a barrier never lets a consumer at an event that is not ready. Whichever of the four ways of
  waiting is used, with whichever strategy and sequencer, while other threads claim and publish: it does
  not panic, and when it returns a sequence, then from that moment on every sequence from the requested
  one up to it is readable, that is, passed by everything the barrier tracks and, with several
  producers, published; claims that are still being written are never exposed.
\<close>

theorem barrier_exposes_only_published:
  assumes "bar_env k sequence tr" and "0 \<le> sequence"
    and "w \<in> {bar_wait_for pk, bar_wait_for_with_shutdown pk, bar_wait_for_with_timeout pk timeout,
      try_get_available_sequence}"
    and "w fuel tr t sequence = Some (r, t')"
  shows "t \<le> t' \<and> r \<noteq> None \<and>
    (\<forall>hi s v. r = Some (Inr hi) \<and> sequence \<le> s \<and> s \<le> hi \<and> t' \<le> v \<longrightarrow> readable (tr v) s)"
proof -
  have "\<exists>st. bar_outcome_ok st sequence tr t r t'"
    using assms(3,4)
    by (elim insertE emptyE; simp only:)
      (blast dest: bar_wait.outcome [OF assms(1,2)] bar_wait_shutdown.outcome [OF assms(1,2)]
        bar_wait_timeout.outcome [OF assms(1,2)] bar_try.outcome [OF assms(1,2)])+
  then show ?thesis by (auto simp: bar_outcome_ok_def split: option.splits sum.splits)
qed

text \<open>
  A multi-producer ring of 4: the sequences 0 to 2 are claimed, 0 and 2 are published, 1 is not.
\<close>

definition example_gap :: sequencer where
  "example_gap =
     (case seq_try_next_n 9 quiet 3 (MultiSeq mp_example) of
        Some (_, q) \<Rightarrow> the (seq_publish 2 (the (seq_publish 0 q)))
      | None \<Rightarrow> MultiSeq mp_example)"

definition example_world :: bar_world where
  "example_world =
     \<lparr>bw_bar = new_barrier example_gap [], bw_shutdown = False, bw_running = True, bw_strategy_alerted = False, bw_clock = 0\<rparr>"

lemma example_world_env: "bar_env 2 0 (\<lambda>_. example_world)"
proof -
  have "avail_inv 2 (bw_avail example_world)"
    "needs_contiguity_check (bw_bar example_world)" "is_multi_seq (bar_seq (bw_bar example_world))"
    "bw_store example_world (bar_cursor (bw_bar example_world)) = 2" "bar_deps (bw_bar example_world) = []"
    by code_simp+
  then show ?thesis by (auto simp: bar_env_def bw_tracked_def tracked_def mono_traj_def readable_def)
qed

theorem barrier_exposes_only_published_witness:
  "bar_wait_for (\<lambda>_. None, \<lambda>_ _. (0, True)) 9 (\<lambda>_. example_world) 0 0 = Some (Some (Ok 0), 7) \<and>
   readable example_world 0 \<and> \<not> readable example_world 1 \<and> readable example_world 2"
proof -
  have run: "bar_wait_for (\<lambda>_. None, \<lambda>_ _. (0, True)) 9 (\<lambda>_. example_world) 0 0 = Some (Some (Ok 0), 7)"
    by code_simp
  have "readable example_world 0"
    using barrier_exposes_only_published [where w = "bar_wait_for (\<lambda>_. None, \<lambda>_ _. (0, True))",
        OF example_world_env _ _ run, of "(\<lambda>_. None, \<lambda>_ _. (0, True))"] by auto
  moreover have "\<not> avail (bw_avail example_world) 1" "avail (bw_avail example_world) 2"
    "is_multi_seq (bar_seq (bw_bar example_world))"
    "bw_store example_world (bar_cursor (bw_bar example_world)) = 2" "bar_deps (bw_bar example_world) = []"
    unfolding avail_def by code_simp+
  ultimately show ?thesis using run by (simp add: readable_def bw_tracked_def tracked_def)
qed

text \<open>
  A wait at a barrier fails only for a reason it has seen. An \<open>Alert\<close> means the alert flag of the
  barrier or of its strategy (or, for the wait with a shutdown flag, that flag) was set when it
  returned; a \<open>Timeout\<close> comes only from the bounded wait and only if the barrier was not alerted then.
  Once \<open>alert\<close> was called every wait fails at once with \<open>Alert\<close> and a blocked consumer has been sent a
  wake-up, until \<open>clear_alert\<close>.
\<close>

theorem barrier_errors_justified:
  assumes "bar_env k sequence tr" and "0 \<le> sequence"
  shows "(bar_wait_for pk fuel tr t sequence = Some (Some (Err e), t') \<longrightarrow> alert_seen tr e t') \<and>
    (try_get_available_sequence fuel tr t sequence = Some (Some (Err e), t') \<longrightarrow> alert_seen tr e t') \<and>
    (bar_wait_for_with_shutdown pk fuel tr t sequence = Some (Some (Err e), t') \<longrightarrow> stop_seen tr e t') \<and>
    (bar_wait_for_with_timeout pk timeout fuel tr t sequence = Some (Some (Err e), t') \<longrightarrow> timeout_seen tr e t') \<and>
    (bw_bar (tr t) = alert b \<longrightarrow>
      bar_wait_for pk fuel tr t sequence = Some (Some (Err Alert), t) \<and>
      bar_wait_for_with_timeout pk timeout fuel tr t sequence = Some (Some (Err Alert), t) \<and>
      try_get_available_sequence fuel tr t sequence = Some (Some (Err Alert), t)) \<and>
    (bar_strategy b = BlockingStrategy \<longrightarrow> bar_signals (alert b) = Suc (bar_signals b)) \<and>
    check_alert (clear_alert (alert b)) = Ok ()"
proof -
  have "is_alerted (alert b)" by (simp add: alert_def is_alerted_def)
  then have "bw_bar (tr t) = alert b \<longrightarrow>
      bar_wait_for pk fuel tr t sequence = Some (Some (Err Alert), t) \<and>
      bar_wait_for_with_timeout pk timeout fuel tr t sequence = Some (Some (Err Alert), t) \<and>
      try_get_available_sequence fuel tr t sequence = Some (Some (Err Alert), t)"
    by (simp add: bar_wait_for_def bar_wait_for_with_timeout_def try_get_available_sequence_def check_alert_def)
  moreover have "bar_strategy b = BlockingStrategy \<longrightarrow> bar_signals (alert b) = Suc (bar_signals b)"
    "check_alert (clear_alert (alert b)) = Ok ()"
    by (simp_all add: alert_def clear_alert_def check_alert_def is_alerted_def)
  ultimately show ?thesis
    using bar_wait.error_stops [OF assms] bar_try.error_stops [OF assms] bar_wait_shutdown.error_stops [OF assms]
      bar_wait_timeout.error_stops [OF assms] by blast
qed

theorem barrier_errors_justified_witness:
  "\<exists>t'. bar_wait_for_with_timeout (\<lambda>_. None, \<lambda>_ _. (0, True)) 0 9 (\<lambda>_. example_world) 0 3 = Some (Some (Err Timeout), t') \<and>
     timeout_seen (\<lambda>_. example_world) Timeout t'"
proof -
  let ?pk = "(\<lambda>_. None, \<lambda>_ _. (0, True)) :: parking"
  have "map_option fst (bar_wait_for_with_timeout ?pk 0 9 (\<lambda>_. example_world) 0 3) = Some (Some (Err Timeout))"
    by code_simp
  then obtain t' where run: "bar_wait_for_with_timeout ?pk 0 9 (\<lambda>_. example_world) 0 3 = Some (Some (Err Timeout), t')"
    by auto
  have "bar_env 2 3 (\<lambda>_. example_world)" using example_world_env by (simp add: bar_env_def)
  from barrier_errors_justified [OF this, of ?pk 9 0 Timeout t' 0] run show ?thesis by auto
qed



end
