(* ===== verification/Consumer_Engine.thy ===== *)
theory Consumer_Engine
  imports Barrier Ring_Buffer
begin

text \<open>
  The consumer loops of \<open>src/disruptor/consumer_engine.rs\<close>: the sequential batch loop, its read-only
  variant and the claim loop of the worker pool. User code is a record of functions that may fail or
  panic. What other threads do while a loop runs is an environment: for every round a trajectory of the
  world from the state the round starts in, and what they do to the ring before the round's batch; their
  ring writes during a batch touch other slots and are counted to the next round.
  A loop that has not come to an end within its fuel is \<open>None\<close>.
\<close>

section \<open>Stopping\<close>

datatype stop_flag = External | Running

fun should_continue :: "stop_flag \<Rightarrow> bar_world \<Rightarrow> bool" where
  "should_continue External w = (\<not> bw_shutdown w)"
| "should_continue Running w = bw_running w"

fun stop_wait_for ::
    "parking \<Rightarrow> stop_flag \<Rightarrow> nat \<Rightarrow> bar_world traj \<Rightarrow> nat \<Rightarrow> i64 \<Rightarrow> bar_outcome" where
  "stop_wait_for pk External fuel tr t sequence = bar_wait_for_with_shutdown pk fuel tr t sequence"
| "stop_wait_for pk Running fuel tr t sequence =
     (if \<not> bw_running (tr t) then Some (Some (Err Alert), t)
      else bar_wait_for pk fuel tr (Suc t) sequence)"

section \<open>User code and failure records\<close>

record ('e, 'h) event_handler =
  on_batch_start :: "i64 \<Rightarrow> i64 \<Rightarrow> 'h \<Rightarrow> unit result option \<times> 'h"
  on_event :: "'e \<Rightarrow> i64 \<Rightarrow> bool \<Rightarrow> 'h \<Rightarrow> unit result option \<times> 'e \<times> 'h"

type_synonym 'e exception_handler = "disruptor_error \<Rightarrow> i64 \<Rightarrow> 'e \<Rightarrow> error_decision option"

record consumer_context =
  cc_thread_name :: string
  cc_stage_index :: "usize option"

definition for_stage :: "string \<Rightarrow> usize \<Rightarrow> consumer_context" where
  "for_stage thread stage = \<lparr>cc_thread_name = thread, cc_stage_index = Some stage\<rparr>"

definition without_stage :: "string \<Rightarrow> consumer_context" where
  "without_stage thread = \<lparr>cc_thread_name = thread, cc_stage_index = None\<rparr>"

definition consumer_failure ::
    "failure_phase \<Rightarrow> string \<Rightarrow> consumer_context \<Rightarrow> i64 option \<Rightarrow> failure_record" where
  "consumer_failure p msg ctx sequence =
     (let f = with_thread_name (cc_thread_name ctx) (failure_record_new p msg);
          f = (case cc_stage_index ctx of Some i \<Rightarrow> with_stage_index i f | None \<Rightarrow> f)
      in case sequence of Some s \<Rightarrow> with_sequence s f | None \<Rightarrow> f)"

section \<open>The state of a consumer\<close>

text \<open>\<open>co_trace\<close> collects the calls of \<open>on_event\<close> with the world they were made in, for the statements.\<close>

record ('e, 'h) consumer =
  co_world :: bar_world
  co_ring :: "'e ring_buffer"
  co_handler :: 'h
  co_trace :: "('e \<times> i64 \<times> bool \<times> bar_world) list"

record 'e co_env =
  ce_world :: "nat \<Rightarrow> bar_world \<Rightarrow> bar_world traj"
  ce_ring :: "nat \<Rightarrow> 'e ring_buffer \<Rightarrow> 'e ring_buffer"

fun seq_on_mem :: "(store \<Rightarrow> store) \<Rightarrow> sequencer \<Rightarrow> sequencer" where
  "seq_on_mem f (SingleSeq s) = SingleSeq (s\<lparr>sp_mem := f (sp_mem s)\<rparr>)"
| "seq_on_mem f (MultiSeq m) = MultiSeq (m\<lparr>mp_mem := f (mp_mem m)\<rparr>)"

text \<open>\<open>consumer_sequence.set\<close> and the failure path of a consumer, on the shared world.\<close>

definition bw_set :: "seq_ref \<Rightarrow> i64 \<Rightarrow> bar_world \<Rightarrow> bar_world" where
  "bw_set r v w = w\<lparr>bw_bar := (bw_bar w)\<lparr>bar_seq := seq_on_mem (seq_set r v) (bar_seq (bw_bar w))\<rparr>\<rparr>"

definition bw_fail :: "failure_record \<Rightarrow> bar_world \<Rightarrow> bar_world" where
  "bw_fail f w = w\<lparr>bw_bar := bar_poison_with_failure f (bw_bar w)\<rparr>"

datatype loop_exit = LoopReturned | LoopPanicked

section \<open>The sequential batch loop\<close>

datatype batch_end = Drained | StoppedAt i64 string | BatchPanicked

text \<open>
  The inner loop over the batch, with the number of sequences left; events are handed over one tick
  after the other. \<open>None\<close>: a slot outside the ring.
\<close>

fun drain_batch ::
    "('e, 'h) event_handler \<Rightarrow> 'e exception_handler option \<Rightarrow> bar_world traj \<Rightarrow> i64 \<Rightarrow> nat \<Rightarrow> nat \<Rightarrow> i64 \<Rightarrow>
     ('e, 'h) consumer \<Rightarrow> (batch_end \<times> nat \<times> ('e, 'h) consumer) option" where
  "drain_batch H X tr available 0 t next_sequence c = Some (Drained, t, c)"
| "drain_batch H X tr available (Suc n) t next_sequence c =
     (case ring_get (co_ring c) next_sequence of
        None \<Rightarrow> None
      | Some e \<Rightarrow>
          let end_of_batch = (next_sequence = available);
              (r, e', h') = on_event H e next_sequence end_of_batch (co_handler c)
          in case ring_update (co_ring c) next_sequence (\<lambda>_. e') of
               None \<Rightarrow> None
             | Some rb \<Rightarrow>
                 let c' = c\<lparr>co_ring := rb, co_handler := h',
                       co_trace := co_trace c @ [(e, next_sequence, end_of_batch, tr t)]\<rparr>
                 in case r of
                      None \<Rightarrow> Some (BatchPanicked, Suc t, c')
                    | Some (Inr _) \<Rightarrow> drain_batch H X tr available n (Suc t) (add_i64 next_sequence 1) c'
                    | Some (Inl err) \<Rightarrow>
                        (case (case X of Some eh \<Rightarrow> eh err next_sequence e' | None \<Rightarrow> Some Stop) of
                           None \<Rightarrow> Some (BatchPanicked, Suc t, c')
                         | Some Stop \<Rightarrow> Some (StoppedAt next_sequence (error_to_string err), Suc t, c')
                         | Some Continue \<Rightarrow>
                             drain_batch H X tr available n (Suc t) (add_i64 next_sequence 1) c'))"

text \<open>What a batch does, from the call of \<open>on_batch_start\<close> on.\<close>

definition run_batch ::
    "('e, 'h) event_handler \<Rightarrow> 'e exception_handler option \<Rightarrow> consumer_context \<Rightarrow> seq_ref \<Rightarrow>
     bar_world traj \<Rightarrow> nat \<Rightarrow> i64 \<Rightarrow> i64 \<Rightarrow> ('e, 'h) consumer \<Rightarrow>
     ((loop_exit \<times> ('e, 'h) consumer) option + i64 \<times> ('e, 'h) consumer)" where
  "run_batch H X ctx own tr t next_sequence available c =
     (let batch_size = add_i64 (sub_i64 available next_sequence) 1;
          queue_depth = sub_i64 available (seq_get (bw_store (tr t)) own);
          (r, h) = on_batch_start H batch_size queue_depth (co_handler c);
          c1 = c\<lparr>co_handler := h\<rparr>
      in case r of
           None \<Rightarrow> Inl (Some (LoopPanicked, c1\<lparr>co_world := tr (Suc t)\<rparr>))
         | Some (Inl e) \<Rightarrow>
             Inl (Some (LoopReturned, c1\<lparr>co_world := bw_fail
               (consumer_failure BatchStart (error_to_string e) ctx (Some next_sequence)) (tr (Suc t))\<rparr>))
         | Some (Inr _) \<Rightarrow>
             (case drain_batch H X tr available (nat (available + 1 - next_sequence)) (Suc t) next_sequence c1 of
                None \<Rightarrow> Inl None
              | Some (BatchPanicked, t', c2) \<Rightarrow> Inl (Some (LoopPanicked, c2\<lparr>co_world := tr t'\<rparr>))
              | Some (StoppedAt s msg, t', c2) \<Rightarrow>
                  Inl (Some (LoopReturned, c2\<lparr>co_world := bw_fail
                    (consumer_failure EventProcessing msg ctx (Some s))
                    (bw_set own (sub_i64 s 1) (tr t'))\<rparr>))
              | Some (Drained, t', c2) \<Rightarrow>
                  Inr (add_i64 available 1, c2\<lparr>co_world := bw_set own available (tr t')\<rparr>)))"

definition sequential_body ::
    "parking \<Rightarrow> nat \<Rightarrow> 'e co_env \<Rightarrow> ('e, 'h) event_handler \<Rightarrow> 'e exception_handler option \<Rightarrow>
     consumer_context \<Rightarrow> seq_ref \<Rightarrow> stop_flag \<Rightarrow> nat \<times> i64 \<times> ('e, 'h) consumer \<Rightarrow>
     (loop_exit \<times> ('e, 'h) consumer) option + nat \<times> i64 \<times> ('e, 'h) consumer" where
  "sequential_body pk fuel env H X ctx own stop = (\<lambda>(i, next_sequence, c).
     let tr = ce_world env i (co_world c); c = c\<lparr>co_ring := ce_ring env i (co_ring c)\<rparr> in
     if \<not> should_continue stop (tr 0) then Inl (Some (LoopReturned, c\<lparr>co_world := tr 0\<rparr>))
     else case stop_wait_for pk stop fuel tr 1 next_sequence of
       None \<Rightarrow> Inl None
     | Some (None, t) \<Rightarrow> Inl (Some (LoopPanicked, c\<lparr>co_world := tr t\<rparr>))
     | Some (Some (Inr available), t) \<Rightarrow>
         if available < next_sequence then Inr (Suc i, next_sequence, c\<lparr>co_world := tr t\<rparr>)
         else (case run_batch H X ctx own tr t next_sequence available c of
                 Inl out \<Rightarrow> Inl out
               | Inr (next', c') \<Rightarrow> Inr (Suc i, next', c'))
     | Some (Some (Inl e), t) \<Rightarrow>
         if e \<in> {Alert, Shutdown} \<or> \<not> should_continue stop (tr (Suc t))
         then Inl (Some (LoopReturned, c\<lparr>co_world := tr (Suc t)\<rparr>))
         else Inr (Suc i, next_sequence, c\<lparr>co_world := tr (Suc (Suc t))\<rparr>))"

definition run_sequential_batch_loop_impl ::
    "parking \<Rightarrow> nat \<Rightarrow> 'e co_env \<Rightarrow> ('e, 'h) event_handler \<Rightarrow> seq_ref \<Rightarrow> stop_flag \<Rightarrow> consumer_context \<Rightarrow>
     'e exception_handler option \<Rightarrow> ('e, 'h) consumer \<Rightarrow> (loop_exit \<times> ('e, 'h) consumer) option" where
  "run_sequential_batch_loop_impl pk fuel env H own stop ctx X c =
     Option.bind (poll fuel (sequential_body pk fuel env H X ctx own stop)
       (0, add_i64 (seq_get (bw_store (co_world c)) own) 1, c)) (\<lambda>r. r)"

definition run_sequential_batch_loop ::
    "parking \<Rightarrow> nat \<Rightarrow> 'e co_env \<Rightarrow> ('e, 'h) event_handler \<Rightarrow> seq_ref \<Rightarrow> stop_flag \<Rightarrow> string \<Rightarrow>
     ('e, 'h) consumer \<Rightarrow> (loop_exit \<times> ('e, 'h) consumer) option" where
  "run_sequential_batch_loop pk fuel env H own stop thread c =
     run_sequential_batch_loop_impl pk fuel env H own stop (without_stage thread) None c"

definition run_sequential_batch_loop_for_stage ::
    "parking \<Rightarrow> nat \<Rightarrow> 'e co_env \<Rightarrow> ('e, 'h) event_handler \<Rightarrow> seq_ref \<Rightarrow> stop_flag \<Rightarrow> consumer_context \<Rightarrow>
     ('e, 'h) consumer \<Rightarrow> (loop_exit \<times> ('e, 'h) consumer) option" where
  "run_sequential_batch_loop_for_stage pk fuel env H own stop ctx c =
     run_sequential_batch_loop_impl pk fuel env H own stop ctx None c"

definition run_sequential_batch_loop_with_exceptions ::
    "parking \<Rightarrow> nat \<Rightarrow> 'e co_env \<Rightarrow> ('e, 'h) event_handler \<Rightarrow> seq_ref \<Rightarrow> stop_flag \<Rightarrow> string \<Rightarrow>
     'e exception_handler option \<Rightarrow> ('e, 'h) consumer \<Rightarrow> (loop_exit \<times> ('e, 'h) consumer) option" where
  "run_sequential_batch_loop_with_exceptions pk fuel env H own stop thread X c =
     run_sequential_batch_loop_impl pk fuel env H own stop (without_stage thread) X c"

section \<open>The read-only loop\<close>

type_synonym ('e, 'h) observer = "'e \<Rightarrow> i64 \<Rightarrow> bool \<Rightarrow> 'h \<Rightarrow> unit result option \<times> 'h"

fun observe_batch ::
    "('e, 'h) observer \<Rightarrow> bar_world traj \<Rightarrow> i64 \<Rightarrow> nat \<Rightarrow> nat \<Rightarrow> i64 \<Rightarrow> ('e, 'h) consumer \<Rightarrow>
     (batch_end \<times> nat \<times> ('e, 'h) consumer) option" where
  "observe_batch F tr available 0 t next_sequence c = Some (Drained, t, c)"
| "observe_batch F tr available (Suc n) t next_sequence c =
     (case ring_get (co_ring c) next_sequence of
        None \<Rightarrow> None
      | Some e \<Rightarrow>
          let end_of_batch = (next_sequence = available);
              (r, h') = F e next_sequence end_of_batch (co_handler c);
              c' = c\<lparr>co_handler := h', co_trace := co_trace c @ [(e, next_sequence, end_of_batch, tr t)]\<rparr>
          in case r of
               None \<Rightarrow> Some (BatchPanicked, Suc t, c')
             | Some (Inr _) \<Rightarrow> observe_batch F tr available n (Suc t) (add_i64 next_sequence 1) c'
             | Some (Inl err) \<Rightarrow> Some (StoppedAt next_sequence (error_to_string err), Suc t, c'))"

definition readonly_body ::
    "parking \<Rightarrow> nat \<Rightarrow> 'e co_env \<Rightarrow> ('e, 'h) observer \<Rightarrow> consumer_context \<Rightarrow> seq_ref \<Rightarrow> stop_flag \<Rightarrow>
     nat \<times> i64 \<times> ('e, 'h) consumer \<Rightarrow>
     (loop_exit \<times> ('e, 'h) consumer) option + nat \<times> i64 \<times> ('e, 'h) consumer" where
  "readonly_body pk fuel env F ctx own stop = (\<lambda>(i, next_sequence, c).
     let tr = ce_world env i (co_world c); c = c\<lparr>co_ring := ce_ring env i (co_ring c)\<rparr> in
     if \<not> should_continue stop (tr 0) then Inl (Some (LoopReturned, c\<lparr>co_world := tr 0\<rparr>))
     else case stop_wait_for pk stop fuel tr 1 next_sequence of
       None \<Rightarrow> Inl None
     | Some (None, t) \<Rightarrow> Inl (Some (LoopPanicked, c\<lparr>co_world := tr t\<rparr>))
     | Some (Some (Inr available), t) \<Rightarrow>
         if available < next_sequence then Inr (Suc i, next_sequence, c\<lparr>co_world := tr t\<rparr>)
         else (case observe_batch F tr available (nat (available + 1 - next_sequence)) (Suc t) next_sequence c of
                 None \<Rightarrow> Inl None
               | Some (BatchPanicked, t', c2) \<Rightarrow> Inl (Some (LoopPanicked, c2\<lparr>co_world := tr t'\<rparr>))
               | Some (StoppedAt s msg, t', c2) \<Rightarrow>
                   Inl (Some (LoopReturned, c2\<lparr>co_world := bw_fail
                     (consumer_failure EventProcessing msg ctx (Some s))
                     (bw_set own (sub_i64 s 1) (tr t'))\<rparr>))
               | Some (Drained, t', c2) \<Rightarrow>
                   Inr (Suc i, add_i64 available 1, c2\<lparr>co_world := bw_set own available (tr t')\<rparr>))
     | Some (Some (Inl e), t) \<Rightarrow>
         if e \<in> {Alert, Shutdown} \<or> \<not> should_continue stop (tr (Suc t))
         then Inl (Some (LoopReturned, c\<lparr>co_world := tr (Suc t)\<rparr>))
         else Inr (Suc i, next_sequence, c\<lparr>co_world := tr (Suc (Suc t))\<rparr>))"

definition run_sequential_readonly_loop_impl ::
    "parking \<Rightarrow> nat \<Rightarrow> 'e co_env \<Rightarrow> ('e, 'h) observer \<Rightarrow> seq_ref \<Rightarrow> stop_flag \<Rightarrow> consumer_context \<Rightarrow>
     ('e, 'h) consumer \<Rightarrow> (loop_exit \<times> ('e, 'h) consumer) option" where
  "run_sequential_readonly_loop_impl pk fuel env F own stop ctx c =
     Option.bind (poll fuel (readonly_body pk fuel env F ctx own stop)
       (0, add_i64 (seq_get (bw_store (co_world c)) own) 1, c)) (\<lambda>r. r)"

definition run_sequential_readonly_loop ::
    "parking \<Rightarrow> nat \<Rightarrow> 'e co_env \<Rightarrow> ('e, 'h) observer \<Rightarrow> seq_ref \<Rightarrow> stop_flag \<Rightarrow> string \<Rightarrow>
     ('e, 'h) consumer \<Rightarrow> (loop_exit \<times> ('e, 'h) consumer) option" where
  "run_sequential_readonly_loop pk fuel env F own stop thread c =
     run_sequential_readonly_loop_impl pk fuel env F own stop (without_stage thread) c"

definition run_sequential_readonly_loop_for_stage ::
    "parking \<Rightarrow> nat \<Rightarrow> 'e co_env \<Rightarrow> ('e, 'h) observer \<Rightarrow> seq_ref \<Rightarrow> stop_flag \<Rightarrow> consumer_context \<Rightarrow>
     ('e, 'h) consumer \<Rightarrow> (loop_exit \<times> ('e, 'h) consumer) option" where
  "run_sequential_readonly_loop_for_stage pk fuel env F own stop ctx c =
     run_sequential_readonly_loop_impl pk fuel env F own stop ctx c"

section \<open>Waiting with a stop flag\<close>

definition loop_stop_seen :: "bar_world traj \<Rightarrow> disruptor_error \<Rightarrow> nat \<Rightarrow> bool" where
  "loop_stop_seen tr e t \<longleftrightarrow> stop_seen tr e t \<or> e = Alert \<and> \<not> bw_running (tr t)"

interpretation stop_wait: barrier_contract "stop_wait_for pk stop" loop_stop_seen for pk stop
proof
  fix k sequence tr fuel t r t'
  assume env: "bar_env k sequence tr" "0 \<le> sequence" and run: "stop_wait_for pk stop fuel tr t sequence = Some (r, t')"
  show "bar_outcome_ok loop_stop_seen sequence tr t r t'"
  proof (cases stop)
    case External
    with run have "bar_wait_for_with_shutdown pk fuel tr t sequence = Some (r, t')" by simp
    from bar_wait_shutdown.outcome [OF env this] show ?thesis
      by (rule bar_outcome_weaken) (simp_all add: loop_stop_seen_def)
  next
    case Running
    show ?thesis
    proof (cases "bw_running (tr t)")
      case True
      with Running run have "bar_wait_for pk fuel tr (Suc t) sequence = Some (r, t')" by simp
      from bar_wait.outcome [OF env this] show ?thesis
        by (rule bar_outcome_weaken) (simp_all add: loop_stop_seen_def stop_seen_def)
    qed (use Running run in \<open>auto simp: loop_stop_seen_def intro!: bar_outcome_Err\<close>)
  qed
qed

section \<open>Invariants\<close>

definition bw_inv :: "nat \<Rightarrow> seq_ref \<Rightarrow> bar_world \<Rightarrow> bool" where
  "bw_inv k own w \<longleftrightarrow>
     needs_contiguity_check (bw_bar w) = is_multi_seq (bar_seq (bw_bar w)) \<and>
     (is_multi_seq (bar_seq (bw_bar w)) \<longrightarrow> avail_inv k (bw_avail w)) \<and>
     own \<notin> bw_tracked w \<and> (\<forall>r\<in>bw_tracked w. bw_store w r < i64_max) \<and>
     - 1 \<le> bw_store w own \<and> bw_store w own < i64_max"

text \<open>
  What the rest of the system does in a round of the loop, from just before the first load on: it never writes the consumer's own sequence, it
  keeps the invariant, and during a wait it behaves as the barrier needs.
\<close>

definition consumer_env :: "nat \<Rightarrow> seq_ref \<Rightarrow> 'e co_env \<Rightarrow> bool" where
  "consumer_env k own env \<longleftrightarrow>
     (\<forall>i w. bw_inv k own w \<longrightarrow>
        bar_env k (bw_store w own + 1) (ce_world env i w) \<and>
        (\<forall>t. bw_store (ce_world env i w t) own = bw_store w own \<and> bw_inv k own (ce_world env i w t))) \<and>
     (\<forall>i rb. ring_invar rb \<longrightarrow> ring_invar (ce_ring env i rb))"

lemma seq_on_mem_sel [simp]:
  "seq_mem (seq_on_mem f q) = f (seq_mem q)" "is_multi_seq (seq_on_mem f q) = is_multi_seq q"
  "is_multi_seq q \<Longrightarrow> seq_avail (seq_on_mem f q) = seq_avail q"
  "seq_is_poisoned (seq_on_mem f q) = seq_is_poisoned q"
  "seq_first_failure (seq_on_mem f q) = seq_first_failure q"
  by (cases q; simp add: sp_is_poisoned_def mp_is_poisoned_def)+

lemma seq_fail_sel [simp]:
  "seq_mem (seq_poison (seq_record_failure f q)) = seq_mem q"
  "is_multi_seq (seq_poison (seq_record_failure f q)) = is_multi_seq q"
  "is_multi_seq q \<Longrightarrow> seq_avail (seq_poison (seq_record_failure f q)) = seq_avail q"
  by (cases q; simp add: mp_poison_record_frame sp_poison_def sp_signal_def sp_record_sel)+

lemma bw_set_sel [simp]:
  "bw_store (bw_set r v w) = (bw_store w)(r := v)"
  "bw_tracked (bw_set r v w) = bw_tracked w"
  "is_multi_seq (bar_seq (bw_bar (bw_set r v w))) = is_multi_seq (bar_seq (bw_bar w))"
  "needs_contiguity_check (bw_bar (bw_set r v w)) = needs_contiguity_check (bw_bar w)"
  "is_multi_seq (bar_seq (bw_bar w)) \<Longrightarrow> bw_avail (bw_set r v w) = bw_avail w"
  by (simp_all add: bw_set_def bw_store_def bw_tracked_def bw_avail_def seq_set_def fun_eq_iff)

lemma bw_fail_sel [simp]:
  "bw_store (bw_fail f w) = bw_store w"
  "bw_tracked (bw_fail f w) = bw_tracked w"
  "is_multi_seq (bar_seq (bw_bar (bw_fail f w))) = is_multi_seq (bar_seq (bw_bar w))"
  "needs_contiguity_check (bw_bar (bw_fail f w)) = needs_contiguity_check (bw_bar w)"
  "is_multi_seq (bar_seq (bw_bar w)) \<Longrightarrow> bw_avail (bw_fail f w) = bw_avail w"
  "seq_is_poisoned (bar_seq (bw_bar (bw_fail f w)))"
  "bar_first_failure (bw_bar (bw_fail f w)) = Some (case bar_first_failure (bw_bar w) of Some g \<Rightarrow> g | None \<Rightarrow> f)"
  by (simp_all add: bw_fail_def bar_poison_with_failure_def poison_producers_def bar_record_failure_def
      bw_store_def bw_tracked_def bw_avail_def bar_first_failure_def seq_poison_record)

lemma bw_inv_set: "bw_inv k own w \<Longrightarrow> - 1 \<le> v \<Longrightarrow> v < i64_max \<Longrightarrow> bw_inv k own (bw_set own v w)"
  by (auto simp: bw_inv_def)

lemma bw_inv_fail: "bw_inv k own w \<Longrightarrow> bw_inv k own (bw_fail f w)"
  by (auto simp: bw_inv_def)

lemma readable_bound:
  assumes "readable w s" and "bw_inv k own w"
  shows "s < i64_max"
proof -
  obtain r where "r \<in> bw_tracked w" using tracked_nonempty by (auto simp: bw_tracked_def)
  with assms show ?thesis by (force simp: readable_def bw_inv_def)
qed

section \<open>Batches\<close>

definition trace_seqs :: "('e \<times> i64 \<times> bool \<times> bar_world) list \<Rightarrow> i64 list" where
  "trace_seqs = map (\<lambda>(e, s, b, w). s)"

lemma trace_seqs_append [simp]: "trace_seqs (xs @ ys) = trace_seqs xs @ trace_seqs ys"
  by (simp add: trace_seqs_def)

text \<open>The worlds in which the events of a batch are handed over, one tick after the other.\<close>

definition handed_over :: "bar_world traj \<Rightarrow> nat \<Rightarrow> ('e \<times> i64 \<times> bool \<times> bar_world) list \<Rightarrow> bool" where
  "handed_over tr t new \<longleftrightarrow> (\<forall>x\<in>set new. \<exists>v\<ge>t. snd (snd (snd x)) = tr v)"

fun batch_last :: "i64 \<Rightarrow> i64 \<Rightarrow> batch_end \<Rightarrow> i64 \<Rightarrow> bool" where
  "batch_last lo hi Drained m = (m = hi)"
| "batch_last lo hi (StoppedAt s msg) m = (m = s \<and> lo \<le> s \<and> s \<le> hi)"
| "batch_last lo hi BatchPanicked m = (lo \<le> m \<and> m \<le> hi)"

lemma decision_cases: "d = None \<or> d = Some Stop \<or> d = Some Continue"
  by (cases d; cases "the d") auto

lemma drain_batch_spec:
  assumes "ring_invar (co_ring c)" and "next_sequence + int n = available + 1"
    and "0 \<le> next_sequence" and "available < i64_max"
  shows "\<exists>be t' c' new m. drain_batch H X tr available n t next_sequence c = Some (be, t', c') \<and> t \<le> t' \<and>
    ring_invar (co_ring c') \<and> co_world c' = co_world c \<and> co_trace c' = co_trace c @ new \<and>
    trace_seqs new = [next_sequence..m] \<and> handed_over tr t new \<and> batch_last next_sequence available be m"
  using assms
proof (induction n arbitrary: t next_sequence c)
  case 0
  then show ?case by (auto simp: trace_seqs_def handed_over_def intro!: exI [of _ available])
next
  case (Suc n)
  obtain e where e: "ring_get (co_ring c) next_sequence = Some e"
    using rb.get_total [OF Suc.prems(1)] by blast
  obtain r e' h' where call: "on_event H e next_sequence (next_sequence = available) (co_handler c) = (r, e', h')"
    by (metis prod_cases3)
  obtain rb where rb: "ring_update (co_ring c) next_sequence (\<lambda>_. e') = Some rb"
    using rb.upd_total [OF Suc.prems(1)] by blast
  define c1 where "c1 = c\<lparr>co_ring := rb, co_handler := h',
    co_trace := co_trace c @ [(e, next_sequence, next_sequence = available, tr t)]\<rparr>"
  have c1: "ring_invar (co_ring c1)" "co_world c1 = co_world c"
    "co_trace c1 = co_trace c @ [(e, next_sequence, next_sequence = available, tr t)]"
    using rb.upd_invar [OF Suc.prems(1) rb] by (simp_all add: c1_def)
  have nx: "add_i64 next_sequence 1 = next_sequence + 1"
    using Suc.prems by (intro add_i64_id) (simp add: in_i64_def)
  have le: "next_sequence \<le> available" using Suc.prems(2) by simp
  note step = Suc.IH [where c = c1 and t = "Suc t" and next_sequence = "next_sequence + 1", OF c1(1)]
  have continue: ?case if "drain_batch H X tr available (Suc n) t next_sequence c =
      drain_batch H X tr available n (Suc t) (next_sequence + 1) c1"
  proof -
    from step Suc.prems obtain be t' c' new m where
      s: "drain_batch H X tr available n (Suc t) (next_sequence + 1) c1 = Some (be, t', c')" "Suc t \<le> t'"
        "ring_invar (co_ring c')" "co_world c' = co_world c1" "co_trace c' = co_trace c1 @ new"
        "trace_seqs new = [next_sequence + 1..m]" "handed_over tr (Suc t) new"
        "batch_last (next_sequence + 1) available be m" by auto
    then have "next_sequence \<le> m" using le by (cases be) auto
    then have "trace_seqs ((e, next_sequence, next_sequence = available, tr t) # new) = [next_sequence..m]"
      using s(6) by (simp add: trace_seqs_def upto.simps [of next_sequence m])
    moreover have "handed_over tr t ((e, next_sequence, next_sequence = available, tr t) # new)"
      using s(7) unfolding handed_over_def by (auto dest: Suc_leD)
    moreover have "batch_last next_sequence available be m" using s(8) by (cases be) auto
    ultimately show ?thesis using s c1 that
      by (intro exI [of _ be] exI [of _ t'] exI [of _ c']
          exI [of _ "(e, next_sequence, next_sequence = available, tr t) # new"] exI [of _ m]) simp
  qed
  have finish: ?case if "drain_batch H X tr available (Suc n) t next_sequence c = Some (be, Suc t, c1)"
    and "be = BatchPanicked \<or> (\<exists>msg. be = StoppedAt next_sequence msg)" for be
    using that c1 le
    by (intro exI [of _ be] exI [of _ "Suc t"] exI [of _ c1]
        exI [of _ "[(e, next_sequence, next_sequence = available, tr t)]"] exI [of _ next_sequence])
      (auto simp: trace_seqs_def handed_over_def)
  note unfolded = e call rb nx c1_def
  show ?case
  proof (cases r)
    case None
    then show ?thesis by (intro finish [of BatchPanicked]) (simp_all add: unfolded)
  next
    case (Some q)
    show ?thesis
    proof (cases q)
      case (Inr u)
      with Some show ?thesis by (intro continue) (simp add: unfolded)
    next
      case (Inl err)
      let ?decision = "case X of Some eh \<Rightarrow> eh err next_sequence e' | None \<Rightarrow> Some Stop"
      consider "?decision = None" | "?decision = Some Stop" | "?decision = Some Continue"
        using decision_cases [of ?decision] by auto
      then show ?thesis
      proof cases
        case 1
        with Some Inl show ?thesis by (intro finish [of BatchPanicked]) (simp_all add: unfolded)
      next
        case 2
        with Some Inl show ?thesis
          by (intro finish [of "StoppedAt next_sequence (error_to_string err)"]) (simp_all add: unfolded)
      next
        case 3
        with Some Inl show ?thesis by (intro continue) (simp add: unfolded)
      qed
    qed
  qed
qed

text \<open>The events handed out so far: every sequence after \<open>a\<close> up to \<open>m\<close>, in order, each when it was readable.\<close>

definition delivered :: "i64 \<Rightarrow> ('e, 'h) consumer \<Rightarrow> i64 \<Rightarrow> bool" where
  "delivered a c m \<longleftrightarrow> a \<le> m \<and> trace_seqs (co_trace c) = [a + 1..m] \<and>
     (\<forall>(e, s, b, w)\<in>set (co_trace c). readable w s)"

lemma delivered_append:
  assumes "delivered a c m" and "co_trace c' = co_trace c @ new" and "trace_seqs new = [m + 1..m']"
    and "m \<le> m'" and "handed_over tr t new" and "\<And>s v. m + 1 \<le> s \<Longrightarrow> s \<le> m' \<Longrightarrow> t \<le> v \<Longrightarrow> readable (tr v) s"
  shows "delivered a c' m'"
proof -
  have "[a + 1..m] @ [m + 1..m'] = [a + 1..m']"
    using assms(1,4) upto_split1 [of "a + 1" "m + 1" m'] by (cases "m = m'") (auto simp: delivered_def)
  moreover have "readable w s" if mem: "(e, s, b, w) \<in> set new" for e s b w
  proof -
    have "s \<in> set (trace_seqs new)" using mem by (force simp: trace_seqs_def)
    moreover obtain v where "t \<le> v" "w = tr v" using assms(5) mem by (force simp: handed_over_def)
    ultimately show ?thesis using assms(3,6) by simp
  qed
  ultimately show ?thesis using assms(1-4) by (auto simp: delivered_def)
qed

text \<open>What a loop has achieved when it ends.\<close>

definition loop_result :: "nat \<Rightarrow> seq_ref \<Rightarrow> i64 \<Rightarrow> loop_exit \<times> ('e, 'h) consumer \<Rightarrow> bool" where
  "loop_result k own a = (\<lambda>(exit, c).
     bw_inv k own (co_world c) \<and> ring_invar (co_ring c) \<and>
     (\<exists>m. delivered a c m \<and> bw_store (co_world c) own \<le> m \<and>
       (exit = LoopReturned \<longrightarrow> bw_store (co_world c) own = m \<or>
         bw_store (co_world c) own = m - 1 \<and> seq_is_poisoned (bar_seq (bw_bar (co_world c))) \<and>
         bar_first_failure (bw_bar (co_world c)) \<noteq> None)))"

definition loop_inv :: "nat \<Rightarrow> seq_ref \<Rightarrow> i64 \<Rightarrow> nat \<times> i64 \<times> ('e, 'h) consumer \<Rightarrow> bool" where
  "loop_inv k own a = (\<lambda>(i, next_sequence, c).
     bw_inv k own (co_world c) \<and> ring_invar (co_ring c) \<and> next_sequence = bw_store (co_world c) own + 1 \<and>
     delivered a c (bw_store (co_world c) own))"

lemma loop_result_same:
  assumes "bw_inv k own w" and "ring_invar (co_ring c)" and "delivered a c (bw_store w own)"
  shows "loop_result k own a (exit, c\<lparr>co_world := w\<rparr>)"
  using assms by (auto simp: loop_result_def delivered_def)

lemma run_batch_spec:
  assumes w: "\<And>v. bw_inv k own (tr v)" "\<And>v. bw_store (tr v) own = x"
    and c: "ring_invar (co_ring c)" "delivered a c x" and "x < available"
    and ready: "\<And>s v. x + 1 \<le> s \<Longrightarrow> s \<le> available \<Longrightarrow> t \<le> v \<Longrightarrow> readable (tr v) s"
  shows "case run_batch H X ctx own tr t (x + 1) available c of
      Inl None \<Rightarrow> False
    | Inl (Some out) \<Rightarrow> loop_result k own a out
    | Inr (next', c') \<Rightarrow> loop_inv k own a (i, next', c')"
proof -
  have x: "- 1 \<le> x" using w(1) [of 0] w(2) [of 0] by (simp add: bw_inv_def)
  have amax: "available < i64_max" using readable_bound [OF ready [OF _ order_refl order_refl] w(1)] assms(5) by simp
  obtain r h where st: "on_batch_start H (add_i64 (sub_i64 available (x + 1)) 1)
      (sub_i64 available (seq_get (bw_store (tr t)) own)) (co_handler c) = (r, h)"
    by (metis surj_pair)
  define c1 where "c1 = c\<lparr>co_handler := h\<rparr>"
  have c1: "ring_invar (co_ring c1)" "delivered a c1 x" using c by (simp_all add: c1_def delivered_def)
  show ?thesis
  proof (cases "\<exists>u. r = Some (Inr u)")
    case False
    have same: "loop_result k own a (exit, c1\<lparr>co_world := tr (Suc t)\<rparr>)" for exit
      using loop_result_same [OF w(1) c1(1)] c1(2) w(2) by simp
    have fail: "loop_result k own a (exit, c1\<lparr>co_world := bw_fail f (tr (Suc t))\<rparr>)" for exit f
      using loop_result_same [OF bw_inv_fail [OF w(1)] c1(1)] c1(2) w(2) by simp
    from False st same fail show ?thesis
      by (auto simp: run_batch_def Let_def c1_def [symmetric] split: option.split sum.split)
  next
    case True
    have n: "x + 1 + int (nat (available + 1 - (x + 1))) = available + 1" using assms(5) by simp
    from drain_batch_spec [OF c1(1) n _ amax, of H X tr "Suc t"] x obtain be t' c2 new m where
      d: "drain_batch H X tr available (nat (available + 1 - (x + 1))) (Suc t) (x + 1) c1 = Some (be, t', c2)"
        "ring_invar (co_ring c2)" "co_trace c2 = co_trace c1 @ new" "trace_seqs new = [x + 1..m]"
        "handed_over tr (Suc t) new" "batch_last (x + 1) available be m"
      by auto
    have m: "x \<le> m" "m \<le> available" using d(6) assms(5) by (cases be; simp)+
    have del: "delivered a c2 m"
      by (rule delivered_append [OF c1(2) d(3,4) m(1) d(5)]) (use m ready in auto)
    have run: "run_batch H X ctx own tr t (x + 1) available c =
        (case be of
           BatchPanicked \<Rightarrow> Inl (Some (LoopPanicked, c2\<lparr>co_world := tr t'\<rparr>))
         | StoppedAt s msg \<Rightarrow> Inl (Some (LoopReturned, c2\<lparr>co_world := bw_fail
             (consumer_failure EventProcessing msg ctx (Some s)) (bw_set own (sub_i64 s 1) (tr t'))\<rparr>))
         | Drained \<Rightarrow> Inr (add_i64 available 1, c2\<lparr>co_world := bw_set own available (tr t')\<rparr>))"
      using True st d(1) by (auto simp: run_batch_def Let_def c1_def [symmetric] split: batch_end.split)
    show ?thesis
    proof (cases be)
      case Drained
      have "add_i64 available 1 = available + 1"
        using amax x assms(5) by (intro add_i64_id) (simp add: in_i64_def)
      with Drained run d(2,6) del bw_inv_set [OF w(1), of available t'] amax x assms(5) show ?thesis
        by (simp add: loop_inv_def delivered_def)
    next
      case (StoppedAt s msg)
      have s: "m = s" "x + 1 \<le> s" "s \<le> available" using StoppedAt d(6) by simp_all
      have "sub_i64 s 1 = s - 1" using amax x s by (intro sub_i64_id) (simp add: in_i64_def)
      with StoppedAt run s d(2) del bw_inv_fail [OF bw_inv_set [OF w(1), of "s - 1" t']] amax x show ?thesis
        by (auto simp: loop_result_def delivered_def)
    next
      case BatchPanicked
      with run d(2) del w m show ?thesis by (auto simp: loop_result_def delivered_def)
    qed
  qed
qed

section \<open>The loops\<close>

lemma consumer_envD:
  assumes "consumer_env k own env" and "bw_inv k own w"
  shows "bar_env k (bw_store w own + 1) (ce_world env i w)"
    "bw_store (ce_world env i w t) own = bw_store w own" "bw_inv k own (ce_world env i w t)"
    "ring_invar rb \<Longrightarrow> ring_invar (ce_ring env i rb)"
  using assms unfolding consumer_env_def by blast+

lemma loop_inv_world:
  assumes "loop_inv k own a (i, next_sequence, c)" and "bw_inv k own w" and "bw_store w own = bw_store (co_world c) own"
  shows "loop_inv k own a (j, next_sequence, c\<lparr>co_world := w\<rparr>)"
  using assms by (simp add: loop_inv_def delivered_def)

lemma sequential_body_spec:
  assumes env: "consumer_env k own env" and inv: "loop_inv k own a (i, next_sequence, c)"
  shows "case sequential_body pk fuel env H X ctx own stop (i, next_sequence, c) of
      Inl None \<Rightarrow> stop_wait_for pk stop fuel (ce_world env i (co_world c)) 1 next_sequence = None
    | Inl (Some out) \<Rightarrow> loop_result k own a out
    | Inr s \<Rightarrow> loop_inv k own a s"
proof -
  define tr where "tr = ce_world env i (co_world c)"
  define x where "x = bw_store (co_world c) own"
  define c0 where "c0 = c\<lparr>co_ring := ce_ring env i (co_ring c)\<rparr>"
  have w: "bw_inv k own (co_world c)" and nx: "next_sequence = x + 1"
    and del: "delivered a c x" and rg: "ring_invar (co_ring c)"
    using inv by (simp_all add: loop_inv_def x_def)
  note tr = consumer_envD [OF env w, where i = i, folded tr_def]
  have xs: "bw_store (tr t) own = x" for t using tr(2) by (simp add: x_def)
  have c0: "ring_invar (co_ring c0)" "delivered a c0 x"
    using tr(4) [OF rg] del by (simp_all add: c0_def delivered_def)
  have over: "loop_result k own a (exit, c0\<lparr>co_world := tr t\<rparr>)" for exit t
    using loop_result_same [OF tr(3) c0(1)] c0(2) xs by simp
  have again: "loop_inv k own a (Suc i, next_sequence, c0\<lparr>co_world := tr t\<rparr>)" for t
    using c0 tr(3) xs nx by (simp add: loop_inv_def delivered_def)
  show ?thesis
  proof (cases "stop_wait_for pk stop fuel tr 1 next_sequence")
    case None
    with over show ?thesis
      by (simp add: sequential_body_def Let_def tr_def [symmetric] c0_def [symmetric])
  next
    case (Some out)
    then obtain r t where out: "stop_wait_for pk stop fuel tr 1 next_sequence = Some (r, t)" by (cases out) simp
    have env': "bar_env k next_sequence tr" "0 \<le> next_sequence"
      using tr(1) nx w by (simp_all add: x_def bw_inv_def)
    note ready = stop_wait.batch_readable [OF env']
    show ?thesis
    proof (cases "\<exists>available. r = Some (Inr available) \<and> next_sequence \<le> available")
      case False
      with out over again show ?thesis
        by (auto simp: sequential_body_def Let_def tr_def [symmetric] c0_def [symmetric] split: option.split sum.split)
    next
      case True
      then obtain available where r: "r = Some (Inr available)" "x < available" using nx by auto
      have "case run_batch H X ctx own tr t (x + 1) available c0 of
          Inl None \<Rightarrow> False | Inl (Some out) \<Rightarrow> loop_result k own a out
        | Inr (next', c') \<Rightarrow> loop_inv k own a (Suc i, next', c')"
        using ready [OF out [unfolded r(1)]] nx
        by (intro run_batch_spec [where tr = tr and x = x]) (use tr(3) xs c0 r(2) in auto)
      with out r over nx show ?thesis
        by (auto simp: sequential_body_def Let_def tr_def [symmetric] c0_def [symmetric]
            split: option.splits sum.splits)
    qed
  qed
qed

lemma sequential_loop_result:
  assumes env: "consumer_env k own env" and c: "bw_inv k own (co_world c)" "ring_invar (co_ring c)" "co_trace c = []"
    and run: "run_sequential_batch_loop_impl pk fuel env H own stop ctx X c = Some out"
  shows "loop_result k own (bw_store (co_world c) own) out"
proof -
  let ?body = "sequential_body pk fuel env H X ctx own stop"
  let ?a = "bw_store (co_world c) own"
  have "add_i64 ?a 1 = ?a + 1" using c(1) by (intro add_i64_id) (simp add: in_i64_def bw_inv_def)
  with run have p: "poll fuel ?body (0, ?a + 1, c) = Some (Some out)"
    by (auto simp: run_sequential_batch_loop_impl_def seq_get_def bind_eq_Some_conv)
  show ?thesis
  proof (rule poll_inv [where I = "loop_inv k own ?a", OF p])
    show "loop_inv k own ?a (0, ?a + 1, c)" using c by (simp add: loop_inv_def delivered_def trace_seqs_def)
    fix s s' assume "loop_inv k own ?a s" "?body s = Inr s'"
    then show "loop_inv k own ?a s'"
      using sequential_body_spec [OF env, where a = ?a and i = "fst s" and next_sequence = "fst (snd s)" and c = "snd (snd s)"
        and pk = pk and fuel = fuel and H = H and X = X and stop = stop and ctx = ctx]
      by simp
  next
    fix s assume "loop_inv k own ?a s" "?body s = Inl (Some out)"
    then show ?thesis
      using sequential_body_spec [OF env, where a = ?a and i = "fst s" and next_sequence = "fst (snd s)" and c = "snd (snd s)"
        and pk = pk and fuel = fuel and H = H and X = X and stop = stop and ctx = ctx]
      by simp
  qed
qed

text \<open>The read-only loop is the sequential loop for a handler that leaves events alone.\<close>

definition as_handler :: "('e, 'h) observer \<Rightarrow> ('e, 'h) event_handler" where
  "as_handler F =
     \<lparr>on_batch_start = \<lambda>_ _ h. (Some (Ok ()), h),
      on_event = \<lambda>e s b h. let (r, h') = F e s b h in (r, e, h')\<rparr>"

lemma ring_update_same: "ring_get rb s = Some e \<Longrightarrow> ring_update rb s (\<lambda>_. e) = Some rb"
  by (cases "storage rb") (auto simp: ring_get_def ring_update_def nth_slot_def update_slot_def split: if_splits)

lemma observe_batch_eq:
  "observe_batch F tr available n t next_sequence c = drain_batch (as_handler F) None tr available n t next_sequence c"
proof (induction n arbitrary: t next_sequence c)
  case (Suc n)
  show ?case
  proof (cases "ring_get (co_ring c) next_sequence")
    case (Some e)
    then have "ring_update (co_ring c) next_sequence (\<lambda>_. e) = Some (co_ring c)" by (rule ring_update_same)
    with Some Suc show ?thesis
      by (auto simp: as_handler_def Let_def split: prod.split option.split sum.split)
  qed simp
qed simp

lemma readonly_body_eq:
  "readonly_body pk fuel env F ctx own stop = sequential_body pk fuel env (as_handler F) None ctx own stop"
proof -
  have "(case run_batch (as_handler F) None ctx own tr t next_sequence available c of
        Inl out \<Rightarrow> Inl out | Inr (next', c') \<Rightarrow> Inr (Suc i, next', c')) =
      (case observe_batch F tr available (nat (available + 1 - next_sequence)) (Suc t) next_sequence c of
         None \<Rightarrow> Inl None
       | Some (BatchPanicked, t', c2) \<Rightarrow> Inl (Some (LoopPanicked, c2\<lparr>co_world := tr t'\<rparr>))
       | Some (StoppedAt s msg, t', c2) \<Rightarrow>
           Inl (Some (LoopReturned, c2\<lparr>co_world := bw_fail
             (consumer_failure EventProcessing msg ctx (Some s)) (bw_set own (sub_i64 s 1) (tr t'))\<rparr>))
       | Some (Drained, t', c2) \<Rightarrow>
           Inr (Suc i, add_i64 available 1, c2\<lparr>co_world := bw_set own available (tr t')\<rparr>))"
    for tr t next_sequence available c i
    unfolding observe_batch_eq
    by (auto simp: run_batch_def Let_def as_handler_def split: option.split batch_end.split)
  then show ?thesis
    unfolding readonly_body_def sequential_body_def Let_def by presburger
qed

lemma readonly_loop_eq:
  "run_sequential_readonly_loop_impl pk fuel env F own stop ctx c =
   run_sequential_batch_loop_impl pk fuel env (as_handler F) own stop ctx None c"
  by (simp add: run_sequential_readonly_loop_impl_def run_sequential_batch_loop_impl_def readonly_body_eq)

lemma sequential_body_round:
  "sequential_body pk fuel env H X ctx own stop s = Inr s' \<Longrightarrow> fst s' = Suc (fst s)"
  by (auto simp: sequential_body_def Let_def split: if_splits option.splits sum.splits prod.splits)

lemma sequential_loop_returns:
  assumes env: "consumer_env k own env" and c: "bw_inv k own (co_world c)" "ring_invar (co_ring c)" "co_trace c = []"
    and stopped: "\<And>i w. N \<le> i \<Longrightarrow> \<not> should_continue stop (ce_world env i w 0)"
    and waits: "\<And>i w s. i < N \<Longrightarrow> bw_inv k own w \<Longrightarrow> stop_wait_for pk stop fuel (ce_world env i w) 1 s \<noteq> None"
    and fuel: "N < fuel"
  shows "\<exists>out. run_sequential_batch_loop_impl pk fuel env H own stop ctx X c = Some out"
proof -
  let ?body = "sequential_body pk fuel env H X ctx own stop"
  let ?a = "bw_store (co_world c) own"
  have a1: "add_i64 ?a 1 = ?a + 1" using c(1) by (intro add_i64_id) (simp add: in_i64_def bw_inv_def)
  have inv0: "loop_inv k own ?a (0, ?a + 1, c)" using c by (simp add: loop_inv_def delivered_def trace_seqs_def)
  have spec: "case ?body s of
      Inl None \<Rightarrow> stop_wait_for pk stop fuel (ce_world env (fst s) (co_world (snd (snd s)))) 1 (fst (snd s)) = None
    | Inl (Some out) \<Rightarrow> True | Inr s' \<Rightarrow> loop_inv k own ?a s'" if "loop_inv k own ?a s" for s
    using sequential_body_spec [OF env, where a = ?a and i = "fst s" and next_sequence = "fst (snd s)" and c = "snd (snd s)"
        and pk = pk and fuel = fuel and H = H and X = X and stop = stop and ctx = ctx] that
    by (auto split: sum.splits option.splits)
  have "\<exists>r. poll (Suc (N - fst (0 :: nat, ?a + 1, c))) ?body (0, ?a + 1, c) = Some r"
  proof (rule poll_returns [where I = "loop_inv k own ?a"])
    fix s s' assume "loop_inv k own ?a s" "?body s = Inr s'"
    with spec [of s] sequential_body_round show "loop_inv k own ?a s' \<and> fst s < fst s'" by fastforce
  next
    fix s :: "nat \<times> i64 \<times> ('a, 'b) consumer" assume "N \<le> fst s"
    with stopped [of "fst s"] show "\<exists>r. ?body s = Inl r"
      by (cases s) (auto simp: sequential_body_def Let_def)
  qed (rule inv0)
  then obtain r where "poll (Suc N) ?body (0, ?a + 1, c) = Some r" by auto
  then have p: "poll fuel ?body (0, ?a + 1, c) = Some r" by (rule poll_mono) (use fuel in simp)
  have "r \<noteq> None"
  proof (rule poll_inv [where I = "loop_inv k own ?a", OF p inv0])
    fix s s' assume "loop_inv k own ?a s" "?body s = Inr s'"
    with spec [of s] show "loop_inv k own ?a s'" by simp
  next
    fix s assume s: "loop_inv k own ?a s" "?body s = Inl r"
    show ?thesis
    proof
      assume "r = None"
      with spec [OF s(1)] s(2)
      have none: "stop_wait_for pk stop fuel (ce_world env (fst s) (co_world (snd (snd s)))) 1 (fst (snd s)) = None" by simp
      have "bw_inv k own (co_world (snd (snd s)))" using s(1) by (cases s) (simp add: loop_inv_def)
      with waits [of "fst s"] none have "N \<le> fst s" by (meson not_le)
      with stopped [of "fst s"] s(2) \<open>r = None\<close> show False
        by (cases s) (auto simp: sequential_body_def Let_def)
    qed
  qed
  with p a1 show ?thesis by (auto simp: run_sequential_batch_loop_impl_def seq_get_def)
qed

section \<open>Properties of the sequential loops\<close>


text \<open>
  A consumer with reference 5 on the multi-producer ring of 4 whose sequences 0 and 2 are published; the
  shutdown flag is seen from the second round on.
\<close>

definition example_env :: "nat co_env" where
  "example_env =
     \<lparr>ce_world = (\<lambda>i w _. if i = 0 then w else w\<lparr>bw_shutdown := True\<rparr>), ce_ring = \<lambda>_ rb. rb\<rparr>"

definition example_consumer :: "(nat, i64 list) consumer" where
  "example_consumer =
     \<lparr>co_world = example_world, co_ring = \<lparr>storage = Inline [10, 11, 12, 13], index_mask = 3\<rparr>,
      co_handler = [], co_trace = []\<rparr>"

definition recording_handler :: "(nat, i64 list) event_handler" where
  "recording_handler =
     \<lparr>on_batch_start = \<lambda>_ _ h. (Some (Ok ()), h),
      on_event = \<lambda>e s b h. (Some (Ok ()), e + 1, h @ [s])\<rparr>"

lemma example_consumer_ok:
  "bw_inv 2 5 (co_world example_consumer)" "ring_invar (co_ring example_consumer)" "co_trace example_consumer = []"
proof -
  have "needs_contiguity_check (bw_bar example_world)" "is_multi_seq (bar_seq (bw_bar example_world))"
    "avail_inv 2 (bw_avail example_world)" "bar_cursor (bw_bar example_world) = 0"
    "bar_deps (bw_bar example_world) = []" "bw_store example_world 0 = 2" "bw_store example_world 5 = - 1"
    by code_simp+
  then show "bw_inv 2 5 (co_world example_consumer)"
    by (simp add: bw_inv_def example_consumer_def bw_tracked_def tracked_def)
  show "ring_invar (co_ring example_consumer)" by code_simp
  show "co_trace example_consumer = []" by (simp add: example_consumer_def)
qed

lemma bar_env_const: "bw_inv k own w \<Longrightarrow> bar_env k s (\<lambda>_. w)"
  by (auto simp: bw_inv_def bar_env_def mono_traj_def readable_def)

lemma shutdown_flag_sel:
  "bw_store (w\<lparr>bw_shutdown := b\<rparr>) = bw_store w" "bw_inv k own (w\<lparr>bw_shutdown := b\<rparr>) = bw_inv k own w"
  by (simp_all add: bw_store_def bw_inv_def bw_avail_def bw_tracked_def)

lemma example_env_ok: "consumer_env 2 5 example_env"
  unfolding consumer_env_def example_env_def
  by (auto simp: shutdown_flag_sel intro!: bar_env_const)



definition stopped_env :: "nat co_env" where
  "stopped_env = \<lparr>ce_world = (\<lambda>_ w _. w\<lparr>bw_shutdown := True\<rparr>), ce_ring = \<lambda>_ rb. rb\<rparr>"


text \<open>
  Broadcasting to a read-only observer is the sequential loop without its writes. On every ring,
  environment and stop flag the read-only loop behaves exactly as the sequential loop with a handler
  that leaves the events as they are and accepts every batch, errors and panics of the observer included.
\<close>

theorem readonly_loop_is_sequential:
  "run_sequential_readonly_loop pk fuel env F own stop thread c =
     run_sequential_batch_loop pk fuel env (as_handler F) own stop thread c \<and>
   run_sequential_readonly_loop_for_stage pk fuel env F own stop ctx c =
     run_sequential_batch_loop_for_stage pk fuel env (as_handler F) own stop ctx c"
  by (simp add: run_sequential_readonly_loop_def run_sequential_batch_loop_def readonly_loop_eq
      run_sequential_readonly_loop_for_stage_def run_sequential_batch_loop_for_stage_def)

end
