(* ===== verification/Producer.thy ===== *)
theory Producer
  imports Sequencer
begin

text \<open>
  The producer handle of \<open>src/disruptor/producer.rs\<close>: claim, update the slots, publish. A user's update
  closure is a function of the event that also says whether it panicked; a batch closure is how many
  times it advances the iterator, what it does to the events, and whether it panics in the end. Results
  are options of options: the outer \<open>None\<close> is a claim that still spins, the inner one a panic that
  unwinds through the producer.
\<close>

section \<open>Errors of the non-blocking path\<close>

datatype try_publish_error =
    PubFull
  | PubContended
  | PubMissingFreeSlots nat
  | PubInvalidBatchSize usize usize
  | PubPoisoned
  | PubShutdown
  | PubReentrantPublish

fun is_terminal :: "try_publish_error \<Rightarrow> bool" where
  "is_terminal PubPoisoned = True"
| "is_terminal PubShutdown = True"
| "is_terminal _ = False"

fun is_transient :: "try_publish_error \<Rightarrow> bool" where
  "is_transient PubFull = True"
| "is_transient PubContended = True"
| "is_transient (PubMissingFreeSlots _) = True"
| "is_transient _ = False"

fun try_publish_error_to_string :: "try_publish_error \<Rightarrow> string" where
  "try_publish_error_to_string PubFull = ''Ring Buffer is full''"
| "try_publish_error_to_string PubContended = ''Another producer won the claim race''"
| "try_publish_error_to_string (PubMissingFreeSlots n) = ''Missing free slots in Ring Buffer: '' @ show_nat n"
| "try_publish_error_to_string (PubInvalidBatchSize r c) =
     ''Invalid batch size '' @ show_nat r @ ''; expected a value in 1..='' @ show_nat c"
| "try_publish_error_to_string PubPoisoned = ''Pipeline was poisoned by a panic; publishing is disabled''"
| "try_publish_error_to_string PubShutdown = ''Sequencer is closed (shutdown/halt); publishing is disabled''"
| "try_publish_error_to_string PubReentrantPublish =
     ''Reentrant publish from inside a single-producer DSL translator''"

section \<open>The handle\<close>

text \<open>\<open>pr_unique\<close>: the handle holds the unique capability of its single-producer sequencer.\<close>

record 'e producer =
  pr_ring :: "'e ring_buffer"
  pr_seq :: sequencer
  pr_unique :: bool

definition producer_new :: "'e ring_buffer \<Rightarrow> sequencer \<Rightarrow> 'e producer" where
  "producer_new rb q = \<lparr>pr_ring = rb, pr_seq = q, pr_unique = False\<rparr>"

definition producer_new_unique :: "'e ring_buffer \<Rightarrow> sp_seq \<Rightarrow> 'e producer" where
  "producer_new_unique rb s = \<lparr>pr_ring = rb, pr_seq = SingleSeq s, pr_unique = True\<rparr>"

definition duplicate_for_multi :: "'e producer \<Rightarrow> 'e producer" where
  "duplicate_for_multi p = \<lparr>pr_ring = pr_ring p, pr_seq = pr_seq p, pr_unique = False\<rparr>"

section \<open>Claiming\<close>

definition with_seq :: "'e producer \<Rightarrow> ('r \<times> sequencer) option \<Rightarrow> ('r \<times> 'e producer) option" where
  "with_seq p = map_option (\<lambda>(r, q). (r, p\<lparr>pr_seq := q\<rparr>))"

definition claim_next_n :: "nat \<Rightarrow> claim_env \<Rightarrow> i64 \<Rightarrow> 'e producer \<Rightarrow> (i64 result \<times> 'e producer) option" where
  "claim_next_n fuel env n p = with_seq p
     (case (pr_unique p, pr_seq p) of
        (True, SingleSeq s) \<Rightarrow> map_option (\<lambda>(r, s'). (r, SingleSeq s')) (cap_next_n fuel (fst env s) n)
      | _ \<Rightarrow> seq_next_n fuel env n (pr_seq p))"

definition claim_next :: "nat \<Rightarrow> claim_env \<Rightarrow> 'e producer \<Rightarrow> (i64 result \<times> 'e producer) option" where
  "claim_next fuel env p = claim_next_n fuel env 1 p"

definition try_claim_next_n :: "nat \<Rightarrow> claim_env \<Rightarrow> i64 \<Rightarrow> 'e producer \<Rightarrow> (i64 option \<times> 'e producer) option" where
  "try_claim_next_n fuel env n p = with_seq p
     (case (pr_unique p, pr_seq p) of
        (True, SingleSeq s) \<Rightarrow> map_option (\<lambda>(r, s'). (r, SingleSeq s')) (cap_try_next_n (fst env s) n)
      | _ \<Rightarrow> seq_try_next_n fuel env n (pr_seq p))"

definition try_claim_next :: "nat \<Rightarrow> claim_env \<Rightarrow> 'e producer \<Rightarrow> (i64 option \<times> 'e producer) option" where
  "try_claim_next fuel env p = try_claim_next_n fuel env 1 p"

definition claim_remaining_capacity :: "'e producer \<Rightarrow> i64" where
  "claim_remaining_capacity p =
     (case (pr_unique p, pr_seq p) of
        (True, SingleSeq s) \<Rightarrow> cap_remaining_capacity (\<lambda>_. s)
      | _ \<Rightarrow> seq_remaining_capacity (pr_seq p))"

definition current_sequence :: "'e producer \<Rightarrow> i64" where
  "current_sequence p = seq_get (seq_mem (pr_seq p)) (seq_get_cursor (pr_seq p))"

definition classify_try_rejection :: "'e producer \<Rightarrow> try_publish_error \<Rightarrow> try_publish_error" where
  "classify_try_rejection p fallback =
     (if seq_is_poisoned (pr_seq p) then PubPoisoned
      else if seq_is_closed (pr_seq p) then PubShutdown
      else fallback)"

section \<open>Panics in user code\<close>

text \<open>The drop of \<open>PoisonOnPanic\<close> on a thread called \<open>thread\<close>; logging is left out.\<close>

definition poison_on_panic :: "string \<Rightarrow> i64 \<Rightarrow> i64 \<Rightarrow> sequencer \<Rightarrow> sequencer" where
  "poison_on_panic thread first_sequence last_sequence q =
     (let msg = (if first_sequence = last_sequence
            then ''producer update panicked after claim and before publish''
            else ''producer batch update panicked after claiming sequences '' @
                 show_int first_sequence @ ''..='' @ show_int last_sequence);
          failure = with_sequence first_sequence
            (with_thread_name thread (failure_record_new ProducerPanic msg))
      in seq_poison (seq_record_failure failure q))"

section \<open>Publishing\<close>

text \<open>The end of \<open>publish\<close> and \<open>try_publish\<close>: update the claimed slot and publish it.\<close>

definition update_and_publish ::
    "string \<Rightarrow> ('e \<Rightarrow> 'e \<times> bool) \<Rightarrow> i64 \<Rightarrow> 'e producer \<Rightarrow> (i64 option \<times> 'e producer) option" where
  "update_and_publish thread upd sequence p =
     (case ring_get (pr_ring p) sequence of
        None \<Rightarrow> None
      | Some e \<Rightarrow>
          (case ring_update (pr_ring p) sequence (\<lambda>_. fst (upd e)) of
             None \<Rightarrow> None
           | Some rb \<Rightarrow>
               if snd (upd e)
               then Some (None, p\<lparr>pr_ring := rb, pr_seq := poison_on_panic thread sequence sequence (pr_seq p)\<rparr>)
               else (case seq_publish sequence (pr_seq p) of
                       None \<Rightarrow> Some (None, p\<lparr>pr_ring := rb\<rparr>)
                     | Some q \<Rightarrow> Some (Some sequence, p\<lparr>pr_ring := rb, pr_seq := q\<rparr>))))"

definition publish ::
    "nat \<Rightarrow> claim_env \<Rightarrow> string \<Rightarrow> ('e \<Rightarrow> 'e \<times> bool) \<Rightarrow> 'e producer \<Rightarrow> (i64 result option \<times> 'e producer) option" where
  "publish fuel env thread upd p =
     (case claim_next fuel env p of
        None \<Rightarrow> None
      | Some (Inl e, p1) \<Rightarrow> Some (Some (Err e), p1)
      | Some (Inr sequence, p1) \<Rightarrow>
          map_option (\<lambda>(r, p2). (map_option Ok r, p2)) (update_and_publish thread upd sequence p1))"

definition try_publish ::
    "nat \<Rightarrow> claim_env \<Rightarrow> string \<Rightarrow> ('e \<Rightarrow> 'e \<times> bool) \<Rightarrow> 'e producer \<Rightarrow>
     ((try_publish_error + i64) option \<times> 'e producer) option" where
  "try_publish fuel env thread upd p =
     (case try_claim_next fuel env p of
        None \<Rightarrow> None
      | Some (None, p1) \<Rightarrow>
          let transient = (if claim_remaining_capacity p1 > 0 then PubContended else PubFull)
          in Some (Some (Inl (classify_try_rejection p1 transient)), p1)
      | Some (Some sequence, p1) \<Rightarrow>
          map_option (\<lambda>(r, p2). (map_option Inr r, p2)) (update_and_publish thread upd sequence p1))"

record 'e batch_closure =
  bc_calls :: nat
  bc_update :: "i64 \<Rightarrow> 'e \<Rightarrow> 'e"
  bc_panics :: bool

definition update_and_publish_range ::
    "nat \<Rightarrow> string \<Rightarrow> 'e batch_closure \<Rightarrow> i64 \<Rightarrow> i64 \<Rightarrow> 'e producer \<Rightarrow> (i64 option \<times> 'e producer) option" where
  "update_and_publish_range fuel thread c batch_size end_sequence p =
     (let start_sequence = sub_i64 end_sequence (sub_i64 batch_size 1)
      in case batch_drain (bc_calls c) (bc_update c) (batch_iter_mut start_sequence end_sequence) (pr_ring p) of
           None \<Rightarrow> None
         | Some rb \<Rightarrow>
             if bc_panics c
             then Some (None, p\<lparr>pr_ring := rb,
               pr_seq := poison_on_panic thread start_sequence end_sequence (pr_seq p)\<rparr>)
             else (case seq_publish_range fuel start_sequence end_sequence (pr_seq p) of
                     None \<Rightarrow> None
                   | Some None \<Rightarrow> Some (None, p\<lparr>pr_ring := rb\<rparr>)
                   | Some (Some q) \<Rightarrow> Some (Some end_sequence, p\<lparr>pr_ring := rb, pr_seq := q\<rparr>)))"

definition batch_publish ::
    "nat \<Rightarrow> claim_env \<Rightarrow> string \<Rightarrow> usize \<Rightarrow> 'e batch_closure \<Rightarrow> 'e producer \<Rightarrow>
     (i64 result option \<times> 'e producer) option" where
  "batch_publish fuel env thread n c p =
     (let capacity = seq_get_buffer_size (pr_seq p) in
      if n = 0 \<or> n > capacity then
        Some (Some (Err (InvalidSequence (case i64_try_from n of Some x \<Rightarrow> x | None \<Rightarrow> i64_max))), p)
      else case i64_try_from n of
        None \<Rightarrow> Some (Some (Err (InvalidSequence i64_max)), p)
      | Some batch_size \<Rightarrow>
          (case claim_next_n fuel env batch_size p of
             None \<Rightarrow> None
           | Some (Inl e, p1) \<Rightarrow> Some (Some (Err e), p1)
           | Some (Inr end_sequence, p1) \<Rightarrow>
               map_option (\<lambda>(r, p2). (map_option Ok r, p2))
                 (update_and_publish_range fuel thread c batch_size end_sequence p1)))"

definition try_batch_publish ::
    "nat \<Rightarrow> claim_env \<Rightarrow> string \<Rightarrow> usize \<Rightarrow> 'e batch_closure \<Rightarrow> 'e producer \<Rightarrow>
     ((try_publish_error + i64) option \<times> 'e producer) option" where
  "try_batch_publish fuel env thread n c p =
     (let capacity = seq_get_buffer_size (pr_seq p) in
      if n = 0 \<or> n > capacity then
        Some (Some (Inl (classify_try_rejection p (PubInvalidBatchSize n capacity))), p)
      else case i64_try_from n of
        None \<Rightarrow> Some (Some (Inl (classify_try_rejection p (PubInvalidBatchSize n capacity))), p)
      | Some batch_size \<Rightarrow>
          (case try_claim_next_n fuel env batch_size p of
             None \<Rightarrow> None
           | Some (None, p1) \<Rightarrow>
               let remaining = nat (max (claim_remaining_capacity p1) 0);
                   deficit = n - remaining;
                   transient = (if deficit = 0 then PubContended else PubMissingFreeSlots deficit)
               in Some (Some (Inl (classify_try_rejection p1 transient)), p1)
           | Some (Some end_sequence, p1) \<Rightarrow>
               map_option (\<lambda>(r, p2). (map_option Inr r, p2))
                 (update_and_publish_range fuel thread c batch_size end_sequence p1)))"

section \<open>Invariant and claims\<close>

definition pr_inv :: "nat \<Rightarrow> 'e producer \<Rightarrow> bool" where
  "pr_inv k p \<longleftrightarrow> seq_inv k (pr_seq p) \<and> ring_invar (pr_ring p) \<and> ring_buffer_size (pr_ring p) = 2 ^ k"

lemma cap_next_n_spec:
  assumes "sp_env tr" and "sp_inv (tr 0)" and "sp_room (tr 0)" and "cap_next_n fuel tr n = Some (r, s')"
  shows "sp_inv s' \<and> sp_buffer_size s' = sp_buffer_size (tr 0) \<and>
    (case r of
       Inr hi \<Rightarrow> 1 \<le> n \<and> n \<le> int (sp_buffer_size (tr 0)) \<and> hi = sp_next_value (tr 0) + n \<and> sp_next_value s' = hi
     | Inl e \<Rightarrow> sp_next_value s' = sp_next_value (tr 0))"
proof -
  have sz: "sp_buffer_size_i64 (tr 0) = int (sp_buffer_size (tr 0))" "- 1 \<le> sp_next_value (tr 0)"
    using assms(2) by (simp_all add: sp_inv_def)
  note base = sp_inv_env [OF assms(1,2)] sp_envD(1,4) [OF assms(1)]
  show ?thesis
  proof (cases "1 \<le> n \<and> n \<le> int (sp_buffer_size (tr 0)) \<and> sp_claim_state_error tr 0 = None")
    case False
    then show ?thesis using assms(4) base sz
      by (auto simp: cap_next_n_def split: if_splits option.splits)
  next
    case True
    then have n: "1 \<le> n" "n \<le> int (sp_buffer_size (tr 0))" by simp_all
    from True assms(4) sz obtain t own where
      inner: "sp_next_n_inner fuel tr 2 n (tr 2) = Some (r, t, own)" and s': "s' = rejoin (tr t) own"
      by (auto simp: cap_next_n_def split: option.splits)
    note spec = sp_next_n_inner_spec [OF assms(1-3) own_start_env(1) [OF assms(1)] n inner]
    show ?thesis
    proof (cases r)
      case (Inl e)
      with spec have "own_post tr t own (sp_next_value (tr 0))" by simp
      with own_post_inv(1) [OF assms(1,2) this sz(2)] s' Inl base show ?thesis
        by (simp add: own_post_def)
    next
      case (Inr hi)
      with spec have "hi = sp_next_value (tr 0) + n" "own_post tr t own hi" by auto
      with own_post_inv(1) [OF assms(1,2) this(2)] s' Inr n sz base show ?thesis
        by (simp add: own_post_def)
    qed
  qed
qed

lemma claim_next_n_contract:
  assumes "env_ok k env" and "pr_inv k p" and "seq_room k (pr_seq p)"
    and "claim_next_n fuel env n p = Some (r, p1)"
  shows "pr_inv k p1 \<and> pr_ring p1 = pr_ring p \<and> pr_unique p1 = pr_unique p \<and>
    (\<forall>hi. r = Inr hi \<longrightarrow> 1 \<le> n \<and> n \<le> 2 ^ k \<and> seq_pos (pr_seq p) \<le> hi - n \<and> hi \<le> seq_pos (pr_seq p1))"
proof (cases "pr_unique p \<and> (\<exists>s. pr_seq p = SingleSeq s)")
  case True
  then obtain s where s: "pr_unique p" "pr_seq p = SingleSeq s" by blast
  let ?tr = "fst env s"
  have tr: "sp_env ?tr" "?tr 0 = s" using assms(1) by (auto simp: env_ok_def)
  from assms(4) s obtain s' where p1: "p1 = p\<lparr>pr_seq := SingleSeq s'\<rparr>"
    and run: "cap_next_n fuel ?tr n = Some (r, s')"
    by (auto simp: claim_next_n_def with_seq_def)
  have inv: "sp_inv (?tr 0)" "sp_room (?tr 0)" using assms(2,3) s tr(2) by (auto simp: pr_inv_def)
  from cap_next_n_spec [OF tr(1) inv run] show ?thesis
    using assms(2) s p1 tr(2) by (cases r) (auto simp: pr_inv_def)
next
  case False
  have "claim_next_n fuel env n p = with_seq p (seq_next_n fuel env n (pr_seq p))"
    using False by (cases "pr_unique p"; cases "pr_seq p") (simp_all add: claim_next_n_def)
  with assms(4) obtain q where q: "seq_next_n fuel env n (pr_seq p) = Some (r, q)" "p1 = p\<lparr>pr_seq := q\<rparr>"
    by (auto simp: with_seq_def)
  with seq_next_n_contract [OF assms(1) _ assms(3) q(1)] assms(2) show ?thesis
    by (auto simp: pr_inv_def)
qed

lemma seq_publish_keeps:
  assumes "seq_inv k q" and "seq_publish s q = Some q'"
  shows "seq_inv k q'" and "seq_pos q' = seq_pos q"
proof -
  have "seq_inv k q' \<and> seq_pos q' = seq_pos q"
  proof (cases q)
    case (SingleSeq s0)
    with assms show ?thesis by (auto simp: sp_publish_def sp_inv_def seq_set_def Let_def)
  next
    case (MultiSeq m)
    with assms obtain m' where m': "mp_publish s m = Some m'" "q' = MultiSeq m'" by auto
    note fr = mp_publish_frame [OF m'(1)]
    have "avail_inv k (mp_avail m')"
      using set_available_inv [OF _ fr(7)] assms(1) MultiSeq by (simp add: mp_inv_def)
    with MultiSeq m' assms(1) fr show ?thesis by (simp add: mp_inv_def below_def)
  qed
  then show "seq_inv k q'" "seq_pos q' = seq_pos q" by auto
qed

lemma seq_publish_total: "seq_inv k q \<Longrightarrow> \<exists>q'. seq_publish s q = Some q'"
proof (cases q)
  case (MultiSeq m)
  assume "seq_inv k q"
  with MultiSeq set_available_total [of k "mp_avail m" s] obtain a where "set_available (mp_avail m) s = Some a"
    by (auto simp: mp_inv_def)
  with MultiSeq show ?thesis by (simp add: mp_publish_def Let_def)
qed simp

definition producer_failure :: "string \<Rightarrow> i64 \<Rightarrow> failure_record \<Rightarrow> bool" where
  "producer_failure thread sequence f \<longleftrightarrow>
     phase f = ProducerPanic \<and> failure_sequence f = Some sequence \<and> thread_name f = Some thread"

lemma poison_on_panic_record:
  "\<exists>f. producer_failure t a f \<and> poison_on_panic t a b q = seq_poison (seq_record_failure f q)"
  unfolding poison_on_panic_def Let_def producer_failure_def
  by (intro exI conjI) (rule_tac [4] refl, simp_all add: failure_record_defs)

lemma poison_on_panic_keeps:
  "seq_inv k q \<Longrightarrow> seq_inv k (poison_on_panic t a b q)"
  "seq_pos (poison_on_panic t a b q) = seq_pos q"
  using poison_on_panic_record [of t a b q] seq_poison_record(1,3) by auto

text \<open>What the update of a claimed slot does to the ring.\<close>

lemma update_and_publish_spec:
  assumes "pr_inv k p"
  shows "\<exists>e rb q. ring_get (pr_ring p) s = Some e \<and>
    update_and_publish thread upd s p =
      Some (if snd (upd e) then None else Some s, p\<lparr>pr_ring := rb, pr_seq := q\<rparr>) \<and>
    (if snd (upd e) then q = poison_on_panic thread s s (pr_seq p) else seq_publish s (pr_seq p) = Some q) \<and>
    ring_invar rb \<and> ring_buffer_size rb = 2 ^ k \<and> seq_inv k q \<and> seq_pos q = seq_pos (pr_seq p) \<and>
    ring_get rb s = Some (fst (upd e)) \<and>
    (\<forall>s'. s' mod 2 ^ k \<noteq> s mod 2 ^ k \<longrightarrow> ring_get rb s' = ring_get (pr_ring p) s')"
proof -
  from assms have inv: "ring_invar (pr_ring p)" "ring_buffer_size (pr_ring p) = 2 ^ k" "seq_inv k (pr_seq p)"
    by (auto simp: pr_inv_def)
  from rb.get_total [OF inv(1)] obtain e where e: "ring_get (pr_ring p) s = Some e" by blast
  from rb.upd_total [OF inv(1)] obtain rb where rb: "ring_update (pr_ring p) s (\<lambda>_. fst (upd e)) = Some rb" by blast
  note keep = rb.upd_invar [OF inv(1) rb]
  have get: "ring_get rb s' = (if s mod 2 ^ k = s' mod 2 ^ k
      then map_option (\<lambda>_. fst (upd e)) (ring_get (pr_ring p) s') else ring_get (pr_ring p) s')" for s'
    using rb.get_upd [OF inv(1) rb, of s'] inv(2) by simp
  from seq_publish_total [OF inv(3)] obtain q where q: "seq_publish s (pr_seq p) = Some q" by blast
  note qk = seq_publish_keeps [OF inv(3) q]
  note pk = poison_on_panic_keeps
  show ?thesis
  proof (cases "snd (upd e)")
    case True
    show ?thesis
      by (intro exI [of _ e] exI [of _ rb] exI [of _ "poison_on_panic thread s s (pr_seq p)"])
        (use True e rb keep get pk inv in \<open>auto simp: update_and_publish_def\<close>)
  next
    case False
    show ?thesis
      by (intro exI [of _ e] exI [of _ rb] exI [of _ q])
        (use False e rb keep get q qk inv in \<open>auto simp: update_and_publish_def\<close>)
  qed
qed

text \<open>A poisoned pipeline refuses every claim.\<close>

lemma poisoned_claims:
  assumes "pr_inv k p" and "seq_is_poisoned (pr_seq p)"
  shows "\<exists>e\<in>{Shutdown, Poisoned}. claim_next (Suc (Suc fuel)) quiet p = Some (Err e, p)"
    and "try_claim_next (Suc (Suc fuel)) quiet p = Some (None, p)"
proof -
  have "(\<exists>e\<in>{Shutdown, Poisoned}. claim_next (Suc (Suc fuel)) quiet p = Some (Err e, p)) \<and>
    try_claim_next (Suc (Suc fuel)) quiet p = Some (None, p)"
  proof (cases "pr_seq p")
    case (SingleSeq s)
    with assms have "sp_poisoned s" "1 \<le> sp_buffer_size_i64 s"
      by (auto simp: pr_inv_def sp_inv_def sp_is_poisoned_def)
    with SingleSeq show ?thesis
      by (cases "pr_unique p"; cases "sp_closed s")
        (auto simp: claim_next_def claim_next_n_def try_claim_next_def try_claim_next_n_def with_seq_def
          cap_next_n_def cap_try_next_n_def sp_next_n_def sp_try_next_n_def sp_claim_state_error_def quiet_def)
  next
    case (MultiSeq m)
    with assms have "mp_poisoned m" "1 \<le> mp_buffer_size_i64 m"
      by (auto simp: pr_inv_def mp_inv_def mp_is_poisoned_def)
    with MultiSeq show ?thesis
      by (cases "pr_unique p"; cases "mp_closed m")
        (auto simp: claim_next_def claim_next_n_def try_claim_next_def try_claim_next_n_def with_seq_def
          mp_next_n_def mp_try_next_n_def mp_next_n_start_def mp_try_next_n_start_def quiet_def)
  qed
  then show "\<exists>e\<in>{Shutdown, Poisoned}. claim_next (Suc (Suc fuel)) quiet p = Some (Err e, p)"
    and "try_claim_next (Suc (Suc fuel)) quiet p = Some (None, p)" by auto
qed

lemma publish_cases:
  assumes "env_ok k env" and "pr_inv k p" and "seq_room k (pr_seq p)"
    and "publish fuel env thread upd p = Some (r, p')"
  obtains (claim_error) e where "r = Some (Err e)" "pr_inv k p'" "pr_ring p' = pr_ring p"
    | (published) s p1 e where "r = Some (Ok s)" "claim_next fuel env p = Some (Ok s, p1)" "pr_inv k p'"
        "seq_pos (pr_seq p) < s" "ring_get (pr_ring p) s = Some e" "\<not> snd (upd e)"
        "ring_get (pr_ring p') s = Some (fst (upd e))" "seq_publish s (pr_seq p1) = Some (pr_seq p')"
        "\<forall>s'. s' mod 2 ^ k \<noteq> s mod 2 ^ k \<longrightarrow> ring_get (pr_ring p') s' = ring_get (pr_ring p) s'"
    | (panicked) s p1 where "r = None" "claim_next fuel env p = Some (Ok s, p1)" "pr_inv k p'"
        "pr_seq p' = poison_on_panic thread s s (pr_seq p1)"
        "\<forall>s'. s' mod 2 ^ k \<noteq> s mod 2 ^ k \<longrightarrow> ring_get (pr_ring p') s' = ring_get (pr_ring p) s'"
proof -
  from assms(4) obtain c p1 where c: "claim_next fuel env p = Some (c, p1)"
    by (auto simp: publish_def split: option.splits)
  note con = claim_next_n_contract [OF assms(1-3) c [unfolded claim_next_def]]
  show thesis
  proof (cases c)
    case (Inl e)
    with assms(4) c con claim_error show thesis by (auto simp: publish_def)
  next
    case (Inr s)
    from con have p1: "pr_inv k p1" "pr_ring p1 = pr_ring p" and pos: "seq_pos (pr_seq p) < s"
      using Inr by auto
    from update_and_publish_spec [OF p1(1), of s thread upd] obtain e rb q where
      e: "ring_get (pr_ring p) s = Some e" and
      run: "update_and_publish thread upd s p1 =
        Some (if snd (upd e) then None else Some s, p1\<lparr>pr_ring := rb, pr_seq := q\<rparr>)" and
      q: "if snd (upd e) then q = poison_on_panic thread s s (pr_seq p1) else seq_publish s (pr_seq p1) = Some q" and
      inv: "ring_invar rb" "ring_buffer_size rb = 2 ^ k" "seq_inv k q" and
      get: "ring_get rb s = Some (fst (upd e))"
        "\<forall>s'. s' mod 2 ^ k \<noteq> s mod 2 ^ k \<longrightarrow> ring_get rb s' = ring_get (pr_ring p) s'"
      unfolding p1(2) by metis
    have p': "p' = p1\<lparr>pr_ring := rb, pr_seq := q\<rparr>" and r: "r = (if snd (upd e) then None else Some (Ok s))"
      using assms(4) c Inr run by (auto simp: publish_def)
    have "pr_inv k p'" using p' inv by (simp add: pr_inv_def)
    with published [of s p1 e] panicked [of s p1] p' r c Inr e q get pos show thesis
      by (cases "snd (upd e)") auto
  qed
qed

section \<open>Properties\<close>

text \<open>
  Publishing an event through a producer handle, single or multi, with consumers and other
  producers active during the claim. If it succeeds, the returned sequence is new, the update has been
  applied to exactly the event of its slot before the sequence was published, and no other slot of the
  ring changed; if the claim is refused, the error is delivered and the ring is untouched.
\<close>

theorem publish_writes_claimed_slot:
  assumes "env_ok k env" and "pr_inv k p" and "seq_room k (pr_seq p)"
    and "publish fuel env thread upd p = Some (Some r, p')"
  shows "pr_inv k p' \<and>
    (case r of
       Inr s \<Rightarrow> seq_pos (pr_seq p) < s \<and>
         (\<exists>e. ring_get (pr_ring p) s = Some e \<and> ring_get (pr_ring p') s = Some (fst (upd e))) \<and>
         (\<forall>s'. s' mod 2 ^ k \<noteq> s mod 2 ^ k \<longrightarrow> ring_get (pr_ring p') s' = ring_get (pr_ring p) s')
     | Inl e \<Rightarrow> pr_ring p' = pr_ring p)"
  by (rule publish_cases [OF assms]) auto

text \<open>A ring of 4 numbers, with the unique producer of a fresh single-producer sequencer.\<close>

definition example_producer :: "nat producer" where
  "example_producer = producer_new_unique
     \<lparr>storage = Inline [0, 1, 2, 3], index_mask = 3\<rparr> sp_reserved"

lemma example_producer_inv: "pr_inv 2 example_producer" "seq_room 2 (pr_seq example_producer)"
proof -
  have "sp_inv sp_reserved" "sp_buffer_size sp_reserved = 2 ^ 2"
    by (simp_all add: sp_reserved_def sp_new_unique_def sp_new_def i64_try_from_def sp_inv_def)
  moreover have "ring_invar (pr_ring example_producer)" "ring_buffer_size (pr_ring example_producer) = 2 ^ 2"
    by code_simp+
  ultimately show "pr_inv 2 example_producer"
    by (simp add: pr_inv_def example_producer_def producer_new_unique_def)
  show "seq_room 2 (pr_seq example_producer)" by code_simp
qed

theorem publish_writes_claimed_slot_witness:
  "\<exists>p'. publish 3 quiet ''main'' (\<lambda>e. (e + 40, False)) example_producer = Some (Some (Ok 0), p') \<and>
     ring_get (pr_ring p') 0 = Some 40 \<and> ring_get (pr_ring p') 1 = Some 1"
proof -
  let ?run = "publish 3 quiet ''main'' (\<lambda>e. (e + 40, False)) example_producer"
  have "map_option fst ?run = Some (Some (Ok 0))" by code_simp
  then obtain p' where run: "?run = Some (Some (Ok 0), p')" by auto
  have old: "ring_get (pr_ring example_producer) 0 = Some 0" "ring_get (pr_ring example_producer) 1 = Some 1"
    by code_simp+
  from publish_writes_claimed_slot [OF env_ok_quiet example_producer_inv run] old run show ?thesis by auto
qed

text \<open>
  C36: a panic in the user's update closure never exposes the half-written event. The panic unwinds
  with the claimed sequence unpublished, the pipeline is poisoned and keeps a record of the failure
  (this one, unless an earlier one is already recorded) with the thread and the sequence, and from then
  on every publish fails with \<open>Poisoned\<close> or \<open>Shutdown\<close> and every non-blocking publish with a terminal error.
\<close>

theorem panic_poisons_pipeline:
  assumes "env_ok k env" and "pr_inv k p" and "seq_room k (pr_seq p)"
    and "publish fuel env thread upd p = Some (None, p')"
  shows "\<exists>s p1 f. claim_next fuel env p = Some (Ok s, p1) \<and>
    seq_is_available s (pr_seq p') = seq_is_available s (pr_seq p1) \<and>
    seq_is_poisoned (pr_seq p') \<and> seq_first_failure (pr_seq p') = Some f \<and>
    (seq_first_failure (pr_seq p1) = None \<longrightarrow> producer_failure thread s f) \<and>
    (\<exists>e\<in>{Shutdown, Poisoned}. publish (Suc (Suc fuel')) quiet thread' upd' p' = Some (Some (Err e), p')) \<and>
    (\<exists>e. is_terminal e \<and> try_publish (Suc (Suc fuel')) quiet thread' upd' p' = Some (Some (Inl e), p'))"
proof (rule publish_cases [OF assms])
  fix s p1
  assume c: "claim_next fuel env p = Some (Ok s, p1)" and inv: "pr_inv k p'"
    and q: "pr_seq p' = poison_on_panic thread s s (pr_seq p1)"
  from poison_on_panic_record obtain f where f: "producer_failure thread s f"
    and q': "pr_seq p' = seq_poison (seq_record_failure f (pr_seq p1))" unfolding q by blast
  have poisoned: "seq_is_poisoned (pr_seq p')" unfolding q' by (rule seq_poison_record)
  have first: "seq_first_failure (pr_seq p') =
      Some (case seq_first_failure (pr_seq p1) of Some g \<Rightarrow> g | None \<Rightarrow> f)"
    unfolding q' by (rule seq_poison_record)
  have same: "seq_is_available s (pr_seq p') = seq_is_available s (pr_seq p1)"
    unfolding q' by (rule seq_poison_record)
  note dead = poisoned_claims [OF inv poisoned, of fuel']
  have "\<exists>e\<in>{Shutdown, Poisoned}. publish (Suc (Suc fuel')) quiet thread' upd' p' = Some (Some (Err e), p')"
    using dead(1) by (auto simp: publish_def)
  moreover have "\<exists>e. is_terminal e \<and> try_publish (Suc (Suc fuel')) quiet thread' upd' p' = Some (Some (Inl e), p')"
    using dead(2) poisoned by (auto simp: try_publish_def classify_try_rejection_def Let_def)
  moreover have "seq_first_failure (pr_seq p1) = None \<longrightarrow>
      producer_failure thread s (case seq_first_failure (pr_seq p1) of Some g \<Rightarrow> g | None \<Rightarrow> f)"
    using f by simp
  ultimately show ?thesis
    using c poisoned same first
    by (intro exI [of _ s] exI [of _ p1]
        exI [of _ "case seq_first_failure (pr_seq p1) of Some g \<Rightarrow> g | None \<Rightarrow> f"] conjI) assumption+
qed auto

theorem panic_poisons_pipeline_witness:
  "\<exists>p' f. publish 3 quiet ''main'' (\<lambda>e. (e + 40, True)) example_producer = Some (None, p') \<and>
     seq_is_poisoned (pr_seq p') \<and> seq_first_failure (pr_seq p') = Some f \<and> producer_failure ''main'' 0 f"
proof -
  let ?run = "publish 3 quiet ''main'' (\<lambda>e. (e + 40, True)) example_producer"
  have "map_option fst ?run = Some None" by code_simp
  then obtain p' where run: "?run = Some (None, p')" by auto
  have c: "map_option (\<lambda>(r, p1). (r, seq_first_failure (pr_seq p1))) (claim_next 3 quiet example_producer) =
      Some (Ok 0, None)" by code_simp
  from panic_poisons_pipeline [OF env_ok_quiet example_producer_inv run, of 0 "''t''" "\<lambda>e. (e, False)"] c run
  show ?thesis by fastforce
qed

end
