(* ===== verification/Event_Poller.thy ===== *)
theory Event_Poller
  imports Consumer_Engine Producer
begin

text \<open>
  Consumption driven by the application: \<open>src/disruptor/event_poller.rs\<close>. A poll looks at the barrier
  without waiting and hands out a batch that borrows the poller; dropping the batch acknowledges the
  prefix that was taken. The shutdown flag of the poller is \<open>bw_shutdown\<close> of its world.
\<close>

section \<open>The poller\<close>

datatype polling = Idle | PollShutdown

record 'e poller =
  po_ring :: "'e ring_buffer"
  po_world :: bar_world
  po_sequence :: seq_ref
  po_next :: i64

text \<open>\<open>EventPoller::new\<close>; the fresh sequence gets the reference \<open>own\<close>.\<close>

definition poller_new :: "seq_ref \<Rightarrow> 'e ring_buffer \<Rightarrow> bar_world \<Rightarrow> 'e poller" where
  "poller_new own rb w =
     \<lparr>po_ring = rb, po_world = bw_set own INITIAL_CURSOR_VALUE w, po_sequence = own, po_next = 0\<rparr>"

definition next_sequence_of :: "'e poller \<Rightarrow> i64" where
  "next_sequence_of p = po_next p"

definition halt :: "'e poller \<Rightarrow> 'e poller" where
  "halt p = p\<lparr>po_world := (po_world p)\<lparr>bw_shutdown := True, bw_bar := alert (bw_bar (po_world p))\<rparr>\<rparr>"

section \<open>Batches\<close>

record event_batch =
  eb_from :: i64
  eb_current :: i64
  eb_to :: i64
  eb_committed :: bool

text \<open>
  A poll while the world runs through \<open>tr\<close>; the result and the time of the return. \<open>None\<close>: the scan of
  the barrier panicked or is not finished.
\<close>

definition poller_poll :: "nat \<Rightarrow> bar_world traj \<Rightarrow> 'e poller \<Rightarrow> ((polling + event_batch) \<times> nat) option" where
  "poller_poll fuel tr p =
     (if bw_shutdown (tr 0) then Some (Inl PollShutdown, 0)
      else case try_get_available_sequence fuel tr 1 (po_next p) of
        None \<Rightarrow> None
      | Some (None, t) \<Rightarrow> None
      | Some (Some (Inl _), t) \<Rightarrow> Some (Inl PollShutdown, t)
      | Some (Some (Inr available), t) \<Rightarrow>
          if bw_shutdown (tr (Suc t)) then Some (Inl PollShutdown, Suc t)
          else if available < po_next p then Some (Inl Idle, Suc t)
          else Some (Inr \<lparr>eb_from = po_next p, eb_current = po_next p, eb_to = available,
                          eb_committed = False\<rparr>, Suc t))"

definition cap_batch :: "usize \<Rightarrow> event_batch \<Rightarrow> event_batch" where
  "cap_batch max_events b =
     (if max_events = 0 then b\<lparr>eb_to := sub_i64 (eb_from b) 1\<rparr>
      else
        let n = (case i64_try_from max_events of Some x \<Rightarrow> x | None \<Rightarrow> i64_max);
            max_hi = saturating_add_i64 (eb_from b) (sub_i64 n 1)
        in if eb_to b > max_hi then b\<lparr>eb_to := max_hi\<rparr> else b)"

definition take_batch :: "nat \<Rightarrow> bar_world traj \<Rightarrow> usize \<Rightarrow> 'e poller \<Rightarrow> ((polling + event_batch) \<times> nat) option" where
  "take_batch fuel tr max_events p =
     map_option (\<lambda>(r, t). (map_sum (\<lambda>e. e) (cap_batch max_events) r, t)) (poller_poll fuel tr p)"

definition from_sequence :: "event_batch \<Rightarrow> i64" where
  "from_sequence b = eb_from b"

definition to_sequence :: "event_batch \<Rightarrow> i64" where
  "to_sequence b = eb_to b"

definition batch_len :: "event_batch \<Rightarrow> usize" where
  "batch_len b =
     (if eb_to b < eb_from b then 0
      else case usize_try_from (add_i64 (sub_i64 (eb_to b) (eb_from b)) 1) of Some n \<Rightarrow> n | None \<Rightarrow> 0)"

definition batch_is_empty :: "event_batch \<Rightarrow> bool" where
  "batch_is_empty b \<longleftrightarrow> batch_len b = 0"

text \<open>\<open>None\<close> outside: a slot outside the ring.\<close>

definition batch_get :: "'e poller \<Rightarrow> event_batch \<Rightarrow> i64 \<Rightarrow> 'e option option" where
  "batch_get p b sequence =
     (if sequence < eb_from b \<or> sequence > eb_to b then Some None
      else map_option Some (ring_get (po_ring p) sequence))"

text \<open>Taking the next event; \<open>f\<close> is what the caller does to it.\<close>

definition next_mut :: "('e \<Rightarrow> 'e) \<Rightarrow> 'e poller \<Rightarrow> event_batch \<Rightarrow> (i64 option \<times> 'e poller \<times> event_batch) option" where
  "next_mut f p b =
     (if eb_current b > eb_to b then Some (None, p, b)
      else
        let s = eb_current b; b' = b\<lparr>eb_current := add_i64 s 1\<rparr>
        in map_option (\<lambda>rb. (Some s, p\<lparr>po_ring := rb\<rparr>, b')) (ring_update (po_ring p) s f))"

definition commit_to :: "i64 \<Rightarrow> 'e poller \<Rightarrow> event_batch \<Rightarrow> 'e poller \<times> event_batch" where
  "commit_to upper p b =
     (if eb_committed b then (p, b)
      else
        let b' = b\<lparr>eb_committed := True\<rparr>
        in if upper \<ge> eb_from b
           then (p\<lparr>po_world := bw_set (po_sequence p) upper (po_world p), po_next := add_i64 upper 1\<rparr>, b')
           else (p, b'))"

definition batch_drop :: "'e poller \<Rightarrow> event_batch \<Rightarrow> 'e poller" where
  "batch_drop p b = fst (commit_to (sub_i64 (eb_current b) 1) p b)"

text \<open>\<open>commit\<close> and \<open>ack_all\<close> consume the batch, so its drop runs after them.\<close>

definition batch_commit :: "'e poller \<Rightarrow> event_batch \<Rightarrow> 'e poller" where
  "batch_commit p b = (let (p', b') = commit_to (sub_i64 (eb_current b) 1) p b in batch_drop p' b')"

definition ack_all :: "'e poller \<Rightarrow> event_batch \<Rightarrow> 'e poller" where
  "ack_all p b = (let (p', b') = commit_to (eb_to b) p b in batch_drop p' b')"

section \<open>A single-producer ring with a poller\<close>

text \<open>
  The producer handle and the poller share the sequencer and the ring; both get the state after the
  registration (\<open>rcu\<close> is the update of the \<open>arc-swap\<close> crate). The references of the cursor and of the
  poller's sequence are given. \<open>None\<close>: a panic.
\<close>

definition open_single_producer_poller ::
    "((seq_ref list \<Rightarrow> seq_ref list) \<Rightarrow> seq_ref list \<Rightarrow> seq_ref list) \<Rightarrow>
     usize \<Rightarrow> (nat \<Rightarrow> 'e) \<Rightarrow> wait_strategy \<Rightarrow> seq_ref \<Rightarrow> seq_ref \<Rightarrow> store \<Rightarrow> ('e producer \<times> 'e poller) result option" where
  "open_single_producer_poller rcu buffer_size factory ws cursor own mem =
     (case ring_new buffer_size factory of
        Inl e \<Rightarrow> Some (Err e)
      | Inr rb \<Rightarrow>
          (case sp_new_unique buffer_size ws cursor mem of
             None \<Rightarrow> None
           | Some s0 \<Rightarrow>
               let w0 = \<lparr>bw_bar = barrier_new (sp_get_cursor s0) ws [] (SingleSeq s0), bw_shutdown = False,
                         bw_running = True, bw_strategy_alerted = False, bw_clock = 0\<rparr>;
                   p0 = poller_new own rb w0;
                   q = seq_add_gating_sequences rcu [po_sequence p0] (bar_seq (bw_bar (po_world p0)));
                   p = p0\<lparr>po_world := (po_world p0)\<lparr>bw_bar := (bw_bar (po_world p0))\<lparr>bar_seq := q\<rparr>\<rparr>\<rparr>
               in Some (Ok (\<lparr>pr_ring = rb, pr_seq = q, pr_unique = True\<rparr>, p))))"

section \<open>Polling sessions\<close>

text \<open>\<open>n\<close> calls of \<open>next_mut\<close>, and the sequences they return.\<close>

fun take_events ::
    "nat \<Rightarrow> ('e \<Rightarrow> 'e) \<Rightarrow> 'e poller \<Rightarrow> event_batch \<Rightarrow> (i64 list \<times> 'e poller \<times> event_batch) option" where
  "take_events 0 f p b = Some ([], p, b)"
| "take_events (Suc n) f p b =
     (case next_mut f p b of
        None \<Rightarrow> None
      | Some (r, p', b') \<Rightarrow>
          map_option (\<lambda>(ss, q). (case r of Some s \<Rightarrow> s # ss | None \<Rightarrow> ss, q)) (take_events n f p' b'))"

text \<open>
  A session: poll for at most \<open>m\<close> events, take up to \<open>n\<close> of them, drop the batch (also when the caller
  leaves early or panics). What others do is an environment as for the consumer loops.
\<close>

definition session ::
    "nat \<Rightarrow> 'e co_env \<Rightarrow> ('e \<Rightarrow> 'e) \<Rightarrow> nat \<Rightarrow> usize \<times> nat \<Rightarrow> 'e poller \<Rightarrow> (i64 list \<times> 'e poller) option" where
  "session fuel env f i = (\<lambda>(m, n) p.
     let tr = ce_world env i (po_world p); p0 = p\<lparr>po_ring := ce_ring env i (po_ring p)\<rparr> in
     case take_batch fuel tr m p0 of
       None \<Rightarrow> None
     | Some (Inl _, t) \<Rightarrow> Some ([], p0\<lparr>po_world := tr t\<rparr>)
     | Some (Inr b, t) \<Rightarrow>
         (case take_events n f (p0\<lparr>po_world := tr t\<rparr>) b of
            None \<Rightarrow> None
          | Some (ss, p', b') \<Rightarrow> Some (ss, batch_drop p' b')))"

fun sessions ::
    "nat \<Rightarrow> 'e co_env \<Rightarrow> ('e \<Rightarrow> 'e) \<Rightarrow> nat \<Rightarrow> (usize \<times> nat) list \<Rightarrow> 'e poller \<Rightarrow> (i64 list \<times> 'e poller) option" where
  "sessions fuel env f i [] p = Some ([], p)"
| "sessions fuel env f i (mn # mns) p =
     (case session fuel env f i mn p of
        None \<Rightarrow> None
      | Some (ss, p') \<Rightarrow> map_option (\<lambda>(ss', q). (ss @ ss', q)) (sessions fuel env f (Suc i) mns p'))"

definition poller_inv :: "nat \<Rightarrow> 'e poller \<Rightarrow> bool" where
  "poller_inv k p \<longleftrightarrow> bw_inv k (po_sequence p) (po_world p) \<and> ring_invar (po_ring p) \<and>
     po_next p = bw_store (po_world p) (po_sequence p) + 1"

lemma poller_poll_cases:
  assumes env: "bar_env k (po_next p) tr" "0 \<le> po_next p"
    and "poller_poll fuel tr p = Some (r, t)"
  shows "case r of Inl _ \<Rightarrow> True
    | Inr b \<Rightarrow> eb_from b = po_next p \<and> eb_current b = po_next p \<and> po_next p \<le> eb_to b \<and> \<not> eb_committed b \<and>
        (\<forall>s v. po_next p \<le> s \<and> s \<le> eb_to b \<and> t \<le> v \<longrightarrow> readable (tr v) s)"
proof (cases r)
  case (Inr b)
  with assms(3) obtain available t' where
    "try_get_available_sequence fuel tr 1 (po_next p) = Some (Some (Inr available), t')" "t = Suc t'"
    "po_next p \<le> available"
    "b = \<lparr>eb_from = po_next p, eb_current = po_next p, eb_to = available, eb_committed = False\<rparr>"
    by (auto simp: poller_poll_def split: if_splits option.splits sum.splits)
  with bar_try.batch_readable [OF env] Inr show ?thesis by auto
qed simp

lemma cap_batch_sel:
  assumes "eb_from b \<le> eb_to b" and "0 \<le> eb_from b" and "eb_to b < i64_max"
  shows "eb_from (cap_batch m b) = eb_from b" "eb_current (cap_batch m b) = eb_current b"
    "eb_committed (cap_batch m b) = eb_committed b" "eb_to (cap_batch m b) \<le> eb_to b"
    "eb_from b - 1 \<le> eb_to (cap_batch m b)" "m = 0 \<Longrightarrow> eb_to (cap_batch m b) = eb_from b - 1"
    "0 < m \<Longrightarrow> int m \<le> i64_max \<Longrightarrow> eb_to (cap_batch m b) = min (eb_to b) (eb_from b + int m - 1)"
proof -
  have z: "sub_i64 (eb_from b) 1 = eb_from b - 1"
    using assms by (intro sub_i64_id) (simp add: in_i64_def)
  have n: "sub_i64 (int m) 1 = int m - 1" if "0 < m" "int m \<le> i64_max"
    using that by (intro sub_i64_id) (simp add: in_i64_def)
  have big: "sub_i64 i64_max 1 = i64_max - 1" by (intro sub_i64_id) (simp add: in_i64_def)
  have sat: "saturating_add_i64 (eb_from b) x = min i64_max (eb_from b + x)" if "0 \<le> x" for x
    using assms that by (simp add: saturating_add_i64_def)
  show "eb_from (cap_batch m b) = eb_from b" "eb_current (cap_batch m b) = eb_current b"
    "eb_committed (cap_batch m b) = eb_committed b" "eb_to (cap_batch m b) \<le> eb_to b"
    "eb_from b - 1 \<le> eb_to (cap_batch m b)" "m = 0 \<Longrightarrow> eb_to (cap_batch m b) = eb_from b - 1"
    "0 < m \<Longrightarrow> int m \<le> i64_max \<Longrightarrow> eb_to (cap_batch m b) = min (eb_to b) (eb_from b + int m - 1)"
    using assms z n big by (auto simp: cap_batch_def Let_def i64_try_from_def sat split: option.splits)
qed

lemma take_events_spec:
  assumes "ring_invar (po_ring p)" and "eb_from b \<le> eb_current b" and "eb_current b \<le> eb_to b + 1"
    and "0 \<le> eb_from b" and "eb_to b < i64_max"
  shows "\<exists>p' b'. take_events n f p b = Some ([eb_current b..eb_current b' - 1], p', b') \<and>
    ring_invar (po_ring p') \<and> po_world p' = po_world p \<and> po_sequence p' = po_sequence p \<and> po_next p' = po_next p \<and>
    eb_from b' = eb_from b \<and> eb_to b' = eb_to b \<and> eb_committed b' = eb_committed b \<and>
    eb_current b \<le> eb_current b' \<and> eb_current b' \<le> eb_to b + 1 \<and>
    eb_current b' = min (eb_current b + int n) (eb_to b + 1)"
  using assms
proof (induction n arbitrary: p b)
  case (Suc n)
  show ?case
  proof (cases "eb_current b > eb_to b")
    case True
    then have nm: "next_mut f p b = Some (None, p, b)" by (simp add: next_mut_def)
    from Suc.IH [OF Suc.prems] True obtain p' b' where
      "take_events n f p b = Some ([eb_current b..eb_current b' - 1], p', b')" "ring_invar (po_ring p')"
      "po_world p' = po_world p" "po_sequence p' = po_sequence p" "po_next p' = po_next p"
      "eb_from b' = eb_from b" "eb_to b' = eb_to b" "eb_committed b' = eb_committed b" "eb_current b' = eb_to b + 1"
      using Suc.prems(3) by auto
    with nm True Suc.prems(3) show ?thesis by (intro exI [of _ p'] exI [of _ b']) auto
  next
    case False
    obtain rb where rb: "ring_update (po_ring p) (eb_current b) f = Some rb"
      using rb.upd_total [OF Suc.prems(1)] by blast
    have c: "add_i64 (eb_current b) 1 = eb_current b + 1"
      using Suc.prems False by (intro add_i64_id) (simp add: in_i64_def)
    define p1 where "p1 = p\<lparr>po_ring := rb\<rparr>"
    define b1 where "b1 = b\<lparr>eb_current := eb_current b + 1\<rparr>"
    have nm: "next_mut f p b = Some (Some (eb_current b), p1, b1)"
      using False rb c by (simp add: next_mut_def Let_def p1_def b1_def)
    have pb: "ring_invar (po_ring p1)" "eb_from b1 = eb_from b" "eb_to b1 = eb_to b" "eb_committed b1 = eb_committed b"
      "eb_current b1 = eb_current b + 1" "po_world p1 = po_world p" "po_sequence p1 = po_sequence p" "po_next p1 = po_next p"
      using rb.upd_invar [OF Suc.prems(1) rb] by (simp_all add: p1_def b1_def)
    from Suc.IH [of p1 b1] pb Suc.prems False obtain p' b' where
      s: "take_events n f p1 b1 = Some ([eb_current b + 1..eb_current b' - 1], p', b')" "ring_invar (po_ring p')"
      "po_world p' = po_world p" "po_sequence p' = po_sequence p" "po_next p' = po_next p"
      "eb_from b' = eb_from b" "eb_to b' = eb_to b" "eb_committed b' = eb_committed b"
      "eb_current b + 1 \<le> eb_current b'" "eb_current b' \<le> eb_to b + 1"
      "eb_current b' = min (eb_current b + 1 + int n) (eb_to b + 1)"
      by auto
    have "eb_current b # [eb_current b + 1..eb_current b' - 1] = [eb_current b..eb_current b' - 1]"
      using s(9) by (simp add: upto.simps [of "eb_current b"])
    with nm s show ?thesis by (intro exI [of _ p'] exI [of _ b']) auto
  qed
qed auto

lemma session_spec:
  assumes env: "consumer_env k (po_sequence p) env" and inv: "poller_inv k p"
    and run: "session fuel env f i mn p = Some (ss, p')"
  shows "poller_inv k p' \<and> po_sequence p' = po_sequence p \<and> po_next p \<le> po_next p' \<and>
    ss = [po_next p..po_next p' - 1]"
proof -
  obtain m n where mn: "mn = (m, n)" by (cases mn)
  define tr where "tr = ce_world env i (po_world p)"
  define p0 where "p0 = p\<lparr>po_ring := ce_ring env i (po_ring p)\<rparr>"
  have w: "bw_inv k (po_sequence p) (po_world p)" and nx: "po_next p = bw_store (po_world p) (po_sequence p) + 1"
    and rg: "ring_invar (po_ring p)" using inv by (simp_all add: poller_inv_def)
  note tr = consumer_envD [OF env w, where i = i, folded tr_def]
  have p0: "ring_invar (po_ring p0)" "po_next p0 = po_next p" "po_sequence p0 = po_sequence p"
    using tr(4) [OF rg] by (simp_all add: p0_def)
  have env': "bar_env k (po_next p) tr" "0 \<le> po_next p" using tr(1) nx w by (simp_all add: bw_inv_def)
  from run mn obtain r t where poll: "poller_poll fuel tr p0 = Some (r, t)"
    by (auto simp: session_def Let_def take_batch_def tr_def p0_def split: option.splits)
  define p1 where "p1 = p0\<lparr>po_world := tr t\<rparr>"
  have p1: "ring_invar (po_ring p1)" "po_world p1 = tr t" "po_sequence p1 = po_sequence p" "po_next p1 = po_next p"
    using p0 by (simp_all add: p1_def)
  have inv1: "poller_inv k p1" using p1 tr(2,3) nx by (simp add: poller_inv_def)
  note cases = poller_poll_cases [where p = p0, unfolded p0(2), OF env' poll]
  show ?thesis
  proof (cases r)
    case (Inl e)
    with run mn poll have "ss = []" "p' = p1"
      by (auto simp: session_def Let_def take_batch_def tr_def p0_def p1_def)
    with inv1 p1 show ?thesis by simp
  next
    case (Inr b)
    with cases have b: "eb_from b = po_next p" "eb_current b = po_next p" "po_next p \<le> eb_to b" "\<not> eb_committed b"
      and ready: "\<And>s v. po_next p \<le> s \<Longrightarrow> s \<le> eb_to b \<Longrightarrow> t \<le> v \<Longrightarrow> readable (tr v) s" by auto
    have top: "eb_to b < i64_max" using readable_bound [OF ready [OF b(3) order_refl order_refl] tr(3)] .
    note cap = cap_batch_sel [of b m, unfolded b(1,2), OF b(3) env'(2) top]
    let ?b = "cap_batch m b"
    have pre: "eb_from ?b \<le> eb_current ?b" "eb_current ?b \<le> eb_to ?b + 1" "0 \<le> eb_from ?b" "eb_to ?b < i64_max"
      using cap(1,2,4,5) env'(2) top by auto
    from take_events_spec [OF p1(1) pre, of n f] obtain p2 b2 where
      t2: "take_events n f p1 ?b = Some ([po_next p..eb_current b2 - 1], p2, b2)" "ring_invar (po_ring p2)"
        "po_world p2 = tr t" "po_sequence p2 = po_sequence p" "po_next p2 = po_next p" "eb_from b2 = po_next p"
        "\<not> eb_committed b2" "po_next p \<le> eb_current b2" "eb_current b2 \<le> eb_to ?b + 1"
      unfolding cap p1 using b(4) by auto
    have out: "ss = [po_next p..eb_current b2 - 1]" "p' = batch_drop p2 b2"
      using run mn poll Inr t2(1)
      by (auto simp: session_def Let_def take_batch_def tr_def p0_def p1_def)
    have c: "sub_i64 (eb_current b2) 1 = eb_current b2 - 1" "eb_current b2 - 1 < i64_max"
      using t2(8,9) env'(2) pre(4) by (auto intro!: sub_i64_id simp: in_i64_def)
    show ?thesis
    proof (cases "eb_current b2 = po_next p")
      case True
      with out c t2 have "p' = p2" by (simp add: batch_drop_def commit_to_def Let_def)
      with True out(1) t2 p1 inv1 show ?thesis by (simp add: poller_inv_def)
    next
      case False
      have a: "add_i64 (eb_current b2 - 1) 1 = eb_current b2"
        using c(2) t2(8) env'(2) by (subst add_i64_id) (auto simp: in_i64_def)
      have "p' = p2\<lparr>po_world := bw_set (po_sequence p) (eb_current b2 - 1) (tr t), po_next := eb_current b2\<rparr>"
        using False out(2) c t2 a by (simp add: batch_drop_def commit_to_def Let_def)
      with out(1) t2 bw_inv_set [OF tr(3), of "eb_current b2 - 1" t] c(2) env'(2) show ?thesis
        by (simp add: poller_inv_def)
    qed
  qed
qed

section \<open>Properties\<close>


definition example_poller :: "nat poller" where
  "example_poller =
     \<lparr>po_ring = co_ring example_consumer, po_world = example_world, po_sequence = 5, po_next = 0\<rparr>"

definition idle_env :: "nat co_env" where
  "idle_env = \<lparr>ce_world = (\<lambda>_ w _. w), ce_ring = \<lambda>_ rb. rb\<rparr>"

lemma idle_env_ok: "consumer_env k own idle_env"
  unfolding consumer_env_def idle_env_def by (auto intro: bar_env_const)


text \<open>
  What is published is what is polled. After a successful publish through the single-producer handle
  the next poll of a poller on that ring, with nobody else acting, returns a batch that ends with the
  published sequence, and reading that sequence from the batch gives the event as the update left it.
\<close>

theorem published_event_is_polled:
  assumes "env_ok k env" and "pr_inv k p" and "seq_room k (pr_seq p)"
    and "publish fuel env thread upd p = Some (Some (Ok s), p')"
    and "pr_seq p' = SingleSeq q" and "po_ring po = pr_ring p'"
    and "bw_bar (po_world po) = new_barrier (SingleSeq q) []" and "\<not> bw_shutdown (po_world po)"
    and "po_next po \<le> s"
  shows "\<exists>b t e. poller_poll fuel' (\<lambda>_. po_world po) po = Some (Inr b, t) \<and> eb_from b = po_next po \<and> eb_to b = s \<and>
    ring_get (pr_ring p) s = Some e \<and> batch_get po b s = Some (Some (fst (upd e)))"
proof (rule publish_cases [OF assms(1-4)])
  fix sq p1 e
  assume r: "Some (Ok s) = Some (Ok sq)" and e: "ring_get (pr_ring p) sq = Some e"
    and new: "ring_get (pr_ring p') sq = Some (fst (upd e))" and pub: "seq_publish sq (pr_seq p1) = Some (pr_seq p')"
  from r have sq: "sq = s" by simp
  from pub assms(5) obtain q1 where q1: "pr_seq p1 = SingleSeq q1" by (cases "pr_seq p1") auto
  with pub assms(5) sq have q: "q = sp_publish s q1" by simp
  have cur: "sp_mem q (sp_cursor q) = s" by (simp add: q sp_publish_def Let_def seq_set_def)
  have bar: "is_alerted (bw_bar (po_world po)) = False" "bar_deps (bw_bar (po_world po)) = []"
    "bar_cursor (bw_bar (po_world po)) = sp_cursor q" "bar_seq (bw_bar (po_world po)) = SingleSeq q"
    "needs_contiguity_check (bw_bar (po_world po)) = False"
    by (simp_all add: assms(7) barrier_new_def is_alerted_def)
  have "bw_store (po_world po) (sp_cursor q) = s" using bar(4) cur by (simp add: bw_store_def)
  then obtain t where t: "try_get_available_sequence fuel' (\<lambda>_. po_world po) 1 (po_next po) = Some (Some (Ok s), t)"
    using bar by (simp add: try_get_available_sequence_def check_alert_def resolve_highest_published_def
        seq_get_def Let_def)
  then have "poller_poll fuel' (\<lambda>_. po_world po) po = Some (Inr \<lparr>eb_from = po_next po, eb_current = po_next po,
      eb_to = s, eb_committed = False\<rparr>, Suc t)"
    using assms(8,9) by (simp add: poller_poll_def)
  then show ?thesis
    using e new sq assms(6,9)
    by (intro exI [of _ "\<lparr>eb_from = po_next po, eb_current = po_next po, eb_to = s, eb_committed = False\<rparr>"]
        exI [of _ "Suc t"] exI [of _ e]) (simp add: batch_get_def)
qed auto

theorem published_event_is_polled_witness:
  "\<exists>q (po :: nat poller) b t. bw_bar (po_world po) = new_barrier q [] \<and> po_next po = 0 \<and>
     poller_poll 1 (\<lambda>_. po_world po) po = Some (Inr b, t) \<and> eb_to b = 0 \<and> batch_get po b 0 = Some (Some 40)"
proof -
  let ?run = "publish 3 quiet ''main'' (\<lambda>e. (e + 40, False)) example_producer"
  have "map_option (\<lambda>(r, p). (r, is_multi_seq (pr_seq p))) ?run = Some (Some (Ok 0), False)" by code_simp
  then obtain p' where run: "?run = Some (Some (Ok 0), p')" "\<not> is_multi_seq (pr_seq p')" by auto
  then obtain q where q: "pr_seq p' = SingleSeq q" by (cases "pr_seq p'") auto
  define po where "po = \<lparr>po_ring = pr_ring p', po_world = \<lparr>bw_bar = new_barrier (SingleSeq q) [], bw_shutdown = False,
    bw_running = True, bw_strategy_alerted = False, bw_clock = 0\<rparr>, po_sequence = 1, po_next = 0\<rparr>"
  have po: "po_ring po = pr_ring p'" "bw_bar (po_world po) = new_barrier (SingleSeq q) []"
    "\<not> bw_shutdown (po_world po)" "po_next po = 0"
    by (simp_all add: po_def)
  have e: "ring_get (pr_ring example_producer) 0 = Some (0 :: nat)" by code_simp
  from po(4) have le: "po_next po \<le> 0" by simp
  from published_event_is_polled [OF env_ok_quiet example_producer_inv run(1) q po(1,2,3) le, of 1]
  obtain b t e' where *: "poller_poll 1 (\<lambda>_. po_world po) po = Some (Inr b, t)" "eb_to b = 0"
    "ring_get (pr_ring example_producer) 0 = Some e'" "batch_get po b 0 = Some (Some (e' + 40))"
    by auto
  from *(4) *(3) e have "batch_get po b 0 = Some (Some 40)" by simp
  with *(1,2) po(2,4) show ?thesis
    by (intro exI [of _ "SingleSeq q"] exI [of _ po] exI [of _ b] exI [of _ t] conjI)
qed

end
