(* ===== verification/Handlers.thy ===== *)
theory Handlers
  imports Consumer_Engine
begin

text \<open>
  The user-facing callbacks: the handler trait with its default methods and the three handlers of
  \<open>src/disruptor/event_handler.rs\<close>, the exception handlers of \<open>exception_handler.rs\<close> and the text of a
  panic payload (\<open>failure.rs\<close>). A callback that panics returns \<open>None\<close>.
\<close>

section \<open>Event handlers\<close>

type_synonym 'h callback = "'h \<Rightarrow> unit result option \<times> 'h"

record ('e, 'h) lifecycle_handler = "('e, 'h) event_handler" +
  on_start :: "'h callback"
  on_shutdown :: "'h callback"
  on_timeout :: "i64 \<Rightarrow> 'h callback"
  set_sequence_callback :: "seq_ref \<Rightarrow> 'h \<Rightarrow> 'h"

text \<open>The trait's default methods around an \<open>on_event\<close>.\<close>

definition default_methods ::
    "('e \<Rightarrow> i64 \<Rightarrow> bool \<Rightarrow> 'h \<Rightarrow> unit result option \<times> 'e \<times> 'h) \<Rightarrow> ('e, 'h) lifecycle_handler" where
  "default_methods f =
     \<lparr>on_batch_start = \<lambda>_ _ h. (Some (Ok ()), h), on_event = f,
      on_start = \<lambda>h. (Some (Ok ()), h), on_shutdown = \<lambda>h. (Some (Ok ()), h),
      on_timeout = \<lambda>_ h. (Some (Ok ()), h), set_sequence_callback = \<lambda>_ h. h\<rparr>"

record 'c closure_state =
  ch_handler :: 'c
  ch_sequence_callback :: "seq_ref option"

definition closure_event_handler_new :: "'c \<Rightarrow> 'c closure_state" where
  "closure_event_handler_new c = \<lparr>ch_handler = c, ch_sequence_callback = None\<rparr>"

definition closure_event_handler ::
    "('e \<Rightarrow> i64 \<Rightarrow> bool \<Rightarrow> 'c \<Rightarrow> unit result option \<times> 'e \<times> 'c) \<Rightarrow> ('e, 'c closure_state) lifecycle_handler" where
  "closure_event_handler f =
     (default_methods (\<lambda>e s b h. let (r, e', c) = f e s b (ch_handler h) in (r, e', h\<lparr>ch_handler := c\<rparr>)))
     \<lparr>set_sequence_callback := \<lambda>cb h. h\<lparr>ch_sequence_callback := Some cb\<rparr>\<rparr>"

definition no_op_event_handler :: "('e, unit) lifecycle_handler" where
  "no_op_event_handler = default_methods (\<lambda>e _ _ h. (Some (Ok ()), e, h))"

text \<open>\<open>d\<close> is \<open>T::default()\<close>; a panic of the inner handler leaves before the event is cleared.\<close>

definition clearing_event_handler :: "'e \<Rightarrow> ('e, 'h) lifecycle_handler \<Rightarrow> ('e, 'h) lifecycle_handler" where
  "clearing_event_handler d H =
     (default_methods (\<lambda>e s b h. let (r, e', h') = on_event H e s b h in
        (r, case r of None \<Rightarrow> e' | Some _ \<Rightarrow> d, h')))
     \<lparr>set_sequence_callback := set_sequence_callback H\<rparr>"

section \<open>Exception handlers\<close>

record 'e exception_policy =
  handle_event_exception :: "'e exception_handler"
  handle_on_start_exception :: "disruptor_error \<Rightarrow> unit option"
  handle_on_shutdown_exception :: "disruptor_error \<Rightarrow> unit option"

definition default_exception_handler :: "'e exception_policy" where
  "default_exception_handler =
     \<lparr>handle_event_exception = \<lambda>_ _ _. Some Stop, handle_on_start_exception = \<lambda>_. Some (),
      handle_on_shutdown_exception = \<lambda>_. Some ()\<rparr>"

definition ignore_exception_handler :: "'e exception_policy" where
  "ignore_exception_handler =
     \<lparr>handle_event_exception = \<lambda>_ _ _. Some Continue, handle_on_start_exception = \<lambda>_. Some (),
      handle_on_shutdown_exception = \<lambda>_. Some ()\<rparr>"

definition panic_exception_handler :: "'e exception_policy" where
  "panic_exception_handler =
     \<lparr>handle_event_exception = \<lambda>_ _ _. None, handle_on_start_exception = \<lambda>_. None,
      handle_on_shutdown_exception = \<lambda>_. None\<rparr>"

definition closure_exception_handler ::
    "'e exception_handler \<Rightarrow> (disruptor_error \<Rightarrow> unit option) \<Rightarrow> (disruptor_error \<Rightarrow> unit option) \<Rightarrow>
     'e exception_policy" where
  "closure_exception_handler f s h =
     \<lparr>handle_event_exception = f, handle_on_start_exception = s, handle_on_shutdown_exception = h\<rparr>"

section \<open>Panic payloads\<close>

datatype panic_payload = StrPayload string | StringPayload string | OtherPayload

fun panic_payload_message :: "panic_payload \<Rightarrow> string" where
  "panic_payload_message (StrPayload m) = m"
| "panic_payload_message (StringPayload m) = m"
| "panic_payload_message OtherPayload = ''non-string panic payload''"

section \<open>Draining with the policies\<close>

abbreviation batch_handler :: "('e, 'h) lifecycle_handler \<Rightarrow> ('e, 'h) event_handler" where
  "batch_handler \<equiv> event_handler.truncate"

lemma batch_handler_sel [simp]:
  "on_batch_start (batch_handler H) = on_batch_start H" "on_event (batch_handler H) = on_event H"
  by (simp_all add: event_handler.defs)

lemma clearing_on_event [simp]:
  "on_event (clearing_event_handler d H) e s b h =
     (let (r, e', h') = on_event H e s b h in (r, case r of None \<Rightarrow> e' | Some _ \<Rightarrow> d, h'))"
  by (simp add: clearing_event_handler_def default_methods_def)

lemma clearing_drain:
  assumes "drain_batch (batch_handler (clearing_event_handler d H)) X tr available n t next_sequence c = Some (be, t', c')"
    and "ring_invar (co_ring c)" and "be \<noteq> BatchPanicked"
  shows "\<exists>new. co_trace c' = co_trace c @ new \<and>
    (\<forall>s. ring_get (co_ring c) s = Some d \<or> s \<in> set (trace_seqs new) \<longrightarrow> ring_get (co_ring c') s = Some d)"
  using assms
proof (induction n arbitrary: t next_sequence c)
  case 0
  then show ?case by (simp add: trace_seqs_def)
next
  case (Suc n)
  obtain e where e: "ring_get (co_ring c) next_sequence = Some e"
    using rb.get_total [OF Suc.prems(2)] by blast
  obtain r e' h' where call: "on_event H e next_sequence (next_sequence = available) (co_handler c) = (r, e', h')"
    by (metis prod_cases3)
  have r: "r \<noteq> None"
    using Suc.prems(1,3) e call rb.upd_total [OF Suc.prems(2)] by (auto split: option.splits)
  obtain rb where rb: "ring_update (co_ring c) next_sequence (\<lambda>_. d) = Some rb"
    using rb.upd_total [OF Suc.prems(2)] by blast
  define item where "item = (e, next_sequence, next_sequence = available, tr t)"
  define c1 where "c1 = c\<lparr>co_ring := rb, co_handler := h', co_trace := co_trace c @ [item]\<rparr>"
  have c1: "ring_invar (co_ring c1)" using rb.upd_invar [OF Suc.prems(2) rb] by (simp add: c1_def)
  have cleared: "ring_get (co_ring c1) s = Some d" if "ring_get (co_ring c) s = Some d \<or> s = next_sequence" for s
    using rb.get_upd [OF Suc.prems(2) rb, of s] that e by (auto simp: c1_def)
  show ?case
  proof (cases "drain_batch (batch_handler (clearing_event_handler d H)) X tr available n (Suc t) (add_i64 next_sequence 1) c1
      = Some (be, t', c')")
    case True
    from Suc.IH [OF True c1 Suc.prems(3)] obtain new where new: "co_trace c' = co_trace c1 @ new"
      "\<And>s. ring_get (co_ring c1) s = Some d \<or> s \<in> set (trace_seqs new) \<Longrightarrow> ring_get (co_ring c') s = Some d"
      by blast
    with cleared show ?thesis
      by (intro exI [of _ "item # new"]) (auto simp: c1_def trace_seqs_def item_def)
  next
    case False
    with Suc.prems(1,3) e call rb r have "c' = c1"
      by (auto simp: c1_def item_def Let_def split: option.splits sum.splits error_decision.splits)
    with cleared show ?thesis
      by (intro exI [of _ "[item]"]) (auto simp: c1_def trace_seqs_def item_def)
  qed
qed

text \<open>
  A clearing handler leaves nothing behind. Whatever the wrapped handler answers and the exception
  handler decides, after a batch that ended without a panic every slot that was handed over holds the
  default event.
\<close>

theorem clearing_handler_clears_batch:
  assumes "ring_invar (co_ring c)" and "co_trace c = []"
    and "drain_batch (batch_handler (clearing_event_handler d H)) X tr available n t next_sequence c = Some (be, t', c')"
    and "be \<noteq> BatchPanicked"
  shows "\<forall>s\<in>set (trace_seqs (co_trace c')). ring_get (co_ring c') s = Some d"
  using clearing_drain [OF assms(3,1,4)] assms(2) by auto

text \<open>A handler that refuses sequence 1, under a policy that skips the failing event.\<close>

definition refusing_handler :: "(nat, i64 list) lifecycle_handler" where
  "refusing_handler = default_methods (\<lambda>e s b h. (Some (if s = 1 then Err Timeout else Ok ()), e + 1, h @ [s]))"

theorem clearing_handler_clears_batch_witness:
  "\<exists>t' c'. drain_batch (batch_handler (clearing_event_handler 0 refusing_handler))
      (Some (handle_event_exception ignore_exception_handler)) (\<lambda>_. example_world) 2 3 0 0 example_consumer = Some (Drained, t', c') \<and>
    trace_seqs (co_trace c') = [0, 1, 2] \<and> ring_get (co_ring c') 0 = Some 0 \<and>
    ring_get (co_ring c') 1 = Some 0 \<and> ring_get (co_ring c') 2 = Some 0"
proof -
  let ?run = "drain_batch (batch_handler (clearing_event_handler 0 refusing_handler))
      (Some (handle_event_exception ignore_exception_handler)) (\<lambda>_. example_world) 2 3 0 0 example_consumer"
  have "map_option (\<lambda>(r, t, c). (r, trace_seqs (co_trace c))) ?run = Some (Drained, [0, 1, 2])"
    by code_simp
  then obtain t' c' where run: "?run = Some (Drained, t', c')" "trace_seqs (co_trace c') = [0, 1, 2]" by auto
  from clearing_handler_clears_batch [OF example_consumer_ok(2,3) run(1)] run show ?thesis by auto
qed

end
