(* ===== verification/Event_Processor.thy ===== *)
theory Event_Processor
  imports Handlers
begin

text \<open>
  The batch event processor of \<open>src/disruptor/event_processor.rs\<close>: \<open>run\<close> with its claim of the running
  flag, the start and shutdown callbacks, the sequential loop and the panic guard; the one-shot probe
  \<open>try_run_once\<close>; and the lifecycle methods. The running flag is \<open>bw_running\<close> of the processor's world.
  Other threads act between the steps: they change the world and, while they hold the handler's mutex,
  the handler. A result \<open>None\<close> inside the outer option is a panic that leaves the method.
\<close>

section \<open>The processor and the other threads\<close>

record ('e, 'h) processor =
  bp_consumer :: "('e, 'h) consumer"
  bp_sequence :: seq_ref
  bp_startup_complete :: bool

text \<open>
  Step \<open>n\<close> of a method is preceded by \<open>pe_world n\<close> and \<open>pe_handler n\<close>; \<open>pe_contended n\<close> says that a
  \<open>try_lock\<close> at that step fails.
\<close>

record ('e, 'h) proc_env =
  pe_loop :: "'e co_env"
  pe_world :: "nat \<Rightarrow> bar_world \<Rightarrow> bar_world"
  pe_handler :: "nat \<Rightarrow> 'h \<Rightarrow> 'h"
  pe_contended :: "nat \<Rightarrow> bool"

abbreviation bp_world :: "('e, 'h) processor \<Rightarrow> bar_world" where
  "bp_world p \<equiv> co_world (bp_consumer p)"

definition on_world :: "(bar_world \<Rightarrow> bar_world) \<Rightarrow> ('e, 'h) processor \<Rightarrow> ('e, 'h) processor" where
  "on_world f p = p\<lparr>bp_consumer := (bp_consumer p)\<lparr>co_world := f (bp_world p)\<rparr>\<rparr>"

definition on_handler :: "('h \<Rightarrow> 'h) \<Rightarrow> ('e, 'h) processor \<Rightarrow> ('e, 'h) processor" where
  "on_handler f p = p\<lparr>bp_consumer := (bp_consumer p)\<lparr>co_handler := f (co_handler (bp_consumer p))\<rparr>\<rparr>"

definition others :: "('e, 'h) proc_env \<Rightarrow> nat \<Rightarrow> ('e, 'h) processor \<Rightarrow> ('e, 'h) processor" where
  "others env n p = on_handler (pe_handler env n) (on_world (pe_world env n) p)"

definition set_running :: "bool \<Rightarrow> bar_world \<Rightarrow> bar_world" where
  "set_running b w = w\<lparr>bw_running := b\<rparr>"

text \<open>\<open>BatchEventProcessor::new\<close>; the fresh sequence gets the reference \<open>own\<close>.\<close>

definition processor_new :: "seq_ref \<Rightarrow> 'e ring_buffer \<Rightarrow> bar_world \<Rightarrow> 'h \<Rightarrow> ('e, 'h) processor" where
  "processor_new own rb w h =
     \<lparr>bp_consumer = \<lparr>co_world = set_running False (bw_set own INITIAL_CURSOR_VALUE w), co_ring = rb,
        co_handler = h, co_trace = []\<rparr>,
      bp_sequence = own, bp_startup_complete = False\<rparr>"

definition processor_first_failure :: "('e, 'h) processor \<Rightarrow> failure_record option" where
  "processor_first_failure p = bar_first_failure (bw_bar (bp_world p))"

text \<open>\<open>Self::failure\<close>; \<open>thread\<close> is the name of the calling thread.\<close>

definition processor_failure :: "string \<Rightarrow> failure_phase \<Rightarrow> string \<Rightarrow> i64 option \<Rightarrow> failure_record" where
  "processor_failure thread p msg sequence =
     (let f = with_thread_name thread (failure_record_new p msg)
      in case sequence of Some s \<Rightarrow> with_sequence s f | None \<Rightarrow> f)"

section \<open>Lifecycle callbacks\<close>

definition invoke_on_start ::
    "('e, 'h) proc_env \<Rightarrow> nat \<Rightarrow> string \<Rightarrow> ('e, 'h) lifecycle_handler \<Rightarrow> 'e exception_policy \<Rightarrow>
     ('e, 'h) processor \<Rightarrow> bool option \<times> ('e, 'h) processor" where
  "invoke_on_start env n thread H X p0 =
     (let p = others env n p0 in
      if pe_contended env n then (Some True, p)
      else let (r, h) = on_start H (co_handler (bp_consumer p)); p = on_handler (\<lambda>_. h) p in
        case r of
          None \<Rightarrow> (None, p)
        | Some (Inr _) \<Rightarrow> (Some True, p)
        | Some (Inl e) \<Rightarrow>
            let p = on_world (bw_fail (processor_failure thread HandlerStart (error_to_string e) None)) p
            in (map_option (\<lambda>_. False) (handle_on_start_exception X e), p))"

definition bw_record :: "failure_record \<Rightarrow> bar_world \<Rightarrow> bar_world" where
  "bw_record f w = w\<lparr>bw_bar := bar_record_failure f (bw_bar w)\<rparr>"

definition invoke_on_shutdown ::
    "('e, 'h) proc_env \<Rightarrow> nat \<Rightarrow> string \<Rightarrow> ('e, 'h) lifecycle_handler \<Rightarrow> 'e exception_policy \<Rightarrow>
     ('e, 'h) processor \<Rightarrow> loop_exit \<times> ('e, 'h) processor" where
  "invoke_on_shutdown env n thread H X p0 =
     (let p = others env n p0 in
      if pe_contended env n then (LoopReturned, p)
      else let (r, h) = on_shutdown H (co_handler (bp_consumer p)); p = on_handler (\<lambda>_. h) p in
        case r of
          None \<Rightarrow> (LoopPanicked, p)
        | Some (Inr _) \<Rightarrow> (LoopReturned, p)
        | Some (Inl e) \<Rightarrow>
            let p = on_world (bw_record (processor_failure thread HandlerShutdown (error_to_string e) None)) p
            in (case handle_on_shutdown_exception X e of None \<Rightarrow> LoopPanicked | Some _ \<Rightarrow> LoopReturned, p))"

definition notify_timeout ::
    "('e, 'h) proc_env \<Rightarrow> ('e, 'h) lifecycle_handler \<Rightarrow> i64 \<Rightarrow> ('e, 'h) processor \<Rightarrow>
     loop_exit \<times> ('e, 'h) processor" where
  "notify_timeout env H sequence p0 =
     (let p = others env 0 p0 in
      if pe_contended env 0 then (LoopReturned, p)
      else let (r, h) = on_timeout H sequence (co_handler (bp_consumer p)) in
        (case r of None \<Rightarrow> LoopPanicked | Some _ \<Rightarrow> LoopReturned, on_handler (\<lambda>_. h) p))"

definition processor_on_start ::
    "('e, 'h) proc_env \<Rightarrow> string \<Rightarrow> ('e, 'h) lifecycle_handler \<Rightarrow> 'e exception_policy \<Rightarrow>
     ('e, 'h) processor \<Rightarrow> loop_exit \<times> ('e, 'h) processor" where
  "processor_on_start env thread H X p =
     (let (r, p') = invoke_on_start env 0 thread H X p in
      (case r of None \<Rightarrow> LoopPanicked | Some _ \<Rightarrow> LoopReturned, p'))"

definition processor_on_shutdown ::
    "('e, 'h) proc_env \<Rightarrow> string \<Rightarrow> ('e, 'h) lifecycle_handler \<Rightarrow> 'e exception_policy \<Rightarrow>
     ('e, 'h) processor \<Rightarrow> loop_exit \<times> ('e, 'h) processor" where
  "processor_on_shutdown env thread H X p =
     (case invoke_on_shutdown env 0 thread H X p of
        (LoopPanicked, p') \<Rightarrow> (LoopPanicked, p')
      | (LoopReturned, p') \<Rightarrow> (LoopReturned, on_world (set_running False) (others env 1 p')))"

definition processor_halt :: "('e, 'h) processor \<Rightarrow> ('e, 'h) processor" where
  "processor_halt p = on_world (\<lambda>w. w\<lparr>bw_bar := alert (bw_bar w)\<rparr>) (on_world (set_running False) p)"

definition is_running :: "('e, 'h) processor \<Rightarrow> bool" where
  "is_running p = bw_running (bp_world p)"

definition is_startup_complete :: "('e, 'h) processor \<Rightarrow> bool" where
  "is_startup_complete p = bp_startup_complete p"

section \<open>Running\<close>

definition process_events ::
    "parking \<Rightarrow> nat \<Rightarrow> ('e, 'h) proc_env \<Rightarrow> string \<Rightarrow> ('e, 'h) lifecycle_handler \<Rightarrow> 'e exception_policy \<Rightarrow>
     ('e, 'h) processor \<Rightarrow> (loop_exit \<times> ('e, 'h) processor) option" where
  "process_events pk fuel env thread H X p0 =
     (case invoke_on_start env 2 thread H X p0 of
        (None, p) \<Rightarrow> Some (LoopPanicked, p)
      | (Some started, p1) \<Rightarrow>
          let p = others env 3 (p1\<lparr>bp_startup_complete := True\<rparr>) in
          if \<not> started then Some (LoopReturned, on_world (set_running False) p)
          else if \<not> bw_running (bp_world p) then Some (invoke_on_shutdown env 4 thread H X p)
          else (case run_sequential_batch_loop_with_exceptions pk fuel (pe_loop env) (batch_handler H)
                   (bp_sequence p) Running ''batch-event-processor'' (Some (handle_event_exception X))
                   (bp_consumer p) of
                  None \<Rightarrow> None
                | Some (LoopPanicked, c) \<Rightarrow> Some (LoopPanicked, p\<lparr>bp_consumer := c\<rparr>)
                | Some (LoopReturned, c) \<Rightarrow> Some (invoke_on_shutdown env 5 thread H X (p\<lparr>bp_consumer := c\<rparr>))))"

definition run ::
    "parking \<Rightarrow> nat \<Rightarrow> ('e, 'h) proc_env \<Rightarrow> string \<Rightarrow> panic_payload \<Rightarrow> ('e, 'h) lifecycle_handler \<Rightarrow>
     'e exception_policy \<Rightarrow> ('e, 'h) processor \<Rightarrow> (unit result option \<times> ('e, 'h) processor) option" where
  "run pk fuel env thread payload H X p0 =
     (let p = others env 0 p0 in
      if bw_running (bp_world p) then Some (Some (Err AlreadyRunning), p)
      else let p = on_world (set_running True) p;
               p = others env 1 (p\<lparr>bp_startup_complete := False\<rparr>);
               p = on_world (\<lambda>w. w\<lparr>bw_bar := clear_alert (bw_bar w)\<rparr>) p
           in case process_events pk fuel env thread H X p of
                None \<Rightarrow> None
              | Some (LoopPanicked, p) \<Rightarrow>
                  let f = processor_failure thread ConsumerPanic (panic_payload_message payload) None
                  in Some (None, on_world (set_running False) (others env 7 (on_world (bw_fail f) (others env 6 p))))
              | Some (LoopReturned, p) \<Rightarrow> Some (Some (Ok ()), on_world (set_running False) (others env 6 p)))"

section \<open>The probe\<close>

text \<open>The part of \<open>try_run_once\<close> that handles a batch, from the call of \<open>on_batch_start\<close> on.\<close>

definition probe_batch ::
    "('e, 'h) lifecycle_handler \<Rightarrow> 'e exception_policy \<Rightarrow> string \<Rightarrow> panic_payload \<Rightarrow> seq_ref \<Rightarrow> bar_world traj \<Rightarrow>
     nat \<Rightarrow> i64 \<Rightarrow> i64 \<Rightarrow> ('e, 'h) consumer \<Rightarrow> (bool result option \<times> ('e, 'h) consumer) option" where
  "probe_batch H X thread payload own tr t next_sequence available c =
     (let batch_span = add_i64 (sub_i64 available next_sequence) 1;
          queue_depth = sub_i64 available (seq_get (bw_store (tr t)) own);
          (r, h) = on_batch_start H batch_span queue_depth (co_handler c);
          c1 = c\<lparr>co_handler := h\<rparr>
      in case r of
           None \<Rightarrow> Some (None, c1\<lparr>co_world := tr (Suc t)\<rparr>)
         | Some (Inl e) \<Rightarrow>
             Some (Some (Err Poisoned), c1\<lparr>co_world := set_running False (bw_fail
               (processor_failure thread BatchStart (error_to_string e) (Some next_sequence))
               (bw_set own (sub_i64 next_sequence 1) (tr (Suc t))))\<rparr>)
         | Some (Inr _) \<Rightarrow>
             (case drain_batch (batch_handler H) (Some (handle_event_exception X)) tr available
                     (nat (available + 1 - next_sequence)) (Suc t) next_sequence c1 of
                None \<Rightarrow> None
              | Some (Drained, t', c2) \<Rightarrow> Some (Some (Ok True), c2\<lparr>co_world := bw_set own available (tr t')\<rparr>)
              | Some (StoppedAt s msg, t', c2) \<Rightarrow>
                  Some (Some (Err Poisoned), c2\<lparr>co_world := set_running False (bw_fail
                    (processor_failure thread EventProcessing msg (Some s)) (bw_set own (sub_i64 s 1) (tr t')))\<rparr>)
              | Some (BatchPanicked, t', c2) \<Rightarrow>
                  Some (None, c2\<lparr>co_world := set_running False (bw_fail
                    (processor_failure thread ConsumerPanic (panic_payload_message payload) (Some next_sequence))
                    (tr t'))\<rparr>)))"

text \<open>
  The probe claims the running flag and gives it back on every exit (\<open>RunningClaimGuard\<close>); the world
  runs through the first trajectory of the environment while it is claimed.
\<close>

definition drop_claim :: "('e, 'h) consumer \<Rightarrow> ('e, 'h) processor \<Rightarrow> ('e, 'h) processor" where
  "drop_claim c p = on_world (set_running False) (p\<lparr>bp_consumer := c\<rparr>)"

definition try_run_once ::
    "nat \<Rightarrow> ('e, 'h) proc_env \<Rightarrow> string \<Rightarrow> panic_payload \<Rightarrow> ('e, 'h) lifecycle_handler \<Rightarrow>
     'e exception_policy \<Rightarrow> ('e, 'h) processor \<Rightarrow> (bool result option \<times> ('e, 'h) processor) option" where
  "try_run_once fuel env thread payload H X p0 =
     (let p = others env 0 p0; own = bp_sequence p in
      if bw_running (bp_world p) then Some (Some (Ok False), p)
      else let p = others env 1 (on_world (set_running True) p) in
      if pe_contended env 1 then Some (Some (Ok False), drop_claim (bp_consumer p) p)
      else let tr = ce_world (pe_loop env) 0 (bp_world p);
               c = (bp_consumer p)\<lparr>co_ring := ce_ring (pe_loop env) 0 (co_ring (bp_consumer p))\<rparr>;
               leave = (\<lambda>r c. Some (r, drop_claim c p));
               next_sequence = add_i64 (seq_get (bw_store (tr 0)) own) 1
      in case try_get_available_sequence fuel tr 1 next_sequence of
           None \<Rightarrow> None
         | Some (None, t) \<Rightarrow> leave None (c\<lparr>co_world := tr t\<rparr>)
         | Some (Some (Inl e), t) \<Rightarrow> leave (Some (Err e)) (c\<lparr>co_world := tr t\<rparr>)
         | Some (Some (Inr available), t) \<Rightarrow>
             if \<not> bw_running (tr (Suc t)) then leave (Some (Err Alert)) (c\<lparr>co_world := tr (Suc t)\<rparr>)
             else if available < next_sequence then leave (Some (Ok False)) (c\<lparr>co_world := tr (Suc t)\<rparr>)
             else (case probe_batch H X thread payload own tr (Suc t) next_sequence available c of
                     None \<Rightarrow> None
                   | Some (r, c') \<Rightarrow> leave r c'))"

section \<open>What the other threads may do\<close>

definition bw_poisoned :: "bar_world \<Rightarrow> bool" where
  "bw_poisoned w \<longleftrightarrow> seq_is_poisoned (bar_seq (bw_bar w)) \<and> bar_first_failure (bw_bar w) \<noteq> None"

definition proc_env_ok :: "nat \<Rightarrow> seq_ref \<Rightarrow> ('e, 'h) proc_env \<Rightarrow> bool" where
  "proc_env_ok k own env \<longleftrightarrow> consumer_env k own (pe_loop env) \<and>
     (\<forall>n w. bw_inv k own w \<longrightarrow> bw_inv k own (pe_world env n w) \<and>
        bw_store (pe_world env n w) own = bw_store w own \<and> (bw_poisoned w \<longrightarrow> bw_poisoned (pe_world env n w)))"

lemma proc_env_okD:
  assumes "proc_env_ok k own env"
  shows "consumer_env k own (pe_loop env)"
    "bw_inv k own w \<Longrightarrow> bw_inv k own (pe_world env n w)"
    "bw_inv k own w \<Longrightarrow> bw_store (pe_world env n w) own = bw_store w own"
    "bw_inv k own w \<Longrightarrow> bw_poisoned w \<Longrightarrow> bw_poisoned (pe_world env n w)"
  using assms unfolding proc_env_ok_def by blast+

text \<open>What the processor itself does to the world, apart from its sequence.\<close>

definition quiet_on :: "nat \<Rightarrow> seq_ref \<Rightarrow> (bar_world \<Rightarrow> bar_world) \<Rightarrow> bool" where
  "quiet_on k own f \<longleftrightarrow> (\<forall>w. bw_inv k own w \<longrightarrow> bw_inv k own (f w) \<and> bw_store (f w) own = bw_store w own \<and>
     (bw_poisoned w \<longrightarrow> bw_poisoned (f w)))"

lemma set_running_sel [simp]:
  "bw_store (set_running b w) = bw_store w" "bw_inv k own (set_running b w) = bw_inv k own w"
  "bw_poisoned (set_running b w) = bw_poisoned w" "bw_running (set_running b w) = b"
  by (simp_all add: set_running_def bw_store_def bw_inv_def bw_avail_def bw_tracked_def bw_poisoned_def)

lemma bw_fail_poisons [simp]: "bw_poisoned (bw_fail f w)"
  by (simp add: bw_poisoned_def)

lemma seq_record_sel [simp]:
  "seq_mem (seq_record_failure f q) = seq_mem q" "is_multi_seq (seq_record_failure f q) = is_multi_seq q"
  "is_multi_seq q \<Longrightarrow> seq_avail (seq_record_failure f q) = seq_avail q"
  "seq_is_poisoned (seq_record_failure f q) = seq_is_poisoned q"
  "\<exists>g. seq_first_failure (seq_record_failure f q) = Some g"
  by (cases q; simp add: sp_record_failure_def mp_record_failure_def sp_is_poisoned_def mp_is_poisoned_def split: option.split)+

lemma bw_record_sel [simp]:
  "bw_store (bw_record f w) = bw_store w"
  "bw_tracked (bw_record f w) = bw_tracked w"
  "is_multi_seq (bar_seq (bw_bar (bw_record f w))) = is_multi_seq (bar_seq (bw_bar w))"
  "needs_contiguity_check (bw_bar (bw_record f w)) = needs_contiguity_check (bw_bar w)"
  "is_multi_seq (bar_seq (bw_bar w)) \<Longrightarrow> bw_avail (bw_record f w) = bw_avail w"
  "bw_poisoned w \<Longrightarrow> bw_poisoned (bw_record f w)"
  by (simp_all add: bw_record_def bar_record_failure_def bw_store_def bw_tracked_def bw_avail_def bw_poisoned_def
      bar_first_failure_def)

lemma clear_alert_sel:
  "bw_store (w\<lparr>bw_bar := clear_alert (bw_bar w)\<rparr>) = bw_store w"
  "bw_inv k own (w\<lparr>bw_bar := clear_alert (bw_bar w)\<rparr>) = bw_inv k own w"
  "bw_poisoned (w\<lparr>bw_bar := clear_alert (bw_bar w)\<rparr>) = bw_poisoned w"
  by (simp_all add: clear_alert_def bw_store_def bw_inv_def bw_avail_def bw_tracked_def bw_poisoned_def
      bar_first_failure_def)

lemma bw_inv_record: "bw_inv k own w \<Longrightarrow> bw_inv k own (bw_record f w)"
  by (auto simp: bw_inv_def)

lemma quiet_on_steps:
  "quiet_on k own (set_running b)" "quiet_on k own (bw_fail f)" "quiet_on k own (bw_record f)"
  "quiet_on k own (\<lambda>w. w\<lparr>bw_bar := clear_alert (bw_bar w)\<rparr>)"
  "proc_env_ok k own env \<Longrightarrow> quiet_on k own (pe_world env n)"
  by (simp_all add: quiet_on_def proc_env_ok_def bw_inv_fail bw_inv_record clear_alert_sel)

section \<open>The life of a processor\<close>

text \<open>Before the loop: nothing delivered, the sequence where it was.\<close>

definition unstarted :: "nat \<Rightarrow> seq_ref \<Rightarrow> i64 \<Rightarrow> ('e, 'h) processor \<Rightarrow> bool" where
  "unstarted k own a p \<longleftrightarrow> bp_sequence p = own \<and> bw_inv k own (bp_world p) \<and> bw_store (bp_world p) own = a \<and>
     ring_invar (co_ring (bp_consumer p)) \<and> co_trace (bp_consumer p) = []"

definition ended :: "nat \<Rightarrow> seq_ref \<Rightarrow> i64 \<Rightarrow> loop_exit \<Rightarrow> ('e, 'h) processor \<Rightarrow> bool" where
  "ended k own a exit p \<longleftrightarrow> bp_sequence p = own \<and> loop_result k own a (exit, bp_consumer p)"

lemma ended_cong:
  assumes "ended k own a exit p" and "bp_sequence p' = bp_sequence p"
    and "co_trace (bp_consumer p') = co_trace (bp_consumer p)" "co_ring (bp_consumer p') = co_ring (bp_consumer p)"
    and "bw_inv k own (bp_world p')" "bw_store (bp_world p') own = bw_store (bp_world p) own"
    and "bw_poisoned (bp_world p) \<Longrightarrow> bw_poisoned (bp_world p')"
  shows "ended k own a exit p'"
  using assms unfolding ended_def loop_result_def delivered_def bw_poisoned_def by auto

lemma ended_on_world:
  assumes "ended k own a exit p" and "quiet_on k own f"
  shows "ended k own a exit (on_world f p)"
proof -
  have "bw_inv k own (bp_world p)" using assms(1) by (simp add: ended_def loop_result_def)
  with assms show ?thesis by (intro ended_cong [OF assms(1)]) (simp_all add: on_world_def quiet_on_def)
qed

lemma unstarted_on_world: "unstarted k own a p \<Longrightarrow> quiet_on k own f \<Longrightarrow> unstarted k own a (on_world f p)"
  by (simp add: unstarted_def on_world_def quiet_on_def)

lemma on_handler_keeps [simp]:
  "unstarted k own a (on_handler f p) = unstarted k own a p" "ended k own a exit (on_handler f p) = ended k own a exit p"
  "bp_world (on_handler f p) = bp_world p"
  by (simp_all add: unstarted_def ended_def on_handler_def loop_result_def delivered_def)

lemma startup_flag_keeps [simp]: "unstarted k own a (p\<lparr>bp_startup_complete := b\<rparr>) = unstarted k own a p"
  by (simp add: unstarted_def)

lemma on_world_sel [simp]: "bp_world (on_world f p) = f (bp_world p)"
  by (simp add: on_world_def)

lemma others_keep:
  assumes "proc_env_ok k own env"
  shows "unstarted k own a p \<Longrightarrow> unstarted k own a (others env n p)"
    "ended k own a exit p \<Longrightarrow> ended k own a exit (others env n p)"
  using assms by (simp_all add: others_def unstarted_on_world ended_on_world quiet_on_steps)

lemma others_poisoned:
  assumes "proc_env_ok k own env" and "ended k own a exit p" and "bw_poisoned (bp_world p)"
  shows "bw_poisoned (bp_world (others env n p))"
  using assms proc_env_okD(4) by (auto simp: others_def ended_def loop_result_def)

lemma unstarted_ended: "unstarted k own a p \<Longrightarrow> ended k own a exit p"
  by (auto simp: unstarted_def ended_def loop_result_def delivered_def trace_seqs_def)

lemma ended_panicked: "ended k own a exit p \<Longrightarrow> ended k own a LoopPanicked p"
  by (auto simp: ended_def loop_result_def)

lemma invoke_on_start_keeps:
  assumes "proc_env_ok k own env" and "unstarted k own a p" and "invoke_on_start env n thread H X p = (r, p')"
  shows "unstarted k own a p'"
  using assms others_keep(1) [OF assms(1,2), of n]
  by (auto simp: invoke_on_start_def Let_def unstarted_on_world quiet_on_steps
      split: if_splits prod.splits option.splits sum.splits)

lemma invoke_on_shutdown_keeps:
  assumes "proc_env_ok k own env" and "ended k own a LoopReturned p" and "invoke_on_shutdown env n thread H X p = (r, p')"
  shows "ended k own a LoopReturned p'"
  using assms others_keep(2) [OF assms(1,2), of n]
  by (auto simp: invoke_on_shutdown_def Let_def ended_on_world quiet_on_steps
      split: if_splits prod.splits option.splits sum.splits)

lemma process_events_spec:
  assumes env: "proc_env_ok k own env" and p: "unstarted k own a p"
    and run: "process_events pk fuel env thread H X p = Some (exit, p')"
  shows "ended k own a exit p'"
proof -
  obtain r p1 where st: "invoke_on_start env 2 thread H X p = (r, p1)" by fastforce
  note p1 = invoke_on_start_keeps [OF env p st]
  define p2 where "p2 = others env 3 (p1\<lparr>bp_startup_complete := True\<rparr>)"
  have p2: "unstarted k own a p2" using others_keep(1) [OF env] p1 by (simp add: p2_def)
  have shut: "ended k own a exit p'" if "ended k own a LoopReturned q" "invoke_on_shutdown env n thread H X q = (exit, p')" for q n
    using invoke_on_shutdown_keeps [OF env that] ended_panicked by (cases exit) auto
  show ?thesis
  proof (cases r)
    case None
    with run st p1 unstarted_ended show ?thesis by (auto simp: process_events_def)
  next
    case (Some started)
    note unfolded = run [unfolded process_events_def st, simplified Some, simplified, folded p2_def]
    show ?thesis
    proof (cases "started \<and> bw_running (bp_world p2)")
      case True
      let ?loop = "run_sequential_batch_loop_with_exceptions pk fuel (pe_loop env) (batch_handler H)
                   (bp_sequence p2) Running ''batch-event-processor'' (Some (handle_event_exception X)) (bp_consumer p2)"
      from True unfolded obtain e c where loop: "?loop = Some (e, c)"
        by (auto simp: Let_def split: option.splits)
      have "loop_result k own a (e, c)"
        using sequential_loop_result [OF proc_env_okD(1) [OF env]] p2 loop
        unfolding unstarted_def run_sequential_batch_loop_with_exceptions_def by blast
      then have "ended k own a e (p2\<lparr>bp_consumer := c\<rparr>)" using p2 by (simp add: ended_def unstarted_def)
      with True unfolded loop shut show ?thesis by (cases e) (auto simp: Let_def)
    next
      case False
      from unstarted_ended [OF p2] have e2: "ended k own a exit p2" for exit .
      show ?thesis
      proof (cases started)
        case True
        with False unfolded have "invoke_on_shutdown env 4 thread H X p2 = (exit, p')" by (simp add: Let_def)
        with e2 show ?thesis by (rule shut)
      next
        case False
        with unfolded e2 show ?thesis by (auto simp: Let_def intro!: ended_on_world quiet_on_steps)
      qed
    qed
  qed
qed

lemma run_spec:
  assumes env: "proc_env_ok k own env" and p: "unstarted k own a p"
    and run: "run pk fuel env thread payload H X p = Some (r, p')"
  shows "r = Some (Err AlreadyRunning) \<and> unstarted k own a p' \<and> bw_running (bp_world p') \<or>
    r = Some (Ok ()) \<and> ended k own a LoopReturned p' \<and> \<not> bw_running (bp_world p') \<or>
    r = None \<and> ended k own a LoopPanicked p' \<and> \<not> bw_running (bp_world p') \<and> bw_poisoned (bp_world p')"
proof -
  define p0 where "p0 = others env 0 p"
  define p1 where "p1 = on_world (\<lambda>w. w\<lparr>bw_bar := clear_alert (bw_bar w)\<rparr>)
    (others env 1 ((on_world (set_running True) p0)\<lparr>bp_startup_complete := False\<rparr>))"
  have p0: "unstarted k own a p0" using others_keep(1) [OF env p] by (simp add: p0_def)
  have p1: "unstarted k own a p1"
    using others_keep(1) [OF env] p0 by (simp add: p1_def unstarted_on_world quiet_on_steps)
  show ?thesis
  proof (cases "bw_running (bp_world p0)")
    case True
    with run p0 show ?thesis by (auto simp: run_def Let_def p0_def [symmetric])
  next
    case False
    with run [unfolded run_def Let_def, folded p0_def, folded p1_def]
    obtain exit p2 where pe: "process_events pk fuel env thread H X p1 = Some (exit, p2)"
      by (auto split: option.splits)
    note p2 = process_events_spec [OF env p1 pe]
    note unfolded = run [unfolded run_def Let_def, folded p0_def, folded p1_def, unfolded pe]
    show ?thesis
    proof (cases exit)
      case LoopReturned
      with False unfolded p2 show ?thesis
        by (auto intro!: ended_on_world quiet_on_steps others_keep(2) [OF env])
    next
      case LoopPanicked
      define f where "f = processor_failure thread ConsumerPanic (panic_payload_message payload) None"
      define q where "q = on_world (bw_fail f) (others env 6 p2)"
      have q: "ended k own a LoopPanicked q" "bw_poisoned (bp_world q)"
        using p2 LoopPanicked by (auto simp: q_def intro!: ended_on_world quiet_on_steps others_keep(2) [OF env])
      with False LoopPanicked unfolded others_poisoned [OF env q] show ?thesis
        by (auto simp: f_def [symmetric] q_def [symmetric] intro!: ended_on_world quiet_on_steps others_keep(2) [OF env])
    qed
  qed
qed

text \<open>
  C14: a processor run is exclusive and ends accountably. If the running flag is taken, \<open>run\<close> answers
  \<open>AlreadyRunning\<close> and does nothing. Otherwise, when it ends, the flag is free again; the handler has
  received exactly the successors of the processor's sequence, in order and each when it was readable;
  after a normal return the sequence stands at the last event, or before it if that event was refused,
  and then the producers are poisoned with a failure on record; and if the run leaves by a panic of any
  callback, the producers are poisoned with a failure on record.
\<close>

theorem processor_run_accountable:
  assumes "proc_env_ok k (bp_sequence p) env" and "bw_inv k (bp_sequence p) (bp_world p)"
    and "ring_invar (co_ring (bp_consumer p))" and "co_trace (bp_consumer p) = []"
    and "run pk fuel env thread payload H X p = Some (r, p')"
  shows "(r = Some (Err AlreadyRunning) \<longleftrightarrow> bw_running (pe_world env 0 (bp_world p))) \<and>
    (r = Some (Err AlreadyRunning) \<longrightarrow> co_trace (bp_consumer p') = [] \<and>
       bw_store (bp_world p') (bp_sequence p) = bw_store (bp_world p) (bp_sequence p)) \<and>
    (r \<noteq> Some (Err AlreadyRunning) \<longrightarrow> r \<in> {Some (Ok ()), None} \<and> \<not> is_running p' \<and>
       (r = None \<longrightarrow> bw_poisoned (bp_world p')) \<and>
       (\<exists>m. trace_seqs (co_trace (bp_consumer p')) = [bw_store (bp_world p) (bp_sequence p) + 1..m] \<and>
          (\<forall>(e, s, b, w)\<in>set (co_trace (bp_consumer p')). readable w s) \<and>
          bw_store (bp_world p') (bp_sequence p) \<le> m \<and>
          (r = Some (Ok ()) \<longrightarrow> bw_store (bp_world p') (bp_sequence p) = m \<or>
             bw_store (bp_world p') (bp_sequence p) = m - 1 \<and> bw_poisoned (bp_world p'))))"
proof -
  have p: "unstarted k (bp_sequence p) (bw_store (bp_world p) (bp_sequence p)) p"
    using assms by (simp add: unstarted_def)
  have first: "r = Some (Err AlreadyRunning)" if "bw_running (pe_world env 0 (bp_world p))"
    using assms(5) that by (auto simp: run_def Let_def others_def)
  have second: "bw_running (pe_world env 0 (bp_world p))" if "r = Some (Err AlreadyRunning)"
    using assms(5) that by (auto simp: run_def Let_def others_def split: if_splits option.splits prod.splits loop_exit.splits)
  from run_spec [OF assms(1) p assms(5)] show ?thesis
    using first second
    by (elim disjE conjE) (auto simp: unstarted_def ended_def loop_result_def delivered_def is_running_def bw_poisoned_def)
qed

text \<open>A processor on the ring of the consumer example; it is stopped from the second round on.\<close>

definition proc_example_env :: "nat co_env \<Rightarrow> (nat, 'h) proc_env" where
  "proc_example_env env = \<lparr>pe_loop = env, pe_world = \<lambda>_ w. w, pe_handler = \<lambda>_ h. h, pe_contended = \<lambda>_. False\<rparr>"

definition halted_env :: "nat co_env" where
  "halted_env = \<lparr>ce_world = (\<lambda>i w _. if i = 0 then w else set_running False w), ce_ring = \<lambda>_ rb. rb\<rparr>"

definition example_processor :: "(nat, i64 list) processor" where
  "example_processor =
     \<lparr>bp_consumer = example_consumer\<lparr>co_world := set_running False example_world\<rparr>, bp_sequence = 5,
      bp_startup_complete = False\<rparr>"

lemma proc_env_example: "consumer_env k own env \<Longrightarrow> proc_env_ok k own (proc_example_env env)"
  by (simp add: proc_env_ok_def proc_example_env_def)

lemma halted_env_ok: "consumer_env 2 5 halted_env"
  unfolding consumer_env_def halted_env_def by (auto intro!: bar_env_const)

lemma example_processor_ok:
  "bp_sequence example_processor = 5" "bw_inv 2 5 (bp_world example_processor)"
  "ring_invar (co_ring (bp_consumer example_processor))" "co_trace (bp_consumer example_processor) = []"
  "bw_store (bp_world example_processor) 5 = - 1"
proof -
  have "bw_store example_world 5 = - 1" by code_simp
  then show "bp_sequence example_processor = 5" "bw_inv 2 5 (bp_world example_processor)"
    "ring_invar (co_ring (bp_consumer example_processor))" "co_trace (bp_consumer example_processor) = []"
    "bw_store (bp_world example_processor) 5 = - 1"
    using example_consumer_ok by (simp_all add: example_processor_def example_consumer_def)
qed

theorem processor_run_accountable_witness:
  "\<exists>p'. run (\<lambda>_. None, \<lambda>_ _. (0, True)) 9 (proc_example_env halted_env) ''main'' OtherPayload
      (clearing_event_handler 7 refusing_handler) default_exception_handler example_processor = Some (Some (Ok ()), p') \<and>
    trace_seqs (co_trace (bp_consumer p')) = [0] \<and> \<not> is_running p' \<and>
    (\<exists>m. trace_seqs (co_trace (bp_consumer p')) = [0..m] \<and>
       (bw_store (bp_world p') 5 = m \<or> bw_store (bp_world p') 5 = m - 1 \<and> bw_poisoned (bp_world p')))"
proof -
  let ?run = "run (\<lambda>_. None, \<lambda>_ _. (0, True)) 9 (proc_example_env halted_env) ''main'' OtherPayload
      (clearing_event_handler 7 refusing_handler) default_exception_handler example_processor"
  have "map_option (\<lambda>(r, p). (r, trace_seqs (co_trace (bp_consumer p)))) ?run = Some (Some (Ok ()), [0])"
    by code_simp
  then obtain p' where run: "?run = Some (Some (Ok ()), p')" "trace_seqs (co_trace (bp_consumer p')) = [0]" by auto
  note ok = example_processor_ok
  from processor_run_accountable [of 2 example_processor, unfolded ok(1,5), OF proc_env_example [OF halted_env_ok] ok(2-4) run(1)] run
  show ?thesis by auto
qed

section \<open>The probe and the loop\<close>

lemma seq_on_mem_id: "seq_on_mem (\<lambda>m. m(r := v)) q = q" if "seq_mem q r = v"
  using that by (cases q) (simp_all add: fun_upd_idem)

lemma bw_set_same: "bw_store w r = v \<Longrightarrow> bw_set r v w = w"
  by (simp add: bw_set_def bw_store_def seq_set_def [abs_def] seq_on_mem_id)

lemma processor_failure_eq: "processor_failure thread = (\<lambda>p msg. consumer_failure p msg (without_stage thread))"
  by (simp add: fun_eq_iff processor_failure_def consumer_failure_def without_stage_def)

lemma run_batch_committed:
  "run_batch H X ctx own tr t next_sequence available c = Inr (next', c') \<Longrightarrow> bw_store (co_world c') own = available"
  by (auto simp: run_batch_def Let_def split: prod.splits option.splits sum.splits batch_end.splits)

text \<open>What the probe makes of the outcome of a batch of the sequential loop.\<close>

fun probe_result ::
    "bool \<Rightarrow> failure_record \<Rightarrow> (loop_exit \<times> ('e, 'h) consumer) option + i64 \<times> ('e, 'h) consumer \<Rightarrow>
     (bool result option \<times> ('e, 'h) consumer) option" where
  "probe_result start_panicked f (Inl None) = None"
| "probe_result start_panicked f (Inr (_, c)) = Some (Some (Ok True), c)"
| "probe_result start_panicked f (Inl (Some (LoopReturned, c))) =
     Some (Some (Err Poisoned), c\<lparr>co_world := set_running False (co_world c)\<rparr>)"
| "probe_result start_panicked f (Inl (Some (LoopPanicked, c))) =
     Some (None, if start_panicked then c else c\<lparr>co_world := set_running False (bw_fail f (co_world c))\<rparr>)"

lemma probe_batch_eq:
  assumes "\<And>v. bw_store (tr v) own = x" and "- 1 \<le> x" and "x < i64_max"
  shows "probe_batch H X thread payload own tr t (x + 1) available c =
    probe_result (fst (on_batch_start H (add_i64 (sub_i64 available (x + 1)) 1) (sub_i64 available x) (co_handler c)) = None)
      (processor_failure thread ConsumerPanic (panic_payload_message payload) (Some (x + 1)))
      (run_batch (batch_handler H) (Some (handle_event_exception X)) (without_stage thread) own tr t (x + 1) available c)"
proof -
  have "sub_i64 (x + 1) 1 = x" using assms(2,3) sub_i64_id [of "x + 1" 1] by (simp add: in_i64_def)
  then have "bw_set own (sub_i64 (x + 1) 1) (tr v) = tr v" for v using assms(1) by (simp add: bw_set_same)
  then show ?thesis
    unfolding probe_batch_def run_batch_def Let_def processor_failure_eq
    by (auto simp: assms(1) seq_get_def split: prod.split option.split sum.split batch_end.split)
qed

text \<open>
  The probe handles a batch as the main loop does. As long as nobody else writes the processor's
  sequence, the batch part of \<open>try_run_once\<close> is a batch of the sequential engine: the same calls of the
  handler and of the exception handler, the same ring, the same sequence, the same failure record; what
  differs is that a stopped batch is reported as \<open>Poisoned\<close> with the running flag cleared, and that the
  probe itself poisons the producers after a panic of \<open>on_event\<close>, where the loop leaves that to \<open>run\<close>.
\<close>

theorem probe_batch_is_engine_batch:
  assumes "\<forall>v. bw_store (tr v) own = x" and "- 1 \<le> x" and "x < i64_max"
  shows "probe_batch H X thread payload own tr t (x + 1) available c =
    probe_result (fst (on_batch_start H (add_i64 (sub_i64 available (x + 1)) 1) (sub_i64 available x) (co_handler c)) = None)
      (processor_failure thread ConsumerPanic (panic_payload_message payload) (Some (x + 1)))
      (run_batch (batch_handler H) (Some (handle_event_exception X)) (without_stage thread) own tr t (x + 1) available c)"
  using assms by (intro probe_batch_eq) simp_all

theorem probe_batch_is_engine_batch_witness:
  "probe_batch refusing_handler default_exception_handler ''main'' OtherPayload 5 (\<lambda>_. example_world) 0 (- 1 + 1) 2 example_consumer =
    probe_result False (processor_failure ''main'' ConsumerPanic ''non-string panic payload'' (Some 0))
      (run_batch (batch_handler refusing_handler) (Some (\<lambda>_ _ _. Some Stop)) (without_stage ''main'') 5
         (\<lambda>_. example_world) 0 0 2 example_consumer)"
proof -
  have "bw_store example_world 5 = - 1" by code_simp
  moreover have "fst (on_batch_start refusing_handler b d h) = Some (Ok ())" for b d h
    by (simp add: refusing_handler_def default_methods_def)
  ultimately show ?thesis
    using probe_batch_is_engine_batch [of "\<lambda>_. example_world" 5 "- 1" refusing_handler default_exception_handler
        "''main''" OtherPayload 0 2 example_consumer]
    by (simp add: default_exception_handler_def)
qed

lemma drop_claim_sel [simp]:
  "bp_sequence (drop_claim c p) = bp_sequence p" "co_trace (bp_consumer (drop_claim c p)) = co_trace c"
  "bp_world (drop_claim c p) = set_running False (co_world c)" "co_ring (bp_consumer (drop_claim c p)) = co_ring c"
  by (simp_all add: drop_claim_def on_world_def)

fun probe_answer :: "i64 \<Rightarrow> i64 \<Rightarrow> i64 \<Rightarrow> bool \<Rightarrow> bool result option \<Rightarrow> bool" where
  "probe_answer a m x poisoned None = True"
| "probe_answer a m x poisoned (Some (Inr True)) = (a < m \<and> x = m)"
| "probe_answer a m x poisoned (Some (Inr False)) = (m = a \<and> x = a)"
| "probe_answer a m x poisoned (Some (Inl e)) = (e = Alert \<and> m = a \<and> x = a \<or> e = Poisoned \<and> m - 1 \<le> x \<and> poisoned)"

definition probe_ok :: "nat \<Rightarrow> seq_ref \<Rightarrow> i64 \<Rightarrow> bool result option \<Rightarrow> ('e, 'h) consumer \<Rightarrow> bool" where
  "probe_ok k own a r c \<longleftrightarrow> (\<exists>m. delivered a c m \<and> bw_store (co_world c) own \<le> m \<and>
     probe_answer a m (bw_store (co_world c) own) (bw_poisoned (co_world c)) r)"

lemma batch_outcome_cases:
  fixes x :: "(loop_exit \<times> 'c) option + 'd \<times> 'c"
  obtains (none) "x = Inl None" | (stop) c where "x = Inl (Some (LoopReturned, c))"
    | (panic) c where "x = Inl (Some (LoopPanicked, c))" | (full) nx c where "x = Inr (nx, c)"
proof (cases x)
  case (Inl y)
  with that(1-3) show ?thesis by (cases y) (auto intro: loop_exit.exhaust)
qed (use that(4) in auto)

lemma run_batch_stopped:
  "run_batch H X ctx own tr t next_sequence available c = Inl (Some (LoopReturned, c')) \<Longrightarrow> bw_poisoned (co_world c')"
  by (auto simp: run_batch_def Let_def split: prod.splits option.splits sum.splits batch_end.splits)

lemma probe_batch_ok:
  assumes w: "\<And>v. bw_inv k own (tr v)" "\<And>v. bw_store (tr v) own = a"
    and c: "ring_invar (co_ring c)" "co_trace c = []" and "a < available"
    and ready: "\<And>s v. a + 1 \<le> s \<Longrightarrow> s \<le> available \<Longrightarrow> t \<le> v \<Longrightarrow> readable (tr v) s"
    and run: "probe_batch H X thread payload own tr t (a + 1) available c = Some (r, c')"
  shows "probe_ok k own a r c'"
proof -
  have a: "- 1 \<le> a" "a < i64_max" using w(1) [of 0] w(2) [of 0] by (auto simp: bw_inv_def)
  have del: "delivered a c a" using c(2) by (simp add: delivered_def trace_seqs_def)
  let ?run = "run_batch (batch_handler H) (Some (handle_event_exception X)) (without_stage thread) own tr t (a + 1) available c"
  have spec: "case ?run of Inl None \<Rightarrow> False | Inl (Some out) \<Rightarrow> loop_result k own a out
    | Inr (next', c') \<Rightarrow> loop_inv k own a (0, next', c')"
    by (rule run_batch_spec [OF w c(1) del assms(5) ready])
  note eq = run [unfolded probe_batch_eq [OF w(2) a]]
  show ?thesis
  proof (cases ?run rule: batch_outcome_cases)
    case none
    with spec show ?thesis by simp
  next
    case (stop c1)
    with spec obtain m where "delivered a c1 m" "bw_store (co_world c1) own \<le> m" "m - 1 \<le> bw_store (co_world c1) own"
      by (auto simp: loop_result_def)
    with stop eq run_batch_stopped [OF stop] show ?thesis
      by (auto simp: probe_ok_def delivered_def intro!: exI [of _ m])
  next
    case (panic c1)
    with spec obtain m where "delivered a c1 m" "bw_store (co_world c1) own \<le> m" by (auto simp: loop_result_def)
    with panic eq show ?thesis
      by (auto simp: probe_ok_def delivered_def intro!: exI [of _ m] split: if_splits)
  next
    case full
    with eq spec run_batch_committed [OF full] assms(5) show ?thesis
      by (auto simp: probe_ok_def loop_inv_def delivered_def)
  qed
qed

lemma probe_ok_release: "probe_ok k own a r (c\<lparr>co_world := set_running b (co_world c)\<rparr>) = probe_ok k own a r c"
  by (simp add: probe_ok_def delivered_def)

lemma try_run_once_spec:
  assumes env: "proc_env_ok k own env" and p: "unstarted k own a p"
    and run: "try_run_once fuel env thread payload H X p = Some (r, p')"
  shows "probe_ok k own a r (bp_consumer p') \<and>
    (bw_running (bp_world p') \<longrightarrow> r = Some (Ok False) \<and> bw_running (pe_world env 0 (bp_world p)))"
proof -
  define p0 where "p0 = others env 0 p"
  define p1 where "p1 = others env 1 (on_world (set_running True) p0)"
  define tr where "tr = ce_world (pe_loop env) 0 (bp_world p1)"
  define c where "c = (bp_consumer p1)\<lparr>co_ring := ce_ring (pe_loop env) 0 (co_ring (bp_consumer p1))\<rparr>"
  have p0: "unstarted k own a p0" using others_keep(1) [OF env p] by (simp add: p0_def)
  have p1: "unstarted k own a p1"
    using others_keep(1) [OF env] p0 by (simp add: p1_def unstarted_on_world quiet_on_steps)
  have own: "bp_sequence p0 = own" using p0 by (simp add: unstarted_def)
  have w1: "bw_inv k own (bp_world p1)" "bw_store (bp_world p1) own = a" using p1 by (simp_all add: unstarted_def)
  have a: "- 1 \<le> a" "a < i64_max" using w1 by (simp_all add: bw_inv_def)
  note trs = consumer_envD [OF proc_env_okD(1) [OF env] w1(1), where i = 0, folded tr_def, unfolded w1(2)]
  have c: "ring_invar (co_ring c)" "co_trace c = []" using p1 trs(4) by (simp_all add: c_def unstarted_def)
  have idle: "probe_ok k own a r' (q\<lparr>co_world := w\<rparr>)"
    if "co_trace q = []" "bw_store w own = a" "r' \<in> {Some (Ok False), Some (Err Alert)}" for r' w and q :: "('a, 'b) consumer"
    using that by (auto simp: probe_ok_def delivered_def trace_seqs_def)
  have nx: "add_i64 (seq_get (bw_store (tr 0)) own) 1 = a + 1"
    using a trs(2) by (simp add: seq_get_def add_i64_id in_i64_def)
  have rel: "probe_ok k own a r (bp_consumer (drop_claim q p1))" if "probe_ok k own a r q" for q
    using that probe_ok_release [where c = q and b = False] by (simp add: drop_claim_def on_world_def)
  note eqs = run [unfolded try_run_once_def Let_def, folded p0_def, unfolded own, folded p1_def,
      folded tr_def, folded c_def, unfolded nx]
  have pos: "0 \<le> a + 1" using a by simp
  show ?thesis
  proof (cases "bw_running (bp_world p0)")
    case True
    then have "bw_running (pe_world env 0 (bp_world p))" by (simp add: p0_def others_def)
    with True eqs p0 idle [of "bp_consumer p0" "bp_world p0" r] show ?thesis by (auto simp: unstarted_def)
  next
    case notrun: False
    show ?thesis
    proof (cases "pe_contended env 1")
      case True
      with notrun eqs p1 rel idle [of "bp_consumer p1" "bp_world p1" r] show ?thesis
        by (auto simp: unstarted_def)
    next
      case False
      note eqs' = eqs [simplified notrun False if_False]
      from eqs' obtain q t where got: "try_get_available_sequence fuel tr 1 (a + 1) = Some (q, t)"
        by (cases "try_get_available_sequence fuel tr 1 (a + 1)") auto
      with bar_try.no_panic [OF trs(1) pos] obtain o' where q: "q = Some o'" by (cases q) auto
      show ?thesis
      proof (cases o')
        case (Inl e)
        have "e = Alert" using bar_try.error_stops [OF trs(1) pos got [unfolded q Inl]] by (simp add: alert_seen_def)
        with eqs' got q Inl rel idle [OF c(2) trs(2), of r] show ?thesis by auto
      next
        case (Inr available)
        note ready = bar_try.batch_readable [OF trs(1) pos got [unfolded q Inr]]
        show ?thesis
        proof (cases "bw_running (tr (Suc t)) \<and> a + 1 \<le> available")
          case False
          with eqs' got q Inr rel idle [OF c(2) trs(2), of r] show ?thesis by (auto split: if_splits)
        next
          case True
          with eqs' got q Inr obtain c' where
            pb: "probe_batch H X thread payload own tr (Suc t) (a + 1) available c = Some (r, c')"
              "p' = drop_claim c' p1" by (auto split: option.splits)
          have "probe_ok k own a r c'"
            by (rule probe_batch_ok [OF trs(3,2) c _ _ pb(1)]) (use True ready in auto)
          with pb(2) rel show ?thesis by simp
        qed
      qed
    qed
  qed
qed

text \<open>
  The probe is safe next to everything else. \<open>try_run_once\<close> hands the handler exactly the successors
  of the processor's sequence, in order and each when it was readable; \<open>Ok(true)\<close> means that at least one
  event was handled and the sequence stands at the last one, \<open>Ok(false)\<close> and \<open>Alert\<close> that nothing
  happened, \<open>Poisoned\<close> that the producers are poisoned and the sequence is at most one short of the
  last event; on every path, panics included, the running flag is free again unless it was taken before.
\<close>

theorem probe_accountable:
  assumes "proc_env_ok k (bp_sequence p) env" and "bw_inv k (bp_sequence p) (bp_world p)"
    and "ring_invar (co_ring (bp_consumer p))" and "co_trace (bp_consumer p) = []"
    and "try_run_once fuel env thread payload H X p = Some (r, p')"
  shows "(is_running p' \<longrightarrow> r = Some (Ok False) \<and> bw_running (pe_world env 0 (bp_world p))) \<and>
    (\<exists>m. trace_seqs (co_trace (bp_consumer p')) = [bw_store (bp_world p) (bp_sequence p) + 1..m] \<and>
      (\<forall>(e, s, b, w)\<in>set (co_trace (bp_consumer p')). readable w s) \<and>
      bw_store (bp_world p') (bp_sequence p) \<le> m \<and>
      (r = Some (Ok True) \<longrightarrow> bw_store (bp_world p) (bp_sequence p) < m \<and> bw_store (bp_world p') (bp_sequence p) = m) \<and>
      (r \<in> {Some (Ok False), Some (Err Alert)} \<longrightarrow> co_trace (bp_consumer p') = [] \<and>
         bw_store (bp_world p') (bp_sequence p) = bw_store (bp_world p) (bp_sequence p)) \<and>
      (r = Some (Err Poisoned) \<longrightarrow> m - 1 \<le> bw_store (bp_world p') (bp_sequence p) \<and> bw_poisoned (bp_world p')) \<and>
      (\<forall>e. r = Some (Err e) \<longrightarrow> e \<in> {Alert, Poisoned}))"
proof -
  have "unstarted k (bp_sequence p) (bw_store (bp_world p) (bp_sequence p)) p"
    using assms by (simp add: unstarted_def)
  from try_run_once_spec [OF assms(1) this assms(5)] obtain m where
    run: "bw_running (bp_world p') \<longrightarrow> r = Some (Ok False) \<and> bw_running (pe_world env 0 (bp_world p))"
    and del: "trace_seqs (co_trace (bp_consumer p')) = [bw_store (bp_world p) (bp_sequence p) + 1..m]"
      "\<forall>(e, s, b, w)\<in>set (co_trace (bp_consumer p')). readable w s"
    and "bw_store (bp_world p') (bp_sequence p) \<le> m"
    and ans: "probe_answer (bw_store (bp_world p) (bp_sequence p)) m (bw_store (bp_world p') (bp_sequence p))
      (bw_poisoned (bp_world p')) r"
    unfolding probe_ok_def delivered_def by blast
  moreover have "co_trace (bp_consumer p') = []" if "m = bw_store (bp_world p) (bp_sequence p)"
    using del(1) that by (simp add: trace_seqs_def)
  ultimately show ?thesis
    unfolding is_running_def by (intro conjI exI [of _ m]) auto
qed

theorem probe_accountable_witness:
  "\<exists>p'. try_run_once 9 (proc_example_env halted_env) ''main'' OtherPayload refusing_handler default_exception_handler
      example_processor = Some (Some (Ok True), p') \<and> \<not> is_running p' \<and>
    (\<exists>m>-1. trace_seqs (co_trace (bp_consumer p')) = [0..m] \<and> bw_store (bp_world p') 5 = m)"
proof -
  let ?run = "try_run_once 9 (proc_example_env halted_env) ''main'' OtherPayload refusing_handler
    default_exception_handler example_processor"
  have "map_option (\<lambda>(r, p). r) ?run = Some (Some (Ok True))" by code_simp
  then obtain p' where run: "?run = Some (Some (Ok True), p')" by auto
  note ok = example_processor_ok
  from probe_accountable [of 2 example_processor, unfolded ok(1,5), OF proc_env_example [OF halted_env_ok] ok(2-4) run] run
  show ?thesis by auto
qed

text \<open>
  C18: a panic of \<open>on_batch_start\<close> is treated differently by the two entry points. On the same processor
  and with the same handler, \<open>run\<close> leaves by the panic with the producers poisoned and a failure on
  record, while \<open>try_run_once\<close> leaves by the panic with the producers still accepting publications.
\<close>

definition batch_start_panics :: "(nat, i64 list) lifecycle_handler" where
  "batch_start_panics = refusing_handler\<lparr>on_batch_start := \<lambda>_ _ h. (None, h)\<rparr>"


end
