(* ===== verification/Worker_Pool.thy ===== *)
theory Worker_Pool
  imports Consumer_Engine
begin

text \<open>
  The worker pool of \<open>src/disruptor/consumer_engine.rs\<close> (\<open>run_work_processor_loop_impl\<close>): several workers
  claim sequences from one shared work cursor by compare-and-swap. A worker is a machine of its atomic
  steps; a wait at the barrier is one step whose outcome the barrier decides. The pool is a transition
  system over all workers and the rest of the program.
\<close>

section \<open>A worker\<close>

text \<open>
  The program points: the two stop checks, the load of the work cursor, the advertisement of what it
  saw, the compare-and-swap, the wait for the claimed sequence, the calls of the handler, the advance of
  the own sequence. A worker that has left the loop keeps the claim it held, if any.
\<close>

datatype wp_pc =
    WTop
  | WClaim
  | WLoad
  | WAdvertise i64
  | WCas i64
  | WAwait i64
  | WWait i64
  | WWaitErr i64 disruptor_error
  | WStart i64
  | WEvent i64
  | WSet i64
  | WDone "i64 option"
  | WPanicked "i64 option"

record 'h worker =
  wk_pc :: wp_pc
  wk_own :: seq_ref
  wk_cached_available :: i64
  wk_last_advertised :: i64
  wk_handler :: 'h

record 'e pool =
  pl_work :: i64
  pl_world :: bar_world
  pl_ring :: "'e ring_buffer"

definition new_work_sequence :: i64 where
  "new_work_sequence = INITIAL_CURSOR_VALUE"

definition advertise_work_sequence_if_changed :: "seq_ref \<Rightarrow> i64 \<Rightarrow> i64 \<Rightarrow> bar_world \<Rightarrow> bool \<times> i64 \<times> bar_world" where
  "advertise_work_sequence_if_changed own last_advertised current w =
     (if current = last_advertised then (False, last_advertised, w)
      else (True, current, bw_set own current w))"

text \<open>The start of \<open>run_work_processor_loop_impl\<close>.\<close>

definition worker_start :: "seq_ref \<Rightarrow> bar_world \<Rightarrow> 'h \<Rightarrow> 'h worker" where
  "worker_start own w h =
     \<lparr>wk_pc = WTop, wk_own = own, wk_cached_available = INITIAL_CURSOR_VALUE,
      wk_last_advertised = seq_get (bw_store w) own, wk_handler = h\<rparr>"

definition pool_fail :: "failure_record \<Rightarrow> 'e pool \<Rightarrow> 'e pool" where
  "pool_fail f p = p\<lparr>pl_world := bw_fail f (pl_world p)\<rparr>"

text \<open>One step; \<open>outcome\<close> is what the barrier answers, used at \<open>WWait\<close> only (\<open>None\<close>: it panicked).\<close>

fun wp_step_at ::
    "('e, 'h) event_handler \<Rightarrow> consumer_context \<Rightarrow> stop_flag \<Rightarrow> i64 result option \<Rightarrow> wp_pc \<Rightarrow>
     'e pool \<Rightarrow> 'h worker \<Rightarrow> ('e pool \<times> 'h worker) option" where
  "wp_step_at H ctx stop outcome WTop p k =
     Some (p, k\<lparr>wk_pc := if should_continue stop (pl_world p) then WClaim else WDone None\<rparr>)"
| "wp_step_at H ctx stop outcome WClaim p k =
     Some (p, k\<lparr>wk_pc := if should_continue stop (pl_world p) then WLoad else WDone None\<rparr>)"
| "wp_step_at H ctx stop outcome WLoad p k = Some (p, k\<lparr>wk_pc := WAdvertise (pl_work p)\<rparr>)"
| "wp_step_at H ctx stop outcome (WAdvertise current) p k =
     (let (_, last_advertised, w) =
            advertise_work_sequence_if_changed (wk_own k) (wk_last_advertised k) current (pl_world p)
      in Some (p\<lparr>pl_world := w\<rparr>, k\<lparr>wk_last_advertised := last_advertised, wk_pc := WCas current\<rparr>))"
| "wp_step_at H ctx stop outcome (WCas current) p k =
     (if pl_work p = current
      then Some (p\<lparr>pl_work := add_i64 current 1\<rparr>, k\<lparr>wk_pc := WAwait (add_i64 current 1)\<rparr>)
      else Some (p, k\<lparr>wk_pc := WClaim\<rparr>))"
| "wp_step_at H ctx stop outcome (WAwait claim) p k =
     Some (p, k\<lparr>wk_pc :=
       if claim > wk_cached_available k
       then (if should_continue stop (pl_world p) then WWait claim else WDone (Some claim))
       else WStart claim\<rparr>)"
| "wp_step_at H ctx stop outcome (WWait claim) p k =
     (case outcome of
        None \<Rightarrow> Some (p, k\<lparr>wk_pc := WPanicked (Some claim)\<rparr>)
      | Some (Inr available) \<Rightarrow> Some (p, k\<lparr>wk_cached_available := available, wk_pc := WAwait claim\<rparr>)
      | Some (Inl e) \<Rightarrow> Some (p, k\<lparr>wk_pc := WWaitErr claim e\<rparr>))"
| "wp_step_at H ctx stop outcome (WWaitErr claim e) p k =
     Some (p, k\<lparr>wk_pc := if e \<in> {Alert, Shutdown} \<or> \<not> should_continue stop (pl_world p)
                         then WDone (Some claim) else WAwait claim\<rparr>)"
| "wp_step_at H ctx stop outcome (WStart claim) p k =
     (let (r, h) = on_batch_start H 1 (add_i64 (sub_i64 (wk_cached_available k) claim) 1) (wk_handler k);
          k' = k\<lparr>wk_handler := h\<rparr>
      in case r of
           None \<Rightarrow> Some (p, k'\<lparr>wk_pc := WPanicked (Some claim)\<rparr>)
         | Some (Inl e) \<Rightarrow>
             Some (pool_fail (consumer_failure BatchStart (error_to_string e) ctx (Some claim)) p,
                   k'\<lparr>wk_pc := WDone (Some claim)\<rparr>)
         | Some (Inr _) \<Rightarrow> Some (p, k'\<lparr>wk_pc := WEvent claim\<rparr>))"
| "wp_step_at H ctx stop outcome (WEvent claim) p k =
     (case ring_get (pl_ring p) claim of
        None \<Rightarrow> None
      | Some e \<Rightarrow>
          let (r, e', h) = on_event H e claim (claim = wk_cached_available k) (wk_handler k);
              k' = k\<lparr>wk_handler := h\<rparr>
          in case ring_update (pl_ring p) claim (\<lambda>_. e') of
               None \<Rightarrow> None
             | Some rb \<Rightarrow>
                 let p' = p\<lparr>pl_ring := rb\<rparr>
                 in case r of
                      None \<Rightarrow> Some (p', k'\<lparr>wk_pc := WPanicked (Some claim)\<rparr>)
                    | Some (Inl err) \<Rightarrow>
                        Some (pool_fail (consumer_failure EventProcessing (error_to_string err) ctx (Some claim)) p',
                              k'\<lparr>wk_pc := WDone (Some claim)\<rparr>)
                    | Some (Inr _) \<Rightarrow> Some (p', k'\<lparr>wk_pc := WSet claim\<rparr>))"
| "wp_step_at H ctx stop outcome (WSet claim) p k =
     Some (p\<lparr>pl_world := bw_set (wk_own k) claim (pl_world p)\<rparr>,
           k\<lparr>wk_last_advertised := claim, wk_pc := WTop\<rparr>)"
| "wp_step_at H ctx stop outcome (WDone r) p k = Some (p, k)"
| "wp_step_at H ctx stop outcome (WPanicked r) p k = Some (p, k)"

definition wp_step ::
    "('e, 'h) event_handler \<Rightarrow> consumer_context \<Rightarrow> stop_flag \<Rightarrow> i64 result option \<Rightarrow>
     'e pool \<Rightarrow> 'h worker \<Rightarrow> ('e pool \<times> 'h worker) option" where
  "wp_step H ctx stop outcome p k = wp_step_at H ctx stop outcome (wk_pc k) p k"

text \<open>
  The loop of one worker: before each of its steps the rest of the program acts on the pool and the
  barrier has an answer ready.
\<close>

fun exited :: "wp_pc \<Rightarrow> bool" where
  "exited (WDone _) = True"
| "exited (WPanicked _) = True"
| "exited _ = False"

fun wp_run ::
    "('e, 'h) event_handler \<Rightarrow> consumer_context \<Rightarrow> stop_flag \<Rightarrow> (nat \<Rightarrow> 'e pool \<Rightarrow> 'e pool \<times> i64 result option) \<Rightarrow>
     nat \<Rightarrow> nat \<Rightarrow> 'e pool \<Rightarrow> 'h worker \<Rightarrow> ('e pool \<times> 'h worker) option" where
  "wp_run H ctx stop env fuel i p k =
     (if exited (wk_pc k) then Some (p, k)
      else case fuel of
        0 \<Rightarrow> None
      | Suc f \<Rightarrow>
          let (p1, outcome) = env i p
          in (case wp_step H ctx stop outcome p1 k of
                None \<Rightarrow> None
              | Some (p', k') \<Rightarrow> wp_run H ctx stop env f (Suc i) p' k'))"

definition run_work_processor_loop_impl ::
    "('e, 'h) event_handler \<Rightarrow> (nat \<Rightarrow> 'e pool \<Rightarrow> 'e pool \<times> i64 result option) \<Rightarrow> nat \<Rightarrow> seq_ref \<Rightarrow> stop_flag \<Rightarrow>
     consumer_context \<Rightarrow> 'h \<Rightarrow> 'e pool \<Rightarrow> ('e pool \<times> 'h worker) option" where
  "run_work_processor_loop_impl H env fuel own stop ctx h p =
     wp_run H ctx stop env fuel 0 p (worker_start own (pl_world p) h)"

definition run_work_processor_loop ::
    "('e, 'h) event_handler \<Rightarrow> (nat \<Rightarrow> 'e pool \<Rightarrow> 'e pool \<times> i64 result option) \<Rightarrow> nat \<Rightarrow> seq_ref \<Rightarrow> stop_flag \<Rightarrow>
     string \<Rightarrow> 'h \<Rightarrow> 'e pool \<Rightarrow> ('e pool \<times> 'h worker) option" where
  "run_work_processor_loop H env fuel own stop thread h p =
     run_work_processor_loop_impl H env fuel own stop (without_stage thread) h p"

definition run_work_processor_loop_for_stage ::
    "('e, 'h) event_handler \<Rightarrow> (nat \<Rightarrow> 'e pool \<Rightarrow> 'e pool \<times> i64 result option) \<Rightarrow> nat \<Rightarrow> seq_ref \<Rightarrow> stop_flag \<Rightarrow>
     consumer_context \<Rightarrow> 'h \<Rightarrow> 'e pool \<Rightarrow> ('e pool \<times> 'h worker) option" where
  "run_work_processor_loop_for_stage H env fuel own stop ctx h p =
     run_work_processor_loop_impl H env fuel own stop ctx h p"

section \<open>The pool\<close>

text \<open>
  The state of the pool: the workers by number, the sequences handed to a handler in the order of the
  calls, with the world of the call, and those whose handler has accepted the event.
\<close>

record ('e, 'h) pool_sys =
  ps_pool :: "'e pool"
  ps_workers :: "nat \<Rightarrow> 'h worker"
  ps_calls :: "(i64 \<times> bar_world) list"
  ps_done :: "i64 set"

fun event_call :: "wp_pc \<Rightarrow> bar_world \<Rightarrow> (i64 \<times> bar_world) list" where
  "event_call (WEvent s) w = [(s, w)]"
| "event_call _ w = []"

fun event_done :: "wp_pc \<Rightarrow> wp_pc \<Rightarrow> i64 set" where
  "event_done (WEvent s) (WSet _) = {s}"
| "event_done _ _ = {}"

text \<open>
  The barrier's answer: sequences that are readable from the claimed one on, or an error. The rest of
  the program may do anything to the world that leaves the workers' sequences alone and does not take
  back what a worker may still have to read, and writes other slots of the ring.
\<close>

definition answer_ok :: "bar_world \<Rightarrow> i64 \<Rightarrow> i64 result option \<Rightarrow> bool" where
  "answer_ok w claim outcome \<longleftrightarrow>
     (case outcome of Some (Inr available) \<Rightarrow> \<forall>s. claim \<le> s \<and> s \<le> available \<longrightarrow> readable w s | _ \<Rightarrow> True)"

inductive pool_step ::
    "('e, 'h) event_handler \<Rightarrow> (nat \<Rightarrow> consumer_context) \<Rightarrow> stop_flag \<Rightarrow> nat \<Rightarrow>
     ('e, 'h) pool_sys \<Rightarrow> ('e, 'h) pool_sys \<Rightarrow> bool"
  for H ctx stop n where
  work: "i < n \<Longrightarrow> pl_work (ps_pool y) < i64_max \<Longrightarrow>
    (\<And>claim. wk_pc (ps_workers y i) = WWait claim \<Longrightarrow> answer_ok (pl_world (ps_pool y)) claim outcome) \<Longrightarrow>
    wp_step H (ctx i) stop outcome (ps_pool y) (ps_workers y i) = Some (p', k') \<Longrightarrow>
    pool_step H ctx stop n y (y\<lparr>ps_pool := p', ps_workers := (ps_workers y)(i := k'),
      ps_calls := ps_calls y @ event_call (wk_pc (ps_workers y i)) (pl_world (ps_pool y)),
      ps_done := ps_done y \<union> event_done (wk_pc (ps_workers y i)) (wk_pc k')\<rparr>)"
| others: "(\<And>i. i < n \<Longrightarrow> bw_store w' (wk_own (ps_workers y i)) = bw_store (pl_world (ps_pool y)) (wk_own (ps_workers y i))) \<Longrightarrow>
    (\<And>i s. i < n \<Longrightarrow> bw_store w' (wk_own (ps_workers y i)) < s \<Longrightarrow> readable (pl_world (ps_pool y)) s \<Longrightarrow> readable w' s) \<Longrightarrow>
    bw_tracked w' = bw_tracked (pl_world (ps_pool y)) \<Longrightarrow> ring_invar rb \<Longrightarrow>
    pool_step H ctx stop n y (y\<lparr>ps_pool := (ps_pool y)\<lparr>pl_world := w', pl_ring := rb\<rparr>\<rparr>)"

section \<open>Invariant\<close>

text \<open>The claim a worker holds before it calls the handler; a claim that is not known to be processed.\<close>

fun holding :: "wp_pc \<Rightarrow> i64 option" where
  "holding (WAwait s) = Some s"
| "holding (WWait s) = Some s"
| "holding (WWaitErr s e) = Some s"
| "holding (WStart s) = Some s"
| "holding (WEvent s) = Some s"
| "holding _ = None"

fun unfinished :: "wp_pc \<Rightarrow> i64 option" where
  "unfinished (WDone r) = r"
| "unfinished (WPanicked r) = r"
| "unfinished pc = holding pc"

lemma holding_unfinished: "holding pc = Some s \<Longrightarrow> unfinished pc = Some s"
  by (cases pc) simp_all

definition wk_ok :: "i64 \<Rightarrow> i64 set \<Rightarrow> i64 set \<Rightarrow> bar_world \<Rightarrow> 'h worker \<Rightarrow> bool" where
  "wk_ok work dn cl w k \<longleftrightarrow>
     (let own = bw_store w (wk_own k); pc = wk_pc k in
      - 1 \<le> own \<and> own \<le> work \<and> wk_last_advertised k = own \<and>
      (\<forall>c. pc = WAdvertise c \<longrightarrow> own \<le> c \<and> c \<le> work) \<and>
      (\<forall>c. pc = WCas c \<longrightarrow> own = c) \<and>
      (\<forall>s. pc = WSet s \<longrightarrow> own < s \<and> s \<le> work) \<and>
      (\<forall>s. unfinished pc = Some s \<longrightarrow> own < s \<and> s \<le> work \<and> s \<notin> dn) \<and>
      (\<forall>s. holding pc = Some s \<longrightarrow> own = s - 1 \<and> s \<notin> cl) \<and>
      (\<forall>s. pc \<in> {WStart s, WEvent s} \<longrightarrow> s \<le> wk_cached_available k) \<and>
      (\<forall>s. own < s \<and> s \<le> wk_cached_available k \<longrightarrow> readable w s))"

lemma wk_ok_unfinished: "wk_ok work dn cl w k \<Longrightarrow> unfinished (wk_pc k) = Some s \<Longrightarrow> s \<le> work"
  by (simp add: wk_ok_def Let_def)

lemma wk_ok_frame:
  assumes "wk_ok work dn cl w k" and "work \<le> work'" and "bw_store w' (wk_own k) = bw_store w (wk_own k)"
    and "\<And>s. bw_store w (wk_own k) < s \<Longrightarrow> readable w s \<Longrightarrow> readable w' s"
    and "\<And>s. unfinished (wk_pc k) = Some s \<Longrightarrow> s \<notin> dn \<Longrightarrow> s \<notin> dn'"
    and "\<And>s. holding (wk_pc k) = Some s \<Longrightarrow> s \<notin> cl \<Longrightarrow> s \<notin> cl'"
  shows "wk_ok work' dn' cl' w' k"
  using assms unfolding wk_ok_def Let_def assms(3) by (force intro: order_trans)

lemma readable_own [simp]:
  "r \<notin> bw_tracked w \<Longrightarrow> readable (bw_set r v w) s = readable w s"
  "readable (bw_fail f w) s = readable w s"
  by (auto simp: readable_def)

text \<open>What a step of a worker does: at most one claim, one call and one advance of its own sequence.\<close>

definition step_effect :: "i64 set \<Rightarrow> i64 set \<Rightarrow> 'e pool \<Rightarrow> 'h worker \<Rightarrow> 'e pool \<Rightarrow> 'h worker \<Rightarrow> bool" where
  "step_effect dn cl p k p' k' \<longleftrightarrow>
     wk_own k' = wk_own k \<and> bw_tracked (pl_world p') = bw_tracked (pl_world p) \<and>
     (\<forall>s. readable (pl_world p') s = readable (pl_world p) s) \<and>
     (\<forall>r. r \<noteq> wk_own k \<longrightarrow> bw_store (pl_world p') r = bw_store (pl_world p) r) \<and>
     ring_invar (pl_ring p') \<and>
     (pl_work p' = pl_work p \<and> (unfinished (wk_pc k') = unfinished (wk_pc k) \<or>
         (\<exists>s. unfinished (wk_pc k) = Some s \<and> wk_pc k' = WSet s \<and> event_done (wk_pc k) (wk_pc k') = {s})) \<or>
      pl_work p' = pl_work p + 1 \<and> unfinished (wk_pc k) = None \<and> unfinished (wk_pc k') = Some (pl_work p + 1) \<and>
         event_call (wk_pc k) (pl_world p) = []) \<and>
     wk_ok (pl_work p') (dn \<union> event_done (wk_pc k) (wk_pc k')) (cl \<union> fst ` set (event_call (wk_pc k) (pl_world p)))
       (pl_world p') k'"

lemma wp_step_effect:
  assumes ok: "wk_ok (pl_work p) dn cl (pl_world p) k" and own: "wk_own k \<notin> bw_tracked (pl_world p)"
    and new: "\<forall>s\<in>dn \<union> cl. s \<le> pl_work p" and "- 1 \<le> pl_work p" "pl_work p < i64_max" and ring: "ring_invar (pl_ring p)"
    and answer: "\<And>claim. wk_pc k = WWait claim \<Longrightarrow> answer_ok (pl_world p) claim outcome"
    and step: "wp_step H ctx stop outcome p k = Some (p', k')"
  shows "step_effect dn cl p k p' k'"
proof (cases "wk_pc k")
  case (WAdvertise c)
  with ok own step ring show ?thesis
    by (auto simp: wp_step_def step_effect_def wk_ok_def advertise_work_sequence_if_changed_def Let_def split: if_splits)
next
  case (WCas c)
  have "add_i64 (pl_work p) 1 = pl_work p + 1" using assms(4,5) by (intro add_i64_id) (simp add: in_i64_def)
  moreover have "pl_work p + 1 \<notin> dn" "pl_work p + 1 \<notin> cl" using new by force+
  ultimately show ?thesis using WCas ok own step ring
    by (auto simp: wp_step_def step_effect_def wk_ok_def Let_def split: if_splits)
next
  case (WWait c)
  with ok own step ring answer show ?thesis
    by (auto simp: wp_step_def step_effect_def wk_ok_def answer_ok_def Let_def split: option.splits sum.splits)
next
  case (WStart c)
  with ok own step ring show ?thesis
    by (auto simp: wp_step_def step_effect_def wk_ok_def pool_fail_def Let_def split: option.splits sum.splits prod.splits)
next
  case (WEvent c)
  with ok own step ring show ?thesis
    by (auto simp: wp_step_def step_effect_def wk_ok_def pool_fail_def Let_def dest: rb.upd_invar
        split: option.splits sum.splits prod.splits)
qed (use ok own step ring in \<open>auto simp: wp_step_def step_effect_def wk_ok_def Let_def split: if_splits\<close>)

definition pool_inv :: "nat \<Rightarrow> ('e, 'h) pool_sys \<Rightarrow> bool" where
  "pool_inv n y \<longleftrightarrow>
     (let p = ps_pool y; w = pl_world p; wk = ps_workers y; cl = fst ` set (ps_calls y) in
      - 1 \<le> pl_work p \<and> ring_invar (pl_ring p) \<and>
      inj_on (\<lambda>i. wk_own (wk i)) {..<n} \<and> (\<forall>i<n. wk_own (wk i) \<notin> bw_tracked w) \<and>
      (\<forall>i<n. wk_ok (pl_work p) (ps_done y) cl w (wk i)) \<and>
      (\<forall>s\<in>ps_done y \<union> cl. s \<le> pl_work p) \<and>
      (\<forall>i<n. \<forall>j<n. i \<noteq> j \<longrightarrow> unfinished (wk_pc (wk i)) \<noteq> None \<longrightarrow>
         unfinished (wk_pc (wk i)) \<noteq> unfinished (wk_pc (wk j))) \<and>
      (\<forall>s. 0 \<le> s \<and> s \<le> pl_work p \<longrightarrow> s \<in> ps_done y \<or> (\<exists>i<n. unfinished (wk_pc (wk i)) = Some s)) \<and>
      distinct (map fst (ps_calls y)) \<and> (\<forall>(s, v)\<in>set (ps_calls y). readable v s))"

lemma event_callD:
  assumes "wk_ok work dn cl w k" and "(s, v) \<in> set (event_call (wk_pc k) w)"
  shows "v = w" "readable w s" "s \<notin> cl" "s \<le> work" "holding (wk_pc k) = Some s" "event_call (wk_pc k) w = [(s, w)]"
proof -
  from assms(2) have pc: "wk_pc k = WEvent s" "v = w" by (cases "wk_pc k"; simp)+
  then show "v = w" "holding (wk_pc k) = Some s" "event_call (wk_pc k) w = [(s, w)]" by simp_all
  show "s \<notin> cl" "s \<le> work" "readable w s" using assms(1) pc unfolding wk_ok_def Let_def by auto
qed

lemma event_doneD: "s \<in> event_done pc pc' \<Longrightarrow> unfinished pc = Some s \<and> unfinished pc' = None"
  by (cases pc; cases pc') auto

lemma pool_work_inv:
  assumes inv: "pool_inv n y" and i: "i < n" and eff: "step_effect (ps_done y) (fst ` set (ps_calls y))
      (ps_pool y) (ps_workers y i) p' k'"
  shows "pool_inv n (y\<lparr>ps_pool := p', ps_workers := (ps_workers y)(i := k'),
      ps_calls := ps_calls y @ event_call (wk_pc (ps_workers y i)) (pl_world (ps_pool y)),
      ps_done := ps_done y \<union> event_done (wk_pc (ps_workers y i)) (wk_pc k')\<rparr>)"
proof -
  define p where "p = ps_pool y"
  define wk where "wk = ps_workers y"
  define k where "k = wk i"
  define dn where "dn = ps_done y"
  define cl where "cl = fst ` set (ps_calls y)"
  define new where "new = event_call (wk_pc k) (pl_world p)"
  define ed where "ed = event_done (wk_pc k) (wk_pc k')"
  define cl' where "cl' = cl \<union> fst ` set new"
  note defs = p_def wk_def k_def dn_def cl_def new_def ed_def cl'_def
  have J: "- 1 \<le> pl_work p" "inj_on (\<lambda>i. wk_own (wk i)) {..<n}"
    "\<forall>j<n. wk_own (wk j) \<notin> bw_tracked (pl_world p)" "\<forall>j<n. wk_ok (pl_work p) dn cl (pl_world p) (wk j)"
    "\<forall>s\<in>dn \<union> cl. s \<le> pl_work p"
    "\<forall>a<n. \<forall>b<n. a \<noteq> b \<longrightarrow> unfinished (wk_pc (wk a)) \<noteq> None \<longrightarrow> unfinished (wk_pc (wk a)) \<noteq> unfinished (wk_pc (wk b))"
    "\<forall>s. 0 \<le> s \<and> s \<le> pl_work p \<longrightarrow> s \<in> dn \<or> (\<exists>j<n. unfinished (wk_pc (wk j)) = Some s)"
    "distinct (map fst (ps_calls y))" "\<forall>(s, v)\<in>set (ps_calls y). readable v s"
    using inv unfolding pool_inv_def Let_def defs by - (elim conjE, assumption)+
  have I3: "\<And>j. j < n \<Longrightarrow> wk_own (wk j) \<notin> bw_tracked (pl_world p)" using J(3) by simp
  have I4: "\<And>j. j < n \<Longrightarrow> wk_ok (pl_work p) dn cl (pl_world p) (wk j)" using J(4) by simp
  have I5: "\<And>s. s \<in> dn \<union> cl \<Longrightarrow> s \<le> pl_work p" using J(5) by blast
  have I6: "unfinished (wk_pc (wk b)) \<noteq> Some s"
    if "a < n" "b < n" "a \<noteq> b" "unfinished (wk_pc (wk a)) = Some s" for a b s
    using J(6) [rule_format, OF that(1-3)] that(4) by auto
  have I7: "\<And>s. 0 \<le> s \<Longrightarrow> s \<le> pl_work p \<Longrightarrow> s \<in> dn \<or> (\<exists>j<n. unfinished (wk_pc (wk j)) = Some s)"
    using J(7) by simp
  have I9: "\<And>s v. (s, v) \<in> set (ps_calls y) \<Longrightarrow> readable v s" using J(9) by auto
  have E: "wk_own k' = wk_own k" "bw_tracked (pl_world p') = bw_tracked (pl_world p)"
    "\<And>s. readable (pl_world p') s = readable (pl_world p) s"
    "\<And>r. r \<noteq> wk_own k \<Longrightarrow> bw_store (pl_world p') r = bw_store (pl_world p) r" "ring_invar (pl_ring p')"
    "wk_ok (pl_work p') (dn \<union> ed) cl' (pl_world p') k'"
    using eff unfolding step_effect_def defs by blast+
  have move: "pl_work p' = pl_work p \<and> (unfinished (wk_pc k') = unfinished (wk_pc k) \<or>
         (\<exists>s. unfinished (wk_pc k) = Some s \<and> wk_pc k' = WSet s \<and> ed = {s})) \<or>
      pl_work p' = pl_work p + 1 \<and> unfinished (wk_pc k) = None \<and> unfinished (wk_pc k') = Some (pl_work p + 1) \<and> new = []"
    using eff unfolding step_effect_def defs by blast
  have le: "pl_work p \<le> pl_work p'" using move by auto
  note call = event_callD [OF I4 [OF i, folded k_def], folded new_def]
  have mine: "unfinished (wk_pc (wk j)) \<noteq> Some s" if "j < n" "j \<noteq> i" "unfinished (wk_pc k) = Some s" for j s
    using I6 [OF i that(1)] that by (auto simp: k_def)
  have mine': "unfinished (wk_pc (wk j)) \<noteq> Some s" if "j < n" "j \<noteq> i" "unfinished (wk_pc k') = Some s" for j s
  proof
    assume u: "unfinished (wk_pc (wk j)) = Some s"
    from wk_ok_unfinished [OF I4 [OF that(1)] u] have "s \<le> pl_work p" .
    with move that(3) have "unfinished (wk_pc k) = Some s" by auto
    with mine [OF that(1,2)] u show False by blast
  qed
  have other: "wk_ok (pl_work p') (dn \<union> ed) cl' (pl_world p') (wk j)" if j: "j < n" "j \<noteq> i" for j
  proof (rule wk_ok_frame [OF I4 [OF j(1)] le])
    have "wk_own (wk j) \<noteq> wk_own k" using J(2) i j by (auto simp: k_def inj_on_def)
    then show "bw_store (pl_world p') (wk_own (wk j)) = bw_store (pl_world p) (wk_own (wk j))" by (rule E(4))
    show "s \<notin> dn \<union> ed" if "unfinished (wk_pc (wk j)) = Some s" "s \<notin> dn" for s
      using that mine [OF j] event_doneD [of s "wk_pc k" "wk_pc k'"] by (auto simp: ed_def)
    show "s \<notin> cl'" if "holding (wk_pc (wk j)) = Some s" "s \<notin> cl" for s
    proof
      assume "s \<in> cl'"
      with that(2) obtain v where "(s, v) \<in> set new" by (auto simp: cl'_def)
      with mine [OF j] call(5) [THEN holding_unfinished] holding_unfinished [OF that(1)] show False by blast
    qed
  qed (simp add: E(3))
  let ?wk = "wk(i := k')"
  have own: "wk_own (?wk j) = wk_own (wk j)" for j using E(1) by (simp add: k_def)
  have "inj_on (\<lambda>j. wk_own (?wk j)) {..<n}" unfolding own by (rule J(2))
  moreover have "\<forall>j<n. wk_own (?wk j) \<notin> bw_tracked (pl_world p')" unfolding own E(2) by (rule J(3))
  moreover have "\<forall>j<n. wk_ok (pl_work p') (dn \<union> ed) cl' (pl_world p') (?wk j)" using other E(6) by simp
  moreover have "\<forall>s\<in>dn \<union> ed \<union> cl'. s \<le> pl_work p'"
  proof -
    have "s \<le> pl_work p" if "s \<in> ed" for s
      using event_doneD [of s "wk_pc k" "wk_pc k'"] that wk_ok_unfinished [OF I4 [OF i]] by (auto simp: ed_def k_def)
    with I5 call(4) le show ?thesis by (fastforce simp: cl'_def)
  qed
  moreover have "\<forall>a<n. \<forall>b<n. a \<noteq> b \<longrightarrow> unfinished (wk_pc (?wk a)) \<noteq> None \<longrightarrow>
      unfinished (wk_pc (?wk a)) \<noteq> unfinished (wk_pc (?wk b))"
    using mine' I6 by (metis fun_upd_apply not_None_eq)
  moreover have "s \<in> dn \<union> ed \<or> (\<exists>j<n. unfinished (wk_pc (?wk j)) = Some s)" if "0 \<le> s" "s \<le> pl_work p'" for s
  proof (cases "s \<le> pl_work p")
    case True
    from I7 [OF that(1) True] consider "s \<in> dn" | j where "j < n" "unfinished (wk_pc (wk j)) = Some s" by blast
    then show ?thesis
    proof cases
      case 2
      show ?thesis
      proof (cases "j = i")
        case True
        with 2 move i show ?thesis by (auto simp: k_def)
      qed (use 2 in auto)
    qed blast
  next
    case False
    with that move i show ?thesis by auto
  qed
  moreover have "distinct (map fst (ps_calls y @ new))"
  proof (cases "new = []")
    case False
    then obtain s v where "(s, v) \<in> set new" by (cases new) auto
    with call(3,6) have "new = [(s, pl_world p)]" "s \<notin> set (map fst (ps_calls y))" by (auto simp: cl_def)
    with J(8) show ?thesis by simp
  qed (use J(8) in simp)
  moreover have "\<forall>(s, v)\<in>set (ps_calls y @ new). readable v s" using I9 call(1,2) by auto
  moreover have "- 1 \<le> pl_work p'" using J(1) le by simp
  ultimately show ?thesis
    using E(5) unfolding pool_inv_def Let_def
    by (simp add: cl'_def image_Un flip: p_def wk_def k_def dn_def new_def ed_def cl_def)
qed

declare wp_run.simps [simp del]

lemma pool_step_inv: "pool_step H ctx stop n y y' \<Longrightarrow> pool_inv n y \<Longrightarrow> pool_inv n y'"
proof (induction rule: pool_step.induct)
  case (work i y outcome p' k')
  have "step_effect (ps_done y) (fst ` set (ps_calls y)) (ps_pool y) (ps_workers y i) p' k'"
    by (rule wp_step_effect [OF _ _ _ _ work(2) _ work(3) work(4)])
      (use work(1,5) in \<open>simp_all add: pool_inv_def Let_def\<close>)
  from pool_work_inv [OF work(5,1) this] show ?case .
next
  case (others w' y rb)
  have ok: "wk_ok (pl_work (ps_pool y)) (ps_done y) (fst ` set (ps_calls y)) w' (ps_workers y i)" if "i < n" for i
  proof (rule wk_ok_frame [OF _ order_refl others(1) [OF that]])
    show "wk_ok (pl_work (ps_pool y)) (ps_done y) (fst ` set (ps_calls y)) (pl_world (ps_pool y)) (ps_workers y i)"
      using others(5) that by (simp add: pool_inv_def Let_def)
    show "readable w' s" if s: "bw_store (pl_world (ps_pool y)) (wk_own (ps_workers y i)) < s"
        "readable (pl_world (ps_pool y)) s" for s
      using others(2) [OF \<open>i < n\<close> _ s(2)] others(1) [OF \<open>i < n\<close>] s(1) by simp
  qed
  show ?case using others(3-5) ok unfolding pool_inv_def Let_def by simp
qed

definition pool_started :: "nat \<Rightarrow> ('e, 'h) pool_sys \<Rightarrow> bool" where
  "pool_started n y \<longleftrightarrow>
     pl_work (ps_pool y) = new_work_sequence \<and> ring_invar (pl_ring (ps_pool y)) \<and>
     inj_on (\<lambda>i. wk_own (ps_workers y i)) {..<n} \<and>
     (\<forall>i<n. wk_own (ps_workers y i) \<notin> bw_tracked (pl_world (ps_pool y)) \<and>
       bw_store (pl_world (ps_pool y)) (wk_own (ps_workers y i)) = INITIAL_CURSOR_VALUE \<and>
       ps_workers y i = worker_start (wk_own (ps_workers y i)) (pl_world (ps_pool y)) (wk_handler (ps_workers y i))) \<and>
     ps_calls y = [] \<and> ps_done y = {}"

lemma pool_started_inv:
  assumes "pool_started n y"
  shows "pool_inv n y"
proof -
  have wk: "wk_pc (ps_workers y i) = WTop" "wk_cached_available (ps_workers y i) = - 1"
    "wk_last_advertised (ps_workers y i) = - 1" "bw_store (pl_world (ps_pool y)) (wk_own (ps_workers y i)) = - 1"
    if "i < n" for i
  proof -
    from assms that have eq: "ps_workers y i = worker_start (wk_own (ps_workers y i)) (pl_world (ps_pool y)) (wk_handler (ps_workers y i))"
      and own: "bw_store (pl_world (ps_pool y)) (wk_own (ps_workers y i)) = - 1"
      by (auto simp: pool_started_def INITIAL_CURSOR_VALUE_def)
    show "wk_pc (ps_workers y i) = WTop" "wk_cached_available (ps_workers y i) = - 1"
      "wk_last_advertised (ps_workers y i) = - 1" "bw_store (pl_world (ps_pool y)) (wk_own (ps_workers y i)) = - 1"
      by (subst eq, simp add: worker_start_def INITIAL_CURSOR_VALUE_def seq_get_def own)+
  qed
  have "\<forall>i<n. wk_ok (pl_work (ps_pool y)) (ps_done y) (fst ` set (ps_calls y)) (pl_world (ps_pool y)) (ps_workers y i)"
  proof (intro allI impI)
    fix i assume i: "i < n"
    have "pl_work (ps_pool y) = - 1" "ps_done y = {}" "ps_calls y = []"
      using assms by (simp_all add: pool_started_def new_work_sequence_def INITIAL_CURSOR_VALUE_def)
    with wk [OF i] show "wk_ok (pl_work (ps_pool y)) (ps_done y) (fst ` set (ps_calls y)) (pl_world (ps_pool y)) (ps_workers y i)"
      by (auto simp: wk_ok_def Let_def)
  qed
  with assms wk show ?thesis
    unfolding pool_inv_def Let_def by (simp add: pool_started_def new_work_sequence_def INITIAL_CURSOR_VALUE_def)
qed

lemma pool_reachable_inv:
  assumes "pool_started n y" and "(pool_step H ctx stop n)\<^sup>*\<^sup>* y y'"
  shows "pool_inv n y'"
  using assms(2) by (induction rule: rtranclp_induct) (use pool_started_inv [OF assms(1)] pool_step_inv in blast)+

section \<open>Properties\<close>


text \<open>
  Two workers with the references 5 and 6 on the ring whose sequences 0 and 2 are published; worker 1
  loses the race for sequence 0 and claims 1, which it waits for.
\<close>

definition example_pool :: "(nat, i64 list) pool_sys" where
  "example_pool =
     \<lparr>ps_pool = \<lparr>pl_work = new_work_sequence, pl_world = example_world, pl_ring = co_ring example_consumer\<rparr>,
      ps_workers = (\<lambda>i. worker_start (5 + i) example_world []), ps_calls = [], ps_done = {}\<rparr>"

fun pool_schedule ::
    "('e, 'h) event_handler \<Rightarrow> (nat \<Rightarrow> consumer_context) \<Rightarrow> stop_flag \<Rightarrow> nat \<Rightarrow> ('e, 'h) pool_sys \<Rightarrow>
     (nat \<times> i64 result option) list \<Rightarrow> ('e, 'h) pool_sys option" where
  "pool_schedule H ctx stop n y [] = Some y"
| "pool_schedule H ctx stop n y ((i, outcome) # steps) =
     (if i < n \<and> pl_work (ps_pool y) < i64_max \<and>
         (case (wk_pc (ps_workers y i), outcome) of
            (WWait claim, Some (Inr available)) \<Rightarrow> list_all (readable (pl_world (ps_pool y))) [claim..available]
          | _ \<Rightarrow> True)
      then
        (case wp_step H (ctx i) stop outcome (ps_pool y) (ps_workers y i) of
           None \<Rightarrow> None
         | Some (p', k') \<Rightarrow>
             pool_schedule H ctx stop n (y\<lparr>ps_pool := p', ps_workers := (ps_workers y)(i := k'),
               ps_calls := ps_calls y @ event_call (wk_pc (ps_workers y i)) (pl_world (ps_pool y)),
               ps_done := ps_done y \<union> event_done (wk_pc (ps_workers y i)) (wk_pc k')\<rparr>) steps)
      else None)"

lemma pool_schedule_reachable:
  "pool_schedule H ctx stop n y steps = Some y' \<Longrightarrow> (pool_step H ctx stop n)\<^sup>*\<^sup>* y y'"
proof (induction steps arbitrary: y)
  case (Cons st steps)
  obtain i outcome where st: "st = (i, outcome)" by (cases st)
  from Cons.prems st obtain p' k' where step: "i < n" "pl_work (ps_pool y) < i64_max"
      "wp_step H (ctx i) stop outcome (ps_pool y) (ps_workers y i) = Some (p', k')"
    and rest: "pool_schedule H ctx stop n (y\<lparr>ps_pool := p', ps_workers := (ps_workers y)(i := k'),
               ps_calls := ps_calls y @ event_call (wk_pc (ps_workers y i)) (pl_world (ps_pool y)),
               ps_done := ps_done y \<union> event_done (wk_pc (ps_workers y i)) (wk_pc k')\<rparr>) steps = Some y'"
    by (auto split: if_splits option.splits)
  have "answer_ok (pl_world (ps_pool y)) claim outcome" if "wk_pc (ps_workers y i) = WWait claim" for claim
    using Cons.prems st that by (auto simp: answer_ok_def list_all_iff split: if_splits option.splits sum.splits)
  from pool_step.work [where ctx = ctx and i = i and y = y, OF step(1,2) this step(3)] Cons.IH [OF rest] show ?case
    by (rule converse_rtranclp_into_rtranclp)
qed simp

definition example_steps :: "(nat \<times> i64 result option) list" where
  "example_steps = map (\<lambda>i. (i, None)) [0, 0, 0, 1, 1, 1, 0, 0, 1, 1, 1, 1, 1, 1, 0] @
     (0, Some (Ok 0)) # map (\<lambda>i. (i, None)) [0, 0, 0, 0]"

lemma example_pool_started: "pool_started 2 example_pool"
proof -
  have "ring_invar (co_ring example_consumer)" by (rule example_consumer_ok)
  moreover have "bw_tracked example_world = {0}" "bw_store example_world 5 = - 1" "bw_store example_world 6 = - 1"
    by code_simp+
  moreover have "i = 0 \<or> i = Suc 0" if "i < 2" for i :: nat using that by auto
  ultimately show ?thesis
    by (auto simp: pool_started_def example_pool_def worker_start_def inj_on_def INITIAL_CURSOR_VALUE_def eval_nat_numeral)
qed


end
