(* ===== verification/Ring_Spec.thy ===== *)
theory Ring_Spec
  imports Multi_Producer
begin

text \<open>
  An abstract specification of the bounded broadcast ring, and the proof that the multi-producer
  sequencer, atomic step by atomic step and whatever the interleaving, implements it. The specification
  knows a claimed position, the set of published sequences and how far each consumer is; it has no
  program points, no cached gating value and no availability bits.
\<close>

section \<open>The specification\<close>

record ring_spec =
  rs_claimed :: i64
  rs_published :: "i64 set"
  rs_consumed :: "seq_ref \<rightharpoonup> i64"

inductive spec_step :: "int \<Rightarrow> ring_spec \<Rightarrow> ring_spec \<Rightarrow> bool" for N where
  claim: "0 < n \<Longrightarrow> \<forall>v\<in>ran (rs_consumed a). rs_claimed a + n \<le> v + N \<Longrightarrow>
    spec_step N a (a\<lparr>rs_claimed := rs_claimed a + n\<rparr>)"
| publish: "0 \<le> q \<Longrightarrow> q \<le> rs_claimed a \<Longrightarrow> q \<notin> rs_published a \<Longrightarrow>
    spec_step N a (a\<lparr>rs_published := insert q (rs_published a)\<rparr>)"
| consume: "rs_consumed a g = Some x \<Longrightarrow> x \<le> v \<Longrightarrow> \<forall>q. x < q \<and> q \<le> v \<longrightarrow> q \<in> rs_published a \<Longrightarrow>
    spec_step N a (a\<lparr>rs_consumed := (rs_consumed a)(g \<mapsto> v)\<rparr>)"

inductive_cases spec_stepE: "spec_step N a b"

definition spec_init :: "seq_ref set \<Rightarrow> ring_spec" where
  "spec_init G = \<lparr>rs_claimed = - 1, rs_published = {}, rs_consumed = (\<lambda>_. Some (- 1)) |` G\<rparr>"

definition spec_inv :: "int \<Rightarrow> ring_spec \<Rightarrow> bool" where
  "spec_inv N a \<longleftrightarrow> (\<forall>q\<in>rs_published a. 0 \<le> q \<and> q \<le> rs_claimed a) \<and>
     (\<forall>v\<in>ran (rs_consumed a). rs_claimed a \<le> v + N \<and> v \<le> rs_claimed a \<and>
        (\<forall>q. 0 \<le> q \<and> q \<le> v \<longrightarrow> q \<in> rs_published a))"

lemma spec_step_inv:
  assumes "spec_step N a b" and "spec_inv N a" and "- 1 \<le> rs_claimed a"
  shows "spec_inv N b \<and> rs_claimed a \<le> rs_claimed b"
  using assms
proof (cases rule: spec_step.cases)
  case (consume g x v)
  have x: "rs_claimed a \<le> x + N" "x \<le> rs_claimed a" "\<And>q. 0 \<le> q \<Longrightarrow> q \<le> x \<Longrightarrow> q \<in> rs_published a"
    using consume(2) assms(2) by (auto simp: spec_inv_def ran_def)
  have "v \<le> rs_claimed a"
  proof (cases "x < v \<and> 0 \<le> v")
    case True
    with consume(4) assms(2) show ?thesis by (auto simp: spec_inv_def)
  qed (use consume(3) x(2) assms(3) in auto)
  moreover have "q \<in> rs_published a" if "0 \<le> q" "q \<le> v" for q
    using that x(3) consume(4) by (cases "q \<le> x") auto
  ultimately show ?thesis
    using consume(1,3) assms(2) x(1) unfolding spec_inv_def ran_def by (auto split: if_splits)
qed (force simp: spec_inv_def)+

lemma spec_reachable_inv:
  assumes "(spec_step N)\<^sup>*\<^sup>* (spec_init G) a" and "0 \<le> N"
  shows "spec_inv N a"
proof -
  from assms(1) have "spec_inv N a \<and> - 1 \<le> rs_claimed a"
  proof (induction rule: rtranclp_induct)
    case (step b c)
    with spec_step_inv [OF step(2)] show ?case by auto
  qed (use assms(2) in \<open>auto simp: spec_inv_def spec_init_def ran_def restrict_map_def split: if_splits\<close>)
  then show ?thesis ..
qed

section \<open>The abstraction of the multi-producer system\<close>

definition mp_abs :: "mp_sys \<Rightarrow> ring_spec" where
  "mp_abs w =
     \<lparr>rs_claimed = cursor_of (ms_seq w), rs_published = ms_published w,
      rs_consumed = (\<lambda>g. Some (mp_mem (ms_seq w) g)) |` set (mp_gating (ms_seq w))\<rparr>"

lemma mp_abs_same:
  assumes "mp_gating s' = mp_gating (ms_seq w)" and "mp_cursor s' = mp_cursor (ms_seq w)" and "mp_mem s' = mp_mem (ms_seq w)"
  shows "mp_abs (w\<lparr>ms_seq := s'\<rparr>) = mp_abs w"
  using assms by (simp add: mp_abs_def)

lemma mp_abs_threads [simp]: "mp_abs (w\<lparr>ms_threads := f\<rparr>) = mp_abs w" "mp_abs (w\<lparr>ms_log := l\<rparr>) = mp_abs w"
  by (simp_all add: mp_abs_def)

lemma mp_run_refines:
  assumes inv: "mp_sys_inv k w" and room: "mp_room k (ms_seq w)"
    and step: "mp_step (ms_seq w) (ms_threads w i) = (s', pc')"
  shows "mp_abs (w\<lparr>ms_seq := s'\<rparr>) = mp_abs w \<or> spec_step (2 ^ k) (mp_abs w) (mp_abs (w\<lparr>ms_seq := s'\<rparr>))"
proof -
  let ?s = "ms_seq w"
  from inv have i: "mp_inv k ?s" and pc: "pc_ok k ?s (ms_threads w i)" by (auto simp: mp_sys_inv_def)
  from mp_step_ok [OF i room pc step] have s': "mp_inv k s'" "mp_progress ?s s'"
    and cl: "claims_next k ?s s' (claimed_by (ms_threads w i) pc')" by (simp_all add: step_ok_def)
  note fr = mp_step_frame [OF step]
  have mem: "g \<in> set (mp_gating ?s) \<Longrightarrow> mp_mem s' g = mp_mem ?s g" for g
    using fr(4) [of g] i by (auto simp: mp_inv_def)
  have abs: "mp_abs (w\<lparr>ms_seq := s'\<rparr>) = (mp_abs w)\<lparr>rs_claimed := cursor_of s'\<rparr>"
    using fr(1) mem by (auto simp: mp_abs_def fun_eq_iff restrict_map_def)
  have "\<forall>v\<in>ran (rs_consumed (mp_abs w)). cursor_of s' \<le> v + 2 ^ k"
    using s'(1) fr(1) mem by (force simp: mp_inv_def below_def mp_abs_def ran_def restrict_map_def split: if_splits)
  with cl abs spec_step.claim [of "cursor_of s' - cursor_of ?s" "mp_abs w" "2 ^ k"] show ?thesis
    by (auto simp: claims_next_def mp_abs_def)
qed

lemma mp_step_refines:
  assumes "mp_sys_step k w w'" and inv: "mp_sys_inv k w"
  shows "mp_abs w' = mp_abs w \<or> spec_step (2 ^ k) (mp_abs w) (mp_abs w')"
  using assms
proof (cases rule: mp_sys_step.cases)
  case (run i s' pc')
  from mp_run_refines [OF inv run(2,3)] run(1) show ?thesis by (simp add: mp_abs_def)
next
  case (publish q s')
  note fr = mp_publish_frame [OF publish(5)]
  have "mp_abs w' = (mp_abs w)\<lparr>rs_published := insert q (rs_published (mp_abs w))\<rparr>"
    using publish(1) fr by (simp add: mp_abs_def)
  with spec_step.publish [of q "mp_abs w"] publish(2-4) show ?thesis by (simp add: mp_abs_def)
next
  case (consume g v)
  have "g \<noteq> mp_cursor (ms_seq w)" using inv consume(2) by (auto simp: mp_sys_inv_def mp_inv_def)
  then have "mp_abs w' = (mp_abs w)\<lparr>rs_consumed := (rs_consumed (mp_abs w))(g \<mapsto> v)\<rparr>"
    using consume(1,2) by (auto simp: mp_abs_def seq_set_def fun_eq_iff restrict_map_def)
  with spec_step.consume [of "mp_abs w" g "mp_mem (ms_seq w) g" v] consume(2-4) show ?thesis by (simp add: mp_abs_def)
next
  case (lifecycle f fr)
  then have "mp_abs w' = mp_abs w"
    by (auto intro!: mp_abs_same simp: mp_close_def mp_reopen_def mp_poison_def mp_record_failure_def mp_signal_def)
  then show ?thesis ..
qed auto

lemma mp_init_abs:
  assumes "mp_started k s"
  shows "mp_abs (mp_sys_init s) = spec_init (set (mp_gating s))"
proof -
  have i: "mp_sys_inv k (mp_sys_init s)" using mp_started_inv [OF assms] .
  from i have "mp_mem s g = - 1" if "g \<in> set (mp_gating s)" for g
    using that sys_window(2) [OF i, of g] slowest_le [OF that]
    by (auto simp: mp_sys_inv_def mp_sys_init_def claimed_seqs_def)
  moreover have "cursor_of s = - 1" using i by (auto simp: mp_sys_inv_def mp_sys_init_def claimed_seqs_def mp_inv_def)
  ultimately show ?thesis by (auto simp: mp_abs_def mp_sys_init_def spec_init_def fun_eq_iff restrict_map_def)
qed

lemma mp_run_abs:
  assumes "mp_started k s" and "(mp_sys_step k)\<^sup>*\<^sup>* (mp_sys_init s) w"
  shows "(spec_step (2 ^ k))\<^sup>*\<^sup>* (spec_init (set (mp_gating s))) (mp_abs w)"
  using assms(2)
proof (induction rule: rtranclp_induct)
  case (step w w')
  have "mp_sys_inv k w" using mp_reachable_inv [OF assms(1) step(1)] .
  from mp_step_refines [OF step(2) this] step(3) show ?case by auto
qed (simp add: mp_init_abs [OF assms(1)])



end
