(* ===== verification/Pipeline.thy ===== *)
theory Pipeline
  imports Event_Poller Event_Processor Worker_Pool Ring_Spec
begin

text \<open>
  The components together: a barrier that watches the running multi-producer system. The conditions the
  barrier and the consumer loops need of the other threads (\<open>bar_env\<close>) are not assumptions here: they
  are derived from the steps of the system.
\<close>

section \<open>Runs of the system\<close>

definition mp_history :: "nat \<Rightarrow> (nat \<Rightarrow> mp_sys) \<Rightarrow> bool" where
  "mp_history k sys \<longleftrightarrow>
     (\<exists>s. mp_started k s \<and> (mp_sys_step k)\<^sup>*\<^sup>* (mp_sys_init s) (sys 0)) \<and>
     (\<forall>t. sys (Suc t) = sys t \<or> mp_sys_step k (sys t) (sys (Suc t))) \<and>
     (\<forall>t. mp_room k (ms_seq (sys t)))"

text \<open>
  The trajectory of the world a consumer of the system sees: the barrier is one that \<open>new_barrier\<close> has
  made for the cursor and some registered consumers; flags and clock are free.
\<close>

definition watches :: "(nat \<Rightarrow> mp_sys) \<Rightarrow> bar_world traj \<Rightarrow> bool" where
  "watches sys tr \<longleftrightarrow> (\<forall>t.
     bar_seq (bw_bar (tr t)) = MultiSeq (ms_seq (sys t)) \<and>
     bar_cursor (bw_bar (tr t)) = mp_cursor (ms_seq (sys 0)) \<and>
     bar_strategy (bw_bar (tr t)) = bar_strategy (bw_bar (tr 0)) \<and>
     bar_deps (bw_bar (tr t)) = bar_deps (bw_bar (tr 0)) \<and>
     needs_contiguity_check (bw_bar (tr t))) \<and>
   set (bar_deps (bw_bar (tr 0))) \<subseteq> set (mp_gating (ms_seq (sys 0)))"

lemma mp_history_inv:
  assumes "mp_history k sys"
  shows "mp_sys_inv k (sys t)"
proof (induction t)
  case 0
  with assms show ?case by (auto simp: mp_history_def intro: mp_reachable_inv)
next
  case (Suc t)
  from assms have "sys (Suc t) = sys t \<or> mp_sys_step k (sys t) (sys (Suc t))" by (simp add: mp_history_def)
  with Suc mp_sys_step_inv show ?case by metis
qed

lemma mp_sys_step_mono:
  assumes "mp_sys_step k w w'" and "mp_sys_inv k w"
  shows "mp_gating (ms_seq w') = mp_gating (ms_seq w) \<and> mp_cursor (ms_seq w') = mp_cursor (ms_seq w) \<and>
    ms_published w \<subseteq> ms_published w' \<and> cursor_of (ms_seq w) \<le> cursor_of (ms_seq w') \<and>
    (\<forall>g\<in>set (mp_gating (ms_seq w)). mp_mem (ms_seq w) g \<le> mp_mem (ms_seq w') g)"
  using assms
proof (cases rule: mp_sys_step.cases)
  case (run i s' pc')
  from assms(2) have i: "mp_inv k (ms_seq w)" "pc_ok k (ms_seq w) (ms_threads w i)" by (auto simp: mp_sys_inv_def)
  from mp_step_ok [OF i(1) run(2) i(2) run(3)] run mp_step_frame [OF run(3)] show ?thesis
    by (auto simp: step_ok_def mp_progress_def)
next
  case (publish q s')
  with mp_publish_frame [OF publish(5)] show ?thesis by auto
next
  case (consume g v)
  with assms(2) show ?thesis by (auto simp: seq_set_def mp_sys_inv_def mp_inv_def)
next
  case (lifecycle f fr)
  then show ?thesis by (auto simp: mp_close_def mp_reopen_def mp_poison_def mp_record_failure_def mp_signal_def)
qed auto

lemma mp_history_mono:
  assumes "mp_history k sys" and "t \<le> t'"
  shows "mp_gating (ms_seq (sys t')) = mp_gating (ms_seq (sys t))" "mp_cursor (ms_seq (sys t')) = mp_cursor (ms_seq (sys t))"
    "ms_published (sys t) \<subseteq> ms_published (sys t')" "cursor_of (ms_seq (sys t)) \<le> cursor_of (ms_seq (sys t'))"
    "g \<in> set (mp_gating (ms_seq (sys t))) \<Longrightarrow> mp_mem (ms_seq (sys t)) g \<le> mp_mem (ms_seq (sys t')) g"
proof -
  have "mp_gating (ms_seq (sys t')) = mp_gating (ms_seq (sys t)) \<and> mp_cursor (ms_seq (sys t')) = mp_cursor (ms_seq (sys t)) \<and>
    ms_published (sys t) \<subseteq> ms_published (sys t') \<and> cursor_of (ms_seq (sys t)) \<le> cursor_of (ms_seq (sys t')) \<and>
    (\<forall>g\<in>set (mp_gating (ms_seq (sys t))). mp_mem (ms_seq (sys t)) g \<le> mp_mem (ms_seq (sys t')) g)"
    using assms(2)
  proof (induction rule: dec_induct)
    case (step n)
    have "sys (Suc n) = sys n \<or> mp_sys_step k (sys n) (sys (Suc n))" using assms(1) by (simp add: mp_history_def)
    with step.IH mp_sys_step_mono [OF _ mp_history_inv [OF assms(1)], of n "sys (Suc n)"] show ?case
      by (fastforce intro: order_trans)
  qed simp
  then show "mp_gating (ms_seq (sys t')) = mp_gating (ms_seq (sys t))" "mp_cursor (ms_seq (sys t')) = mp_cursor (ms_seq (sys t))"
    "ms_published (sys t) \<subseteq> ms_published (sys t')" "cursor_of (ms_seq (sys t)) \<le> cursor_of (ms_seq (sys t'))"
    "g \<in> set (mp_gating (ms_seq (sys t))) \<Longrightarrow> mp_mem (ms_seq (sys t)) g \<le> mp_mem (ms_seq (sys t')) g"
    by blast+
qed

section \<open>The barrier's conditions hold\<close>

lemma watched_sel:
  assumes "watches sys tr"
  shows "bw_store (tr t) = mp_mem (ms_seq (sys t))" "is_multi_seq (bar_seq (bw_bar (tr t)))"
    "bw_avail (tr t) = mp_avail (ms_seq (sys t))"
    "bar_cursor (bw_bar (tr t)) = mp_cursor (ms_seq (sys 0))" "bar_strategy (bw_bar (tr t)) = bar_strategy (bw_bar (tr 0))"
    "bar_deps (bw_bar (tr t)) = bar_deps (bw_bar (tr 0))" "needs_contiguity_check (bw_bar (tr t))"
    "set (bar_deps (bw_bar (tr 0))) \<subseteq> set (mp_gating (ms_seq (sys 0)))"
  using assms unfolding watches_def bw_store_def bw_avail_def by (metis is_multi_seq.simps seq_avail.simps seq_mem.simps)+

lemma watched_tracked:
  assumes "mp_history k sys" and "watches sys tr"
  shows "bw_tracked (tr t) = tracked (mp_cursor (ms_seq (sys 0))) (bar_deps (bw_bar (tr 0)))"
    and "r \<in> bw_tracked (tr 0) \<Longrightarrow> bw_store (tr t) r \<le> cursor_of (ms_seq (sys t))"
    and "r \<in> bw_tracked (tr 0) \<Longrightarrow> t \<le> t' \<Longrightarrow> bw_store (tr t) r \<le> bw_store (tr t') r"
proof -
  note w = watched_sel [OF assms(2)]
  note m = mp_history_mono [OF assms(1)]
  show tr: "bw_tracked (tr t) = tracked (mp_cursor (ms_seq (sys 0))) (bar_deps (bw_bar (tr 0)))" for t
    using w(4) [of t] w(6) [of t] by (simp add: bw_tracked_def)
  have cases: "r = mp_cursor (ms_seq (sys t)) \<or> r \<in> set (mp_gating (ms_seq (sys t)))"
    if "r \<in> bw_tracked (tr 0)" for r t
    using that w(8) m(1) [of 0 t] m(2) [of 0 t] unfolding tr tracked_def by (auto split: if_splits)
  show "bw_store (tr t) r \<le> cursor_of (ms_seq (sys t))" if "r \<in> bw_tracked (tr 0)"
    using cases [OF that, of t] sys_window(2) [OF mp_history_inv [OF assms(1)], of r t] w(1) [of t] by auto
  show "bw_store (tr t) r \<le> bw_store (tr t') r" if "r \<in> bw_tracked (tr 0)" "t \<le> t'"
    using cases [OF that(1), of t] m(2,4,5) [OF that(2)] w(1) by auto
qed

text \<open>A consumer that holds its sequence sees published sequences and keeps seeing them.\<close>

lemma readable_iff_published:
  assumes "mp_history k sys" and "watches sys tr" and "own \<in> set (mp_gating (ms_seq (sys 0)))"
    and "\<And>t. mp_mem (ms_seq (sys t)) own = x" and "x < s" and "s \<le> cursor_of (ms_seq (sys t))"
  shows "avail (bw_avail (tr t)) s \<longleftrightarrow> s \<in> ms_published (sys t)"
proof -
  note inv = mp_history_inv [OF assms(1), of t]
  have "own \<in> set (mp_gating (ms_seq (sys t)))" using assms(3) mp_history_mono(1) [OF assms(1), of 0 t] by simp
  then have "slowest (ms_seq (sys t)) < s" using slowest_le assms(4,5) by fastforce
  moreover have "s \<le> slowest (ms_seq (sys t)) + 2 ^ k" using sys_window(1) [OF inv] assms(6) by simp
  moreover have "tracks avail (2 ^ k) (bw_avail (tr t)) (slowest (ms_seq (sys t))) (ms_published (sys t))"
    using inv watched_sel(3) [OF assms(2)] by (simp add: mp_sys_inv_def)
  ultimately show ?thesis by (simp add: tracks_def)
qed

lemma history_bar_env:
  assumes hist: "mp_history k sys" and wt: "watches sys tr" and own: "own \<in> set (mp_gating (ms_seq (sys 0)))"
    and x: "\<And>t. mp_mem (ms_seq (sys t)) own = x"
  shows "bar_env k (x + 1) tr"
proof -
  note w = watched_sel [OF wt]
  note tr = watched_tracked [OF hist wt]
  have room: "cursor_of (ms_seq (sys t)) < i64_max" for t
    using hist by (simp add: mp_history_def mp_room_def) (smt (verit) zero_less_power)
  have stable: "avail (bw_avail (tr u')) s" if s: "x + 1 \<le> s" "u \<le> u'" "readable (tr u) s" for s u u'
  proof -
    obtain r where r: "r \<in> bw_tracked (tr 0)" using tracked_nonempty by (auto simp: bw_tracked_def)
    have "bw_tracked (tr u) = bw_tracked (tr 0)" using tr(1) by simp
    with s(3) r have "s \<le> bw_store (tr u) r" by (auto simp: readable_def)
    with tr(2) [OF r, of u] have le: "s \<le> cursor_of (ms_seq (sys u))" by simp
    have "avail (bw_avail (tr u)) s" using s(3) w(2) by (simp add: readable_def)
    then have "s \<in> ms_published (sys u)" using readable_iff_published [OF hist wt own x _ le] s(1) by simp
    with mp_history_mono(3,4) [OF hist s(2)] le readable_iff_published [OF hist wt own x, of s u'] s(1)
    show ?thesis by auto
  qed
  have "mono_traj (\<lambda>t. bw_store (tr t)) (bw_tracked (tr 0))" using tr(3) by (simp add: mono_traj_def)
  moreover have "avail_inv k (bw_avail (tr t))" for t
    using mp_history_inv [OF hist, of t] w(3) by (simp add: mp_sys_inv_def mp_inv_def)
  moreover have "bw_store (tr t) r < i64_max" if "r \<in> bw_tracked (tr 0)" for r t
    using tr(2) [OF that, of t] room [of t] by simp
  ultimately show ?thesis
    using w(2,4-7) stable unfolding bar_env_def by (metis (full_types))
qed

section \<open>An example\<close>

text \<open>
  The racing producers of the multi-producer example, then the publication of the sequences 0 and 2;
  the consumer has reference 7.
\<close>

definition publish_sys :: "i64 \<Rightarrow> mp_sys \<Rightarrow> mp_sys" where
  "publish_sys q w = w\<lparr>ms_seq := the (mp_publish q (ms_seq w)), ms_published := insert q (ms_published w)\<rparr>"

definition example_history :: "nat \<Rightarrow> mp_sys" where
  "example_history t =
     (if t = 0 then example_end else if t = 1 then publish_sys 0 example_end
      else publish_sys 2 (publish_sys 0 example_end))"

definition example_watch :: "bar_world traj" where
  "example_watch t =
     \<lparr>bw_bar = new_barrier (MultiSeq (ms_seq (example_history t))) [], bw_shutdown = False, bw_running = True,
      bw_strategy_alerted = False, bw_clock = t\<rparr>"

lemma example_history_ok:
  "mp_history 2 example_history" "7 \<in> set (mp_gating (ms_seq (example_history 0)))"
  "\<And>t. mp_mem (ms_seq (example_history t)) 7 = - 1"
proof -
  let ?w0 = example_end and ?w1 = "publish_sys 0 example_end"
  let ?w2 = "publish_sys 2 ?w1"
  have pub: "mp_publish 0 (ms_seq ?w0) \<noteq> None" "mp_publish 2 (ms_seq ?w1) \<noteq> None"
    "cursor_of (ms_seq ?w0) = 2" "cursor_of (ms_seq ?w1) = 2" "ms_published ?w0 = {}" "ms_published ?w1 = {0}" by code_simp+
  have s1: "mp_sys_step 2 ?w0 ?w1" unfolding publish_sys_def using pub by (intro mp_sys_step.publish) auto
  have s2: "mp_sys_step 2 ?w1 ?w2"
    unfolding publish_sys_def [of 2] using pub by (intro mp_sys_step.publish) auto
  have room: "mp_room 2 (ms_seq ?w0)" "mp_room 2 (ms_seq ?w1)" "mp_room 2 (ms_seq ?w2)" by code_simp+
  have "example_history (Suc t) = example_history t \<or> mp_sys_step 2 (example_history t) (example_history (Suc t))" for t
    using s1 s2 by (cases "t = 0"; cases "t = 1") (simp_all add: example_history_def)
  with room mp_example_started example_reachable show "mp_history 2 example_history"
    unfolding mp_history_def by (auto simp: example_history_def)
  show "7 \<in> set (mp_gating (ms_seq (example_history 0)))" by code_simp
  have "mp_mem (ms_seq ?w0) 7 = - 1" "mp_mem (ms_seq ?w1) 7 = - 1" "mp_mem (ms_seq ?w2) 7 = - 1" by code_simp+
  then show "mp_mem (ms_seq (example_history t)) 7 = - 1" for t by (simp add: example_history_def)
qed

lemma example_watch_ok: "watches example_history example_watch"
proof -
  have "mp_cursor (ms_seq (example_history t)) = mp_cursor (ms_seq (example_history 0)) \<and>
      mp_wait_strategy (ms_seq (example_history t)) = mp_wait_strategy (ms_seq (example_history 0))" for t
  proof -
    have "mp_wait_strategy (ms_seq example_end) = BusySpinStrategy" "mp_wait_strategy (ms_seq (publish_sys 0 example_end)) = BusySpinStrategy"
      "mp_wait_strategy (ms_seq (publish_sys 2 (publish_sys 0 example_end))) = BusySpinStrategy" by code_simp+
    then have "mp_wait_strategy (ms_seq (example_history t)) = BusySpinStrategy" for t by (simp add: example_history_def)
    with mp_history_mono(2) [OF example_history_ok(1), of 0 t] show ?thesis by simp
  qed
  then show ?thesis by (simp add: watches_def example_watch_def barrier_new_def)
qed

end
