(* ===== verification/Event_Flow.thy ===== *)
theory Event_Flow
  imports Ring_Spec Ring_Buffer
begin

text \<open>
  The events themselves: the multi-producer system together with the ring its threads write and read.
  A thread that has claimed sequences updates their slots in place and publishes them; a consumer that
  its barrier has let through may read and update the slot of every published sequence ahead of its own.
  Slots are reused, so the ring is compared with an unbounded array of logical events, one per sequence:
  a claim hands the producer the event that lived one ring earlier in the same slot.

  Besides the system and the ring the state records who claimed a sequence, the logical events, the
  events as they were published and the updates handlers made since.
\<close>

section \<open>The system with its ring\<close>

record 'e flow =
  fl_sys :: mp_sys
  fl_ring :: "'e ring_buffer"
  fl_owner :: "i64 \<rightharpoonup> nat"
  fl_event :: "i64 \<Rightarrow> 'e"
  fl_sent :: "i64 \<rightharpoonup> 'e"
  fl_handled :: "i64 \<Rightarrow> ('e \<Rightarrow> 'e) list"

abbreviation fl_seq :: "'e flow \<Rightarrow> mp_seq" where "fl_seq f \<equiv> ms_seq (fl_sys f)"

text \<open>What a thread does next. \<open>Step i\<close> is the next atomic step of the claim thread \<open>i\<close> is in.\<close>

datatype 'e flow_act =
    StartNext nat i64
  | StartTry nat i64
  | StartQuery nat usize
  | Step nat
  | Write nat i64 "'e \<Rightarrow> 'e"
  | Publish nat i64
  | Handle seq_ref i64 "'e \<Rightarrow> 'e"
  | Release seq_ref i64
  | Close
  | Reopen
  | Poison failure_record

definition start_thread :: "nat \<Rightarrow> mp_pc \<Rightarrow> 'e flow \<Rightarrow> 'e flow option" where
  "start_thread i pc f =
     (let w = fl_sys f in
      if finished (ms_threads w i) then Some (f\<lparr>fl_sys := w\<lparr>ms_threads := (ms_threads w)(i := pc)\<rparr>\<rparr>) else None)"

text \<open>A step of a claim; if it moves the cursor, the new sequences belong to the thread.\<close>

definition step_thread :: "nat \<Rightarrow> nat \<Rightarrow> 'e flow \<Rightarrow> 'e flow option" where
  "step_thread k i f =
     (let w = fl_sys f; (s', pc') = mp_step (ms_seq w) (ms_threads w i);
          c = cursor_of (ms_seq w); c' = cursor_of s'
      in if mp_room k (ms_seq w)
         then Some (f\<lparr>fl_sys := w\<lparr>ms_seq := s', ms_threads := (ms_threads w)(i := pc'),
                       ms_log := ms_log w @ claimed_by (ms_threads w i) pc'\<rparr>,
                     fl_owner := (\<lambda>q. if c < q \<and> q \<le> c' then Some i else fl_owner f q),
                     fl_event := (\<lambda>q. if c < q \<and> q \<le> c' then fl_event f (q - 2 ^ k) else fl_event f q)\<rparr>)
         else None)"

definition owns :: "'e flow \<Rightarrow> nat \<Rightarrow> i64 \<Rightarrow> bool" where
  "owns f i q \<longleftrightarrow> fl_owner f q = Some i \<and> q \<notin> ms_published (fl_sys f)"

definition write_slot :: "i64 \<Rightarrow> ('e \<Rightarrow> 'e) \<Rightarrow> 'e flow \<Rightarrow> 'e flow option" where
  "write_slot q u f =
     map_option (\<lambda>rb. f\<lparr>fl_ring := rb, fl_event := (fl_event f)(q := u (fl_event f q))\<rparr>) (ring_update (fl_ring f) q u)"

definition publish_slot :: "i64 \<Rightarrow> 'e flow \<Rightarrow> 'e flow option" where
  "publish_slot q f =
     map_option (\<lambda>s'. f\<lparr>fl_sys := (fl_sys f)\<lparr>ms_seq := s', ms_published := insert q (ms_published (fl_sys f))\<rparr>,
         fl_sent := (fl_sent f)(q \<mapsto> fl_event f q)\<rparr>)
       (mp_publish q (fl_seq f))"

text \<open>What the barrier lets consumer \<open>g\<close> work on: published without a gap from its own sequence on.\<close>

definition may_handle :: "'e flow \<Rightarrow> seq_ref \<Rightarrow> i64 \<Rightarrow> bool" where
  "may_handle f g q \<longleftrightarrow> g \<in> set (mp_gating (fl_seq f)) \<and> mp_mem (fl_seq f) g \<le> q \<and>
     list_all (\<lambda>p. p \<in> ms_published (fl_sys f)) [mp_mem (fl_seq f) g + 1..q]"

definition with_fl_seq :: "(mp_seq \<Rightarrow> mp_seq) \<Rightarrow> 'e flow \<Rightarrow> 'e flow" where
  "with_fl_seq h f = f\<lparr>fl_sys := (fl_sys f)\<lparr>ms_seq := h (fl_seq f)\<rparr>\<rparr>"

fun flow_do :: "nat \<Rightarrow> 'e flow_act \<Rightarrow> 'e flow \<Rightarrow> 'e flow option" where
  "flow_do k (StartNext i n) f = start_thread i (mp_next_n_start (fl_seq f) n) f"
| "flow_do k (StartTry i n) f = start_thread i (mp_try_next_n_start (fl_seq f) n) f"
| "flow_do k (StartQuery i m) f = start_thread i (HGuard m) f"
| "flow_do k (Step i) f = step_thread k i f"
| "flow_do k (Write i q u) f = (if owns f i q then write_slot q u f else None)"
| "flow_do k (Publish i q) f = (if owns f i q then publish_slot q f else None)"
| "flow_do k (Handle g q u) f =
     (if may_handle f g q \<and> mp_mem (fl_seq f) g < q
      then map_option (\<lambda>f'. f'\<lparr>fl_handled := (fl_handled f)(q := fl_handled f q @ [u])\<rparr>) (write_slot q u f) else None)"
| "flow_do k (Release g v) f =
     (if may_handle f g v then Some (with_fl_seq (\<lambda>s. s\<lparr>mp_mem := seq_set g v (mp_mem s)\<rparr>) f) else None)"
| "flow_do k Close f = Some (with_fl_seq mp_close f)"
| "flow_do k Reopen f = Some (with_fl_seq mp_reopen f)"
| "flow_do k (Poison fr) f = Some (with_fl_seq (\<lambda>s. mp_poison (mp_record_failure fr s)) f)"

inductive flow_step :: "nat \<Rightarrow> 'e flow \<Rightarrow> 'e flow \<Rightarrow> bool" for k where
  act: "flow_do k a f = Some f' \<Longrightarrow> flow_step k f f'"

inductive_cases flow_stepE: "flow_step k f f'"

text \<open>The start: the logical events of the ring before the first claim are those of the factory.\<close>

definition flow_init :: "mp_seq \<Rightarrow> 'e ring_buffer \<Rightarrow> 'e flow" where
  "flow_init s rb =
     \<lparr>fl_sys = mp_sys_init s, fl_ring = rb, fl_owner = (\<lambda>_. None), fl_event = (\<lambda>q. the (ring_get rb q)),
      fl_sent = (\<lambda>_. None), fl_handled = (\<lambda>_. [])\<rparr>"

fun flow_run :: "nat \<Rightarrow> 'e flow_act list \<Rightarrow> 'e flow \<Rightarrow> 'e flow option" where
  "flow_run k [] f = Some f"
| "flow_run k (a # as) f = Option.bind (flow_do k a f) (flow_run k as)"

lemma flow_run_reachable: "flow_run k as f = Some f' \<Longrightarrow> (flow_step k)\<^sup>*\<^sup>* f f'"
proof (induction as arbitrary: f)
  case (Cons a as)
  then obtain f1 where "flow_do k a f = Some f1" "flow_run k as f1 = Some f'" by (auto split: bind_splits)
  with Cons.IH show ?case by (meson converse_rtranclp_into_rtranclp flow_step.act)
qed simp

section \<open>The steps are steps of the multi-producer system\<close>

lemma start_thread_sys:
  assumes "start_thread i pc f = Some f'"
    and "pc \<in> {mp_next_n_start (fl_seq f) n, mp_try_next_n_start (fl_seq f) n, HGuard m}"
  shows "mp_sys_step k (fl_sys f) (fl_sys f')" "f' = f\<lparr>fl_sys := fl_sys f'\<rparr>" "fl_seq f' = fl_seq f"
    "ms_published (fl_sys f') = ms_published (fl_sys f)"
  using assms mp_sys_step.start [of "fl_sys f" i pc n m k] by (auto simp: start_thread_def Let_def split: if_splits)

lemma may_handle_iff:
  "may_handle f g q \<longleftrightarrow> g \<in> set (mp_gating (fl_seq f)) \<and> mp_mem (fl_seq f) g \<le> q \<and>
     (\<forall>p. mp_mem (fl_seq f) g < p \<and> p \<le> q \<longrightarrow> p \<in> ms_published (fl_sys f))"
  by (auto simp: may_handle_def list_all_iff)

lemma lifecycle_sys:
  assumes "h \<in> {mp_close, mp_reopen, (\<lambda>s. mp_poison (mp_record_failure fr s))}"
  shows "(mp_sys_step k)\<^sup>*\<^sup>* (fl_sys f) (fl_sys (with_fl_seq h f))"
proof -
  have l: "mp_sys_step k w (w\<lparr>ms_seq := g (ms_seq w)\<rparr>)" if "g \<in> {mp_close, mp_reopen, mp_poison, mp_record_failure fr}" for g w
    using mp_sys_step.lifecycle that by blast
  have "(mp_sys_step k)\<^sup>*\<^sup>* w (w\<lparr>ms_seq := mp_poison (mp_record_failure fr (ms_seq w))\<rparr>)" for w
    using l [of "mp_record_failure fr" w] l [of mp_poison "w\<lparr>ms_seq := mp_record_failure fr (ms_seq w)\<rparr>"]
    by (auto intro: converse_rtranclp_into_rtranclp)
  with assms l show ?thesis by (auto simp: with_fl_seq_def)
qed

section \<open>Invariant\<close>

definition replay :: "'e \<Rightarrow> ('e \<Rightarrow> 'e) list \<Rightarrow> 'e" where
  "replay e us = foldl (\<lambda>e u. u e) e us"

lemma replay_simps [simp]: "replay e [] = e" "replay e (us @ [u]) = u (replay e us)"
  by (simp_all add: replay_def)

text \<open>The last ring of claimed sequences is in the slots.\<close>

definition holds_window :: "nat \<Rightarrow> i64 \<Rightarrow> 'e flow \<Rightarrow> bool" where
  "holds_window k c f \<longleftrightarrow> (\<forall>q. c - 2 ^ k < q \<and> q \<le> c \<longrightarrow> ring_get (fl_ring f) q = Some (fl_event f q))"

definition sent_ok :: "'e flow \<Rightarrow> bool" where
  "sent_ok f \<longleftrightarrow>
     (\<forall>q\<in>ms_published (fl_sys f). \<exists>e. fl_sent f q = Some e \<and> fl_event f q = replay e (fl_handled f q)) \<and>
     (\<forall>q. q \<notin> ms_published (fl_sys f) \<longrightarrow> fl_sent f q = None \<and> fl_handled f q = [])"

definition flow_inv :: "nat \<Rightarrow> 'e flow \<Rightarrow> bool" where
  "flow_inv k f \<longleftrightarrow> mp_sys_inv k (fl_sys f) \<and> ring_invar (fl_ring f) \<and> ring_buffer_size (fl_ring f) = 2 ^ k \<and>
     holds_window k (cursor_of (fl_seq f)) f \<and> dom (fl_owner f) = {0..cursor_of (fl_seq f)} \<and> sent_ok f"

lemma ring_get_cong:
  assumes "ring_invar rb" and "s mod int (ring_buffer_size rb) = s' mod int (ring_buffer_size rb)"
  shows "ring_get rb s = ring_get rb s'"
  using assms slot_index_eq_iff [of rb s s'] by (simp add: ring_get_def)

lemma write_slot_ok:
  assumes "ring_invar (fl_ring f)" and "ring_buffer_size (fl_ring f) = 2 ^ k" and "holds_window k c f"
    and q: "c - 2 ^ k < q" "q \<le> c" and step: "write_slot q u f = Some f'"
  obtains rb where "f' = f\<lparr>fl_ring := rb, fl_event := (fl_event f)(q := u (fl_event f q))\<rparr>" "ring_invar rb"
    "ring_buffer_size rb = 2 ^ k" "holds_window k c f'"
proof -
  from step obtain rb where rb: "ring_update (fl_ring f) q u = Some rb"
    and f': "f' = f\<lparr>fl_ring := rb, fl_event := (fl_event f)(q := u (fl_event f q))\<rparr>" by (auto simp: write_slot_def)
  note keep = ring_update_keeps [OF assms(1) rb]
  have "ring_get rb p = Some (((fl_event f)(q := u (fl_event f q))) p)" if p: "c - 2 ^ k < p" "p \<le> c" for p
  proof -
    have "\<bar>q - p\<bar> < 2 ^ k" using p q by linarith
    then have "q mod 2 ^ k = p mod 2 ^ k \<longleftrightarrow> q = p" using mod_window_inj [of q "2 ^ k" p] by blast
    with rb.get_upd [OF assms(1) rb, of p] assms(2,3) p show ?thesis by (auto simp: holds_window_def)
  qed
  with that f' keep assms(2) show thesis by (auto simp: holds_window_def)
qed

lemma slots_in_window:
  assumes "mp_sys_inv k w" and "q \<le> cursor_of (ms_seq w)" and "slowest (ms_seq w) < q"
  shows "cursor_of (ms_seq w) - 2 ^ k < q"
  using sys_window(1) [OF assms(1)] assms(2,3) by linarith

lemma owned_in_window:
  assumes "flow_inv k f" and "owns f i q"
  shows "cursor_of (fl_seq f) - 2 ^ k < q" "q \<le> cursor_of (fl_seq f)" "0 \<le> q"
proof -
  have "q \<in> dom (fl_owner f)" using assms(2) by (auto simp: owns_def)
  with assms(1) show q: "q \<le> cursor_of (fl_seq f)" "0 \<le> q" by (auto simp: flow_inv_def)
  have i: "mp_sys_inv k (fl_sys f)" using assms(1) by (simp add: flow_inv_def)
  have "slowest (fl_seq f) < q" using sys_window(3) [OF i q(2)] assms(2) by (simp add: owns_def)
  from slots_in_window [OF i q(1) this] show "cursor_of (fl_seq f) - 2 ^ k < q" .
qed

lemma handled_in_window:
  assumes "flow_inv k f" and "may_handle f g q" and "mp_mem (fl_seq f) g < q"
  shows "cursor_of (fl_seq f) - 2 ^ k < q" "q \<le> cursor_of (fl_seq f)" "q \<in> ms_published (fl_sys f)"
proof -
  have i: "mp_sys_inv k (fl_sys f)" using assms(1) by (simp add: flow_inv_def)
  show p: "q \<in> ms_published (fl_sys f)" using assms(2,3) by (auto simp: may_handle_iff)
  with i show q: "q \<le> cursor_of (fl_seq f)" by (auto simp: mp_sys_inv_def)
  have "slowest (fl_seq f) < q"
    using assms(2,3) slowest_le [of g "fl_seq f"] by (auto simp: may_handle_iff)
  from slots_in_window [OF i q this] show "cursor_of (fl_seq f) - 2 ^ k < q" .
qed

lemma flow_inv_frame:
  assumes "flow_inv k f" and "mp_sys_inv k w" and "cursor_of (ms_seq w) = cursor_of (fl_seq f)"
    and "ms_published w = ms_published (fl_sys f)"
  shows "flow_inv k (f\<lparr>fl_sys := w\<rparr>)"
  using assms by (simp add: flow_inv_def sent_ok_def holds_window_def)

lemma step_thread_inv:
  assumes inv: "flow_inv k f" and step: "step_thread k i f = Some f'"
  shows "flow_inv k f' \<and> fl_owner f \<subseteq>\<^sub>m fl_owner f' \<and> fl_sent f' = fl_sent f"
proof -
  let ?w = "fl_sys f" and ?c = "cursor_of (fl_seq f)"
  obtain s' pc' where st: "mp_step (ms_seq ?w) (ms_threads ?w i) = (s', pc')" by fastforce
  define w' where "w' = ?w\<lparr>ms_seq := s', ms_threads := (ms_threads ?w)(i := pc'),
    ms_log := ms_log ?w @ claimed_by (ms_threads ?w i) pc'\<rparr>"
  let ?c' = "cursor_of s'"
  from step st have room: "mp_room k (ms_seq ?w)"
    and f': "f' = f\<lparr>fl_sys := w', fl_owner := (\<lambda>q. if ?c < q \<and> q \<le> ?c' then Some i else fl_owner f q),
      fl_event := (\<lambda>q. if ?c < q \<and> q \<le> ?c' then fl_event f (q - 2 ^ k) else fl_event f q)\<rparr>"
    by (auto simp: step_thread_def w'_def Let_def split: if_splits)
  from inv have i: "mp_sys_inv k ?w" and ri: "ring_invar (fl_ring f)" and sz: "ring_buffer_size (fl_ring f) = 2 ^ k"
    and win: "holds_window k ?c f" and own: "dom (fl_owner f) = {0..?c}" and sent: "sent_ok f"
    by (simp_all add: flow_inv_def)
  have i': "mp_sys_inv k w'" unfolding w'_def by (rule mp_sys_run_inv [OF i room st])
  have pub: "\<not> ?c < q" if "q \<in> ms_published ?w" for q using i that by (auto simp: mp_sys_inv_def)
  have m: "- 1 \<le> ?c" using i by (simp add: mp_sys_inv_def mp_inv_def)
  have up: "?c \<le> ?c'"
    using mp_step_ok [of k "ms_seq ?w" "ms_threads ?w i" s' pc'] i room st
    by (auto simp: step_ok_def mp_sys_inv_def mp_progress_def)
  have "?c' \<le> ?c + 2 ^ k"
  proof -
    from i have "mp_gating (ms_seq ?w) \<noteq> []" by (simp add: mp_sys_inv_def)
    then obtain g where g: "g \<in> set (mp_gating (ms_seq ?w))" using slowest_attained by blast
    then have g': "g \<in> set (mp_gating s')" "mp_mem s' g = mp_mem (ms_seq ?w) g"
      using mp_step_frame(1) [OF st] mp_step_frame(4) [OF st, of g] i by (auto simp: mp_sys_inv_def mp_inv_def)
    have "?c' \<le> slowest s' + 2 ^ k" using sys_window(1) [OF i'] by (simp add: w'_def)
    with slowest_le [OF g'(1)] g'(2) sys_window(2) [OF i g] show ?thesis by linarith
  qed
  then have win': "holds_window k ?c' f'"
    unfolding holds_window_def
  proof (intro allI impI)
    fix q assume q: "?c' - 2 ^ k < q \<and> q \<le> ?c'"
    show "ring_get (fl_ring f') q = Some (fl_event f' q)"
    proof (cases "?c < q")
      case True
      have "ring_get (fl_ring f) q = ring_get (fl_ring f) (q - 2 ^ k)"
        by (rule ring_get_cong [OF ri]) (simp add: sz)
      moreover have "?c - 2 ^ k < q - 2 ^ k" "q - 2 ^ k \<le> ?c" using True q \<open>?c' \<le> ?c + 2 ^ k\<close> by linarith+
      ultimately show ?thesis using win True q f' by (simp add: holds_window_def)
    next
      case False
      with win q up f' show ?thesis by (simp add: holds_window_def)
    qed
  qed
  have "dom (fl_owner f') = dom (fl_owner f) \<union> {?c<..?c'}" unfolding f' by (auto simp: dom_def split: if_splits)
  with own up m have "dom (fl_owner f') = {0..?c'}" by auto
  moreover have "sent_ok f'" using sent unfolding f' by (auto simp: sent_ok_def w'_def dest: pub)
  moreover have "fl_owner f \<subseteq>\<^sub>m fl_owner f'" using own f' by (auto simp: map_le_def)
  ultimately show ?thesis using i' ri sz win' f' by (simp add: flow_inv_def w'_def)
qed

lemma write_slot_inv:
  assumes inv: "flow_inv k f" and q: "cursor_of (fl_seq f) - 2 ^ k < q" "q \<le> cursor_of (fl_seq f)"
    and un: "q \<notin> ms_published (fl_sys f)" and step: "write_slot q u f = Some f'"
  shows "flow_inv k f' \<and> fl_owner f' = fl_owner f \<and> fl_sent f' = fl_sent f"
proof -
  from inv have ri: "ring_invar (fl_ring f)" and sz: "ring_buffer_size (fl_ring f) = 2 ^ k"
    and win: "holds_window k (cursor_of (fl_seq f)) f" by (simp_all add: flow_inv_def)
  show ?thesis
  proof (rule write_slot_ok [OF ri sz win q step])
    fix rb
    assume f': "f' = f\<lparr>fl_ring := rb, fl_event := (fl_event f)(q := u (fl_event f q))\<rparr>"
      and rb: "ring_invar rb" "ring_buffer_size rb = 2 ^ k" "holds_window k (cursor_of (fl_seq f)) f'"
    have "sent_ok f'" using inv un unfolding f' by (auto simp: flow_inv_def sent_ok_def)
    with f' rb inv show ?thesis by (simp add: flow_inv_def)
  qed
qed

lemma handle_inv:
  assumes inv: "flow_inv k f" and m: "may_handle f g q" "mp_mem (fl_seq f) g < q" and step: "write_slot q u f = Some f1"
    and f': "f' = f1\<lparr>fl_handled := (fl_handled f)(q := fl_handled f q @ [u])\<rparr>"
  shows "flow_inv k f' \<and> fl_owner f' = fl_owner f \<and> fl_sent f' = fl_sent f"
proof -
  note q = handled_in_window [OF inv m]
  from inv have ri: "ring_invar (fl_ring f)" and sz: "ring_buffer_size (fl_ring f) = 2 ^ k"
    and win: "holds_window k (cursor_of (fl_seq f)) f" by (simp_all add: flow_inv_def)
  show ?thesis
  proof (rule write_slot_ok [OF ri sz win q(1,2) step])
    fix rb
    assume f1: "f1 = f\<lparr>fl_ring := rb, fl_event := (fl_event f)(q := u (fl_event f q))\<rparr>"
      and rb: "ring_invar rb" "ring_buffer_size rb = 2 ^ k" "holds_window k (cursor_of (fl_seq f)) f1"
    have sent: "sent_ok f" using inv by (simp add: flow_inv_def)
    then obtain e where e: "fl_sent f q = Some e" "fl_event f q = replay e (fl_handled f q)"
      using q(3) by (auto simp: sent_ok_def)
    have "sent_ok f'" using sent e q(3) unfolding f' f1 by (auto simp: sent_ok_def)
    with f' f1 rb inv show ?thesis by (simp add: flow_inv_def holds_window_def)
  qed
qed

lemma publish_slot_inv:
  assumes inv: "flow_inv k f" and own: "owns f i q" and step: "publish_slot q f = Some f'"
  shows "flow_inv k f' \<and> fl_owner f' = fl_owner f \<and> fl_sent f \<subseteq>\<^sub>m fl_sent f' \<and> mp_sys_step k (fl_sys f) (fl_sys f')"
proof -
  from step obtain s' where pub: "mp_publish q (fl_seq f) = Some s'"
    and f': "f' = f\<lparr>fl_sys := (fl_sys f)\<lparr>ms_seq := s', ms_published := insert q (ms_published (fl_sys f))\<rparr>,
      fl_sent := (fl_sent f)(q \<mapsto> fl_event f q)\<rparr>" by (auto simp: publish_slot_def)
  have un: "q \<notin> ms_published (fl_sys f)" using own by (simp add: owns_def)
  have st: "mp_sys_step k (fl_sys f) (fl_sys f')"
    unfolding f' using owned_in_window [OF inv own] un pub by (auto intro: mp_sys_step.publish)
  have i: "mp_sys_inv k (fl_sys f)" and sent: "sent_ok f" using inv by (simp_all add: flow_inv_def)
  have "cursor_of s' = cursor_of (fl_seq f)" using mp_publish_frame [OF pub] by simp
  moreover have "sent_ok f'" unfolding f' using sent un by (auto simp: sent_ok_def)
  moreover have "fl_sent f q = None" using sent un by (auto simp: sent_ok_def)
  then have "fl_sent f \<subseteq>\<^sub>m fl_sent f'" unfolding f' by (auto simp: map_le_def)
  ultimately show ?thesis
    using inv mp_sys_step_inv [OF st i] st unfolding f' by (simp add: flow_inv_def holds_window_def)
qed

text \<open>
  Every step keeps the invariant, is invisible to the sequencer or a run of its steps, and takes no
  sequence from its owner and no published event back.
\<close>

definition flow_ok :: "nat \<Rightarrow> 'e flow \<Rightarrow> 'e flow \<Rightarrow> bool" where
  "flow_ok k f f' \<longleftrightarrow> flow_inv k f' \<and> fl_owner f \<subseteq>\<^sub>m fl_owner f' \<and> fl_sent f \<subseteq>\<^sub>m fl_sent f'"

lemma sys_only_ok:
  assumes "flow_inv k f" and "(mp_sys_step k)\<^sup>*\<^sup>* (fl_sys f) w" and "cursor_of (ms_seq w) = cursor_of (fl_seq f)"
    and "ms_published w = ms_published (fl_sys f)"
  shows "flow_ok k f (f\<lparr>fl_sys := w\<rparr>)"
proof -
  have "mp_sys_inv k w"
    using assms(2,1) by (induction rule: rtranclp_induct) (auto simp: flow_inv_def intro: mp_sys_step_inv)
  with flow_inv_frame [OF assms(1) _ assms(3,4)] show ?thesis by (simp add: flow_ok_def)
qed

lemma flow_do_ok:
  assumes "flow_inv k f" and "flow_do k a f = Some f'"
  shows "flow_ok k f f'"
proof -
  have start: "flow_ok k f f'"
    if st: "start_thread i pc f = Some f'" "pc \<in> {mp_next_n_start (fl_seq f) n, mp_try_next_n_start (fl_seq f) n, HGuard m}"
    for i pc n m
  proof -
    note s = start_thread_sys [OF st]
    have "flow_ok k f (f\<lparr>fl_sys := fl_sys f'\<rparr>)"
      by (rule sys_only_ok) (use assms(1) s(1) [of k] s(3,4) in auto)
    then show ?thesis using s(2) by simp
  qed
  have life: "flow_ok k f (with_fl_seq h f)" if "h \<in> {mp_close, mp_reopen, (\<lambda>s. mp_poison (mp_record_failure fr s))}" for h fr
  proof -
    have "cursor_of (h (fl_seq f)) = cursor_of (fl_seq f)"
      using that by (auto simp: mp_close_def mp_reopen_def mp_poison_def mp_record_failure_def mp_signal_def)
    with sys_only_ok [OF assms(1) lifecycle_sys [OF that]] show ?thesis by (simp add: with_fl_seq_def)
  qed
  show ?thesis
  proof (cases a)
    case (Step i)
    with assms(2) step_thread_inv [OF assms(1), of i f'] show ?thesis by (simp add: flow_ok_def)
  next
    case (Write i q u)
    with assms have o: "owns f i q" "write_slot q u f = Some f'" by (auto split: if_splits)
    have "q \<notin> ms_published (fl_sys f)" using o(1) by (simp add: owns_def)
    with write_slot_inv [OF assms(1) owned_in_window(1,2) [OF assms(1) o(1)] _ o(2)] show ?thesis
      by (simp add: flow_ok_def)
  next
    case (Publish i q)
    with assms(2) have "owns f i q" "publish_slot q f = Some f'" by (auto split: if_splits)
    from publish_slot_inv [OF assms(1) this] show ?thesis by (simp add: flow_ok_def)
  next
    case (Handle g q u)
    with assms(2) obtain f1 where "may_handle f g q" "mp_mem (fl_seq f) g < q" "write_slot q u f = Some f1"
      "f' = f1\<lparr>fl_handled := (fl_handled f)(q := fl_handled f q @ [u])\<rparr>" by (auto split: if_splits)
    from handle_inv [OF assms(1) this] show ?thesis by (simp add: flow_ok_def)
  next
    case (Release g v)
    with assms(2) have m: "may_handle f g v" and f': "f' = with_fl_seq (\<lambda>s. s\<lparr>mp_mem := seq_set g v (mp_mem s)\<rparr>) f"
      by (auto split: if_splits)
    have "g \<noteq> mp_cursor (fl_seq f)" using m assms(1) by (auto simp: may_handle_iff flow_inv_def mp_sys_inv_def mp_inv_def)
    moreover have "mp_sys_step k (fl_sys f) (fl_sys f')"
      using m unfolding f' with_fl_seq_def may_handle_iff by (auto intro: mp_sys_step.consume)
    ultimately show ?thesis
      using sys_only_ok [OF assms(1), of "fl_sys f'"] unfolding f' with_fl_seq_def by (auto simp: seq_set_def)
  next
    case (Poison fr)
    with assms(2) life [of "\<lambda>s. mp_poison (mp_record_failure fr s)" fr] show ?thesis by simp
  qed (use assms(2) start life [of mp_close] life [of mp_reopen] in auto)
qed

lemma flow_init_inv:
  assumes "mp_started k s" and "ring_invar rb" and "ring_buffer_size rb = 2 ^ k"
  shows "flow_inv k (flow_init s rb)"
proof -
  have i: "mp_sys_inv k (mp_sys_init s)" by (rule mp_started_inv [OF assms(1)])
  then have "cursor_of s = - 1" by (auto simp: mp_sys_inv_def mp_sys_init_def claimed_seqs_def mp_inv_def)
  moreover have "ring_get rb q = Some (the (ring_get rb q))" for q using rb.get_total [OF assms(2), of q] by auto
  ultimately show ?thesis
    using i assms(2,3) by (simp add: flow_inv_def flow_init_def holds_window_def sent_ok_def mp_sys_init_def)
qed

lemma flow_steps_ok:
  assumes "(flow_step k)\<^sup>*\<^sup>* f f'" and "flow_inv k f"
  shows "flow_ok k f f'"
  using assms
proof (induction rule: rtranclp_induct)
  case base
  then show ?case by (simp add: flow_ok_def)
next
  case (step g h)
  from step(2) obtain a where "flow_do k a g = Some h" by (auto elim: flow_stepE)
  with step(3,4) flow_do_ok [of k g a h] show ?case by (auto simp: flow_ok_def intro: map_le_trans)
qed

lemmas flow_reachable_inv = flow_steps_ok [OF _ flow_init_inv, unfolded flow_ok_def, THEN conjunct1]

lemma window_content:
  assumes "flow_inv k f" and "cursor_of (fl_seq f) - 2 ^ k < q" and "q \<le> cursor_of (fl_seq f)"
  shows "ring_get (fl_ring f) q = Some (fl_event f q)"
  using assms by (simp add: flow_inv_def holds_window_def)

lemma owned_event_kept:
  assumes inv: "flow_inv k f" and own: "owns f i q" and step: "flow_do k a f = Some f'" and a: "\<And>j u. a \<noteq> Write j q u"
  shows "fl_event f' q = fl_event f q"
proof -
  have q: "q \<le> cursor_of (fl_seq f)" by (rule owned_in_window [OF inv own])
  have un: "q \<notin> ms_published (fl_sys f)" using own by (simp add: owns_def)
  show ?thesis
  proof (cases a)
    case (Handle g p u)
    with step handled_in_window(3) [OF inv, of g p] un show ?thesis by (auto simp: write_slot_def split: if_splits)
  next
    case (Write j p u)
    with step a [of j u] show ?thesis by (auto simp: write_slot_def split: if_splits)
  qed (use step q in \<open>auto simp: start_thread_def step_thread_def write_slot_def publish_slot_def with_fl_seq_def Let_def
      split: if_splits prod.splits\<close>)
qed

section \<open>An example\<close>

text \<open>Thread 0 claims two sequences of a ring of 4, writes and publishes them; consumer 7 handles the first.\<close>

definition example_ring :: "nat ring_buffer" where
  "example_ring = \<lparr>storage = Inline [0, 1, 2, 3], index_mask = 3\<rparr>"

definition example_claims :: "nat flow_act list" where
  "example_claims = StartNext 0 2 # replicate 5 (Step 0)"

definition example_acts :: "nat flow_act list" where
  "example_acts = example_claims @
     [Write 0 0 (\<lambda>e. e + 10), Write 0 1 (\<lambda>e. e + 20), Publish 0 1, Publish 0 0, Handle 7 0 (\<lambda>e. e + 5)]"

lemma example_ring_ok: "ring_invar example_ring" "ring_buffer_size example_ring = 2 ^ 2"
  by code_simp+

section \<open>Properties\<close>

text \<open>
  C2: events arrive as they were sent. In every run of racing producers and consumers over the ring, what
  the slot of a sequence holds when a consumer may handle it is the event its producer published, as
  changed by the handlers that had this sequence before and by nobody else; who claimed a sequence and
  what was published for it never change afterwards, however often the slots are reused.
\<close>

theorem events_arrive_as_sent:
  assumes "mp_started k s" and "ring_invar rb" and "ring_buffer_size rb = 2 ^ k"
    and "(flow_step k)\<^sup>*\<^sup>* (flow_init s rb) f" and "may_handle f g q" and "mp_mem (fl_seq f) g < q"
    and "(flow_step k)\<^sup>*\<^sup>* f f'"
  shows "\<exists>e i. fl_sent f q = Some e \<and> fl_owner f q = Some i \<and>
    ring_get (fl_ring f) q = Some (replay e (fl_handled f q)) \<and>
    fl_sent f' q = Some e \<and> fl_owner f' q = Some i"
proof -
  note inv = flow_reachable_inv [OF assms(4,1-3)]
  note w = handled_in_window [OF inv assms(5,6)]
  from inv w(3) obtain e where e: "fl_sent f q = Some e" "fl_event f q = replay e (fl_handled f q)"
    by (auto simp: flow_inv_def sent_ok_def)
  have "q \<in> dom (fl_owner f)" using inv w(2,3) by (auto simp: flow_inv_def mp_sys_inv_def)
  then obtain i where i: "fl_owner f q = Some i" by blast
  from flow_steps_ok [OF assms(7) inv] e(1) i have "fl_sent f' q = Some e" "fl_owner f' q = Some i"
    by (auto simp: flow_ok_def map_le_def dom_def)
  with e i window_content [OF inv w(1,2)] show ?thesis by simp
qed

theorem events_arrive_as_sent_witness:
  "\<exists>f e i. flow_run 2 example_acts (flow_init mp_example example_ring) = Some f \<and>
     fl_sent f 0 = Some e \<and> fl_owner f 0 = Some i \<and> ring_get (fl_ring f) 0 = Some (replay e (fl_handled f 0)) \<and>
     ring_get (fl_ring f) 0 = Some 15"
proof -
  let ?run = "flow_run 2 example_acts (flow_init mp_example example_ring)"
  have "map_option (\<lambda>f. (may_handle f 7 0, mp_mem (fl_seq f) 7, ring_get (fl_ring f) 0)) ?run = Some (True, - 1, Some 15)"
    by code_simp
  then obtain f where f: "?run = Some f" "may_handle f 7 0" "mp_mem (fl_seq f) 7 < 0" "ring_get (fl_ring f) 0 = Some 15"
    by auto
  from events_arrive_as_sent [OF mp_example_started example_ring_ok flow_run_reachable [OF f(1)] f(2,3) rtranclp.rtrancl_refl]
    f(1,4) show ?thesis by metis
qed

text \<open>
  A claimed slot belongs to its producer. Between the claim of a sequence and its publication no step
  of any other producer or of a consumer changes the content of its slot.
\<close>

theorem claimed_slot_isolated:
  assumes "mp_started k s" and "ring_invar rb" and "ring_buffer_size rb = 2 ^ k"
    and "(flow_step k)\<^sup>*\<^sup>* (flow_init s rb) f" and "owns f i q" and "flow_do k a f = Some f'"
    and "\<And>u. a \<noteq> Write i q u"
  shows "ring_get (fl_ring f') q = ring_get (fl_ring f) q"
proof -
  note inv = flow_reachable_inv [OF assms(4,1-3)]
  note w = owned_in_window [OF inv assms(5)]
  have a: "a \<noteq> Write j q u" for j u using assms(5-7) by (cases "j = i") (auto simp: owns_def split: if_splits)
  have ev: "fl_event f' q = fl_event f q" by (rule owned_event_kept [OF inv assms(5,6) a])
  show ?thesis
  proof (cases a)
    case (Step j)
    with assms(6) show ?thesis by (auto simp: step_thread_def Let_def split: if_splits prod.splits)
  next
    case (Write j p u)
    have inv': "flow_inv k f'" using flow_do_ok [OF inv assms(6)] by (simp add: flow_ok_def)
    have "fl_seq f' = fl_seq f" using Write assms(6) by (auto simp: write_slot_def split: if_splits)
    with window_content [OF inv w(1,2)] window_content [OF inv', of q] w ev show ?thesis by simp
  next
    case (Handle g p u)
    have inv': "flow_inv k f'" using flow_do_ok [OF inv assms(6)] by (simp add: flow_ok_def)
    have "fl_seq f' = fl_seq f" using Handle assms(6) by (auto simp: write_slot_def split: if_splits)
    with window_content [OF inv w(1,2)] window_content [OF inv', of q] w ev show ?thesis by simp
  qed (use assms(6) in \<open>auto simp: start_thread_def publish_slot_def with_fl_seq_def Let_def split: if_splits\<close>)
qed

theorem claimed_slot_isolated_witness:
  "\<exists>f f'. flow_run 2 example_claims (flow_init mp_example example_ring) = Some f \<and> owns f 0 1 \<and>
     flow_do 2 (Write 0 0 (\<lambda>e. e + 10)) f = Some f' \<and> ring_get (fl_ring f') 1 = ring_get (fl_ring f) 1"
proof -
  let ?run = "flow_run 2 example_claims (flow_init mp_example example_ring)"
  have "map_option (\<lambda>f. (owns f 0 1, Option.is_none (flow_do 2 (Write 0 0 (\<lambda>e. e + 10)) f))) ?run = Some (True, False)"
    by code_simp
  then obtain f f' where f: "?run = Some f" "owns f 0 1" "flow_do 2 (Write 0 0 (\<lambda>e. e + 10)) f = Some f'"
    by (auto simp: Option.is_none_def)
  from claimed_slot_isolated [OF mp_example_started example_ring_ok flow_run_reachable [OF f(1)] f(2,3)] f show ?thesis
    by auto
qed

end
