(* ===== verification/Builder.thy ===== *)
theory Builder
  imports Handlers Worker_Pool Producer
begin

text \<open>
  The fluent builder and the assembly of a pipeline: \<open>builder/fluent.rs\<close>, the consumer descriptions of
  \<open>builder/consumer.rs\<close> and \<open>create_disruptor_core\<close> of \<open>builder/core.rs\<close>. A chain of builder calls is a
  list; which call is possible in which state is what the type parameters of the Rust builders say.
  \<open>None\<close> is a panic. The \<open>i\<close>-th sequence that is allocated gets the reference \<open>alloc i\<close>.
\<close>

section \<open>Consumer descriptions\<close>

datatype consumer_access = Mutable | Readonly

datatype run_mode = Sequential | WorkPool i64

datatype ('e, 'c) starter =
    MutableStarter "('e, 'c closure_state) lifecycle_handler"
  | ReadonlyStarter "('e, 'c closure_state) observer"

record ('e, 'c) consumer_info =
  ci_starter :: "('e, 'c) starter"
  ci_thread_name :: "string option"
  ci_cpu_affinity :: "usize option"
  ci_stage_index :: usize
  ci_access :: consumer_access

definition consumer_info_mutable ::
    "('e, 'c closure_state) lifecycle_handler \<Rightarrow> string option \<Rightarrow> usize option \<Rightarrow> usize \<Rightarrow> ('e, 'c) consumer_info" where
  "consumer_info_mutable handler name cpu stage =
     \<lparr>ci_starter = MutableStarter handler, ci_thread_name = name, ci_cpu_affinity = cpu,
      ci_stage_index = stage, ci_access = Mutable\<rparr>"

definition consumer_info_readonly ::
    "('e, 'c closure_state) observer \<Rightarrow> string option \<Rightarrow> usize option \<Rightarrow> usize \<Rightarrow> ('e, 'c) consumer_info" where
  "consumer_info_readonly on_ev name cpu stage =
     \<lparr>ci_starter = ReadonlyStarter on_ev, ci_thread_name = name, ci_cpu_affinity = cpu,
      ci_stage_index = stage, ci_access = Readonly\<rparr>"

definition assert_access_compatible :: "('e, 'c) consumer_info list \<Rightarrow> usize \<Rightarrow> consumer_access \<Rightarrow> bool" where
  "assert_access_compatible consumers stage access =
     list_all (\<lambda>c. \<not> (ci_stage_index c = stage \<and> ci_access c \<noteq> access)) consumers"

definition count_consumer :: "('e, 'c) consumer_info \<Rightarrow> nat list \<times> consumer_access list \<Rightarrow> nat list \<times> consumer_access list" where
  "count_consumer c = (\<lambda>(widths, access).
     (widths[ci_stage_index c := Suc (widths ! ci_stage_index c)], access[ci_stage_index c := ci_access c]))"

definition stage_run_modes :: "('e, 'c) consumer_info list \<Rightarrow> usize \<Rightarrow> run_mode list option" where
  "stage_run_modes consumers stage_count =
     (if stage_count = 0 then Some []
      else if list_all (\<lambda>c. ci_stage_index c < stage_count) consumers then
        let (widths, access) = fold count_consumer consumers (replicate stage_count 0, replicate stage_count Mutable)
        in Some (map2 (\<lambda>width acc. if width > 1 \<and> acc = Mutable then WorkPool new_work_sequence else Sequential)
             widths access)
      else None)"

section \<open>The builder state\<close>

record ('e, 'c) shared_builder_state =
  sb_size :: usize
  sb_slot_padding :: slot_padding
  sb_wait_strategy :: wait_strategy
  sb_consumers :: "('e, 'c) consumer_info list"
  sb_thread_name :: "string option"
  sb_cpu_affinity :: "usize option"
  sb_stage_index :: usize

definition builder_new :: "usize \<Rightarrow> wait_strategy \<Rightarrow> ('e, 'c) shared_builder_state" where
  "builder_new buffer_size ws =
     \<lparr>sb_size = buffer_size, sb_slot_padding = NoPadding, sb_wait_strategy = ws, sb_consumers = [],
      sb_thread_name = None, sb_cpu_affinity = None, sb_stage_index = 0\<rparr>"

definition take_thread_meta ::
    "('e, 'c) shared_builder_state \<Rightarrow> (string option \<times> usize option) \<times> ('e, 'c) shared_builder_state" where
  "take_thread_meta b = ((sb_thread_name b, sb_cpu_affinity b), b\<lparr>sb_thread_name := None, sb_cpu_affinity := None\<rparr>)"

definition push_consumer ::
    "('e, 'c) consumer_info \<Rightarrow> consumer_access \<Rightarrow> ('e, 'c) shared_builder_state \<Rightarrow> ('e, 'c) shared_builder_state option" where
  "push_consumer info access b =
     (if assert_access_compatible (sb_consumers b) (sb_stage_index b) access
      then Some (b\<lparr>sb_consumers := sb_consumers b @ [info]\<rparr>) else None)"

text \<open>A closure of the builder answers whether it returned (or panicked).\<close>

type_synonym ('e, 'c) mut_closure = "'e \<Rightarrow> i64 \<Rightarrow> bool \<Rightarrow> 'c \<Rightarrow> bool \<times> 'e \<times> 'c"
type_synonym ('e, 'c) read_closure = "'e \<Rightarrow> i64 \<Rightarrow> bool \<Rightarrow> 'c closure_state \<Rightarrow> bool \<times> 'c closure_state"

definition add_mut_closure ::
    "('e, 'c) mut_closure \<Rightarrow> ('e, 'c) shared_builder_state \<Rightarrow> ('e, 'c) shared_builder_state option" where
  "add_mut_closure f b0 =
     (let ((name, cpu), b) = take_thread_meta b0;
          handler = closure_event_handler (\<lambda>e s eob c. let (ok, e', c') = f e s eob c in
            (if ok then Some (Ok ()) else None, e', c'))
      in push_consumer (consumer_info_mutable handler name cpu (sb_stage_index b)) Mutable b)"

definition add_mut_handler ::
    "('e, 'c closure_state) lifecycle_handler \<Rightarrow> ('e, 'c) shared_builder_state \<Rightarrow> ('e, 'c) shared_builder_state option" where
  "add_mut_handler handler b0 =
     (let ((name, cpu), b) = take_thread_meta b0
      in push_consumer (consumer_info_mutable handler name cpu (sb_stage_index b)) Mutable b)"

definition add_fanout ::
    "('e, 'c) read_closure \<Rightarrow> ('e, 'c) shared_builder_state \<Rightarrow> ('e, 'c) shared_builder_state option" where
  "add_fanout f b0 =
     (let ((name, cpu), b) = take_thread_meta b0;
          on_ev = (\<lambda>e s eob c. let (ok, c') = f e s eob c in (if ok then Some (Ok ()) else None, c'))
      in push_consumer (consumer_info_readonly on_ev name cpu (sb_stage_index b)) Readonly b)"

definition advance_stage :: "('e, 'c) shared_builder_state \<Rightarrow> ('e, 'c) shared_builder_state" where
  "advance_stage b = b\<lparr>sb_stage_index := Suc (sb_stage_index b)\<rparr>"

definition pin_at_core :: "usize \<Rightarrow> ('e, 'c) shared_builder_state \<Rightarrow> ('e, 'c) shared_builder_state" where
  "pin_at_core core_id b = b\<lparr>sb_cpu_affinity := Some core_id\<rparr>"

definition set_thread_name :: "string \<Rightarrow> ('e, 'c) shared_builder_state \<Rightarrow> ('e, 'c) shared_builder_state" where
  "set_thread_name name b = b\<lparr>sb_thread_name := Some name\<rparr>"

definition with_slot_padding :: "slot_padding \<Rightarrow> ('e, 'c) shared_builder_state \<Rightarrow> ('e, 'c) shared_builder_state" where
  "with_slot_padding padding b = b\<lparr>sb_slot_padding := padding\<rparr>"

definition with_cache_line_padding :: "bool \<Rightarrow> ('e, 'c) shared_builder_state \<Rightarrow> ('e, 'c) shared_builder_state" where
  "with_cache_line_padding enabled b = with_slot_padding (if enabled then PadCacheLine128 else NoPadding) b"

section \<open>Chains of builder calls\<close>

datatype builder_type = NoConsumers | HasConsumers | Dependent

datatype ('e, 'c) builder_call =
    PinAtCore usize
  | ThreadName string
  | WithSlotPadding slot_padding
  | WithCacheLinePadding bool
  | HandleEventsWith "('e, 'c) mut_closure"
  | HandleEventsWithHandler "('e, 'c closure_state) lifecycle_handler"
  | AlsoPartitionWith "('e, 'c) mut_closure"
  | AlsoPartitionWithHandler "('e, 'c closure_state) lifecycle_handler"
  | FanOutEventsWith "('e, 'c) read_closure"
  | AndThen

text \<open>The methods a builder type has, with the type of what they return.\<close>

fun typed_call :: "builder_type \<Rightarrow> ('e, 'c) builder_call \<Rightarrow> builder_type option" where
  "typed_call t (PinAtCore _) = Some t"
| "typed_call t (ThreadName _) = Some t"
| "typed_call t (WithSlotPadding _) = Some t"
| "typed_call t (WithCacheLinePadding _) = Some t"
| "typed_call t (FanOutEventsWith _) = Some HasConsumers"
| "typed_call t (HandleEventsWith _) = (if t = HasConsumers then None else Some HasConsumers)"
| "typed_call t (HandleEventsWithHandler _) = (if t = HasConsumers then None else Some HasConsumers)"
| "typed_call t (AlsoPartitionWith _) = (if t = HasConsumers then Some HasConsumers else None)"
| "typed_call t (AlsoPartitionWithHandler _) = (if t = HasConsumers then Some HasConsumers else None)"
| "typed_call t AndThen = (if t = HasConsumers then Some Dependent else None)"

fun apply_call :: "('e, 'c) builder_call \<Rightarrow> ('e, 'c) shared_builder_state \<Rightarrow> ('e, 'c) shared_builder_state option" where
  "apply_call (PinAtCore n) b = Some (pin_at_core n b)"
| "apply_call (ThreadName n) b = Some (set_thread_name n b)"
| "apply_call (WithSlotPadding p) b = Some (with_slot_padding p b)"
| "apply_call (WithCacheLinePadding p) b = Some (with_cache_line_padding p b)"
| "apply_call (HandleEventsWith f) b = add_mut_closure f b"
| "apply_call (HandleEventsWithHandler h) b = add_mut_handler h b"
| "apply_call (AlsoPartitionWith f) b = add_mut_closure f b"
| "apply_call (AlsoPartitionWithHandler h) b = add_mut_handler h b"
| "apply_call (FanOutEventsWith f) b = add_fanout f b"
| "apply_call AndThen b = Some (advance_stage b)"

fun typed_chain :: "builder_type \<Rightarrow> ('e, 'c) builder_call list \<Rightarrow> builder_type option" where
  "typed_chain t [] = Some t"
| "typed_chain t (x # xs) = Option.bind (typed_call t x) (\<lambda>t'. typed_chain t' xs)"

fun apply_chain :: "('e, 'c) builder_call list \<Rightarrow> ('e, 'c) shared_builder_state \<Rightarrow> ('e, 'c) shared_builder_state option" where
  "apply_chain [] b = Some b"
| "apply_chain (x # xs) b = Option.bind (apply_call x b) (apply_chain xs)"

section \<open>Assembly\<close>

record ('e, 'c) started_consumer =
  sc_sequence :: seq_ref
  sc_barrier :: barrier
  sc_info :: "('e, 'c) consumer_info"
  sc_run_mode :: run_mode

record ('e, 'c) disruptor_core =
  dc_ring_buffer :: "'e ring_buffer"
  dc_sequencer :: sequencer
  dc_unique :: bool
  dc_consumers :: "('e, 'c) started_consumer list"
  dc_shutdown :: bool
  dc_gating :: "seq_ref list"

fun stage_deps :: "usize \<Rightarrow> seq_ref list list \<Rightarrow> seq_ref list option" where
  "stage_deps 0 stage_sequences = Some []"
| "stage_deps (Suc n) stage_sequences =
     (if n < length stage_sequences \<and> stage_sequences ! n \<noteq> [] then Some (stage_sequences ! n) else None)"

text \<open>
  The loop over the consumers: the consumers started so far and the sequences of each stage. A read-only
  consumer asserts that its stage runs sequentially.
\<close>

fun start_consumers ::
    "(nat \<Rightarrow> seq_ref) \<Rightarrow> sequencer \<Rightarrow> wait_strategy \<Rightarrow> run_mode list \<Rightarrow> nat \<Rightarrow> ('e, 'c) consumer_info list \<Rightarrow>
     ('e, 'c) started_consumer list \<Rightarrow> seq_ref list list \<Rightarrow>
     (('e, 'c) started_consumer list \<times> seq_ref list list) option" where
  "start_consumers alloc q ws modes i [] started stages = Some (started, stages)"
| "start_consumers alloc q ws modes i (c # cs) started stages =
     (let stage = ci_stage_index c in
      case stage_deps stage stages of
        None \<Rightarrow> None
      | Some deps \<Rightarrow>
          if \<not> (stage < length modes) then None
          else if ci_access c = Readonly \<and> modes ! stage \<noteq> Sequential then None
          else if \<not> (stage < length stages) then None
          else start_consumers alloc q ws modes (Suc i) cs
            (started @ [\<lparr>sc_sequence = alloc i, sc_barrier = barrier_new (seq_get_cursor q) ws deps q, sc_info = c,
                         sc_run_mode = modes ! stage\<rparr>])
            (stages[stage := stages ! stage @ [alloc i]]))"

definition create_disruptor_core ::
    "((seq_ref list \<Rightarrow> seq_ref list) \<Rightarrow> seq_ref list \<Rightarrow> seq_ref list) \<Rightarrow> (nat \<Rightarrow> seq_ref) \<Rightarrow> store \<Rightarrow> usize \<Rightarrow> (nat \<Rightarrow> 'e) \<Rightarrow>
     wait_strategy \<Rightarrow> ('e, 'c) consumer_info list \<Rightarrow> bool \<Rightarrow> slot_padding \<Rightarrow> ('e, 'c) disruptor_core option" where
  "create_disruptor_core rcu alloc h buffer_size factory ws consumers multi padding =
     (case new_with_padding buffer_size factory padding of
        Inl _ \<Rightarrow> None
      | Inr ring \<Rightarrow>
          (case (if multi then map_option MultiSeq (mp_new buffer_size ws (alloc 0) h)
                 else map_option SingleSeq (sp_new_unique buffer_size ws (alloc 0) h)) of
             None \<Rightarrow> None
           | Some q0 \<Rightarrow>
               let q = seq_on_mem (fold (\<lambda>i. seq_new INITIAL_CURSOR_VALUE (alloc (Suc i))) [0..<length consumers]) q0;
                   stage_count = (if consumers = [] then 0 else Suc (Max (set (map ci_stage_index consumers))))
               in case stage_run_modes consumers stage_count of
                    None \<Rightarrow> None
                  | Some modes \<Rightarrow>
                      (case start_consumers (\<lambda>i. alloc (Suc i)) q ws modes 0 consumers [] (replicate stage_count []) of
                         None \<Rightarrow> None
                       | Some (started, stages) \<Rightarrow>
                           let gating = (if stages = [] then [] else last stages)
                           in Some \<lparr>dc_ring_buffer = ring,
                                    dc_sequencer = (if gating = [] then q else seq_add_gating_sequences rcu gating q),
                                    dc_unique = (\<not> multi), dc_consumers = started, dc_shutdown = False,
                                    dc_gating = gating\<rparr>)))"

definition build ::
    "((seq_ref list \<Rightarrow> seq_ref list) \<Rightarrow> seq_ref list \<Rightarrow> seq_ref list) \<Rightarrow> (nat \<Rightarrow> seq_ref) \<Rightarrow> store \<Rightarrow> (nat \<Rightarrow> 'e) \<Rightarrow> bool \<Rightarrow>
     ('e, 'c) shared_builder_state \<Rightarrow> ('e, 'c) disruptor_core option" where
  "build rcu alloc h factory multi b =
     create_disruptor_core rcu alloc h (sb_size b) factory (sb_wait_strategy b) (sb_consumers b) multi (sb_slot_padding b)"

section \<open>What typed chains build up\<close>

fun built_stages :: "builder_type \<Rightarrow> nat \<Rightarrow> nat set" where
  "built_stages HasConsumers n = {..n}"
| "built_stages _ n = {..<n}"

fun starter_access :: "('e, 'c) starter \<Rightarrow> consumer_access" where
  "starter_access (MutableStarter _) = Mutable"
| "starter_access (ReadonlyStarter _) = Readonly"

definition one_access :: "('e, 'c) consumer_info list \<Rightarrow> bool" where
  "one_access cs \<longleftrightarrow> (\<forall>c\<in>set cs. \<forall>d\<in>set cs. ci_stage_index c = ci_stage_index d \<longrightarrow> ci_access c = ci_access d)"

definition own_access :: "('e, 'c) consumer_info list \<Rightarrow> bool" where
  "own_access cs \<longleftrightarrow> (\<forall>c\<in>set cs. ci_access c = starter_access (ci_starter c))"

definition builder_ok :: "builder_type \<Rightarrow> ('e, 'c) shared_builder_state \<Rightarrow> bool" where
  "builder_ok t b \<longleftrightarrow>
     sorted (map ci_stage_index (sb_consumers b)) \<and>
     one_access (sb_consumers b) \<and> own_access (sb_consumers b) \<and>
     ci_stage_index ` set (sb_consumers b) = built_stages t (sb_stage_index b) \<and>
     (t = NoConsumers \<longrightarrow> sb_stage_index b = 0)"

lemma push_consumer_ok:
  assumes "builder_ok t b" and "push_consumer c a b = Some b'" and "ci_stage_index c = sb_stage_index b"
    and "ci_access c = a" and "a = starter_access (ci_starter c)"
  shows "builder_ok HasConsumers b'"
proof -
  have b': "sb_consumers b' = sb_consumers b @ [c]" "sb_stage_index b' = sb_stage_index b"
    and compat: "\<forall>d\<in>set (sb_consumers b). ci_stage_index d = sb_stage_index b \<longrightarrow> ci_access d = a"
    using assms(2) by (auto simp: push_consumer_def assert_access_compatible_def list_all_iff split: if_splits)
  have img: "ci_stage_index ` set (sb_consumers b) = built_stages t (sb_stage_index b)"
    using assms(1) by (simp add: builder_ok_def)
  have sub: "built_stages t n \<subseteq> {..n}" for n by (cases t) auto
  have le: "\<forall>d\<in>set (sb_consumers b). ci_stage_index d \<le> sb_stage_index b"
    using img sub [of "sb_stage_index b"] by blast
  have all: "insert n (built_stages t n) = {..n}" for n by (cases t) auto
  have "sorted (map ci_stage_index (sb_consumers b'))"
    using assms(1,3) sub [of "sb_stage_index b"] by (auto simp: builder_ok_def b' sorted_append)
  moreover have "ci_stage_index ` set (sb_consumers b') = built_stages HasConsumers (sb_stage_index b')"
    using assms(3) img all by (simp add: b')
  moreover have "one_access (sb_consumers b)" using assms(1) by (simp add: builder_ok_def)
  then have "one_access (sb_consumers b')"
    using assms(3,4) compat unfolding one_access_def b' by (metis Un_iff empty_iff empty_set insert_iff list.set(2) set_append)
  moreover have "own_access (sb_consumers b')"
    using assms(1,4,5) by (auto simp: builder_ok_def own_access_def b')
  ultimately show ?thesis by (simp add: builder_ok_def)
qed

lemma apply_call_ok:
  assumes "builder_ok t b" and "typed_call t x = Some t'" and "apply_call x b = Some b'"
  shows "builder_ok t' b'"
proof -
  let ?b = "b\<lparr>sb_thread_name := None, sb_cpu_affinity := None\<rparr>"
  have ok: "builder_ok t ?b" using assms(1) by (simp add: builder_ok_def)
  note add = push_consumer_ok [OF ok]
  have built: "built_stages Dependent (Suc n) = built_stages HasConsumers n" for n by auto
  show ?thesis
  proof (cases x)
    case AndThen
    with assms show ?thesis
      by (auto simp: advance_stage_def builder_ok_def built simp del: built_stages.simps split: if_splits)
  next
    case (FanOutEventsWith f)
    with assms(2,3) show ?thesis
      by (auto simp: add_fanout_def take_thread_meta_def consumer_info_readonly_def intro: add)
  next
    case (HandleEventsWith f)
    with assms(2,3) show ?thesis
      by (auto simp: add_mut_closure_def take_thread_meta_def consumer_info_mutable_def intro: add split: if_splits)
  next
    case (HandleEventsWithHandler h)
    with assms(2,3) show ?thesis
      by (auto simp: add_mut_handler_def take_thread_meta_def consumer_info_mutable_def intro: add split: if_splits)
  next
    case (AlsoPartitionWith f)
    with assms(2,3) show ?thesis
      by (auto simp: add_mut_closure_def take_thread_meta_def consumer_info_mutable_def intro: add split: if_splits)
  next
    case (AlsoPartitionWithHandler h)
    with assms(2,3) show ?thesis
      by (auto simp: add_mut_handler_def take_thread_meta_def consumer_info_mutable_def intro: add split: if_splits)
  qed (use assms in \<open>auto simp: builder_ok_def pin_at_core_def set_thread_name_def with_slot_padding_def
      with_cache_line_padding_def\<close>)
qed

lemma apply_chain_ok:
  "builder_ok t b \<Longrightarrow> typed_chain t xs = Some t' \<Longrightarrow> apply_chain xs b = Some b' \<Longrightarrow> builder_ok t' b'"
  by (induction xs arbitrary: t b) (auto simp: bind_eq_Some_conv dest: apply_call_ok)

lemma apply_call_config:
  "apply_call x b = Some b' \<Longrightarrow> sb_size b' = sb_size b \<and> sb_wait_strategy b' = sb_wait_strategy b"
  by (cases x) (auto simp: pin_at_core_def set_thread_name_def with_slot_padding_def with_cache_line_padding_def
      add_mut_closure_def add_mut_handler_def add_fanout_def advance_stage_def take_thread_meta_def push_consumer_def
      split: if_splits)

lemma apply_chain_config:
  "apply_chain xs b = Some b' \<Longrightarrow> sb_size b' = sb_size b \<and> sb_wait_strategy b' = sb_wait_strategy b"
  by (induction xs arbitrary: b) (auto simp: bind_eq_Some_conv dest: apply_call_config)

section \<open>What the assembly makes of it\<close>

abbreviation sc_stage :: "('e, 'c) started_consumer \<Rightarrow> usize" where
  "sc_stage c \<equiv> ci_stage_index (sc_info c)"

definition stage_sequences :: "('e, 'c) started_consumer list \<Rightarrow> usize \<Rightarrow> seq_ref list" where
  "stage_sequences cs j = map sc_sequence (filter (\<lambda>c. sc_stage c = j) cs)"

text \<open>The sequences of the stage before.\<close>

fun upstream :: "('e, 'c) started_consumer list \<Rightarrow> usize \<Rightarrow> seq_ref list" where
  "upstream cs 0 = []"
| "upstream cs (Suc j) = stage_sequences cs j"

lemma stage_sequences_append [simp]:
  "stage_sequences (cs @ [c]) j = stage_sequences cs j @ (if sc_stage c = j then [sc_sequence c] else [])"
  by (simp add: stage_sequences_def)

lemma stage_deps_eq:
  assumes "j < n" and "\<And>i. i < j \<Longrightarrow> stage_sequences cs i \<noteq> []"
  shows "stage_deps j (map (stage_sequences cs) [0..<n]) = Some (upstream cs j)"
  using assms by (cases j) simp_all

lemma start_consumers_spec:
  assumes "sorted (map ci_stage_index (map sc_info started @ cs))" and "ci_stage_index ` set (map sc_info started @ cs) = {..<n}"
    and "length modes = n" and "\<forall>c\<in>set cs. ci_access c = Readonly \<longrightarrow> modes ! ci_stage_index c = Sequential"
    and "i = length started"
  shows "\<exists>rest. start_consumers alloc q ws modes i cs started (map (stage_sequences started) [0..<n]) =
      Some (started @ rest, map (stage_sequences (started @ rest)) [0..<n]) \<and> map sc_info rest = cs \<and>
    map sc_sequence rest = map alloc [i..<i + length cs] \<and>
    (\<forall>c\<in>set rest. sc_run_mode c = modes ! sc_stage c \<and>
       sc_barrier c = barrier_new (seq_get_cursor q) ws (upstream (started @ rest) (sc_stage c)) q)"
  using assms
proof (induction cs arbitrary: started i)
  case Nil
  then show ?case by (intro exI [of _ "[]"]) simp
next
  case (Cons c cs)
  let ?s = "ci_stage_index c"
  have lt: "?s < n" using Cons.prems(2) by force
  have before: "stage_sequences started j \<noteq> []" if "j < ?s" for j
  proof -
    have "j \<in> ci_stage_index ` set (map sc_info started @ c # cs)" unfolding Cons.prems(2) using that lt by simp
    moreover have "j \<notin> ci_stage_index ` set (c # cs)" using Cons.prems(1) that by (auto simp: sorted_append)
    ultimately show ?thesis by (auto simp: stage_sequences_def filter_empty_conv)
  qed
  define d where "d = \<lparr>sc_sequence = alloc i, sc_barrier = barrier_new (seq_get_cursor q) ws (upstream started ?s) q,
    sc_info = c, sc_run_mode = modes ! ?s\<rparr>"
  have stg: "(map (stage_sequences started) [0..<n])[?s := stage_sequences started ?s @ [alloc i]] =
      map (stage_sequences (started @ [d])) [0..<n]"
    using lt by (intro nth_equalityI) (auto simp: d_def nth_list_update)
  have step: "start_consumers alloc q ws modes i (c # cs) started (map (stage_sequences started) [0..<n]) =
      start_consumers alloc q ws modes (Suc i) cs (started @ [d]) (map (stage_sequences (started @ [d])) [0..<n])"
    using stage_deps_eq [OF lt before] lt Cons.prems(3,4) stg
    by (auto simp: Let_def d_def)
  have prems: "sorted (map ci_stage_index (map sc_info (started @ [d]) @ cs))"
    "ci_stage_index ` set (map sc_info (started @ [d]) @ cs) = {..<n}"
    "\<forall>c\<in>set cs. ci_access c = Readonly \<longrightarrow> modes ! ci_stage_index c = Sequential" "Suc i = length (started @ [d])"
    using Cons.prems by (simp_all add: d_def)
  from Cons.IH [OF prems(1,2) Cons.prems(3) prems(3,4)] obtain rest where
    r: "start_consumers alloc q ws modes (Suc i) cs (started @ [d]) (map (stage_sequences (started @ [d])) [0..<n]) =
        Some ((started @ [d]) @ rest, map (stage_sequences ((started @ [d]) @ rest)) [0..<n])"
      "map sc_info rest = cs" "map sc_sequence rest = map alloc [Suc i..<Suc i + length cs]"
      "\<forall>c\<in>set rest. sc_run_mode c = modes ! sc_stage c \<and>
         sc_barrier c = barrier_new (seq_get_cursor q) ws (upstream ((started @ [d]) @ rest) (sc_stage c)) q"
    by blast
  have later: "?s \<le> sc_stage x" if "x \<in> set (d # rest)" for x
    using that Cons.prems(1) r(2) by (auto simp: d_def sorted_append)
  have "upstream (started @ d # rest) ?s = upstream started ?s"
  proof (cases ?s)
    case (Suc j)
    have "filter (\<lambda>c. sc_stage c = j) (d # rest) = []"
      unfolding filter_empty_conv using later Suc by (metis Suc_n_not_le_n)
    then have "stage_sequences (started @ d # rest) j = stage_sequences started j"
      unfolding stage_sequences_def filter_append by simp
    with Suc show ?thesis by simp
  qed simp
  then have head: "sc_run_mode d = modes ! sc_stage d \<and>
      sc_barrier d = barrier_new (seq_get_cursor q) ws (upstream (started @ d # rest) (sc_stage d)) q"
    by (simp add: d_def)
  have seqs: "map sc_sequence (d # rest) = map alloc [i..<i + length (c # cs)]"
  proof -
    have "[i..<i + length (c # cs)] = i # [Suc i..<Suc i + length cs]" by (simp add: upt_conv_Cons del: upt_Suc)
    then show ?thesis using r(3) by (simp add: d_def del: upt_Suc)
  qed
  show ?case
    using step r(1,2,4) head seqs by (intro exI [of _ "d # rest"]) (simp add: d_def)
qed

lemma count_consumer_pair:
  "count_consumer c (w, a) = (w[ci_stage_index c := Suc (w ! ci_stage_index c)], a[ci_stage_index c := ci_access c])"
  by (simp add: count_consumer_def)

lemma fold_count:
  assumes "fold count_consumer cs (w, a) = (w', a')" and "\<forall>c\<in>set cs. ci_stage_index c < n"
    and "length w = n" and "length a = n" and "j < n"
  shows "length w' = n \<and> length a' = n \<and> w' ! j = w ! j + length (filter (\<lambda>c. ci_stage_index c = j) cs) \<and>
    (if \<exists>c\<in>set cs. ci_stage_index c = j then \<exists>c\<in>set cs. ci_stage_index c = j \<and> a' ! j = ci_access c else a' ! j = a ! j)"
  using assms
proof (induction cs arbitrary: w a)
  case (Cons c cs)
  let ?w = "w[ci_stage_index c := Suc (w ! ci_stage_index c)]" and ?a = "a[ci_stage_index c := ci_access c]"
  have "fold count_consumer cs (?w, ?a) = (w', a')" using Cons.prems(1) by (simp add: count_consumer_pair)
  from Cons.IH [OF this] Cons.prems have
    ih: "length w' = n" "length a' = n" "w' ! j = ?w ! j + length (filter (\<lambda>c. ci_stage_index c = j) cs)"
      "if \<exists>c\<in>set cs. ci_stage_index c = j then \<exists>c\<in>set cs. ci_stage_index c = j \<and> a' ! j = ci_access c else a' ! j = ?a ! j"
    by simp_all
  then show ?case using Cons.prems(3-5) by (auto simp: nth_list_update split: if_splits)
qed auto

lemma stage_run_modes_spec:
  assumes "\<forall>c\<in>set cs. ci_stage_index c < n" and "0 < n" and "one_access cs"
  shows "\<exists>modes. stage_run_modes cs n = Some modes \<and> length modes = n \<and>
    (\<forall>c\<in>set cs. modes ! ci_stage_index c =
       (if ci_access c = Mutable \<and> 1 < length (filter (\<lambda>d. ci_stage_index d = ci_stage_index c) cs)
        then WorkPool new_work_sequence else Sequential))"
proof -
  obtain w a where wa: "fold count_consumer cs (replicate n 0, replicate n Mutable) = (w, a)" by fastforce
  define modes where "modes = map2 (\<lambda>width acc. if width > 1 \<and> acc = Mutable then WorkPool new_work_sequence else Sequential) w a"
  have run: "stage_run_modes cs n = Some modes"
    using assms(1,2) wa by (simp add: stage_run_modes_def modes_def list_all_iff)
  note spec = fold_count [OF wa assms(1)]
  have len: "length w = n" "length a = n" using spec [of 0] assms(2) by simp_all
  have "modes ! ci_stage_index c =
      (if ci_access c = Mutable \<and> 1 < length (filter (\<lambda>d. ci_stage_index d = ci_stage_index c) cs)
       then WorkPool new_work_sequence else Sequential)" if c: "c \<in> set cs" for c
  proof -
    let ?j = "ci_stage_index c"
    have j: "?j < n" using assms(1) c by blast
    from spec [OF _ _ j] j have w: "w ! ?j = length (filter (\<lambda>d. ci_stage_index d = ?j) cs)"
      and "\<exists>d\<in>set cs. ci_stage_index d = ?j \<and> a ! ?j = ci_access d"
      using c by (auto split: if_splits)
    then obtain d where d: "d \<in> set cs" "ci_stage_index d = ?j" "a ! ?j = ci_access d" by blast
    with assms(3) c have "a ! ?j = ci_access c" unfolding one_access_def by metis
    with w j len show ?thesis by (simp add: modes_def)
  qed
  with run len show ?thesis by (auto simp: modes_def)
qed

text \<open>The shape of an assembled pipeline.\<close>

definition topology_ok :: "(nat \<Rightarrow> seq_ref) \<Rightarrow> ('e, 'c) consumer_info list \<Rightarrow> ('e, 'c) disruptor_core \<Rightarrow> bool" where
  "topology_ok alloc infos core \<longleftrightarrow>
     map sc_info (dc_consumers core) = infos \<and>
     map sc_sequence (dc_consumers core) = map (\<lambda>i. alloc (Suc i)) [0..<length infos] \<and>
     (\<forall>c\<in>set (dc_consumers core).
        bar_deps (sc_barrier c) = upstream (dc_consumers core) (sc_stage c) \<and>
        (sc_stage c \<noteq> 0 \<longrightarrow> bar_deps (sc_barrier c) \<noteq> []) \<and>
        sc_run_mode c = (if ci_access (sc_info c) = Mutable \<and> 1 < length (stage_sequences (dc_consumers core) (sc_stage c))
          then WorkPool new_work_sequence else Sequential)) \<and>
     (\<exists>m. sc_stage ` set (dc_consumers core) = {..m} \<and> dc_gating core = stage_sequences (dc_consumers core) m)"

lemma create_core_spec:
  assumes b: "sorted (map ci_stage_index cs)" "ci_stage_index ` set cs = {..m}" "one_access cs"
    and q: "(if multi then map_option MultiSeq (mp_new n ws (alloc 0) h) else map_option SingleSeq (sp_new_unique n ws (alloc 0) h)) = Some q0"
    and ring: "new_with_padding n factory padding = Ok ring"
  shows "\<exists>core. create_disruptor_core rcu alloc h n factory ws cs multi padding = Some core \<and> topology_ok alloc cs core \<and>
    dc_ring_buffer core = ring \<and> dc_unique core = (\<not> multi) \<and> \<not> dc_shutdown core"
proof -
  let ?N = "Suc m"
  have ne: "cs \<noteq> []" using b(2) by auto
  have "Max (set (map ci_stage_index cs)) = m" using b(2) by (simp add: Max_eq_iff)
  then have count: "(if cs = [] then 0 else Suc (Max (set (map ci_stage_index cs)))) = ?N" using ne by simp
  have lt: "\<forall>c\<in>set cs. ci_stage_index c < ?N" using b(2) by (auto simp: less_Suc_eq_le)
  from stage_run_modes_spec [OF lt _ b(3)] obtain modes where
    modes: "stage_run_modes cs ?N = Some modes" "length modes = ?N"
      "\<forall>c\<in>set cs. modes ! ci_stage_index c = (if ci_access c = Mutable \<and> 1 < length (filter (\<lambda>d. ci_stage_index d = ci_stage_index c) cs)
         then WorkPool new_work_sequence else Sequential)" by auto
  define q where "q = seq_on_mem (fold (\<lambda>i. seq_new INITIAL_CURSOR_VALUE (alloc (Suc i))) [0..<length cs]) q0"
  have empty: "replicate ?N [] = map (stage_sequences []) [0..<?N]"
    by (intro nth_equalityI) (simp_all add: stage_sequences_def del: upt_Suc replicate.simps)
  have "sorted (map ci_stage_index (map sc_info [] @ cs))" "ci_stage_index ` set (map sc_info [] @ cs) = {..<?N}"
    "\<forall>c\<in>set cs. ci_access c = Readonly \<longrightarrow> modes ! ci_stage_index c = Sequential" "0 = length []"
    using b(1,2) modes(3) by (auto simp: less_Suc_eq_le)
  from start_consumers_spec [OF this(1,2) modes(2) this(3,4), where alloc = "\<lambda>i. alloc (Suc i)" and q = q and ws = ws]
  obtain started where
    st: "start_consumers (\<lambda>i. alloc (Suc i)) q ws modes 0 cs [] (replicate ?N []) =
        Some (started, map (stage_sequences started) [0..<?N])" "map sc_info started = cs"
      "map sc_sequence started = map (\<lambda>i. alloc (Suc i)) [0..<length cs]"
      "\<forall>c\<in>set started. sc_run_mode c = modes ! sc_stage c \<and>
         sc_barrier c = barrier_new (seq_get_cursor q) ws (upstream started (sc_stage c)) q"
    unfolding append_Nil empty [symmetric] add_0 by blast
  define core where "core = \<lparr>dc_ring_buffer = ring,
      dc_sequencer = (if stage_sequences started m = [] then q else seq_add_gating_sequences rcu (stage_sequences started m) q),
      dc_unique = (\<not> multi), dc_consumers = started, dc_shutdown = False, dc_gating = stage_sequences started m\<rparr>"
  have run: "create_disruptor_core rcu alloc h n factory ws cs multi padding = Some core"
    unfolding create_disruptor_core_def ring sum.case q option.case count Let_def q_def [symmetric] modes(1) st(1) prod.case
    by (simp add: core_def last_map)
  have "sc_stage ` set started = ci_stage_index ` set (map sc_info started)" by (simp add: image_image)
  then have img: "sc_stage ` set started = {..m}" unfolding st(2) b(2) .
  have width: "length (stage_sequences started j) = length (filter (\<lambda>d. ci_stage_index d = j) cs)" for j
    unfolding stage_sequences_def st(2) [symmetric] by (simp add: filter_map comp_def)
  have some: "upstream started (sc_stage c) \<noteq> []" if c: "c \<in> set started" "sc_stage c \<noteq> 0" for c
  proof -
    obtain j where j: "sc_stage c = Suc j" using c(2) by (cases "sc_stage c") auto
    have "Suc j \<in> sc_stage ` set started" using c(1) j by (metis image_eqI)
    then have "j \<in> sc_stage ` set started" unfolding img by simp
    with j show ?thesis by (auto simp: stage_sequences_def filter_empty_conv)
  qed
  have "topology_ok alloc cs core"
    unfolding topology_ok_def using st(2,3,4) img some modes(3) width
    by (auto simp: core_def barrier_new_def)
  with run show ?thesis by (auto simp: core_def)
qed

section \<open>Properties\<close>

lemma constructors_total:
  assumes "new_with_padding n factory padding = Ok ring"
  shows "\<exists>q. (if multi then map_option MultiSeq (mp_new n ws r h) else map_option SingleSeq (sp_new_unique n ws r h)) = Some q"
  using assms
  by (auto simp: new_with_padding_def mp_new_def sp_new_unique_def sp_new_def i64_try_from_def split: if_splits option.splits)

lemma typed_chain_builder:
  assumes "typed_chain NoConsumers calls = Some HasConsumers" and "apply_chain calls (builder_new n ws) = Some b"
  shows "sorted (map ci_stage_index (sb_consumers b))" "ci_stage_index ` set (sb_consumers b) = {..sb_stage_index b}"
    "one_access (sb_consumers b)" "sb_size b = n"
proof -
  have "builder_ok NoConsumers (builder_new n ws)" by (simp add: builder_ok_def builder_new_def one_access_def own_access_def)
  from apply_chain_ok [OF this assms] show "sorted (map ci_stage_index (sb_consumers b))"
    "ci_stage_index ` set (sb_consumers b) = {..sb_stage_index b}" "one_access (sb_consumers b)" by (simp_all add: builder_ok_def)
  show "sb_size b = n" using apply_chain_config [OF assms(2)] by (simp add: builder_new_def)
qed

lemma typed_build_topology:
  assumes "typed_chain NoConsumers calls = Some HasConsumers" and "apply_chain calls (builder_new n ws) = Some b"
    and "build rcu alloc h factory multi b = Some core"
  shows "topology_ok alloc (sb_consumers b) core"
proof -
  note b = typed_chain_builder [OF assms(1,2)]
  from assms(3) obtain ring where ring: "new_with_padding n factory (sb_slot_padding b) = Ok ring"
    unfolding build_def create_disruptor_core_def b(4) by (auto split: sum.splits)
  from constructors_total [OF ring] obtain q0 where
    "(if multi then map_option MultiSeq (mp_new n (sb_wait_strategy b) (alloc 0) h)
      else map_option SingleSeq (sp_new_unique n (sb_wait_strategy b) (alloc 0) h)) = Some q0" by blast
  from create_core_spec [where alloc = alloc and rcu = rcu, OF b(1-3) this ring] assms(3) show ?thesis
    unfolding build_def b(4) by auto
qed


text \<open>Two partitioned handlers, then a read-only observer.\<close>

definition example_calls :: "(nat, nat) builder_call list" where
  "example_calls =
     [ThreadName ''w'', HandleEventsWith (\<lambda>e s b c. (True, e + 1, c)), AlsoPartitionWith (\<lambda>e s b c. (True, e + 2, c)),
      AndThen, FanOutEventsWith (\<lambda>e s b c. (True, c))]"


end
