(* ===== verification/Topology.thy ===== *)
theory Topology
  imports Builder
begin

text \<open>
  Backpressure through a pipeline. The producers of a built pipeline are gated by the consumers of its
  last stage only (\<open>create_disruptor_core\<close>); the stages before are held back by the barriers. The
  positions of the consumers of an assembled core move one step at a time: a claim of a producer within
  the gating sequences, a batch of a sequential consumer up to what its barrier has released, or a move
  of a worker that leaves the slowest worker of its pool behind the stage before.
\<close>

record topo =
  tp_cursor :: i64
  tp_pos :: "seq_ref \<Rightarrow> i64"

definition stage_of :: "('e, 'c) disruptor_core \<Rightarrow> usize \<Rightarrow> ('e, 'c) started_consumer set" where
  "stage_of core j = {c \<in> set (dc_consumers core). sc_stage c = j}"

definition released :: "barrier \<Rightarrow> topo \<Rightarrow> i64 \<Rightarrow> bool" where
  "released b w v \<longleftrightarrow> (if bar_deps b = [] then v \<le> tp_cursor w else \<forall>d\<in>set (bar_deps b). v \<le> tp_pos w d)"

inductive topo_step :: "('e, 'c) disruptor_core \<Rightarrow> int \<Rightarrow> topo \<Rightarrow> topo \<Rightarrow> bool" for core N where
  claim: "0 < n \<Longrightarrow> \<forall>g\<in>set (dc_gating core). tp_cursor w + n \<le> tp_pos w g + N \<Longrightarrow>
    topo_step core N w (w\<lparr>tp_cursor := tp_cursor w + n\<rparr>)"
| batch: "c \<in> set (dc_consumers core) \<Longrightarrow> sc_run_mode c = Sequential \<Longrightarrow> tp_pos w (sc_sequence c) \<le> v \<Longrightarrow>
    released (sc_barrier c) w v \<Longrightarrow>
    topo_step core N w (w\<lparr>tp_pos := (tp_pos w)(sc_sequence c := v)\<rparr>)"
| work: "c \<in> set (dc_consumers core) \<Longrightarrow> sc_run_mode c \<noteq> Sequential \<Longrightarrow> tp_pos w (sc_sequence c) \<le> v \<Longrightarrow>
    \<exists>x\<in>stage_of core (sc_stage c). released (sc_barrier c) w (((tp_pos w)(sc_sequence c := v)) (sc_sequence x)) \<Longrightarrow>
    topo_step core N w (w\<lparr>tp_pos := (tp_pos w)(sc_sequence c := v)\<rparr>)"

text \<open>Every stage has a consumer that has not passed what the stage's barriers release.\<close>

definition topo_inv :: "('e, 'c) disruptor_core \<Rightarrow> int \<Rightarrow> topo \<Rightarrow> bool" where
  "topo_inv core N w \<longleftrightarrow>
     (\<forall>g\<in>set (dc_gating core). tp_cursor w \<le> tp_pos w g + N) \<and>
     (\<forall>c\<in>set (dc_consumers core). \<exists>x\<in>stage_of core (sc_stage c). released (sc_barrier c) w (tp_pos w (sc_sequence x))) \<and>
     (\<forall>c\<in>set (dc_consumers core). sc_run_mode c = Sequential \<longrightarrow> released (sc_barrier c) w (tp_pos w (sc_sequence c)))"

definition topo_init :: topo where
  "topo_init = \<lparr>tp_cursor = - 1, tp_pos = \<lambda>_. - 1\<rparr>"

lemma topo_init_inv: "0 \<le> N \<Longrightarrow> topo_inv core N topo_init"
  by (auto simp: topo_inv_def topo_init_def released_def stage_of_def)

lemma released_mono:
  assumes "released b w x" and "y \<le> x" and "tp_cursor w \<le> tp_cursor w'" and "\<And>r. tp_pos w r \<le> tp_pos w' r"
  shows "released b w' y"
proof (cases "bar_deps b = []")
  case True
  with assms show ?thesis by (simp add: released_def)
next
  case False
  have "y \<le> tp_pos w' d" if "d \<in> set (bar_deps b)" for d
    using assms(1,2) assms(4) [of d] that False by (force simp: released_def)
  with False show ?thesis by (simp add: released_def)
qed

text \<open>The topology the builder guarantees, as far as it is needed here.\<close>

lemma topology_okD:
  assumes "topology_ok alloc infos core" and "inj alloc"
  shows "c \<in> set (dc_consumers core) \<Longrightarrow> d \<in> set (dc_consumers core) \<Longrightarrow> sc_sequence c = sc_sequence d \<Longrightarrow> c = d"
    and "c \<in> set (dc_consumers core) \<Longrightarrow> d \<in> set (dc_consumers core) \<Longrightarrow> sc_stage c = sc_stage d \<Longrightarrow>
      bar_deps (sc_barrier c) = bar_deps (sc_barrier d)"
    and "c \<in> set (dc_consumers core) \<Longrightarrow> d \<in> stage_of core j \<Longrightarrow> sc_stage c = Suc j \<Longrightarrow>
      sc_sequence d \<in> set (bar_deps (sc_barrier c))"
    and "\<exists>m. sc_stage ` set (dc_consumers core) = {..m} \<and> set (dc_gating core) = sc_sequence ` stage_of core m"
proof -
  note T = assms(1) [unfolded topology_ok_def]
  have "inj_on (\<lambda>i. alloc (Suc i)) S" for S using assms(2) by (auto simp: inj_on_def inj_def)
  then have "distinct (map sc_sequence (dc_consumers core))" using T by (simp add: distinct_map)
  then show "c \<in> set (dc_consumers core) \<Longrightarrow> d \<in> set (dc_consumers core) \<Longrightarrow> sc_sequence c = sc_sequence d \<Longrightarrow> c = d"
    by (simp add: distinct_map inj_on_def)
  have deps: "bar_deps (sc_barrier c) = upstream (dc_consumers core) (sc_stage c)" if "c \<in> set (dc_consumers core)" for c
    using T that by blast
  show "c \<in> set (dc_consumers core) \<Longrightarrow> d \<in> set (dc_consumers core) \<Longrightarrow> sc_stage c = sc_stage d \<Longrightarrow>
      bar_deps (sc_barrier c) = bar_deps (sc_barrier d)" by (simp add: deps)
  show "c \<in> set (dc_consumers core) \<Longrightarrow> d \<in> stage_of core j \<Longrightarrow> sc_stage c = Suc j \<Longrightarrow>
      sc_sequence d \<in> set (bar_deps (sc_barrier c))" by (simp add: deps stage_sequences_def stage_of_def)
  show "\<exists>m. sc_stage ` set (dc_consumers core) = {..m} \<and> set (dc_gating core) = sc_sequence ` stage_of core m"
    using T by (auto simp: stage_sequences_def stage_of_def)
qed

lemma released_same:
  assumes "bar_deps b = bar_deps b'"
  shows "released b = released b'"
  using assms by (simp add: released_def fun_eq_iff)

lemma topo_move_inv:
  assumes T: "topology_ok alloc infos core" "inj alloc" and inv: "topo_inv core N w"
    and c: "c \<in> set (dc_consumers core)" "tp_pos w (sc_sequence c) \<le> v"
    and slow: "\<exists>x\<in>stage_of core (sc_stage c). released (sc_barrier c) w (((tp_pos w)(sc_sequence c := v)) (sc_sequence x))"
    and own: "sc_run_mode c = Sequential \<longrightarrow> released (sc_barrier c) w v"
  shows "topo_inv core N (w\<lparr>tp_pos := (tp_pos w)(sc_sequence c := v)\<rparr>)"
proof -
  let ?w = "w\<lparr>tp_pos := (tp_pos w)(sc_sequence c := v)\<rparr>"
  note t = topology_okD [OF T]
  have mono: "tp_pos w r \<le> tp_pos ?w r" for r using c(2) by simp
  have up: "released b ?w y" if "released b w y" for b y
    by (rule released_mono [OF that]) (use mono in auto)
  have "\<exists>x\<in>stage_of core (sc_stage d). released (sc_barrier d) ?w (tp_pos ?w (sc_sequence x))"
    if d: "d \<in> set (dc_consumers core)" for d
  proof (cases "sc_stage d = sc_stage c")
    case True
    have same: "released (sc_barrier d) = released (sc_barrier c)" using released_same t(2) [OF d c(1) True] by blast
    from slow obtain x where x: "x \<in> stage_of core (sc_stage c)"
      "released (sc_barrier c) w (((tp_pos w)(sc_sequence c := v)) (sc_sequence x))" by blast
    from up [OF x(2)] show ?thesis unfolding same True by (intro bexI [OF _ x(1)]) simp
  next
    case False
    from inv d obtain x where x: "x \<in> stage_of core (sc_stage d)" "released (sc_barrier d) w (tp_pos w (sc_sequence x))"
      unfolding topo_inv_def by blast
    have "sc_sequence x \<noteq> sc_sequence c" using t(1) [of x c] x(1) c(1) False by (auto simp: stage_of_def)
    with x up show ?thesis by (intro bexI [of _ x]) simp_all
  qed
  moreover have "released (sc_barrier d) ?w (tp_pos ?w (sc_sequence d))"
    if d: "d \<in> set (dc_consumers core)" "sc_run_mode d = Sequential" for d
  proof (cases "sc_sequence d = sc_sequence c")
    case True
    then have "d = c" using t(1) d(1) c(1) by blast
    with own d up show ?thesis by simp
  next
    case False
    from inv d have "released (sc_barrier d) w (tp_pos w (sc_sequence d))" unfolding topo_inv_def by blast
    with up False show ?thesis by simp
  qed
  moreover have "tp_cursor ?w \<le> tp_pos ?w g + N" if "g \<in> set (dc_gating core)" for g
  proof -
    have "tp_cursor w \<le> tp_pos w g + N" using inv that by (simp add: topo_inv_def)
    with mono [of g] show ?thesis by simp
  qed
  ultimately show ?thesis unfolding topo_inv_def by blast
qed

lemma topo_step_inv:
  assumes T: "topology_ok alloc infos core" "inj alloc" and "topo_step core N w w'" and inv: "topo_inv core N w"
  shows "topo_inv core N w'"
  using assms(3)
proof cases
  case (claim n)
  have "released b w' y" if "released b w y" for b y
    by (rule released_mono [OF that]) (use claim in auto)
  with inv claim show ?thesis unfolding topo_inv_def by fastforce
next
  case (batch c v)
  have "\<exists>x\<in>stage_of core (sc_stage c). released (sc_barrier c) w (((tp_pos w)(sc_sequence c := v)) (sc_sequence x))"
    using batch(2,5) by (intro bexI [of _ c]) (simp_all add: stage_of_def)
  with batch topo_move_inv [OF T inv batch(2,4)] show ?thesis by simp
next
  case (work c v)
  with topo_move_inv [OF T inv work(2,4,5)] show ?thesis by simp
qed

text \<open>A consumer of the last stage is behind everybody.\<close>

lemma last_stage_behind:
  assumes T: "topology_ok alloc infos core" "inj alloc" and inv: "topo_inv core N w"
    and m: "sc_stage ` set (dc_consumers core) = {..m}" and "j + k = m" and d: "d \<in> stage_of core j"
  shows "\<exists>x\<in>stage_of core m. tp_pos w (sc_sequence x) \<le> tp_pos w (sc_sequence d)"
  using assms(5,6)
proof (induction k arbitrary: j d)
  case 0
  then show ?case by auto
next
  case (Suc k)
  have "Suc j \<in> sc_stage ` set (dc_consumers core)" unfolding m using Suc.prems(1) by simp
  then obtain c where c: "c \<in> set (dc_consumers core)" "sc_stage c = Suc j" by force
  from inv c(1) obtain x where x: "x \<in> stage_of core (Suc j)" "released (sc_barrier c) w (tp_pos w (sc_sequence x))"
    unfolding topo_inv_def c(2) [symmetric] by blast
  have "sc_sequence d \<in> set (bar_deps (sc_barrier c))" using topology_okD(3) [OF T c(1) Suc.prems(2) c(2)] .
  then have "tp_pos w (sc_sequence x) \<le> tp_pos w (sc_sequence d)" using x(2) by (auto simp: released_def split: if_splits)
  moreover obtain y where "y \<in> stage_of core m" "tp_pos w (sc_sequence y) \<le> tp_pos w (sc_sequence x)"
    using Suc.IH [of "Suc j" x] Suc.prems(1) x(1) by auto
  ultimately show ?case by (meson order_trans)
qed



end
