(* ===== verification/Consumer_Threads.thy ===== *)
theory Consumer_Threads
  imports Builder Event_Processor
begin

text \<open>
  What a consumer thread of a built pipeline runs (\<open>builder/consumer.rs\<close>): the affinity call, the
  handler's lifecycle around the loop its stage runs, and the panic guard that poisons the producers.
  The \<open>core_affinity\<close> crate is a parameter: the number of cores it reports and whether it can pin.
  Other threads act on the world before the steps of the body (\<open>te_world\<close>), during the loop
  (\<open>te_loop\<close>, \<open>te_pool\<close>) and on the work sequence of the pool, whose value at the start of the loop is
  \<open>te_work\<close>.
\<close>

section \<open>Affinity\<close>

definition set_thread_affinity :: "usize option \<Rightarrow> (usize \<Rightarrow> bool) \<Rightarrow> usize \<Rightarrow> string + unit" where
  "set_thread_affinity core_ids set_for_current core_id =
     (case core_ids of
        None \<Rightarrow> Inl ''Failed to get available CPU cores''
      | Some n \<Rightarrow>
          if core_id \<ge> n
          then Inl (''Invalid core ID: '' @ show_nat core_id @ ''. Available cores: 0-'' @
                    show_nat ((n + 2 ^ 64 - 1) mod 2 ^ 64))
          else if set_for_current core_id then Inr ()
          else Inl (''Failed to set CPU affinity to core '' @ show_nat core_id))"

definition lifecycle_failure :: "failure_phase \<Rightarrow> string \<Rightarrow> string \<Rightarrow> usize \<Rightarrow> failure_record" where
  "lifecycle_failure p msg thread stage =
     with_stage_index stage (with_thread_name thread (failure_record_new p msg))"

section \<open>The thread bodies\<close>

record 'e thread_env =
  te_world :: "nat \<Rightarrow> bar_world \<Rightarrow> bar_world"
  te_loop :: "'e co_env"
  te_pool :: "nat \<Rightarrow> 'e pool \<Rightarrow> 'e pool \<times> i64 result option"
  te_work :: i64

definition at_world :: "(bar_world \<Rightarrow> bar_world) \<Rightarrow> ('e, 'h) consumer \<Rightarrow> ('e, 'h) consumer" where
  "at_world f c = c\<lparr>co_world := f (co_world c)\<rparr>"

text \<open>The guard around a body: a panic poisons the producers and goes on.\<close>

definition guard_panic ::
    "'e thread_env \<Rightarrow> string \<Rightarrow> usize \<Rightarrow> panic_payload \<Rightarrow> (loop_exit \<times> ('e, 'h) consumer) option \<Rightarrow>
     (loop_exit \<times> ('e, 'h) consumer) option" where
  "guard_panic env thread stage payload r =
     (case r of
        Some (LoopPanicked, c) \<Rightarrow>
          Some (LoopPanicked, at_world (bw_fail
            (lifecycle_failure ConsumerPanic (panic_payload_message payload) thread stage)) (at_world (te_world env 2) c))
      | _ \<Rightarrow> r)"

definition pool_loop ::
    "nat \<Rightarrow> 'e thread_env \<Rightarrow> ('e, 'h) event_handler \<Rightarrow> seq_ref \<Rightarrow> consumer_context \<Rightarrow> ('e, 'h) consumer \<Rightarrow>
     (loop_exit \<times> ('e, 'h) consumer) option" where
  "pool_loop fuel env H own ctx c =
     map_option (\<lambda>(p, k).
         ((case wk_pc k of WPanicked _ \<Rightarrow> LoopPanicked | _ \<Rightarrow> LoopReturned),
          c\<lparr>co_world := pl_world p, co_ring := pl_ring p, co_handler := wk_handler k\<rparr>))
       (run_work_processor_loop_for_stage H (te_pool env) fuel own External ctx (co_handler c)
          \<lparr>pl_work = te_work env, pl_world = co_world c, pl_ring = co_ring c\<rparr>)"

definition mutable_body ::
    "parking \<Rightarrow> nat \<Rightarrow> 'e thread_env \<Rightarrow> ('e, 'h) lifecycle_handler \<Rightarrow> seq_ref \<Rightarrow> string \<Rightarrow> usize \<Rightarrow> run_mode \<Rightarrow>
     ('e, 'h) consumer \<Rightarrow> (loop_exit \<times> ('e, 'h) consumer) option" where
  "mutable_body pk fuel env H own thread stage mode c0 =
     (let c = at_world (te_world env 0) c0;
          (r, h) = on_start H (co_handler c);
          c = c\<lparr>co_handler := h\<rparr>
      in case r of
           None \<Rightarrow> Some (LoopPanicked, c)
         | Some (Inl e) \<Rightarrow>
             Some (LoopReturned, at_world (bw_fail (lifecycle_failure HandlerStart (error_to_string e) thread stage)) c)
         | Some (Inr _) \<Rightarrow>
             (case (case mode of
                      WorkPool _ \<Rightarrow> pool_loop fuel env (batch_handler H) own (for_stage thread stage) c
                    | Sequential \<Rightarrow> run_sequential_batch_loop_for_stage pk fuel (te_loop env) (batch_handler H) own
                        External (for_stage thread stage) c) of
                None \<Rightarrow> None
              | Some (LoopPanicked, c) \<Rightarrow> Some (LoopPanicked, c)
              | Some (LoopReturned, c1) \<Rightarrow>
                  let c = at_world (te_world env 1) c1;
                      (r, h) = on_shutdown H (co_handler c);
                      c = c\<lparr>co_handler := h\<rparr>
                  in Some (case r of
                       None \<Rightarrow> (LoopPanicked, c)
                     | Some (Inr _) \<Rightarrow> (LoopReturned, c)
                     | Some (Inl e) \<Rightarrow> (LoopReturned, at_world (bw_record
                         (lifecycle_failure HandlerShutdown (error_to_string e) thread stage)) c))))"

definition start_mutable_consumer ::
    "parking \<Rightarrow> nat \<Rightarrow> 'e thread_env \<Rightarrow> panic_payload \<Rightarrow> ('e, 'h) lifecycle_handler \<Rightarrow> seq_ref \<Rightarrow> string \<Rightarrow> usize \<Rightarrow>
     run_mode \<Rightarrow> ('e, 'h) consumer \<Rightarrow> (loop_exit \<times> ('e, 'h) consumer) option" where
  "start_mutable_consumer pk fuel env payload H own thread stage mode c =
     guard_panic env thread stage payload (mutable_body pk fuel env H own thread stage mode c)"

definition start_readonly_consumer ::
    "parking \<Rightarrow> nat \<Rightarrow> 'e thread_env \<Rightarrow> panic_payload \<Rightarrow> ('e, 'h) observer \<Rightarrow> seq_ref \<Rightarrow> string \<Rightarrow> usize \<Rightarrow>
     ('e, 'h) consumer \<Rightarrow> (loop_exit \<times> ('e, 'h) consumer) option" where
  "start_readonly_consumer pk fuel env payload F own thread stage c =
     guard_panic env thread stage payload
       (run_sequential_readonly_loop_for_stage pk fuel (te_loop env) F own External (for_stage thread stage)
          (at_world (te_world env 0) c))"

definition start_consumer_thread ::
    "usize option \<Rightarrow> (usize \<Rightarrow> bool) \<Rightarrow> usize option \<Rightarrow> string \<Rightarrow> usize \<Rightarrow>
     (('e, 'h) consumer \<Rightarrow> (loop_exit \<times> ('e, 'h) consumer) option) \<Rightarrow> ('e, 'h) consumer \<Rightarrow>
     (loop_exit \<times> ('e, 'h) consumer) option" where
  "start_consumer_thread core_ids set_for_current cpu_affinity thread stage body c =
     (case cpu_affinity of
        None \<Rightarrow> body c
      | Some core_id \<Rightarrow>
          (case set_thread_affinity core_ids set_for_current core_id of
             Inr _ \<Rightarrow> body c
           | Inl err \<Rightarrow> Some (LoopReturned, at_world (bw_fail (lifecycle_failure ThreadAffinity
               (''failed to pin to CPU core '' @ show_nat core_id @ '': '' @ err) thread stage)) c)))"

text \<open>The thread of a started consumer, with the default names of the two kinds.\<close>

fun consumer_thread ::
    "usize option \<Rightarrow> (usize \<Rightarrow> bool) \<Rightarrow> parking \<Rightarrow> nat \<Rightarrow> 'e thread_env \<Rightarrow> panic_payload \<Rightarrow> ('e, 'c) started_consumer \<Rightarrow>
     ('e, 'c closure_state) consumer \<Rightarrow> (loop_exit \<times> ('e, 'c closure_state) consumer) option" where
  "consumer_thread core_ids set_for_current pk fuel env payload sc c =
     (let info = sc_info sc; own = sc_sequence sc; stage = ci_stage_index info in
      case ci_starter info of
        MutableStarter H \<Rightarrow>
          let thread = (case ci_thread_name info of Some n \<Rightarrow> n | None \<Rightarrow> ''disruptor-consumer'')
          in start_consumer_thread core_ids set_for_current (ci_cpu_affinity info) thread stage
               (start_mutable_consumer pk fuel env payload H own thread stage (sc_run_mode sc)) c
      | ReadonlyStarter F \<Rightarrow>
          let thread = (case ci_thread_name info of Some n \<Rightarrow> n | None \<Rightarrow> ''disruptor-fanout'')
          in start_consumer_thread core_ids set_for_current (ci_cpu_affinity info) thread stage
               (start_readonly_consumer pk fuel env payload F own thread stage) c)"

section \<open>Every thread is accountable\<close>

definition thread_env_ok :: "nat \<Rightarrow> seq_ref \<Rightarrow> 'e thread_env \<Rightarrow> bool" where
  "thread_env_ok k own env \<longleftrightarrow> consumer_env k own (te_loop env) \<and> (\<forall>n. quiet_on k own (te_world env n))"

definition fresh_consumer :: "nat \<Rightarrow> seq_ref \<Rightarrow> ('e, 'h) consumer \<Rightarrow> bool" where
  "fresh_consumer k own c \<longleftrightarrow> bw_inv k own (co_world c) \<and> ring_invar (co_ring c) \<and> co_trace c = []"

lemma loop_result_quiet:
  assumes "loop_result k own a (exit, c)" and "quiet_on k own f"
  shows "loop_result k own a (exit, at_world f c)"
proof -
  have "bw_inv k own (co_world c)" using assms(1) by (simp add: loop_result_def)
  with assms show ?thesis
    unfolding loop_result_def quiet_on_def at_world_def delivered_def bw_poisoned_def by auto
qed

lemma loop_result_handler [simp]: "loop_result k own a (exit, c\<lparr>co_handler := h\<rparr>) = loop_result k own a (exit, c)"
  by (simp add: loop_result_def delivered_def)

lemma loop_result_panicked: "loop_result k own a (exit, c) \<Longrightarrow> loop_result k own a (LoopPanicked, c)"
  by (auto simp: loop_result_def)

lemma fresh_consumer_at:
  assumes "fresh_consumer k own c" and "quiet_on k own f"
  shows "fresh_consumer k own (at_world f c)" "bw_store (co_world (at_world f c)) own = bw_store (co_world c) own"
  using assms by (simp_all add: fresh_consumer_def at_world_def quiet_on_def)

lemma fresh_result: "fresh_consumer k own c \<Longrightarrow> loop_result k own (bw_store (co_world c) own) (exit, c)"
  by (auto simp: fresh_consumer_def loop_result_def delivered_def trace_seqs_def)

lemma guard_panic_poisons:
  "guard_panic env thread stage payload r = Some (LoopPanicked, c) \<Longrightarrow> bw_poisoned (co_world c)"
  by (auto simp: guard_panic_def at_world_def split: option.splits loop_exit.splits)

lemma guard_panic_result:
  assumes "thread_env_ok k own env" and "guard_panic env thread stage payload r = Some (exit, c)"
    and "\<And>e d. r = Some (e, d) \<Longrightarrow> loop_result k own a (e, d)"
  shows "loop_result k own a (exit, c)"
proof (cases exit)
  case LoopReturned
  with assms show ?thesis by (auto simp: guard_panic_def split: option.splits loop_exit.splits)
next
  case LoopPanicked
  with assms(2) obtain d where d: "r = Some (LoopPanicked, d)"
    "c = at_world (bw_fail (lifecycle_failure ConsumerPanic (panic_payload_message payload) thread stage)) (at_world (te_world env 2) d)"
    by (auto simp: guard_panic_def split: option.splits loop_exit.splits)
  have "quiet_on k own (te_world env 2)" using assms(1) by (simp add: thread_env_ok_def)
  with assms(3) [OF d(1)] d(2) LoopPanicked show ?thesis by (auto intro!: loop_result_quiet quiet_on_steps)
qed

lemma sequential_mutable_result:
  assumes env: "thread_env_ok k own env" and c: "fresh_consumer k own c" "bw_store (co_world c) own = a"
    and run: "mutable_body pk fuel env H own thread stage Sequential c = Some (exit, c')"
  shows "loop_result k own a (exit, c')"
proof -
  have q: "quiet_on k own (te_world env n)" and ce: "consumer_env k own (te_loop env)" for n
    using env by (simp_all add: thread_env_ok_def)
  define c0 where "c0 = at_world (te_world env 0) c"
  obtain r h where st: "on_start H (co_handler c0) = (r, h)" by fastforce
  define c1 where "c1 = c0\<lparr>co_handler := h\<rparr>"
  have c1: "fresh_consumer k own c1" "bw_store (co_world c1) own = a"
    using fresh_consumer_at [OF c(1) q, of 0] c(2) by (simp_all add: c1_def c0_def fresh_consumer_def)
  note res1 = fresh_result [OF c1(1), unfolded c1(2)]
  note unfolded = run [unfolded mutable_body_def Let_def, folded c0_def, unfolded st prod.case, folded c1_def]
  show ?thesis
  proof (cases "\<exists>u. r = Some (Inr u)")
    case False
    then consider "r = None" | e where "r = Some (Inl e)" by (cases r) (auto split: sum.splits elim: sumE)
    then show ?thesis
    proof cases
      case 1
      with unfolded res1 show ?thesis by auto
    next
      case 2
      with unfolded res1 show ?thesis by (auto intro!: loop_result_quiet quiet_on_steps)
    qed
  next
    case True
    then obtain e c2 where loop: "run_sequential_batch_loop_for_stage pk fuel (te_loop env) (batch_handler H) own External
        (for_stage thread stage) c1 = Some (e, c2)"
      using unfolded by (auto split: option.splits)
    have c2: "loop_result k own a (e, c2)"
      using sequential_loop_result [OF ce] c1 loop
      unfolding fresh_consumer_def run_sequential_batch_loop_for_stage_def by blast
    show ?thesis
    proof (cases e)
      case LoopPanicked
      with True unfolded loop c2 show ?thesis by auto
    next
      case LoopReturned
      define c3 where "c3 = at_world (te_world env 1) c2"
      obtain r' h' where sh: "on_shutdown H (co_handler c3) = (r', h')" by fastforce
      have c3: "loop_result k own a (LoopReturned, c3\<lparr>co_handler := h'\<rparr>)"
        using loop_result_quiet [OF _ q] c2 LoopReturned by (simp add: c3_def)
      from True unfolded loop LoopReturned sh have
        "(exit, c') = (case r' of None \<Rightarrow> (LoopPanicked, c3\<lparr>co_handler := h'\<rparr>)
           | Some (Inr _) \<Rightarrow> (LoopReturned, c3\<lparr>co_handler := h'\<rparr>)
           | Some (Inl e) \<Rightarrow> (LoopReturned, at_world (bw_record (lifecycle_failure HandlerShutdown (error_to_string e) thread stage))
               (c3\<lparr>co_handler := h'\<rparr>)))"
        by (simp add: c3_def del: One_nat_def) (auto simp: c3_def simp del: One_nat_def split: option.splits sum.splits)
      with c3 loop_result_quiet [OF c3 quiet_on_steps(3)] loop_result_panicked [OF c3] show ?thesis
        by (auto split: option.splits sum.splits)
    qed
  qed
qed

lemma mutable_consumer_result:
  assumes "thread_env_ok k own env" and "fresh_consumer k own c" and "bw_store (co_world c) own = a"
    and "start_mutable_consumer pk fuel env payload H own thread stage Sequential c = Some (e, d)"
  shows "loop_result k own a (e, d)"
  using guard_panic_result [OF assms(1) assms(4) [unfolded start_mutable_consumer_def]]
    sequential_mutable_result [OF assms(1-3)] by blast

lemma readonly_consumer_result:
  assumes "thread_env_ok k own env" and "fresh_consumer k own c" and "bw_store (co_world c) own = a"
    and "start_readonly_consumer pk fuel env payload F own thread stage c = Some (e, d)"
  shows "loop_result k own a (e, d)"
proof -
  let ?c = "at_world (te_world env 0) c"
  have q: "quiet_on k own (te_world env 0)" and ce: "consumer_env k own (te_loop env)"
    using assms(1) by (simp_all add: thread_env_ok_def)
  have fr: "fresh_consumer k own ?c" "bw_store (co_world ?c) own = a"
    using fresh_consumer_at [OF assms(2) q] assms(3) by simp_all
  from guard_panic_result [OF assms(1) assms(4) [unfolded start_readonly_consumer_def]] show ?thesis
    using sequential_loop_result [OF ce] fr
    unfolding run_sequential_readonly_loop_for_stage_def readonly_loop_eq fresh_consumer_def by (metis prod.collapse)
qed

text \<open>
  C19: no consumer thread of a built pipeline dies silently. If a thread leaves by a panic, of whichever
  callback and in whichever loop, or cannot be pinned to its core, the producers are poisoned with a
  failure on record; and a sequential or read-only consumer thread hands its handler exactly the
  successors of its sequence, in order and each when it was readable, and when it returns its sequence
  stands at the last event, or before it if that event was refused, with the producers poisoned.
\<close>

theorem consumer_thread_accountable:
  assumes "thread_env_ok k (sc_sequence sc) env" and "fresh_consumer k (sc_sequence sc) c"
    and "consumer_thread core_ids set_for_current pk fuel env payload sc c = Some (exit, c')"
  shows "(exit = LoopPanicked \<longrightarrow> bw_poisoned (co_world c')) \<and>
    (\<forall>core err. ci_cpu_affinity (sc_info sc) = Some core \<and> set_thread_affinity core_ids set_for_current core = Inl err \<longrightarrow>
       bw_poisoned (co_world c') \<and> co_trace c' = []) \<and>
    (sc_run_mode sc = Sequential \<or> (\<exists>F. ci_starter (sc_info sc) = ReadonlyStarter F) \<longrightarrow>
       (\<exists>m. trace_seqs (co_trace c') = [bw_store (co_world c) (sc_sequence sc) + 1..m] \<and>
          (\<forall>(e, s, b, w)\<in>set (co_trace c'). readable w s) \<and> bw_store (co_world c') (sc_sequence sc) \<le> m \<and>
          (exit = LoopReturned \<longrightarrow> bw_store (co_world c') (sc_sequence sc) = m \<or>
             bw_store (co_world c') (sc_sequence sc) = m - 1 \<and> bw_poisoned (co_world c'))))"
proof -
  let ?own = "sc_sequence sc" and ?stage = "ci_stage_index (sc_info sc)"
  let ?a = "bw_store (co_world c) ?own"
  obtain thread body where run: "start_consumer_thread core_ids set_for_current (ci_cpu_affinity (sc_info sc)) thread ?stage body c = Some (exit, c')"
    and body: "(\<exists>H. body = start_mutable_consumer pk fuel env payload H ?own thread ?stage (sc_run_mode sc) \<and> ci_starter (sc_info sc) = MutableStarter H) \<or>
      (\<exists>F. body = start_readonly_consumer pk fuel env payload F ?own thread ?stage \<and> ci_starter (sc_info sc) = ReadonlyStarter F)"
    using assms(3) by (cases "ci_starter (sc_info sc)") (auto simp: Let_def)
  have panic: "bw_poisoned (co_world d)" if "body c = Some (LoopPanicked, d)" for d
    using body that guard_panic_poisons by (auto simp: start_mutable_consumer_def start_readonly_consumer_def)
  have result: "loop_result k ?own ?a (e, d)"
    if b: "body c = Some (e, d)" and seq: "sc_run_mode sc = Sequential \<or> (\<exists>F. ci_starter (sc_info sc) = ReadonlyStarter F)" for e d
    using body b seq mutable_consumer_result [OF assms(1,2) refl, of pk fuel payload] readonly_consumer_result [OF assms(1,2) refl, of pk fuel payload]
    by auto
  have unpinned: "bw_poisoned (co_world c') \<and> co_trace c' = [] \<and> loop_result k ?own ?a (exit, c')"
    if "ci_cpu_affinity (sc_info sc) = Some core" "set_thread_affinity core_ids set_for_current core = Inl err" for core err
    using run that assms(2) loop_result_quiet [OF fresh_result [OF assms(2)] quiet_on_steps(2)]
    by (auto simp: start_consumer_thread_def at_world_def fresh_consumer_def)
  have pinned: "body c = Some (exit, c')"
    if "\<not> (\<exists>core err. ci_cpu_affinity (sc_info sc) = Some core \<and> set_thread_affinity core_ids set_for_current core = Inl err)"
    using run that by (auto simp: start_consumer_thread_def split: option.splits sum.splits)
  have all: "loop_result k ?own ?a (exit, c')"
    if "sc_run_mode sc = Sequential \<or> (\<exists>F. ci_starter (sc_info sc) = ReadonlyStarter F)"
    using unpinned pinned result that by blast
  have "exit = LoopPanicked \<longrightarrow> bw_poisoned (co_world c')" using unpinned pinned panic by blast
  moreover have "(\<exists>m. trace_seqs (co_trace c') = [?a + 1..m] \<and> (\<forall>(e, s, b, w)\<in>set (co_trace c'). readable w s) \<and>
      bw_store (co_world c') ?own \<le> m \<and> (exit = LoopReturned \<longrightarrow> bw_store (co_world c') ?own = m \<or>
        bw_store (co_world c') ?own = m - 1 \<and> bw_poisoned (co_world c')))"
    if "sc_run_mode sc = Sequential \<or> (\<exists>F. ci_starter (sc_info sc) = ReadonlyStarter F)"
    using all [OF that] by (auto simp: loop_result_def delivered_def bw_poisoned_def)
  ultimately show ?thesis using unpinned by blast
qed

text \<open>A consumer of the example ring whose thread is pinned to core 1 of 2 and whose closure records sequences.\<close>

definition example_started :: "(nat, i64 list) started_consumer" where
  "example_started =
     \<lparr>sc_sequence = 5, sc_barrier = bw_bar example_world,
      sc_info = consumer_info_mutable
        (closure_event_handler (\<lambda>e s b h. (Some (Ok ()), e + 1, h @ [s]))) None (Some 1) 0,
      sc_run_mode = Sequential\<rparr>"

definition example_thread_env :: "nat thread_env" where
  "example_thread_env = \<lparr>te_world = \<lambda>_ w. w, te_loop = example_env, te_pool = \<lambda>_ p. (p, None), te_work = - 1\<rparr>"

definition example_closure_consumer :: "(nat, i64 list closure_state) consumer" where
  "example_closure_consumer =
     \<lparr>co_world = co_world example_consumer, co_ring = co_ring example_consumer,
      co_handler = closure_event_handler_new [], co_trace = []\<rparr>"

theorem consumer_thread_accountable_witness:
  "\<exists>c'. consumer_thread (Some 2) (\<lambda>_. True) (\<lambda>_. None, \<lambda>_ _. (0, True)) 9 example_thread_env OtherPayload example_started
      example_closure_consumer = Some (LoopReturned, c') \<and>
    ch_handler (co_handler c') = [0] \<and> (\<exists>e b w. co_trace c' = [(e, 0, b, w)] \<and> readable w 0)"
proof -
  let ?run = "consumer_thread (Some 2) (\<lambda>_. True) (\<lambda>_. None, \<lambda>_ _. (0, True)) 9 example_thread_env OtherPayload example_started
      example_closure_consumer"
  have "map_option (\<lambda>(r, c). (r, ch_handler (co_handler c), trace_seqs (co_trace c))) ?run = Some (LoopReturned, [0], [0])"
    by code_simp
  then obtain c' where run: "?run = Some (LoopReturned, c')" "ch_handler (co_handler c') = [0]"
    "trace_seqs (co_trace c') = [0]" by auto
  have "thread_env_ok 2 5 example_thread_env"
    by (simp add: thread_env_ok_def example_thread_env_def example_env_ok quiet_on_def)
  moreover have "fresh_consumer 2 5 example_closure_consumer"
    using example_consumer_ok by (simp add: fresh_consumer_def example_closure_consumer_def)
  ultimately have "\<forall>(e, s, b, w)\<in>set (co_trace c'). readable w s"
    using consumer_thread_accountable [OF _ _ run(1), of 2] by (auto simp: example_started_def)
  moreover from run(3) obtain e b w where "co_trace c' = [(e, 0, b, w)]" by (auto simp: trace_seqs_def split: prod.splits)
  ultimately show ?thesis using run by auto
qed

end
