(* ===== verification/Lifecycle.thy ===== *)
theory Lifecycle
  imports Builder
begin

text \<open>
  The lifecycle of a built disruptor (\<open>DisruptorCore\<close> of \<open>builder/core.rs\<close> and \<open>DisruptorHandle\<close> of
  \<open>builder/handle.rs\<close>): the draining and the abrupt stop, and the handle in front of them. The handle's
  producer shares the ring and the sequencer of the core, so the handle keeps one copy and the bit that
  says whether its producer holds the unique capability. What the consumer threads do meanwhile is a
  trajectory during the drain and an action before each \<open>join\<close> returns.
\<close>

section \<open>Draining\<close>

text \<open>What the drain sees: the sequencer, which threads have ended and the clock (in nanoseconds).\<close>

record drain_world =
  dw_seq :: sequencer
  dw_finished :: "nat \<Rightarrow> bool"
  dw_now :: nat

abbreviation dw_mem :: "drain_world \<Rightarrow> store" where
  "dw_mem w \<equiv> seq_mem (dw_seq w)"

definition drained_error :: disruptor_error where
  "drained_error = ShutdownError ''consumer thread exited before the backlog was drained''"

text \<open>
  One round for \<open>n\<close> threads: the poison flag, the threads one after the other, the minimum of the
  gating sequences, the clock.
\<close>

definition drain_body ::
    "drain_world traj \<Rightarrow> nat \<Rightarrow> seq_ref list \<Rightarrow> i64 \<Rightarrow> nat option \<Rightarrow> nat \<Rightarrow> (unit result \<times> nat) + nat" where
  "drain_body tr n gating cursor deadline t =
     (if seq_is_poisoned (dw_seq (tr t)) then Inl (Err Poisoned, t)
      else if list_ex (\<lambda>i. dw_finished (tr (t + 1 + i)) i) [0..<n] then Inl (Err drained_error, t + n)
      else
        let t1 = t + 1 + n;
            consumed = get_minimum_sequence_with_default (\<lambda>i. dw_mem (tr i)) t1 gating cursor;
            t2 = t1 + length gating
        in if consumed \<ge> cursor then Inl (Ok (), t2)
           else (case deadline of
                   Some d \<Rightarrow> if dw_now (tr t2) \<ge> d then Inl (Err Timeout, t2) else Inr (t2 + 1)
                 | None \<Rightarrow> Inr (t2 + 1)))"

text \<open>The loop from time \<open>t\<close>, with the deadline and the target read before it.\<close>

definition drain_loop ::
    "nat \<Rightarrow> drain_world traj \<Rightarrow> nat option \<Rightarrow> nat \<Rightarrow> seq_ref list \<Rightarrow> seq_ref \<Rightarrow> nat \<Rightarrow> (unit result \<times> nat) option" where
  "drain_loop fuel tr timeout n gating cursor_ref t =
     (let deadline = map_option (\<lambda>d. dw_now (tr t) + d) timeout;
          cursor = seq_get (dw_mem (tr (t + 1))) cursor_ref
      in poll fuel (drain_body tr n gating cursor deadline) (t + 2))"

definition drain ::
    "nat \<Rightarrow> drain_world traj \<Rightarrow> nat option \<Rightarrow> ('e, 'c) disruptor_core \<Rightarrow> (unit result \<times> nat) option" where
  "drain fuel tr timeout core =
     (if dc_shutdown core then Some (Ok (), 0)
      else drain_loop fuel tr timeout (length (dc_consumers core)) (dc_gating core)
             (seq_get_cursor (dc_sequencer core)) 0)"

section \<open>Stopping\<close>

definition consumer_name :: "('e, 'c) started_consumer \<Rightarrow> string" where
  "consumer_name sc =
     (case ci_thread_name (sc_info sc) of
        Some name \<Rightarrow> name
      | None \<Rightarrow> (case ci_starter (sc_info sc) of
                  MutableStarter _ \<Rightarrow> ''disruptor-consumer'' | ReadonlyStarter _ \<Rightarrow> ''disruptor-fanout''))"

text \<open>
  What the consumer threads do until each join returns, the payload if the thread panicked, and the
  compare-and-swap of the gating list with the identity of the snapshot it starts from.
\<close>

record stop_env =
  se_join :: "nat \<Rightarrow> sequencer \<Rightarrow> sequencer"
  se_outcome :: "nat \<Rightarrow> panic_payload option"
  se_cas :: snapshot_cas
  se_snapshot :: nat

fun join_consumers ::
    "stop_env \<Rightarrow> nat \<Rightarrow> ('e, 'c) started_consumer list \<Rightarrow> sequencer \<Rightarrow> sequencer" where
  "join_consumers env i [] q = q"
| "join_consumers env i (c # cs) q =
     join_consumers env (Suc i) cs
       (case se_outcome env i of
          None \<Rightarrow> se_join env i q
        | Some payload \<Rightarrow>
            seq_record_failure
              (with_thread_name (consumer_name c) (failure_record_new ConsumerPanic (panic_payload_message payload)))
              (se_join env i q))"

fun remove_gating :: "stop_env \<Rightarrow> seq_ref list \<Rightarrow> sequencer \<Rightarrow> sequencer option" where
  "remove_gating env [] q = Some q"
| "remove_gating env (g # gs) q =
     (case seq_remove_gating_sequence (se_cas env) (se_snapshot env) g q of
        None \<Rightarrow> None
      | Some (_, q') \<Rightarrow> remove_gating env gs q')"

definition stop_consumers_keep_claims ::
    "stop_env \<Rightarrow> ('e, 'c) disruptor_core \<Rightarrow> ('e, 'c) disruptor_core option" where
  "stop_consumers_keep_claims env core0 =
     (let core = core0\<lparr>dc_shutdown := True\<rparr> in
      if dc_shutdown core0 \<and> dc_consumers core0 = [] then Some core
      else map_option (\<lambda>q. core\<lparr>dc_sequencer := q, dc_consumers := [], dc_gating := []\<rparr>)
             (remove_gating env (dc_gating core) (join_consumers env 0 (dc_consumers core) (dc_sequencer core))))"

definition core_halt :: "stop_env \<Rightarrow> ('e, 'c) disruptor_core \<Rightarrow> ('e, 'c) disruptor_core option" where
  "core_halt env core = stop_consumers_keep_claims env (core\<lparr>dc_sequencer := seq_close (dc_sequencer core)\<rparr>)"

text \<open>\<open>denv\<close> is how the world goes on from a given sequencer while the drain runs.\<close>

definition shutdown_with_timeout ::
    "nat \<Rightarrow> (sequencer \<Rightarrow> drain_world traj) \<Rightarrow> stop_env \<Rightarrow> nat option \<Rightarrow> ('e, 'c) disruptor_core \<Rightarrow>
     (unit result \<times> ('e, 'c) disruptor_core) option" where
  "shutdown_with_timeout fuel denv env timeout core0 =
     (let core = core0\<lparr>dc_sequencer := seq_close (dc_sequencer core0)\<rparr>;
          tr = denv (dc_sequencer core)
      in case drain fuel tr timeout core of
           None \<Rightarrow> None
         | Some (drained, t) \<Rightarrow>
             map_option (Pair drained) (core_halt env (core\<lparr>dc_sequencer := dw_seq (tr t)\<rparr>)))"

definition create_producer :: "('e, 'c) disruptor_core \<Rightarrow> 'e producer" where
  "create_producer core = producer_new (dc_ring_buffer core) (dc_sequencer core)"

definition take_initial_producer ::
    "('e, 'c) disruptor_core \<Rightarrow> 'e producer \<times> ('e, 'c) disruptor_core" where
  "take_initial_producer core =
     (case (dc_unique core, dc_sequencer core) of
        (True, SingleSeq s) \<Rightarrow> (producer_new_unique (dc_ring_buffer core) s, core\<lparr>dc_unique := False\<rparr>)
      | _ \<Rightarrow> (create_producer core, core))"

definition core_consumer_count :: "('e, 'c) disruptor_core \<Rightarrow> usize" where
  "core_consumer_count core = length (dc_consumers core)"

section \<open>The handle\<close>

record ('e, 'c) disruptor_handle =
  hd_core :: "('e, 'c) disruptor_core"
  hd_unique :: bool
  hd_is_shutdown :: bool

definition handle_new :: "('e, 'c) disruptor_core \<Rightarrow> ('e, 'c) disruptor_handle" where
  "handle_new core0 =
     (let (producer, core) = take_initial_producer core0
      in \<lparr>hd_core = core, hd_unique = pr_unique producer, hd_is_shutdown = False\<rparr>)"

definition handle_producer :: "('e, 'c) disruptor_handle \<Rightarrow> 'e producer" where
  "handle_producer h =
     \<lparr>pr_ring = dc_ring_buffer (hd_core h), pr_seq = dc_sequencer (hd_core h), pr_unique = hd_unique h\<rparr>"

definition with_producer ::
    "('e, 'c) disruptor_handle \<Rightarrow> ('r \<times> 'e producer) option \<Rightarrow> ('r \<times> ('e, 'c) disruptor_handle) option" where
  "with_producer h = map_option (\<lambda>(r, p).
     (r, h\<lparr>hd_core := (hd_core h)\<lparr>dc_ring_buffer := pr_ring p, dc_sequencer := pr_seq p\<rparr>\<rparr>))"

definition handle_publish ::
    "nat \<Rightarrow> claim_env \<Rightarrow> string \<Rightarrow> ('e \<Rightarrow> 'e \<times> bool) \<Rightarrow> ('e, 'c) disruptor_handle \<Rightarrow>
     (i64 result option \<times> ('e, 'c) disruptor_handle) option" where
  "handle_publish fuel env thread upd h =
     (if hd_is_shutdown h then Some (Some (Err Shutdown), h)
      else with_producer h (publish fuel env thread upd (handle_producer h)))"

definition handle_try_publish ::
    "nat \<Rightarrow> claim_env \<Rightarrow> string \<Rightarrow> ('e \<Rightarrow> 'e \<times> bool) \<Rightarrow> ('e, 'c) disruptor_handle \<Rightarrow>
     ((try_publish_error + i64) option \<times> ('e, 'c) disruptor_handle) option" where
  "handle_try_publish fuel env thread upd h =
     (if hd_is_shutdown h then Some (Some (Inl PubShutdown), h)
      else with_producer h (try_publish fuel env thread upd (handle_producer h)))"

definition handle_batch_publish ::
    "nat \<Rightarrow> claim_env \<Rightarrow> string \<Rightarrow> usize \<Rightarrow> 'e batch_closure \<Rightarrow> ('e, 'c) disruptor_handle \<Rightarrow>
     (i64 result option \<times> ('e, 'c) disruptor_handle) option" where
  "handle_batch_publish fuel env thread n c h =
     (if hd_is_shutdown h then Some (Some (Err Shutdown), h)
      else with_producer h (batch_publish fuel env thread n c (handle_producer h)))"

definition handle_try_batch_publish ::
    "nat \<Rightarrow> claim_env \<Rightarrow> string \<Rightarrow> usize \<Rightarrow> 'e batch_closure \<Rightarrow> ('e, 'c) disruptor_handle \<Rightarrow>
     ((try_publish_error + i64) option \<times> ('e, 'c) disruptor_handle) option" where
  "handle_try_batch_publish fuel env thread n c h =
     (if hd_is_shutdown h then Some (Some (Inl PubShutdown), h)
      else with_producer h (try_batch_publish fuel env thread n c (handle_producer h)))"

definition handle_shutdown_timeout ::
    "nat \<Rightarrow> (sequencer \<Rightarrow> drain_world traj) \<Rightarrow> stop_env \<Rightarrow> nat \<Rightarrow> ('e, 'c) disruptor_handle \<Rightarrow>
     (unit result \<times> ('e, 'c) disruptor_handle) option" where
  "handle_shutdown_timeout fuel denv env timeout h =
     (if hd_is_shutdown h then Some (Ok (), h)
      else map_option (\<lambda>(r, core). (r, h\<lparr>hd_core := core, hd_is_shutdown := True\<rparr>))
             (shutdown_with_timeout fuel denv env (Some timeout) (hd_core h)))"

definition handle_shutdown ::
    "nat \<Rightarrow> (sequencer \<Rightarrow> drain_world traj) \<Rightarrow> stop_env \<Rightarrow> ('e, 'c) disruptor_handle \<Rightarrow>
     ('e, 'c) disruptor_handle option" where
  "handle_shutdown fuel denv env h =
     (if hd_is_shutdown h then Some h
      else map_option (\<lambda>(_, core). h\<lparr>hd_core := core, hd_is_shutdown := True\<rparr>)
             (shutdown_with_timeout fuel denv env None (hd_core h)))"

definition handle_halt :: "stop_env \<Rightarrow> ('e, 'c) disruptor_handle \<Rightarrow> ('e, 'c) disruptor_handle option" where
  "handle_halt env h =
     (if hd_is_shutdown h then Some h
      else map_option (\<lambda>core. h\<lparr>hd_core := core, hd_is_shutdown := True\<rparr>) (core_halt env (hd_core h)))"

text \<open>Dropping the handle drains for at most two seconds.\<close>

definition handle_drop ::
    "nat \<Rightarrow> (sequencer \<Rightarrow> drain_world traj) \<Rightarrow> stop_env \<Rightarrow> ('e, 'c) disruptor_handle \<Rightarrow>
     ('e, 'c) disruptor_handle option" where
  "handle_drop fuel denv env h =
     (if hd_is_shutdown h then Some h
      else map_option snd (handle_shutdown_timeout fuel denv env (2 * 10 ^ 9) h))"

text \<open>The producer that leaves keeps the claim path; the handle is dropped as already shut down.\<close>

definition into_producer ::
    "stop_env \<Rightarrow> ('e, 'c) disruptor_handle \<Rightarrow> ('e producer \<times> ('e, 'c) disruptor_handle) option" where
  "into_producer env h =
     map_option (\<lambda>core. let h' = h\<lparr>hd_core := core, hd_is_shutdown := True\<rparr>
                        in (handle_producer h', h'\<lparr>hd_unique := pr_unique (create_producer core)\<rparr>))
       (stop_consumers_keep_claims env (hd_core h))"

definition handle_consumer_count :: "('e, 'c) disruptor_handle \<Rightarrow> usize" where
  "handle_consumer_count h = core_consumer_count (hd_core h)"

definition handle_is_poisoned :: "('e, 'c) disruptor_handle \<Rightarrow> bool" where
  "handle_is_poisoned h = seq_is_poisoned (dc_sequencer (hd_core h))"

definition handle_first_failure :: "('e, 'c) disruptor_handle \<Rightarrow> failure_record option" where
  "handle_first_failure h = seq_first_failure (dc_sequencer (hd_core h))"

definition is_claim_closed :: "('e, 'c) disruptor_handle \<Rightarrow> bool" where
  "is_claim_closed h = seq_is_closed (dc_sequencer (hd_core h))"

text \<open>The producers a multi-producer handle gives out; a cloneable one publishes through a fresh duplicate.\<close>

definition handle_create_producer :: "('e, 'c) disruptor_handle \<Rightarrow> 'e producer" where
  "handle_create_producer h = create_producer (hd_core h)"

definition cloneable_producer :: "('e, 'c) disruptor_handle \<Rightarrow> 'e producer" where
  "cloneable_producer h = producer_new (dc_ring_buffer (hd_core h)) (dc_sequencer (hd_core h))"

definition cloneable_publish ::
    "nat \<Rightarrow> claim_env \<Rightarrow> string \<Rightarrow> ('e \<Rightarrow> 'e \<times> bool) \<Rightarrow> 'e producer \<Rightarrow> (i64 result option \<times> 'e producer) option" where
  "cloneable_publish fuel env thread upd p = publish fuel env thread upd (duplicate_for_multi p)"

definition cloneable_try_publish ::
    "nat \<Rightarrow> claim_env \<Rightarrow> string \<Rightarrow> ('e \<Rightarrow> 'e \<times> bool) \<Rightarrow> 'e producer \<Rightarrow>
     ((try_publish_error + i64) option \<times> 'e producer) option" where
  "cloneable_try_publish fuel env thread upd p = try_publish fuel env thread upd (duplicate_for_multi p)"

definition cloneable_batch_publish ::
    "nat \<Rightarrow> claim_env \<Rightarrow> string \<Rightarrow> usize \<Rightarrow> 'e batch_closure \<Rightarrow> 'e producer \<Rightarrow>
     (i64 result option \<times> 'e producer) option" where
  "cloneable_batch_publish fuel env thread n c p = batch_publish fuel env thread n c (duplicate_for_multi p)"

definition cloneable_try_batch_publish ::
    "nat \<Rightarrow> claim_env \<Rightarrow> string \<Rightarrow> usize \<Rightarrow> 'e batch_closure \<Rightarrow> 'e producer \<Rightarrow>
     ((try_publish_error + i64) option \<times> 'e producer) option" where
  "cloneable_try_batch_publish fuel env thread n c p = try_batch_publish fuel env thread n c (duplicate_for_multi p)"

section \<open>The drain\<close>

lemma min_loop_attained_at:
  "min_loop tr t m rs = m \<or> (\<exists>i<length rs. min_loop tr t m rs = tr (t + i) (rs ! i))"
proof (induction rs arbitrary: t m)
  case Nil
  then show ?case by simp
next
  case (Cons r rs)
  let ?m = "if tr t r < m then tr t r else m"
  from Cons.IH [of "Suc t" ?m] show ?case
  proof
    assume "min_loop tr (Suc t) ?m rs = ?m"
    then show ?thesis by (cases "tr t r < m") (auto simp: Let_def seq_get_def)
  next
    assume "\<exists>i<length rs. min_loop tr (Suc t) ?m rs = tr (Suc t + i) (rs ! i)"
    then obtain i where "i < length rs" "min_loop tr (Suc t) ?m rs = tr (Suc t + i) (rs ! i)" by blast
    then have "Suc i < length (r # rs) \<and> min_loop tr t m (r # rs) = tr (t + Suc i) ((r # rs) ! Suc i)"
      by (simp add: Let_def seq_get_def)
    then show ?thesis by blast
  qed
qed

text \<open>What each answer of the drain says of the world at the time of the answer.\<close>

definition drain_answer ::
    "drain_world traj \<Rightarrow> nat \<Rightarrow> seq_ref list \<Rightarrow> i64 \<Rightarrow> nat option \<Rightarrow> unit result \<Rightarrow> nat \<Rightarrow> bool" where
  "drain_answer tr n gating cursor deadline r t \<longleftrightarrow>
     (r = Ok () \<and> (\<forall>g\<in>set gating. cursor \<le> dw_mem (tr t) g)) \<or>
     (r = Err Poisoned \<and> seq_is_poisoned (dw_seq (tr t))) \<or>
     (r = Err drained_error \<and> (\<exists>i<n. \<exists>t'\<le>t. dw_finished (tr t') i)) \<or>
     (r = Err Timeout \<and> (\<exists>d. deadline = Some d \<and> d \<le> dw_now (tr t)) \<and>
        (\<exists>g\<in>set gating. \<exists>t'\<le>t. dw_mem (tr t') g < cursor))"

lemma drain_body_answer:
  assumes "mono_traj (\<lambda>i. dw_mem (tr i)) (set gating)" and "drain_body tr n gating cursor deadline t = Inl (r, t')"
  shows "drain_answer tr n gating cursor deadline r t'"
proof -
  let ?t1 = "t + 1 + n" and ?mem = "\<lambda>i. dw_mem (tr i)"
  let ?t2 = "?t1 + length gating"
  let ?min = "min_loop ?mem ?t1 cursor gating"
  let ?fin = "list_ex (\<lambda>i. dw_finished (tr (t + 1 + i)) i) [0..<n]"
  note body = assms(2) [unfolded drain_body_def Let_def get_minimum_sequence_with_default_def]
  show ?thesis
  proof (cases "seq_is_poisoned (dw_seq (tr t)) \<or> ?fin")
    case True
    show ?thesis
    proof (cases "seq_is_poisoned (dw_seq (tr t))")
      case True
      with body show ?thesis by (simp add: drain_answer_def)
    next
      case False
      with True have fin: ?fin by blast
      then obtain i where "i < n" "dw_finished (tr (t + 1 + i)) i" by (auto simp: list_ex_iff)
      moreover from False fin body have "r = Err drained_error" "t' = t + n" by (simp_all split: if_splits)
      moreover from calculation have "t + 1 + i \<le> t'" by simp
      ultimately show ?thesis unfolding drain_answer_def by blast
    qed
  next
    case False
    then have np: "seq_is_poisoned (dw_seq (tr t)) = False" "?fin = False" by blast+
    note rest = body [unfolded np if_False]
    show ?thesis
    proof (cases "cursor \<le> ?min")
      case True
      with rest have r: "r = Ok ()" "t' = ?t2" by simp_all
      have "?min \<le> dw_mem (tr t') g" if "g \<in> set gating" for g
        using min_loop_stale [OF assms(1) that, of ?t1 t'] r(2) by simp
      with True r(1) show ?thesis unfolding drain_answer_def by fastforce
    next
      case False
      with rest obtain d where r: "deadline = Some d" "d \<le> dw_now (tr ?t2)" "r = Err Timeout" "t' = ?t2"
        by (cases deadline) (simp_all split: if_splits)
      from False min_loop_attained_at [of ?mem ?t1 cursor gating] obtain i where
        i: "i < length gating" "dw_mem (tr (?t1 + i)) (gating ! i) < cursor" by auto
      moreover have "gating ! i \<in> set gating" "?t1 + i \<le> t'" using i(1) r(4) by simp_all
      ultimately show ?thesis using r unfolding drain_answer_def by blast
    qed
  qed
qed

lemma drain_body_time: "drain_body tr n gating cursor deadline t = Inr t' \<Longrightarrow> t < t'"
  by (auto simp: drain_body_def Let_def split: if_splits option.splits)

lemma drain_loop_answer:
  assumes "mono_traj (\<lambda>i. dw_mem (tr i)) (set gating)"
    and "drain_loop fuel tr timeout n gating c t = Some (r, t')"
  shows "drain_answer tr n gating (dw_mem (tr (t + 1)) c) (map_option (\<lambda>d. dw_now (tr t) + d) timeout) r t'"
  using assms(2) unfolding drain_loop_def Let_def seq_get_def
  by (rule poll_inv [where I = "\<lambda>_. True"]) (auto intro: drain_body_answer [OF assms(1)])

text \<open>The reasons for which a drain ends.\<close>

definition drain_settles ::
    "drain_world traj \<Rightarrow> nat \<Rightarrow> seq_ref list \<Rightarrow> i64 \<Rightarrow> nat option \<Rightarrow> nat \<Rightarrow> bool" where
  "drain_settles tr n gating cursor deadline T \<longleftrightarrow>
     (\<forall>t\<ge>T. seq_is_poisoned (dw_seq (tr t))) \<or>
     (\<exists>i<n. \<forall>t\<ge>T. dw_finished (tr t) i) \<or>
     (\<forall>g\<in>set gating. \<forall>t\<ge>T. cursor \<le> dw_mem (tr t) g) \<or>
     (\<exists>d. deadline = Some d \<and> (\<forall>t\<ge>T. d \<le> dw_now (tr t)))"

lemma drain_body_decides:
  assumes "drain_settles tr n gating cursor deadline T" and "T \<le> t"
  shows "\<exists>r. drain_body tr n gating cursor deadline t = Inl r"
  using assms(1) unfolding drain_settles_def
proof (elim disjE exE conjE)
  assume "\<forall>t\<ge>T. seq_is_poisoned (dw_seq (tr t))"
  with assms(2) show ?thesis by (simp add: drain_body_def)
next
  fix i assume i: "i < n" "\<forall>t\<ge>T. dw_finished (tr t) i"
  with assms(2) have "i \<in> set [0..<n]" "dw_finished (tr (t + 1 + i)) i" by simp_all
  then have "list_ex (\<lambda>i. dw_finished (tr (t + 1 + i)) i) [0..<n]" unfolding list_ex_iff by blast
  then show ?thesis by (simp add: drain_body_def)
next
  assume "\<forall>g\<in>set gating. \<forall>t\<ge>T. cursor \<le> dw_mem (tr t) g"
  with assms(2) have "cursor \<le> min_loop (\<lambda>i. dw_mem (tr i)) (t + 1 + n) cursor gating" by (intro min_loop_ge) auto
  then show ?thesis by (simp add: drain_body_def Let_def get_minimum_sequence_with_default_def)
next
  fix d assume "deadline = Some d" "\<forall>t\<ge>T. d \<le> dw_now (tr t)"
  with assms(2) show ?thesis by (simp add: drain_body_def Let_def)
qed

lemma drain_loop_returns:
  assumes "drain_settles tr n gating (dw_mem (tr (t + 1)) c) (map_option (\<lambda>d. dw_now (tr t) + d) timeout) T"
  shows "\<exists>r. drain_loop (Suc T) tr timeout n gating c t = Some r"
proof -
  let ?body = "drain_body tr n gating (dw_mem (tr (t + 1)) c) (map_option (\<lambda>d. dw_now (tr t) + d) timeout)"
  have "\<exists>r. poll (Suc (T - (t + 2))) ?body (t + 2) = Some r"
    by (rule poll_returns [where I = "\<lambda>_. True" and time = "\<lambda>t. t"])
      (use drain_body_decides [OF assms] drain_body_time in auto)
  then obtain r where "poll (Suc (T - (t + 2))) ?body (t + 2) = Some r" by blast
  then have "poll (Suc T) ?body (t + 2) = Some r" by (rule poll_mono) simp
  then show ?thesis by (simp add: drain_loop_def seq_get_def)
qed

section \<open>The stop\<close>

fun seq_gating :: "sequencer \<Rightarrow> seq_ref list" where
  "seq_gating (SingleSeq s) = sp_gating s"
| "seq_gating (MultiSeq m) = mp_gating m"

text \<open>\<open>q'\<close> is \<open>q\<close> with the same claim flag, with the invariant kept and no failure forgotten.\<close>

definition stop_frame :: "nat \<Rightarrow> sequencer \<Rightarrow> sequencer \<Rightarrow> bool" where
  "stop_frame k q q' \<longleftrightarrow>
     (seq_inv k q \<longrightarrow> seq_inv k q') \<and> seq_is_closed q' = seq_is_closed q \<and>
     (\<forall>f. seq_first_failure q = Some f \<longrightarrow> seq_first_failure q' = Some f)"

lemma stop_frame_refl [simp]: "stop_frame k q q"
  and stop_frame_trans: "stop_frame k q q1 \<Longrightarrow> stop_frame k q1 q2 \<Longrightarrow> stop_frame k q q2"
  by (simp_all add: stop_frame_def)

text \<open>The consumer threads neither close nor reopen the claim path nor drop the first failure.\<close>

definition stop_env_ok :: "nat \<Rightarrow> stop_env \<Rightarrow> bool" where
  "stop_env_ok k env \<longleftrightarrow> cas_spec (se_cas env) \<and> (\<forall>i q. stop_frame k q (se_join env i q))"

definition drain_env_ok :: "nat \<Rightarrow> (sequencer \<Rightarrow> drain_world traj) \<Rightarrow> bool" where
  "drain_env_ok k denv \<longleftrightarrow> (\<forall>q t. stop_frame k q (dw_seq (denv q t)))"

lemma seq_record_frame:
  "stop_frame k q (seq_record_failure f q)" "seq_first_failure (seq_record_failure f q) \<noteq> None"
proof -
  have "seq_inv k (seq_record_failure f q)" if "seq_inv k q"
  proof (cases q)
    case (SingleSeq s)
    have "sp_inv (sp_record_failure f s) = sp_inv s" by (simp add: sp_inv_def sp_record_sel)
    with SingleSeq that show ?thesis by (simp add: sp_record_sel)
  next
    case (MultiSeq m)
    with that show ?thesis using mp_lifecycle_frame [of "mp_record_failure f" f m] by (simp add: mp_inv_def below_def)
  qed
  then show "stop_frame k q (seq_record_failure f q)" "seq_first_failure (seq_record_failure f q) \<noteq> None"
    by (cases q; simp add: stop_frame_def sp_record_sel mp_record_sel sp_is_closed_def mp_is_closed_def)+
qed

lemma seq_close_frame:
  "seq_is_closed (seq_close q)" "seq_inv k q \<Longrightarrow> seq_inv k (seq_close q)"
  "seq_first_failure (seq_close q) = seq_first_failure q" "seq_mem (seq_close q) = seq_mem q"
  "seq_gating (seq_close q) = seq_gating q" "seq_get_cursor (seq_close q) = seq_get_cursor q"
proof -
  show "seq_inv k q \<Longrightarrow> seq_inv k (seq_close q)"
  proof (cases q)
    case (SingleSeq s)
    assume "seq_inv k q"
    moreover have "sp_inv (sp_close s) = sp_inv s" by (simp add: sp_inv_def sp_close_def sp_signal_def)
    ultimately show ?thesis using SingleSeq by (simp add: sp_close_def sp_signal_def)
  next
    case (MultiSeq m)
    assume "seq_inv k q"
    with MultiSeq show ?thesis using mp_lifecycle_frame [of mp_close undefined m] by (simp add: mp_inv_def below_def)
  qed
qed (cases q; simp add: sp_close_def sp_signal_def sp_is_closed_def sp_get_cursor_def mp_close_def mp_signal_def
      mp_is_closed_def mp_get_cursor_def)+

lemma seq_remove_gating_spec:
  assumes "cas_spec cas"
  shows "\<exists>b q'. seq_remove_gating_sequence cas i g q = Some (b, q') \<and> stop_frame k q q' \<and>
    seq_gating q' = filter (\<lambda>x. x \<noteq> g) (seq_gating q)"
proof (cases q)
  case (SingleSeq s)
  obtain j where r: "remove_gating_sequence_cas cas [\<lambda>c. c] g (i, sp_gating s) (i, sp_gating s) =
      Some (g \<in> set (sp_gating s), (j, filter (\<lambda>x. x \<noteq> g) (sp_gating s)))"
    using remove_gating_undisturbed [OF assms] by blast
  have "sp_inv (s\<lparr>sp_gating := filter (\<lambda>x. x \<noteq> g) (sp_gating s)\<rparr>)" if "sp_inv s"
    using that by (auto simp: sp_inv_def)
  with SingleSeq r show ?thesis
    by (simp add: sp_remove_gating_sequence_def stop_frame_def sp_is_closed_def)
next
  case (MultiSeq m)
  obtain j where r: "remove_gating_sequence_cas cas [\<lambda>c. c] g (i, mp_gating m) (i, mp_gating m) =
      Some (g \<in> set (mp_gating m), (j, filter (\<lambda>x. x \<noteq> g) (mp_gating m)))"
    using remove_gating_undisturbed [OF assms] by blast
  have "mp_inv k (m\<lparr>mp_gating := filter (\<lambda>x. x \<noteq> g) (mp_gating m)\<rparr>)" if "mp_inv k m"
    using that by (auto simp: mp_inv_def below_def)
  with MultiSeq r show ?thesis
    by (simp add: mp_remove_gating_sequence_def stop_frame_def mp_is_closed_def)
qed

lemma remove_gating_spec:
  assumes "cas_spec (se_cas env)"
  shows "\<exists>q'. remove_gating env gs q = Some q' \<and> stop_frame k q q' \<and>
    seq_gating q' = filter (\<lambda>x. x \<notin> set gs) (seq_gating q)"
proof (induction gs arbitrary: q)
  case Nil
  then show ?case by simp
next
  case (Cons g gs)
  from seq_remove_gating_spec [OF assms, of "se_snapshot env" g q k] obtain b q1 where
    q1: "seq_remove_gating_sequence (se_cas env) (se_snapshot env) g q = Some (b, q1)" "stop_frame k q q1"
      "seq_gating q1 = filter (\<lambda>x. x \<noteq> g) (seq_gating q)" by blast
  from Cons.IH [of q1] obtain q' where "remove_gating env gs q1 = Some q'" "stop_frame k q1 q'"
    "seq_gating q' = filter (\<lambda>x. x \<notin> set gs) (seq_gating q1)" by blast
  with q1 show ?case by (auto intro: stop_frame_trans intro!: filter_cong)
qed

lemma join_consumers_frame:
  assumes "\<And>i q. stop_frame k q (se_join env i q)"
  shows "stop_frame k q (join_consumers env i cs q) \<and>
    ((\<exists>j<length cs. se_outcome env (i + j) \<noteq> None) \<longrightarrow> seq_first_failure (join_consumers env i cs q) \<noteq> None)"
proof (induction cs arbitrary: i q)
  case Nil
  then show ?case by simp
next
  case (Cons c cs)
  let ?f = "\<lambda>payload. with_thread_name (consumer_name c) (failure_record_new ConsumerPanic (panic_payload_message payload))"
  let ?q = "case se_outcome env i of None \<Rightarrow> se_join env i q | Some payload \<Rightarrow> seq_record_failure (?f payload) (se_join env i q)"
  have step: "stop_frame k q ?q"
    using assms [of q i] seq_record_frame(1) by (auto intro: stop_frame_trans split: option.split)
  have failed: "seq_first_failure ?q \<noteq> None" if "se_outcome env i \<noteq> None"
    using that seq_record_frame(2) by (auto split: option.split)
  note IH = Cons.IH [of ?q "Suc i"]
  have "seq_first_failure (join_consumers env i (c # cs) q) \<noteq> None" if ex: "\<exists>j<length (c # cs). se_outcome env (i + j) \<noteq> None"
  proof (cases "se_outcome env i = None")
    case True
    with ex obtain j where "j < length cs" "se_outcome env (Suc i + j) \<noteq> None"
      by (metis add_0_right add_Suc_right add_Suc_shift length_Cons less_Suc_eq_0_disj)
    with IH show ?thesis by auto
  next
    case False
    then obtain f where "seq_first_failure ?q = Some f" using failed by blast
    with IH show ?thesis by (auto simp: stop_frame_def)
  qed
  with step IH show ?case by (auto intro: stop_frame_trans)
qed

text \<open>A core that stops from a running state has joined its consumers and left the gating list.\<close>

lemma stop_consumers_spec:
  assumes "stop_env_ok k env" and "\<not> dc_shutdown core"
  shows "\<exists>core'. stop_consumers_keep_claims env core = Some core' \<and> dc_shutdown core' \<and> dc_consumers core' = [] \<and>
    dc_gating core' = [] \<and> dc_ring_buffer core' = dc_ring_buffer core \<and>
    stop_frame k (dc_sequencer core) (dc_sequencer core') \<and>
    set (seq_gating (dc_sequencer core')) \<inter> set (dc_gating core) = {} \<and>
    ((\<exists>j<length (dc_consumers core). se_outcome env j \<noteq> None) \<longrightarrow> seq_first_failure (dc_sequencer core') \<noteq> None)"
proof -
  let ?q = "join_consumers env 0 (dc_consumers core) (dc_sequencer core)"
  have cas: "cas_spec (se_cas env)" using assms(1) by (simp add: stop_env_ok_def)
  have j: "stop_frame k (dc_sequencer core) ?q"
    "(\<exists>j<length (dc_consumers core). se_outcome env j \<noteq> None) \<longrightarrow> seq_first_failure ?q \<noteq> None"
    using join_consumers_frame [of k env "dc_sequencer core" 0 "dc_consumers core"] assms(1) by (simp_all add: stop_env_ok_def)
  from remove_gating_spec [OF cas, of "dc_gating core" ?q k] obtain q' where
    q': "remove_gating env (dc_gating core) ?q = Some q'" "stop_frame k ?q q'"
      "seq_gating q' = filter (\<lambda>x. x \<notin> set (dc_gating core)) (seq_gating ?q)" by blast
  have "(\<exists>j<length (dc_consumers core). se_outcome env j \<noteq> None) \<longrightarrow> seq_first_failure q' \<noteq> None"
    using j(2) q'(2) by (auto simp: stop_frame_def)
  with assms(2) q' j(1) show ?thesis
    by (auto simp: stop_consumers_keep_claims_def intro: stop_frame_trans)
qed

lemma closed_claims:
  assumes "pr_inv k p" and "seq_is_closed (pr_seq p)"
  shows "publish (Suc (Suc fuel)) quiet thread upd p = Some (Some (Err Shutdown), p)"
    and "\<exists>e. is_terminal e \<and> try_publish (Suc (Suc fuel)) quiet thread upd p = Some (Some (Inl e), p)"
proof -
  have claim: "claim_next (Suc (Suc fuel)) quiet p = Some (Err Shutdown, p) \<and>
    try_claim_next (Suc (Suc fuel)) quiet p = Some (None, p)"
  proof (cases "pr_seq p")
    case (SingleSeq s)
    with assms have "sp_closed s" "1 \<le> sp_buffer_size_i64 s"
      by (auto simp: pr_inv_def sp_inv_def sp_is_closed_def)
    with SingleSeq show ?thesis
      by (cases "pr_unique p")
        (auto simp: claim_next_def claim_next_n_def try_claim_next_def try_claim_next_n_def with_seq_def
          cap_next_n_def cap_try_next_n_def sp_next_n_def sp_try_next_n_def sp_claim_state_error_def quiet_def)
  next
    case (MultiSeq m)
    with assms have "mp_closed m" "1 \<le> mp_buffer_size_i64 m"
      by (auto simp: pr_inv_def mp_inv_def mp_is_closed_def)
    with MultiSeq show ?thesis
      by (cases "pr_unique p")
        (auto simp: claim_next_def claim_next_n_def try_claim_next_def try_claim_next_n_def with_seq_def
          mp_next_n_def mp_try_next_n_def mp_next_n_start_def mp_try_next_n_start_def quiet_def)
  qed
  then show "publish (Suc (Suc fuel)) quiet thread upd p = Some (Some (Err Shutdown), p)" by (simp add: publish_def)
  from claim assms(2) show "\<exists>e. is_terminal e \<and> try_publish (Suc (Suc fuel)) quiet thread upd p = Some (Some (Inl e), p)"
    by (simp add: try_publish_def classify_try_rejection_def Let_def)
qed

section \<open>Properties\<close>

lemma drain_running:
  assumes "\<not> dc_shutdown core"
  shows "drain fuel tr timeout core = drain_loop fuel tr timeout (length (dc_consumers core)) (dc_gating core)
    (seq_get_cursor (dc_sequencer core)) 0"
  using assms by (simp add: drain_def)

text \<open>
  C13: a draining shutdown does what it reports. Whatever the consumers do meanwhile, as long as their
  sequences do not move back: if it returns \<open>Ok\<close>, every gating consumer had reached the cursor as it was
  when the claim path was closed; \<open>Poisoned\<close> is reported only of a poisoned pipeline, the shutdown error
  only when a consumer thread had ended, and \<open>Timeout\<close> only after the given time with a consumer still
  behind the cursor; nothing else is reported.
\<close>

theorem shutdown_reports_truth:
  assumes "tr = denv (seq_close (dc_sequencer core))" and "mono_traj (\<lambda>i. seq_mem (dw_seq (tr i))) (set (dc_gating core))"
    and "\<not> dc_shutdown core" and "shutdown_with_timeout fuel denv env timeout core = Some (r, core')"
  shows "\<exists>t cursor. cursor = seq_mem (dw_seq (tr 1)) (seq_get_cursor (dc_sequencer core)) \<and>
    ((r = Ok () \<and> (\<forall>g\<in>set (dc_gating core). cursor \<le> seq_mem (dw_seq (tr t)) g)) \<or>
     (r = Err Poisoned \<and> seq_is_poisoned (dw_seq (tr t))) \<or>
     (r = Err drained_error \<and> (\<exists>i<length (dc_consumers core). \<exists>t'\<le>t. dw_finished (tr t') i)) \<or>
     (r = Err Timeout \<and> (\<exists>d. timeout = Some d \<and> dw_now (tr 0) + d \<le> dw_now (tr t)) \<and>
        (\<exists>g\<in>set (dc_gating core). \<exists>t'\<le>t. seq_mem (dw_seq (tr t')) g < cursor)))"
proof -
  from assms(1,3,4) obtain t where
    "drain_loop fuel tr timeout (length (dc_consumers core)) (dc_gating core) (seq_get_cursor (dc_sequencer core)) 0 = Some (r, t)"
    by (auto simp: shutdown_with_timeout_def Let_def drain_running seq_close_frame(6) split: option.splits)
  note answer = drain_loop_answer [OF assms(2) this]
  have "(\<exists>d. map_option (\<lambda>d. dw_now (tr 0) + d) timeout = Some d \<and> d \<le> x) =
      (\<exists>d. timeout = Some d \<and> dw_now (tr 0) + d \<le> x)" for x by auto
  with answer show ?thesis unfolding drain_answer_def add_0 by (intro exI [of _ t] exI conjI, rule_tac refl) simp
qed


lemma core_halt_spec:
  assumes "stop_env_ok k env" and "\<not> dc_shutdown core" and "core_halt env core = Some core'"
  shows "dc_consumers core' = [] \<and> dc_ring_buffer core' = dc_ring_buffer core \<and> seq_is_closed (dc_sequencer core') \<and>
    (seq_inv k (dc_sequencer core) \<longrightarrow> seq_inv k (dc_sequencer core')) \<and>
    set (seq_gating (dc_sequencer core')) \<inter> set (dc_gating core) = {} \<and>
    ((\<exists>j<length (dc_consumers core). se_outcome env j \<noteq> None) \<longrightarrow> seq_first_failure (dc_sequencer core') \<noteq> None)"
proof -
  let ?core = "core\<lparr>dc_sequencer := seq_close (dc_sequencer core)\<rparr>"
  have "\<not> dc_shutdown ?core" using assms(2) by simp
  from stop_consumers_spec [OF assms(1) this] assms(3) show ?thesis
    by (auto simp: core_halt_def stop_frame_def seq_close_frame)
qed

lemma shutdown_halts:
  assumes "drain_env_ok k denv" and "\<not> dc_shutdown core"
    and "shutdown_with_timeout fuel denv env timeout core = Some (r, core')"
  obtains q where "core_halt env (core\<lparr>dc_sequencer := q\<rparr>) = Some core'"
    and "seq_inv k (dc_sequencer core) \<longrightarrow> seq_inv k q"
proof -
  from assms(3) obtain t where
    halt: "core_halt env (core\<lparr>dc_sequencer := dw_seq (denv (seq_close (dc_sequencer core)) t)\<rparr>) = Some core'"
    by (auto simp: shutdown_with_timeout_def Let_def split: option.splits)
  have "stop_frame k (seq_close (dc_sequencer core)) (dw_seq (denv (seq_close (dc_sequencer core)) t))"
    using assms(1) by (simp add: drain_env_ok_def)
  then show thesis using that [OF halt] seq_close_frame(2) by (simp add: stop_frame_def)
qed

text \<open>
  A stopped handle is inert. After \<open>halt\<close>, \<open>shutdown\<close>, \<open>shutdown_timeout\<close> or the drop of the handle,
  whatever the drain reported, all consumers have been joined, none of them gates the producers any more,
  and a consumer that panicked has left a failure on record; the claim path is closed: every publishing
  call of the handle is refused with \<open>Shutdown\<close> and changes nothing, so is every producer that was handed
  out before, and stopping again is a no-op.
\<close>

theorem stopped_handle_is_inert:
  assumes "stop_env_ok k env" and "drain_env_ok k denv"
    and "\<not> hd_is_shutdown h" and "\<not> dc_shutdown (hd_core h)" and "pr_inv k (handle_producer h)"
    and "handle_halt env h = Some h' \<or> handle_shutdown fuel denv env h = Some h' \<or>
      (\<exists>d r. handle_shutdown_timeout fuel denv env d h = Some (r, h')) \<or> handle_drop fuel denv env h = Some h'"
  shows "hd_is_shutdown h' \<and> handle_consumer_count h' = 0 \<and> is_claim_closed h' \<and>
    set (seq_gating (dc_sequencer (hd_core h'))) \<inter> set (dc_gating (hd_core h)) = {} \<and>
    ((\<exists>i<handle_consumer_count h. se_outcome env i \<noteq> None) \<longrightarrow> handle_first_failure h' \<noteq> None) \<and>
    handle_publish fl cenv thread upd h' = Some (Some (Err Shutdown), h') \<and>
    handle_try_publish fl cenv thread upd h' = Some (Some (Inl PubShutdown), h') \<and>
    handle_batch_publish fl cenv thread n c h' = Some (Some (Err Shutdown), h') \<and>
    handle_try_batch_publish fl cenv thread n c h' = Some (Some (Inl PubShutdown), h') \<and>
    publish (Suc (Suc fl)) quiet thread upd (handle_create_producer h') =
      Some (Some (Err Shutdown), handle_create_producer h') \<and>
    handle_halt env' h' = Some h' \<and> handle_shutdown fl denv' env' h' = Some h' \<and>
    handle_shutdown_timeout fl denv' env' d' h' = Some (Ok (), h') \<and> handle_drop fl denv' env' h' = Some h'"
proof -
  let ?core = "hd_core h"
  have inv: "seq_inv k (dc_sequencer ?core)" using assms(5) by (simp add: pr_inv_def handle_producer_def)
  from assms(6) have "\<exists>core'. h' = h\<lparr>hd_core := core', hd_is_shutdown := True\<rparr> \<and>
      (core_halt env ?core = Some core' \<or> (\<exists>timeout r. shutdown_with_timeout fuel denv env timeout ?core = Some (r, core')))"
    using assms(3) by (auto simp: handle_halt_def handle_shutdown_def handle_shutdown_timeout_def handle_drop_def)
  then obtain core' q where h': "h' = h\<lparr>hd_core := core', hd_is_shutdown := True\<rparr>"
    and halt: "core_halt env (?core\<lparr>dc_sequencer := q\<rparr>) = Some core'" and q: "seq_inv k q"
    using inv shutdown_halts [OF assms(2,4)] by (metis disruptor_core.surjective disruptor_core.update_convs(2))
  have nd: "\<not> dc_shutdown (?core\<lparr>dc_sequencer := q\<rparr>)" using assms(4) by simp
  note spec = core_halt_spec [OF assms(1) nd halt]
  have "pr_inv k (handle_create_producer h')"
    using assms(5) spec q by (simp add: h' pr_inv_def handle_producer_def handle_create_producer_def create_producer_def producer_new_def)
  moreover have "seq_is_closed (pr_seq (handle_create_producer h'))"
    using spec by (simp add: h' handle_create_producer_def create_producer_def producer_new_def)
  ultimately have "publish (Suc (Suc fl)) quiet thread upd (handle_create_producer h') =
      Some (Some (Err Shutdown), handle_create_producer h')" by (rule closed_claims)
  with spec show ?thesis
    by (simp add: h' handle_consumer_count_def core_consumer_count_def is_claim_closed_def handle_first_failure_def
        handle_publish_def handle_try_publish_def handle_batch_publish_def handle_try_batch_publish_def handle_halt_def
        handle_shutdown_def handle_shutdown_timeout_def handle_drop_def)
qed

text \<open>
  \<open>into_producer\<close> keeps the claim path. The consumers are joined and no longer gate the ring, but the
  claim flag is what it was, and the producer that comes out is the handle's own, capability included, on
  the same ring; the handle left behind refuses to publish and its drop does nothing.
\<close>

theorem into_producer_keeps_claims:
  assumes "stop_env_ok k env" and "\<not> dc_shutdown (hd_core h)"
  shows "\<exists>p h'. into_producer env h = Some (p, h') \<and> pr_unique p = hd_unique h \<and>
    pr_ring p = dc_ring_buffer (hd_core h) \<and> seq_is_closed (pr_seq p) = is_claim_closed h \<and>
    set (seq_gating (pr_seq p)) \<inter> set (dc_gating (hd_core h)) = {} \<and> handle_consumer_count h' = 0 \<and>
    \<not> hd_unique h' \<and> handle_publish fl cenv thread upd h' = Some (Some (Err Shutdown), h') \<and>
    handle_drop fl denv env h' = Some h'"
proof -
  from stop_consumers_spec [OF assms] obtain core' where
    stop: "stop_consumers_keep_claims env (hd_core h) = Some core'" and core':
      "dc_consumers core' = []" "dc_ring_buffer core' = dc_ring_buffer (hd_core h)"
      "seq_is_closed (dc_sequencer core') = seq_is_closed (dc_sequencer (hd_core h))"
      "set (seq_gating (dc_sequencer core')) \<inter> set (dc_gating (hd_core h)) = {}"
    by (auto simp: stop_frame_def)
  let ?p = "\<lparr>pr_ring = dc_ring_buffer core', pr_seq = dc_sequencer core', pr_unique = hd_unique h\<rparr>"
  let ?h = "h\<lparr>hd_core := core', hd_is_shutdown := True, hd_unique := False\<rparr>"
  have "into_producer env h = Some (?p, ?h)"
    by (simp add: into_producer_def stop Let_def handle_producer_def create_producer_def producer_new_def)
  then show ?thesis
    by (rule_tac exI [of _ ?p], rule_tac exI [of _ ?h])
      (simp add: core' is_claim_closed_def handle_consumer_count_def core_consumer_count_def handle_publish_def handle_drop_def)
qed

text \<open>
  A core with one consumer behind the published sequences 0 to 2 of the example ring; while it is drained
  the consumer catches up, and its thread panics when it is stopped.
\<close>

definition example_core :: "(nat, nat) disruptor_core" where
  "example_core =
     \<lparr>dc_ring_buffer = \<lparr>storage = Inline [10, 11, 12, 13], index_mask = 3\<rparr>,
      dc_sequencer = seq_add_gating_sequences (\<lambda>f v. f v) [5] example_gap, dc_unique = False,
      dc_consumers = [\<lparr>sc_sequence = 5, sc_barrier = new_barrier example_gap [],
        sc_info = consumer_info_mutable (default_methods (\<lambda>e _ _ h. (Some (Ok ()), e, h))) None None 0,
        sc_run_mode = Sequential\<rparr>],
      dc_shutdown = False, dc_gating = [5]\<rparr>"

definition example_drain :: "sequencer \<Rightarrow> drain_world traj" where
  "example_drain q t =
     \<lparr>dw_seq = (if t < 9 then q else seq_on_mem (\<lambda>m. m(5 := max 2 (m 5))) q), dw_finished = \<lambda>_. False, dw_now = t\<rparr>"

definition example_stop :: stop_env where
  "example_stop = \<lparr>se_join = \<lambda>_ q. q, se_outcome = \<lambda>_. Some OtherPayload, se_cas = fresh_cas, se_snapshot = 0\<rparr>"

lemma example_core_facts:
  "dc_gating example_core = [5]" "length (dc_consumers example_core) = 1" "\<not> dc_shutdown example_core"
  "seq_get_cursor (dc_sequencer example_core) = 0" "seq_mem (dc_sequencer example_core) 0 = 2"
  by code_simp+

lemma example_drain_mono: "mono_traj (\<lambda>i. seq_mem (dw_seq (example_drain q i))) R"
  by (auto simp: mono_traj_def example_drain_def)

lemma example_stop_ok: "stop_env_ok k example_stop"
  by (auto simp: stop_env_ok_def example_stop_def cas_spec_def fresh_cas_def)

theorem shutdown_reports_truth_witness:
  "map_option fst (shutdown_with_timeout 9 example_drain example_stop None example_core) = Some (Ok ()) \<and>
   map_option fst (shutdown_with_timeout 9 example_drain example_stop (Some 3) example_core) = Some (Err Timeout) \<and>
   (\<exists>t. 2 \<le> seq_mem (dw_seq (example_drain (seq_close (dc_sequencer example_core)) t)) 5)"
proof -
  have "map_option fst (shutdown_with_timeout 9 example_drain example_stop None example_core) = Some (Ok ())" by code_simp
  moreover from this obtain core' where
    "shutdown_with_timeout 9 example_drain example_stop None example_core = Some (Ok (), core')" by auto
  from shutdown_reports_truth [OF refl example_drain_mono example_core_facts(3) this]
  have "\<exists>t. 2 \<le> seq_mem (dw_seq (example_drain (seq_close (dc_sequencer example_core)) t)) 5"
    by (auto simp: example_core_facts example_drain_def seq_close_frame(4))
  moreover have "map_option fst (shutdown_with_timeout 9 example_drain example_stop (Some 3) example_core) = Some (Err Timeout)"
    by code_simp
  ultimately show ?thesis by blast
qed


definition example_handle :: "(nat, nat) disruptor_handle" where
  "example_handle = handle_new example_core"

lemma example_handle_facts:
  "\<not> hd_is_shutdown example_handle" "\<not> dc_shutdown (hd_core example_handle)" "pr_inv 2 (handle_producer example_handle)"
  "handle_consumer_count example_handle = 1" "dc_gating (hd_core example_handle) = [5]"
  by code_simp+

lemma example_drain_ok: "drain_env_ok k (\<lambda>q _. \<lparr>dw_seq = q, dw_finished = \<lambda>_. False, dw_now = 0\<rparr>)"
  by (simp add: drain_env_ok_def)

theorem stopped_handle_is_inert_witness:
  "\<exists>h'. handle_halt example_stop example_handle = Some h' \<and> is_claim_closed h' \<and> handle_first_failure h' \<noteq> None \<and>
     handle_publish 1 quiet ''t'' (\<lambda>e. (e, False)) h' = Some (Some (Err Shutdown), h') \<and>
     5 \<notin> set (seq_gating (dc_sequencer (hd_core h')))"
proof -
  have "handle_halt example_stop example_handle \<noteq> None" by code_simp
  then obtain h' where h': "handle_halt example_stop example_handle = Some h'" by blast
  have "\<exists>i<handle_consumer_count example_handle. se_outcome example_stop i \<noteq> None"
    by (simp add: example_handle_facts example_stop_def)
  with stopped_handle_is_inert [OF example_stop_ok example_drain_ok example_handle_facts(1-3) disjI1 [OF h']] h'
  show ?thesis by (auto simp: example_handle_facts)
qed

theorem into_producer_keeps_claims_witness:
  "\<exists>p h'. into_producer example_stop example_handle = Some (p, h') \<and> \<not> seq_is_closed (pr_seq p) \<and>
     5 \<notin> set (seq_gating (pr_seq p))"
proof -
  have "\<not> is_claim_closed example_handle" by code_simp
  moreover from into_producer_keeps_claims [OF example_stop_ok example_handle_facts(2)] obtain p h' where
    "into_producer example_stop example_handle = Some (p, h')" "seq_is_closed (pr_seq p) = is_claim_closed example_handle"
    "set (seq_gating (pr_seq p)) \<inter> set (dc_gating (hd_core example_handle)) = {}" by blast
  ultimately show ?thesis by (auto simp: example_handle_facts)
qed

end
