(* ===== verification/Dsl.thy ===== *)
theory Dsl
  imports Lifecycle Event_Processor
begin

text \<open>
  The classic DSL of \<open>src/disruptor/disruptor.rs\<close>: construction of a chain of processors, publishing
  through a translator with the guard against reentrant publishes, and the start and stop of the
  processor threads. Handlers are run by \<open>BatchEventProcessor\<close>; the DSL sees a processor through its
  sequence, its barrier and its running and startup flags. Events the threads cause are parameters: a
  trajectory of what the starting or draining thread reads, and an action before each join returns.
\<close>

section \<open>State\<close>

record ('e, 'h) dsl_processor =
  dp_sequence :: seq_ref
  dp_barrier :: barrier
  dp_handler :: "('e, 'h) lifecycle_handler"
  dp_policy :: "'e exception_policy"
  dp_running :: bool
  dp_startup_complete :: bool

text \<open>
  \<open>ds_claim_held\<close> is the thread-local flag of the calling thread, which goes with the lock of the
  single-producer claim path; \<open>ds_handles\<close> holds the indices of the threads not joined yet.
\<close>

record ('e, 'h) disruptor =
  ds_ring :: "'e ring_buffer"
  ds_seq :: sequencer
  ds_size :: usize
  ds_processors :: "('e, 'h) dsl_processor list"
  ds_handles :: "nat list"
  ds_started :: bool
  ds_shutdown :: bool
  ds_claim_held :: bool

text \<open>\<open>Disruptor::new\<close>; the inner \<open>None\<close> is a panic of a sequencer's constructor.\<close>

definition dsl_new ::
    "(nat \<Rightarrow> 'e) \<Rightarrow> usize \<Rightarrow> producer_type \<Rightarrow> wait_strategy \<Rightarrow> seq_ref \<Rightarrow> store \<Rightarrow> ('e, 'h) disruptor result option" where
  "dsl_new factory buffer_size producer_type ws cursor h =
     (if \<not> is_power_of_two buffer_size then Some (Err (InvalidBufferSize buffer_size))
      else case ring_new buffer_size factory of
        Inl e \<Rightarrow> Some (Err e)
      | Inr ring \<Rightarrow>
          map_option (\<lambda>q. Ok \<lparr>ds_ring = ring, ds_seq = q, ds_size = buffer_size, ds_processors = [], ds_handles = [],
              ds_started = False, ds_shutdown = False, ds_claim_held = False\<rparr>)
            (case producer_type of
               Single \<Rightarrow> map_option SingleSeq (sp_new buffer_size ws cursor h)
             | Multi \<Rightarrow> map_option MultiSeq (mp_new buffer_size ws cursor h)))"

definition dsl_with_defaults ::
    "(nat \<Rightarrow> 'e) \<Rightarrow> usize \<Rightarrow> seq_ref \<Rightarrow> store \<Rightarrow> ('e, 'h) disruptor result option" where
  "dsl_with_defaults factory buffer_size = dsl_new factory buffer_size Single BlockingStrategy"

definition get_cursor :: "('e, 'h) disruptor \<Rightarrow> seq_ref" where
  "get_cursor d = seq_get_cursor (ds_seq d)"

definition get_buffer_size :: "('e, 'h) disruptor \<Rightarrow> usize" where
  "get_buffer_size d = ds_size d"

definition dsl_is_poisoned :: "('e, 'h) disruptor \<Rightarrow> bool" where
  "dsl_is_poisoned d = seq_is_poisoned (ds_seq d)"

definition dsl_first_failure :: "('e, 'h) disruptor \<Rightarrow> failure_record option" where
  "dsl_first_failure d = seq_first_failure (ds_seq d)"

definition dsl_is_claim_closed :: "('e, 'h) disruptor \<Rightarrow> bool" where
  "dsl_is_claim_closed d = seq_is_closed (ds_seq d)"

section \<open>Configuring the chain\<close>

text \<open>
  \<open>BatchEventProcessor::new\<close> makes a fresh sequence \<open>own\<close>; the sequence then gates the producers. Both
  configuring methods do the same with the dependencies of their barrier.
\<close>

definition add_processor ::
    "((seq_ref list \<Rightarrow> seq_ref list) \<Rightarrow> seq_ref list \<Rightarrow> seq_ref list) \<Rightarrow> seq_ref \<Rightarrow> seq_ref list \<Rightarrow>
     ('e, 'h) lifecycle_handler \<Rightarrow> 'e exception_policy \<Rightarrow> ('e, 'h) disruptor \<Rightarrow> ('e, 'h) disruptor" where
  "add_processor rcu own deps handler policy d =
     (let barrier = new_barrier (ds_seq d) deps;
          q = seq_on_mem (seq_new INITIAL_CURSOR_VALUE own) (ds_seq d)
      in d\<lparr>ds_seq := seq_add_gating_sequences rcu [own] q,
           ds_processors := ds_processors d @ [\<lparr>dp_sequence = own, dp_barrier = barrier, dp_handler = handler,
             dp_policy = policy, dp_running = False, dp_startup_complete = False\<rparr>]\<rparr>)"

text \<open>A \<open>DisruptorBuilder\<close>: the disruptor and the sequences the next stage waits for.\<close>

type_synonym ('e, 'h) disruptor_builder = "('e, 'h) disruptor \<times> seq_ref list"

definition handle_events_with_exception_handler ::
    "((seq_ref list \<Rightarrow> seq_ref list) \<Rightarrow> seq_ref list \<Rightarrow> seq_ref list) \<Rightarrow> seq_ref \<Rightarrow>
     ('e, 'h) lifecycle_handler \<Rightarrow> 'e exception_policy \<Rightarrow> ('e, 'h) disruptor \<Rightarrow> ('e, 'h) disruptor_builder" where
  "handle_events_with_exception_handler rcu own handler policy d = (add_processor rcu own [] handler policy d, [own])"

definition handle_events_with ::
    "((seq_ref list \<Rightarrow> seq_ref list) \<Rightarrow> seq_ref list \<Rightarrow> seq_ref list) \<Rightarrow> seq_ref \<Rightarrow>
     ('e, 'h) lifecycle_handler \<Rightarrow> ('e, 'h) disruptor \<Rightarrow> ('e, 'h) disruptor_builder" where
  "handle_events_with rcu own handler d =
     handle_events_with_exception_handler rcu own handler default_exception_handler d"

definition then_handle ::
    "((seq_ref list \<Rightarrow> seq_ref list) \<Rightarrow> seq_ref list \<Rightarrow> seq_ref list) \<Rightarrow> seq_ref \<Rightarrow>
     ('e, 'h) lifecycle_handler \<Rightarrow> ('e, 'h) disruptor_builder \<Rightarrow> ('e, 'h) disruptor_builder" where
  "then_handle rcu own handler b =
     (add_processor rcu own (snd b) handler default_exception_handler (fst b), [own])"

definition builder_build :: "('e, 'h) disruptor_builder \<Rightarrow> ('e, 'h) disruptor" where
  "builder_build b = fst b"

section \<open>Publishing\<close>

text \<open>
  The claim guard: \<open>Inl\<close> is the refusal, \<open>Inr\<close> the state with the flag set. For a multi-producer
  sequencer it does nothing. A state is one in which the lock is free unless this thread holds it: while
  another thread holds it, the caller waits.
\<close>

definition claim_guard :: "('e, 'h) disruptor \<Rightarrow> disruptor_error + ('e, 'h) disruptor" where
  "claim_guard d =
     (case ds_seq d of
        SingleSeq _ \<Rightarrow> if ds_claim_held d then Inl ReentrantPublish else Inr (d\<lparr>ds_claim_held := True\<rparr>)
      | MultiSeq _ \<Rightarrow> Inr d)"

text \<open>Dropping the guard: \<open>None\<close> for a multi-producer sequencer, otherwise the flag is cleared.\<close>

definition drop_guard :: "('e, 'h) disruptor \<Rightarrow> ('e, 'h) disruptor" where
  "drop_guard d = (case ds_seq d of SingleSeq _ \<Rightarrow> d\<lparr>ds_claim_held := False\<rparr> | MultiSeq _ \<Rightarrow> d)"

definition get_remaining_capacity :: "('e, 'h) disruptor \<Rightarrow> i64" where
  "get_remaining_capacity d =
     (case claim_guard d of Inr d' \<Rightarrow> seq_remaining_capacity (ds_seq d') | Inl _ \<Rightarrow> 0)"

text \<open>
  A translator is user code that writes the event and may call back into the disruptor: a list of
  writes, nested publishes, queries and a panic. The answers it gets are logged.
\<close>

datatype 'e translator_step =
    WriteEvent "'e \<Rightarrow> i64 \<Rightarrow> 'e"
  | NestedPublish "'e translator_step list"
  | NestedTryPublish "'e translator_step list"
  | AskCapacity
  | PanicNow

datatype nested_answer = Published "unit result" | TryPublished "try_publish_error + i64" | Capacity i64

definition set_seq :: "sequencer \<Rightarrow> ('e, 'h) disruptor \<Rightarrow> ('e, 'h) disruptor" where
  "set_seq q d = d\<lparr>ds_seq := q\<rparr>"

text \<open>
  After the translator has run: poison on panic, publish otherwise, and drop the guard either way. The
  result is the sequence, or \<open>None\<close> for a panic that goes on.
\<close>

definition finish_publish ::
    "string \<Rightarrow> i64 \<Rightarrow> bool \<Rightarrow> ('e, 'h) disruptor \<Rightarrow> i64 option \<times> ('e, 'h) disruptor" where
  "finish_publish thread sequence returned d =
     (if \<not> returned then (None, drop_guard (set_seq (poison_on_panic thread sequence sequence (ds_seq d)) d))
      else case seq_publish sequence (ds_seq d) of
             None \<Rightarrow> (None, drop_guard d)
           | Some q \<Rightarrow> (Some sequence, drop_guard (set_seq q d)))"

definition try_rejection :: "('e, 'h) disruptor \<Rightarrow> try_publish_error" where
  "try_rejection d =
     (let transient = (if seq_remaining_capacity (ds_seq d) > 0 then PubContended else PubFull)
      in if seq_is_poisoned (ds_seq d) then PubPoisoned
         else if seq_is_closed (ds_seq d) then PubShutdown else transient)"

function (sequential) publish_event ::
      "nat \<Rightarrow> claim_env \<Rightarrow> string \<Rightarrow> 'e translator_step list \<Rightarrow> ('e, 'h) disruptor \<Rightarrow> nested_answer list \<Rightarrow>
       (unit result option \<times> ('e, 'h) disruptor \<times> nested_answer list) option"
and try_publish_event ::
      "nat \<Rightarrow> claim_env \<Rightarrow> string \<Rightarrow> 'e translator_step list \<Rightarrow> ('e, 'h) disruptor \<Rightarrow> nested_answer list \<Rightarrow>
       ((try_publish_error + i64) option \<times> ('e, 'h) disruptor \<times> nested_answer list) option"
and translate_to ::
      "nat \<Rightarrow> claim_env \<Rightarrow> string \<Rightarrow> i64 \<Rightarrow> 'e translator_step list \<Rightarrow> ('e, 'h) disruptor \<Rightarrow> nested_answer list \<Rightarrow>
       (bool \<times> ('e, 'h) disruptor \<times> nested_answer list) option" where
  "publish_event fuel env thread tr d log =
     (case claim_guard d of
        Inl e \<Rightarrow> Some (Some (Err e), d, log)
      | Inr d1 \<Rightarrow>
          (case seq_next fuel env (ds_seq d1) of
             None \<Rightarrow> None
           | Some (Inl e, q) \<Rightarrow> Some (Some (Err e), drop_guard (set_seq q d1), log)
           | Some (Inr sequence, q) \<Rightarrow>
               (case translate_to fuel env thread sequence tr (set_seq q d1) log of
                  None \<Rightarrow> None
                | Some (returned, d2, log') \<Rightarrow>
                    let (r, d3) = finish_publish thread sequence returned d2
                    in Some (map_option (\<lambda>_. Ok ()) r, d3, log'))))"
| "try_publish_event fuel env thread tr d log =
     (case claim_guard d of
        Inl ReentrantPublish \<Rightarrow> Some (Some (Inl PubReentrantPublish), d, log)
      | Inl _ \<Rightarrow> Some (Some (Inl PubShutdown), d, log)
      | Inr d1 \<Rightarrow>
          (case seq_try_next fuel env (ds_seq d1) of
             None \<Rightarrow> None
           | Some (None, q) \<Rightarrow>
               let d2 = set_seq q d1 in Some (Some (Inl (try_rejection d2)), drop_guard d2, log)
           | Some (Some sequence, q) \<Rightarrow>
               (case translate_to fuel env thread sequence tr (set_seq q d1) log of
                  None \<Rightarrow> None
                | Some (returned, d2, log') \<Rightarrow>
                    let (r, d3) = finish_publish thread sequence returned d2
                    in Some (map_option Inr r, d3, log'))))"
| "translate_to fuel env thread sequence [] d log = Some (True, d, log)"
| "translate_to fuel env thread sequence (WriteEvent f # tr) d log =
     (case ring_update (ds_ring d) sequence (\<lambda>e. f e sequence) of
        None \<Rightarrow> None
      | Some rb \<Rightarrow> translate_to fuel env thread sequence tr (d\<lparr>ds_ring := rb\<rparr>) log)"
| "translate_to fuel env thread sequence (PanicNow # tr) d log = Some (False, d, log)"
| "translate_to fuel env thread sequence (AskCapacity # tr) d log =
     translate_to fuel env thread sequence tr d (log @ [Capacity (get_remaining_capacity d)])"
| "translate_to fuel env thread sequence (NestedPublish tr' # tr) d log =
     (case publish_event fuel env thread tr' d log of
        None \<Rightarrow> None
      | Some (None, d', log') \<Rightarrow> Some (False, d', log')
      | Some (Some r, d', log') \<Rightarrow> translate_to fuel env thread sequence tr d' (log' @ [Published r]))"
| "translate_to fuel env thread sequence (NestedTryPublish tr' # tr) d log =
     (case try_publish_event fuel env thread tr' d log of
        None \<Rightarrow> None
      | Some (None, d', log') \<Rightarrow> Some (False, d', log')
      | Some (Some r, d', log') \<Rightarrow> translate_to fuel env thread sequence tr d' (log' @ [TryPublished r]))"
  by pat_completeness auto
termination
  by (relation "measure (\<lambda>x. case x of
        Inl (_, _, _, tr, _, _) \<Rightarrow> 2 * size_list size tr + 1
      | Inr (Inl (_, _, _, tr, _, _)) \<Rightarrow> 2 * size_list size tr + 1
      | Inr (Inr (_, _, _, _, tr, _, _)) \<Rightarrow> 2 * size_list size tr)") auto

section \<open>Starting and stopping\<close>

datatype thread_outcome = ThreadOk | ThreadErr disruptor_error | ThreadPanic panic_payload

text \<open>What the threads do until each join returns, and how each thread ended.\<close>

record dsl_stop_env =
  je_join :: "nat \<Rightarrow> sequencer \<Rightarrow> sequencer"
  je_outcome :: "nat \<Rightarrow> thread_outcome"

definition processor_thread_name :: "nat \<Rightarrow> string" where
  "processor_thread_name i = ''badbatch-processor-'' @ show_nat i"

text \<open>\<open>Debug\<close> of a list of strings: quoted, with the escapes of \<open>char::escape_debug\<close> for ASCII.\<close>

definition hex_digit :: "nat \<Rightarrow> char" where
  "hex_digit d = char_of (if d < 10 then d + 48 else d + 87)"

definition show_hex :: "nat \<Rightarrow> string" where
  "show_hex n = (if n < 16 then [hex_digit n] else [hex_digit (n div 16), hex_digit (n mod 16)])"

definition escape_char :: "char \<Rightarrow> string" where
  "escape_char c =
     (let n = of_char c :: nat; bs = char_of (92::nat) in
      if n = 0 then [bs, CHR ''0''] else if n = 9 then [bs, CHR ''t''] else if n = 10 then [bs, CHR ''n'']
      else if n = 13 then [bs, CHR ''r''] else if n = 34 \<or> n = 92 then [bs, c]
      else if n < 32 \<or> n = 127 then [bs] @ ''u{'' @ show_hex n @ ''}'' else [c])"

definition debug_string :: "string \<Rightarrow> string" where
  "debug_string s = [char_of (34::nat)] @ concat (map escape_char s) @ [char_of (34::nat)]"

fun comma_separated :: "string list \<Rightarrow> string" where
  "comma_separated [] = []"
| "comma_separated [x] = x"
| "comma_separated (x # xs) = x @ '', '' @ comma_separated xs"

definition debug_strings :: "string list \<Rightarrow> string" where
  "debug_strings xs = ''['' @ comma_separated (map debug_string xs) @ '']''"

text \<open>The join loop, from the last handle to the first.\<close>

fun join_threads :: "dsl_stop_env \<Rightarrow> nat list \<Rightarrow> sequencer \<Rightarrow> string list \<Rightarrow> sequencer \<times> string list" where
  "join_threads env [] q errs = (q, errs)"
| "join_threads env (i # is) q errs =
     (let q = je_join env i q in
      case je_outcome env i of
        ThreadOk \<Rightarrow> join_threads env is q errs
      | ThreadErr e \<Rightarrow>
          let err_msg = ''event processor thread returned error: '' @ error_to_string e;
              failure = with_thread_name (processor_thread_name i) (failure_record_new ProcessorThread err_msg)
          in join_threads env is (seq_record_failure failure q) (errs @ [err_msg])
      | ThreadPanic payload \<Rightarrow>
          let err_msg = panic_payload_message payload;
              failure = with_thread_name (processor_thread_name i) (failure_record_new ConsumerPanic err_msg)
          in join_threads env is (seq_record_failure failure q) (errs @ [err_msg]))"

definition dp_halt :: "('e, 'h) dsl_processor \<Rightarrow> ('e, 'h) dsl_processor" where
  "dp_halt p = p\<lparr>dp_running := False, dp_barrier := alert (dp_barrier p)\<rparr>"

definition halt_join :: "dsl_stop_env \<Rightarrow> ('e, 'h) disruptor \<Rightarrow> unit result \<times> ('e, 'h) disruptor" where
  "halt_join env d0 =
     (let d = d0\<lparr>ds_shutdown := True, ds_processors := map dp_halt (ds_processors d0)\<rparr>;
          (q, join_errors) = join_threads env (rev (ds_handles d)) (ds_seq d) [];
          d = d\<lparr>ds_seq := q, ds_handles := [], ds_started := False\<rparr>
      in (if join_errors \<noteq> []
          then Err (ShutdownError (''Some threads failed to shutdown cleanly: '' @ debug_strings join_errors))
          else Ok (), d))"

text \<open>What the starting thread sees: the sequencer, the flags of each processor, the ended threads.\<close>

record start_world =
  sw_seq :: sequencer
  sw_running :: "nat \<Rightarrow> bool"
  sw_startup :: "nat \<Rightarrow> bool"
  sw_finished :: "nat \<Rightarrow> bool"

definition sync :: "start_world \<Rightarrow> ('e, 'h) disruptor \<Rightarrow> ('e, 'h) disruptor" where
  "sync w d = d\<lparr>ds_seq := sw_seq w, ds_processors :=
     map (\<lambda>(i, p). p\<lparr>dp_running := sw_running w i, dp_startup_complete := sw_startup w i\<rparr>)
       (zip [0..<length (ds_processors d)] (ds_processors d))\<rparr>"

definition await_startup :: "nat \<Rightarrow> start_world traj \<Rightarrow> nat \<Rightarrow> nat \<Rightarrow> nat option" where
  "await_startup fuel tr i t =
     poll fuel (\<lambda>t. if sw_startup (tr t) i then Inl (t + 1)
                    else if sw_finished (tr (t + 1)) i then Inl (t + 2) else Inr (t + 2)) t"

text \<open>The loop over the processors that are left, from index \<open>i\<close> on; \<open>n\<close> is how many.\<close>

fun start_processors ::
    "nat \<Rightarrow> start_world traj \<Rightarrow> dsl_stop_env \<Rightarrow> nat \<Rightarrow> nat \<Rightarrow> nat \<Rightarrow> ('e, 'h) disruptor \<Rightarrow>
     (unit result \<times> ('e, 'h) disruptor) option" where
  "start_processors fuel tr env i 0 t d = Some (Ok (), (sync (tr t) d)\<lparr>ds_started := True\<rparr>)"
| "start_processors fuel tr env i (Suc n) t d =
     (case await_startup fuel tr i t of
        None \<Rightarrow> None
      | Some t1 \<Rightarrow>
          let exited_early = sw_finished (tr t1) i;
              d = sync (tr (t1 + 1)) (d\<lparr>ds_handles := ds_handles d @ [i]\<rparr>)
          in if seq_is_poisoned (ds_seq d) then Some (Err Poisoned, snd (halt_join env d))
             else if exited_early then
               (case halt_join env d of
                  (Inl e, d') \<Rightarrow> Some (Err e, d')
                | (Inr _, d') \<Rightarrow> Some (Err (ShutdownError ''event processor exited during startup''), d'))
             else start_processors fuel tr env (Suc i) n (t1 + 2) d)"

definition start ::
    "nat \<Rightarrow> (('e, 'h) disruptor \<Rightarrow> start_world traj) \<Rightarrow> dsl_stop_env \<Rightarrow> ('e, 'h) disruptor \<Rightarrow>
     (unit result \<times> ('e, 'h) disruptor) option" where
  "start fuel senv env d0 =
     (if ds_started d0 then Some (Err AlreadyRunning, d0)
      else let d = d0\<lparr>ds_shutdown := False, ds_seq := seq_reopen (ds_seq d0)\<rparr>
           in start_processors fuel (senv d) env 0 (length (ds_processors d)) 0 d)"

definition drain_backlog ::
    "nat \<Rightarrow> drain_world traj \<Rightarrow> nat option \<Rightarrow> ('e, 'h) disruptor \<Rightarrow> (unit result \<times> nat) option" where
  "drain_backlog fuel tr timeout d =
     drain_loop fuel tr timeout (length (ds_handles d)) (map dp_sequence (ds_processors d)) (get_cursor d) 0"

definition dsl_shutdown_with_timeout ::
    "nat \<Rightarrow> (sequencer \<Rightarrow> drain_world traj) \<Rightarrow> dsl_stop_env \<Rightarrow> nat option \<Rightarrow> ('e, 'h) disruptor \<Rightarrow>
     (unit result \<times> ('e, 'h) disruptor) option" where
  "dsl_shutdown_with_timeout fuel denv env timeout d0 =
     (if \<not> ds_started d0 then Some (Ok (), d0)
      else let d = set_seq (seq_close (ds_seq d0)) d0; tr = denv (ds_seq d) in
        case drain_backlog fuel tr timeout d of
          None \<Rightarrow> None
        | Some (drain_result, t) \<Rightarrow>
            let (halt_result, d') = halt_join env (set_seq (dw_seq (tr t)) d)
            in Some (case drain_result of Inl e \<Rightarrow> Err e | Inr _ \<Rightarrow> halt_result, d'))"

definition dsl_shutdown ::
    "nat \<Rightarrow> (sequencer \<Rightarrow> drain_world traj) \<Rightarrow> dsl_stop_env \<Rightarrow> ('e, 'h) disruptor \<Rightarrow>
     (unit result \<times> ('e, 'h) disruptor) option" where
  "dsl_shutdown fuel denv env d = dsl_shutdown_with_timeout fuel denv env None d"

definition dsl_shutdown_timeout ::
    "nat \<Rightarrow> (sequencer \<Rightarrow> drain_world traj) \<Rightarrow> dsl_stop_env \<Rightarrow> nat \<Rightarrow> ('e, 'h) disruptor \<Rightarrow>
     (unit result \<times> ('e, 'h) disruptor) option" where
  "dsl_shutdown_timeout fuel denv env timeout d = dsl_shutdown_with_timeout fuel denv env (Some timeout) d"

definition dsl_halt :: "dsl_stop_env \<Rightarrow> ('e, 'h) disruptor \<Rightarrow> unit result \<times> ('e, 'h) disruptor" where
  "dsl_halt env d =
     (if \<not> ds_started d then (Ok (), d) else halt_join env (set_seq (seq_close (ds_seq d)) d))"

section \<open>A translator under the claim lock\<close>

text \<open>What a translator does to its event, and whether it panics, when all it asks for is refused.\<close>

fun translate_held :: "i64 \<Rightarrow> 'e translator_step list \<Rightarrow> 'e \<Rightarrow> 'e \<times> bool" where
  "translate_held s [] e = (e, False)"
| "translate_held s (WriteEvent f # tr) e = translate_held s tr (f e s)"
| "translate_held s (PanicNow # tr) e = (e, True)"
| "translate_held s (AskCapacity # tr) e = translate_held s tr e"
| "translate_held s (NestedPublish _ # tr) e = translate_held s tr e"
| "translate_held s (NestedTryPublish _ # tr) e = translate_held s tr e"

fun held_answers :: "'e translator_step list \<Rightarrow> nested_answer list" where
  "held_answers [] = []"
| "held_answers (WriteEvent f # tr) = held_answers tr"
| "held_answers (PanicNow # tr) = []"
| "held_answers (AskCapacity # tr) = Capacity 0 # held_answers tr"
| "held_answers (NestedPublish _ # tr) = Published (Err ReentrantPublish) # held_answers tr"
| "held_answers (NestedTryPublish _ # tr) = TryPublished (Inl PubReentrantPublish) # held_answers tr"

lemma ring_update_then:
  assumes "ring_get rb s = Some e"
  shows "\<exists>rb1. ring_update rb s f = Some rb1 \<and> ring_get rb1 s = Some (f e) \<and>
    ring_update rb1 s (\<lambda>_. x) = ring_update rb s (\<lambda>_. x)"
  using assms
  by (cases rb; cases "storage rb")
    (auto simp: ring_get_def ring_update_def slot_index_def nth_slot_def update_slot_def split: if_splits)

lemma held_claim: "ds_seq d = SingleSeq s \<Longrightarrow> ds_claim_held d \<Longrightarrow> claim_guard d = Inl ReentrantPublish"
  by (simp add: claim_guard_def)

lemma translate_held_spec:
  assumes "ds_seq d = SingleSeq s0" and "ds_claim_held d" and "ring_get (ds_ring d) s = Some e"
  shows "\<exists>rb. ring_update (ds_ring d) s (\<lambda>_. fst (translate_held s tr e)) = Some rb \<and>
    translate_to fuel env thread s tr d log =
      Some (\<not> snd (translate_held s tr e), d\<lparr>ds_ring := rb\<rparr>, log @ held_answers tr)"
  using assms
proof (induction tr arbitrary: d e log)
  case Nil
  then show ?case using ring_update_same [of "ds_ring d" s e] by simp
next
  case (Cons x tr)
  note guard = held_claim [OF Cons.prems(1,2)]
  note stay = Cons.IH [OF Cons.prems]
  show ?case
  proof (cases x)
    case (WriteEvent f)
    from ring_update_then [OF Cons.prems(3), where f = "\<lambda>e. f e s"] obtain rb1 where
      rb1: "ring_update (ds_ring d) s (\<lambda>e. f e s) = Some rb1" "ring_get rb1 s = Some (f e s)"
        and same: "ring_update rb1 s (\<lambda>_. x) = ring_update (ds_ring d) s (\<lambda>_. x)" for x
      by (metis Cons.prems(3) ring_update_then option.inject)
    let ?d = "d\<lparr>ds_ring := rb1\<rparr>"
    have "ds_seq ?d = SingleSeq s0" "ds_claim_held ?d" "ring_get (ds_ring ?d) s = Some (f e s)"
      using Cons.prems rb1 by simp_all
    from Cons.IH [OF this, of log] WriteEvent rb1(1) show ?thesis by (auto simp: same)
  next
    case PanicNow
    then show ?thesis using ring_update_same [OF Cons.prems(3)] by simp
  next
    case AskCapacity
    with stay [of "log @ [Capacity 0]"] guard show ?thesis by (simp add: get_remaining_capacity_def)
  next
    case (NestedPublish tr')
    with stay [of "log @ [Published (Err ReentrantPublish)]"] guard show ?thesis by simp
  next
    case (NestedTryPublish tr')
    with stay [of "log @ [TryPublished (Inl PubReentrantPublish)]"] guard show ?thesis by simp
  qed
qed

lemma single_seq_stays:
  "seq_next_n fuel env n (SingleSeq s) = Some (r, q) \<Longrightarrow> \<exists>s'. q = SingleSeq s'"
  "seq_try_next_n fuel env n (SingleSeq s) = Some (r', q) \<Longrightarrow> \<exists>s'. q = SingleSeq s'"
  "\<exists>s'. poison_on_panic thread a b (SingleSeq s) = SingleSeq s'"
  by (auto simp: poison_on_panic_def Let_def)

text \<open>The claimed slot is written, published or poisoned, and the lock is free again.\<close>

lemma finish_held:
  assumes "ring_invar (ds_ring d)"
  shows "(case translate_to fuel env thread s tr (set_seq (SingleSeq s1) (d\<lparr>ds_claim_held := True\<rparr>)) log of
        None \<Rightarrow> None
      | Some (returned, d2, log') \<Rightarrow> let (r, d3) = finish_publish thread s returned d2 in Some (g r, d3, log')) =
    map_option (\<lambda>(r, p). (g r, d\<lparr>ds_ring := pr_ring p, ds_seq := pr_seq p, ds_claim_held := False\<rparr>, log @ held_answers tr))
      (update_and_publish thread (translate_held s tr) s
        \<lparr>pr_ring = ds_ring d, pr_seq = SingleSeq s1, pr_unique = False\<rparr>)"
proof -
  let ?d = "set_seq (SingleSeq s1) (d\<lparr>ds_claim_held := True\<rparr>)"
  from rb.get_total [OF assms] obtain e where e: "ring_get (ds_ring d) s = Some e" by blast
  have pre: "ds_seq ?d = SingleSeq s1" "ds_claim_held ?d" "ring_get (ds_ring ?d) s = Some e"
    using e by (simp_all add: set_seq_def)
  from translate_held_spec [OF pre, of tr fuel env thread log] obtain rb where
    rb: "ring_update (ds_ring d) s (\<lambda>_. fst (translate_held s tr e)) = Some rb" and
    run: "translate_to fuel env thread s tr ?d log = Some (\<not> snd (translate_held s tr e), ?d\<lparr>ds_ring := rb\<rparr>, log @ held_answers tr)"
    by (auto simp: set_seq_def)
  obtain s2 where s2: "poison_on_panic thread s s (SingleSeq s1) = SingleSeq s2" using single_seq_stays(3) by blast
  show ?thesis unfolding run
    by (cases "snd (translate_held s tr e)")
      (simp_all add: update_and_publish_def e rb finish_publish_def drop_guard_def set_seq_def s2)
qed

lemma free_again:
  assumes "\<not> ds_claim_held d"
  shows "d\<lparr>ds_claim_held := False, ds_seq := q\<rparr> = d\<lparr>ds_seq := q\<rparr>"
    "d\<lparr>ds_seq := q, ds_claim_held := False\<rparr> = d\<lparr>ds_seq := q\<rparr>"
    "d\<lparr>ds_ring := rb, ds_seq := q, ds_claim_held := False\<rparr> = d\<lparr>ds_ring := rb, ds_seq := q\<rparr>"
  using assms by (cases d; simp)+

lemma free_claims:
  assumes "ds_seq d = SingleSeq s0" and "\<not> ds_claim_held d"
  shows "claim_guard d = Inr (d\<lparr>ds_claim_held := True\<rparr>)"
    "claim_next fuel env (producer_new (ds_ring d) (ds_seq d)) =
       map_option (\<lambda>(r, q). (r, \<lparr>pr_ring = ds_ring d, pr_seq = q, pr_unique = False\<rparr>)) (seq_next_n fuel env 1 (ds_seq d))"
    "try_claim_next fuel env (producer_new (ds_ring d) (ds_seq d)) =
       map_option (\<lambda>(r, q). (r, \<lparr>pr_ring = ds_ring d, pr_seq = q, pr_unique = False\<rparr>)) (seq_try_next_n fuel env 1 (ds_seq d))"
  using assms
  by (simp_all add: claim_guard_def claim_next_def claim_next_n_def try_claim_next_def try_claim_next_n_def producer_new_def with_seq_def)

lemma publish_event_single:
  assumes "ds_seq d = SingleSeq s0" and "\<not> ds_claim_held d" and "ring_invar (ds_ring d)"
  shows "publish_event fuel env thread tr d log =
      (case claim_next fuel env (producer_new (ds_ring d) (ds_seq d)) of
         None \<Rightarrow> None
       | Some (Inl e, p) \<Rightarrow> Some (Some (Err e), d\<lparr>ds_seq := pr_seq p\<rparr>, log)
       | Some (Inr s, p) \<Rightarrow>
           map_option (\<lambda>(r, p'). (map_option (\<lambda>_. Ok ()) r, d\<lparr>ds_ring := pr_ring p', ds_seq := pr_seq p'\<rparr>, log @ held_answers tr))
             (update_and_publish thread (translate_held s tr) s p))"
proof (cases "seq_next_n fuel env 1 (ds_seq d)")
  case None
  then show ?thesis by (simp add: free_claims [OF assms(1,2)] seq_next_def)
next
  case (Some a)
  obtain r q where a: "a = (r, q)" by fastforce
  with Some assms(1) single_seq_stays(1) obtain s1 where q: "q = SingleSeq s1" by metis
  show ?thesis
  proof (cases r)
    case (Inl e)
    with Some a q show ?thesis
      by (simp add: free_claims [OF assms(1,2)] seq_next_def set_seq_def drop_guard_def free_again [OF assms(2)])
  next
    case (Inr s)
    with Some a q show ?thesis
      using finish_held [OF assms(3), where g = "map_option (\<lambda>_. Ok ())"]
      by (simp add: free_claims [OF assms(1,2)] seq_next_def free_again [OF assms(2)])
  qed
qed

lemma try_publish_event_single:
  assumes "ds_seq d = SingleSeq s0" and "\<not> ds_claim_held d" and "ring_invar (ds_ring d)"
  shows "try_publish_event fuel env thread tr d log =
      (case try_claim_next fuel env (producer_new (ds_ring d) (ds_seq d)) of
         None \<Rightarrow> None
       | Some (None, p) \<Rightarrow>
           Some (Some (Inl (classify_try_rejection p (if claim_remaining_capacity p > 0 then PubContended else PubFull))),
             d\<lparr>ds_seq := pr_seq p\<rparr>, log)
       | Some (Some s, p) \<Rightarrow>
           map_option (\<lambda>(r, p'). (map_option Inr r, d\<lparr>ds_ring := pr_ring p', ds_seq := pr_seq p'\<rparr>, log @ held_answers tr))
             (update_and_publish thread (translate_held s tr) s p))"
proof (cases "seq_try_next_n fuel env 1 (ds_seq d)")
  case None
  then show ?thesis by (simp add: free_claims [OF assms(1,2)] seq_try_next_def)
next
  case (Some a)
  obtain r q where a: "a = (r, q)" by fastforce
  with Some assms(1) single_seq_stays(2) obtain s1 where q: "q = SingleSeq s1" by metis
  show ?thesis
  proof (cases r)
    case None
    with Some a q show ?thesis
      by (simp add: free_claims [OF assms(1,2)] seq_try_next_def set_seq_def drop_guard_def free_again [OF assms(2)]
          Let_def try_rejection_def classify_try_rejection_def claim_remaining_capacity_def)
  next
    case (Some s)
    with \<open>seq_try_next_n fuel env 1 (ds_seq d) = Some a\<close> a q show ?thesis
      using finish_held [OF assms(3), where g = "map_option Inr"]
      by (simp add: free_claims [OF assms(1,2)] seq_try_next_def free_again [OF assms(2)])
  qed
qed

text \<open>
  C12: publishing through a single-producer DSL is publishing through a producer. Whatever the translator
  does, also when it calls back into the disruptor, \<open>publish_event\<close> and \<open>try_publish_event\<close> claim, update
  and publish exactly like the producer does with the translator's writes as the update, or poison the
  pipeline if it panics; every nested publish is refused with the reentrancy error, every nested capacity
  query answers 0, none of them touches the claim, and the claim flag is free again on every exit.
\<close>

theorem dsl_single_publish:
  assumes "ds_seq d = SingleSeq s0" and "\<not> ds_claim_held d" and "ring_invar (ds_ring d)"
  shows "publish_event fuel env thread tr d log =
      (case claim_next fuel env (producer_new (ds_ring d) (ds_seq d)) of
         None \<Rightarrow> None
       | Some (Inl e, p) \<Rightarrow> Some (Some (Err e), d\<lparr>ds_seq := pr_seq p\<rparr>, log)
       | Some (Inr s, p) \<Rightarrow>
           map_option (\<lambda>(r, p'). (map_option (\<lambda>_. Ok ()) r, d\<lparr>ds_ring := pr_ring p', ds_seq := pr_seq p'\<rparr>, log @ held_answers tr))
             (update_and_publish thread (translate_held s tr) s p)) \<and>
    try_publish_event fuel env thread tr d log =
      (case try_claim_next fuel env (producer_new (ds_ring d) (ds_seq d)) of
         None \<Rightarrow> None
       | Some (None, p) \<Rightarrow>
           Some (Some (Inl (classify_try_rejection p (if claim_remaining_capacity p > 0 then PubContended else PubFull))),
             d\<lparr>ds_seq := pr_seq p\<rparr>, log)
       | Some (Some s, p) \<Rightarrow>
           map_option (\<lambda>(r, p'). (map_option Inr r, d\<lparr>ds_ring := pr_ring p', ds_seq := pr_seq p'\<rparr>, log @ held_answers tr))
             (update_and_publish thread (translate_held s tr) s p))"
  using publish_event_single [OF assms] try_publish_event_single [OF assms] by blast

text \<open>
  A translator that asks for the capacity, publishes again and then writes its event, on an empty ring
  of 4 behind a single-producer sequencer.
\<close>

definition example_dsl :: "(nat, nat) disruptor" where
  "example_dsl =
     \<lparr>ds_ring = \<lparr>storage = Inline [0, 0, 0, 0], index_mask = 3\<rparr>,
      ds_seq = SingleSeq (the (sp_new 4 BusySpinStrategy 0 (\<lambda>_. - 1))), ds_size = 4, ds_processors = [], ds_handles = [],
      ds_started = True, ds_shutdown = False, ds_claim_held = False\<rparr>"

definition nesting_translator :: "nat translator_step list" where
  "nesting_translator =
     [AskCapacity, NestedPublish [WriteEvent (\<lambda>_ _. 9)], NestedTryPublish [], WriteEvent (\<lambda>_ s. nat s + 7)]"

theorem dsl_single_publish_witness:
  "\<exists>d. publish_event 9 quiet ''main'' nesting_translator example_dsl [] =
       Some (Some (Ok ()), d, [Capacity 0, Published (Err ReentrantPublish), TryPublished (Inl PubReentrantPublish)]) \<and>
     ring_get (ds_ring d) 0 = Some 7 \<and> \<not> ds_claim_held d \<and> seq_pos (ds_seq d) = 0"
proof -
  have inv: "ring_invar (ds_ring example_dsl)" by code_simp
  have single: "ds_seq example_dsl = SingleSeq (the (sp_new 4 BusySpinStrategy 0 (\<lambda>_. - 1)))" "\<not> ds_claim_held example_dsl"
    by (simp_all add: example_dsl_def)
  let ?p = "producer_new (ds_ring example_dsl) (ds_seq example_dsl)"
  have "map_option (\<lambda>(r, p). (r, map_option (\<lambda>(r', p'). (r', ring_get (pr_ring p') 0, seq_pos (pr_seq p')))
      (update_and_publish ''main'' (translate_held 0 nesting_translator) 0 p))) (claim_next 9 quiet ?p) =
      Some (Inr 0, Some (Some 0, Some 7, 0))" by code_simp
  then obtain p p' where run: "claim_next 9 quiet ?p = Some (Inr 0, p)"
    "update_and_publish ''main'' (translate_held 0 nesting_translator) 0 p = Some (Some 0, p')"
    "ring_get (pr_ring p') 0 = Some 7" "seq_pos (pr_seq p') = 0" by auto
  have "held_answers nesting_translator = [Capacity 0, Published (Err ReentrantPublish), TryPublished (Inl PubReentrantPublish)]"
    by (simp add: nesting_translator_def)
  with dsl_single_publish [OF single inv, of 9 quiet "''main''" nesting_translator "[]"] run single(2) show ?thesis by simp
qed

section \<open>Stopping and starting\<close>

definition dsl_env_ok :: "nat \<Rightarrow> dsl_stop_env \<Rightarrow> bool" where
  "dsl_env_ok k env \<longleftrightarrow> (\<forall>i q. stop_frame k q (je_join env i q))"

lemma join_threads_spec:
  assumes "dsl_env_ok k env" and "join_threads env is q errs = (q', errs')"
  shows "stop_frame k q q' \<and> (errs' = [] \<longleftrightarrow> errs = [] \<and> (\<forall>i\<in>set is. je_outcome env i = ThreadOk)) \<and>
    ((\<exists>i\<in>set is. je_outcome env i \<noteq> ThreadOk) \<longrightarrow> seq_first_failure q' \<noteq> None)"
  using assms(2)
proof (induction "is" arbitrary: q errs)
  case Nil
  then show ?case by simp
next
  case (Cons i "is")
  have step: "stop_frame k q (je_join env i q)" using assms(1) by (simp add: dsl_env_ok_def)
  show ?case
  proof (cases "je_outcome env i = ThreadOk")
    case True
    with Cons.prems have "join_threads env is (je_join env i q) errs = (q', errs')" by simp
    from Cons.IH [OF this] True step show ?thesis by (auto intro: stop_frame_trans)
  next
    case False
    then obtain f msg where run: "join_threads env is (seq_record_failure f (je_join env i q)) (errs @ [msg]) = (q', errs')"
      using Cons.prems by (cases "je_outcome env i") (auto simp: Let_def)
    note IH = Cons.IH [OF run]
    obtain g where "seq_first_failure (seq_record_failure f (je_join env i q)) = Some g" using seq_record_frame(2) by blast
    with IH have "seq_first_failure q' \<noteq> None" by (simp add: stop_frame_def)
    moreover have "stop_frame k q q'"
      using stop_frame_trans [OF step stop_frame_trans [OF seq_record_frame(1)]] IH by blast
    ultimately show ?thesis using IH False by auto
  qed
qed

definition all_halted :: "('e, 'h) disruptor \<Rightarrow> bool" where
  "all_halted d \<longleftrightarrow> ds_shutdown d \<and> \<not> ds_started d \<and> ds_handles d = [] \<and>
     (\<forall>p\<in>set (ds_processors d). \<not> dp_running p \<and> is_alerted (dp_barrier p))"

lemma halt_join_spec:
  assumes "dsl_env_ok k env" and "halt_join env d = (r, d')"
  shows "all_halted d' \<and> stop_frame k (ds_seq d) (ds_seq d') \<and> (r = Ok () \<longleftrightarrow> (\<forall>i\<in>set (ds_handles d). je_outcome env i = ThreadOk)) \<and>
    ((\<exists>i\<in>set (ds_handles d). je_outcome env i \<noteq> ThreadOk) \<longrightarrow> seq_first_failure (ds_seq d') \<noteq> None) \<and>
    length (ds_processors d') = length (ds_processors d)"
proof -
  obtain q errs where j: "join_threads env (rev (ds_handles d)) (ds_seq d) [] = (q, errs)" by fastforce
  from join_threads_spec [OF assms(1) j] assms(2) j show ?thesis
    by (auto simp: halt_join_def all_halted_def dp_halt_def alert_def is_alerted_def split: if_splits)
qed

lemma closed_seq_next:
  assumes "seq_inv k q" and "seq_is_closed q"
  shows "seq_next (Suc (Suc fuel)) quiet q = Some (Err Shutdown, q)"
proof (cases q)
  case (SingleSeq s)
  with assms have "sp_closed s" "1 \<le> sp_buffer_size_i64 s" by (auto simp: sp_inv_def sp_is_closed_def)
  with SingleSeq show ?thesis by (simp add: seq_next_def sp_next_n_def sp_claim_state_error_def quiet_def)
next
  case (MultiSeq m)
  with assms have "mp_closed m" "1 \<le> mp_buffer_size_i64 m" by (auto simp: mp_inv_def mp_is_closed_def)
  with MultiSeq show ?thesis by (simp add: seq_next_def mp_next_n_def mp_next_n_start_def quiet_def)
qed

lemma publish_event_closed:
  assumes "seq_inv k (ds_seq d)" and "seq_is_closed (ds_seq d)" and "\<not> ds_claim_held d"
  shows "publish_event (Suc (Suc fuel)) quiet thread tr d log = Some (Some (Err Shutdown), d, log)"
proof -
  obtain d1 where "claim_guard d = Inr d1" "ds_seq d1 = ds_seq d" "drop_guard (set_seq (ds_seq d) d1) = d"
    using assms(3) by (cases d; cases "ds_seq d") (auto simp: claim_guard_def drop_guard_def set_seq_def)
  with closed_seq_next [OF assms(1,2)] show ?thesis by simp
qed

text \<open>Every stop of a started disruptor is a \<open>halt_join\<close> behind a closed claim path.\<close>

lemma dsl_stop_halts:
  assumes "drain_env_ok k denv" and "ds_started d"
    and "dsl_halt env d = (r, d') \<or> dsl_shutdown fuel denv env d = Some (r, d') \<or>
      (\<exists>timeout. dsl_shutdown_timeout fuel denv env timeout d = Some (r, d'))"
  obtains q r1 where "halt_join env (set_seq q d) = (r1, d')" and "stop_frame k (seq_close (ds_seq d)) q"
    and "r1 \<noteq> Ok () \<longrightarrow> r \<noteq> Ok ()"
proof -
  let ?q = "seq_close (ds_seq d)"
  from assms(3) consider "dsl_halt env d = (r, d')"
    | timeout where "dsl_shutdown_with_timeout fuel denv env timeout d = Some (r, d')"
    by (auto simp: dsl_shutdown_def dsl_shutdown_timeout_def)
  then show thesis
  proof cases
    case 1
    then have "halt_join env (set_seq ?q d) = (r, d')" using assms(2) by (simp add: dsl_halt_def)
    then show thesis by (rule that) simp_all
  next
    case (2 timeout)
    then obtain drained t where drained: "drain_backlog fuel (denv ?q) timeout (set_seq ?q d) = Some (drained, t)"
      using assms(2) by (auto simp: dsl_shutdown_with_timeout_def Let_def set_seq_def split: option.splits)
    obtain r1 d1 where h: "halt_join env (set_seq (dw_seq (denv ?q t)) d) = (r1, d1)" by fastforce
    from 2 assms(2) drained h have r: "r = (case drained of Inl e \<Rightarrow> Err e | Inr _ \<Rightarrow> r1)" and "d1 = d'"
      by (auto simp: dsl_shutdown_with_timeout_def Let_def set_seq_def)
    with h have halt: "halt_join env (set_seq (dw_seq (denv ?q t)) d) = (r1, d')" by simp
    have "stop_frame k ?q (dw_seq (denv ?q t))" using assms(1) by (simp add: drain_env_ok_def)
    with that [OF halt] r show thesis by (cases drained) auto
  qed
qed

text \<open>
  A stopped DSL is stopped. After \<open>halt\<close>, \<open>shutdown\<close> or \<open>shutdown_timeout\<close> of a started disruptor,
  whatever the drain reported: the claim path is closed, every processor has been told to halt and woken,
  every thread has been joined, and the disruptor counts as not started; a thread that ended with an
  error or a panic has left a failure on record and the call reports an error, while \<open>halt\<close> reports
  success when no thread did. Stopping again changes nothing, and publishing is refused.
\<close>

theorem dsl_stop_is_complete:
  assumes "dsl_env_ok k env" and "drain_env_ok k denv" and "ds_started d" and "seq_inv k (ds_seq d)"
    and "dsl_halt env d = (r, d') \<or> dsl_shutdown fuel denv env d = Some (r, d') \<or>
      (\<exists>timeout. dsl_shutdown_timeout fuel denv env timeout d = Some (r, d'))"
  shows "dsl_is_claim_closed d' \<and> \<not> ds_started d' \<and> ds_handles d' = [] \<and> ds_shutdown d' \<and>
    (\<forall>p\<in>set (ds_processors d'). \<not> dp_running p \<and> is_alerted (dp_barrier p)) \<and>
    ((\<exists>i\<in>set (ds_handles d). je_outcome env i \<noteq> ThreadOk) \<longrightarrow> dsl_first_failure d' \<noteq> None \<and> r \<noteq> Ok ()) \<and>
    ((\<forall>i\<in>set (ds_handles d). je_outcome env i = ThreadOk) \<longrightarrow> fst (dsl_halt env d) = Ok ()) \<and>
    dsl_halt env d' = (Ok (), d') \<and> dsl_shutdown fuel denv env d' = Some (Ok (), d') \<and>
    (\<not> ds_claim_held d' \<longrightarrow>
      publish_event (Suc (Suc fl)) quiet thread tr d' [] = Some (Some (Err Shutdown), d', []))"
proof -
  from dsl_stop_halts [OF assms(2,3,5)] obtain q r1 where halt: "halt_join env (set_seq q d) = (r1, d')"
    and q: "stop_frame k (seq_close (ds_seq d)) q" and r1: "r1 \<noteq> Ok () \<longrightarrow> r \<noteq> Ok ()" by blast
  from halt_join_spec [OF assms(1) halt] have spec: "all_halted d'" "stop_frame k q (ds_seq d')"
    "r1 = Ok () \<longleftrightarrow> (\<forall>i\<in>set (ds_handles d). je_outcome env i = ThreadOk)"
    "(\<exists>i\<in>set (ds_handles d). je_outcome env i \<noteq> ThreadOk) \<longrightarrow> seq_first_failure (ds_seq d') \<noteq> None"
    by (simp_all add: set_seq_def)
  have closed: "seq_is_closed (ds_seq d')" "seq_inv k (ds_seq d')"
    using stop_frame_trans [OF q spec(2)] assms(4) seq_close_frame(1,2) by (auto simp: stop_frame_def)
  obtain r2 d2 where h2: "halt_join env (set_seq (seq_close (ds_seq d)) d) = (r2, d2)" by fastforce
  have ok: "fst (dsl_halt env d) = Ok ()" if "\<forall>i\<in>set (ds_handles d). je_outcome env i = ThreadOk"
    using halt_join_spec [OF assms(1) h2] that h2 assms(3) by (simp add: dsl_halt_def set_seq_def)
  have refused: "publish_event (Suc (Suc fl)) quiet thread tr d' [] = Some (Some (Err Shutdown), d', [])" if "\<not> ds_claim_held d'"
    using publish_event_closed [OF closed(2,1) that] .
  have stopped: "\<not> ds_started d'" using spec(1) by (simp add: all_halted_def)
  then have "dsl_halt env d' = (Ok (), d')" "dsl_shutdown fuel denv env d' = Some (Ok (), d')"
    by (simp_all add: dsl_halt_def dsl_shutdown_def dsl_shutdown_with_timeout_def)
  with closed(1) spec r1 ok refused show ?thesis
    by (auto simp: dsl_is_claim_closed_def dsl_first_failure_def all_halted_def)
qed

text \<open>The drain of the DSL answers like the one of the builder, for the sequences of all processors.\<close>

lemma drain_backlog_answer:
  assumes "mono_traj (\<lambda>i. dw_mem (tr i)) (dp_sequence ` set (ds_processors d))" and "drain_backlog fuel tr timeout d = Some (r, t)"
  shows "drain_answer tr (length (ds_handles d)) (map dp_sequence (ds_processors d)) (dw_mem (tr 1) (get_cursor d))
    (map_option (\<lambda>x. dw_now (tr 0) + x) timeout) r t"
  using drain_loop_answer [of tr "map dp_sequence (ds_processors d)"] assms unfolding drain_backlog_def by fastforce

section \<open>Starting\<close>

lemma await_startup_outcome:
  assumes "await_startup fuel tr i t = Some t1"
  obtains "t < t1" and "sw_startup (tr (t1 - 1)) i \<or> sw_finished (tr (t1 - 1)) i"
proof -
  let ?body = "\<lambda>t. if sw_startup (tr t) i then Inl (t + 1) else if sw_finished (tr (t + 1)) i then Inl (t + 2) else Inr (t + 2)"
  from assms obtain s where "t \<le> s" "?body s = Inl t1"
    unfolding await_startup_def by (rule poll_inv [where I = "\<lambda>s. t \<le> s"]) (auto split: if_splits)
  then show thesis by (intro that) (auto split: if_splits)
qed

lemma await_startup_returns:
  assumes "\<forall>t\<ge>T. sw_startup (tr t) i \<or> sw_finished (tr t) i" and "\<forall>t t'. t \<le> t' \<and> sw_finished (tr t) i \<longrightarrow> sw_finished (tr t') i"
  shows "\<exists>t1. await_startup (Suc T) tr i t = Some t1"
proof -
  let ?body = "\<lambda>t. if sw_startup (tr t) i then Inl (t + 1) else if sw_finished (tr (t + 1)) i then Inl (t + 2) else Inr (t + 2)"
  have late: "\<exists>r. ?body s = Inl r" if "T \<le> s" for s
    using assms that by (metis le_add1)
  have "\<exists>r. poll (Suc (T - t)) ?body t = Some r"
    by (rule poll_returns [where I = "\<lambda>_. True" and time = "\<lambda>t. t"]) (use late in \<open>auto split: if_splits\<close>)
  then obtain r where "poll (Suc (T - t)) ?body t = Some r" by blast
  then have "poll (Suc T) ?body t = Some r" by (rule poll_mono) simp
  then show ?thesis by (simp add: await_startup_def)
qed

lemma sync_sel [simp]:
  "ds_seq (sync w d) = sw_seq w" "ds_handles (sync w d) = ds_handles d" "ds_started (sync w d) = ds_started d"
  "length (ds_processors (sync w d)) = length (ds_processors d)"
  by (simp_all add: sync_def)

text \<open>Processor \<open>j\<close> was seen started, with its thread alive and the pipeline not poisoned just after.\<close>

definition seen_started :: "start_world traj \<Rightarrow> nat \<Rightarrow> bool" where
  "seen_started tr j \<longleftrightarrow> (\<exists>t. sw_startup (tr t) j \<and> \<not> sw_finished (tr (t + 1)) j \<and> \<not> seq_is_poisoned (sw_seq (tr (t + 2))))"

lemma start_processors_outcome:
  assumes env: "dsl_env_ok k env" and stable: "\<And>t t' j. t \<le> t' \<Longrightarrow> sw_finished (tr t) j \<Longrightarrow> sw_finished (tr t') j"
    and "start_processors fuel tr env i n t d = Some (r, d')"
  shows "(r = Ok () \<and> ds_started d' \<and> ds_handles d' = ds_handles d @ [i..<i + n] \<and> (\<forall>j\<in>{i..<i + n}. seen_started tr j)) \<or>
    (r \<noteq> Ok () \<and> all_halted d')"
  using assms(3)
proof (induction n arbitrary: i t d)
  case 0
  then show ?case by auto
next
  case (Suc n)
  from Suc.prems obtain t1 where t1: "await_startup fuel tr i t = Some t1" by (auto split: option.splits)
  from await_startup_outcome [OF this] have seen: "t < t1" "sw_startup (tr (t1 - 1)) i \<or> sw_finished (tr (t1 - 1)) i" by blast+
  let ?d = "sync (tr (t1 + 1)) (d\<lparr>ds_handles := ds_handles d @ [i]\<rparr>)"
  obtain rh dh where h: "halt_join env ?d = (rh, dh)" by fastforce
  note hs = halt_join_spec [OF env h]
  note rest = Suc.prems [unfolded start_processors.simps t1 option.case Let_def]
  show ?case
  proof (cases "seq_is_poisoned (sw_seq (tr (t1 + 1))) \<or> sw_finished (tr t1) i")
    case True
    then have "r \<noteq> Ok ()" "d' = dh" using rest h by (auto split: if_splits sum.splits)
    with hs show ?thesis by blast
  next
    case False
    then have run: "start_processors fuel tr env (Suc i) n (t1 + 2) ?d = Some (r, d')" using rest by simp
    have "seen_started tr i"
      unfolding seen_started_def
    proof (intro exI [of _ "t1 - 1"] conjI)
      show "sw_startup (tr (t1 - 1)) i" using seen False stable [of "t1 - 1" t1] by auto
      show "\<not> sw_finished (tr (t1 - 1 + 1)) i" "\<not> seq_is_poisoned (sw_seq (tr (t1 - 1 + 2)))"
        using False seen(1) by simp_all
    qed
    moreover have "{i..<i + Suc n} = insert i {Suc i..<Suc i + n}" "[i..<i + Suc n] = i # [Suc i..<Suc i + n]"
      by (auto simp: upt_conv_Cons)
    ultimately show ?thesis using Suc.IH [OF run] by auto
  qed
qed

lemma start_processors_returns:
  assumes "\<forall>t\<ge>T. \<forall>j<i + n. sw_startup (tr t) j \<or> sw_finished (tr t) j"
    and "\<forall>t t' j. t \<le> t' \<and> sw_finished (tr t) j \<longrightarrow> sw_finished (tr t') j"
  shows "\<exists>r. start_processors (Suc T) tr env i n t d = Some r"
  using assms
proof (induction n arbitrary: i t d)
  case 0
  then show ?case by simp
next
  case (Suc n)
  have "\<forall>t\<ge>T. sw_startup (tr t) i \<or> sw_finished (tr t) i" using Suc.prems(1) by simp
  with await_startup_returns [of T tr i t] Suc.prems(2) obtain t1 where "await_startup (Suc T) tr i t = Some t1" by blast
  with Suc.IH [of "Suc i"] Suc.prems show ?case by (simp add: Let_def split: prod.split sum.split)
qed


section \<open>Restarting\<close>

text \<open>A start on flags that an earlier run has left set.\<close>

lemma stale_start:
  assumes "\<forall>t. \<forall>j<i + n. sw_startup (tr t) j \<and> \<not> sw_running (tr t) j \<and> \<not> sw_finished (tr t) j"
    and "\<forall>t. \<not> seq_is_poisoned (sw_seq (tr t))" and "length (ds_processors d) = i + n"
  shows "\<exists>d'. start_processors (Suc fuel) tr env i n t d = Some (Ok (), d') \<and> ds_started d' \<and>
    (\<forall>p\<in>set (ds_processors d'). \<not> dp_running p)"
  using assms
proof (induction n arbitrary: i t d)
  case 0
  then show ?case by (auto simp: sync_def set_zip)
next
  case (Suc n)
  let ?d = "sync (tr (t + 2)) (d\<lparr>ds_handles := ds_handles d @ [i]\<rparr>)"
  have "await_startup (Suc fuel) tr i t = Some (t + 1)" using Suc.prems(1) by (simp add: await_startup_def)
  moreover have "length (ds_processors ?d) = Suc i + n" using Suc.prems(3) by simp
  ultimately show ?case using Suc.IH [of "Suc i" ?d "t + 3"] Suc.prems(1,2) by (simp add: numeral_eq_Suc)
qed


section \<open>Chains\<close>

definition dsl_chain ::
    "((seq_ref list \<Rightarrow> seq_ref list) \<Rightarrow> seq_ref list \<Rightarrow> seq_ref list) \<Rightarrow> (seq_ref \<times> ('e, 'h) lifecycle_handler) \<Rightarrow>
     (seq_ref \<times> ('e, 'h) lifecycle_handler) list \<Rightarrow> ('e, 'h) disruptor \<Rightarrow> ('e, 'h) disruptor" where
  "dsl_chain rcu x xs d =
     builder_build (fold (\<lambda>(own, handler). then_handle rcu own handler) xs (handle_events_with rcu (fst x) (snd x) d))"

text \<open>The processors of a chain: each waits for the one before it.\<close>

fun chain_deps :: "seq_ref list \<Rightarrow> seq_ref list \<Rightarrow> seq_ref list list" where
  "chain_deps prev [] = []"
| "chain_deps prev (own # owns) = prev # chain_deps [own] owns"

lemma new_barrier_sel [simp]:
  "bar_deps (new_barrier q deps) = deps" "bar_cursor (new_barrier q deps) = seq_get_cursor q"
  by (cases q; simp add: barrier_new_def sp_get_cursor_def mp_get_cursor_def)+

lemma add_gating_sel:
  assumes "rcu_spec rcu"
  shows "set (seq_gating (seq_add_gating_sequences rcu rs q)) = set (seq_gating q) \<union> set rs"
    "seq_mem (seq_add_gating_sequences rcu rs q) = seq_mem q"
    "seq_get_cursor (seq_add_gating_sequences rcu rs q) = seq_get_cursor q"
    "seq_gating (seq_on_mem f q) = seq_gating q" "seq_get_cursor (seq_on_mem f q) = seq_get_cursor q"
  using add_gating_set [OF assms]
  by (cases q; simp add: sp_add_gating_sequences_def mp_add_gating_sequences_def sp_get_cursor_def mp_get_cursor_def)+

lemma add_processor_sel:
  assumes "rcu_spec rcu"
  shows "map dp_sequence (ds_processors (add_processor rcu own deps h x d)) = map dp_sequence (ds_processors d) @ [own]"
    "map (\<lambda>p. bar_deps (dp_barrier p)) (ds_processors (add_processor rcu own deps h x d)) =
       map (\<lambda>p. bar_deps (dp_barrier p)) (ds_processors d) @ [deps]"
    "set (seq_gating (ds_seq (add_processor rcu own deps h x d))) = set (seq_gating (ds_seq d)) \<union> {own}"
    "seq_get_cursor (ds_seq (add_processor rcu own deps h x d)) = seq_get_cursor (ds_seq d)"
    "seq_mem (ds_seq (add_processor rcu own deps h x d)) = (seq_mem (ds_seq d))(own := - 1)"
  by (simp_all add: add_processor_def Let_def add_gating_sel [OF assms] seq_defs INITIAL_CURSOR_VALUE_def fun_eq_iff)

lemma chain_spec:
  assumes "rcu_spec rcu"
  shows "let d' = fst (fold (\<lambda>(own, handler). then_handle rcu own handler) xs (d, prev)) in
    map dp_sequence (ds_processors d') = map dp_sequence (ds_processors d) @ map fst xs \<and>
    map (\<lambda>p. bar_deps (dp_barrier p)) (ds_processors d') = map (\<lambda>p. bar_deps (dp_barrier p)) (ds_processors d) @ chain_deps prev (map fst xs) \<and>
    set (seq_gating (ds_seq d')) = set (seq_gating (ds_seq d)) \<union> fst ` set xs \<and>
    seq_get_cursor (ds_seq d') = seq_get_cursor (ds_seq d) \<and>
    (\<forall>r. seq_mem (ds_seq d') r = (if r \<in> fst ` set xs then - 1 else seq_mem (ds_seq d) r))"
proof (induction xs arbitrary: d prev)
  case Nil
  then show ?case by simp
next
  case (Cons x xs)
  obtain own h where x: "x = (own, h)" by fastforce
  let ?d = "add_processor rcu own prev h default_exception_handler d"
  show ?case using Cons.IH [of ?d "[own]"] add_processor_sel [OF assms, of own prev h default_exception_handler d]
    by (auto simp: x then_handle_def Let_def)
qed

text \<open>
  The chain of the DSL is the pipeline it reads as. After \<open>handle_events_with\<close> and any number of
  \<open>then\<close>, the processors stand in the order of the calls, the first waits for the cursor alone and every
  other one for exactly its predecessor; every processor gates the producers, starts from the initial
  value, and the cursor and the sequences of others are untouched.
\<close>

theorem dsl_chain_topology:
  assumes "rcu_spec rcu" and "ds_processors d = []" and "d' = dsl_chain rcu x xs d"
  shows "map dp_sequence (ds_processors d') = map fst (x # xs) \<and>
    map (\<lambda>p. bar_deps (dp_barrier p)) (ds_processors d') = [] # map (\<lambda>y. [fst y]) (butlast (x # xs)) \<and>
    set (seq_gating (ds_seq d')) = set (seq_gating (ds_seq d)) \<union> fst ` set (x # xs) \<and>
    get_cursor d' = get_cursor d \<and>
    (\<forall>r. seq_mem (ds_seq d') r = (if r \<in> fst ` set (x # xs) then - 1 else seq_mem (ds_seq d) r))"
proof -
  have deps: "chain_deps [own] owns = map (\<lambda>r. [r]) (butlast (own # owns))" for own owns
    by (induction owns arbitrary: own) auto
  have butlast: "map (\<lambda>r. [r]) (butlast (map fst ys)) = map (\<lambda>y. [fst y]) (butlast ys)" for ys :: "(seq_ref \<times> 'c) list"
    by (simp add: map_butlast [symmetric])
  let ?d = "add_processor rcu (fst x) [] (snd x) default_exception_handler d"
  from chain_spec [OF assms(1), of xs ?d "[fst x]"] add_processor_sel [OF assms(1), of "fst x" "[]" "snd x" default_exception_handler d]
  show ?thesis
    using assms(2,3) deps [of "fst x" "map fst xs"] butlast [of "x # xs"]
    by (simp add: dsl_chain_def builder_build_def handle_events_with_def handle_events_with_exception_handler_def Let_def get_cursor_def)
qed

section \<open>Witnesses\<close>

text \<open>A chain of two processors on the example ring, stopped while its first thread reports an error.\<close>

definition example_chain :: "(nat, nat) disruptor" where
  "example_chain =
     dsl_chain (\<lambda>f v. f v) (5, default_methods (\<lambda>e _ _ h. (Some (Ok ()), e, h)))
       [(6, default_methods (\<lambda>e _ _ h. (Some (Ok ()), e, h)))] (example_dsl\<lparr>ds_started := False\<rparr>)"

definition quiet_threads :: dsl_stop_env where
  "quiet_threads = \<lparr>je_join = \<lambda>_ q. q, je_outcome = \<lambda>i. if i = 0 then ThreadErr AlreadyRunning else ThreadOk\<rparr>"

definition stale_world :: "('e, 'h) disruptor \<Rightarrow> start_world traj" where
  "stale_world d t =
     \<lparr>sw_seq = ds_seq d, sw_running = \<lambda>_. False, sw_startup = \<lambda>_. True, sw_finished = \<lambda>_. False\<rparr>"

lemma quiet_threads_ok: "dsl_env_ok k quiet_threads"
  by (simp add: dsl_env_ok_def quiet_threads_def)

lemma example_chain_facts:
  "\<not> ds_started example_chain" "length (ds_processors example_chain) = 2" "ds_handles example_chain = []"
  "seq_is_poisoned (seq_reopen (ds_seq example_chain)) = False"
  by code_simp+

theorem dsl_chain_topology_witness:
  "map (\<lambda>p. bar_deps (dp_barrier p)) (ds_processors example_chain) = [[], [5]] \<and>
   set (seq_gating (ds_seq example_chain)) = {5, 6}"
proof -
  have "rcu_spec (\<lambda>f v. f v)" by (simp add: rcu_spec_def)
  moreover have "ds_processors (example_dsl\<lparr>ds_started := False\<rparr>) = []" "seq_gating (ds_seq (example_dsl\<lparr>ds_started := False\<rparr>)) = []"
    by code_simp+
  ultimately show ?thesis
    using dsl_chain_topology [OF _ _ example_chain_def] by auto
qed

theorem dsl_stop_is_complete_witness:
  "\<exists>r d'. dsl_halt quiet_threads (example_chain\<lparr>ds_started := True, ds_handles := [0, 1]\<rparr>) = (r, d') \<and> r \<noteq> Ok () \<and>
     dsl_is_claim_closed d' \<and> dsl_first_failure d' \<noteq> None \<and>
     publish_event (Suc (Suc 0)) quiet ''main'' [] d' [] = Some (Some (Err Shutdown), d', [])"
proof -
  let ?d = "example_chain\<lparr>ds_started := True, ds_handles := [0, 1]\<rparr>"
  obtain r d' where h: "dsl_halt quiet_threads ?d = (r, d')" by fastforce
  have inv: "seq_inv 2 (ds_seq ?d)" by code_simp
  have "\<not> ds_claim_held (snd (dsl_halt quiet_threads ?d))" by code_simp
  moreover have "\<exists>i\<in>set (ds_handles ?d). je_outcome quiet_threads i \<noteq> ThreadOk" by (simp add: quiet_threads_def)
  moreover have started: "ds_started ?d" by simp
  note stop = dsl_stop_is_complete [OF quiet_threads_ok example_drain_ok started inv disjI1 [OF h]]
  ultimately show ?thesis using stop h by auto
qed



end
