(* ===== verification/Simple_Wait.thy ===== *)
theory Simple_Wait
  imports Wait_Strategy
begin

text \<open>
  The simplified wait strategies of \<open>src/disruptor/simple_wait_strategy.rs\<close> and the adapter that makes
  them full wait strategies. As in \<open>Wait_Strategy\<close> the shared memory is a trajectory; one backoff takes
  one tick, whatever it does. The miss counter is a \<open>u32\<close> that saturates.
\<close>

section \<open>Strategies\<close>

datatype simple_strategy = BusySpin | BusySpinWithHint | Yielding nat | Sleeping nat

definition yielding_default :: simple_strategy where
  "yielding_default = Yielding 100"

definition sleeping_default :: simple_strategy where
  "sleeping_default = Sleeping 1000"

definition is_spin_phase :: "nat \<Rightarrow> nat \<Rightarrow> bool" where
  "is_spin_phase miss spin_tries = (miss < spin_tries)"

text \<open>\<open>backoff\<close>, the stateless idle: the actions it takes.\<close>

fun backoff :: "simple_strategy \<Rightarrow> idle_action list" where
  "backoff BusySpin = []"
| "backoff BusySpinWithHint = [SpinHint]"
| "backoff (Yielding spin_tries) = replicate spin_tries SpinHint @ [YieldNow]"
| "backoff (Sleeping sleep_nanos) = [SleepFor sleep_nanos]"

definition next_miss :: "nat \<Rightarrow> nat" where
  "next_miss miss = min (miss + 1) (2 ^ 32 - 1)"

fun backoff_with_miss :: "simple_strategy \<Rightarrow> nat \<Rightarrow> idle_action list \<times> nat" where
  "backoff_with_miss BusySpin miss = ([], next_miss miss)"
| "backoff_with_miss BusySpinWithHint miss = ([SpinHint], next_miss miss)"
| "backoff_with_miss (Yielding spin_tries) miss =
     ([if is_spin_phase miss spin_tries then SpinHint else YieldNow], next_miss miss)"
| "backoff_with_miss (Sleeping sleep_nanos) miss = ([SleepFor sleep_nanos], next_miss miss)"

section \<open>The adapter\<close>

type_synonym simple_state = "nat \<times> nat \<times> idle_action list"

definition simple_miss :: "simple_strategy \<Rightarrow> nat \<Rightarrow> nat \<Rightarrow> idle_action list \<Rightarrow> simple_state" where
  "simple_miss S t miss acts = (let (a, miss') = backoff_with_miss S miss in (t, miss', acts @ a))"

definition simple_alert_body ::
    "simple_strategy \<Rightarrow> wait_env traj \<Rightarrow> i64 \<Rightarrow> seq_ref \<Rightarrow> seq_ref list \<Rightarrow> simple_state \<Rightarrow> wait_outcome + simple_state" where
  "simple_alert_body S tr sequence cursor deps = (\<lambda>(t, miss, acts).
     if we_alerted (tr t) then Inl (Err Alert, t, acts)
     else
       let available = wait_available_sequence tr (Suc t) cursor deps;
           t1 = Suc t + wait_loads deps
       in if available \<ge> sequence then Inl (Ok available, t1, acts)
          else Inr (simple_miss S (Suc t1) miss acts))"

definition simple_timeout_body ::
    "simple_strategy \<Rightarrow> wait_env traj \<Rightarrow> nat \<Rightarrow> nat \<Rightarrow> i64 \<Rightarrow> seq_ref \<Rightarrow> seq_ref list \<Rightarrow> simple_state \<Rightarrow>
     wait_outcome + simple_state" where
  "simple_timeout_body S tr start timeout sequence cursor deps = (\<lambda>(t, miss, acts).
     if we_alerted (tr t) then Inl (Err Alert, t, acts)
     else
       let available = wait_available_sequence tr (Suc t) cursor deps;
           t1 = Suc t + wait_loads deps
       in if available \<ge> sequence then Inl (Ok available, t1, acts)
          else if we_alerted (tr t1) then Inl (Err Alert, t1, acts)
          else if elapsed tr start (Suc t1) \<ge> timeout then Inl (Err Timeout, Suc t1, acts)
          else Inr (simple_miss S (Suc (Suc t1)) miss acts))"

definition simple_shutdown_body ::
    "simple_strategy \<Rightarrow> wait_env traj \<Rightarrow> i64 \<Rightarrow> seq_ref \<Rightarrow> seq_ref list \<Rightarrow> simple_state \<Rightarrow> wait_outcome + simple_state" where
  "simple_shutdown_body S tr sequence cursor deps = (\<lambda>(t, miss, acts).
     if we_shutdown (tr t) then Inl (Err Alert, t, acts)
     else if we_alerted (tr (Suc t)) then Inl (Err Alert, Suc t, acts)
     else
       let available = wait_available_sequence tr (Suc (Suc t)) cursor deps;
           t1 = Suc (Suc t) + wait_loads deps
       in if available \<ge> sequence then Inl (Ok available, t1, acts)
          else Inr (simple_miss S (Suc t1) miss acts))"

definition adapter_wait_for_with_alert ::
    "simple_strategy \<Rightarrow> nat \<Rightarrow> wait_env traj \<Rightarrow> nat \<Rightarrow> i64 \<Rightarrow> seq_ref \<Rightarrow> seq_ref list \<Rightarrow> wait_outcome option" where
  "adapter_wait_for_with_alert S fuel tr t sequence cursor deps =
     poll fuel (simple_alert_body S tr sequence cursor deps) (t, 0, [])"

definition adapter_wait_for_with_timeout_and_alert ::
    "simple_strategy \<Rightarrow> nat \<Rightarrow> nat \<Rightarrow> wait_env traj \<Rightarrow> nat \<Rightarrow> i64 \<Rightarrow> seq_ref \<Rightarrow> seq_ref list \<Rightarrow> wait_outcome option" where
  "adapter_wait_for_with_timeout_and_alert S timeout fuel tr t sequence cursor deps =
     poll fuel (simple_timeout_body S tr t timeout sequence cursor deps) (Suc t, 0, [])"

definition adapter_wait_for_with_shutdown_and_alert ::
    "simple_strategy \<Rightarrow> nat \<Rightarrow> wait_env traj \<Rightarrow> nat \<Rightarrow> i64 \<Rightarrow> seq_ref \<Rightarrow> seq_ref list \<Rightarrow> wait_outcome option" where
  "adapter_wait_for_with_shutdown_and_alert S fuel tr t sequence cursor deps =
     poll fuel (simple_shutdown_body S tr sequence cursor deps) (t, 0, [])"

definition adapter_needs_signal :: "simple_strategy \<Rightarrow> bool" where
  "adapter_needs_signal S = False"

lemmas adapter_defs = adapter_wait_for_with_alert_def adapter_wait_for_with_timeout_and_alert_def
  adapter_wait_for_with_shutdown_and_alert_def

text \<open>The constructors of adapters.\<close>

definition busy_spin :: simple_strategy where "busy_spin = BusySpin"
definition busy_spin_with_hint :: simple_strategy where "busy_spin_with_hint = BusySpinWithHint"
definition yielding :: simple_strategy where "yielding = yielding_default"
definition yielding_with_tries :: "nat \<Rightarrow> simple_strategy" where "yielding_with_tries n = Yielding n"
definition sleeping :: simple_strategy where "sleeping = sleeping_default"
definition sleeping_with_nanos :: "nat \<Rightarrow> simple_strategy" where "sleeping_with_nanos n = Sleeping n"

lemmas simple_ctor_defs = busy_spin_def busy_spin_with_hint_def yielding_def yielding_with_tries_def sleeping_def
  sleeping_with_nanos_def yielding_default_def sleeping_default_def

section \<open>Simulation of polling loops\<close>

text \<open>Two loops whose bodies decide together and step together.\<close>

definition bodies_agree :: "('s \<Rightarrow> 's2 \<Rightarrow> bool) \<Rightarrow> ('r \<Rightarrow> 'r2 \<Rightarrow> bool) \<Rightarrow> ('s \<Rightarrow> 'r + 's) \<Rightarrow> ('s2 \<Rightarrow> 'r2 + 's2) \<Rightarrow> bool" where
  "bodies_agree R Q body body' \<longleftrightarrow> (\<forall>s s'. R s s' \<longrightarrow> rel_sum Q R (body s) (body' s'))"

lemma poll_simulation:
  assumes "bodies_agree R Q body body'" and "R s s'"
  shows "rel_option Q (poll fuel body s) (poll fuel body' s')"
  using assms(2)
proof (induction fuel arbitrary: s s')
  case (Suc fuel)
  from assms(1) Suc.prems have "rel_sum Q R (body s) (body' s')" by (simp add: bodies_agree_def)
  then show ?case using Suc.IH by cases auto
qed simp

text \<open>
  The idle actions of a strategy, one list per miss: those of the full strategy that the simplified one
  stands for.
\<close>

fun full_idle :: "simple_strategy \<Rightarrow> int \<Rightarrow> idle_action \<times> int" where
  "full_idle (Yielding _) = apply_wait_method"
| "full_idle (Sleeping d) = sleep_idle d"
| "full_idle _ = spin_idle"

fun idles_like_full :: "simple_strategy \<Rightarrow> bool" where
  "idles_like_full (Yielding n) = (n < 2 ^ 32)"
| "idles_like_full BusySpin = False"
| "idles_like_full _ = True"

fun full_counter :: "simple_strategy \<Rightarrow> nat \<Rightarrow> int" where
  "full_counter (Yielding n) miss = int (n - miss)"
| "full_counter _ miss = 0"

text \<open>Same time and, for the strategies that have a counterpart, the same actions.\<close>

definition same_progress :: "simple_strategy \<Rightarrow> simple_state \<Rightarrow> wait_state \<Rightarrow> bool" where
  "same_progress S = (\<lambda>(t, miss, acts) (t', c, acts').
     t = t' \<and> (idles_like_full S \<longrightarrow> acts = acts' \<and> c = full_counter S miss \<and> miss < 2 ^ 32))"

definition same_outcome :: "simple_strategy \<Rightarrow> wait_outcome \<Rightarrow> wait_outcome \<Rightarrow> bool" where
  "same_outcome S = (\<lambda>(r, t, acts) (r', t', acts'). r = r' \<and> t = t' \<and> (idles_like_full S \<longrightarrow> acts = acts'))"

lemma simple_miss_agrees:
  assumes "same_progress S (t, miss, acts) (t, c, acts')" and "full_idle S c = (a, c')"
  shows "same_progress S (simple_miss S u miss acts) (u, c', acts' @ [a])"
proof (cases S)
  case (Yielding n)
  with assms show ?thesis
    by (auto simp: same_progress_def simple_miss_def next_miss_def is_spin_phase_def apply_wait_method_def split: if_splits)
qed (use assms in \<open>auto simp: same_progress_def simple_miss_def next_miss_def spin_idle_def sleep_idle_def\<close>)

lemma same_time_agree:
  assumes "\<And>t miss acts c acts'. same_progress S (t, miss, acts) (t, c, acts') \<Longrightarrow>
    rel_sum Q (same_progress S) (body (t, miss, acts)) (body' (t, c, acts'))"
  shows "bodies_agree (same_progress S) Q body body'"
  using assms by (auto simp: bodies_agree_def same_progress_def)

lemma same_progress_outcome:
  "same_progress S (t, miss, acts) (t, c, acts') \<Longrightarrow> same_outcome S (r, u, acts) (r, u, acts')"
  by (simp add: same_progress_def same_outcome_def)

lemma bodies_agree_full:
  "bodies_agree (same_progress S) (same_outcome S) (simple_alert_body S tr sequence cursor deps)
     (alert_body (full_idle S) tr sequence cursor deps)"
  "bodies_agree (same_progress S) (same_outcome S) (simple_timeout_body S tr start d sequence cursor deps)
     (timeout_body (full_idle S) tr start d sequence cursor deps)"
  "bodies_agree (same_progress S) (same_outcome S) (simple_shutdown_body S tr sequence cursor deps)
     (shutdown_body (full_idle S) tr sequence cursor deps)"
  by (rule same_time_agree; auto simp: simple_alert_body_def alert_body_def simple_timeout_body_def timeout_body_def
      simple_shutdown_body_def shutdown_body_def Let_def intro: simple_miss_agrees same_progress_outcome split: prod.split)+

lemma progress_start: "same_progress S (t, 0, []) (t, full_counter S 0, [])"
  by (simp add: same_progress_def)

lemma rel_option_same_outcome:
  assumes "rel_option (same_outcome S) w w'"
  shows "map_option answer w = map_option answer w'" and "idles_like_full S \<Longrightarrow> w = w'"
  using assms by (auto simp: same_outcome_def answer_def elim: option.rel_cases)

text \<open>The adapter's waits, as waits of the full strategy that its strategy stands for.\<close>

lemma adapter_full:
  "rel_option (same_outcome S) (adapter_wait_for_with_alert S fuel tr t sequence cursor deps)
     (poll fuel (alert_body (full_idle S) tr sequence cursor deps) (t, full_counter S 0, []))"
  "rel_option (same_outcome S) (adapter_wait_for_with_timeout_and_alert S d fuel tr t sequence cursor deps)
     (poll fuel (timeout_body (full_idle S) tr t d sequence cursor deps) (Suc t, full_counter S 0, []))"
  "rel_option (same_outcome S) (adapter_wait_for_with_shutdown_and_alert S fuel tr t sequence cursor deps)
     (poll fuel (shutdown_body (full_idle S) tr sequence cursor deps) (t, full_counter S 0, []))"
  unfolding adapter_defs by (rule poll_simulation, rule bodies_agree_full, rule progress_start)+

lemmas adapter_answers = adapter_full [THEN rel_option_same_outcome(1)]
lemmas adapter_outcomes = adapter_full [THEN rel_option_same_outcome(2)]

text \<open>So every adapter keeps the contract of a wait strategy that barriers rely on.\<close>

lemma contract_transfer:
  assumes "wait_contract w st"
    and "\<And>fuel tr t sequence cursor deps. map_option answer (w' fuel tr t sequence cursor deps) =
      map_option answer (w fuel tr t sequence cursor deps)"
  shows "wait_contract w' st"
proof (rule wait_contractI)
  fix fuel tr t sequence cursor deps out
  assume w': "w' fuel tr t sequence cursor deps = Some out"
  obtain r t' acts where out: "out = (r, t', acts)" by (cases out)
  with w' assms(2) [of fuel tr t sequence cursor deps] obtain acts' where
    w: "w fuel tr t sequence cursor deps = Some (r, t', acts')"
    by (cases "w fuel tr t sequence cursor deps") (auto simp: answer_def)
  show "outcome_ok st tr t sequence cursor deps out"
    using out wait_contract.err_stops [OF assms(1)] wait_contract.ok_reached [OF assms(1)] w
    by (cases r) (fastforce simp: outcome_ok_def)+
qed

lemmas to_spin = poll_alert_idle [where idle' = spin_idle and c' = 0 and acts' = "[]"]
  poll_timeout_idle [where idle' = spin_idle and c' = 0 and acts' = "[]"]
  poll_shutdown_idle [where idle' = spin_idle and c' = 0 and acts' = "[]"]

lemma adapter_answers_spin:
  "map_option answer (adapter_wait_for_with_alert S fuel tr t sequence cursor deps) =
     map_option answer (busy_spin_wait_for_with_alert fuel tr t sequence cursor deps)"
  "map_option answer (adapter_wait_for_with_timeout_and_alert S d fuel tr t sequence cursor deps) =
     map_option answer (busy_spin_wait_for_with_timeout_and_alert d fuel tr t sequence cursor deps)"
  "map_option answer (adapter_wait_for_with_shutdown_and_alert S fuel tr t sequence cursor deps) =
     map_option answer (busy_spin_wait_for_with_shutdown_and_alert fuel tr t sequence cursor deps)"
  unfolding adapter_answers wait_defs by (rule to_spin)+

lemma adapter_returns:
  assumes "(\<forall>u\<ge>T. we_alerted (tr u)) \<or> (\<forall>u\<ge>T. \<forall>r\<in>tracked cursor deps. sequence \<le> we_store (tr u) r)"
  shows "\<exists>out. adapter_wait_for_with_alert S (Suc (T - t)) tr t sequence cursor deps = Some out"
  using busy_spin.returns [OF assms, of t] adapter_answers_spin(1) [of S "Suc (T - t)" tr t sequence cursor deps]
  by (cases "adapter_wait_for_with_alert S (Suc (T - t)) tr t sequence cursor deps") auto

interpretation adapter_alert: live_wait_contract "adapter_wait_for_with_alert S" stops_alert we_alerted for S
proof -
  show "live_wait_contract (adapter_wait_for_with_alert S) stops_alert we_alerted"
    by (intro live_wait_contract.intro live_wait_contract_axioms.intro adapter_returns
        contract_transfer [OF busy_spin.wait_contract_axioms adapter_answers_spin(1)])
qed

interpretation adapter_timeout:
  wait_contract "adapter_wait_for_with_timeout_and_alert S d" "stops_timeout d" for S d
  by (rule contract_transfer [OF busy_spin_timeout.wait_contract_axioms adapter_answers_spin(2)])

interpretation adapter_shutdown: wait_contract "adapter_wait_for_with_shutdown_and_alert S" stops_shutdown for S
  by (rule contract_transfer [OF busy_spin_shutdown.wait_contract_axioms adapter_answers_spin(3)])

section \<open>Properties\<close>


end
