(* ===== verification/Thread_Management.thy ===== *)
theory Thread_Management
  imports Disruptor_Types
begin

text \<open>
  The managed threads of \<open>src/disruptor/thread_management.rs\<close>: the thread context with its automatic
  names, the builder and the join-on-drop wrapper. The \<open>core_affinity\<close> crate is a parameter (the core
  identifiers it reports, and whether it can pin the calling thread); so is the operating system's
  answer to a request for a thread. \<open>None\<close> is a panic.
\<close>

section \<open>Thread context\<close>

record thread_context =
  tc_affinity :: "usize option"
  tc_name :: "string option"
  tc_id :: usize

definition tc_new :: thread_context where
  "tc_new = \<lparr>tc_affinity = None, tc_name = None, tc_id = 0\<rparr>"

definition get_available_cores :: "usize list option \<Rightarrow> usize list" where
  "get_available_cores core_ids = (case core_ids of None \<Rightarrow> [] | Some cs \<Rightarrow> cs)"

definition get_first_available_core :: "usize list option \<Rightarrow> usize option" where
  "get_first_available_core core_ids =
     (case get_available_cores core_ids of [] \<Rightarrow> None | c # _ \<Rightarrow> Some c)"

definition validate_core_id :: "usize list option \<Rightarrow> usize \<Rightarrow> unit option" where
  "validate_core_id core_ids core_id =
     (if core_id \<in> set (get_available_cores core_ids) then Some () else None)"

definition tc_pin_at_core :: "usize list option \<Rightarrow> usize \<Rightarrow> thread_context \<Rightarrow> thread_context option" where
  "tc_pin_at_core core_ids core_id tc =
     map_option (\<lambda>_. tc\<lparr>tc_affinity := Some core_id\<rparr>) (validate_core_id core_ids core_id)"

definition tc_thread_name :: "string \<Rightarrow> thread_context \<Rightarrow> thread_context" where
  "tc_thread_name n tc = tc\<lparr>tc_name := Some n\<rparr>"

definition tc_get_name :: "thread_context \<Rightarrow> string \<times> thread_context" where
  "tc_get_name tc =
     (case tc_name tc of
        Some n \<Rightarrow> (n, tc\<lparr>tc_name := None\<rparr>)
      | None \<Rightarrow> (let i = tc_id tc + 1 in (''processor-'' @ show_nat i, tc\<lparr>tc_id := i\<rparr>)))"

definition tc_get_affinity :: "thread_context \<Rightarrow> usize option \<times> thread_context" where
  "tc_get_affinity tc = (tc_affinity tc, tc\<lparr>tc_affinity := None\<rparr>)"

section \<open>Managed threads\<close>

text \<open>A join handle \<open>'j\<close> belongs to the standard library; \<open>join\<close> is what waiting on it gives.\<close>

record 'j managed_thread =
  mt_join_handle :: "'j option"
  mt_thread_name :: string

definition mt_new :: "'j \<Rightarrow> string \<Rightarrow> 'j managed_thread" where
  "mt_new h n = \<lparr>mt_join_handle = Some h, mt_thread_name = n\<rparr>"

definition mt_join :: "('j \<Rightarrow> 'p + unit) \<Rightarrow> 'j managed_thread \<Rightarrow> 'p + unit" where
  "mt_join join mt = (case mt_join_handle mt of Some h \<Rightarrow> join h | None \<Rightarrow> Inr ())"

definition mt_is_running :: "('j \<Rightarrow> bool) \<Rightarrow> 'j managed_thread \<Rightarrow> bool" where
  "mt_is_running is_finished mt = (case mt_join_handle mt of Some h \<Rightarrow> \<not> is_finished h | None \<Rightarrow> False)"

text \<open>Dropping joins as well and forgets the answer: the handles that are joined.\<close>

definition mt_drop :: "'j managed_thread \<Rightarrow> 'j list" where
  "mt_drop mt = (case mt_join_handle mt of Some h \<Rightarrow> [h] | None \<Rightarrow> [])"

section \<open>Spawning\<close>

datatype affinity_log = Pinned string usize | CouldNotPin string usize

definition set_affinity_if_defined :: "(usize \<Rightarrow> bool) \<Rightarrow> usize option \<Rightarrow> string \<Rightarrow> affinity_log list" where
  "set_affinity_if_defined set_for_current affinity n =
     (case affinity of
        None \<Rightarrow> []
      | Some c \<Rightarrow> if set_for_current c then [Pinned n c] else [CouldNotPin n c])"

text \<open>
  What the new thread runs first: the affinity request with its log line; the user function follows
  in every case.
\<close>

definition tb_spawn ::
    "(string \<Rightarrow> 'i + 'j) \<Rightarrow> (usize \<Rightarrow> bool) \<Rightarrow> thread_context \<Rightarrow> 'i + ('j managed_thread \<times> affinity_log list)" where
  "tb_spawn os_spawn set_for_current tb =
     (let (n, tb1) = tc_get_name tb; (affinity, _) = tc_get_affinity tb1
      in case os_spawn n of
           Inl e \<Rightarrow> Inl e
         | Inr h \<Rightarrow> Inr (mt_new h n, set_affinity_if_defined set_for_current affinity n))"

section \<open>Automatic names\<close>

lemma show_nat_nonempty [simp]: "show_nat n \<noteq> []"
  by (subst show_nat.simps) simp

lemma digit_inj: "digit a = digit b \<Longrightarrow> a < 10 \<Longrightarrow> b < 10 \<Longrightarrow> a = b"
proof -
  assume "digit a = digit b" "a < 10" "b < 10"
  then have "(of_char (digit a) :: nat) = of_char (digit b)" by simp
  then show "a = b" using \<open>a < 10\<close> \<open>b < 10\<close> by (simp add: digit_def)
qed

lemma show_nat_inj: "show_nat m = show_nat n \<Longrightarrow> m = n"
proof (induction m arbitrary: n rule: show_nat.induct)
  case (1 m)
  show ?case
  proof (cases "m < 10 \<or> n < 10")
    case True
    with "1.prems" show ?thesis
      by (auto simp: show_nat.simps [of m] show_nat.simps [of n] append_eq_Cons_conv Cons_eq_append_conv
          intro: digit_inj split: if_splits)
  next
    case False
    with "1.prems" have "show_nat (m div 10) = show_nat (n div 10)" "digit (m mod 10) = digit (n mod 10)"
      by (simp_all add: show_nat.simps [of m] show_nat.simps [of n])
    with "1.IH" False have "m div 10 = n div 10" "m mod 10 = n mod 10" by (auto intro: digit_inj)
    then show ?thesis by (metis div_mult_mod_eq)
  qed
qed

text \<open>Asking an unnamed context repeatedly: the names it gives, in order.\<close>

fun tc_take_names :: "nat \<Rightarrow> thread_context \<Rightarrow> string list" where
  "tc_take_names 0 tc = []"
| "tc_take_names (Suc n) tc = (let (s, tc') = tc_get_name tc in s # tc_take_names n tc')"

lemma tc_take_names_auto:
  "tc_name tc = None \<Longrightarrow>
     tc_take_names n tc = map (\<lambda>i. ''processor-'' @ show_nat i) [Suc (tc_id tc)..<Suc (tc_id tc + n)]"
proof (induction n arbitrary: tc)
  case (Suc n)
  then show ?case using Suc.IH [of "tc\<lparr>tc_id := tc_id tc + 1\<rparr>"]
    by (simp add: tc_get_name_def Let_def upt_conv_Cons del: upt_Suc)
qed simp

text \<open>
  The names of one context are never given twice.
\<close>

theorem automatic_names_distinct: "distinct (tc_take_names n tc_new)"
  by (auto simp: tc_take_names_auto tc_new_def distinct_map inj_on_def dest: show_nat_inj simp del: upt_Suc)

end
