(* ===== verification/Elegant_Consumer.thy ===== *)
theory Elegant_Consumer
  imports Simple_Wait Thread_Management Producer
begin

text \<open>
  The stand-alone consumer of \<open>src/disruptor/elegant_consumer.rs\<close>. Its thread shares three cells with
  its owner: the sequence, the shutdown flag and the poison flag. The loop is a polling loop over the
  trajectories of what others write (the shutdown flag, the ring, the object the panic hook works on);
  every load and every handler call takes a tick. A handler is a function on its own state that also
  answers whether it returned; a panic hook is a function on the object it captures.
\<close>

section \<open>State\<close>

record ('e, 'q) elegant_env =
  ee_shutdown :: "nat \<Rightarrow> bool"
  ee_ring :: "nat \<Rightarrow> 'e ring_buffer"
  ee_target :: "nat \<Rightarrow> 'q"

text \<open>
  \<open>ec_available\<close> is \<open>Some\<close> inside the batch loop; \<open>ec_idle\<close> and \<open>ec_trace\<close> record the idle actions and
  the handler calls (sequence, event, end of batch); \<open>ec_hooked\<close> is what the panic hook left behind.
\<close>

record ('e, 'h, 'q) elegant_state =
  ec_time :: nat
  ec_next :: i64
  ec_available :: "i64 option"
  ec_sequence :: i64
  ec_shutdown :: bool
  ec_poisoned :: bool
  ec_handler :: 'h
  ec_hooked :: "'q option"
  ec_idle :: "idle_action list"
  ec_trace :: "(i64 \<times> 'e \<times> bool) list"

type_synonym ('e, 'h) elegant_handler = "'h \<Rightarrow> 'e \<Rightarrow> i64 \<Rightarrow> bool \<Rightarrow> 'h \<times> bool"

text \<open>How the thread ends: \<open>OutOfBounds\<close> is a slot access outside the ring.\<close>

datatype elegant_exit = EReturned | EPanicked | OutOfBounds

definition elegant_init :: "'h \<Rightarrow> ('e, 'h, 'q) elegant_state" where
  "elegant_init h =
     \<lparr>ec_time = 0, ec_next = 0, ec_available = None, ec_sequence = - 1, ec_shutdown = False, ec_poisoned = False,
      ec_handler = h, ec_hooked = None, ec_idle = [], ec_trace = []\<rparr>"

definition shutdown_load :: "('e, 'q) elegant_env \<Rightarrow> nat \<Rightarrow> ('e, 'h, 'q) elegant_state \<Rightarrow> bool" where
  "shutdown_load env t s \<longleftrightarrow> ee_shutdown env t \<or> ec_shutdown s"

section \<open>The loop\<close>

text \<open>\<open>wait_for_events\<close> answers with the time after it; \<open>None\<close> outside is the panic of \<open>size()\<close>.\<close>

definition wait_for_events ::
    "simple_strategy \<Rightarrow> ('e, 'q) elegant_env \<Rightarrow> nat \<Rightarrow> ('e, 'h, 'q) elegant_state \<Rightarrow>
     (i64 option \<times> idle_action list \<times> nat) option" where
  "wait_for_events S env t s =
     (case ring_size (ee_ring env t) of
        None \<Rightarrow> None
      | Some buffer_size \<Rightarrow>
          if ec_next s < buffer_size \<and> \<not> shutdown_load env t s then Some (Some (ec_next s), [], Suc t)
          else if shutdown_load env (t + 2) s then Some (None, backoff S, t + 3)
          else Some (Some (ec_next s), backoff S, t + 3))"

definition elegant_outer ::
    "simple_strategy \<Rightarrow> ('e, 'q) elegant_env \<Rightarrow> ('e, 'h, 'q) elegant_state \<Rightarrow>
     (elegant_exit \<times> ('e, 'h, 'q) elegant_state) + ('e, 'h, 'q) elegant_state" where
  "elegant_outer S env s =
     (let t = ec_time s in
      if shutdown_load env t s then Inl (EReturned, s)
      else case wait_for_events S env (Suc t) s of
        None \<Rightarrow> Inl (EPanicked, s)
      | Some (available, acts, t') \<Rightarrow>
          Inr (s\<lparr>ec_time := t', ec_available := available, ec_idle := ec_idle s @ acts\<rparr>))"

text \<open>What the thread does when the handler has panicked.\<close>

definition elegant_panic ::
    "('q \<Rightarrow> 'q) option \<Rightarrow> ('e, 'q) elegant_env \<Rightarrow> nat \<Rightarrow> ('e, 'h, 'q) elegant_state \<Rightarrow> ('e, 'h, 'q) elegant_state" where
  "elegant_panic hook env t s =
     s\<lparr>ec_time := Suc t, ec_shutdown := True, ec_poisoned := True,
       ec_hooked := (case hook of None \<Rightarrow> ec_hooked s | Some f \<Rightarrow> Some (f (ee_target env t)))\<rparr>"

definition elegant_inner ::
    "('e, 'h) elegant_handler \<Rightarrow> ('q \<Rightarrow> 'q) option \<Rightarrow> ('e, 'q) elegant_env \<Rightarrow> i64 \<Rightarrow> ('e, 'h, 'q) elegant_state \<Rightarrow>
     (elegant_exit \<times> ('e, 'h, 'q) elegant_state) + ('e, 'h, 'q) elegant_state" where
  "elegant_inner H hook env available s =
     (let t = ec_time s; next_sequence = ec_next s in
      if available \<ge> next_sequence \<and> \<not> shutdown_load env t s then
        let end_of_batch = (available = next_sequence)
        in case ring_get (ee_ring env (Suc t)) next_sequence of
             None \<Rightarrow> Inl (OutOfBounds, s)
           | Some event \<Rightarrow>
               let (h, returned) = H (ec_handler s) event next_sequence end_of_batch;
                   s1 = s\<lparr>ec_handler := h, ec_trace := ec_trace s @ [(next_sequence, event, end_of_batch)]\<rparr>
               in if \<not> returned then Inl (EPanicked, elegant_panic hook env (Suc t) s1)
                  else Inr (s1\<lparr>ec_time := t + 2, ec_next := add_i64 next_sequence 1\<rparr>)
      else Inr (s\<lparr>ec_time := Suc t, ec_available := None, ec_sequence := sub_i64 next_sequence 1\<rparr>))"

definition elegant_body ::
    "simple_strategy \<Rightarrow> ('e, 'h) elegant_handler \<Rightarrow> ('q \<Rightarrow> 'q) option \<Rightarrow> ('e, 'q) elegant_env \<Rightarrow>
     ('e, 'h, 'q) elegant_state \<Rightarrow> (elegant_exit \<times> ('e, 'h, 'q) elegant_state) + ('e, 'h, 'q) elegant_state" where
  "elegant_body S H hook env s =
     (case ec_available s of None \<Rightarrow> elegant_outer S env s | Some available \<Rightarrow> elegant_inner H hook env available s)"

definition consumer_loop ::
    "nat \<Rightarrow> simple_strategy \<Rightarrow> ('e, 'h) elegant_handler \<Rightarrow> ('q \<Rightarrow> 'q) option \<Rightarrow> ('e, 'q) elegant_env \<Rightarrow> 'h \<Rightarrow>
     (elegant_exit \<times> ('e, 'h, 'q) elegant_state) option" where
  "consumer_loop fuel S H hook env h = poll fuel (elegant_body S H hook env) (elegant_init h)"

text \<open>
  The loop with a state of its own: the handler's closure and the state are one pair. The initialiser
  runs first, outside the guard around the handler, and may panic.
\<close>

definition consumer_loop_with_state ::
    "nat \<Rightarrow> simple_strategy \<Rightarrow> ('c \<Rightarrow> 's \<Rightarrow> 'e \<Rightarrow> i64 \<Rightarrow> bool \<Rightarrow> ('c \<times> 's) \<times> bool) \<Rightarrow> 's option \<Rightarrow> ('q \<Rightarrow> 'q) option \<Rightarrow>
     ('e, 'q) elegant_env \<Rightarrow> 'c \<Rightarrow> (elegant_exit \<times> ('e, 'c \<times> 's option, 'q) elegant_state) option" where
  "consumer_loop_with_state fuel S H initialize_state hook env c =
     (case initialize_state of
        None \<Rightarrow> Some (EPanicked, elegant_init (c, None))
      | Some st \<Rightarrow>
          consumer_loop fuel S
            (\<lambda>(c, st) e sq eob. let ((c', st'), ok) = H c (the st) e sq eob in ((c', Some st'), ok))
            hook env (c, Some st))"

section \<open>Construction and shutdown\<close>

definition sequencer_poison_hook :: "string \<Rightarrow> sequencer \<Rightarrow> sequencer" where
  "sequencer_poison_hook thread q =
     seq_poison (seq_record_failure (with_thread_name thread
       (failure_record_new ConsumerPanic ''elegant consumer handler panicked'')) q)"

definition elegant_thread_name :: "usize option \<Rightarrow> string" where
  "elegant_thread_name core_id =
     (case core_id of Some c \<Rightarrow> ''elegant-consumer-core-'' @ show_nat c | None \<Rightarrow> ''elegant-consumer'')"

text \<open>The managed thread of a new consumer: \<open>None\<close> when the requested core does not exist.\<close>

definition spawn_plain ::
    "(string \<Rightarrow> 'i + 'j) \<Rightarrow> usize list option \<Rightarrow> (usize \<Rightarrow> bool) \<Rightarrow> usize option \<Rightarrow>
     ('i + ('j managed_thread \<times> affinity_log list)) option" where
  "spawn_plain os_spawn core_ids set_for_current core_id =
     (let b = tc_thread_name (elegant_thread_name core_id) tc_new
      in map_option (tb_spawn os_spawn set_for_current)
           (case core_id of None \<Rightarrow> Some b | Some core \<Rightarrow> tc_pin_at_core core_ids core b))"

definition spawn_with_state ::
    "(string \<Rightarrow> 'i + 'j) \<Rightarrow> (usize \<Rightarrow> bool) \<Rightarrow> 'i + ('j managed_thread \<times> affinity_log list)" where
  "spawn_with_state os_spawn set_for_current =
     tb_spawn os_spawn set_for_current (tc_thread_name ''elegant-consumer-with-state'' tc_new)"

text \<open>The owner's side: \<open>shutdown\<close> stores the flag at time \<open>t\<close> and joins the thread.\<close>

definition shut_from :: "nat \<Rightarrow> ('e, 'q) elegant_env \<Rightarrow> ('e, 'q) elegant_env" where
  "shut_from T env = env\<lparr>ee_shutdown := (\<lambda>t. ee_shutdown env t \<or> T \<le> t)\<rparr>"

definition elegant_shutdown ::
    "nat \<Rightarrow> nat \<Rightarrow> simple_strategy \<Rightarrow> ('e, 'h) elegant_handler \<Rightarrow> ('q \<Rightarrow> 'q) option \<Rightarrow> ('e, 'q) elegant_env \<Rightarrow> 'h \<Rightarrow>
     (elegant_exit \<times> ('e, 'h, 'q) elegant_state) option" where
  "elegant_shutdown T fuel S H hook env h = consumer_loop fuel S H hook (shut_from T env) h"

text \<open>Dropping stores the flag, and the drop of the managed thread joins and forgets the answer.\<close>

definition elegant_drop ::
    "nat \<Rightarrow> nat \<Rightarrow> simple_strategy \<Rightarrow> ('e, 'h) elegant_handler \<Rightarrow> ('q \<Rightarrow> 'q) option \<Rightarrow> ('e, 'q) elegant_env \<Rightarrow> 'h \<Rightarrow>
     ('e, 'h, 'q) elegant_state option" where
  "elegant_drop T fuel S H hook env h = map_option snd (elegant_shutdown T fuel S H hook env h)"

definition elegant_is_running :: "bool \<Rightarrow> ('j \<Rightarrow> bool) \<Rightarrow> 'j managed_thread option \<Rightarrow> bool" where
  "elegant_is_running shutdown is_finished thread \<longleftrightarrow>
     \<not> shutdown \<and> (case thread of None \<Rightarrow> False | Some mt \<Rightarrow> mt_is_running is_finished mt)"

lemmas elegant_defs = elegant_body_def elegant_outer_def elegant_inner_def wait_for_events_def shutdown_load_def

section \<open>Invariant\<close>

text \<open>
  After \<open>n\<close> handler calls the calls were for \<open>0, 1, .., n - 1\<close>, each its own batch, and each event is
  what the ring held when it was read.
\<close>

definition elegant_calls :: "('e, 'q) elegant_env \<Rightarrow> nat \<Rightarrow> (i64 \<times> 'e \<times> bool) list \<Rightarrow> bool" where
  "elegant_calls env n tr \<longleftrightarrow>
     map (\<lambda>(sq, e, eob). (sq, eob)) tr = map (\<lambda>i. (int i, True)) [0..<n] \<and>
     list_all (\<lambda>(sq, e, eob). \<exists>t. ring_get (ee_ring env t) sq = Some e) tr"

lemma elegant_calls_Nil [simp]: "elegant_calls env 0 []"
  by (simp add: elegant_calls_def)

lemma elegant_calls_snoc:
  "elegant_calls env n tr \<Longrightarrow> ring_get (ee_ring env t) (int n) = Some e \<Longrightarrow>
     elegant_calls env (Suc n) (tr @ [(int n, e, True)])"
  by (auto simp: elegant_calls_def)

lemma elegant_calls_length: "elegant_calls env n tr \<Longrightarrow> length tr = n"
  unfolding elegant_calls_def by (metis length_map length_upt minus_nat.diff_0)

definition elegant_inv :: "nat \<Rightarrow> ('e, 'q) elegant_env \<Rightarrow> nat \<Rightarrow> ('e, 'h, 'q) elegant_state \<Rightarrow> bool" where
  "elegant_inv T env n s \<longleftrightarrow>
     ec_next s = int n \<and> elegant_calls env n (ec_trace s) \<and> 2 * n \<le> ec_time s \<and>
     \<not> ec_shutdown s \<and> \<not> ec_poisoned s \<and> ec_hooked s = None \<and>
     (case ec_available s of
        None \<Rightarrow> ec_sequence s = int n - 1
      | Some a \<Rightarrow> ec_time s \<le> T + 1 \<and> (a = int n \<and> ec_sequence s = int n - 1 \<or>
          a = int n - 1 \<and> ec_sequence s = int n - 2))"

lemma elegant_inv_init: "elegant_inv T env 0 (elegant_init h)"
  by (simp add: elegant_inv_def elegant_init_def)

text \<open>How the thread may end after the handler was called for \<open>0, .., n - 1\<close> and returned.\<close>

definition elegant_result ::
    "('q \<Rightarrow> 'q) option \<Rightarrow> ('e, 'q) elegant_env \<Rightarrow> nat \<Rightarrow> elegant_exit \<times> ('e, 'h, 'q) elegant_state \<Rightarrow> bool" where
  "elegant_result hook env n = (\<lambda>(exit, s).
     ec_next s = int n \<and> ec_sequence s = int n - 1 \<and>
     (case exit of
        OutOfBounds \<Rightarrow> False
      | EReturned \<Rightarrow> elegant_calls env n (ec_trace s) \<and> \<not> ec_poisoned s \<and> ec_hooked s = None
      | EPanicked \<Rightarrow> elegant_calls env (Suc n) (ec_trace s) \<and> ec_poisoned s \<and> ec_shutdown s \<and>
          (\<exists>t. ec_hooked s = map_option (\<lambda>f. f (ee_target env t)) hook)))"

lemma shut_from_sel [simp]:
  "ee_ring (shut_from T env) = ee_ring env" "ee_target (shut_from T env) = ee_target env"
  "ee_shutdown (shut_from T env) t \<longleftrightarrow> ee_shutdown env t \<or> T \<le> t"
  "elegant_calls (shut_from T env) = elegant_calls env"
  by (auto simp: shut_from_def elegant_calls_def fun_eq_iff)

lemma ring_invar_size: "ring_invar rb \<Longrightarrow> ring_size rb = Some (int (ring_buffer_size rb))"
  by (simp add: ring_size_def ring_invar_def ring_buffer_size_def i64_try_from_def)

lemma outer_keeps:
  assumes "elegant_inv T env n s" and "ec_available s = None" and "\<And>t. ring_invar (ee_ring env t)"
    and "elegant_outer S (shut_from T env) s = Inr s'"
  shows "elegant_inv T env n s' \<and> ec_time s < ec_time s'"
  using assms
  by (auto simp: elegant_outer_def wait_for_events_def shutdown_load_def elegant_inv_def ring_invar_size Let_def
      split: if_splits)

lemma outer_result:
  assumes "elegant_inv T env n s" and "ec_available s = None" and "\<And>t. ring_invar (ee_ring env t)"
    and "elegant_outer S (shut_from T env) s = Inl r"
  shows "elegant_result hook env n r"
  using assms
  by (auto simp: elegant_outer_def wait_for_events_def shutdown_load_def elegant_inv_def elegant_result_def
      ring_invar_size Let_def split: if_splits)

text \<open>One turn of the batch loop: it leaves the batch, or calls the handler on the next slot.\<close>

lemma inner_cases:
  assumes inv: "elegant_inv T env n s" and a: "ec_available s = Some a" and ring: "\<And>t. ring_invar (ee_ring env t)"
    and T: "int T \<le> i64_max"
  obtains (leave) "a \<noteq> int n \<or> ee_shutdown env (ec_time s) \<or> T \<le> ec_time s"
      "elegant_inner H hook (shut_from T env) a s =
         Inr (s\<lparr>ec_time := Suc (ec_time s), ec_available := None, ec_sequence := int n - 1\<rparr>)"
    | (call) e h ok where "a = int n" "ec_time s < T"
      "ring_get (ee_ring env (Suc (ec_time s))) (int n) = Some e" "H (ec_handler s) e (int n) True = (h, ok)"
      "elegant_inner H hook (shut_from T env) a s =
         (let s1 = s\<lparr>ec_handler := h, ec_trace := ec_trace s @ [(int n, e, True)]\<rparr>
          in if ok then Inr (s1\<lparr>ec_time := ec_time s + 2, ec_next := int n + 1\<rparr>)
             else Inl (EPanicked, elegant_panic hook (shut_from T env) (Suc (ec_time s)) s1))"
proof -
  have s: "ec_next s = int n" "2 * n \<le> ec_time s" "\<not> ec_shutdown s" "a = int n \<or> a = int n - 1" "ec_time s \<le> T + 1"
    using inv a by (auto simp: elegant_inv_def)
  have sub: "sub_i64 (int n) 1 = int n - 1" by (rule sub_i64_id) (use s T in \<open>simp add: in_i64_def\<close>)
  show thesis
  proof (cases "a = int n \<and> \<not> ee_shutdown env (ec_time s) \<and> \<not> T \<le> ec_time s")
    case False
    with s sub show thesis by (intro leave) (auto simp: elegant_inner_def shutdown_load_def Let_def)
  next
    case True
    obtain e where e: "ring_get (ee_ring env (Suc (ec_time s))) (int n) = Some e" using rb.get_total [OF ring] by blast
    obtain h ok where h: "H (ec_handler s) e (int n) True = (h, ok)" by fastforce
    have add: "add_i64 (int n) 1 = int n + 1" by (rule add_i64_id) (use s T True in \<open>simp add: in_i64_def\<close>)
    from True s e h add show thesis
      by (intro call [of e h ok]) (simp_all add: elegant_inner_def shutdown_load_def Let_def)
  qed
qed

lemma inner_keeps:
  assumes "elegant_inv T env n s" and "ec_available s = Some a" and "\<And>t. ring_invar (ee_ring env t)"
    and "int T \<le> i64_max" and step: "elegant_inner H hook (shut_from T env) a s = Inr s'"
  shows "(elegant_inv T env n s' \<or> elegant_inv T env (Suc n) s') \<and> ec_time s < ec_time s'"
  using assms(1-4)
proof (cases rule: inner_cases [of T env n s a H hook])
  case leave
  have "s' = s\<lparr>ec_time := Suc (ec_time s), ec_available := None, ec_sequence := int n - 1\<rparr>"
    using leave(2) step by simp
  with assms(1,2) have "elegant_inv T env n s' \<and> ec_time s < ec_time s'" by (simp add: elegant_inv_def)
  then show ?thesis by simp
next
  case (call e h ok)
  from assms(1) have "elegant_calls env n (ec_trace s)" by (simp add: elegant_inv_def)
  then have c: "elegant_calls env (Suc n) (ec_trace s @ [(int n, e, True)])" using call(3) by (rule elegant_calls_snoc)
  have "s' = s\<lparr>ec_handler := h, ec_trace := ec_trace s @ [(int n, e, True)], ec_time := ec_time s + 2, ec_next := int n + 1\<rparr>"
    using call(5) step by (auto simp: Let_def split: if_splits)
  with assms(1,2) call(1,2) c have "elegant_inv T env (Suc n) s' \<and> ec_time s < ec_time s'" by (simp add: elegant_inv_def)
  then show ?thesis by simp
qed

lemma inner_result:
  assumes "elegant_inv T env n s" and "ec_available s = Some a" and "\<And>t. ring_invar (ee_ring env t)"
    and "int T \<le> i64_max" and step: "elegant_inner H hook (shut_from T env) a s = Inl r"
  shows "elegant_result hook env n r"
  using assms(1-4)
proof (cases rule: inner_cases [of T env n s a H hook])
  case leave
  with step show ?thesis by simp
next
  case (call e h ok)
  from assms(1) have "elegant_calls env n (ec_trace s)" by (simp add: elegant_inv_def)
  then have "elegant_calls env (Suc n) (ec_trace s @ [(int n, e, True)])" using call(3) by (rule elegant_calls_snoc)
  with call assms(1,2) step show ?thesis
    by (auto simp: elegant_inv_def elegant_result_def elegant_panic_def Let_def split: if_splits option.splits)
qed

lemma elegant_body_keeps:
  assumes "\<And>t. ring_invar (ee_ring env t)" and "int T \<le> i64_max" and "elegant_inv T env n s"
    and "elegant_body S H hook (shut_from T env) s = Inr s'"
  shows "(\<exists>n'. elegant_inv T env n' s') \<and> ec_time s < ec_time s'"
proof (cases "ec_available s")
  case None
  with assms(4) show ?thesis using outer_keeps [OF assms(3) None assms(1)] by (auto simp: elegant_body_def)
next
  case (Some a)
  with assms(4) have "elegant_inner H hook (shut_from T env) a s = Inr s'" by (simp add: elegant_body_def)
  from inner_keeps [OF assms(3) Some assms(1,2) this] show ?thesis by meson
qed

lemma elegant_body_result:
  assumes "\<And>t. ring_invar (ee_ring env t)" and "int T \<le> i64_max" and "elegant_inv T env n s"
    and "elegant_body S H hook (shut_from T env) s = Inl r"
  shows "elegant_result hook env n r"
proof (cases "ec_available s")
  case None
  with assms(4) show ?thesis using outer_result [OF assms(3) None assms(1)] by (simp add: elegant_body_def)
next
  case (Some a)
  with assms(4) have "elegant_inner H hook (shut_from T env) a s = Inl r" by (simp add: elegant_body_def)
  from inner_result [OF assms(3) Some assms(1,2) this] show ?thesis .
qed

lemma elegant_body_late:
  assumes "elegant_inv T env n s" and "T + 2 \<le> ec_time s"
  shows "\<exists>r. elegant_body S H hook (shut_from T env) s = Inl r"
  using assms
  by (cases "ec_available s") (auto simp: elegant_inv_def elegant_body_def elegant_outer_def shutdown_load_def Let_def)

lemma elegant_shutdown_result:
  assumes "\<And>t. ring_invar (ee_ring env t)" and "int T \<le> i64_max"
    and "elegant_shutdown T fuel S H hook env h = Some r"
  shows "\<exists>n. elegant_result hook env n r"
proof (rule poll_inv [OF assms(3) [unfolded elegant_shutdown_def consumer_loop_def], where I = "\<lambda>s. \<exists>n. elegant_inv T env n s"])
  show "\<exists>n. elegant_inv T env n (elegant_init h)" by (rule exI [of _ 0]) (rule elegant_inv_init)
qed (use elegant_body_keeps [OF assms(1,2)] elegant_body_result [OF assms(1,2)] in blast)+

lemma elegant_shutdown_returns:
  fixes env :: "('e, 'q) elegant_env" and h :: 'h
  assumes "\<And>t. ring_invar (ee_ring env t)" and "int T \<le> i64_max"
  shows "\<exists>r. elegant_shutdown T (T + 3) S H hook env h = Some r"
proof -
  let ?s = "elegant_init h :: ('e, 'h, 'q) elegant_state"
  have "\<exists>r. poll (Suc (T + 2 - ec_time ?s)) (elegant_body S H hook (shut_from T env)) ?s = Some r"
  proof (rule poll_returns [where I = "\<lambda>s. \<exists>n. elegant_inv T env n s" and time = ec_time])
    show "\<exists>n. elegant_inv T env n ?s" by (rule exI [of _ 0]) (rule elegant_inv_init)
  qed (use elegant_body_keeps [OF assms] elegant_body_late in blast)+
  then show ?thesis by (simp add: elegant_shutdown_def consumer_loop_def elegant_init_def numeral_3_eq_3)
qed

section \<open>Pace\<close>

text \<open>
  While nobody shuts it down the loop never waits: the time it has used is bounded by the number of
  handler calls.
\<close>

definition elegant_pace :: "nat \<Rightarrow> ('e, 'h, 'q) elegant_state \<Rightarrow> bool" where
  "elegant_pace T s \<longleftrightarrow>
     (let n = nat (ec_next s) in
      case ec_available s of
        None \<Rightarrow> ec_time s \<le> 7 * n \<or> T \<le> ec_time s \<and> ec_time s \<le> 7 * n + 5
      | Some a \<Rightarrow> ec_time s < (if a = ec_next s then 7 * n + 5 else 7 * n))"

lemma elegant_body_pace:
  assumes "\<And>t. ring_invar (ee_ring env t)" and "int T \<le> i64_max" and "\<And>t. t < T \<Longrightarrow> \<not> ee_shutdown env t"
    and inv: "elegant_inv T env n s" and "elegant_pace T s"
    and "elegant_body S H hook (shut_from T env) s = Inr s'"
  shows "elegant_pace T s'"
proof (cases "ec_available s")
  case None
  with inv assms(5,6) show ?thesis
    using assms(3) [of "Suc (Suc (Suc (ec_time s)))"]
    by (auto simp: elegant_body_def elegant_outer_def wait_for_events_def shutdown_load_def elegant_inv_def
        elegant_pace_def ring_invar_size [OF assms(1)] Let_def split: if_splits)
next
  case (Some a)
  note st = assms(6) [unfolded elegant_body_def Some option.case]
  show ?thesis
    using inv Some assms(1,2)
  proof (cases rule: inner_cases [of T env n s a H hook])
    case leave
    with inv Some st assms(3,5) show ?thesis
      by (cases "T \<le> ec_time s") (auto simp: elegant_inv_def elegant_pace_def Let_def split: if_splits)
  next
    case (call e h ok)
    with inv Some st assms(5) show ?thesis
      by (auto simp: elegant_inv_def elegant_pace_def Let_def nat_add_distrib split: if_splits)
  qed
qed

section \<open>Properties\<close>

text \<open>
  Shutting a consumer down. However the handler behaves and whatever the ring holds, \<open>shutdown\<close>
  joins the thread; the handler has been called for \<open>0, 1, 2, ..\<close> in order, each sequence once and as
  its own batch, inside the ring; the published sequence is the last one whose call returned. The
  join reports a panic only if the handler panicked, and then the consumer is marked poisoned, its
  shutdown flag is set and the panic hook, if there is one, has run.
\<close>

theorem elegant_shutdown_joins:
  assumes "\<And>t. ring_invar (ee_ring env t)" and "int T \<le> i64_max"
  shows "\<exists>exit s n. elegant_shutdown T (T + 3) S H hook env h = Some (exit, s) \<and>
    ec_sequence s = int n - 1 \<and>
    (exit = EReturned \<and> elegant_calls env n (ec_trace s) \<and> \<not> ec_poisoned s \<and> ec_hooked s = None \<or>
     exit = EPanicked \<and> elegant_calls env (Suc n) (ec_trace s) \<and> ec_poisoned s \<and> ec_shutdown s \<and>
       (\<exists>t. ec_hooked s = map_option (\<lambda>f. f (ee_target env t)) hook))"
proof -
  obtain exit s where r: "elegant_shutdown T (T + 3) S H hook env h = Some (exit, s)"
    using elegant_shutdown_returns [OF assms, of S H hook h] by (metis surj_pair)
  obtain n where "elegant_result hook env n (exit, s)" using elegant_shutdown_result [OF assms r] by blast
  then have "ec_sequence s = int n - 1 \<and>
    (exit = EReturned \<and> elegant_calls env n (ec_trace s) \<and> \<not> ec_poisoned s \<and> ec_hooked s = None \<or>
     exit = EPanicked \<and> elegant_calls env (Suc n) (ec_trace s) \<and> ec_poisoned s \<and> ec_shutdown s \<and>
       (\<exists>t. ec_hooked s = map_option (\<lambda>f. f (ee_target env t)) hook))"
    by (cases exit) (auto simp: elegant_result_def)
  with r show ?thesis by blast
qed

text \<open>
  C24: the consumer does not wait for producers. If the handler never panics, then whatever is
  published, and even if nothing ever is, a consumer that is shut down at time \<open>T\<close> has called its
  handler for more than \<open>T / 7 - 1\<close> sequences.
\<close>

theorem elegant_consumer_never_waits:
  assumes "\<And>t. ring_invar (ee_ring env t)" and "int T \<le> i64_max" and "\<And>t. t < T \<Longrightarrow> \<not> ee_shutdown env t"
    and "\<And>h e sq eob. snd (H h e sq eob)"
  shows "\<exists>s n. elegant_shutdown T (T + 3) S H hook env h = Some (EReturned, s) \<and>
    elegant_calls env n (ec_trace s) \<and> T < 7 * (n + 1)"
proof -
  let ?I = "\<lambda>s. (\<exists>n. elegant_inv T env n s) \<and> elegant_pace T s"
  obtain exit s where r: "elegant_shutdown T (T + 3) S H hook env h = Some (exit, s)"
    using elegant_shutdown_returns [OF assms(1,2), of S H hook h] by (metis surj_pair)
  then have p: "poll (T + 3) (elegant_body S H hook (shut_from T env)) (elegant_init h) = Some (exit, s)"
    by (simp add: elegant_shutdown_def consumer_loop_def)
  have start: "?I (elegant_init h)"
    using elegant_inv_init [of T env h] by (auto simp: elegant_pace_def elegant_init_def)
  obtain s0 where s0: "?I s0" and b: "elegant_body S H hook (shut_from T env) s0 = Inl (exit, s)"
  proof (rule poll_inv [OF p, where I = ?I])
    fix s s' assume i: "?I s" and b: "elegant_body S H hook (shut_from T env) s = Inr s'"
    then obtain n where n: "elegant_inv T env n s" by blast
    with i b show "?I s'"
      using elegant_body_keeps [OF assms(1,2) n b] elegant_body_pace [OF assms(1-3) n _ b] by simp
  qed (rule start)
  from s0 obtain n where n: "elegant_inv T env n s0" by blast
  have quiet: "elegant_inner H hook (shut_from T env) a s0 \<noteq> Inl (exit, s)" if "ec_available s0 = Some a" for a
    using n that assms(1,2)
  proof (cases rule: inner_cases [of T env n s0 a H hook])
    case (call e h ok)
    with assms(4) [of "ec_handler s0" e "int n" True] show ?thesis by (simp add: Let_def)
  qed simp
  then have none: "ec_available s0 = None" using b by (auto simp: elegant_body_def split: option.splits)
  have "ee_shutdown env (ec_time s0) \<or> T \<le> ec_time s0" "exit = EReturned" "s = s0"
    using b none n by (auto simp: elegant_body_def elegant_outer_def wait_for_events_def shutdown_load_def
        elegant_inv_def ring_invar_size [OF assms(1)] Let_def split: if_splits)
  then have "exit = EReturned" "s = s0" "T \<le> ec_time s0" using assms(3) [of "ec_time s0"] by force+
  with none n s0 r show ?thesis
    by (intro exI [of _ s] exI [of _ n]) (auto simp: elegant_pace_def elegant_inv_def)
qed

definition elegant_example :: "(nat, sequencer) elegant_env" where
  "elegant_example =
     \<lparr>ee_shutdown = (\<lambda>_. False), ee_ring = (\<lambda>_. \<lparr>storage = Inline [10, 20], index_mask = 1\<rparr>),
      ee_target = (\<lambda>_. MultiSeq mp_example)\<rparr>"

lemma elegant_example_ring: "ring_invar (ee_ring elegant_example t)"
  by (simp add: elegant_example_def) code_simp

theorem elegant_consumer_never_waits_witness:
  "\<exists>s n. elegant_shutdown 40 43 yielding_default (\<lambda>h e sq eob. (h + e, True)) None elegant_example 0 = Some (EReturned, s) \<and>
     elegant_calls elegant_example n (ec_trace s) \<and> 40 < 7 * (n + 1)"
  using elegant_consumer_never_waits [of elegant_example 40 "\<lambda>h e sq eob. (h + e, True)" yielding_default None 0]
    elegant_example_ring by (simp add: elegant_example_def)

theorem elegant_shutdown_joins_witness:
  "\<exists>s. elegant_shutdown 40 43 BusySpin (\<lambda>h e sq eob. (h + e, sq < 3)) (Some (sequencer_poison_hook ''c'')) elegant_example 0 =
     Some (EPanicked, s) \<and> ec_sequence s = 2 \<and> ec_poisoned s \<and> elegant_calls elegant_example 4 (ec_trace s)"
proof -
  let ?run = "elegant_shutdown 40 43 BusySpin (\<lambda>h e sq eob. (h + e, sq < 3)) (Some (sequencer_poison_hook ''c''))
    elegant_example 0"
  have "map_option (\<lambda>(exit, s). (exit, ec_sequence s)) ?run = Some (EPanicked, 2)" by code_simp
  then obtain s where s: "?run = Some (EPanicked, s)" "ec_sequence s = 2" by auto
  from elegant_shutdown_joins [where T = 40 and env = elegant_example, OF elegant_example_ring, of BusySpin
      "\<lambda>h e sq eob. (h + e, sq < 3)" "Some (sequencer_poison_hook ''c'')" 0] s(1)
  obtain n where "ec_sequence s = int n - 1" "elegant_calls elegant_example (Suc n) (ec_trace s)" "ec_poisoned s"
    by auto
  moreover from this s(2) have "n = 3" by simp
  ultimately show ?thesis using s by (simp add: numeral_eq_Suc)
qed

text \<open>
  A panicking consumer stops its producers. When the hook of \<open>new_with_sequencer_poison\<close> is
  installed and the handler panics, the sequencer it captured is poisoned, the failure on record is
  this one unless there was one before, and every claim of a producer on that sequencer is refused.
\<close>

theorem elegant_panic_poisons_producers:
  assumes "\<And>t. ring_invar (ee_ring env t)" and "int T \<le> i64_max"
    and "elegant_shutdown T fuel S H (Some (sequencer_poison_hook thread)) env h = Some (EPanicked, s)"
  shows "\<exists>q t. ec_hooked s = Some q \<and> seq_is_poisoned q \<and>
    seq_first_failure q = Some (case seq_first_failure (ee_target env t) of Some g \<Rightarrow> g
      | None \<Rightarrow> with_thread_name thread (failure_record_new ConsumerPanic ''elegant consumer handler panicked'')) \<and>
    (\<forall>k p. pr_inv k p \<and> pr_seq p = q \<longrightarrow>
      (\<exists>e\<in>{Shutdown, Poisoned}. claim_next (Suc (Suc fuel')) quiet p = Some (Err e, p)) \<and>
      try_claim_next (Suc (Suc fuel')) quiet p = Some (None, p))"
proof -
  obtain n where "elegant_result (Some (sequencer_poison_hook thread)) env n (EPanicked, s)"
    using elegant_shutdown_result [OF assms] by blast
  then obtain t where h: "ec_hooked s = Some (sequencer_poison_hook thread (ee_target env t))"
    by (auto simp: elegant_result_def)
  have poisoned: "seq_is_poisoned (sequencer_poison_hook thread (ee_target env t))"
    unfolding sequencer_poison_hook_def by (rule seq_poison_record)
  show ?thesis
  proof (intro exI conjI)
    show "seq_first_failure (sequencer_poison_hook thread (ee_target env t)) =
      Some (case seq_first_failure (ee_target env t) of Some g \<Rightarrow> g
      | None \<Rightarrow> with_thread_name thread (failure_record_new ConsumerPanic ''elegant consumer handler panicked''))"
      unfolding sequencer_poison_hook_def by (rule seq_poison_record)
    show "\<forall>k p. pr_inv k p \<and> pr_seq p = sequencer_poison_hook thread (ee_target env t) \<longrightarrow>
      (\<exists>e\<in>{Shutdown, Poisoned}. claim_next (Suc (Suc fuel')) quiet p = Some (Err e, p)) \<and>
      try_claim_next (Suc (Suc fuel')) quiet p = Some (None, p)"
      using poisoned poisoned_claims by metis
  qed (rule h poisoned)+
qed

theorem elegant_panic_poisons_producers_witness:
  "\<exists>s q f. elegant_shutdown 40 43 BusySpin (\<lambda>h e sq eob. (h + e, sq < 1)) (Some (sequencer_poison_hook ''c''))
       elegant_example 0 = Some (EPanicked, s) \<and>
     ec_hooked s = Some q \<and> seq_is_poisoned q \<and> seq_first_failure q = Some f"
proof -
  let ?run = "elegant_shutdown 40 43 BusySpin (\<lambda>h e sq eob. (h + e, sq < 1)) (Some (sequencer_poison_hook ''c''))
    elegant_example 0"
  have "map_option fst ?run = Some EPanicked" by code_simp
  then obtain s where s: "?run = Some (EPanicked, s)" by auto
  from elegant_panic_poisons_producers [OF elegant_example_ring _ s, of 0] obtain q f where
    "ec_hooked s = Some q" "seq_is_poisoned q" "seq_first_failure q = Some f" by auto
  with s show ?thesis by blast
qed

end
