(* ===== verification/Adapters.thy ===== *)
theory Adapters
  imports Dsl Elegant_Consumer
begin

text \<open>
  The thin layers around the components: the strategy-level alert of \<open>BlockingWaitStrategy\<close>
  (\<open>wait_strategy.rs\<close>), the event factories (\<open>event_factory.rs\<close>), the closure translators
  (\<open>event_translator.rs\<close>) and the constructors of the elegant consumer (\<open>elegant_consumer.rs\<close>). They change
  little on their own; the lemmas say what the components make of them.
\<close>

section \<open>The alert of the blocking strategy\<close>

text \<open>The flag under the mutex, seen by the waits as \<open>we_strategy_alerted\<close>; \<open>alert\<close> also wakes all waiters.\<close>

definition blocking_alert :: "wait_env \<Rightarrow> wait_env" where
  "blocking_alert w = w\<lparr>we_strategy_alerted := True\<rparr>"

definition blocking_clear_alert :: "wait_env \<Rightarrow> wait_env" where
  "blocking_clear_alert w = w\<lparr>we_strategy_alerted := False\<rparr>"

definition blocking_is_alerted :: "wait_env \<Rightarrow> bool" where
  "blocking_is_alerted w = we_strategy_alerted w"

definition is_alerted_with :: "wait_env \<Rightarrow> bool" where
  "is_alerted_with w \<longleftrightarrow> blocking_is_alerted w \<or> we_alerted w"

definition sleeping_new_with_duration :: "nat \<Rightarrow> wait_strategy" where
  "sleeping_new_with_duration nanos = SleepingStrategy nanos"

definition sleeping_new :: wait_strategy where
  "sleeping_new = sleeping_new_with_duration 1000000"

lemma blocking_alert_roundtrip:
  "blocking_is_alerted (blocking_alert w)" "\<not> blocking_is_alerted (blocking_clear_alert w)"
  "\<not> blocking_is_alerted w \<Longrightarrow> blocking_clear_alert (blocking_alert w) = w"
  by (simp_all add: blocking_is_alerted_def blocking_alert_def blocking_clear_alert_def)

text \<open>From a time on, other threads have not taken the alert back.\<close>

definition alerted_from :: "nat \<Rightarrow> wait_env traj \<Rightarrow> bool" where
  "alerted_from n tr \<longleftrightarrow> (\<forall>u\<ge>n. \<exists>w. tr u = blocking_alert w)"

lemma alerted_fromD: "alerted_from n tr \<Longrightarrow> n \<le> u \<Longrightarrow> we_strategy_alerted (tr u)"
  by (auto simp: alerted_from_def blocking_alert_def)

lemma alerted_cursor_returns:
  assumes "cv_wakes cv_wait n" and "alerted_from n tr"
  shows "\<exists>r. poll (Suc (n - t)) (blocking_cursor_body cv_wait tr sequence cursor) t = Some r"
proof (rule poll_returns [where time = "\<lambda>u. u" and I = "\<lambda>_. True"])
  fix u assume "n \<le> u"
  with assms(2) have "we_strategy_alerted (tr u)" by (rule alerted_fromD)
  then show "\<exists>r. blocking_cursor_body cv_wait tr sequence cursor u = Inl r" by (simp add: blocking_cursor_body_def)
next
  fix u u' assume b: "blocking_cursor_body cv_wait tr sequence cursor u = Inr u'"
  then have "\<not> we_strategy_alerted (tr u)" by (auto simp: blocking_cursor_body_def split: if_splits)
  then have "u < n" using alerted_fromD [OF assms(2)] by (meson not_le)
  with assms(1) obtain d where "cv_wait u = Some d" by (auto simp: cv_wakes_def)
  with b show "True \<and> u < u'" by (auto simp: blocking_cursor_body_def split: if_splits)
qed simp

lemma alerted_spin_returns:
  assumes "alerted_from n tr"
  shows "\<exists>out. poll (Suc (n - t)) (blocking_spin_body tr sequence cursor deps) (t, c, acts) = Some out"
proof -
  have late: "\<exists>out. blocking_spin_body tr sequence cursor deps s = Inl out" if "n \<le> fst s" for s
  proof (cases s)
    case (fields t c acts)
    with that have "n \<le> t + wait_loads deps" by simp
    with assms have "we_strategy_alerted (tr (t + wait_loads deps))" by (rule alerted_fromD)
    with fields show ?thesis by (simp add: blocking_spin_body_def Let_def)
  qed
  have step: "fst s < fst s'" if "blocking_spin_body tr sequence cursor deps s = Inr s'" for s s'
    using that by (auto simp: blocking_spin_body_def Let_def split: body_splits)
  show ?thesis
    using poll_returns [where time = fst and I = "\<lambda>_. True" and s = "(t, c, acts)" and T = n
        and body = "blocking_spin_body tr sequence cursor deps"] late step by simp
qed

text \<open>
  A consumer blocked in the strategy comes back when the strategy is alerted, although nothing is published:
  \<open>notify_all\<close> wakes it, and it looks at the flag before it waits again.
\<close>

lemma blocking_alert_ends_wait:
  assumes "cv_wakes cv_wait n" and "alerted_from n tr"
  shows "\<exists>out. blocking_wait_for_with_alert cv_wait (Suc n) tr t sequence cursor deps = Some out"
proof -
  obtain r t1 where "poll (Suc (n - Suc t)) (blocking_cursor_body cv_wait tr sequence cursor) (Suc t) = Some (r, t1)"
    using alerted_cursor_returns [OF assms] by (metis surj_pair)
  then have c: "poll (Suc n) (blocking_cursor_body cv_wait tr sequence cursor) (Suc t) = Some (r, t1)" by (rule poll_mono) simp
  have s: "\<exists>out. poll (Suc n) (blocking_spin_body tr sequence cursor deps) (t2, 0, []) = Some out" for t2
    using alerted_spin_returns [OF assms(2), of t2 sequence cursor deps 0 "[]"] poll_mono by (metis Suc_le_mono diff_le_self)
  from c s [of "Suc t1"] s [of "Suc t"] show ?thesis
    by (cases r) (simp_all add: blocking_wait_for_with_alert_def del: poll.simps)
qed

section \<open>Event factories\<close>

text \<open>
  A closure factory may answer differently at every call, which is made once per slot; the other two always
  give the same event. \<open>DefaultFactory\<close> carries \<open>T::default()\<close>.
\<close>

datatype 'e event_factory = DefaultFactory 'e | ClosureFactory "nat \<Rightarrow> 'e" | CloneFactory 'e

fun new_instance :: "'e event_factory \<Rightarrow> nat \<Rightarrow> 'e" where
  "new_instance (DefaultFactory d) call = d"
| "new_instance (ClosureFactory factory_fn) call = factory_fn call"
| "new_instance (CloneFactory prototype) call = prototype"

definition event_factory_of :: "(nat \<Rightarrow> 'e) \<Rightarrow> 'e event_factory" where
  "event_factory_of factory_fn = ClosureFactory factory_fn"

text \<open>A ring that was built from a factory: every access finds an event the factory made, each in its slot.\<close>

lemma factory_fills_ring:
  assumes "ring_new n (new_instance f) = Ok rb"
  shows "ring_get rb s = Some (new_instance f (slot_index rb s)) \<and> slot_index rb s < n"
proof -
  have rb: "ring_invar rb" "storage_slots (storage rb) = map (new_instance f) [0..<n]"
    using new_with_padding_invar assms unfolding ring_new_def by blast+
  with slot_index_less [OF rb(1), of s] show ?thesis by (simp add: ring_get_def get_ref_unchecked_slots nth_slot_def)
qed

section \<open>Translators\<close>

text \<open>
  A closure translator is one write of the event it is given; with one or two arguments, the closure takes
  them as well.
\<close>

definition closure_event_translator :: "('e \<Rightarrow> i64 \<Rightarrow> 'e) \<Rightarrow> 'e translator_step list" where
  "closure_event_translator translator_fn = [WriteEvent translator_fn]"

definition closure_event_translator_one_arg :: "('e \<Rightarrow> i64 \<Rightarrow> 'a \<Rightarrow> 'e) \<Rightarrow> 'a \<Rightarrow> 'e translator_step list" where
  "closure_event_translator_one_arg translator_fn arg0 = [WriteEvent (\<lambda>event sequence. translator_fn event sequence arg0)]"

definition closure_event_translator_two_arg ::
    "('e \<Rightarrow> i64 \<Rightarrow> 'a \<Rightarrow> 'b \<Rightarrow> 'e) \<Rightarrow> 'a \<Rightarrow> 'b \<Rightarrow> 'e translator_step list" where
  "closure_event_translator_two_arg translator_fn arg0 arg1 =
     [WriteEvent (\<lambda>event sequence. translator_fn event sequence arg0 arg1)]"

lemma translator_args:
  "closure_event_translator_one_arg g a = closure_event_translator (\<lambda>e s. g e s a)"
  "closure_event_translator_two_arg h a b = closure_event_translator_one_arg (\<lambda>e s. h e s a) b"
  by (simp_all add: closure_event_translator_def closure_event_translator_one_arg_def closure_event_translator_two_arg_def)

text \<open>It writes the claimed slot and no other, calls nothing back and does not panic.\<close>

lemma closure_translator_writes:
  assumes "ring_invar (ds_ring d)" and "ring_get (ds_ring d) sequence = Some e"
  shows "\<exists>rb. translate_to fuel env thread sequence (closure_event_translator f) d log = Some (True, d\<lparr>ds_ring := rb\<rparr>, log) \<and>
    ring_get rb sequence = Some (f e sequence) \<and>
    (\<forall>s. slot_index (ds_ring d) s \<noteq> slot_index (ds_ring d) sequence \<longrightarrow> ring_get rb s = ring_get (ds_ring d) s)"
proof -
  obtain rb where rb: "ring_update (ds_ring d) sequence (\<lambda>e. f e sequence) = Some rb" using rb.upd_total [OF assms(1)] by blast
  note read = rb.get_upd [OF assms(1) rb]
  have "ring_get rb s = ring_get (ds_ring d) s" if "slot_index (ds_ring d) s \<noteq> slot_index (ds_ring d) sequence" for s
    using read [of s] that slot_index_eq_iff [OF assms(1), of s sequence] by auto
  with rb read [of sequence] assms(2) show ?thesis by (auto simp: closure_event_translator_def)
qed

section \<open>Constructors of the elegant consumer\<close>

text \<open>What the thread is given: where and under which name it runs, and the panic hook.\<close>

definition elegant_new where
  "elegant_new os_spawn core_ids set_for_current = (spawn_plain os_spawn core_ids set_for_current None, None)"

definition elegant_new_with_panic_hook where
  "elegant_new_with_panic_hook os_spawn core_ids set_for_current panic_hook =
     (spawn_plain os_spawn core_ids set_for_current None, Some panic_hook)"

definition elegant_new_with_sequencer_poison where
  "elegant_new_with_sequencer_poison os_spawn core_ids set_for_current =
     elegant_new_with_panic_hook os_spawn core_ids set_for_current (sequencer_poison_hook (elegant_thread_name None))"

definition elegant_with_state where
  "elegant_with_state os_spawn set_for_current = (spawn_with_state os_spawn set_for_current, None)"

definition elegant_with_state_and_panic_hook where
  "elegant_with_state_and_panic_hook os_spawn set_for_current panic_hook = (spawn_with_state os_spawn set_for_current, Some panic_hook)"

definition elegant_with_affinity where
  "elegant_with_affinity os_spawn core_ids set_for_current core_id =
     (spawn_plain os_spawn core_ids set_for_current (Some core_id), None)"

definition elegant_with_affinity_and_panic_hook where
  "elegant_with_affinity_and_panic_hook os_spawn core_ids set_for_current core_id panic_hook =
     (spawn_plain os_spawn core_ids set_for_current (Some core_id), Some panic_hook)"

text \<open>
  Without a core a constructor does not panic and fails only with the operating system; with one it panics
  exactly if the machine has no such core.
\<close>

lemma elegant_constructors:
  "fst (elegant_new os cores pin) = Some (case os ''elegant-consumer'' of Inl e \<Rightarrow> Inl e
     | Inr j \<Rightarrow> Inr (mt_new j ''elegant-consumer'', set_affinity_if_defined pin None ''elegant-consumer''))"
  "fst (elegant_with_affinity os cores pin core) = None \<longleftrightarrow> core \<notin> set (get_available_cores cores)"
  "fst (elegant_with_affinity_and_panic_hook os cores pin core hook) = fst (elegant_with_affinity os cores pin core)"
  by (simp_all add: elegant_new_def elegant_with_affinity_def elegant_with_affinity_and_panic_hook_def spawn_plain_def Let_def tb_spawn_def
      tc_get_name_def tc_get_affinity_def tc_thread_name_def tc_new_def elegant_thread_name_def tc_pin_at_core_def validate_core_id_def
      split: sum.split)

end
