(* ===== verification/Float64.thy ===== *)
theory Float64
  imports Complex_Main Prelude
begin

text \<open>
  The \<open>f64\<close> and \<open>u64\<close> arithmetic the benchmark programs use. A finite \<open>f64\<close> is the rational it stands for;
  every operation gives the exact result rounded to 53 significant bits, ties to even. The magnitudes that
  occur (counts, nanoseconds and their quotients) are far from the ends of the exponent range, so neither
  infinities nor subnormal numbers arise. A \<open>u64\<close> is a \<open>nat\<close> below \<open>2 ^ 64\<close>.
\<close>

section \<open>Rounding\<close>

type_synonym f64 = rat

fun ilog2 :: "nat \<Rightarrow> nat" where
  "ilog2 n = (if n < 2 then 0 else Suc (ilog2 (n div 2)))"

declare ilog2.simps [simp del]

definition pow2 :: "int \<Rightarrow> rat" where
  "pow2 e = (if 0 \<le> e then 2 ^ nat e else 1 / 2 ^ nat (- e))"

definition half_even :: "rat \<Rightarrow> int" where
  "half_even y = (let f = \<lfloor>y\<rfloor>; r = y - of_int f in if r < 1 / 2 \<or> r = 1 / 2 \<and> even f then f else f + 1)"

text \<open>The exponent of the leading bit.\<close>

definition exponent :: "rat \<Rightarrow> int" where
  "exponent x =
     (let (a, b) = quotient_of x; e = int (ilog2 (nat a)) - int (ilog2 (nat b))
      in if x < pow2 e then e - 1 else e)"

definition round_pos :: "rat \<Rightarrow> f64" where
  "round_pos x = (let u = pow2 (exponent x - 52) in u * of_int (half_even (x / u)))"

definition round_f64 :: "rat \<Rightarrow> f64" where
  "round_f64 x = (if x = 0 then 0 else if x < 0 then - round_pos (- x) else round_pos x)"

definition as_f64 :: "nat \<Rightarrow> f64" where
  "as_f64 n = round_f64 (of_nat n)"

definition add_f64 :: "f64 \<Rightarrow> f64 \<Rightarrow> f64" where "add_f64 a b = round_f64 (a + b)"
definition sub_f64 :: "f64 \<Rightarrow> f64 \<Rightarrow> f64" where "sub_f64 a b = round_f64 (a - b)"
definition mul_f64 :: "f64 \<Rightarrow> f64 \<Rightarrow> f64" where "mul_f64 a b = round_f64 (a * b)"
definition div_f64 :: "f64 \<Rightarrow> f64 \<Rightarrow> f64" where "div_f64 a b = round_f64 (a / b)"

text \<open>\<open>Duration::as_secs_f64\<close>, and \<open>f64::midpoint\<close> for values far from overflow.\<close>

definition as_secs_f64 :: "nat \<Rightarrow> f64" where
  "as_secs_f64 ns =
     add_f64 (as_f64 (ns div 1000000000)) (div_f64 (as_f64 (ns mod 1000000000)) 1000000000)"

definition midpoint_f64 :: "f64 \<Rightarrow> f64 \<Rightarrow> f64" where
  "midpoint_f64 a b = div_f64 (add_f64 a b) 2"

text \<open>The median of an ascending list, as all programs take it.\<close>

definition median_f64 :: "f64 list \<Rightarrow> f64" where
  "median_f64 ordered =
     (let n = length ordered in
      if n mod 2 = 1 then ordered ! (n div 2) else midpoint_f64 (ordered ! (n div 2 - 1)) (ordered ! (n div 2)))"

text \<open>\<open>iter().sum::<f64>()\<close> adds from left to right.\<close>

definition sum_f64 :: "f64 list \<Rightarrow> f64" where
  "sum_f64 xs = fold (\<lambda>x acc. add_f64 acc x) xs 0"

text \<open>The correctly rounded square root: the integer root of the argument scaled to 106 bits, rounded to nearest.\<close>

fun isqrt :: "nat \<Rightarrow> nat" where
  "isqrt n = (if n = 0 then 0 else let r = 2 * isqrt (n div 4) in if (r + 1) * (r + 1) \<le> n then r + 1 else r)"

declare isqrt.simps [simp del]

definition sqrt_f64 :: "f64 \<Rightarrow> f64" where
  "sqrt_f64 x =
     (if x \<le> 0 then 0
      else let u = pow2 (exponent x div 2 - 52); y = x / (u * u); k = isqrt (nat \<lfloor>y\<rfloor>); h = rat_of_nat k + 1 / 2
        in if y < h * h then u * of_nat k else u * of_nat (k + 1))"

lemmas f64_defs = add_f64_def sub_f64_def mul_f64_def div_f64_def

section \<open>Rounding is monotone\<close>

lemma ilog2_bounds: "0 < n \<Longrightarrow> 2 ^ ilog2 n \<le> n \<and> n < 2 ^ Suc (ilog2 n)"
proof (induction n rule: ilog2.induct)
  case (1 n)
  show ?case
  proof (cases "n < 2")
    case True
    with "1.prems" have "n = 1" by simp
    then show ?thesis by (simp add: ilog2.simps [of "Suc 0"])
  next
    case False
    with "1.IH" have "2 ^ ilog2 (n div 2) \<le> n div 2 \<and> n div 2 < 2 ^ Suc (ilog2 (n div 2))" by simp
    moreover have "ilog2 n = Suc (ilog2 (n div 2))" using False by (simp add: ilog2.simps [of n])
    ultimately show ?thesis by auto
  qed
qed

lemma pow2_pos [simp]: "0 < pow2 e"
  by (simp add: pow2_def)

lemma pow2_nonzero [simp]: "pow2 e \<noteq> 0"
  by (simp add: pow2_def)

lemma pow2_Suc: "pow2 (e + 1) = 2 * pow2 e"
proof (cases "0 \<le> e")
  case True
  then show ?thesis by (simp add: pow2_def nat_add_distrib)
next
  case False
  then have "nat (- e) = Suc (nat (- e - 1))" by simp
  with False show ?thesis by (auto simp: pow2_def)
qed

lemma pow2_add_nat: "pow2 (e + int n) = 2 ^ n * pow2 e"
proof (induction n)
  case (Suc n)
  then show ?case using pow2_Suc [of "e + int n"] by (simp add: algebra_simps)
qed simp

lemma pow2_mono: "e \<le> e' \<Longrightarrow> pow2 e \<le> pow2 e'"
  using pow2_add_nat [of e "nat (e' - e)"] by simp

lemma pow2_diff: "pow2 (int a - int b) = 2 ^ a / 2 ^ b"
proof (cases "b \<le> a")
  case True
  then show ?thesis by (simp add: pow2_def power_diff nat_diff_distrib)
next
  case False
  then have "nat (- (int a - int b)) = b - a" "\<not> 0 \<le> int a - int b" by simp_all
  with False show ?thesis by (simp add: pow2_def power_diff)
qed

lemma exponent_bounds:
  assumes "0 < x"
  shows "pow2 (exponent x) \<le> x" and "x < pow2 (exponent x + 1)"
proof -
  obtain a b where q: "quotient_of x = (a, b)" by fastforce
  have b: "0 < b" using quotient_of_denom_pos [OF q] .
  have x: "x = of_int a / of_int b" using quotient_of_div [OF q] .
  have a: "0 < a" using assms b x by (simp add: zero_less_divide_iff)
  define m n where "m = ilog2 (nat a)" and "n = ilog2 (nat b)"
  have "2 ^ m \<le> nat a \<and> nat a < 2 ^ Suc m" "2 ^ n \<le> nat b \<and> nat b < 2 ^ Suc n"
    using ilog2_bounds [of "nat a"] ilog2_bounds [of "nat b"] a b by (simp_all add: m_def n_def)
  then have "rat_of_nat (2 ^ m) \<le> of_nat (nat a)" "rat_of_nat (nat a) \<le> of_nat (2 ^ Suc m)" "rat_of_nat (nat a) \<noteq> of_nat (2 ^ Suc m)"
    "rat_of_nat (2 ^ n) \<le> of_nat (nat b)" "rat_of_nat (nat b) \<le> of_nat (2 ^ Suc n)" "rat_of_nat (nat b) \<noteq> of_nat (2 ^ Suc n)"
    unfolding of_nat_le_iff of_nat_eq_iff by auto
  then have A: "2 ^ m \<le> rat_of_int a" "rat_of_int a < 2 * 2 ^ m" and B: "2 ^ n \<le> rat_of_int b" "rat_of_int b < 2 * 2 ^ n"
    using a b by (simp_all add: of_nat_nat)
  have hi: "x < 2 * (2 ^ m / 2 ^ n)"
  proof -
    have "rat_of_int a / rat_of_int b < (2 * 2 ^ m) / rat_of_int b" using A(2) b by (intro divide_strict_right_mono) simp_all
    also have "\<dots> \<le> (2 * 2 ^ m) / 2 ^ n" using B(1) b by (intro divide_left_mono) simp_all
    finally show ?thesis unfolding x by simp
  qed
  have lo: "2 ^ m / 2 ^ n \<le> 2 * x"
  proof -
    have "2 ^ m / (2 * 2 ^ n) \<le> rat_of_int a / (2 * 2 ^ n)" using A(1) by (intro divide_right_mono) simp_all
    also have "\<dots> \<le> rat_of_int a / rat_of_int b" using A B(2) a b by (intro divide_left_mono) simp_all
    finally show ?thesis unfolding x by simp
  qed
  have e: "exponent x = (if x < pow2 (int m - int n) then int m - int n - 1 else int m - int n)"
    by (simp add: exponent_def q m_def n_def Let_def)
  have s: "pow2 (int m - int n - 1 + 1) = 2 * pow2 (int m - int n - 1)" by (rule pow2_Suc)
  have s': "pow2 (int m - int n + 1) = 2 * pow2 (int m - int n)" by (rule pow2_Suc)
  show "pow2 (exponent x) \<le> x" "x < pow2 (exponent x + 1)"
    using hi lo s s' unfolding e pow2_diff [of m n, symmetric] by (auto split: if_splits)
qed

lemma half_even_int [simp]: "half_even (of_int n) = n"
  by (simp add: half_even_def)

lemma half_even_mono: "y \<le> z \<Longrightarrow> half_even y \<le> half_even z"
proof (cases "\<lfloor>y\<rfloor> = \<lfloor>z\<rfloor>")
  case True
  assume "y \<le> z"
  with True show ?thesis by (auto simp: half_even_def Let_def)
next
  case False
  assume "y \<le> z"
  with False have "\<lfloor>y\<rfloor> + 1 \<le> \<lfloor>z\<rfloor>" using floor_mono [of y z] by linarith
  moreover have "half_even y \<le> \<lfloor>y\<rfloor> + 1" "\<lfloor>z\<rfloor> \<le> half_even z" by (simp_all add: half_even_def Let_def)
  ultimately show ?thesis by linarith
qed

lemma round_pos_bounds:
  assumes "0 < x"
  shows "pow2 (exponent x) \<le> round_pos x" and "round_pos x \<le> pow2 (exponent x + 1)"
proof -
  define u where "u = pow2 (exponent x - 52)"
  have u: "0 < u" by (simp add: u_def)
  have e: "exponent x - 52 + int 52 = exponent x" "exponent x - 52 + int 53 = exponent x + 1" by simp_all
  have top: "pow2 (exponent x) = u * of_int (2 ^ 52)" "pow2 (exponent x + 1) = u * of_int (2 ^ 53)"
    using pow2_add_nat [of "exponent x - 52" 52] pow2_add_nat [of "exponent x - 52" 53] unfolding e
    by (simp_all add: u_def mult.commute)
  have "of_int (2 ^ 52) \<le> x / u" "x / u \<le> of_int (2 ^ 53)"
    using exponent_bounds [OF assms] u top by (simp_all add: field_simps)
  then have "2 ^ 52 \<le> half_even (x / u)" "half_even (x / u) \<le> 2 ^ 53"
    using half_even_mono [of "of_int (2 ^ 52)" "x / u"] half_even_mono [of "x / u" "of_int (2 ^ 53)"] by (simp_all only: half_even_int)
  then have "rat_of_int (2 ^ 52) \<le> of_int (half_even (x / u))" "rat_of_int (half_even (x / u)) \<le> of_int (2 ^ 53)"
    by (simp_all only: of_int_le_iff)
  with u show "pow2 (exponent x) \<le> round_pos x" "round_pos x \<le> pow2 (exponent x + 1)"
    unfolding round_pos_def Let_def u_def [symmetric] top by (auto intro: mult_left_mono)
qed

lemma round_pos_mono:
  assumes "0 < x" and "x \<le> y"
  shows "round_pos x \<le> round_pos y"
proof (cases "exponent x = exponent y")
  case True
  have "half_even (x / pow2 (exponent y - 52)) \<le> half_even (y / pow2 (exponent y - 52))"
    using assms by (intro half_even_mono divide_right_mono) (simp_all add: less_imp_le)
  with True show ?thesis by (simp add: round_pos_def Let_def)
next
  case False
  have y: "0 < y" using assms by simp
  have "pow2 (exponent x) < pow2 (exponent y + 1)"
    using exponent_bounds(1) [OF assms(1)] exponent_bounds(2) [OF y] assms(2) by simp
  then have "exponent x < exponent y + 1" using pow2_mono by (meson not_less)
  with False have "exponent x + 1 \<le> exponent y" by simp
  then have "pow2 (exponent x + 1) \<le> pow2 (exponent y)" by (rule pow2_mono)
  with round_pos_bounds [OF assms(1)] round_pos_bounds [OF y] show ?thesis by simp
qed

lemma round_pos_nonneg: "0 < x \<Longrightarrow> 0 < round_pos x"
  using round_pos_bounds(1) [of x] pow2_pos [of "exponent x"] by linarith

lemma round_f64_mono: "x \<le> y \<Longrightarrow> round_f64 x \<le> round_f64 y"
proof -
  assume xy: "x \<le> y"
  consider "0 < x" | "x \<le> 0" "0 \<le> y" | "y < 0" by linarith
  then show ?thesis
  proof cases
    case 1
    with xy round_pos_mono show ?thesis by (simp add: round_f64_def)
  next
    case 2
    then show ?thesis using round_pos_nonneg [of y] round_pos_nonneg [of "- x"]
      by (auto simp: round_f64_def less_imp_le intro: order_trans [of _ 0])
  next
    case 3
    with xy round_pos_mono [of "- y" "- x"] show ?thesis by (simp add: round_f64_def)
  qed
qed

lemma as_f64_mono: "m \<le> n \<Longrightarrow> as_f64 m \<le> as_f64 n"
  by (simp add: as_f64_def round_f64_mono)

lemma round_f64_nonneg: "0 \<le> x \<Longrightarrow> 0 \<le> round_f64 x"
  using round_f64_mono [of 0 x] by (simp add: round_f64_def)

section \<open>What is already representable stays\<close>

lemma exponent_unique:
  assumes "pow2 e \<le> x" and "x < pow2 (e + 1)"
  shows "exponent x = e"
proof -
  have x: "0 < x" using assms(1) pow2_pos [of e] by linarith
  have "pow2 (exponent x) < pow2 (e + 1)" "pow2 e < pow2 (exponent x + 1)" using exponent_bounds [OF x] assms by linarith+
  then have "exponent x < e + 1" "e < exponent x + 1" using pow2_mono by (meson not_less)+
  then show ?thesis by simp
qed

lemma round_pos_exact:
  assumes "0 < x" and "x / pow2 (exponent x - 52) = of_int k"
  shows "round_pos x = x"
proof -
  have u: "0 < pow2 (exponent x - 52)" by simp
  have "round_pos x = pow2 (exponent x - 52) * of_int k" by (simp add: round_pos_def Let_def assms(2))
  also have "\<dots> = pow2 (exponent x - 52) * (x / pow2 (exponent x - 52))" by (simp only: assms(2))
  also have "\<dots> = x" using u by simp
  finally show ?thesis .
qed

lemma round_pos_idem: "0 < x \<Longrightarrow> round_pos (round_pos x) = round_pos x"
proof -
  assume x: "0 < x"
  define e u k where "e = exponent x" and "u = pow2 (e - 52)" and "k = half_even (x / u)"
  have r: "round_pos x = u * of_int k" by (simp add: round_pos_def Let_def u_def e_def k_def)
  have u: "0 < u" by (simp add: u_def)
  have b: "pow2 e \<le> round_pos x" "round_pos x \<le> pow2 (e + 1)" using round_pos_bounds [OF x] by (simp_all add: e_def)
  have pos: "0 < round_pos x" using round_pos_nonneg [OF x] .
  show ?thesis
  proof (cases "round_pos x = pow2 (e + 1)")
    case True
    have "pow2 (e + 1) < pow2 (e + 1 + 1)" using pow2_Suc [of "e + 1"] pow2_pos [of "e + 1"] by linarith
    then have ex: "exponent (round_pos x) = e + 1" unfolding True by (intro exponent_unique) simp_all
    have "pow2 (e + 1) = 2 ^ 52 * pow2 (e + 1 - 52)" using pow2_add_nat [of "e + 1 - 52" 52] by (simp add: add.commute)
    then have "round_pos x / pow2 (exponent (round_pos x) - 52) = of_int (2 ^ 52)"
      unfolding True ex [unfolded True] using pow2_pos [of "e + 1 - 52"] by simp
    then show ?thesis by (rule round_pos_exact [OF pos])
  next
    case False
    with b have "exponent (round_pos x) = e" by (intro exponent_unique) simp_all
    then have "round_pos x / pow2 (exponent (round_pos x) - 52) = of_int k" using u unfolding u_def [symmetric] r by (simp add: u_def)
    then show ?thesis by (rule round_pos_exact [OF pos])
  qed
qed

lemma round_f64_idem [simp]: "round_f64 (round_f64 x) = round_f64 x"
  using round_pos_idem [of x] round_pos_idem [of "- x"] round_pos_nonneg [of x] round_pos_nonneg [of "- x"]
  by (auto simp: round_f64_def)

lemma round_as_f64 [simp]: "round_f64 (as_f64 n) = as_f64 n"
  by (simp add: as_f64_def)

lemma mul_f64_le: "0 \<le> round_f64 x \<Longrightarrow> c \<le> 1 \<Longrightarrow> mul_f64 (round_f64 x) c \<le> round_f64 x"
  using round_f64_mono [of "round_f64 x * c" "round_f64 x"] by (simp add: mul_f64_def mult_left_le)

lemma as_f64_exact: "n \<le> 2 ^ 53 \<Longrightarrow> as_f64 n = of_nat n"
proof (cases "n = 0")
  case False
  assume n: "n \<le> 2 ^ 53"
  let ?x = "rat_of_nat n"
  have x: "0 < ?x" using False by simp
  define e where "e = exponent ?x"
  have lo: "pow2 e \<le> ?x" and hi: "?x < pow2 (e + 1)" using exponent_bounds [OF x] by (simp_all add: e_def)
  have "?x \<le> 2 ^ 53" using n by (metis of_nat_le_iff of_nat_numeral of_nat_power)
  moreover have "pow2 53 = 2 ^ 53" by (simp add: pow2_def)
  ultimately have "pow2 e < pow2 (53 + 1)" using lo pow2_Suc [of 53] pow2_pos [of 53] by linarith
  then have "e \<le> 53" using pow2_mono [of "53 + 1" e] by linarith
  have "\<exists>k. ?x / pow2 (e - 52) = of_int k"
  proof (cases "e = 53")
    case True
    then have "2 ^ 53 \<le> ?x" using lo \<open>pow2 53 = 2 ^ 53\<close> by simp
    with \<open>?x \<le> 2 ^ 53\<close> have "?x = 2 ^ 53" by simp
    with True have "?x / pow2 (e - 52) = of_int (2 ^ 52)" by (simp add: pow2_def)
    then show ?thesis by blast
  next
    case False
    with \<open>e \<le> 53\<close> have "e - 52 \<le> 0" by simp
    then have "?x / pow2 (e - 52) = of_int (int n * 2 ^ nat (52 - e))" by (simp add: pow2_def)
    then show ?thesis by blast
  qed
  with round_pos_exact [OF x] x show ?thesis by (auto simp: as_f64_def round_f64_def e_def)
qed (simp add: as_f64_def round_f64_def)

lemma round_pos_double: "0 < x \<Longrightarrow> round_pos (2 * x) = 2 * round_pos x"
proof -
  assume x: "0 < x"
  have e: "exponent (2 * x) = exponent x + 1"
  proof (rule exponent_unique)
    show "pow2 (exponent x + 1) \<le> 2 * x" using exponent_bounds(1) [OF x] by (simp add: pow2_Suc)
    show "2 * x < pow2 (exponent x + 1 + 1)" using exponent_bounds(2) [OF x] unfolding pow2_Suc [of "exponent x + 1"] by simp
  qed
  have "pow2 (exponent x + 1 - 52) = 2 * pow2 (exponent x - 52)" using pow2_Suc [of "exponent x - 52"] by (simp add: algebra_simps)
  then show ?thesis by (simp add: round_pos_def Let_def e)
qed

lemma round_f64_double: "round_f64 (2 * x) = 2 * round_f64 x"
  using round_pos_double [of x] round_pos_double [of "- x"] by (simp add: round_f64_def)

lemma midpoint_between:
  assumes "round_f64 a = a" and "round_f64 b = b" and "a \<le> b"
  shows "a \<le> midpoint_f64 a b" "midpoint_f64 a b \<le> b"
proof -
  have "2 * a \<le> add_f64 a b" "add_f64 a b \<le> 2 * b"
    using round_f64_mono [of "2 * a" "a + b"] round_f64_mono [of "a + b" "2 * b"] assms
    by (simp_all add: add_f64_def round_f64_double)
  then have "round_f64 a \<le> midpoint_f64 a b" "midpoint_f64 a b \<le> round_f64 b"
    unfolding midpoint_f64_def div_f64_def by (auto intro!: round_f64_mono)
  with assms show "a \<le> midpoint_f64 a b" "midpoint_f64 a b \<le> b" by simp_all
qed

section \<open>The median lies between the extremes\<close>

lemma sorted_between: "x \<in> set xs \<Longrightarrow> sort xs ! 0 \<le> x \<and> x \<le> sort xs ! (length xs - 1)" for xs :: "f64 list"
proof -
  assume "x \<in> set xs"
  then obtain i where i: "i < length (sort xs)" "x = sort xs ! i" by (metis in_set_conv_nth set_sort)
  have "sort xs ! 0 \<le> sort xs ! i" "sort xs ! i \<le> sort xs ! (length xs - 1)"
    using i(1) by (auto intro!: sorted_nth_mono)
  with i show ?thesis by simp
qed

lemma median_between:
  fixes xs :: "f64 list"
  assumes "xs \<noteq> []" and "\<And>y. y \<in> set xs \<Longrightarrow> round_f64 y = y"
  shows "sort xs ! 0 \<le> median_f64 (sort xs) \<and> median_f64 (sort xs) \<le> sort xs ! (length xs - 1)"
proof (cases "length xs mod 2 = 1")
  let ?n = "length xs" and ?ys = "sort xs"
  have n: "0 < ?n" using assms(1) by simp
  have mem: "?ys ! i \<in> set xs" if "i < ?n" for i using that by (metis length_sort nth_mem set_sort)
  note between = sorted_between [OF mem]
  {
    case True
    with between n show ?thesis by (simp add: median_f64_def)
  next
    case False
    let ?a = "?ys ! (?n div 2 - 1)" and ?b = "?ys ! (?n div 2)"
    have idx: "?n div 2 - 1 < ?n" "?n div 2 < ?n" using n by linarith+
    have "?a \<le> ?b" using idx by (auto intro!: sorted_nth_mono)
    from midpoint_between [OF assms(2) [OF mem [OF idx(1)]] assms(2) [OF mem [OF idx(2)]] this]
    show ?thesis using between [OF idx(1)] between [OF idx(2)] False by (auto simp: median_f64_def)
  }
qed

section \<open>The square root is within half a unit\<close>

lemma isqrt_bounds: "isqrt n * isqrt n \<le> n \<and> n < Suc (isqrt n) * Suc (isqrt n)"
proof (induction n rule: isqrt.induct)
  case (1 n)
  show ?case
  proof (cases "n = 0")
    case False
    define r where "r = isqrt (n div 4)"
    have IH: "r * r \<le> n div 4" "n div 4 < Suc r * Suc r" using 1 False by (simp_all add: r_def)
    have n: "n = 4 * (n div 4) + n mod 4" by simp
    have lo: "(2 * r) * (2 * r) \<le> n" using IH(1) n by linarith
    have "n div 4 + 1 \<le> Suc r * Suc r" using IH(2) by simp
    then have hi: "n < (2 * r + 2) * (2 * r + 2)" using n mod_less_divisor [of 4 n] by (simp add: algebra_simps)
    have eq: "isqrt n = (if (2 * r + 1) * (2 * r + 1) \<le> n then 2 * r + 1 else 2 * r)"
      using False by (simp add: isqrt.simps [of n] r_def Let_def)
    show ?thesis unfolding eq using lo hi by auto
  qed (simp add: isqrt.simps)
qed

end
