(* ===== verification/Harness.thy ===== *)
theory Harness
  imports Disruptor_Types
begin

text \<open>
  What the benchmark programs under \<open>src/bin/\<close> share: the standard-library functions they call on \<open>u64\<close> and
  \<open>u128\<close> counts and on strings, the errors of their command lines, the list options, thread pinning and the
  wait for a counter. The programs repeat these functions; each is modelled once. A \<open>u64\<close> count is a \<open>nat\<close>
  below \<open>2 ^ 64\<close>, a \<open>Duration\<close> or an \<open>Instant\<close> a \<open>nat\<close> of nanoseconds, a \<open>str\<close> its bytes.
\<close>

section \<open>Counts\<close>

abbreviation u64_max :: nat where "u64_max \<equiv> 18446744073709551615"
abbreviation u128_max :: nat where "u128_max \<equiv> 340282366920938463463374607431768211455"

definition sat_add_u64 :: "nat \<Rightarrow> nat \<Rightarrow> nat" where "sat_add_u64 a b = min u64_max (a + b)"
definition sat_mul_u64 :: "nat \<Rightarrow> nat \<Rightarrow> nat" where "sat_mul_u64 a b = min u64_max (a * b)"
definition wrapping_add_u64 :: "nat \<Rightarrow> nat \<Rightarrow> nat" where "wrapping_add_u64 a b = (a + b) mod 18446744073709551616"
definition wrapping_mul_u64 :: "nat \<Rightarrow> nat \<Rightarrow> nat" where "wrapping_mul_u64 a b = a * b mod 18446744073709551616"
definition sat_add_u128 :: "nat \<Rightarrow> nat \<Rightarrow> nat" where "sat_add_u128 a b = min u128_max (a + b)"
definition sat_mul_u128 :: "nat \<Rightarrow> nat \<Rightarrow> nat" where "sat_mul_u128 a b = min u128_max (a * b)"

text \<open>\<open>u64::try_from\<close> of a wider count, and the same with \<open>unwrap_or(u64::MAX)\<close>.\<close>

definition u64_try_from :: "nat \<Rightarrow> nat option" where "u64_try_from n = (if n \<le> u64_max then Some n else None)"
definition u64_or_max :: "nat \<Rightarrow> nat" where "u64_or_max n = (if n \<le> u64_max then n else u64_max)"

text \<open>For evaluation the bounds are compared as integers, which are binary.\<close>

lemma u64_codes [code]:
  "sat_add_u64 a b = (if int (a + b) \<le> 18446744073709551615 then a + b else u64_max)"
  "sat_mul_u64 a b = (if int (a * b) \<le> 18446744073709551615 then a * b else u64_max)"
  "wrapping_add_u64 a b = nat (int (a + b) mod 18446744073709551616)"
  "wrapping_mul_u64 a b = nat (int (a * b) mod 18446744073709551616)"
  "u64_try_from n = (if int n \<le> 18446744073709551615 then Some n else None)"
  "u64_or_max n = (if int n \<le> 18446744073709551615 then n else u64_max)"
  by (simp_all add: sat_add_u64_def sat_mul_u64_def wrapping_add_u64_def wrapping_mul_u64_def u64_try_from_def u64_or_max_def
      nat_mod_distrib nat_add_distrib nat_mult_distrib flip: of_nat_add of_nat_mult)

definition div_ceil :: "nat \<Rightarrow> nat \<Rightarrow> nat" where
  "div_ceil a b = (if a mod b > 0 then a div b + 1 else a div b)"

lemma less_le_iff_ne: "a \<noteq> c \<Longrightarrow> a < c \<longleftrightarrow> a \<le> (c :: nat)"
  by auto

lemma div_ceil_le_iff:
  assumes "0 < b"
  shows "div_ceil a b \<le> n \<longleftrightarrow> a \<le> n * b"
proof (cases "a mod b = 0")
  case True
  then obtain k where "a = b * k" by (auto elim: dvdE simp: mod_eq_0_iff_dvd)
  with assms show ?thesis by (simp add: div_ceil_def mult.commute)
next
  case False
  then have ne: "a \<noteq> n * b" by auto
  have d: "div_ceil a b \<le> n \<longleftrightarrow> a div b < n" using False by (simp add: div_ceil_def Suc_le_eq)
  have lt: "a div b < n \<longleftrightarrow> a < n * b" using assms by (simp add: div_less_iff_less_mult)
  show ?thesis unfolding d lt using ne by (rule less_le_iff_ne)
qed

lemma div_ceil_least: "0 < b \<Longrightarrow> n < div_ceil a b \<longleftrightarrow> n * b < a"
  using div_ceil_le_iff [of b a n] by (metis linorder_not_le)

section \<open>Numbers in strings\<close>

datatype parse_int_error = EmptyInt | InvalidDigit | PosOverflow

definition to_digit :: "char \<Rightarrow> nat option" where
  "to_digit c = (let n = of_char c in if 48 \<le> n \<and> n \<le> 57 then Some (n - 48) else None)"

fun parse_digits :: "nat \<Rightarrow> string \<Rightarrow> parse_int_error + nat" where
  "parse_digits acc [] = Inr acc"
| "parse_digits acc (c # cs) =
     (case to_digit c of
        None \<Rightarrow> Inl InvalidDigit
      | Some d \<Rightarrow> if u64_max < acc * 10 + d then Inl PosOverflow else parse_digits (acc * 10 + d) cs)"

text \<open>\<open>str::parse\<close> for \<open>u64\<close> and \<open>usize\<close>: a plus sign may come first.\<close>

fun parse_u64 :: "string \<Rightarrow> parse_int_error + nat" where
  "parse_u64 [] = Inl EmptyInt"
| "parse_u64 [c] = (if c = CHR ''+'' then Inl InvalidDigit else parse_digits 0 [c])"
| "parse_u64 (c # d # cs) = (if c = CHR ''+'' then parse_digits 0 (d # cs) else parse_digits 0 (c # d # cs))"

text \<open>\<open>replace('_', "")\<close> and \<open>split(',')\<close>.\<close>

definition drop_underscores :: "string \<Rightarrow> string" where
  "drop_underscores = filter (\<lambda>c. c \<noteq> CHR ''_'')"

fun split_comma :: "string \<Rightarrow> string list" where
  "split_comma [] = [[]]"
| "split_comma (c # cs) =
     (case split_comma cs of
        [] \<Rightarrow> []
      | p # ps \<Rightarrow> if c = CHR '','' then [] # p # ps else (c # p) # ps)"

fun join_with :: "string \<Rightarrow> string list \<Rightarrow> string" where
  "join_with sep [] = []"
| "join_with sep [p] = p"
| "join_with sep (p # q # ps) = p @ sep @ join_with sep (q # ps)"

section \<open>Command lines\<close>

text \<open>
  The errors a command line can have: a flag without its value, a value that is no number, a name that is
  not one of the choices, an unknown flag, a bad entry of a list, and a rule of the validation that is
  broken, with the message of the program.
\<close>

datatype cli_error =
    Missing string
  | BadNumber string parse_int_error
  | BadBool string
  | Unsupported string string
  | UnknownArgument string
  | BadEntry string string parse_int_error
  | Broken string

type_synonym 'a cli = "cli_error + 'a"

fun bind_cli :: "'a cli \<Rightarrow> ('a \<Rightarrow> 'b cli) \<Rightarrow> 'b cli" where
  "bind_cli (Inl e) f = Inl e"
| "bind_cli (Inr x) f = f x"

lemma bind_cli_Inr [simp]: "bind_cli r f = Inr y \<longleftrightarrow> (\<exists>x. r = Inr x \<and> f x = Inr y)"
  by (cases r) simp_all

fun collect :: "'a cli list \<Rightarrow> 'a list cli" where
  "collect [] = Inr []"
| "collect (r # rs) = bind_cli r (\<lambda>x. bind_cli (collect rs) (\<lambda>xs. Inr (x # xs)))"

definition parse_number :: "string \<Rightarrow> string \<Rightarrow> nat cli" where
  "parse_number what s = (case parse_u64 s of Inl e \<Rightarrow> Inl (BadNumber what e) | Inr n \<Rightarrow> Inr n)"

definition parse_entry :: "string \<Rightarrow> string \<Rightarrow> nat cli" where
  "parse_entry what s = (case parse_u64 s of Inl e \<Rightarrow> Inl (BadEntry what s e) | Inr n \<Rightarrow> Inr n)"

definition parse_bool :: "string \<Rightarrow> string \<Rightarrow> bool cli" where
  "parse_bool what s = (if s = ''true'' then Inr True else if s = ''false'' then Inr False else Inl (BadBool what))"

datatype wait_kind = WkBusySpin | WkYielding

definition wait_kind_parse :: "string \<Rightarrow> wait_kind cli" where
  "wait_kind_parse s =
     (if s = ''busy-spin'' then Inr WkBusySpin else if s = ''yielding'' then Inr WkYielding
      else Inl (Unsupported ''wait-strategy'' s))"

fun wait_kind_as_str :: "wait_kind \<Rightarrow> string" where
  "wait_kind_as_str WkBusySpin = ''busy-spin''"
| "wait_kind_as_str WkYielding = ''yielding''"

datatype pad = PadNone | PadAlign128

definition pad_parse :: "string \<Rightarrow> pad cli" where
  "pad_parse s =
     (if s = ''none'' then Inr PadNone else if s = ''128'' then Inr PadAlign128
      else if s = ''64'' then Inl (Broken ''padding 64 removed; use none or 128'')
      else Inl (Unsupported ''event-padding'' s))"

fun pad_as_str :: "pad \<Rightarrow> string" where
  "pad_as_str PadNone = ''none''"
| "pad_as_str PadAlign128 = ''128''"

definition parse_cpu_list :: "string \<Rightarrow> nat list cli" where
  "parse_cpu_list value =
     (if value = [] then Inr []
      else bind_cli (collect (map (parse_entry ''CPU'') (split_comma value)))
        (\<lambda>cpus. if length (remdups_adj (sort cpus)) \<noteq> length cpus
          then Inl (Broken ''cpu-list must contain unique CPU IDs'') else Inr cpus))"

definition parse_percent_list :: "string \<Rightarrow> nat list cli" where
  "parse_percent_list value =
     (if value = [] then Inr [] else collect (map (parse_entry ''load level'') (split_comma value)))"

definition parse_duration_us_list :: "string \<Rightarrow> nat list cli" where
  "parse_duration_us_list value =
     (if value = [] then Inl (Broken ''inject-sleep-us-by-load must not be empty'')
      else collect (map (\<lambda>part. bind_cli (parse_entry ''injection duration'' part)
             (\<lambda>micros. if micros = 0 then Inl (Broken ''injection durations must be positive'')
               else Inr (micros * 1000))) (split_comma value)))"

section \<open>Pinning and waiting\<close>

text \<open>
  The \<open>core_affinity\<close> crate as a parameter: whether it could pin the calling thread, and the cores the
  thread may run on afterwards (asked for on Linux).
\<close>

record affinity =
  set_for_current :: "nat \<Rightarrow> bool"
  get_core_ids :: "nat list option"

definition pin_current_thread :: "affinity \<Rightarrow> nat option \<Rightarrow> bool \<Rightarrow> bool" where
  "pin_current_thread os cpu failed =
     (case cpu of
        None \<Rightarrow> failed
      | Some c \<Rightarrow>
          let verified = set_for_current os c \<and>
                (case get_core_ids os of None \<Rightarrow> False | Some ids \<Rightarrow> ids = [c])
          in if verified then failed else True)"

text \<open>
  The counter and the clock are read at successive ticks. The result says whether the count was reached
  and when the function returned.
\<close>

definition wait_body :: "(nat \<Rightarrow> nat) \<Rightarrow> (nat \<Rightarrow> nat) \<Rightarrow> nat \<Rightarrow> nat \<Rightarrow> nat \<Rightarrow> nat \<Rightarrow> bool \<times> nat + nat" where
  "wait_body counter clock target timeout start t =
     (if counter t < target
      then if timeout < clock (Suc t) - start then Inl (False, Suc (Suc t)) else Inr (Suc (Suc t))
      else Inl (True, Suc t))"

definition wait_count ::
  "nat \<Rightarrow> (nat \<Rightarrow> nat) \<Rightarrow> (nat \<Rightarrow> nat) \<Rightarrow> nat \<Rightarrow> nat \<Rightarrow> nat \<Rightarrow> (bool \<times> nat) option" where
  "wait_count fuel counter clock target timeout t =
     poll fuel (wait_body counter clock target timeout (clock t)) (Suc t)"

section \<open>Printing and parsing are inverse\<close>

lemma to_digit_digit [simp]: "d < 10 \<Longrightarrow> to_digit (digit d) = Some d"
  by (simp add: to_digit_def digit_def Let_def)

lemma parse_digits_append:
  "parse_digits acc (cs @ ds) = (case parse_digits acc cs of Inl e \<Rightarrow> Inl e | Inr n \<Rightarrow> parse_digits n ds)"
  by (induction acc cs rule: parse_digits.induct) (auto split: option.splits)

lemma parse_digits_show: "n \<le> u64_max \<Longrightarrow> parse_digits 0 (show_nat n) = Inr n"
proof (induction n rule: show_nat.induct)
  case (1 n)
  show ?case
  proof (cases "n < 10")
    case True
    then show ?thesis by (simp add: show_nat.simps [of n])
  next
    case False
    moreover have "parse_digits 0 (show_nat (n div 10)) = Inr (n div 10)" using 1 False by simp
    ultimately show ?thesis using "1.prems" by (simp add: show_nat.simps [of n] parse_digits_append)
  qed
qed

lemma show_nat_digits: "\<exists>d ds. show_nat n = d # ds \<and> set (d # ds) \<subseteq> digit ` {0..<10}"
proof (induction n rule: show_nat.induct)
  case (1 n)
  then show ?case by (cases "n < 10") (fastforce simp: show_nat.simps [of n])+
qed

lemma digit_not_punct: "c \<in> digit ` {0..<10} \<Longrightarrow> c \<noteq> CHR ''+'' \<and> c \<noteq> CHR '','' \<and> c \<noteq> CHR ''_''"
proof -
  assume "c \<in> digit ` {0..<10}"
  then obtain d where d: "d < 10" "c = digit d" by auto
  then have "to_digit c = Some d" by simp
  moreover have "to_digit CHR ''+'' = None" "to_digit CHR '','' = None" "to_digit CHR ''_'' = None"
    by (simp_all add: to_digit_def)
  ultimately show ?thesis by auto
qed

lemma parse_u64_show [simp]: "n \<le> u64_max \<Longrightarrow> parse_u64 (show_nat n) = Inr n"
proof -
  assume n: "n \<le> u64_max"
  obtain d ds where s: "show_nat n = d # ds" "set (d # ds) \<subseteq> digit ` {0..<10}" using show_nat_digits by blast
  then have "d \<noteq> CHR ''+''" using digit_not_punct by auto
  then have "parse_u64 (d # ds) = parse_digits 0 (d # ds)" by (cases ds) simp_all
  with s n show ?thesis by (metis parse_digits_show)
qed

lemma parse_digits_bound: "parse_digits acc s = Inr n \<Longrightarrow> acc \<le> u64_max \<Longrightarrow> n \<le> u64_max"
  by (induction acc s rule: parse_digits.induct) (auto split: option.splits if_splits)

lemma parse_u64_bound: "parse_u64 s = Inr n \<Longrightarrow> n \<le> u64_max"
  by (cases s rule: parse_u64.cases) (auto simp del: parse_digits.simps split: if_splits dest: parse_digits_bound)

lemma no_comma: "CHR '','' \<notin> set (show_nat n)"
  using show_nat_digits [of n] digit_not_punct by fastforce

lemma drop_underscores_show [simp]: "drop_underscores (show_nat n) = show_nat n"
  using show_nat_digits [of n] digit_not_punct unfolding drop_underscores_def by (fastforce intro: filter_True)

lemma parse_number_show [simp]: "n \<le> u64_max \<Longrightarrow> parse_number what (show_nat n) = Inr n"
  by (simp add: parse_number_def)

lemma split_comma_nonempty [simp]: "split_comma s \<noteq> []"
  by (induction s) (auto split: list.splits)

lemma split_comma_no_comma: "CHR '','' \<notin> set p \<Longrightarrow> split_comma p = [p]"
  by (induction p) auto

lemma split_comma_append: "CHR '','' \<notin> set p \<Longrightarrow> split_comma (p @ '','' @ s) = p # split_comma s"
  by (induction p) (auto split: list.splits)

lemma split_join: "ps \<noteq> [] \<Longrightarrow> (\<And>p. p \<in> set ps \<Longrightarrow> CHR '','' \<notin> set p) \<Longrightarrow> split_comma (join_with '','' ps) = ps"
proof (induction "'',''::string" ps rule: join_with.induct)
  case (3 p q ps)
  then show ?case using split_comma_append [of p "join_with '','' (q # ps)"] by simp
qed (simp_all add: split_comma_no_comma)

definition show_list :: "nat list \<Rightarrow> string" where "show_list ns = join_with '','' (map show_nat ns)"

lemma split_show_list: "ns \<noteq> [] \<Longrightarrow> split_comma (show_list ns) = map show_nat ns"
  unfolding show_list_def by (rule split_join) (auto simp: no_comma)

lemma show_list_nonempty: "ns \<noteq> [] \<Longrightarrow> show_list ns \<noteq> []"
proof -
  assume ns: "ns \<noteq> []"
  obtain d ds where "show_nat (hd ns) = d # ds" using show_nat_digits by blast
  with split_show_list [OF ns] ns show ?thesis by (cases ns) auto
qed

lemma collect_Inr: "collect (map (\<lambda>x. Inr (f x)) xs) = Inr (map f xs)"
  by (induction xs) simp_all

lemma collect_map_Inr: "(\<And>x. x \<in> set xs \<Longrightarrow> g x = Inr (f x)) \<Longrightarrow> collect (map g xs) = Inr (map f xs)"
  by (induction xs) simp_all

lemma collect_Inr_iff: "collect rs = Inr xs \<longleftrightarrow> rs = map Inr xs"
  by (induction rs arbitrary: xs) auto

lemma parse_entry_show [simp]: "n \<le> u64_max \<Longrightarrow> parse_entry what (show_nat n) = Inr n"
  by (simp add: parse_entry_def)

lemma parse_percent_list_show:
  "list_all (\<lambda>n. n \<le> u64_max) ns \<Longrightarrow> parse_percent_list (show_list ns) = Inr ns"
proof (cases "ns = []")
  case False
  assume "list_all (\<lambda>n. n \<le> u64_max) ns"
  then have "collect (map (\<lambda>n. parse_entry ''load level'' (show_nat n)) ns) = Inr (map (\<lambda>n. n) ns)"
    by (intro collect_map_Inr) (auto simp: list_all_iff)
  with False show ?thesis by (simp add: parse_percent_list_def split_show_list show_list_nonempty comp_def)
qed (simp add: parse_percent_list_def show_list_def)

lemma dedup_distinct: "sorted xs \<Longrightarrow> distinct (remdups_adj (xs :: nat list))"
proof (induction xs rule: remdups_adj.induct)
  case (3 x y xs)
  then show ?case by (auto simp: less_le)
qed simp_all

lemma distinct_iff_sorted_dedup: "length (remdups_adj (sort xs)) = length xs \<longleftrightarrow> distinct (xs :: nat list)"
proof -
  have d: "distinct (remdups_adj (sort xs))" by (simp add: dedup_distinct)
  have "length (remdups_adj (sort xs)) = card (set xs)"
    using distinct_card [OF d] by simp
  then show ?thesis using card_distinct distinct_card by metis
qed

lemma parse_cpu_list_show:
  assumes "list_all (\<lambda>n. n \<le> u64_max) cpus"
  shows "parse_cpu_list (show_list cpus) =
    (if distinct cpus then Inr cpus else Inl (Broken ''cpu-list must contain unique CPU IDs''))"
proof (cases "cpus = []")
  case False
  have "collect (map (\<lambda>n. parse_entry ''CPU'' (show_nat n)) cpus) = Inr (map (\<lambda>n. n) cpus)"
    using assms by (intro collect_map_Inr) (auto simp: list_all_iff)
  with False show ?thesis
    by (simp add: parse_cpu_list_def split_show_list show_list_nonempty comp_def distinct_iff_sorted_dedup)
qed (simp add: parse_cpu_list_def show_list_def)

lemma parse_cpu_list_distinct: "parse_cpu_list s = Inr cpus \<Longrightarrow> distinct cpus"
  by (auto simp: parse_cpu_list_def distinct_iff_sorted_dedup split: if_splits)

lemma parse_duration_us_list_show:
  assumes "list_all (\<lambda>d. 0 < d \<and> d mod 1000 = 0 \<and> d div 1000 \<le> u64_max) ds" and "ds \<noteq> []"
  shows "parse_duration_us_list (show_list (map (\<lambda>d. d div 1000) ds)) = Inr ds"
proof -
  let ?g = "\<lambda>d. bind_cli (parse_entry ''injection duration'' (show_nat (d div 1000)))
    (\<lambda>micros. if micros = 0 then Inl (Broken ''injection durations must be positive'') else Inr (micros * 1000))"
  have "?g d = Inr d" if "d \<in> set ds" for d
  proof -
    have "d div 1000 \<le> u64_max" "d = d div 1000 * 1000" "0 < d" using assms(1) that by (auto simp: list_all_iff)
    then show ?thesis by (simp split: if_splits)
  qed
  then have "collect (map ?g ds) = Inr (map (\<lambda>d. d) ds)" by (intro collect_map_Inr) simp
  with assms(2) show ?thesis
    by (simp add: parse_duration_us_list_def split_show_list show_list_nonempty comp_def)
qed

section \<open>Waiting for a counter\<close>

text \<open>A successful wait saw the count reached, a failed one saw the deadline pass with the count not reached.\<close>

lemma poll_numeral: "poll (numeral k) body s =
     (case body s of Inl r \<Rightarrow> Some r | Inr s' \<Rightarrow> poll (pred_numeral k) body s')"
  by (simp add: numeral_eq_Suc)

lemma wait_count_sound:
  assumes "wait_count fuel counter clock target timeout t = Some (r, t')"
  shows "t < t' \<and> (if r then target \<le> counter (t' - 1)
    else counter (t' - 2) < target \<and> timeout < clock (t' - 1) - clock t)"
proof -
  have "\<exists>u. t < u \<and> wait_body counter clock target timeout (clock t) u = Inl (r, t')"
    using assms unfolding wait_count_def
    by (rule poll_inv [where I = "\<lambda>u. t < u"]) (auto simp: wait_body_def split: if_splits)
  then show ?thesis by (auto simp: wait_body_def split: if_splits)
qed

text \<open>It returns once the count has been reached for good or the clock has passed the deadline for good.\<close>

lemma wait_count_returns:
  assumes "(\<forall>u\<ge>T. target \<le> counter u) \<or> (\<forall>u\<ge>T. timeout < clock u - clock t)"
  shows "\<exists>r. wait_count (Suc (T - Suc t)) counter clock target timeout t = Some r"
  unfolding wait_count_def
proof (rule poll_returns [where I = "\<lambda>_. True" and time = "\<lambda>u. u"])
  show "\<exists>r. wait_body counter clock target timeout (clock t) u = Inl r" if "T \<le> u" for u
    using assms that le_SucI [OF that] by (auto simp: wait_body_def linorder_not_less [symmetric] simp del: linorder_not_less)
qed (auto simp: wait_body_def split: if_splits)

end
