(* ===== verification/Json_Text.thy ===== *)
theory Json_Text
  imports Float64 Harness
begin

text \<open>
  The reports of the benchmark programs are JSON texts, put together line by line with \<open>write!\<close>. This theory
  has a reader of JSON (tokens, then a descent over the grammar of RFC 8259, strings without escapes), the
  formatting of numbers, and the notion of a piece of text that is read on its own: reports are built from
  such pieces, so that their tokens are the tokens of their lines.
\<close>

section \<open>Values and tokens\<close>

datatype json = JObject "(string \<times> json) list" | JArray "json list" | JString string | JNumber rat | JBool bool | JNull

datatype token = BraceL | BraceR | BrackL | BrackR | Colon | Comma | Str string | Num rat | Word string

abbreviation newline :: char where "newline \<equiv> CHR 0x0A"
abbreviation quote_char :: char where "quote_char \<equiv> CHR 0x22"

fun json_tokens :: "json \<Rightarrow> token list" and member_tokens :: "(string \<times> json) list \<Rightarrow> token list" and element_tokens :: "json list \<Rightarrow> token list" where
  "json_tokens (JObject ms) = BraceL # member_tokens ms @ [BraceR]"
| "json_tokens (JArray js) = BrackL # element_tokens js @ [BrackR]"
| "json_tokens (JString s) = [Str s]"
| "json_tokens (JNumber x) = [Num x]"
| "json_tokens (JBool b) = [Word (if b then ''true'' else ''false'')]"
| "json_tokens JNull = [Word ''null'']"
| "member_tokens [] = []"
| "member_tokens [(k, j)] = Str k # Colon # json_tokens j"
| "member_tokens ((k, j) # m # ms) = Str k # Colon # json_tokens j @ Comma # member_tokens (m # ms)"
| "element_tokens [] = []"
| "element_tokens [j] = json_tokens j"
| "element_tokens (j # i # js) = json_tokens j @ Comma # element_tokens (i # js)"

section \<open>The reader\<close>

definition is_digit :: "char \<Rightarrow> bool" where "is_digit c \<longleftrightarrow> to_digit c \<noteq> None"

fun digits_value :: "nat \<Rightarrow> string \<Rightarrow> nat" where
  "digits_value acc [] = acc"
| "digits_value acc (c # cs) = digits_value (acc * 10 + the (to_digit c)) cs"

text \<open>An optional sign, an integer without leading zeros, an optional fraction; the programs print no exponents.\<close>

definition read_unsigned :: "string \<Rightarrow> rat option" where
  "read_unsigned w =
     (let whole = takeWhile is_digit w; rest = dropWhile is_digit w in
      if whole = [] \<or> hd whole = CHR ''0'' \<and> tl whole \<noteq> [] then None
      else case rest of
        [] \<Rightarrow> Some (of_nat (digits_value 0 whole))
      | c # fraction \<Rightarrow>
          if c = CHR ''.'' \<and> fraction \<noteq> [] \<and> list_all is_digit fraction
          then Some (of_nat (digits_value 0 whole) + of_nat (digits_value 0 fraction) / 10 ^ length fraction)
          else None)"

definition read_number :: "string \<Rightarrow> rat option" where
  "read_number w = (case w of c # cs \<Rightarrow> if c = CHR ''-'' then map_option uminus (read_unsigned cs) else read_unsigned w | [] \<Rightarrow> None)"

definition is_blank :: "char \<Rightarrow> bool" where
  "is_blank c \<longleftrightarrow> c = CHR '' '' \<or> c = newline \<or> c = CHR 0x09 \<or> c = CHR 0x0D"

definition punctuation :: "char \<Rightarrow> token option" where
  "punctuation c = map_of [(CHR ''{'', BraceL), (CHR ''}'', BraceR), (CHR ''['', BrackL), (CHR '']'', BrackR), (CHR '':'', Colon), (CHR '','', Comma)] c"

definition ends_word :: "char \<Rightarrow> bool" where
  "ends_word c \<longleftrightarrow> is_blank c \<or> punctuation c \<noteq> None \<or> c = quote_char"

definition read_word :: "string \<Rightarrow> token option" where
  "read_word w = (if w \<in> {''true'', ''false'', ''null''} then Some (Word w) else map_option Num (read_number w))"

definition plain_char :: "char \<Rightarrow> bool" where
  "plain_char c \<longleftrightarrow> c \<noteq> quote_char \<and> c \<noteq> CHR 0x5C \<and> 32 \<le> (of_char c :: nat)"

lemma dropWhile_shorter: "dropWhile P cs = d # rest \<Longrightarrow> length rest < Suc (length cs)"
  using length_dropWhile_le [of P cs] by simp

function lex_json :: "string \<Rightarrow> token list option" where
  "lex_json [] = Some []"
| "lex_json (c # cs) =
     (if is_blank c then lex_json cs
      else case punctuation c of
        Some t \<Rightarrow> map_option (Cons t) (lex_json cs)
      | None \<Rightarrow>
          if c = quote_char
          then (case dropWhile plain_char cs of
                  d # rest \<Rightarrow> if d = quote_char then map_option (Cons (Str (takeWhile plain_char cs))) (lex_json rest) else None
                | [] \<Rightarrow> None)
          else (case read_word (c # takeWhile (\<lambda>d. \<not> ends_word d) cs) of
                  None \<Rightarrow> None
                | Some t \<Rightarrow> map_option (Cons t) (lex_json (dropWhile (\<lambda>d. \<not> ends_word d) cs))))"
  by pat_completeness auto
termination
  by (relation "measure length") (auto simp: length_dropWhile_le le_imp_less_Suc dest: dropWhile_shorter)

declare lex_json.simps(2) [simp del]

fun parse_value :: "nat \<Rightarrow> token list \<Rightarrow> (json \<times> token list) option"
  and parse_members :: "nat \<Rightarrow> token list \<Rightarrow> ((string \<times> json) list \<times> token list) option"
  and parse_elements :: "nat \<Rightarrow> token list \<Rightarrow> (json list \<times> token list) option" where
  "parse_value (Suc n) (BraceL # ts) =
     (if ts \<noteq> [] \<and> hd ts = BraceR then Some (JObject [], tl ts) else map_option (apfst JObject) (parse_members n ts))"
| "parse_value (Suc n) (BrackL # ts) =
     (if ts \<noteq> [] \<and> hd ts = BrackR then Some (JArray [], tl ts) else map_option (apfst JArray) (parse_elements n ts))"
| "parse_value (Suc n) (Str s # ts) = Some (JString s, ts)"
| "parse_value (Suc n) (Num x # ts) = Some (JNumber x, ts)"
| "parse_value (Suc n) (Word w # ts) =
     (if w = ''true'' then Some (JBool True, ts) else if w = ''false'' then Some (JBool False, ts)
      else if w = ''null'' then Some (JNull, ts) else None)"
| "parse_value _ _ = None"
| "parse_members (Suc n) (Str k # Colon # ts) =
     (case parse_value n ts of
        Some (j, Comma # rest) \<Rightarrow> map_option (apfst (Cons (k, j))) (parse_members n rest)
      | Some (j, BraceR # rest) \<Rightarrow> Some ([(k, j)], rest)
      | _ \<Rightarrow> None)"
| "parse_members _ _ = None"
| "parse_elements (Suc n) ts =
     (case parse_value n ts of
        Some (j, Comma # rest) \<Rightarrow> map_option (apfst (Cons j)) (parse_elements n rest)
      | Some (j, BrackR # rest) \<Rightarrow> Some ([j], rest)
      | _ \<Rightarrow> None)"
| "parse_elements _ _ = None"

definition read_json :: "string \<Rightarrow> json option" where
  "read_json s =
     Option.bind (lex_json s) (\<lambda>ts. case parse_value (length ts) ts of Some (j, []) \<Rightarrow> Some j | _ \<Rightarrow> None)"

section \<open>The tokens determine the value\<close>

lemma json_tokens_hd [simp]: "json_tokens j \<noteq> []" "hd (json_tokens j) \<noteq> BraceR" "hd (json_tokens j) \<noteq> BrackR"
  by (cases j; simp)+

lemma member_tokens_hd: "ms \<noteq> [] \<Longrightarrow> member_tokens ms \<noteq> [] \<and> hd (member_tokens ms) \<noteq> BraceR"
  by (cases ms rule: member_tokens.cases) simp_all

lemma element_tokens_hd: "js \<noteq> [] \<Longrightarrow> element_tokens js \<noteq> [] \<and> hd (element_tokens js) \<noteq> BrackR"
  by (cases js rule: element_tokens.cases) simp_all

lemma parse_json_tokens:
  "length (json_tokens j) \<le> n \<Longrightarrow> parse_value n (json_tokens j @ rest) = Some (j, rest)"
  "ms \<noteq> [] \<Longrightarrow> length (member_tokens ms) < n \<Longrightarrow> parse_members n (member_tokens ms @ BraceR # rest) = Some (ms, rest)"
  "js \<noteq> [] \<Longrightarrow> length (element_tokens js) < n \<Longrightarrow> parse_elements n (element_tokens js @ BrackR # rest) = Some (js, rest)"
proof (induction j and ms and js arbitrary: n rest and n rest and n rest rule: json_tokens_member_tokens_element_tokens.induct)
  case (1 ms) then show ?case by (cases n; cases "ms = []") (auto simp: member_tokens_hd)
next
  case (2 js) then show ?case by (cases n; cases "js = []") (auto simp: element_tokens_hd)
next
  case (3 s) then show ?case by (cases n) simp_all
next
  case (4 x) then show ?case by (cases n) simp_all
next
  case (5 b) then show ?case by (cases n) simp_all
next
  case 6 then show ?case by (cases n) simp_all
next
  case (8 k j) then show ?case by (cases n) simp_all
next
  case (9 k j m ms) then show ?case by (cases n) simp_all
next
  case (11 j) then show ?case by (cases n) simp_all
next
  case (12 j i js) then show ?case by (cases n) simp_all
qed simp_all

lemma read_json_tokens: "lex_json s = Some (json_tokens j) \<Longrightarrow> read_json s = Some j"
  using parse_json_tokens(1) [of j "length (json_tokens j)" "[]"] by (simp add: read_json_def)

section \<open>Formatting\<close>

text \<open>\<open>{:.n}\<close> of an \<open>f64\<close>: the exact value rounded to \<open>n\<close> decimals, ties to even; \<open>{}\<close> of a \<open>bool\<close>.\<close>

fun fraction_digits :: "nat \<Rightarrow> nat \<Rightarrow> string" where
  "fraction_digits 0 k = []"
| "fraction_digits (Suc n) k = fraction_digits n (k div 10) @ [digit (k mod 10)]"

definition show_fixed :: "nat \<Rightarrow> f64 \<Rightarrow> string" where
  "show_fixed n x =
     (let k = nat (half_even (\<bar>x\<bar> * 10 ^ n))
      in (if x < 0 then ''-'' else []) @ show_nat (k div 10 ^ n) @ ''.'' @ fraction_digits n k)"

definition show_bool :: "bool \<Rightarrow> string" where
  "show_bool b = (if b then ''true'' else ''false'')"

definition quoted :: "string \<Rightarrow> string" where
  "quoted s = quote_char # s @ [quote_char]"

definition spaces :: "nat \<Rightarrow> string" where
  "spaces n = replicate n CHR '' ''"

text \<open>The number that is read from the text of \<open>x\<close>.\<close>

definition rounded :: "nat \<Rightarrow> f64 \<Rightarrow> rat" where
  "rounded n x = sgn x * (of_int (half_even (\<bar>x\<bar> * 10 ^ n)) / 10 ^ n)"

lemma half_even_nonneg: "0 \<le> x \<Longrightarrow> 0 \<le> half_even x"
  by (simp add: half_even_def Let_def)

lemma half_even_near: "\<bar>x - of_int (half_even x)\<bar> \<le> 1 / 2"
proof -
  have "of_int \<lfloor>x\<rfloor> \<le> x" "x < of_int \<lfloor>x\<rfloor> + 1" by linarith+
  then show ?thesis by (simp add: half_even_def Let_def abs_le_iff)
qed

lemma rounded_near: "\<bar>x - rounded n x\<bar> \<le> 1 / (2 * 10 ^ n)"
proof -
  have "\<bar>\<bar>x\<bar> * 10 ^ n - of_int (half_even (\<bar>x\<bar> * 10 ^ n))\<bar> \<le> 1 / 2" by (rule half_even_near)
  then have "\<bar>\<bar>x\<bar> * 10 ^ n - of_int (half_even (\<bar>x\<bar> * 10 ^ n))\<bar> / 10 ^ n \<le> 1 / 2 / 10 ^ n"
    by (rule divide_right_mono) simp
  moreover have "\<bar>\<bar>x\<bar> * 10 ^ n - of_int (half_even (\<bar>x\<bar> * 10 ^ n))\<bar> / 10 ^ n = \<bar>\<bar>x\<bar> - of_int (half_even (\<bar>x\<bar> * 10 ^ n)) / 10 ^ n\<bar>"
    by (simp add: abs_div_pos diff_divide_distrib)
  moreover have "\<bar>x - rounded n x\<bar> = \<bar>\<bar>x\<bar> - of_int (half_even (\<bar>x\<bar> * 10 ^ n)) / 10 ^ n\<bar>" if "x \<noteq> 0"
    using that unfolding rounded_def by (cases "0 < x") auto
  ultimately show ?thesis by (cases "x = 0") (simp_all add: rounded_def)
qed

lemma digits_value_append [simp]: "digits_value acc (a @ b) = digits_value (digits_value acc a) b"
  by (induction acc a rule: digits_value.induct) simp_all

lemma digits_value_show [simp]: "digits_value 0 (show_nat n) = n"
  by (induction n rule: show_nat.induct) (subst show_nat.simps, auto)

lemma is_digit_digit [simp]: "d < 10 \<Longrightarrow> is_digit (digit d)"
  by (simp add: is_digit_def)

lemma digits_value_fraction: "digits_value acc (fraction_digits n k) = acc * 10 ^ n + k mod 10 ^ n"
  by (induction n arbitrary: k) (simp_all add: mod_mult2_eq algebra_simps)

lemma fraction_digits_simps [simp]: "length (fraction_digits n k) = n" "list_all is_digit (fraction_digits n k)"
  by (induction n arbitrary: k) simp_all

lemma fraction_value [simp]: "digits_value 0 (fraction_digits n k) = k mod 10 ^ n"
  by (simp add: digits_value_fraction)

lemma show_nat_all_digits: "list_all is_digit (show_nat n)"
  by (induction n rule: show_nat.induct) (subst show_nat.simps, auto)

lemma show_nat_not_Nil [simp]: "show_nat n \<noteq> []"
  using show_nat_digits [of n] by auto

lemma show_nat_leading: "hd (show_nat n) = CHR ''0'' \<Longrightarrow> tl (show_nat n) = []"
proof -
  have zero: "hd (show_nat n) = CHR ''0'' \<Longrightarrow> n = 0"
  proof (induction n rule: show_nat.induct)
    case (1 n)
    show ?case
    proof (cases "n < 10")
      case True
      then have "to_digit (digit n) = Some n" by simp
      moreover have "to_digit CHR ''0'' = Some 0" by (simp add: to_digit_def)
      moreover have "digit n = CHR ''0''" using "1.prems" True by (simp add: show_nat.simps [of n])
      ultimately show ?thesis by simp
    next
      case False
      then show ?thesis using 1 by (simp add: show_nat.simps [of n])
    qed
  qed
  assume "hd (show_nat n) = CHR ''0''"
  from zero [OF this] show ?thesis by (simp add: show_nat.simps)
qed

lemma not_digit_dot [simp]: "\<not> is_digit CHR ''.''" by (simp add: is_digit_def to_digit_def)

lemma span_digits:
  "list_all is_digit w \<Longrightarrow> takeWhile is_digit w = w \<and> dropWhile is_digit w = []"
  "list_all is_digit w \<Longrightarrow> takeWhile is_digit (w @ CHR ''.'' # f) = w \<and> dropWhile is_digit (w @ CHR ''.'' # f) = CHR ''.'' # f"
  by (induction w) simp_all

lemma read_unsigned_show [simp]: "read_unsigned (show_nat n) = Some (of_nat n)"
  using show_nat_leading [of n] by (auto simp: read_unsigned_def span_digits show_nat_all_digits Let_def)

lemma read_unsigned_fixed:
  assumes "0 < n"
  shows "read_unsigned (show_nat (k div 10 ^ n) @ ''.'' @ fraction_digits n k) = Some (of_nat k / 10 ^ n)"
proof -
  have "of_nat k = (of_nat (k div 10 ^ n * 10 ^ n + k mod 10 ^ n) :: rat)" by (simp only: div_mult_mod_eq)
  then have "(of_nat (k div 10 ^ n) :: rat) + of_nat (k mod 10 ^ n) / 10 ^ n = of_nat k / 10 ^ n"
    by (simp add: add_divide_distrib)
  moreover have "fraction_digits n k \<noteq> []" using assms fraction_digits_simps(1) [of n k] by fastforce
  ultimately show ?thesis
    using show_nat_leading [of "k div 10 ^ n"] by (simp add: read_unsigned_def span_digits show_nat_all_digits Let_def)
qed

section \<open>Pieces that are read on their own\<close>

definition lexes :: "string \<Rightarrow> token list \<Rightarrow> bool" where
  "lexes s ts \<longleftrightarrow> (\<forall>rest. lex_json (s @ rest) = map_option ((@) ts) (lex_json rest))"

lemma append_funs: "(@) [] = (\<lambda>us. us)" "(@) (t # ts) = (\<lambda>us. t # ts @ us)" "(@) (ts @ ts') = (\<lambda>us. ts @ ts' @ us)"
  by auto

lemma lexes_Nil [simp]: "lexes [] []"
  by (simp add: lexes_def append_funs option.map_ident)

lemma lexes_append: "lexes a ts \<Longrightarrow> lexes b us \<Longrightarrow> lexes (a @ b) (ts @ us)"
  by (simp add: lexes_def option.map_comp comp_def append_funs)

lemma lexes_blank: "is_blank c \<Longrightarrow> lexes s ts \<Longrightarrow> lexes (c # s) ts"
  by (simp add: lexes_def lex_json.simps(2))

lemma lexes_punctuation: "\<not> is_blank c \<Longrightarrow> punctuation c = Some t \<Longrightarrow> lexes s ts \<Longrightarrow> lexes (c # s) (t # ts)"
  by (simp add: lexes_def lex_json.simps(2) option.map_comp comp_def append_funs)

lemma lexes_spaces: "lexes s ts \<Longrightarrow> lexes (spaces n @ s) ts"
  by (induction n) (simp_all add: spaces_def lexes_blank is_blank_def)

lemma plain_span: "list_all plain_char s \<Longrightarrow> takeWhile plain_char (s @ quote_char # r) = s \<and> dropWhile plain_char (s @ quote_char # r) = quote_char # r"
  by (induction s) (simp_all add: plain_char_def)

lemma lexes_quoted: "list_all plain_char s \<Longrightarrow> lexes r ts \<Longrightarrow> lexes (quoted s @ r) (Str s # ts)"
  by (simp add: lexes_def lex_json.simps(2) quoted_def plain_span is_blank_def punctuation_def option.map_comp comp_def append_funs)

text \<open>The texts of the values that fit on a line.\<close>

definition atom :: "string \<Rightarrow> token \<Rightarrow> bool" where
  "atom v t \<longleftrightarrow> (\<exists>s. v = quoted s \<and> list_all plain_char s \<and> t = Str s) \<or>
     v \<noteq> [] \<and> list_all (\<lambda>c. \<not> ends_word c) v \<and> read_word v = Some t"

lemma word_span:
  "list_all (\<lambda>c. \<not> ends_word c) w \<Longrightarrow> ends_word d \<Longrightarrow>
   takeWhile (\<lambda>c. \<not> ends_word c) (w @ d # r) = w \<and> dropWhile (\<lambda>c. \<not> ends_word c) (w @ d # r) = d # r"
  by (induction w) simp_all

lemma lexes_atom:
  assumes "atom v t" and "ends_word d" and "lexes (d # r) ts"
  shows "lexes (v @ d # r) (t # ts)"
  using assms(1) unfolding atom_def
proof (elim disjE exE conjE)
  fix s assume "v = quoted s" "list_all plain_char s" "t = Str s"
  then show ?thesis using lexes_quoted assms(3) by simp
next
  assume v: "v \<noteq> []" "list_all (\<lambda>c. \<not> ends_word c) v" "read_word v = Some t"
  then obtain c cs where c: "v = c # cs" "\<not> ends_word c" "list_all (\<lambda>c. \<not> ends_word c) cs" by (cases v) auto
  then have "lex_json ((v @ d # r) @ rest) = map_option (Cons t) (lex_json (d # r @ rest))" for rest
    using v(3) word_span [OF c(3) assms(2), of "r @ rest"] by (simp add: lex_json.simps(2) [of c] ends_word_def)
  with assms(3) show ?thesis by (simp add: lexes_def option.map_comp comp_def append_funs)
qed

lemma digit_continues: "is_digit c \<Longrightarrow> \<not> ends_word c"
proof
  assume c: "is_digit c" "ends_word c"
  have "c \<in> set '' {}[]:,'' \<or> c = newline \<or> c = quote_char \<or> c = CHR 0x09 \<or> c = CHR 0x0D"
    using c(2) by (auto simp: ends_word_def is_blank_def punctuation_def split: if_splits)
  then show False using c(1) by (elim disjE) (auto simp: is_digit_def to_digit_def)
qed

lemma show_nat_continues [simp]: "list_all (\<lambda>c. \<not> ends_word c) (show_nat n)"
  using show_nat_all_digits [of n] digit_continues by (auto simp: list_all_iff)

lemma fraction_continues [simp]: "list_all (\<lambda>c. \<not> ends_word c) (fraction_digits n k)"
  using fraction_digits_simps(2) [of n k] digit_continues by (auto simp: list_all_iff)

lemma sign_continues [simp]: "\<not> ends_word CHR ''-''" "\<not> ends_word CHR ''.''"
  by (simp_all add: ends_word_def is_blank_def punctuation_def)

lemma digits_not_word:
  assumes "is_digit c"
  shows "read_word (c # cs) = map_option Num (read_unsigned (c # cs))" "read_word (CHR ''-'' # c # cs) = map_option Num (map_option uminus (read_unsigned (c # cs)))"
proof -
  have "\<not> is_digit CHR ''t''" "\<not> is_digit CHR ''f''" "\<not> is_digit CHR ''n''" "\<not> is_digit CHR ''-''" by (simp_all add: is_digit_def to_digit_def)
  with assms have "c \<noteq> CHR ''t''" "c \<noteq> CHR ''f''" "c \<noteq> CHR ''n''" "c \<noteq> CHR ''-''" by auto
  then show "read_word (c # cs) = map_option Num (read_unsigned (c # cs))" "read_word (CHR ''-'' # c # cs) = map_option Num (map_option uminus (read_unsigned (c # cs)))"
    by (simp_all add: read_word_def read_number_def)
qed

lemma atom_unsigned:
  assumes "read_unsigned w = Some x" and "is_digit (hd w)" and "list_all (\<lambda>c. \<not> ends_word c) w" and "w \<noteq> []"
  shows "atom w (Num x)" "atom (CHR ''-'' # w) (Num (- x))"
  using assms by (cases w; simp add: atom_def digits_not_word)+

lemma hd_show_nat [simp]: "is_digit (hd (show_nat n))"
  using show_nat_all_digits [of n] by (cases "show_nat n") simp_all

lemma atom_nat: "atom (show_nat n) (Num (of_nat n))"
  by (rule atom_unsigned) simp_all

lemma atom_int: "atom (show_int i) (Num (of_int i))"
proof (cases "i < 0")
  case True
  then show ?thesis using atom_unsigned(2) [of "show_nat (nat (- i))" "of_nat (nat (- i))"] by (simp add: show_int_def)
next
  case False
  then show ?thesis using atom_nat [of "nat i"] by (simp add: show_int_def)
qed

lemma atom_fixed:
  assumes "0 < n"
  shows "atom (show_fixed n x) (Num (rounded n x))"
proof -
  let ?k = "nat (half_even (\<bar>x\<bar> * 10 ^ n))"
  let ?w = "show_nat (?k div 10 ^ n) @ ''.'' @ fraction_digits n ?k"
  have k: "of_nat ?k = (of_int (half_even (\<bar>x\<bar> * 10 ^ n)) :: rat)" by (simp add: half_even_nonneg)
  have w: "is_digit (hd ?w)" "list_all (\<lambda>c. \<not> ends_word c) ?w" "?w \<noteq> []" by simp_all
  note both = atom_unsigned [OF read_unsigned_fixed [OF assms] w]
  show ?thesis
  proof (cases "x = 0")
    case True
    then show ?thesis using both(1) by (simp add: show_fixed_def rounded_def k half_even_def Let_def)
  next
    case False
    then show ?thesis using both by (auto simp: show_fixed_def rounded_def k Let_def)
  qed
qed

lemma atom_bool: "atom (show_bool b) (Word (if b then ''true'' else ''false''))"
  by (simp add: atom_def show_bool_def read_word_def ends_word_def is_blank_def punctuation_def)

lemma atom_null: "atom ''null'' (Word ''null'')"
  by (simp add: atom_def read_word_def ends_word_def is_blank_def punctuation_def)

lemma atom_string: "list_all plain_char s \<Longrightarrow> atom (quoted s) (Str s)"
  by (auto simp: atom_def)

lemmas atoms = atom_nat atom_int atom_fixed atom_bool atom_null atom_string

section \<open>Writers\<close>

text \<open>
  A writer appends to the output, as \<open>push_str\<close> and \<open>write!\<close> on a \<open>String\<close> do; \<open>write_all\<close> runs them one after
  the other. \<open>write_each\<close> is the loop over \<open>iter().enumerate()\<close>: each round is told whether it is the last.
\<close>

type_synonym writer = "string \<Rightarrow> string"

definition push_str :: "string \<Rightarrow> writer" where
  "push_str s output = output @ s"

fun write_all :: "writer list \<Rightarrow> writer" where
  "write_all [] output = output"
| "write_all (w # ws) output = write_all ws (w output)"

fun write_each :: "(bool \<Rightarrow> 'a \<Rightarrow> writer) \<Rightarrow> 'a list \<Rightarrow> writer" where
  "write_each w [] output = output"
| "write_each w (x # xs) output = write_each w xs (w (xs = []) x output)"

text \<open>A line with a member of an object.\<close>

definition field_line :: "nat \<Rightarrow> string \<Rightarrow> string \<Rightarrow> bool \<Rightarrow> writer" where
  "field_line indent key v trailing =
     push_str (spaces indent @ quoted key @ '': '' @ v @ (if trailing then '','' else []) @ [newline])"

text \<open>A line with punctuation, and the head of a list or an object among the members.\<close>

definition text_line :: "nat \<Rightarrow> string \<Rightarrow> writer" where
  "text_line indent s = push_str (spaces indent @ s @ [newline])"

definition head_line :: "nat \<Rightarrow> string \<Rightarrow> char \<Rightarrow> writer" where
  "head_line indent key c = text_line indent (quoted key @ '': '' @ [c])"

abbreviation comma_if :: "bool \<Rightarrow> token list" where "comma_if b \<equiv> (if b then [Comma] else [])"

definition writes :: "writer \<Rightarrow> token list \<Rightarrow> bool" where
  "writes w ts \<longleftrightarrow> (\<exists>s. lexes s ts \<and> (\<forall>output. w output = output @ s))"

lemma writes_push: "lexes s ts \<Longrightarrow> writes (push_str s) ts"
  by (auto simp: writes_def push_str_def)

lemma writes_Nil: "writes (write_all []) []"
  by (auto simp: writes_def intro: exI [of _ "[]"])

lemma writes_Cons: "writes w ts \<Longrightarrow> writes (write_all ws) us \<Longrightarrow> writes (write_all (w # ws)) (ts @ us)"
  by (fastforce simp: writes_def intro: lexes_append)

lemma write_all_append [simp]: "write_all (ws @ vs) out = write_all vs (write_all ws out)"
  by (induction ws arbitrary: out) simp_all

fun separated :: "token list list \<Rightarrow> token list" where
  "separated [] = []"
| "separated [ts] = ts"
| "separated (ts # us # tss) = ts @ Comma # separated (us # tss)"

lemma separated_tokens:
  "element_tokens js = separated (map json_tokens js)"
  "member_tokens ms = separated (map (\<lambda>(k, j). Str k # Colon # json_tokens j) ms)"
proof -
  show "element_tokens js = separated (map json_tokens js)"
    by (induction js rule: induct_list012) simp_all
  show "member_tokens ms = separated (map (\<lambda>(k, j). Str k # Colon # json_tokens j) ms)"
    by (induction ms rule: induct_list012) (auto simp: split_beta)
qed

lemma writes_separated:
  assumes "\<And>x final. x \<in> set xs \<Longrightarrow> writes (w final x) (ts x @ comma_if (\<not> final))"
  shows "writes (write_each w xs) (separated (map ts xs))"
  using assms
proof (induction xs)
  case Nil
  then show ?case by (auto simp: writes_def intro: exI [of _ "[]"])
next
  case (Cons x xs)
  then have "writes (w (xs = []) x) (ts x @ comma_if (xs \<noteq> []))" and "writes (write_each w xs) (separated (map ts xs))" by simp_all
  then obtain s s' where s: "lexes s (ts x @ comma_if (xs \<noteq> []))" "\<And>out. w (xs = []) x out = out @ s"
    "lexes s' (separated (map ts xs))" "\<And>out. write_each w xs out = out @ s'" unfolding writes_def by blast
  from lexes_append [OF s(1,3)] have "lexes (s @ s') (separated (map ts (x # xs)))" by (cases xs) simp_all
  with s(2,4) show ?case unfolding writes_def by (metis append_assoc write_each.simps(2))
qed

lemma writes_each:
  assumes "\<And>x final. x \<in> set xs \<Longrightarrow> writes (w final x) (json_tokens (f x) @ comma_if (\<not> final))"
  shows "writes (write_each w xs) (element_tokens (map f xs))"
  using writes_separated [OF assms] by (simp add: separated_tokens comp_def)

lemma writes_each_member:
  assumes "\<And>x final. x \<in> set xs \<Longrightarrow> writes (w final x) (Str (k x) # Colon # json_tokens (f x) @ comma_if (\<not> final))"
  shows "writes (write_each w xs) (member_tokens (map (\<lambda>x. (k x, f x)) xs))"
  using writes_separated [of xs w "\<lambda>x. Str (k x) # Colon # json_tokens (f x)"] assms by (simp add: separated_tokens comp_def)

lemma writes_eq: "writes w ts \<Longrightarrow> ts = us \<Longrightarrow> writes w us"
  by simp

lemma writes_field:
  assumes "list_all plain_char key" and "atom v t"
  shows "writes (field_line indent key v trailing) (Str key # Colon # t # (if trailing then [Comma] else []))"
proof -
  have end_line: "lexes [newline] []" by (simp add: lexes_blank is_blank_def)
  then have "lexes ('','' @ [newline]) [Comma]" by (simp add: lexes_punctuation is_blank_def punctuation_def)
  with end_line have "lexes (v @ (if trailing then '','' else []) @ [newline]) (t # (if trailing then [Comma] else []))"
    using lexes_atom [OF assms(2)] by (auto simp: ends_word_def is_blank_def punctuation_def)
  then have "lexes (spaces indent @ quoted key @ '': '' @ v @ (if trailing then '','' else []) @ [newline])
     (Str key # Colon # t # (if trailing then [Comma] else []))"
    using assms(1) by (intro lexes_spaces lexes_quoted) (simp_all add: lexes_punctuation lexes_blank is_blank_def punctuation_def)
  then show ?thesis unfolding field_line_def by (rule writes_push)
qed

lemma read_written: "writes w (json_tokens j) \<Longrightarrow> read_json (w []) = Some j"
  unfolding writes_def lexes_def by (metis append_Nil append_Nil2 lex_json.simps(1) option.simps(9) read_json_tokens)

lemma writes_member:
  "list_all plain_char key \<Longrightarrow> atom v t \<Longrightarrow> json_tokens j = [t] \<Longrightarrow>
   writes (field_line indent key v b) (Str key # Colon # json_tokens j @ comma_if b)"
  using writes_field by simp

lemma writes_text:
  "writes (text_line n ''{'') [BraceL]" "writes (text_line n ''}'') [BraceR]" "writes (text_line n ''},'') [BraceR, Comma]"
  "writes (text_line n '']'') [BrackR]" "writes (text_line n ''],'') [BrackR, Comma]"
  by (simp_all add: text_line_def writes_push lexes_spaces lexes_punctuation lexes_blank is_blank_def punctuation_def)

lemma writes_last: "writes (text_line n (if final then ''}'' else ''},'')) (BraceR # comma_if (\<not> final))"
  by (simp add: writes_text)

lemma writes_head:
  "list_all plain_char key \<Longrightarrow> writes (head_line n key CHR ''['') [Str key, Colon, BrackL]"
  "list_all plain_char key \<Longrightarrow> writes (head_line n key CHR ''{'') [Str key, Colon, BraceL]"
  unfolding head_line_def text_line_def append_assoc
  by (intro writes_push lexes_spaces lexes_quoted; simp add: lexes_punctuation lexes_blank is_blank_def punctuation_def)+

lemma writes_if: "(b \<Longrightarrow> writes w ts) \<Longrightarrow> (\<not> b \<Longrightarrow> writes w' ts') \<Longrightarrow> writes (if b then w else w') (if b then ts else ts')"
  by simp

text \<open>The values of the members.\<close>

definition jnat :: "nat \<Rightarrow> json" where "jnat n = JNumber (of_nat n)"
definition jint :: "int \<Rightarrow> json" where "jint i = JNumber (of_int i)"
definition jfloat :: "nat \<Rightarrow> f64 \<Rightarrow> json" where "jfloat n x = JNumber (rounded n x)"
definition jopt :: "('a \<Rightarrow> json) \<Rightarrow> 'a option \<Rightarrow> json" where "jopt f v = (case v of None \<Rightarrow> JNull | Some x \<Rightarrow> f x)"

lemma writes_atom_member:
  assumes "list_all plain_char key"
  shows "list_all plain_char v \<Longrightarrow> writes (field_line n key (quoted v) b) (Str key # Colon # json_tokens (JString v) @ comma_if b)"
    "writes (field_line n key (show_nat i) b) (Str key # Colon # json_tokens (jnat i) @ comma_if b)"
    "writes (field_line n key (show_int z) b) (Str key # Colon # json_tokens (jint z) @ comma_if b)"
    "0 < d \<Longrightarrow> writes (field_line n key (show_fixed d x) b) (Str key # Colon # json_tokens (jfloat d x) @ comma_if b)"
    "writes (field_line n key (show_bool c) b) (Str key # Colon # json_tokens (JBool c) @ comma_if b)"
    "writes (field_line n key ''null'' b) (Str key # Colon # json_tokens JNull @ comma_if b)"
proof -
  note member = writes_member [OF assms]
  show "list_all plain_char v \<Longrightarrow> writes (field_line n key (quoted v) b) (Str key # Colon # json_tokens (JString v) @ comma_if b)"
    by (rule member) (simp_all add: atoms)
  show "writes (field_line n key (show_nat i) b) (Str key # Colon # json_tokens (jnat i) @ comma_if b)"
    by (rule member) (rule atoms, simp add: jnat_def)
  show "writes (field_line n key (show_int z) b) (Str key # Colon # json_tokens (jint z) @ comma_if b)"
    by (rule member) (rule atoms, simp add: jint_def)
  show "0 < d \<Longrightarrow> writes (field_line n key (show_fixed d x) b) (Str key # Colon # json_tokens (jfloat d x) @ comma_if b)"
    by (rule member) (simp_all add: atoms jfloat_def)
  show "writes (field_line n key (show_bool c) b) (Str key # Colon # json_tokens (JBool c) @ comma_if b)"
    by (rule member) (rule atoms, simp)
  show "writes (field_line n key ''null'' b) (Str key # Colon # json_tokens JNull @ comma_if b)"
    by (rule member) (rule atoms, simp)
qed

lemmas writes_intros = writes_Nil writes_Cons writes_text writes_head writes_each

lemma comma_if_simps [simp]: "comma_if True = [Comma]" "comma_if False = []" by simp_all

section \<open>Lists on one line, objects with computed members\<close>

definition list_line :: "nat \<Rightarrow> string \<Rightarrow> string list \<Rightarrow> bool \<Rightarrow> writer" where
  "list_line indent key vs trailing =
     push_str (spaces indent @ quoted key @ '': ['' @ join_with '', '' vs @ '']'' @ (if trailing then '','' else []) @ [newline])"

lemma lexes_join:
  assumes "list_all2 (\<lambda>v j. \<exists>t. atom v t \<and> json_tokens j = [t]) vs js" and "ends_word d" and "lexes (d # r) ts"
  shows "lexes (join_with '', '' vs @ d # r) (element_tokens js @ ts)"
  using assms(1)
proof (induction "'', ''::string" vs arbitrary: js rule: join_with.induct)
  case (2 v)
  then obtain j t where "js = [j]" "atom v t" "json_tokens j = [t]" by (auto simp: list_all2_Cons1)
  then show ?case using lexes_atom assms(2,3) by simp
next
  case (3 v v' vs)
  then obtain j t js' where j: "js = j # js'" "atom v t" "json_tokens j = [t]" "js' \<noteq> []"
    "list_all2 (\<lambda>v j. \<exists>t. atom v t \<and> json_tokens j = [t]) (v' # vs) js'" by (auto simp: list_all2_Cons1)
  have "lexes ('', '' @ join_with '', '' (v' # vs) @ d # r) (Comma # element_tokens js' @ ts)"
    using "3.hyps" [OF j(5)] by (simp add: lexes_punctuation lexes_blank is_blank_def punctuation_def)
  then have "lexes (v @ CHR '','' # '' '' @ join_with '', '' (v' # vs) @ d # r) (t # Comma # element_tokens js' @ ts)"
    by (intro lexes_atom [OF j(2)]) (simp_all add: ends_word_def is_blank_def punctuation_def)
  then show ?case using j(1,3,4) by (cases js') simp_all
qed (simp add: assms)

lemma writes_list_line:
  assumes "list_all plain_char key" and "list_all2 (\<lambda>v j. \<exists>t. atom v t \<and> json_tokens j = [t]) vs js"
  shows "writes (list_line n key vs b) (Str key # Colon # json_tokens (JArray js) @ comma_if b)"
proof -
  have "lexes ('']'' @ (if b then '','' else []) @ [newline]) (BrackR # comma_if b)"
    by (simp add: lexes_punctuation lexes_blank is_blank_def punctuation_def)
  then have "lexes (join_with '', '' vs @ CHR '']'' # (if b then '','' else []) @ [newline]) (element_tokens js @ BrackR # comma_if b)"
    by (intro lexes_join [OF assms(2)]) (simp_all add: ends_word_def punctuation_def)
  then have "lexes ('': ['' @ join_with '', '' vs @ '']'' @ (if b then '','' else []) @ [newline]) (Colon # BrackL # element_tokens js @ BrackR # comma_if b)"
    by (simp add: lexes_punctuation lexes_blank is_blank_def punctuation_def)
  then show ?thesis unfolding list_line_def using assms(1) by (simp add: writes_push lexes_spaces lexes_quoted)
qed

lemma writes_nat_list: "list_all plain_char key \<Longrightarrow> writes (list_line n key (map show_nat is) b) (Str key # Colon # json_tokens (JArray (map jnat is)) @ comma_if b)"
  by (rule writes_list_line) (auto simp: list_all2_conv_all_nth jnat_def intro: atom_nat)

lemma writes_string_list:
  "list_all plain_char key \<Longrightarrow> list_all (list_all plain_char) ss \<Longrightarrow>
   writes (list_line n key (map quoted ss) b) (Str key # Colon # json_tokens (JArray (map JString ss)) @ comma_if b)"
  by (rule writes_list_line) (auto simp: list_all2_conv_all_nth list_all_length intro: atom_string)

lemma separated_append: "tss \<noteq> [] \<Longrightarrow> uss \<noteq> [] \<Longrightarrow> separated (tss @ uss) = separated tss @ Comma # separated uss"
proof (induction tss rule: separated.induct)
  case (2 ts)
  then show ?case by (cases uss) simp_all
qed simp_all

lemma member_tokens_append:
  "ms \<noteq> [] \<Longrightarrow> ns \<noteq> [] \<Longrightarrow> member_tokens (ms @ ns) = member_tokens ms @ Comma # member_tokens ns"
  by (simp add: separated_tokens separated_append)

text \<open>A key whose value begins on the same line, and pieces of punctuation.\<close>

definition key_text :: "nat \<Rightarrow> string \<Rightarrow> writer" where
  "key_text indent key = push_str (spaces indent @ quoted key @ '': '')"

lemma writes_key: "list_all plain_char key \<Longrightarrow> writes (key_text n key) [Str key, Colon]"
  unfolding key_text_def
  by (intro writes_push lexes_spaces lexes_quoted) (simp_all add: lexes_punctuation lexes_blank is_blank_def punctuation_def)

lemma writes_punctuation:
  "writes (push_str (spaces n @ ''}'')) [BraceR]" "writes (push_str [newline]) []" "writes (push_str ('','' @ [newline])) [Comma]"
  "writes (push_str (''{'' @ [newline])) [BraceL]" "writes (push_str ''{'') [BraceL]" "writes (push_str (''}'' @ [newline])) [BraceR]"
  by (simp_all add: writes_push lexes_spaces lexes_punctuation lexes_blank is_blank_def punctuation_def)

lemma kinds_plain: "list_all plain_char (wait_kind_as_str wk)" "list_all plain_char (pad_as_str pd)"
  by (cases wk, simp_all add: plain_char_def) (cases pd, simp_all add: plain_char_def)

end
