(* ===== verification/H2h_Config.thy ===== *)
theory H2h_Config
  imports Harness
begin

text \<open>
  The command line of the head-to-head program (\<open>src/bin/h2h_rust.rs\<close>), built without the
  \<open>bench-round-diagnostics\<close> feature: scenarios with their defaults, flags, rules and the roles of the CPUs.
\<close>

section \<open>Scenarios and handler modes\<close>

datatype scenario = Unicast | UnicastBatch | MpscBatch | PipelineScenario

definition scenario_parse :: "string \<Rightarrow> scenario cli" where
  "scenario_parse s =
     (if s = ''unicast'' then Inr Unicast else if s = ''unicast_batch'' then Inr UnicastBatch
      else if s = ''mpsc_batch'' then Inr MpscBatch else if s = ''pipeline'' then Inr PipelineScenario
      else Inl (Unsupported ''scenario'' s))"

fun scenario_as_str :: "scenario \<Rightarrow> string" where
  "scenario_as_str Unicast = ''unicast''"
| "scenario_as_str UnicastBatch = ''unicast_batch''"
| "scenario_as_str MpscBatch = ''mpsc_batch''"
| "scenario_as_str PipelineScenario = ''pipeline''"

fun default_wait :: "scenario \<Rightarrow> wait_kind" where
  "default_wait MpscBatch = WkBusySpin"
| "default_wait _ = WkYielding"

fun default_buffer :: "scenario \<Rightarrow> nat" where
  "default_buffer PipelineScenario = 8192"
| "default_buffer _ = 65536"

fun default_events :: "scenario \<Rightarrow> bool \<Rightarrow> nat" where
  "default_events MpscBatch True = 3000000"
| "default_events _ True = 1000000"
| "default_events MpscBatch False = 60000000"
| "default_events _ False = 100000000"

fun default_batch :: "scenario \<Rightarrow> nat" where
  "default_batch Unicast = 1"
| "default_batch PipelineScenario = 1"
| "default_batch _ = 10"

abbreviation MPSC_PRODUCERS :: nat where "MPSC_PRODUCERS \<equiv> 3"

datatype handler_mode = ValueMode | ReadMode | WriteOne | WriteThree | SideBuffer

definition handler_mode_parse :: "string \<Rightarrow> handler_mode cli" where
  "handler_mode_parse v =
     (if v = ''value'' then Inr ValueMode else if v = ''r'' then Inr ReadMode else if v = ''w1'' then Inr WriteOne
      else if v = ''w3'' then Inr WriteThree else if v = ''sb'' then Inr SideBuffer
      else Inl (Unsupported ''handler-mode'' v))"

fun handler_mode_as_str :: "handler_mode \<Rightarrow> string" where
  "handler_mode_as_str ValueMode = ''value''"
| "handler_mode_as_str ReadMode = ''r''"
| "handler_mode_as_str WriteOne = ''w1''"
| "handler_mode_as_str WriteThree = ''w3''"
| "handler_mode_as_str SideBuffer = ''sb''"

section \<open>Options and configuration\<close>

record h2h_opts =
  ho_scenario :: "scenario option"
  ho_wait :: "wait_kind option"
  ho_pad :: pad
  ho_buffer_size :: "nat option"
  ho_events_total :: "nat option"
  ho_batch_size :: "nat option"
  ho_warmup_rounds :: nat
  ho_measured_rounds :: nat
  ho_run_order :: string
  ho_pair_id :: string
  ho_fork_index :: nat
  ho_harness_rev :: "string option"
  ho_implementation_rev :: "string option"
  ho_harness_dirty :: "bool option"
  ho_implementation_dirty :: "bool option"
  ho_impl_label :: string
  ho_output :: "string option"
  ho_quick :: bool
  ho_cpu_list :: "nat list"
  ho_handler_mode :: handler_mode

definition h2h_opts_init :: h2h_opts where
  "h2h_opts_init =
     \<lparr>ho_scenario = None, ho_wait = None, ho_pad = PadNone, ho_buffer_size = None, ho_events_total = None,
      ho_batch_size = None, ho_warmup_rounds = 3, ho_measured_rounds = 7, ho_run_order = ''standalone'',
      ho_pair_id = ''standalone'', ho_fork_index = 0, ho_harness_rev = None, ho_implementation_rev = None,
      ho_harness_dirty = None, ho_implementation_dirty = None, ho_impl_label = ''badbatch-builder'',
      ho_output = None, ho_quick = False, ho_cpu_list = [], ho_handler_mode = ValueMode\<rparr>"

record h2h_config =
  hc_scenario :: scenario
  hc_wait :: wait_kind
  hc_pad :: pad
  hc_buffer_size :: nat
  hc_events_total :: nat
  hc_batch_size :: nat
  hc_warmup_rounds :: nat
  hc_measured_rounds :: nat
  hc_run_order :: string
  hc_pair_id :: string
  hc_fork_index :: nat
  hc_harness_rev :: "string option"
  hc_implementation_rev :: "string option"
  hc_harness_dirty :: "bool option"
  hc_implementation_dirty :: "bool option"
  hc_impl_label :: string
  hc_output :: "string option"
  hc_timeout :: nat
  hc_cpu_list :: "nat list"
  hc_handler_mode :: handler_mode

section \<open>Reading the flags\<close>

definition h2h_value_flag :: "string \<Rightarrow> (string \<Rightarrow> h2h_opts \<Rightarrow> h2h_opts cli) option" where
  "h2h_value_flag a =
     (if a = ''--scenario'' then
        Some (\<lambda>v opts. bind_cli (scenario_parse v) (\<lambda>x. Inr (opts\<lparr>ho_scenario := Some x\<rparr>)))
      else if a = ''--wait-strategy'' then
        Some (\<lambda>v opts. bind_cli (wait_kind_parse v) (\<lambda>x. Inr (opts\<lparr>ho_wait := Some x\<rparr>)))
      else if a = ''--event-padding'' then
        Some (\<lambda>v opts. bind_cli (pad_parse v) (\<lambda>x. Inr (opts\<lparr>ho_pad := x\<rparr>)))
      else if a = ''--handler-mode'' then
        Some (\<lambda>v opts. bind_cli (handler_mode_parse v) (\<lambda>x. Inr (opts\<lparr>ho_handler_mode := x\<rparr>)))
      else if a = ''--buffer-size'' then
        Some (\<lambda>v opts. bind_cli (parse_number ''buffer-size'' v) (\<lambda>x. Inr (opts\<lparr>ho_buffer_size := Some x\<rparr>)))
      else if a = ''--events-total'' then
        Some (\<lambda>v opts. bind_cli (parse_number ''events-total'' (drop_underscores v))
          (\<lambda>x. Inr (opts\<lparr>ho_events_total := Some x\<rparr>)))
      else if a = ''--batch-size'' then
        Some (\<lambda>v opts. bind_cli (parse_number ''batch-size'' v) (\<lambda>x. Inr (opts\<lparr>ho_batch_size := Some x\<rparr>)))
      else if a = ''--warmup-rounds'' then
        Some (\<lambda>v opts. bind_cli (parse_number ''warmup-rounds'' v) (\<lambda>x. Inr (opts\<lparr>ho_warmup_rounds := x\<rparr>)))
      else if a = ''--measured-rounds'' then
        Some (\<lambda>v opts. bind_cli (parse_number ''measured-rounds'' v) (\<lambda>x. Inr (opts\<lparr>ho_measured_rounds := x\<rparr>)))
      else if a = ''--run-order'' then Some (\<lambda>v opts. Inr (opts\<lparr>ho_run_order := v\<rparr>))
      else if a = ''--pair-id'' then Some (\<lambda>v opts. Inr (opts\<lparr>ho_pair_id := v\<rparr>))
      else if a = ''--fork-index'' then
        Some (\<lambda>v opts. bind_cli (parse_number ''fork-index'' v) (\<lambda>x. Inr (opts\<lparr>ho_fork_index := x\<rparr>)))
      else if a = ''--harness-rev'' then Some (\<lambda>v opts. Inr (opts\<lparr>ho_harness_rev := Some v\<rparr>))
      else if a = ''--implementation-rev'' then Some (\<lambda>v opts. Inr (opts\<lparr>ho_implementation_rev := Some v\<rparr>))
      else if a = ''--harness-dirty'' then
        Some (\<lambda>v opts. bind_cli (parse_bool ''harness-dirty'' v) (\<lambda>x. Inr (opts\<lparr>ho_harness_dirty := Some x\<rparr>)))
      else if a = ''--implementation-dirty'' then
        Some (\<lambda>v opts. bind_cli (parse_bool ''implementation-dirty'' v) (\<lambda>x. Inr (opts\<lparr>ho_implementation_dirty := Some x\<rparr>)))
      else if a = ''--impl-label'' then Some (\<lambda>v opts. Inr (opts\<lparr>ho_impl_label := v\<rparr>))
      else if a = ''--output'' then Some (\<lambda>v opts. Inr (opts\<lparr>ho_output := Some v\<rparr>))
      else if a = ''--cpu-list'' then
        Some (\<lambda>v opts. bind_cli (parse_cpu_list v) (\<lambda>x. Inr (opts\<lparr>ho_cpu_list := x\<rparr>)))
      else None)"

fun h2h_parse_flags :: "h2h_opts \<Rightarrow> string list \<Rightarrow> h2h_opts option cli" where
  "h2h_parse_flags opts [] = Inr (Some opts)"
| "h2h_parse_flags opts (a # rest) =
     (case h2h_value_flag a of
        Some put \<Rightarrow>
          (case rest of
             [] \<Rightarrow> Inl (Missing a)
           | v # rest' \<Rightarrow> bind_cli (put v opts) (\<lambda>opts'. h2h_parse_flags opts' rest'))
      | None \<Rightarrow>
          if a = ''--round-diagnostics''
          then Inl (Broken ''--round-diagnostics requires --features bench-round-diagnostics'')
          else if a = ''--quick'' then h2h_parse_flags (opts\<lparr>ho_quick := True\<rparr>) rest
          else if a = ''--help'' \<or> a = ''-h'' then Inr None
          else Inl (UnknownArgument a))"

section \<open>The rules\<close>

fun required_cpus :: "scenario \<Rightarrow> nat" where
  "required_cpus Unicast = 2"
| "required_cpus UnicastBatch = 2"
| "required_cpus MpscBatch = 4"
| "required_cpus PipelineScenario = 4"

definition h2h_config_of :: "scenario \<Rightarrow> h2h_opts \<Rightarrow> h2h_config" where
  "h2h_config_of sc opts =
     \<lparr>hc_scenario = sc,
      hc_wait = (case ho_wait opts of None \<Rightarrow> default_wait sc | Some w \<Rightarrow> w), hc_pad = ho_pad opts,
      hc_buffer_size = (case ho_buffer_size opts of None \<Rightarrow> default_buffer sc | Some n \<Rightarrow> n),
      hc_events_total = (case ho_events_total opts of None \<Rightarrow> default_events sc (ho_quick opts) | Some n \<Rightarrow> n),
      hc_batch_size = (case ho_batch_size opts of None \<Rightarrow> default_batch sc | Some n \<Rightarrow> n),
      hc_warmup_rounds = (if ho_quick opts then min (ho_warmup_rounds opts) 1 else ho_warmup_rounds opts),
      hc_measured_rounds = (if ho_quick opts then min (ho_measured_rounds opts) 2 else ho_measured_rounds opts),
      hc_run_order = ho_run_order opts, hc_pair_id = ho_pair_id opts, hc_fork_index = ho_fork_index opts,
      hc_harness_rev = ho_harness_rev opts, hc_implementation_rev = ho_implementation_rev opts,
      hc_harness_dirty = ho_harness_dirty opts, hc_implementation_dirty = ho_implementation_dirty opts,
      hc_impl_label = ho_impl_label opts, hc_output = ho_output opts, hc_timeout = 300000000000,
      hc_cpu_list = ho_cpu_list opts, hc_handler_mode = ho_handler_mode opts\<rparr>"

definition h2h_check :: "scenario \<Rightarrow> h2h_opts \<Rightarrow> h2h_config cli" where
  "h2h_check sc opts =
     (let cfg = h2h_config_of sc opts in
      if \<not> is_power_of_two (hc_buffer_size cfg) \<or> hc_buffer_size cfg = 0
      then Inl (Broken (''buffer-size must be power of two, got '' @ show_nat (hc_buffer_size cfg)))
      else if ho_measured_rounds opts = 0 then Inl (Broken ''measured-rounds must be > 0'')
      else if hc_batch_size cfg = 0 \<or> hc_events_total cfg = 0
      then Inl (Broken ''batch-size and events-total must be > 0'')
      else if sc = MpscBatch \<and> hc_events_total cfg mod MPSC_PRODUCERS \<noteq> 0
      then Inl (Broken ''mpsc_batch events-total must be divisible by 3'')
      else if hc_pad cfg \<noteq> PadNone \<and> sc = MpscBatch
      then Inl (Broken ''event-padding not supported for mpsc_batch in this harness'')
      else if hc_handler_mode cfg \<noteq> ValueMode \<and> sc \<noteq> Unicast
      then Inl (Broken ''experimental handler modes are supported only for unicast'')
      else if hc_cpu_list cfg \<noteq> [] \<and> length (hc_cpu_list cfg) < required_cpus sc
      then Inl (Broken (''scenario '' @ scenario_as_str sc @ '' requires at least '' @ show_nat (required_cpus sc) @
        '' CPUs, got '' @ show_nat (length (hc_cpu_list cfg))))
      else Inr cfg)"

definition h2h_parse_args :: "string list \<Rightarrow> h2h_config option cli" where
  "h2h_parse_args args =
     bind_cli (h2h_parse_flags h2h_opts_init args)
       (\<lambda>r. case r of
          None \<Rightarrow> Inr None
        | Some opts \<Rightarrow>
            (case ho_scenario opts of
               None \<Rightarrow> Inl (Broken ''required: --scenario'')
             | Some sc \<Rightarrow> bind_cli (h2h_check sc opts) (\<lambda>c. Inr (Some c))))"

section \<open>CPUs and roles\<close>

definition h2h_cpu :: "h2h_config \<Rightarrow> nat \<Rightarrow> nat option" where
  "h2h_cpu cfg index = (if index < length (hc_cpu_list cfg) then Some (hc_cpu_list cfg ! index) else None)"

definition h2h_affinity_verified_all :: "h2h_config \<Rightarrow> bool \<Rightarrow> bool" where
  "h2h_affinity_verified_all cfg affinity_failed \<longleftrightarrow> hc_cpu_list cfg \<noteq> [] \<and> \<not> affinity_failed"

text \<open>\<open>None\<close> is an index out of range, a panic.\<close>

definition role_at :: "nat list \<Rightarrow> string \<times> nat \<Rightarrow> (string \<times> nat) option" where
  "role_at cpus = (\<lambda>(role, i). if i < length cpus then Some (role, cpus ! i) else None)"

definition affinity_roles :: "h2h_config \<Rightarrow> (string \<times> nat) list option" where
  "affinity_roles cfg =
     (if hc_cpu_list cfg = [] then Some []
      else those (map (role_at (hc_cpu_list cfg))
        (case hc_scenario cfg of
           Unicast \<Rightarrow> [(''publisher'', 0), (''consumer'', 1)]
         | UnicastBatch \<Rightarrow> [(''publisher'', 0), (''consumer'', 1)]
         | MpscBatch \<Rightarrow> [(''coordinator'', 0), (''producer_0'', 0), (''producer_1'', 1), (''producer_2'', 2), (''consumer'', 3)]
         | PipelineScenario \<Rightarrow> [(''publisher'', 0), (''stage_1'', 1), (''stage_2'', 2), (''stage_3'', 3)])))"

section \<open>What an accepted configuration satisfies\<close>

definition h2h_ok :: "h2h_config \<Rightarrow> bool" where
  "h2h_ok c \<longleftrightarrow> is_power_of_two (hc_buffer_size c) \<and> 0 < hc_measured_rounds c \<and> 0 < hc_batch_size c \<and> 0 < hc_events_total c \<and>
     (hc_scenario c = MpscBatch \<longrightarrow> hc_events_total c mod MPSC_PRODUCERS = 0 \<and> hc_pad c = PadNone) \<and>
     (hc_scenario c \<noteq> Unicast \<longrightarrow> hc_handler_mode c = ValueMode) \<and>
     (hc_cpu_list c = [] \<or> required_cpus (hc_scenario c) \<le> length (hc_cpu_list c))"

lemma h2h_check_ok: "h2h_check sc opts = Inr c \<Longrightarrow> h2h_ok c \<and> hc_scenario c = sc \<and> c = h2h_config_of sc opts"
proof -
  assume a: "h2h_check sc opts = Inr c"
  then have c: "c = h2h_config_of sc opts" by (auto simp: h2h_check_def Let_def split: if_splits)
  then have "hc_scenario c = sc" "hc_measured_rounds c = (if ho_quick opts then min (ho_measured_rounds opts) 2 else ho_measured_rounds opts)"
    by (simp_all add: h2h_config_of_def)
  with a c show ?thesis by (auto simp: h2h_check_def h2h_ok_def Let_def split: if_splits)
qed

lemma h2h_parse_args_ok: "h2h_parse_args args = Inr (Some c) \<Longrightarrow> h2h_ok c"
proof -
  assume a: "h2h_parse_args args = Inr (Some c)"
  then obtain r where "h2h_parse_flags h2h_opts_init args = Inr r" by (auto simp: h2h_parse_args_def)
  with a show ?thesis using h2h_check_ok by (cases r) (auto simp: h2h_parse_args_def split: option.splits)
qed

text \<open>With an accepted CPU list no role is without a CPU.\<close>

lemma affinity_roles_total: "h2h_ok c \<Longrightarrow> \<exists>roles. affinity_roles c = Some roles"
  by (cases "hc_scenario c") (auto simp: affinity_roles_def h2h_ok_def role_at_def)

end
