(* ===== verification/Handler_Runs.thy ===== *)
theory Handler_Runs
  imports Consumer_Threads
begin

text \<open>
  The state of a handler after a consumer loop is what the calls of \<open>on_event\<close>, in the order of the trace,
  have made of it. A component that hands its own handler to the library reasons about the fold alone.
\<close>

section \<open>The calls of a loop, one after the other\<close>

definition feed :: "('e, 'h, 'z) event_handler_scheme \<Rightarrow> ('e \<times> i64 \<times> bool \<times> bar_world) list \<Rightarrow> 'h \<Rightarrow> 'h" where
  "feed H calls h = fold (\<lambda>(e, s, b, w) h. snd (snd (on_event H e s b h))) calls h"

definition inert_batch_start :: "('e, 'h, 'z) event_handler_scheme \<Rightarrow> bool" where
  "inert_batch_start H \<longleftrightarrow> (\<forall>a b h. snd (on_batch_start H a b h) = h)"

lemma feed_Nil [simp]: "feed H [] h = h"
  by (simp add: feed_def)

lemma feed_append [simp]: "feed H (xs @ ys) h = feed H ys (feed H xs h)"
  by (simp add: feed_def)

lemma feed_Cons [simp]: "feed H ((e, s, b, w) # xs) h = feed H xs (snd (snd (on_event H e s b h)))"
  by (simp add: feed_def)

definition fed :: "('e, 'h) event_handler \<Rightarrow> ('e, 'h) consumer \<Rightarrow> ('e, 'h) consumer \<Rightarrow> bool" where
  "fed H c c' \<longleftrightarrow> (\<exists>new. co_trace c' = co_trace c @ new \<and> co_handler c' = feed H new (co_handler c))"

lemma fed_refl: "co_trace c' = co_trace c \<Longrightarrow> co_handler c' = co_handler c \<Longrightarrow> fed H c c'"
  unfolding fed_def by (rule exI [of _ "[]"]) simp

lemma fed_same [simp]: "fed H c c"
  by (simp add: fed_refl)

lemma fed_trans:
  assumes "fed H c c'" and "fed H c' c''"
  shows "fed H c c''"
proof -
  from assms obtain xs ys where "co_trace c' = co_trace c @ xs" "co_handler c' = feed H xs (co_handler c)"
    "co_trace c'' = co_trace c' @ ys" "co_handler c'' = feed H ys (co_handler c')" by (auto simp: fed_def)
  then show ?thesis unfolding fed_def by (intro exI [of _ "xs @ ys"]) simp
qed

lemma fed_world [simp]: "fed H c (c'\<lparr>co_world := w\<rparr>) = fed H c c'" "fed H (c\<lparr>co_world := w\<rparr>) c' = fed H c c'"
  "fed H (c\<lparr>co_ring := rb\<rparr>) c' = fed H c c'" "fed H c (c'\<lparr>co_ring := rb\<rparr>) = fed H c c'"
  by (simp_all add: fed_def)

section \<open>Batches and loops\<close>

lemma drain_batch_fed: "drain_batch H X tr available n t s c = Some (r, t', c') \<Longrightarrow> fed H c c'"
proof (induction n arbitrary: t s c)
  case 0
  then show ?case by (auto intro: fed_refl)
next
  case (Suc n)
  from Suc.prems obtain e where e: "ring_get (co_ring c) s = Some e" by (auto split: option.splits)
  obtain q e' h' where call: "on_event H e s (s = available) (co_handler c) = (q, e', h')" by (cases "on_event H e s (s = available) (co_handler c)")
  from Suc.prems e call obtain rb where rb: "ring_update (co_ring c) s (\<lambda>_. e') = Some rb"
    by (auto simp: Let_def split: option.splits)
  define c1 where "c1 = c\<lparr>co_ring := rb, co_handler := h', co_trace := co_trace c @ [(e, s, s = available, tr t)]\<rparr>"
  have c1: "fed H c c1"
    unfolding fed_def by (intro exI [of _ "[(e, s, s = available, tr t)]"]) (simp add: c1_def call)
  note unfolded = Suc.prems [unfolded drain_batch.simps, simplified e call rb option.case Let_def prod.case, folded c1_def]
  have rest: "fed H c1 c'" if "drain_batch H X tr available n (Suc t) (add_i64 s 1) c1 = Some (r, t', c')"
    using Suc.IH that by blast
  have "c' = c1 \<or> drain_batch H X tr available n (Suc t) (add_i64 s 1) c1 = Some (r, t', c')"
    using unfolded by (auto split: option.splits sum.splits error_decision.splits)
  with c1 rest fed_trans show ?case by blast
qed

lemma run_batch_fed:
  assumes "inert_batch_start H"
  shows "run_batch H X ctx own tr t s available c = Inl (Some (exit, c')) \<Longrightarrow> fed H c c'"
    and "run_batch H X ctx own tr t s available c = Inr (s', c') \<Longrightarrow> fed H c c'"
proof -
  let ?batch_size = "add_i64 (sub_i64 available s) 1" and ?queue_depth = "sub_i64 available (seq_get (bw_store (tr t)) own)"
  obtain r where b: "on_batch_start H ?batch_size ?queue_depth (co_handler c) = (r, co_handler c)"
    using assms unfolding inert_batch_start_def by (metis prod.collapse)
  have c: "c\<lparr>co_handler := co_handler c\<rparr> = c" by simp
  note unfolded = run_batch_def [of H X ctx own tr t s available c, unfolded Let_def b prod.case c]
  have "fed H c d" if "drain_batch H X tr available n u s c = Some (x, v, d)" for n u x v d
    using that by (rule drain_batch_fed)
  then show "run_batch H X ctx own tr t s available c = Inl (Some (exit, c')) \<Longrightarrow> fed H c c'"
    "run_batch H X ctx own tr t s available c = Inr (s', c') \<Longrightarrow> fed H c c'"
    unfolding unfolded by (auto intro: fed_refl split: option.splits sum.splits batch_end.splits)
qed

lemma sequential_body_fed:
  assumes "inert_batch_start H"
  shows "sequential_body pk fuel env H X ctx own stop (i, s, c) = Inl (Some (exit, c')) \<Longrightarrow> fed H c c'"
    and "sequential_body pk fuel env H X ctx own stop (i, s, c) = Inr (i', s', c') \<Longrightarrow> fed H c c'"
  using run_batch_fed [OF assms, of X ctx own _ _ s _ "c\<lparr>co_ring := ce_ring env i (co_ring c)\<rparr>"]
  by (auto simp: sequential_body_def Let_def intro: fed_refl split: if_splits option.splits sum.splits)

lemma sequential_loop_fed:
  assumes "inert_batch_start H" and "run_sequential_batch_loop_impl pk fuel env H own stop ctx X c = Some (exit, c')"
  shows "fed H c c'"
proof -
  let ?body = "sequential_body pk fuel env H X ctx own stop"
  have "poll fuel ?body (0, add_i64 (seq_get (bw_store (co_world c)) own) 1, c) = Some (Some (exit, c'))"
    using assms(2) by (auto simp: run_sequential_batch_loop_impl_def split: bind_splits)
  then show ?thesis
  proof (rule poll_inv [where I = "\<lambda>(i, s, d). fed H c d"])
    fix st assume "case st of (i, s, d) \<Rightarrow> fed H c d" and "?body st = Inl (Some (exit, c'))"
    then show ?thesis using sequential_body_fed(1) [OF assms(1)] fed_trans by (cases st) blast
  next
    fix st st' assume "case st of (i, s, d) \<Rightarrow> fed H c d" and "?body st = Inr st'"
    then show "case st' of (i, s, d) \<Rightarrow> fed H c d"
      using sequential_body_fed(2) [OF assms(1)] fed_trans by (cases st; cases st') blast
  qed (simp add: fed_refl)
qed

section \<open>A whole thread\<close>

text \<open>
  A sequential consumer thread that returned, whose handler starts, leaves its state as the start, the
  calls of the trace and the shutdown have made it.
\<close>

lemma mutable_body_handler:
  assumes "inert_batch_start (batch_handler H)" and "co_trace c = []" and "on_start H (co_handler c) = (Some (Inr ()), h0)"
    and "mutable_body pk fuel env H own thread stage Sequential c = Some (LoopReturned, c')"
  shows "co_handler c' = snd (on_shutdown H (feed (batch_handler H) (co_trace c') h0))"
proof -
  define c1 where "c1 = (at_world (te_world env 0) c)\<lparr>co_handler := h0\<rparr>"
  have st: "on_start H (co_handler (at_world (te_world env 0) c)) = (Some (Inr ()), h0)" using assms(3) by (simp add: at_world_def)
  note unfolded = assms(4) [unfolded mutable_body_def Let_def, unfolded st prod.case option.case sum.case, folded c1_def]
  obtain e c2 where loop: "run_sequential_batch_loop_for_stage pk fuel (te_loop env) (batch_handler H) own External
      (for_stage thread stage) c1 = Some (e, c2)" and e: "e = LoopReturned"
    using unfolded by (auto split: option.splits loop_exit.splits)
  have "fed (batch_handler H) c1 c2"
    using sequential_loop_fed [OF assms(1)] loop unfolding run_sequential_batch_loop_for_stage_def by blast
  then have c2: "co_handler c2 = feed (batch_handler H) (co_trace c2) h0"
    using assms(2) by (auto simp: fed_def c1_def at_world_def)
  from unfolded loop e have "co_handler c' = snd (on_shutdown H (co_handler c2)) \<and> co_trace c' = co_trace c2"
    by (auto simp: at_world_def split: option.splits sum.splits prod.splits)
  with c2 show ?thesis by simp
qed

end
