(* ===== verification/H2h_Handlers.thy ===== *)
theory H2h_Handlers
  imports H2h_Config Handler_Runs Float64 "HOL-Library.Multiset"
begin

text \<open>
  The events, checksums and handlers of the head-to-head program (\<open>src/bin/h2h_rust.rs\<close>), as instances of the
  library's handler interface, and the histograms of its optional round diagnostics. A checksum is a 64-bit
  word; event fields are \<open>i64\<close> with wrapping addition.
\<close>

section \<open>Events and checksums\<close>

record comparison_event =
  ev_value :: i64
  stage1_value :: i64
  stage2_value :: i64
  stage3_value :: i64

text \<open>What the publishing closures write.\<close>

definition published_event :: "i64 \<Rightarrow> comparison_event" where
  "published_event v = \<lparr>ev_value = v, stage1_value = 0, stage2_value = 0, stage3_value = 0\<rparr>"

text \<open>The product is taken in 128 bits, where it is exact for counts that fit an \<open>i64\<close>.\<close>

definition arithmetic_checksum :: "nat \<Rightarrow> i64" where
  "arithmetic_checksum events_total = (let n = int events_total in wrap_i64 (n * (n - 1) div 2))"

definition pipeline_checksum :: "nat \<Rightarrow> i64" where
  "pipeline_checksum events_total =
     fold (\<lambda>v acc. add_i64 acc (add_i64 (wrap_i64 (int v)) 11)) [0..<events_total] 0"

section \<open>The terminal handler\<close>

datatype terminal_mode = TerminalValue | TerminalPipeline

record terminal_handler =
  th_processed :: nat
  th_checksum :: u64
  th_ready :: nat
  th_events_total :: nat
  th_final_sequence :: i64
  th_local_checksum :: u64
  th_mode :: terminal_mode
  th_handler_mode :: handler_mode
  th_side_buffer :: "i64 list"
  th_cpu :: "nat option"
  th_affinity_failed :: bool

definition terminal_handler_new :: "nat \<Rightarrow> terminal_mode \<Rightarrow> handler_mode \<Rightarrow> nat \<Rightarrow> nat option \<Rightarrow> terminal_handler option" where
  "terminal_handler_new events_total mode hmode buffer_size cpu =
     map_option (\<lambda>n.
       \<lparr>th_processed = 0, th_checksum = 0, th_ready = 0, th_events_total = events_total, th_final_sequence = n - 1,
        th_local_checksum = 0, th_mode = mode, th_handler_mode = hmode,
        th_side_buffer = (if hmode = SideBuffer then replicate buffer_size 0 else []), th_cpu = cpu,
        th_affinity_failed = False\<rparr>) (i64_try_from events_total)"

definition complete_if_final :: "i64 \<Rightarrow> terminal_handler \<Rightarrow> terminal_handler" where
  "complete_if_final sequence h =
     (if sequence = th_final_sequence h
      then h\<lparr>th_checksum := th_local_checksum h, th_processed := th_events_total h\<rparr> else h)"

text \<open>The value that is summed up, the event and the side buffer afterwards; \<open>None\<close> is a write outside the buffer.\<close>

definition terminal_value :: "comparison_event \<Rightarrow> i64 \<Rightarrow> terminal_handler \<Rightarrow> (i64 \<times> comparison_event \<times> i64 list) option" where
  "terminal_value e sequence h =
     (case th_mode h of
        TerminalPipeline \<Rightarrow>
          let e' = e\<lparr>stage3_value := add_i64 (stage2_value e) 7\<rparr> in Some (stage3_value e', e', th_side_buffer h)
      | TerminalValue \<Rightarrow>
          let x1 = add_i64 (ev_value e) 1; x2 = add_i64 x1 3; x3 = add_i64 x2 7 in
          case th_handler_mode h of
            ValueMode \<Rightarrow> Some (ev_value e, e, th_side_buffer h)
          | ReadMode \<Rightarrow> Some (x3, e, th_side_buffer h)
          | WriteOne \<Rightarrow> Some (x3, e\<lparr>stage3_value := x3\<rparr>, th_side_buffer h)
          | WriteThree \<Rightarrow> Some (x3, e\<lparr>stage1_value := x1, stage2_value := x2, stage3_value := x3\<rparr>, th_side_buffer h)
          | SideBuffer \<Rightarrow>
              let index = i64_as_usize sequence AND (length (th_side_buffer h) - 1) in
              if index < length (th_side_buffer h) then Some (x3, e, (th_side_buffer h)[index := x3]) else None)"

definition terminal_on_event ::
    "comparison_event \<Rightarrow> i64 \<Rightarrow> bool \<Rightarrow> terminal_handler \<Rightarrow> unit result option \<times> comparison_event \<times> terminal_handler" where
  "terminal_on_event e sequence end_of_batch h =
     (case terminal_value e sequence h of
        None \<Rightarrow> (None, e, h)
      | Some (v, e', sb) \<Rightarrow>
          (Some (Ok ()), e', complete_if_final sequence
             (h\<lparr>th_local_checksum := th_local_checksum h + word_of_int v, th_side_buffer := sb\<rparr>)))"

definition terminal_on_start :: "affinity \<Rightarrow> terminal_handler callback" where
  "terminal_on_start os h =
     (Some (Ok ()), h\<lparr>th_affinity_failed := pin_current_thread os (th_cpu h) (th_affinity_failed h), th_ready := th_ready h + 1\<rparr>)"

definition terminal_event_handler :: "affinity \<Rightarrow> (comparison_event, terminal_handler) lifecycle_handler" where
  "terminal_event_handler os = (default_methods terminal_on_event)\<lparr>on_start := terminal_on_start os\<rparr>"

section \<open>The pipeline stages\<close>

record stage_handler =
  sh_stage :: nat
  sh_ready :: nat
  sh_cpu :: "nat option"
  sh_affinity_failed :: bool

text \<open>\<open>None\<close> is the unreachable branch.\<close>

definition stage_event :: "nat \<Rightarrow> comparison_event \<Rightarrow> comparison_event option" where
  "stage_event stage e =
     (if stage = 1 then Some (e\<lparr>stage1_value := add_i64 (ev_value e) 1\<rparr>)
      else if stage = 2 then Some (e\<lparr>stage2_value := add_i64 (stage1_value e) 3\<rparr>)
      else None)"

definition stage_on_event ::
    "comparison_event \<Rightarrow> i64 \<Rightarrow> bool \<Rightarrow> stage_handler \<Rightarrow> unit result option \<times> comparison_event \<times> stage_handler" where
  "stage_on_event e sequence end_of_batch h =
     (case stage_event (sh_stage h) e of None \<Rightarrow> (None, e, h) | Some e' \<Rightarrow> (Some (Ok ()), e', h))"

definition stage_on_start :: "affinity \<Rightarrow> stage_handler callback" where
  "stage_on_start os h =
     (Some (Ok ()), h\<lparr>sh_affinity_failed := pin_current_thread os (sh_cpu h) (sh_affinity_failed h), sh_ready := sh_ready h + 1\<rparr>)"

definition stage_event_handler :: "affinity \<Rightarrow> (comparison_event, stage_handler) lifecycle_handler" where
  "stage_event_handler os = (default_methods stage_on_event)\<lparr>on_start := stage_on_start os\<rparr>"

section \<open>Histograms and probes\<close>

abbreviation LOG2_HISTOGRAM_BINS :: nat where "LOG2_HISTOGRAM_BINS \<equiv> 64"

record log2_histogram =
  hg_count :: nat
  hg_sum :: nat
  hg_min :: nat
  hg_max :: nat
  hg_bins :: "nat list"

definition histogram_default :: log2_histogram where
  "histogram_default = \<lparr>hg_count = 0, hg_sum = 0, hg_min = u64_max, hg_max = 0, hg_bins = replicate LOG2_HISTOGRAM_BINS 0\<rparr>"

text \<open>\<open>63 - leading_zeros(value)\<close> is the integer logarithm; for zero the index is out of range.\<close>

definition histogram_observe :: "nat \<Rightarrow> log2_histogram \<Rightarrow> log2_histogram option" where
  "histogram_observe value h =
     (if value = 0 \<or> length (hg_bins h) \<le> ilog2 value then None
      else let bin = ilog2 value in
        Some (h\<lparr>hg_count := sat_add_u64 (hg_count h) 1, hg_sum := sat_add_u64 (hg_sum h) value,
          hg_min := min (hg_min h) value, hg_max := max (hg_max h) value,
          hg_bins := (hg_bins h)[bin := sat_add_u64 (hg_bins h ! bin) 1]\<rparr>))"

definition histogram_snapshot :: "log2_histogram \<Rightarrow> log2_histogram" where
  "histogram_snapshot h = h\<lparr>hg_min := (if hg_count h = 0 then 0 else hg_min h)\<rparr>"

record batch_diagnostics =
  bd_role :: string
  bd_batch_size :: log2_histogram
  bd_queue_depth :: log2_histogram

text \<open>A probe sends its diagnostics once, into a channel; the channel is the list of what was sent.\<close>

record batch_probe =
  bp_role :: string
  bp_batch_size :: log2_histogram
  bp_queue_depth :: log2_histogram
  bp_open :: bool
  bp_sent :: "batch_diagnostics list"

definition batch_probe_new :: "string \<Rightarrow> batch_probe" where
  "batch_probe_new role =
     \<lparr>bp_role = role, bp_batch_size = histogram_default, bp_queue_depth = histogram_default, bp_open = True, bp_sent = []\<rparr>"

definition probe_observe :: "i64 \<Rightarrow> i64 \<Rightarrow> batch_probe \<Rightarrow> batch_probe option" where
  "probe_observe batch_size queue_depth p =
     (if batch_size < 0 \<or> queue_depth < 0 then None
      else Option.bind (histogram_observe (nat batch_size) (bp_batch_size p)) (\<lambda>b.
        Option.bind (histogram_observe (nat queue_depth) (bp_queue_depth p)) (\<lambda>q.
          Some (p\<lparr>bp_batch_size := b, bp_queue_depth := q\<rparr>))))"

definition probe_finish :: "batch_probe \<Rightarrow> batch_probe" where
  "probe_finish p =
     (if bp_open p
      then p\<lparr>bp_open := False, bp_sent := bp_sent p @ [\<lparr>bd_role = bp_role p, bd_batch_size = histogram_snapshot (bp_batch_size p),
        bd_queue_depth = histogram_snapshot (bp_queue_depth p)\<rparr>]\<rparr>
      else p)"

text \<open>Everything a histogram saw: the values are counted, summed, bounded and sorted into bins by logarithm.\<close>

definition histogram_inv :: "nat list \<Rightarrow> log2_histogram \<Rightarrow> bool" where
  "histogram_inv vs h \<longleftrightarrow> hg_count h = length vs \<and> hg_sum h = sum_list vs \<and>
     (\<forall>v\<in>set vs. 0 < v \<and> hg_min h \<le> v \<and> v \<le> hg_max h) \<and> length (hg_bins h) = LOG2_HISTOGRAM_BINS \<and>
     (\<forall>b<LOG2_HISTOGRAM_BINS. hg_bins h ! b = length (filter (\<lambda>v. ilog2 v = b) vs))"

lemma histogram_inv_default [simp]: "histogram_inv [] histogram_default"
  by (simp add: histogram_inv_def histogram_default_def)

lemma length_le_sum_list:
  fixes vs :: "nat list"
  assumes "\<And>v. v \<in> set vs \<Longrightarrow> 0 < v"
  shows "length vs \<le> sum_list vs"
  using assms
proof (induction vs)
  case (Cons v vs)
  then have "0 < v" "length vs \<le> sum_list vs" by simp_all
  then show ?case by simp
qed simp

lemma histogram_observe_inv:
  assumes "histogram_inv vs h" and "0 < v" and "v + sum_list vs \<le> u64_max" and "ilog2 v < LOG2_HISTOGRAM_BINS"
  shows "\<exists>h'. histogram_observe v h = Some h' \<and> histogram_inv (vs @ [v]) h'"
proof -
  have pos: "0 < x" if "x \<in> set vs" for x using assms(1) that by (auto simp: histogram_inv_def)
  have "length vs \<le> sum_list vs" by (rule length_le_sum_list) (rule pos)
  then have bound: "length (filter P vs) < u64_max" for P using length_filter_le [of P vs] assms(2,3) by linarith
  have "length vs < u64_max" using bound [of "\<lambda>_. True"] by simp
  moreover have "sat_add_u64 (length (filter P vs)) 1 = Suc (length (filter P vs))" for P
    using bound [of P] by (simp add: sat_add_u64_def)
  ultimately show ?thesis using assms
    by (auto simp: histogram_observe_def histogram_inv_def sat_add_u64_def [of "length vs"] sat_add_u64_def [of "sum_list vs"] nth_list_update Let_def min_le_iff_disj le_max_iff_disj)
qed

section \<open>Sums modulo the word size\<close>

lemma word_of_wrap: "(word_of_int (wrap_i64 x) :: u64) = word_of_int x"
proof -
  have "(word_of_int (y mod 18446744073709551616) :: u64) = word_of_int y" for y
    by (simp add: word_of_int_eq_iff take_bit_eq_mod)
  then have "(word_of_int (wrap_i64 x) :: u64) = word_of_int (x + 9223372036854775808) - word_of_int 9223372036854775808"
    unfolding wrap_i64_def by (metis wi_hom_sub)
  then show ?thesis by (simp flip: wi_hom_sub)
qed

lemma word_of_add_i64: "(word_of_int (add_i64 a b) :: u64) = word_of_int a + word_of_int b"
  by (simp add: add_i64_def word_of_wrap)

lemma sint_word_of_int: "sint (word_of_int x :: u64) = wrap_i64 x"
proof -
  have "sint (word_of_int x :: u64) = signed_take_bit 63 x" by (simp add: sint_sbintrunc')
  also have "\<dots> = wrap_i64 x" by (simp add: signed_take_bit_eq_take_bit_shift take_bit_eq_mod wrap_i64_def)
  finally show ?thesis .
qed

lemma sum_int_upt: "sum_list (map int [0..<n]) = int n * (int n - 1) div 2"
proof (induction n)
  case (Suc n)
  have "int n * (int n - 1) div 2 + int n = (int n * (int n - 1) + 2 * int n) div 2" by simp
  also have "\<dots> = int (Suc n) * (int (Suc n) - 1) div 2" by (simp add: algebra_simps)
  finally show ?case using Suc by simp
qed simp

lemma arithmetic_checksum_sum: "arithmetic_checksum n = sint (word_of_int (sum_list (map int [0..<n])) :: u64)"
  by (simp add: arithmetic_checksum_def sum_int_upt sint_word_of_int Let_def)

lemma pipeline_checksum_sum: "pipeline_checksum n = sint (word_of_int (sum_list (map (\<lambda>v. int v + 11) [0..<n])) :: u64)"
proof -
  have step: "(word_of_int (fold (\<lambda>v acc. add_i64 acc (add_i64 (wrap_i64 (int v)) 11)) vs a) :: u64) =
    word_of_int a + word_of_int (sum_list (map (\<lambda>v. int v + 11) vs))" for vs a
    by (induction vs arbitrary: a) (simp_all add: word_of_add_i64 word_of_wrap)
  have "in_i64 (pipeline_checksum n)"
  proof (cases n)
    case 0
    then show ?thesis by (simp add: pipeline_checksum_def in_i64_def)
  next
    case (Suc m)
    then show ?thesis by (simp add: pipeline_checksum_def add_i64_def)
  qed
  then have "pipeline_checksum n = sint (word_of_int (pipeline_checksum n) :: u64)"
    by (simp add: sint_word_of_int wrap_i64_id)
  also have "(word_of_int (pipeline_checksum n) :: u64) = word_of_int (sum_list (map (\<lambda>v. int v + 11) [0..<n]))"
    unfolding pipeline_checksum_def by (subst step) simp
  finally show ?thesis .
qed

section \<open>A run of the terminal handler\<close>

definition summed :: "terminal_mode \<Rightarrow> handler_mode \<Rightarrow> comparison_event \<Rightarrow> i64" where
  "summed m hm e =
     (if m = TerminalPipeline then add_i64 (stage2_value e) 7
      else if hm = ValueMode then ev_value e
      else add_i64 (add_i64 (add_i64 (ev_value e) 1) 3) 7)"

lemma terminal_value_cases:
  assumes "hm = SideBuffer \<Longrightarrow> is_power_of_two (length (th_side_buffer h))" and "th_mode h = m" and "th_handler_mode h = hm"
  shows "\<exists>e' sb. terminal_value e sequence h = Some (summed m hm e, e', sb) \<and> length sb = length (th_side_buffer h)"
proof (cases "m = TerminalValue \<and> hm = SideBuffer")
  case True
  then obtain k where k: "length (th_side_buffer h) = 2 ^ k" using assms(1) count_ones_1D by (auto simp: is_power_of_two_def)
  have "i64_as_usize sequence AND (length (th_side_buffer h) - 1) = take_bit k (i64_as_usize sequence)"
    by (simp add: k take_bit_eq_mask mask_eq_exp_minus_1)
  then have "i64_as_usize sequence AND (length (th_side_buffer h) - 1) < length (th_side_buffer h)" by (simp add: k)
  with True assms(2,3) show ?thesis by (simp add: terminal_value_def summed_def Let_def)
next
  case False
  with assms(2,3) show ?thesis
    by (cases m; cases hm) (simp_all add: terminal_value_def summed_def Let_def)
qed

definition terminal_inv ::
    "nat \<Rightarrow> terminal_mode \<Rightarrow> handler_mode \<Rightarrow> (comparison_event \<times> i64 \<times> bool \<times> bar_world) list \<Rightarrow> terminal_handler \<Rightarrow> bool" where
  "terminal_inv N m hm calls h \<longleftrightarrow>
     th_events_total h = N \<and> th_final_sequence h = int N - 1 \<and> th_mode h = m \<and> th_handler_mode h = hm \<and>
     (hm = SideBuffer \<longrightarrow> is_power_of_two (length (th_side_buffer h))) \<and>
     th_local_checksum h = word_of_int (sum_list (map (\<lambda>x. summed m hm (fst x)) calls)) \<and>
     th_processed h = (if length calls = N then N else 0) \<and> (length calls = N \<longrightarrow> th_checksum h = th_local_checksum h)"

lemma terminal_inv_step:
  assumes inv: "terminal_inv N m hm calls h" and n: "length calls < N"
  shows "\<exists>e' h'. terminal_on_event e (int (length calls)) b h = (Some (Ok ()), e', h') \<and>
    terminal_inv N m hm (calls @ [(e, int (length calls), b, wd)]) h'"
proof -
  obtain e' sb where v: "terminal_value e (int (length calls)) h = Some (summed m hm e, e', sb)" "length sb = length (th_side_buffer h)"
    using terminal_value_cases [of hm h m e "int (length calls)"] inv by (auto simp: terminal_inv_def)
  have fin: "int (length calls) = int N - 1 \<longleftrightarrow> Suc (length calls) = N" by auto
  have "th_processed h = 0" using inv n by (simp add: terminal_inv_def)
  with inv v n fin show ?thesis by (auto simp: terminal_on_event_def complete_if_final_def terminal_inv_def)
qed

lemma terminal_inv_feed:
  assumes H: "on_event H = terminal_on_event" and start: "terminal_inv N m hm [] h0"
    and "trace_seqs calls = map int [0..<length calls]" and "length calls \<le> N"
  shows "terminal_inv N m hm calls (feed H calls h0)"
  using assms(3,4)
proof (induction calls rule: rev_induct)
  case Nil
  show ?case using start by simp
next
  case (snoc x xs)
  obtain e s b wd where x: "x = (e, s, b, wd)" by (cases x)
  have xs: "trace_seqs xs = map int [0..<length xs]" "s = int (length xs)"
    using snoc.prems(1) x by (simp_all add: trace_seqs_def)
  have "terminal_inv N m hm xs (feed H xs h0)" using snoc.IH [OF xs(1)] snoc.prems(2) by simp
  from terminal_inv_step [OF this, of e b wd] snoc.prems(2) show ?case by (auto simp: x xs(2) H)
qed

section \<open>Rounds of a scenario\<close>

fun terminal_mode_of :: "scenario \<Rightarrow> terminal_mode" where
  "terminal_mode_of PipelineScenario = TerminalPipeline"
| "terminal_mode_of _ = TerminalValue"

fun terminal_cpu :: "scenario \<Rightarrow> nat" where
  "terminal_cpu Unicast = 1"
| "terminal_cpu UnicastBatch = 1"
| "terminal_cpu _ = 3"

definition round_handler_mode :: "h2h_config \<Rightarrow> handler_mode" where
  "round_handler_mode cfg = (if hc_scenario cfg \<in> {Unicast, UnicastBatch} then hc_handler_mode cfg else ValueMode)"

definition terminal_for :: "h2h_config \<Rightarrow> terminal_handler option" where
  "terminal_for cfg = terminal_handler_new (hc_events_total cfg) (terminal_mode_of (hc_scenario cfg)) (round_handler_mode cfg)
     (hc_buffer_size cfg) (h2h_cpu cfg (terminal_cpu (hc_scenario cfg)))"

definition expected_checksum :: "h2h_config \<Rightarrow> i64" where
  "expected_checksum cfg =
     (case hc_scenario cfg of
        MpscBatch \<Rightarrow> arithmetic_checksum (hc_events_total cfg)
      | PipelineScenario \<Rightarrow> pipeline_checksum (hc_events_total cfg)
      | _ \<Rightarrow> if hc_handler_mode cfg = ValueMode then arithmetic_checksum (hc_events_total cfg)
             else pipeline_checksum (hc_events_total cfg))"

text \<open>An event as it reaches the terminal stage.\<close>

definition prepared :: "scenario \<Rightarrow> comparison_event \<Rightarrow> comparison_event option" where
  "prepared sc e = (if sc = PipelineScenario then Option.bind (stage_event 1 e) (stage_event 2) else Some e)"

lemma summed_prepared:
  assumes "prepared (hc_scenario cfg) (published_event v) = Some e"
  shows "(word_of_int (summed (terminal_mode_of (hc_scenario cfg)) (round_handler_mode cfg) e) :: u64) =
    word_of_int (v + (if terminal_mode_of (hc_scenario cfg) = TerminalValue \<and> round_handler_mode cfg = ValueMode then 0 else 11))"
  using assms
  by (cases "hc_scenario cfg")
    (auto simp: prepared_def summed_def stage_event_def published_event_def word_of_add_i64 add.assoc simp flip: wi_hom_add)

lemma summed_total:
  assumes "mset (map (Some \<circ> fst) calls) = mset (map (\<lambda>v. prepared (hc_scenario cfg) (published_event (int v))) [0..<n])"
  shows "(word_of_int (sum_list (map (\<lambda>x. summed (terminal_mode_of (hc_scenario cfg)) (round_handler_mode cfg) (fst x)) calls)) :: u64) =
    word_of_int (sum_list (map (\<lambda>v. int v + (if terminal_mode_of (hc_scenario cfg) = TerminalValue \<and> round_handler_mode cfg = ValueMode
      then 0 else 11)) [0..<n]))"
proof -
  let ?f = "\<lambda>e. (word_of_int (summed (terminal_mode_of (hc_scenario cfg)) (round_handler_mode cfg) e) :: u64)"
  let ?k = "if terminal_mode_of (hc_scenario cfg) = TerminalValue \<and> round_handler_mode cfg = ValueMode then 0 else 11 :: int"
  have hom: "(word_of_int (sum_list xs) :: u64) = sum_list (map word_of_int xs)" for xs by (induction xs) simp_all
  have "sum_list (map (\<lambda>x. ?f (fst x)) calls) = sum_mset (image_mset (\<lambda>x. ?f (the x)) (mset (map (Some \<circ> fst) calls)))"
    by (simp add: sum_mset_sum_list [symmetric] image_mset.compositionality comp_def)
  also have "\<dots> = sum_list (map (\<lambda>v. ?f (the (prepared (hc_scenario cfg) (published_event (int v))))) [0..<n])"
    unfolding assms by (simp add: sum_mset_sum_list [symmetric] image_mset.compositionality comp_def)
  also have "\<dots> = sum_list (map (\<lambda>v. word_of_int (int v + ?k)) [0..<n])"
  proof (intro arg_cong [where f = sum_list] map_cong refl)
    fix v
    obtain e where "prepared (hc_scenario cfg) (published_event (int v)) = Some e" by (cases "hc_scenario cfg") (auto simp: prepared_def stage_event_def)
    with summed_prepared show "?f (the (prepared (hc_scenario cfg) (published_event (int v)))) = word_of_int (int v + ?k)"
      by (metis option.sel)
  qed
  finally show ?thesis by (simp add: hom comp_def)
qed

lemma checksum_total:
  assumes "h2h_ok cfg" and "mset (map (Some \<circ> fst) calls) =
      mset (map (\<lambda>v. prepared (hc_scenario cfg) (published_event (int v))) [0..<hc_events_total cfg])"
  shows "sint (word_of_int (sum_list (map (\<lambda>x. summed (terminal_mode_of (hc_scenario cfg)) (round_handler_mode cfg) (fst x)) calls)) :: u64) =
    expected_checksum cfg"
  unfolding summed_total [OF assms(2)] using assms(1)
  by (cases "hc_scenario cfg")
    (auto simp: expected_checksum_def arithmetic_checksum_sum pipeline_checksum_sum round_handler_mode_def h2h_ok_def)

lemma terminal_for_started:
  assumes "h2h_ok cfg" and "terminal_for cfg = Some h"
  shows "terminal_inv (hc_events_total cfg) (terminal_mode_of (hc_scenario cfg)) (round_handler_mode cfg) [] (snd (terminal_on_start os h))"
  using assms
  by (auto simp: terminal_for_def terminal_handler_new_def i64_try_from_def terminal_inv_def terminal_on_start_def h2h_ok_def split: if_splits)

lemma terminal_methods [simp]:
  "on_event (terminal_event_handler os) = terminal_on_event" "on_start (terminal_event_handler os) = terminal_on_start os"
  "on_shutdown (terminal_event_handler os) = (\<lambda>h. (Some (Ok ()), h))"
  "inert_batch_start (batch_handler (terminal_event_handler os))" "on_event (batch_handler (terminal_event_handler os)) = terminal_on_event"
  by (simp_all add: terminal_event_handler_def default_methods_def inert_batch_start_def event_handler.defs)

text \<open>
  The checksum of a round accepts every correct delivery. The library runs the terminal handler of an
  accepted configuration on a consumer thread. If the thread is handed the sequences \<open>0\<close> to \<open>N - 1\<close> and the
  events behind them are, in whatever order the producers' claims interleaved, the published values
  \<open>0\<close> to \<open>N - 1\<close>, each once and each prepared by the stages before, then completion is announced with the last
  event and not before, and the checksum stored with it is the expected one, in every scenario and handler
  mode and although the sum wraps around.
\<close>

theorem checksum_accepts_delivery:
  assumes "h2h_ok cfg" and "terminal_for cfg = Some (co_handler c)" and "co_trace c = []"
    and "mutable_body pk fuel env (terminal_event_handler os) own thread stage Sequential c = Some (LoopReturned, c')"
    and "trace_seqs (co_trace c') = [0..int (hc_events_total cfg) - 1]"
    and "mset (map (Some \<circ> fst) (co_trace c')) =
      mset (map (\<lambda>v. prepared (hc_scenario cfg) (published_event (int v))) [0..<hc_events_total cfg])"
  shows "th_processed (co_handler c') = hc_events_total cfg \<and> sint (th_checksum (co_handler c')) = expected_checksum cfg \<and>
    (\<forall>n<hc_events_total cfg. th_processed (feed (terminal_event_handler os) (take n (co_trace c'))
       (snd (terminal_on_start os (co_handler c)))) = 0)"
proof -
  let ?N = "hc_events_total cfg" and ?m = "terminal_mode_of (hc_scenario cfg)" and ?hm = "round_handler_mode cfg"
  let ?H = "terminal_event_handler os"
  define h0 where "h0 = snd (terminal_on_start os (co_handler c))"
  have inv0: "terminal_inv ?N ?m ?hm [] h0" unfolding h0_def by (rule terminal_for_started [OF assms(1,2)])
  have seqs: "trace_seqs (co_trace c') = map int [0..<?N]" unfolding assms(5) by (rule nth_equalityI) simp_all
  then have len: "length (co_trace c') = ?N" by (metis length_map length_upt minus_nat.diff_0 trace_seqs_def)
  note fed = terminal_inv_feed [OF _ inv0]
  have "on_start ?H (co_handler c) = (Some (Inr ()), h0)" by (simp add: h0_def terminal_on_start_def)
  from mutable_body_handler [OF terminal_methods(4) assms(3) this assms(4)]
  have c': "co_handler c' = feed (batch_handler ?H) (co_trace c') h0" by simp
  have inv: "terminal_inv ?N ?m ?hm (co_trace c') (co_handler c')"
    unfolding c' using fed [of "batch_handler ?H" "co_trace c'"] seqs len by simp
  have early: "th_processed (feed ?H (take n (co_trace c')) h0) = 0" if "n < ?N" for n
  proof -
    have "trace_seqs (take n (co_trace c')) = map int [0..<n]" using seqs that by (simp add: trace_seqs_def take_map [symmetric] take_map)
    with fed [of ?H "take n (co_trace c')"] that len show ?thesis by (simp add: terminal_inv_def)
  qed
  with inv len checksum_total [OF assms(1,6)] show ?thesis by (simp add: terminal_inv_def h0_def)
qed

definition example_h2h_config :: h2h_config where
  "example_h2h_config =
     \<lparr>hc_scenario = PipelineScenario, hc_wait = WkYielding, hc_pad = PadNone, hc_buffer_size = 4, hc_events_total = 1,
      hc_batch_size = 1, hc_warmup_rounds = 0, hc_measured_rounds = 1, hc_run_order = [], hc_pair_id = [], hc_fork_index = 0,
      hc_harness_rev = None, hc_implementation_rev = None, hc_harness_dirty = None, hc_implementation_dirty = None,
      hc_impl_label = [], hc_output = None, hc_timeout = 9, hc_cpu_list = [], hc_handler_mode = ValueMode\<rparr>"

definition example_h2h_os :: affinity where
  "example_h2h_os = \<lparr>set_for_current = \<lambda>_. True, get_core_ids = None\<rparr>"

definition example_h2h_consumer :: "(comparison_event, terminal_handler) consumer" where
  "example_h2h_consumer =
     \<lparr>co_world = example_world,
      co_ring = \<lparr>storage = Inline (replicate 4 (the (prepared PipelineScenario (published_event 0)))), index_mask = 3\<rparr>,
      co_handler = the (terminal_for example_h2h_config), co_trace = []\<rparr>"

definition example_h2h_env :: "comparison_event thread_env" where
  "example_h2h_env =
     \<lparr>te_world = \<lambda>_ w. w,
      te_loop = \<lparr>ce_world = (\<lambda>i w _. if i = 0 then w else w\<lparr>bw_shutdown := True\<rparr>), ce_ring = \<lambda>_ rb. rb\<rparr>,
      te_pool = \<lambda>_ p. (p, None), te_work = - 1\<rparr>"

theorem checksum_accepts_delivery_witness:
  "\<exists>c'. mutable_body (\<lambda>_. None, \<lambda>_ _. (0, True)) 9 example_h2h_env (terminal_event_handler example_h2h_os) 5 ''c'' 0 Sequential
      example_h2h_consumer = Some (LoopReturned, c') \<and>
    th_processed (co_handler c') = 1 \<and> sint (th_checksum (co_handler c')) = 11"
proof -
  let ?cfg = example_h2h_config and ?c = example_h2h_consumer
  let ?run = "mutable_body (\<lambda>_. None, \<lambda>_ _. (0, True)) 9 example_h2h_env (terminal_event_handler example_h2h_os) 5 ''c'' 0 Sequential ?c"
  let ?e = "published_event 0"
  have "map_option (\<lambda>(r, c). (r, trace_seqs (co_trace c), map fst (co_trace c) = [the (prepared PipelineScenario ?e)])) ?run =
      Some (LoopReturned, [0], True)"
    by code_simp
  then obtain c' where run: "?run = Some (LoopReturned, c')" "trace_seqs (co_trace c') = [0]"
    "map fst (co_trace c') = [the (prepared PipelineScenario ?e)]" by auto
  have cfg: "h2h_ok ?cfg" "hc_events_total ?cfg = 1" "hc_scenario ?cfg = PipelineScenario" "expected_checksum ?cfg = 11"
    by code_simp+
  have "terminal_for ?cfg \<noteq> None" by code_simp
  then have h: "terminal_for ?cfg = Some (co_handler ?c)" by (auto simp: example_h2h_consumer_def)
  have tr: "co_trace ?c = []" by (simp add: example_h2h_consumer_def)
  have seqs: "trace_seqs (co_trace c') = [0..int (hc_events_total ?cfg) - 1]" by (simp add: cfg run(2))
  have some: "prepared PipelineScenario ?e = Some (the (prepared PipelineScenario ?e))" by code_simp
  have "map (Some \<circ> fst) (co_trace c') = map Some (map fst (co_trace c'))" by simp
  then have vals: "mset (map (Some \<circ> fst) (co_trace c')) =
      mset (map (\<lambda>v. prepared (hc_scenario ?cfg) (published_event (int v))) [0..<hc_events_total ?cfg])"
    unfolding run(3) cfg using some by simp
  from checksum_accepts_delivery [OF cfg(1) h tr run(1) seqs vals] run(1) show ?thesis unfolding cfg(2,4) by blast
qed

end
