(* ===== verification/H2h_Rounds.thy ===== *)
theory H2h_Rounds
  imports H2h_Handlers
begin

text \<open>
  The main thread of the head-to-head program (\<open>src/bin/h2h_rust.rs\<close>): the publishing loops, the rounds of the
  scenarios, the summary and the program as a whole. What the main thread sees of the other threads and of
  the clock is an environment of functions of the tick at which it looks. The results of the publishing
  calls are thrown away by the program, so the loops are the requests they make.
\<close>

section \<open>Publishing loops\<close>

text \<open>
  \<open>while published < range_end\<close>: the chunks of a batched range, as base and length. The value \<open>None\<close> is a loop
  that never ends.
\<close>

partial_function (option) chunk_loop :: "nat \<Rightarrow> nat \<Rightarrow> nat \<Rightarrow> (nat \<times> nat) list option" where
  "chunk_loop batch range_end published =
     (if published < range_end then
        let chunk = min batch (range_end - published) in
        Option.bind (chunk_loop batch range_end (published + chunk)) (\<lambda>rest. Some ((published, chunk) # rest))
      else Some [])"

declare chunk_loop.simps [code]

text \<open>The closure of a batch writes consecutive values; a single publish is a batch of one.\<close>

definition chunk_values :: "nat \<times> nat \<Rightarrow> nat list" where
  "chunk_values = (\<lambda>(base, chunk). map (\<lambda>j. base + j) [0..<chunk])"

definition unicast_requests :: "h2h_config \<Rightarrow> bool \<Rightarrow> (nat \<times> nat) list option" where
  "unicast_requests cfg batch =
     (if batch then chunk_loop (hc_batch_size cfg) (hc_events_total cfg) 0
      else Some (map (\<lambda>v. (v, 1)) [0..<hc_events_total cfg]))"

definition producer_range :: "h2h_config \<Rightarrow> nat \<Rightarrow> nat \<times> nat" where
  "producer_range cfg pid = (let per = hc_events_total cfg div MPSC_PRODUCERS in (per * pid, per * pid + per))"

definition producer_requests :: "h2h_config \<Rightarrow> nat \<Rightarrow> (nat \<times> nat) list option" where
  "producer_requests cfg pid =
     (let (range_start, range_end) = producer_range cfg pid in chunk_loop (hc_batch_size cfg) range_end range_start)"

section \<open>Rounds\<close>

record round_env =
  re_ready :: "nat \<Rightarrow> nat"
  re_producers_ready :: "nat \<Rightarrow> nat"
  re_processed :: "nat \<Rightarrow> nat"
  re_checksum :: "nat \<Rightarrow> u64"
  re_affinity_failed :: "nat \<Rightarrow> bool"
  re_clock :: "nat \<Rightarrow> nat"
  re_producer_panicked :: bool

record bench_round =
  rd_index :: nat
  rd_measured :: bool
  rd_elapsed_ns :: nat
  rd_events :: nat
  rd_ops_per_sec :: f64
  rd_checksum_ok :: bool

text \<open>The end of every round: time, checksum and rate.\<close>

definition finish_round :: "round_env \<Rightarrow> h2h_config \<Rightarrow> nat \<Rightarrow> nat \<Rightarrow> nat \<Rightarrow> bench_round" where
  "finish_round env cfg i start t =
     (let elapsed = re_clock env t - start; got = sint (re_checksum env (Suc t));
          ops = div_f64 (as_f64 (hc_events_total cfg)) (max (as_secs_f64 elapsed) (round_f64 (1 / 1000000000000)))
      in \<lparr>rd_index = i + 1, rd_measured = (hc_warmup_rounds cfg \<le> i), rd_elapsed_ns = elapsed,
          rd_events = hc_events_total cfg, rd_ops_per_sec = ops, rd_checksum_ok = (got = expected_checksum cfg)\<rparr>)"

definition await_consumers ::
    "nat \<Rightarrow> round_env \<Rightarrow> h2h_config \<Rightarrow> (nat \<Rightarrow> nat) \<Rightarrow> nat \<Rightarrow> nat \<Rightarrow> string \<Rightarrow> string \<Rightarrow> (string + nat) option" where
  "await_consumers fuel env cfg counter target t not_ready not_pinned =
     (case wait_count fuel counter (re_clock env) target (hc_timeout cfg) t of
        None \<Rightarrow> None
      | Some (False, t1) \<Rightarrow> Some (Inl not_ready)
      | Some (True, t1) \<Rightarrow> if re_affinity_failed env t1 then Some (Inl not_pinned) else Some (Inr (Suc t1)))"

definition await_completion :: "nat \<Rightarrow> round_env \<Rightarrow> h2h_config \<Rightarrow> nat \<Rightarrow> (nat \<Rightarrow> string) \<Rightarrow> (string + nat) option" where
  "await_completion fuel env cfg t late =
     (case wait_count fuel (re_processed env) (re_clock env) (hc_events_total cfg) (hc_timeout cfg) t of
        None \<Rightarrow> None
      | Some (False, t1) \<Rightarrow> Some (Inl (late (re_processed env t1)))
      | Some (True, t1) \<Rightarrow> Some (Inr t1))"

definition unicast_round :: "nat \<Rightarrow> round_env \<Rightarrow> h2h_config \<Rightarrow> nat \<Rightarrow> (string + bench_round) option" where
  "unicast_round fuel env cfg i =
     (case await_consumers fuel env cfg (re_ready env) 1 0 ''timeout waiting for unicast consumer readiness''
             ''failed to pin unicast worker threads'' of
        None \<Rightarrow> None
      | Some (Inl e) \<Rightarrow> Some (Inl e)
      | Some (Inr t) \<Rightarrow>
          (case unicast_requests cfg (hc_scenario cfg = UnicastBatch) of
             None \<Rightarrow> None
           | Some _ \<Rightarrow>
               (case await_completion fuel env cfg (Suc t)
                       (\<lambda>n. ''timeout waiting for unicast completion (got '' @ show_nat n @ '')'') of
                  None \<Rightarrow> None
                | Some (Inl e) \<Rightarrow> Some (Inl e)
                | Some (Inr t1) \<Rightarrow> Some (Inr (finish_round env cfg i (re_clock env t) t1)))))"

definition mpsc_round :: "nat \<Rightarrow> round_env \<Rightarrow> h2h_config \<Rightarrow> nat \<Rightarrow> (string + bench_round) option" where
  "mpsc_round fuel env cfg i =
     (case await_consumers fuel env cfg (re_ready env) 1 0 ''timeout waiting for mpsc consumer readiness''
             ''failed to pin mpsc consumer thread'' of
        None \<Rightarrow> None
      | Some (Inl e) \<Rightarrow> Some (Inl e)
      | Some (Inr t) \<Rightarrow>
          (case await_consumers fuel env cfg (re_producers_ready env) MPSC_PRODUCERS t
                  ''timeout waiting for mpsc producer readiness'' ''failed to pin mpsc producer threads'' of
             None \<Rightarrow> None
           | Some (Inl e) \<Rightarrow> Some (Inl e)
           | Some (Inr t1) \<Rightarrow>
               (case those (map (producer_requests cfg) [0..<MPSC_PRODUCERS]) of
                  None \<Rightarrow> None
                | Some _ \<Rightarrow>
                    if re_producer_panicked env then Some (Inl ''producer panic'')
                    else (case await_completion fuel env cfg (Suc t1) (\<lambda>_. ''timeout mpsc completion'') of
                            None \<Rightarrow> None
                          | Some (Inl e) \<Rightarrow> Some (Inl e)
                          | Some (Inr t2) \<Rightarrow> Some (Inr (finish_round env cfg i (re_clock env t1) t2))))))"

definition pipeline_round :: "nat \<Rightarrow> round_env \<Rightarrow> h2h_config \<Rightarrow> nat \<Rightarrow> (string + bench_round) option" where
  "pipeline_round fuel env cfg i =
     (case await_consumers fuel env cfg (re_ready env) 3 0 ''timeout waiting for pipeline stage readiness''
             ''failed to pin pipeline worker threads'' of
        None \<Rightarrow> None
      | Some (Inl e) \<Rightarrow> Some (Inl e)
      | Some (Inr t) \<Rightarrow>
          (case unicast_requests cfg False of
             None \<Rightarrow> None
           | Some _ \<Rightarrow>
               (case await_completion fuel env cfg (Suc t) (\<lambda>_. ''timeout pipeline completion'') of
                  None \<Rightarrow> None
                | Some (Inl e) \<Rightarrow> Some (Inl e)
                | Some (Inr t1) \<Rightarrow> Some (Inr (finish_round env cfg i (re_clock env t) t1)))))"

definition one_round :: "nat \<Rightarrow> round_env \<Rightarrow> h2h_config \<Rightarrow> nat \<Rightarrow> (string + bench_round) option" where
  "one_round fuel env cfg i =
     (case hc_scenario cfg of
        MpscBatch \<Rightarrow> mpsc_round fuel env cfg i
      | PipelineScenario \<Rightarrow> pipeline_round fuel env cfg i
      | _ \<Rightarrow> unicast_round fuel env cfg i)"

fun run_rounds :: "nat \<Rightarrow> (nat \<Rightarrow> round_env) \<Rightarrow> h2h_config \<Rightarrow> nat \<Rightarrow> nat \<Rightarrow> (string + bench_round list) option" where
  "run_rounds fuel env cfg i 0 = Some (Inr [])"
| "run_rounds fuel env cfg i (Suc n) =
     (case one_round fuel (env i) cfg i of
        None \<Rightarrow> None
      | Some (Inl e) \<Rightarrow> Some (Inl e)
      | Some (Inr r) \<Rightarrow>
          (case run_rounds fuel env cfg (Suc i) n of
             None \<Rightarrow> None
           | Some (Inl e) \<Rightarrow> Some (Inl e)
           | Some (Inr rs) \<Rightarrow> Some (Inr (r # rs))))"

section \<open>Summary\<close>

record summary =
  sm_checksum_valid_all :: bool
  sm_median :: f64
  sm_mean :: f64
  sm_min :: f64
  sm_max :: f64
  sm_stddev :: f64
  sm_cv :: f64

definition summarize :: "bench_round list \<Rightarrow> nat \<Rightarrow> summary" where
  "summarize rounds warmup =
     (let measured = map rd_ops_per_sec (drop warmup rounds); valid = list_all rd_checksum_ok rounds in
      if measured = []
      then \<lparr>sm_checksum_valid_all = valid, sm_median = 0, sm_mean = 0, sm_min = 0, sm_max = 0, sm_stddev = 0, sm_cv = 0\<rparr>
      else
        let ordered = sort measured; n = length measured;
            median = median_f64 ordered;
            mean = div_f64 (sum_f64 measured) (as_f64 n);
            var = div_f64 (sum_f64 (map (\<lambda>x. let d = sub_f64 x mean in mul_f64 d d) measured)) (as_f64 n);
            stddev = sqrt_f64 var
        in \<lparr>sm_checksum_valid_all = valid, sm_median = median, sm_mean = mean, sm_min = ordered ! 0,
            sm_max = ordered ! (n - 1), sm_stddev = stddev, sm_cv = (if mean > 0 then div_f64 stddev mean else 0)\<rparr>)"

section \<open>The program\<close>

text \<open>
  The exit code, and the rounds with their summary when the program came that far. An event total that does
  not fit an \<open>i64\<close> passes the command line and panics in \<open>TerminalHandler::new\<close> of the first round: the exit
  code of a panic is 101.
\<close>

definition h2h_main ::
    "nat \<Rightarrow> affinity \<Rightarrow> (nat \<Rightarrow> round_env) \<Rightarrow> (string \<Rightarrow> bool) \<Rightarrow> string list \<Rightarrow> (nat \<times> (bench_round list \<times> summary) option) option" where
  "h2h_main fuel os env write_output args =
     (case h2h_parse_args args of
        Inl e \<Rightarrow> Some (2, None)
      | Inr None \<Rightarrow> Some (0, None)
      | Inr (Some cfg) \<Rightarrow>
          if hc_cpu_list cfg \<noteq> [] \<and> pin_current_thread os (h2h_cpu cfg 0) False then Some (1, None)
          else if terminal_for cfg = None then Some (101, None)
          else (case run_rounds fuel env cfg 0 (hc_warmup_rounds cfg + hc_measured_rounds cfg) of
                  None \<Rightarrow> None
                | Some (Inl e) \<Rightarrow> Some (1, None)
                | Some (Inr rounds) \<Rightarrow>
                    let sm = summarize rounds (hc_warmup_rounds cfg); out = Some (rounds, sm) in
                    if (case hc_output cfg of None \<Rightarrow> False | Some path \<Rightarrow> \<not> write_output path) then Some (1, out)
                    else Some (if sm_checksum_valid_all sm then 0 else 2, out)))"

section \<open>The publishing loops cover their ranges\<close>

lemma chunk_values_upt: "chunk_values (base, n) = [base..<base + n]"
  unfolding chunk_values_def by (rule nth_equalityI) simp_all

lemma chunk_loop_covers:
  assumes "0 < batch"
  shows "\<exists>cs. chunk_loop batch stop p = Some cs \<and> concat (map chunk_values cs) = [p..<stop] \<and>
    (\<forall>(base, n)\<in>set cs. 1 \<le> n \<and> n \<le> batch)"
proof (induction "stop - p" arbitrary: p rule: less_induct)
  case less
  show ?case
  proof (cases "p < stop")
    case True
    define n where "n = min batch (stop - p)"
    have n: "1 \<le> n" "n \<le> batch" "p + n \<le> stop" using assms True by (auto simp: n_def)
    have "stop - (p + n) < stop - p" using n True by simp
    then obtain cs where cs: "chunk_loop batch stop (p + n) = Some cs" "concat (map chunk_values cs) = [p + n..<stop]"
      "\<forall>(base, n)\<in>set cs. 1 \<le> n \<and> n \<le> batch" using less [of "p + n"] by blast
    have vals: "chunk_values (p, n) @ [p + n..<stop] = [p..<stop]"
      using n(3) upt_add_eq_append [of p "p + n" "stop - (p + n)"] by (simp add: chunk_values_upt)
    have "chunk_loop batch stop p = Some ((p, n) # cs)"
      using True cs(1) by (simp add: chunk_loop.simps [of batch stop p] n_def Let_def)
    with cs n vals show ?thesis by auto
  qed (simp add: chunk_loop.simps)
qed

text \<open>A batch size of zero would never end; the rules of the command line exclude it.\<close>

lemma chunk_loop_zero: "p < stop \<Longrightarrow> chunk_loop 0 stop p = None"
proof (rule ccontr)
  assume p: "p < stop" and "chunk_loop 0 stop p \<noteq> None"
  then obtain cs where "chunk_loop 0 stop p = Some cs" by blast
  then have "\<not> p < stop"
  proof (induction cs arbitrary: p)
    case Nil
    then show ?case by (subst (asm) chunk_loop.simps) (auto simp: Let_def split: if_splits bind_splits)
  next
    case (Cons c cs)
    then show ?case by (subst (asm) (2) chunk_loop.simps) (auto simp: Let_def split: if_splits bind_splits)
  qed
  with p show False by simp
qed

lemma thirds: "n mod 3 = 0 \<Longrightarrow> [0..<n div 3] @ [n div 3..<n div 3 * 2] @ [n div 3 * 2..<n div 3 * 3] = [0..<n]"
proof -
  assume "n mod 3 = 0"
  then have n: "n div 3 * 3 = n" by auto
  have "[0..<a] @ [a..<b] @ [b..<c] = [0..<c]" if "a \<le> b" "b \<le> c" for a b c :: nat
    using that upt_add_eq_append [of a b "c - b"] upt_add_eq_append [of 0 a "c - a"] by simp
  from this [of "n div 3" "n div 3 * 2" "n div 3 * 3"] n show ?thesis by simp
qed

text \<open>
  Every round publishes every value exactly once. For an accepted configuration the publishing loops end;
  the single and the batched unicast loop write \<open>0\<close> to \<open>N - 1\<close> in order, and the ranges of the three producers
  of the multi-producer scenario, chunked one by one, partition the same values; no request is empty or
  larger than the batch size.
\<close>

theorem rounds_publish_everything:
  assumes "h2h_ok cfg"
  shows "(\<exists>cs. unicast_requests cfg batch = Some cs \<and> concat (map chunk_values cs) = [0..<hc_events_total cfg] \<and>
      (\<forall>(base, n)\<in>set cs. 1 \<le> n \<and> n \<le> hc_batch_size cfg)) \<and>
    (hc_scenario cfg = MpscBatch \<longrightarrow> (\<exists>css. those (map (producer_requests cfg) [0..<MPSC_PRODUCERS]) = Some css \<and>
      concat (map chunk_values (concat css)) = [0..<hc_events_total cfg] \<and>
      (\<forall>(base, n)\<in>set (concat css). 1 \<le> n \<and> n \<le> hc_batch_size cfg)))"
proof (intro conjI impI)
  have b: "0 < hc_batch_size cfg" using assms by (simp add: h2h_ok_def)
  show "\<exists>cs. unicast_requests cfg batch = Some cs \<and> concat (map chunk_values cs) = [0..<hc_events_total cfg] \<and>
      (\<forall>(base, n)\<in>set cs. 1 \<le> n \<and> n \<le> hc_batch_size cfg)"
  proof (cases batch)
    case True
    with chunk_loop_covers [OF b, of "hc_events_total cfg" 0] show ?thesis by (simp add: unicast_requests_def)
  next
    case False
    have "concat (map (\<lambda>v. chunk_values (v, 1)) vs) = vs" for vs by (induction vs) (simp_all add: chunk_values_def)
    with False b show ?thesis by (simp add: unicast_requests_def comp_def Suc_le_eq)
  qed
  assume m: "hc_scenario cfg = MpscBatch"
  let ?p = "hc_events_total cfg div 3"
  have req: "\<exists>cs. producer_requests cfg i = Some cs \<and> concat (map chunk_values cs) = [?p * i..<?p * (i + 1)] \<and>
      (\<forall>(base, n)\<in>set cs. 1 \<le> n \<and> n \<le> hc_batch_size cfg)" for i
    using chunk_loop_covers [OF b, of "?p * i + ?p" "?p * i"] by (simp add: producer_requests_def producer_range_def Let_def add.commute)
  obtain a where a: "producer_requests cfg 0 = Some a" "concat (map chunk_values a) = [0..<?p]"
    "\<forall>(base, n)\<in>set a. 1 \<le> n \<and> n \<le> hc_batch_size cfg" using req [of 0] by auto
  obtain b where b: "producer_requests cfg 1 = Some b" "concat (map chunk_values b) = [?p..<?p * 2]"
    "\<forall>(base, n)\<in>set b. 1 \<le> n \<and> n \<le> hc_batch_size cfg" using req [of 1] by (auto simp: numeral_2_eq_2)
  obtain c where c: "producer_requests cfg 2 = Some c" "concat (map chunk_values c) = [?p * 2..<?p * 3]"
    "\<forall>(base, n)\<in>set c. 1 \<le> n \<and> n \<le> hc_batch_size cfg" using req [of 2] by auto
  have ids: "[0..<MPSC_PRODUCERS] = [0, 1, 2]" by (simp add: upt_rec)
  have "hc_events_total cfg mod 3 = 0" using assms m by (simp add: h2h_ok_def)
  from thirds [OF this] a b c show "\<exists>css. those (map (producer_requests cfg) [0..<MPSC_PRODUCERS]) = Some css \<and>
      concat (map chunk_values (concat css)) = [0..<hc_events_total cfg] \<and>
      (\<forall>(base, n)\<in>set (concat css). 1 \<le> n \<and> n \<le> hc_batch_size cfg)"
    unfolding ids by (intro exI [of _ "[a, b, c]"]) auto
qed

theorem rounds_publish_everything_witness:
  "\<exists>css. those (map (producer_requests (example_h2h_config\<lparr>hc_scenario := MpscBatch, hc_events_total := 6\<rparr>)) [0..<MPSC_PRODUCERS]) = Some css \<and>
     concat (map chunk_values (concat css)) = [0, 1, 2, 3, 4, 5]"
proof -
  let ?cfg = "example_h2h_config\<lparr>hc_scenario := MpscBatch, hc_events_total := 6\<rparr>"
  have "h2h_ok ?cfg" by code_simp
  moreover have "[0..<6] = [0, 1, 2, 3, 4, 5 :: nat]" by (simp add: upt_rec)
  ultimately show ?thesis using rounds_publish_everything [of ?cfg False] by auto
qed

section \<open>What an exit code of zero means\<close>

lemma one_round_finished:
  assumes "one_round fuel env cfg i = Some (Inr r)"
  obtains start t where "r = finish_round env cfg i start t" "hc_events_total cfg \<le> re_processed env (t - 1)"
proof -
  have done_at: "hc_events_total cfg \<le> re_processed env (u - 1)" if "await_completion fuel env cfg t late = Some (Inr u)" for t late u
    using that wait_count_sound [of fuel "re_processed env" "re_clock env" "hc_events_total cfg" "hc_timeout cfg" t]
    by (auto simp: await_completion_def split: option.splits bool.splits prod.splits)
  show thesis
    using assms done_at that
    by (auto simp: one_round_def unicast_round_def mpsc_round_def pipeline_round_def split: scenario.splits option.splits sum.splits if_splits)
qed

text \<open>Round \<open>i\<close> ended after the consumer had announced all events, and its checksum was the expected one.\<close>

definition certified_round :: "round_env \<Rightarrow> h2h_config \<Rightarrow> nat \<Rightarrow> bench_round \<Rightarrow> bool" where
  "certified_round env cfg i r \<longleftrightarrow> rd_index r = i + 1 \<and> rd_measured r = (hc_warmup_rounds cfg \<le> i) \<and>
     rd_events r = hc_events_total cfg \<and> round_f64 (rd_ops_per_sec r) = rd_ops_per_sec r \<and>
     (\<exists>t. hc_events_total cfg \<le> re_processed env (t - 1) \<and>
       (rd_checksum_ok r \<longleftrightarrow> sint (re_checksum env (Suc t)) = expected_checksum cfg))"

lemma one_round_certified: "one_round fuel env cfg i = Some (Inr r) \<Longrightarrow> certified_round env cfg i r"
  by (erule one_round_finished) (auto simp: certified_round_def finish_round_def Let_def div_f64_def)

lemma run_rounds_certified:
  assumes "run_rounds fuel env cfg i n = Some (Inr rs)"
  shows "length rs = n \<and> (\<forall>j<n. certified_round (env (i + j)) cfg (i + j) (rs ! j))"
  using assms
proof (induction n arbitrary: i rs)
  case (Suc n)
  then obtain r rs' where r: "one_round fuel (env i) cfg i = Some (Inr r)" "run_rounds fuel env cfg (Suc i) n = Some (Inr rs')" "rs = r # rs'"
    by (auto split: option.splits sum.splits)
  have "certified_round (env (i + j)) cfg (i + j) (rs ! j)" if "j < Suc n" for j
    using one_round_certified [OF r(1)] Suc.IH [OF r(2)] that r(3) by (cases j) auto
  then show ?case using Suc.IH [OF r(2)] r(3) by simp
qed simp

lemma summary_in_order:
  assumes "drop warmup rounds \<noteq> []" and "\<And>r. r \<in> set rounds \<Longrightarrow> round_f64 (rd_ops_per_sec r) = rd_ops_per_sec r"
  shows "sm_min (summarize rounds warmup) \<le> sm_median (summarize rounds warmup) \<and>
    sm_median (summarize rounds warmup) \<le> sm_max (summarize rounds warmup) \<and>
    (\<forall>r\<in>set (drop warmup rounds). sm_min (summarize rounds warmup) \<le> rd_ops_per_sec r \<and>
       rd_ops_per_sec r \<le> sm_max (summarize rounds warmup))"
proof -
  define xs where "xs = map rd_ops_per_sec (drop warmup rounds)"
  have ne: "xs \<noteq> []" using assms(1) by (simp add: xs_def)
  have repr: "round_f64 y = y" if "y \<in> set xs" for y using assms(2) that by (auto simp: xs_def dest: in_set_dropD)
  have "sm_median (summarize rounds warmup) = median_f64 (sort xs)" "sm_min (summarize rounds warmup) = sort xs ! 0"
    "sm_max (summarize rounds warmup) = sort xs ! (length xs - 1)"
    using ne unfolding summarize_def Let_def xs_def [symmetric] by simp_all
  with median_between [OF ne repr] sorted_between [of _ xs] show ?thesis by (auto simp: xs_def)
qed

text \<open>
  An exit code of zero certifies the comparison. If the head-to-head program ends with exit code zero
  and results, the command line was accepted, the terminal handler could be
  made, all warm-up and measured rounds are there in order, every
  one ended after its consumer had announced all events and with the expected checksum, and the summary's
  median lies between the minimum and the maximum, which bound every measured rate.
\<close>

theorem h2h_exit_zero:
  assumes "h2h_main fuel os env write_output args = Some (0, Some (rounds, sm))"
  shows "\<exists>cfg. h2h_parse_args args = Inr (Some cfg) \<and> h2h_ok cfg \<and> terminal_for cfg \<noteq> None \<and>
    length rounds = hc_warmup_rounds cfg + hc_measured_rounds cfg \<and>
    (\<forall>i<length rounds. certified_round (env i) cfg i (rounds ! i) \<and> rd_checksum_ok (rounds ! i)) \<and>
    sm_min sm \<le> sm_median sm \<and> sm_median sm \<le> sm_max sm \<and>
    (\<forall>r\<in>set (drop (hc_warmup_rounds cfg) rounds). sm_min sm \<le> rd_ops_per_sec r \<and> rd_ops_per_sec r \<le> sm_max sm)"
proof -
  obtain cfg where cfg: "h2h_parse_args args = Inr (Some cfg)"
    using assms by (auto simp: h2h_main_def split: sum.splits option.splits)
  note ok = h2h_parse_args_ok [OF cfg]
  from assms have run: "run_rounds fuel env cfg 0 (hc_warmup_rounds cfg + hc_measured_rounds cfg) = Some (Inr rounds)"
    and sm: "sm = summarize rounds (hc_warmup_rounds cfg)" and valid: "sm_checksum_valid_all sm"
    and fits: "terminal_for cfg \<noteq> None"
    by (auto simp: h2h_main_def cfg Let_def split: sum.splits option.splits if_splits)
  note r = run_rounds_certified [OF run]
  have measured: "drop (hc_warmup_rounds cfg) rounds \<noteq> []" using r ok by (simp add: h2h_ok_def)
  have rates: "round_f64 (rd_ops_per_sec x) = rd_ops_per_sec x" if "x \<in> set rounds" for x
    using that r by (auto simp: in_set_conv_nth certified_round_def)
  note order = summary_in_order [OF measured rates, folded sm]
  have "list_all rd_checksum_ok rounds" using valid by (auto simp: sm summarize_def Let_def split: if_splits)
  with cfg ok fits r order show ?thesis by (intro exI [of _ cfg]) (auto simp: list_all_length)
qed

definition example_round_env :: round_env where
  "example_round_env =
     \<lparr>re_ready = \<lambda>_. 1, re_producers_ready = \<lambda>_. 0, re_processed = \<lambda>_. 1, re_checksum = \<lambda>_. 0, re_affinity_failed = \<lambda>_. False,
      re_clock = \<lambda>t. t, re_producer_panicked = False\<rparr>"

definition example_h2h_args :: "string list" where
  "example_h2h_args = [''--scenario'', ''unicast'', ''--events-total'', ''1'', ''--warmup-rounds'', ''0'', ''--measured-rounds'', ''1'']"

lemma example_h2h_parsed:
  "h2h_parse_args example_h2h_args = Inr (Some (h2h_config_of Unicast
     (h2h_opts_init\<lparr>ho_scenario := Some Unicast, ho_events_total := Some 1, ho_warmup_rounds := 0, ho_measured_rounds := 1\<rparr>)))"
proof -
  let ?opts = "h2h_opts_init\<lparr>ho_scenario := Some Unicast, ho_events_total := Some 1, ho_warmup_rounds := 0, ho_measured_rounds := 1\<rparr>"
  have digits: "to_digit CHR ''0'' = Some 0" "to_digit CHR ''1'' = Some 1" by (simp_all add: to_digit_def)
  have flags: "h2h_parse_flags h2h_opts_init example_h2h_args = Inr (Some ?opts)"
    by (simp add: example_h2h_args_def h2h_value_flag_def parse_number_def drop_underscores_def digits scenario_parse_def h2h_opts_init_def)
  have "is_power_of_two 65536" using count_ones_pow2 [of 16] by (simp add: is_power_of_two_def)
  then have "h2h_check Unicast ?opts = Inr (h2h_config_of Unicast ?opts)"
    by (simp add: h2h_check_def h2h_config_of_def h2h_opts_init_def Let_def)
  moreover have "ho_scenario ?opts = Some Unicast" by simp
  ultimately show ?thesis using flags unfolding h2h_parse_args_def by simp
qed

theorem h2h_exit_zero_witness:
  "\<exists>rounds sm cfg. h2h_main 9 example_h2h_os (\<lambda>_. example_round_env) (\<lambda>_. True) example_h2h_args = Some (0, Some (rounds, sm)) \<and>
     h2h_parse_args example_h2h_args = Inr (Some cfg) \<and> length rounds = 1 \<and> sm_min sm \<le> sm_median sm"
proof -
  define cfg where "cfg = h2h_config_of Unicast
     (h2h_opts_init\<lparr>ho_scenario := Some Unicast, ho_events_total := Some 1, ho_warmup_rounds := 0, ho_measured_rounds := 1\<rparr>)"
  have c: "hc_scenario cfg = Unicast" "hc_events_total cfg = 1" "hc_warmup_rounds cfg = 0" "hc_measured_rounds cfg = 1" "hc_cpu_list cfg = []"
    "hc_output cfg = None" "hc_timeout cfg = 300000000000" "hc_handler_mode cfg = ValueMode"
    by (simp_all add: cfg_def h2h_config_of_def h2h_opts_init_def)
  have expect: "expected_checksum cfg = 0" by (simp add: expected_checksum_def c arithmetic_checksum_def wrap_i64_def)
  have "\<exists>r. one_round 9 example_round_env cfg 0 = Some (Inr r) \<and> rd_checksum_ok r"
    by (simp add: one_round_def unicast_round_def await_consumers_def await_completion_def wait_count_def wait_body_def poll_numeral c
        example_round_env_def unicast_requests_def finish_round_def Let_def expect)
  then obtain r where r: "one_round 9 example_round_env cfg 0 = Some (Inr r)" "rd_checksum_ok r" by blast
  then have rr: "run_rounds 9 (\<lambda>_. example_round_env) cfg 0 1 = Some (Inr [r])" by simp
  have "sm_checksum_valid_all (summarize [r] 0)" using r(2) by (simp add: summarize_def Let_def)
  then have main: "h2h_main 9 example_h2h_os (\<lambda>_. example_round_env) (\<lambda>_. True) example_h2h_args = Some (0, Some ([r], summarize [r] 0))"
    unfolding h2h_main_def example_h2h_parsed cfg_def [symmetric]
    using rr c by (simp add: terminal_for_def terminal_handler_new_def i64_try_from_def)
  from h2h_exit_zero [OF main] main show ?thesis unfolding example_h2h_parsed by auto
qed

end
