(* ===== verification/Pipeline_Breakdown.thy ===== *)
theory Pipeline_Breakdown
  imports H2h_Rounds
begin

text \<open>
  The pipeline breakdown program (\<open>src/bin/pipeline_breakdown.rs\<close>): the same work as one, two and three
  stages, validated by a count and a checksum that the last handler collects per batch and adds to two
  shared cells at the end of it. The two additions are separate atomic steps, and the main thread reads the
  cells at any time; the history of the cells is part of the model.
\<close>

section \<open>Events\<close>

text \<open>The padded event has the same fields and methods; only its alignment differs.\<close>

definition populate_input :: "i64 \<Rightarrow> comparison_event \<Rightarrow> comparison_event" where
  "populate_input v e = e\<lparr>ev_value := v, stage1_value := 0, stage2_value := 0, stage3_value := 0\<rparr>"

definition apply_stage1 :: "comparison_event \<Rightarrow> i64 \<times> comparison_event" where
  "apply_stage1 e = (let e' = e\<lparr>stage1_value := add_i64 (ev_value e) 1\<rparr> in (stage1_value e', e'))"

definition apply_stage2 :: "comparison_event \<Rightarrow> i64 \<times> comparison_event" where
  "apply_stage2 e = (let e' = e\<lparr>stage2_value := add_i64 (stage1_value e) 3\<rparr> in (stage2_value e', e'))"

definition apply_stage3 :: "comparison_event \<Rightarrow> i64 \<times> comparison_event" where
  "apply_stage3 e = (let e' = e\<lparr>stage3_value := add_i64 (stage2_value e) 7\<rparr> in (stage3_value e', e'))"

section \<open>Modes and phases\<close>

datatype pb_mode = PbAll | PbSingle | PbTwo | PbThree
datatype pb_phase = PhSingle | PhTwo | PhThree

definition pb_mode_parse :: "string \<Rightarrow> pb_mode cli" where
  "pb_mode_parse v =
     (if v = ''all'' then Inr PbAll else if v = ''single-stage'' then Inr PbSingle
      else if v = ''two-stage'' then Inr PbTwo else if v = ''three-stage'' then Inr PbThree
      else Inl (Unsupported ''mode'' v))"

fun pb_mode_as_str :: "pb_mode \<Rightarrow> string" where
  "pb_mode_as_str PbAll = ''all''"
| "pb_mode_as_str PbSingle = ''single-stage''"
| "pb_mode_as_str PbTwo = ''two-stage''"
| "pb_mode_as_str PbThree = ''three-stage''"

fun pb_phases :: "pb_mode \<Rightarrow> pb_phase list" where
  "pb_phases PbAll = [PhSingle, PhTwo, PhThree]"
| "pb_phases PbSingle = [PhSingle]"
| "pb_phases PbTwo = [PhTwo]"
| "pb_phases PbThree = [PhThree]"

fun pb_phase_as_str :: "pb_phase \<Rightarrow> string" where
  "pb_phase_as_str PhSingle = ''single_stage''"
| "pb_phase_as_str PhTwo = ''two_stage''"
| "pb_phase_as_str PhThree = ''three_stage''"

fun stage_count :: "pb_phase \<Rightarrow> nat" where
  "stage_count PhSingle = 1"
| "stage_count PhTwo = 2"
| "stage_count PhThree = 3"

datatype event_padding = EpNone | EpPad64

definition event_padding_parse :: "string \<Rightarrow> event_padding cli" where
  "event_padding_parse v =
     (if v = ''none'' then Inr EpNone else if v = ''64'' then Inr EpPad64 else Inl (Unsupported ''event padding'' v))"

fun event_padding_as_str :: "event_padding \<Rightarrow> string" where
  "event_padding_as_str EpNone = ''none''"
| "event_padding_as_str EpPad64 = ''64''"

text \<open>Four 64-bit fields, padded to the alignment.\<close>

fun event_padding_size :: "event_padding \<Rightarrow> nat" where
  "event_padding_size EpNone = 32"
| "event_padding_size EpPad64 = 64"

definition pb_wait_parse :: "string \<Rightarrow> wait_kind cli" where
  "pb_wait_parse v =
     (if v = ''busy-spin'' then Inr WkBusySpin else if v = ''yielding'' then Inr WkYielding
      else Inl (Unsupported ''wait strategy'' v))"

section \<open>Command line\<close>

record pb_config =
  pb_mode_of :: pb_mode
  pb_wait :: wait_kind
  pb_padding :: event_padding
  pb_events_total :: nat
  pb_buffer_size :: nat
  pb_warmup_rounds :: nat
  pb_measured_rounds :: nat
  pb_timeout_secs :: nat
  pb_output :: "string option"

definition pb_cli_init :: pb_config where
  "pb_cli_init =
     \<lparr>pb_mode_of = PbAll, pb_wait = WkYielding, pb_padding = EpNone, pb_events_total = 20000000, pb_buffer_size = 8192,
      pb_warmup_rounds = 3, pb_measured_rounds = 5, pb_timeout_secs = 300, pb_output = None\<rparr>"

definition pb_value_flag :: "string \<Rightarrow> (string \<Rightarrow> pb_config \<Rightarrow> pb_config cli) option" where
  "pb_value_flag a =
     (if a = ''--mode'' then Some (\<lambda>v c. bind_cli (pb_mode_parse v) (\<lambda>x. Inr (c\<lparr>pb_mode_of := x\<rparr>)))
      else if a = ''--wait-strategy'' then Some (\<lambda>v c. bind_cli (pb_wait_parse v) (\<lambda>x. Inr (c\<lparr>pb_wait := x\<rparr>)))
      else if a = ''--event-padding'' then Some (\<lambda>v c. bind_cli (event_padding_parse v) (\<lambda>x. Inr (c\<lparr>pb_padding := x\<rparr>)))
      else if a = ''--events-total'' then
        Some (\<lambda>v c. bind_cli (parse_number ''u64'' v) (\<lambda>x. Inr (c\<lparr>pb_events_total := x\<rparr>)))
      else if a = ''--buffer-size'' then
        Some (\<lambda>v c. bind_cli (parse_number ''usize'' v) (\<lambda>x. Inr (c\<lparr>pb_buffer_size := x\<rparr>)))
      else if a = ''--warmup-rounds'' then
        Some (\<lambda>v c. bind_cli (parse_number ''usize'' v) (\<lambda>x. Inr (c\<lparr>pb_warmup_rounds := x\<rparr>)))
      else if a = ''--measured-rounds'' then
        Some (\<lambda>v c. bind_cli (parse_number ''usize'' v) (\<lambda>x. Inr (c\<lparr>pb_measured_rounds := x\<rparr>)))
      else if a = ''--timeout-secs'' then
        Some (\<lambda>v c. bind_cli (parse_number ''u64'' v) (\<lambda>x. Inr (c\<lparr>pb_timeout_secs := x\<rparr>)))
      else if a = ''--output'' then Some (\<lambda>v c. Inr (c\<lparr>pb_output := Some v\<rparr>))
      else None)"

fun pb_from_args :: "pb_config \<Rightarrow> string list \<Rightarrow> pb_config option cli" where
  "pb_from_args c [] = Inr (Some c)"
| "pb_from_args c (a # rest) =
     (case pb_value_flag a of
        Some put \<Rightarrow>
          (case rest of
             [] \<Rightarrow> Inl (Missing a)
           | v # rest' \<Rightarrow> bind_cli (put v c) (\<lambda>c'. pb_from_args c' rest'))
      | None \<Rightarrow> if a = ''--help'' \<or> a = ''-h'' then Inr None else Inl (UnknownArgument a))"

definition pb_try_from :: "pb_config \<Rightarrow> pb_config cli" where
  "pb_try_from c =
     (if pb_events_total c = 0 then Inl (Broken ''events_total must be > 0'')
      else if pb_buffer_size c = 0 \<or> \<not> is_power_of_two (pb_buffer_size c)
      then Inl (Broken (''buffer size must be a non-zero power of two, got '' @ show_nat (pb_buffer_size c)))
      else if pb_measured_rounds c = 0 then Inl (Broken ''measured_rounds must be > 0'')
      else Inr c)"

section \<open>Handlers\<close>

text \<open>The passing handlers of the first and the second stage; their state is the ready counter.\<close>

definition ready_on_start :: "nat callback" where
  "ready_on_start n = (Some (Ok ()), n + 1)"

definition stage1_pass_on_event ::
    "comparison_event \<Rightarrow> i64 \<Rightarrow> bool \<Rightarrow> nat \<Rightarrow> unit result option \<times> comparison_event \<times> nat" where
  "stage1_pass_on_event e sequence end_of_batch h = (Some (Ok ()), snd (apply_stage1 e), h)"

definition stage2_pass_on_event ::
    "comparison_event \<Rightarrow> i64 \<Rightarrow> bool \<Rightarrow> nat \<Rightarrow> unit result option \<times> comparison_event \<times> nat" where
  "stage2_pass_on_event e sequence end_of_batch h = (Some (Ok ()), snd (apply_stage2 e), h)"

definition stage1_pass_handler :: "(comparison_event, nat) lifecycle_handler" where
  "stage1_pass_handler = (default_methods stage1_pass_on_event)\<lparr>on_start := ready_on_start\<rparr>"

definition stage2_pass_handler :: "(comparison_event, nat) lifecycle_handler" where
  "stage2_pass_handler = (default_methods stage2_pass_on_event)\<lparr>on_start := ready_on_start\<rparr>"

text \<open>The last handler: two shared cells, the ready counter, and what the current batch has collected.\<close>

record final_handler =
  fh_processed :: nat
  fh_checksum :: i64
  fh_ready :: nat
  fh_pending_processed :: nat
  fh_pending_checksum :: i64

definition final_handler_new :: final_handler where
  "final_handler_new = \<lparr>fh_processed = 0, fh_checksum = 0, fh_ready = 0, fh_pending_processed = 0, fh_pending_checksum = 0\<rparr>"

text \<open>The two \<open>fetch_add\<close>s of \<open>flush\<close>.\<close>

definition flush_processed :: "final_handler \<Rightarrow> final_handler" where
  "flush_processed h = h\<lparr>fh_processed := fh_processed h + fh_pending_processed h\<rparr>"

definition flush_checksum :: "final_handler \<Rightarrow> final_handler" where
  "flush_checksum h = h\<lparr>fh_checksum := add_i64 (fh_checksum h) (fh_pending_checksum h)\<rparr>"

definition flush :: "final_handler \<Rightarrow> final_handler" where
  "flush h =
     (if fh_pending_processed h = 0 then h
      else (flush_checksum (flush_processed h))\<lparr>fh_pending_processed := 0, fh_pending_checksum := 0\<rparr>)"

text \<open>What the handler notes of an event that has reached the third stage.\<close>

definition note_event :: "comparison_event \<Rightarrow> final_handler \<Rightarrow> comparison_event \<times> final_handler" where
  "note_event e h =
     (let (v, e') = apply_stage3 e in
      (e', h\<lparr>fh_pending_checksum := add_i64 (fh_pending_checksum h) v, fh_pending_processed := fh_pending_processed h + 1\<rparr>))"

type_synonym final_on_event =
  "comparison_event \<Rightarrow> i64 \<Rightarrow> bool \<Rightarrow> final_handler \<Rightarrow> unit result option \<times> comparison_event \<times> final_handler"

definition stage3_on_event :: final_on_event where
  "stage3_on_event e sequence end_of_batch h =
     (let (e', h') = note_event e h in (Some (Ok ()), e', if end_of_batch then flush h' else h'))"

definition stage23_on_event :: final_on_event where
  "stage23_on_event e sequence end_of_batch h =
     (let e2 = snd (apply_stage2 e); (e', h') = note_event e2 h in (Some (Ok ()), e', if end_of_batch then flush h' else h'))"

definition stage123_on_event :: final_on_event where
  "stage123_on_event e sequence end_of_batch h =
     (let e1 = snd (apply_stage1 e); e2 = snd (apply_stage2 e1); (e', h') = note_event e2 h
      in (Some (Ok ()), e', if end_of_batch then flush h' else h'))"

fun final_on_event_of :: "pb_phase \<Rightarrow> final_on_event" where
  "final_on_event_of PhSingle = stage123_on_event"
| "final_on_event_of PhTwo = stage23_on_event"
| "final_on_event_of PhThree = stage3_on_event"

definition final_on_start :: "final_handler callback" where
  "final_on_start h = (Some (Ok ()), h\<lparr>fh_ready := fh_ready h + 1\<rparr>)"

definition final_on_shutdown :: "final_handler callback" where
  "final_on_shutdown h = (Some (Ok ()), flush h)"

definition final_event_handler :: "pb_phase \<Rightarrow> (comparison_event, final_handler) lifecycle_handler" where
  "final_event_handler ph =
     (default_methods (final_on_event_of ph))\<lparr>on_start := final_on_start, on_shutdown := final_on_shutdown\<rparr>"

section \<open>Checksums and rates\<close>

definition pb_arithmetic_checksum :: "nat \<Rightarrow> i64" where
  "pb_arithmetic_checksum n = wrap_i64 (int (sat_mul_u128 n (n - 1) div 2))"

text \<open>The offset is the same for the three phases.\<close>

definition pb_pipeline_checksum :: "nat \<Rightarrow> pb_phase \<Rightarrow> i64" where
  "pb_pipeline_checksum n ph =
     (let base = pb_arithmetic_checksum n; offset = (case ph of PhSingle \<Rightarrow> 11 | PhTwo \<Rightarrow> 11 | PhThree \<Rightarrow> 11)
      in add_i64 base (wrap_i64 (wrap_i64 (int n) * offset)))"

definition ops_per_sec :: "nat \<Rightarrow> nat \<Rightarrow> f64" where
  "ops_per_sec events_total elapsed_ns =
     (if elapsed_ns = 0 then 0 else div_f64 (as_f64 events_total) (div_f64 (as_f64 elapsed_ns) 1000000000))"

section \<open>Rounds and phases\<close>

record round_record =
  rr_round_index :: nat
  rr_measured :: bool
  rr_elapsed_ns :: nat
  rr_ops_per_sec :: f64
  rr_events_expected :: nat
  rr_events_processed :: nat
  rr_checksum_expected :: i64
  rr_checksum_observed :: i64
  rr_valid :: bool

record pb_env =
  pe_ready :: "nat \<Rightarrow> nat"
  pe_cells :: "nat \<Rightarrow> nat \<times> i64"
  pe_clock :: "nat \<Rightarrow> nat"

definition wait_for_counter ::
    "nat \<Rightarrow> (nat \<Rightarrow> nat) \<Rightarrow> (nat \<Rightarrow> nat) \<Rightarrow> nat \<Rightarrow> string \<Rightarrow> nat \<Rightarrow> nat \<Rightarrow> (string + nat) option" where
  "wait_for_counter fuel counter clock expected label timeout_secs t =
     (case wait_count fuel counter clock expected (timeout_secs * 1000000000) t of
        None \<Rightarrow> None
      | Some (False, t1) \<Rightarrow> Some (Inl (''timed out waiting for '' @ label @ '': expected >= '' @ show_nat expected @
          '', got '' @ show_nat (counter t1)))
      | Some (True, t1) \<Rightarrow> Some (Inr t1))"

text \<open>
  One round: the stages report ready, the values are published (the results of \<open>publish\<close> are thrown away),
  the count is awaited and the cells are read, each read at its own tick.
\<close>

definition pb_round :: "nat \<Rightarrow> pb_env \<Rightarrow> pb_config \<Rightarrow> pb_phase \<Rightarrow> nat \<Rightarrow> (string + round_record) option" where
  "pb_round fuel env cfg ph i =
     (case wait_for_counter fuel (pe_ready env) (pe_clock env) (stage_count ph) ''pipeline stages ready'' (pb_timeout_secs cfg) 0 of
        None \<Rightarrow> None
      | Some (Inl e) \<Rightarrow> Some (Inl e)
      | Some (Inr t) \<Rightarrow>
          (case wait_for_counter fuel (fst \<circ> pe_cells env) (pe_clock env) (pb_events_total cfg) ''pipeline completion''
                  (pb_timeout_secs cfg) (Suc t) of
             None \<Rightarrow> None
           | Some (Inl e) \<Rightarrow> Some (Inl e)
           | Some (Inr u) \<Rightarrow>
               let elapsed = pe_clock env u - pe_clock env t; expected = pb_pipeline_checksum (pb_events_total cfg) ph in
               Some (Inr
                 \<lparr>rr_round_index = i + 1, rr_measured = (pb_warmup_rounds cfg \<le> i), rr_elapsed_ns = elapsed,
                  rr_ops_per_sec = ops_per_sec (pb_events_total cfg) elapsed, rr_events_expected = pb_events_total cfg,
                  rr_events_processed = fst (pe_cells env (u + 1)), rr_checksum_expected = expected,
                  rr_checksum_observed = snd (pe_cells env (u + 2)),
                  rr_valid = (fst (pe_cells env (u + 3)) = pb_events_total cfg \<and> snd (pe_cells env (u + 4)) = expected)\<rparr>)))"

fun pb_rounds ::
    "nat \<Rightarrow> (nat \<Rightarrow> pb_env) \<Rightarrow> pb_config \<Rightarrow> pb_phase \<Rightarrow> nat \<Rightarrow> nat \<Rightarrow> (string + round_record list) option" where
  "pb_rounds fuel env cfg ph i 0 = Some (Inr [])"
| "pb_rounds fuel env cfg ph i (Suc n) =
     (case pb_round fuel (env i) cfg ph i of
        None \<Rightarrow> None
      | Some (Inl e) \<Rightarrow> Some (Inl e)
      | Some (Inr r) \<Rightarrow>
          (case pb_rounds fuel env cfg ph (Suc i) n of
             None \<Rightarrow> None
           | Some (Inl e) \<Rightarrow> Some (Inl e)
           | Some (Inr rs) \<Rightarrow> Some (Inr (r # rs))))"

definition summarize_runs :: "round_record list \<Rightarrow> summary" where
  "summarize_runs runs =
     (let measured = map rr_ops_per_sec (filter rr_measured runs); valid = list_all rr_valid runs in
      if measured = []
      then \<lparr>sm_checksum_valid_all = valid, sm_median = 0, sm_mean = 0, sm_min = 0, sm_max = 0, sm_stddev = 0, sm_cv = 0\<rparr>
      else
        let ordered = sort measured; n = length measured;
            mean = div_f64 (sum_f64 measured) (as_f64 n);
            variance = div_f64 (sum_f64 (map (\<lambda>x. let d = sub_f64 x mean in mul_f64 d d) measured)) (as_f64 n);
            stddev = sqrt_f64 variance
        in \<lparr>sm_checksum_valid_all = valid, sm_median = median_f64 ordered, sm_mean = mean, sm_min = ordered ! 0,
            sm_max = ordered ! (n - 1), sm_stddev = stddev, sm_cv = (if mean = 0 then 0 else div_f64 stddev mean)\<rparr>)"

record phase_result =
  pr_phase :: pb_phase
  pr_stage_count :: nat
  pr_runs :: "round_record list"
  pr_summary :: summary

definition pb_run_phase :: "nat \<Rightarrow> (nat \<Rightarrow> pb_env) \<Rightarrow> pb_config \<Rightarrow> pb_phase \<Rightarrow> (string + phase_result) option" where
  "pb_run_phase fuel env cfg ph =
     map_option (map_sum id (\<lambda>runs. \<lparr>pr_phase = ph, pr_stage_count = stage_count ph, pr_runs = runs, pr_summary = summarize_runs runs\<rparr>))
       (pb_rounds fuel env cfg ph 0 (pb_warmup_rounds cfg + pb_measured_rounds cfg))"

fun pb_run_phases ::
    "nat \<Rightarrow> (pb_phase \<Rightarrow> nat \<Rightarrow> pb_env) \<Rightarrow> pb_config \<Rightarrow> pb_phase list \<Rightarrow> (string + phase_result list) option" where
  "pb_run_phases fuel env cfg [] = Some (Inr [])"
| "pb_run_phases fuel env cfg (p # ps) =
     (case pb_run_phase fuel (env p) cfg p of
        None \<Rightarrow> None
      | Some (Inl e) \<Rightarrow> Some (Inl e)
      | Some (Inr r) \<Rightarrow>
          (case pb_run_phases fuel env cfg ps of
             None \<Rightarrow> None
           | Some (Inl e) \<Rightarrow> Some (Inl e)
           | Some (Inr rs) \<Rightarrow> Some (Inr (r # rs))))"

definition phase_delta_ns :: "phase_result list \<Rightarrow> pb_phase \<Rightarrow> pb_phase \<Rightarrow> f64 option" where
  "phase_delta_ns phases lower upper =
     (case (find (\<lambda>p. pr_phase p = lower) phases, find (\<lambda>p. pr_phase p = upper) phases) of
        (Some l, Some u) \<Rightarrow>
          if sm_median (pr_summary l) = 0 \<or> sm_median (pr_summary u) = 0 then None
          else Some (sub_f64 (div_f64 1000000000 (sm_median (pr_summary u))) (div_f64 1000000000 (sm_median (pr_summary l))))
      | _ \<Rightarrow> None)"

record pb_result =
  br_config :: pb_config
  br_event_size_bytes :: nat
  br_phases :: "phase_result list"
  br_single_to_two :: "f64 option"
  br_two_to_three :: "f64 option"

definition pb_run :: "nat \<Rightarrow> (pb_phase \<Rightarrow> nat \<Rightarrow> pb_env) \<Rightarrow> pb_config \<Rightarrow> (string + pb_result) option" where
  "pb_run fuel env cfg =
     map_option (map_sum id (\<lambda>phases.
       \<lparr>br_config = cfg, br_event_size_bytes = event_padding_size (pb_padding cfg), br_phases = phases,
        br_single_to_two = phase_delta_ns phases PhSingle PhTwo, br_two_to_three = phase_delta_ns phases PhTwo PhThree\<rparr>))
       (pb_run_phases fuel env cfg (pb_phases (pb_mode_of cfg)))"

text \<open>The exit code, and the result when it was printed; \<open>write_output\<close> tells whether a path can be written.\<close>

definition pb_main ::
    "nat \<Rightarrow> (pb_phase \<Rightarrow> nat \<Rightarrow> pb_env) \<Rightarrow> (string \<Rightarrow> bool) \<Rightarrow> string list \<Rightarrow> (nat \<times> pb_result option) option" where
  "pb_main fuel env write_output args =
     (case bind_cli (pb_from_args pb_cli_init args)
             (\<lambda>r. case r of None \<Rightarrow> Inr None | Some c \<Rightarrow> bind_cli (pb_try_from c) (\<lambda>c'. Inr (Some c'))) of
        Inl e \<Rightarrow> Some (1, None)
      | Inr None \<Rightarrow> Some (0, None)
      | Inr (Some cfg) \<Rightarrow>
          (case pb_run fuel env cfg of
             None \<Rightarrow> None
           | Some (Inl e) \<Rightarrow> Some (1, None)
           | Some (Inr result) \<Rightarrow>
               if (case pb_output cfg of None \<Rightarrow> False | Some path \<Rightarrow> \<not> write_output path) then Some (1, None)
               else Some (if list_ex (\<lambda>p. \<not> sm_checksum_valid_all (pr_summary p)) (br_phases result) then 1 else 0, Some result)))"

section \<open>What the last handler has collected\<close>

text \<open>The value the last handler adds for an event as it arrives there.\<close>

fun final_value :: "pb_phase \<Rightarrow> comparison_event \<Rightarrow> i64" where
  "final_value PhSingle e = add_i64 (add_i64 (add_i64 (ev_value e) 1) 3) 7"
| "final_value PhTwo e = add_i64 (add_i64 (stage1_value e) 3) 7"
| "final_value PhThree e = add_i64 (stage2_value e) 7"

definition noted :: "pb_phase \<Rightarrow> comparison_event \<Rightarrow> final_handler \<Rightarrow> final_handler" where
  "noted ph e h =
     h\<lparr>fh_pending_checksum := add_i64 (fh_pending_checksum h) (final_value ph e), fh_pending_processed := fh_pending_processed h + 1\<rparr>"

lemma final_call: "snd (snd (final_on_event_of ph e s b h)) = (if b then flush (noted ph e h) else noted ph e h)"
  by (cases ph) (simp_all add: stage123_on_event_def stage23_on_event_def stage3_on_event_def note_event_def noted_def
      apply_stage1_def apply_stage2_def apply_stage3_def Let_def)

definition final_inv :: "pb_phase \<Rightarrow> (comparison_event \<times> i64 \<times> bool \<times> bar_world) list \<Rightarrow> final_handler \<Rightarrow> bool" where
  "final_inv ph calls h \<longleftrightarrow> fh_processed h + fh_pending_processed h = length calls \<and> in_i64 (fh_checksum h) \<and>
     (fh_pending_processed h = 0 \<longrightarrow> fh_pending_checksum h = 0) \<and>
     (word_of_int (fh_checksum h) + word_of_int (fh_pending_checksum h) :: u64) =
       word_of_int (sum_list (map (final_value ph \<circ> fst) calls))"

lemma final_inv_new [simp]: "final_inv ph [] final_handler_new" "final_inv ph calls (h\<lparr>fh_ready := n\<rparr>) = final_inv ph calls h"
  by (simp_all add: final_inv_def final_handler_new_def in_i64_def)

lemma flush_inv:
  assumes "final_inv ph calls h"
  shows "final_inv ph calls (flush h)" and "fh_pending_processed (flush h) = 0"
proof -
  have "in_i64 (add_i64 a b)" for a b by (simp add: add_i64_def)
  with assms show "final_inv ph calls (flush h)"
    by (auto simp: final_inv_def flush_def flush_processed_def flush_checksum_def word_of_add_i64)
qed (simp add: flush_def)

lemma noted_inv: "final_inv ph calls h \<Longrightarrow> final_inv ph (calls @ [(e, s, b, w)]) (noted ph e h)"
  by (auto simp: final_inv_def noted_def word_of_add_i64 algebra_simps)

lemma feed_inv:
  assumes "on_event H = final_on_event_of ph" and "final_inv ph [] h"
  shows "final_inv ph calls (feed H calls h)"
proof (induction calls rule: rev_induct)
  case (snoc x calls)
  obtain e s b w where x: "x = (e, s, b, w)" by (cases x)
  have "final_inv ph (calls @ [x]) (noted ph e (feed H calls h))" unfolding x by (rule noted_inv [OF snoc])
  with flush_inv(1) [OF this] show ?case by (cases b) (simp_all add: x assms(1) final_call)
qed (use assms in simp)

section \<open>The totals of a delivery\<close>

text \<open>An event as the publishing closure and the passing stages leave it.\<close>

fun arriving :: "pb_phase \<Rightarrow> comparison_event \<Rightarrow> i64 \<Rightarrow> comparison_event" where
  "arriving PhSingle e0 v = populate_input v e0"
| "arriving PhTwo e0 v = snd (apply_stage1 (populate_input v e0))"
| "arriving PhThree e0 v = snd (apply_stage2 (snd (apply_stage1 (populate_input v e0))))"

definition delivered :: "pb_phase \<Rightarrow> nat \<Rightarrow> (comparison_event \<times> i64 \<times> bool \<times> bar_world) list \<Rightarrow> bool" where
  "delivered ph n calls \<longleftrightarrow> list_all2 (\<lambda>x v. \<exists>e0. fst x = arriving ph e0 (int v)) calls [0..<n]"

lemma value_arriving: "(word_of_int (final_value ph (arriving ph e0 v)) :: u64) = word_of_int (v + 11)"
  by (cases ph) (simp_all add: populate_input_def apply_stage1_def apply_stage2_def word_of_add_i64 add.assoc Let_def flip: wi_hom_add)

lemma sum_delivered:
  assumes "list_all2 (\<lambda>x v. \<exists>e0. fst x = arriving ph e0 (int v)) calls vs"
  shows "(word_of_int (sum_list (map (final_value ph \<circ> fst) calls)) :: u64) = word_of_int (sum_list (map (\<lambda>v. int v + 11) vs))"
  using assms
proof (induction rule: list_all2_induct)
  case (Cons x xs v vs)
  then obtain e0 where "fst x = arriving ph e0 (int v)" by blast
  with Cons.IH value_arriving [of ph e0 "int v"] show ?case by simp
qed simp

lemma pb_checksum_sum:
  assumes "n \<le> u64_max"
  shows "pb_pipeline_checksum n ph = sint (word_of_int (sum_list (map (\<lambda>v. int v + 11) [0..<n])) :: u64)"
proof -
  have "n * (n - 1) \<le> u64_max * u64_max" using assms by (intro mult_le_mono) simp_all
  then have "sat_mul_u128 n (n - 1) = n * (n - 1)" by (simp add: sat_mul_u128_def)
  moreover have "int (n * (n - 1) div 2) = int n * (int n - 1) div 2" by (cases n) (simp_all add: zdiv_int algebra_simps)
  ultimately have "pb_arithmetic_checksum n = wrap_i64 (sum_list (map int [0..<n]))"
    by (simp add: pb_arithmetic_checksum_def sum_int_upt)
  then have "(word_of_int (pb_pipeline_checksum n ph) :: u64) = word_of_int (sum_list (map int [0..<n])) + word_of_int (int n * 11)"
    by (cases ph) (simp_all add: pb_pipeline_checksum_def word_of_add_i64 word_of_wrap Let_def)
  also have "\<dots> = word_of_int (sum_list (map (\<lambda>v. int v + 11) [0..<n]))"
  proof -
    have "sum_list (map (\<lambda>v. int v + 11) [0..<n]) = sum_list (map int [0..<n]) + int n * 11" by (induction n) simp_all
    then show ?thesis by (simp only: wi_hom_add)
  qed
  finally have w: "(word_of_int (pb_pipeline_checksum n ph) :: u64) = word_of_int (sum_list (map (\<lambda>v. int v + 11) [0..<n]))" .
  have "in_i64 (pb_pipeline_checksum n ph)" by (simp add: pb_pipeline_checksum_def add_i64_def Let_def)
  then have "pb_pipeline_checksum n ph = sint (word_of_int (pb_pipeline_checksum n ph) :: u64)"
    by (simp add: sint_word_of_int wrap_i64_id)
  then show ?thesis by (simp only: w)
qed

lemma settled_totals:
  assumes "final_inv ph calls h" and "fh_pending_processed h = 0" and "delivered ph n calls" and "n \<le> u64_max"
  shows "fh_processed h = n" and "fh_checksum h = pb_pipeline_checksum n ph"
proof -
  show "fh_processed h = n" using assms(1-3) by (simp add: final_inv_def delivered_def list_all2_lengthD)
  have "(word_of_int (fh_checksum h) :: u64) = word_of_int (sum_list (map (\<lambda>v. int v + 11) [0..<n]))"
    using assms(1-3) sum_delivered [of ph calls "[0..<n]"] by (auto simp: final_inv_def delivered_def)
  moreover have "fh_checksum h = sint (word_of_int (fh_checksum h) :: u64)"
    using assms(1) by (simp add: final_inv_def sint_word_of_int wrap_i64_id)
  ultimately show "fh_checksum h = pb_pipeline_checksum n ph" by (simp add: pb_checksum_sum [OF assms(4)])
qed

lemma final_methods [simp]:
  "on_event (final_event_handler ph) = final_on_event_of ph" "on_start (final_event_handler ph) = final_on_start"
  "on_shutdown (final_event_handler ph) = final_on_shutdown"
  "inert_batch_start (batch_handler (final_event_handler ph))" "on_event (batch_handler (final_event_handler ph)) = final_on_event_of ph"
  by (simp_all add: final_event_handler_def default_methods_def inert_batch_start_def event_handler.defs)

text \<open>
  The totals of a breakdown phase are exact. The library runs the last handler of a phase on a consumer
  thread; if the thread has been handed the published values \<open>0\<close> to \<open>N - 1\<close> in order, each as the passing
  stages left it, then when the thread has ended the two cells hold the count \<open>N\<close> and the expected checksum,
  in all three phases, however the values were divided into batches and although the sum wraps around.
\<close>

theorem breakdown_totals:
  assumes "co_handler c = final_handler_new" and "co_trace c = []" and "n \<le> u64_max"
    and "mutable_body pk fuel env (final_event_handler ph) own thread stage Sequential c = Some (LoopReturned, c')"
    and "delivered ph n (co_trace c')"
  shows "fh_processed (co_handler c') = n \<and> fh_checksum (co_handler c') = pb_pipeline_checksum n ph \<and>
    fh_pending_processed (co_handler c') = 0"
proof -
  let ?H = "final_event_handler ph"
  define h0 where "h0 = final_handler_new\<lparr>fh_ready := 1\<rparr>"
  have "on_start ?H (co_handler c) = (Some (Inr ()), h0)"
    by (simp add: h0_def assms(1) final_on_start_def) (simp add: final_handler_new_def)
  from mutable_body_handler [OF final_methods(4) assms(2) this assms(4)]
  have c': "co_handler c' = flush (feed (batch_handler ?H) (co_trace c') h0)" by (simp add: final_on_shutdown_def)
  have inv: "final_inv ph (co_trace c') (feed (batch_handler ?H) (co_trace c') h0)"
    by (rule feed_inv) (simp_all add: h0_def)
  note flushed = flush_inv [OF inv, folded c']
  from settled_totals [OF flushed assms(5,3)] flushed(2) show ?thesis by simp
qed

definition example_pb_consumer :: "(comparison_event, final_handler) consumer" where
  "example_pb_consumer =
     \<lparr>co_world = example_world,
      co_ring = \<lparr>storage = Inline (replicate 4 (arriving PhThree (published_event 0) 0)), index_mask = 3\<rparr>,
      co_handler = final_handler_new, co_trace = []\<rparr>"

theorem breakdown_totals_witness:
  "\<exists>c'. mutable_body (\<lambda>_. None, \<lambda>_ _. (0, True)) 9 example_h2h_env (final_event_handler PhThree) 5 ''c'' 0 Sequential
      example_pb_consumer = Some (LoopReturned, c') \<and> fh_processed (co_handler c') = 1 \<and> fh_checksum (co_handler c') = 11"
proof -
  let ?c = example_pb_consumer and ?e = "arriving PhThree (published_event 0) 0"
  let ?run = "mutable_body (\<lambda>_. None, \<lambda>_ _. (0, True)) 9 example_h2h_env (final_event_handler PhThree) 5 ''c'' 0 Sequential ?c"
  have "map_option (\<lambda>(r, c). (r, map fst (co_trace c) = [?e])) ?run = Some (LoopReturned, True)" by code_simp
  then obtain c' where run: "?run = Some (LoopReturned, c')" "map fst (co_trace c') = [?e]" by auto
  have start: "co_handler ?c = final_handler_new" "co_trace ?c = []" by (simp_all add: example_pb_consumer_def)
  have "delivered PhThree 1 (co_trace c')"
    using run(2) by (auto simp: delivered_def map_eq_Cons_conv simp del: arriving.simps)
  from breakdown_totals [OF start _ run(1) this] run(1) have "fh_processed (co_handler c') = 1"
    "fh_checksum (co_handler c') = pb_pipeline_checksum 1 PhThree" by simp_all
  moreover have "pb_pipeline_checksum 1 PhThree = 11"
    by (simp add: pb_pipeline_checksum_def pb_arithmetic_checksum_def sat_mul_u128_def add_i64_def wrap_i64_def)
  ultimately show ?thesis using run(1) by simp
qed

section \<open>What the main thread can see\<close>

text \<open>
  The values the two cells take one after the other while the calls are made: nothing between the ends of
  batches, and two steps at each of them.
\<close>

definition cells_of :: "final_handler \<Rightarrow> nat \<times> i64" where
  "cells_of h = (fh_processed h, fh_checksum h)"

definition call_cells :: "pb_phase \<Rightarrow> comparison_event \<times> i64 \<times> bool \<times> bar_world \<Rightarrow> final_handler \<Rightarrow> (nat \<times> i64) list" where
  "call_cells ph = (\<lambda>(e, s, b, w) h.
     if b then [cells_of (flush_processed (noted ph e h)), cells_of (flush_checksum (flush_processed (noted ph e h)))] else [])"

fun cell_history :: "pb_phase \<Rightarrow> (comparison_event \<times> i64 \<times> bool \<times> bar_world) list \<Rightarrow> final_handler \<Rightarrow> (nat \<times> i64) list" where
  "cell_history ph [] h = [cells_of h]"
| "cell_history ph (x # xs) h = cells_of h # call_cells ph x h @ tl (cell_history ph xs (feed (final_event_handler ph) [x] h))"

text \<open>The main thread sees the history pass by: at each tick one of its values, never going back.\<close>

definition sees :: "(nat \<times> i64) list \<Rightarrow> (nat \<Rightarrow> nat \<times> i64) \<Rightarrow> bool" where
  "sees history cells \<longleftrightarrow> (\<exists>idx. mono idx \<and> (\<forall>t. idx t < length history \<and> cells t = history ! idx t))"

lemma call_cells_end:
  "cells_of (feed (final_event_handler ph) [x] h) = last (cells_of h # call_cells ph x h)"
  by (cases x) (auto simp: call_cells_def final_call cells_of_def flush_def flush_processed_def flush_checksum_def noted_def)

lemma cell_history_ends: "cell_history ph xs h \<noteq> [] \<and> last (cell_history ph xs h) = cells_of (feed (final_event_handler ph) xs h)"
proof (induction xs arbitrary: h)
  case (Cons x xs)
  let ?h = "feed (final_event_handler ph) [x] h"
  have "cell_history ph xs ?h = cells_of ?h # tl (cell_history ph xs ?h)" by (cases xs) simp_all
  moreover from Cons.IH [of ?h] have "last (cell_history ph xs ?h) = cells_of (feed (final_event_handler ph) xs ?h)" by blast
  moreover have "feed (final_event_handler ph) (x # xs) h = feed (final_event_handler ph) xs ?h" by (cases x) simp
  ultimately show ?case using call_cells_end [of ph x h] by (cases "tl (cell_history ph xs ?h)") (auto simp: last_append)
qed simp

lemma cell_history_snoc:
  "cell_history ph (xs @ [x]) h = cell_history ph xs h @ call_cells ph x (feed (final_event_handler ph) xs h)"
proof (induction xs arbitrary: h)
  case (Cons y xs)
  let ?h = "feed (final_event_handler ph) [y] h"
  have "cell_history ph xs ?h \<noteq> []" using cell_history_ends by blast
  moreover have "feed (final_event_handler ph) (y # xs) h = feed (final_event_handler ph) xs ?h" by (cases y) simp
  ultimately show ?case using Cons.IH [of ?h] by simp
qed simp

section \<open>The verdict depends on when the cells are read\<close>

definition view_at :: "(nat \<times> i64) list \<Rightarrow> nat \<Rightarrow> pb_env" where
  "view_at history k = \<lparr>pe_ready = \<lambda>_. 3, pe_cells = \<lambda>t. history ! (if t < 4 then 0 else k), pe_clock = \<lambda>t. t\<rparr>"

lemma view_at_sees: "k < length history \<Longrightarrow> sees history (pe_cells (view_at history k))"
  unfolding sees_def by (rule exI [of _ "\<lambda>t. if t < 4 then 0 else k"]) (auto simp: view_at_def mono_def)

lemma view_at_round:
  assumes "fst (history ! k) = pb_events_total cfg"
  shows "\<exists>r. pb_round 9 (view_at history k) cfg ph i = Some (Inr r) \<and> rr_events_processed r = pb_events_total cfg \<and>
    rr_checksum_observed r = snd (history ! k) \<and>
    (rr_valid r \<longleftrightarrow> snd (history ! k) = pb_pipeline_checksum (pb_events_total cfg) ph)"
proof -
  have "stage_count ph \<le> 3" by (cases ph) simp_all
  with assms show ?thesis
    by (simp add: pb_round_def wait_for_counter_def wait_count_def wait_body_def poll_numeral view_at_def comp_def Let_def)
qed

text \<open>Every event a batch of its own.\<close>

definition one_by_one :: "pb_phase \<Rightarrow> bar_world \<Rightarrow> nat \<Rightarrow> (comparison_event \<times> i64 \<times> bool \<times> bar_world) list" where
  "one_by_one ph w n = map (\<lambda>v. (arriving ph (published_event 0) (int v), int v, True, w)) [0..<n]"

lemma one_by_one_delivered: "delivered ph n (one_by_one ph w n)"
  by (auto simp: delivered_def one_by_one_def list_all2_map1 list.rel_refl_strong intro!: list.rel_refl_strong)

lemma one_by_one_settled:
  assumes "n \<le> u64_max" and "h = feed (final_event_handler ph) (one_by_one ph w n) final_handler_new"
  shows "final_inv ph (one_by_one ph w n) h" and "fh_pending_processed h = 0" and "cells_of h = (n, pb_pipeline_checksum n ph)"
proof -
  show inv: "final_inv ph (one_by_one ph w n) h" unfolding assms(2) by (rule feed_inv) simp_all
  show none: "fh_pending_processed h = 0"
    unfolding assms(2) one_by_one_def by (cases n) (simp_all add: final_handler_new_def final_call flush_def)
  show "cells_of h = (n, pb_pipeline_checksum n ph)"
    using settled_totals [OF inv none one_by_one_delivered assms(1)] by (simp add: cells_of_def)
qed

lemma checksum_moves:
  assumes "int (Suc m) \<le> i64_max"
  shows "pb_pipeline_checksum m ph \<noteq> pb_pipeline_checksum (Suc m) ph"
proof
  assume eq: "pb_pipeline_checksum m ph = pb_pipeline_checksum (Suc m) ph"
  let ?S = "sum_list (map (\<lambda>v. int v + 11) [0..<m])"
  have "m \<le> u64_max" "Suc m \<le> u64_max" using assms by simp_all
  have "sum_list (map (\<lambda>v. int v + 11) [0..<Suc m]) = ?S + (int m + 11)" by simp
  with eq have "sint (word_of_int ?S :: u64) = sint (word_of_int (?S + (int m + 11)) :: u64)"
    by (simp only: pb_checksum_sum [OF \<open>m \<le> u64_max\<close>] pb_checksum_sum [OF \<open>Suc m \<le> u64_max\<close>])
  then have "(word_of_int ?S :: u64) = word_of_int (?S + (int m + 11))" by (rule signed_word_eqI)
  then have "(word_of_int (int m + 11) :: u64) = 0" by (simp only: wi_hom_add [symmetric]) simp
  then have "uint (word_of_int (int m + 11) :: u64) = 0" by (simp only: unsigned_0)
  then have "(int m + 11) mod 18446744073709551616 = 0" unfolding uint_word_of_int by simp
  moreover have "int m + 11 < 18446744073709551616" using assms by simp
  ultimately show False by simp
qed



section \<open>What an exit code of zero means\<close>

definition pb_ok :: "pb_config \<Rightarrow> bool" where
  "pb_ok c \<longleftrightarrow> 0 < pb_events_total c \<and> is_power_of_two (pb_buffer_size c) \<and> 0 < pb_measured_rounds c"

lemma pb_try_from_ok: "pb_try_from c = Inr c' \<Longrightarrow> c' = c \<and> pb_ok c"
  by (auto simp: pb_try_from_def pb_ok_def split: if_splits)

text \<open>
  Round \<open>i\<close> ended after the awaited count had been reached; it is valid when both cells were then read with
  the expected values.
\<close>

definition certified_run :: "pb_env \<Rightarrow> pb_config \<Rightarrow> pb_phase \<Rightarrow> nat \<Rightarrow> round_record \<Rightarrow> bool" where
  "certified_run env cfg ph i r \<longleftrightarrow> rr_round_index r = i + 1 \<and> rr_measured r = (pb_warmup_rounds cfg \<le> i) \<and>
     rr_checksum_expected r = pb_pipeline_checksum (pb_events_total cfg) ph \<and> round_f64 (rr_ops_per_sec r) = rr_ops_per_sec r \<and>
     (\<exists>t u v. t < u \<and> u < v \<and> pb_events_total cfg \<le> fst (pe_cells env t) \<and>
       (rr_valid r \<longleftrightarrow> fst (pe_cells env u) = pb_events_total cfg \<and> snd (pe_cells env v) = pb_pipeline_checksum (pb_events_total cfg) ph))"

lemma ops_per_sec_f64 [simp]: "round_f64 (ops_per_sec n ns) = ops_per_sec n ns"
  by (simp add: ops_per_sec_def div_f64_def) (simp add: round_f64_def)

lemma wait_for_counter_reached:
  assumes "wait_for_counter fuel counter clock expected label secs t = Some (Inr u)"
  shows "t < u \<and> expected \<le> counter (u - 1)"
  using assms wait_count_sound [of fuel counter clock expected "secs * 1000000000" t]
  by (auto simp: wait_for_counter_def split: option.splits prod.splits bool.splits)

lemma pb_round_certified:
  assumes "pb_round fuel env cfg ph i = Some (Inr r)"
  shows "certified_run env cfg ph i r"
proof -
  from assms obtain t u where u: "wait_for_counter fuel (fst \<circ> pe_cells env) (pe_clock env) (pb_events_total cfg) ''pipeline completion''
      (pb_timeout_secs cfg) (Suc t) = Some (Inr u)"
    and r: "rr_round_index r = i + 1" "rr_measured r = (pb_warmup_rounds cfg \<le> i)"
      "rr_checksum_expected r = pb_pipeline_checksum (pb_events_total cfg) ph" "round_f64 (rr_ops_per_sec r) = rr_ops_per_sec r"
      "rr_valid r \<longleftrightarrow> fst (pe_cells env (u + 3)) = pb_events_total cfg \<and> snd (pe_cells env (u + 4)) = pb_pipeline_checksum (pb_events_total cfg) ph"
    by (auto simp: pb_round_def Let_def split: option.splits sum.splits)
  have "u - 1 < u + 3" "u + 3 < u + 4" "pb_events_total cfg \<le> fst (pe_cells env (u - 1))"
    using wait_for_counter_reached [OF u] by simp_all
  with r show ?thesis unfolding certified_run_def by blast
qed

lemma pb_rounds_certified:
  assumes "pb_rounds fuel env cfg ph i n = Some (Inr rs)"
  shows "length rs = n \<and> (\<forall>j<n. certified_run (env (i + j)) cfg ph (i + j) (rs ! j))"
  using assms
proof (induction n arbitrary: i rs)
  case (Suc n)
  then obtain r rs' where r: "pb_round fuel (env i) cfg ph i = Some (Inr r)" "pb_rounds fuel env cfg ph (Suc i) n = Some (Inr rs')" "rs = r # rs'"
    by (auto split: option.splits sum.splits)
  have "certified_run (env (i + j)) cfg ph (i + j) (rs ! j)" if "j < Suc n" for j
    using Suc.IH [OF r(2)] pb_round_certified [OF r(1)] r(3) that by (cases j) auto
  then show ?case using Suc.IH [OF r(2)] r(3) by simp
qed simp

text \<open>A phase that is complete: all its rounds, in order, each certified, and its summary.\<close>

definition certified_phase :: "(pb_phase \<Rightarrow> nat \<Rightarrow> pb_env) \<Rightarrow> pb_config \<Rightarrow> phase_result \<Rightarrow> bool" where
  "certified_phase env cfg p \<longleftrightarrow> length (pr_runs p) = pb_warmup_rounds cfg + pb_measured_rounds cfg \<and>
     pr_stage_count p = stage_count (pr_phase p) \<and> pr_summary p = summarize_runs (pr_runs p) \<and>
     (\<forall>i<length (pr_runs p). certified_run (env (pr_phase p) i) cfg (pr_phase p) i (pr_runs p ! i))"

lemma mapped_Inr: "map_option (map_sum id f) x = Some (Inr y) \<longleftrightarrow> (\<exists>z. x = Some (Inr z) \<and> y = f z)"
proof (cases x)
  case (Some r)
  then show ?thesis by (cases r) auto
qed simp

lemma pb_run_phase_certified:
  assumes "pb_run_phase fuel (env ph) cfg ph = Some (Inr p)"
  shows "pr_phase p = ph \<and> certified_phase env cfg p"
proof -
  from assms obtain runs where runs: "pb_rounds fuel (env ph) cfg ph 0 (pb_warmup_rounds cfg + pb_measured_rounds cfg) = Some (Inr runs)"
    and p: "p = \<lparr>pr_phase = ph, pr_stage_count = stage_count ph, pr_runs = runs, pr_summary = summarize_runs runs\<rparr>"
    unfolding pb_run_phase_def mapped_Inr by auto
  from pb_rounds_certified [OF runs] show ?thesis by (simp add: p certified_phase_def)
qed

lemma pb_run_phases_certified:
  "pb_run_phases fuel env cfg phs = Some (Inr ps) \<Longrightarrow> map pr_phase ps = phs \<and> list_all (certified_phase env cfg) ps"
  by (induction phs arbitrary: ps) (auto dest: pb_run_phase_certified split: option.splits sum.splits)

lemma summarize_runs_order:
  assumes "filter rr_measured runs \<noteq> []" and "\<And>r. r \<in> set runs \<Longrightarrow> round_f64 (rr_ops_per_sec r) = rr_ops_per_sec r"
  shows "sm_min (summarize_runs runs) \<le> sm_median (summarize_runs runs)" "sm_median (summarize_runs runs) \<le> sm_max (summarize_runs runs)"
proof -
  define xs where "xs = map rr_ops_per_sec (filter rr_measured runs)"
  have ne: "xs \<noteq> []" using assms(1) by (simp add: xs_def)
  have repr: "round_f64 y = y" if "y \<in> set xs" for y using assms(2) that by (auto simp: xs_def)
  have "sm_median (summarize_runs runs) = median_f64 (sort xs)" "sm_min (summarize_runs runs) = sort xs ! 0"
    "sm_max (summarize_runs runs) = sort xs ! (length xs - 1)"
    using ne unfolding summarize_runs_def Let_def xs_def [symmetric] by simp_all
  with median_between [OF ne repr] show "sm_min (summarize_runs runs) \<le> sm_median (summarize_runs runs)"
    "sm_median (summarize_runs runs) \<le> sm_max (summarize_runs runs)" by auto
qed

text \<open>
  Exit code zero of the breakdown certifies every phase. If the program ends with exit code zero and a
  result, the configuration keeps the rules, the phases are those of the mode and in its order, every phase
  has all its rounds, and in every round both cells were read with the expected values after the count had
  been reached; the medians lie between the minimum and the maximum of the measured rates.
\<close>

theorem breakdown_exit_zero:
  assumes "pb_main fuel env write_output args = Some (0, Some result)"
  shows "\<exists>cfg. pb_from_args pb_cli_init args = Inr (Some cfg) \<and> pb_ok cfg \<and>
    map pr_phase (br_phases result) = pb_phases (pb_mode_of cfg) \<and>
    (\<forall>p\<in>set (br_phases result). certified_phase env cfg p \<and> list_all rr_valid (pr_runs p) \<and>
       sm_min (pr_summary p) \<le> sm_median (pr_summary p) \<and> sm_median (pr_summary p) \<le> sm_max (pr_summary p))"
proof -
  from assms obtain cfg where args: "pb_from_args pb_cli_init args = Inr (Some cfg)" and res: "pb_try_from cfg = Inr cfg"
    and run: "pb_run fuel env cfg = Some (Inr result)" and valid: "list_all (\<lambda>p. sm_checksum_valid_all (pr_summary p)) (br_phases result)"
    by (auto simp: pb_main_def list_ex_iff list_all_iff dest: pb_try_from_ok split: sum.splits option.splits if_splits)
  from run obtain ps where ps: "pb_run_phases fuel env cfg (pb_phases (pb_mode_of cfg)) = Some (Inr ps)" "br_phases result = ps"
    unfolding pb_run_def mapped_Inr by auto
  note ok = pb_try_from_ok [OF res]
  note cert = pb_run_phases_certified [OF ps(1)]
  have "list_all rr_valid (pr_runs p) \<and> sm_min (pr_summary p) \<le> sm_median (pr_summary p) \<and> sm_median (pr_summary p) \<le> sm_max (pr_summary p)"
    if "p \<in> set ps" for p
  proof -
    from cert that have p: "certified_phase env cfg p" by (auto simp: list_all_iff)
    let ?i = "pb_warmup_rounds cfg"
    have "?i < length (pr_runs p)" "rr_measured (pr_runs p ! ?i)" using p ok by (auto simp: certified_phase_def certified_run_def pb_ok_def)
    then have "filter rr_measured (pr_runs p) \<noteq> []" by (auto simp: filter_empty_conv intro: nth_mem)
    moreover have "round_f64 (rr_ops_per_sec r) = rr_ops_per_sec r" if "r \<in> set (pr_runs p)" for r
      using p that by (auto simp: certified_phase_def certified_run_def in_set_conv_nth)
    moreover have "sm_checksum_valid_all (summarize_runs (pr_runs p))" using valid that p by (auto simp: list_all_iff ps(2) certified_phase_def)
    then have "list_all rr_valid (pr_runs p)" by (auto simp: summarize_runs_def Let_def split: if_splits)
    ultimately show ?thesis using p summarize_runs_order by (auto simp: certified_phase_def)
  qed
  with args ok cert ps(2) show ?thesis by (auto simp: list_all_iff)
qed

definition example_pb_args :: "string list" where
  "example_pb_args = [''--mode'', ''single-stage'', ''--events-total'', ''1'', ''--warmup-rounds'', ''0'', ''--measured-rounds'', ''1'']"

theorem breakdown_exit_zero_witness:
  "\<exists>result. pb_main 9 (\<lambda>_ _. view_at [(0, 0), (1, 11)] 1) (\<lambda>_. True) example_pb_args = Some (0, Some result) \<and>
     map pr_phase (br_phases result) = [PhSingle]"
proof -
  let ?env = "view_at [(0, 0), (1, 11)] 1"
  define cfg where "cfg = pb_cli_init\<lparr>pb_mode_of := PbSingle, pb_events_total := 1, pb_warmup_rounds := 0, pb_measured_rounds := 1\<rparr>"
  have digits: "to_digit CHR ''0'' = Some 0" "to_digit CHR ''1'' = Some 1" by (simp_all add: to_digit_def)
  have args: "pb_from_args pb_cli_init example_pb_args = Inr (Some cfg)"
    by (simp add: example_pb_args_def pb_value_flag_def pb_mode_parse_def parse_number_def digits cfg_def pb_cli_init_def)
  have c: "pb_mode_of cfg = PbSingle" "pb_events_total cfg = 1" "pb_warmup_rounds cfg = 0" "pb_measured_rounds cfg = 1"
    "pb_output cfg = None" "pb_buffer_size cfg = 8192" by (simp_all add: cfg_def pb_cli_init_def)
  have "is_power_of_two 8192" using count_ones_pow2 [of 13] by (simp add: is_power_of_two_def)
  then have ok: "pb_try_from cfg = Inr cfg" by (simp add: pb_try_from_def c)
  have "pb_pipeline_checksum 1 PhSingle = 11"
    by (simp add: pb_pipeline_checksum_def pb_arithmetic_checksum_def sat_mul_u128_def add_i64_def wrap_i64_def)
  then obtain r where r: "pb_round 9 ?env cfg PhSingle 0 = Some (Inr r)" "rr_valid r"
    using view_at_round [of "[(0, 0), (1, 11)]" 1 cfg PhSingle 0] by (auto simp: c)
  define p where "p = \<lparr>pr_phase = PhSingle, pr_stage_count = 1, pr_runs = [r], pr_summary = summarize_runs [r]\<rparr>"
  have "pb_run_phases 9 (\<lambda>_ _. ?env) cfg [PhSingle] = Some (Inr [p])"
    using r(1) by (simp add: pb_run_phase_def p_def c)
  moreover have "sm_checksum_valid_all (pr_summary p)" using r(2) by (simp add: p_def summarize_runs_def Let_def)
  ultimately obtain result where main: "pb_main 9 (\<lambda>_ _. ?env) (\<lambda>_. True) example_pb_args = Some (0, Some result)"
    by (simp add: pb_main_def args ok pb_run_def c)
  with breakdown_exit_zero [OF main] show ?thesis by (auto simp: args c)
qed

end
