(* ===== verification/Direct_Consumer.thy ===== *)
theory Direct_Consumer
  imports Pipeline_Breakdown
begin

text \<open>
  The consumer thread of the unicast breakdown program (\<open>src/bin/unicast_breakdown.rs\<close>), which uses the
  library's ring, single-producer sequencer and barrier directly, and the runtime around it. The program
  has the same code four times, once for each layout of the event; here the code is written once, with the
  reading of the value and the texts of the errors as arguments, and instantiated four times.
\<close>

section \<open>Events and errors\<close>

record micro_event =
  me_value :: i64

datatype ub_error =
    RingFailed string disruptor_error
  | NextFailed string disruptor_error
  | WaitFailed string i64 disruptor_error
  | ThreadPanicked string
  | NotReady
  | NotProcessed nat nat

section \<open>The consumer loop\<close>

text \<open>
  The two cells, the consumer's own sequence and what the loop has read: for each sequence the value and
  the tick. The history of the two cells is kept too; checksum and count are added one after the other.
\<close>

record direct_state =
  dc_next :: i64
  dc_processed :: nat
  dc_checksum :: i64
  dc_sequence :: i64
  dc_read :: "(i64 \<times> i64 \<times> nat) list"
  dc_cells :: "(nat \<times> i64) list"

definition direct_init :: direct_state where
  "direct_init = \<lparr>dc_next = 0, dc_processed = 0, dc_checksum = 0, dc_sequence = - 1, dc_read = [], dc_cells = [(0, 0)]\<rparr>"

text \<open>\<open>while next_sequence <= available_sequence\<close>: the ring is read at successive ticks.\<close>

fun read_events :: "(nat \<Rightarrow> 'e ring_buffer) \<Rightarrow> ('e \<Rightarrow> i64) \<Rightarrow> nat \<Rightarrow> nat \<Rightarrow> i64 \<Rightarrow> (i64 \<times> i64 \<times> nat) list option" where
  "read_events ring val t 0 s = Some []"
| "read_events ring val t (Suc n) s =
     (case ring_get (ring t) s of
        None \<Rightarrow> None
      | Some e \<Rightarrow> map_option (Cons (s, val e, t)) (read_events ring val (Suc t) n (s + 1)))"

definition local_checksum :: "(i64 \<times> i64 \<times> nat) list \<Rightarrow> i64" where
  "local_checksum reads = fold (\<lambda>(s, v, t) acc. add_i64 acc v) reads 0"

definition add_checksum :: "i64 \<Rightarrow> direct_state \<Rightarrow> direct_state" where
  "add_checksum c d = (let d' = d\<lparr>dc_checksum := add_i64 (dc_checksum d) c\<rparr> in
     d'\<lparr>dc_cells := dc_cells d @ [(dc_processed d', dc_checksum d')]\<rparr>)"

definition add_processed :: "nat \<Rightarrow> direct_state \<Rightarrow> direct_state" where
  "add_processed n d = (let d' = d\<lparr>dc_processed := dc_processed d + n\<rparr> in
     d'\<lparr>dc_cells := dc_cells d @ [(dc_processed d', dc_checksum d')]\<rparr>)"

definition direct_batch ::
    "(nat \<Rightarrow> 'e ring_buffer) \<Rightarrow> ('e \<Rightarrow> i64) \<Rightarrow> nat \<Rightarrow> i64 \<Rightarrow> direct_state \<Rightarrow> direct_state option" where
  "direct_batch ring val t available d =
     map_option (\<lambda>reads.
       (add_processed (length reads) (add_checksum (local_checksum reads) d))
         \<lparr>dc_sequence := available, dc_next := available + 1, dc_read := dc_read d @ reads\<rparr>)
       (read_events ring val t (nat (available + 1 - dc_next d)) (dc_next d))"

text \<open>
  One round of \<open>loop\<close>. The result \<open>None\<close> is a wait that has not returned; a result without an inner value
  is a panic of the barrier or an access outside the ring.
\<close>

definition direct_body ::
    "parking \<Rightarrow> nat \<Rightarrow> bar_world traj \<Rightarrow> (nat \<Rightarrow> 'e ring_buffer) \<Rightarrow> ('e \<Rightarrow> i64) \<Rightarrow> string \<Rightarrow> nat \<times> direct_state \<Rightarrow>
     ((ub_error + unit) option \<times> direct_state) option + nat \<times> direct_state" where
  "direct_body pk fuel tr ring val who = (\<lambda>(t, d).
     case bar_wait_for_with_shutdown pk fuel tr t (dc_next d) of
       None \<Rightarrow> Inl None
     | Some (None, t1) \<Rightarrow> Inl (Some (None, d))
     | Some (Some (Inr available), t1) \<Rightarrow>
         if available < dc_next d then Inr (Suc t1, d)
         else (case direct_batch ring val t1 available d of
                 None \<Rightarrow> Inl (Some (None, d))
               | Some d' \<Rightarrow> Inr (t1 + length (dc_read d') + 1, d'))
     | Some (Some (Inl e), t1) \<Rightarrow>
         if bw_shutdown (tr (Suc t1)) then Inl (Some (Some (Inr ()), d))
         else if e = Alert then Inr (Suc (Suc t1), d)
         else Inl (Some (Some (Inl (WaitFailed who (dc_next d) e)), d)))"

definition direct_thread ::
    "parking \<Rightarrow> nat \<Rightarrow> bar_world traj \<Rightarrow> (nat \<Rightarrow> 'e ring_buffer) \<Rightarrow> ('e \<Rightarrow> i64) \<Rightarrow> string \<Rightarrow>
     ((ub_error + unit) option \<times> direct_state) option" where
  "direct_thread pk fuel tr ring val who =
     Option.bind (poll fuel (direct_body pk fuel tr ring val who) (0, direct_init)) (\<lambda>r. r)"

definition spawn_direct_consumer ::
    "parking \<Rightarrow> nat \<Rightarrow> bar_world traj \<Rightarrow> (nat \<Rightarrow> micro_event ring_buffer) \<Rightarrow> ((ub_error + unit) option \<times> direct_state) option" where
  "spawn_direct_consumer pk fuel tr ring = direct_thread pk fuel tr ring me_value ''consumer''"

definition spawn_direct_comparison_consumer ::
    "parking \<Rightarrow> nat \<Rightarrow> bar_world traj \<Rightarrow> (nat \<Rightarrow> comparison_event ring_buffer) \<Rightarrow> ((ub_error + unit) option \<times> direct_state) option" where
  "spawn_direct_comparison_consumer pk fuel tr ring = direct_thread pk fuel tr ring ev_value ''comparison consumer''"

definition spawn_direct_padded_comparison_consumer ::
    "parking \<Rightarrow> nat \<Rightarrow> bar_world traj \<Rightarrow> (nat \<Rightarrow> comparison_event ring_buffer) \<Rightarrow> ((ub_error + unit) option \<times> direct_state) option" where
  "spawn_direct_padded_comparison_consumer pk fuel tr ring = direct_thread pk fuel tr ring ev_value ''padded comparison consumer''"

definition spawn_direct_padded128_comparison_consumer ::
    "parking \<Rightarrow> nat \<Rightarrow> bar_world traj \<Rightarrow> (nat \<Rightarrow> comparison_event ring_buffer) \<Rightarrow> ((ub_error + unit) option \<times> direct_state) option" where
  "spawn_direct_padded128_comparison_consumer pk fuel tr ring = direct_thread pk fuel tr ring ev_value ''padded-128 comparison consumer''"

section \<open>The runtime\<close>

record 'e direct_runtime =
  dr_ring :: "'e ring_buffer"
  dr_world :: bar_world
  dr_consumer_sequence :: seq_ref

text \<open>
  The cursor is allocated at \<open>r\<close>, the consumer's sequence at \<open>own\<close>; \<open>rcu\<close> is the update of the gating list.
  \<open>None\<close> is the panic of a buffer size that does not fit an \<open>i64\<close>, which the ring refuses before.
\<close>

definition direct_runtime_new ::
    "((seq_ref list \<Rightarrow> seq_ref list) \<Rightarrow> seq_ref list \<Rightarrow> seq_ref list) \<Rightarrow> usize \<Rightarrow> wait_strategy \<Rightarrow> seq_ref \<Rightarrow> seq_ref \<Rightarrow>
     store \<Rightarrow> 'e \<Rightarrow> string \<Rightarrow> (ub_error + 'e direct_runtime) option" where
  "direct_runtime_new rcu buffer_size ws r own h d0 what =
     (case ring_new buffer_size (\<lambda>_. d0) of
        Inl e \<Rightarrow> Some (Inl (RingFailed what e))
      | Inr rb \<Rightarrow>
          map_option (\<lambda>s.
            let s1 = s\<lparr>sp_mem := seq_new_with_initial_value own (sp_mem s)\<rparr>; s2 = sp_add_gating_sequences rcu [own] s1;
                b = barrier_new (sp_get_cursor s2) ws [] (SingleSeq s2)
            in Inr \<lparr>dr_ring = rb,
                 dr_world = \<lparr>bw_bar = b, bw_shutdown = False, bw_running = True, bw_strategy_alerted = False, bw_clock = 0\<rparr>,
                 dr_consumer_sequence = own\<rparr>)
            (sp_new buffer_size ws r h))"

definition direct_consumer_runtime_new where
  "direct_consumer_runtime_new rcu buffer_size ws r own h =
     direct_runtime_new rcu buffer_size ws r own h \<lparr>me_value = 0\<rparr> ''ring buffer''"

definition direct_comparison_runtime_new where
  "direct_comparison_runtime_new rcu buffer_size ws r own h =
     direct_runtime_new rcu buffer_size ws r own h (published_event 0) ''comparison ring buffer''"

definition direct_padded_comparison_runtime_new where
  "direct_padded_comparison_runtime_new rcu buffer_size ws r own h =
     direct_runtime_new rcu buffer_size ws r own h (published_event 0) ''padded comparison ring buffer''"

definition direct_padded128_comparison_runtime_new where
  "direct_padded128_comparison_runtime_new rcu buffer_size ws r own h =
     direct_runtime_new rcu buffer_size ws r own h (published_event 0) ''padded-128 comparison ring buffer''"

text \<open>
  The thread is told to stop and joined: \<open>None\<close> is a thread that panicked. Then the consumer leaves the
  gating list; the answer of the removal is thrown away.
\<close>

definition runtime_stop :: "bar_world \<Rightarrow> bar_world" where
  "runtime_stop w = w\<lparr>bw_shutdown := True, bw_bar := alert (bw_bar w)\<rparr>"

definition direct_shutdown ::
    "snapshot_cas \<Rightarrow> nat \<Rightarrow> string \<Rightarrow> (ub_error + unit) option \<Rightarrow> seq_ref \<Rightarrow> bar_world \<Rightarrow> ((ub_error + unit) \<times> bar_world) option" where
  "direct_shutdown cas k who joined own w =
     (let w1 = runtime_stop w in
      case joined of
        None \<Rightarrow> Some (Inl (ThreadPanicked who), w1)
      | Some (Inl e) \<Rightarrow> Some (Inl e, w1)
      | Some (Inr _) \<Rightarrow>
          map_option (\<lambda>(removed, s). (Inr (), w1\<lparr>bw_bar := (bw_bar w1)\<lparr>bar_seq := s\<rparr>\<rparr>))
            (seq_remove_gating_sequence cas k own (bar_seq (bw_bar w1))))"

section \<open>The main thread\<close>

text \<open>
  What the main thread meets: the flag, the two cells and the clock at its ticks, the sequencer at each of
  its claims, the cursor, the outcome of the thread, the world it shuts down, and the update and the
  compare-and-swap of the gating list with the number of its first snapshot.
\<close>

record end_env =
  ee_ready :: "nat \<Rightarrow> bool"
  ee_cells :: "nat \<Rightarrow> nat \<times> i64"
  ee_clock :: "nat \<Rightarrow> nat"
  ee_claims :: "nat \<Rightarrow> sp_seq traj"
  ee_cursor :: "nat \<Rightarrow> i64"
  ee_joined :: "(ub_error + unit) option"
  ee_world :: bar_world
  ee_rcu :: "(seq_ref list \<Rightarrow> seq_ref list) \<Rightarrow> seq_ref list \<Rightarrow> seq_ref list"
  ee_cas :: snapshot_cas
  ee_snapshot :: nat
  ee_store :: store

definition await_body :: "(nat \<Rightarrow> bool) \<Rightarrow> (nat \<Rightarrow> nat) \<Rightarrow> nat \<Rightarrow> nat \<Rightarrow> bool \<times> nat + nat" where
  "await_body ok clock deadline t =
     (if ok t then Inl (True, Suc t)
      else if deadline \<le> clock (Suc t) then Inl (False, Suc (Suc t))
      else Inr (Suc (Suc t)))"

definition await :: "nat \<Rightarrow> (nat \<Rightarrow> bool) \<Rightarrow> (nat \<Rightarrow> nat) \<Rightarrow> nat \<Rightarrow> nat \<Rightarrow> (bool \<times> nat) option" where
  "await fuel ok clock timeout_secs t = poll fuel (await_body ok clock (clock t + timeout_secs * 1000000000)) (Suc t)"

definition wait_for_ready :: "nat \<Rightarrow> end_env \<Rightarrow> nat \<Rightarrow> nat \<Rightarrow> (ub_error + nat) option" where
  "wait_for_ready fuel env timeout_secs t =
     map_option (\<lambda>(ok, u). if ok then Inr u else Inl NotReady) (await fuel (ee_ready env) (ee_clock env) timeout_secs t)"

definition wait_for_processed :: "nat \<Rightarrow> end_env \<Rightarrow> nat \<Rightarrow> nat \<Rightarrow> nat \<Rightarrow> (ub_error + nat) option" where
  "wait_for_processed fuel env expected timeout_secs t =
     map_option (\<lambda>(ok, u). if ok then Inr u else Inl (NotProcessed expected (fst (ee_cells env u))))
       (await fuel (\<lambda>u. fst (ee_cells env u) = expected) (ee_clock env) timeout_secs t)"

text \<open>
  \<open>for value in 0..events_total\<close>: claim, write and publish. The main thread is the only writer of the ring.
  The result has the claimed sequences with the sequencer and the ring after each publication.
\<close>

fun claim_values ::
    "nat \<Rightarrow> string \<Rightarrow> (i64 \<Rightarrow> 'e \<Rightarrow> 'e) \<Rightarrow> (nat \<Rightarrow> sp_seq traj) \<Rightarrow> 'e ring_buffer \<Rightarrow> nat \<Rightarrow> nat \<Rightarrow>
     (ub_error + (i64 \<times> sp_seq \<times> 'e ring_buffer) list) option" where
  "claim_values fuel what put claims rb v 0 = Some (Inr [])"
| "claim_values fuel what put claims rb v (Suc n) =
     (case sp_next fuel (claims v) of
        None \<Rightarrow> None
      | Some (Inl e, s) \<Rightarrow> Some (Inl (NextFailed what e))
      | Some (Inr sequence, s) \<Rightarrow>
          (case ring_update rb sequence (put (wrap_i64 (int v))) of
             None \<Rightarrow> None
           | Some rb' \<Rightarrow>
               (case claim_values fuel what put claims rb' (Suc v) n of
                  None \<Rightarrow> None
                | Some (Inl e) \<Rightarrow> Some (Inl e)
                | Some (Inr rest) \<Rightarrow> Some (Inr ((sequence, sp_publish sequence s, rb') # rest)))))"

text \<open>
  When the claims follow each other, each on the state the one before has left (the consumer moves its own
  sequence meanwhile), value \<open>v\<close> is written and published at sequence \<open>v\<close>.
\<close>

definition successive :: "nat \<Rightarrow> nat \<Rightarrow> (nat \<Rightarrow> sp_seq traj) \<Rightarrow> bool" where
  "successive fuel all claims \<longleftrightarrow> sp_next_value (claims 0 0) = - 1 \<and>
     (\<forall>v<all. sp_env (claims v) \<and> sp_inv (claims v 0) \<and> sp_room (claims v 0) \<and>
       (\<forall>q s. sp_next fuel (claims v) = Some (Inr q, s) \<longrightarrow> sp_next_value (claims (Suc v) 0) = sp_next_value s))"

definition published_at :: "(i64 \<Rightarrow> 'e \<Rightarrow> 'e) \<Rightarrow> i64 \<times> sp_seq \<times> 'e ring_buffer \<Rightarrow> bool" where
  "published_at put = (\<lambda>(q, s, rb). seq_get (sp_mem s) (sp_get_cursor s) = q \<and> (\<exists>e. ring_get rb q = Some (put (wrap_i64 q) e)))"

lemma claim_values_from:
  assumes "successive fuel all claims" and "sp_next_value (claims v 0) = int v - 1" and "v + n \<le> all" and "ring_invar rb"
    and "claim_values fuel what put claims rb v n = Some (Inr qs)"
  shows "map fst qs = map int [v..<v + n] \<and> list_all (published_at put) qs"
  using assms(2-5)
proof (induction n arbitrary: v rb qs)
  case (Suc n)
  then obtain q s rb' rest where q: "sp_next fuel (claims v) = Some (Inr q, s)" "ring_update rb q (put (wrap_i64 (int v))) = Some rb'"
    "claim_values fuel what put claims rb' (Suc v) n = Some (Inr rest)" "qs = (q, sp_publish q s, rb') # rest"
    by (auto split: option.splits sum.splits)
  have env: "sp_env (claims v)" "sp_inv (claims v 0)" "sp_room (claims v 0)" "sp_next_value (claims (Suc v) 0) = sp_next_value s"
    using assms(1) q(1) Suc.prems(2) by (auto simp: successive_def)
  have v: "q = int v" "sp_next_value s = int v" using sp_next_n_spec [OF env(1-3) q(1) [unfolded sp_next_def]] Suc.prems(1) by simp_all
  have inv: "ring_invar rb'" using rb.upd_invar [OF Suc.prems(3) q(2)] by blast
  have "map fst rest = map int [Suc v..<Suc v + n] \<and> list_all (published_at put) rest"
    by (rule Suc.IH [OF _ _ inv q(3)]) (use Suc.prems(2) in \<open>simp_all add: env(4) v\<close>)
  moreover have "published_at put (q, sp_publish q s, rb')"
    using rb.get_upd [OF Suc.prems(3) q(2), of q] rb.get_total [OF Suc.prems(3), of q]
    by (auto simp: published_at_def sp_publish_def sp_get_cursor_def seq_get_def seq_set_def Let_def v(1))
  moreover have "[v..<v + Suc n] = v # [Suc v..<Suc v + n]" by (simp add: upt_rec)
  ultimately show ?case by (simp add: q(4) v)
qed simp

lemma claim_values_in_order:
  assumes "successive fuel n claims" and "ring_invar rb" and "claim_values fuel what put claims rb 0 n = Some (Inr qs)"
  shows "map fst qs = map int [0..<n] \<and> list_all (published_at put) qs"
  using claim_values_from [OF assms(1) _ _ assms(2,3)] assms(1) by (simp add: successive_def)

text \<open>
  A value stays in its slot until the sequence one lap later is claimed: after the publication of sequence
  \<open>v + i\<close>, less than a lap after \<open>q\<close>, the slot of \<open>q\<close> has what was written at \<open>q\<close>, or what it had at the start.
\<close>

lemma claim_values_kept:
  assumes "successive fuel all claims" and "sp_next_value (claims v 0) = int v - 1" and "v + n \<le> all" and "ring_invar rb"
    and "claim_values fuel what put claims rb v n = Some (Inr qs)" and "i < length qs"
    and "q \<le> int (v + i)" and "int (v + i) < q + int (ring_buffer_size rb)"
  shows "if q < int v then ring_get (snd (snd (qs ! i))) q = ring_get rb q
    else \<exists>e. ring_get (snd (snd (qs ! i))) q = Some (put (wrap_i64 q) e)"
  using assms(2-8)
proof (induction n arbitrary: v rb qs i)
  case (Suc n)
  then obtain p s rb' rest where p: "sp_next fuel (claims v) = Some (Inr p, s)" "ring_update rb p (put (wrap_i64 (int v))) = Some rb'"
    "claim_values fuel what put claims rb' (Suc v) n = Some (Inr rest)" "qs = (p, sp_publish p s, rb') # rest"
    by (auto split: option.splits sum.splits)
  have env: "sp_env (claims v)" "sp_inv (claims v 0)" "sp_room (claims v 0)" "sp_next_value (claims (Suc v) 0) = sp_next_value s"
    using assms(1) p(1) Suc.prems(2) by (auto simp: successive_def)
  have v: "p = int v" "sp_next_value s = int v" using sp_next_n_spec [OF env(1-3) p(1) [unfolded sp_next_def]] Suc.prems(1) by simp_all
  have inv: "ring_invar rb'" "ring_buffer_size rb' = ring_buffer_size rb" using rb.upd_invar [OF Suc.prems(3) p(2)] by auto
  have here: "if q < int v then ring_get rb' q = ring_get rb q else \<exists>e. ring_get rb' q = Some (put (wrap_i64 q) e)"
    if q: "q \<le> int v"
  proof (cases "q = int v")
    case True
    with rb.get_upd [OF Suc.prems(3) p(2), of q] rb.get_total [OF Suc.prems(3), of q] v(1) show ?thesis by auto
  next
    case False
    with q have "int v mod int (ring_buffer_size rb) \<noteq> q mod int (ring_buffer_size rb)"
      using Suc.prems(7) zdvd_imp_le [of "int (ring_buffer_size rb)" "int v - q"] by (auto simp: mod_eq_dvd_iff)
    with rb.get_upd [OF Suc.prems(3) p(2), of q] v(1) False q show ?thesis by simp
  qed
  show ?case
  proof (cases i)
    case 0
    with here Suc.prems(6) p(4) show ?thesis by (auto split: if_splits)
  next
    case (Suc j)
    have "if q < int (Suc v) then ring_get (snd (snd (rest ! j))) q = ring_get rb' q
      else \<exists>e. ring_get (snd (snd (rest ! j))) q = Some (put (wrap_i64 q) e)"
      using Suc.prems(2,5-7) by (intro Suc.IH [OF _ _ inv(1) p(3)]) (simp_all add: env(4) v inv(2) p(4) Suc)
    with here show ?thesis by (auto simp: p(4) Suc split: if_splits)
  qed
qed simp

text \<open>
  The consumer sees a sequence published only with the ring as it was after that publication, or after a
  later one less than a lap away (the consumer's sequence gates the producer).
\<close>

definition follows :: "bar_world traj \<Rightarrow> (nat \<Rightarrow> 'e ring_buffer) \<Rightarrow> nat \<Rightarrow> (i64 \<times> sp_seq \<times> 'e ring_buffer) list \<Rightarrow> bool" where
  "follows tr ring m trace \<longleftrightarrow>
     (\<forall>t q. 0 \<le> q \<and> readable (tr t) q \<longrightarrow>
       (\<exists>i<length trace. q \<le> int i \<and> int i < q + int m \<and> ring t = snd (snd (trace ! i))))"

lemma follows_reads:
  assumes "successive fuel n claims" and "ring_invar rb" and "claim_values fuel what put claims rb 0 n = Some (Inr trace)"
    and "follows tr ring (ring_buffer_size rb) trace" and "0 \<le> q" and "readable (tr t) q"
  shows "q < int n \<and> (\<exists>e. ring_get (ring t) q = Some (put (wrap_i64 q) e))"
proof -
  obtain i where i: "i < length trace" "q \<le> int i" "int i < q + int (ring_buffer_size rb)" "ring t = snd (snd (trace ! i))"
    using assms(4-6) unfolding follows_def by blast
  have "length trace = n" using claim_values_in_order [OF assms(1-3)] by (metis length_map length_upt minus_nat.diff_0)
  with claim_values_kept [OF assms(1) _ _ assms(2,3) i(1), of q] assms(1,5) i show ?thesis by (simp add: successive_def)
qed

section \<open>What the consumer has read and counted\<close>

definition summed_values :: "(i64 \<times> i64 \<times> nat) list \<Rightarrow> i64" where
  "summed_values reads = wrap_i64 (sum_list (map (\<lambda>(s, v, t). v) reads))"

lemma fold_add_i64: "(word_of_int (fold (\<lambda>(s, v, t) acc. add_i64 acc v) reads a) :: u64) =
    word_of_int a + word_of_int (sum_list (map (\<lambda>(s, v, t). v) reads))"
  by (induction reads arbitrary: a) (auto simp: word_of_add_i64)

lemma wrap_eq_iff: "wrap_i64 a = wrap_i64 b \<longleftrightarrow> (word_of_int a :: u64) = word_of_int b"
  by (metis sint_word_of_int word_of_wrap)

lemma summed_values_append:
  "add_i64 (summed_values xs) (local_checksum ys) = summed_values (xs @ ys)"
proof -
  have "add_i64 (summed_values xs) (local_checksum ys) = wrap_i64 (summed_values xs + local_checksum ys)" by (simp add: add_i64_def)
  also have "\<dots> = summed_values (xs @ ys)"
    unfolding summed_values_def wrap_eq_iff
    by (simp only: local_checksum_def wi_hom_add [symmetric] fold_add_i64 word_of_wrap map_append sum_list_append) simp
  finally show ?thesis .
qed

lemma read_events_seqs:
  "read_events ring val t n s = Some reads \<Longrightarrow>
     map fst reads = [s..s + int n - 1] \<and> (\<forall>(q, v, u)\<in>set reads. t \<le> u \<and> (\<exists>e. ring_get (ring u) q = Some e \<and> v = val e))"
proof (induction n arbitrary: t s reads)
  case (Suc n)
  then obtain e rest where r: "ring_get (ring t) s = Some e" "read_events ring val (Suc t) n (s + 1) = Some rest" "reads = (s, val e, t) # rest"
    by (auto split: option.splits)
  have "[s..s + int (Suc n) - 1] = s # [s + 1..s + 1 + int n - 1]" by (simp add: upto_rec1)
  with Suc.IH [OF r(2)] r show ?case by fastforce
qed simp

lemma read_events_total: "(\<And>t s. ring_get (ring t) s \<noteq> None) \<Longrightarrow> \<exists>reads. read_events ring val t n s = Some reads"
  by (induction n arbitrary: t s) (auto split: option.splits)

text \<open>
  The invariant of the loop: the sequences from \<open>0\<close> have been read in order, each when it was readable; the
  cells hold the number and the wrapped sum; and in the history of the cells only the last entry has the
  full count.
\<close>

definition direct_inv :: "bar_world traj \<Rightarrow> (nat \<Rightarrow> 'e ring_buffer) \<Rightarrow> ('e \<Rightarrow> i64) \<Rightarrow> direct_state \<Rightarrow> bool" where
  "direct_inv tr ring val d \<longleftrightarrow> 0 \<le> dc_next d \<and> map fst (dc_read d) = [0..dc_next d - 1] \<and> dc_sequence d = dc_next d - 1 \<and>
     (\<forall>(s, v, t)\<in>set (dc_read d). readable (tr t) s \<and> (\<exists>e. ring_get (ring t) s = Some e \<and> v = val e)) \<and>
     dc_processed d = length (dc_read d) \<and> dc_checksum d = summed_values (dc_read d) \<and>
     dc_cells d \<noteq> [] \<and> last (dc_cells d) = (dc_processed d, dc_checksum d) \<and>
     (\<forall>(p, c)\<in>set (butlast (dc_cells d)). p < dc_processed d)"

lemma direct_inv_init [simp]: "direct_inv tr ring val direct_init"
  by (simp add: direct_inv_def direct_init_def summed_values_def wrap_i64_def)

lemma direct_batch_inv:
  assumes "direct_inv tr ring val d" and "direct_batch ring val t available d = Some d'" and "dc_next d \<le> available"
    and "\<And>s v. dc_next d \<le> s \<Longrightarrow> s \<le> available \<Longrightarrow> t \<le> v \<Longrightarrow> readable (tr v) s"
  shows "direct_inv tr ring val d'"
proof -
  obtain reads where r: "read_events ring val t (nat (available + 1 - dc_next d)) (dc_next d) = Some reads"
    and d': "d' = (add_processed (length reads) (add_checksum (local_checksum reads) d))
         \<lparr>dc_sequence := available, dc_next := available + 1, dc_read := dc_read d @ reads\<rparr>"
    using assms(2) by (auto simp: direct_batch_def)
  note reads = read_events_seqs [OF r]
  have seqs: "map fst reads = [dc_next d..available]" using reads assms(3) by simp
  then have ne: "0 < length reads" using assms(3) by (metis length_greater_0_conv map_is_Nil_conv upto_Nil2 linorder_not_less not_less_iff_gr_or_eq)
  have inv: "0 \<le> dc_next d" "map fst (dc_read d) = [0..dc_next d - 1]" "dc_processed d = length (dc_read d)"
    "dc_checksum d = summed_values (dc_read d)" "dc_cells d \<noteq> []" "last (dc_cells d) = (dc_processed d, dc_checksum d)"
    "\<forall>(p, c)\<in>set (butlast (dc_cells d)). p < dc_processed d" using assms(1) unfolding direct_inv_def by blast+
  have "[0..dc_next d - 1] @ [dc_next d..available] = [0..available]" using upto_split1 [of 0 "dc_next d" available] inv(1) assms(3) by simp
  moreover have "readable (tr u) s \<and> (\<exists>e. ring_get (ring u) s = Some e \<and> v = val e)" if "(s, v, u) \<in> set reads" for s v u
  proof -
    have "s \<in> set (map fst reads)" using that by force
    then have "dc_next d \<le> s" "s \<le> available" unfolding seqs by simp_all
    with assms(4) reads that show ?thesis by blast
  qed
  moreover have "p < dc_processed d + length reads" if "(p, c) \<in> set (dc_cells d)" for p c
  proof -
    have "dc_cells d = butlast (dc_cells d) @ [(dc_processed d, dc_checksum d)]" using inv(5,6) by (metis append_butlast_last_id)
    with that have "(p, c) \<in> set (butlast (dc_cells d)) \<or> p = dc_processed d" by (metis Pair_inject Un_iff insert_iff list.set(2) set_append empty_iff list.set(1))
    with inv(7) ne show ?thesis by auto
  qed
  ultimately show ?thesis
    using assms(1,3) inv ne seqs
    by (auto simp: direct_inv_def d' add_processed_def add_checksum_def Let_def summed_values_append butlast_append)
qed

lemma bar_env_single:
  "bar_env k 0 tr \<Longrightarrow> \<not> is_multi_seq (bar_seq (bw_bar (tr 0))) \<Longrightarrow> bar_env k sequence tr"
  by (simp add: bar_env_def)

lemma direct_body_inv:
  assumes "bar_env k 0 tr" and "\<not> is_multi_seq (bar_seq (bw_bar (tr 0)))" and "\<forall>t. ring_invar (ring t)"
    and "direct_inv tr ring val d"
  shows "direct_body pk fuel tr ring val who (t, d) = Inr (t', d') \<Longrightarrow> direct_inv tr ring val d'"
    and "direct_body pk fuel tr ring val who (t, d) = Inl (Some (r, d')) \<Longrightarrow> r \<noteq> None \<and> d' = d"
proof -
  have s: "0 \<le> dc_next d" using assms(4) by (simp add: direct_inv_def)
  note env = bar_env_single [OF assms(1,2), of "dc_next d"]
  have batch: "\<exists>d'. direct_batch ring val u available d = Some d' \<and> (dc_next d \<le> available \<longrightarrow> direct_inv tr ring val d')"
    if "bar_wait_for_with_shutdown pk fuel tr t (dc_next d) = Some (Some (Inr available), u)" for u available
  proof -
    have "ring_get (ring t) s \<noteq> None" for t s using rb.get_total [OF spec [OF assms(3)]] by auto
    then obtain d' where d': "direct_batch ring val u available d = Some d'"
      using read_events_total [of ring val u "nat (available + 1 - dc_next d)" "dc_next d"] by (auto simp: direct_batch_def)
    with direct_batch_inv [OF assms(4) d'] bar_wait_shutdown.batch_readable [OF env s that] show ?thesis by blast
  qed
  have no_panic: "bar_wait_for_with_shutdown pk fuel tr t (dc_next d) \<noteq> Some (None, u)" for u
    by (rule bar_wait_shutdown.no_panic [OF env s])
  show "direct_body pk fuel tr ring val who (t, d) = Inr (t', d') \<Longrightarrow> direct_inv tr ring val d'"
    using batch assms(4) by (fastforce simp: direct_body_def split: option.splits sum.splits if_splits prod.splits)
  show "direct_body pk fuel tr ring val who (t, d) = Inl (Some (r, d')) \<Longrightarrow> r \<noteq> None \<and> d' = d"
    using batch no_panic by (fastforce simp: direct_body_def split: option.splits sum.splits if_splits prod.splits)
qed

lemma direct_thread_inv:
  assumes "bar_env k 0 tr" and "\<not> is_multi_seq (bar_seq (bw_bar (tr 0)))" and "\<forall>t. ring_invar (ring t)"
    and "direct_thread pk fuel tr ring val who = Some (r, d)"
  shows "r \<noteq> None \<and> direct_inv tr ring val d"
proof -
  let ?body = "direct_body pk fuel tr ring val who"
  note step = direct_body_inv [OF assms(1-3)]
  have "poll fuel ?body (0, direct_init) = Some (Some (r, d))"
    using assms(4) by (auto simp: direct_thread_def split: bind_splits)
  then show ?thesis
  proof (rule poll_inv [where I = "\<lambda>(t, d). direct_inv tr ring val d"])
    fix st assume I: "case st of (t, d) \<Rightarrow> direct_inv tr ring val d" and "?body st = Inl (Some (r, d))"
    then show ?thesis using step(2) by (cases st) blast
  next
    fix st st' assume "case st of (t, d) \<Rightarrow> direct_inv tr ring val d" and "?body st = Inr st'"
    then show "case st' of (t, d) \<Rightarrow> direct_inv tr ring val d" using step(1) by (cases st; cases st') blast
  qed simp
qed

text \<open>Once the main thread has seen the full count, it sees the final values of both cells for good.\<close>

lemma full_count_settles:
  assumes "direct_inv tr ring val d" and "sees (dc_cells d) cells" and "fst (cells t) = dc_processed d" and "t \<le> u"
  shows "cells u = (dc_processed d, dc_checksum d)"
proof -
  let ?h = "dc_cells d"
  obtain idx where idx: "mono idx" "\<And>t. idx t < length ?h" "\<And>t. cells t = ?h ! idx t" using assms(2) by (auto simp: sees_def)
  have inv: "?h \<noteq> []" "last ?h = (dc_processed d, dc_checksum d)" "\<forall>(p, c)\<in>set (butlast ?h). p < dc_processed d"
    using assms(1) unfolding direct_inv_def by blast+
  have "idx t = length ?h - 1"
  proof (rule ccontr)
    assume "idx t \<noteq> length ?h - 1"
    then have "idx t < length (butlast ?h)" using idx(2) [of t] by simp
    then have "?h ! idx t \<in> set (butlast ?h)" by (metis nth_butlast nth_mem)
    with inv(3) have "fst (?h ! idx t) < dc_processed d" by (auto simp: split_beta)
    with assms(3) idx(3) show False by simp
  qed
  then have "idx u = length ?h - 1" using monoD [OF idx(1) assms(4)] idx(2) [of u] by simp
  with idx(3) [of u] inv(1,2) show ?thesis by (simp add: last_conv_nth)
qed

lemma sees_at_most:
  assumes "direct_inv tr ring val d" and "sees (dc_cells d) cells"
  shows "fst (cells t) \<le> dc_processed d"
proof -
  have inv: "dc_cells d \<noteq> []" "last (dc_cells d) = (dc_processed d, dc_checksum d)" "\<forall>(p, c)\<in>set (butlast (dc_cells d)). p < dc_processed d"
    using assms(1) unfolding direct_inv_def by blast+
  have "cells t \<in> set (dc_cells d)" using assms(2) by (auto simp: sees_def)
  then have "cells t \<in> set (butlast (dc_cells d)) \<or> cells t = (dc_processed d, dc_checksum d)"
    using inv(1,2) by (metis append_butlast_last_id in_set_conv_decomp_last list.set(1) rotate1.simps(2) set_ConsD set_rotate1)
  with inv(3) show ?thesis by (auto simp: split_beta)
qed

lemma map_int_upto: "[0..int n - 1] = map int [0..<n]"
  by (induction n) (simp_all add: upto_rec2)

lemma direct_seqs:
  assumes "direct_inv tr ring val d"
  shows "map fst (dc_read d) = [0..int (dc_processed d) - 1]"
proof -
  have inv: "map fst (dc_read d) = [0..dc_next d - 1]" "0 \<le> dc_next d" "dc_processed d = length (dc_read d)"
    using assms unfolding direct_inv_def by blast+
  have "length (dc_read d) = nat (dc_next d)" by (metis inv(1) length_map length_upto diff_add_cancel diff_zero)
  with inv show ?thesis by simp
qed

lemma direct_values:
  assumes "direct_inv tr ring val d" and "\<And>x e. val (put x e) = x" and "int n \<le> i64_max"
    and "\<And>q t. 0 \<le> q \<Longrightarrow> readable (tr t) q \<Longrightarrow> q < int n \<and> (\<exists>e. ring_get (ring t) q = Some (put (wrap_i64 q) e))"
  shows "dc_processed d \<le> n \<and> map (\<lambda>(s, v, t). v) (dc_read d) = map int [0..<dc_processed d]"
proof -
  have inv: "map fst (dc_read d) = [0..dc_next d - 1]" "0 \<le> dc_next d" "dc_processed d = length (dc_read d)"
    "\<forall>(s, v, t)\<in>set (dc_read d). readable (tr t) s \<and> (\<exists>e. ring_get (ring t) s = Some e \<and> v = val e)"
    using assms(1) unfolding direct_inv_def by blast+
  have each: "s < int n \<and> v = s" if "(s, v, t) \<in> set (dc_read d)" for s v t
  proof -
    have "s \<in> set (map fst (dc_read d))" using that by force
    then have "0 \<le> s" by (simp add: inv(1))
    moreover have "readable (tr t) s" "\<exists>e. ring_get (ring t) s = Some e \<and> v = val e" using inv(4) that by blast+
    ultimately show ?thesis using assms(4) [of s t] assms(2,3) by (auto simp: wrap_i64_id in_i64_def)
  qed
  have "map (\<lambda>(s, v, t). v) (dc_read d) = map fst (dc_read d)" using each by (auto simp: split_beta)
  also have "\<dots> = map int [0..<dc_processed d]" by (simp add: direct_seqs [OF assms(1)] map_int_upto)
  finally have vals: "map (\<lambda>(s, v, t). v) (dc_read d) = map int [0..<dc_processed d]" .
  have "dc_processed d \<le> n"
  proof (cases "dc_processed d")
    case (Suc k)
    then have "int k \<in> set (map (\<lambda>(s, v, t). v) (dc_read d))" by (simp add: vals)
    then obtain s t where "(s, int k, t) \<in> set (dc_read d)" by auto
    with each Suc show ?thesis by fastforce
  qed simp
  with vals show ?thesis by simp
qed

text \<open>
  The direct consumer accounts for everything it reads. A consumer thread of the unicast breakdown, with
  the producer and the main thread acting at will, reads the sequences from \<open>0\<close> in order, each when the
  barrier had shown it to be readable; when it ends it has not panicked, the cells hold the number of the
  events and the wrapped sum of their values; and whoever has read the full count from the first cell will
  read the final checksum from the second: the verdict of a round does not depend on timing.
\<close>

theorem direct_consumer_accounts:
  assumes "bar_env k 0 tr" and "\<not> is_multi_seq (bar_seq (bw_bar (tr 0)))" and "\<forall>t. ring_invar (ring t)"
    and "direct_thread pk fuel tr ring val who = Some (r, d)"
  shows "r \<noteq> None \<and> map fst (dc_read d) = [0..dc_sequence d] \<and>
    (\<forall>(s, v, t)\<in>set (dc_read d). readable (tr t) s \<and> (\<exists>e. ring_get (ring t) s = Some e \<and> v = val e)) \<and>
    dc_processed d = length (dc_read d) \<and> dc_checksum d = summed_values (dc_read d) \<and>
    (\<forall>cells t u. sees (dc_cells d) cells \<and> fst (cells t) = dc_processed d \<and> t \<le> u \<longrightarrow>
       cells u = (dc_processed d, dc_checksum d))"
proof -
  have inv: "r \<noteq> None \<and> direct_inv tr ring val d" by (rule direct_thread_inv [OF assms])
  then have "\<forall>cells t u. sees (dc_cells d) cells \<and> fst (cells t) = dc_processed d \<and> t \<le> u \<longrightarrow>
       cells u = (dc_processed d, dc_checksum d)" using full_count_settles by blast
  with inv show ?thesis unfolding direct_inv_def by simp
qed

text \<open>A ring of four with one published event, read by the thread, which is then told to stop.\<close>

definition example_direct_world :: "nat \<Rightarrow> bar_world" where
  "example_direct_world t =
     \<lparr>bw_bar = barrier_new 0 BusySpinStrategy [] (SingleSeq (sp_fresh\<lparr>sp_mem := (\<lambda>_. 0)\<rparr>)), bw_shutdown = (12 < t), bw_running = True,
      bw_strategy_alerted = False, bw_clock = t\<rparr>"

definition example_direct_ring :: "micro_event ring_buffer" where
  "example_direct_ring = \<lparr>storage = Inline (replicate 4 \<lparr>me_value = 0\<rparr>), index_mask = 3\<rparr>"

lemma example_direct_env:
  "bar_env 2 0 example_direct_world" "\<not> is_multi_seq (bar_seq (bw_bar (example_direct_world 0)))"
  by (auto simp: bar_env_def example_direct_world_def barrier_new_def bw_tracked_def tracked_def bw_store_def mono_traj_def)

theorem direct_consumer_accounts_witness:
  "\<exists>d. direct_thread (\<lambda>_. None, \<lambda>_ _. (0, True)) 9 example_direct_world (\<lambda>_. example_direct_ring) me_value ''consumer'' =
       Some (Some (Inr ()), d) \<and> dc_processed d = 1 \<and> dc_checksum d = summed_values (dc_read d)"
proof -
  let ?run = "direct_thread (\<lambda>_. None, \<lambda>_ _. (0, True)) 9 example_direct_world (\<lambda>_. example_direct_ring) me_value ''consumer''"
  have "map_option (\<lambda>(r, d). (r, dc_processed d)) ?run = Some (Some (Inr ()), 1)" by code_simp
  then obtain d where run: "?run = Some (Some (Inr ()), d)" "dc_processed d = 1" by auto
  have "ring_invar example_direct_ring" by code_simp
  then have "\<forall>t::nat. ring_invar example_direct_ring" by simp
  from direct_consumer_accounts [OF example_direct_env this run(1)] run show ?thesis by blast
qed

end
