(* ===== verification/Unicast_Breakdown.thy ===== *)
theory Unicast_Breakdown
  imports Direct_Consumer
begin

text \<open>
  The unicast breakdown program (\<open>src/bin/unicast_breakdown.rs\<close>): a plain sum, claiming, claiming and
  writing, claiming, writing and publishing, and the whole way to a consumer, each as a phase of rounds on
  the library's own parts. The phases without a consumer are run by one thread, so the memory is at rest
  between its steps.
\<close>

section \<open>Layouts, modes and phases\<close>

datatype event_layout = MinimalLayout | ComparisonLayout | Padded64Layout | Padded128Layout

definition event_layout_parse :: "string \<Rightarrow> event_layout cli" where
  "event_layout_parse v =
     (if v = ''minimal'' then Inr MinimalLayout else if v = ''comparison'' then Inr ComparisonLayout
      else if v = ''comparison-padded64'' then Inr Padded64Layout
      else if v = ''comparison-padded128'' then Inr Padded128Layout else Inl (Unsupported ''event layout'' v))"

fun event_layout_as_str :: "event_layout \<Rightarrow> string" where
  "event_layout_as_str MinimalLayout = ''minimal''"
| "event_layout_as_str ComparisonLayout = ''comparison''"
| "event_layout_as_str Padded64Layout = ''comparison-padded64''"
| "event_layout_as_str Padded128Layout = ''comparison-padded128''"

fun event_layout_size :: "event_layout \<Rightarrow> nat" where
  "event_layout_size MinimalLayout = 8"
| "event_layout_size ComparisonLayout = 32"
| "event_layout_size Padded64Layout = 64"
| "event_layout_size Padded128Layout = 128"

datatype ub_mode = UbAll | UbBaseline | UbClaimOnly | UbClaimWrite | UbClaimWritePublish | UbEndToEnd
datatype ub_phase = Baseline | ClaimOnly | ClaimWrite | ClaimWritePublish | EndToEnd

definition ub_mode_parse :: "string \<Rightarrow> ub_mode cli" where
  "ub_mode_parse v =
     (if v = ''all'' then Inr UbAll else if v = ''baseline'' then Inr UbBaseline
      else if v = ''claim-only'' then Inr UbClaimOnly else if v = ''claim-write'' then Inr UbClaimWrite
      else if v = ''claim-write-publish'' then Inr UbClaimWritePublish else if v = ''end-to-end'' then Inr UbEndToEnd
      else Inl (Unsupported ''mode'' v))"

fun ub_mode_as_str :: "ub_mode \<Rightarrow> string" where
  "ub_mode_as_str UbAll = ''all''"
| "ub_mode_as_str UbBaseline = ''baseline''"
| "ub_mode_as_str UbClaimOnly = ''claim-only''"
| "ub_mode_as_str UbClaimWrite = ''claim-write''"
| "ub_mode_as_str UbClaimWritePublish = ''claim-write-publish''"
| "ub_mode_as_str UbEndToEnd = ''end-to-end''"

fun ub_phases :: "ub_mode \<Rightarrow> ub_phase list" where
  "ub_phases UbAll = [Baseline, ClaimOnly, ClaimWrite, ClaimWritePublish, EndToEnd]"
| "ub_phases UbBaseline = [Baseline]"
| "ub_phases UbClaimOnly = [ClaimOnly]"
| "ub_phases UbClaimWrite = [ClaimWrite]"
| "ub_phases UbClaimWritePublish = [ClaimWritePublish]"
| "ub_phases UbEndToEnd = [EndToEnd]"

fun ub_phase_as_str :: "ub_phase \<Rightarrow> string" where
  "ub_phase_as_str Baseline = ''baseline''"
| "ub_phase_as_str ClaimOnly = ''claim_only''"
| "ub_phase_as_str ClaimWrite = ''claim_write''"
| "ub_phase_as_str ClaimWritePublish = ''claim_write_publish''"
| "ub_phase_as_str EndToEnd = ''end_to_end''"

section \<open>Command line\<close>

record ub_cli =
  uc_mode :: ub_mode
  uc_wait :: wait_kind
  uc_layout :: event_layout
  uc_events_total :: nat
  uc_buffer_size :: "nat option"
  uc_allow_wrap :: bool
  uc_warmup_rounds :: nat
  uc_measured_rounds :: nat
  uc_timeout_secs :: nat
  uc_output :: "string option"

definition ub_cli_init :: ub_cli where
  "ub_cli_init =
     \<lparr>uc_mode = UbAll, uc_wait = WkYielding, uc_layout = MinimalLayout, uc_events_total = 20000000, uc_buffer_size = None,
      uc_allow_wrap = False, uc_warmup_rounds = 3, uc_measured_rounds = 5, uc_timeout_secs = 300, uc_output = None\<rparr>"

definition ub_value_flag :: "string \<Rightarrow> (string \<Rightarrow> ub_cli \<Rightarrow> ub_cli cli) option" where
  "ub_value_flag a =
     (if a = ''--mode'' then Some (\<lambda>v c. bind_cli (ub_mode_parse v) (\<lambda>x. Inr (c\<lparr>uc_mode := x\<rparr>)))
      else if a = ''--wait-strategy'' then Some (\<lambda>v c. bind_cli (pb_wait_parse v) (\<lambda>x. Inr (c\<lparr>uc_wait := x\<rparr>)))
      else if a = ''--event-layout'' then Some (\<lambda>v c. bind_cli (event_layout_parse v) (\<lambda>x. Inr (c\<lparr>uc_layout := x\<rparr>)))
      else if a = ''--events-total'' then
        Some (\<lambda>v c. bind_cli (parse_number ''integer'' v) (\<lambda>x. Inr (c\<lparr>uc_events_total := x\<rparr>)))
      else if a = ''--buffer-size'' then
        Some (\<lambda>v c. bind_cli (parse_number ''integer'' v) (\<lambda>x. Inr (c\<lparr>uc_buffer_size := Some x\<rparr>)))
      else if a = ''--warmup-rounds'' then
        Some (\<lambda>v c. bind_cli (parse_number ''integer'' v) (\<lambda>x. Inr (c\<lparr>uc_warmup_rounds := x\<rparr>)))
      else if a = ''--measured-rounds'' then
        Some (\<lambda>v c. bind_cli (parse_number ''integer'' v) (\<lambda>x. Inr (c\<lparr>uc_measured_rounds := x\<rparr>)))
      else if a = ''--timeout-secs'' then
        Some (\<lambda>v c. bind_cli (parse_number ''integer'' v) (\<lambda>x. Inr (c\<lparr>uc_timeout_secs := x\<rparr>)))
      else if a = ''--output'' then Some (\<lambda>v c. Inr (c\<lparr>uc_output := Some v\<rparr>))
      else None)"

fun ub_from_args :: "ub_cli \<Rightarrow> string list \<Rightarrow> ub_cli option cli" where
  "ub_from_args c [] = Inr (Some c)"
| "ub_from_args c (a # rest) =
     (case ub_value_flag a of
        Some put \<Rightarrow>
          (case rest of
             [] \<Rightarrow> Inl (Missing a)
           | v # rest' \<Rightarrow> bind_cli (put v c) (\<lambda>c'. ub_from_args c' rest'))
      | None \<Rightarrow>
          if a = ''--allow-wrap'' then ub_from_args (c\<lparr>uc_allow_wrap := True\<rparr>) rest
          else if a = ''--help'' \<or> a = ''-h'' then Inr None else Inl (UnknownArgument a))"

record ub_config =
  ub_mode_of :: ub_mode
  ub_wait :: wait_kind
  ub_layout :: event_layout
  ub_events_total :: nat
  ub_buffer_size :: nat
  ub_allow_wrap :: bool
  ub_warmup_rounds :: nat
  ub_measured_rounds :: nat
  ub_timeout_secs :: nat
  ub_output :: "string option"

text \<open>\<open>u64::checked_next_power_of_two\<close>.\<close>

definition checked_next_power_of_two :: "nat \<Rightarrow> nat option" where
  "checked_next_power_of_two n =
     (if 9223372036854775808 < n then None else Some (if n \<le> 1 then 1 else 2 ^ Suc (ilog2 (n - 1))))"

definition ub_try_from :: "ub_cli \<Rightarrow> ub_config cli" where
  "ub_try_from c =
     (if uc_events_total c = 0 then Inl (Broken ''events_total must be > 0'')
      else if uc_layout c \<noteq> MinimalLayout \<and> uc_mode c \<noteq> UbEndToEnd
      then Inl (Broken ''non-minimal event layouts are only supported with --mode end-to-end'')
      else if uc_measured_rounds c = 0 then Inl (Broken ''measured_rounds must be > 0'')
      else case checked_next_power_of_two (uc_events_total c) of
        None \<Rightarrow> Inl (Broken ''events_total too large to round up to power of two'')
      | Some rounded_up \<Rightarrow>
          let buffer_size = (case uc_buffer_size c of None \<Rightarrow> rounded_up | Some n \<Rightarrow> n) in
          if buffer_size = 0 \<or> \<not> is_power_of_two buffer_size
          then Inl (Broken (''buffer size must be a non-zero power of two, got '' @ show_nat buffer_size))
          else if buffer_size < uc_events_total c \<and> \<not> (uc_allow_wrap c \<and> uc_mode c = UbEndToEnd)
          then Inl (Broken (''buffer size must be >= events_total for no-wrap diagnostics unless --allow-wrap is set with --mode end-to-end; got buffer_size=''
            @ show_nat buffer_size @ '', events_total='' @ show_nat (uc_events_total c)))
          else Inr
            \<lparr>ub_mode_of = uc_mode c, ub_wait = uc_wait c, ub_layout = uc_layout c, ub_events_total = uc_events_total c,
             ub_buffer_size = buffer_size, ub_allow_wrap = uc_allow_wrap c, ub_warmup_rounds = uc_warmup_rounds c,
             ub_measured_rounds = uc_measured_rounds c, ub_timeout_secs = uc_timeout_secs c, ub_output = uc_output c\<rparr>)"

section \<open>Checksums\<close>

text \<open>Division of an \<open>i64\<close> rounds towards zero.\<close>

definition half_i64 :: "i64 \<Rightarrow> i64" where
  "half_i64 x = (if 0 \<le> x then x div 2 else - (- x div 2))"

definition ub_arithmetic_checksum :: "nat \<Rightarrow> i64" where
  "ub_arithmetic_checksum events_total =
     half_i64 (wrap_i64 (wrap_i64 (int (events_total - 1)) * wrap_i64 (int events_total)))"

fun checksum_from :: "micro_event ring_buffer \<Rightarrow> nat \<Rightarrow> nat \<Rightarrow> i64 \<Rightarrow> i64 option" where
  "checksum_from rb q 0 acc = Some acc"
| "checksum_from rb q (Suc n) acc =
     (case ring_get rb (wrap_i64 (int q)) of None \<Rightarrow> None | Some e \<Rightarrow> checksum_from rb (Suc q) n (add_i64 acc (me_value e)))"

definition checksum_ring_buffer :: "micro_event ring_buffer \<Rightarrow> nat \<Rightarrow> i64 option" where
  "checksum_ring_buffer rb events_total = checksum_from rb 0 events_total 0"

section \<open>Rounds\<close>

record ub_record =
  ur_round_index :: nat
  ur_measured :: bool
  ur_elapsed_ns :: nat
  ur_ops_per_sec :: f64
  ur_events_expected :: "nat option"
  ur_events_observed :: "nat option"
  ur_checksum_expected :: "i64 option"
  ur_checksum_observed :: "i64 option"
  ur_last_expected :: "i64 option"
  ur_last_observed :: "i64 option"
  ur_valid :: bool

definition run_baseline :: "(nat \<Rightarrow> nat) \<Rightarrow> ub_config \<Rightarrow> nat \<Rightarrow> bool \<Rightarrow> ub_record" where
  "run_baseline clock cfg i measured =
     (let n = ub_events_total cfg; expected = ub_arithmetic_checksum n;
          checksum = fold (\<lambda>v acc. add_i64 acc (wrap_i64 (int v))) [0..<n] 0; elapsed = clock 1 - clock 0
      in \<lparr>ur_round_index = i, ur_measured = measured, ur_elapsed_ns = elapsed, ur_ops_per_sec = ops_per_sec n elapsed,
          ur_events_expected = Some n, ur_events_observed = Some n, ur_checksum_expected = Some expected,
          ur_checksum_observed = Some checksum, ur_last_expected = None, ur_last_observed = None, ur_valid = (checksum = expected)\<rparr>)"

text \<open>
  In the following \<open>None\<close> is a run without a result: a claim that waits forever, or a panic (a buffer size
  that does not fit an \<open>i64\<close>). The cursor of the sequencer is allocated at \<open>0\<close>.
\<close>

fun claim_only_loop :: "nat \<Rightarrow> nat \<Rightarrow> sp_seq \<Rightarrow> i64 \<Rightarrow> (ub_error + i64) option" where
  "claim_only_loop fuel 0 s q = Some (Inr q)"
| "claim_only_loop fuel (Suc n) s q =
     (case sp_next fuel (\<lambda>_. s) of
        None \<Rightarrow> None
      | Some (Inl e, s') \<Rightarrow> Some (Inl (NextFailed ''claim-only'' e))
      | Some (Inr q', s') \<Rightarrow> claim_only_loop fuel n s' q')"

definition run_claim_only ::
    "nat \<Rightarrow> (nat \<Rightarrow> nat) \<Rightarrow> store \<Rightarrow> wait_strategy \<Rightarrow> ub_config \<Rightarrow> nat \<Rightarrow> bool \<Rightarrow> (ub_error + ub_record) option" where
  "run_claim_only fuel clock h ws cfg i measured =
     Option.bind (sp_new (ub_buffer_size cfg) ws 0 h) (\<lambda>s.
       let n = ub_events_total cfg; elapsed = clock 1 - clock 0; expected = sub_i64 (wrap_i64 (int n)) 1 in
       map_option (map_sum id (\<lambda>q.
         \<lparr>ur_round_index = i, ur_measured = measured, ur_elapsed_ns = elapsed, ur_ops_per_sec = ops_per_sec n elapsed,
          ur_events_expected = Some n, ur_events_observed = Some n, ur_checksum_expected = None, ur_checksum_observed = None,
          ur_last_expected = Some expected, ur_last_observed = Some q, ur_valid = (q = expected)\<rparr>))
         (claim_only_loop fuel n s (- 1)))"

fun claim_write_loop ::
    "nat \<Rightarrow> bool \<Rightarrow> nat \<Rightarrow> nat \<Rightarrow> sp_seq \<Rightarrow> micro_event ring_buffer \<Rightarrow> (ub_error + sp_seq \<times> micro_event ring_buffer) option" where
  "claim_write_loop fuel pub v 0 s rb = Some (Inr (s, rb))"
| "claim_write_loop fuel pub v (Suc n) s rb =
     (case sp_next fuel (\<lambda>_. s) of
        None \<Rightarrow> None
      | Some (Inl e, s') \<Rightarrow> Some (Inl (NextFailed (if pub then ''claim-write-publish'' else ''claim-write'') e))
      | Some (Inr q, s') \<Rightarrow>
          (case ring_update rb q (\<lambda>e. e\<lparr>me_value := wrap_i64 (int v)\<rparr>) of
             None \<Rightarrow> None
           | Some rb' \<Rightarrow> claim_write_loop fuel pub (Suc v) n (if pub then sp_publish q s' else s') rb'))"

definition claim_write_round ::
    "nat \<Rightarrow> bool \<Rightarrow> (nat \<Rightarrow> nat) \<Rightarrow> store \<Rightarrow> wait_strategy \<Rightarrow> ub_config \<Rightarrow>
     (ub_error + nat \<times> i64 \<times> i64) option" where
  "claim_write_round fuel pub clock h ws cfg =
     (case ring_new (ub_buffer_size cfg) (\<lambda>_. \<lparr>me_value = 0\<rparr>) of
        Inl e \<Rightarrow> Some (Inl (RingFailed (if pub then ''claim-write-publish'' else ''claim-write'') e))
      | Inr rb \<Rightarrow>
          Option.bind (sp_new (ub_buffer_size cfg) ws 0 h) (\<lambda>s.
          Option.bind (claim_write_loop fuel pub 0 (ub_events_total cfg) s rb) (\<lambda>r.
          case r of
            Inl e \<Rightarrow> Some (Inl e)
          | Inr (s', rb') \<Rightarrow>
              map_option (\<lambda>checksum. Inr (clock 1 - clock 0, checksum, seq_get (sp_mem s') (sp_get_cursor s')))
                (checksum_ring_buffer rb' (ub_events_total cfg)))))"

definition claim_write_record :: "ub_config \<Rightarrow> nat \<Rightarrow> bool \<Rightarrow> nat \<times> i64 \<times> i64 \<Rightarrow> bool \<Rightarrow> ub_record" where
  "claim_write_record cfg i measured = (\<lambda>(elapsed, checksum, cursor) valid.
     \<lparr>ur_round_index = i, ur_measured = measured, ur_elapsed_ns = elapsed, ur_ops_per_sec = ops_per_sec (ub_events_total cfg) elapsed,
      ur_events_expected = Some (ub_events_total cfg), ur_events_observed = Some (ub_events_total cfg),
      ur_checksum_expected = Some (ub_arithmetic_checksum (ub_events_total cfg)), ur_checksum_observed = Some checksum,
      ur_last_expected = Some (sub_i64 (wrap_i64 (int (ub_events_total cfg))) 1), ur_last_observed = Some cursor, ur_valid = valid\<rparr>)"

definition run_claim_write ::
    "nat \<Rightarrow> (nat \<Rightarrow> nat) \<Rightarrow> store \<Rightarrow> wait_strategy \<Rightarrow> ub_config \<Rightarrow> nat \<Rightarrow> bool \<Rightarrow> (ub_error + ub_record) option" where
  "run_claim_write fuel clock h ws cfg i measured =
     map_option (map_sum id (\<lambda>r. claim_write_record cfg i measured r
         (fst (snd r) = ub_arithmetic_checksum (ub_events_total cfg))))
       (claim_write_round fuel False clock h ws cfg)"

definition run_claim_write_publish ::
    "nat \<Rightarrow> (nat \<Rightarrow> nat) \<Rightarrow> store \<Rightarrow> wait_strategy \<Rightarrow> ub_config \<Rightarrow> nat \<Rightarrow> bool \<Rightarrow> (ub_error + ub_record) option" where
  "run_claim_write_publish fuel clock h ws cfg i measured =
     map_option (map_sum id (\<lambda>r. claim_write_record cfg i measured r
         (fst (snd r) = ub_arithmetic_checksum (ub_events_total cfg) \<and>
          snd (snd r) = sub_i64 (wrap_i64 (int (ub_events_total cfg))) 1)))
       (claim_write_round fuel True clock h ws cfg)"

text \<open>
  End to end: the runtime is there (its construction may fail), the main thread waits for the consumer,
  publishes, waits for the count, reads the cells and stops the runtime; an error of the run comes before
  an error of the shutdown.
\<close>

definition end_to_end_run ::
    "nat \<Rightarrow> end_env \<Rightarrow> string \<Rightarrow> (i64 \<Rightarrow> 'e \<Rightarrow> 'e) \<Rightarrow> 'e ring_buffer \<Rightarrow> ub_config \<Rightarrow> nat \<Rightarrow> bool \<Rightarrow> (ub_error + ub_record) option" where
  "end_to_end_run fuel env what put rb cfg i measured =
     (let n = ub_events_total cfg in
      case wait_for_ready fuel env (ub_timeout_secs cfg) 0 of
        None \<Rightarrow> None
      | Some (Inl e) \<Rightarrow> Some (Inl e)
      | Some (Inr t) \<Rightarrow>
          (case claim_values fuel what put (ee_claims env) rb 0 n of
             None \<Rightarrow> None
           | Some (Inl e) \<Rightarrow> Some (Inl e)
           | Some (Inr _) \<Rightarrow>
               (case wait_for_processed fuel env n (ub_timeout_secs cfg) (Suc t) of
                  None \<Rightarrow> None
                | Some (Inl e) \<Rightarrow> Some (Inl e)
                | Some (Inr u) \<Rightarrow>
                    let elapsed = ee_clock env u - ee_clock env t; expected = ub_arithmetic_checksum n;
                        processed = fst (ee_cells env (u + 1)); checksum = snd (ee_cells env (u + 2)) in
                    Some (Inr
                      \<lparr>ur_round_index = i, ur_measured = measured, ur_elapsed_ns = elapsed, ur_ops_per_sec = ops_per_sec n elapsed,
                       ur_events_expected = Some n, ur_events_observed = Some processed,
                       ur_checksum_expected = Some expected, ur_checksum_observed = Some checksum,
                       ur_last_expected = Some (sub_i64 (wrap_i64 (int n)) 1), ur_last_observed = Some (ee_cursor env (u + 3)),
                       ur_valid = (processed = n \<and> checksum = expected)\<rparr>))))"

definition with_runtime ::
    "(ub_error + 'e direct_runtime) option \<Rightarrow> ('e direct_runtime \<Rightarrow> (ub_error + ub_record) option) \<Rightarrow> (ub_error + ub_record) option" where
  "with_runtime runtime k = (case runtime of None \<Rightarrow> None | Some (Inl e) \<Rightarrow> Some (Inl e) | Some (Inr rt) \<Rightarrow> k rt)"

definition with_shutdown ::
    "end_env \<Rightarrow> string \<Rightarrow> 'e direct_runtime \<Rightarrow> (ub_error + ub_record) option \<Rightarrow> (ub_error + ub_record) option" where
  "with_shutdown env who runtime result =
     Option.bind result (\<lambda>run_result.
       map_option (\<lambda>(shutdown_result, w).
         case run_result of Inl e \<Rightarrow> Inl e | Inr round_record \<Rightarrow> map_sum id (\<lambda>_. round_record) shutdown_result)
         (direct_shutdown (ee_cas env) (ee_snapshot env) who (ee_joined env) (dr_consumer_sequence runtime) (ee_world env)))"

text \<open>The three layouts of the comparison event differ in their alignment only.\<close>

definition populate_micro_event :: "i64 \<Rightarrow> micro_event \<Rightarrow> micro_event" where
  "populate_micro_event v e = e\<lparr>me_value := v\<rparr>"

definition populate_comparison_event :: "i64 \<Rightarrow> comparison_event \<Rightarrow> comparison_event" where
  "populate_comparison_event v e = e\<lparr>ev_value := v, stage1_value := 0, stage2_value := 0, stage3_value := 0\<rparr>"

definition populate_padded_comparison_event :: "i64 \<Rightarrow> comparison_event \<Rightarrow> comparison_event" where
  "populate_padded_comparison_event v e = e\<lparr>ev_value := v, stage1_value := 0, stage2_value := 0, stage3_value := 0\<rparr>"

definition populate_padded128_comparison_event :: "i64 \<Rightarrow> comparison_event \<Rightarrow> comparison_event" where
  "populate_padded128_comparison_event v e = e\<lparr>ev_value := v, stage1_value := 0, stage2_value := 0, stage3_value := 0\<rparr>"

type_synonym end_to_end = "nat \<Rightarrow> end_env \<Rightarrow> wait_strategy \<Rightarrow> ub_config \<Rightarrow> nat \<Rightarrow> bool \<Rightarrow> (ub_error + ub_record) option"

definition run_end_to_end_minimal :: end_to_end where
  "run_end_to_end_minimal fuel env ws cfg i measured =
     with_runtime (direct_consumer_runtime_new (ee_rcu env) (ub_buffer_size cfg) ws 0 1 (ee_store env)) (\<lambda>runtime.
       with_shutdown env ''direct consumer'' runtime
         (end_to_end_run fuel env ''end-to-end'' populate_micro_event (dr_ring runtime) cfg i measured))"

definition run_end_to_end_comparison :: end_to_end where
  "run_end_to_end_comparison fuel env ws cfg i measured =
     with_runtime (direct_comparison_runtime_new (ee_rcu env) (ub_buffer_size cfg) ws 0 1 (ee_store env)) (\<lambda>runtime.
       with_shutdown env ''comparison consumer'' runtime
         (end_to_end_run fuel env ''comparison end-to-end'' populate_comparison_event (dr_ring runtime) cfg i measured))"

definition run_end_to_end_comparison_padded64 :: end_to_end where
  "run_end_to_end_comparison_padded64 fuel env ws cfg i measured =
     with_runtime (direct_padded_comparison_runtime_new (ee_rcu env) (ub_buffer_size cfg) ws 0 1 (ee_store env)) (\<lambda>runtime.
       with_shutdown env ''padded comparison consumer'' runtime
         (end_to_end_run fuel env ''padded comparison end-to-end'' populate_padded_comparison_event (dr_ring runtime) cfg i measured))"

definition run_end_to_end_comparison_padded128 :: end_to_end where
  "run_end_to_end_comparison_padded128 fuel env ws cfg i measured =
     with_runtime (direct_padded128_comparison_runtime_new (ee_rcu env) (ub_buffer_size cfg) ws 0 1 (ee_store env)) (\<lambda>runtime.
       with_shutdown env ''padded-128 comparison consumer'' runtime
         (end_to_end_run fuel env ''padded-128 comparison end-to-end'' populate_padded128_comparison_event (dr_ring runtime) cfg i measured))"

definition run_end_to_end :: end_to_end where
  "run_end_to_end fuel env ws cfg i measured =
     (case ub_layout cfg of
        MinimalLayout \<Rightarrow> run_end_to_end_minimal fuel env ws cfg i measured
      | ComparisonLayout \<Rightarrow> run_end_to_end_comparison fuel env ws cfg i measured
      | Padded64Layout \<Rightarrow> run_end_to_end_comparison_padded64 fuel env ws cfg i measured
      | Padded128Layout \<Rightarrow> run_end_to_end_comparison_padded128 fuel env ws cfg i measured)"

section \<open>Phases and the program\<close>

fun ub_strategy :: "wait_kind \<Rightarrow> wait_strategy" where
  "ub_strategy WkBusySpin = BusySpinStrategy"
| "ub_strategy WkYielding = YieldingStrategy"

definition run_phase_with :: "nat \<Rightarrow> end_env \<Rightarrow> wait_strategy \<Rightarrow> ub_config \<Rightarrow> ub_phase \<Rightarrow> nat \<Rightarrow> bool \<Rightarrow> (ub_error + ub_record) option" where
  "run_phase_with fuel env ws cfg ph i measured =
     (case ph of
        Baseline \<Rightarrow> Some (Inr (run_baseline (ee_clock env) cfg i measured))
      | ClaimOnly \<Rightarrow> run_claim_only fuel (ee_clock env) (ee_store env) ws cfg i measured
      | ClaimWrite \<Rightarrow> run_claim_write fuel (ee_clock env) (ee_store env) ws cfg i measured
      | ClaimWritePublish \<Rightarrow> run_claim_write_publish fuel (ee_clock env) (ee_store env) ws cfg i measured
      | EndToEnd \<Rightarrow> run_end_to_end fuel env ws cfg i measured)"

fun ub_rounds :: "nat \<Rightarrow> (nat \<Rightarrow> end_env) \<Rightarrow> ub_config \<Rightarrow> ub_phase \<Rightarrow> nat \<Rightarrow> nat \<Rightarrow> (ub_error + ub_record list) option" where
  "ub_rounds fuel env cfg ph i 0 = Some (Inr [])"
| "ub_rounds fuel env cfg ph i (Suc n) =
     (case run_phase_with fuel (env i) (ub_strategy (ub_wait cfg)) cfg ph (i + 1) (ub_warmup_rounds cfg \<le> i) of
        None \<Rightarrow> None
      | Some (Inl e) \<Rightarrow> Some (Inl e)
      | Some (Inr r) \<Rightarrow>
          (case ub_rounds fuel env cfg ph (Suc i) n of
             None \<Rightarrow> None
           | Some (Inl e) \<Rightarrow> Some (Inl e)
           | Some (Inr rs) \<Rightarrow> Some (Inr (r # rs))))"

definition ub_summarize :: "ub_record list \<Rightarrow> summary" where
  "ub_summarize runs =
     (let measured = sort (map ur_ops_per_sec (filter ur_measured runs)); len = length measured;
          mean = (if len = 0 then 0 else div_f64 (sum_f64 measured) (as_f64 len));
          variance = (if len \<le> 1 then 0 else div_f64 (sum_f64 (map (\<lambda>x. let d = sub_f64 x mean in mul_f64 d d) measured)) (as_f64 len));
          stddev = sqrt_f64 variance
      in \<lparr>sm_checksum_valid_all = list_all ur_valid runs, sm_median = (if len = 0 then 0 else median_f64 measured), sm_mean = mean,
          sm_min = (if len = 0 then 0 else measured ! 0), sm_max = (if len = 0 then 0 else measured ! (len - 1)), sm_stddev = stddev,
          sm_cv = (if mean = 0 then 0 else div_f64 stddev mean)\<rparr>)"

record ub_phase_result =
  up_phase :: ub_phase
  up_runs :: "ub_record list"
  up_summary :: summary

definition ub_run_phase :: "nat \<Rightarrow> (nat \<Rightarrow> end_env) \<Rightarrow> ub_config \<Rightarrow> ub_phase \<Rightarrow> (ub_error + ub_phase_result) option" where
  "ub_run_phase fuel env cfg ph =
     map_option (map_sum id (\<lambda>runs. \<lparr>up_phase = ph, up_runs = runs, up_summary = ub_summarize runs\<rparr>))
       (ub_rounds fuel env cfg ph 0 (ub_warmup_rounds cfg + ub_measured_rounds cfg))"

fun ub_run_phases ::
    "nat \<Rightarrow> (ub_phase \<Rightarrow> nat \<Rightarrow> end_env) \<Rightarrow> ub_config \<Rightarrow> ub_phase list \<Rightarrow> (ub_error + ub_phase_result list) option" where
  "ub_run_phases fuel env cfg [] = Some (Inr [])"
| "ub_run_phases fuel env cfg (p # ps) =
     (case ub_run_phase fuel (env p) cfg p of
        None \<Rightarrow> None
      | Some (Inl e) \<Rightarrow> Some (Inl e)
      | Some (Inr r) \<Rightarrow>
          (case ub_run_phases fuel env cfg ps of
             None \<Rightarrow> None
           | Some (Inl e) \<Rightarrow> Some (Inl e)
           | Some (Inr rs) \<Rightarrow> Some (Inr (r # rs))))"

record ub_result =
  us_config :: ub_config
  us_event_size_bytes :: nat
  us_estimated_ring_bytes :: nat
  us_phases :: "ub_phase_result list"
  us_ratio :: "f64 option"
  us_delta :: "f64 option"

definition publish_comparison :: "ub_phase_result list \<Rightarrow> (f64 \<times> f64) option" where
  "publish_comparison phases =
     (case (find (\<lambda>p. up_phase p = ClaimWritePublish) phases, find (\<lambda>p. up_phase p = EndToEnd) phases) of
        (Some a, Some b) \<Rightarrow>
          let pub = sm_median (up_summary a); end_to_end = sm_median (up_summary b) in
          if 0 < end_to_end \<and> 0 < pub
          then Some (div_f64 pub end_to_end, sub_f64 (div_f64 1000000000 end_to_end) (div_f64 1000000000 pub))
          else None
      | _ \<Rightarrow> None)"

text \<open>The size of the ring is a plain product of \<open>u64\<close>; a release build wraps.\<close>

definition run_breakdown :: "nat \<Rightarrow> (ub_phase \<Rightarrow> nat \<Rightarrow> end_env) \<Rightarrow> ub_config \<Rightarrow> (ub_error + ub_result) option" where
  "run_breakdown fuel env cfg =
     map_option (map_sum id (\<lambda>phases.
       \<lparr>us_config = cfg, us_event_size_bytes = event_layout_size (ub_layout cfg),
        us_estimated_ring_bytes = wrapping_mul_u64 (ub_buffer_size cfg) (event_layout_size (ub_layout cfg)), us_phases = phases,
        us_ratio = map_option fst (publish_comparison phases), us_delta = map_option snd (publish_comparison phases)\<rparr>))
       (ub_run_phases fuel env cfg (ub_phases (ub_mode_of cfg)))"

text \<open>The exit code and the printed result. Validity is only reported: an invalid phase does not change the code.\<close>

definition ub_main ::
    "nat \<Rightarrow> (ub_phase \<Rightarrow> nat \<Rightarrow> end_env) \<Rightarrow> (string \<Rightarrow> bool) \<Rightarrow> string list \<Rightarrow> (nat \<times> ub_result option) option" where
  "ub_main fuel env write_output args =
     (case bind_cli (ub_from_args ub_cli_init args)
             (\<lambda>r. case r of None \<Rightarrow> Inr None | Some c \<Rightarrow> bind_cli (ub_try_from c) (\<lambda>c'. Inr (Some c'))) of
        Inl e \<Rightarrow> Some (1, None)
      | Inr None \<Rightarrow> Some (0, None)
      | Inr (Some cfg) \<Rightarrow>
          (case run_breakdown fuel env cfg of
             None \<Rightarrow> None
           | Some (Inl e) \<Rightarrow> Some (1, None)
           | Some (Inr result) \<Rightarrow>
               if (case ub_output cfg of None \<Rightarrow> False | Some path \<Rightarrow> \<not> write_output path) then Some (1, None)
               else Some (0, Some result)))"

definition example_ub_config :: ub_config where
  "example_ub_config =
     \<lparr>ub_mode_of = UbAll, ub_wait = WkBusySpin, ub_layout = MinimalLayout, ub_events_total = 3, ub_buffer_size = 4, ub_allow_wrap = False,
      ub_warmup_rounds = 0, ub_measured_rounds = 1, ub_timeout_secs = 1, ub_output = None\<rparr>"

definition example_end_env :: end_env where
  "example_end_env =
     \<lparr>ee_ready = \<lambda>_. True, ee_cells = \<lambda>t. [(0, 0), (0, 0), (1, 0)] ! (if t < 4 then 0 else 2), ee_clock = \<lambda>t. t,
      ee_claims = \<lambda>v _. if v = 0 then sp_fresh else sp_fresh\<lparr>sp_next_value := int v - 1\<rparr>, ee_cursor = \<lambda>_. 0, ee_joined = Some (Inr ()),
      ee_world = example_direct_world 13, ee_rcu = \<lambda>f. f, ee_cas = fresh_cas, ee_snapshot = 0, ee_store = \<lambda>_. 0\<rparr>"

section \<open>The expected checksum\<close>

lemma ub_checksum_exact:
  assumes "int n * (int n - 1) \<le> i64_max"
  shows "ub_arithmetic_checksum n = arithmetic_checksum n"
proof (cases n)
  case 0
  then show ?thesis by (simp add: ub_arithmetic_checksum_def arithmetic_checksum_def half_i64_def wrap_i64_def)
next
  case (Suc m)
  have prod: "int m * int (Suc m) \<le> i64_max" using assms Suc by (simp add: mult.commute)
  have "int (Suc m) \<le> i64_max"
  proof (cases m)
    case (Suc k)
    then have "int (Suc m) \<le> int m * int (Suc m)" by simp
    with prod show ?thesis by linarith
  qed simp
  then have fit: "wrap_i64 (int m) = int m" "wrap_i64 (int (Suc m)) = int (Suc m)" by (simp_all add: wrap_i64_id in_i64_def)
  have pos: "0 \<le> int m * int (Suc m)" by simp
  then have "in_i64 (int m * int (Suc m))" unfolding in_i64_def using prod by linarith
  then have p: "wrap_i64 (int m * int (Suc m)) = int m * int (Suc m)" by (rule wrap_i64_id)
  have "int m * int (Suc m) div 2 \<le> int m * int (Suc m)" using pos by linarith
  then have "wrap_i64 (int m * int (Suc m) div 2) = int m * int (Suc m) div 2"
    using prod pos by (intro wrap_i64_id) (simp add: in_i64_def pos_imp_zdiv_nonneg_iff)
  then have "arithmetic_checksum n = int m * int (Suc m) div 2" by (simp add: arithmetic_checksum_def Suc mult.commute)
  moreover have "ub_arithmetic_checksum n = int m * int (Suc m) div 2"
    unfolding ub_arithmetic_checksum_def Suc diff_Suc_1 fit p half_i64_def using pos by simp
  ultimately show ?thesis by simp
qed

lemma fold_checksum: "fold (\<lambda>v acc. add_i64 acc (wrap_i64 (int v))) [0..<n] 0 = arithmetic_checksum n"
proof -
  have step: "(word_of_int (fold (\<lambda>v acc. add_i64 acc (wrap_i64 (int v))) vs a) :: u64) = word_of_int a + word_of_int (sum_list (map int vs))" for vs a
    by (induction vs arbitrary: a) (simp_all add: word_of_add_i64 word_of_wrap)
  have "in_i64 (fold (\<lambda>v acc. add_i64 acc (wrap_i64 (int v))) [0..<n] 0)"
    by (cases n) (simp_all add: in_i64_def add_i64_def in_i64_wrap [unfolded in_i64_def])
  then have "fold (\<lambda>v acc. add_i64 acc (wrap_i64 (int v))) [0..<n] 0 =
      sint (word_of_int (fold (\<lambda>v acc. add_i64 acc (wrap_i64 (int v))) [0..<n] 0) :: u64)"
    by (simp only: sint_word_of_int wrap_i64_id)
  then show ?thesis unfolding step arithmetic_checksum_sum by simp
qed

text \<open>
  The expected checksum of the unicast breakdown overflows. With \<open>2^32 + 1\<close> events the product under the
  division wraps around, so the plain sum, which is what the head-to-head program expects of that many
  events, is recorded as invalid.
\<close>

theorem baseline_checksum_overflow:
  assumes "ub_events_total cfg = 4294967297"
  shows "ur_checksum_observed (run_baseline clock cfg i m) = Some (arithmetic_checksum (ub_events_total cfg)) \<and>
    \<not> ur_valid (run_baseline clock cfg i m)"
proof -
  have "ub_arithmetic_checksum 4294967297 \<noteq> arithmetic_checksum 4294967297"
    by (simp add: ub_arithmetic_checksum_def arithmetic_checksum_def half_i64_def wrap_i64_def)
  with assms show ?thesis unfolding run_baseline_def Let_def fold_checksum by simp
qed

theorem baseline_checksum_overflow_witness:
  "\<not> ur_valid (run_baseline (\<lambda>t. t) (example_ub_config\<lparr>ub_events_total := 4294967297\<rparr>) 1 True)"
  using baseline_checksum_overflow [of "example_ub_config\<lparr>ub_events_total := 4294967297\<rparr>" "\<lambda>t. t" 1 True] by simp

section \<open>Claims without a consumer\<close>

text \<open>A sequencer nobody gates, at rest, that has handed out \<open>v\<close> sequences.\<close>

definition free_at :: "nat \<Rightarrow> nat \<Rightarrow> sp_seq \<Rightarrow> bool" where
  "free_at m v s \<longleftrightarrow> sp_buffer_size_i64 s = int m \<and> int m \<le> i64_max \<and> sp_next_value s = int v - 1 \<and>
     sp_cached_value s = - 1 \<and> \<not> sp_claim_lock s \<and> \<not> sp_poisoned s \<and> \<not> sp_closed s"

lemma free_at_new: "sp_new m ws r h = Some s \<Longrightarrow> free_at m 0 s \<and> seq_get (sp_mem s) (sp_get_cursor s) = - 1"
  by (auto simp: sp_new_def free_at_def i64_try_from_def seq_defs INITIAL_CURSOR_VALUE_def sp_get_cursor_def split: if_splits option.splits)

lemma free_next:
  assumes "free_at m v s" and "v < m"
  shows "sp_next fuel (\<lambda>_. s) = Some (Inr (int v), s\<lparr>sp_next_value := int v\<rparr>)"
proof -
  have fit: "add_i64 (int v - 1) 1 = int v" "sub_i64 (int v) (int m) = int v - int m"
    using assms by (auto simp: free_at_def add_i64_id sub_i64_id in_i64_def)
  have "sp_next_n_inner fuel (\<lambda>_. s) 3 1 (s\<lparr>sp_claim_lock := True\<rparr>) = Some (Ok (int v), 3, s\<lparr>sp_claim_lock := True, sp_next_value := int v\<rparr>)"
    using assms by (simp add: sp_next_n_inner_def free_at_def fit Let_def)
  moreover have "release_claim (rejoin s (s\<lparr>sp_claim_lock := True, sp_next_value := int v\<rparr>)) = s\<lparr>sp_next_value := int v\<rparr>"
    using assms(1) by (cases s) (simp add: release_claim_def rejoin_def free_at_def)
  ultimately show ?thesis
    using assms by (simp add: sp_next_def sp_next_n_def free_at_def sp_claim_state_error_def acquire_claim_def)
qed

lemma free_at_next: "free_at m v s \<Longrightarrow> free_at m (Suc v) (s\<lparr>sp_next_value := int v\<rparr>)"
  by (simp add: free_at_def)

lemma free_at_publish: "free_at m v s \<Longrightarrow> free_at m v (sp_publish q s)"
  by (simp add: free_at_def sp_publish_def Let_def)

lemma claim_only_counts:
  "free_at m v s \<Longrightarrow> v + n \<le> m \<Longrightarrow> claim_only_loop fuel n s (int v - 1) = Some (Inr (int (v + n) - 1))"
proof (induction n arbitrary: v s)
  case (Suc n)
  then have "v < m" "Suc v + n \<le> m" by simp_all
  with Suc.IH [OF free_at_next [OF Suc.prems(1)]] free_next [OF Suc.prems(1), of fuel] show ?case by simp
qed simp

lemma claim_write_writes:
  assumes "free_at m v s" and "v + n \<le> m" and "ring_invar rb"
  shows "\<exists>s' rb'. claim_write_loop fuel pub v n s rb = Some (Inr (s', rb')) \<and>
    write_seqs ring_update (\<lambda>q e. e\<lparr>me_value := q\<rparr>) [int v..int (v + n) - 1] rb = Some rb' \<and> sp_cursor s' = sp_cursor s \<and>
    sp_mem s' (sp_cursor s) = (if pub \<and> 0 < n then int (v + n) - 1 else sp_mem s (sp_cursor s))"
  using assms
proof (induction n arbitrary: v s rb)
  case (Suc n)
  have v: "v < m" "Suc v + n \<le> m" using Suc.prems(2) by simp_all
  have fit: "wrap_i64 (int v) = int v" using Suc.prems(1) v(1) by (intro wrap_i64_id) (simp add: free_at_def in_i64_def)
  obtain rb1 where rb1: "ring_update rb (int v) (\<lambda>e. e\<lparr>me_value := int v\<rparr>) = Some rb1" using rb.upd_total [OF Suc.prems(3)] by blast
  have inv1: "ring_invar rb1" using rb.upd_invar [OF Suc.prems(3) rb1] by blast
  define s1 where "s1 = (let s1 = s\<lparr>sp_next_value := int v\<rparr> in if pub then sp_publish (int v) s1 else s1)"
  have free1: "free_at m (Suc v) s1" using free_at_next [OF Suc.prems(1)] free_at_publish by (simp add: s1_def Let_def)
  have s1: "sp_cursor s1 = sp_cursor s" "sp_mem s1 (sp_cursor s) = (if pub then int v else sp_mem s (sp_cursor s))"
    by (simp_all add: s1_def sp_publish_def seq_set_def Let_def)
  obtain s' rb' where rec: "claim_write_loop fuel pub (Suc v) n s1 rb1 = Some (Inr (s', rb'))"
    "write_seqs ring_update (\<lambda>q e. e\<lparr>me_value := q\<rparr>) [int (Suc v)..int (Suc v + n) - 1] rb1 = Some rb'" "sp_cursor s' = sp_cursor s"
    "sp_mem s' (sp_cursor s) = (if pub \<and> 0 < n then int (Suc v + n) - 1 else sp_mem s1 (sp_cursor s))"
    using Suc.IH [OF free1 v(2) inv1] s1(1) by auto
  have "[int v..int (v + Suc n) - 1] = int v # [int (Suc v)..int (Suc v + n) - 1]" by (simp add: upto_rec1 add.commute)
  moreover have "claim_write_loop fuel pub v (Suc n) s rb = Some (Inr (s', rb'))"
    using rec(1) by (simp add: free_next [OF Suc.prems(1) v(1)] fit rb1 s1_def Let_def)
  moreover have "sp_mem s' (sp_cursor s) = (if pub \<and> 0 < Suc n then int (v + Suc n) - 1 else sp_mem s (sp_cursor s))"
    using rec(4) s1(2) by simp
  ultimately show ?case using rec(2,3) rb1 by simp
qed simp

lemma checksum_from_values:
  assumes "\<And>q. v \<le> q \<Longrightarrow> q < v + n \<Longrightarrow> ring_get rb (wrap_i64 (int q)) = Some \<lparr>me_value = wrap_i64 (int q)\<rparr>"
  shows "checksum_from rb v n acc = Some (fold (\<lambda>v acc. add_i64 acc (wrap_i64 (int v))) [v..<v + n] acc)"
  using assms
proof (induction n arbitrary: v acc)
  case (Suc n)
  have "[v..<v + Suc n] = v # [Suc v..<Suc v + n]" by (simp add: upt_rec)
  with Suc.IH [of "Suc v" "add_i64 acc (wrap_i64 (int v))"] Suc.prems show ?case by simp
qed simp

lemma claim_write_round_values:
  assumes "0 < ub_events_total cfg" and "ub_events_total cfg \<le> ub_buffer_size cfg" and "is_power_of_two (ub_buffer_size cfg)"
    and "int (ub_buffer_size cfg) \<le> i64_max"
  shows "claim_write_round fuel pub clock h ws cfg =
    Some (Inr (clock 1 - clock 0, arithmetic_checksum (ub_events_total cfg), if pub then int (ub_events_total cfg) - 1 else - 1))"
proof -
  let ?n = "ub_events_total cfg" and ?m = "ub_buffer_size cfg" and ?f = "\<lambda>q e. e\<lparr>me_value := q\<rparr>"
  obtain rb where rb: "ring_new ?m (\<lambda>_. \<lparr>me_value = 0\<rparr>) = Ok rb"
    using assms(3,4) by (auto simp: ring_new_def new_with_padding_def i64_try_from_def)
  note inv = new_with_padding_invar [OF rb [unfolded ring_new_def]]
  obtain s where s: "sp_new ?m ws 0 h = Some s" using assms(4) by (auto simp: sp_new_def i64_try_from_def)
  note free = free_at_new [OF s]
  obtain s' rb' where loop: "claim_write_loop fuel pub 0 ?n s rb = Some (Inr (s', rb'))"
    "write_seqs ring_update ?f [0..int ?n - 1] rb = Some rb'" "sp_cursor s' = sp_cursor s"
    "sp_mem s' (sp_cursor s) = (if pub then int ?n - 1 else sp_mem s (sp_cursor s))"
    using claim_write_writes [OF conjunct1 [OF free], of ?n rb fuel pub] inv assms(1,2) by auto
  have "ring_get rb' (wrap_i64 (int q)) = Some \<lparr>me_value = wrap_i64 (int q)\<rparr>" if "q < ?n" for q
  proof -
    have fit: "wrap_i64 (int q) = int q" using assms(2,4) that by (intro wrap_i64_id) (simp add: in_i64_def)
    obtain e where "ring_get rb (int q) = Some e" using rb.get_total inv by blast
    with rb.write_window [of rb "int ?n - 1" 0 ?f rb' "int q"] inv loop(2) assms(1,2) that show ?thesis
      by (cases e) (simp add: fit)
  qed
  then have "checksum_ring_buffer rb' ?n = Some (arithmetic_checksum ?n)"
    using checksum_from_values [of 0 ?n rb' 0] by (simp add: checksum_ring_buffer_def fold_checksum)
  moreover have "seq_get (sp_mem s') (sp_get_cursor s') = (if pub then int ?n - 1 else - 1)"
    using loop(3,4) free by (simp add: sp_get_cursor_def seq_get_def)
  ultimately show ?thesis by (simp add: claim_write_round_def rb s loop(1))
qed

text \<open>
  The phases without a consumer succeed. For an accepted configuration whose expected checksum does not
  overflow, every round of the baseline, the claiming, the writing and the publishing phase returns a
  record, without waiting, and the record is valid: the sequencer hands out consecutive sequences, every
  value is in its own slot, and the cursor is where it should be.
\<close>

theorem claim_phases_valid:
  assumes "ub_try_from c = Inr cfg" and "ph \<in> set (ub_phases (ub_mode_of cfg))" and "ph \<noteq> EndToEnd"
    and "int (ub_buffer_size cfg) \<le> i64_max" and "int (ub_events_total cfg) * (int (ub_events_total cfg) - 1) \<le> i64_max"
  shows "\<exists>r. run_phase_with fuel env ws cfg ph i m = Some (Inr r) \<and> ur_valid r \<and> ur_events_observed r = Some (ub_events_total cfg)"
proof -
  let ?n = "ub_events_total cfg"
  have "ub_mode_of cfg \<noteq> UbEndToEnd" using assms(2,3) by (cases "ub_mode_of cfg") auto
  then have cfg: "0 < ?n" "?n \<le> ub_buffer_size cfg" "is_power_of_two (ub_buffer_size cfg)"
    using assms(1) by (auto simp: ub_try_from_def Let_def split: if_splits option.splits)
  have last: "sub_i64 (wrap_i64 (int ?n)) 1 = int ?n - 1"
    using cfg(1,2) assms(4) by (simp add: wrap_i64_id sub_i64_id in_i64_def)
  note sums = ub_checksum_exact [OF assms(5)]
  obtain s where s: "sp_new (ub_buffer_size cfg) ws 0 (ee_store env) = Some s" using assms(4) by (auto simp: sp_new_def i64_try_from_def)
  have only: "claim_only_loop fuel ?n s (- 1) = Some (Inr (int ?n - 1))"
    using claim_only_counts [OF conjunct1 [OF free_at_new [OF s]], of ?n fuel] cfg(2) by simp
  note written = claim_write_round_values [OF cfg assms(4)]
  show ?thesis
  proof (cases ph)
    case Baseline
    then show ?thesis by (simp add: run_phase_with_def run_baseline_def Let_def fold_checksum sums)
  next
    case ClaimOnly
    then show ?thesis by (simp add: run_phase_with_def run_claim_only_def s Let_def only last)
  next
    case ClaimWrite
    then show ?thesis by (simp add: run_phase_with_def run_claim_write_def written claim_write_record_def sums)
  next
    case ClaimWritePublish
    then show ?thesis by (simp add: run_phase_with_def run_claim_write_publish_def written claim_write_record_def sums last)
  qed (use assms(3) in simp)
qed

theorem claim_phases_valid_witness:
  "\<exists>cfg r. ub_try_from (ub_cli_init\<lparr>uc_events_total := 3\<rparr>) = Inr cfg \<and>
     run_phase_with 0 example_end_env BusySpinStrategy cfg ClaimWritePublish 1 True = Some (Inr r) \<and> ur_valid r"
proof -
  let ?c = "ub_cli_init\<lparr>uc_events_total := 3\<rparr>"
  have "ilog2 2 = 1" by code_simp
  then have "checked_next_power_of_two 3 = Some 4" by (simp add: checked_next_power_of_two_def)
  moreover have "is_power_of_two 4" by code_simp
  ultimately obtain cfg where cfg: "ub_try_from ?c = Inr cfg" "ub_mode_of cfg = UbAll" "ub_buffer_size cfg = 4" "ub_events_total cfg = 3"
    by (simp add: ub_try_from_def ub_cli_init_def Let_def)
  with claim_phases_valid [OF cfg(1), of ClaimWritePublish 0 example_end_env BusySpinStrategy 1 True] show ?thesis by auto
qed

section \<open>The verdict of an end-to-end round\<close>

lemma await_reached:
  assumes "await fuel ok clock secs t = Some (True, u)"
  shows "t < u \<and> ok (u - 1)"
proof -
  have "\<exists>v. t < v \<and> await_body ok clock (clock t + secs * 1000000000) v = Inl (True, u)"
    using assms unfolding await_def by (rule poll_inv [where I = "\<lambda>v. t < v"]) (auto simp: await_body_def split: if_splits)
  then show ?thesis by (auto simp: await_body_def split: if_splits)
qed

lemma wait_for_processed_reached:
  assumes "wait_for_processed fuel env n secs t = Some (Inr u)"
  shows "fst (ee_cells env (u - 1)) = n \<and> t < u"
proof -
  from assms have "await fuel (\<lambda>u. fst (ee_cells env u) = n) (ee_clock env) secs t = Some (True, u)"
    by (auto simp: wait_for_processed_def split: if_splits)
  from await_reached [OF this] show ?thesis by simp
qed


lemma example_claim:
  "\<exists>s. sp_next 9 (ee_claims example_end_env 0) = Some (Inr 0, s)"
  "ring_update example_direct_ring 0 (populate_micro_event (wrap_i64 (int 0))) = Some example_direct_ring"
proof -
  have "map_option fst (sp_next 9 (ee_claims example_end_env 0)) = Some (Inr 0)" by code_simp
  then show "\<exists>s. sp_next 9 (ee_claims example_end_env 0) = Some (Inr 0, s)" by auto
  show "ring_update example_direct_ring 0 (populate_micro_event (wrap_i64 (int 0))) = Some example_direct_ring" by code_simp
qed

lemma example_successive: "successive 9 1 (ee_claims (example_end_env))"
proof -
  have "map_option (sp_next_value \<circ> snd) (sp_next 9 (\<lambda>_. sp_fresh)) = Some 0" by code_simp
  then have "sp_next_value s = 0" if "sp_next 9 (\<lambda>_. sp_fresh) = Some (r, s)" for r s using that by auto
  then show ?thesis
    by (auto simp: successive_def example_end_env_def sp_env_def sp_inv_def sp_room_def mono_traj_def sp_fresh_def sp_new_def
        i64_try_from_def seq_defs INITIAL_CURSOR_VALUE_def)
qed

lemma example_follows:
  "follows example_direct_world (\<lambda>_. example_direct_ring) (ring_buffer_size example_direct_ring) [(0, s, example_direct_ring)]"
  by (auto simp: follows_def readable_def bw_tracked_def tracked_def bw_store_def example_direct_world_def barrier_new_def
      example_direct_ring_def ring_buffer_size_def)


end
