(* ===== verification/Breakdown_Json.thy ===== *)
theory Breakdown_Json
  imports Json_Text Unicast_Breakdown
begin

text \<open>
  The reports of the two breakdown programs: \<open>render_json\<close> of \<open>src/bin/unicast_breakdown.rs\<close> and of
  \<open>src/bin/pipeline_breakdown.rs\<close> with their helpers, and the JSON values the reports stand for.
\<close>

section \<open>The unicast report\<close>

definition push_kv :: "nat \<Rightarrow> string \<Rightarrow> string \<Rightarrow> bool \<Rightarrow> writer" where
  "push_kv indent key v trailing_comma = field_line indent key (quoted v) trailing_comma"

definition push_kv_nat :: "nat \<Rightarrow> string \<Rightarrow> nat \<Rightarrow> bool \<Rightarrow> writer" where
  "push_kv_nat indent key v trailing_comma = field_line indent key (show_nat v) trailing_comma"

definition push_kv_int :: "nat \<Rightarrow> string \<Rightarrow> i64 \<Rightarrow> bool \<Rightarrow> writer" where
  "push_kv_int indent key v trailing_comma = field_line indent key (show_int v) trailing_comma"

definition push_kv_float :: "nat \<Rightarrow> string \<Rightarrow> f64 \<Rightarrow> bool \<Rightarrow> writer" where
  "push_kv_float indent key v trailing_comma = field_line indent key (show_fixed 6 v) trailing_comma"

definition push_kv_bool :: "nat \<Rightarrow> string \<Rightarrow> bool \<Rightarrow> bool \<Rightarrow> writer" where
  "push_kv_bool indent key v trailing_comma = field_line indent key (show_bool v) trailing_comma"

definition push_null :: "nat \<Rightarrow> string \<Rightarrow> bool \<Rightarrow> writer" where
  "push_null indent key trailing_comma = field_line indent key ''null'' trailing_comma"

definition push_opt_u64 :: "nat \<Rightarrow> string \<Rightarrow> nat option \<Rightarrow> bool \<Rightarrow> writer" where
  "push_opt_u64 indent key v trailing_comma =
     (case v of Some x \<Rightarrow> push_kv_nat indent key x trailing_comma | None \<Rightarrow> push_null indent key trailing_comma)"

definition push_opt_i64 :: "nat \<Rightarrow> string \<Rightarrow> i64 option \<Rightarrow> bool \<Rightarrow> writer" where
  "push_opt_i64 indent key v trailing_comma =
     (case v of Some x \<Rightarrow> push_kv_int indent key x trailing_comma | None \<Rightarrow> push_null indent key trailing_comma)"

definition opt_writer :: "('a \<Rightarrow> writer) \<Rightarrow> 'a option \<Rightarrow> writer" where
  "opt_writer w v = (case v of Some x \<Rightarrow> w x | None \<Rightarrow> write_all [])"

definition round_phase_as_str :: "bool \<Rightarrow> string" where
  "round_phase_as_str measured = (if measured then ''measured'' else ''warmup'')"

definition ub_render_run :: "bool \<Rightarrow> ub_record \<Rightarrow> writer" where
  "ub_render_run final r = write_all
     [text_line 8 ''{'',
      push_kv_nat 10 ''round_index'' (ur_round_index r) True,
      push_kv 10 ''phase'' (round_phase_as_str (ur_measured r)) True,
      push_kv_nat 10 ''elapsed_ns'' (ur_elapsed_ns r) True,
      push_kv_float 10 ''ops_per_sec'' (ur_ops_per_sec r) True,
      push_opt_u64 10 ''events_expected'' (ur_events_expected r) True,
      push_opt_u64 10 ''events_observed'' (ur_events_observed r) True,
      push_opt_i64 10 ''checksum_expected'' (ur_checksum_expected r) True,
      push_opt_i64 10 ''checksum_observed'' (ur_checksum_observed r) True,
      push_opt_i64 10 ''last_sequence_expected'' (ur_last_expected r) True,
      push_opt_i64 10 ''last_sequence_observed'' (ur_last_observed r) True,
      push_kv_bool 10 ''valid'' (ur_valid r) False,
      text_line 8 (if final then ''}'' else ''},'')]"

definition ub_render_summary :: "summary \<Rightarrow> writer" where
  "ub_render_summary s = write_all
     [head_line 6 ''summary'' CHR ''{'',
      push_kv_bool 8 ''valid_all'' (sm_checksum_valid_all s) True,
      push_kv_float 8 ''median_ops_per_sec'' (sm_median s) True,
      push_kv_float 8 ''mean_ops_per_sec'' (sm_mean s) True,
      push_kv_float 8 ''min_ops_per_sec'' (sm_min s) True,
      push_kv_float 8 ''max_ops_per_sec'' (sm_max s) True,
      push_kv_float 8 ''stddev_ops_per_sec'' (sm_stddev s) True,
      push_kv_float 8 ''cv'' (sm_cv s) False,
      text_line 6 ''}'']"

definition ub_render_phase :: "bool \<Rightarrow> ub_phase_result \<Rightarrow> writer" where
  "ub_render_phase final p = write_all
     [text_line 4 ''{'',
      push_kv 6 ''phase'' (ub_phase_as_str (up_phase p)) True,
      head_line 6 ''runs'' CHR ''['',
      write_each ub_render_run (up_runs p),
      text_line 6 ''],'',
      ub_render_summary (up_summary p),
      text_line 4 (if final then ''}'' else ''},'')]"

definition ub_report :: "ub_result \<Rightarrow> writer" where
  "ub_report r = write_all
     [text_line 0 ''{'',
      push_kv 2 ''mode'' (ub_mode_as_str (ub_mode_of (us_config r))) True,
      push_kv 2 ''wait_strategy'' (wait_kind_as_str (ub_wait (us_config r))) True,
      push_kv 2 ''event_layout'' (event_layout_as_str (ub_layout (us_config r))) True,
      push_kv_nat 2 ''events_total'' (ub_events_total (us_config r)) True,
      push_kv_nat 2 ''buffer_size'' (ub_buffer_size (us_config r)) True,
      push_kv_bool 2 ''allow_wrap'' (ub_allow_wrap (us_config r)) True,
      push_kv_nat 2 ''event_size_bytes'' (us_event_size_bytes r) True,
      push_kv_nat 2 ''estimated_ring_bytes'' (us_estimated_ring_bytes r) True,
      opt_writer (\<lambda>ratio. push_kv_float 2 ''publish_vs_end_to_end_ratio'' ratio True) (us_ratio r),
      opt_writer (\<lambda>d. push_kv_float 2 ''publish_vs_end_to_end_delta_ns_per_event'' d True) (us_delta r),
      head_line 2 ''phases'' CHR ''['',
      write_each ub_render_phase (us_phases r),
      text_line 2 '']'',
      text_line 0 ''}'']"

definition ub_render_json :: "ub_result \<Rightarrow> string" where
  "ub_render_json r = ub_report r []"

section \<open>The pipeline report\<close>

definition write_json_field :: "nat \<Rightarrow> string \<Rightarrow> string \<Rightarrow> bool \<Rightarrow> writer" where
  "write_json_field indent key v trailing = field_line indent key (quoted v) trailing"

definition write_json_number :: "nat \<Rightarrow> string \<Rightarrow> nat \<Rightarrow> bool \<Rightarrow> writer" where
  "write_json_number indent key v trailing = field_line indent key (show_nat v) trailing"

definition write_json_number_u128 :: "nat \<Rightarrow> string \<Rightarrow> nat \<Rightarrow> bool \<Rightarrow> writer" where
  "write_json_number_u128 indent key v trailing = field_line indent key (show_nat v) trailing"

definition write_json_i64 :: "nat \<Rightarrow> string \<Rightarrow> i64 \<Rightarrow> bool \<Rightarrow> writer" where
  "write_json_i64 indent key v trailing = field_line indent key (show_int v) trailing"

definition write_json_float :: "nat \<Rightarrow> string \<Rightarrow> f64 \<Rightarrow> bool \<Rightarrow> writer" where
  "write_json_float indent key v trailing = field_line indent key (show_fixed 6 v) trailing"

definition write_optional_float :: "nat \<Rightarrow> string \<Rightarrow> f64 option \<Rightarrow> bool \<Rightarrow> writer" where
  "write_optional_float indent key v trailing =
     (case v of Some x \<Rightarrow> field_line indent key (show_fixed 6 x) trailing | None \<Rightarrow> field_line indent key ''null'' trailing)"

definition write_json_bool :: "nat \<Rightarrow> string \<Rightarrow> bool \<Rightarrow> bool \<Rightarrow> writer" where
  "write_json_bool indent key v trailing = field_line indent key (if v then ''true'' else ''false'') trailing"

definition pb_render_run :: "bool \<Rightarrow> round_record \<Rightarrow> writer" where
  "pb_render_run final r = write_all
     [text_line 8 ''{'',
      write_json_number 10 ''round_index'' (rr_round_index r) True,
      write_json_field 10 ''phase'' (round_phase_as_str (rr_measured r)) True,
      write_json_number_u128 10 ''elapsed_ns'' (rr_elapsed_ns r) True,
      write_json_float 10 ''ops_per_sec'' (rr_ops_per_sec r) True,
      write_json_number 10 ''events_expected'' (rr_events_expected r) True,
      write_json_number 10 ''events_processed'' (rr_events_processed r) True,
      write_json_i64 10 ''checksum_expected'' (rr_checksum_expected r) True,
      write_json_i64 10 ''checksum_observed'' (rr_checksum_observed r) True,
      write_json_bool 10 ''valid'' (rr_valid r) False,
      text_line 8 (if final then ''}'' else ''},'')]"

definition pb_render_summary :: "summary \<Rightarrow> writer" where
  "pb_render_summary s = write_all
     [head_line 6 ''summary'' CHR ''{'',
      write_json_bool 8 ''valid_all'' (sm_checksum_valid_all s) True,
      write_json_float 8 ''median_ops_per_sec'' (sm_median s) True,
      write_json_float 8 ''mean_ops_per_sec'' (sm_mean s) True,
      write_json_float 8 ''min_ops_per_sec'' (sm_min s) True,
      write_json_float 8 ''max_ops_per_sec'' (sm_max s) True,
      write_json_float 8 ''stddev_ops_per_sec'' (sm_stddev s) True,
      write_json_float 8 ''cv'' (sm_cv s) False,
      text_line 6 ''}'']"

definition pb_render_phase :: "bool \<Rightarrow> phase_result \<Rightarrow> writer" where
  "pb_render_phase final p = write_all
     [text_line 4 ''{'',
      write_json_field 6 ''phase'' (pb_phase_as_str (pr_phase p)) True,
      write_json_number 6 ''stage_count'' (pr_stage_count p) True,
      head_line 6 ''runs'' CHR ''['',
      write_each pb_render_run (pr_runs p),
      text_line 6 ''],'',
      pb_render_summary (pr_summary p),
      text_line 4 (if final then ''}'' else ''},'')]"

definition pb_report :: "pb_result \<Rightarrow> writer" where
  "pb_report r = write_all
     [text_line 0 ''{'',
      write_json_field 2 ''tool'' ''pipeline_breakdown'' True,
      write_json_field 2 ''mode'' (pb_mode_as_str (pb_mode_of (br_config r))) True,
      write_json_field 2 ''wait_strategy'' (wait_kind_as_str (pb_wait (br_config r))) True,
      write_json_field 2 ''event_padding'' (event_padding_as_str (pb_padding (br_config r))) True,
      write_json_number 2 ''event_size_bytes'' (br_event_size_bytes r) True,
      write_json_number 2 ''events_total'' (pb_events_total (br_config r)) True,
      write_json_number 2 ''buffer_size'' (pb_buffer_size (br_config r)) True,
      write_json_number 2 ''warmup_rounds'' (pb_warmup_rounds (br_config r)) True,
      write_json_number 2 ''measured_rounds'' (pb_measured_rounds (br_config r)) True,
      write_optional_float 2 ''single_to_two_delta_ns_per_event'' (br_single_to_two r) True,
      write_optional_float 2 ''two_to_three_delta_ns_per_event'' (br_two_to_three r) True,
      head_line 2 ''phases'' CHR ''['',
      write_each pb_render_phase (br_phases r),
      text_line 2 '']'',
      text_line 0 ''}'']"

definition pb_render_json :: "pb_result \<Rightarrow> string" where
  "pb_render_json r = pb_report r []"

section \<open>What the reports say\<close>

definition ub_run_value :: "ub_record \<Rightarrow> json" where
  "ub_run_value r = JObject
     [(''round_index'', jnat (ur_round_index r)), (''phase'', JString (round_phase_as_str (ur_measured r))),
      (''elapsed_ns'', jnat (ur_elapsed_ns r)), (''ops_per_sec'', jfloat 6 (ur_ops_per_sec r)),
      (''events_expected'', jopt jnat (ur_events_expected r)), (''events_observed'', jopt jnat (ur_events_observed r)),
      (''checksum_expected'', jopt jint (ur_checksum_expected r)), (''checksum_observed'', jopt jint (ur_checksum_observed r)),
      (''last_sequence_expected'', jopt jint (ur_last_expected r)), (''last_sequence_observed'', jopt jint (ur_last_observed r)),
      (''valid'', JBool (ur_valid r))]"

definition ub_summary_value :: "summary \<Rightarrow> json" where
  "ub_summary_value s = JObject
     [(''valid_all'', JBool (sm_checksum_valid_all s)), (''median_ops_per_sec'', jfloat 6 (sm_median s)),
      (''mean_ops_per_sec'', jfloat 6 (sm_mean s)), (''min_ops_per_sec'', jfloat 6 (sm_min s)),
      (''max_ops_per_sec'', jfloat 6 (sm_max s)), (''stddev_ops_per_sec'', jfloat 6 (sm_stddev s)), (''cv'', jfloat 6 (sm_cv s))]"

definition ub_phase_value :: "ub_phase_result \<Rightarrow> json" where
  "ub_phase_value p = JObject
     [(''phase'', JString (ub_phase_as_str (up_phase p))), (''runs'', JArray (map ub_run_value (up_runs p))),
      (''summary'', ub_summary_value (up_summary p))]"

definition ub_result_value :: "ub_result \<Rightarrow> json" where
  "ub_result_value r = JObject
     ([(''mode'', JString (ub_mode_as_str (ub_mode_of (us_config r)))),
       (''wait_strategy'', JString (wait_kind_as_str (ub_wait (us_config r)))),
       (''event_layout'', JString (event_layout_as_str (ub_layout (us_config r)))),
       (''events_total'', jnat (ub_events_total (us_config r))), (''buffer_size'', jnat (ub_buffer_size (us_config r))),
       (''allow_wrap'', JBool (ub_allow_wrap (us_config r))), (''event_size_bytes'', jnat (us_event_size_bytes r)),
       (''estimated_ring_bytes'', jnat (us_estimated_ring_bytes r))] @
      (case us_ratio r of None \<Rightarrow> [] | Some x \<Rightarrow> [(''publish_vs_end_to_end_ratio'', jfloat 6 x)]) @
      (case us_delta r of None \<Rightarrow> [] | Some x \<Rightarrow> [(''publish_vs_end_to_end_delta_ns_per_event'', jfloat 6 x)]) @
      [(''phases'', JArray (map ub_phase_value (us_phases r)))])"

definition pb_run_value :: "round_record \<Rightarrow> json" where
  "pb_run_value r = JObject
     [(''round_index'', jnat (rr_round_index r)), (''phase'', JString (round_phase_as_str (rr_measured r))),
      (''elapsed_ns'', jnat (rr_elapsed_ns r)), (''ops_per_sec'', jfloat 6 (rr_ops_per_sec r)),
      (''events_expected'', jnat (rr_events_expected r)), (''events_processed'', jnat (rr_events_processed r)),
      (''checksum_expected'', jint (rr_checksum_expected r)), (''checksum_observed'', jint (rr_checksum_observed r)),
      (''valid'', JBool (rr_valid r))]"

definition pb_phase_value :: "phase_result \<Rightarrow> json" where
  "pb_phase_value p = JObject
     [(''phase'', JString (pb_phase_as_str (pr_phase p))), (''stage_count'', jnat (pr_stage_count p)),
      (''runs'', JArray (map pb_run_value (pr_runs p))), (''summary'', ub_summary_value (pr_summary p))]"

definition pb_result_value :: "pb_result \<Rightarrow> json" where
  "pb_result_value r = JObject
     [(''tool'', JString ''pipeline_breakdown''), (''mode'', JString (pb_mode_as_str (pb_mode_of (br_config r)))),
      (''wait_strategy'', JString (wait_kind_as_str (pb_wait (br_config r)))),
      (''event_padding'', JString (event_padding_as_str (pb_padding (br_config r)))),
      (''event_size_bytes'', jnat (br_event_size_bytes r)), (''events_total'', jnat (pb_events_total (br_config r))),
      (''buffer_size'', jnat (pb_buffer_size (br_config r))), (''warmup_rounds'', jnat (pb_warmup_rounds (br_config r))),
      (''measured_rounds'', jnat (pb_measured_rounds (br_config r))),
      (''single_to_two_delta_ns_per_event'', jopt (jfloat 6) (br_single_to_two r)),
      (''two_to_three_delta_ns_per_event'', jopt (jfloat 6) (br_two_to_three r)),
      (''phases'', JArray (map pb_phase_value (br_phases r)))]"

section \<open>Reading the reports back\<close>

lemma writes_push_kv:
  "list_all plain_char key \<Longrightarrow> list_all plain_char v \<Longrightarrow> writes (push_kv n key v b) (Str key # Colon # json_tokens (JString v) @ comma_if b)"
  "list_all plain_char key \<Longrightarrow> writes (push_kv_nat n key i b) (Str key # Colon # json_tokens (jnat i) @ comma_if b)"
  "list_all plain_char key \<Longrightarrow> writes (push_kv_float n key x b) (Str key # Colon # json_tokens (jfloat 6 x) @ comma_if b)"
  "list_all plain_char key \<Longrightarrow> writes (push_kv_bool n key c b) (Str key # Colon # json_tokens (JBool c) @ comma_if b)"
  "list_all plain_char key \<Longrightarrow> writes (push_opt_u64 n key oi b) (Str key # Colon # json_tokens (jopt jnat oi) @ comma_if b)"
  "list_all plain_char key \<Longrightarrow> writes (push_opt_i64 n key oz b) (Str key # Colon # json_tokens (jopt jint oz) @ comma_if b)"
  unfolding push_kv_def push_kv_nat_def push_kv_int_def push_kv_float_def push_kv_bool_def push_opt_u64_def push_opt_i64_def push_null_def jopt_def
  by (cases oi; cases oz; simp add: writes_atom_member del: json_tokens.simps comma_if_simps if_split)+

lemma as_str_plain:
  "list_all plain_char (ub_mode_as_str m)" "list_all plain_char (ub_phase_as_str ph)" "list_all plain_char (event_layout_as_str l)"
  "list_all plain_char (round_phase_as_str b)"
  "list_all plain_char (pb_mode_as_str pm)" "list_all plain_char (pb_phase_as_str pp)" "list_all plain_char (event_padding_as_str ep)"
proof -
  show "list_all plain_char (ub_mode_as_str m)" by (cases m) (simp_all add: plain_char_def)
  show "list_all plain_char (ub_phase_as_str ph)" by (cases ph) (simp_all add: plain_char_def)
  show "list_all plain_char (event_layout_as_str l)" by (cases l) (simp_all add: plain_char_def)
  show "list_all plain_char (round_phase_as_str b)" by (simp add: round_phase_as_str_def plain_char_def)
  show "list_all plain_char (pb_mode_as_str pm)" by (cases pm) (simp_all add: plain_char_def)
  show "list_all plain_char (pb_phase_as_str pp)" by (cases pp) (simp_all add: plain_char_def)
  show "list_all plain_char (event_padding_as_str ep)" by (cases ep) (simp_all add: plain_char_def)
qed

lemma ub_render_run_writes: "writes (ub_render_run final r) (json_tokens (ub_run_value r) @ comma_if (\<not> final))"
  unfolding ub_render_run_def
  by (rule writes_eq, (rule writes_intros writes_push_kv writes_last as_str_plain kinds_plain | (simp add: ub_run_value_def plain_char_def; fail))+)

lemma ub_render_summary_writes:
  "writes (ub_render_summary s) (Str ''summary'' # Colon # json_tokens (ub_summary_value s))"
  unfolding ub_render_summary_def
  by (rule writes_eq, (rule writes_intros writes_push_kv | (simp add: ub_summary_value_def plain_char_def; fail))+)

lemma ub_render_phase_writes: "writes (ub_render_phase final p) (json_tokens (ub_phase_value p) @ comma_if (\<not> final))"
  unfolding ub_render_phase_def
  by (rule writes_eq, (rule writes_intros writes_push_kv writes_last as_str_plain kinds_plain ub_render_summary_writes ub_render_run_writes |
      (simp add: ub_phase_value_def plain_char_def; fail))+)

lemma writes_opt:
  "(\<And>x. writes (w x) (ts x)) \<Longrightarrow> writes (opt_writer w v) (case v of None \<Rightarrow> [] | Some x \<Rightarrow> ts x)"
  by (cases v) (simp_all add: opt_writer_def writes_Nil)

lemma ub_report_writes: "writes (ub_report r) (json_tokens (ub_result_value r))"
  unfolding ub_report_def
  by (rule writes_eq, (rule writes_intros writes_push_kv writes_opt as_str_plain kinds_plain ub_render_phase_writes | (simp add: plain_char_def; fail))+)
     (cases "us_ratio r"; cases "us_delta r"; simp add: ub_result_value_def)

lemma writes_json_field:
  "list_all plain_char key \<Longrightarrow> list_all plain_char v \<Longrightarrow> writes (write_json_field n key v b) (Str key # Colon # json_tokens (JString v) @ comma_if b)"
  "list_all plain_char key \<Longrightarrow> writes (write_json_number n key i b) (Str key # Colon # json_tokens (jnat i) @ comma_if b)"
  "list_all plain_char key \<Longrightarrow> writes (write_json_number_u128 n key i b) (Str key # Colon # json_tokens (jnat i) @ comma_if b)"
  "list_all plain_char key \<Longrightarrow> writes (write_json_i64 n key z b) (Str key # Colon # json_tokens (jint z) @ comma_if b)"
  "list_all plain_char key \<Longrightarrow> writes (write_json_float n key x b) (Str key # Colon # json_tokens (jfloat 6 x) @ comma_if b)"
  "list_all plain_char key \<Longrightarrow> writes (write_json_bool n key c b) (Str key # Colon # json_tokens (JBool c) @ comma_if b)"
  "list_all plain_char key \<Longrightarrow> writes (write_optional_float n key ox b) (Str key # Colon # json_tokens (jopt (jfloat 6) ox) @ comma_if b)"
  unfolding write_json_field_def write_json_number_def write_json_number_u128_def write_json_i64_def write_json_float_def
    write_json_bool_def write_optional_float_def jopt_def show_bool_def [symmetric]
  by (cases ox; simp add: writes_atom_member del: json_tokens.simps comma_if_simps if_split)+

lemma pb_render_run_writes: "writes (pb_render_run final r) (json_tokens (pb_run_value r) @ comma_if (\<not> final))"
  unfolding pb_render_run_def
  by (rule writes_eq, (rule writes_intros writes_json_field writes_last as_str_plain kinds_plain | (simp add: pb_run_value_def plain_char_def; fail))+)

lemma pb_render_summary_writes:
  "writes (pb_render_summary s) (Str ''summary'' # Colon # json_tokens (ub_summary_value s))"
  unfolding pb_render_summary_def
  by (rule writes_eq, (rule writes_intros writes_json_field | (simp add: ub_summary_value_def plain_char_def; fail))+)

lemma pb_render_phase_writes: "writes (pb_render_phase final p) (json_tokens (pb_phase_value p) @ comma_if (\<not> final))"
  unfolding pb_render_phase_def
  by (rule writes_eq, (rule writes_intros writes_json_field writes_last as_str_plain kinds_plain pb_render_summary_writes pb_render_run_writes |
      (simp add: pb_phase_value_def plain_char_def; fail))+)

lemma pb_report_writes: "writes (pb_report r) (json_tokens (pb_result_value r))"
  unfolding pb_report_def
  by (rule writes_eq, (rule writes_intros writes_json_field as_str_plain kinds_plain pb_render_phase_writes |
      (simp add: pb_result_value_def plain_char_def; fail))+)

text \<open>
  The reports of the breakdown programs can be read back. Whatever a run produces, \<open>render_json\<close> of either
  program prints a JSON text that a reader of JSON takes for exactly the value that stands for the result:
  every field is there with its value, integers without loss, rates and ratios to within half a millionth,
  in the order of the rounds and phases.
\<close>

theorem breakdown_reports_readable:
  "read_json (ub_render_json u) = Some (ub_result_value u) \<and> read_json (pb_render_json p) = Some (pb_result_value p) \<and>
   \<bar>x - rounded 6 x\<bar> \<le> 1 / 2000000"
  using read_written [OF ub_report_writes] read_written [OF pb_report_writes] rounded_near [of x 6]
  by (simp add: ub_render_json_def pb_render_json_def)

end
