(* ===== verification/H2h_Diagnostics.thy ===== *)
theory H2h_Diagnostics
  imports H2h_Rounds Simple_Wait
begin

text \<open>
  The \<open>bench-round-diagnostics\<close> feature: the counters of the claim that waits for room (\<open>sequencer.rs\<close>,
  \<open>next_n_inner\<close> with the feature, and the snapshot of \<open>builder/handle.rs\<close>), and the batch probes of
  \<open>src/bin/h2h_rust.rs\<close>, which ride on the handlers of a round and report when their thread stops. Measuring
  is shown to change nothing of what is measured, and a report to account for every event.
\<close>

section \<open>Waiting for room, counted\<close>

record backpressure =
  bk_entries :: nat
  bk_wait_loop_iterations :: nat
  bk_max_wait_loop_iterations :: nat

definition backpressure_new :: backpressure where
  "backpressure_new = \<lparr>bk_entries = 0, bk_wait_loop_iterations = 0, bk_max_wait_loop_iterations = 0\<rparr>"

definition record_bench_backpressure :: "nat \<Rightarrow> backpressure \<Rightarrow> backpressure" where
  "record_bench_backpressure iterations b =
     (if iterations = 0 then b
      else \<lparr>bk_entries = wrapping_add_u64 (bk_entries b) 1,
            bk_wait_loop_iterations = wrapping_add_u64 (bk_wait_loop_iterations b) iterations,
            bk_max_wait_loop_iterations = max (bk_max_wait_loop_iterations b) iterations\<rparr>)"

text \<open>Only the single-producer sequencer has the counters.\<close>

fun bench_producer_backpressure_snapshot :: "sequencer \<Rightarrow> backpressure \<Rightarrow> backpressure option" where
  "bench_producer_backpressure_snapshot (SingleSeq s) b = Some b"
| "bench_producer_backpressure_snapshot (MultiSeq m) b = None"

text \<open>The spin of \<open>next_n_inner\<close> and the claim around it, as compiled with the feature.\<close>

definition counted_spin_body ::
    "bool \<Rightarrow> sp_seq traj \<Rightarrow> i64 \<Rightarrow> i64 \<Rightarrow> nat \<times> nat \<Rightarrow> (i64 result \<times> nat \<times> nat) + nat \<times> nat" where
  "counted_spin_body enabled tr wrap_at next_value = (\<lambda>(t, iterations).
     let (min_sequence, t1) = sp_gating_minimum tr t next_value
     in if wrap_at > min_sequence then
          (case sp_claim_state_error tr t1 of
             Some e \<Rightarrow> Inl (Err e, t1, iterations)
           | None \<Rightarrow> Inr (Suc (Suc t1), if enabled then sat_add_u64 iterations 1 else iterations))
        else Inl (Ok min_sequence, t1, iterations))"

definition counted_next_n_inner ::
    "bool \<Rightarrow> nat \<Rightarrow> sp_seq traj \<Rightarrow> nat \<Rightarrow> i64 \<Rightarrow> sp_seq \<Rightarrow> backpressure \<Rightarrow> (i64 result \<times> nat \<times> sp_seq \<times> backpressure) option" where
  "counted_next_n_inner enabled fuel tr t n s b =
     (let next_value = sp_next_value s;
          next_sequence = add_i64 next_value n;
          wrap_at = sub_i64 next_sequence (sp_buffer_size_i64 s);
          cached = sp_cached_value s
      in if wrap_at > cached \<or> cached > next_value then
           let s1 = set_cursor next_value s
           in (case poll fuel (counted_spin_body enabled tr wrap_at next_value) (Suc t, 0) of
                 None \<Rightarrow> None
               | Some (Inl e, t', iterations) \<Rightarrow> Some (Err e, t', s1, b)
               | Some (Inr min_sequence, t', iterations) \<Rightarrow>
                   Some (Ok next_sequence, t',
                     s1\<lparr>sp_cached_value := min_sequence, sp_next_value := next_sequence\<rparr>,
                     if enabled then record_bench_backpressure iterations b else b))
         else Some (Ok next_sequence, t, s\<lparr>sp_next_value := next_sequence\<rparr>, b))"

text \<open>The counter is a passenger of the spin.\<close>

lemma counted_spin_plain:
  "map_option (\<lambda>(r, t, iterations). (r, t)) (poll fuel (counted_spin_body enabled tr wp nv) (t, n)) = poll fuel (sp_spin_body tr wp nv) t"
proof -
  let ?R = "\<lambda>st t. fst st = (t :: nat)" and ?Q = "\<lambda>(r, t, iterations) out. (r, t) = out"
  have "bodies_agree ?R ?Q (counted_spin_body enabled tr wp nv) (sp_spin_body tr wp nv)"
    by (auto simp: bodies_agree_def counted_spin_body_def sp_spin_body_def split: prod.splits option.splits)
  from poll_simulation [OF this, of "(t, n)" t fuel] show ?thesis
    by (auto simp: option_rel_Some1 elim!: option.rel_cases)
qed

lemma counted_claim_transparent:
  "map_option (\<lambda>(r, t', s', b'). (r, t', s')) (counted_next_n_inner enabled fuel tr t n s b) = sp_next_n_inner fuel tr t n s"
  unfolding counted_next_n_inner_def sp_next_n_inner_def Let_def
  using counted_spin_plain [of fuel enabled tr "sub_i64 (add_i64 (sp_next_value s) n) (sp_buffer_size_i64 s)" "sp_next_value s" "Suc t" 0]
  by (auto split: option.splits sum.splits)

text \<open>What a snapshot says: how many claims have spun, how often, and the longest spin.\<close>

lemma backpressure_counts:
  assumes "sum_list its \<le> u64_max"
  shows "fold record_bench_backpressure its backpressure_new =
    (let spun = filter (\<lambda>i. 0 < i) its in
     \<lparr>bk_entries = length spun, bk_wait_loop_iterations = sum_list its, bk_max_wait_loop_iterations = fold max spun 0\<rparr>)"
  using assms
proof (induction its rule: rev_induct)
  case Nil
  then show ?case by (simp add: backpressure_new_def)
next
  case (snoc i its)
  have "length (filter (\<lambda>i. 0 < i) its) \<le> sum_list (filter (\<lambda>i. 0 < i) its)" by (rule length_le_sum_list) simp
  moreover have "sum_list (filter (\<lambda>i. 0 < i) its) = sum_list its" by (induction its) auto
  ultimately show ?case using snoc
    by (cases "i = 0") (simp_all add: record_bench_backpressure_def Let_def wrapping_add_u64_def max.commute)
qed

section \<open>Handlers with a probe\<close>

text \<open>A handler of a round beside its optional probe; both handler types get the same three methods.\<close>

type_synonym 'h probed = "'h \<times> batch_probe option"

definition batch_probe_pair :: "bool \<Rightarrow> string \<Rightarrow> batch_probe option" where
  "batch_probe_pair enabled role = (if \<not> enabled then None else Some (batch_probe_new role))"

definition with_batch_probe :: "'h \<Rightarrow> batch_probe option \<Rightarrow> 'h probed" where
  "with_batch_probe h batch_probe = (h, batch_probe)"

definition probed_on_batch_start :: "i64 \<Rightarrow> i64 \<Rightarrow> 'h probed callback" where
  "probed_on_batch_start batch_size queue_depth = (\<lambda>(h, probe).
     case probe of
       None \<Rightarrow> (Some (Ok ()), h, None)
     | Some p \<Rightarrow> (case probe_observe batch_size queue_depth p of
           None \<Rightarrow> (None, h, Some p)
         | Some p' \<Rightarrow> (Some (Ok ()), h, Some p')))"

definition probed_on_shutdown :: "'h probed callback" where
  "probed_on_shutdown = (\<lambda>(h, probe). (Some (Ok ()), h, map_option probe_finish probe))"

definition probed_handler :: "('e, 'h) lifecycle_handler \<Rightarrow> ('e, 'h probed) lifecycle_handler" where
  "probed_handler H =
     \<lparr>on_batch_start = probed_on_batch_start,
      on_event = \<lambda>e s b (h, p). let (r, e', h') = on_event H e s b h in (r, e', h', p),
      on_start = \<lambda>(h, p). let (r, h') = on_start H h in (r, h', p),
      on_shutdown = probed_on_shutdown,
      on_timeout = \<lambda>s (h, p). let (r, h') = on_timeout H s h in (r, h', p),
      set_sequence_callback = \<lambda>cb (h, p). (set_sequence_callback H cb h, p)\<rparr>"

section \<open>Collecting\<close>

record round_diagnostics =
  dg_consumers :: "batch_diagnostics list"
  dg_producer_backpressure :: "backpressure option"

text \<open>
  A receiver that was never made is \<open>None\<close>; one that was has what its probe sent, or nothing when the second
  is over or the sender is gone (\<open>lost\<close> is the text of that error).
\<close>

fun collect_receivers :: "nat \<Rightarrow> string \<Rightarrow> batch_diagnostics list option list \<Rightarrow> string + batch_diagnostics list" where
  "collect_receivers events_total lost [] = Inr []"
| "collect_receivers events_total lost (r # rs) =
     (case r of
        None \<Rightarrow> Inl ''missing enabled batch diagnostics receiver''
      | Some [] \<Rightarrow> Inl (''missing batch diagnostics at shutdown: '' @ lost)
      | Some (d # _) \<Rightarrow>
          if hg_sum (bd_batch_size d) \<noteq> events_total
          then Inl (bd_role d @ '' batch diagnostics saw '' @ show_nat (hg_sum (bd_batch_size d)) @ '' events, expected '' @ show_nat events_total)
          else (case collect_receivers events_total lost rs of Inl e \<Rightarrow> Inl e | Inr ds \<Rightarrow> Inr (d # ds)))"

definition collect_round_diagnostics ::
    "bool \<Rightarrow> nat \<Rightarrow> string \<Rightarrow> batch_diagnostics list option list \<Rightarrow> backpressure option \<Rightarrow> string + round_diagnostics option" where
  "collect_round_diagnostics enabled events_total lost receivers bp =
     (if \<not> enabled then Inr None
      else (case collect_receivers events_total lost receivers of
              Inl e \<Rightarrow> Inl e
            | Inr consumers \<Rightarrow> Inr (Some \<lparr>dg_consumers = consumers, dg_producer_backpressure = bp\<rparr>)))"

section \<open>The probe is a passenger\<close>

definition without_probe :: "('e, 'h probed) consumer \<Rightarrow> ('e, 'h) consumer" where
  "without_probe c =
     \<lparr>co_world = co_world c, co_ring = co_ring c, co_handler = fst (co_handler c), co_trace = co_trace c\<rparr>"

abbreviation probe_of :: "('e, 'h probed) consumer \<Rightarrow> batch_probe option" where
  "probe_of c \<equiv> snd (co_handler c)"

lemma without_probe_sel [simp]:
  "co_world (without_probe c) = co_world c" "co_ring (without_probe c) = co_ring c"
  "co_handler (without_probe c) = fst (co_handler c)" "co_trace (without_probe c) = co_trace c"
  "without_probe (c\<lparr>co_world := w\<rparr>) = (without_probe c)\<lparr>co_world := w\<rparr>"
  "without_probe (c\<lparr>co_ring := rb\<rparr>) = (without_probe c)\<lparr>co_ring := rb\<rparr>"
  "without_probe (c\<lparr>co_handler := q\<rparr>) = (without_probe c)\<lparr>co_handler := fst q\<rparr>"
  "without_probe (c\<lparr>co_trace := xs\<rparr>) = (without_probe c)\<lparr>co_trace := xs\<rparr>"
  by (simp_all add: without_probe_def)

text \<open>Both sides of a step: the plain result and the probe beside it.\<close>

definition split_probe :: "('e, 'h probed) consumer \<Rightarrow> ('e, 'h) consumer \<times> batch_probe option" where
  "split_probe c = (without_probe c, probe_of c)"

lemma drain_batch_probed:
  "map_option (\<lambda>(r, t', c'). (r, t', split_probe c')) (drain_batch (batch_handler (probed_handler H)) X tr a n t s c) =
   map_option (\<lambda>(r, t', d). (r, t', d, probe_of c)) (drain_batch (batch_handler H) X tr a n t s (without_probe c))"
proof (induction n arbitrary: t s c)
  case 0
  then show ?case by (simp add: split_probe_def)
next
  case (Suc n)
  obtain h p where hp: "co_handler c = (h, p)" by fastforce
  obtain h' e' r where call: "\<And>e. ring_get (co_ring c) s = Some e \<Longrightarrow> on_event H e s (s = a) h = (r, e', h')"
    by (metis option.inject prod_cases3)
  show ?case
    using call hp Suc.IH
    by (auto simp: probed_handler_def split_probe_def Let_def split: option.splits sum.splits error_decision.splits)
qed

text \<open>
  What a probe has seen: batches of these sizes. The queue depth it is told is the size of the batch as well,
  because the consumer's sequence stands just before the batch.
\<close>

definition probe_saw :: "string \<Rightarrow> nat list \<Rightarrow> batch_probe \<Rightarrow> bool" where
  "probe_saw role bs p \<longleftrightarrow> bp_role p = role \<and> bp_open p \<and> bp_sent p = [] \<and>
     histogram_inv bs (bp_batch_size p) \<and> bp_queue_depth p = bp_batch_size p"

lemma probe_saw_new [simp]: "probe_saw role [] (batch_probe_new role)"
  by (simp add: probe_saw_def batch_probe_new_def)

lemma ilog2_i64: "0 < v \<Longrightarrow> int v \<le> i64_max \<Longrightarrow> ilog2 v < LOG2_HISTOGRAM_BINS"
  using ilog2_bounds [of v] power_less_imp_less_exp [of "2::nat" "ilog2 v" 64] by simp

lemma probe_observe_saw:
  assumes "probe_saw role bs p" and "0 < b" and "b \<le> i64_max" and "nat b + sum_list bs \<le> u64_max"
  shows "\<exists>p'. probe_observe b b p = Some p' \<and> probe_saw role (bs @ [nat b]) p'"
proof -
  have b: "0 < nat b" "ilog2 (nat b) < LOG2_HISTOGRAM_BINS" using assms(2,3) ilog2_i64 [of "nat b"] by simp_all
  from assms(1) have "histogram_inv bs (bp_batch_size p)" by (simp add: probe_saw_def)
  from histogram_observe_inv [OF this b(1) assms(4) b(2)] show ?thesis
    using assms(1,2) by (auto simp: probe_observe_def probe_saw_def)
qed

text \<open>The methods a measured handler leaves to the trait.\<close>

definition quiet_methods :: "('e, 'h) lifecycle_handler \<Rightarrow> bool" where
  "quiet_methods H \<longleftrightarrow> (\<forall>a b h. on_batch_start H a b h = (Some (Ok ()), h)) \<and> (\<forall>h. on_shutdown H h = (Some (Ok ()), h))"

lemma run_batch_probed:
  assumes "quiet_methods H" and "bw_store (tr t) own = x" and "- 1 \<le> x" and "x < available" and "available < i64_max"
    and "probe_of c = Some p" and "probe_saw role bs p" and "nat (available - x) + sum_list bs \<le> u64_max"
  obtains p' where "probe_saw role (bs @ [nat (available - x)]) p'"
    and "map_sum (map_option (\<lambda>(e, c'). (e, split_probe c'))) (\<lambda>(s, c'). (s, split_probe c'))
        (run_batch (batch_handler (probed_handler H)) X ctx own tr t (x + 1) available c) =
      map_sum (map_option (\<lambda>(e, d). (e, d, Some p'))) (\<lambda>(s, d). (s, d, Some p'))
        (run_batch (batch_handler H) X ctx own tr t (x + 1) available (without_probe c))"
proof -
  have size: "add_i64 (sub_i64 available (x + 1)) 1 = available - x" "sub_i64 available x = available - x"
    using assms(3-5) by (simp_all add: sub_i64_id add_i64_id in_i64_def)
  obtain p' where p': "probe_observe (available - x) (available - x) p = Some p'" "probe_saw role (bs @ [nat (available - x)]) p'"
    using probe_observe_saw [OF assms(7), of "available - x"] assms(3-5,8) by auto
  obtain h where h: "co_handler c = (h, Some p)" using assms(6) by (metis prod.collapse)
  have st: "on_batch_start (probed_handler H) (available - x) (available - x) (h, Some p) = (Some (Ok ()), h, Some p')"
    "on_batch_start H (available - x) (available - x) h = (Some (Ok ()), h)"
    using assms(1) by (simp_all add: probed_handler_def probed_on_batch_start_def p'(1) quiet_methods_def)
  define c1 where "c1 = c\<lparr>co_handler := (h, Some p')\<rparr>"
  have c1: "without_probe c1 = without_probe c" "probe_of c1 = Some p'" "(without_probe c)\<lparr>co_handler := h\<rparr> = without_probe c"
    by (simp_all add: c1_def h without_probe_def)
  note drain = drain_batch_probed [of H X tr available "nat (available + 1 - (x + 1))" "Suc t" "x + 1" c1, unfolded c1(1,2)]
  show thesis
    using drain
    by (intro that [OF p'(2)], cases "drain_batch (batch_handler H) X tr available (nat (available + 1 - (x + 1))) (Suc t) (x + 1) (without_probe c)")
      (auto simp: run_batch_def size seq_get_def assms(2) h st c1(3) c1_def [symmetric] split_probe_def split: option.splits batch_end.splits)
qed

text \<open>A handler that takes every event, or panics.\<close>

definition takes_events :: "('e, 'h) lifecycle_handler \<Rightarrow> bool" where
  "takes_events H \<longleftrightarrow> (\<forall>e s b h. fst (on_event H e s b h) \<in> {None, Some (Ok ())})"

lemma drain_takes_events:
  assumes "takes_events H"
  shows "drain_batch (batch_handler H) X tr available n t s c \<noteq> Some (StoppedAt q msg, t', c')"
proof (induction n arbitrary: t s c)
  case (Suc n)
  show ?case
  proof (cases "ring_get (co_ring c) s")
    case (Some e)
    obtain r e' h' where call: "on_event H e s (s = available) (co_handler c) = (r, e', h')" by (metis prod_cases3)
    with assms have "r = None \<or> r = Some (Ok ())" unfolding takes_events_def by (metis fst_conv insert_iff singletonD)
    with Some call Suc.IH show ?thesis by (auto split: option.splits)
  qed simp
qed simp

lemma run_batch_takes_events:
  assumes "quiet_methods H" and "takes_events H"
  shows "run_batch (batch_handler H) X ctx own tr t s available c \<noteq> Inl (Some (LoopReturned, d))"
  using assms(1) drain_takes_events [OF assms(2)]
  by (auto simp: run_batch_def quiet_methods_def split: option.splits batch_end.splits)

section \<open>A measured thread\<close>

definition probe_rides ::
    "string \<Rightarrow> nat \<Rightarrow> seq_ref \<Rightarrow> i64 \<Rightarrow> nat \<times> i64 \<times> ('e, 'h probed) consumer \<Rightarrow> nat \<times> i64 \<times> ('e, 'h) consumer \<Rightarrow> bool" where
  "probe_rides role k own a = (\<lambda>(i, s, c) (i', s', d). i' = i \<and> s' = s \<and> d = without_probe c \<and> - 1 \<le> a \<and> loop_inv k own a (i, s, d) \<and>
     (\<exists>p bs. probe_of c = Some p \<and> probe_saw role bs p \<and> sum_list bs = nat (bw_store (co_world c) own - a)))"

definition probe_reports ::
    "string \<Rightarrow> bool \<Rightarrow> loop_exit \<times> ('e, 'h probed) consumer \<Rightarrow> loop_exit \<times> ('e, 'h) consumer \<Rightarrow> bool" where
  "probe_reports role all = (\<lambda>(e, c) (e', d). e' = e \<and> d = without_probe c \<and>
     (\<exists>p bs. probe_of c = Some p \<and> probe_saw role bs p \<and> (e = LoopReturned \<and> all \<longrightarrow> sum_list bs = length (co_trace c))))"

lemma delivered_length: "delivered a c m \<Longrightarrow> length (co_trace c) = nat (m - a)"
  by (drule arg_cong [of _ _ length, OF conjunct1 [OF conjunct2 [OF iffD1 [OF delivered_def]]]]) (simp add: trace_seqs_def)

lemma rides_world:
  assumes "probe_rides role k own a (i, s, c) (i, s, d)" and "bw_store w own = bw_store (co_world c) own"
  shows "probe_reports role all (e, c\<lparr>co_ring := rb, co_world := w\<rparr>) (e, d\<lparr>co_ring := rb, co_world := w\<rparr>)"
    and "bw_inv k own w \<Longrightarrow> ring_invar rb \<Longrightarrow>
      probe_rides role k own a (j, s, c\<lparr>co_ring := rb, co_world := w\<rparr>) (j, s, d\<lparr>co_ring := rb, co_world := w\<rparr>)"
  using assms delivered_length [of a d "bw_store (co_world d) own"]
  by (fastforce simp: probe_rides_def probe_reports_def loop_inv_def delivered_def)+

lemma map_sum_conv:
  "map_sum f g x = Inl y \<longleftrightarrow> (\<exists>z. x = Inl z \<and> f z = y)" "map_sum f g x = Inr y' \<longleftrightarrow> (\<exists>z. x = Inr z \<and> g z = y')"
  by (cases x; auto)+

text \<open>A batch, seen from the loop.\<close>

lemma batch_rides:
  assumes "quiet_methods H" and w: "\<And>v. bw_inv k own (tr v)" "\<And>v. bw_store (tr v) own = x"
    and rides: "probe_rides role k own a (i, x + 1, c) (i, x + 1, without_probe c)" and "x = bw_store (co_world c) own"
    and rb: "ring_invar rb" and "x < available" and ready: "\<And>s v. x + 1 \<le> s \<Longrightarrow> s \<le> available \<Longrightarrow> t \<le> v \<Longrightarrow> readable (tr v) s"
  shows "rel_sum (rel_option (probe_reports role (takes_events H)))
      (\<lambda>(s, c') (s', d). probe_rides role k own a (j, s, c') (j, s', d))
    (run_batch (batch_handler (probed_handler H)) X ctx own tr t (x + 1) available (c\<lparr>co_ring := rb\<rparr>))
    (run_batch (batch_handler H) X ctx own tr t (x + 1) available ((without_probe c)\<lparr>co_ring := rb\<rparr>))"
proof -
  let ?c = "c\<lparr>co_ring := rb\<rparr>" and ?run = "run_batch (batch_handler H) X ctx own tr t (x + 1) available ((without_probe c)\<lparr>co_ring := rb\<rparr>)"
  obtain p bs where p: "probe_of c = Some p" "probe_saw role bs p" "sum_list bs = nat (x - a)" and a: "- 1 \<le> a"
    and del: "delivered a (without_probe c) x"
    using rides assms(5) by (auto simp: probe_rides_def loop_inv_def)
  have x: "- 1 \<le> x" using w(1) [of 0] w(2) [of 0] by (simp add: bw_inv_def)
  have max: "available < i64_max" using readable_bound [OF ready [OF _ order_refl order_refl] w(1)] assms(7) by simp
  have "a \<le> x" using del by (simp add: delivered_def)
  then have sum: "nat (available - x) + sum_list bs = nat (available - a)" using assms(7) by (simp add: p(3))
  also have "\<dots> \<le> u64_max" using a max by simp
  finally have fits: "nat (available - x) + sum_list bs \<le> u64_max" .
  have pc: "probe_of ?c = Some p" using p(1) by simp
  obtain p' where p': "probe_saw role (bs @ [nat (available - x)]) p'"
    and eq: "map_sum (map_option (\<lambda>(e, c'). (e, split_probe c'))) (\<lambda>(s, c'). (s, split_probe c'))
        (run_batch (batch_handler (probed_handler H)) X ctx own tr t (x + 1) available ?c) =
      map_sum (map_option (\<lambda>(e, d). (e, d, Some p'))) (\<lambda>(s, d). (s, d, Some p')) ?run"
    by (rule run_batch_probed [OF assms(1) w(2) x assms(7) max pc p(2) fits, where X = X and ctx = ctx]) (simp only: without_probe_sel)
  have "delivered a ((without_probe c)\<lparr>co_ring := rb\<rparr>) x" using del by (simp add: delivered_def)
  from run_batch_spec [OF w, where c = "(without_probe c)\<lparr>co_ring := rb\<rparr>" and X = X and ctx = ctx and H = "batch_handler H" and i = j,
      OF _ this assms(7) ready] rb
  have plain: "case ?run of Inl None \<Rightarrow> False | Inl (Some out) \<Rightarrow> loop_result k own a out | Inr (s, d) \<Rightarrow> loop_inv k own a (j, s, d)" by simp
  show ?thesis
  proof (cases ?run)
    case (Inl out)
    then obtain e d where out: "?run = Inl (Some (e, d))" using plain by (cases out) auto
    then obtain c' where c': "run_batch (batch_handler (probed_handler H)) X ctx own tr t (x + 1) available ?c = Inl (Some (e, c'))"
      "d = without_probe c'" "probe_of c' = Some p'" using eq by (auto simp: split_probe_def map_sum_conv)
    have "\<not> (e = LoopReturned \<and> takes_events H)" using run_batch_takes_events [OF assms(1)] out by blast
    with p' c' out show ?thesis by (auto simp: probe_reports_def)
  next
    case (Inr sd)
    then obtain s d where out: "?run = Inr (s, d)" by (cases sd) simp
    then obtain c' where c': "run_batch (batch_handler (probed_handler H)) X ctx own tr t (x + 1) available ?c = Inr (s, c')"
      "d = without_probe c'" "probe_of c' = Some p'" using eq by (auto simp: split_probe_def map_sum_conv)
    have "bw_store (co_world d) own = available"
      using out by (auto simp: run_batch_def Let_def split: prod.splits option.splits sum.splits batch_end.splits)
    with p' c' out a plain sum show ?thesis by (auto simp: probe_rides_def)
  qed
qed

lemma loop_body_rides:
  fixes H :: "('e, 'h) lifecycle_handler"
  assumes "quiet_methods H" and env: "consumer_env k own env"
  shows "bodies_agree (probe_rides role k own a) (rel_option (probe_reports role (takes_events H)))
    (sequential_body pk fuel env (batch_handler (probed_handler H)) X ctx own stop)
    (sequential_body pk fuel env (batch_handler H) X ctx own stop)"
  unfolding bodies_agree_def
proof (intro allI impI)
  fix st :: "nat \<times> i64 \<times> ('e, 'h probed) consumer" and st' assume "probe_rides role k own a st st'"
  moreover obtain i s c where st: "st = (i, s, c)" by (cases st) auto
  ultimately have st': "st' = (i, s, without_probe c)" and rides: "probe_rides role k own a (i, s, c) (i, s, without_probe c)"
    by (auto simp: probe_rides_def)
  define x where "x = bw_store (co_world c) own"
  define tr where "tr = ce_world env i (co_world c)"
  define rb where "rb = ce_ring env i (co_ring c)"
  have w: "bw_inv k own (co_world c)" "ring_invar (co_ring c)" "s = x + 1"
    using rides by (simp_all add: probe_rides_def loop_inv_def x_def)
  note tr = consumer_envD [OF env w(1), where i = i, folded tr_def x_def]
  have rb: "ring_invar rb" using tr(4) [OF w(2)] by (simp add: rb_def)
  have over: "probe_reports role (takes_events H) (e, c\<lparr>co_ring := rb, co_world := tr t\<rparr>) (e, (without_probe c)\<lparr>co_ring := rb, co_world := tr t\<rparr>)" for e t
    using rides_world(1) [OF rides, of "tr t" _ e rb] tr(2) by (simp add: x_def)
  have again: "probe_rides role k own a (Suc i, s, c\<lparr>co_ring := rb, co_world := tr t\<rparr>) (Suc i, s, (without_probe c)\<lparr>co_ring := rb, co_world := tr t\<rparr>)" for t
    using rides_world(2) [OF rides, of "tr t" rb "Suc i"] tr(2,3) rb by (simp add: x_def)
  have env': "bar_env k s tr" "0 \<le> s" using tr(1) w by (simp_all add: x_def bw_inv_def)
  note ready = stop_wait.batch_readable [OF env']
  have batch: "rel_sum (rel_option (probe_reports role (takes_events H))) (\<lambda>(s, c') (s', d). probe_rides role k own a (Suc i, s, c') (Suc i, s', d))
    (run_batch (batch_handler (probed_handler H)) X ctx own tr t s available (c\<lparr>co_ring := rb\<rparr>))
    (run_batch (batch_handler H) X ctx own tr t s available ((without_probe c)\<lparr>co_ring := rb\<rparr>))"
    if "stop_wait_for pk stop fuel tr 1 s = Some (Some (Inr available), t)" "s \<le> available" for available t
    unfolding w(3)
    by (rule batch_rides [OF assms(1) tr(3,2) rides [unfolded w(3)] x_def rb]) (use that w(3) ready [OF that(1)] in auto)
  show "rel_sum (rel_option (probe_reports role (takes_events H))) (probe_rides role k own a)
    (sequential_body pk fuel env (batch_handler (probed_handler H)) X ctx own stop st)
    (sequential_body pk fuel env (batch_handler H) X ctx own stop st')"
    using over again batch
    by (auto simp: st st' sequential_body_def Let_def tr_def [symmetric] rb_def [symmetric] split: option.splits sum.splits)
qed

lemma loop_rides:
  assumes "quiet_methods H" and "consumer_env k own env" and "fresh_consumer k own c" and "probe_of c = Some (batch_probe_new role)"
  shows "rel_option (probe_reports role (takes_events H))
    (run_sequential_batch_loop_for_stage pk fuel env (batch_handler (probed_handler H)) own stop ctx c)
    (run_sequential_batch_loop_for_stage pk fuel env (batch_handler H) own stop ctx (without_probe c))"
proof -
  let ?a = "bw_store (co_world c) own"
  have inv: "bw_inv k own (co_world c)" using assms(3) by (simp add: fresh_consumer_def)
  then have next1: "add_i64 (seq_get (bw_store (co_world c)) own) 1 = ?a + 1" by (simp add: seq_get_def add_i64_id in_i64_def bw_inv_def)
  have "probe_rides role k own ?a (0, ?a + 1, c) (0, ?a + 1, without_probe c)"
    using assms(3,4) inv by (auto simp: probe_rides_def loop_inv_def delivered_def trace_seqs_def fresh_consumer_def bw_inv_def intro!: exI [of _ "[]"])
  from poll_simulation [OF loop_body_rides [OF assms(1,2)] this]
  have "rel_option (rel_option (probe_reports role (takes_events H)))
      (poll fuel (sequential_body pk fuel env (batch_handler (probed_handler H)) None ctx own stop) (0, ?a + 1, c))
      (poll fuel (sequential_body pk fuel env (batch_handler H) None ctx own stop) (0, ?a + 1, without_probe c))" .
  then show ?thesis
    unfolding run_sequential_batch_loop_for_stage_def run_sequential_batch_loop_impl_def without_probe_sel next1
    by (cases rule: option.rel_cases) auto
qed

text \<open>What a thread with a probe did and sent, next to what it does without.\<close>

definition accounted :: "string \<Rightarrow> ('e, 'h probed) consumer \<Rightarrow> bool" where
  "accounted role c \<longleftrightarrow> (\<exists>p d bs. probe_of c = Some p \<and> bp_sent p = [d] \<and> bd_role d = role \<and>
     histogram_inv bs (bd_batch_size d) \<and> sum_list bs = length (co_trace c) \<and> bd_queue_depth d = bd_batch_size d)"

lemma finish_accounted:
  assumes "probe_saw role bs p" and "co_handler c = (h, Some (probe_finish p))" and "sum_list bs = length (co_trace c)"
  shows "accounted role c"
  using assms unfolding accounted_def
  by (intro exI [of _ "probe_finish p"] exI [of _ "hd (bp_sent (probe_finish p))"] exI [of _ bs])
    (auto simp: probe_saw_def probe_finish_def histogram_snapshot_def histogram_inv_def)

definition starts :: "('e, 'h) lifecycle_handler \<Rightarrow> bool" where
  "starts H \<longleftrightarrow> (\<forall>h. fst (on_start H h) = Some (Ok ()))"

lemma thread_rides:
  assumes "quiet_methods H" and "starts H" and "thread_env_ok k own env" and "fresh_consumer k own c"
    and "probe_of c = Some (batch_probe_new role)"
  shows "map_option (\<lambda>(e, c'). (e, without_probe c')) (mutable_body pk fuel env (probed_handler H) own thread stage Sequential c) =
      mutable_body pk fuel env H own thread stage Sequential (without_probe c)"
    and "mutable_body pk fuel env (probed_handler H) own thread stage Sequential c = Some (LoopReturned, c') \<Longrightarrow> takes_events H \<Longrightarrow>
      accounted role c'"
proof -
  obtain h where h: "co_handler c = (h, Some (batch_probe_new role))" using assms(5) by (metis prod.collapse)
  obtain h1 where h1: "on_start H h = (Some (Ok ()), h1)" using assms(2) by (metis starts_def prod.collapse)
  have q: "quiet_on k own (te_world env n)" and ce: "consumer_env k own (te_loop env)" for n
    using assms(3) by (simp_all add: thread_env_ok_def)
  define c1 where "c1 = (at_world (te_world env 0) c)\<lparr>co_handler := (h1, Some (batch_probe_new role))\<rparr>"
  have c1: "fresh_consumer k own c1" "probe_of c1 = Some (batch_probe_new role)"
    using fresh_consumer_at [OF assms(4) q, of 0] by (simp_all add: c1_def fresh_consumer_def)
  have wp: "without_probe c1 = (at_world (te_world env 0) (without_probe c))\<lparr>co_handler := h1\<rparr>" by (simp add: c1_def at_world_def)
  note loop = loop_rides [OF assms(1) ce c1, of pk fuel External "for_stage thread stage"]
  have shut: "on_shutdown H x = (Some (Ok ()), x)" for x using assms(1) by (simp add: quiet_methods_def)
  have probed: "mutable_body pk fuel env (probed_handler H) own thread stage Sequential c =
      map_option (\<lambda>(e, d). (e, if e = LoopReturned then (at_world (te_world env 1) d)
          \<lparr>co_handler := (fst (co_handler d), map_option probe_finish (probe_of d))\<rparr> else d))
        (run_sequential_batch_loop_for_stage pk fuel (te_loop env) (batch_handler (probed_handler H)) own External (for_stage thread stage) c1)"
    by (auto simp: mutable_body_def probed_handler_def probed_on_shutdown_def at_world_def h h1 c1_def
        split: option.splits loop_exit.splits prod.splits)
  have plain: "mutable_body pk fuel env H own thread stage Sequential (without_probe c) =
      map_option (\<lambda>(e, d). (e, if e = LoopReturned then at_world (te_world env 1) d else d))
        (run_sequential_batch_loop_for_stage pk fuel (te_loop env) (batch_handler H) own External (for_stage thread stage) (without_probe c1))"
    unfolding wp by (auto simp: mutable_body_def shut h h1 at_world_def split: option.splits loop_exit.splits)
  show "map_option (\<lambda>(e, c'). (e, without_probe c')) (mutable_body pk fuel env (probed_handler H) own thread stage Sequential c) =
      mutable_body pk fuel env H own thread stage Sequential (without_probe c)"
    unfolding probed plain using loop by (cases rule: option.rel_cases) (auto simp: probe_reports_def at_world_def)
  show "accounted role c'" if "mutable_body pk fuel env (probed_handler H) own thread stage Sequential c = Some (LoopReturned, c')" "takes_events H"
    using loop that unfolding probed
    by (cases rule: option.rel_cases) (auto simp: probe_reports_def at_world_def elim!: finish_accounted split: if_splits)
qed

lemma accounted_collected:
  assumes "accounted role c"
  shows "\<exists>d. map_option bp_sent (probe_of c) = Some [d] \<and>
    collect_round_diagnostics True n lost [map_option bp_sent (probe_of c)] bp =
      (if n = length (co_trace c) then Inr (Some \<lparr>dg_consumers = [d], dg_producer_backpressure = bp\<rparr>)
       else Inl (role @ '' batch diagnostics saw '' @ show_nat (length (co_trace c)) @ '' events, expected '' @ show_nat n))"
  using assms by (auto simp: accounted_def collect_round_diagnostics_def histogram_inv_def)

lemma measured_methods [simp]:
  "quiet_methods (terminal_event_handler os)" "starts (terminal_event_handler os)" "takes_events (terminal_event_handler os)"
  "quiet_methods (stage_event_handler os)" "starts (stage_event_handler os)" "takes_events (stage_event_handler os)"
  by (simp_all add: quiet_methods_def starts_def takes_events_def terminal_event_handler_def stage_event_handler_def default_methods_def
      terminal_on_start_def stage_on_start_def terminal_on_event_def stage_on_event_def split: option.split)

text \<open>
  C32: measuring a round changes nothing and misses nothing. With the batch probe of the
  \<open>bench-round-diagnostics\<close> feature the consumer thread of a round runs exactly as without it, whatever the
  handler mode, the interleaving and the way it ends; the probe never panics. A thread that returned has sent
  one record, whose batch sizes are positive, sorted into the bins by their logarithm, and add up to the
  number of events handled, and whose queue depths are the batch sizes again; the main thread accepts the
  record exactly if that number is the number of events of the round.
\<close>

theorem round_diagnostics_account:
  assumes "thread_env_ok k own env" and "fresh_consumer k own c"
    and "co_handler c = with_batch_probe h (batch_probe_pair True role)"
  shows "map_option (\<lambda>(e, c'). (e, without_probe c'))
      (mutable_body pk fuel env (probed_handler (terminal_event_handler os)) own thread stage Sequential c) =
    mutable_body pk fuel env (terminal_event_handler os) own thread stage Sequential (without_probe c) \<and>
    (\<forall>c'. mutable_body pk fuel env (probed_handler (terminal_event_handler os)) own thread stage Sequential c = Some (LoopReturned, c') \<longrightarrow>
      accounted role c' \<and>
      ((\<exists>ds. collect_round_diagnostics True n lost [map_option bp_sent (probe_of c')] bp = Inr (Some ds)) \<longleftrightarrow> n = length (co_trace c')))"
proof -
  have p: "probe_of c = Some (batch_probe_new role)" by (simp add: assms(3) with_batch_probe_def batch_probe_pair_def)
  note rides = thread_rides [OF measured_methods(1,2) assms(1,2) p]
  have "(\<exists>ds. collect_round_diagnostics True n lost [map_option bp_sent (probe_of c')] bp = Inr (Some ds)) \<longleftrightarrow> n = length (co_trace c')"
    if "accounted role c'" for c' :: "(comparison_event, terminal_handler probed) consumer"
    using accounted_collected [OF that, of n lost bp] by (auto split: if_splits)
  with rides show ?thesis by simp
qed

lemma example_h2h_thread_ok: "thread_env_ok 2 5 example_h2h_env" "fresh_consumer 2 5 example_h2h_consumer"
proof -
  show "thread_env_ok 2 5 example_h2h_env"
    unfolding thread_env_ok_def consumer_env_def example_h2h_env_def
    by (auto simp: shutdown_flag_sel quiet_on_def intro!: bar_env_const)
  have "ring_invar (co_ring example_h2h_consumer)" by code_simp
  with example_consumer_ok(1) show "fresh_consumer 2 5 example_h2h_consumer"
    by (simp add: fresh_consumer_def example_h2h_consumer_def example_consumer_def)
qed

definition example_probed_consumer :: "(comparison_event, terminal_handler probed) consumer" where
  "example_probed_consumer =
     \<lparr>co_world = co_world example_h2h_consumer, co_ring = co_ring example_h2h_consumer,
      co_handler = with_batch_probe (co_handler example_h2h_consumer) (batch_probe_pair True ''stage_3''), co_trace = []\<rparr>"

theorem round_diagnostics_account_witness:
  "\<exists>c'. mutable_body (\<lambda>_. None, \<lambda>_ _. (0, True)) 9 example_h2h_env (probed_handler (terminal_event_handler example_h2h_os)) 5 ''c'' 0 Sequential
      example_probed_consumer = Some (LoopReturned, c') \<and> accounted ''stage_3'' c' \<and> length (co_trace c') = 1"
proof -
  let ?pk = "(\<lambda>_. None, \<lambda>_ _. (0, True))" and ?c = example_probed_consumer
  have plain: "without_probe ?c = example_h2h_consumer"
    by (simp add: without_probe_def example_probed_consumer_def with_batch_probe_def example_h2h_consumer_def)
  have fresh: "fresh_consumer 2 5 ?c" using example_h2h_thread_ok(2) by (simp add: fresh_consumer_def example_probed_consumer_def)
  have probe: "co_handler ?c = with_batch_probe (co_handler example_h2h_consumer) (batch_probe_pair True ''stage_3'')"
    by (simp add: example_probed_consumer_def)
  note account = round_diagnostics_account [OF example_h2h_thread_ok(1) fresh probe, where pk = ?pk and fuel = 9 and os = example_h2h_os and thread = "''c''" and stage = 0 and
      n = 1 and lost = "[]" and bp = None, unfolded plain]
  have "map_option (\<lambda>(r, c). (r, length (co_trace c)))
      (mutable_body ?pk 9 example_h2h_env (terminal_event_handler example_h2h_os) 5 ''c'' 0 Sequential example_h2h_consumer) = Some (LoopReturned, 1)"
    by code_simp
  then obtain d where d: "mutable_body ?pk 9 example_h2h_env (terminal_event_handler example_h2h_os) 5 ''c'' 0 Sequential example_h2h_consumer =
      Some (LoopReturned, d)" "length (co_trace d) = 1" by auto
  with account obtain c' where
    c': "mutable_body ?pk 9 example_h2h_env (probed_handler (terminal_event_handler example_h2h_os)) 5 ''c'' 0 Sequential ?c = Some (LoopReturned, c')"
    "d = without_probe c'" by auto
  with account d(2) show ?thesis by auto
qed

section \<open>Rounds with diagnostics\<close>

fun round_roles :: "scenario \<Rightarrow> string list" where
  "round_roles PipelineScenario = [''stage_1'', ''stage_2'', ''stage_3'']"
| "round_roles _ = [''consumer'']"

text \<open>What the main thread finds after the shutdown of a round: the channel of each probe and the counters.\<close>

record channels =
  ch_received :: "nat \<Rightarrow> batch_diagnostics list"
  ch_lost :: string
  ch_sequencer :: sequencer
  ch_backpressure :: backpressure

definition diagnosed_round ::
    "bool \<Rightarrow> nat \<Rightarrow> round_env \<Rightarrow> channels \<Rightarrow> h2h_config \<Rightarrow> nat \<Rightarrow> (string + bench_round \<times> round_diagnostics option) option" where
  "diagnosed_round enabled fuel env ch cfg i =
     map_option (\<lambda>out. case out of
         Inl e \<Rightarrow> Inl e
       | Inr r \<Rightarrow>
           let receivers = map (\<lambda>j. if enabled then Some (ch_received ch j) else None) [0..<length (round_roles (hc_scenario cfg))];
               bp = (if hc_scenario cfg = MpscBatch then None
                     else bench_producer_backpressure_snapshot (ch_sequencer ch) (ch_backpressure ch))
           in (case collect_round_diagnostics enabled (hc_events_total cfg) (ch_lost ch) receivers bp of
                 Inl e \<Rightarrow> Inl e | Inr d \<Rightarrow> Inr (r, d)))
       (one_round fuel env cfg i)"

fun diagnosed_rounds ::
    "bool \<Rightarrow> nat \<Rightarrow> (nat \<Rightarrow> round_env) \<Rightarrow> (nat \<Rightarrow> channels) \<Rightarrow> h2h_config \<Rightarrow> nat \<Rightarrow> nat \<Rightarrow>
     (string + (bench_round \<times> round_diagnostics option) list) option" where
  "diagnosed_rounds enabled fuel env ch cfg i 0 = Some (Inr [])"
| "diagnosed_rounds enabled fuel env ch cfg i (Suc n) =
     (case diagnosed_round enabled fuel (env i) (ch i) cfg i of
        None \<Rightarrow> None
      | Some (Inl e) \<Rightarrow> Some (Inl e)
      | Some (Inr r) \<Rightarrow>
          (case diagnosed_rounds enabled fuel env ch cfg (Suc i) n of
             None \<Rightarrow> None
           | Some (Inl e) \<Rightarrow> Some (Inl e)
           | Some (Inr rs) \<Rightarrow> Some (Inr (r # rs))))"

text \<open>Without the flag the rounds are those of the plain program; with it, a finished run has a full record of every round.\<close>

lemma diagnosed_rounds_off:
  "diagnosed_rounds False fuel env ch cfg i n = map_option (map_sum id (map (\<lambda>r. (r, None)))) (run_rounds fuel env cfg i n)"
  by (induction n arbitrary: i) (auto simp: diagnosed_round_def collect_round_diagnostics_def Let_def split: option.splits sum.splits)

lemma collect_receivers_full:
  "collect_receivers n lost rs = Inr ds \<Longrightarrow> length ds = length rs \<and> list_all (\<lambda>d. hg_sum (bd_batch_size d) = n) ds"
  by (induction rs arbitrary: ds) (auto split: option.splits list.splits if_splits sum.splits)

lemma diagnosed_rounds_on:
  assumes "diagnosed_rounds True fuel env ch cfg i n = Some (Inr rs)"
  shows "run_rounds fuel env cfg i n = Some (Inr (map fst rs)) \<and>
    list_all (\<lambda>r. \<exists>d. snd r = Some d \<and> length (dg_consumers d) = length (round_roles (hc_scenario cfg)) \<and>
      list_all (\<lambda>b. hg_sum (bd_batch_size b) = hc_events_total cfg) (dg_consumers d)) rs"
  using assms
proof (induction n arbitrary: i rs)
  case (Suc n)
  then obtain r d rs' where rs: "diagnosed_round True fuel (env i) (ch i) cfg i = Some (Inr (r, d))"
    "diagnosed_rounds True fuel env ch cfg (Suc i) n = Some (Inr rs')" "rs = (r, d) # rs'"
    by (auto split: option.splits sum.splits)
  from rs(1) obtain out where "one_round fuel (env i) cfg i = Some out" by (auto simp: diagnosed_round_def)
  with rs(1) have "one_round fuel (env i) cfg i = Some (Inr r)" "\<exists>d'. d = Some d' \<and> length (dg_consumers d') = length (round_roles (hc_scenario cfg)) \<and>
      list_all (\<lambda>b. hg_sum (bd_batch_size b) = hc_events_total cfg) (dg_consumers d')"
    by (cases out; auto simp: diagnosed_round_def collect_round_diagnostics_def Let_def split: sum.splits dest!: collect_receivers_full)+
  with Suc.IH [OF rs(2)] rs(3) show ?case by simp
qed simp

end
