(* ===== verification/H2h_Json.thy ===== *)
theory H2h_Json
  imports Json_Text H2h_Diagnostics
begin

text \<open>
  The report of the head-to-head program (\<open>src/bin/h2h_rust.rs\<close>, \<open>write_result\<close> and the two writers of the
  diagnostics). The command line decides some of the strings in it, and they are written as they are.
\<close>

section \<open>Diagnostics\<close>

definition histogram_mean :: "log2_histogram \<Rightarrow> f64" where
  "histogram_mean h = (if hg_count h = 0 then 0 else div_f64 (as_f64 (hg_sum h)) (as_f64 (hg_count h)))"

definition write_histogram_json :: "nat \<Rightarrow> log2_histogram \<Rightarrow> writer" where
  "write_histogram_json indent h = write_all
     [text_line indent ''{'',
      field_line (indent + 2) ''count'' (show_nat (hg_count h)) True,
      field_line (indent + 2) ''sum'' (show_nat (hg_sum h)) True,
      field_line (indent + 2) ''min'' (show_nat (hg_min h)) True,
      field_line (indent + 2) ''max'' (show_nat (hg_max h)) True,
      field_line (indent + 2) ''mean'' (show_fixed 6 (histogram_mean h)) True,
      list_line (indent + 2) ''log2_bins'' (map show_nat (hg_bins h)) False,
      push_str (spaces indent @ ''}'')]"

definition write_consumer_json :: "bool \<Rightarrow> batch_diagnostics \<Rightarrow> writer" where
  "write_consumer_json final c = write_all
     [text_line 10 ''{'',
      field_line 12 ''role'' (quoted (bd_role c)) True,
      key_text 12 ''batch_size'',
      write_histogram_json 12 (bd_batch_size c),
      push_str ('','' @ [newline]),
      key_text 12 ''queue_depth'',
      write_histogram_json 12 (bd_queue_depth c),
      push_str [newline],
      text_line 10 (if final then ''}'' else ''},'')]"

definition write_backpressure_json :: "backpressure option \<Rightarrow> writer" where
  "write_backpressure_json b =
     (case b of
        Some p \<Rightarrow> write_all
          [field_line 10 ''supported'' ''true'' True,
           field_line 10 ''iteration_action'' (quoted ''spin_loop'') True,
           field_line 10 ''entries'' (show_nat (bk_entries p)) True,
           field_line 10 ''wait_loop_iterations'' (show_nat (bk_wait_loop_iterations p)) True,
           field_line 10 ''max_wait_loop_iterations'' (show_nat (bk_max_wait_loop_iterations p)) False]
      | None \<Rightarrow> write_all
          [field_line 10 ''supported'' ''false'' True,
           field_line 10 ''iteration_action'' (quoted ''unsupported_multi_producer'') True,
           field_line 10 ''entries'' ''0'' True,
           field_line 10 ''wait_loop_iterations'' ''0'' True,
           field_line 10 ''max_wait_loop_iterations'' ''0'' False])"

definition write_round_diagnostics_json :: "round_diagnostics \<Rightarrow> writer" where
  "write_round_diagnostics_json d = write_all
     [head_line 6 ''diagnostics'' CHR ''{'',
      head_line 8 ''batch_processing'' CHR ''['',
      write_each write_consumer_json (dg_consumers d),
      text_line 8 ''],'',
      head_line 8 ''producer_backpressure'' CHR ''{'',
      write_backpressure_json (dg_producer_backpressure d),
      text_line 8 ''}'',
      text_line 6 ''}'']"

section \<open>The report\<close>

text \<open>
  What the run adds to the configuration: the revision and the state of the working tree as \<open>git\<close> tells them,
  the flag that a thread could not be pinned, and, when the program was built with the diagnostics, whether
  they were asked for.
\<close>

record report_env =
  rv_local_rev :: string
  rv_git_dirty :: bool
  rv_affinity_failed :: bool
  rv_diagnostics :: "bool option"

definition write_labels :: "report_env \<Rightarrow> h2h_config \<Rightarrow> writer list" where
  "write_labels env cfg =
     [field_line 2 ''impl'' (quoted (hc_impl_label cfg)) True,
      field_line 2 ''language'' (quoted ''rust'') True,
      field_line 2 ''scenario'' (quoted (scenario_as_str (hc_scenario cfg))) True,
      field_line 2 ''wait_strategy'' (quoted (wait_kind_as_str (hc_wait cfg))) True,
      field_line 2 ''event_padding'' (quoted (pad_as_str (hc_pad cfg))) True,
      field_line 2 ''handler_mode'' (quoted (handler_mode_as_str (hc_handler_mode cfg))) True,
      field_line 2 ''api_path'' (quoted ''builder'') True,
      field_line 2 ''buffer_size'' (show_nat (hc_buffer_size cfg)) True,
      field_line 2 ''events_total'' (show_nat (hc_events_total cfg)) True,
      field_line 2 ''batch_size'' (show_nat (hc_batch_size cfg)) True,
      field_line 2 ''warmup_rounds'' (show_nat (hc_warmup_rounds cfg)) True,
      field_line 2 ''measured_rounds'' (show_nat (hc_measured_rounds cfg)) True] @
     (case rv_diagnostics env of None \<Rightarrow> [] | Some b \<Rightarrow> [field_line 2 ''round_diagnostics'' (show_bool b) True]) @
     [field_line 2 ''run_order'' (quoted (hc_run_order cfg)) True]"

definition write_revisions :: "report_env \<Rightarrow> h2h_config \<Rightarrow> writer list" where
  "write_revisions env cfg =
     [field_line 2 ''fork_index'' (show_nat (hc_fork_index cfg)) True,
      field_line 2 ''harness_git_rev'' (quoted (case hc_harness_rev cfg of None \<Rightarrow> rv_local_rev env | Some r \<Rightarrow> r)) True,
      field_line 2 ''implementation_rev'' (quoted (case hc_implementation_rev cfg of None \<Rightarrow> rv_local_rev env | Some r \<Rightarrow> r)) True,
      field_line 2 ''harness_dirty'' (show_bool (case hc_harness_dirty cfg of None \<Rightarrow> rv_git_dirty env | Some b \<Rightarrow> b)) True,
      field_line 2 ''implementation_dirty'' (show_bool (case hc_implementation_dirty cfg of None \<Rightarrow> rv_git_dirty env | Some b \<Rightarrow> b)) True,
      field_line 2 ''git_rev'' (quoted (rv_local_rev env)) True]"

definition write_role :: "bool \<Rightarrow> string \<times> nat \<Rightarrow> writer" where
  "write_role final = (\<lambda>(role, cpu). field_line 6 role (show_nat cpu) (\<not> final))"

definition write_roles :: "(string \<times> nat) list \<Rightarrow> writer" where
  "write_roles roles = write_all
     (key_text 4 ''role_cpu_map'' # push_str ''{'' #
      (if roles = [] then [push_str (''}'' @ [newline])]
       else [push_str [newline], write_each write_role roles, text_line 4 ''}'']))"

definition write_affinity :: "report_env \<Rightarrow> h2h_config \<Rightarrow> (string \<times> nat) list \<Rightarrow> writer" where
  "write_affinity env cfg roles = write_all
     [head_line 2 ''cpu_affinity'' CHR ''{'',
      list_line 4 ''requested_cpu_list'' (map show_nat (hc_cpu_list cfg)) True,
      field_line 4 ''mode'' (quoted (if hc_cpu_list cfg = [] then ''none'' else ''per-thread'')) True,
      field_line 4 ''verified_all'' (show_bool (h2h_affinity_verified_all cfg (rv_affinity_failed env))) True,
      write_roles roles,
      text_line 2 ''},'']"

definition round_phase_text :: "bool \<Rightarrow> string" where
  "round_phase_text measured = (if measured then ''measured'' else ''warmup'')"

definition write_round :: "bool \<Rightarrow> bool \<Rightarrow> bench_round \<times> round_diagnostics option \<Rightarrow> writer" where
  "write_round built final = (\<lambda>(r, d). write_all
     ([text_line 4 ''{'',
       field_line 6 ''index'' (show_nat (rd_index r)) True,
       field_line 6 ''phase'' (quoted (round_phase_text (rd_measured r))) True,
       field_line 6 ''elapsed_ns'' (show_nat (rd_elapsed_ns r)) True,
       field_line 6 ''events'' (show_nat (rd_events r)) True,
       field_line 6 ''ops_per_sec'' (show_fixed 6 (rd_ops_per_sec r)) True] @
      (case d of
         Some diagnostics \<Rightarrow>
           if built then [field_line 6 ''checksum_valid'' (show_bool (rd_checksum_ok r)) True, write_round_diagnostics_json diagnostics]
           else [field_line 6 ''checksum_valid'' (show_bool (rd_checksum_ok r)) False]
       | None \<Rightarrow> [field_line 6 ''checksum_valid'' (show_bool (rd_checksum_ok r)) False]) @
      [text_line 4 (if final then ''}'' else ''},'')]))"

definition write_summary :: "summary \<Rightarrow> writer" where
  "write_summary s = write_all
     [head_line 2 ''summary'' CHR ''{'',
      field_line 4 ''checksum_valid_all'' (show_bool (sm_checksum_valid_all s)) True,
      field_line 4 ''median_ops_per_sec'' (show_fixed 6 (sm_median s)) True,
      field_line 4 ''mean_ops_per_sec'' (show_fixed 6 (sm_mean s)) True,
      field_line 4 ''min_ops_per_sec'' (show_fixed 6 (sm_min s)) True,
      field_line 4 ''max_ops_per_sec'' (show_fixed 6 (sm_max s)) True,
      field_line 4 ''stddev_ops_per_sec'' (show_fixed 6 (sm_stddev s)) True,
      field_line 4 ''cv'' (show_fixed 6 (sm_cv s)) False,
      text_line 2 ''}'']"

definition h2h_report ::
    "report_env \<Rightarrow> h2h_config \<Rightarrow> (string \<times> nat) list \<Rightarrow> (bench_round \<times> round_diagnostics option) list \<Rightarrow> summary \<Rightarrow> writer" where
  "h2h_report env cfg roles rounds s = write_all
     [text_line 0 ''{'',
      write_all (write_labels env cfg),
      field_line 2 ''pair_id'' (quoted (hc_pair_id cfg)) True,
      write_all (write_revisions env cfg),
      write_affinity env cfg roles,
      head_line 2 ''rounds'' CHR ''['',
      write_each (write_round (rv_diagnostics env \<noteq> None)) rounds,
      text_line 2 ''],'',
      write_summary s,
      text_line 0 ''}'']"

text \<open>\<open>None\<close> is the panic of a role without a CPU.\<close>

definition write_result ::
    "report_env \<Rightarrow> h2h_config \<Rightarrow> (bench_round \<times> round_diagnostics option) list \<Rightarrow> summary \<Rightarrow> string option" where
  "write_result env cfg rounds s = map_option (\<lambda>roles. h2h_report env cfg roles rounds s []) (affinity_roles cfg)"

section \<open>What the report says\<close>

definition histogram_value :: "log2_histogram \<Rightarrow> json" where
  "histogram_value h = JObject
     [(''count'', jnat (hg_count h)), (''sum'', jnat (hg_sum h)), (''min'', jnat (hg_min h)), (''max'', jnat (hg_max h)),
      (''mean'', jfloat 6 (histogram_mean h)), (''log2_bins'', JArray (map jnat (hg_bins h)))]"

definition consumer_value :: "batch_diagnostics \<Rightarrow> json" where
  "consumer_value c = JObject
     [(''role'', JString (bd_role c)), (''batch_size'', histogram_value (bd_batch_size c)),
      (''queue_depth'', histogram_value (bd_queue_depth c))]"

definition backpressure_value :: "backpressure option \<Rightarrow> json" where
  "backpressure_value b = JObject
     [(''supported'', JBool (b \<noteq> None)),
      (''iteration_action'', JString (case b of None \<Rightarrow> ''unsupported_multi_producer'' | Some _ \<Rightarrow> ''spin_loop'')),
      (''entries'', jnat (case b of None \<Rightarrow> 0 | Some p \<Rightarrow> bk_entries p)),
      (''wait_loop_iterations'', jnat (case b of None \<Rightarrow> 0 | Some p \<Rightarrow> bk_wait_loop_iterations p)),
      (''max_wait_loop_iterations'', jnat (case b of None \<Rightarrow> 0 | Some p \<Rightarrow> bk_max_wait_loop_iterations p))]"

definition diagnostics_value :: "round_diagnostics \<Rightarrow> json" where
  "diagnostics_value d = JObject
     [(''batch_processing'', JArray (map consumer_value (dg_consumers d))),
      (''producer_backpressure'', backpressure_value (dg_producer_backpressure d))]"

definition labels_value :: "report_env \<Rightarrow> h2h_config \<Rightarrow> (string \<times> json) list" where
  "labels_value env cfg =
     [(''impl'', JString (hc_impl_label cfg)), (''language'', JString ''rust''), (''scenario'', JString (scenario_as_str (hc_scenario cfg))),
      (''wait_strategy'', JString (wait_kind_as_str (hc_wait cfg))), (''event_padding'', JString (pad_as_str (hc_pad cfg))),
      (''handler_mode'', JString (handler_mode_as_str (hc_handler_mode cfg))), (''api_path'', JString ''builder''),
      (''buffer_size'', jnat (hc_buffer_size cfg)), (''events_total'', jnat (hc_events_total cfg)), (''batch_size'', jnat (hc_batch_size cfg)),
      (''warmup_rounds'', jnat (hc_warmup_rounds cfg)), (''measured_rounds'', jnat (hc_measured_rounds cfg))] @
     (case rv_diagnostics env of None \<Rightarrow> [] | Some b \<Rightarrow> [(''round_diagnostics'', JBool b)]) @
     [(''run_order'', JString (hc_run_order cfg))]"

definition revisions_value :: "report_env \<Rightarrow> h2h_config \<Rightarrow> (string \<times> json) list" where
  "revisions_value env cfg =
     [(''fork_index'', jnat (hc_fork_index cfg)),
      (''harness_git_rev'', JString (case hc_harness_rev cfg of None \<Rightarrow> rv_local_rev env | Some r \<Rightarrow> r)),
      (''implementation_rev'', JString (case hc_implementation_rev cfg of None \<Rightarrow> rv_local_rev env | Some r \<Rightarrow> r)),
      (''harness_dirty'', JBool (case hc_harness_dirty cfg of None \<Rightarrow> rv_git_dirty env | Some b \<Rightarrow> b)),
      (''implementation_dirty'', JBool (case hc_implementation_dirty cfg of None \<Rightarrow> rv_git_dirty env | Some b \<Rightarrow> b)),
      (''git_rev'', JString (rv_local_rev env))]"

definition affinity_value :: "report_env \<Rightarrow> h2h_config \<Rightarrow> (string \<times> nat) list \<Rightarrow> json" where
  "affinity_value env cfg roles = JObject
     [(''requested_cpu_list'', JArray (map jnat (hc_cpu_list cfg))),
      (''mode'', JString (if hc_cpu_list cfg = [] then ''none'' else ''per-thread'')),
      (''verified_all'', JBool (h2h_affinity_verified_all cfg (rv_affinity_failed env))),
      (''role_cpu_map'', JObject (map (\<lambda>x. (fst x, jnat (snd x))) roles))]"

definition round_value :: "bool \<Rightarrow> bench_round \<times> round_diagnostics option \<Rightarrow> json" where
  "round_value built = (\<lambda>(r, d). JObject
     ([(''index'', jnat (rd_index r)), (''phase'', JString (round_phase_text (rd_measured r))), (''elapsed_ns'', jnat (rd_elapsed_ns r)),
       (''events'', jnat (rd_events r)), (''ops_per_sec'', jfloat 6 (rd_ops_per_sec r)), (''checksum_valid'', JBool (rd_checksum_ok r))] @
      (case d of None \<Rightarrow> [] | Some diagnostics \<Rightarrow> if built then [(''diagnostics'', diagnostics_value diagnostics)] else [])))"

definition summary_value :: "summary \<Rightarrow> json" where
  "summary_value s = JObject
     [(''checksum_valid_all'', JBool (sm_checksum_valid_all s)), (''median_ops_per_sec'', jfloat 6 (sm_median s)),
      (''mean_ops_per_sec'', jfloat 6 (sm_mean s)), (''min_ops_per_sec'', jfloat 6 (sm_min s)),
      (''max_ops_per_sec'', jfloat 6 (sm_max s)), (''stddev_ops_per_sec'', jfloat 6 (sm_stddev s)), (''cv'', jfloat 6 (sm_cv s))]"

definition h2h_value ::
    "report_env \<Rightarrow> h2h_config \<Rightarrow> (string \<times> json) list \<Rightarrow> (string \<times> nat) list \<Rightarrow> (bench_round \<times> round_diagnostics option) list \<Rightarrow> summary \<Rightarrow> json" where
  "h2h_value env cfg pair roles rounds s = JObject
     (labels_value env cfg @ pair @ revisions_value env cfg @
      [(''cpu_affinity'', affinity_value env cfg roles), (''rounds'', JArray (map (round_value (rv_diagnostics env \<noteq> None)) rounds)),
       (''summary'', summary_value s)])"

section \<open>Reading the report back\<close>

lemma zero_text: "show_nat 0 = ''0''"
  by code_simp

lemma writes_literal:
  "list_all plain_char key \<Longrightarrow> writes (field_line n key ''true'' b) (Str key # Colon # json_tokens (JBool True) @ comma_if b)"
  "list_all plain_char key \<Longrightarrow> writes (field_line n key ''false'' b) (Str key # Colon # json_tokens (JBool False) @ comma_if b)"
  "list_all plain_char key \<Longrightarrow> writes (field_line n key ''0'' b) (Str key # Colon # json_tokens (jnat 0) @ comma_if b)"
  using writes_atom_member(5) [of key n True b] writes_atom_member(5) [of key n False b] writes_atom_member(2) [of key n 0 b]
  by (simp_all add: show_bool_def zero_text)

lemma texts_plain:
  "list_all plain_char (scenario_as_str sc)"   "list_all plain_char (handler_mode_as_str hm)" "list_all plain_char (round_phase_text b)"
  "list_all plain_char (if c then ''none'' else ''per-thread'')"
proof -
  show "list_all plain_char (scenario_as_str sc)" by (cases sc) (simp_all add: plain_char_def)
  show "list_all plain_char (handler_mode_as_str hm)" by (cases hm) (simp_all add: plain_char_def)
  show "list_all plain_char (round_phase_text b)" by (simp add: round_phase_text_def plain_char_def)
  show "list_all plain_char (if c then ''none'' else ''per-thread'')" by (simp add: plain_char_def)
qed

lemma write_histogram_writes: "writes (write_histogram_json n h) (json_tokens (histogram_value h))"
  unfolding write_histogram_json_def
  by (rule writes_eq, (rule writes_intros writes_atom_member writes_nat_list writes_punctuation |
      (simp add: histogram_value_def plain_char_def; fail))+)

lemma write_consumer_writes:
  assumes "list_all plain_char (bd_role c)"
  shows "writes (write_consumer_json final c) (json_tokens (consumer_value c) @ comma_if (\<not> final))"
  unfolding write_consumer_json_def
  by (rule writes_eq, (rule writes_intros writes_atom_member writes_key writes_punctuation write_histogram_writes writes_last assms |
      (simp add: consumer_value_def plain_char_def; fail))+)

lemma write_backpressure_writes: "writes (write_backpressure_json b) (member_tokens
  [(''supported'', JBool (b \<noteq> None)), (''iteration_action'', JString (case b of None \<Rightarrow> ''unsupported_multi_producer'' | Some _ \<Rightarrow> ''spin_loop'')),
   (''entries'', jnat (case b of None \<Rightarrow> 0 | Some p \<Rightarrow> bk_entries p)),
   (''wait_loop_iterations'', jnat (case b of None \<Rightarrow> 0 | Some p \<Rightarrow> bk_wait_loop_iterations p)),
   (''max_wait_loop_iterations'', jnat (case b of None \<Rightarrow> 0 | Some p \<Rightarrow> bk_max_wait_loop_iterations p))])"
proof (cases b)
  case None
  show ?thesis unfolding write_backpressure_json_def None option.case
    by (rule writes_eq, (rule writes_Nil writes_Cons writes_literal writes_atom_member | (simp add: plain_char_def; fail))+)
next
  case (Some p)
  show ?thesis unfolding write_backpressure_json_def Some option.case
    by (rule writes_eq, (rule writes_Nil writes_Cons writes_literal writes_atom_member | (simp add: plain_char_def; fail))+)
qed

lemma write_diagnostics_writes:
  assumes "list_all (\<lambda>c. list_all plain_char (bd_role c)) (dg_consumers d)"
  shows "writes (write_round_diagnostics_json d) (Str ''diagnostics'' # Colon # json_tokens (diagnostics_value d))"
proof -
  have consumers: "writes (write_each write_consumer_json (dg_consumers d)) (element_tokens (map consumer_value (dg_consumers d)))"
    using assms by (intro writes_each write_consumer_writes) (auto simp: list_all_iff)
  show ?thesis unfolding write_round_diagnostics_json_def
    by (rule writes_eq, (rule consumers writes_Nil writes_Cons writes_text writes_head write_backpressure_writes |
        (simp add: diagnostics_value_def backpressure_value_def plain_char_def; fail))+)
qed

definition plain_round :: "bench_round \<times> round_diagnostics option \<Rightarrow> bool" where
  "plain_round = (\<lambda>(r, d). case d of None \<Rightarrow> True | Some x \<Rightarrow> list_all (\<lambda>c. list_all plain_char (bd_role c)) (dg_consumers x))"

lemma write_round_writes:
  assumes "plain_round x"
  shows "writes (write_round built final x) (json_tokens (round_value built x) @ comma_if (\<not> final))"
proof (cases x)
  case (Pair r d)
  show ?thesis
  proof (cases "\<exists>z. d = Some z \<and> built")
    case True
    then obtain z where d: "d = Some z" "built" by blast
    with assms Pair have z: "list_all (\<lambda>c. list_all plain_char (bd_role c)) (dg_consumers z)" by (simp add: plain_round_def)
    show ?thesis unfolding write_round_def Pair d prod.case option.case append.simps if_True eq_True [THEN iffD2, OF d(2)]
      by (rule writes_eq, (rule writes_intros writes_atom_member texts_plain writes_last write_diagnostics_writes [OF z] |
          (simp add: round_value_def d plain_char_def; fail))+)
  next
    case False
    then have none: "(case d of Some z \<Rightarrow> if built then A z else B | None \<Rightarrow> B) = B" for A B by (auto split: option.split)
    show ?thesis unfolding write_round_def Pair prod.case none append.simps
      by (rule writes_eq, (rule writes_intros writes_atom_member texts_plain writes_last |
          (use False in \<open>auto simp: round_value_def plain_char_def split: option.split\<close>; fail))+)
  qed
qed

lemma write_summary_writes: "writes (write_summary s) (Str ''summary'' # Colon # json_tokens (summary_value s))"
  unfolding write_summary_def
  by (rule writes_eq, (rule writes_intros writes_atom_member | (simp add: summary_value_def plain_char_def; fail))+)

lemma write_roles_writes:
  assumes "list_all (\<lambda>x. list_all plain_char (fst x)) roles"
  shows "writes (write_roles roles) (Str ''role_cpu_map'' # Colon # json_tokens (JObject (map (\<lambda>x. (fst x, jnat (snd x))) roles)))"
proof -
  have "writes (write_role final x) (Str (fst x) # Colon # json_tokens (jnat (snd x)) @ comma_if (\<not> final))" if "x \<in> set roles" for x final
    using that assms unfolding write_role_def split_beta by (intro writes_atom_member) (simp add: list_all_iff)
  then have each: "writes (write_each write_role roles) (member_tokens (map (\<lambda>x. (fst x, jnat (snd x))) roles))"
    by (rule writes_each_member)
  show ?thesis
  proof (cases "roles = []")
    case True
    show ?thesis unfolding write_roles_def if_P [OF True]
      by (rule writes_eq, (rule writes_Nil writes_Cons writes_key writes_punctuation | (simp add: True plain_char_def; fail))+)
  next
    case False
    show ?thesis unfolding write_roles_def if_not_P [OF False]
      by (rule writes_eq, (rule each writes_Nil writes_Cons writes_key writes_text writes_punctuation | (simp add: plain_char_def; fail))+)
  qed
qed

lemma affinity_roles_plain: "affinity_roles cfg = Some roles \<Longrightarrow> list_all (\<lambda>x. list_all plain_char (fst x)) roles"
  by (cases "hc_scenario cfg") (auto simp: affinity_roles_def role_at_def plain_char_def split: if_splits)

lemma write_affinity_writes:
  assumes "list_all (\<lambda>x. list_all plain_char (fst x)) roles"
  shows "writes (write_affinity env cfg roles) (Str ''cpu_affinity'' # Colon # json_tokens (affinity_value env cfg roles) @ [Comma])"
  unfolding write_affinity_def
  by (rule writes_eq, (rule writes_Nil writes_Cons writes_text writes_head writes_atom_member writes_nat_list texts_plain write_roles_writes [OF assms] |
      (simp add: affinity_value_def plain_char_def; fail))+)

text \<open>The strings that come from the command line or from \<open>git\<close>, all but the pair identifier.\<close>

definition plain_labels :: "report_env \<Rightarrow> h2h_config \<Rightarrow> bool" where
  "plain_labels env cfg \<longleftrightarrow> list_all (list_all plain_char)
     ([hc_impl_label cfg, hc_run_order cfg, rv_local_rev env] @
      (case hc_harness_rev cfg of None \<Rightarrow> [] | Some r \<Rightarrow> [r]) @ (case hc_implementation_rev cfg of None \<Rightarrow> [] | Some r \<Rightarrow> [r]))"

lemma write_labels_writes:
  assumes "plain_labels env cfg"
  shows "writes (write_all (write_labels env cfg)) (member_tokens (labels_value env cfg) @ [Comma])"
proof -
  have plain: "list_all plain_char (hc_impl_label cfg)" "list_all plain_char (hc_run_order cfg)" using assms by (auto simp: plain_labels_def)
  show ?thesis
  proof (cases "rv_diagnostics env")
    case None
    show ?thesis unfolding write_labels_def None option.case append.simps
      by (rule writes_eq, (rule writes_Nil writes_Cons writes_atom_member texts_plain kinds_plain plain | (simp add: labels_value_def None plain_char_def; fail))+)
  next
    case (Some b)
    show ?thesis unfolding write_labels_def Some option.case append.simps
      by (rule writes_eq, (rule writes_Nil writes_Cons writes_atom_member texts_plain kinds_plain plain | (simp add: labels_value_def Some plain_char_def; fail))+)
  qed
qed

lemma write_revisions_writes:
  assumes "plain_labels env cfg"
  shows "writes (write_all (write_revisions env cfg)) (member_tokens (revisions_value env cfg) @ [Comma])"
proof -
  have plain: "list_all plain_char (rv_local_rev env)"
    "list_all plain_char (case hc_harness_rev cfg of None \<Rightarrow> rv_local_rev env | Some r \<Rightarrow> r)"
    "list_all plain_char (case hc_implementation_rev cfg of None \<Rightarrow> rv_local_rev env | Some r \<Rightarrow> r)"
    using assms by (auto simp: plain_labels_def split: option.splits)
  show ?thesis unfolding write_revisions_def
    by (rule writes_eq, (rule writes_Nil writes_Cons writes_atom_member plain | (simp add: revisions_value_def plain_char_def; fail))+)
qed

lemma h2h_report_writes:
  assumes "plain_labels env cfg" and "list_all (\<lambda>x. list_all plain_char (fst x)) roles" and "list_all plain_round rounds"
    and pair: "writes (field_line 2 ''pair_id'' (quoted (hc_pair_id cfg)) True) (member_tokens pair @ [Comma])" and "pair \<noteq> []"
  shows "writes (h2h_report env cfg roles rounds s) (json_tokens (h2h_value env cfg pair roles rounds s))"
proof -
  let ?built = "rv_diagnostics env \<noteq> None"
  have rounds: "writes (write_each (write_round ?built) rounds) (element_tokens (map (round_value ?built) rounds))"
    using assms(3) by (intro writes_each write_round_writes) (auto simp: list_all_iff)
  have lists: "labels_value env cfg \<noteq> []" "revisions_value env cfg \<noteq> []" by (simp_all add: labels_value_def revisions_value_def)
  show ?thesis unfolding h2h_report_def
    by (rule writes_eq, (rule pair rounds writes_Nil writes_Cons writes_text writes_head write_labels_writes [OF assms(1)]
        write_revisions_writes [OF assms(1)] write_affinity_writes [OF assms(2)] write_summary_writes | (simp add: plain_char_def; fail))+)
       (simp add: h2h_value_def member_tokens_append lists assms(5))
qed

text \<open>
  The head-to-head report says what was measured, when its labels are plain. For a configuration whose
  roles have CPUs, with labels and revisions free of quotes, backslashes and control characters,
  \<open>write_result\<close> prints a JSON text that is read back as the value of the configuration, the rounds (with
  their diagnostics when they were built in) and the summary.
\<close>

theorem h2h_report_readable:
  assumes "affinity_roles cfg = Some roles" and "plain_labels env cfg" and "list_all plain_char (hc_pair_id cfg)"
    and "list_all plain_round rounds"
  shows "\<exists>text. write_result env cfg rounds s = Some text \<and>
    read_json text = Some (h2h_value env cfg [(''pair_id'', JString (hc_pair_id cfg))] roles rounds s)"
proof -
  have "writes (field_line 2 ''pair_id'' (quoted (hc_pair_id cfg)) True) (member_tokens [(''pair_id'', JString (hc_pair_id cfg))] @ [Comma])"
    using writes_atom_member(1) [of "''pair_id''" "hc_pair_id cfg" 2 True] assms(3) by (simp add: plain_char_def)
  from read_written [OF h2h_report_writes [OF assms(2) affinity_roles_plain [OF assms(1)] assms(4) this]] assms(1)
  show ?thesis by (simp add: write_result_def)
qed

definition example_report_env :: report_env where
  "example_report_env = \<lparr>rv_local_rev = ''abc'', rv_git_dirty = False, rv_affinity_failed = False, rv_diagnostics = None\<rparr>"

definition example_summary :: summary where
  "example_summary = summarize [] 0"

lemma example_report_plain: "plain_labels example_report_env (example_h2h_config\<lparr>hc_pair_id := p\<rparr>)"
  by (simp add: plain_labels_def example_report_env_def example_h2h_config_def plain_char_def)

lemma example_report_roles: "affinity_roles (example_h2h_config\<lparr>hc_pair_id := p\<rparr>) = Some []"
  by (simp add: affinity_roles_def example_h2h_config_def)

theorem h2h_report_readable_witness:
  "\<exists>text j. write_result example_report_env (example_h2h_config\<lparr>hc_pair_id := ''p1''\<rparr>) [] example_summary = Some text \<and> read_json text = Some j"
proof -
  have "list_all plain_char (hc_pair_id (example_h2h_config\<lparr>hc_pair_id := ''p1''\<rparr>))" "list_all plain_round []"
    by (simp_all add: plain_char_def)
  from h2h_report_readable [OF example_report_roles example_report_plain this, of example_summary] show ?thesis by blast
qed

text \<open>
  C33: a label can forge members of the report. The pair identifier comes from \<open>--pair-id\<close> and is printed without
  escapes; one that closes its own quotes adds a member with a key and a value of its choice, such as a
  second revision, and the report is still a readable JSON text.
\<close>

theorem h2h_label_forges_member:
  assumes "affinity_roles cfg = Some roles" and "plain_labels env cfg" and "list_all plain_round rounds"
    and "list_all plain_char p" and "list_all plain_char key" and "list_all plain_char v"
    and "hc_pair_id cfg = p @ [quote_char] @ '', '' @ quoted key @ '': '' @ [quote_char] @ v"
  shows "\<exists>text. write_result env cfg rounds s = Some text \<and>
    read_json text = Some (h2h_value env cfg [(''pair_id'', JString p), (key, JString v)] roles rounds s)"
proof -
  have "quoted (hc_pair_id cfg) = quoted p @ '', '' @ quoted key @ '': '' @ quoted v" by (simp add: assms(7) quoted_def)
  moreover have "lexes (quoted p @ '', '' @ quoted key @ '': '' @ quoted v @ '','' @ [newline]) [Str p, Comma, Str key, Colon, Str v, Comma]"
    by (intro lexes_quoted assms(4-6)) (simp add: lexes_quoted assms(4-6) lexes_punctuation lexes_blank is_blank_def punctuation_def)
  ultimately have "writes (field_line 2 ''pair_id'' (quoted (hc_pair_id cfg)) True)
      (member_tokens [(''pair_id'', JString p), (key, JString v)] @ [Comma])"
    unfolding field_line_def
    by (intro writes_push lexes_spaces) (simp add: lexes_quoted plain_char_def lexes_punctuation lexes_blank is_blank_def punctuation_def)
  from read_written [OF h2h_report_writes [OF assms(2) affinity_roles_plain [OF assms(1)] assms(3) this]] assms(1)
  show ?thesis by (simp add: write_result_def)
qed

theorem h2h_label_forges_member_witness:
  "\<exists>text j. write_result example_report_env
       (example_h2h_config\<lparr>hc_pair_id := ''p'' @ [quote_char] @ '', '' @ quoted ''git_rev'' @ '': '' @ [quote_char] @ ''other''\<rparr>) []
       example_summary = Some text \<and> read_json text = Some j"
proof -
  have "list_all plain_char ''p''" "list_all plain_char ''git_rev''" "list_all plain_char ''other''" "list_all plain_round []"
    by (simp_all add: plain_char_def)
  from h2h_label_forges_member [OF example_report_roles example_report_plain this(4,1-3), of _ example_summary] show ?thesis by simp blast
qed

end
