(* ===== verification/Latency_Config.thy ===== *)
theory Latency_Config
  imports Harness
begin

text \<open>
  The command line of the tail-latency program (\<open>src/bin/h2h_tail_latency.rs\<close>): its flags, the defaults,
  the rules a configuration has to satisfy, in the order in which the program checks them.
\<close>

section \<open>Options and configuration\<close>

datatype handler_kind = AllocationFree | Allocating

definition handler_kind_parse :: "string \<Rightarrow> handler_kind cli" where
  "handler_kind_parse s =
     (if s = ''allocation-free'' then Inr AllocationFree else if s = ''allocating'' then Inr Allocating
      else Inl (Unsupported ''handler-mode'' s))"

fun handler_kind_as_str :: "handler_kind \<Rightarrow> string" where
  "handler_kind_as_str AllocationFree = ''allocation-free''"
| "handler_kind_as_str Allocating = ''allocating''"

abbreviation DEFAULT_EVENTS_TOTAL :: nat where "DEFAULT_EVENTS_TOTAL \<equiv> 1000000"
abbreviation DEFAULT_WARMUP_EVENTS :: nat where "DEFAULT_WARMUP_EVENTS \<equiv> 100000"
abbreviation DEFAULT_BUFFER_SIZE :: nat where "DEFAULT_BUFFER_SIZE \<equiv> 65536"
abbreviation DEFAULT_CALIBRATION_EVENTS :: nat where "DEFAULT_CALIBRATION_EVENTS \<equiv> 100000000"
abbreviation DEFAULT_CALIBRATION_DURATION_MS :: nat where "DEFAULT_CALIBRATION_DURATION_MS \<equiv> 2000"
abbreviation DEFAULT_LOAD_LEVELS :: "nat list" where "DEFAULT_LOAD_LEVELS \<equiv> [50, 70, 90]"
abbreviation DEFAULT_TIMEOUT_SECS :: nat where "DEFAULT_TIMEOUT_SECS \<equiv> 300"
abbreviation MIN_RECORDED_SAMPLES :: nat where "MIN_RECORDED_SAMPLES \<equiv> 100000"
abbreviation QUICK_EVENTS_TOTAL :: nat where "QUICK_EVENTS_TOTAL \<equiv> 110000"
abbreviation QUICK_WARMUP_EVENTS :: nat where "QUICK_WARMUP_EVENTS \<equiv> 10000"
abbreviation QUICK_CALIBRATION_EVENTS :: nat where "QUICK_CALIBRATION_EVENTS \<equiv> 1000000"
abbreviation DEFAULT_INJECT_AT_MEASURED_PCT :: nat where "DEFAULT_INJECT_AT_MEASURED_PCT \<equiv> 25"

text \<open>The local variables the flags write to.\<close>

record latency_opts =
  o_handler_mode :: handler_kind
  o_retention_window :: "nat option"
  o_wait :: wait_kind
  o_pad :: pad
  o_buffer_size :: "nat option"
  o_events_total :: "nat option"
  o_warmup_events :: "nat option"
  o_rate :: "nat option"
  o_load_levels :: "nat list option"
  o_calibration_events :: "nat option"
  o_calibration_duration_ms :: "nat option"
  o_calibrate_only :: bool
  o_max_rate :: "nat option"
  o_own_max :: "nat option"
  o_cpu_list :: "nat list"
  o_output :: "string option"
  o_samples_output :: "string option"
  o_inject_sleeps :: "nat list"
  o_inject_at_measured_pct :: nat
  o_quick :: bool

definition latency_opts_init :: latency_opts where
  "latency_opts_init =
     \<lparr>o_handler_mode = AllocationFree, o_retention_window = None, o_wait = WkBusySpin, o_pad = PadNone,
      o_buffer_size = None, o_events_total = None, o_warmup_events = None, o_rate = None,
      o_load_levels = None, o_calibration_events = None, o_calibration_duration_ms = None,
      o_calibrate_only = False, o_max_rate = None, o_own_max = None, o_cpu_list = [], o_output = None,
      o_samples_output = None, o_inject_sleeps = [],
      o_inject_at_measured_pct = DEFAULT_INJECT_AT_MEASURED_PCT, o_quick = False\<rparr>"

record latency_config =
  c_handler_mode :: handler_kind
  c_retention_window :: "nat option"
  c_wait :: wait_kind
  c_pad :: pad
  c_buffer_size :: nat
  c_events_total :: nat
  c_warmup_events :: nat
  c_rate :: "nat option"
  c_load_levels :: "nat list"
  c_calibration_events :: nat
  c_calibration_duration :: nat
  c_calibrate_only :: bool
  c_max_rate :: "nat option"
  c_own_max :: "nat option"
  c_cpu_list :: "nat list"
  c_output :: "string option"
  c_samples_output :: "string option"
  c_timeout :: nat
  c_inject_sleeps :: "nat list"
  c_inject_at_measured_pct :: nat

section \<open>Reading the flags\<close>

text \<open>The flags that take a value, with what the value does.\<close>

definition value_flag :: "string \<Rightarrow> (string \<Rightarrow> latency_opts \<Rightarrow> latency_opts cli) option" where
  "value_flag a =
     (if a = ''--handler-mode'' then
        Some (\<lambda>v opts. bind_cli (handler_kind_parse v) (\<lambda>x. Inr (opts\<lparr>o_handler_mode := x\<rparr>)))
      else if a = ''--retention-window'' then
        Some (\<lambda>v opts. bind_cli (parse_number ''retention-window'' (drop_underscores v))
          (\<lambda>x. Inr (opts\<lparr>o_retention_window := Some x\<rparr>)))
      else if a = ''--wait-strategy'' then
        Some (\<lambda>v opts. bind_cli (wait_kind_parse v) (\<lambda>x. Inr (opts\<lparr>o_wait := x\<rparr>)))
      else if a = ''--event-padding'' then
        Some (\<lambda>v opts. bind_cli (pad_parse v) (\<lambda>x. Inr (opts\<lparr>o_pad := x\<rparr>)))
      else if a = ''--buffer-size'' then
        Some (\<lambda>v opts. bind_cli (parse_number ''buffer-size'' v) (\<lambda>x. Inr (opts\<lparr>o_buffer_size := Some x\<rparr>)))
      else if a = ''--events-total'' then
        Some (\<lambda>v opts. bind_cli (parse_number ''events-total'' (drop_underscores v))
          (\<lambda>x. Inr (opts\<lparr>o_events_total := Some x\<rparr>)))
      else if a = ''--warmup-events'' then
        Some (\<lambda>v opts. bind_cli (parse_number ''warmup-events'' (drop_underscores v))
          (\<lambda>x. Inr (opts\<lparr>o_warmup_events := Some x\<rparr>)))
      else if a = ''--rate'' then
        Some (\<lambda>v opts. bind_cli (parse_number ''rate'' (drop_underscores v)) (\<lambda>x. Inr (opts\<lparr>o_rate := Some x\<rparr>)))
      else if a = ''--load-levels'' then
        Some (\<lambda>v opts. bind_cli (parse_percent_list v) (\<lambda>x. Inr (opts\<lparr>o_load_levels := Some x\<rparr>)))
      else if a = ''--calibration-events'' then
        Some (\<lambda>v opts. bind_cli (parse_number ''calibration-events'' (drop_underscores v))
          (\<lambda>x. Inr (opts\<lparr>o_calibration_events := Some x\<rparr>)))
      else if a = ''--calibration-duration-ms'' then
        Some (\<lambda>v opts. bind_cli (parse_number ''calibration-duration-ms'' v)
          (\<lambda>x. Inr (opts\<lparr>o_calibration_duration_ms := Some x\<rparr>)))
      else if a = ''--max-rate'' then
        Some (\<lambda>v opts. bind_cli (parse_number ''max-rate'' (drop_underscores v)) (\<lambda>x. Inr (opts\<lparr>o_max_rate := Some x\<rparr>)))
      else if a = ''--own-max'' then
        Some (\<lambda>v opts. bind_cli (parse_number ''own-max'' (drop_underscores v)) (\<lambda>x. Inr (opts\<lparr>o_own_max := Some x\<rparr>)))
      else if a = ''--cpu-list'' then
        Some (\<lambda>v opts. bind_cli (parse_cpu_list v) (\<lambda>x. Inr (opts\<lparr>o_cpu_list := x\<rparr>)))
      else if a = ''--output'' then Some (\<lambda>v opts. Inr (opts\<lparr>o_output := Some v\<rparr>))
      else if a = ''--samples-output'' then Some (\<lambda>v opts. Inr (opts\<lparr>o_samples_output := Some v\<rparr>))
      else if a = ''--inject-sleep-us-by-load'' then
        Some (\<lambda>v opts. bind_cli (parse_duration_us_list v) (\<lambda>x. Inr (opts\<lparr>o_inject_sleeps := x\<rparr>)))
      else if a = ''--inject-at-measured-pct'' then
        Some (\<lambda>v opts. bind_cli (parse_number ''inject-at-measured-pct'' v)
          (\<lambda>x. Inr (opts\<lparr>o_inject_at_measured_pct := x\<rparr>)))
      else None)"

text \<open>The loop over the arguments; \<open>Inr None\<close> is the help text and a successful exit.\<close>

fun parse_flags :: "latency_opts \<Rightarrow> string list \<Rightarrow> latency_opts option cli" where
  "parse_flags opts [] = Inr (Some opts)"
| "parse_flags opts (a # rest) =
     (case value_flag a of
        Some put \<Rightarrow>
          (case rest of
             [] \<Rightarrow> Inl (Missing a)
           | v # rest' \<Rightarrow> bind_cli (put v opts) (\<lambda>opts'. parse_flags opts' rest'))
      | None \<Rightarrow>
          if a = ''--calibrate-only'' then parse_flags (opts\<lparr>o_calibrate_only := True\<rparr>) rest
          else if a = ''--quick'' then parse_flags (opts\<lparr>o_quick := True\<rparr>) rest
          else if a = ''--help'' \<or> a = ''-h'' then Inr None
          else Inl (UnknownArgument a))"

section \<open>The rules\<close>

definition measured_window_covers_retention :: "nat \<Rightarrow> nat \<Rightarrow> bool" where
  "measured_window_covers_retention recorded_samples retention_window \<longleftrightarrow> retention_window \<le> recorded_samples"

definition calibration_warmup :: "nat \<Rightarrow> nat option \<Rightarrow> nat" where
  "calibration_warmup warmup_events retention_window =
     max warmup_events (case retention_window of None \<Rightarrow> 0 | Some w \<Rightarrow> w)"

definition calibration_warmup_events :: "latency_config \<Rightarrow> nat" where
  "calibration_warmup_events cfg = calibration_warmup (c_warmup_events cfg) (c_retention_window cfg)"

definition config_cpu :: "latency_config \<Rightarrow> nat \<Rightarrow> nat option" where
  "config_cpu cfg index = (if index < length (c_cpu_list cfg) then Some (c_cpu_list cfg ! index) else None)"

definition affinity_verified_all :: "latency_config \<Rightarrow> bool \<Rightarrow> bool" where
  "affinity_verified_all cfg affinity_failed \<longleftrightarrow> c_cpu_list cfg \<noteq> [] \<and> \<not> affinity_failed"

definition or_default :: "nat option \<Rightarrow> nat \<Rightarrow> nat" where
  "or_default x d = (case x of None \<Rightarrow> d | Some n \<Rightarrow> n)"

definition quick_min :: "bool \<Rightarrow> nat \<Rightarrow> nat \<Rightarrow> nat" where
  "quick_min quick n m = (if quick then min n m else n)"

definition opt_events_total :: "latency_opts \<Rightarrow> nat" where
  "opt_events_total opts = quick_min (o_quick opts) (or_default (o_events_total opts) DEFAULT_EVENTS_TOTAL) QUICK_EVENTS_TOTAL"

definition opt_warmup_events :: "latency_opts \<Rightarrow> nat" where
  "opt_warmup_events opts = quick_min (o_quick opts) (or_default (o_warmup_events opts) DEFAULT_WARMUP_EVENTS) QUICK_WARMUP_EVENTS"

definition opt_calibration_events :: "latency_opts \<Rightarrow> nat" where
  "opt_calibration_events opts =
     quick_min (o_quick opts) (or_default (o_calibration_events opts) DEFAULT_CALIBRATION_EVENTS) QUICK_CALIBRATION_EVENTS"

definition opt_load_levels :: "latency_opts \<Rightarrow> nat list" where
  "opt_load_levels opts = (case o_load_levels opts of None \<Rightarrow> DEFAULT_LOAD_LEVELS | Some ls \<Rightarrow> ls)"

text \<open>The first half of the checks: counts, sizes, rates and load levels.\<close>

definition check_counts :: "latency_opts \<Rightarrow> unit cli" where
  "check_counts opts =
     (let events_total = opt_events_total opts; warmup_events = opt_warmup_events opts;
          calibration_events = opt_calibration_events opts;
          buffer_size = or_default (o_buffer_size opts) DEFAULT_BUFFER_SIZE;
          recorded_samples = events_total - warmup_events
      in if events_total = 0 then Inl (Broken ''events-total must be > 0'')
         else if int events_total > i64_max then Inl (Broken ''events-total must fit i64'')
         else if \<not> is_power_of_two buffer_size \<or> buffer_size = 0
         then Inl (Broken (''buffer-size must be power of two, got '' @ show_nat buffer_size))
         else if \<not> o_calibrate_only opts \<and> events_total \<le> warmup_events
         then Inl (Broken ''warmup-events must be < events-total'')
         else if \<not> o_calibrate_only opts \<and> recorded_samples < MIN_RECORDED_SAMPLES
         then Inl (Broken (''events-total - warmup-events must be at least 100000 for p99.99, got '' @ show_nat recorded_samples))
         else if or_default (o_calibration_duration_ms opts) DEFAULT_CALIBRATION_DURATION_MS = 0
         then Inl (Broken ''calibration-duration-ms must be > 0'')
         else if calibration_events = 0 then Inl (Broken ''calibration-events must be > 0'')
         else if int calibration_events > i64_max then Inl (Broken ''calibration-events must fit i64'')
         else if \<not> (1 \<le> o_inject_at_measured_pct opts \<and> o_inject_at_measured_pct opts \<le> 99)
         then Inl (Broken ''inject-at-measured-pct must be in 1..=99'')
         else if o_rate opts = Some 0 then Inl (Broken ''rate must be > 0'')
         else if o_max_rate opts = Some 0 then Inl (Broken ''max-rate must be > 0'')
         else if o_own_max opts = Some 0 then Inl (Broken ''own-max must be > 0'')
         else Inr ())"

definition check_levels :: "latency_opts \<Rightarrow> unit cli" where
  "check_levels opts =
     (case o_load_levels opts of
        None \<Rightarrow> Inr ()
      | Some levels \<Rightarrow>
          (case filter (\<lambda>lvl. lvl = 0 \<or> 100 < lvl) levels of
             [] \<Rightarrow> Inr ()
           | lvl # _ \<Rightarrow> Inl (Broken (''load level must be in 1..=100, got '' @ show_nat lvl))))"

text \<open>The second half: CPUs, retention, calibration range, the two run modes and the injections.\<close>

definition check_modes :: "latency_opts \<Rightarrow> unit cli" where
  "check_modes opts =
     (let events_total = opt_events_total opts; warmup_events = opt_warmup_events opts;
          load_levels = opt_load_levels opts; recorded_samples = events_total - warmup_events;
          expected_inject_sleeps = (if o_rate opts \<noteq> None then 1 else length load_levels)
      in if o_cpu_list opts \<noteq> [] \<and> length (o_cpu_list opts) < 2
         then Inl (Broken ''tail-latency harness needs at least 2 CPUs for producer/consumer isolation'')
         else if o_handler_mode opts = AllocationFree \<and> o_retention_window opts \<noteq> None
         then Inl (Broken ''retention-window is valid only with handler-mode=allocating'')
         else if o_handler_mode opts = Allocating \<and> o_retention_window opts \<in> {None, Some 0}
         then Inl (Broken ''handler-mode=allocating requires retention-window > 0'')
         else if o_handler_mode opts = Allocating \<and> \<not> o_calibrate_only opts \<and>
           \<not> measured_window_covers_retention recorded_samples (or_default (o_retention_window opts) 0)
         then Inl (Broken ''measured events must reach the full allocating retention-window'')
         else if int (calibration_warmup warmup_events (o_retention_window opts) + opt_calibration_events opts) > i64_max
         then Inl (Broken ''calibration warmup + events must fit i64'')
         else if \<not> o_calibrate_only opts \<and> o_rate opts = None \<and> load_levels = []
         then Inl (Broken ''load-levels must contain at least one percentage'')
         else if \<not> o_calibrate_only opts \<and> o_samples_output opts = None
         then Inl (Broken ''required: --samples-output'')
         else if o_calibrate_only opts \<and> (o_rate opts \<noteq> None \<or> o_max_rate opts \<noteq> None \<or> o_own_max opts \<noteq> None \<or>
           o_inject_sleeps opts \<noteq> [] \<or> o_samples_output opts \<noteq> None)
         then Inl (Broken ''calibrate-only rejects measurement-only rate/max/own-max/injection/sample flags'')
         else if o_inject_sleeps opts \<noteq> [] \<and> length (o_inject_sleeps opts) \<noteq> expected_inject_sleeps
         then Inl (Broken (''inject-sleep-us-by-load must contain '' @ show_nat expected_inject_sleeps @ '' values''))
         else Inr ())"

definition config_of :: "latency_opts \<Rightarrow> latency_config" where
  "config_of opts =
     \<lparr>c_handler_mode = o_handler_mode opts, c_retention_window = o_retention_window opts, c_wait = o_wait opts,
      c_pad = o_pad opts, c_buffer_size = or_default (o_buffer_size opts) DEFAULT_BUFFER_SIZE,
      c_events_total = opt_events_total opts, c_warmup_events = opt_warmup_events opts, c_rate = o_rate opts,
      c_load_levels = opt_load_levels opts, c_calibration_events = opt_calibration_events opts,
      c_calibration_duration = or_default (o_calibration_duration_ms opts) DEFAULT_CALIBRATION_DURATION_MS * 1000000,
      c_calibrate_only = o_calibrate_only opts, c_max_rate = o_max_rate opts, c_own_max = o_own_max opts,
      c_cpu_list = o_cpu_list opts, c_output = o_output opts, c_samples_output = o_samples_output opts,
      c_timeout = DEFAULT_TIMEOUT_SECS * 1000000000, c_inject_sleeps = o_inject_sleeps opts,
      c_inject_at_measured_pct = o_inject_at_measured_pct opts\<rparr>"

definition config_from :: "latency_opts \<Rightarrow> latency_config cli" where
  "config_from opts =
     bind_cli (check_counts opts) (\<lambda>_. bind_cli (check_levels opts) (\<lambda>_.
       bind_cli (check_modes opts) (\<lambda>_. Inr (config_of opts))))"

text \<open>\<open>Inr None\<close> is a request for help.\<close>

definition parse_args :: "string list \<Rightarrow> latency_config option cli" where
  "parse_args args =
     bind_cli (parse_flags latency_opts_init args)
       (\<lambda>r. case r of None \<Rightarrow> Inr None | Some opts \<Rightarrow> bind_cli (config_from opts) (\<lambda>c. Inr (Some c)))"

section \<open>What an accepted configuration satisfies\<close>

definition measures :: "latency_config \<Rightarrow> bool" where
  "measures c \<longleftrightarrow> \<not> c_calibrate_only c"

definition config_ok :: "latency_config \<Rightarrow> bool" where
  "config_ok c \<longleftrightarrow>
     0 < c_events_total c \<and> int (c_events_total c) \<le> i64_max \<and> is_power_of_two (c_buffer_size c) \<and>
     0 < c_calibration_events c \<and> 0 < c_calibration_duration c \<and>
     int (calibration_warmup_events c + c_calibration_events c) \<le> i64_max \<and>
     1 \<le> c_inject_at_measured_pct c \<and> c_inject_at_measured_pct c \<le> 99 \<and>
     c_rate c \<noteq> Some 0 \<and> c_max_rate c \<noteq> Some 0 \<and> c_own_max c \<noteq> Some 0 \<and>
     list_all (\<lambda>lvl. 1 \<le> lvl \<and> lvl \<le> 100) (c_load_levels c) \<and>
     (c_cpu_list c = [] \<or> 2 \<le> length (c_cpu_list c)) \<and>
     (case (c_handler_mode c, c_retention_window c) of
        (AllocationFree, r) \<Rightarrow> r = None
      | (Allocating, r) \<Rightarrow> (case r of None \<Rightarrow> False | Some w \<Rightarrow> 0 < w))"

definition measured_ok :: "latency_config \<Rightarrow> bool" where
  "measured_ok c \<longleftrightarrow>
     c_warmup_events c + MIN_RECORDED_SAMPLES \<le> c_events_total c \<and> c_samples_output c \<noteq> None \<and>
     (c_rate c = None \<longrightarrow> c_load_levels c \<noteq> []) \<and>
     (case c_retention_window c of None \<Rightarrow> True | Some w \<Rightarrow> w \<le> c_events_total c - c_warmup_events c) \<and>
     (c_inject_sleeps c \<noteq> [] \<longrightarrow>
        length (c_inject_sleeps c) = (if c_rate c \<noteq> None then 1 else length (c_load_levels c)))"

text \<open>What a measurement itself relies on: something to measure, enough of it to fill the retention window.\<close>

definition measurable :: "latency_config \<Rightarrow> bool" where
  "measurable c \<longleftrightarrow> c_warmup_events c < c_events_total c \<and>
     (case c_retention_window c of None \<Rightarrow> True | Some w \<Rightarrow> w \<le> c_events_total c - c_warmup_events c)"

lemma measured_measurable: "measured_ok c \<Longrightarrow> measurable c"
  by (auto simp: measured_ok_def measurable_def)

lemma levels_checked:
  "check_levels opts = Inr () \<Longrightarrow> list_all (\<lambda>lvl. 1 \<le> lvl \<and> lvl \<le> 100) (opt_load_levels opts)"
  by (auto simp: check_levels_def opt_load_levels_def list_all_iff filter_empty_conv Suc_le_eq
      split: option.splits list.splits)

lemma counts_checked:
  assumes "check_counts opts = Inr ()"
  shows "0 < opt_events_total opts" "int (opt_events_total opts) \<le> i64_max"
    "is_power_of_two (or_default (o_buffer_size opts) DEFAULT_BUFFER_SIZE)"
    "0 < opt_calibration_events opts" "0 < or_default (o_calibration_duration_ms opts) DEFAULT_CALIBRATION_DURATION_MS"
    "1 \<le> o_inject_at_measured_pct opts" "o_inject_at_measured_pct opts \<le> 99"
    "o_rate opts \<noteq> Some 0" "o_max_rate opts \<noteq> Some 0" "o_own_max opts \<noteq> Some 0"
    "\<not> o_calibrate_only opts \<Longrightarrow> opt_warmup_events opts + MIN_RECORDED_SAMPLES \<le> opt_events_total opts"
  using assms by (simp_all add: check_counts_def Let_def split: if_splits)

lemma modes_checked:
  assumes "check_modes opts = Inr ()"
  shows "o_cpu_list opts = [] \<or> 2 \<le> length (o_cpu_list opts)"
    "o_handler_mode opts = AllocationFree \<Longrightarrow> o_retention_window opts = None"
    "o_handler_mode opts = Allocating \<Longrightarrow> \<exists>w>0. o_retention_window opts = Some w \<and>
       (\<not> o_calibrate_only opts \<longrightarrow> w \<le> opt_events_total opts - opt_warmup_events opts)"
    "int (calibration_warmup (opt_warmup_events opts) (o_retention_window opts) + opt_calibration_events opts) \<le> i64_max"
    "\<not> o_calibrate_only opts \<Longrightarrow> o_samples_output opts \<noteq> None \<and> (o_rate opts = None \<longrightarrow> opt_load_levels opts \<noteq> [])"
    "o_inject_sleeps opts \<noteq> [] \<Longrightarrow>
       length (o_inject_sleeps opts) = (if o_rate opts \<noteq> None then 1 else length (opt_load_levels opts))"
  using assms by (auto simp: check_modes_def Let_def measured_window_covers_retention_def or_default_def split: if_splits option.splits)

lemma accepted_ok: "config_from opts = Inr c \<Longrightarrow> config_ok c"
  using levels_checked [of opts] counts_checked [of opts] modes_checked [of opts]
  by (cases "o_handler_mode opts")
    (auto simp: config_from_def config_ok_def config_of_def calibration_warmup_events_def)

lemma accepted_measured_ok: "config_from opts = Inr c \<Longrightarrow> measures c \<Longrightarrow> measured_ok c"
  using levels_checked [of opts] counts_checked [of opts] modes_checked [of opts]
  by (cases "o_handler_mode opts") (auto simp: config_from_def measured_ok_def config_of_def measures_def)

section \<open>Every set of options can be given on the command line\<close>

definition flag_arg :: "string \<Rightarrow> string option \<Rightarrow> string list" where
  "flag_arg a v = (case v of None \<Rightarrow> [] | Some s \<Rightarrow> [a, s])"

definition num_arg :: "string \<Rightarrow> nat option \<Rightarrow> string list" where
  "num_arg a n = flag_arg a (map_option show_nat n)"

definition switch_arg :: "string \<Rightarrow> bool \<Rightarrow> string list" where
  "switch_arg a b = (if b then [a] else [])"

definition sleeps_arg :: "nat list \<Rightarrow> string list" where
  "sleeps_arg ds = flag_arg ''--inject-sleep-us-by-load''
     (if ds = [] then None else Some (show_list (map (\<lambda>d. d div 1000) ds)))"

definition render :: "latency_opts \<Rightarrow> string list" where
  "render opts =
     flag_arg ''--handler-mode'' (Some (handler_kind_as_str (o_handler_mode opts))) @
     flag_arg ''--wait-strategy'' (Some (wait_kind_as_str (o_wait opts))) @
     flag_arg ''--event-padding'' (Some (pad_as_str (o_pad opts))) @
     num_arg ''--retention-window'' (o_retention_window opts) @
     num_arg ''--buffer-size'' (o_buffer_size opts) @
     num_arg ''--events-total'' (o_events_total opts) @
     num_arg ''--warmup-events'' (o_warmup_events opts) @
     num_arg ''--rate'' (o_rate opts) @
     num_arg ''--calibration-events'' (o_calibration_events opts) @
     num_arg ''--calibration-duration-ms'' (o_calibration_duration_ms opts) @
     num_arg ''--max-rate'' (o_max_rate opts) @
     num_arg ''--own-max'' (o_own_max opts) @
     flag_arg ''--load-levels'' (map_option show_list (o_load_levels opts)) @
     flag_arg ''--cpu-list'' (Some (show_list (o_cpu_list opts))) @
     flag_arg ''--output'' (o_output opts) @
     flag_arg ''--samples-output'' (o_samples_output opts) @
     sleeps_arg (o_inject_sleeps opts) @
     num_arg ''--inject-at-measured-pct'' (Some (o_inject_at_measured_pct opts)) @
     switch_arg ''--calibrate-only'' (o_calibrate_only opts) @
     switch_arg ''--quick'' (o_quick opts)"

definition fits :: "nat option \<Rightarrow> bool" where
  "fits n \<longleftrightarrow> (case n of None \<Rightarrow> True | Some m \<Rightarrow> m \<le> u64_max)"

definition printable :: "latency_opts \<Rightarrow> bool" where
  "printable opts \<longleftrightarrow>
     list_all fits [o_retention_window opts, o_buffer_size opts, o_events_total opts, o_warmup_events opts, o_rate opts,
       o_calibration_events opts, o_calibration_duration_ms opts, o_max_rate opts, o_own_max opts,
       Some (o_inject_at_measured_pct opts)] \<and>
     list_all (\<lambda>n. n \<le> u64_max) (o_cpu_list opts) \<and> distinct (o_cpu_list opts) \<and>
     (case o_load_levels opts of None \<Rightarrow> True | Some ls \<Rightarrow> list_all (\<lambda>n. n \<le> u64_max) ls) \<and>
     list_all (\<lambda>d. 0 < d \<and> d mod 1000 = 0 \<and> d div 1000 \<le> u64_max) (o_inject_sleeps opts)"

lemmas arg_defs = sleeps_arg_def flag_arg_def num_arg_def switch_arg_def fits_def value_flag_def

lemma parse_choice_args:
  "parse_flags opts (flag_arg ''--handler-mode'' (Some (handler_kind_as_str h)) @ rest) = parse_flags (opts\<lparr>o_handler_mode := h\<rparr>) rest"
  "parse_flags opts (flag_arg ''--wait-strategy'' (Some (wait_kind_as_str w)) @ rest) = parse_flags (opts\<lparr>o_wait := w\<rparr>) rest"
  "parse_flags opts (flag_arg ''--event-padding'' (Some (pad_as_str p)) @ rest) = parse_flags (opts\<lparr>o_pad := p\<rparr>) rest"
  by (cases h; cases w; cases p; simp add: arg_defs handler_kind_parse_def wait_kind_parse_def pad_parse_def; fail)+

lemma parse_num_args:
  "fits n \<Longrightarrow> o_retention_window opts = None \<Longrightarrow>
     parse_flags opts (num_arg ''--retention-window'' n @ rest) = parse_flags (opts\<lparr>o_retention_window := n\<rparr>) rest"
  "fits n \<Longrightarrow> o_buffer_size opts = None \<Longrightarrow>
     parse_flags opts (num_arg ''--buffer-size'' n @ rest) = parse_flags (opts\<lparr>o_buffer_size := n\<rparr>) rest"
  "fits n \<Longrightarrow> o_events_total opts = None \<Longrightarrow>
     parse_flags opts (num_arg ''--events-total'' n @ rest) = parse_flags (opts\<lparr>o_events_total := n\<rparr>) rest"
  "fits n \<Longrightarrow> o_warmup_events opts = None \<Longrightarrow>
     parse_flags opts (num_arg ''--warmup-events'' n @ rest) = parse_flags (opts\<lparr>o_warmup_events := n\<rparr>) rest"
  "fits n \<Longrightarrow> o_rate opts = None \<Longrightarrow>
     parse_flags opts (num_arg ''--rate'' n @ rest) = parse_flags (opts\<lparr>o_rate := n\<rparr>) rest"
  "fits n \<Longrightarrow> o_calibration_events opts = None \<Longrightarrow>
     parse_flags opts (num_arg ''--calibration-events'' n @ rest) = parse_flags (opts\<lparr>o_calibration_events := n\<rparr>) rest"
  "fits n \<Longrightarrow> o_calibration_duration_ms opts = None \<Longrightarrow>
     parse_flags opts (num_arg ''--calibration-duration-ms'' n @ rest) = parse_flags (opts\<lparr>o_calibration_duration_ms := n\<rparr>) rest"
  "fits n \<Longrightarrow> o_max_rate opts = None \<Longrightarrow>
     parse_flags opts (num_arg ''--max-rate'' n @ rest) = parse_flags (opts\<lparr>o_max_rate := n\<rparr>) rest"
  "fits n \<Longrightarrow> o_own_max opts = None \<Longrightarrow>
     parse_flags opts (num_arg ''--own-max'' n @ rest) = parse_flags (opts\<lparr>o_own_max := n\<rparr>) rest"
  "fits (Some m) \<Longrightarrow>
     parse_flags opts (num_arg ''--inject-at-measured-pct'' (Some m) @ rest) = parse_flags (opts\<lparr>o_inject_at_measured_pct := m\<rparr>) rest"
  by (cases opts; cases n; simp add: arg_defs; fail)+

lemma parse_list_args:
  "(case ls of None \<Rightarrow> True | Some l \<Rightarrow> list_all (\<lambda>n. n \<le> u64_max) l) \<Longrightarrow> o_load_levels opts = None \<Longrightarrow>
     parse_flags opts (flag_arg ''--load-levels'' (map_option show_list ls) @ rest) = parse_flags (opts\<lparr>o_load_levels := ls\<rparr>) rest"
  "list_all (\<lambda>n. n \<le> u64_max) cpus \<Longrightarrow> distinct cpus \<Longrightarrow>
     parse_flags opts (flag_arg ''--cpu-list'' (Some (show_list cpus)) @ rest) = parse_flags (opts\<lparr>o_cpu_list := cpus\<rparr>) rest"
  "list_all (\<lambda>d. 0 < d \<and> d mod 1000 = 0 \<and> d div 1000 \<le> u64_max) ds \<Longrightarrow> o_inject_sleeps opts = [] \<Longrightarrow>
     parse_flags opts (sleeps_arg ds @ rest) = parse_flags (opts\<lparr>o_inject_sleeps := ds\<rparr>) rest"
  by (cases opts; cases ls; cases "ds = []"; simp add: arg_defs parse_percent_list_show parse_cpu_list_show parse_duration_us_list_show; fail)+

lemma parse_path_args:
  "o_output opts = None \<Longrightarrow> parse_flags opts (flag_arg ''--output'' p @ rest) = parse_flags (opts\<lparr>o_output := p\<rparr>) rest"
  "o_samples_output opts = None \<Longrightarrow>
     parse_flags opts (flag_arg ''--samples-output'' p @ rest) = parse_flags (opts\<lparr>o_samples_output := p\<rparr>) rest"
  "\<not> o_calibrate_only opts \<Longrightarrow>
     parse_flags opts (switch_arg ''--calibrate-only'' b @ rest) = parse_flags (opts\<lparr>o_calibrate_only := b\<rparr>) rest"
  "\<not> o_quick opts \<Longrightarrow> parse_flags opts (switch_arg ''--quick'' b) = Inr (Some (opts\<lparr>o_quick := b\<rparr>))"
  by (cases opts; cases p; simp add: arg_defs; fail)+

lemmas parse_rendered = parse_choice_args parse_num_args parse_list_args parse_path_args

lemma parse_flags_render: "printable opts \<Longrightarrow> parse_flags latency_opts_init (render opts) = Inr (Some opts)"
  unfolding render_def
  by (cases opts) (simp add: parse_rendered latency_opts_init_def printable_def)

text \<open>
  The command line and the options correspond. Every set of options in range can be written as
  arguments, and reading these back gives exactly the configuration of the options, or their error; and
  whatever was given, a configuration that is accepted keeps the rules of the program.
\<close>

theorem command_line_roundtrip:
  assumes "printable opts"
  shows "parse_args (render opts) = bind_cli (config_from opts) (\<lambda>c. Inr (Some c)) \<and>
    (\<forall>args c. parse_args args = Inr (Some c) \<longrightarrow> config_ok c \<and> (measures c \<longrightarrow> measured_ok c))"
  using parse_flags_render [OF assms] accepted_ok accepted_measured_ok
  by (auto simp: parse_args_def split: option.splits)

theorem command_line_roundtrip_witness:
  "parse_args (render (latency_opts_init\<lparr>o_samples_output := Some ''out.csv'', o_events_total := Some 300000\<rparr>)) =
     Inr (Some (config_of (latency_opts_init\<lparr>o_samples_output := Some ''out.csv'', o_events_total := Some 300000\<rparr>)))"
proof -
  let ?opts = "latency_opts_init\<lparr>o_samples_output := Some ''out.csv'', o_events_total := Some 300000\<rparr>"
  have "printable ?opts" by (simp add: printable_def latency_opts_init_def fits_def)
  moreover have "is_power_of_two 65536" using count_ones_pow2 [of 16] by (simp add: is_power_of_two_def)
  then have "config_from ?opts = Inr (config_of ?opts)"
    by (simp add: config_from_def check_counts_def check_levels_def check_modes_def latency_opts_init_def opt_load_levels_def
        opt_events_total_def opt_warmup_events_def opt_calibration_events_def or_default_def quick_min_def calibration_warmup_def Let_def)
  ultimately show ?thesis using command_line_roundtrip [of ?opts] by simp
qed

end
