(* ===== verification/Latency_Handler.thy ===== *)
theory Latency_Handler
  imports Latency_Config Handler_Runs
begin

text \<open>
  The consumer side of the tail-latency program (\<open>src/bin/h2h_tail_latency.rs\<close>): the counting allocator, the
  two workloads and the two event handlers, as instances of the library's handler interface. The clock is
  a function from ticks to nanoseconds of which a handler takes one reading after the other; the counters
  and flags a handler shares with the main thread are fields of its state. Debug assertions are left out,
  and so is what a handler had done to its state before it panicked.
\<close>

section \<open>The counting allocator\<close>

abbreviation LOGICAL_PAYLOAD_BYTES :: nat where "LOGICAL_PAYLOAD_BYTES \<equiv> 32"
abbreviation ALLOCATION_PAYLOAD_BYTES :: nat where "ALLOCATION_PAYLOAD_BYTES \<equiv> 48"

record allocation_counters =
  allocations :: nat
  allocated_bytes :: nat
  deallocations :: nat
  deallocated_bytes :: nat

text \<open>The thread-local cells.\<close>

record allocator = allocation_counters +
  allocation_tracking :: bool

definition allocator_init :: allocator where
  "allocator_init = \<lparr>allocations = 0, allocated_bytes = 0, deallocations = 0, deallocated_bytes = 0, allocation_tracking = False\<rparr>"

definition counting_alloc :: "nat \<Rightarrow> allocator \<Rightarrow> allocator" where
  "counting_alloc bytes a =
     (if allocation_tracking a
      then a\<lparr>allocations := sat_add_u64 (allocations a) 1, allocated_bytes := sat_add_u64 (allocated_bytes a) bytes\<rparr>
      else a)"

definition counting_dealloc :: "nat \<Rightarrow> allocator \<Rightarrow> allocator" where
  "counting_dealloc bytes a =
     (if allocation_tracking a
      then a\<lparr>deallocations := sat_add_u64 (deallocations a) 1, deallocated_bytes := sat_add_u64 (deallocated_bytes a) bytes\<rparr>
      else a)"

definition reset_allocation_counters :: "allocator \<Rightarrow> allocator" where
  "reset_allocation_counters a = a\<lparr>allocations := 0, allocated_bytes := 0, deallocations := 0, deallocated_bytes := 0\<rparr>"

definition read_counters :: "allocator \<Rightarrow> allocation_counters" where
  "read_counters a =
     \<lparr>allocations = allocations a, allocated_bytes = allocated_bytes a, deallocations = deallocations a,
      deallocated_bytes = deallocated_bytes a\<rparr>"

section \<open>Workloads\<close>

text \<open>The padding of a payload is never read; its four words are.\<close>

type_synonym payload = "nat list"

definition payload_new :: "nat \<Rightarrow> payload" where
  "payload_new sequence =
     [sequence, wrapping_add_u64 sequence 1, wrapping_add_u64 sequence 2, wrapping_add_u64 sequence 3]"

definition payload_checksum :: "payload \<Rightarrow> nat" where
  "payload_checksum p = fold (\<lambda>v acc. wrapping_add_u64 acc v) p 0"

datatype workload =
    AllocationFreeWorkload
  | AllocatingWorkload "payload option list" nat

definition allocating_workload_new :: "nat \<Rightarrow> workload" where
  "allocating_workload_new retention_window = AllocatingWorkload (replicate retention_window None) 0"

record workload_stats =
  counters :: allocation_counters
  retained_objects :: nat
  retained_live_bytes :: nat
  retained_checksum :: nat

fun workload_on_start :: "workload \<Rightarrow> allocator \<Rightarrow> allocator" where
  "workload_on_start AllocationFreeWorkload a = a"
| "workload_on_start (AllocatingWorkload retention nxt) a = reset_allocation_counters a"

text \<open>
  The box is allocated, then stored, which drops the one that was there. \<open>None\<close>: the index is out of
  range, a panic.
\<close>

fun workload_apply :: "nat \<Rightarrow> bool \<Rightarrow> workload \<times> allocator \<Rightarrow> (workload \<times> allocator) option" where
  "workload_apply sequence track (AllocationFreeWorkload, a) = Some (AllocationFreeWorkload, a)"
| "workload_apply sequence track (AllocatingWorkload retention nxt, a) =
     (let a1 = counting_alloc ALLOCATION_PAYLOAD_BYTES (a\<lparr>allocation_tracking := track\<rparr>) in
      if nxt < length retention
      then let a2 = (case retention ! nxt of None \<Rightarrow> a1 | Some _ \<Rightarrow> counting_dealloc ALLOCATION_PAYLOAD_BYTES a1)
           in Some (AllocatingWorkload (retention[nxt := Some (payload_new sequence)]) ((nxt + 1) mod length retention),
                a2\<lparr>allocation_tracking := False\<rparr>)
      else None)"

fun workload_stats_of :: "workload \<times> allocator \<Rightarrow> workload_stats" where
  "workload_stats_of (AllocationFreeWorkload, a) =
     \<lparr>counters = \<lparr>allocations = 0, allocated_bytes = 0, deallocations = 0, deallocated_bytes = 0\<rparr>,
      retained_objects = 0, retained_live_bytes = 0, retained_checksum = 0\<rparr>"
| "workload_stats_of (AllocatingWorkload retention nxt, a) =
     (let retained = concat (map (\<lambda>p. case p of None \<Rightarrow> [] | Some q \<Rightarrow> [q]) retention);
          retained_objects = length (filter (\<lambda>p. p \<noteq> None) retention)
      in \<lparr>counters = read_counters a, retained_objects = retained_objects,
          retained_live_bytes = sat_mul_u64 retained_objects ALLOCATION_PAYLOAD_BYTES,
          retained_checksum = fold (\<lambda>p acc. wrapping_add_u64 acc (payload_checksum p)) retained 0\<rparr>)"

section \<open>Events and samples\<close>

record latency_event =
  le_sequence :: i64
  le_planned_ns :: nat

record latency_sample =
  ls_sequence :: nat
  ls_planned_ns :: nat
  ls_completion_ns :: nat
  ls_latency_ns :: nat

record injection_observation =
  inj_sequence :: nat
  inj_planned_ns :: nat
  inj_started_ns :: nat
  inj_completed_ns :: nat

record handler_outcome =
  ho_samples :: "latency_sample list"
  ho_workload :: workload_stats
  ho_injection :: "injection_observation option"

section \<open>The latency handler\<close>

text \<open>\<open>lh_tick\<close> counts the clock readings; \<open>lh_processed\<close>, \<open>lh_ready\<close>, \<open>lh_affinity_failed\<close> and \<open>lh_sink\<close> are shared.\<close>

record latency_handler =
  lh_start :: "nat option"
  lh_processed :: nat
  lh_ready :: nat
  lh_warmup_events :: nat
  lh_final_sequence :: i64
  lh_inject_sleep :: "nat option"
  lh_inject_sequence :: "nat option"
  lh_injected :: bool
  lh_observation :: "injection_observation option"
  lh_workload :: workload
  lh_allocator :: allocator
  lh_samples :: "latency_sample list"
  lh_sink :: "handler_outcome option"
  lh_cpu :: "nat option"
  lh_affinity_failed :: bool
  lh_tick :: nat

definition latency_handler_new ::
    "nat \<Rightarrow> nat \<Rightarrow> nat option \<Rightarrow> nat \<Rightarrow> workload \<Rightarrow> nat option \<Rightarrow> latency_handler option" where
  "latency_handler_new warmup_events events_total inject_sleep inject_at_measured_pct w cpu =
     map_option (\<lambda>n.
       \<lparr>lh_start = None, lh_processed = 0, lh_ready = 0, lh_warmup_events = warmup_events,
        lh_final_sequence = n - 1, lh_inject_sleep = inject_sleep,
        lh_inject_sequence = map_option (\<lambda>_. wrapping_add_u64 warmup_events
          (wrapping_mul_u64 (events_total - warmup_events) inject_at_measured_pct div 100)) inject_sleep,
        lh_injected = False, lh_observation = None, lh_workload = w, lh_allocator = allocator_init,
        lh_samples = [], lh_sink = None, lh_cpu = cpu, lh_affinity_failed = False, lh_tick = 0\<rparr>)
       (i64_try_from events_total)"

text \<open>The epoch is a \<open>OnceLock\<close> the main thread sets before it publishes.\<close>

definition set_epoch :: "nat \<Rightarrow> latency_handler \<Rightarrow> latency_handler option" where
  "set_epoch epoch h = (if lh_start h = None then Some (h\<lparr>lh_start := Some epoch\<rparr>) else None)"

definition take_injection :: "nat \<Rightarrow> latency_handler \<Rightarrow> nat option \<times> latency_handler" where
  "take_injection sequence h =
     (if \<not> lh_injected h \<and> lh_inject_sequence h = Some sequence
      then (lh_inject_sleep h, h\<lparr>lh_injected := True\<rparr>) else (None, h))"

text \<open>\<open>start.get().expect(..).elapsed().as_nanos()\<close> clamped to \<open>u64\<close>, at the next tick.\<close>

definition read_clock :: "(nat \<Rightarrow> nat) \<Rightarrow> latency_handler \<Rightarrow> (nat \<times> latency_handler) option" where
  "read_clock clk h =
     map_option (\<lambda>epoch. (u64_or_max (clk (lh_tick h) - epoch), h\<lparr>lh_tick := Suc (lh_tick h)\<rparr>)) (lh_start h)"

definition inject_pause :: "(nat \<Rightarrow> nat) \<Rightarrow> nat \<Rightarrow> latency_event \<Rightarrow> latency_handler \<Rightarrow> latency_handler option" where
  "inject_pause clk sequence e h =
     (case take_injection sequence h of
        (None, h1) \<Rightarrow> Some h1
      | (Some sleep, h1) \<Rightarrow>
          Option.bind (read_clock clk h1) (\<lambda>(started_ns, h2).
          Option.bind (read_clock clk h2) (\<lambda>(completed_ns, h3).
            Some (h3\<lparr>lh_observation := Some \<lparr>inj_sequence = sequence, inj_planned_ns = le_planned_ns e,
              inj_started_ns = started_ns, inj_completed_ns = completed_ns\<rparr>\<rparr>))))"

definition apply_workload :: "nat \<Rightarrow> latency_handler \<Rightarrow> latency_handler option" where
  "apply_workload sequence h =
     map_option (\<lambda>(w, a). h\<lparr>lh_workload := w, lh_allocator := a\<rparr>)
       (workload_apply sequence (lh_warmup_events h \<le> sequence) (lh_workload h, lh_allocator h))"

definition record_sample :: "nat \<Rightarrow> latency_event \<Rightarrow> nat \<Rightarrow> latency_handler \<Rightarrow> latency_handler" where
  "record_sample sequence e completion_ns h =
     (let h1 = (if lh_warmup_events h \<le> sequence
          then h\<lparr>lh_samples := lh_samples h @ [\<lparr>ls_sequence = sequence, ls_planned_ns = le_planned_ns e,
            ls_completion_ns = completion_ns, ls_latency_ns = completion_ns - le_planned_ns e\<rparr>]\<rparr> else h)
      in if int sequence = lh_final_sequence h then h1\<lparr>lh_processed := sequence + 1\<rparr> else h1)"

definition latency_on_event ::
    "(nat \<Rightarrow> nat) \<Rightarrow> latency_event \<Rightarrow> i64 \<Rightarrow> bool \<Rightarrow> latency_handler \<Rightarrow> unit result option \<times> latency_event \<times> latency_handler" where
  "latency_on_event clk e sequence end_of_batch h =
     (if sequence < 0 then (None, e, h)
      else let sequence = nat sequence in
        case Option.bind (inject_pause clk sequence e h) (\<lambda>h1.
             Option.bind (apply_workload sequence h1) (\<lambda>h2.
             Option.bind (read_clock clk h2) (\<lambda>(completion_ns, h3).
               Some (record_sample sequence e completion_ns h3)))) of
          None \<Rightarrow> (None, e, h)
        | Some h' \<Rightarrow> (Some (Ok ()), e, h'))"

definition latency_on_start :: "affinity \<Rightarrow> latency_handler callback" where
  "latency_on_start os h =
     (Some (Ok ()), h\<lparr>lh_allocator := workload_on_start (lh_workload h) (lh_allocator h),
        lh_affinity_failed := pin_current_thread os (lh_cpu h) (lh_affinity_failed h), lh_ready := lh_ready h + 1\<rparr>)"

definition latency_on_shutdown :: "latency_handler callback" where
  "latency_on_shutdown h =
     (Some (Ok ()), h\<lparr>lh_samples := [],
        lh_sink := Some \<lparr>ho_samples = lh_samples h, ho_workload = workload_stats_of (lh_workload h, lh_allocator h),
          ho_injection = lh_observation h\<rparr>\<rparr>)"

definition latency_event_handler :: "affinity \<Rightarrow> (nat \<Rightarrow> nat) \<Rightarrow> (latency_event, latency_handler) lifecycle_handler" where
  "latency_event_handler os clk =
     (default_methods (latency_on_event clk))\<lparr>on_start := latency_on_start os, on_shutdown := latency_on_shutdown\<rparr>"

section \<open>Workload accounting\<close>

text \<open>
  After \<open>n\<close> events with \<open>w\<close> of them warm-up: a retention window of \<open>r\<close> slots is full once \<open>r\<close> events have
  passed, and the tracked counters are those of the measured events.
\<close>

fun retains :: "nat option \<Rightarrow> nat \<Rightarrow> nat \<Rightarrow> workload \<times> allocator \<Rightarrow> bool" where
  "retains r w n (AllocationFreeWorkload, a) \<longleftrightarrow> r = None"
| "retains r w n (AllocatingWorkload retention nxt, a) \<longleftrightarrow>
     0 < length retention \<and> r = Some (length retention) \<and> nxt = n mod length retention \<and>
     (\<forall>i<length retention. retention ! i \<noteq> None \<longleftrightarrow> i < n) \<and>
     allocations a = n - w \<and> allocated_bytes a = sat_mul_u64 (n - w) ALLOCATION_PAYLOAD_BYTES \<and>
     deallocations a = n - max w (length retention) \<and>
     deallocated_bytes a = sat_mul_u64 (n - max w (length retention)) ALLOCATION_PAYLOAD_BYTES"

lemma sat_mul_Suc: "sat_add_u64 (sat_mul_u64 k b) b = sat_mul_u64 (Suc k) b"
  by (simp add: sat_add_u64_def sat_mul_u64_def min_def)

lemma tracked_counters:
  "allocations (counting_alloc b (a\<lparr>allocation_tracking := t\<rparr>)) = (if t then sat_add_u64 (allocations a) 1 else allocations a)"
    "allocated_bytes (counting_alloc b (a\<lparr>allocation_tracking := t\<rparr>)) = (if t then sat_add_u64 (allocated_bytes a) b else allocated_bytes a)"
    "deallocations (counting_alloc b (a\<lparr>allocation_tracking := t\<rparr>)) = deallocations a"
    "deallocated_bytes (counting_alloc b (a\<lparr>allocation_tracking := t\<rparr>)) = deallocated_bytes a"
    "allocation_tracking (counting_alloc b (a\<lparr>allocation_tracking := t\<rparr>)) = t"
    "deallocations (counting_dealloc b a) = (if allocation_tracking a then sat_add_u64 (deallocations a) 1 else deallocations a)"
    "deallocated_bytes (counting_dealloc b a) = (if allocation_tracking a then sat_add_u64 (deallocated_bytes a) b else deallocated_bytes a)"
    "allocations (counting_dealloc b a) = allocations a" "allocated_bytes (counting_dealloc b a) = allocated_bytes a"
  by (simp_all add: counting_alloc_def counting_dealloc_def)

lemma counted:
  assumes "n < u64_max"
  shows "(if w \<le> n then sat_add_u64 (n - w) 1 else n - w) = Suc n - w"
    "(if w \<le> n then sat_add_u64 (sat_mul_u64 (n - w) b) b else sat_mul_u64 (n - w) b) = sat_mul_u64 (Suc n - w) b"
  using assms by (simp_all add: sat_mul_Suc Suc_diff_le) (simp add: sat_add_u64_def)

lemma slot_seen: "0 < r \<Longrightarrow> n mod r < n \<longleftrightarrow> r \<le> (n :: nat)"
  by (metis linorder_not_le mod_less mod_less_divisor order_less_le_trans order_less_irrefl)

lemma retains_step:
  assumes "retains r w n (wl, a)" and "n < u64_max"
  shows "\<exists>wa'. workload_apply n (w \<le> n) (wl, a) = Some wa' \<and> retains r w (Suc n) wa'"
proof (cases wl)
  case AllocationFreeWorkload
  with assms show ?thesis by simp
next
  case (AllocatingWorkload retention nxt)
  let ?r = "length retention"
  have r: "0 < ?r" "nxt = n mod ?r" "\<forall>i<?r. retention ! i \<noteq> None \<longleftrightarrow> i < n" using assms AllocatingWorkload by simp_all
  have nxt: "nxt < ?r" using r by simp
  have seen: "retention ! nxt \<noteq> None \<longleftrightarrow> ?r \<le> n" using r nxt slot_seen by metis
  have wrap: "(nxt + 1) mod ?r = Suc n mod ?r" using r(2) by (simp add: mod_Suc_eq)
  have slots: "retention[nxt := Some p] ! i \<noteq> None \<longleftrightarrow> i < Suc n" if "i < ?r" for i p
    using r(2,3) that by (cases "i = nxt") (auto simp: nth_list_update less_Suc_eq)
  define a1 where "a1 = counting_alloc 48 (a\<lparr>allocation_tracking := w \<le> n\<rparr>)"
  define a2 where "a2 = (case retention ! nxt of None \<Rightarrow> a1 | Some _ \<Rightarrow> counting_dealloc 48 a1)"
  have a1: "allocations a1 = Suc n - w" "allocated_bytes a1 = sat_mul_u64 (Suc n - w) 48"
    "deallocations a1 = n - max w ?r" "deallocated_bytes a1 = sat_mul_u64 (n - max w ?r) 48" "allocation_tracking a1 = (w \<le> n)"
    using assms(1) AllocatingWorkload counted(1) [OF assms(2), of w] counted(2) [OF assms(2), of w 48]
    by (simp_all only: a1_def tracked_counters retains.simps)
  have a2_cases: "a2 = (if ?r \<le> n then counting_dealloc 48 a1 else a1)"
    using seen by (auto simp: a2_def split: option.splits)
  have a2: "allocations a2 = Suc n - w" "allocated_bytes a2 = sat_mul_u64 (Suc n - w) 48"
    using a1 by (simp_all add: a2_cases tracked_counters)
  have d2: "deallocations a2 = (if max w ?r \<le> n then sat_add_u64 (n - max w ?r) 1 else n - max w ?r)"
    "deallocated_bytes a2 = (if max w ?r \<le> n then sat_add_u64 (sat_mul_u64 (n - max w ?r) 48) 48 else sat_mul_u64 (n - max w ?r) 48)"
    using a1 by (auto simp: a2_cases tracked_counters)
  have "workload_apply n (w \<le> n) (wl, a) =
      Some (AllocatingWorkload (retention[nxt := Some (payload_new n)]) (Suc n mod ?r), a2\<lparr>allocation_tracking := False\<rparr>)"
    using AllocatingWorkload nxt wrap by (simp add: Let_def a1_def [symmetric] a2_def [symmetric])
  moreover have "retains r w (Suc n) (AllocatingWorkload (retention[nxt := Some (payload_new n)]) (Suc n mod ?r),
      a2\<lparr>allocation_tracking := False\<rparr>)"
    using assms(1) AllocatingWorkload r(1) slots a2 d2 [unfolded counted [OF assms(2)]] by simp
  ultimately show ?thesis by blast
qed

lemma retains_start:
  "retains None w 0 (AllocationFreeWorkload, a)"
  "0 < r \<Longrightarrow> retains (Some r) w 0 (allocating_workload_new r, workload_on_start (allocating_workload_new r) a)"
  by (simp_all add: allocating_workload_new_def reset_allocation_counters_def sat_mul_u64_def)

section \<open>A run of the latency handler\<close>

type_synonym 'e call = "'e \<times> i64 \<times> bool \<times> bar_world"

definition sample_of :: "latency_sample \<Rightarrow> latency_event call \<Rightarrow> bool" where
  "sample_of s x \<longleftrightarrow> ls_sequence s = nat (fst (snd x)) \<and> ls_planned_ns s = le_planned_ns (fst x) \<and>
     ls_latency_ns s = ls_completion_ns s - ls_planned_ns s"

text \<open>The pause has been observed, and the sample of the event it delayed was completed after it.\<close>

definition pause_sampled :: "injection_observation \<Rightarrow> latency_sample list \<Rightarrow> bool" where
  "pause_sampled ob samples \<longleftrightarrow> inj_started_ns ob \<le> inj_completed_ns ob \<and>
     (\<exists>s\<in>set samples. ls_sequence s = inj_sequence ob \<and> ls_planned_ns s = inj_planned_ns ob \<and>
        inj_completed_ns ob \<le> ls_completion_ns s)"

definition run_inv ::
    "nat \<Rightarrow> nat \<Rightarrow> nat option \<Rightarrow> nat option \<Rightarrow> latency_event call list \<Rightarrow> latency_handler \<Rightarrow> bool" where
  "run_inv N w r q calls h \<longleftrightarrow>
     lh_start h \<noteq> None \<and> lh_warmup_events h = w \<and> lh_final_sequence h = int N - 1 \<and>
     lh_inject_sequence h = q \<and> (lh_inject_sleep h = None \<longleftrightarrow> q = None) \<and>
     lh_processed h = (if length calls = N then N else 0) \<and>
     list_all2 sample_of (lh_samples h) (drop w calls) \<and>
     (case lh_observation h of
        None \<Rightarrow> \<not> lh_injected h \<and> (\<forall>m. q = Some m \<longrightarrow> length calls \<le> m)
      | Some ob \<Rightarrow> lh_injected h \<and> q = Some (inj_sequence ob) \<and> pause_sampled ob (lh_samples h)) \<and>
     retains r w (length calls) (lh_workload h, lh_allocator h)"

lemma pause_sampled_append: "pause_sampled ob xs \<Longrightarrow> pause_sampled ob (xs @ ys)"
  by (auto simp: pause_sampled_def)

lemma u64_or_max_mono: "a \<le> b \<Longrightarrow> u64_or_max a \<le> u64_or_max b"
  by (simp add: u64_or_max_def)

lemma run_inv_step:
  assumes inv: "run_inv N w r q calls h" and n: "length calls < N" "int N \<le> i64_max" and clk: "mono clk"
    and q: "\<And>m. q = Some m \<Longrightarrow> w \<le> m"
  shows "\<exists>h'. latency_on_event clk e (int (length calls)) b h = (Some (Ok ()), e, h') \<and>
    run_inv N w r q (calls @ [(e, int (length calls), b, wd)]) h'"
proof -
  let ?n = "length calls"
  have ret: "retains r w ?n (lh_workload h, lh_allocator h)" using inv by (simp add: run_inv_def)
  have lt: "?n < u64_max" using n by linarith
  obtain wl a where wa: "workload_apply ?n (w \<le> ?n) (lh_workload h, lh_allocator h) = Some (wl, a)"
    "retains r w (Suc ?n) (wl, a)" using retains_step [OF ret lt] by (metis prod.collapse)
  obtain epoch where ep: "lh_start h = Some epoch" using inv by (auto simp: run_inv_def)
  define read where "read t = u64_or_max (clk t - epoch)" for t
  have mono: "read t \<le> read (Suc t)" for t
    unfolding read_def using monoD [OF clk, of t "Suc t"] by (intro u64_or_max_mono) simp
  define fire where "fire \<longleftrightarrow> \<not> lh_injected h \<and> lh_inject_sequence h = Some ?n"
  obtain h1 where h1: "inject_pause clk ?n e h = Some h1"
    "h1 = (if fire then h\<lparr>lh_injected := True, lh_tick := Suc (Suc (lh_tick h)),
       lh_observation := Some \<lparr>inj_sequence = ?n, inj_planned_ns = le_planned_ns e,
         inj_started_ns = read (lh_tick h), inj_completed_ns = read (Suc (lh_tick h))\<rparr>\<rparr> else h)"
    using inv ep by (auto simp: inject_pause_def take_injection_def read_clock_def read_def fire_def run_inv_def split: option.splits)
  have w1: "lh_warmup_events h1 = w" "lh_workload h1 = lh_workload h" "lh_allocator h1 = lh_allocator h" "lh_start h1 = Some epoch"
    using h1(2) inv ep by (simp_all add: run_inv_def)
  define t where "t = lh_tick h1"
  define h' where "h' = record_sample ?n e (read t) (h1\<lparr>lh_workload := wl, lh_allocator := a, lh_tick := Suc t\<rparr>)"
  have call: "latency_on_event clk e (int ?n) b h = (Some (Ok ()), e, h')"
    using h1(1) w1 wa(1) by (simp add: latency_on_event_def apply_workload_def read_clock_def read_def h'_def t_def)
  define s where "s = \<lparr>ls_sequence = ?n, ls_planned_ns = le_planned_ns e, ls_completion_ns = read t, ls_latency_ns = read t - le_planned_ns e\<rparr>"
  have samples: "lh_samples h' = lh_samples h @ (if w \<le> ?n then [s] else [])"
    using h1(2) w1(1) by (simp add: h'_def record_sample_def Let_def s_def)
  have dropped: "drop w (calls @ [(e, int ?n, b, wd)]) = drop w calls @ (if w \<le> ?n then [(e, int ?n, b, wd)] else [])"
    by simp
  have matched: "list_all2 sample_of (lh_samples h') (drop w (calls @ [(e, int ?n, b, wd)]))"
    using inv unfolding samples dropped run_inv_def by (auto intro!: list_all2_appendI simp: sample_of_def s_def)
  have obs: "lh_observation h' = lh_observation h1" "lh_injected h' = lh_injected h1"
    by (simp_all add: h'_def record_sample_def Let_def)
  have pause: "case lh_observation h' of
        None \<Rightarrow> \<not> lh_injected h' \<and> (\<forall>m. q = Some m \<longrightarrow> Suc ?n \<le> m)
      | Some ob \<Rightarrow> lh_injected h' \<and> q = Some (inj_sequence ob) \<and> pause_sampled ob (lh_samples h')"
  proof (cases fire)
    case True
    then have "q = Some ?n" using inv by (simp add: fire_def run_inv_def)
    then have "w \<le> ?n" by (rule q)
    with True \<open>q = Some ?n\<close> h1(2) mono [of "Suc (lh_tick h)"] mono [of "lh_tick h"] show ?thesis
      unfolding obs samples by (simp add: pause_sampled_def s_def t_def)
  next
    case False
    with inv h1(2) show ?thesis unfolding obs samples
      by (auto simp: run_inv_def fire_def Suc_le_eq le_neq_implies_less split: option.splits intro!: pause_sampled_append)
  qed
  have same: "lh_start h' = Some epoch" "lh_warmup_events h' = w" "lh_final_sequence h' = int N - 1" "lh_inject_sequence h' = q"
    "lh_inject_sleep h' = lh_inject_sleep h" "lh_workload h' = wl" "lh_allocator h' = a" "lh_processed h1 = 0" "lh_final_sequence h1 = int N - 1"
    using inv ep h1(2) n(1) by (simp_all add: h'_def record_sample_def Let_def run_inv_def)
  have processed: "lh_processed h' = (if Suc ?n = N then N else 0)"
    using same(8,9) by (auto simp: h'_def record_sample_def Let_def)
  have sleep: "lh_inject_sleep h = None \<longleftrightarrow> q = None" using inv by (simp add: run_inv_def)
  have len: "length (calls @ [(e, int ?n, b, wd)]) = Suc ?n" by simp
  have "run_inv N w r q (calls @ [(e, int ?n, b, wd)]) h'"
    unfolding run_inv_def same processed len using matched pause wa(2) sleep by simp
  with call show ?thesis by blast
qed

lemma run_inv_feed:
  assumes H: "on_event H = latency_on_event clk" and start: "run_inv N w r q [] h0" and "int N \<le> i64_max" and "mono clk"
    and "\<And>m. q = Some m \<Longrightarrow> w \<le> m" and "trace_seqs calls = map int [0..<length calls]" and "length calls \<le> N"
  shows "run_inv N w r q calls (feed H calls h0)"
  using assms(6,7)
proof (induction calls rule: rev_induct)
  case Nil
  show ?case using start by simp
next
  case (snoc x xs)
  obtain e s b wd where x: "x = (e, s, b, wd)" by (cases x)
  have xs: "trace_seqs xs = map int [0..<length xs]" "s = int (length xs)"
    using snoc.prems(1) x by (simp_all add: trace_seqs_def)
  have "run_inv N w r q xs (feed H xs h0)" using snoc.IH [OF xs(1)] snoc.prems(2) by simp
  from run_inv_step [OF this _ assms(3-5), of e b wd] snoc.prems(2) show ?case by (auto simp: x xs(2) H)
qed

section \<open>What the main thread checks\<close>

definition workload_for :: "latency_config \<Rightarrow> workload option" where
  "workload_for cfg =
     (case c_handler_mode cfg of
        AllocationFree \<Rightarrow> Some AllocationFreeWorkload
      | Allocating \<Rightarrow> map_option allocating_workload_new (c_retention_window cfg))"

definition workload_valid :: "latency_config \<Rightarrow> handler_outcome \<Rightarrow> bool" where
  "workload_valid cfg outcome \<longleftrightarrow>
     (let wk = ho_workload outcome; cs = counters wk;
          expected_samples = c_events_total cfg - c_warmup_events cfg;
          expected_allocations = u64_or_max expected_samples
      in case c_handler_mode cfg of
           AllocationFree \<Rightarrow>
             allocations cs = 0 \<and> allocated_bytes cs = 0 \<and> deallocations cs = 0 \<and> deallocated_bytes cs = 0 \<and>
             retained_objects wk = 0 \<and> retained_live_bytes wk = 0 \<and> retained_checksum wk = 0
         | Allocating \<Rightarrow>
             let retention_window = or_default (c_retention_window cfg) 0;
                 expected_deallocations = c_events_total cfg - max (c_warmup_events cfg) retention_window
             in allocations cs = expected_allocations \<and>
                allocated_bytes cs = sat_mul_u64 expected_allocations ALLOCATION_PAYLOAD_BYTES \<and>
                deallocations cs = expected_deallocations \<and>
                deallocated_bytes cs = sat_mul_u64 expected_deallocations ALLOCATION_PAYLOAD_BYTES \<and>
                retained_objects wk = retention_window \<and>
                retained_live_bytes wk = sat_mul_u64 retention_window ALLOCATION_PAYLOAD_BYTES)"

text \<open>The handler of one load level, before its thread starts.\<close>

definition handler_for :: "latency_config \<Rightarrow> nat option \<Rightarrow> latency_handler option" where
  "handler_for cfg inject_sleep =
     Option.bind (workload_for cfg) (\<lambda>w. latency_handler_new (c_warmup_events cfg) (c_events_total cfg) inject_sleep
       (c_inject_at_measured_pct cfg) w (config_cpu cfg 1))"

definition injection_point :: "latency_config \<Rightarrow> nat" where
  "injection_point cfg =
     c_warmup_events cfg + (c_events_total cfg - c_warmup_events cfg) * c_inject_at_measured_pct cfg div 100"

lemma injection_point_measured:
  assumes "config_ok cfg" and "measurable cfg"
  shows "c_warmup_events cfg \<le> injection_point cfg" "injection_point cfg < c_events_total cfg"
proof -
  let ?d = "c_events_total cfg - c_warmup_events cfg" and ?p = "c_inject_at_measured_pct cfg"
  have d: "0 < ?d" and p: "?p < 100" using assms by (auto simp: config_ok_def measurable_def)
  then have "?d * ?p < ?d * 100" by simp
  then have "?d * ?p div 100 < ?d" by (simp add: div_less_iff_less_mult)
  with d show "injection_point cfg < c_events_total cfg" by (simp add: injection_point_def)
qed (simp add: injection_point_def)

lemma handler_for_started:
  assumes cfg: "config_ok cfg" "measurable cfg"
    and fits: "(c_events_total cfg - c_warmup_events cfg) * c_inject_at_measured_pct cfg \<le> u64_max"
    and h: "handler_for cfg sleep = Some h" "set_epoch epoch h = Some h0"
  shows "run_inv (c_events_total cfg) (c_warmup_events cfg) (c_retention_window cfg) (map_option (\<lambda>_. injection_point cfg) sleep)
    [] (snd (latency_on_start os h0))"
proof -
  let ?N = "c_events_total cfg" and ?w = "c_warmup_events cfg"
  have N: "0 < ?N" "int ?N \<le> i64_max" using cfg by (simp_all add: config_ok_def)
  have "injection_point cfg \<le> u64_max" using injection_point_measured [OF cfg] N(2) by linarith
  then have q: "wrapping_add_u64 ?w (wrapping_mul_u64 (?N - ?w) (c_inject_at_measured_pct cfg) div 100) = injection_point cfg"
    using fits by (simp add: wrapping_add_u64_def wrapping_mul_u64_def injection_point_def)
  obtain wl where wl: "workload_for cfg = Some wl" using h(1) by (auto simp: handler_for_def split: bind_splits)
  have ret: "retains (c_retention_window cfg) ?w 0 (wl, workload_on_start wl allocator_init)"
  proof (cases "c_handler_mode cfg")
    case AllocationFree
    with wl cfg(1) show ?thesis by (auto simp: workload_for_def config_ok_def)
  next
    case Allocating
    with cfg(1) obtain r where "c_retention_window cfg = Some r" "0 < r" by (auto simp: config_ok_def split: option.splits)
    with wl Allocating retains_start(2) show ?thesis by (auto simp: workload_for_def)
  qed
  show ?thesis
    using h wl N ret q
    by (auto simp: handler_for_def latency_handler_new_def set_epoch_def latency_on_start_def run_inv_def i64_try_from_def
        split: if_splits)
qed

lemma retained_count:
  assumes "\<forall>i<length xs. xs ! i \<noteq> None \<longleftrightarrow> i < n" and "length xs \<le> n"
  shows "length (filter (\<lambda>p. p \<noteq> None) xs) = length xs"
proof -
  have "filter (\<lambda>p. p \<noteq> None) xs = xs"
    using assms by (intro filter_True) (metis in_set_conv_nth less_le_trans)
  then show ?thesis by simp
qed

lemma retains_valid:
  assumes cfg: "config_ok cfg" "measurable cfg"
    and "retains (c_retention_window cfg) (c_warmup_events cfg) (c_events_total cfg) (wl, a)"
    and "ho_workload outcome = workload_stats_of (wl, a)"
  shows "workload_valid cfg outcome"
proof (cases wl)
  case AllocationFreeWorkload
  with assms show ?thesis by (auto simp: workload_valid_def config_ok_def Let_def split: handler_kind.splits option.splits)
next
  case (AllocatingWorkload retention nxt)
  have r: "c_retention_window cfg = Some (length retention)" using assms(3) AllocatingWorkload by simp
  with cfg have mode: "c_handler_mode cfg = Allocating" by (cases "c_handler_mode cfg") (auto simp: config_ok_def)
  have "length retention \<le> c_events_total cfg" using cfg(2) r by (auto simp: measurable_def)
  moreover have "\<forall>i<length retention. retention ! i \<noteq> None \<longleftrightarrow> i < c_events_total cfg" using assms(3) AllocatingWorkload by simp
  ultimately have "length (filter (\<lambda>p. p \<noteq> None) retention) = length retention" by (intro retained_count)
  moreover have "u64_or_max (c_events_total cfg - c_warmup_events cfg) = c_events_total cfg - c_warmup_events cfg"
    using cfg(1) by (auto simp: u64_or_max_def config_ok_def)
  ultimately show ?thesis using assms(3,4) AllocatingWorkload r mode
    by (simp add: workload_valid_def Let_def read_counters_def or_default_def)
qed

section \<open>The thread of a load level\<close>

lemma latency_methods [simp]:
  "on_event (latency_event_handler os clk) = latency_on_event clk" "on_start (latency_event_handler os clk) = latency_on_start os"
  "on_shutdown (latency_event_handler os clk) = latency_on_shutdown"
  "inert_batch_start (batch_handler (latency_event_handler os clk))" "on_event (batch_handler (latency_event_handler os clk)) = latency_on_event clk"
  by (simp_all add: latency_event_handler_def default_methods_def inert_batch_start_def event_handler.defs)

text \<open>
  C25: a load level is measured completely. The library runs the handler of an accepted configuration on a
  consumer thread; if the thread is handed the events \<open>0\<close> to \<open>N - 1\<close>, then the outcome it leaves at shutdown has
  exactly one sample for every event after the warm-up, in order, with the planned time of that event and
  the latency counted from it; completion is announced with the last event and not before; the workload
  check of the main thread succeeds, in both modes; and a configured pause was injected exactly once,
  inside the measured range, and the sample of the event it hit was completed after the pause.
\<close>

theorem latency_thread_complete:
  assumes "config_ok cfg" and "measurable cfg"
    and "(c_events_total cfg - c_warmup_events cfg) * c_inject_at_measured_pct cfg \<le> u64_max" and "mono clk"
    and "handler_for cfg sleep = Some h" and "set_epoch epoch h = Some (co_handler c)" and "co_trace c = []"
    and "mutable_body pk fuel env (latency_event_handler os clk) own thread stage Sequential c = Some (LoopReturned, c')"
    and "trace_seqs (co_trace c') = [0..int (c_events_total cfg) - 1]"
  shows "\<exists>outcome. lh_sink (co_handler c') = Some outcome \<and> lh_processed (co_handler c') = c_events_total cfg \<and>
    (\<forall>n<c_events_total cfg. lh_processed (feed (latency_event_handler os clk) (take n (co_trace c'))
       (snd (latency_on_start os (co_handler c)))) = 0) \<and>
    list_all2 sample_of (ho_samples outcome) (drop (c_warmup_events cfg) (co_trace c')) \<and>
    workload_valid cfg outcome \<and>
    (case sleep of
       None \<Rightarrow> ho_injection outcome = None
     | Some _ \<Rightarrow> \<exists>ob. ho_injection outcome = Some ob \<and> inj_sequence ob = injection_point cfg \<and>
         c_warmup_events cfg \<le> inj_sequence ob \<and> inj_sequence ob < c_events_total cfg \<and>
         pause_sampled ob (ho_samples outcome))"
proof -
  let ?N = "c_events_total cfg" and ?w = "c_warmup_events cfg" and ?r = "c_retention_window cfg"
  let ?q = "map_option (\<lambda>_. injection_point cfg) sleep" and ?H = "latency_event_handler os clk"
  define h0 where "h0 = snd (latency_on_start os (co_handler c))"
  note point = injection_point_measured [OF assms(1,2)]
  have N: "0 < ?N" "int ?N \<le> i64_max" using assms(1) by (simp_all add: config_ok_def)
  have inv0: "run_inv ?N ?w ?r ?q [] h0"
    unfolding h0_def by (rule handler_for_started [OF assms(1-3,5,6)])
  have seqs: "trace_seqs (co_trace c') = map int [0..<?N]"
    unfolding assms(9) by (rule nth_equalityI) simp_all
  then have len: "length (co_trace c') = ?N" by (metis length_map length_upt minus_nat.diff_0 trace_seqs_def)
  have q: "\<And>m. ?q = Some m \<Longrightarrow> ?w \<le> m" using point(1) by auto
  note fed = run_inv_feed [OF _ inv0 N(2) assms(4) q]
  define h1 where "h1 = feed (batch_handler ?H) (co_trace c') h0"
  have inv: "run_inv ?N ?w ?r ?q (co_trace c') h1" unfolding h1_def using fed [of "batch_handler ?H" "co_trace c'"] seqs len by simp
  have early: "lh_processed (feed ?H (take n (co_trace c')) h0) = 0" if "n < ?N" for n
  proof -
    have "trace_seqs (take n (co_trace c')) = map int [0..<n]"
      using seqs that by (simp add: trace_seqs_def take_map [symmetric] take_map)
    with fed [of ?H "take n (co_trace c')"] that len show ?thesis by (simp add: run_inv_def)
  qed
  have "on_start ?H (co_handler c) = (Some (Inr ()), h0)" by (simp add: h0_def latency_on_start_def)
  from mutable_body_handler [OF latency_methods(4) assms(7) this assms(8)]
  have c': "co_handler c' = snd (latency_on_shutdown h1)" by (simp add: h1_def)
  define outcome where "outcome = \<lparr>ho_samples = lh_samples h1, ho_workload = workload_stats_of (lh_workload h1, lh_allocator h1),
    ho_injection = lh_observation h1\<rparr>"
  have out: "lh_sink (co_handler c') = Some outcome" "lh_processed (co_handler c') = lh_processed h1"
    by (simp_all add: c' latency_on_shutdown_def outcome_def)
  have "workload_valid cfg outcome"
    using retains_valid [OF assms(1,2), of "lh_workload h1" "lh_allocator h1"] inv len by (simp add: run_inv_def outcome_def)
  moreover have "case sleep of None \<Rightarrow> ho_injection outcome = None
     | Some _ \<Rightarrow> \<exists>ob. ho_injection outcome = Some ob \<and> inj_sequence ob = injection_point cfg \<and>
         ?w \<le> inj_sequence ob \<and> inj_sequence ob < ?N \<and> pause_sampled ob (ho_samples outcome)"
    using inv point len by (cases sleep; cases "lh_observation h1") (auto simp: run_inv_def outcome_def)
  ultimately show ?thesis using inv len out early by (auto simp: run_inv_def outcome_def h0_def)
qed

text \<open>One event in an allocating configuration with a window of one, and a pause at the event.\<close>

definition example_latency_config :: latency_config where
  "example_latency_config =
     \<lparr>c_handler_mode = Allocating, c_retention_window = Some 1, c_wait = WkBusySpin, c_pad = PadNone, c_buffer_size = 4,
      c_events_total = 1, c_warmup_events = 0, c_rate = None, c_load_levels = [50], c_calibration_events = 1,
      c_calibration_duration = 1, c_calibrate_only = False, c_max_rate = None, c_own_max = None, c_cpu_list = [],
      c_output = None, c_samples_output = None, c_timeout = 9, c_inject_sleeps = [5], c_inject_at_measured_pct = 25\<rparr>"

definition example_os :: affinity where
  "example_os = \<lparr>set_for_current = \<lambda>_. True, get_core_ids = None\<rparr>"

definition example_latency_consumer :: "(latency_event, latency_handler) consumer" where
  "example_latency_consumer =
     \<lparr>co_world = example_world,
      co_ring = \<lparr>storage = Inline (replicate 4 \<lparr>le_sequence = 0, le_planned_ns = 3\<rparr>), index_mask = 3\<rparr>,
      co_handler = the (Option.bind (handler_for example_latency_config (Some 5)) (set_epoch 100)), co_trace = []\<rparr>"

definition example_latency_env :: "latency_event thread_env" where
  "example_latency_env =
     \<lparr>te_world = \<lambda>_ w. w,
      te_loop = \<lparr>ce_world = (\<lambda>i w _. if i = 0 then w else w\<lparr>bw_shutdown := True\<rparr>), ce_ring = \<lambda>_ rb. rb\<rparr>,
      te_pool = \<lambda>_ p. (p, None), te_work = - 1\<rparr>"

theorem latency_thread_complete_witness:
  "\<exists>c' outcome. mutable_body (\<lambda>_. None, \<lambda>_ _. (0, True)) 9 example_latency_env
      (latency_event_handler example_os (\<lambda>t. 110 + 10 * t)) 5 ''c'' 0 Sequential example_latency_consumer = Some (LoopReturned, c') \<and>
    lh_sink (co_handler c') = Some outcome \<and> lh_processed (co_handler c') = 1 \<and> workload_valid example_latency_config outcome \<and>
    map ls_latency_ns (ho_samples outcome) = [27]"
proof -
  let ?cfg = example_latency_config and ?c = example_latency_consumer
  let ?run = "mutable_body (\<lambda>_. None, \<lambda>_ _. (0, True)) 9 example_latency_env
    (latency_event_handler example_os (\<lambda>t. 110 + 10 * t)) 5 ''c'' 0 Sequential ?c"
  have "map_option (\<lambda>(r, c). (r, trace_seqs (co_trace c),
      map_option (\<lambda>out. map ls_latency_ns (ho_samples out)) (lh_sink (co_handler c)))) ?run = Some (LoopReturned, [0], Some [27])"
    by code_simp
  then obtain c' where run: "?run = Some (LoopReturned, c')" "trace_seqs (co_trace c') = [0]"
    "map_option (\<lambda>out. map ls_latency_ns (ho_samples out)) (lh_sink (co_handler c')) = Some [27]" by auto
  have cfg: "config_ok ?cfg" "measurable ?cfg" "c_events_total ?cfg = 1" "c_warmup_events ?cfg = 0" "c_inject_at_measured_pct ?cfg = 25"
    by code_simp+
  have "Option.bind (handler_for ?cfg (Some 5)) (set_epoch 100) \<noteq> None" by code_simp
  then obtain h where h: "handler_for ?cfg (Some 5) = Some h" "set_epoch 100 h = Some (co_handler ?c)"
    unfolding example_latency_consumer_def by (auto split: bind_splits)
  have "mono (\<lambda>t. 110 + 10 * t :: nat)" by (simp add: mono_def)
  note clk = this
  have small: "(c_events_total ?cfg - c_warmup_events ?cfg) * c_inject_at_measured_pct ?cfg \<le> u64_max" by (simp add: cfg)
  have tr: "co_trace ?c = []" by (simp add: example_latency_consumer_def)
  have seqs: "trace_seqs (co_trace c') = [0..int (c_events_total ?cfg) - 1]" by (simp add: cfg run(2))
  from latency_thread_complete [OF cfg(1,2) small clk h tr run(1) seqs]
  obtain outcome where "lh_sink (co_handler c') = Some outcome" "lh_processed (co_handler c') = 1" "workload_valid ?cfg outcome"
    unfolding cfg(3) by blast
  with run(1,3) show ?thesis by auto
qed

end
