(* ===== verification/Latency_Stats.thy ===== *)
theory Latency_Stats
  imports Float64 Latency_Handler
begin

text \<open>
  The arithmetic of the tail-latency program (\<open>src/bin/h2h_tail_latency.rs\<close>): the offered-rate schedule, the
  percentiles, the check of an injected pause, the clock anchor and the build provenance.
\<close>

section \<open>Schedule and rate\<close>

definition scheduled_ns :: "nat \<Rightarrow> nat \<Rightarrow> string + nat" where
  "scheduled_ns sequence rate =
     (if sequence * 1000000000 > u128_max then Inl ''planned send timestamp overflow''
      else case u64_try_from (sequence * 1000000000 div rate) of
             None \<Rightarrow> Inl ''planned send timestamp does not fit u64''
           | Some ns \<Rightarrow> Inr ns)"

abbreviation VALID_RUN_THRESHOLD :: f64 where "VALID_RUN_THRESHOLD \<equiv> round_f64 (95 / 100)"

definition rate_is_valid :: "f64 \<Rightarrow> nat \<Rightarrow> bool" where
  "rate_is_valid actual_rate target_rate \<longleftrightarrow> mul_f64 (as_f64 target_rate) VALID_RUN_THRESHOLD \<le> actual_rate"

section \<open>Percentiles\<close>

record latency_stats =
  st_p50 :: f64
  st_p99 :: f64
  st_p99_9 :: f64
  st_p99_99 :: f64
  st_max :: f64
  st_mean :: f64
  st_min :: f64
  st_count :: nat

definition percentile_index :: "nat \<Rightarrow> nat \<Rightarrow> nat" where
  "percentile_index len basis_points = min (div_ceil (len * basis_points) 10000 - 1) (len - 1)"

text \<open>\<open>None\<close> is the failed assertion.\<close>

definition percentile_basis_points :: "nat list \<Rightarrow> nat \<Rightarrow> f64 option" where
  "percentile_basis_points sorted_ns basis_points =
     (if sorted_ns = [] then Some 0
      else if \<not> (1 \<le> basis_points \<and> basis_points \<le> 10000) then None
      else Some (as_f64 (sorted_ns ! percentile_index (length sorted_ns) basis_points)))"

definition compute_stats :: "latency_sample list \<Rightarrow> latency_stats option" where
  "compute_stats samples =
     (let latencies = sort (map ls_latency_ns samples); count = length latencies in
      if count = 0
      then Some \<lparr>st_p50 = 0, st_p99 = 0, st_p99_9 = 0, st_p99_99 = 0, st_max = 0, st_mean = 0, st_min = 0, st_count = 0\<rparr>
      else Option.bind (percentile_basis_points latencies 5000) (\<lambda>p50.
           Option.bind (percentile_basis_points latencies 9900) (\<lambda>p99.
           Option.bind (percentile_basis_points latencies 9990) (\<lambda>p99_9.
           Option.bind (percentile_basis_points latencies 9999) (\<lambda>p99_99.
             Some \<lparr>st_p50 = p50, st_p99 = p99, st_p99_9 = p99_9, st_p99_99 = p99_99,
               st_max = as_f64 (latencies ! (count - 1)),
               st_mean = div_f64 (as_f64 (sum_list latencies)) (as_f64 count),
               st_min = as_f64 (latencies ! 0), st_count = count\<rparr>)))))"

section \<open>The check of an injected pause\<close>

record pause_check =
  requested_sleep_ns :: nat
  observed_sleep_ns :: nat
  injection_sequence :: nat
  injection_planned_ns :: nat
  pause_started_ns :: nat
  pause_completed_ns :: nat
  expected_backlog_samples :: nat
  expected_affected_samples :: nat
  minimum_affected_samples :: nat
  maximum_affected_samples :: nat
  sample_count :: nat
  load_fraction :: f64
  minimum_drain_ns :: nat
  remaining_planned_ns_after_pause :: nat
  observed_p99_9_ns :: f64
  observed_max_ns :: f64

definition affected_in_range :: "pause_check \<Rightarrow> bool" where
  "affected_in_range c \<longleftrightarrow> minimum_affected_samples c \<le> expected_affected_samples c \<and>
     expected_affected_samples c \<le> maximum_affected_samples c"

definition p99_9_visible :: "pause_check \<Rightarrow> bool" where
  "p99_9_visible c \<longleftrightarrow> affected_in_range c \<and> mul_f64 (as_f64 (observed_sleep_ns c)) (1 / 2) \<le> observed_p99_9_ns c"

definition max_visible :: "pause_check \<Rightarrow> bool" where
  "max_visible c \<longleftrightarrow> mul_f64 (as_f64 (observed_sleep_ns c)) (round_f64 (8 / 10)) \<le> observed_max_ns c"

definition drain_allowance_met :: "pause_check \<Rightarrow> bool" where
  "drain_allowance_met c \<longleftrightarrow> minimum_drain_ns c \<le> remaining_planned_ns_after_pause c"

definition double_drain_allowance_met :: "pause_check \<Rightarrow> bool" where
  "double_drain_allowance_met c \<longleftrightarrow> sat_mul_u64 (minimum_drain_ns c) 2 \<le> remaining_planned_ns_after_pause c"

definition pause_is_valid :: "pause_check \<Rightarrow> bool" where
  "pause_is_valid c \<longleftrightarrow> affected_in_range c \<and> drain_allowance_met c \<and> p99_9_visible c \<and> max_visible c"

text \<open>\<open>(n + (d - 1)) / d\<close> in saturating \<open>u128\<close> arithmetic, clamped to \<open>u64\<close> and at least one.\<close>

definition ceil_samples :: "nat \<Rightarrow> nat \<Rightarrow> nat" where
  "ceil_samples n d = max (u64_or_max (sat_add_u128 n (d - 1) div d)) 1"

definition floor_as_u64 :: "f64 \<Rightarrow> nat" where
  "floor_as_u64 x = u64_or_max (nat \<lfloor>x\<rfloor>)"

definition validate_injected_pause ::
    "nat \<Rightarrow> nat \<Rightarrow> f64 \<Rightarrow> latency_stats \<Rightarrow> injection_observation \<Rightarrow> nat \<Rightarrow> string + pause_check" where
  "validate_injected_pause sleep target_rate common_max stats observation last_planned_ns =
     (let observed = inj_completed_ns observation - inj_started_ns observation in
      if observed = 0 then Inl ''observed injected pause duration was zero''
      else if common_max \<le> 0 then Inl ''common max must be finite and positive''
      else let common_max_u64 = floor_as_u64 common_max in
        if target_rate \<ge> common_max_u64 then Inl ''target rate must remain below common max''
        else
          let backlog = sat_mul_u128 target_rate observed;
              spare = common_max_u64 - target_rate
          in Inr
            \<lparr>requested_sleep_ns = u64_or_max sleep, observed_sleep_ns = observed,
             injection_sequence = inj_sequence observation, injection_planned_ns = inj_planned_ns observation,
             pause_started_ns = inj_started_ns observation, pause_completed_ns = inj_completed_ns observation,
             expected_backlog_samples = ceil_samples backlog 1000000000,
             expected_affected_samples =
               ceil_samples (sat_mul_u128 backlog common_max_u64) (sat_mul_u128 1000000000 spare),
             minimum_affected_samples = sat_add_u64 (u64_or_max (st_count stats)) 999 div 1000,
             maximum_affected_samples = u64_or_max (st_count stats) div 10,
             sample_count = st_count stats, load_fraction = div_f64 (as_f64 target_rate) common_max,
             minimum_drain_ns = u64_or_max (div_ceil (sat_mul_u128 observed target_rate) spare),
             remaining_planned_ns_after_pause = last_planned_ns - inj_completed_ns observation,
             observed_p99_9_ns = st_p99_9 stats, observed_max_ns = st_max stats\<rparr>)"

section \<open>Clock anchor and provenance\<close>

text \<open>
  Two readings of the monotonic clock around one of the wall clock; \<open>wall\<close> is \<open>None\<close> before the Unix epoch.
\<close>

record clock_anchor =
  ca_monotonic :: nat
  ca_wall_unix_ns :: nat
  ca_uncertainty_ns :: nat

definition anchor_capture :: "nat \<Rightarrow> nat option \<Rightarrow> nat \<Rightarrow> string + clock_anchor" where
  "anchor_capture before wall after =
     (case wall of
        None \<Rightarrow> Inl ''system clock predates Unix epoch''
      | Some w \<Rightarrow>
          (case u64_try_from w of
             None \<Rightarrow> Inl ''wall-clock timestamp does not fit u64 nanoseconds''
           | Some wall_unix_ns \<Rightarrow>
               let span = after - before in
               Inr \<lparr>ca_monotonic = before + span div 2, ca_wall_unix_ns = wall_unix_ns,
                    ca_uncertainty_ns = u64_or_max (div_ceil span 2)\<rparr>))"

definition project_unix_ns :: "clock_anchor \<Rightarrow> nat \<Rightarrow> string + nat" where
  "project_unix_ns a target =
     (if target < ca_monotonic a then Inl ''measurement epoch predates clock anchor''
      else case u64_try_from (target - ca_monotonic a) of
             None \<Rightarrow> Inl ''clock-anchor delta does not fit u64 nanoseconds''
           | Some delta_ns \<Rightarrow>
               (case u64_try_from (ca_wall_unix_ns a + delta_ns) of
                  None \<Rightarrow> Inl ''measurement epoch Unix timestamp overflow''
                | Some ns \<Rightarrow> Inr ns))"

record build_provenance =
  git_rev :: string
  dirty :: "bool option"

text \<open>The two build-time environment variables.\<close>

definition provenance_current :: "string option \<Rightarrow> string option \<Rightarrow> build_provenance" where
  "provenance_current rev_var d =
     \<lparr>git_rev = (case rev_var of None \<Rightarrow> ''unknown'' | Some r \<Rightarrow> r),
      dirty = (case d of Some s \<Rightarrow> if s = ''false'' then Some False else if s = ''true'' then Some True else None | None \<Rightarrow> None)\<rparr>"

definition is_ascii_hexdigit :: "char \<Rightarrow> bool" where
  "is_ascii_hexdigit c =
     (let n = of_char c :: nat in 48 \<le> n \<and> n \<le> 57 \<or> 65 \<le> n \<and> n \<le> 70 \<or> 97 \<le> n \<and> n \<le> 102)"

definition provenance_is_valid :: "build_provenance \<Rightarrow> bool" where
  "provenance_is_valid p \<longleftrightarrow> length (git_rev p) = 40 \<and> list_all is_ascii_hexdigit (git_rev p) \<and> dirty p = Some False"

definition dirty_json :: "build_provenance \<Rightarrow> string" where
  "dirty_json p = (case dirty p of Some False \<Rightarrow> ''false'' | Some True \<Rightarrow> ''true'' | None \<Rightarrow> ''null'')"

section \<open>The schedule does not drift\<close>

lemma scheduled_ns_exact:
  assumes "0 < rate" and "scheduled_ns i rate = Inr t"
  shows "t * rate \<le> i * 1000000000" "i * 1000000000 < (t + 1) * rate"
proof -
  have t: "t = i * 1000000000 div rate"
    using assms(2) by (auto simp: scheduled_ns_def u64_try_from_def split: if_splits)
  show "t * rate \<le> i * 1000000000" using t div_times_less_eq_dividend by simp
  show "i * 1000000000 < (t + 1) * rate"
    unfolding t using assms(1) dividend_less_div_times [of rate "i * 1000000000"] by (simp add: algebra_simps)
qed

lemma scheduled_ns_mono: "i \<le> j \<Longrightarrow> scheduled_ns i rate = Inr s \<Longrightarrow> scheduled_ns j rate = Inr t \<Longrightarrow> s \<le> t"
  by (auto simp: scheduled_ns_def u64_try_from_def intro: div_le_mono split: if_splits)

section \<open>Percentiles are nearest ranks\<close>

definition at_most :: "nat list \<Rightarrow> nat \<Rightarrow> nat" where "at_most xs v = length (filter (\<lambda>x. x \<le> v) xs)"
definition below :: "nat list \<Rightarrow> nat \<Rightarrow> nat" where "below xs v = length (filter (\<lambda>x. x < v) xs)"

text \<open>\<open>v\<close> is the value of nearest rank: enough samples are at most \<open>v\<close>, and too few are smaller.\<close>

definition nearest_rank :: "nat list \<Rightarrow> nat \<Rightarrow> nat \<Rightarrow> bool" where
  "nearest_rank xs bp v \<longleftrightarrow> v \<in> set xs \<and> length xs * bp \<le> at_most xs v * 10000 \<and> below xs v * 10000 < length xs * bp"

lemma sort_eq_Nil [simp]: "sort xs = [] \<longleftrightarrow> (xs :: nat list) = []"
  by (metis set_empty set_sort)

lemma filter_sort_length: "length (filter P (sort xs)) = length (filter P xs)"
  by (simp add: filter_sort)

lemma at_most_sorted: "sorted xs \<Longrightarrow> i < length xs \<Longrightarrow> Suc i \<le> at_most xs (xs ! i)"
proof -
  assume s: "sorted xs" and i: "i < length xs"
  have "filter (\<lambda>x. x \<le> xs ! i) (take (Suc i) xs) = take (Suc i) xs"
    using s i by (intro filter_True) (auto simp: in_set_conv_nth sorted_iff_nth_mono)
  then have "Suc i = length (filter (\<lambda>x. x \<le> xs ! i) (take (Suc i) xs))" using i by simp
  also have "\<dots> \<le> length (filter (\<lambda>x. x \<le> xs ! i) (take (Suc i) xs @ drop (Suc i) xs))" unfolding filter_append by simp
  finally show ?thesis by (simp add: at_most_def)
qed

lemma below_sorted: "sorted xs \<Longrightarrow> i < length xs \<Longrightarrow> below xs (xs ! i) \<le> i"
proof -
  assume s: "sorted xs" and i: "i < length xs"
  have "filter (\<lambda>x. x < xs ! i) (drop i xs) = []"
    using s i by (auto simp: filter_empty_conv in_set_conv_nth sorted_iff_nth_mono not_less)
  then have "below xs (xs ! i) = length (filter (\<lambda>x. x < xs ! i) (take i xs))"
    unfolding below_def by (metis append_Nil2 append_take_drop_id filter_append)
  also have "\<dots> \<le> i" using length_filter_le [of _ "take i xs"] by (metis le_trans length_take min.cobounded2)
  finally show ?thesis .
qed

lemma percentile_index_bounds:
  assumes "0 < len" and "1 \<le> bp" and "bp \<le> 10000"
  shows "percentile_index len bp = div_ceil (len * bp) 10000 - 1" "percentile_index len bp < len"
    "0 < div_ceil (len * bp) 10000"
proof -
  have "len * bp \<le> len * 10000" using assms by simp
  then have "div_ceil (len * bp) 10000 \<le> len" by (simp add: div_ceil_le_iff)
  then show "percentile_index len bp = div_ceil (len * bp) 10000 - 1" by (simp add: percentile_index_def)
  show "percentile_index len bp < len" using assms(1) by (simp add: percentile_index_def)
  show "0 < div_ceil (len * bp) 10000" using assms by (simp add: div_ceil_least)
qed

lemma percentile_nearest:
  assumes "xs \<noteq> []" and "1 \<le> bp" and "bp \<le> 10000"
  shows "\<exists>v. percentile_basis_points (sort xs) bp = Some (as_f64 v) \<and> nearest_rank xs bp v"
proof -
  let ?i = "percentile_index (length (sort xs)) bp" and ?n = "length (sort xs)"
  have n: "0 < ?n" "sort xs \<noteq> []" using assms(1) by (metis length_greater_0_conv length_sort)+
  note i = percentile_index_bounds [OF n(1) assms(2,3)]
  let ?v = "sort xs ! ?i"
  have "?n * bp \<le> Suc ?i * 10000" using div_ceil_le_iff [of 10000 "?n * bp" "Suc ?i"] i by simp
  also have "\<dots> \<le> at_most (sort xs) ?v * 10000" using at_most_sorted [OF sorted_sort i(2)] by simp
  finally have hi: "length xs * bp \<le> at_most xs ?v * 10000" by (simp add: at_most_def filter_sort_length)
  have "below (sort xs) ?v * 10000 \<le> ?i * 10000" using below_sorted [OF sorted_sort i(2)] by simp
  also have "\<dots> < ?n * bp" using div_ceil_least [of 10000 ?i "?n * bp"] i by simp
  finally have lo: "below xs ?v * 10000 < length xs * bp" by (simp add: below_def filter_sort_length)
  have "?v \<in> set xs" using i(2) by (metis nth_mem set_sort)
  with hi lo n assms(2,3) show ?thesis by (auto simp: percentile_basis_points_def nearest_rank_def)
qed

lemma percentile_index_mono: "bp \<le> bq \<Longrightarrow> percentile_index n bp \<le> percentile_index n bq"
proof -
  assume "bp \<le> bq"
  then have "n * bp \<le> n * bq" by simp
  also have "\<dots> \<le> div_ceil (n * bq) 10000 * 10000" using div_ceil_le_iff [of 10000 "n * bq" "div_ceil (n * bq) 10000"] by simp
  finally have "div_ceil (n * bp) 10000 \<le> div_ceil (n * bq) 10000" by (simp add: div_ceil_le_iff)
  then show ?thesis by (auto simp: percentile_index_def)
qed

lemma percentile_mono:
  assumes "xs \<noteq> []" and "1 \<le> bp" and "bp \<le> bq" and "bq \<le> 10000"
    and "percentile_basis_points (sort xs) bp = Some p" and "percentile_basis_points (sort xs) bq = Some q"
  shows "p \<le> q" "as_f64 (sort xs ! 0) \<le> p" "q \<le> as_f64 (sort xs ! (length xs - 1))"
proof -
  have ne: "sort xs \<noteq> []" using assms(1) by (metis set_sort set_empty)
  have eq: "p = as_f64 (sort xs ! percentile_index (length xs) bp)" "q = as_f64 (sort xs ! percentile_index (length xs) bq)"
    using assms ne by (auto simp: percentile_basis_points_def split: if_splits)
  have le: "as_f64 (sort xs ! i) \<le> as_f64 (sort xs ! j)" if "i \<le> j" "j < length xs" for i j
    using that by (intro as_f64_mono sorted_nth_mono) simp_all
  have idx: "percentile_index (length xs) b < length xs" for b using assms(1) by (simp add: percentile_index_def min_less_iff_disj)
  show "p \<le> q" unfolding eq using percentile_index_mono [OF assms(3)] idx by (intro le)
  show "as_f64 (sort xs ! 0) \<le> p" unfolding eq using idx by (intro le) simp_all
  show "q \<le> as_f64 (sort xs ! (length xs - 1))" unfolding eq using assms(1) by (intro le) (simp_all add: percentile_index_def)
qed

lemma compute_stats_total: "\<exists>st. compute_stats samples = Some st"
proof (cases "samples = []")
  case False
  then have "percentile_basis_points (sort (map ls_latency_ns samples)) bp \<noteq> None" if "1 \<le> bp" "bp \<le> 10000" for bp
    using percentile_nearest [of "map ls_latency_ns samples"] that by fastforce
  from this [of 5000] this [of 9900] this [of 9990] this [of 9999] False show ?thesis
    by (auto simp: compute_stats_def Let_def)
qed (simp add: compute_stats_def)

lemma sorted_last_Max: "xs \<noteq> [] \<Longrightarrow> sort xs ! (length xs - 1) = Max (set (xs :: nat list))"
proof -
  assume xs: "xs \<noteq> []"
  then have n: "length xs - 1 < length (sort xs)" by (simp add: Suc_le_eq)
  show ?thesis
  proof (rule Max_eqI [symmetric])
    show "sort xs ! (length xs - 1) \<in> set xs" using n by (metis nth_mem set_sort)
    show "x \<le> sort xs ! (length xs - 1)" if "x \<in> set xs" for x
    proof -
      from that obtain i where "i < length (sort xs)" "x = sort xs ! i" by (metis in_set_conv_nth set_sort)
      with n show ?thesis by (auto intro!: sorted_nth_mono)
    qed
  qed simp
qed

text \<open>
  C27: the reported percentiles are nearest ranks. For every non-empty list of samples the statistics exist;
  p50, p99, p99.9 and p99.99 are each the latency of a sample such that at least that share of the samples
  is not larger and a smaller share is strictly smaller; minimum, percentiles and maximum are in order and
  the maximum is the largest latency.
\<close>

theorem latency_percentiles:
  assumes "samples \<noteq> []"
  shows "\<exists>st. compute_stats samples = Some st \<and> st_count st = length samples \<and>
    (\<forall>(p, bp)\<in>{(st_p50 st, 5000), (st_p99 st, 9900), (st_p99_9 st, 9990), (st_p99_99 st, 9999)}.
       \<exists>v. p = as_f64 v \<and> nearest_rank (map ls_latency_ns samples) bp v) \<and>
    st_min st \<le> st_p50 st \<and> st_p50 st \<le> st_p99 st \<and> st_p99 st \<le> st_p99_9 st \<and> st_p99_9 st \<le> st_p99_99 st \<and>
    st_p99_99 st \<le> st_max st \<and> st_max st = as_f64 (Max (ls_latency_ns ` set samples))"
proof -
  let ?xs = "map ls_latency_ns samples"
  have ne: "?xs \<noteq> []" "0 < length samples" using assms by simp_all
  have some: "\<exists>v. percentile_basis_points (sort ?xs) bp = Some (as_f64 v) \<and> nearest_rank ?xs bp v"
    if "bp \<in> {5000, 9900, 9990, 9999}" for bp using percentile_nearest [OF ne(1)] that by auto
  obtain a b c d where p: "percentile_basis_points (sort ?xs) 5000 = Some (as_f64 a)" "percentile_basis_points (sort ?xs) 9900 = Some (as_f64 b)"
    "percentile_basis_points (sort ?xs) 9990 = Some (as_f64 c)" "percentile_basis_points (sort ?xs) 9999 = Some (as_f64 d)"
    and r: "nearest_rank ?xs 5000 a" "nearest_rank ?xs 9900 b" "nearest_rank ?xs 9990 c" "nearest_rank ?xs 9999 d"
    using some [of 5000] some [of 9900] some [of 9990] some [of 9999] by auto
  define st where "st = \<lparr>st_p50 = as_f64 a, st_p99 = as_f64 b, st_p99_9 = as_f64 c, st_p99_99 = as_f64 d,
    st_max = as_f64 (sort ?xs ! (length samples - 1)), st_mean = div_f64 (as_f64 (sum_list (sort ?xs))) (as_f64 (length samples)),
    st_min = as_f64 (sort ?xs ! 0), st_count = length samples\<rparr>"
  have "compute_stats samples = Some st" using p ne(2) by (simp add: compute_stats_def Let_def st_def)
  moreover have "st_min st \<le> st_p50 st \<and> st_p50 st \<le> st_p99 st \<and> st_p99 st \<le> st_p99_9 st \<and> st_p99_9 st \<le> st_p99_99 st \<and>
    st_p99_99 st \<le> st_max st"
    using percentile_mono [OF ne(1) _ _ _ p(1,2)] percentile_mono [OF ne(1) _ _ _ p(2,3)] percentile_mono [OF ne(1) _ _ _ p(3,4)]
    by (simp add: st_def)
  moreover have "st_max st = as_f64 (Max (ls_latency_ns ` set samples))"
    using sorted_last_Max [of ?xs] ne by (simp add: st_def)
  ultimately show ?thesis using r by (intro exI [of _ st]) (auto simp: st_def)
qed

definition example_sample :: "nat \<Rightarrow> latency_sample" where
  "example_sample l = \<lparr>ls_sequence = 0, ls_planned_ns = 1, ls_completion_ns = 1 + l, ls_latency_ns = l\<rparr>"

theorem latency_percentiles_witness:
  "\<exists>st. compute_stats (map example_sample [7, 3, 9]) = Some st \<and> st_count st = 3 \<and>
     (\<exists>v. st_p50 st = as_f64 v \<and> nearest_rank [7, 3, 9] 5000 v) \<and> st_max st = 9"
proof -
  have ls: "map ls_latency_ns (map example_sample [7, 3, 9]) = [7, 3, 9]" "ls_latency_ns ` set (map example_sample [7, 3, 9]) = {7, 3, 9}"
    "map example_sample [7, 3, 9] \<noteq> []" "length (map example_sample [7, 3, 9]) = 3"
    by (simp_all add: example_sample_def)
  have "Max {7, 3, 9 :: nat} = 9" "as_f64 9 = 9" by (simp_all add: as_f64_exact)
  with latency_percentiles [OF ls(3)] show ?thesis unfolding ls(1,2,4) by auto
qed

section \<open>What the pause check computes\<close>

lemma ceil_samples_le_iff:
  assumes "0 < d" and "n + d \<le> u128_max" and "1 \<le> k" and "k < u64_max"
  shows "ceil_samples n d \<le> k \<longleftrightarrow> n \<le> k * d"
proof -
  have "sat_add_u128 n (d - 1) = n + (d - 1)" using assms(1,2) by (simp add: sat_add_u128_def)
  moreover have "(n + (d - 1)) div d \<le> k \<longleftrightarrow> n + (d - 1) < Suc k * d"
    using assms(1) div_less_iff_less_mult [of d "n + (d - 1)" "Suc k"] by (simp only: less_Suc_eq_le)
  moreover have "n + (d - 1) < Suc k * d \<longleftrightarrow> n \<le> k * d" using assms(1) by (simp; linarith)
  ultimately show ?thesis using assms(3,4) unfolding ceil_samples_def u64_or_max_def by auto
qed

lemma u64_or_max_le_iff: "k < u64_max \<Longrightarrow> u64_or_max n \<le> k \<longleftrightarrow> n \<le> k"
  by (auto simp: u64_or_max_def)

lemma validated_cases:
  assumes "validate_injected_pause sleep R M stats ob last_planned = Inr chk"
  defines "s \<equiv> inj_completed_ns ob - inj_started_ns ob" and "m \<equiv> floor_as_u64 M"
  shows "0 < s" "0 < M" "R < m" "observed_sleep_ns chk = s" "observed_max_ns chk = st_max stats"
    "expected_backlog_samples chk = ceil_samples (sat_mul_u128 R s) 1000000000"
    "expected_affected_samples chk = ceil_samples (sat_mul_u128 (sat_mul_u128 R s) m) (sat_mul_u128 1000000000 (m - R))"
    "minimum_drain_ns chk = u64_or_max (div_ceil (sat_mul_u128 s R) (m - R))"
  using assms(1) unfolding validate_injected_pause_def Let_def s_def [symmetric] m_def [symmetric]
  by (auto split: if_splits)

text \<open>
  The pause check computes what an overloaded queue does. When events arrive at rate \<open>R\<close>, are handled at
  rate \<open>m\<close> and nothing is handled for \<open>s\<close> nanoseconds, the check's drain time is the least \<open>d\<close> after which all
  that arrived during the pause and the draining has been handled; its backlog is the least number of
  samples that covers the arrivals of the pause, and its affected population the least number that covers
  the arrivals until the queue is empty again.
\<close>

theorem pause_check_exact:
  assumes "validate_injected_pause sleep R M stats ob last_planned = Inr chk"
    and "s = inj_completed_ns ob - inj_started_ns ob" and "m = floor_as_u64 M"
    and "R * s * m + 1000000000 * m \<le> u128_max"
  shows "0 < s \<and> R < m \<and> (\<forall>d<u64_max. minimum_drain_ns chk \<le> d \<longleftrightarrow> R * (s + d) \<le> m * d) \<and>
    (\<forall>k<u64_max. 1 \<le> k \<longrightarrow> (expected_backlog_samples chk \<le> k \<longleftrightarrow> R * s \<le> k * 1000000000)) \<and>
    (\<forall>k<u64_max. 1 \<le> k \<longrightarrow> (expected_affected_samples chk \<le> k \<longleftrightarrow> R * s * m \<le> k * (1000000000 * (m - R))))"
proof -
  note c = validated_cases [OF assms(1), folded assms(2,3)]
  have m: "1 \<le> m" using c(3) by simp
  have big: "R * s \<le> R * s * m" using m by simp
  have spare: "1000000000 * (m - R) \<le> 1000000000 * m" by simp
  have fits: "R * s \<le> u128_max" "R * s * m \<le> u128_max" "1000000000 * (m - R) \<le> u128_max"
    using assms(4) big spare by linarith+
  have "1000000000 * 1 \<le> 1000000000 * m" using m by simp
  then have room: "R * s + 1000000000 \<le> u128_max" using assms(4) big by linarith
  have nosat: "sat_mul_u128 R s = R * s" "sat_mul_u128 s R = R * s" "sat_mul_u128 (R * s) m = R * s * m"
    "sat_mul_u128 1000000000 (m - R) = 1000000000 * (m - R)"
    using fits by (simp_all add: sat_mul_u128_def min_absorb2 mult.commute [of s R])
  have "minimum_drain_ns chk \<le> d \<longleftrightarrow> R * (s + d) \<le> m * d" if "d < u64_max" for d
  proof -
    have "minimum_drain_ns chk \<le> d \<longleftrightarrow> R * s \<le> d * (m - R)"
      using that c(3) by (simp add: c(8) nosat u64_or_max_le_iff div_ceil_le_iff)
    moreover obtain k where "m = R + k" using c(3) less_imp_add_positive by blast
    ultimately show ?thesis by (simp add: algebra_simps)
  qed
  moreover have "expected_backlog_samples chk \<le> k \<longleftrightarrow> R * s \<le> k * 1000000000" if "k < u64_max" "1 \<le> k" for k
    unfolding c(6) nosat using that room by (intro ceil_samples_le_iff) simp_all
  moreover have "expected_affected_samples chk \<le> k \<longleftrightarrow> R * s * m \<le> k * (1000000000 * (m - R))" if "k < u64_max" "1 \<le> k" for k
    unfolding c(7) nosat using that assms(4) spare c(3) by (intro ceil_samples_le_iff) simp_all
  ultimately show ?thesis using c(1,3) by blast
qed

definition example_observation :: injection_observation where
  "example_observation = \<lparr>inj_sequence = 5, inj_planned_ns = 3, inj_started_ns = 4, inj_completed_ns = 14\<rparr>"

definition example_stats :: latency_stats where
  "example_stats = \<lparr>st_p50 = 1, st_p99 = 2, st_p99_9 = 9, st_p99_99 = 11, st_max = 11, st_mean = 2, st_min = 1, st_count = 2000\<rparr>"

theorem pause_check_exact_witness:
  "\<exists>chk. validate_injected_pause 10 1 4 example_stats example_observation 100 = Inr chk \<and>
     minimum_drain_ns chk = 4 \<and> expected_backlog_samples chk = 1"
proof -
  have fl: "floor_as_u64 4 = 4" by (simp add: floor_as_u64_def u64_or_max_def)
  obtain chk where chk: "validate_injected_pause 10 1 4 example_stats example_observation 100 = Inr chk"
    by (simp add: validate_injected_pause_def fl example_observation_def Let_def)
  have s: "10 = inj_completed_ns example_observation - inj_started_ns example_observation"
    by (simp add: example_observation_def)
  from pause_check_exact [OF chk s fl [symmetric]]
  have drain: "\<forall>d<u64_max. minimum_drain_ns chk \<le> d \<longleftrightarrow> 1 * (10 + d) \<le> 4 * d"
    and backlog: "\<forall>k<u64_max. 1 \<le> k \<longrightarrow> (expected_backlog_samples chk \<le> k \<longleftrightarrow> 1 * 10 \<le> k * 1000000000)" by auto
  have "minimum_drain_ns chk \<le> 4" "\<not> minimum_drain_ns chk \<le> 3" using drain [rule_format, of 4] drain [rule_format, of 3] by auto
  moreover have "expected_backlog_samples chk \<le> 1" using backlog [rule_format, of 1] by simp
  moreover have "1 \<le> expected_backlog_samples chk"
    using validated_cases(6) [OF chk] by (simp add: ceil_samples_def)
  ultimately show ?thesis using chk by auto
qed

text \<open>
  An injected pause cannot hide. If the event the pause hit was not handled before its planned time,
  the maximum of the samples is at least the pause, so the check that the pause is visible in the maximum
  succeeds whatever else happened in the run.
\<close>

theorem pause_visible_in_max:
  assumes "pause_sampled ob samples" and "inj_planned_ns ob \<le> inj_started_ns ob"
    and "\<forall>s\<in>set samples. ls_latency_ns s = ls_completion_ns s - ls_planned_ns s"
    and "compute_stats samples = Some stats" and "validate_injected_pause sleep R M stats ob last_planned = Inr chk"
  shows "max_visible chk"
proof -
  from assms(1) obtain s where s: "s \<in> set samples" "ls_planned_ns s = inj_planned_ns ob" "inj_completed_ns ob \<le> ls_completion_ns s"
    by (auto simp: pause_sampled_def)
  note c = validated_cases [OF assms(5)]
  have "observed_sleep_ns chk \<le> ls_latency_ns s" using assms(2,3) s c(4) by auto
  also have "\<dots> \<le> Max (ls_latency_ns ` set samples)" using s(1) by simp
  finally have "as_f64 (observed_sleep_ns chk) \<le> as_f64 (Max (ls_latency_ns ` set samples))" by (rule as_f64_mono)
  also have "\<dots> = st_max stats"
    using assms(4) s(1) sorted_last_Max [of "map ls_latency_ns samples"]
    by (auto simp: compute_stats_def Let_def split: if_splits bind_splits)
  finally have obs: "as_f64 (observed_sleep_ns chk) \<le> observed_max_ns chk" by (simp add: c(5))
  have "round_f64 (8 / 10) \<le> as_f64 1" unfolding as_f64_def by (rule round_f64_mono) simp
  then have "mul_f64 (as_f64 (observed_sleep_ns chk)) (round_f64 (8 / 10)) \<le> as_f64 (observed_sleep_ns chk)"
    unfolding as_f64_def [of "observed_sleep_ns chk"] by (intro mul_f64_le) (simp_all add: round_f64_nonneg as_f64_exact)
  with obs show ?thesis by (simp add: max_visible_def)
qed

theorem pause_visible_in_max_witness:
  "\<exists>stats chk. compute_stats [\<lparr>ls_sequence = 5, ls_planned_ns = 3, ls_completion_ns = 20, ls_latency_ns = 17\<rparr>] = Some stats \<and>
     validate_injected_pause 10 1 4 stats example_observation 100 = Inr chk \<and> max_visible chk"
proof -
  let ?samples = "[\<lparr>ls_sequence = 5, ls_planned_ns = 3, ls_completion_ns = 20, ls_latency_ns = 17\<rparr>]"
  obtain stats where stats: "compute_stats ?samples = Some stats" using compute_stats_total by blast
  have fl: "floor_as_u64 4 = 4" by (simp add: floor_as_u64_def u64_or_max_def)
  obtain chk where chk: "validate_injected_pause 10 1 4 stats example_observation 100 = Inr chk"
    by (simp add: validate_injected_pause_def fl example_observation_def Let_def)
  have "max_visible chk"
    by (rule pause_visible_in_max [OF _ _ _ stats chk]) (simp_all add: pause_sampled_def example_observation_def)
  with stats chk show ?thesis by blast
qed

text \<open>
  A fixed rate leaves no room for a pause. With \<open>--rate\<close> and no \<open>--max-rate\<close> the program takes the rate
  itself as the maximum, and then the check of an injected pause refuses every run.
\<close>

theorem fixed_rate_pause_refused:
  assumes "R \<le> 2 ^ 53"
  shows "\<exists>msg. validate_injected_pause sleep R (as_f64 R) stats ob last_planned = Inl msg"
proof -
  have "floor_as_u64 (as_f64 R) = R" using assms by (simp add: as_f64_exact floor_as_u64_def u64_or_max_def)
  then show ?thesis by (simp add: validate_injected_pause_def Let_def)
qed

theorem fixed_rate_pause_refused_witness:
  "\<exists>msg. validate_injected_pause 10 100000 (as_f64 100000) example_stats example_observation 100 = Inl msg"
  by (rule fixed_rate_pause_refused) simp

end
