(* ===== verification/Latency_Run.thy ===== *)
theory Latency_Run
  imports Latency_Stats
begin

text \<open>
  The main thread of the tail-latency program (\<open>src/bin/h2h_tail_latency.rs\<close>): the calibration, one load level
  and the program as a whole. What the main thread sees of the other threads and of the clocks is an
  environment of functions of the tick at which it looks; the answers of the library's \<open>publish\<close> are part of
  it. An outer \<open>None\<close> is a loop that has not ended yet, the sum is the program's \<open>Result\<close>. The shutdown of the
  disruptor on the error paths leaves nothing behind that the program looks at again.
\<close>

section \<open>The environment of the main thread\<close>

record main_env =
  me_ready :: "nat \<Rightarrow> nat"
  me_processed :: "nat \<Rightarrow> nat"
  me_affinity_failed :: "nat \<Rightarrow> bool"
  me_clock :: "nat \<Rightarrow> nat"
  me_wall :: "nat \<Rightarrow> nat option"
  me_os :: affinity
  me_publish :: "nat \<Rightarrow> unit result"
  me_outcome :: "handler_outcome option"

section \<open>Calibration handler\<close>

record calibration_handler =
  kh_start :: "nat option"
  kh_processed :: nat
  kh_ready :: nat
  kh_warmup_events :: nat
  kh_workload :: workload
  kh_allocator :: allocator
  kh_scratch :: "latency_sample list"
  kh_cpu :: "nat option"
  kh_affinity_failed :: bool
  kh_tick :: nat

definition blank_sample :: latency_sample where
  "blank_sample = \<lparr>ls_sequence = 0, ls_planned_ns = 0, ls_completion_ns = 0, ls_latency_ns = 0\<rparr>"

definition calibration_handler_new :: "latency_config \<Rightarrow> workload \<Rightarrow> calibration_handler" where
  "calibration_handler_new cfg w =
     \<lparr>kh_start = None, kh_processed = 0, kh_ready = 0, kh_warmup_events = calibration_warmup_events cfg,
      kh_workload = w, kh_allocator = allocator_init, kh_scratch = replicate (c_buffer_size cfg) blank_sample,
      kh_cpu = config_cpu cfg 1, kh_affinity_failed = False, kh_tick = 0\<rparr>"

definition calibration_on_event ::
    "(nat \<Rightarrow> nat) \<Rightarrow> latency_event \<Rightarrow> i64 \<Rightarrow> bool \<Rightarrow> calibration_handler \<Rightarrow>
     unit result option \<times> latency_event \<times> calibration_handler" where
  "calibration_on_event clk e sequence end_of_batch h =
     (if sequence < 0 then (None, e, h)
      else let sequence = nat sequence in
        case workload_apply sequence (kh_warmup_events h \<le> sequence) (kh_workload h, kh_allocator h) of
          None \<Rightarrow> (None, e, h)
        | Some (w, a) \<Rightarrow>
            (case kh_start h of
               None \<Rightarrow> (None, e, h)
             | Some epoch \<Rightarrow>
                 let completion_ns = u64_or_max (clk (kh_tick h) - epoch);
                     index = sequence AND (length (kh_scratch h) - 1)
                 in if length (kh_scratch h) \<le> index then (None, e, h)
                    else (Some (Ok ()), e,
                      h\<lparr>kh_workload := w, kh_allocator := a, kh_tick := Suc (kh_tick h),
                        kh_scratch := (kh_scratch h)[index := \<lparr>ls_sequence = sequence, ls_planned_ns = le_planned_ns e,
                          ls_completion_ns = completion_ns, ls_latency_ns = completion_ns - le_planned_ns e\<rparr>],
                        kh_processed := (if end_of_batch then sat_add_u64 sequence 1 else kh_processed h)\<rparr>)))"

definition calibration_on_start :: "affinity \<Rightarrow> calibration_handler callback" where
  "calibration_on_start os h =
     (Some (Ok ()), h\<lparr>kh_allocator := workload_on_start (kh_workload h) (kh_allocator h),
        kh_affinity_failed := pin_current_thread os (kh_cpu h) (kh_affinity_failed h), kh_ready := kh_ready h + 1\<rparr>)"

definition calibration_event_handler :: "affinity \<Rightarrow> (nat \<Rightarrow> nat) \<Rightarrow> (latency_event, calibration_handler) lifecycle_handler" where
  "calibration_event_handler os clk =
     (default_methods (calibration_on_event clk))\<lparr>on_start := calibration_on_start os\<rparr>"

section \<open>Starting the threads\<close>

text \<open>
  Both runs begin alike: wait until the consumer is ready, look at its pinning, pin the main thread. The
  result is the tick after it.
\<close>

definition start_up :: "nat \<Rightarrow> main_env \<Rightarrow> latency_config \<Rightarrow> string \<Rightarrow> string \<Rightarrow> string \<Rightarrow> (string + nat) option" where
  "start_up fuel env cfg not_ready consumer_pin producer_pin =
     (case wait_count fuel (me_ready env) (me_clock env) 1 (c_timeout cfg) 0 of
        None \<Rightarrow> None
      | Some (False, t) \<Rightarrow> Some (Inl not_ready)
      | Some (True, t) \<Rightarrow>
          if me_affinity_failed env t then Some (Inl consumer_pin)
          else if pin_current_thread (me_os env) (config_cpu cfg 0) (me_affinity_failed env (Suc t))
          then Some (Inl producer_pin)
          else Some (Inr (Suc (Suc t))))"

section \<open>Calibration\<close>

definition calibration_schedule_rate :: "latency_config \<Rightarrow> nat" where
  "calibration_schedule_rate cfg =
     max (u64_or_max (div_ceil (sat_mul_u128 (c_calibration_events cfg) 1000000000) (c_calibration_duration cfg))) 1"

definition publish_scheduled :: "main_env \<Rightarrow> nat \<Rightarrow> string \<Rightarrow> nat \<Rightarrow> string + latency_event" where
  "publish_scheduled env rate failed i =
     (case scheduled_ns i rate of
        Inl e \<Rightarrow> Inl e
      | Inr planned_ns \<Rightarrow>
          (case me_publish env i of
             Inl e \<Rightarrow> Inl (failed @ '' failed at sequence '' @ show_nat i @ '': '' @ error_to_string e)
           | Inr _ \<Rightarrow> Inr \<lparr>le_sequence = int i, le_planned_ns = planned_ns\<rparr>))"

fun warm_up :: "main_env \<Rightarrow> nat \<Rightarrow> nat \<Rightarrow> nat \<Rightarrow> string + latency_event list" where
  "warm_up env rate i 0 = Inr []"
| "warm_up env rate i (Suc n) =
     (case publish_scheduled env rate ''calibration warmup publish'' i of
        Inl e \<Rightarrow> Inl e
      | Inr ev \<Rightarrow> (case warm_up env rate (Suc i) n of Inl e \<Rightarrow> Inl e | Inr evs \<Rightarrow> Inr (ev # evs)))"

text \<open>
  The measured loop ends with the events or with the time, whichever comes first; one clock reading per
  round.
\<close>

fun calibration_loop :: "main_env \<Rightarrow> latency_config \<Rightarrow> nat \<Rightarrow> nat \<Rightarrow> nat \<Rightarrow> nat \<Rightarrow> string + nat \<times> nat" where
  "calibration_loop env cfg measure_start 0 published t = Inr (published, t)"
| "calibration_loop env cfg measure_start (Suc n) published t =
     (if me_clock env t - measure_start < c_calibration_duration cfg then
        (case publish_scheduled env (calibration_schedule_rate cfg) ''calibration publish''
                (calibration_warmup_events cfg + published) of
           Inl e \<Rightarrow> Inl e
         | Inr _ \<Rightarrow> calibration_loop env cfg measure_start n (Suc published) (Suc t))
      else Inr (published, Suc t))"

definition calibrate_max_rate :: "nat \<Rightarrow> main_env \<Rightarrow> latency_config \<Rightarrow> (string + f64) option" where
  "calibrate_max_rate fuel env cfg =
     (case start_up fuel env cfg ''timeout waiting for calibration consumer readiness''
             ''failed to pin calibration consumer thread'' ''failed to pin calibration producer thread'' of
        None \<Rightarrow> None
      | Some (Inl e) \<Rightarrow> Some (Inl e)
      | Some (Inr t) \<Rightarrow>
          (case warm_up env (calibration_schedule_rate cfg) 0 (calibration_warmup_events cfg) of
             Inl e \<Rightarrow> Some (Inl e)
           | Inr _ \<Rightarrow>
               (case wait_count fuel (me_processed env) (me_clock env) (calibration_warmup_events cfg) (c_timeout cfg) t of
                  None \<Rightarrow> None
                | Some (False, t1) \<Rightarrow>
                    Some (Inl (''timeout waiting for calibration warmup completion (got '' @ show_nat (me_processed env t1) @ '')''))
                | Some (True, t1) \<Rightarrow>
                    let measure_start = me_clock env t1 in
                    (case calibration_loop env cfg measure_start (c_calibration_events cfg) 0 (Suc t1) of
                       Inl e \<Rightarrow> Some (Inl e)
                     | Inr (published, t2) \<Rightarrow>
                         (case wait_count fuel (me_processed env) (me_clock env)
                                 (calibration_warmup_events cfg + published) (c_timeout cfg) t2 of
                            None \<Rightarrow> None
                          | Some (False, t3) \<Rightarrow>
                              Some (Inl (''timeout waiting for calibration completion (got '' @ show_nat (me_processed env t3) @ '')''))
                          | Some (True, t3) \<Rightarrow>
                              let elapsed = me_clock env t3 - measure_start in
                              if as_secs_f64 elapsed = 0 then Some (Inl ''calibration duration was zero'')
                              else Some (Inr (div_f64 (as_f64 published) (as_secs_f64 elapsed))))))))"

section \<open>The offered load\<close>

definition spin_body :: "(nat \<Rightarrow> nat) \<Rightarrow> nat \<Rightarrow> nat \<Rightarrow> nat \<Rightarrow> nat + nat" where
  "spin_body clock epoch planned_ns t = (if clock t - epoch < planned_ns then Inr (Suc t) else Inl (Suc t))"

text \<open>
  One event of the schedule: wait for its planned time, publish, note the time. Besides the program's
  result the tick and the event are returned.
\<close>

definition send_one ::
    "nat \<Rightarrow> main_env \<Rightarrow> nat \<Rightarrow> nat \<Rightarrow> nat \<Rightarrow> nat \<Rightarrow> (string + nat \<times> nat \<times> latency_event) option" where
  "send_one fuel env epoch rate i t =
     (case scheduled_ns i rate of
        Inl e \<Rightarrow> Some (Inl e)
      | Inr planned_ns \<Rightarrow>
          (case poll fuel (spin_body (me_clock env) epoch planned_ns) t of
             None \<Rightarrow> None
           | Some t1 \<Rightarrow>
               (case publish_scheduled env rate ''publish'' i of
                  Inl e \<Rightarrow> Some (Inl e)
                | Inr ev \<Rightarrow> Some (Inr (Suc t1, u64_or_max (me_clock env t1 - epoch), ev)))))"

fun send_all ::
    "nat \<Rightarrow> main_env \<Rightarrow> nat \<Rightarrow> nat \<Rightarrow> nat \<Rightarrow> nat \<Rightarrow> nat \<Rightarrow> (string + nat \<times> (nat \<times> latency_event) list) option" where
  "send_all fuel env epoch rate i 0 t = Some (Inr (t, []))"
| "send_all fuel env epoch rate i (Suc n) t =
     (case send_one fuel env epoch rate i t of
        None \<Rightarrow> None
      | Some (Inl e) \<Rightarrow> Some (Inl e)
      | Some (Inr (t1, actual_ns, ev)) \<Rightarrow>
          (case send_all fuel env epoch rate (Suc i) n t1 of
             None \<Rightarrow> None
           | Some (Inl e) \<Rightarrow> Some (Inl e)
           | Some (Inr (t2, sent)) \<Rightarrow> Some (Inr (t2, (actual_ns, ev) # sent))))"

section \<open>One load level\<close>

record load_result =
  lr_load_pct :: nat
  lr_target_rate :: nat
  lr_own_max :: f64
  lr_own_utilization :: f64
  lr_actual_rate :: f64
  lr_rate_valid :: bool
  lr_workload_valid :: bool
  lr_valid_run :: bool
  lr_measurement_epoch_unix_ns :: nat
  lr_clock_anchor_uncertainty_ns :: nat
  lr_pause_check :: "pause_check option"
  lr_samples :: "latency_sample list"
  lr_workload :: workload_stats

text \<open>\<open>first_send_ns\<close> and \<open>last_send_ns\<close> of the sending loop, and the rate over the intervals between them.\<close>

definition actual_rate_of :: "nat \<Rightarrow> nat list \<Rightarrow> f64" where
  "actual_rate_of events_total sends =
     (let first_send_ns = (case sends of [] \<Rightarrow> 0 | x # _ \<Rightarrow> x); last_send_ns = (case sends of [] \<Rightarrow> 0 | _ \<Rightarrow> List.last sends);
          elapsed_s = div_f64 (as_f64 (last_send_ns - first_send_ns)) 1000000000;
          sent_count = max (events_total - 1) 1
      in if elapsed_s > 0 then div_f64 (as_f64 sent_count) elapsed_s else 0)"

definition check_pause ::
    "nat option \<Rightarrow> nat \<Rightarrow> f64 \<Rightarrow> latency_stats \<Rightarrow> injection_observation option \<Rightarrow> nat \<Rightarrow> string + pause_check option" where
  "check_pause inject_sleep target_rate common_max stats injection last_planned_ns =
     (case inject_sleep of
        None \<Rightarrow> Inr None
      | Some sleep \<Rightarrow>
          (case injection of
             None \<Rightarrow> Inl ''configured pause injection was not observed''
           | Some ob \<Rightarrow>
               (case validate_injected_pause sleep target_rate common_max stats ob last_planned_ns of
                  Inl e \<Rightarrow> Inl e
                | Inr chk \<Rightarrow> Inr (Some chk))))"

definition assess_load ::
    "latency_config \<Rightarrow> nat \<Rightarrow> f64 \<Rightarrow> f64 \<Rightarrow> nat option \<Rightarrow> nat \<Rightarrow> nat \<Rightarrow> nat list \<Rightarrow> handler_outcome \<Rightarrow>
     (string + load_result) option" where
  "assess_load cfg target_rate common_max own_max inject_sleep epoch_unix_ns uncertainty_ns sends outcome =
     (let samples = ho_samples outcome; expected_samples = c_events_total cfg - c_warmup_events cfg in
      if length samples \<noteq> expected_samples
      then Some (Inl (''latency sample count mismatch: expected '' @ show_nat expected_samples @ '', got '' @ show_nat (length samples)))
      else let wv = workload_valid cfg outcome; actual_rate = actual_rate_of (c_events_total cfg) sends;
               rv = rate_is_valid actual_rate target_rate
        in case compute_stats samples of
             None \<Rightarrow> None
           | Some stats \<Rightarrow>
               (case scheduled_ns (c_events_total cfg - 1) target_rate of
                  Inl e \<Rightarrow> Some (Inl e)
                | Inr last_planned_ns \<Rightarrow>
                    (case check_pause inject_sleep target_rate common_max stats (ho_injection outcome) last_planned_ns of
                       Inl e \<Rightarrow> Some (Inl e)
                     | Inr chk \<Rightarrow>
                         Some (Inr
                           \<lparr>lr_load_pct = 0, lr_target_rate = target_rate, lr_own_max = own_max,
                            lr_own_utilization = div_f64 (as_f64 target_rate) own_max, lr_actual_rate = actual_rate,
                            lr_rate_valid = rv, lr_workload_valid = wv,
                            lr_valid_run = (rv \<and> wv \<and> (case chk of None \<Rightarrow> True | Some c \<Rightarrow> pause_is_valid c)),
                            lr_measurement_epoch_unix_ns = epoch_unix_ns, lr_clock_anchor_uncertainty_ns = uncertainty_ns,
                            lr_pause_check = chk, lr_samples = samples, lr_workload = ho_workload outcome\<rparr>))))"

definition run_load ::
    "nat \<Rightarrow> main_env \<Rightarrow> latency_config \<Rightarrow> nat \<Rightarrow> f64 \<Rightarrow> f64 \<Rightarrow> nat option \<Rightarrow> (string + load_result) option" where
  "run_load fuel env cfg target_rate common_max own_max inject_sleep =
     (case start_up fuel env cfg ''timeout waiting for consumer readiness'' ''failed to pin consumer thread''
             ''failed to pin producer thread'' of
        None \<Rightarrow> None
      | Some (Inl e) \<Rightarrow> Some (Inl e)
      | Some (Inr t) \<Rightarrow>
          (case anchor_capture (me_clock env t) (me_wall env (Suc t)) (me_clock env (Suc (Suc t))) of
             Inl e \<Rightarrow> Some (Inl e)
           | Inr anchor \<Rightarrow>
               let t3 = Suc (Suc (Suc t)); epoch = me_clock env t3 in
               (case project_unix_ns anchor epoch of
                  Inl e \<Rightarrow> Some (Inl e)
                | Inr epoch_unix_ns \<Rightarrow>
                    (case send_all fuel env epoch target_rate 0 (c_events_total cfg) (Suc t3) of
                       None \<Rightarrow> None
                     | Some (Inl e) \<Rightarrow> Some (Inl e)
                     | Some (Inr (t4, sent)) \<Rightarrow>
                         (case wait_count fuel (me_processed env) (me_clock env) (c_events_total cfg) (c_timeout cfg) t4 of
                            None \<Rightarrow> None
                          | Some (False, t5) \<Rightarrow>
                              Some (Inl (''timeout waiting for completion (got '' @ show_nat (me_processed env t5) @ '')''))
                          | Some (True, t5) \<Rightarrow>
                              (case me_outcome env of
                                 None \<Rightarrow> Some (Inl ''consumer did not publish latency outcome during shutdown'')
                               | Some outcome \<Rightarrow>
                                   assess_load cfg target_rate common_max own_max inject_sleep epoch_unix_ns
                                     (ca_uncertainty_ns anchor) (map fst sent) outcome))))))"

section \<open>The program\<close>

text \<open>
  What the program sees outside itself: the build-time variables, the runs of the calibration and of the
  load levels, and whether a file could be written.
\<close>

record program_env =
  pe_git_rev :: "string option"
  pe_git_dirty :: "string option"
  pe_calibration :: main_env
  pe_load :: "nat \<Rightarrow> main_env"
  pe_write_samples :: "nat \<Rightarrow> latency_sample list \<Rightarrow> bool"
  pe_write_output :: "string \<Rightarrow> bool"

record report =
  rp_common_max :: "f64 option"
  rp_own_max :: f64
  rp_loads :: "load_result list"

text \<open>\<open>(x).round() as u64\<close> for a non-negative \<open>x\<close>.\<close>

definition round_as_u64 :: "f64 \<Rightarrow> nat" where
  "round_as_u64 x = u64_or_max (nat \<lfloor>x + 1 / 2\<rfloor>)"

definition targets :: "latency_config \<Rightarrow> f64 \<Rightarrow> (nat \<times> nat) list" where
  "targets cfg common_max =
     (case c_rate cfg of
        Some rate \<Rightarrow> [(0, rate)]
      | None \<Rightarrow> filter (\<lambda>(_, rate). 0 < rate)
          (map (\<lambda>pct. (pct, round_as_u64 (div_f64 (mul_f64 common_max (as_f64 pct)) 100))) (c_load_levels cfg)))"

fun run_loads ::
    "nat \<Rightarrow> program_env \<Rightarrow> latency_config \<Rightarrow> bool \<Rightarrow> f64 \<Rightarrow> f64 \<Rightarrow> nat \<Rightarrow> (nat \<times> nat) list \<Rightarrow>
     (string + load_result list) option" where
  "run_loads fuel penv cfg provenance_valid common_max own_max index [] = Some (Inr [])"
| "run_loads fuel penv cfg provenance_valid common_max own_max index ((pct, target_rate) # rest) =
     (let inject_sleep = (if index < length (c_inject_sleeps cfg) then Some (c_inject_sleeps cfg ! index) else None) in
      case run_load fuel (pe_load penv index) cfg target_rate common_max own_max inject_sleep of
        None \<Rightarrow> None
      | Some (Inl e) \<Rightarrow> Some (Inl (''load '' @ show_nat pct @ ''% error: '' @ e))
      | Some (Inr load) \<Rightarrow>
          (case run_loads fuel penv cfg provenance_valid common_max own_max (Suc index) rest of
             None \<Rightarrow> None
           | Some (Inl e) \<Rightarrow> Some (Inl e)
           | Some (Inr loads) \<Rightarrow>
               Some (Inr (load\<lparr>lr_load_pct := pct, lr_valid_run := lr_valid_run load \<and> provenance_valid\<rparr> # loads))))"

definition output_fails :: "program_env \<Rightarrow> latency_config \<Rightarrow> bool" where
  "output_fails penv cfg \<longleftrightarrow> (case c_output cfg of None \<Rightarrow> False | Some path \<Rightarrow> \<not> pe_write_output penv path)"

definition common_max_of :: "nat \<Rightarrow> program_env \<Rightarrow> latency_config \<Rightarrow> (string + f64) option" where
  "common_max_of fuel penv cfg =
     (case (case c_max_rate cfg of Some r \<Rightarrow> Some r | None \<Rightarrow> c_rate cfg) of
        Some rate \<Rightarrow> Some (Inr (as_f64 rate))
      | None \<Rightarrow> calibrate_max_rate fuel (pe_calibration penv) cfg)"

text \<open>The exit code, and what was measured when the program came that far.\<close>

definition tail_main :: "nat \<Rightarrow> program_env \<Rightarrow> string list \<Rightarrow> (nat \<times> report option) option" where
  "tail_main fuel penv args =
     (case parse_args args of
        Inl e \<Rightarrow> Some (2, None)
      | Inr None \<Rightarrow> Some (0, None)
      | Inr (Some cfg) \<Rightarrow>
          let provenance_valid = provenance_is_valid (provenance_current (pe_git_rev penv) (pe_git_dirty penv)) in
          if c_calibrate_only cfg then
            (case calibrate_max_rate fuel (pe_calibration penv) cfg of
               None \<Rightarrow> None
             | Some (Inl e) \<Rightarrow> Some (1, None)
             | Some (Inr own_max) \<Rightarrow>
                 let rp = Some \<lparr>rp_common_max = None, rp_own_max = own_max, rp_loads = []\<rparr> in
                 Some (if output_fails penv cfg then 1 else if \<not> provenance_valid then 3 else 0, rp))
          else
            (case common_max_of fuel penv cfg of
               None \<Rightarrow> None
             | Some (Inl e) \<Rightarrow> Some (1, None)
             | Some (Inr common_max) \<Rightarrow>
                 let own_max = (case c_own_max cfg of None \<Rightarrow> common_max | Some rate \<Rightarrow> as_f64 rate) in
                 if targets cfg common_max = [] then Some (2, None)
                 else (case run_loads fuel penv cfg provenance_valid common_max own_max 0 (targets cfg common_max) of
                         None \<Rightarrow> None
                       | Some (Inl e) \<Rightarrow> Some (1, None)
                       | Some (Inr loads) \<Rightarrow>
                           let rp = Some \<lparr>rp_common_max = Some common_max, rp_own_max = own_max, rp_loads = loads\<rparr> in
                           if \<not> list_all (\<lambda>l. pe_write_samples penv (lr_load_pct l) (lr_samples l)) loads \<or> output_fails penv cfg
                           then Some (1, rp)
                           else Some (if \<not> provenance_valid \<or> \<not> list_all lr_valid_run loads then 3 else 0, rp))))"

section \<open>The calibration handler\<close>

lemma mask_index: "is_power_of_two n \<Longrightarrow> i AND (n - 1) < n"
proof -
  assume "is_power_of_two n"
  then obtain k where "n = 2 ^ k" using count_ones_1D by (auto simp: is_power_of_two_def)
  then have "i AND (n - 1) = take_bit k i" by (simp add: take_bit_eq_mask mask_eq_exp_minus_1)
  with \<open>n = 2 ^ k\<close> show ?thesis by simp
qed

text \<open>
  After \<open>n\<close> events the calibration handler has neither left its scratch area nor panicked, and once a batch
  has ended the main thread sees how many events are done.
\<close>

lemma calibration_step:
  assumes "kh_start h = Some epoch" and "is_power_of_two (length (kh_scratch h))"
    and "retains r (kh_warmup_events h) n (kh_workload h, kh_allocator h)" and "int n < i64_max"
  shows "\<exists>h'. calibration_on_event clk e (int n) b h = (Some (Ok ()), e, h') \<and> kh_start h' = Some epoch \<and>
    length (kh_scratch h') = length (kh_scratch h) \<and> kh_warmup_events h' = kh_warmup_events h \<and>
    retains r (kh_warmup_events h) (Suc n) (kh_workload h', kh_allocator h') \<and>
    kh_processed h' = (if b then Suc n else kh_processed h)"
proof -
  have n: "n < u64_max" using assms(4) by linarith
  obtain wa where wa: "workload_apply n (kh_warmup_events h \<le> n) (kh_workload h, kh_allocator h) = Some wa"
    "retains r (kh_warmup_events h) (Suc n) wa" using retains_step [OF assms(3) n] by blast
  moreover obtain w a where "wa = (w, a)" by (cases wa)
  moreover have "\<not> length (kh_scratch h) \<le> n AND (length (kh_scratch h) - 1)"
    using mask_index [OF assms(2), of n] by simp
  ultimately show ?thesis using assms(1) n by (simp add: calibration_on_event_def Let_def sat_add_u64_def)
qed

section \<open>The offered load is open loop\<close>

lemma spin_sound: "poll fuel (spin_body clock epoch planned) t = Some t1 \<Longrightarrow> t < t1 \<and> planned \<le> clock (t1 - 1) - epoch"
proof -
  assume "poll fuel (spin_body clock epoch planned) t = Some t1"
  then have "\<exists>u. t \<le> u \<and> spin_body clock epoch planned u = Inl t1"
    by (rule poll_inv [where I = "\<lambda>u. t \<le> u"]) (auto simp: spin_body_def split: if_splits)
  then show ?thesis by (auto simp: spin_body_def split: if_splits)
qed

lemma scheduled_ns_value: "scheduled_ns i rate = Inr p \<Longrightarrow> p = i * 1000000000 div rate \<and> p \<le> u64_max"
  by (auto simp: scheduled_ns_def u64_try_from_def split: if_splits)

definition planned_event :: "nat \<Rightarrow> nat \<Rightarrow> latency_event" where
  "planned_event rate i = \<lparr>le_sequence = int i, le_planned_ns = i * 1000000000 div rate\<rparr>"

lemma send_one_sound:
  assumes "send_one fuel env epoch rate i t = Some (Inr (t1, actual, ev))" and "mono (me_clock env)"
  shows "ev = planned_event rate i" "le_planned_ns ev \<le> actual" "t < t1" "actual \<le> u64_or_max (me_clock env t1 - epoch)"
    "u64_or_max (me_clock env t - epoch) \<le> actual"
proof -
  from assms(1) obtain p t0 where p: "scheduled_ns i rate = Inr p" "poll fuel (spin_body (me_clock env) epoch p) t = Some t0"
    "ev = \<lparr>le_sequence = int i, le_planned_ns = p\<rparr>" "t1 = Suc t0" "actual = u64_or_max (me_clock env t0 - epoch)"
    by (auto simp: send_one_def publish_scheduled_def split: sum.splits option.splits)
  note spin = spin_sound [OF p(2)]
  have mono: "me_clock env a - epoch \<le> me_clock env b - epoch" if "a \<le> b" for a b
    using monoD [OF assms(2) that] by simp
  have "p \<le> me_clock env t0 - epoch" using spin mono [of "t0 - 1" t0] by simp
  moreover note scheduled_ns_value [OF p(1)]
  ultimately show "ev = planned_event rate i" "le_planned_ns ev \<le> actual"
    by (auto simp: p(3,5) planned_event_def u64_or_max_def)
  show "t < t1" using spin p(4) by simp
  show "actual \<le> u64_or_max (me_clock env t1 - epoch)" "u64_or_max (me_clock env t - epoch) \<le> actual"
    using mono [of t0 t1] mono [of t t0] spin p(4) by (auto simp: p(5) intro: u64_or_max_mono)
qed

lemma send_all_sound:
  assumes "send_all fuel env epoch rate i n t = Some (Inr (t', sent))" and "mono (me_clock env)"
  shows "map snd sent = map (planned_event rate) [i..<i + n] \<and> list_all (\<lambda>(a, ev). le_planned_ns ev \<le> a) sent \<and>
    sorted (map fst sent) \<and> (\<forall>a\<in>set (map fst sent). u64_or_max (me_clock env t - epoch) \<le> a)"
  using assms(1)
proof (induction n arbitrary: i t t' sent)
  case (Suc n)
  from Suc.prems obtain t1 a ev rest where one: "send_one fuel env epoch rate i t = Some (Inr (t1, a, ev))"
    and rest: "send_all fuel env epoch rate (Suc i) n t1 = Some (Inr (t', rest))" and sent: "sent = (a, ev) # rest"
    by (auto split: option.splits sum.splits)
  note o = send_one_sound [OF one assms(2)]
  have "[i..<i + Suc n] = i # [Suc i..<Suc i + n]" by (simp add: upt_rec)
  with Suc.IH [OF rest] o sent show ?case by fastforce
qed simp


definition example_main_env :: main_env where
  "example_main_env =
     \<lparr>me_ready = \<lambda>_. 1, me_processed = \<lambda>_. 1, me_affinity_failed = \<lambda>_. False, me_clock = \<lambda>t. t, me_wall = \<lambda>_. Some 5,
      me_os = example_os, me_publish = \<lambda>_. Ok (), me_outcome = None\<rparr>"

lemma schedule_unit: "i < 10 \<Longrightarrow> scheduled_ns i 1000000000 = Inr i"
  by (simp add: scheduled_ns_def u64_try_from_def)

lemma send_all_3: "send_all fuel env epoch rate i 3 t = send_all fuel env epoch rate i (Suc (Suc (Suc 0))) t"
  by (simp only: numeral_3_eq_3)


section \<open>What an exit code of zero means\<close>

lemma assess_load_sound:
  assumes "assess_load cfg rate common_max own_max sleep epoch_ns unc sends outcome = Some (Inr l)"
  shows "lr_target_rate l = rate" "length (lr_samples l) = c_events_total cfg - c_warmup_events cfg"
    "lr_rate_valid l = rate_is_valid (lr_actual_rate l) rate"
    "lr_valid_run l \<longleftrightarrow> lr_rate_valid l \<and> lr_workload_valid l \<and> (\<forall>c. lr_pause_check l = Some c \<longrightarrow> pause_is_valid c)"
    "lr_pause_check l = None \<longleftrightarrow> sleep = None"
  using assms
  by (auto simp: assess_load_def Let_def check_pause_def split: if_splits option.splits sum.splits)

lemma run_load_assessed:
  assumes "run_load fuel env cfg rate common_max own_max sleep = Some (Inr l)"
  obtains epoch_ns unc sends outcome where "assess_load cfg rate common_max own_max sleep epoch_ns unc sends outcome = Some (Inr l)"
  using assms by (auto simp: run_load_def Let_def split: option.splits sum.splits prod.splits bool.splits)

definition certified :: "latency_config \<Rightarrow> load_result \<Rightarrow> bool" where
  "certified cfg l \<longleftrightarrow> length (lr_samples l) = c_events_total cfg - c_warmup_events cfg \<and>
     rate_is_valid (lr_actual_rate l) (lr_target_rate l) \<and> lr_workload_valid l \<and>
     (\<forall>c. lr_pause_check l = Some c \<longrightarrow> pause_is_valid c)"

lemma run_loads_sound:
  assumes "run_loads fuel penv cfg pv common_max own_max i ts = Some (Inr loads)"
  shows "map (\<lambda>l. (lr_load_pct l, lr_target_rate l)) loads = ts \<and>
    list_all (\<lambda>l. lr_valid_run l \<longrightarrow> pv \<and> certified cfg l) loads \<and>
    (i + length ts \<le> length (c_inject_sleeps cfg) \<longrightarrow> list_all (\<lambda>l. lr_pause_check l \<noteq> None) loads)"
  using assms
proof (induction ts arbitrary: i loads)
  case (Cons x ts)
  obtain pct rate where x: "x = (pct, rate)" by (cases x)
  define sleep where "sleep = (if i < length (c_inject_sleeps cfg) then Some (c_inject_sleeps cfg ! i) else None)"
  from Cons.prems obtain l ls where run: "run_load fuel (pe_load penv i) cfg rate common_max own_max sleep = Some (Inr l)"
    and rest: "run_loads fuel penv cfg pv common_max own_max (Suc i) ts = Some (Inr ls)"
    and loads: "loads = l\<lparr>lr_load_pct := pct, lr_valid_run := lr_valid_run l \<and> pv\<rparr> # ls"
    unfolding x run_loads.simps Let_def sleep_def [symmetric] by (auto split: option.splits sum.splits)
  from run obtain e u sends out where "assess_load cfg rate common_max own_max sleep e u sends out = Some (Inr l)"
    by (rule run_load_assessed)
  note a = assess_load_sound [OF this]
  have "certified cfg l" if "lr_valid_run l" using a that by (simp add: certified_def)
  then have "lr_valid_run l \<and> pv \<longrightarrow> pv \<and> certified cfg (l\<lparr>lr_load_pct := pct, lr_valid_run := lr_valid_run l \<and> pv\<rparr>)"
    by (simp add: certified_def)
  moreover have "lr_pause_check l \<noteq> None" if "i < length (c_inject_sleeps cfg)" using a(5) that by (auto simp: sleep_def)
  ultimately show ?case using Cons.IH [OF rest] a(1) by (simp add: loads x)
qed simp

lemma targets_positive:
  "c_rate cfg \<noteq> Some 0 \<Longrightarrow> (pct, rate) \<in> set (targets cfg common_max) \<Longrightarrow> 0 < rate"
  by (auto simp: targets_def split: option.splits)

lemma targets_length: "length (targets cfg common_max) \<le> (if c_rate cfg \<noteq> None then 1 else length (c_load_levels cfg))"
  by (auto simp: targets_def intro: le_trans [OF length_filter_le] split: option.splits)

lemma parsed_config:
  assumes "parse_args args = Inr (Some cfg)"
  shows "config_ok cfg" "measures cfg \<Longrightarrow> measured_ok cfg"
  using assms accepted_ok accepted_measured_ok by (auto simp: parse_args_def split: option.splits)

text \<open>
  C26: an exit code of zero certifies the report. If the program ends with exit code zero and a report, the
  command line gave a configuration that keeps all the rules, the binary was built from a clean known
  revision, and in a measurement every target of the configuration, with a positive rate, has a result
  with a sample for every measured event, an actual rate within the threshold and a valid workload; and if
  pauses were configured, every level has a pause and its check succeeded.
\<close>

theorem exit_zero_certifies:
  assumes "tail_main fuel penv args = Some (0, Some rp)"
  shows "\<exists>cfg. parse_args args = Inr (Some cfg) \<and> config_ok cfg \<and>
    provenance_is_valid (provenance_current (pe_git_rev penv) (pe_git_dirty penv)) \<and>
    (measures cfg \<longrightarrow> measured_ok cfg \<and> (\<exists>cm. rp_common_max rp = Some cm \<and> rp_loads rp \<noteq> [] \<and>
       map (\<lambda>l. (lr_load_pct l, lr_target_rate l)) (rp_loads rp) = targets cfg cm \<and>
       (\<forall>l\<in>set (rp_loads rp). 0 < lr_target_rate l \<and> certified cfg l \<and>
          (c_inject_sleeps cfg \<noteq> [] \<longrightarrow> lr_pause_check l \<noteq> None))))"
proof -
  let ?pv = "provenance_is_valid (provenance_current (pe_git_rev penv) (pe_git_dirty penv))"
  obtain cfg where cfg: "parse_args args = Inr (Some cfg)"
    using assms by (auto simp: tail_main_def split: sum.splits option.splits)
  note ok = parsed_config [OF cfg]
  note main = assms [unfolded tail_main_def cfg sum.case option.case Let_def]
  show ?thesis
  proof (cases "c_calibrate_only cfg")
    case True
    with main have ?pv by (auto split: option.splits sum.splits if_splits)
    with cfg ok True show ?thesis by (auto simp: measures_def)
  next
    case False
    with main obtain cm where cm: "common_max_of fuel penv cfg = Some (Inr cm)" by (auto split: option.splits sum.splits)
    note main = main [unfolded cm option.case sum.case]
    from main False obtain own loads where run: "run_loads fuel penv cfg ?pv cm own 0 (targets cfg cm) = Some (Inr loads)"
      and rp: "rp = \<lparr>rp_common_max = Some cm, rp_own_max = own, rp_loads = loads\<rparr>"
      and valid: ?pv "list_all lr_valid_run loads" and ne: "targets cfg cm \<noteq> []"
      by (auto split: option.splits sum.splits if_splits)
    note s = run_loads_sound [OF run]
    have mok: "measured_ok cfg" using ok(2) False by (simp add: measures_def)
    have rates: "0 < lr_target_rate l" if "l \<in> set loads" for l
    proof -
      have "(lr_load_pct l, lr_target_rate l) \<in> set (targets cfg cm)" using s that by (metis (mono_tags) image_eqI set_map)
      then show ?thesis by (rule targets_positive [rotated]) (use ok(1) in \<open>simp add: config_ok_def\<close>)
    qed
    have "length (targets cfg cm) \<le> length (c_inject_sleeps cfg)" if "c_inject_sleeps cfg \<noteq> []"
      using mok that targets_length [of cfg cm] by (simp add: measured_ok_def split: if_splits)
    with s valid rates have each: "0 < lr_target_rate l \<and> certified cfg l \<and> (c_inject_sleeps cfg \<noteq> [] \<longrightarrow> lr_pause_check l \<noteq> None)"
      if "l \<in> set loads" for l using that by (auto simp: list_all_iff)
    have "loads \<noteq> []" using s ne by auto
    with cfg ok(1) mok valid(1) s each show ?thesis by (intro exI [of _ cfg]) (simp add: rp)
  qed
qed

text \<open>A calibration run of one event.\<close>

definition example_args :: "string list" where
  "example_args = [''--calibrate-only'', ''--warmup-events'', ''0'', ''--calibration-events'', ''1'', ''--calibration-duration-ms'', ''1'']"

definition example_cal_opts :: latency_opts where
  "example_cal_opts = latency_opts_init\<lparr>o_calibrate_only := True, o_warmup_events := Some 0, o_calibration_events := Some 1,
     o_calibration_duration_ms := Some 1\<rparr>"

definition example_program :: program_env where
  "example_program =
     \<lparr>pe_git_rev = Some (replicate 40 (CHR ''a'')), pe_git_dirty = Some ''false'', pe_calibration = example_main_env,
      pe_load = \<lambda>_. example_main_env, pe_write_samples = \<lambda>_ _. True, pe_write_output = \<lambda>_. True\<rparr>"

lemma example_parsed: "parse_args example_args = Inr (Some (config_of example_cal_opts))"
proof -
  have digits: "to_digit CHR ''0'' = Some 0" "to_digit CHR ''1'' = Some 1" by (simp_all add: to_digit_def)
  have flags: "parse_flags latency_opts_init example_args = Inr (Some example_cal_opts)"
    by (simp add: example_args_def value_flag_def parse_number_def drop_underscores_def digits example_cal_opts_def latency_opts_init_def)
  have "is_power_of_two 65536" using count_ones_pow2 [of 16] by (simp add: is_power_of_two_def)
  then have "config_from example_cal_opts = Inr (config_of example_cal_opts)"
    by (simp add: config_from_def check_counts_def check_levels_def check_modes_def example_cal_opts_def latency_opts_init_def
        opt_events_total_def opt_warmup_events_def opt_calibration_events_def or_default_def quick_min_def calibration_warmup_def Let_def)
  with flags show ?thesis by (simp add: parse_args_def)
qed

lemma round_f64_pos: "0 < x \<Longrightarrow> 0 < round_f64 x"
  using round_pos_nonneg [of x] by (simp add: round_f64_def)

lemma as_secs_pos: "0 < ns \<Longrightarrow> ns < 1000000000 \<Longrightarrow> 0 < as_secs_f64 ns"
proof -
  assume "0 < ns" "ns < 1000000000"
  then have "0 < round_f64 (as_f64 ns / 1000000000)" unfolding as_f64_def by (intro round_f64_pos divide_pos_pos) simp_all
  moreover have "as_f64 0 = 0" by (simp add: as_f64_exact)
  ultimately show ?thesis using \<open>ns < 1000000000\<close> by (simp add: as_secs_f64_def f64_defs)
qed

lemma example_calibrates: "\<exists>r. calibrate_max_rate 9 example_main_env (config_of example_cal_opts) = Some (Inr r)"
proof -
  let ?cfg = "config_of example_cal_opts"
  have cfg: "c_timeout ?cfg = 300000000000" "c_cpu_list ?cfg = []" "calibration_warmup_events ?cfg = 0" "c_calibration_events ?cfg = 1"
    "c_calibration_duration ?cfg = 1000000"
    by (simp_all add: config_of_def example_cal_opts_def latency_opts_init_def calibration_warmup_events_def calibration_warmup_def
        opt_warmup_events_def opt_calibration_events_def or_default_def quick_min_def)
  have sched: "scheduled_ns 0 rate = Inr 0" for rate by (simp add: scheduled_ns_def u64_try_from_def)
  have "as_secs_f64 4 \<noteq> 0" using as_secs_pos [of 4] by simp
  then show ?thesis
    by (simp add: calibrate_max_rate_def start_up_def wait_count_def wait_body_def poll_numeral example_main_env_def cfg
        pin_current_thread_def config_cpu_def publish_scheduled_def sched Let_def)
qed

theorem exit_zero_certifies_witness:
  "\<exists>rp cfg. tail_main 9 example_program example_args = Some (0, Some rp) \<and> parse_args example_args = Inr (Some cfg) \<and>
     config_ok cfg \<and> provenance_is_valid (provenance_current (pe_git_rev example_program) (pe_git_dirty example_program))"
proof -
  have pv: "provenance_is_valid (provenance_current (pe_git_rev example_program) (pe_git_dirty example_program))"
    by (simp add: provenance_is_valid_def provenance_current_def example_program_def list_all_length is_ascii_hexdigit_def)
  have mode: "c_calibrate_only (config_of example_cal_opts)" "\<not> output_fails example_program (config_of example_cal_opts)"
    by (simp_all add: config_of_def example_cal_opts_def output_fails_def latency_opts_init_def)
  have env: "pe_calibration example_program = example_main_env" by (simp add: example_program_def)
  obtain rp where run: "tail_main 9 example_program example_args = Some (0, Some rp)"
    using example_calibrates mode pv by (auto simp: tail_main_def example_parsed env Let_def)
  from exit_zero_certifies [OF run] run show ?thesis by blast
qed

end
