(* ===== verification/Latency_Json.thy ===== *)
theory Latency_Json
  imports Json_Text Latency_Run
begin

text \<open>
  The files the tail-latency program writes (\<open>src/bin/h2h_tail_latency.rs\<close>): the JSON report of
  \<open>write_result\<close> and the table of samples of \<open>write_samples\<close>, with the values they are read back as.
\<close>

section \<open>The report\<close>

definition opt_nat_text :: "nat option \<Rightarrow> string" where
  "opt_nat_text v = (case v of Some n \<Rightarrow> show_nat n | None \<Rightarrow> ''null'')"

definition write_settings :: "latency_config \<Rightarrow> f64 option \<Rightarrow> f64 \<Rightarrow> writer list" where
  "write_settings cfg common_max own_max =
     [field_line 2 ''impl'' (quoted ''badbatch-builder-tail-latency'') True,
      field_line 2 ''language'' (quoted ''rust'') True,
      field_line 2 ''run_mode'' (quoted (if c_calibrate_only cfg then ''calibration'' else ''measurement'')) True,
      field_line 2 ''scenario'' (quoted ''unicast_tail_latency'') True,
      field_line 2 ''arrival_model'' (quoted ''open_loop_fixed_schedule'') True,
      field_line 2 ''latency_origin'' (quoted ''planned_send_time'') True,
      list_line 2 ''raw_sample_columns'' (map quoted [''sequence'', ''planned_ns'', ''completion_ns'', ''latency_ns'']) True,
      field_line 2 ''wait_strategy'' (quoted (wait_kind_as_str (c_wait cfg))) True,
      field_line 2 ''event_padding'' (quoted (pad_as_str (c_pad cfg))) True,
      field_line 2 ''handler_mode'' (quoted (handler_kind_as_str (c_handler_mode cfg))) True,
      field_line 2 ''retention_window'' (opt_nat_text (c_retention_window cfg)) True,
      field_line 2 ''logical_payload_bytes'' (show_nat LOGICAL_PAYLOAD_BYTES) True,
      field_line 2 ''allocation_payload_bytes'' (show_nat ALLOCATION_PAYLOAD_BYTES) True,
      field_line 2 ''api_path'' (quoted ''builder'') True,
      field_line 2 ''buffer_size'' (show_nat (c_buffer_size cfg)) True,
      field_line 2 ''events_total'' (show_nat (c_events_total cfg)) True,
      field_line 2 ''warmup_events'' (show_nat (c_warmup_events cfg)) True,
      field_line 2 ''calibration_warmup_events'' (show_nat (calibration_warmup_events cfg)) True,
      field_line 2 ''calibration_events_limit'' (show_nat (c_calibration_events cfg)) True,
      field_line 2 ''calibration_duration_ms'' (show_nat (c_calibration_duration cfg div 1000000)) True,
      field_line 2 ''max_rate'' (show_fixed 6 (case common_max of None \<Rightarrow> own_max | Some m \<Rightarrow> m)) True,
      field_line 2 ''own_max'' (show_fixed 6 own_max) True,
      field_line 2 ''common_max'' (case common_max of Some m \<Rightarrow> show_fixed 6 m | None \<Rightarrow> ''null'') True,
      field_line 2 ''minimum_actual_target_ratio'' (show_fixed 6 VALID_RUN_THRESHOLD) True,
      list_line 2 ''inject_sleep_us_by_load'' (map (\<lambda>ns. show_nat (ns div 1000)) (c_inject_sleeps cfg)) True,
      field_line 2 ''inject_at_measured_pct'' (show_nat (c_inject_at_measured_pct cfg)) True]"

definition write_provenance :: "build_provenance \<Rightarrow> load_result list \<Rightarrow> writer list" where
  "write_provenance p loads =
     [field_line 2 ''provenance_source'' (quoted ''build_time'') True,
      field_line 2 ''provenance_valid'' (show_bool (provenance_is_valid p)) True,
      field_line 2 ''git_rev'' (quoted (git_rev p)) True,
      field_line 2 ''dirty'' (dirty_json p) True,
      field_line 2 ''harness_git_rev'' (quoted (git_rev p)) True,
      field_line 2 ''harness_git_dirty'' (dirty_json p) True,
      field_line 2 ''implementation_git_rev'' (quoted (git_rev p)) True,
      field_line 2 ''implementation_git_dirty'' (dirty_json p) True,
      field_line 2 ''artifact_valid'' (show_bool (provenance_is_valid p \<and> list_all lr_valid_run loads)) True]"

definition write_cpu_affinity :: "latency_config \<Rightarrow> bool \<Rightarrow> writer" where
  "write_cpu_affinity cfg affinity_failed = write_all
     ([head_line 2 ''cpu_affinity'' CHR ''{'',
       list_line 4 ''requested_cpu_list'' (map show_nat (c_cpu_list cfg)) True,
       field_line 4 ''mode'' (quoted (if c_cpu_list cfg = [] then ''none'' else ''per-thread'')) True,
       field_line 4 ''verified_all'' (show_bool (affinity_verified_all cfg affinity_failed)) True,
       head_line 4 ''role_cpu_map'' CHR ''{''] @
      (if 2 \<le> length (c_cpu_list cfg)
       then [field_line 6 ''producer'' (show_nat (c_cpu_list cfg ! 0)) True, field_line 6 ''consumer'' (show_nat (c_cpu_list cfg ! 1)) False]
       else []) @
      [text_line 4 ''}'', text_line 2 ''},''])"

definition write_pause :: "pause_check \<Rightarrow> writer" where
  "write_pause c = write_all
     [head_line 6 ''pause_validation'' CHR ''{'',
      field_line 8 ''requested_sleep_ns'' (show_nat (requested_sleep_ns c)) True,
      field_line 8 ''observed_sleep_ns'' (show_nat (observed_sleep_ns c)) True,
      field_line 8 ''injection_sequence'' (show_nat (injection_sequence c)) True,
      field_line 8 ''expected_backlog_samples'' (show_nat (expected_backlog_samples c)) True,
      field_line 8 ''injection_planned_ns'' (show_nat (injection_planned_ns c)) True,
      field_line 8 ''pause_started_ns'' (show_nat (pause_started_ns c)) True,
      field_line 8 ''pause_completed_ns'' (show_nat (pause_completed_ns c)) True,
      field_line 8 ''expected_affected_samples'' (show_nat (expected_affected_samples c)) True,
      field_line 8 ''sample_count'' (show_nat (sample_count c)) True,
      field_line 8 ''minimum_affected_samples'' (show_nat (minimum_affected_samples c)) True,
      field_line 8 ''maximum_affected_samples'' (show_nat (maximum_affected_samples c)) True,
      field_line 8 ''affected_in_range'' (show_bool (affected_in_range c)) True,
      field_line 8 ''load_fraction'' (show_fixed 9 (load_fraction c)) True,
      field_line 8 ''minimum_drain_ns'' (show_nat (minimum_drain_ns c)) True,
      field_line 8 ''remaining_planned_ns_after_pause'' (show_nat (remaining_planned_ns_after_pause c)) True,
      field_line 8 ''drain_allowance_met'' (show_bool (drain_allowance_met c)) True,
      field_line 8 ''double_drain_allowance_met'' (show_bool (double_drain_allowance_met c)) True,
      field_line 8 ''p99.9_visible'' (show_bool (p99_9_visible c)) True,
      field_line 8 ''max_visible'' (show_bool (max_visible c)) True,
      field_line 8 ''valid'' (show_bool (pause_is_valid c)) False,
      text_line 6 ''},'']"

definition allocation_bytes_per_event :: "workload_stats \<Rightarrow> f64" where
  "allocation_bytes_per_event w =
     (if allocations (counters w) = 0 then 0 else div_f64 (as_f64 (allocated_bytes (counters w))) (as_f64 (allocations (counters w))))"

definition retention_seconds :: "latency_config \<Rightarrow> load_result \<Rightarrow> f64" where
  "retention_seconds cfg l = (case c_retention_window cfg of None \<Rightarrow> 0 | Some window \<Rightarrow> div_f64 (as_f64 window) (as_f64 (lr_target_rate l)))"

definition logical_live_bytes :: "workload_stats \<Rightarrow> nat" where
  "logical_live_bytes w = sat_mul_u64 (u64_or_max (retained_objects w)) LOGICAL_PAYLOAD_BYTES"

definition write_workload :: "latency_config \<Rightarrow> load_result \<Rightarrow> writer" where
  "write_workload cfg l = (let w = lr_workload l in write_all
     [head_line 6 ''workload'' CHR ''{'',
      field_line 8 ''mode'' (quoted (handler_kind_as_str (c_handler_mode cfg))) True,
      field_line 8 ''retention_window'' (opt_nat_text (c_retention_window cfg)) True,
      field_line 8 ''retention_seconds'' (show_fixed 9 (retention_seconds cfg l)) True,
      field_line 8 ''logical_payload_bytes'' (show_nat LOGICAL_PAYLOAD_BYTES) True,
      field_line 8 ''allocation_payload_bytes'' (show_nat ALLOCATION_PAYLOAD_BYTES) True,
      field_line 8 ''runtime_or_matching_overhead_bytes'' (show_nat (ALLOCATION_PAYLOAD_BYTES - LOGICAL_PAYLOAD_BYTES)) True,
      field_line 8 ''allocations'' (show_nat (allocations (counters w))) True,
      field_line 8 ''allocated_bytes'' (show_nat (allocated_bytes (counters w))) True,
      field_line 8 ''allocation_bytes_per_event'' (show_fixed 6 (allocation_bytes_per_event w)) True,
      field_line 8 ''deallocations'' (show_nat (deallocations (counters w))) True,
      field_line 8 ''deallocated_bytes'' (show_nat (deallocated_bytes (counters w))) True,
      field_line 8 ''retained_objects'' (show_nat (retained_objects w)) True,
      field_line 8 ''estimated_logical_live_bytes'' (show_nat (logical_live_bytes w)) True,
      field_line 8 ''observed_allocated_live_bytes'' (show_nat (retained_live_bytes w)) True,
      field_line 8 ''retained_checksum'' (show_nat (retained_checksum w)) True,
      field_line 8 ''valid'' (show_bool (lr_workload_valid l)) False,
      text_line 6 ''},''])"

definition write_latency :: "latency_stats \<Rightarrow> writer" where
  "write_latency st = write_all
     [head_line 6 ''latency_ns'' CHR ''{'',
      field_line 8 ''count'' (show_nat (st_count st)) True,
      field_line 8 ''mean'' (show_fixed 6 (st_mean st)) True,
      field_line 8 ''min'' (show_fixed 6 (st_min st)) True,
      field_line 8 ''p50'' (show_fixed 6 (st_p50 st)) True,
      field_line 8 ''p99'' (show_fixed 6 (st_p99 st)) True,
      field_line 8 ''p99.9'' (show_fixed 6 (st_p99_9 st)) True,
      field_line 8 ''p99.99'' (show_fixed 6 (st_p99_99 st)) True,
      field_line 8 ''max'' (show_fixed 6 (st_max st)) False,
      text_line 6 ''}'']"

definition write_rates :: "load_result \<Rightarrow> writer list" where
  "write_rates l =
     [field_line 6 ''load_pct'' (show_nat (lr_load_pct l)) True,
      field_line 6 ''target_rate'' (show_nat (lr_target_rate l)) True,
      field_line 6 ''own_max'' (show_fixed 6 (lr_own_max l)) True,
      field_line 6 ''own_utilization'' (show_fixed 9 (lr_own_utilization l)) True,
      field_line 6 ''actual_rate'' (show_fixed 6 (lr_actual_rate l)) True,
      field_line 6 ''actual_target_ratio'' (show_fixed 6 (div_f64 (lr_actual_rate l) (as_f64 (lr_target_rate l)))) True,
      field_line 6 ''rate_valid'' (show_bool (lr_rate_valid l)) True,
      field_line 6 ''workload_valid'' (show_bool (lr_workload_valid l)) True,
      field_line 6 ''valid_run'' (show_bool (lr_valid_run l)) True,
      field_line 6 ''measurement_epoch_unix_ns'' (show_nat (lr_measurement_epoch_unix_ns l)) True,
      field_line 6 ''clock_anchor_uncertainty_ns'' (show_nat (lr_clock_anchor_uncertainty_ns l)) True]"

definition write_load :: "latency_config \<Rightarrow> bool \<Rightarrow> load_result \<times> latency_stats \<Rightarrow> writer" where
  "write_load cfg final = (\<lambda>(l, st). write_all
     ([text_line 4 ''{'', write_all (write_rates l)] @
      (case lr_pause_check l of None \<Rightarrow> [] | Some check \<Rightarrow> [write_pause check]) @
      [write_workload cfg l, write_latency st, text_line 4 (if final then ''}'' else ''},'')]))"

definition latency_report ::
    "latency_config \<Rightarrow> bool \<Rightarrow> f64 option \<Rightarrow> f64 \<Rightarrow> (load_result \<times> latency_stats) list \<Rightarrow> build_provenance \<Rightarrow> writer" where
  "latency_report cfg affinity_failed common_max own_max loads p = write_all
     [text_line 0 ''{'',
      write_all (write_settings cfg common_max own_max),
      write_all (write_provenance p (map fst loads)),
      write_cpu_affinity cfg affinity_failed,
      head_line 2 ''loads'' CHR ''['',
      write_each (write_load cfg) loads,
      text_line 2 '']'',
      text_line 0 ''}'']"

text \<open>\<open>None\<close> is the failed assertion of a percentile.\<close>

definition latency_write_result ::
    "latency_config \<Rightarrow> bool \<Rightarrow> f64 option \<Rightarrow> f64 \<Rightarrow> load_result list \<Rightarrow> build_provenance \<Rightarrow> string option" where
  "latency_write_result cfg affinity_failed common_max own_max loads p =
     map_option (\<lambda>stats. latency_report cfg affinity_failed common_max own_max (zip loads stats) p [])
       (those (map (\<lambda>l. compute_stats (lr_samples l)) loads))"

section \<open>The table of samples\<close>

definition sample_line :: "latency_sample \<Rightarrow> string" where
  "sample_line x =
     show_nat (ls_sequence x) @ '','' @ show_nat (ls_planned_ns x) @ '','' @ show_nat (ls_completion_ns x) @ '','' @
     show_nat (ls_latency_ns x) @ [newline]"

definition write_samples :: "latency_sample list \<Rightarrow> string" where
  "write_samples samples = ''sequence,planned_ns,completion_ns,latency_ns'' @ [newline] @ concat (map sample_line samples)"

section \<open>What the files say\<close>

definition settings_value :: "latency_config \<Rightarrow> f64 option \<Rightarrow> f64 \<Rightarrow> (string \<times> json) list" where
  "settings_value cfg common_max own_max =
     [(''impl'', JString ''badbatch-builder-tail-latency''),
      (''language'', JString ''rust''),
      (''run_mode'', JString (if c_calibrate_only cfg then ''calibration'' else ''measurement'')),
      (''scenario'', JString ''unicast_tail_latency''),
      (''arrival_model'', JString ''open_loop_fixed_schedule''),
      (''latency_origin'', JString ''planned_send_time''),
      (''raw_sample_columns'', JArray (map JString [''sequence'', ''planned_ns'', ''completion_ns'', ''latency_ns''])),
      (''wait_strategy'', JString (wait_kind_as_str (c_wait cfg))),
      (''event_padding'', JString (pad_as_str (c_pad cfg))),
      (''handler_mode'', JString (handler_kind_as_str (c_handler_mode cfg))),
      (''retention_window'', jopt jnat (c_retention_window cfg)),
      (''logical_payload_bytes'', jnat LOGICAL_PAYLOAD_BYTES),
      (''allocation_payload_bytes'', jnat ALLOCATION_PAYLOAD_BYTES),
      (''api_path'', JString ''builder''),
      (''buffer_size'', jnat (c_buffer_size cfg)),
      (''events_total'', jnat (c_events_total cfg)),
      (''warmup_events'', jnat (c_warmup_events cfg)),
      (''calibration_warmup_events'', jnat (calibration_warmup_events cfg)),
      (''calibration_events_limit'', jnat (c_calibration_events cfg)),
      (''calibration_duration_ms'', jnat (c_calibration_duration cfg div 1000000)),
      (''max_rate'', jfloat 6 (case common_max of None \<Rightarrow> own_max | Some m \<Rightarrow> m)),
      (''own_max'', jfloat 6 own_max),
      (''common_max'', jopt (jfloat 6) common_max),
      (''minimum_actual_target_ratio'', jfloat 6 VALID_RUN_THRESHOLD),
      (''inject_sleep_us_by_load'', JArray (map (\<lambda>ns. jnat (ns div 1000)) (c_inject_sleeps cfg))),
      (''inject_at_measured_pct'', jnat (c_inject_at_measured_pct cfg))]"

definition provenance_value :: "build_provenance \<Rightarrow> load_result list \<Rightarrow> (string \<times> json) list" where
  "provenance_value p loads =
     [(''provenance_source'', JString ''build_time''),
      (''provenance_valid'', JBool (provenance_is_valid p)),
      (''git_rev'', JString (git_rev p)),
      (''dirty'', jopt JBool (dirty p)),
      (''harness_git_rev'', JString (git_rev p)),
      (''harness_git_dirty'', jopt JBool (dirty p)),
      (''implementation_git_rev'', JString (git_rev p)),
      (''implementation_git_dirty'', jopt JBool (dirty p)),
      (''artifact_valid'', JBool (provenance_is_valid p \<and> list_all lr_valid_run loads))]"

definition cpu_affinity_value :: "latency_config \<Rightarrow> bool \<Rightarrow> json" where
  "cpu_affinity_value cfg affinity_failed = JObject
     [(''requested_cpu_list'', JArray (map jnat (c_cpu_list cfg))),
      (''mode'', JString (if c_cpu_list cfg = [] then ''none'' else ''per-thread'')),
      (''verified_all'', JBool (affinity_verified_all cfg affinity_failed)),
      (''role_cpu_map'', JObject
        (if 2 \<le> length (c_cpu_list cfg) then [(''producer'', jnat (c_cpu_list cfg ! 0)), (''consumer'', jnat (c_cpu_list cfg ! 1))] else []))]"

definition pause_value :: "pause_check \<Rightarrow> json" where
  "pause_value c = JObject
     [(''requested_sleep_ns'', jnat (requested_sleep_ns c)),
      (''observed_sleep_ns'', jnat (observed_sleep_ns c)),
      (''injection_sequence'', jnat (injection_sequence c)),
      (''expected_backlog_samples'', jnat (expected_backlog_samples c)),
      (''injection_planned_ns'', jnat (injection_planned_ns c)),
      (''pause_started_ns'', jnat (pause_started_ns c)),
      (''pause_completed_ns'', jnat (pause_completed_ns c)),
      (''expected_affected_samples'', jnat (expected_affected_samples c)),
      (''sample_count'', jnat (sample_count c)),
      (''minimum_affected_samples'', jnat (minimum_affected_samples c)),
      (''maximum_affected_samples'', jnat (maximum_affected_samples c)),
      (''affected_in_range'', JBool (affected_in_range c)),
      (''load_fraction'', jfloat 9 (load_fraction c)),
      (''minimum_drain_ns'', jnat (minimum_drain_ns c)),
      (''remaining_planned_ns_after_pause'', jnat (remaining_planned_ns_after_pause c)),
      (''drain_allowance_met'', JBool (drain_allowance_met c)),
      (''double_drain_allowance_met'', JBool (double_drain_allowance_met c)),
      (''p99.9_visible'', JBool (p99_9_visible c)),
      (''max_visible'', JBool (max_visible c)),
      (''valid'', JBool (pause_is_valid c))]"

definition workload_value :: "latency_config \<Rightarrow> load_result \<Rightarrow> json" where
  "workload_value cfg l = (let w = lr_workload l in JObject
     [(''mode'', JString (handler_kind_as_str (c_handler_mode cfg))),
      (''retention_window'', jopt jnat (c_retention_window cfg)),
      (''retention_seconds'', jfloat 9 (retention_seconds cfg l)),
      (''logical_payload_bytes'', jnat LOGICAL_PAYLOAD_BYTES),
      (''allocation_payload_bytes'', jnat ALLOCATION_PAYLOAD_BYTES),
      (''runtime_or_matching_overhead_bytes'', jnat (ALLOCATION_PAYLOAD_BYTES - LOGICAL_PAYLOAD_BYTES)),
      (''allocations'', jnat (allocations (counters w))),
      (''allocated_bytes'', jnat (allocated_bytes (counters w))),
      (''allocation_bytes_per_event'', jfloat 6 (allocation_bytes_per_event w)),
      (''deallocations'', jnat (deallocations (counters w))),
      (''deallocated_bytes'', jnat (deallocated_bytes (counters w))),
      (''retained_objects'', jnat (retained_objects w)),
      (''estimated_logical_live_bytes'', jnat (logical_live_bytes w)),
      (''observed_allocated_live_bytes'', jnat (retained_live_bytes w)),
      (''retained_checksum'', jnat (retained_checksum w)),
      (''valid'', JBool (lr_workload_valid l))])"

definition latency_value :: "latency_stats \<Rightarrow> json" where
  "latency_value st = JObject
     [(''count'', jnat (st_count st)),
      (''mean'', jfloat 6 (st_mean st)),
      (''min'', jfloat 6 (st_min st)),
      (''p50'', jfloat 6 (st_p50 st)),
      (''p99'', jfloat 6 (st_p99 st)),
      (''p99.9'', jfloat 6 (st_p99_9 st)),
      (''p99.99'', jfloat 6 (st_p99_99 st)),
      (''max'', jfloat 6 (st_max st))]"

definition rates_value :: "load_result \<Rightarrow> (string \<times> json) list" where
  "rates_value l =
     [(''load_pct'', jnat (lr_load_pct l)),
      (''target_rate'', jnat (lr_target_rate l)),
      (''own_max'', jfloat 6 (lr_own_max l)),
      (''own_utilization'', jfloat 9 (lr_own_utilization l)),
      (''actual_rate'', jfloat 6 (lr_actual_rate l)),
      (''actual_target_ratio'', jfloat 6 (div_f64 (lr_actual_rate l) (as_f64 (lr_target_rate l)))),
      (''rate_valid'', JBool (lr_rate_valid l)),
      (''workload_valid'', JBool (lr_workload_valid l)),
      (''valid_run'', JBool (lr_valid_run l)),
      (''measurement_epoch_unix_ns'', jnat (lr_measurement_epoch_unix_ns l)),
      (''clock_anchor_uncertainty_ns'', jnat (lr_clock_anchor_uncertainty_ns l))]"

definition load_value :: "latency_config \<Rightarrow> load_result \<times> latency_stats \<Rightarrow> json" where
  "load_value cfg = (\<lambda>(l, st). JObject
     (rates_value l @ (case lr_pause_check l of None \<Rightarrow> [] | Some check \<Rightarrow> [(''pause_validation'', pause_value check)]) @
      [(''workload'', workload_value cfg l), (''latency_ns'', latency_value st)]))"

definition report_value ::
    "latency_config \<Rightarrow> bool \<Rightarrow> f64 option \<Rightarrow> f64 \<Rightarrow> (load_result \<times> latency_stats) list \<Rightarrow> build_provenance \<Rightarrow> json" where
  "report_value cfg affinity_failed common_max own_max loads p = JObject
     (settings_value cfg common_max own_max @ provenance_value p (map fst loads) @
      [(''cpu_affinity'', cpu_affinity_value cfg affinity_failed), (''loads'', JArray (map (load_value cfg) loads))])"

section \<open>Reading the report back\<close>

lemma writes_optional:
  "list_all plain_char key \<Longrightarrow> writes (field_line n key (opt_nat_text v) b) (Str key # Colon # json_tokens (jopt jnat v) @ comma_if b)"
  "list_all plain_char key \<Longrightarrow> writes (field_line n key (case m of Some x \<Rightarrow> show_fixed 6 x | None \<Rightarrow> ''null'') b)
     (Str key # Colon # json_tokens (jopt (jfloat 6) m) @ comma_if b)"
  "list_all plain_char key \<Longrightarrow> writes (field_line n key (dirty_json p) b) (Str key # Colon # json_tokens (jopt JBool (dirty p)) @ comma_if b)"
proof -
  assume key: "list_all plain_char key"
  note member = writes_atom_member [OF key]
  show "writes (field_line n key (opt_nat_text v) b) (Str key # Colon # json_tokens (jopt jnat v) @ comma_if b)"
    unfolding opt_nat_text_def jopt_def by (cases v; simp only: option.case) (rule member)+
  show "writes (field_line n key (case m of Some x \<Rightarrow> show_fixed 6 x | None \<Rightarrow> ''null'') b)
     (Str key # Colon # json_tokens (jopt (jfloat 6) m) @ comma_if b)"
    unfolding jopt_def by (cases m; simp only: option.case) (rule member, rule member, simp)
  have "dirty_json p = (case dirty p of None \<Rightarrow> ''null'' | Some c \<Rightarrow> show_bool c)"
    by (simp add: dirty_json_def show_bool_def split: option.split bool.split)
  then show "writes (field_line n key (dirty_json p) b) (Str key # Colon # json_tokens (jopt JBool (dirty p)) @ comma_if b)"
    unfolding jopt_def by (cases "dirty p"; simp only: option.case) (rule member)+
qed

lemma writes_sleeps:
  "list_all plain_char key \<Longrightarrow> writes (list_line n key (map (\<lambda>ns. show_nat (ns div 1000)) xs) b)
     (Str key # Colon # json_tokens (JArray (map (\<lambda>ns. jnat (ns div 1000)) xs)) @ comma_if b)"
  using writes_nat_list [of key n "map (\<lambda>ns. ns div 1000) xs" b] by (simp add: comp_def)

lemma modes_plain:
  "list_all plain_char (handler_kind_as_str hk)" "list_all plain_char (if a then ''calibration'' else ''measurement'')"
  "list_all plain_char (if a then ''none'' else ''per-thread'')"
  by (cases hk) (simp_all add: plain_char_def)

lemmas member_writes = writes_Nil writes_Cons writes_atom_member writes_optional modes_plain kinds_plain

lemma write_settings_writes:
  "writes (write_all (write_settings cfg common_max own_max)) (member_tokens (settings_value cfg common_max own_max) @ [Comma])"
  unfolding write_settings_def
  by (rule writes_eq, (rule member_writes writes_string_list writes_sleeps | (simp add: plain_char_def; fail))+) (simp add: settings_value_def)

lemma write_provenance_writes:
  assumes "list_all plain_char (git_rev p)"
  shows "writes (write_all (write_provenance p loads)) (member_tokens (provenance_value p loads) @ [Comma])"
  unfolding write_provenance_def
  by (rule writes_eq, (rule member_writes assms | (simp add: plain_char_def; fail))+) (simp add: provenance_value_def)

lemma write_cpu_affinity_writes:
  "writes (write_cpu_affinity cfg f) (Str ''cpu_affinity'' # Colon # json_tokens (cpu_affinity_value cfg f) @ [Comma])"
proof (cases "2 \<le> length (c_cpu_list cfg)")
  case True
  show ?thesis unfolding write_cpu_affinity_def if_P [OF True] append.simps
    by (rule writes_eq, (rule member_writes writes_head writes_text writes_nat_list | (simp add: plain_char_def; fail))+)
       (simp add: cpu_affinity_value_def True)
next
  case False
  show ?thesis unfolding write_cpu_affinity_def if_not_P [OF False] append.simps
    by (rule writes_eq, (rule member_writes writes_head writes_text writes_nat_list | (simp add: plain_char_def; fail))+)
       (simp add: cpu_affinity_value_def False)
qed

lemma write_pause_writes: "writes (write_pause c) (Str ''pause_validation'' # Colon # json_tokens (pause_value c) @ [Comma])"
  unfolding write_pause_def
  by (rule writes_eq, (rule member_writes writes_head writes_text | (simp add: plain_char_def; fail))+) (simp add: pause_value_def)

lemma write_workload_writes: "writes (write_workload cfg l) (Str ''workload'' # Colon # json_tokens (workload_value cfg l) @ [Comma])"
  unfolding write_workload_def Let_def
  by (rule writes_eq, (rule member_writes writes_head writes_text | (simp add: plain_char_def; fail))+) (simp add: workload_value_def Let_def)

lemma write_latency_writes: "writes (write_latency st) (Str ''latency_ns'' # Colon # json_tokens (latency_value st))"
  unfolding write_latency_def
  by (rule writes_eq, (rule member_writes writes_head writes_text | (simp add: plain_char_def; fail))+) (simp add: latency_value_def)

lemma write_rates_writes: "writes (write_all (write_rates l)) (member_tokens (rates_value l) @ [Comma])"
  unfolding write_rates_def
  by (rule writes_eq, (rule member_writes | (simp add: plain_char_def; fail))+) (simp add: rates_value_def)

lemma write_load_writes: "writes (write_load cfg final x) (json_tokens (load_value cfg x) @ comma_if (\<not> final))"
proof (cases x)
  case (Pair l st)
  have rates: "rates_value l \<noteq> []" by (simp add: rates_value_def)
  note parts = writes_Nil writes_Cons writes_text writes_last write_rates_writes write_pause_writes write_workload_writes write_latency_writes
  show ?thesis
  proof (cases "lr_pause_check l")
    case None
    show ?thesis unfolding write_load_def Pair prod.case None option.case append.simps
      by (rule writes_eq, (rule parts)+) (simp add: load_value_def None member_tokens_append rates)
  next
    case (Some check)
    show ?thesis unfolding write_load_def Pair prod.case Some option.case append.simps
      by (rule writes_eq, (rule parts)+) (simp add: load_value_def Some member_tokens_append rates)
  qed
qed

lemma latency_report_writes:
  assumes "list_all plain_char (git_rev p)"
  shows "writes (latency_report cfg f common_max own_max loads p) (json_tokens (report_value cfg f common_max own_max loads p))"
proof -
  have lists: "settings_value cfg common_max own_max \<noteq> []" "provenance_value p (map fst loads) \<noteq> []"
    by (simp_all add: settings_value_def provenance_value_def)
  show ?thesis unfolding latency_report_def
    by (rule writes_eq, (rule writes_intros write_settings_writes write_provenance_writes [OF assms] write_cpu_affinity_writes write_load_writes |
        (simp add: plain_char_def; fail))+)
       (simp add: report_value_def member_tokens_append lists)
qed

lemma those_total:
  assumes "\<And>x. \<exists>y. f x = Some y"
  shows "those (map f xs) = Some (map (\<lambda>x. the (f x)) xs)"
proof -
  have "f x = Some (the (f x))" for x using assms [of x] by auto
  then have "f = (\<lambda>x. Some (the (f x)))" by blast
  moreover have "those (map (\<lambda>x. Some (g x)) xs) = Some (map g xs)" for g :: "'a \<Rightarrow> 'b" by (induction xs) simp_all
  ultimately show ?thesis by metis
qed

section \<open>Reading the table back\<close>

fun text_lines :: "string \<Rightarrow> string list" where
  "text_lines [] = []"
| "text_lines (c # cs) =
     (if c = newline then [] # text_lines cs else case text_lines cs of [] \<Rightarrow> [[c]] | l # ls \<Rightarrow> (c # l) # ls)"

definition read_sample :: "string \<Rightarrow> latency_sample option" where
  "read_sample line =
     (case map parse_u64 (split_comma line) of
        [Inr a, Inr b, Inr c, Inr d] \<Rightarrow> Some \<lparr>ls_sequence = a, ls_planned_ns = b, ls_completion_ns = c, ls_latency_ns = d\<rparr>
      | _ \<Rightarrow> None)"

definition read_samples :: "string \<Rightarrow> latency_sample list option" where
  "read_samples s =
     (case text_lines s of
        h # ls \<Rightarrow> if h = ''sequence,planned_ns,completion_ns,latency_ns'' then those (map read_sample ls) else None
      | [] \<Rightarrow> None)"

definition fits_u64 :: "latency_sample \<Rightarrow> bool" where
  "fits_u64 x \<longleftrightarrow> ls_sequence x \<le> u64_max \<and> ls_planned_ns x \<le> u64_max \<and> ls_completion_ns x \<le> u64_max \<and> ls_latency_ns x \<le> u64_max"

lemma text_lines_line: "newline \<notin> set l \<Longrightarrow> text_lines (l @ newline # rest) = l # text_lines rest"
  by (induction l) auto

lemma show_nat_no_newline: "newline \<notin> set (show_nat n)"
  using show_nat_all_digits [of n] by (auto simp: list_all_iff is_digit_def to_digit_def)

lemma read_sample_line:
  assumes "fits_u64 x" and "l = show_nat (ls_sequence x) @ '','' @ show_nat (ls_planned_ns x) @ '','' @ show_nat (ls_completion_ns x) @ '','' @ show_nat (ls_latency_ns x)"
  shows "read_sample l = Some x"
proof -
  have "split_comma l = map show_nat [ls_sequence x, ls_planned_ns x, ls_completion_ns x, ls_latency_ns x]"
    using split_comma_append no_comma split_comma_no_comma by (simp add: assms(2))
  then show ?thesis using assms(1) by (cases x) (simp add: read_sample_def fits_u64_def)
qed

lemma text_lines_samples:
  "list_all fits_u64 samples \<Longrightarrow> those (map read_sample (text_lines (concat (map sample_line samples)))) = Some samples"
proof (induction samples)
  case (Cons x xs)
  let ?l = "show_nat (ls_sequence x) @ '','' @ show_nat (ls_planned_ns x) @ '','' @ show_nat (ls_completion_ns x) @ '','' @ show_nat (ls_latency_ns x)"
  have "text_lines (?l @ newline # concat (map sample_line xs)) = ?l # text_lines (concat (map sample_line xs))"
    by (rule text_lines_line) (simp add: show_nat_no_newline)
  moreover have "sample_line x @ r = ?l @ newline # r" for r by (simp add: sample_line_def)
  ultimately have "text_lines (concat (map sample_line (x # xs))) = ?l # text_lines (concat (map sample_line xs))" by simp
  with Cons read_sample_line [of x ?l] show ?case by simp
qed simp

text \<open>
  What the tail-latency program writes can be read back. For a revision that is plain text, \<open>write_result\<close>
  does not panic and prints a JSON text that is read as the value of the settings, the provenance, and for
  every load its rates, its pause, its workload and its percentiles; and the table of the samples of a load,
  read line by line, gives back the samples.
\<close>

theorem latency_files_readable:
  assumes "list_all plain_char (git_rev p)" and "list_all (\<lambda>l. list_all fits_u64 (lr_samples l)) loads"
  shows "(\<exists>text. latency_write_result cfg f common_max own_max loads p = Some text \<and>
      read_json text = Some (report_value cfg f common_max own_max (map (\<lambda>l. (l, the (compute_stats (lr_samples l)))) loads) p)) \<and>
    list_all (\<lambda>l. read_samples (write_samples (lr_samples l)) = Some (lr_samples l)) loads"
proof
  have "those (map (\<lambda>l. compute_stats (lr_samples l)) loads) = Some (map (\<lambda>l. the (compute_stats (lr_samples l))) loads)"
    by (rule those_total) (rule compute_stats_total)
  then show "\<exists>text. latency_write_result cfg f common_max own_max loads p = Some text \<and>
      read_json text = Some (report_value cfg f common_max own_max (map (\<lambda>l. (l, the (compute_stats (lr_samples l)))) loads) p)"
    using read_written [OF latency_report_writes [OF assms(1)]] by (simp add: latency_write_result_def zip_map2 zip_same_conv_map comp_def)
  have "read_samples (write_samples xs) = Some xs" if "list_all fits_u64 xs" for xs
    using text_lines_samples [OF that] text_lines_line [of "''sequence,planned_ns,completion_ns,latency_ns''"]
    by (simp add: read_samples_def write_samples_def)
  with assms(2) show "list_all (\<lambda>l. read_samples (write_samples (lr_samples l)) = Some (lr_samples l)) loads" by (simp add: list_all_iff)
qed

definition example_load :: load_result where
  "example_load =
     \<lparr>lr_load_pct = 50, lr_target_rate = 1, lr_own_max = 2, lr_own_utilization = 1, lr_actual_rate = 1, lr_rate_valid = True,
      lr_workload_valid = True, lr_valid_run = True, lr_measurement_epoch_unix_ns = 7, lr_clock_anchor_uncertainty_ns = 0,
      lr_pause_check = None, lr_samples = [\<lparr>ls_sequence = 3, ls_planned_ns = 10, ls_completion_ns = 12, ls_latency_ns = 2\<rparr>],
      lr_workload = \<lparr>counters = \<lparr>allocations = 0, allocated_bytes = 0, deallocations = 0, deallocated_bytes = 0\<rparr>,
        retained_objects = 0, retained_live_bytes = 0, retained_checksum = 0\<rparr>\<rparr>"

theorem latency_files_readable_witness:
  "\<exists>text j. latency_write_result example_latency_config False None 2 [example_load] (provenance_current None None) = Some text \<and>
     read_json text = Some j \<and> read_samples (write_samples (lr_samples example_load)) = Some (lr_samples example_load)"
proof -
  have "list_all plain_char (git_rev (provenance_current None None))" by (simp add: provenance_current_def plain_char_def)
  moreover have "list_all (\<lambda>l. list_all fits_u64 (lr_samples l)) [example_load]" by (simp add: example_load_def fits_u64_def)
  ultimately show ?thesis using latency_files_readable [of "provenance_current None None" "[example_load]" example_latency_config False None 2] by auto
qed

end
