(* ===== verification/Baseline_Metrics.thy ===== *)
theory Baseline_Metrics
  imports Json_Text H2h_Rounds
begin

text \<open>
  The throughput baseline (\<open>src/bin/baseline_metrics.rs\<close>): the lenient command line, the scenarios with
  what they publish and what their handlers do, the rows and the markdown report. The results of the
  publishing calls are thrown away by the program; the number of handled events and the clock are read at
  ticks of an environment.
\<close>

section \<open>Command line\<close>

text \<open>An option that is not known, that has no value or whose value is not a number is passed over.\<close>

fun baseline_args :: "nat \<times> nat \<Rightarrow> string list \<Rightarrow> nat \<times> nat" where
  "baseline_args c [] = c"
| "baseline_args (events, buffer) (a # args) =
     (if a = ''--events'' then
        (case args of
           [] \<Rightarrow> (events, buffer)
         | v # rest \<Rightarrow> baseline_args (case parse_u64 (drop_underscores v) of Inr n \<Rightarrow> n | Inl _ \<Rightarrow> events, buffer) rest)
      else if a = ''--buffer'' then
        (case args of
           [] \<Rightarrow> (events, buffer)
         | v # rest \<Rightarrow> baseline_args (events, case parse_u64 v of Inr n \<Rightarrow> n | Inl _ \<Rightarrow> buffer) rest)
      else baseline_args (events, buffer) args)"

definition baseline_parse_args :: "string list \<Rightarrow> nat \<times> nat" where
  "baseline_parse_args args = baseline_args (2000000, 1024) args"

section \<open>Scenarios\<close>

datatype baseline_scenario = Spsc bool | SpscBatch nat | Mpsc nat | WorkerPool nat | Pipeline2 | Pipeline3

fun scenario_name :: "baseline_scenario \<Rightarrow> string" where
  "scenario_name (Spsc padded) = (if padded then ''SPSC BusySpin pad=128'' else ''SPSC BusySpin pad=none'')"
| "scenario_name (SpscBatch batch) = ''SPSC BatchBusySpin batch='' @ show_nat batch"
| "scenario_name (Mpsc producers) = ''MPSC BusySpin producers='' @ show_nat producers"
| "scenario_name (WorkerPool workers) = ''WorkerPool BusySpin workers='' @ show_nat workers"
| "scenario_name Pipeline2 = ''Pipeline stages=2 BusySpin''"
| "scenario_name Pipeline3 = ''Pipeline stages=3 BusySpin''"

text \<open>
  What the publishing threads ask for, one list of chunks (base and length) per thread; \<open>None\<close> is a loop that
  never ends or a division by zero.
\<close>

definition single_requests :: "nat \<Rightarrow> nat \<Rightarrow> (nat \<times> nat) list" where
  "single_requests base n = map (\<lambda>i. (base + i, 1)) [0..<n]"

fun baseline_requests :: "baseline_scenario \<Rightarrow> nat \<Rightarrow> (nat \<times> nat) list list option" where
  "baseline_requests (SpscBatch batch) events = map_option (\<lambda>cs. [cs]) (chunk_loop batch events 0)"
| "baseline_requests (Mpsc producers) events =
     (if producers = 0 then None
      else let per = events div producers in Some (map (\<lambda>p. single_requests (p * per) per) [0..<producers]))"
| "baseline_requests _ events = Some [single_requests 0 events]"

text \<open>The number the main thread waits for and reports, and how long it waits, in nanoseconds.\<close>

fun baseline_total :: "baseline_scenario \<Rightarrow> nat \<Rightarrow> nat" where
  "baseline_total (Mpsc producers) events = events div producers * producers"
| "baseline_total _ events = events"

fun baseline_timeout :: "baseline_scenario \<Rightarrow> nat" where
  "baseline_timeout (Spsc padded) = 30 * 1000000000"
| "baseline_timeout (SpscBatch batch) = 30 * 1000000000"
| "baseline_timeout _ = 60 * 1000000000"

text \<open>The handlers: one stage counts, the stages before it add one to the value.\<close>

definition count_event :: "i64 \<times> nat \<Rightarrow> i64 \<times> nat" where
  "count_event = (\<lambda>(v, counter). (v, counter + 1))"

definition add_event :: "i64 \<times> nat \<Rightarrow> i64 \<times> nat" where
  "add_event = (\<lambda>(v, counter). (add_i64 v 1, counter))"

fun baseline_stages :: "baseline_scenario \<Rightarrow> (i64 \<times> nat \<Rightarrow> i64 \<times> nat) list" where
  "baseline_stages Pipeline2 = [add_event, count_event]"
| "baseline_stages Pipeline3 = [add_event, add_event, count_event]"
| "baseline_stages _ = [count_event]"

section \<open>Rows\<close>

record baseline_row =
  row_scenario :: string
  row_events :: nat
  row_elapsed_s :: f64
  row_melem_s :: f64
  row_ok :: bool

definition melem :: "nat \<Rightarrow> nat \<Rightarrow> f64" where
  "melem events ns =
     (let secs = max (as_secs_f64 ns) (round_f64 (1 / 1000000000000)) in div_f64 (div_f64 (as_f64 events) secs) 1000000)"

record baseline_env =
  be_counter :: "nat \<Rightarrow> nat"
  be_clock :: "nat \<Rightarrow> nat"
  be_producer_panicked :: bool

text \<open>\<open>None\<close> is a run without a row: a wait that has not returned, or the panic of a join.\<close>

definition baseline_run :: "nat \<Rightarrow> baseline_env \<Rightarrow> baseline_scenario \<Rightarrow> nat \<Rightarrow> baseline_row option" where
  "baseline_run fuel env sc events =
     (case baseline_requests sc events of
        None \<Rightarrow> None
      | Some _ \<Rightarrow>
          if be_producer_panicked env then None
          else (let total = baseline_total sc events in
                map_option (\<lambda>(ok, t).
                  let ns = be_clock env t - be_clock env 0
                  in \<lparr>row_scenario = scenario_name sc, row_events = total, row_elapsed_s = as_secs_f64 ns,
                      row_melem_s = melem total ns, row_ok = ok\<rparr>)
                  (wait_count fuel (be_counter env) (be_clock env) total (baseline_timeout sc) 1)))"

text \<open>The plan of \<open>main\<close>: a warm-up run whose row is thrown away, then ten rows.\<close>

definition baseline_plan :: "nat \<Rightarrow> (baseline_scenario \<times> nat) list" where
  "baseline_plan events =
     [(Spsc False, events), (Spsc True, events), (SpscBatch 64, events), (SpscBatch 256, events), (Mpsc 2, events), (Mpsc 4, events),
      (WorkerPool 2, events), (WorkerPool 4, events), (Pipeline2, events), (Pipeline3, events div 2)]"

definition baseline_rows :: "nat \<Rightarrow> (nat \<Rightarrow> baseline_env) \<Rightarrow> nat \<Rightarrow> baseline_row list option" where
  "baseline_rows fuel env events =
     Option.bind (baseline_run fuel (env 0) (Spsc False) 50000) (\<lambda>_.
       those (map (\<lambda>(i, sc, n). baseline_run fuel (env (i + 1)) sc n) (enumerate 0 (baseline_plan events))))"

section \<open>The report\<close>

definition row_line :: "baseline_row \<Rightarrow> string" where
  "row_line r =
     ''| '' @ row_scenario r @ '' | '' @ show_nat (row_events r) @ '' | '' @ show_fixed 3 (row_elapsed_s r) @ '' | **'' @
     show_fixed 2 (row_melem_s r) @ ''** | '' @ (if row_ok r then ''yes'' else ''NO'') @ '' |'' @ [newline]"

definition stamp :: "nat option \<Rightarrow> string" where
  "stamp now = ''unix'' @ show_nat (case now of None \<Rightarrow> 0 | Some secs \<Rightarrow> secs)"

text \<open>The output of a command, or \<open>unknown\<close> when it cannot be run or is not text.\<close>

definition command_text :: "string option \<Rightarrow> string" where
  "command_text out = (case out of None \<Rightarrow> ''unknown'' | Some s \<Rightarrow> s)"

definition text_row :: "string \<Rightarrow> string" where
  "text_row s = s @ [newline]"

text \<open>Some characters of the report take more than one byte.\<close>

definition format_markdown :: "string \<Rightarrow> string \<Rightarrow> string \<Rightarrow> string \<Rightarrow> nat \<Rightarrow> nat \<Rightarrow> baseline_row list \<Rightarrow> string" where
  "format_markdown stamp_text host rustc git events buffer rows = concat
     ([text_row ''# BadBatch post-modernization throughput baseline'', [newline],
       text_row (''- **UTC stamp**: `'' @ stamp_text @ ''`''),
       text_row (''- **Host**: `'' @ host @ ''`''),
       text_row (''- **rustc**: `'' @ rustc @ ''`''),
       text_row (''- **git**: `'' @ git @ ''`''),
       text_row (''- **Config**: events'' @ [CHR 0xE2, CHR 0x89, CHR 0x88] @ show_nat events @ '', buffer='' @ show_nat buffer @
         '', wait=`BusySpinWaitStrategy`''),
       text_row ''- **Method**: wall-clock publish-all + wait for consumer count; `cargo run --release`'',
       text_row ''- **Generator**: `src/bin/baseline_metrics.rs`'', [newline],
       text_row ''| Scenario | Events | Time (s) | Throughput (Melem/s) | OK |'',
       text_row ''|----------|-------:|---------:|---------------------:|:--:|''] @
      map row_line rows @
      [[newline], text_row ''## Interpretation notes'', [newline],
       text_row ''- `pad=none` vs `pad=128`: false-sharing vs working-set tradeoff (esp. Apple Silicon).'',
       text_row ''- `BatchBusySpin`: range publish amortizes coordination (closer to LMAX batch paths).'',
       text_row ''- `MPSC`: multi-producer CAS claim + bitmap availability.'',
       text_row ''- `WorkerPool`: same-stage work-sharing (one handler per sequence), not fan-out.'',
       text_row ''- `Pipeline`: multi-stage dependency via `and_then`.'',
       text_row (''- Single-run wall-clock; re-run 3'' @ [CHR 0xC3, CHR 0x97] @ '' and take median for serious comparisons.''),
       [newline], text_row ''## How to reproduce'', [newline], text_row ''```bash'',
       text_row (''RUSTFLAGS='' @ quoted ''-C target-cpu=native'' @
         '' cargo run --release --bin baseline_metrics -- --events 2_000_000 --buffer 1024''),
       text_row ''```''])"

text \<open>
  \<open>main\<close>: the report that is printed, when all three files could be written (a failed write is a panic).
\<close>

definition baseline_main ::
    "nat \<Rightarrow> (nat \<Rightarrow> baseline_env) \<Rightarrow> nat option \<Rightarrow> string option \<Rightarrow> string option \<Rightarrow> string option \<Rightarrow> (string \<Rightarrow> bool) \<Rightarrow> string list \<Rightarrow>
     string option" where
  "baseline_main fuel env now uname rustc git_head write_file args =
     (let (events, buffer) = baseline_parse_args args; st = stamp now in
      Option.bind (baseline_rows fuel env events) (\<lambda>rows.
        if list_all write_file [''target/baseline/metrics_'' @ st @ ''.md'', ''benches/results/baseline_'' @ st @ ''.md'', ''benches/results/baseline_latest.md'']
        then Some (format_markdown st (command_text uname) (command_text rustc) (command_text git_head) events buffer rows)
        else None))"

section \<open>What is published and what is counted\<close>

definition valid_scenario :: "baseline_scenario \<Rightarrow> bool" where
  "valid_scenario sc = (case sc of SpscBatch batch \<Rightarrow> 0 < batch | Mpsc producers \<Rightarrow> 0 < producers | _ \<Rightarrow> True)"

definition requested_values :: "(nat \<times> nat) list list \<Rightarrow> nat list" where
  "requested_values rs = concat (map chunk_values (concat rs))"

lemma single_requests_values: "concat (map chunk_values (single_requests base n)) = [base..<base + n]"
proof -
  have "concat (map chunk_values (single_requests base n)) = map (\<lambda>i. base + i) [0..<n]"
    by (simp add: single_requests_def chunk_values_upt comp_def upt_rec concat_map_singleton)
  also have "\<dots> = [base..<base + n]" by (simp add: map_add_upt add.commute)
  finally show ?thesis .
qed

lemma producer_ranges: "concat (map (\<lambda>p. [p * per..<p * per + per]) [0..<n]) = [0..<n * per]"
proof (induction n)
  case (Suc n)
  have "[0..<n * per] @ [n * per..<n * per + per] = [0..<Suc n * per]"
    by (metis add.commute le0 mult_Suc upt_add_eq_append)
  with Suc show ?case by simp
qed simp

lemma concat_map_concat: "concat (map f (concat (map g xs))) = concat (map (\<lambda>x. concat (map f (g x))) xs)"
  by (induction xs) simp_all

lemma those_exists: "(\<And>x. x \<in> set xs \<Longrightarrow> \<exists>y. f x = Some y) \<Longrightarrow> \<exists>ys. those (map f xs) = Some ys"
  by (induction xs) (simp, fastforce)

lemma those_SomeD: "those ys = Some zs \<Longrightarrow> ys = map Some zs"
  by (induction ys arbitrary: zs) (auto split: option.splits)

lemma baseline_requests_cover:
  assumes "valid_scenario sc"
  shows "\<exists>rs. baseline_requests sc events = Some rs \<and> requested_values rs = [0..<baseline_total sc events]"
proof (cases sc)
  case (SpscBatch batch)
  then obtain cs where "chunk_loop batch events 0 = Some cs" "concat (map chunk_values cs) = [0..<events]"
    using chunk_loop_covers [of batch events 0] assms by (auto simp: valid_scenario_def)
  with SpscBatch show ?thesis by (simp add: requested_values_def)
next
  case (Mpsc producers)
  let ?per = "events div producers"
  have "concat (map chunk_values (concat (map (\<lambda>p. single_requests (p * ?per) ?per) [0..<producers]))) = [0..<producers * ?per]"
    by (simp only: concat_map_concat single_requests_values producer_ranges)
  moreover have "baseline_total sc events = producers * ?per" using Mpsc by simp
  ultimately show ?thesis using Mpsc assms by (simp add: requested_values_def valid_scenario_def Let_def mult.commute [of "events div producers"])
qed (simp_all add: requested_values_def single_requests_values [of 0, simplified])

text \<open>One event through all stages of a scenario is counted once, whatever its value.\<close>

definition handle_event :: "baseline_scenario \<Rightarrow> i64 \<Rightarrow> nat \<Rightarrow> i64 \<times> nat" where
  "handle_event sc v counter = fold (\<lambda>f. f) (baseline_stages sc) (v, counter)"

lemma handle_event_counts: "snd (handle_event sc v counter) = counter + 1"
  by (cases sc) (simp_all add: handle_event_def count_event_def add_event_def)

lemma counted_once: "fold (\<lambda>v counter. snd (handle_event sc v counter)) vs counter = counter + length vs"
  by (induction vs arbitrary: counter) (simp_all add: handle_event_counts)

lemma wait_count_reached:
  assumes "wait_count fuel counter clock target timeout t = Some (True, u)"
  shows "\<exists>v. target \<le> counter v"
proof -
  have "\<exists>v. True \<and> wait_body counter clock target timeout (clock t) v = Inl (True, u)"
    using assms unfolding wait_count_def by (rule poll_inv [where I = "\<lambda>_. True"]) auto
  then show ?thesis by (auto simp: wait_body_def split: if_splits intro: leI)
qed

lemma baseline_run_row:
  assumes "baseline_run fuel env sc events = Some r"
  shows "row_scenario r = scenario_name sc \<and> row_events r = baseline_total sc events \<and>
    (row_ok r \<longrightarrow> (\<exists>t. baseline_total sc events \<le> be_counter env t))"
  using assms wait_count_reached by (auto simp: baseline_run_def Let_def split: option.splits if_splits)

lemma baseline_plan_valid: "(sc, n) \<in> set (baseline_plan events) \<Longrightarrow> valid_scenario sc"
  by (auto simp: baseline_plan_def valid_scenario_def)

text \<open>
  A row of the baseline says what was run. When \<open>main\<close> gets to its report it has ten rows; row \<open>i\<close> names the
  \<open>i\<close>-th scenario of the plan, the threads of that scenario have asked for the values \<open>0\<close> to the reported number
  less one, each exactly once, an event is counted once by the stages of the scenario, and \<open>yes\<close> is printed
  only if the counter has reached the reported number.
\<close>

theorem baseline_rows_meaning:
  assumes "baseline_rows fuel env events = Some rows" and "i < length (baseline_plan events)"
    and "baseline_plan events ! i = (sc, n)"
  shows "length rows = 10 \<and> row_scenario (rows ! i) = scenario_name sc \<and>
    (\<exists>rs. baseline_requests sc n = Some rs \<and> requested_values rs = [0..<row_events (rows ! i)]) \<and>
    fold (\<lambda>v counter. snd (handle_event sc v counter)) (map int [0..<row_events (rows ! i)]) 0 = row_events (rows ! i) \<and>
    (row_ok (rows ! i) \<longrightarrow> (\<exists>t. row_events (rows ! i) \<le> be_counter (env (i + 1)) t))"
proof -
  have "those (map (\<lambda>(i, sc, n). baseline_run fuel (env (i + 1)) sc n) (enumerate 0 (baseline_plan events))) = Some rows"
    using assms(1) by (auto simp: baseline_rows_def bind_eq_Some_conv)
  then have rows: "map (\<lambda>(i, sc, n). baseline_run fuel (env (i + 1)) sc n) (enumerate 0 (baseline_plan events)) = map Some rows"
    by (rule those_SomeD)
  then have len: "length rows = length (baseline_plan events)" by (metis length_enumerate length_map)
  from arg_cong [OF rows, of "\<lambda>xs. xs ! i"] assms(2,3) len
  have run: "baseline_run fuel (env (i + 1)) sc n = Some (rows ! i)" by (simp add: nth_enumerate_eq)
  have "valid_scenario sc" using assms(2,3) baseline_plan_valid nth_mem by metis
  with baseline_run_row [OF run] baseline_requests_cover [of sc n] len show ?thesis
    by (simp add: counted_once baseline_plan_def)
qed

definition example_baseline_env :: baseline_env where
  "example_baseline_env = \<lparr>be_counter = \<lambda>_. 50000, be_clock = \<lambda>t. t, be_producer_panicked = False\<rparr>"

lemma example_baseline_run:
  assumes "valid_scenario sc" and "baseline_total sc n \<le> 50000"
  shows "\<exists>r. baseline_run 1 example_baseline_env sc n = Some r"
proof -
  obtain rs where "baseline_requests sc n = Some rs" using baseline_requests_cover [OF assms(1)] by blast
  with assms(2) show ?thesis
    by (simp add: baseline_run_def example_baseline_env_def wait_count_def wait_body_def Let_def)
qed

theorem baseline_rows_meaning_witness:
  "\<exists>rows. baseline_rows 1 (\<lambda>_. example_baseline_env) 8 = Some rows \<and> length rows = 10 \<and> row_scenario (rows ! 4) = ''MPSC BusySpin producers=2''"
proof -
  have "\<exists>r. baseline_run 1 example_baseline_env sc n = Some r" if "(sc, n) \<in> set (baseline_plan 8)" for sc n
    using that by (intro example_baseline_run baseline_plan_valid [OF that]) (auto simp: baseline_plan_def)
  then have "\<exists>rows. those (map (\<lambda>(i, sc, n). baseline_run 1 example_baseline_env sc n) (enumerate 0 (baseline_plan 8))) = Some rows"
    by (intro those_exists) (auto simp: in_set_enumerate_eq, metis nth_mem)
  moreover have "\<exists>r. baseline_run 1 example_baseline_env (Spsc False) 50000 = Some r"
    by (rule example_baseline_run) (simp_all add: valid_scenario_def)
  ultimately obtain rows where rows: "baseline_rows 1 (\<lambda>_. example_baseline_env) 8 = Some rows"
    by (auto simp: baseline_rows_def)
  have plan: "4 < length (baseline_plan 8)" "baseline_plan 8 ! 4 = (Mpsc 2, 8)" by (simp_all add: baseline_plan_def)
  have "scenario_name (Mpsc 2) = ''MPSC BusySpin producers=2''" by code_simp
  with baseline_rows_meaning [OF rows plan] rows show ?thesis by auto
qed

end
