(* ===== verification/Spec2Isabelle.thy ===== *)
theory Spec2Isabelle
  imports Pipeline Ring_Spec Event_Flow Topology Consumer_Threads Adapters
    Breakdown_Json H2h_Json Latency_Json Baseline_Metrics
begin

text \<open>
  BadBatch is an in-process event pipeline after the LMAX Disruptor: producers claim sequence numbers,
  write the events into a pre-allocated ring and publish them; consumers wait at barriers for published
  sequences, handle the events and move their own sequence forward, which in turn makes room for the
  producers. This development models the library under \<open>src/src/disruptor/\<close> (paths below are relative
  to it) and the five programs under \<open>src/src/bin/\<close> that measure it, and proves what makes them correct.

  \<^bold>\<open>The parts and how they act together.\<close> A \<open>Sequence\<close> is a shared counter. A ring buffer stores the
  events. A sequencer (single- or multi-producer) hands out claims and keeps the claimed position within
  one ring of the slowest registered (gating) consumer; the multi-producer one also records which claimed
  sequences have been published. A producer handle claims, updates and publishes. A barrier waits, by a
  wait strategy, until a sequence is published and passed by the consumers it depends on. The consumer
  loops (sequential, read-only, worker pool), the pollers and the event processor sit on barriers; the
  builder and the classic DSL assemble all of this and start and stop the threads. Failures and panics
  poison the sequencer, which producers see.

  \<^bold>\<open>How the code is represented.\<close> Sequence numbers are integers with the wrap-around of \<open>i64\<close> written out
  (\<open>add_i64\<close> and so on of \<open>Prelude\<close>); bitmap words are 64-bit words. A \<open>Sequence\<close> is a reference into a
  store. Structures are records, enums datatypes, \<open>Result\<close> a sum, an outer option of a result is a loop
  that has not returned yet, an inner one a panic that unwinds. Concurrency is explicit. A loop of one
  thread reads the shared memory through a trajectory (a function from time to state, one tick per atomic
  load), so a theorem over all trajectories is one over all interleavings with the other threads; the
  claims of the multi-producer sequencer and of the worker pool are machines of their atomic steps whose
  interleavings are step relations with reachability. Loops that may spin have fuel (\<open>poll\<close> of \<open>Prelude\<close>);
  no safety statement depends on its amount, and where a loop is claimed to return, enough fuel is
  computed from the time at which the awaited event happens (\<open>poll_returns\<close>). The scans of the
  availability record carry a fuel that the theorems show to suffice. User code (handlers, closures,
  translators, factories) and third-party crates (\<open>arc-swap\<close>, \<open>parking_lot\<close>, \<open>core_affinity\<close>) are
  parameters; what is assumed of \<open>arc-swap\<close> is \<open>rcu_spec\<close> and \<open>cas_spec\<close> in \<open>Gating\<close>. Memory orderings
  are not modelled: every atomic operation is sequentially consistent.

  The measuring programs count in \<open>u64\<close>, \<open>u128\<close> and \<open>usize\<close>; there these are natural numbers, with the
  saturating, wrapping and checked operations written out in \<open>Harness\<close>. An \<open>f64\<close> is the rational number it
  denotes, and every operation rounds to the nearest representable value, ties to even, with 53 bits of
  precision (\<open>Float64\<close>); overflow to infinity and subnormal results are out of the range the programs reach.
  What the main thread of such a program sees of other threads, of the clock and of the operating system is
  an environment of functions of time.

  \<^bold>\<open>The theories.\<close>
  \<^item> \<open>Prelude\<close>: machine integers, polling loops, generic lemmas. \<open>Disruptor_Types\<close>: \<open>mod.rs\<close>, \<open>failure.rs\<close>,
    \<open>producer_type.rs\<close>.
  \<^item> \<open>Sequences\<close> (\<open>sequence.rs\<close>): the counter operations and the minimum over a slice; a stale minimum is a
    safe one.
  \<^item> \<open>Ring_Buffer\<close> (\<open>ring_buffer.rs\<close>): storage layouts, indexing, the batch iterator; access stays in
    bounds and a batch touches each slot once. The array laws are a locale, interpreted on the ring.
  \<^item> \<open>Wait_Strategy\<close> (\<open>wait_strategy.rs\<close>): the four strategies and the trait's default waits; the polling
    strategies agree, no wake-up is lost, the yielding strategy spins as often as it says.
  \<^item> \<open>Gating\<close>, \<open>Single_Producer\<close>, \<open>Availability\<close>, \<open>Multi_Producer\<close>, \<open>Sequencer\<close> (\<open>sequencer.rs\<close>): the gating
    list, both sequencers with every claim path, the publication record as flags and as a parity bitmap,
    the enum dispatch. Claims partition the sequence space and never overrun a consumer; the record tells
    exactly what is published; word-wise publication and scanning agree with the one-by-one reference;
    claims return once there is room. The contract of claiming is the locale \<open>claim_contract\<close>, interpreted
    for blocking and try-claims of both sequencers.
  \<^item> \<open>Ring_Spec\<close>: an abstract bounded broadcast ring and the refinement proof for the multi-producer
    sequencer. \<open>Event_Flow\<close>: the same system with the ring its threads write and read; what a consumer
    reads is what the producer of that sequence published, although slots are reused.
  \<^item> \<open>Producer\<close> (\<open>producer.rs\<close>): publishing writes exactly the claimed slot; a panic poisons.
  \<^item> \<open>Barrier\<close> (\<open>sequence_barrier.rs\<close>): all ways of waiting; only published sequences come out. One
    locale states what a wait promises and is interpreted for each way of waiting.
  \<^item> \<open>Consumer_Engine\<close> and \<open>Worker_Pool\<close> (\<open>consumer_engine.rs\<close>): in-order delivery, commit and failure
    accounting of the sequential loop, the read-only loop as a special case, exactly-once processing of a
    pool under all interleavings.
  \<^item> \<open>Handlers\<close> (\<open>event_handler.rs\<close>, \<open>exception_handler.rs\<close>), \<open>Event_Processor\<close> (\<open>event_processor.rs\<close>) and
    \<open>Event_Poller\<close> (\<open>event_poller.rs\<close>): the callbacks, \<open>run\<close> and the probe, pull-side consumption.
  \<^item> \<open>Pipeline\<close>: the environment conditions of the barrier discharged by the running multi-producer system.
  \<^item> \<open>Builder\<close> (\<open>builder/fluent.rs\<close>, \<open>builder/core.rs\<close>, \<open>builder/consumer.rs\<close>): typed chains of builder calls
    and the assembly; a chain that type-checks builds what it reads as. \<open>Topology\<close>: gating on the last
    stage protects all stages. \<open>Consumer_Threads\<close> (\<open>builder/consumer.rs\<close>): the thread bodies.
  \<^item> \<open>Lifecycle\<close> (\<open>builder/core.rs\<close>, \<open>builder/handle.rs\<close>): drain, stop and the runtime handle. \<open>Dsl\<close>
    (\<open>disruptor.rs\<close>): the classic DSL, with the reentrancy guard of publishing, start and stop.
  \<^item> \<open>Simple_Wait\<close> (\<open>simple_wait_strategy.rs\<close>): the simplified strategies and their adapter, proved to be
    the full strategies by a simulation of the polling loops and interpreted in the contract of a wait.
    \<open>Thread_Management\<close> (\<open>thread_management.rs\<close>): thread contexts, spawning and join on drop.
    \<open>Elegant_Consumer\<close> (\<open>elegant_consumer.rs\<close>): the stand-alone consumer thread; it always joins and
    accounts for panics, and it does not wait for producers. \<open>Adapters\<close>: factories, closure translators,
    constructors and the alert of the blocking strategy, with what the components make of them.
  \<^item> \<open>Float64\<close>, \<open>Harness\<close> and \<open>Handler_Runs\<close>: what the measuring programs share: numbers, parsing of arguments,
    waiting for a counter, pinning, and what a consumer thread of the library makes of a handler.
  \<^item> \<open>Latency_Config\<close>, \<open>Latency_Handler\<close>, \<open>Latency_Stats\<close>, \<open>Latency_Run\<close> (\<open>src/bin/h2h_tail_latency.rs\<close>): the command
    line, which printed options survive; the allocating workload and the handler, which on a thread of the
    library records every measured event once and in order; percentiles, the check of an injected pause and
    the provenance; calibration, the open-loop send loop, and what an exit code of zero certifies.
  \<^item> \<open>H2h_Config\<close>, \<open>H2h_Handlers\<close>, \<open>H2h_Rounds\<close> (\<open>src/bin/h2h_rust.rs\<close>): the command line and the roles of the
    CPUs; checksums, handlers and histograms, where the checksum accepts every correct delivery although it
    wraps; the publishing loops, which send every value once, the rounds, the summary and the exit code.
  \<^item> \<open>H2h_Diagnostics\<close> (\<open>src/bin/h2h_rust.rs\<close>, \<open>sequencer.rs\<close>): what the \<open>bench-round-diagnostics\<close> feature adds: counters of
    waiting claims and probes on the handlers; measuring changes nothing and accounts for every event.
  \<^item> \<open>Pipeline_Breakdown\<close> (\<open>src/bin/pipeline_breakdown.rs\<close>): the stages counted apart, the totals of a round, and the
    counter that is published before the checksum it stands for.
  \<^item> \<open>Direct_Consumer\<close>, \<open>Unicast_Breakdown\<close> (\<open>src/bin/unicast_breakdown.rs\<close>): the hand-written consumer with its own
    gating sequence, the claim, publish and end-to-end phases; a valid end-to-end phase has read every value
    in order; the checksum formula and where its wrap-around goes wrong.
  \<^item> \<open>Json_Text\<close>: a reader of JSON texts, the printing of numbers with a fixed precision, and an algebra of
    lines that are known to be read back. \<open>Breakdown_Json\<close>, \<open>H2h_Json\<close>, \<open>Latency_Json\<close>: the reports of the four
    programs and the table of samples, line by line as the code writes them.
  \<^item> \<open>Baseline_Metrics\<close> (\<open>src/bin/baseline_metrics.rs\<close>): the scenarios, their producers and the rows of the table.
  \<^item> This theory: the properties that span producers, barriers and consumers, and the reports together.

  \<^bold>\<open>Not modelled.\<close> Log output (\<open>internal_log.rs\<close>); memory
  orderings weaker than sequential consistency; \<open>JoinHandle\<close>s and the scheduling of threads beyond the
  order of their steps. Of the measuring programs: the help texts, the calls of \<open>git\<close> and \<open>uname\<close> (their answers
  are parameters) and the file system (paths, directories and the writing of a finished text).
\<close>

section \<open>Producers and barriers together\<close>

text \<open>
  C1: consumers read only what producers have published. In every run of the multi-producer system, with
  racing producers, other consumers and lifecycle calls, a consumer that is registered as a gating
  sequence and waits at its barrier for the successor of its own sequence gets, by whichever way of
  waiting and with whichever strategy, a batch whose sequences have all been published by a producer and
  passed by every consumer it depends on, and this stays so while it works on the batch; the wait does
  not panic.
\<close>

theorem consumers_read_only_published:
  assumes "mp_history k sys" and "watches sys tr" and "own \<in> set (mp_gating (ms_seq (sys 0)))"
    and "\<forall>t. mp_mem (ms_seq (sys t)) own = x" and "- 1 \<le> x"
    and "w \<in> {bar_wait_for pk, bar_wait_for_with_shutdown pk, bar_wait_for_with_timeout pk timeout,
      try_get_available_sequence, stop_wait_for pk stop}"
    and "w fuel tr t (x + 1) = Some (r, t')"
  shows "r \<noteq> None \<and> (\<forall>hi s v. r = Some (Ok hi) \<and> x < s \<and> s \<le> hi \<and> t' \<le> v \<longrightarrow>
    s \<in> ms_published (sys v) \<and> (\<forall>d\<in>set (bar_deps (bw_bar (tr 0))). s \<le> mp_mem (ms_seq (sys v)) d))"
proof -
  have env: "bar_env k (x + 1) tr" using history_bar_env [OF assms(1-3)] assms(4) by blast
  have pos: "0 \<le> x + 1" using assms(5) by simp
  have "\<exists>st. bar_outcome_ok st (x + 1) tr t r t'"
    using assms(6,7)
    by (elim insertE emptyE; simp only:)
      (blast dest: bar_wait.outcome [OF env pos] bar_wait_shutdown.outcome [OF env pos]
        bar_wait_timeout.outcome [OF env pos] bar_try.outcome [OF env pos] stop_wait.outcome [OF env pos])+
  then obtain st where out: "bar_outcome_ok st (x + 1) tr t r t'" by blast
  have "s \<in> ms_published (sys v) \<and> (\<forall>d\<in>set (bar_deps (bw_bar (tr 0))). s \<le> mp_mem (ms_seq (sys v)) d)"
    if h: "r = Some (Ok hi)" "x < s" "s \<le> hi" "t' \<le> v" for hi s v
  proof -
    have rd: "readable (tr v) s" using out h by (auto simp: bar_outcome_ok_def)
    note tr = watched_tracked [OF assms(1,2)]
    obtain d where d: "d \<in> bw_tracked (tr 0)" using tracked_nonempty by (auto simp: bw_tracked_def)
    have le: "s \<le> bw_store (tr v) d" if "d \<in> bw_tracked (tr 0)" for d
      using rd that tr(1) by (auto simp: readable_def)
    then have "s \<le> cursor_of (ms_seq (sys v))" using tr(2) [OF d, of v] d by fastforce
    then have "s \<in> ms_published (sys v)"
      using readable_iff_published [OF assms(1-3) _ h(2)] assms(4) rd watched_sel(2) [OF assms(2)]
      by (auto simp: readable_def)
    moreover have "s \<le> mp_mem (ms_seq (sys v)) d" if "d \<in> set (bar_deps (bw_bar (tr 0)))" for d
    proof -
      have "bar_deps (bw_bar (tr 0)) \<noteq> []" using that by auto
      with that have "d \<in> bw_tracked (tr 0)" by (simp add: bw_tracked_def tracked_def)
      from le [OF this] show ?thesis using watched_sel(1) [OF assms(2)] by simp
    qed
    ultimately show ?thesis by blast
  qed
  moreover have "r \<noteq> None" using out by (cases r) (auto simp: bar_outcome_ok_def)
  ultimately show ?thesis by blast
qed

theorem consumers_read_only_published_witness:
  "bar_wait_for (\<lambda>_. None, \<lambda>_ _. (0, True)) 9 example_watch 0 0 = Some (Some (Ok 0), 7) \<and>
   0 \<in> ms_published (example_history 7)"
proof -
  have run: "bar_wait_for (\<lambda>_. None, \<lambda>_ _. (0, True)) 9 example_watch 0 0 = Some (Some (Ok 0), 7)" by code_simp
  have all: "\<forall>t. mp_mem (ms_seq (example_history t)) 7 = - 1" using example_history_ok(3) by blast
  have "bar_wait_for (\<lambda>_. None, \<lambda>_ _. (0, True)) 9 example_watch 0 (- 1 + 1) = Some (Some (Ok 0), 7)" using run by simp
  from consumers_read_only_published [where pk = "(\<lambda>_. None, \<lambda>_ _. (0, True))" and
      w = "bar_wait_for (\<lambda>_. None, \<lambda>_ _. (0, True))", OF example_history_ok(1)
      example_watch_ok example_history_ok(2) all _ _ this]
  have "0 \<in> ms_published (example_history v)" if "7 \<le> v" for v using that by auto
  with run show ?thesis by blast
qed

section \<open>The reports of the measuring programs\<close>

text \<open>
  C31: every report of the measuring programs can be read back. \<open>render_json\<close> of both breakdown programs prints,
  for any result, a JSON text that a reader takes for exactly the value of the result, with rates within half
  a millionth. The reports of the head-to-head and the tail-latency program, whose labels are not escaped, are
  written without a panic and read back as the value of the configuration and the measurements whenever the
  labels are plain text; and the table of samples of every load, read line by line, gives back the samples.
\<close>

theorem reports_readable:
  assumes "affinity_roles hc = Some roles" and "plain_labels env hc" and "list_all plain_char (hc_pair_id hc)"
    and "list_all plain_round rounds"
    and "list_all plain_char (git_rev p)" and "list_all (\<lambda>l. list_all fits_u64 (lr_samples l)) loads"
  shows "read_json (ub_render_json u) = Some (ub_result_value u) \<and> read_json (pb_render_json b) = Some (pb_result_value b) \<and>
    \<bar>x - rounded 6 x\<bar> \<le> 1 / 2000000 \<and>
    (\<exists>text. write_result env hc rounds s = Some text \<and>
      read_json text = Some (h2h_value env hc [(''pair_id'', JString (hc_pair_id hc))] roles rounds s)) \<and>
    (\<exists>text. latency_write_result cfg f common_max own_max loads p = Some text \<and>
      read_json text = Some (report_value cfg f common_max own_max (map (\<lambda>l. (l, the (compute_stats (lr_samples l)))) loads) p)) \<and>
    list_all (\<lambda>l. read_samples (write_samples (lr_samples l)) = Some (lr_samples l)) loads"
  using breakdown_reports_readable h2h_report_readable [OF assms(1-4)] latency_files_readable [OF assms(5,6)] by blast

theorem reports_readable_witness:
  "\<exists>text j. write_result example_report_env (example_h2h_config\<lparr>hc_pair_id := ''p1''\<rparr>) [] example_summary = Some text \<and>
     read_json text = Some j \<and> read_samples (write_samples (lr_samples example_load)) = Some (lr_samples example_load)"
proof -
  have "list_all plain_char (hc_pair_id (example_h2h_config\<lparr>hc_pair_id := ''p1''\<rparr>))" "list_all plain_round []"
    "list_all plain_char (git_rev (provenance_current None None))"
    "list_all (\<lambda>l. list_all fits_u64 (lr_samples l)) [example_load]"
    by (simp_all add: plain_char_def provenance_current_def example_load_def fits_u64_def)
  from reports_readable [OF example_report_roles example_report_plain this, where s = example_summary]
  have "\<exists>text j. write_result example_report_env (example_h2h_config\<lparr>hc_pair_id := ''p1''\<rparr>) [] example_summary = Some text \<and>
      read_json text = Some j"
    and "list_all (\<lambda>l. read_samples (write_samples (lr_samples l)) = Some (lr_samples l)) [example_load]" by blast+
  then show ?thesis by (simp only: list.pred_inject) blast
qed

end
